(* ===== verification/Prelude.thy ===== *)
theory Prelude
  imports Main "HOL-Library.Word" "HOL-Library.Multiset"
begin

text \<open>
  Shared vocabulary of the development: the fact collections the component theories fill,
  the type names of the machine integers, C-string helpers and the list lemmas that more
  than one component uses.
\<close>

named_theorems queue_simps "equations of the pointer queues"
named_theorems step_simps "equations of the component operations"

type_synonym u8 = "8 word"
type_synonym u32 = "32 word"
type_synonym u64 = "64 word"

section \<open>Machine integers\<close>

text \<open>A \<open>uint\<close> or \<open>unsigned long\<close> value stored into an \<open>int\<close> keeps its low 32 bits.\<close>

abbreviation int_of_u64 :: "u64 \<Rightarrow> 32 word" where
  "int_of_u64 w \<equiv> ucast w"

section \<open>C strings\<close>

text \<open>What a \<open>char*\<close> reader sees of an array of characters: all before the first NUL.\<close>

definition c_string :: "string \<Rightarrow> string" where
  "c_string s = takeWhile (\<lambda>c. c \<noteq> CHR 0x00) s"

section \<open>Lists\<close>

lemma list_update_swap_mset:
  "i < length xs \<Longrightarrow> j < length xs \<Longrightarrow> mset (xs[i := xs ! j, j := xs ! i]) = mset xs"
  by (rule mset_swap)

lemma nth_list_update_if:
  "i < length xs \<Longrightarrow> xs[i := x] ! j = (if i = j then x else xs ! j)"
  by (cases "i = j") auto

lemma sorted_map_nth:
  "sorted (map f xs) \<longleftrightarrow> (\<forall>i j. i < j \<longrightarrow> j < length xs \<longrightarrow> f (xs ! i) \<le> f (xs ! j))"
  by (auto simp: sorted_iff_nth_mono_less)

lemma distinct_removed:
  "distinct (as @ x # bs) \<Longrightarrow> distinct (as @ bs) \<and> x \<notin> set (as @ bs)"
  by auto

lemma split_at_mem:
  assumes "x \<in> set xs"
  obtains as bs where "xs = as @ x # bs"
  using assms by (auto simp: in_set_conv_decomp)

lemma remove1_split:
  "x \<notin> set as \<Longrightarrow> remove1 x (as @ x # bs) = as @ bs"
  by (simp add: remove1_append)

text \<open>
  A rearrangement that leaves the cells outside \<open>s..f\<close> alone rearranges the cells inside:
  a property of all cells inside survives it.
\<close>

lemma range_property_kept:
  assumes "mset b = mset a" "\<And>i. i < s \<or> f < i \<Longrightarrow> i < length a \<Longrightarrow> b ! i = a ! i"
    and "\<And>i. s \<le> i \<Longrightarrow> i \<le> f \<Longrightarrow> i < length a \<Longrightarrow> P (a ! i)"
    and "s \<le> i" "i \<le> f" "i < length b"
  shows "P (b ! i)"
proof -
  have len: "length b = length a" using assms(1) by (metis size_mset)
  define mid where "mid xs = take (Suc f - s) (drop s xs)" for xs :: "'a list"
  have parts: "xs = take s xs @ mid xs @ drop (Suc f) xs" if "length xs = length a" for xs
  proof -
    have "drop s xs = mid xs @ drop (Suc f) xs"
      using assms(4,5) by (simp add: mid_def) (metis append_take_drop_id drop_drop le_Suc_eq
          le_add_diff_inverse2 le_trans)
    then show ?thesis by (metis append_take_drop_id)
  qed
  have ends: "take s b = take s a" "drop (Suc f) b = drop (Suc f) a"
    using assms(2) len by (auto intro!: nth_equalityI)
  have "mset (take s b) + mset (mid b) + mset (drop (Suc f) b) =
        mset (take s a) + mset (mid a) + mset (drop (Suc f) a)"
    using parts [of a] parts [of b] len assms(1)
    by (metis add.assoc mset_append)
  then have "mset (mid b) = mset (mid a)" using ends by simp
  then have set_mid: "set (mid b) = set (mid a)" by (metis set_mset_mset)
  have "b ! i \<in> set (mid b)"
    using assms(4-6) by (auto simp: mid_def in_set_conv_nth intro!: exI [of _ "i - s"])
  then have "b ! i \<in> set (mid a)" using set_mid by simp
  then obtain j where "j < Suc f - s" "j < length a - s" "b ! i = a ! (s + j)"
    by (auto simp: mid_def in_set_conv_nth)
  then show ?thesis using assms(3) [of "s + j"] by auto
qed

end
