(* ===== verification/Quicksort.thy ===== *)
theory Quicksort
  imports Prelude
begin

text \<open>
  \<open>_quicksort\<close> of \<open>router.cpp\<close>: the in-place sort of the request's keys by shard. The
  array of \<open>backend_req_t\<close> pointers is a list, an assignment \<open>a[i] = x\<close> is
  \<open>a[i := x]\<close>. Indices are naturals: the one index the code can make negative
  (\<open>r - 1\<close> with \<open>r = start = 0\<close>) only reaches the guard \<open>start >= end\<close>, which returns
  at once for both \<open>-1\<close> and \<open>0\<close>.
\<close>

section \<open>The code\<close>

record backend_req =
  key :: string
  shard_key :: int

text \<open>\<open>while (l<r && tmp->shard_key<=backend_req[r]->shard_key) r--;\<close>\<close>

fun scan_right :: "backend_req list \<Rightarrow> int \<Rightarrow> nat \<Rightarrow> nat \<Rightarrow> nat" where
  "scan_right a k l 0 = 0"
| "scan_right a k l (Suc r) =
     (if l < Suc r \<and> k \<le> shard_key (a ! Suc r) then scan_right a k l r else Suc r)"

text \<open>\<open>while (l<r && tmp->shard_key>=backend_req[l]->shard_key) l++;\<close>\<close>

function scan_left :: "backend_req list \<Rightarrow> int \<Rightarrow> nat \<Rightarrow> nat \<Rightarrow> nat" where
  "scan_left a k l r =
     (if l < r \<and> k \<ge> shard_key (a ! l) then scan_left a k (Suc l) r else l)"
  by pat_completeness auto
termination
  by (relation "measure (\<lambda>(a, k, l, r). r - l)") auto

declare scan_left.simps [simp del]

lemma scan_right_bounds: "l \<le> r \<Longrightarrow> l \<le> scan_right a k l r \<and> scan_right a k l r \<le> r"
  by (induction a k l r rule: scan_right.induct) (auto simp: le_Suc_eq)

lemma scan_right_stop:
  "scan_right a k l r = j \<Longrightarrow> l < j \<Longrightarrow> shard_key (a ! j) < k"
  by (induction a k l r rule: scan_right.induct) (auto split: if_splits)

lemma scan_right_passed:
  "scan_right a k l r < i \<Longrightarrow> i \<le> r \<Longrightarrow> k \<le> shard_key (a ! i)"
proof (induction a k l r rule: scan_right.induct)
  case (2 a k l r)
  then show ?case by (cases "i = Suc r") (auto split: if_splits)
qed simp

lemma scan_left_bounds: "l \<le> r \<Longrightarrow> l \<le> scan_left a k l r \<and> scan_left a k l r \<le> r"
proof (induction a k l r rule: scan_left.induct)
  case (1 a k l r)
  then show ?case by (subst (1 2) scan_left.simps) auto
qed

lemma scan_left_stop:
  "scan_left a k l r < r \<Longrightarrow> k < shard_key (a ! scan_left a k l r)"
proof (induction a k l r rule: scan_left.induct)
  case (1 a k l r)
  then show ?case by (auto simp: scan_left.simps [of a k l r] split: if_splits)
qed

lemma scan_left_passed:
  "l \<le> i \<Longrightarrow> i < scan_left a k l r \<Longrightarrow> shard_key (a ! i) \<le> k"
proof (induction a k l r rule: scan_left.induct)
  case (1 a k l r)
  then show ?case
    by (cases "i = l") (auto simp: scan_left.simps [of a k l r] split: if_splits)
qed

lemma scan_left_advances:
  "l < r \<Longrightarrow> shard_key (a ! l) \<le> k \<Longrightarrow> l < scan_left a k l r"
  using scan_left_bounds [of "Suc l" r a k] by (simp add: scan_left.simps [of a k l r])

text \<open>
  The outer loop; it ends with \<open>l = r\<close>. An index outside the array is undefined in the
  code; the model stops there, and the calls from \<open>quicksort\<close> below stay inside.
\<close>

function partition_loop ::
  "backend_req list \<Rightarrow> backend_req \<Rightarrow> nat \<Rightarrow> nat \<Rightarrow> backend_req list \<times> nat" where
  "partition_loop a tmp l r =
     (if l < r \<and> r < length a then
        let r' = scan_right a (shard_key tmp) l r;
            a1 = a[l := a ! r'];
            l' = scan_left a1 (shard_key tmp) l r';
            a2 = a1[r' := a1 ! l']
        in partition_loop a2 tmp l' r'
      else (a, r))"
  by pat_completeness auto
termination
proof (relation "measure (\<lambda>(a, tmp, l, r). r - l)", goal_cases)
  case (2 a tmp l r r' a1 l' a2)
  have r': "l \<le> r'" "r' \<le> r" using scan_right_bounds [of l r a "shard_key tmp"] 2 by auto
  have l': "l \<le> l'" "l' \<le> r'" using scan_left_bounds [of l r' a1 "shard_key tmp"] 2 r' by auto
  have "r' < r \<or> l < l'"
  proof (cases "r' = r")
    case True
    then have k: "shard_key (a ! r) < shard_key tmp"
      using scan_right_stop [of a "shard_key tmp" l r r] 2 by simp
    have "shard_key (a1 ! l) \<le> shard_key tmp"
      using 2 True k by simp
    then show ?thesis using scan_left_advances [of l r' a1 "shard_key tmp"] 2 True by simp
  qed (use r' in simp)
  then show ?case using r' l' 2 by auto
qed simp

declare partition_loop.simps [simp del]

lemma partition_loop_done [simp]: "partition_loop a tmp r r = (a, r)"
  by (subst partition_loop.simps) simp

text \<open>The recursion: the pivot goes into the hole, then both sides are sorted.\<close>

lemma partition_loop_bounds:
  "l \<le> r \<Longrightarrow> l \<le> snd (partition_loop a tmp l r) \<and> snd (partition_loop a tmp l r) \<le> r"
proof (induction a tmp l r rule: partition_loop.induct)
  case (1 a tmp l r)
  let ?r = "scan_right a (shard_key tmp) l r"
  let ?a = "a[l := a ! ?r]"
  let ?l = "scan_left ?a (shard_key tmp) l ?r"
  have "l \<le> ?r" "?r \<le> r" using scan_right_bounds [OF 1(2)] by auto
  moreover from this have "l \<le> ?l" "?l \<le> ?r" using scan_left_bounds [of l ?r ?a] by auto
  ultimately show ?case
    using 1(1) [OF _ refl refl refl refl] 1(2)
    by (auto simp: partition_loop.simps [of a tmp l r] Let_def)
qed

function quicksort :: "backend_req list \<Rightarrow> nat \<Rightarrow> nat \<Rightarrow> backend_req list" where
  "quicksort a start fin =
     (if fin \<le> start then a
      else
        let tmp = a ! start;
            (a1, r) = partition_loop a tmp start fin;
            a2 = a1[r := tmp];
            a3 = quicksort a2 start (r - 1)
        in quicksort a3 (r + 1) fin)"
  by pat_completeness auto
termination
proof (relation "measure (\<lambda>(a, s, e). e - s)", goal_cases)
  case (2 a start fin tmp p a1 r a2)
  then have "r = snd p" by (metis snd_conv)
  with 2 show ?case using partition_loop_bounds [of start fin a tmp] by auto
next
  case (3 a start fin tmp p a1 r a2 a3)
  then have "r = snd p" by (metis snd_conv)
  with 3 show ?case using partition_loop_bounds [of start fin a tmp] by auto
qed simp

declare quicksort.simps [simp del]

text \<open>\<open>_quicksort(backend_req, 0, key_num-1)\<close>\<close>

definition sort_reqs :: "backend_req list \<Rightarrow> backend_req list" where
  "sort_reqs a = quicksort a 0 (length a - 1)"

section \<open>Correctness\<close>

text \<open>
  While the loop runs, one cell of the array is a hole whose true content is the pivot:
  \<open>a[l := tmp]\<close> is the array the loop permutes.
\<close>

lemma hole_move:
  assumes "i < length a" "j < length a"
  shows "mset ((a[i := a ! j])[j := x]) = mset (a[i := x])"
  using mset_swap [of j "a[i := x]" i] assms by (cases "i = j") auto

lemma partition_loop_mset:
  "l \<le> r \<Longrightarrow> r < length a \<Longrightarrow> partition_loop a tmp l r = (a', p) \<Longrightarrow>
   length a' = length a \<and> mset (a'[p := tmp]) = mset (a[l := tmp])"
proof (induction a tmp l r arbitrary: a' p rule: partition_loop.induct)
  case (1 a tmp l r)
  show ?case
  proof (cases "l < r")
    case False
    then have "l = r" using 1(2) by simp
    then show ?thesis using 1(3-) by auto
  next
    case True
    let ?r = "scan_right a (shard_key tmp) l r"
    let ?a1 = "a[l := a ! ?r]"
    let ?l = "scan_left ?a1 (shard_key tmp) l ?r"
    let ?a2 = "?a1[?r := ?a1 ! ?l]"
    have b: "l \<le> ?r" "?r \<le> r" using scan_right_bounds [OF 1(2)] by auto
    then have c: "l \<le> ?l" "?l \<le> ?r" using scan_left_bounds [of l ?r ?a1] by auto
    have "partition_loop ?a2 tmp ?l ?r = (a', p)"
      using True 1(3,4) by (simp add: partition_loop.simps [of a tmp l r] Let_def)
    then have "length a' = length ?a2" "mset (a'[p := tmp]) = mset (?a2[?l := tmp])"
      using 1(1) [OF _ refl refl refl refl] True 1(3) b c by auto
    moreover have "mset (?a2[?l := tmp]) = mset (?a1[?r := tmp])"
      using hole_move [of ?r ?a1 ?l tmp] b c 1(3) by simp
    moreover have "mset (?a1[?r := tmp]) = mset (a[l := tmp])"
      using hole_move [of l a ?r tmp] b c 1(3) by simp
    ultimately show ?thesis by simp
  qed
qed

text \<open>Cells outside \<open>l..r\<close> keep their content.\<close>

lemma partition_loop_frame:
  "l \<le> r \<Longrightarrow> r < length a \<Longrightarrow> partition_loop a tmp l r = (a', p) \<Longrightarrow> i < l \<or> r < i \<Longrightarrow>
   a' ! i = a ! i"
proof (induction a tmp l r arbitrary: a' p rule: partition_loop.induct)
  case (1 a tmp l r)
  show ?case
  proof (cases "l < r")
    case False
    then have "l = r" using 1(2) by simp
    then show ?thesis using 1(3-) by auto
  next
    case True
    let ?r = "scan_right a (shard_key tmp) l r"
    let ?a1 = "a[l := a ! ?r]"
    let ?l = "scan_left ?a1 (shard_key tmp) l ?r"
    let ?a2 = "?a1[?r := ?a1 ! ?l]"
    have b: "l \<le> ?r" "?r \<le> r" using scan_right_bounds [OF 1(2)] by auto
    then have c: "l \<le> ?l" "?l \<le> ?r" using scan_left_bounds [of l ?r ?a1] by auto
    have "partition_loop ?a2 tmp ?l ?r = (a', p)"
      using True 1(3,4) by (simp add: partition_loop.simps [of a tmp l r] Let_def)
    then have "a' ! i = ?a2 ! i"
      using 1(1) [OF _ refl refl refl refl] True 1(3,5) b c by auto
    then show ?thesis using b c 1(3,5) True by auto
  qed
qed

text \<open>The loop splits the range around the pivot.\<close>

lemma partition_loop_split:
  assumes "l \<le> r" "r < length a" "partition_loop a tmp l r = (a', p)"
    and "lo \<le> l" "r \<le> hi"
    and "\<And>i. lo \<le> i \<Longrightarrow> i < l \<Longrightarrow> shard_key (a ! i) \<le> shard_key tmp"
    and "\<And>i. r < i \<Longrightarrow> i \<le> hi \<Longrightarrow> shard_key tmp \<le> shard_key (a ! i)"
  shows "(\<forall>i. lo \<le> i \<longrightarrow> i < p \<longrightarrow> shard_key (a' ! i) \<le> shard_key tmp) \<and>
         (\<forall>i. p < i \<longrightarrow> i \<le> hi \<longrightarrow> shard_key tmp \<le> shard_key (a' ! i))"
  using assms
proof (induction a tmp l r arbitrary: a' p rule: partition_loop.induct)
  case (1 a tmp l r)
  show ?case
  proof (cases "l < r")
    case False
    then have "l = r" using 1(2) by simp
    then show ?thesis using 1(3-) by auto
  next
    case True
    let ?k = "shard_key tmp"
    let ?r = "scan_right a ?k l r"
    let ?a1 = "a[l := a ! ?r]"
    let ?l = "scan_left ?a1 ?k l ?r"
    let ?a2 = "?a1[?r := ?a1 ! ?l]"
    have b: "l \<le> ?r" "?r \<le> r" using scan_right_bounds [OF 1(2)] by auto
    then have c: "l \<le> ?l" "?l \<le> ?r" using scan_left_bounds [of l ?r ?a1] by auto
    have rec: "partition_loop ?a2 tmp ?l ?r = (a', p)"
      using True 1(3,4) by (simp add: partition_loop.simps [of a tmp l r] Let_def)
    have left: "shard_key (?a2 ! i) \<le> ?k" if "lo \<le> i" "i < ?l" for i
    proof (cases "i < l")
      case True
      with that b c 1(3) show ?thesis using 1(7) [of i] by simp
    next
      case False
      then have "shard_key (?a1 ! i) \<le> ?k"
        using scan_left_passed [of l i ?a1 ?k ?r] that by simp
      with that b c 1(3) show ?thesis by simp
    qed
    have right: "?k \<le> shard_key (?a2 ! i)" if "?r < i" "i \<le> hi" for i
    proof (cases "r < i")
      case True
      with that b c show ?thesis using 1(8) [of i] by simp
    next
      case False
      then have "?k \<le> shard_key (a ! i)"
        using scan_right_passed [of a ?k l r i] that by simp
      with that b c show ?thesis by simp
    qed
    show ?thesis
      using 1(1) [OF _ refl refl refl refl, of a' p] True 1(3,5,6) b c rec left right by simp
  qed
qed

lemma quicksort_trivial: "fin \<le> start \<Longrightarrow> quicksort a start fin = a"
  by (simp add: quicksort.simps)

text \<open>One call of the recursion, with what its partition loop establishes.\<close>

lemma quicksort_unfold:
  assumes "start < fin" "fin < length a"
  obtains a2 r where
    "quicksort a start fin = quicksort (quicksort a2 start (r - 1)) (r + 1) fin"
    "start \<le> r" "r \<le> fin" "length a2 = length a" "mset a2 = mset a"
    "\<And>i. i < start \<or> fin < i \<Longrightarrow> a2 ! i = a ! i"
    "\<And>i. start \<le> i \<Longrightarrow> i < r \<Longrightarrow> shard_key (a2 ! i) \<le> shard_key (a2 ! r)"
    "\<And>i. r < i \<Longrightarrow> i \<le> fin \<Longrightarrow> shard_key (a2 ! r) \<le> shard_key (a2 ! i)"
proof -
  let ?t = "a ! start"
  obtain a1 r where p: "partition_loop a ?t start fin = (a1, r)" by force
  let ?a2 = "a1[r := ?t]"
  have b: "start \<le> r" "r \<le> fin"
    using partition_loop_bounds [of start fin a ?t] p assms by auto
  have m: "length a1 = length a" "mset ?a2 = mset a"
    using partition_loop_mset [OF _ assms(2) p] assms by auto
  have s: "\<And>i. start \<le> i \<Longrightarrow> i < r \<Longrightarrow> shard_key (a1 ! i) \<le> shard_key ?t"
    "\<And>i. r < i \<Longrightarrow> i \<le> fin \<Longrightarrow> shard_key ?t \<le> shard_key (a1 ! i)"
    using partition_loop_split [OF _ assms(2) p, of start fin] assms by auto
  have f: "a1 ! i = a ! i" if "i < start \<or> fin < i" for i
    using partition_loop_frame [OF _ assms(2) p that] assms by simp
  show thesis
  proof (rule that [of ?a2 r])
    show "quicksort a start fin = quicksort (quicksort ?a2 start (r - 1)) (r + 1) fin"
      using p assms by (simp add: quicksort.simps [of a start fin] Let_def)
  qed (use b m s f assms in \<open>auto simp: nth_list_update_neq\<close>)
qed

lemma quicksort_perm:
  "fin < length a \<Longrightarrow>
   mset (quicksort a start fin) = mset a \<and>
   (\<forall>i. i < start \<or> fin < i \<longrightarrow> quicksort a start fin ! i = a ! i)"
proof (induction "fin - start" arbitrary: a start fin rule: less_induct)
  case less
  show ?case
  proof (cases "start < fin")
    case False
    then show ?thesis by (simp add: quicksort_trivial)
  next
    case True
    obtain a2 r where q: "quicksort a start fin = quicksort (quicksort a2 start (r - 1)) (r + 1) fin"
      and r: "start \<le> r" "r \<le> fin" and a2: "length a2 = length a" "mset a2 = mset a"
        "\<And>i. i < start \<or> fin < i \<Longrightarrow> a2 ! i = a ! i"
      using quicksort_unfold [OF True less.prems] by metis
    let ?a3 = "quicksort a2 start (r - 1)"
    have "mset ?a3 = mset a2 \<and> (\<forall>i. i < start \<or> r - 1 < i \<longrightarrow> ?a3 ! i = a2 ! i)"
      using less.hyps [of "r - 1" start a2] r True less.prems a2 by simp
    moreover from this have "length ?a3 = length a" using a2 by (metis size_mset)
    then have "mset (quicksort ?a3 (r + 1) fin) = mset ?a3 \<and>
        (\<forall>i. i < r + 1 \<or> fin < i \<longrightarrow> quicksort ?a3 (r + 1) fin ! i = ?a3 ! i)"
      using less.hyps [of fin "r + 1" ?a3] r True less.prems by simp
    ultimately show ?thesis using q a2 r by auto
  qed
qed

lemma quicksort_mset: "fin < length a \<Longrightarrow> mset (quicksort a start fin) = mset a"
  using quicksort_perm by blast

lemma quicksort_frame:
  "fin < length a \<Longrightarrow> i < start \<or> fin < i \<Longrightarrow> quicksort a start fin ! i = a ! i"
  using quicksort_perm by blast

lemma quicksort_length: "fin < length a \<Longrightarrow> length (quicksort a start fin) = length a"
  by (metis quicksort_mset size_mset)

lemma quicksort_sorts:
  "fin < length a \<Longrightarrow> start \<le> i \<Longrightarrow> i \<le> j \<Longrightarrow> j \<le> fin \<Longrightarrow>
   shard_key (quicksort a start fin ! i) \<le> shard_key (quicksort a start fin ! j)"
proof (induction "fin - start" arbitrary: a start fin i j rule: less_induct)
  case less
  show ?case
  proof (cases "start < fin")
    case False
    with less.prems have "i = j" by simp
    then show ?thesis by simp
  next
    case True
    obtain a2 r where q: "quicksort a start fin = quicksort (quicksort a2 start (r - 1)) (r + 1) fin"
      and r: "start \<le> r" "r \<le> fin" and a2: "length a2 = length a" "mset a2 = mset a"
      and lo: "\<And>i. start \<le> i \<Longrightarrow> i < r \<Longrightarrow> shard_key (a2 ! i) \<le> shard_key (a2 ! r)"
      and hi: "\<And>i. r < i \<Longrightarrow> i \<le> fin \<Longrightarrow> shard_key (a2 ! r) \<le> shard_key (a2 ! i)"
      using quicksort_unfold [OF True less.prems(1)] by metis
    let ?k = "shard_key (a2 ! r)"
    let ?a3 = "quicksort a2 start (r - 1)"
    let ?a4 = "quicksort ?a3 (r + 1) fin"
    have l3: "r - 1 < length a2" "length ?a3 = length a"
      using quicksort_length [of "r - 1" a2 start] r less.prems a2 by auto
    have f3: "?a3 ! n = a2 ! n" if "n < start \<or> r \<le> n" for n
      using quicksort_frame [OF l3(1), of n start] quicksort_trivial [of "r - 1" start a2] that r
      by (cases "r = 0") auto
    have f4: "?a4 ! n = ?a3 ! n" if "n \<le> r \<or> fin < n" for n
      using quicksort_frame [of fin ?a3 n "r + 1"] that l3 less.prems by (auto simp: less_Suc_eq_le)
    have lo3: "shard_key (?a3 ! n) \<le> ?k" if "start \<le> n" "n < r" for n
    proof (rule range_property_kept [of ?a3 a2 start "r - 1" "\<lambda>x. shard_key x \<le> ?k" n])
      show "mset ?a3 = mset a2" using quicksort_mset [OF l3(1)] .
      show "?a3 ! m = a2 ! m" if "m < start \<or> r - 1 < m" for m
        by (rule f3) (use that in auto)
      show "shard_key (a2 ! m) \<le> ?k" if "start \<le> m" "m \<le> r - 1" for m
        by (rule lo) (use that \<open>start \<le> n\<close> \<open>n < r\<close> in auto)
    qed (use that r l3 less.prems in auto)
    have hi4: "?k \<le> shard_key (?a4 ! n)" if "r < n" "n \<le> fin" for n
    proof (rule range_property_kept [of ?a4 ?a3 "r + 1" fin "\<lambda>x. ?k \<le> shard_key x" n])
      show "mset ?a4 = mset ?a3" by (rule quicksort_mset) (use l3 less.prems in simp)
      then have "length ?a4 = length a" using l3 by (metis size_mset)
      then show "n < length ?a4" using that less.prems by simp
      show "?a4 ! m = ?a3 ! m" if "m < r + 1 \<or> fin < m" for m
        by (rule f4) (use that in auto)
      show "?k \<le> shard_key (?a3 ! m)" if "r + 1 \<le> m" "m \<le> fin" for m
        using f3 [of m] hi [of m] that by auto
    qed (use that in auto)
    have mid: "?a4 ! r = a2 ! r" using f4 f3 by simp
    have lo4: "shard_key (?a4 ! n) \<le> ?k" if "start \<le> n" "n < r" for n
      using lo3 f4 that by simp
    consider "j < r" | "i \<le> r" "r \<le> j" | "r < i" using less.prems by linarith
    then show ?thesis
    proof cases
      case 1
      then show ?thesis
        using less.hyps [of "r - 1" start a2 i j] f4 q r less.prems l3 True by simp
    next
      case 2
      then have "shard_key (?a4 ! i) \<le> ?k" "?k \<le> shard_key (?a4 ! j)"
        using lo4 [of i] hi4 [of j] mid less.prems by (cases "i = r"; cases "j = r"; simp)+
      then show ?thesis using q by simp
    next
      case 3
      then show ?thesis
        using less.hyps [of fin "r + 1" ?a3 i j] q r less.prems l3 True by simp
    qed
  qed
qed

text \<open>The whole array: a rearrangement of the keys, ascending by shard.\<close>

lemma sort_reqs_mset [simp]: "mset (sort_reqs a) = mset a"
  by (cases a) (simp_all add: sort_reqs_def quicksort_trivial quicksort_mset)

lemma sort_reqs_length [simp]: "length (sort_reqs a) = length a"
  by (metis sort_reqs_mset size_mset)

lemma sort_reqs_set [simp]: "set (sort_reqs a) = set a"
  by (metis sort_reqs_mset set_mset_mset)

lemma sort_reqs_sorted: "sorted (map shard_key (sort_reqs a))"
proof (cases "a = []")
  case True
  then show ?thesis by (simp add: sort_reqs_def quicksort_trivial)
next
  case False
  then have "length a - 1 < length a" by simp
  from quicksort_sorts [OF this] quicksort_length [OF this] False show ?thesis
    by (auto simp: sorted_map_nth sort_reqs_def)
qed

text \<open>
  \<open>_quicksort(backend_req, 0, key_num-1)\<close> rearranges the request's keys (none lost,
  none duplicated) and leaves them in ascending order of their shard, which the grouping loop
  of \<open>router_acquire_shards\<close> relies on.
\<close>

theorem quicksort_correct:
  "mset (sort_reqs a) = mset a \<and> sorted (map shard_key (sort_reqs a))"
  by (simp add: sort_reqs_sorted)

end
