(* ===== verification/Hash.thy ===== *)
theory Hash
  imports Prelude
begin

unbundle bit_operations_syntax

text \<open>
  \<open>hash.h\<close>: the 64-bit MurmurHash2 (\<open>MurmurHash64A\<close>) and the string hash built on
  it, on \<open>64 word\<close> values. Bytes are read as on the little-endian 64-bit platform the
  header names. The \<open>int\<close> length parameter is the length of the byte list (keys shorter
  than \<open>2^31\<close> bytes).
\<close>

section \<open>The hash function\<close>

definition murmur_m :: u64 where
  "murmur_m = 0xc6a4a7935bd1e995"

definition murmur_r :: nat where
  "murmur_r = 47"

text \<open>\<open>h ^= h >> r\<close>\<close>

definition xorshift :: "u64 \<Rightarrow> u64" where
  "xorshift h = h XOR drop_bit murmur_r h"

text \<open>\<open>uint64_t k = *data\<close>: eight bytes, least significant first.\<close>

fun le_word :: "u8 list \<Rightarrow> u64" where
  "le_word [] = 0"
| "le_word (b # bs) = ucast b OR push_bit 8 (le_word bs)"

definition load64 :: "u8 list \<Rightarrow> u64" where
  "load64 d = le_word (take 8 d)"

text \<open>One turn of the \<open>while (data != end)\<close> loop.\<close>

definition murmur_step :: "u64 \<Rightarrow> u64 \<Rightarrow> u64" where
  "murmur_step h k =
     (let k = k * murmur_m;
          k = xorshift k;
          k = k * murmur_m;
          h = h XOR k
      in h * murmur_m)"

text \<open>The loop itself: \<open>len / 8\<close> turns, the data pointer advancing by eight bytes.\<close>

fun murmur_blocks :: "nat \<Rightarrow> u64 \<Rightarrow> u8 list \<Rightarrow> u64 \<times> u8 list" where
  "murmur_blocks 0 h data = (h, data)"
| "murmur_blocks (Suc n) h data = murmur_blocks n (murmur_step h (load64 data)) (drop 8 data)"

text \<open>The \<open>switch (len & 7)\<close> with its fall-through.\<close>

definition murmur_tail :: "nat \<Rightarrow> u64 \<Rightarrow> u8 list \<Rightarrow> u64" where
  "murmur_tail r h data2 =
     (let h = (if 7 \<le> r then h XOR push_bit 48 (ucast (data2 ! 6)) else h);
          h = (if 6 \<le> r then h XOR push_bit 40 (ucast (data2 ! 5)) else h);
          h = (if 5 \<le> r then h XOR push_bit 32 (ucast (data2 ! 4)) else h);
          h = (if 4 \<le> r then h XOR push_bit 24 (ucast (data2 ! 3)) else h);
          h = (if 3 \<le> r then h XOR push_bit 16 (ucast (data2 ! 2)) else h);
          h = (if 2 \<le> r then h XOR push_bit 8 (ucast (data2 ! 1)) else h)
      in if 1 \<le> r then (h XOR ucast (data2 ! 0)) * murmur_m else h)"

definition murmur_final :: "u64 \<Rightarrow> u64" where
  "murmur_final h = xorshift (xorshift h * murmur_m)"

definition MurmurHash64A :: "u8 list \<Rightarrow> u32 \<Rightarrow> u64" where
  "MurmurHash64A key seed =
     (let len = length key;
          h = ucast seed XOR (word_of_nat len * murmur_m);
          (h, data2) = murmur_blocks (len div 8) h key
      in murmur_final (murmur_tail (len mod 8) h data2))"

definition hash_str :: "u8 list \<Rightarrow> u64" where
  "hash_str src = MurmurHash64A src 0xba1dba1d"

text \<open>A C string is its characters before the terminating NUL.\<close>

definition c_bytes :: "string \<Rightarrow> u8 list" where
  "c_bytes s = map of_char (takeWhile (\<lambda>c. c \<noteq> CHR 0x00) s)"

definition strhash :: "string \<Rightarrow> u64" where
  "strhash s = hash_str (c_bytes s)"

section \<open>The mixing steps lose nothing\<close>

text \<open>The inverse of the odd multiplier modulo \<open>2^64\<close>.\<close>

definition murmur_minv :: u64 where
  "murmur_minv = 0x5f7a0ea7e59b19bd"

lemma m_minv: "murmur_m * murmur_minv = 1"
  by (simp add: murmur_m_def murmur_minv_def)

lemma mult_m_inject [simp]: "x * murmur_m = y * murmur_m \<longleftrightarrow> x = y"
proof
  assume "x * murmur_m = y * murmur_m"
  then have "x * (murmur_m * murmur_minv) = y * (murmur_m * murmur_minv)"
    by (metis mult.assoc)
  then show "x = y" by (simp add: m_minv)
qed simp

lemma bit_xorshift: "bit (xorshift h) n \<longleftrightarrow> (bit h n \<noteq> bit h (47 + n))"
  by (simp add: xorshift_def murmur_r_def bit_xor_iff bit_drop_bit_eq)

lemma xorshift_xorshift [simp]: "xorshift (xorshift h) = h"
proof (rule bit_eqI)
  fix n
  have "\<not> bit h (47 + (47 + n))" by (auto dest: bit_imp_le_length)
  then show "bit (xorshift (xorshift h)) n = bit h n"
    by (auto simp: bit_xorshift)
qed

lemma xorshift_inject [simp]: "xorshift x = xorshift y \<longleftrightarrow> x = y"
  by (metis xorshift_xorshift)

lemma murmur_final_inject [simp]: "murmur_final x = murmur_final y \<longleftrightarrow> x = y"
  by (simp add: murmur_final_def)

lemma xor_left_inject: "(h :: u64) XOR x = h XOR y \<longleftrightarrow> x = y"
  by (auto simp: bit_eq_iff bit_xor_iff)

lemma murmur_step_inject [simp]: "murmur_step h x = murmur_step h y \<longleftrightarrow> x = y"
  by (simp add: murmur_step_def Let_def xor_left_inject)

section \<open>Loading bytes loses nothing\<close>

lemma bit_le_word_Cons:
  "bit (le_word (b # bs)) n \<longleftrightarrow> (if n < 8 then bit b n else n < 64 \<and> bit (le_word bs) (n - 8))"
  by (auto simp: bit_or_iff bit_push_bit_iff bit_ucast_iff dest: bit_imp_le_length)

lemma bit_le_word_beyond: "8 * length bs \<le> n \<Longrightarrow> \<not> bit (le_word bs) n"
  by (induction bs arbitrary: n) (auto simp: bit_le_word_Cons simp del: le_word.simps(2))

lemma le_word_inject:
  "length xs = length ys \<Longrightarrow> length xs \<le> 8 \<Longrightarrow> le_word xs = le_word ys \<Longrightarrow> xs = ys"
proof (induction xs ys rule: list_induct2)
  case Nil
  then show ?case by simp
next
  case (Cons x xs y ys)
  have bits: "bit (le_word (x # xs)) n = bit (le_word (y # ys)) n" for n
    using Cons.prems(2) by simp
  have "x = y"
  proof (rule bit_eqI)
    fix n assume "possible_bit TYPE(u8) n"
    then show "bit x n = bit y n"
      using bits [of n] by (simp add: bit_le_word_Cons del: le_word.simps)
  qed
  moreover have "le_word xs = le_word ys"
  proof (rule bit_eqI)
    fix n
    show "bit (le_word xs) n = bit (le_word ys) n"
    proof (cases "n + 8 < 64")
      case True
      then show ?thesis using bits [of "n + 8"] by (simp add: bit_le_word_Cons del: le_word.simps)
    next
      case False
      then have "8 * length xs \<le> n" "8 * length ys \<le> n" using Cons.prems(1) Cons.hyps by auto
      then show ?thesis by (simp add: bit_le_word_beyond)
    qed
  qed
  ultimately show ?case using Cons by simp
qed

lemma bit_push_byte:
  "bit (push_bit (8 * Suc k) (ucast (b :: u8)) :: u64) n \<longleftrightarrow>
   n < 64 \<and> 8 \<le> n \<and> bit (push_bit (8 * k) (ucast b) :: u64) (n - 8)"
proof (cases "8 * Suc k \<le> n \<and> n < 64")
  case True
  then have "n - 8 - 8 * k = n - 8 * Suc k" by simp
  with True show ?thesis by (auto simp: bit_push_bit_iff bit_ucast_iff)
next
  case False
  then show ?thesis by (auto simp: bit_push_bit_iff)
qed

lemma le_word_snoc:
  "le_word (xs @ [b]) = le_word xs XOR push_bit (8 * length xs) (ucast b)"
proof (induction xs)
  case Nil
  then show ?case by simp
next
  case (Cons x xs)
  show ?case
  proof (rule bit_eqI)
    fix n assume "possible_bit TYPE(u64) n"
    then have n: "n < 64" by simp
    show "bit (le_word ((x # xs) @ [b])) n =
        bit (le_word (x # xs) XOR push_bit (8 * length (x # xs)) (ucast b)) n"
      unfolding append_Cons bit_xor_iff list.size(4) add_0_right add_Suc_right
        bit_push_byte bit_le_word_Cons Cons.IH using n by simp
  qed
qed

lemma le_word_take_Suc:
  "i < length d \<Longrightarrow> i \<le> 7 \<Longrightarrow>
   le_word (take (Suc i) d) = le_word (take i d) XOR push_bit (8 * i) (ucast (d ! i))"
  using le_word_snoc [of "take i d" "d ! i"] by (simp add: take_Suc_conv_app_nth)

text \<open>The fall-through switch xors in the remaining bytes as one little-endian word.\<close>

lemma murmur_tail_le_word:
  assumes "r \<le> 7" "r \<le> length d"
  shows "murmur_tail r h d = (if r = 0 then h else (h XOR le_word (take r d)) * murmur_m)"
proof -
  have t1: "1 \<le> r \<Longrightarrow> le_word (take 1 d) = ucast (d ! 0)"
    using assms by (cases d) auto
  have ts: "j = Suc i \<Longrightarrow> j \<le> r \<Longrightarrow>
      k XOR le_word (take j d) = (k XOR push_bit (8 * i) (ucast (d ! i))) XOR le_word (take i d)"
    for i j and k :: u64
    using le_word_take_Suc [of i d] assms by (simp add: xor.assoc) (simp add: xor.commute)
  note steps = ts [of 7 6] ts [of 6 5] ts [of 5 4] ts [of 4 3] ts [of 3 2] ts [of 2 1] t1
  have "r = 0 \<or> r = 1 \<or> r = 2 \<or> r = 3 \<or> r = 4 \<or> r = 5 \<or> r = 6 \<or> r = 7"
    using assms(1) by auto
  then show ?thesis
    using steps by (elim disjE) (simp_all add: murmur_tail_def Let_def)
qed

lemma murmur_blocks_append:
  "8 * n \<le> length xs \<Longrightarrow>
   murmur_blocks n h (xs @ ys) = (fst (murmur_blocks n h xs), drop (8 * n) xs @ ys)"
proof (induction n arbitrary: h xs)
  case 0
  then show ?case by simp
next
  case (Suc n)
  from Suc.prems have "load64 (xs @ ys) = load64 xs" by (simp add: load64_def)
  with Suc show ?case by (simp add: add.commute)
qed

lemma murmur_blocks_add:
  "murmur_blocks (a + b) h d =
   murmur_blocks b (fst (murmur_blocks a h d)) (snd (murmur_blocks a h d))"
  by (induction a arbitrary: h d) auto

text \<open>
  The state after the last group of at most eight bytes: a full group goes through the loop
  body, a shorter one through the switch; both keep every bit of it.
\<close>

lemma murmur_last_group:
  assumes "length as = 8 * n" "length x \<le> 8"
  shows "MurmurHash64A (as @ x) seed =
    (let h = fst (murmur_blocks n (ucast seed XOR (word_of_nat (8 * n + length x) * murmur_m)) as)
     in murmur_final
          (if length x = 8 then murmur_step h (le_word x)
           else if x = [] then h else (h XOR le_word x) * murmur_m))"
proof -
  let ?start = "ucast seed XOR (word_of_nat (8 * n + length x) * murmur_m)"
  let ?mid = "fst (murmur_blocks n ?start as)"
  have b: "murmur_blocks n ?start (as @ x) = (?mid, x)"
    using murmur_blocks_append [of n as ?start x] assms(1) by simp
  show ?thesis
  proof (cases "length x = 8")
    case True
    have "murmur_blocks (n + 1) h0 (as @ x) = (murmur_step h (le_word x), [])"
      if "murmur_blocks n h0 (as @ x) = (h, x)" for h h0
      using that True murmur_blocks_add [of n 1 h0 "as @ x"] by (simp add: load64_def)
    from this [OF b] True assms show ?thesis
      by (simp add: MurmurHash64A_def murmur_tail_def Let_def del: murmur_blocks.simps)
  next
    case False
    with assms(2) have l: "length x \<le> 7" by simp
    then have "(8 * n + length x) div 8 = n" "(8 * n + length x) mod 8 = length x" by auto
    with b l False assms show ?thesis
      by (simp add: MurmurHash64A_def murmur_tail_le_word Let_def)
  qed
qed

text \<open>
  Two keys of the same length that differ only in their last group of at most eight
  bytes never have the same hash: every mixing step of \<open>MurmurHash64A\<close> (multiplication by
  the odd constant, the xor-shifts, the fall-through switch) is injective on 64-bit words.
  In particular two tokens or keys of equal length up to eight bytes never collide.
\<close>

theorem murmur_no_collision_in_last_group:
  assumes "length as = 8 * n" "length x \<le> 8" "length y = length x"
  shows "MurmurHash64A (as @ x) seed = MurmurHash64A (as @ y) seed \<longleftrightarrow> x = y"
proof -
  have "le_word x = le_word y \<longleftrightarrow> x = y"
    using le_word_inject [of x y] assms by auto
  then show ?thesis
    using murmur_last_group [OF assms(1), of x seed] murmur_last_group [OF assms(1), of y seed] assms
    by (auto simp: Let_def xor_left_inject)
qed

theorem murmur_no_collision_in_last_group_witness:
  "MurmurHash64A ([1, 2, 3, 4, 5, 6, 7, 8] @ [9, 10]) 7 \<noteq> MurmurHash64A ([1, 2, 3, 4, 5, 6, 7, 8] @ [9, 11]) 7"
  using murmur_no_collision_in_last_group [of "[1, 2, 3, 4, 5, 6, 7, 8]" 1 "[9, 10]" "[9, 11]" 7]
  by simp

lemma strhash_hello: "strhash ''hello'' = 1754202423843973739"
  by code_simp

end
