(* ===== verification/Shards.thy ===== *)
theory Shards
  imports Quicksort Hash
begin

text \<open>
  The shard table of \<open>router.cpp\<close> (\<open>_shard_init_part\<close>, \<open>_shard_func_part\<close>) and the
  grouping loop of \<open>router_acquire_shards\<close>. The tables \<open>router_map\<close> and
  \<open>partition_check\<close> are functions of the slot number; an index outside their
  \<open>PARTITION_MOD_KEY\<close> cells is the error \<open>OutOfBounds\<close>.
\<close>

definition PARTITION_MOD_KEY :: nat where
  "PARTITION_MOD_KEY = 65536"

section \<open>Filling the table\<close>

datatype init_error = Reallocated int | NotAllocated nat | OutOfBounds int

type_synonym slot_table = "nat \<Rightarrow> int"
type_synonym slot_check = "nat \<Rightarrow> bool"

text \<open>The inner loop over \<open>partition_info.partitions[0..num)\<close> of partition \<open>i\<close>.\<close>

fun mark_slots ::
  "int \<Rightarrow> int list \<Rightarrow> slot_table \<Rightarrow> slot_check \<Rightarrow> init_error option \<times> slot_table \<times> slot_check" where
  "mark_slots i [] t c = (None, t, c)"
| "mark_slots i (p # ps) t c =
     (if p < 0 \<or> int PARTITION_MOD_KEY \<le> p then (Some (OutOfBounds p), t, c)
      else if c (nat p) then (Some (Reallocated p), t, c)
      else mark_slots i ps (t(nat p := i)) (c(nat p := True)))"

text \<open>The outer loop over the partitions.\<close>

fun mark_partitions ::
  "nat \<Rightarrow> int list list \<Rightarrow> slot_table \<Rightarrow> slot_check \<Rightarrow> init_error option \<times> slot_table \<times> slot_check" where
  "mark_partitions i [] t c = (None, t, c)"
| "mark_partitions i (ps # pss) t c =
     (case mark_slots (int i) ps t c of
        (Some e, t, c) \<Rightarrow> (Some e, t, c)
      | (None, t, c) \<Rightarrow> mark_partitions (Suc i) pss t c)"

text \<open>
  \<open>_shard_init_part\<close>: the error, if any, and the table it leaves behind (also on an error:
  the code fills \<open>_shard_params[router_next_flag]\<close> in place).
\<close>

definition shard_init_part :: "int list list \<Rightarrow> init_error option \<times> slot_table" where
  "shard_init_part partitions =
     (case mark_partitions 0 partitions (\<lambda>_. 0) (\<lambda>_. False) of
        (Some e, t, c) \<Rightarrow> (Some e, t)
      | (None, t, c) \<Rightarrow>
          (case find (\<lambda>i. \<not> c i) [0..<PARTITION_MOD_KEY] of
             Some i \<Rightarrow> (Some (NotAllocated i), t)
           | None \<Rightarrow> (None, t)))"

text \<open>\<open>_shard_func_part\<close>: the low 16 bits of the (truncated) hash select the slot.\<close>

definition shard_func_part :: "slot_table \<Rightarrow> 32 word \<Rightarrow> int" where
  "shard_func_part t partition_key = t (unat (and partition_key 0xFFFF))"

definition key_slot :: "string \<Rightarrow> nat" where
  "key_slot k = unat (strhash k) mod PARTITION_MOD_KEY"

section \<open>What the table holds\<close>

lemma mark_slots_ok:
  "mark_slots i ps t c = (None, t', c') \<Longrightarrow>
   distinct ps \<and> (\<forall>p \<in> set ps. 0 \<le> p \<and> p < int PARTITION_MOD_KEY \<and> \<not> c (nat p)) \<and>
   c' = (\<lambda>n. c n \<or> int n \<in> set ps) \<and> t' = (\<lambda>n. if int n \<in> set ps then i else t n)"
proof (induction i ps t c rule: mark_slots.induct)
  case (1 i t c)
  then show ?case by simp
next
  case (2 i p ps t c)
  then have p: "0 \<le> p" "p < int PARTITION_MOD_KEY" "\<not> c (nat p)"
    and rest: "mark_slots i ps (t(nat p := i)) (c(nat p := True)) = (None, t', c')"
    by (auto split: if_splits)
  have ih: "distinct ps \<and> (\<forall>q \<in> set ps. 0 \<le> q \<and> q < int PARTITION_MOD_KEY \<and> \<not> (c(nat p := True)) (nat q)) \<and>
     c' = (\<lambda>n. (c(nat p := True)) n \<or> int n \<in> set ps) \<and>
     t' = (\<lambda>n. if int n \<in> set ps then i else (t(nat p := i)) n)"
    by (rule 2(1) [OF _ _ rest]) (use p in auto)
  then have "p \<notin> set ps" by auto
  moreover have "n = nat p \<longleftrightarrow> int n = p" for n using p by auto
  moreover have "\<not> c (nat q)" if "q \<in> set ps" for q
    using ih that by (auto split: if_splits)
  ultimately show ?case using ih p by (auto simp: fun_eq_iff)
qed

lemma mark_slots_complete:
  "distinct ps \<Longrightarrow> \<forall>p \<in> set ps. 0 \<le> p \<and> p < int PARTITION_MOD_KEY \<and> \<not> c (nat p) \<Longrightarrow>
   fst (mark_slots i ps t c) = None"
proof (induction i ps t c rule: mark_slots.induct)
  case (2 i p ps t c)
  have "fst (mark_slots i ps (t(nat p := i)) (c(nat p := True))) = None"
    by (rule 2(1)) (use 2(2,3) in \<open>auto simp: eq_nat_nat_iff\<close>)
  with 2(3) show ?case by auto
qed simp

lemma mark_partitions_ok:
  "mark_partitions i pss t c = (None, t', c') \<Longrightarrow>
   distinct (concat pss) \<and>
   (\<forall>p \<in> set (concat pss). 0 \<le> p \<and> p < int PARTITION_MOD_KEY \<and> \<not> c (nat p)) \<and>
   c' = (\<lambda>n. c n \<or> int n \<in> set (concat pss)) \<and>
   (\<forall>j < length pss. \<forall>n. int n \<in> set (pss ! j) \<longrightarrow> t' n = int (i + j)) \<and>
   (\<forall>n. int n \<notin> set (concat pss) \<longrightarrow> t' n = t n)"
proof (induction i pss t c rule: mark_partitions.induct)
  case (1 i t c)
  then show ?case by simp
next
  case (2 i ps pss t c)
  from 2(2) obtain t1 c1 where m: "mark_slots (int i) ps t c = (None, t1, c1)"
    and rest: "mark_partitions (Suc i) pss t1 c1 = (None, t', c')"
    by (auto split: prod.splits option.splits)
  from mark_slots_ok [OF m] have a: "distinct ps"
    "\<And>p. p \<in> set ps \<Longrightarrow> 0 \<le> p \<and> p < int PARTITION_MOD_KEY \<and> \<not> c (nat p)"
    "c1 = (\<lambda>n. c n \<or> int n \<in> set ps)" "t1 = (\<lambda>n. if int n \<in> set ps then int i else t n)" by blast+
  from 2(1) [OF m [symmetric] refl refl rest] have b: "distinct (concat pss)"
    "\<And>p. p \<in> set (concat pss) \<Longrightarrow> 0 \<le> p \<and> p < int PARTITION_MOD_KEY \<and> \<not> c1 (nat p)"
    "c' = (\<lambda>n. c1 n \<or> int n \<in> set (concat pss))"
    "\<And>j n. j < length pss \<Longrightarrow> int n \<in> set (pss ! j) \<Longrightarrow> t' n = int (Suc i + j)"
    "\<And>n. int n \<notin> set (concat pss) \<Longrightarrow> t' n = t1 n" by blast+
  have disj: "set ps \<inter> set (concat pss) = {}"
  proof -
    have "c1 (nat p)" if "p \<in> set ps" for p using a(2,3) that by auto
    then show ?thesis using b(2) by blast
  qed
  have first: "t' n = int i" if "int n \<in> set ps" for n
    using a(4) b(5) [of n] disj that by auto
  have later: "t' n = int (i + j)" if "j < length (ps # pss)" "int n \<in> set ((ps # pss) ! j)" for j n
    using that first b(4) by (cases j) auto
  have frame: "t' n = t n" if "int n \<notin> set (concat (ps # pss))" for n
    using that b(5) [of n] a(4) by simp
  have slots: "0 \<le> p \<and> p < int PARTITION_MOD_KEY \<and> \<not> c (nat p)" if "p \<in> set (concat (ps # pss))" for p
    using that a(2,3) b(2) [of p] by auto
  have "distinct (concat (ps # pss))" using a(1) b(1) disj by simp
  moreover have "c' = (\<lambda>n. c n \<or> int n \<in> set (concat (ps # pss)))"
    using a(3) b(3) by (auto simp: fun_eq_iff)
  ultimately show ?case using later frame slots by blast
qed

lemma mark_partitions_complete:
  "distinct (concat pss) \<Longrightarrow>
   \<forall>p \<in> set (concat pss). 0 \<le> p \<and> p < int PARTITION_MOD_KEY \<and> \<not> c (nat p) \<Longrightarrow>
   fst (mark_partitions i pss t c) = None"
proof (induction i pss t c rule: mark_partitions.induct)
  case (1 i t c)
  then show ?case by simp
next
  case (2 i ps pss t c)
  obtain e t1 c1 where m: "mark_slots (int i) ps t c = (e, t1, c1)" by (metis prod_cases3)
  have "fst (mark_slots (int i) ps t c) = None"
    by (rule mark_slots_complete) (use 2(2,3) in auto)
  then have e: "e = None" using m by simp
  note a = mark_slots_ok [OF m [unfolded e]]
  have "fst (mark_partitions (Suc i) pss t1 c1) = None"
  proof (rule 2(1) [OF m [unfolded e, symmetric] refl refl])
    show "distinct (concat pss)" using 2(2) by simp
    show "\<forall>p\<in>set (concat pss). 0 \<le> p \<and> p < int PARTITION_MOD_KEY \<and> \<not> c1 (nat p)"
      using a 2(2,3) by auto
  qed
  then show ?case using m e by simp
qed

text \<open>The initial table is built exactly when the partitions cover the slots once each.\<close>

definition exact_cover :: "int list list \<Rightarrow> bool" where
  "exact_cover pss \<longleftrightarrow> distinct (concat pss) \<and> set (concat pss) = {0..<int PARTITION_MOD_KEY}"

lemma find_unmarked:
  "find (\<lambda>i. \<not> c i) [0..<n] = None \<longleftrightarrow> (\<forall>i<n. c i)"
  by (auto simp: find_None_iff)

lemma shard_init_part_None:
  "fst (shard_init_part pss) = None \<longleftrightarrow> exact_cover pss"
proof
  assume "fst (shard_init_part pss) = None"
  then obtain t c where m: "mark_partitions 0 pss (\<lambda>_. 0) (\<lambda>_. False) = (None, t, c)"
    and "find (\<lambda>i. \<not> c i) [0..<PARTITION_MOD_KEY] = None"
    by (auto simp: shard_init_part_def split: prod.splits option.splits)
  then have all: "\<forall>i<PARTITION_MOD_KEY. c i" by (simp add: find_unmarked)
  from mark_partitions_ok [OF m] have d: "distinct (concat pss)"
    and r: "\<And>p. p \<in> set (concat pss) \<Longrightarrow> 0 \<le> p \<and> p < int PARTITION_MOD_KEY"
    and c: "c = (\<lambda>n. int n \<in> set (concat pss))" by auto
  have "p \<in> set (concat pss)" if "0 \<le> p" "p < int PARTITION_MOD_KEY" for p
    using all c that nonneg_int_cases [of p] by (metis of_nat_less_iff)
  then have "set (concat pss) = {0..<int PARTITION_MOD_KEY}"
    using r by (auto simp del: set_concat)
  then show "exact_cover pss" using d unfolding exact_cover_def by blast
next
  assume e: "exact_cover pss"
  obtain err t c where m: "mark_partitions 0 pss (\<lambda>_. 0) (\<lambda>_. False) = (err, t, c)"
    by (metis prod_cases3)
  have "fst (mark_partitions 0 pss (\<lambda>_. 0) (\<lambda>_. False)) = None"
    by (rule mark_partitions_complete) (use e in \<open>auto simp: exact_cover_def\<close>)
  then have err: "err = None" using m by simp
  with mark_partitions_ok [OF m [unfolded err]] e have "\<forall>i<PARTITION_MOD_KEY. c i"
    by (auto simp: exact_cover_def)
  then have "find (\<lambda>i. \<not> c i) [0..<PARTITION_MOD_KEY] = None" by (simp add: find_unmarked)
  then show "fst (shard_init_part pss) = None"
    using m err by (simp add: shard_init_part_def)
qed

lemma shard_init_part_table:
  assumes "shard_init_part pss = (None, t)" "j < length pss" "int n \<in> set (pss ! j)"
  shows "t n = int j"
proof -
  from assms(1) obtain c where "mark_partitions 0 pss (\<lambda>_. 0) (\<lambda>_. False) = (None, t, c)"
    by (auto simp: shard_init_part_def split: prod.splits option.splits)
  from mark_partitions_ok [OF this] assms(2,3) show ?thesis by auto
qed

lemma key_slot_bound: "key_slot k < PARTITION_MOD_KEY"
  by (simp add: key_slot_def PARTITION_MOD_KEY_def)

lemma slot_of_hash:
  "unat (and (ucast (h :: u64) :: 32 word) 0xFFFF) = unat h mod PARTITION_MOD_KEY"
proof -
  have "and (ucast h :: 32 word) (mask 16) = take_bit 16 (ucast h)"
    by (simp add: take_bit_eq_mask)
  then have "and (ucast h :: 32 word) 0xFFFF = take_bit 16 (ucast h)"
    by (simp add: mask_eq_exp_minus_1)
  then have "unat (and (ucast h :: 32 word) 0xFFFF) = take_bit 16 (take_bit 32 (unat h))"
    by (simp add: unsigned_take_bit_eq unsigned_ucast_eq)
  also have "\<dots> = unat h mod PARTITION_MOD_KEY"
    by (simp add: take_bit_eq_mod PARTITION_MOD_KEY_def mod_mod_cancel)
  finally show ?thesis .
qed

lemma shard_func_key: "shard_func_part t (int_of_u64 (strhash k)) = t (key_slot k)"
  by (simp add: shard_func_part_def slot_of_hash key_slot_def)

lemma one_partition_cover: "exact_cover [map int [0..<65536]]"
  by (auto simp: exact_cover_def PARTITION_MOD_KEY_def distinct_map image_iff intro: nonneg_int_cases)



section \<open>Grouping the keys of a request by shard\<close>

text \<open>
  The part of the request the loop writes; the callback may change it and whatever else the
  caller's state holds (the record is extended by the caller).
\<close>

record shard_counter =
  shard_count :: int

text \<open>
  The loop of \<open>router_acquire_shards\<close> (router.cpp 161-173) over the remaining indices \<open>is\<close>:
  \<open>get_pool\<close> is \<open>_get_shard\<close> (\<open>None\<close> for an index outside the pool table), \<open>cb\<close> the
  callback with the slice \<open>backend_req + start, i - start\<close> and the pool.
\<close>

fun acquire_loop ::
  "(int \<Rightarrow> 'p option) \<Rightarrow> ('a shard_counter_scheme \<Rightarrow> backend_req list \<Rightarrow> 'p \<Rightarrow> 'a shard_counter_scheme) \<Rightarrow>
   backend_req list \<Rightarrow> nat list \<Rightarrow> 'a shard_counter_scheme \<Rightarrow> int \<Rightarrow> nat \<Rightarrow>
   ('a shard_counter_scheme \<times> int \<times> nat) option" where
  "acquire_loop get_pool cb req [] r last_partition start = Some (r, last_partition, start)"
| "acquire_loop get_pool cb req (i # is) r last_partition start =
     (let k = shard_key (req ! i);
          r = (if k = last_partition then r\<lparr>shard_count := shard_count r - 1\<rparr> else r)
      in if k \<noteq> last_partition \<and> last_partition \<noteq> -1 then
           (case get_pool last_partition of
              None \<Rightarrow> None
            | Some pool \<Rightarrow>
                acquire_loop get_pool cb req is (cb r (take (i - start) (drop start req)) pool) k i)
         else acquire_loop get_pool cb req is r k start)"

text \<open>
  \<open>router_acquire_shards\<close>: hash every key, sort by shard, hand each run of equal shards to the
  callback. \<open>shard\<close> is \<open>_shard_func[router_flag]\<close> on the hash of the key (\<open>None\<close>: the
  pointer is NULL and the call crashes).
\<close>

definition router_acquire_shards ::
  "(32 word \<Rightarrow> int) option \<Rightarrow> (int \<Rightarrow> 'p option) \<Rightarrow>
   ('a shard_counter_scheme \<Rightarrow> backend_req list \<Rightarrow> 'p \<Rightarrow> 'a shard_counter_scheme) \<Rightarrow>
   backend_req list \<Rightarrow> 'a shard_counter_scheme \<Rightarrow> 'a shard_counter_scheme option" where
  "router_acquire_shards shard get_pool cb backend_req r =
     (let key_num = length backend_req in
      case (if key_num = 0 then Some [] else
             map_option (\<lambda>f. map (\<lambda>b. b\<lparr>shard_key := f (int_of_u64 (strhash (key b)))\<rparr>) backend_req) shard) of
        None \<Rightarrow> None
      | Some hashed \<Rightarrow>
          (let req = sort_reqs hashed;
               r = r\<lparr>shard_count := int key_num\<rparr>
           in case acquire_loop get_pool cb req [0..<key_num] r (-1) 0 of
                None \<Rightarrow> None
              | Some (r, last_partition, start) \<Rightarrow>
                  (case get_pool last_partition of
                     None \<Rightarrow> None
                   | Some pool \<Rightarrow> Some (cb r (take (key_num - start) (drop start req)) pool))))"

text \<open>The specification: maximal runs of keys of one shard.\<close>

fun shard_runs :: "backend_req list \<Rightarrow> backend_req list list" where
  "shard_runs [] = []"
| "shard_runs (x # xs) =
     (case shard_runs xs of
        [] \<Rightarrow> [[x]]
      | g # gs \<Rightarrow> if shard_key (hd g) = shard_key x then (x # g) # gs else [x] # g # gs)"

text \<open>What one run does: its duplicates are taken off the counter, then the callback runs.\<close>

definition serve_run ::
  "(int \<Rightarrow> 'p option) \<Rightarrow> ('a shard_counter_scheme \<Rightarrow> backend_req list \<Rightarrow> 'p \<Rightarrow> 'a shard_counter_scheme) \<Rightarrow>
   'a shard_counter_scheme \<Rightarrow> backend_req list \<Rightarrow> 'a shard_counter_scheme" where
  "serve_run get_pool cb r g =
     cb (r\<lparr>shard_count := shard_count r - int (length g - 1)\<rparr>) g (the (get_pool (shard_key (hd g))))"

lemma shard_runs_nonempty: "g \<in> set (shard_runs xs) \<Longrightarrow> g \<noteq> []"
  by (induction xs arbitrary: g) (auto split: list.splits if_splits)

lemma shard_runs_Nil [simp]: "shard_runs xs = [] \<longleftrightarrow> xs = []"
  by (cases xs) (auto split: list.splits if_splits)

lemma concat_shard_runs: "concat (shard_runs xs) = xs"
  by (induction xs) (auto split: list.splits if_splits)

lemma hd_shard_runs: "xs \<noteq> [] \<Longrightarrow> hd (hd (shard_runs xs)) = hd xs"
  by (cases xs) (auto split: list.splits if_splits)

lemma shard_runs_uniform:
  "g \<in> set (shard_runs xs) \<Longrightarrow> x \<in> set g \<Longrightarrow> shard_key x = shard_key (hd g)"
proof (induction xs arbitrary: g x)
  case (Cons y ys)
  show ?case
  proof (cases "shard_runs ys")
    case Nil
    then show ?thesis using Cons.prems by auto
  next
    case (Cons h hs)
    then have h: "\<And>x. x \<in> set h \<Longrightarrow> shard_key x = shard_key (hd h)"
      using Cons.IH [of h] by simp
    show ?thesis
      using Cons.prems Cons.IH [of g x] h [of x] Cons by (auto split: if_splits)
  qed
qed simp

text \<open>On keys sorted by shard, different runs have different shards.\<close>

lemma shard_runs_distinct:
  "sorted (map shard_key xs) \<Longrightarrow> sorted_wrt (<) (map (\<lambda>g. shard_key (hd g)) (shard_runs xs))"
proof (induction xs)
  case (Cons y ys)
  then have ih: "sorted_wrt (<) (map (\<lambda>g. shard_key (hd g)) (shard_runs ys))" by simp
  show ?case
  proof (cases "shard_runs ys")
    case (Cons h hs)
    then have "ys \<noteq> []" by auto
    then have "shard_key y \<le> shard_key (hd h)"
      using hd_shard_runs [of ys] Cons Cons.prems by (cases ys) auto
    then show ?thesis using ih Cons by auto
  qed simp
qed simp

lemma shard_runs_uniform_block:
  "cur \<noteq> [] \<Longrightarrow> \<forall>x \<in> set cur. shard_key x = k \<Longrightarrow> xs = [] \<or> shard_key (hd xs) \<noteq> k \<Longrightarrow>
   shard_runs (cur @ xs) = cur # shard_runs xs"
proof (induction cur)
  case (Cons y ys)
  show ?case
  proof (cases "ys = []")
    case True
    then show ?thesis using Cons.prems hd_shard_runs [of xs] by (cases xs) (auto split: list.splits)
  next
    case False
    then have "shard_runs (ys @ xs) = ys # shard_runs xs" using Cons by simp
    moreover have "shard_key (hd ys) = shard_key y" using Cons.prems False by (cases ys) auto
    ultimately show ?thesis by simp
  qed
qed simp

text \<open>The end of the loop and the last call of the callback, together.\<close>

definition finish_runs ::
  "(int \<Rightarrow> 'p option) \<Rightarrow> ('a shard_counter_scheme \<Rightarrow> backend_req list \<Rightarrow> 'p \<Rightarrow> 'a shard_counter_scheme) \<Rightarrow>
   backend_req list \<Rightarrow> ('a shard_counter_scheme \<times> int \<times> nat) option \<Rightarrow> 'a shard_counter_scheme option" where
  "finish_runs get_pool cb req res =
     (case res of
        None \<Rightarrow> None
      | Some (r, last_partition, start) \<Rightarrow>
          (case get_pool last_partition of
             None \<Rightarrow> None
           | Some pool \<Rightarrow> Some (cb r (take (length req - start) (drop start req)) pool)))"

lemma acquire_loop_runs:
  assumes "cur \<noteq> []" "\<forall>x \<in> set cur. shard_key x = k" "k \<noteq> -1"
    and "\<forall>x \<in> set (cur @ rest). shard_key x \<noteq> -1 \<and> get_pool (shard_key x) \<noteq> None"
  shows "finish_runs get_pool cb (pre @ cur @ rest)
           (acquire_loop get_pool cb (pre @ cur @ rest)
              [length pre + length cur ..< length pre + length cur + length rest]
              (r\<lparr>shard_count := shard_count r - int (length cur - 1)\<rparr>) k (length pre)) =
         Some (foldl (serve_run get_pool cb) r (shard_runs (cur @ rest)))"
  using assms
proof (induction rest arbitrary: pre cur k r)
  case Nil
  moreover from this have "shard_key (hd cur) = k" by (cases cur) auto
  moreover from Nil have "get_pool k \<noteq> None" by (cases cur) auto
  ultimately show ?case
    using shard_runs_uniform_block [of cur k "[]"]
    by (auto simp: finish_runs_def serve_run_def)
next
  case (Cons x xs)
  let ?req = "pre @ cur @ x # xs"
  let ?i = "length pre + length cur"
  have upt: "[?i..<?i + length (x # xs)] = ?i # [Suc ?i..<Suc ?i + length xs]"
    using upt_conv_Cons [of ?i "?i + length (x # xs)"] by (simp del: upt_Suc)
  have nth: "?req ! ?i = x" by (simp add: nth_append)
  have hd: "shard_key (hd cur) = k" using Cons.prems(1,2) by (cases cur) auto
  show ?case
  proof (cases "shard_key x = k")
    case True
    let ?R = "r\<lparr>shard_count := shard_count r - int (length cur - 1)\<rparr>"
    have len: "int (length (cur @ [x]) - 1) = int (length cur - 1) + 1"
      using Cons.prems(1) by (cases cur) auto
    have R: "?R\<lparr>shard_count := shard_count ?R - 1\<rparr> =
        r\<lparr>shard_count := shard_count r - int (length (cur @ [x]) - 1)\<rparr>"
      unfolding len by simp
    have step: "acquire_loop get_pool cb ?req (?i # is) ?R k (length pre) =
        acquire_loop get_pool cb ?req is (?R\<lparr>shard_count := shard_count ?R - 1\<rparr>) k (length pre)" for "is"
      using nth True by (simp only: acquire_loop.simps) simp
    have "finish_runs get_pool cb (pre @ (cur @ [x]) @ xs)
        (acquire_loop get_pool cb (pre @ (cur @ [x]) @ xs)
           [length pre + length (cur @ [x]) ..< length pre + length (cur @ [x]) + length xs]
           (r\<lparr>shard_count := shard_count r - int (length (cur @ [x]) - 1)\<rparr>) k (length pre)) =
        Some (foldl (serve_run get_pool cb) r (shard_runs ((cur @ [x]) @ xs)))"
      by (rule Cons.IH) (use Cons.prems True in auto)
    then show ?thesis unfolding upt step R by (simp del: upt_Suc)
  next
    case False
    have slice: "take (?i - length pre) (drop (length pre) ?req) = cur" by simp
    from Cons.prems have "get_pool k \<noteq> None" by (cases cur) auto
    then obtain pool where pool: "get_pool k = Some pool" by auto
    have runs: "shard_runs (cur @ x # xs) = cur # shard_runs (x # xs)"
      by (rule shard_runs_uniform_block [OF Cons.prems(1,2)]) (use False in simp)
    let ?R = "r\<lparr>shard_count := shard_count r - int (length cur - 1)\<rparr>"
    let ?S = "serve_run get_pool cb r cur"
    have S: "?S = cb ?R cur pool" by (simp add: serve_run_def hd pool)
    have step: "acquire_loop get_pool cb ?req (?i # is) ?R k (length pre) =
        acquire_loop get_pool cb ?req is ?S (shard_key x) ?i" for "is"
      using nth False assms(3) pool slice Cons.prems(3)
      by (simp only: acquire_loop.simps S Let_def) simp
    have one: "?S = ?S\<lparr>shard_count := shard_count ?S - int (length [x] - 1)\<rparr>" by simp
    have "finish_runs get_pool cb ((pre @ cur) @ [x] @ xs)
        (acquire_loop get_pool cb ((pre @ cur) @ [x] @ xs)
           [length (pre @ cur) + length [x] ..< length (pre @ cur) + length [x] + length xs]
           (?S\<lparr>shard_count := shard_count ?S - int (length [x] - 1)\<rparr>) (shard_key x) (length (pre @ cur))) =
        Some (foldl (serve_run get_pool cb) ?S (shard_runs ([x] @ xs)))"
      by (rule Cons.IH) (use Cons.prems in auto)
    then have ih: "finish_runs get_pool cb ?req
        (acquire_loop get_pool cb ?req [Suc ?i..<Suc ?i + length xs] ?S (shard_key x) ?i) =
        Some (foldl (serve_run get_pool cb) ?S (shard_runs (x # xs)))"
      by (simp only: one [symmetric] append.simps append_assoc append_Nil length_append list.size) simp
    show ?thesis unfolding upt step ih runs by (simp only: foldl_Cons)
  qed
qed

text \<open>The keys of a request with their shards, in the order the groups are served.\<close>

definition hashed_reqs :: "(32 word \<Rightarrow> int) \<Rightarrow> backend_req list \<Rightarrow> backend_req list" where
  "hashed_reqs f reqs = sort_reqs (map (\<lambda>b. b\<lparr>shard_key := f (int_of_u64 (strhash (key b)))\<rparr>) reqs)"

lemma acquire_as_runs:
  assumes "reqs \<noteq> []"
    and "\<forall>x \<in> set (hashed_reqs f reqs). shard_key x \<noteq> -1 \<and> get_pool (shard_key x) \<noteq> None"
  shows "router_acquire_shards (Some f) get_pool cb reqs r =
         Some (foldl (serve_run get_pool cb) (r\<lparr>shard_count := int (length reqs)\<rparr>)
                 (shard_runs (hashed_reqs f reqs)))"
proof -
  let ?req = "hashed_reqs f reqs"
  have len: "length ?req = length reqs" by (simp add: hashed_reqs_def)
  obtain x xs where req: "?req = x # xs" using len assms(1) by (cases ?req) auto
  have "router_acquire_shards (Some f) get_pool cb reqs r =
      finish_runs get_pool cb ?req
        (acquire_loop get_pool cb ?req [0..<length reqs] (r\<lparr>shard_count := int (length reqs)\<rparr>) (-1) 0)"
    using assms(1)
    by (simp add: router_acquire_shards_def finish_runs_def hashed_reqs_def Let_def split: option.split)
  also have "[0..<length reqs] = 0 # [1..<1 + length xs]"
    using len req assms(1) upt_conv_Cons [of 0 "length reqs"] by (simp del: upt_Suc)
  finally show ?thesis
    using acquire_loop_runs [of "[x]" "shard_key x" xs get_pool cb "[]" "r\<lparr>shard_count := int (length reqs)\<rparr>"]
      assms(2) req by (simp del: upt_Suc)
qed

text \<open>
  C11: \<open>router_acquire_shards\<close> serves a request shard by shard: the callback runs once for
  every shard the keys fall into, in ascending order, on that shard's pool and on all the keys
  of that shard and no other; together the slices are a rearrangement of the hashed keys.
\<close>

theorem acquire_serves_each_shard_once:
  assumes "reqs \<noteq> []"
    and "\<forall>x \<in> set (hashed_reqs f reqs). shard_key x \<noteq> -1 \<and> get_pool (shard_key x) \<noteq> None"
  shows "\<exists>runs. router_acquire_shards (Some f) get_pool cb reqs r =
             Some (foldl (serve_run get_pool cb) (r\<lparr>shard_count := int (length reqs)\<rparr>) runs) \<and>
           mset (concat runs) =
             mset (map (\<lambda>b. b\<lparr>shard_key := f (int_of_u64 (strhash (key b)))\<rparr>) reqs) \<and>
           (\<forall>g \<in> set runs. g \<noteq> [] \<and> (\<forall>x \<in> set g. shard_key x = shard_key (hd g))) \<and>
           sorted_wrt (<) (map (\<lambda>g. shard_key (hd g)) runs)"
proof (rule exI [of _ "shard_runs (hashed_reqs f reqs)"], intro conjI)
  show "mset (concat (shard_runs (hashed_reqs f reqs))) =
      mset (map (\<lambda>b. b\<lparr>shard_key := f (int_of_u64 (strhash (key b)))\<rparr>) reqs)"
    by (simp add: concat_shard_runs hashed_reqs_def del: mset_map)
  show "sorted_wrt (<) (map (\<lambda>g. shard_key (hd g)) (shard_runs (hashed_reqs f reqs)))"
    by (rule shard_runs_distinct) (simp add: hashed_reqs_def sort_reqs_sorted)
  show "router_acquire_shards (Some f) get_pool cb reqs r =
      Some (foldl (serve_run get_pool cb) (r\<lparr>shard_count := int (length reqs)\<rparr>)
             (shard_runs (hashed_reqs f reqs)))"
    by (rule acquire_as_runs [OF assms])
  show "\<forall>g \<in> set (shard_runs (hashed_reqs f reqs)). g \<noteq> [] \<and>
      (\<forall>x \<in> set g. shard_key x = shard_key (hd g))"
    by (blast dest: shard_runs_nonempty shard_runs_uniform)
qed

theorem acquire_serves_each_shard_once_witness:
  "\<exists>runs. router_acquire_shards (Some (\<lambda>w. if bit w 0 then 1 else 2)) Some (\<lambda>r g p. r)
       [\<lparr>key = ''a'', shard_key = 0\<rparr>, \<lparr>key = ''b'', shard_key = 0\<rparr>] \<lparr>shard_count = 0\<rparr> =
     Some (foldl (serve_run Some (\<lambda>r g p. r)) \<lparr>shard_count = 2\<rparr> runs)"
proof -
  let ?reqs = "[\<lparr>key = ''a'', shard_key = 0\<rparr>, \<lparr>key = ''b'', shard_key = 0\<rparr>]"
  let ?f = "\<lambda>w :: 32 word. if bit w 0 then 1 else 2 :: int"
  have "\<forall>x \<in> set (hashed_reqs ?f ?reqs). shard_key x \<noteq> -1 \<and> Some (shard_key x) \<noteq> None"
    by (simp add: hashed_reqs_def)
  from acquire_serves_each_shard_once [of ?reqs, OF _ this, of "\<lambda>r g p. r" "\<lparr>shard_count = 0\<rparr>"]
  show ?thesis by auto
qed

text \<open>
  Counting: the counter starts at the number of keys and loses the duplicates of a run before
  its callback. A callback that reports at most one failed shard leaves it positive until the
  last run.
\<close>

lemma serve_runs_count:
  assumes "\<And>r g p. shard_count (cb r g p) = shard_count r"
    and "\<forall>g \<in> set gs. g \<noteq> []"
  shows "shard_count (foldl (serve_run get_pool cb) r gs) =
         shard_count r - int (length (concat gs)) + int (length gs)"
  using assms(2)
proof (induction gs arbitrary: r)
  case (Cons g gs)
  then have "int (length g - 1) = int (length g) - 1" by (cases g) auto
  with Cons show ?case by (simp add: serve_run_def assms(1))
qed simp

lemma serve_runs_positive:
  assumes "\<And>r g p. shard_count r - 1 \<le> shard_count (cb r g p)"
    and "\<forall>g \<in> set gs. g \<noteq> []"
  shows "shard_count r - int (length (concat gs)) \<le> shard_count (foldl (serve_run get_pool cb) r gs)"
  using assms(2)
proof (induction gs arbitrary: r)
  case (Cons g gs)
  then have "int (length g - 1) = int (length g) - 1" by (cases g) auto
  moreover have "shard_count (r\<lparr>shard_count := shard_count r - int (length g - 1)\<rparr>) - 1 \<le>
      shard_count (serve_run get_pool cb r g)"
    unfolding serve_run_def by (rule assms(1))
  moreover have "shard_count (serve_run get_pool cb r g) - int (length (concat gs)) \<le>
      shard_count (foldl (serve_run get_pool cb) (serve_run get_pool cb r g) gs)"
    using Cons by auto
  ultimately show ?case by simp
qed simp

text \<open>
  When no callback reports a failure, the counter ends at the number of distinct shards of
  the request: one completion is expected per group handed out, however many keys share a
  shard.
\<close>

theorem acquire_counts_shards:
  assumes "reqs \<noteq> []"
    and "\<forall>x \<in> set (hashed_reqs f reqs). shard_key x \<noteq> -1 \<and> get_pool (shard_key x) \<noteq> None"
    and "\<And>r g p. shard_count (cb r g p) = shard_count r"
  shows "map_option shard_count (router_acquire_shards (Some f) get_pool cb reqs r) =
         Some (int (card ((\<lambda>b. f (int_of_u64 (strhash (key b)))) ` set reqs)))"
proof -
  let ?req = "hashed_reqs f reqs"
  let ?runs = "shard_runs ?req"
  let ?keys = "map (\<lambda>g. shard_key (hd g)) ?runs"
  have "sorted_wrt (<) ?keys"
    by (rule shard_runs_distinct) (simp add: hashed_reqs_def sort_reqs_sorted)
  then have "distinct ?keys" using strict_sorted_iff by blast
  from distinct_card [OF this] have "card (set ?keys) = length ?runs" by simp
  moreover have "set ?keys = shard_key ` set ?req"
  proof -
    have one: "shard_key ` set g = {shard_key (hd g)}" if "g \<in> set ?runs" for g
    proof -
      have "shard_key ` set g = (\<lambda>_. shard_key (hd g)) ` set g"
        by (rule image_cong [OF refl]) (rule shard_runs_uniform [OF that])
      then show ?thesis by (simp only: image_constant_conv set_empty shard_runs_nonempty [OF that] if_False)
    qed
    have "shard_key ` set ?req = shard_key ` set (concat ?runs)" by (simp only: concat_shard_runs)
    also have "\<dots> = (\<Union>g \<in> set ?runs. shard_key ` set g)" by (simp only: set_concat image_UN)
    also have "\<dots> = (\<Union>g \<in> set ?runs. {shard_key (hd g)})" by (rule SUP_cong) (simp_all add: one)
    finally show ?thesis by auto
  qed
  moreover have "shard_key ` set ?req = (\<lambda>b. f (int_of_u64 (strhash (key b)))) ` set reqs"
    by (auto simp: hashed_reqs_def image_iff)
  moreover have "length (concat ?runs) = length reqs"
    by (simp only: concat_shard_runs) (simp add: hashed_reqs_def)
  moreover have "\<forall>g \<in> set ?runs. g \<noteq> []" by (blast dest: shard_runs_nonempty)
  from serve_runs_count [where cb = cb and get_pool = get_pool, OF assms(3) this]
  have "shard_count (foldl (serve_run get_pool cb) (r\<lparr>shard_count := int (length reqs)\<rparr>) ?runs) =
      int (length reqs) - int (length (concat ?runs)) + int (length ?runs)"
    by simp
  ultimately have "shard_count (foldl (serve_run get_pool cb) (r\<lparr>shard_count := int (length reqs)\<rparr>) ?runs) =
      int (card ((\<lambda>b. f (int_of_u64 (strhash (key b)))) ` set reqs))" by (simp only:)
  then show ?thesis
    by (simp only: acquire_as_runs [OF assms(1,2), of cb r] option.map)
qed

theorem acquire_counts_shards_witness:
  "map_option shard_count (router_acquire_shards (Some (\<lambda>_. 3)) Some (\<lambda>r g p. r)
       [\<lparr>key = ''a'', shard_key = 0\<rparr>, \<lparr>key = ''b'', shard_key = 0\<rparr>] \<lparr>shard_count = 0\<rparr>) = Some 1"
  using acquire_counts_shards [where reqs = "[\<lparr>key = ''a'', shard_key = 0\<rparr>, \<lparr>key = ''b'', shard_key = 0\<rparr>]"
      and f = "\<lambda>_. 3" and get_pool = Some and cb = "\<lambda>r g p. r"
      and r = "\<lparr>shard_count = 0\<rparr>"]
  by (simp add: hashed_reqs_def)

text \<open>
  Even if callbacks fail on the spot (each failure takes one off the counter), the counter
  stays positive after every group but the last, so a request is never completed, and its
  memory released, while groups are still to be handed out.
\<close>

theorem acquire_not_done_early:
  assumes "reqs \<noteq> []"
    and "\<And>r g p. shard_count r - 1 \<le> shard_count (cb r g p)"
    and "shard_runs (hashed_reqs f reqs) = served @ g # rest"
  shows "0 < shard_count (foldl (serve_run get_pool cb) (r\<lparr>shard_count := int (length reqs)\<rparr>) served)"
proof -
  have "concat (served @ g # rest) = hashed_reqs f reqs"
    using concat_shard_runs [of "hashed_reqs f reqs"] assms(3) by simp
  from arg_cong [OF this, of length]
  have "length (concat served) + (length g + length (concat rest)) = length reqs"
    by (simp only: concat_append concat.simps length_append) (simp add: hashed_reqs_def)
  moreover have "g \<noteq> []" and ne: "\<forall>g \<in> set served. g \<noteq> []"
    using shard_runs_nonempty [of _ "hashed_reqs f reqs"] assms(3) by auto
  ultimately have "int (length (concat served)) < int (length reqs)" by (cases g) auto
  moreover have "shard_count (r\<lparr>shard_count := int (length reqs)\<rparr>) - int (length (concat served)) \<le>
      shard_count (foldl (serve_run get_pool cb) (r\<lparr>shard_count := int (length reqs)\<rparr>) served)"
    by (rule serve_runs_positive [OF assms(2) ne])
  ultimately show ?thesis by simp
qed

theorem acquire_not_done_early_witness:
  "0 < shard_count (foldl (serve_run Some (\<lambda>r g p. r\<lparr>shard_count := shard_count r - 1\<rparr>))
      \<lparr>shard_count = 1\<rparr> [])"
proof -
  let ?reqs = "[\<lparr>key = ''a'', shard_key = 0\<rparr>]"
  have "hashed_reqs (\<lambda>_. 3) ?reqs \<noteq> []"
    by (simp add: hashed_reqs_def sort_reqs_length flip: length_0_conv)
  then have "shard_runs (hashed_reqs (\<lambda>_. 3) ?reqs) \<noteq> []" by simp
  then obtain g rest where "shard_runs (hashed_reqs (\<lambda>_. 3) ?reqs) = [] @ g # rest"
    by (cases "shard_runs (hashed_reqs (\<lambda>_. 3) ?reqs)") auto
  from acquire_not_done_early [where cb = "\<lambda>r g p. r\<lparr>shard_count := shard_count r - 1\<rparr>"
      and r = "\<lparr>shard_count = 0\<rparr>" and get_pool = Some, OF _ _ this]
  show ?thesis by simp
qed

end
