(* ===== verification/Partitions.thy ===== *)
theory Partitions
  imports Shards
begin

text \<open>
  \<open>_meta_load_partition\<close> of \<open>meta.cpp\<close>: the comma-separated list of slots and slot ranges that
  gives a partition its share of the \<open>PARTITION_MOD_KEY\<close> hash slots, with the part of the C
  library it uses (\<open>atoi\<close>, \<open>%d\<close>). An \<open>atoi\<close> of a value outside \<open>int\<close> is taken modulo
  \<open>2 ^ 32\<close>.
\<close>

section \<open>The C library functions the loader uses\<close>

definition is_digit :: "char \<Rightarrow> bool" where
  "is_digit ch \<longleftrightarrow> 48 \<le> (of_char ch :: nat) \<and> (of_char ch :: nat) \<le> 57"

definition is_space :: "char \<Rightarrow> bool" where
  "is_space ch \<longleftrightarrow> ch = CHR '' '' \<or> (9 \<le> (of_char ch :: nat) \<and> (of_char ch :: nat) \<le> 13)"

fun digits_value :: "int \<Rightarrow> string \<Rightarrow> int" where
  "digits_value acc [] = acc"
| "digits_value acc (ch # s) =
     (if is_digit ch then digits_value (10 * acc + (of_char ch - 48)) s else acc)"

definition atoi :: "string \<Rightarrow> int" where
  "atoi str =
     (let s = dropWhile is_space str in
      if s \<noteq> [] \<and> hd s = CHR ''-'' then - digits_value 0 (tl s)
      else if s \<noteq> [] \<and> hd s = CHR ''+'' then digits_value 0 (tl s)
      else digits_value 0 s)"

fun print_nat :: "nat \<Rightarrow> string" where
  "print_nat n = (if n < 10 then [char_of (48 + n)] else print_nat (n div 10) @ [char_of (48 + n mod 10)])"

declare print_nat.simps [simp del]

definition print_int :: "int \<Rightarrow> string" where
  "print_int i = (if i < 0 then CHR ''-'' # print_nat (nat (- i)) else print_nat (nat i))"

section \<open>\<open>_meta_load_partition\<close>\<close>

text \<open>One comma-separated word: a slot or a range of slots; \<open>None\<close> is the \<open>return -1\<close>.\<close>

definition load_word :: "string \<Rightarrow> int list option" where
  "load_word word =
     (if CHR ''-'' \<notin> set word then
        (let group = word_of_int (atoi word) :: u32 in
         if int PARTITION_MOD_KEY \<le> uint group then None else Some [uint group])
      else
        (let group_begin = word_of_int (atoi (takeWhile (\<lambda>ch. ch \<noteq> CHR ''-'') word)) :: u32;
             group_end = word_of_int (atoi (tl (dropWhile (\<lambda>ch. ch \<noteq> CHR ''-'') word))) :: u32 in
         if group_end < group_begin \<or> int PARTITION_MOD_KEY < uint group_end then None
         else Some (map int [unat group_begin ..< Suc (unat group_end)])))"

text \<open>
  The loop over the words. The result is the returned number and \<open>partitions[0..num)\<close>;
  \<open>None\<close> is a write behind the \<open>PARTITION_MOD_KEY\<close> cells of \<open>partition_info.partitions\<close>.
\<close>

function load_words :: "string \<Rightarrow> int list \<Rightarrow> (int \<times> int list) option" where
  "load_words s ps =
     (if s = [] then Some (int (length ps), ps)
      else
        (let word = takeWhile (\<lambda>ch. ch \<noteq> CHR '','') s in
         case load_word word of
           None \<Rightarrow> Some (-1, ps)
         | Some new \<Rightarrow>
             if PARTITION_MOD_KEY < length (ps @ new) then None
             else load_words (drop (Suc (length word)) s) (ps @ new)))"
  by pat_completeness auto
termination by (relation "measure (\<lambda>(s, ps). length s)") auto

declare load_words.simps [simp del]

definition load_partition :: "string \<Rightarrow> (int \<times> int list) option" where
  "load_partition partition_str = load_words partition_str []"

text \<open>Printing and reading numbers.\<close>

lemma digit_char [simp]:
  fixes n :: nat
  assumes "n < 10"
  shows "is_digit (char_of (48 + n))" "\<not> is_space (char_of (48 + n))"
    "char_of (48 + n) \<noteq> CHR ''-''" "char_of (48 + n) \<noteq> CHR ''+''" "char_of (48 + n) \<noteq> CHR '',''"
proof -
  have v: "of_char (char_of (48 + n)) = 48 + n" using assms by simp
  have sep: "char_of (48 + n) \<noteq> ch" if "(of_char ch :: nat) < 48" for ch
    using v that by auto
  show "is_digit (char_of (48 + n))" "char_of (48 + n) \<noteq> CHR ''-''"
    "char_of (48 + n) \<noteq> CHR ''+''" "char_of (48 + n) \<noteq> CHR '',''"
    using assms v by (auto simp: is_digit_def intro!: sep)
  have "char_of (48 + n) \<noteq> CHR '' ''" by (rule sep) simp
  then show "\<not> is_space (char_of (48 + n))" using v by (simp add: is_space_def)
qed

lemma digits_value_append:
  "list_all is_digit a \<Longrightarrow> digits_value acc (a @ b) = digits_value (digits_value acc a) b"
  by (induction a arbitrary: acc) auto

lemma print_nat_digits: "list_all is_digit (print_nat n)"
  by (induction n rule: print_nat.induct) (subst print_nat.simps, simp)

lemma print_nat_value: "digits_value 0 (print_nat n) = int n"
proof (induction n rule: print_nat.induct)
  case (1 n)
  have d: "(of_char (char_of (48 + m) :: char) :: int) = 48 + int m" if "m < 10" for m :: nat
  proof -
    have "(of_char (char_of (48 + m) :: char) :: int) = of_nat (of_char (char_of (48 + m) :: char))"
      by (simp only: of_nat_of_char)
    also have "\<dots> = int (48 + m)" using that by simp
    finally show ?thesis by simp
  qed
  show ?case
    using 1 d print_nat_digits [of "n div 10"] div_mult_mod_eq [of "int n" 10]
    by (subst print_nat.simps) (auto simp: digits_value_append zdiv_int zmod_int)
qed

lemma print_nat_chars:
  "ch \<in> set (print_nat n) \<Longrightarrow> \<exists>d<(10 :: nat). ch = char_of (48 + d)"
proof (induction n rule: print_nat.induct)
  case (1 n)
  show ?case
  proof (cases "n < 10")
    case True
    then have "ch = char_of (48 + n)" using 1(2) by (subst (asm) print_nat.simps) simp
    then show ?thesis using True by blast
  next
    case False
    then have "ch \<in> set (print_nat (n div 10)) \<or> ch = char_of (48 + n mod 10)"
      using 1(2) False by (subst (asm) print_nat.simps) auto
    then show ?thesis using 1(1) [OF False] by (auto intro: exI [of _ "n mod 10"])
  qed
qed

lemma print_nat_no_sep:
  "CHR ''-'' \<notin> set (print_nat n)" "CHR '','' \<notin> set (print_nat n)"
proof -
  show "CHR ''-'' \<notin> set (print_nat n)"
  proof
    assume "CHR ''-'' \<in> set (print_nat n)"
    then obtain d :: nat where "d < 10" "CHR ''-'' = char_of (48 + d)" using print_nat_chars by blast
    then show False using digit_char(3) [of d] by metis
  qed
  show "CHR '','' \<notin> set (print_nat n)"
  proof
    assume "CHR '','' \<in> set (print_nat n)"
    then obtain d :: nat where "d < 10" "CHR '','' = char_of (48 + d)" using print_nat_chars by blast
    then show False using digit_char(5) [of d] by metis
  qed
qed

lemma print_nat_not_Nil [simp]: "print_nat n \<noteq> []"
  by (subst print_nat.simps) simp

lemma atoi_print_nat: "atoi (print_nat n) = int n"
proof -
  obtain ch s where p: "print_nat n = ch # s" using print_nat_not_Nil by (cases "print_nat n") auto
  then obtain d :: nat where "d < 10" "ch = char_of (48 + d)"
    using print_nat_chars [of ch n] by auto
  then have "\<not> is_space ch" "ch \<noteq> CHR ''-''" "ch \<noteq> CHR ''+''" by auto
  then show ?thesis using print_nat_value [of n] p by (simp add: atoi_def Let_def)
qed

section \<open>Round trip of the partition strings\<close>

definition print_range :: "nat \<times> nat \<Rightarrow> string" where
  "print_range r = print_nat (fst r) @ CHR ''-'' # print_nat (snd r)"

fun print_ranges :: "(nat \<times> nat) list \<Rightarrow> string" where
  "print_ranges [] = []"
| "print_ranges [r] = print_range r"
| "print_ranges (r # rs) = print_range r @ CHR '','' # print_ranges rs"

definition range_slots :: "nat \<times> nat \<Rightarrow> int list" where
  "range_slots r = map int [fst r ..< Suc (snd r)]"

definition range_ok :: "nat \<times> nat \<Rightarrow> bool" where
  "range_ok r \<longleftrightarrow> fst r \<le> snd r \<and> snd r < PARTITION_MOD_KEY"

lemma takeWhile_no_sep: "ch \<notin> set a \<Longrightarrow> takeWhile (\<lambda>x. x \<noteq> ch) (a @ ch # b) = a"
  by (induction a) auto

lemma dropWhile_no_sep: "ch \<notin> set a \<Longrightarrow> dropWhile (\<lambda>x. x \<noteq> ch) (a @ ch # b) = ch # b"
  by (induction a) auto

lemma unat_small: "n < 2 ^ 32 \<Longrightarrow> unat (word_of_int (int n) :: u32) = n"
  by (simp add: unat_of_nat take_bit_nat_eq_self)

lemma load_word_range:
  assumes "range_ok r"
  shows "load_word (print_range r) = Some (range_slots r)"
proof -
  obtain b e where r: "r = (b, e)" by (cases r)
  have le: "b \<le> e" "e < 65536" using assms r by (auto simp: range_ok_def PARTITION_MOD_KEY_def)
  then have u: "unat (word_of_int (int b) :: u32) = b" "unat (word_of_int (int e) :: u32) = e"
    using unat_small [of b] unat_small [of e] by simp_all
  then have "\<not> (word_of_int (int e) :: u32) < word_of_int (int b)"
    using le by (simp only: word_less_nat_alt)
  moreover have "\<not> 65536 < uint (word_of_int (int e) :: u32)"
    using le by (simp only: uint_nat u(2))
  ultimately show ?thesis
    using u by (simp add: load_word_def print_range_def r takeWhile_no_sep dropWhile_no_sep
        print_nat_no_sep atoi_print_nat Let_def range_slots_def PARTITION_MOD_KEY_def del: of_int_of_nat_eq)
qed

lemma print_range_no_comma: "CHR '','' \<notin> set (print_range r)"
  by (simp add: print_range_def print_nat_no_sep)

lemma print_range_not_Nil [simp]: "print_range r \<noteq> []"
  by (simp add: print_range_def)

lemma load_words_ranges:
  "\<forall>r \<in> set rs. range_ok r \<Longrightarrow>
   length ps + length (concat (map range_slots rs)) \<le> PARTITION_MOD_KEY \<Longrightarrow>
   load_words (print_ranges rs) ps =
     Some (int (length ps + length (concat (map range_slots rs))), ps @ concat (map range_slots rs))"
proof (induction rs arbitrary: ps rule: print_ranges.induct)
  case 1
  then show ?case by (simp add: load_words.simps)
next
  case (2 r)
  have tw: "takeWhile (\<lambda>ch. ch \<noteq> CHR '','') (print_range r) = print_range r"
    unfolding takeWhile_eq_all_conv using print_range_no_comma [of r] by blast
  have "load_words (print_range r) ps = (if PARTITION_MOD_KEY < length (ps @ range_slots r) then None
      else load_words [] (ps @ range_slots r))"
    using 2 by (subst load_words.simps) (simp only: tw Let_def load_word_range list.set_intros
        option.case print_range_not_Nil if_False drop_all le_SucI order_refl print_ranges.simps)
  then show ?case using 2 by (simp add: load_words.simps [of "[]"])
next
  case (3 r r2 rs)
  let ?tail = "print_ranges (r2 # rs)"
  have "takeWhile (\<lambda>ch. ch \<noteq> CHR '','') (print_range r @ CHR '','' # ?tail) = print_range r"
    by (rule takeWhile_no_sep) (rule print_range_no_comma)
  moreover have "\<not> PARTITION_MOD_KEY < length (ps @ range_slots r)" using 3(3) by simp
  moreover have "load_words ?tail (ps @ range_slots r) =
      Some (int (length (ps @ range_slots r) + length (concat (map range_slots (r2 # rs)))),
        (ps @ range_slots r) @ concat (map range_slots (r2 # rs)))"
    by (rule 3(1)) (use 3(2,3) in auto)
  ultimately show ?case
    using 3(2) by (simp add: load_words.simps [of "print_range r @ CHR '','' # ?tail"] load_word_range Let_def)
qed

text \<open>
  C38: \<open>_meta_load_partition\<close> reads back what a range list prints to: for valid ranges of at
  most \<open>PARTITION_MOD_KEY\<close> slots together it returns their number and lists exactly their slots
  in order.
\<close>

theorem load_partition_roundtrip:
  assumes "\<forall>r \<in> set rs. range_ok r"
    and "length (concat (map range_slots rs)) \<le> PARTITION_MOD_KEY"
  shows "load_partition (print_ranges rs) =
         Some (int (length (concat (map range_slots rs))), concat (map range_slots rs))"
  using load_words_ranges [OF assms(1), of "[]"] assms(2) by (simp add: load_partition_def)

theorem load_partition_roundtrip_witness:
  "load_partition (print_ranges [(0, 2), (7, 7)]) = Some (4, [0, 1, 2, 7])"
  using load_partition_roundtrip [of "[(0, 2), (7, 7)]"]
  by (simp add: range_ok_def range_slots_def PARTITION_MOD_KEY_def upt_conv_Cons)

text \<open>What any accepted or half-read partition string leaves behind.\<close>

lemma load_word_slots:
  assumes "load_word w = Some new" "p \<in> set new"
  shows "0 \<le> p \<and> p \<le> int PARTITION_MOD_KEY"
proof (cases "CHR ''-'' \<in> set w")
  case False
  then have "p = uint (word_of_int (atoi w) :: u32) \<and> p < int PARTITION_MOD_KEY"
    using assms by (auto simp: load_word_def Let_def split: if_splits simp del: of_int_uint uint_word_of_int_eq)
  then show ?thesis by (simp del: uint_word_of_int_eq)
next
  case True
  let ?b = "word_of_int (atoi (takeWhile (\<lambda>ch. ch \<noteq> CHR ''-'') w)) :: u32"
  let ?e = "word_of_int (atoi (tl (dropWhile (\<lambda>ch. ch \<noteq> CHR ''-'') w))) :: u32"
  have "new = map int [unat ?b ..< Suc (unat ?e)]" "\<not> int PARTITION_MOD_KEY < uint ?e"
    using assms(1) True by (auto simp only: load_word_def Let_def split: if_splits)
  then have p: "p \<in> int ` {unat ?b ..< Suc (unat ?e)}" and e: "int (unat ?e) \<le> int PARTITION_MOD_KEY"
    using assms(2) by (simp_all only: set_map set_upt uint_nat not_less)
  from p obtain x where "p = int x" "x \<le> unat ?e"
    by (auto simp only: image_iff atLeastLessThan_iff less_Suc_eq_le)
  then show ?thesis using e by linarith
qed

lemma load_words_slots:
  "load_words s ps = Some (n, ps') \<Longrightarrow> \<forall>p \<in> set ps. 0 \<le> p \<and> p \<le> int PARTITION_MOD_KEY \<Longrightarrow>
   length ps \<le> PARTITION_MOD_KEY \<Longrightarrow>
   (n = -1 \<or> n = int (length ps')) \<and> length ps' \<le> PARTITION_MOD_KEY \<and>
   (\<forall>p \<in> set ps'. 0 \<le> p \<and> p \<le> int PARTITION_MOD_KEY)"
proof (induction s ps arbitrary: n ps' rule: load_words.induct)
  case (1 s ps)
  let ?word = "takeWhile (\<lambda>ch. ch \<noteq> CHR '','') s"
  show ?case
  proof (cases "s = [] \<or> load_word ?word = None")
    case True
    then show ?thesis
    proof
      assume "s = []"
      then show ?thesis using 1(2-4) by (auto simp: load_words.simps [of "[]"])
    next
      assume "load_word ?word = None"
      then have "load_words s ps = Some (if s = [] then int (length ps) else -1, ps)"
        by (simp add: load_words.simps [of s ps] Let_def)
      then show ?thesis using 1(2-4) by (auto split: if_splits)
    qed
  next
    case False
    then obtain new where new: "load_word ?word = Some new" by auto
    have "load_words s ps = (if PARTITION_MOD_KEY < length (ps @ new) then None
        else load_words (drop (Suc (length ?word)) s) (ps @ new))"
      using False new by (simp add: load_words.simps [of s ps] Let_def)
    then have rest: "\<not> PARTITION_MOD_KEY < length (ps @ new)"
      "load_words (drop (Suc (length ?word)) s) (ps @ new) = Some (n, ps')"
      using 1(2) by (auto split: if_splits)
    show ?thesis
      by (rule 1(1) [OF _ refl new rest]) (use False 1(3) rest(1) load_word_slots [OF new] in auto)
  qed
qed

text \<open>
  Whatever the string, the slots \<open>_meta_load_partition\<close> records lie in \<open>0..65536\<close>, one past
  the last slot included: the check of a range's end is \<open>group_end > PARTITION_MOD_KEY\<close>, so the
  string \<open>''0-65536''\<close>-style ranges reach the out-of-range slot \<open>65536\<close>.
\<close>

theorem load_partition_bounds:
  "(load_partition s = Some (n, ps) \<longrightarrow>
     (n = -1 \<or> n = int (length ps)) \<and> length ps \<le> PARTITION_MOD_KEY \<and>
     (\<forall>p \<in> set ps. 0 \<le> p \<and> p \<le> int PARTITION_MOD_KEY)) \<and>
   load_partition ''65536-65536'' = Some (1, [65536]) \<and> load_partition ''65536'' = Some (-1, [])"
proof (intro conjI impI)
  have w: "load_word ''65536-65536'' = Some [65536]"
    by (simp add: load_word_def atoi_def is_space_def is_digit_def PARTITION_MOD_KEY_def Let_def)
  show "load_partition ''65536-65536'' = Some (1, [65536])"
    by (simp add: load_partition_def load_words.simps [of "''65536-65536''"] load_words.simps [of "[]"] w
        Let_def PARTITION_MOD_KEY_def)
  have w: "load_word ''65536'' = None"
    by (simp add: load_word_def atoi_def is_space_def is_digit_def PARTITION_MOD_KEY_def Let_def)
  show "load_partition ''65536'' = Some (-1, [])"
    by (simp add: load_partition_def load_words.simps [of "''65536''"] w Let_def)
qed (use load_words_slots [of s "[]" n ps] in \<open>auto simp: load_partition_def\<close>)

theorem load_partition_bounds_witness: "load_partition ''1,3-4'' = Some (3, [1, 3, 4]) \<and>
    list_all (\<lambda>p. 0 \<le> p \<and> p \<le> int PARTITION_MOD_KEY) [1, 3, 4]"
proof -
  have w: "load_word ''1'' = Some [1]" "load_word ''3-4'' = Some [3, 4]"
    by (simp_all add: load_word_def atoi_def is_space_def is_digit_def PARTITION_MOD_KEY_def Let_def)
  then have "load_partition ''1,3-4'' = Some (3, [1, 3, 4])"
    by (simp add: load_partition_def load_words.simps [of "''1,3-4''"] load_words.simps [of "''3-4''"]
        load_words.simps [of "[]"] Let_def PARTITION_MOD_KEY_def)
  then show ?thesis using load_partition_bounds [of "''1,3-4''" 3 "[1, 3, 4]"] by (simp add: list_all_iff)
qed

end
