(* ===== verification/Conf.thy ===== *)
theory Conf
  imports Partitions
begin

text \<open>
  The configuration loader \<open>_meta_load_conf\<close> of \<open>meta.cpp\<close> and the structures of \<open>meta.h\<close>.
  The \<open>comcfg::Configure\<close> object is a parameter: a record of the read functions the loader
  calls, where \<open>None\<close> stands for a thrown \<open>ConfigException\<close> or a nonzero error code. A step of
  the loader returns what it leaves of the structure it fills, also when it fails, because
  \<open>meta->dbs[i]\<close> points to the half-filled structure from the start. \<open>Crashed\<close> is a write
  outside an array.
\<close>

section \<open>Structures\<close>

record service_info =
  sv_id :: int
  service_name :: string
  addr :: string
  port :: u32
  partition :: u32
  can_read :: bool
  can_write :: bool
  idcName :: string
  machineRoomName :: string

record user_info =
  uname :: string
  tk :: string
  power :: int

text \<open>
  The three arrays per partition are lists of the slots recorded (\<open>partition[j].partitions\<close> up
  to \<open>num\<close>) and of the services entered (\<open>service[0..service_num)\<close>). A cell of \<open>services\<close> or
  \<open>users\<close> is \<open>None\<close> until its structure is allocated.
\<close>

record db_info =
  db_id :: int
  pid :: string
  db_name :: string
  machine_room :: string
  shard_mode :: u32
  connect_per_service :: u32
  timeout :: u32
  timeout_sec :: u32
  timeout_usec :: u32
  long_connect :: bool
  get_connect_retry :: u32
  readIdcOnly :: int
  readRoomOnly :: int
  serverIdcName :: string
  serverMachineRoomName :: string
  services :: "service_info option list"
  users :: "user_info option list"
  partition_num :: u32
  partitions :: "int list list"
  partition_service_w :: "service_info list list"
  partition_service_r :: "service_info list list"

definition MAX_COPY_NUM :: nat where
  "MAX_COPY_NUM = 64"

section \<open>The configuration object\<close>

datatype path_item = Name string | Index nat

type_synonym conf_path = "path_item list"

record configure =
  get_cstr :: "conf_path \<Rightarrow> nat \<Rightarrow> string option"
  to_uint32 :: "conf_path \<Rightarrow> u32 option"
  to_int32 :: "conf_path \<Rightarrow> int option"
  conf_size :: "conf_path \<Rightarrow> nat option"
  to_cstr :: "conf_path \<Rightarrow> string option"
  get_uint16 :: "conf_path \<Rightarrow> 16 word option"

section \<open>Steps\<close>

datatype load_res = Loaded | Failed | Crashed

type_synonym 's loader = "'s \<Rightarrow> load_res \<times> 's"

fun run_all :: "'s loader list \<Rightarrow> 's loader" where
  "run_all [] s = (Loaded, s)"
| "run_all (f # fs) s = (case f s of (Loaded, s') \<Rightarrow> run_all fs s' | (r, s') \<Rightarrow> (r, s'))"

definition read_str :: "configure \<Rightarrow> conf_path \<Rightarrow> nat \<Rightarrow> (string \<Rightarrow> 's \<Rightarrow> 's) \<Rightarrow> 's loader" where
  "read_str c p n put s = (case get_cstr c p n of None \<Rightarrow> (Failed, s) | Some v \<Rightarrow> (Loaded, put v s))"

definition read_u32 :: "configure \<Rightarrow> conf_path \<Rightarrow> (u32 \<Rightarrow> 's \<Rightarrow> 's) \<Rightarrow> 's loader" where
  "read_u32 c p put s = (case to_uint32 c p of None \<Rightarrow> (Failed, s) | Some v \<Rightarrow> (Loaded, put v s))"

definition read_i32 :: "configure \<Rightarrow> conf_path \<Rightarrow> (int \<Rightarrow> 's \<Rightarrow> 's) \<Rightarrow> 's loader" where
  "read_i32 c p put s = (case to_int32 c p of None \<Rightarrow> (Failed, s) | Some v \<Rightarrow> (Loaded, put v s))"

definition db_path :: "nat \<Rightarrow> conf_path \<Rightarrow> conf_path" where
  "db_path i rest = Name ''Db'' # Index i # rest"

text \<open>The first \<open>try\<close> block (meta.cpp 313-332); \<open>isLong\<close> is kept beside the structure.\<close>

definition load_basic :: "configure \<Rightarrow> nat \<Rightarrow> (string \<times> db_info) loader" where
  "load_basic c i = run_all
     [read_str c [Name ''SuperStrategy'', Name ''Machine_Room''] 32
        (\<lambda>v (l, db). (l, db\<lparr>machine_room := v\<rparr>)),
      read_str c (db_path i [Name ''Db_Pid'']) 32 (\<lambda>v (l, db). (l, db\<lparr>pid := v\<rparr>)),
      read_str c (db_path i [Name ''Db_Name'']) 32 (\<lambda>v (l, db). (l, db\<lparr>db_name := v\<rparr>)),
      read_str c (db_path i [Name ''DbConnect'', Name ''Db_Connect_type'']) 5 (\<lambda>v (l, db). (v, db)),
      read_u32 c (db_path i [Name ''DbConnect'', Name ''Db_Connect_Num''])
        (\<lambda>v (l, db). (l, db\<lparr>connect_per_service := v\<rparr>)),
      read_u32 c (db_path i [Name ''DbConnect'', Name ''Db_Connect_ProcessTimeoutMs''])
        (\<lambda>v (l, db). (l, db\<lparr>timeout := v\<rparr>)),
      read_u32 c (db_path i [Name ''DbConnect'', Name ''Db_Connect_GetConnectRetryNum''])
        (\<lambda>v (l, db). (l, db\<lparr>get_connect_retry := v\<rparr>)),
      read_u32 c (db_path i [Name ''DbShard'', Name ''Db_Shard_Mode''])
        (\<lambda>v (l, db). (l, db\<lparr>shard_mode := v\<rparr>)),
      read_u32 c (db_path i [Name ''DbShard'', Name ''Db_Shard_PartitionNum''])
        (\<lambda>v (l, db). (l, db\<lparr>partition_num := v\<rparr>))]"

text \<open>Machine room and IDC of this process (meta.cpp 335-358).\<close>

definition load_room :: "configure \<Rightarrow> nat \<Rightarrow> db_info loader" where
  "load_room c i db =
     (let room_only = (case to_int32 c (db_path i [Name ''DbConnect'', Name ''Db_Connect_ReadRoomOnly'']) of
                         None \<Rightarrow> 0 | Some v \<Rightarrow> v);
          db = db\<lparr>readRoomOnly := room_only\<rparr>
      in if room_only \<noteq> 0
         then read_str c [Name ''Server'', Name ''MachineRoom''] 32 (\<lambda>v db. db\<lparr>serverMachineRoomName := v\<rparr>) db
         else (Loaded, db))"

definition load_idc :: "configure \<Rightarrow> nat \<Rightarrow> db_info loader" where
  "load_idc c i db =
     (let idc_only = (case to_int32 c (db_path i [Name ''DbConnect'', Name ''Db_Connect_ReadIdcOnly'']) of
                        None \<Rightarrow> 1 | Some v \<Rightarrow> v);
          db = db\<lparr>readIdcOnly := idc_only\<rparr>
      in if idc_only \<noteq> 0
         then read_str c [Name ''Server'', Name ''Idc''] 32 (\<lambda>v db. db\<lparr>serverIdcName := v\<rparr>) db
         else (Loaded, db))"

text \<open>Derived fields and the zeroed arrays (meta.cpp 361-366).\<close>

definition load_derived :: "string \<Rightarrow> db_info loader" where
  "load_derived isLong db =
     (Loaded, db\<lparr>timeout_sec := timeout db div 1000,
                 timeout_usec := (timeout db mod 1000) * 1000,
                 long_connect := (isLong \<noteq> ''LONG''),
                 partitions := replicate (unat (partition_num db)) [],
                 partition_service_w := replicate (unat (partition_num db)) [],
                 partition_service_r := replicate (unat (partition_num db)) []\<rparr>)"

text \<open>
  One round of the partition loop (meta.cpp 368-383): the return value of
  \<open>_meta_load_partition\<close> is only logged.
\<close>

definition load_partition_entry :: "configure \<Rightarrow> nat \<Rightarrow> nat \<Rightarrow> db_info loader" where
  "load_partition_entry c i j db =
     (let cname = take 24 (''Db_Shard_Partition'' @ print_int (sint (word_of_nat j :: u32)))
      in case get_cstr c (db_path i [Name ''DbShard'', Name cname]) 5120 of
           None \<Rightarrow> (Failed, db)
         | Some partition_str \<Rightarrow>
             (case load_partition partition_str of
                None \<Rightarrow> (Crashed, db)
              | Some (ret, ps) \<Rightarrow> (Loaded, db\<lparr>partitions := (partitions db)[j := ps]\<rparr>)))"

text \<open>The fields of one service (meta.cpp 398-438), read into a zeroed structure.\<close>

definition zero_service :: "int \<Rightarrow> service_info" where
  "zero_service j = \<lparr>sv_id = j, service_name = [], addr = [], port = 0, partition = 0,
     can_read = False, can_write = False, idcName = [], machineRoomName = []\<rparr>"

definition sv_path :: "nat \<Rightarrow> nat \<Rightarrow> string \<Rightarrow> conf_path" where
  "sv_path i j nm = db_path i [Name ''Service'', Index j, Name nm]"

definition restrict_read :: "db_info \<Rightarrow> service_info \<Rightarrow> service_info" where
  "restrict_read db sv =
     (if can_read sv \<and>
         ((readIdcOnly db \<noteq> 0 \<and> take 32 (idcName sv) \<noteq> take 32 (serverIdcName db)) \<or>
          (readRoomOnly db \<noteq> 0 \<and> take 32 (machineRoomName sv) \<noteq> take 32 (serverMachineRoomName db)))
      then sv\<lparr>can_read := False\<rparr> else sv)"

definition load_service_fields :: "configure \<Rightarrow> nat \<Rightarrow> nat \<Rightarrow> db_info \<Rightarrow> service_info loader" where
  "load_service_fields c i j db = run_all
     [read_str c (sv_path i j ''Service_Name'') 32 (\<lambda>v sv. sv\<lparr>service_name := v\<rparr>),
      read_str c (sv_path i j ''Service_Addr'') 128 (\<lambda>v sv. sv\<lparr>addr := v\<rparr>),
      read_u32 c (sv_path i j ''Service_Port'') (\<lambda>v sv. sv\<lparr>port := v\<rparr>),
      read_u32 c (sv_path i j ''Service_Partition'') (\<lambda>v sv. sv\<lparr>partition := v\<rparr>),
      read_i32 c (sv_path i j ''Service_CanRead'') (\<lambda>v sv. sv\<lparr>can_read := (v \<noteq> 0)\<rparr>),
      read_i32 c (sv_path i j ''Service_CanWrite'') (\<lambda>v sv. sv\<lparr>can_write := (v \<noteq> 0)\<rparr>),
      (\<lambda>sv. if readRoomOnly db \<noteq> 0
             then read_str c (sv_path i j ''Service_MachineRoom'') 32 (\<lambda>v sv. sv\<lparr>machineRoomName := v\<rparr>) sv
             else (Loaded, sv)),
      (\<lambda>sv. if readIdcOnly db \<noteq> 0
             then read_str c (sv_path i j ''Service_Idc'') 32 (\<lambda>v sv. sv\<lparr>idcName := v\<rparr>) sv
             else (Loaded, sv)),
      (\<lambda>sv. (Loaded, restrict_read db sv))]"

text \<open>Entering a service into the lists of its partition (meta.cpp 441-465).\<close>

definition append_at :: "'a list list \<Rightarrow> nat \<Rightarrow> 'a \<Rightarrow> 'a list list" where
  "append_at xss p x = xss[p := xss ! p @ [x]]"

definition enter_service :: "service_info \<Rightarrow> db_info loader" where
  "enter_service sv db =
     (let p = unat (partition sv) in
      if partition_num db \<le> partition sv then (Failed, db)
      else if can_read sv \<and> MAX_COPY_NUM \<le> length (partition_service_r db ! p) then (Crashed, db)
      else
        (let db = (if can_read sv
                   then db\<lparr>partition_service_r := append_at (partition_service_r db) p sv\<rparr> else db) in
         if can_write sv \<and> MAX_COPY_NUM \<le> length (partition_service_w db ! p) then (Crashed, db)
         else (Loaded, if can_write sv
                       then db\<lparr>partition_service_w := append_at (partition_service_w db) p sv\<rparr> else db)))"

definition load_service_entry :: "configure \<Rightarrow> nat \<Rightarrow> nat \<Rightarrow> db_info loader" where
  "load_service_entry c i j db =
     (case load_service_fields c i j db (zero_service (int j)) of
        (Loaded, sv) \<Rightarrow> enter_service sv (db\<lparr>services := (services db)[j := Some sv]\<rparr>)
      | (r, sv) \<Rightarrow> (r, db\<lparr>services := (services db)[j := Some sv]\<rparr>))"

definition load_services :: "configure \<Rightarrow> nat \<Rightarrow> db_info loader" where
  "load_services c i db =
     (case conf_size c (db_path i [Name ''Service'']) of
        None \<Rightarrow> (Failed, db)
      | Some n \<Rightarrow> run_all (map (load_service_entry c i) [0..<n]) (db\<lparr>services := replicate n None\<rparr>))"

text \<open>The users (meta.cpp 469-489).\<close>

definition load_user_entry :: "configure \<Rightarrow> nat \<Rightarrow> nat \<Rightarrow> db_info loader" where
  "load_user_entry c i j db =
     (case run_all
        [read_str c (db_path i [Name ''User'', Index j, Name ''User_Name'']) 32 (\<lambda>v u. u\<lparr>uname := v\<rparr>),
         read_str c (db_path i [Name ''User'', Index j, Name ''User_Tk'']) 32 (\<lambda>v u. u\<lparr>tk := v\<rparr>),
         read_i32 c (db_path i [Name ''User'', Index j, Name ''User_Power'']) (\<lambda>v u. u\<lparr>power := v\<rparr>)]
        \<lparr>uname = [], tk = [], power = 0\<rparr> of
        (r, u) \<Rightarrow> (r, db\<lparr>users := (users db)[j := Some u]\<rparr>))"

definition load_users :: "configure \<Rightarrow> nat \<Rightarrow> db_info loader" where
  "load_users c i db =
     (case conf_size c (db_path i [Name ''User'']) of
        None \<Rightarrow> (Failed, db)
      | Some n \<Rightarrow> run_all (map (load_user_entry c i) [0..<n]) (db\<lparr>users := replicate n None\<rparr>))"

text \<open>\<open>_meta_load_conf\<close>.\<close>

definition zero_db :: "int \<Rightarrow> db_info" where
  "zero_db i = \<lparr>db_id = i, pid = [], db_name = [], machine_room = [], shard_mode = 0,
     connect_per_service = 0, timeout = 0, timeout_sec = 0, timeout_usec = 0, long_connect = False,
     get_connect_retry = 0, readIdcOnly = 0, readRoomOnly = 0, serverIdcName = [],
     serverMachineRoomName = [], services = [], users = [], partition_num = 0, partitions = [],
     partition_service_w = [], partition_service_r = []\<rparr>"

definition load_conf :: "configure \<Rightarrow> nat \<Rightarrow> load_res \<times> db_info" where
  "load_conf c i =
     (case load_basic c i ([], zero_db (int i)) of
        (Loaded, isLong, db) \<Rightarrow>
          run_all
            [load_room c i, load_idc c i, load_derived isLong,
             (\<lambda>db. run_all (map (load_partition_entry c i) [0..<unat (partition_num db)]) db),
             load_services c i, load_users c i] db
      | (r, isLong, db) \<Rightarrow> (r, db))"

section \<open>What a successful load guarantees\<close>

lemma run_all_upt:
  assumes "run_all (map f [0..<n]) s = (Loaded, s')" "P 0 s"
    and "\<And>j s s'. j < n \<Longrightarrow> P j s \<Longrightarrow> f j s = (Loaded, s') \<Longrightarrow> P (Suc j) s'"
  shows "P n s'"
proof -
  have "run_all (map f [k..<n]) s = (Loaded, s') \<Longrightarrow> P k s \<Longrightarrow> k \<le> n \<Longrightarrow> P n s'" for k s
  proof (induction "n - k" arbitrary: k s)
    case (Suc m)
    then have k: "k < n" by simp
    with Suc(3) obtain s1 where "f k s = (Loaded, s1)" "run_all (map f [Suc k..<n]) s1 = (Loaded, s')"
      by (auto simp: upt_conv_Cons split: prod.splits load_res.splits)
    then show ?case using Suc(1) [of "Suc k" s1] assms(3) [OF k Suc(4)] k Suc(2) by auto
  qed simp
  from this [of 0 s] assms(1,2) show ?thesis by simp
qed

lemma run_all_ConsE:
  assumes "run_all (f # fs) s = (Loaded, s')"
  obtains s1 where "f s = (Loaded, s1)" "run_all fs s1 = (Loaded, s')"
  using assms by (auto split: prod.splits load_res.splits)

definition read_allowed :: "db_info \<Rightarrow> service_info \<Rightarrow> bool" where
  "read_allowed db sv \<longleftrightarrow>
     (readIdcOnly db \<noteq> 0 \<longrightarrow> take 32 (idcName sv) = take 32 (serverIdcName db)) \<and>
     (readRoomOnly db \<noteq> 0 \<longrightarrow> take 32 (machineRoomName sv) = take 32 (serverMachineRoomName db))"

text \<open>The services of each partition, in configuration order.\<close>

definition by_partition :: "nat \<Rightarrow> (service_info \<Rightarrow> bool) \<Rightarrow> service_info list \<Rightarrow> service_info list list" where
  "by_partition n sel svs = map (\<lambda>p. filter (\<lambda>sv. sel sv \<and> unat (partition sv) = p) svs) [0..<n]"

lemma by_partition_simps [simp]:
  "length (by_partition n sel svs) = n"
  "p < n \<Longrightarrow> by_partition n sel svs ! p = filter (\<lambda>sv. sel sv \<and> unat (partition sv) = p) svs"
  "by_partition n sel [] = replicate n []"
  by (simp_all add: by_partition_def map_replicate_const)

lemma by_partition_snoc:
  "unat (partition sv) < n \<Longrightarrow>
   by_partition n sel (svs @ [sv]) =
     (if sel sv then append_at (by_partition n sel svs) (unat (partition sv)) sv else by_partition n sel svs)"
  by (auto simp: append_at_def nth_list_update_if intro!: nth_equalityI)

lemma load_service_fields_read:
  assumes "load_service_fields c i j db sv0 = (Loaded, sv)"
  shows "can_read sv \<longrightarrow> read_allowed db sv"
proof -
  from assms obtain sv1 where "restrict_read db sv1 = sv"
    unfolding load_service_fields_def by (elim run_all_ConsE) auto
  then show ?thesis by (auto simp: restrict_read_def read_allowed_def split: if_splits)
qed

definition services_loaded :: "db_info \<Rightarrow> nat \<Rightarrow> service_info list \<Rightarrow> db_info" where
  "services_loaded db n svs =
     db\<lparr>services := map Some svs @ replicate (n - length svs) None,
        partition_service_r := by_partition (unat (partition_num db)) can_read svs,
        partition_service_w := by_partition (unat (partition_num db)) can_write svs\<rparr>"

definition services_ok :: "db_info \<Rightarrow> service_info list \<Rightarrow> bool" where
  "services_ok db svs \<longleftrightarrow>
     (\<forall>sv \<in> set svs. partition sv < partition_num db \<and> (can_read sv \<longrightarrow> read_allowed db sv)) \<and>
     (\<forall>p < unat (partition_num db).
        length (filter (\<lambda>sv. can_read sv \<and> unat (partition sv) = p) svs) \<le> MAX_COPY_NUM \<and>
        length (filter (\<lambda>sv. can_write sv \<and> unat (partition sv) = p) svs) \<le> MAX_COPY_NUM)"

lemma services_loaded_frame [simp]:
  "partition_num (services_loaded db n svs) = partition_num db"
  "read_allowed (services_loaded db n svs) = read_allowed db"
  by (simp_all add: services_loaded_def read_allowed_def fun_eq_iff)

lemma load_service_entry_step:
  assumes "load_service_entry c i (length svs) (services_loaded db n svs) = (Loaded, db')"
    and "length svs < n" "services_ok db svs"
  shows "\<exists>sv. db' = services_loaded db n (svs @ [sv]) \<and> services_ok db (svs @ [sv])"
proof -
  let ?d = "services_loaded db n svs"
  from assms(1) obtain sv where f: "load_service_fields c i (length svs) ?d (zero_service (int (length svs))) = (Loaded, sv)"
    and e: "enter_service sv (?d\<lparr>services := (services ?d)[length svs := Some sv]\<rparr>) = (Loaded, db')"
    by (auto simp: load_service_entry_def split: prod.splits load_res.splits)
  have p: "partition sv < partition_num db"
    using e by (auto simp: enter_service_def Let_def split: if_splits)
  then have pn: "unat (partition sv) < unat (partition_num db)" by (simp add: word_less_nat_alt)
  have read: "can_read sv \<longrightarrow> read_allowed db sv" using load_service_fields_read [OF f] by simp
  have svs: "(map Some svs @ replicate (n - length svs) None)[length svs := Some sv] =
      map Some (svs @ [sv]) @ replicate (n - length (svs @ [sv])) None"
    using assms(2) by (auto simp: list_update_append dest!: less_imp_Suc_add)
  have lens: "can_read sv \<longrightarrow>
        length (filter (\<lambda>s. can_read s \<and> unat (partition s) = unat (partition sv)) svs) < MAX_COPY_NUM"
      "can_write sv \<longrightarrow>
        length (filter (\<lambda>s. can_write s \<and> unat (partition s) = unat (partition sv)) svs) < MAX_COPY_NUM"
    using e pn p by (auto simp: enter_service_def Let_def services_loaded_def not_le split: if_splits)
  have "db' = services_loaded db n (svs @ [sv])"
    using e svs p by (auto simp: enter_service_def Let_def services_loaded_def by_partition_snoc [OF pn] split: if_splits)
  moreover have "services_ok db (svs @ [sv])"
    using assms(3) lens p read by (auto simp: services_ok_def Suc_le_eq)
  ultimately show ?thesis by blast
qed

lemma load_services_ok:
  assumes "load_services c i db = (Loaded, db')"
    and "partition_service_r db = replicate (unat (partition_num db)) []"
    and "partition_service_w db = replicate (unat (partition_num db)) []"
  shows "\<exists>svs. db' = services_loaded db (length svs) svs \<and> services_ok db svs"
proof -
  from assms(1) obtain n where
    r: "run_all (map (load_service_entry c i) [0..<n]) (db\<lparr>services := replicate n None\<rparr>) = (Loaded, db')"
    by (auto simp: load_services_def split: option.splits)
  let ?P = "\<lambda>j d. \<exists>svs. length svs = j \<and> d = services_loaded db n svs \<and> services_ok db svs"
  have "?P n db'"
  proof (rule run_all_upt [where P = ?P, OF r])
    show "?P 0 (db\<lparr>services := replicate n None\<rparr>)"
      using assms(2,3) by (simp add: services_loaded_def services_ok_def)
    show "?P (Suc j) s'" if "j < n" "?P j s" "load_service_entry c i j s = (Loaded, s')" for j s s'
      using that load_service_entry_step [of c i _ db n s'] by force
  qed
  then show ?thesis by auto
qed

lemma load_users_ok:
  assumes "load_users c i db = (Loaded, db')"
  shows "\<exists>us. db' = db\<lparr>users := map Some us\<rparr>"
proof -
  from assms obtain n where
    r: "run_all (map (load_user_entry c i) [0..<n]) (db\<lparr>users := replicate n None\<rparr>) = (Loaded, db')"
    by (auto simp: load_users_def split: option.splits)
  let ?P = "\<lambda>j d. \<exists>us. length us = j \<and> d = db\<lparr>users := map Some us @ replicate (n - j) None\<rparr>"
  have "?P n db'"
  proof (rule run_all_upt [where P = ?P, OF r])
    show "?P 0 (db\<lparr>users := replicate n None\<rparr>)" by simp
    fix j s s'
    assume j: "j < n" and "?P j s" and s: "load_user_entry c i j s = (Loaded, s')"
    then obtain us where us: "length us = j" "s = db\<lparr>users := map Some us @ replicate (n - j) None\<rparr>" by auto
    from s obtain u where "s' = s\<lparr>users := (users s)[j := Some u]\<rparr>"
      unfolding load_user_entry_def by (auto split: prod.splits)
    then have "s' = db\<lparr>users := map Some (us @ [u]) @ replicate (n - Suc j) None\<rparr>"
      using us j by (auto simp: list_update_append dest!: less_imp_Suc_add)
    then show "?P (Suc j) s'" using us(1) by (intro exI [of _ "us @ [u]"]) simp
  qed
  then show ?thesis by auto
qed

definition partition_strings :: "configure \<Rightarrow> nat \<Rightarrow> nat \<Rightarrow> string option" where
  "partition_strings c i j =
     get_cstr c (db_path i [Name ''DbShard'',
       Name (take 24 (''Db_Shard_Partition'' @ print_int (sint (word_of_nat j :: u32))))]) 5120"

lemma load_partitions_ok:
  assumes "run_all (map (load_partition_entry c i) [0..<n]) db = (Loaded, db')"
    and "length (partitions db) = n"
  shows "\<exists>pss. db' = db\<lparr>partitions := pss\<rparr> \<and> length pss = n \<and>
     (\<forall>j<n. \<exists>str ret. partition_strings c i j = Some str \<and> load_partition str = Some (ret, pss ! j))"
proof -
  let ?P = "\<lambda>j d. \<exists>pss. d = db\<lparr>partitions := pss\<rparr> \<and> length pss = n \<and>
     (\<forall>k<j. \<exists>str ret. partition_strings c i k = Some str \<and> load_partition str = Some (ret, pss ! k))"
  show ?thesis
  proof (rule run_all_upt [where P = ?P, OF assms(1)])
    show "?P 0 db" using assms(2) by (intro exI [of _ "partitions db"]) simp
    fix j s s'
    assume j: "j < n" and "?P j s" and s: "load_partition_entry c i j s = (Loaded, s')"
    then obtain pss where p: "s = db\<lparr>partitions := pss\<rparr>" "length pss = n"
      "\<forall>k<j. \<exists>str ret. partition_strings c i k = Some str \<and> load_partition str = Some (ret, pss ! k)" by auto
    from s obtain str ret ps where "partition_strings c i j = Some str" "load_partition str = Some (ret, ps)"
      "s' = s\<lparr>partitions := (partitions s)[j := ps]\<rparr>"
      by (auto simp: load_partition_entry_def partition_strings_def Let_def split: option.splits)
    then show "?P (Suc j) s'"
      using p j by (intro exI [of _ "pss[j := ps]"]) (auto simp: less_Suc_eq)
  qed
qed

text \<open>The stages of a successful load, in one place.\<close>

lemma load_room_ok:
  assumes "load_room c i db = (Loaded, db')"
  shows "\<exists>r n. db' = db\<lparr>readRoomOnly := r, serverMachineRoomName := n\<rparr>"
  by (rule exI [of _ "readRoomOnly db'"], rule exI [of _ "serverMachineRoomName db'"])
     (use assms in \<open>auto simp: load_room_def read_str_def Let_def split: if_splits option.splits\<close>)

lemma load_idc_ok:
  assumes "load_idc c i db = (Loaded, db')"
  shows "\<exists>r n. db' = db\<lparr>readIdcOnly := r, serverIdcName := n\<rparr>"
  by (rule exI [of _ "readIdcOnly db'"], rule exI [of _ "serverIdcName db'"])
     (use assms in \<open>auto simp: load_idc_def read_str_def Let_def split: if_splits option.splits\<close>)

lemma load_conf_stages:
  assumes "load_conf c i = (Loaded, db)"
  obtains isLong b r rn d dn pss svs us db3 where
    "load_basic c i ([], zero_db (int i)) = (Loaded, isLong, b)"
    "db3 = snd (load_derived isLong (b\<lparr>readRoomOnly := r, serverMachineRoomName := rn,
                                       readIdcOnly := d, serverIdcName := dn\<rparr>))"
    "length pss = unat (partition_num b)"
    "\<forall>j < unat (partition_num b). \<exists>str ret. partition_strings c i j = Some str \<and>
        load_partition str = Some (ret, pss ! j)"
    "services_ok (db3\<lparr>partitions := pss\<rparr>) svs"
    "db = (services_loaded (db3\<lparr>partitions := pss\<rparr>) (length svs) svs)\<lparr>users := map Some us\<rparr>"
proof -
  from assms obtain isLong b db1 db2 db3 db4 db5 where
    s: "load_basic c i ([], zero_db (int i)) = (Loaded, isLong, b)"
      "load_room c i b = (Loaded, db1)" "load_idc c i db1 = (Loaded, db2)"
      "load_derived isLong db2 = (Loaded, db3)"
      "run_all (map (load_partition_entry c i) [0..<unat (partition_num db3)]) db3 = (Loaded, db4)"
      "load_services c i db4 = (Loaded, db5)" "load_users c i db5 = (Loaded, db)"
    unfolding load_conf_def
    by (auto split: prod.splits load_res.splits elim!: run_all_ConsE)
  from load_room_ok [OF s(2)] load_idc_ok [OF s(3)] obtain r rn d dn where
    d2: "db2 = b\<lparr>readRoomOnly := r, serverMachineRoomName := rn, readIdcOnly := d, serverIdcName := dn\<rparr>"
    by auto
  then have d3: "db3 = snd (load_derived isLong (b\<lparr>readRoomOnly := r, serverMachineRoomName := rn,
                                       readIdcOnly := d, serverIdcName := dn\<rparr>))"
    using s(4) by simp
  then have n: "partition_num db3 = partition_num b"
    "length (partitions db3) = unat (partition_num b)" by (simp_all add: load_derived_def)
  from load_partitions_ok [OF s(5)] n obtain pss where
    p: "db4 = db3\<lparr>partitions := pss\<rparr>" "length pss = unat (partition_num b)"
      "\<forall>j < unat (partition_num b). \<exists>str ret. partition_strings c i j = Some str \<and>
        load_partition str = Some (ret, pss ! j)" by auto
  from load_services_ok [OF s(6)] p(1) d3 obtain svs where
    v: "db5 = services_loaded db4 (length svs) svs" "services_ok db4 svs"
    by (auto simp: load_derived_def)
  from load_users_ok [OF s(7)] obtain us where "db = db5\<lparr>users := map Some us\<rparr>" by auto
  then show ?thesis using that [OF s(1) d3 p(2,3)] v p(1) by simp
qed

text \<open>A small configuration that loads: one partition, one service, one user.\<close>

definition example_conf :: configure where
  "example_conf =
     \<lparr>get_cstr = (\<lambda>p n. Some (if last p = Name ''Db_Connect_type'' then ''LONG'' else ''0-2'')),
      to_uint32 = (\<lambda>p. Some (if last p = Name ''Db_Shard_PartitionNum'' then 1
                               else if last p = Name ''Db_Connect_ProcessTimeoutMs'' then 1500 else 0)),
      to_int32 = (\<lambda>p. Some 1),
      conf_size = (\<lambda>p. Some 1),
      to_cstr = (\<lambda>p. Some ''0-2''), get_uint16 = (\<lambda>p. Some 0)\<rparr>"

lemma example_partition: "load_partition ''0-2'' = Some (3, [0, 1, 2])"
proof -
  have w: "load_word ''0-2'' = Some [0, 1, 2]"
    by (simp add: load_word_def atoi_def is_space_def is_digit_def PARTITION_MOD_KEY_def Let_def upt_conv_Cons)
  then show ?thesis
    by (simp add: load_partition_def load_words.simps [of "''0-2''"] load_words.simps [of "[]"]
        Let_def PARTITION_MOD_KEY_def)
qed

lemma example_conf_loads: "fst (load_conf example_conf 0) = Loaded"
  by (simp add: load_conf_def load_basic_def read_str_def read_u32_def read_i32_def example_conf_def
        zero_db_def load_room_def load_idc_def load_derived_def load_partition_entry_def Let_def example_partition
        load_services_def load_service_entry_def load_service_fields_def zero_service_def
        enter_service_def append_at_def restrict_read_def MAX_COPY_NUM_def load_users_def
        load_user_entry_def db_path_def sv_path_def)

lemma example_conf_db: "\<exists>db. load_conf example_conf 0 = (Loaded, db)"
  using example_conf_loads by (metis prod.collapse)

text \<open>
  A configuration that loads gives every partition exactly its services: the read (write)
  list of a partition is the configured services of that partition that may be read (written),
  in configuration order, at most \<open>MAX_COPY_NUM\<close> of them; every service names an existing
  partition; and with \<open>ReadIdcOnly\<close> (\<open>ReadRoomOnly\<close>) every readable service is in the IDC
  (machine room) of this process.
\<close>

theorem load_conf_services:
  assumes "load_conf c i = (Loaded, db)"
  shows "\<exists>svs. services db = map Some svs \<and>
           (\<forall>sv \<in> set svs. partition sv < partition_num db \<and> (can_read sv \<longrightarrow> read_allowed db sv)) \<and>
           length (partition_service_r db) = unat (partition_num db) \<and>
           length (partition_service_w db) = unat (partition_num db) \<and>
           (\<forall>p < unat (partition_num db).
              partition_service_r db ! p = filter (\<lambda>sv. can_read sv \<and> unat (partition sv) = p) svs \<and>
              partition_service_w db ! p = filter (\<lambda>sv. can_write sv \<and> unat (partition sv) = p) svs \<and>
              length (partition_service_r db ! p) \<le> MAX_COPY_NUM \<and>
              length (partition_service_w db ! p) \<le> MAX_COPY_NUM)"
proof -
  from assms obtain d svs us where ok: "services_ok d svs"
    and db: "db = (services_loaded d (length svs) svs)\<lparr>users := map Some us\<rparr>"
    by (rule load_conf_stages)
  have "services db = map Some svs" "partition_num db = partition_num d"
    "partition_service_r db = by_partition (unat (partition_num d)) can_read svs"
    "partition_service_w db = by_partition (unat (partition_num d)) can_write svs"
    by (simp_all add: db services_loaded_def)
  moreover have "read_allowed db = read_allowed d"
    by (simp add: db services_loaded_def read_allowed_def fun_eq_iff)
  ultimately show ?thesis using ok by (intro exI [of _ svs]) (auto simp: services_ok_def)
qed

theorem load_conf_services_witness:
  "\<exists>svs. services (snd (load_conf example_conf 0)) = map Some svs \<and>
     length (partition_service_r (snd (load_conf example_conf 0))) =
     unat (partition_num (snd (load_conf example_conf 0)))"
proof -
  obtain db where db: "load_conf example_conf 0 = (Loaded, db)" using example_conf_db by auto
  from load_conf_services [OF this] obtain svs where "services db = map Some svs"
    "length (partition_service_r db) = unat (partition_num db)" by auto
  then show ?thesis by (auto simp: db)
qed

text \<open>
  The partition table of a loaded configuration has one slot list per partition, each the
  list \<open>_meta_load_partition\<close> leaves behind for the partition's string, cut short at the first
  bad word: the error return of \<open>_meta_load_partition\<close> does not stop the load.
\<close>

theorem load_conf_partitions:
  assumes "load_conf c i = (Loaded, db)"
  shows "length (partitions db) = unat (partition_num db) \<and>
     (\<forall>j < unat (partition_num db). \<exists>str ret. partition_strings c i j = Some str \<and>
        load_partition str = Some (ret, partitions db ! j))"
  using assms by (rule load_conf_stages) (simp add: services_loaded_def load_derived_def)

theorem load_conf_partitions_witness:
  "length (partitions (snd (load_conf example_conf 0))) =
   unat (partition_num (snd (load_conf example_conf 0)))"
proof -
  obtain db where db: "load_conf example_conf 0 = (Loaded, db)" using example_conf_db by auto
  from load_conf_partitions [OF this] show ?thesis by (simp add: db)
qed

lemma read_str_SomeE:
  assumes "read_str c p n put s = (Loaded, s')"
  obtains v where "get_cstr c p n = Some v" "s' = put v s"
  using assms by (auto simp: read_str_def split: option.splits)

lemma read_u32_SomeE:
  assumes "read_u32 c p put s = (Loaded, s')"
  obtains v where "to_uint32 c p = Some v" "s' = put v s"
  using assms by (auto simp: read_u32_def split: option.splits)

lemma load_basic_long:
  assumes "load_basic c i (l, db) = (Loaded, isLong, b)"
  shows "get_cstr c (db_path i [Name ''DbConnect'', Name ''Db_Connect_type'']) 5 = Some isLong"
  using assms unfolding load_basic_def
  by (elim run_all_ConsE read_str_SomeE read_u32_SomeE) (simp split: prod.splits)

text \<open>
  The timeout of a loaded configuration is split into seconds and microseconds without loss
  (\<open>timeout\<close> is in milliseconds), the microseconds stay below a second; and the connection type
  \<open>''LONG''\<close> yields \<open>long_connect = false\<close>, any other type \<open>true\<close>.
\<close>

theorem load_conf_connection:
  assumes "load_conf c i = (Loaded, db)"
  shows "uint (timeout_sec db) * 1000 + uint (timeout_usec db) div 1000 = uint (timeout db) \<and>
     uint (timeout_usec db) mod 1000 = 0 \<and> uint (timeout_usec db) < 1000000 \<and>
     (long_connect db \<longleftrightarrow>
        get_cstr c (db_path i [Name ''DbConnect'', Name ''Db_Connect_type'']) 5 \<noteq> Some ''LONG'')"
proof -
  have split: "uint (t div 1000) * 1000 + uint (t mod 1000 * 1000) div 1000 = uint t \<and>
      uint (t mod 1000 * 1000) mod 1000 = 0 \<and> uint (t mod 1000 * 1000) < 1000000" for t :: u32
  proof -
    have m: "uint (t mod 1000) = uint t mod 1000" by (simp add: uint_mod)
    then have "uint (t mod 1000) < 1000" by simp
    then have "uint (t mod 1000 * 1000) = uint t mod 1000 * 1000"
      using m by (simp add: uint_word_ariths)
    then show ?thesis by (simp add: uint_div)
  qed
  from assms obtain isLong b r rn d dn pss svs us where
    b: "load_basic c i ([], zero_db (int i)) = (Loaded, isLong, b)"
    and db: "db = (services_loaded (snd (load_derived isLong (b\<lparr>readRoomOnly := r, serverMachineRoomName := rn,
        readIdcOnly := d, serverIdcName := dn\<rparr>))\<lparr>partitions := pss\<rparr>) (length svs) svs)\<lparr>users := map Some us\<rparr>"
    by (rule load_conf_stages) simp
  have "timeout_sec db = timeout b div 1000" "timeout_usec db = timeout b mod 1000 * 1000"
    "timeout db = timeout b" "long_connect db = (isLong \<noteq> ''LONG'')"
    by (simp_all add: db services_loaded_def load_derived_def)
  then show ?thesis using split [of "timeout b"] load_basic_long [OF b] by simp
qed

theorem load_conf_connection_witness: "\<not> long_connect (snd (load_conf example_conf 0))"
proof -
  obtain db where db: "load_conf example_conf 0 = (Loaded, db)" using example_conf_db by auto
  have "get_cstr example_conf (db_path 0 [Name ''DbConnect'', Name ''Db_Connect_type'']) 5 = Some ''LONG''"
    by (simp add: example_conf_def db_path_def)
  then show ?thesis using load_conf_connection [OF db] by (simp add: db)
qed

end
