(* ===== verification/Router.thy ===== *)
theory Router
  imports Conf
begin

text \<open>
  The pool tables of \<open>router.cpp\<close> and the switch from the old pools to the new ones on a
  reload: \<open>router_init\<close>, \<open>router_build\<close>, \<open>_shard_build_pool\<close>, \<open>router_destroy\<close>,
  \<open>_router_on_destroy\<close>, \<open>_get_shard\<close>. A pool is identified by the arguments of its
  \<open>pool_build\<close> call (its inside is the theory \<open>Pool\<close>). \<open>pool_destroy\<close> either calls
  \<open>_router_on_destroy\<close> at once or later; which of the two is the parameter \<open>now\<close>. \<open>None\<close> is an
  access outside a table or through a NULL pool.
\<close>

record pool_desc =
  pool_idx :: int
  pool_services :: "(string \<times> u32) list"
  pool_connects :: u32
  pool_timeout :: u32
  pool_room :: string
  pool_retry :: u32
  pool_long :: bool

record router_state =
  router_flag :: nat
  router_next_flag :: nat
  router_switching :: bool
  pool_map_r :: "nat \<Rightarrow> pool_desc option"
  pool_map_w :: "nat \<Rightarrow> pool_desc option"
  pool_num_r :: "nat \<Rightarrow> int"
  pool_num_w :: "nat \<Rightarrow> int"
  shard_params :: "nat \<Rightarrow> slot_table"
  shard_func :: "nat \<Rightarrow> bool"

section \<open>Operations\<close>

definition router_init :: router_state where
  "router_init =
     \<lparr>router_flag = 1, router_next_flag = 0, router_switching = False,
      pool_map_r = (\<lambda>_. None), pool_map_w = (\<lambda>_. None), pool_num_r = (\<lambda>_. 0), pool_num_w = (\<lambda>_. 0),
      shard_params = (\<lambda>_ _. 0), shard_func = (\<lambda>_. False)\<rparr>"

definition router_is_building :: "router_state \<Rightarrow> bool" where
  "router_is_building s = router_switching s"

text \<open>
  \<open>_get_shard\<close>: the cell read, or \<open>None\<close> when the index is outside the table. The cell itself
  may be NULL.
\<close>

definition get_shard :: "router_state \<Rightarrow> bool \<Rightarrow> int \<Rightarrow> pool_desc option option" where
  "get_shard s is_read k =
     (let at = int (PARTITION_MOD_KEY * router_flag s) + k in
      if at < 0 \<or> int (2 * PARTITION_MOD_KEY) \<le> at then None
      else Some (if is_read then pool_map_r s (nat at) else pool_map_w s (nat at)))"

text \<open>The hash function in use: \<open>_shard_func[router_flag]\<close>, \<open>None\<close> while it is NULL.\<close>

definition current_shard :: "router_state \<Rightarrow> (32 word \<Rightarrow> int) option" where
  "current_shard s =
     (if shard_func s (router_flag s) then Some (shard_func_part (shard_params s (router_flag s))) else None)"

definition pool_desc_of :: "db_info \<Rightarrow> int \<Rightarrow> service_info list \<Rightarrow> pool_desc" where
  "pool_desc_of db idx svs =
     \<lparr>pool_idx = idx, pool_services = map (\<lambda>sv. (take 128 (addr sv), port sv)) svs,
      pool_connects = connect_per_service db, pool_timeout = timeout db, pool_room = machine_room db,
      pool_retry = get_connect_retry db, pool_long = long_connect db\<rparr>"

definition build_read_pool :: "db_info \<Rightarrow> nat \<Rightarrow> router_state \<Rightarrow> router_state option" where
  "build_read_pool db i s =
     (let f = router_next_flag s; at = PARTITION_MOD_KEY * f + i in
      if 2 * PARTITION_MOD_KEY \<le> at then None
      else Some (s\<lparr>pool_map_r := (pool_map_r s)(at \<mapsto> pool_desc_of db (int at) (partition_service_r db ! i)),
                   pool_num_r := (pool_num_r s)(f := pool_num_r s f + 1)\<rparr>))"

definition build_write_pool :: "db_info \<Rightarrow> nat \<Rightarrow> router_state \<Rightarrow> router_state option" where
  "build_write_pool db i s =
     (let f = router_next_flag s; at = PARTITION_MOD_KEY * f + i in
      if 2 * PARTITION_MOD_KEY \<le> at then None
      else Some (s\<lparr>pool_map_w := (pool_map_w s)(at \<mapsto>
                     pool_desc_of db (- int (PARTITION_MOD_KEY * f) - int i - 1) (partition_service_w db ! i)),
                   pool_num_w := (pool_num_w s)(f := pool_num_w s f + 1)\<rparr>))"

fun fold_opt :: "('a \<Rightarrow> 's \<Rightarrow> 's option) \<Rightarrow> 'a list \<Rightarrow> 's \<Rightarrow> 's option" where
  "fold_opt f [] s = Some s"
| "fold_opt f (x # xs) s = Option.bind (f x s) (fold_opt f xs)"

definition shard_build_pool :: "db_info \<Rightarrow> router_state \<Rightarrow> router_state option" where
  "shard_build_pool db s =
     Option.bind (fold_opt (build_read_pool db) [0..<unat (partition_num db)] s)
       (fold_opt (build_write_pool db) [0..<unat (partition_num db)])"

definition router_on_destroy :: "pool_desc \<Rightarrow> router_state \<Rightarrow> router_state" where
  "router_on_destroy pool s =
     (let f = router_next_flag s;
          s = (if 0 \<le> pool_idx pool
               then s\<lparr>pool_map_r := (pool_map_r s)(nat (pool_idx pool) := None),
                      pool_num_r := (pool_num_r s)(f := pool_num_r s f - 1)\<rparr>
               else s\<lparr>pool_map_w := (pool_map_w s)(nat (- pool_idx pool - 1) := None),
                      pool_num_w := (pool_num_w s)(f := pool_num_w s f - 1)\<rparr>)
      in if pool_num_r s f = 0 \<and> pool_num_w s f = 0 then s\<lparr>router_switching := False\<rparr> else s)"

text \<open>
  \<open>pool_destroy\<close> as the router sees it: the callback now, or the pool joins those whose
  callback is still to come.
\<close>

definition start_destroy ::
  "(pool_desc \<Rightarrow> bool) \<Rightarrow> (router_state \<Rightarrow> nat \<Rightarrow> pool_desc option) \<Rightarrow> nat \<Rightarrow>
   router_state \<times> pool_desc list \<Rightarrow> (router_state \<times> pool_desc list) option" where
  "start_destroy now pool_map i = (\<lambda>(s, dying).
     case pool_map s (PARTITION_MOD_KEY * router_next_flag s + i) of
       None \<Rightarrow> None
     | Some pool \<Rightarrow> if now pool then Some (router_on_destroy pool s, dying) else Some (s, dying @ [pool]))"

definition router_destroy ::
  "(pool_desc \<Rightarrow> bool) \<Rightarrow> router_state \<times> pool_desc list \<Rightarrow> (router_state \<times> pool_desc list) option" where
  "router_destroy now = (\<lambda>(s, dying).
     let n_r = pool_num_r s (router_next_flag s); n_w = pool_num_w s (router_next_flag s) in
     if n_r = 0 \<and> n_w = 0 then Some (s\<lparr>router_switching := False\<rparr>, dying)
     else Option.bind (fold_opt (start_destroy now pool_map_r) [0..<nat n_r] (s, dying))
            (fold_opt (start_destroy now pool_map_w) [0..<nat n_w]))"

text \<open>\<open>router_build\<close>: the return code and the new state.\<close>

definition router_build ::
  "(pool_desc \<Rightarrow> bool) \<Rightarrow> db_info \<Rightarrow> router_state \<times> pool_desc list \<Rightarrow>
   (int \<times> router_state \<times> pool_desc list) option" where
  "router_build now db = (\<lambda>(s, dying).
     let s = s\<lparr>router_switching := True\<rparr>; f = router_next_flag s in
     if shard_mode db \<noteq> 0 then Some (-1, s, dying)
     else
       (case shard_init_part (partitions db) of
          (Some (OutOfBounds p), t) \<Rightarrow> None
        | (Some e, t) \<Rightarrow>
            Some (-1, s\<lparr>shard_params := (shard_params s)(f := t), router_switching := False\<rparr>, dying)
        | (None, t) \<Rightarrow>
            Option.bind
              (shard_build_pool db
                 (s\<lparr>shard_params := (shard_params s)(f := t), shard_func := (shard_func s)(f := True)\<rparr>))
              (\<lambda>s. map_option (Pair 0)
                 (router_destroy now
                    (s\<lparr>router_flag := f, router_next_flag := (if f = 0 then 1 else 0)\<rparr>, dying)))))"

section \<open>Pools of one half of the tables\<close>

definition read_idx :: "nat \<Rightarrow> nat \<Rightarrow> int" where
  "read_idx f i = int (PARTITION_MOD_KEY * f + i)"

definition write_idx :: "nat \<Rightarrow> nat \<Rightarrow> int" where
  "write_idx f i = - int (PARTITION_MOD_KEY * f) - int i - 1"

text \<open>
  Half \<open>f\<close> of the tables holds exactly the pools with the indices in \<open>R\<close> and \<open>W\<close> (as cell
  numbers), each under its own index, and the counters know how many they are.
\<close>

definition half :: "router_state \<Rightarrow> nat \<Rightarrow> nat set \<Rightarrow> nat set \<Rightarrow> bool" where
  "half s f R W \<longleftrightarrow>
     R \<subseteq> {..<PARTITION_MOD_KEY} \<and> W \<subseteq> {..<PARTITION_MOD_KEY} \<and>
     (\<forall>i < PARTITION_MOD_KEY.
        map_option pool_idx (pool_map_r s (PARTITION_MOD_KEY * f + i)) = (if i \<in> R then Some (read_idx f i) else None) \<and>
        map_option pool_idx (pool_map_w s (PARTITION_MOD_KEY * f + i)) = (if i \<in> W then Some (write_idx f i) else None)) \<and>
     pool_num_r s f = int (card R) \<and> pool_num_w s f = int (card W)"

lemma half_init: "half router_init f {} {}"
  by (simp add: half_def router_init_def)

lemma half_cong:
  assumes "half s f R W" "pool_map_r s' = pool_map_r s" "pool_map_w s' = pool_map_w s"
    "pool_num_r s' = pool_num_r s" "pool_num_w s' = pool_num_w s"
  shows "half s' f R W"
  using assms by (simp add: half_def)

lemma cell_of_half:
  "i < PARTITION_MOD_KEY \<Longrightarrow> j < PARTITION_MOD_KEY \<Longrightarrow>
   PARTITION_MOD_KEY * f + i = PARTITION_MOD_KEY * g + j \<longleftrightarrow> f = g \<and> i = j"
proof
  assume a: "i < PARTITION_MOD_KEY" "j < PARTITION_MOD_KEY"
    "PARTITION_MOD_KEY * f + i = PARTITION_MOD_KEY * g + j"
  then have "(PARTITION_MOD_KEY * f + i) div PARTITION_MOD_KEY = (PARTITION_MOD_KEY * g + j) div PARTITION_MOD_KEY"
    by simp
  with a(1,2) have "f = g" by simp
  with a(3) show "f = g \<and> i = j" by simp
qed simp

text \<open>The two loops of \<open>_shard_build_pool\<close> in closed form.\<close>

lemma fold_opt_snoc: "fold_opt f (xs @ [x]) s = Option.bind (fold_opt f xs s) (f x)"
  by (induction xs arbitrary: s) (auto split: bind_split)

definition read_cells :: "db_info \<Rightarrow> nat \<Rightarrow> nat \<Rightarrow> (nat \<Rightarrow> pool_desc option) \<Rightarrow> nat \<Rightarrow> pool_desc option" where
  "read_cells db f n m k =
     (if PARTITION_MOD_KEY * f \<le> k \<and> k < PARTITION_MOD_KEY * f + n
      then Some (pool_desc_of db (int k) (partition_service_r db ! (k - PARTITION_MOD_KEY * f))) else m k)"

definition write_cells :: "db_info \<Rightarrow> nat \<Rightarrow> nat \<Rightarrow> (nat \<Rightarrow> pool_desc option) \<Rightarrow> nat \<Rightarrow> pool_desc option" where
  "write_cells db f n m k =
     (if PARTITION_MOD_KEY * f \<le> k \<and> k < PARTITION_MOD_KEY * f + n
      then Some (pool_desc_of db (- int k - 1) (partition_service_w db ! (k - PARTITION_MOD_KEY * f))) else m k)"

lemma cell_bound: "f < 2 \<Longrightarrow> i < PARTITION_MOD_KEY \<Longrightarrow> PARTITION_MOD_KEY * f + i < 2 * PARTITION_MOD_KEY"
  by (auto simp: less_2_cases_iff)

lemma build_read_pools:
  "router_next_flag s < 2 \<Longrightarrow> n \<le> PARTITION_MOD_KEY \<Longrightarrow>
   fold_opt (build_read_pool db) [0..<n] s =
     Some (s\<lparr>pool_map_r := read_cells db (router_next_flag s) n (pool_map_r s),
             pool_num_r := (pool_num_r s)(router_next_flag s := pool_num_r s (router_next_flag s) + int n)\<rparr>)"
proof (induction n)
  case 0
  have "read_cells db (router_next_flag s) 0 (pool_map_r s) = pool_map_r s"
    by (auto simp: read_cells_def fun_eq_iff)
  then show ?case by simp
next
  case (Suc n)
  have cells: "(read_cells db (router_next_flag s) n (pool_map_r s))(PARTITION_MOD_KEY * router_next_flag s + n \<mapsto>
      pool_desc_of db (int (PARTITION_MOD_KEY * router_next_flag s + n)) (partition_service_r db ! n)) =
      read_cells db (router_next_flag s) (Suc n) (pool_map_r s)"
    by (auto simp: read_cells_def fun_eq_iff)
  let ?f = "router_next_flag s"
  let ?s = "s\<lparr>pool_map_r := read_cells db ?f n (pool_map_r s),
     pool_num_r := (pool_num_r s)(?f := pool_num_r s ?f + int n)\<rparr>"
  have step: "build_read_pool db n ?s =
      Some (s\<lparr>pool_map_r := read_cells db ?f (Suc n) (pool_map_r s),
              pool_num_r := (pool_num_r s)(?f := pool_num_r s ?f + int (Suc n))\<rparr>)"
    using cell_bound [of ?f n] Suc(2,3)
    by (simp add: build_read_pool_def Let_def cells [symmetric] add.assoc add.commute [of 1] del: of_nat_add of_nat_mult)
  have ih: "fold_opt (build_read_pool db) [0..<n] s = Some ?s"
    by (rule Suc(1) [OF Suc(2)]) (use Suc(3) in simp)
  show ?case by (simp only: upt_Suc_append le0 fold_opt_snoc ih Option.bind.simps step)
qed

lemma build_write_pools:
  "router_next_flag s < 2 \<Longrightarrow> n \<le> PARTITION_MOD_KEY \<Longrightarrow>
   fold_opt (build_write_pool db) [0..<n] s =
     Some (s\<lparr>pool_map_w := write_cells db (router_next_flag s) n (pool_map_w s),
             pool_num_w := (pool_num_w s)(router_next_flag s := pool_num_w s (router_next_flag s) + int n)\<rparr>)"
proof (induction n)
  case 0
  have "write_cells db (router_next_flag s) 0 (pool_map_w s) = pool_map_w s"
    by (auto simp: write_cells_def fun_eq_iff)
  then show ?case by simp
next
  case (Suc n)
  have cells: "(write_cells db (router_next_flag s) n (pool_map_w s))(PARTITION_MOD_KEY * router_next_flag s + n \<mapsto>
      pool_desc_of db (- int (PARTITION_MOD_KEY * router_next_flag s) - int n - 1) (partition_service_w db ! n)) =
      write_cells db (router_next_flag s) (Suc n) (pool_map_w s)"
    by (auto simp: write_cells_def fun_eq_iff)
  let ?f = "router_next_flag s"
  let ?s = "s\<lparr>pool_map_w := write_cells db ?f n (pool_map_w s),
     pool_num_w := (pool_num_w s)(?f := pool_num_w s ?f + int n)\<rparr>"
  have step: "build_write_pool db n ?s =
      Some (s\<lparr>pool_map_w := write_cells db ?f (Suc n) (pool_map_w s),
              pool_num_w := (pool_num_w s)(?f := pool_num_w s ?f + int (Suc n))\<rparr>)"
    using cell_bound [of ?f n] Suc(2,3)
    by (simp add: build_write_pool_def Let_def cells [symmetric] add.assoc add.commute [of 1] del: of_nat_add of_nat_mult)
  have ih: "fold_opt (build_write_pool db) [0..<n] s = Some ?s"
    by (rule Suc(1) [OF Suc(2)]) (use Suc(3) in simp)
  show ?case by (simp only: upt_Suc_append le0 fold_opt_snoc ih Option.bind.simps step)
qed

lemma shard_build_pool_cells:
  "router_next_flag s < 2 \<Longrightarrow> unat (partition_num db) \<le> PARTITION_MOD_KEY \<Longrightarrow>
   shard_build_pool db s =
     Some (s\<lparr>pool_map_r := read_cells db (router_next_flag s) (unat (partition_num db)) (pool_map_r s),
             pool_map_w := write_cells db (router_next_flag s) (unat (partition_num db)) (pool_map_w s),
             pool_num_r := (pool_num_r s)(router_next_flag s :=
               pool_num_r s (router_next_flag s) + int (unat (partition_num db))),
             pool_num_w := (pool_num_w s)(router_next_flag s :=
               pool_num_w s (router_next_flag s) + int (unat (partition_num db)))\<rparr>)"
  by (simp add: shard_build_pool_def build_read_pools build_write_pools)

lemma cells_of_half:
  assumes "i < PARTITION_MOD_KEY" "n \<le> PARTITION_MOD_KEY"
  shows "read_cells db f n m (PARTITION_MOD_KEY * g + i) =
      (if f = g \<and> i < n then Some (pool_desc_of db (read_idx f i) (partition_service_r db ! i))
       else m (PARTITION_MOD_KEY * g + i))"
    "write_cells db f n m (PARTITION_MOD_KEY * g + i) =
      (if f = g \<and> i < n then Some (pool_desc_of db (write_idx f i) (partition_service_w db ! i))
       else m (PARTITION_MOD_KEY * g + i))"
proof -
  have "PARTITION_MOD_KEY * f \<le> PARTITION_MOD_KEY * g + i \<and>
      PARTITION_MOD_KEY * g + i < PARTITION_MOD_KEY * f + n \<longleftrightarrow> f = g \<and> i < n"
  proof
    assume l: "PARTITION_MOD_KEY * f \<le> PARTITION_MOD_KEY * g + i \<and>
      PARTITION_MOD_KEY * g + i < PARTITION_MOD_KEY * f + n"
    then obtain j where j: "PARTITION_MOD_KEY * g + i = PARTITION_MOD_KEY * f + j"
      by (metis le_iff_add)
    then have "j < n" using l by simp
    then show "f = g \<and> i < n" using cell_of_half [of i j g f] assms j by auto
  qed auto
  then show "read_cells db f n m (PARTITION_MOD_KEY * g + i) =
      (if f = g \<and> i < n then Some (pool_desc_of db (read_idx f i) (partition_service_r db ! i))
       else m (PARTITION_MOD_KEY * g + i))"
    "write_cells db f n m (PARTITION_MOD_KEY * g + i) =
      (if f = g \<and> i < n then Some (pool_desc_of db (write_idx f i) (partition_service_w db ! i))
       else m (PARTITION_MOD_KEY * g + i))"
    by (auto simp: read_cells_def write_cells_def read_idx_def write_idx_def)
qed

section \<open>One old pool destroyed\<close>

lemma idx_cells [simp]:
  "0 \<le> read_idx f i" "nat (read_idx f i) = PARTITION_MOD_KEY * f + i"
  "\<not> 0 \<le> write_idx f i" "nat (- write_idx f i - 1) = PARTITION_MOD_KEY * f + i"
proof -
  have w: "write_idx f i = - int (PARTITION_MOD_KEY * f + i) - 1" by (simp add: write_idx_def)
  show "0 \<le> read_idx f i" "nat (read_idx f i) = PARTITION_MOD_KEY * f + i"
    by (simp_all only: read_idx_def nat_int of_nat_0_le_iff)
  show "\<not> 0 \<le> write_idx f i" unfolding w by linarith
  have "- write_idx f i - 1 = int (PARTITION_MOD_KEY * f + i)" unfolding w by simp
  then show "nat (- write_idx f i - 1) = PARTITION_MOD_KEY * f + i" by (simp only: nat_int)
qed

lemma on_destroy_switching:
  assumes "router_next_flag s = f" "half (router_on_destroy p s) f R W"
  shows "router_switching (router_on_destroy p s) \<longleftrightarrow> router_switching s \<and> (R \<noteq> {} \<or> W \<noteq> {})"
proof -
  have "router_switching (router_on_destroy p s) \<longleftrightarrow> router_switching s \<and>
      \<not> (pool_num_r (router_on_destroy p s) f = 0 \<and> pool_num_w (router_on_destroy p s) f = 0)"
    using assms(1) by (simp add: router_on_destroy_def Let_def)
  moreover have "finite R" "finite W" "pool_num_r (router_on_destroy p s) f = int (card R)"
    "pool_num_w (router_on_destroy p s) f = int (card W)"
    using assms(2) by (auto simp: half_def intro: finite_subset [OF _ finite_lessThan])
  ultimately show ?thesis by simp
qed

lemma on_destroy_read:
  assumes "half s f R W" "router_next_flag s = f" "i \<in> R" "pool_idx p = read_idx f i"
  shows "half (router_on_destroy p s) f (R - {i}) W"
    and "router_switching (router_on_destroy p s) \<longleftrightarrow> router_switching s \<and> (R - {i} \<noteq> {} \<or> W \<noteq> {})"
proof -
  have i: "i < PARTITION_MOD_KEY" and fin: "finite R" "finite W"
    using assms(1,3) by (auto simp: half_def dest: finite_subset)
  have card: "int (card R) - 1 = int (card (R - {i}))"
    using card_Suc_Diff1 [OF fin(1) assms(3)] by linarith
  show h: "half (router_on_destroy p s) f (R - {i}) W"
  proof -
    have nums: "pool_num_r (router_on_destroy p s) f = int (card (R - {i}))"
      "pool_num_w (router_on_destroy p s) f = pool_num_w s f"
      using assms(1,2,4) by (simp_all only: card [symmetric]) (simp_all add: half_def router_on_destroy_def Let_def)
    have cells: "pool_map_r (router_on_destroy p s) (PARTITION_MOD_KEY * f + j) =
        (if j = i then None else pool_map_r s (PARTITION_MOD_KEY * f + j))"
      "pool_map_w (router_on_destroy p s) (PARTITION_MOD_KEY * f + j) = pool_map_w s (PARTITION_MOD_KEY * f + j)"
      if "j < PARTITION_MOD_KEY" for j
      using assms(4) that i by (simp_all add: router_on_destroy_def Let_def)
    show ?thesis
      using assms(1) nums by (auto simp: half_def cells simp del: map_option_eq_Some card_Diff_insert)
  qed
  show "router_switching (router_on_destroy p s) \<longleftrightarrow> router_switching s \<and> (R - {i} \<noteq> {} \<or> W \<noteq> {})"
    by (rule on_destroy_switching [OF assms(2) h])
qed

lemma on_destroy_write:
  assumes "half s f R W" "router_next_flag s = f" "i \<in> W" "pool_idx p = write_idx f i"
  shows "half (router_on_destroy p s) f R (W - {i})"
    and "router_switching (router_on_destroy p s) \<longleftrightarrow> router_switching s \<and> (R \<noteq> {} \<or> W - {i} \<noteq> {})"
proof -
  have i: "i < PARTITION_MOD_KEY" and fin: "finite R" "finite W"
    using assms(1,3) by (auto simp: half_def dest: finite_subset)
  have card: "int (card W) - 1 = int (card (W - {i}))"
    using card_Suc_Diff1 [OF fin(2) assms(3)] by linarith
  show h: "half (router_on_destroy p s) f R (W - {i})"
  proof -
    have nums: "pool_num_w (router_on_destroy p s) f = int (card (W - {i}))"
      "pool_num_r (router_on_destroy p s) f = pool_num_r s f"
      using assms(1,2,4) by (simp_all only: card [symmetric]) (simp_all add: half_def router_on_destroy_def Let_def)
    have cells: "pool_map_w (router_on_destroy p s) (PARTITION_MOD_KEY * f + j) =
        (if j = i then None else pool_map_w s (PARTITION_MOD_KEY * f + j))"
      "pool_map_r (router_on_destroy p s) (PARTITION_MOD_KEY * f + j) = pool_map_r s (PARTITION_MOD_KEY * f + j)"
      if "j < PARTITION_MOD_KEY" for j
      using assms(4) that i by (simp_all add: router_on_destroy_def Let_def)
    show ?thesis
      using assms(1) nums by (auto simp: half_def cells simp del: map_option_eq_Some card_Diff_insert)
  qed
  show "router_switching (router_on_destroy p s) \<longleftrightarrow> router_switching s \<and> (R \<noteq> {} \<or> W - {i} \<noteq> {})"
    by (rule on_destroy_switching [OF assms(2) h])
qed

text \<open>What a destroyed pool leaves alone: the half in use and the hash tables.\<close>

definition same_use :: "router_state \<Rightarrow> router_state \<Rightarrow> bool" where
  "same_use s s' \<longleftrightarrow> router_flag s' = router_flag s \<and> router_next_flag s' = router_next_flag s \<and>
     shard_params s' = shard_params s \<and> shard_func s' = shard_func s \<and>
     (\<forall>f i. f \<noteq> router_next_flag s \<longrightarrow> i < PARTITION_MOD_KEY \<longrightarrow>
        pool_map_r s' (PARTITION_MOD_KEY * f + i) = pool_map_r s (PARTITION_MOD_KEY * f + i) \<and>
        pool_map_w s' (PARTITION_MOD_KEY * f + i) = pool_map_w s (PARTITION_MOD_KEY * f + i)) \<and>
     (\<forall>f. f \<noteq> router_next_flag s \<longrightarrow> pool_num_r s' f = pool_num_r s f \<and> pool_num_w s' f = pool_num_w s f)"

lemma same_use_refl [simp]: "same_use s s"
  by (simp add: same_use_def)

lemma same_use_trans: "same_use a b \<Longrightarrow> same_use b c \<Longrightarrow> same_use a c"
  by (simp add: same_use_def)

lemma same_use_half: "same_use s s' \<Longrightarrow> f \<noteq> router_next_flag s \<Longrightarrow> half s f R W \<Longrightarrow> half s' f R W"
  by (simp add: same_use_def half_def)

lemma on_destroy_same_use:
  assumes "pool_idx p = read_idx (router_next_flag s) i \<or> pool_idx p = write_idx (router_next_flag s) i"
    and "i < PARTITION_MOD_KEY"
  shows "same_use s (router_on_destroy p s)"
  using assms by (auto simp: same_use_def router_on_destroy_def Let_def cell_of_half)

section \<open>Old pools during a switch\<close>

text \<open>
  Half \<open>f\<close> is the old half: its read pools \<open>R\<close> and write pools \<open>W\<close> still exist, \<open>P\<close> and
  \<open>Q\<close> of them have not been handed to \<open>pool_destroy\<close> yet, all the others are in \<open>dying\<close>
  once each, and the switch is on exactly while there are old pools.
\<close>

definition old_pools ::
  "router_state \<Rightarrow> nat \<Rightarrow> nat set \<Rightarrow> nat set \<Rightarrow> nat set \<Rightarrow> nat set \<Rightarrow> pool_desc list \<Rightarrow> bool" where
  "old_pools s f R W P Q dying \<longleftrightarrow>
     half s f R W \<and> router_next_flag s = f \<and> P \<subseteq> R \<and> Q \<subseteq> W \<and>
     (router_switching s \<longleftrightarrow> R \<noteq> {} \<or> W \<noteq> {}) \<and>
     distinct (map pool_idx dying) \<and>
     pool_idx ` set dying = read_idx f ` (R - P) \<union> write_idx f ` (W - Q)"

lemma old_pools_parts:
  assumes "old_pools s f R W P Q dying"
  shows "distinct (map pool_idx dying)"
    "pool_idx ` set dying = read_idx f ` (R - P) \<union> write_idx f ` (W - Q)"
  using assms unfolding old_pools_def by blast+

lemma idx_inj [simp]:
  "read_idx f i = read_idx f j \<longleftrightarrow> i = j" "write_idx f i = write_idx f j \<longleftrightarrow> i = j"
  "read_idx f i \<noteq> write_idx g j" "write_idx g j \<noteq> read_idx f i"
proof -
  show "read_idx f i = read_idx f j \<longleftrightarrow> i = j" "write_idx f i = write_idx f j \<longleftrightarrow> i = j"
    by (auto simp: read_idx_def write_idx_def)
  show "read_idx f i \<noteq> write_idx g j" "write_idx g j \<noteq> read_idx f i"
    using idx_cells(1) [of f i] idx_cells(3) [of g j] by metis+
qed

lemma idx_image_diff:
  "read_idx f ` A - {read_idx f i} = read_idx f ` (A - {i})"
  "write_idx f ` A - {write_idx f i} = write_idx f ` (A - {i})"
  by auto

lemma half_read_pool:
  assumes "half s f R W" "i \<in> R"
  shows "\<exists>p. pool_map_r s (PARTITION_MOD_KEY * f + i) = Some p \<and> pool_idx p = read_idx f i"
proof -
  have "i < PARTITION_MOD_KEY" using assms by (auto simp: half_def)
  then have "map_option pool_idx (pool_map_r s (PARTITION_MOD_KEY * f + i)) = Some (read_idx f i)"
    using assms by (simp add: half_def del: map_option_eq_Some)
  then show ?thesis by auto
qed

lemma half_write_pool:
  assumes "half s f R W" "i \<in> W"
  shows "\<exists>p. pool_map_w s (PARTITION_MOD_KEY * f + i) = Some p \<and> pool_idx p = write_idx f i"
proof -
  have "i < PARTITION_MOD_KEY" using assms by (auto simp: half_def)
  then have "map_option pool_idx (pool_map_w s (PARTITION_MOD_KEY * f + i)) = Some (write_idx f i)"
    using assms by (simp add: half_def del: map_option_eq_Some)
  then show ?thesis by auto
qed

text \<open>A callback for a pool that is not pending takes it out of the old half.\<close>

lemma old_pools_read_gone:
  assumes "old_pools s f R W P Q dying" "i \<in> R" "pool_idx p = read_idx f i"
    and "distinct (map pool_idx dying')"
    and "pool_idx ` set dying' = (read_idx f ` (R - P) \<union> write_idx f ` (W - Q)) - {read_idx f i}"
  shows "old_pools (router_on_destroy p s) f (R - {i}) W (P - {i}) Q dying' \<and>
         same_use s (router_on_destroy p s)"
proof -
  have h: "half s f R W" and n: "router_next_flag s = f" and sub: "P \<subseteq> R" "Q \<subseteq> W"
    and sw: "router_switching s \<longleftrightarrow> R \<noteq> {} \<or> W \<noteq> {}"
    using assms(1) by (simp_all add: old_pools_def)
  have i: "i < PARTITION_MOD_KEY" using h assms(2) by (auto simp: half_def)
  have same: "same_use s (router_on_destroy p s)"
    by (rule on_destroy_same_use [OF _ i]) (simp add: assms(3) n)
  then have n': "router_next_flag (router_on_destroy p s) = f" using n by (simp add: same_use_def)
  have "pool_idx ` set dying' = read_idx f ` (R - {i} - (P - {i})) \<union> write_idx f ` (W - Q)"
    unfolding assms(5) by auto
  moreover have "router_switching (router_on_destroy p s) \<longleftrightarrow> R - {i} \<noteq> {} \<or> W \<noteq> {}"
    using on_destroy_read(2) [OF h n assms(2,3)] sw assms(2) by auto
  ultimately show ?thesis
    using on_destroy_read(1) [OF h n assms(2,3)] n' sub assms(4) same by (auto simp: old_pools_def)
qed

lemma old_pools_write_gone:
  assumes "old_pools s f R W P Q dying" "i \<in> W" "pool_idx p = write_idx f i"
    and "distinct (map pool_idx dying')"
    and "pool_idx ` set dying' = (read_idx f ` (R - P) \<union> write_idx f ` (W - Q)) - {write_idx f i}"
  shows "old_pools (router_on_destroy p s) f R (W - {i}) P (Q - {i}) dying' \<and>
         same_use s (router_on_destroy p s)"
proof -
  have h: "half s f R W" and n: "router_next_flag s = f" and sub: "P \<subseteq> R" "Q \<subseteq> W"
    and sw: "router_switching s \<longleftrightarrow> R \<noteq> {} \<or> W \<noteq> {}"
    using assms(1) by (simp_all add: old_pools_def)
  have i: "i < PARTITION_MOD_KEY" using h assms(2) by (auto simp: half_def)
  have same: "same_use s (router_on_destroy p s)"
    by (rule on_destroy_same_use [OF _ i]) (simp add: assms(3) n)
  then have n': "router_next_flag (router_on_destroy p s) = f" using n by (simp add: same_use_def)
  have "pool_idx ` set dying' = read_idx f ` (R - P) \<union> write_idx f ` (W - {i} - (Q - {i}))"
    unfolding assms(5) by auto
  moreover have "router_switching (router_on_destroy p s) \<longleftrightarrow> R \<noteq> {} \<or> W - {i} \<noteq> {}"
    using on_destroy_write(2) [OF h n assms(2,3)] sw assms(2) by auto
  ultimately show ?thesis
    using on_destroy_write(1) [OF h n assms(2,3)] n' sub assms(4) same by (auto simp: old_pools_def)
qed

lemma start_destroy_read:
  assumes "old_pools s f R W P Q dying" "i \<in> P"
  shows "\<exists>s' dying' R'. start_destroy now pool_map_r i (s, dying) = Some (s', dying') \<and>
           old_pools s' f R' W (P - {i}) Q dying' \<and> same_use s s'"
proof -
  have h: "half s f R W" and n: "router_next_flag s = f" and i: "i \<in> R"
    and d: "distinct (map pool_idx dying)"
    and set: "pool_idx ` set dying = read_idx f ` (R - P) \<union> write_idx f ` (W - Q)"
    using assms by (auto simp: old_pools_def)
  obtain p where p: "pool_map_r s (PARTITION_MOD_KEY * f + i) = Some p" "pool_idx p = read_idx f i"
    using half_read_pool [OF h i] by auto
  show ?thesis
  proof (cases "now p")
    case True
    have "pool_idx ` set dying = (read_idx f ` (R - P) \<union> write_idx f ` (W - Q)) - {read_idx f i}"
      using set assms(2) by auto
    from old_pools_read_gone [OF assms(1) i p(2) d this] show ?thesis
      using True p n by (auto simp: start_destroy_def)
  next
    case False
    have "read_idx f i \<notin> pool_idx ` set dying" using set assms(2) by auto
    then have "old_pools s f R W (P - {i}) Q (dying @ [p])"
      using assms i p(2) set by (auto simp: old_pools_def)
    then show ?thesis using False p n by (auto simp: start_destroy_def)
  qed
qed

lemma start_destroy_write:
  assumes "old_pools s f R W P Q dying" "i \<in> Q"
  shows "\<exists>s' dying' W'. start_destroy now pool_map_w i (s, dying) = Some (s', dying') \<and>
           old_pools s' f R W' P (Q - {i}) dying' \<and> same_use s s'"
proof -
  have h: "half s f R W" and n: "router_next_flag s = f" and i: "i \<in> W"
    and d: "distinct (map pool_idx dying)"
    and set: "pool_idx ` set dying = read_idx f ` (R - P) \<union> write_idx f ` (W - Q)"
    using assms by (auto simp: old_pools_def)
  obtain p where p: "pool_map_w s (PARTITION_MOD_KEY * f + i) = Some p" "pool_idx p = write_idx f i"
    using half_write_pool [OF h i] by auto
  show ?thesis
  proof (cases "now p")
    case True
    have "pool_idx ` set dying = (read_idx f ` (R - P) \<union> write_idx f ` (W - Q)) - {write_idx f i}"
      using set assms(2) by auto
    from old_pools_write_gone [OF assms(1) i p(2) d this] show ?thesis
      using True p n by (auto simp: start_destroy_def)
  next
    case False
    have "write_idx f i \<notin> pool_idx ` set dying" using set assms(2) by auto
    then have "old_pools s f R W P (Q - {i}) (dying @ [p])"
      using assms i p(2) set by (auto simp: old_pools_def)
    then show ?thesis using False p n by (auto simp: start_destroy_def)
  qed
qed

lemma destroy_read_loop:
  "old_pools s f R W (set is \<union> P) Q dying \<Longrightarrow> distinct is \<Longrightarrow> set is \<inter> P = {} \<Longrightarrow>
   \<exists>s' dying' R'. fold_opt (start_destroy now pool_map_r) is (s, dying) = Some (s', dying') \<and>
     old_pools s' f R' W P Q dying' \<and> same_use s s'"
proof (induction "is" arbitrary: s R dying)
  case (Cons i "is")
  from start_destroy_read [OF Cons(2), of i now] obtain s1 d1 R1 where
    one: "start_destroy now pool_map_r i (s, dying) = Some (s1, d1)"
      "old_pools s1 f R1 W (set (i # is) \<union> P - {i}) Q d1" "same_use s s1" by auto
  have "set (i # is) \<union> P - {i} = set is \<union> P" using Cons(3,4) by auto
  then have "old_pools s1 f R1 W (set is \<union> P) Q d1" using one(2) by simp
  from Cons(1) [OF this] Cons(3,4) obtain s' d' R' where
    "fold_opt (start_destroy now pool_map_r) is (s1, d1) = Some (s', d')"
    "old_pools s' f R' W P Q d'" "same_use s1 s'" by auto
  then show ?case using one same_use_trans [of s s1 s'] by auto
qed auto

lemma destroy_write_loop:
  "old_pools s f R W P (set is \<union> Q) dying \<Longrightarrow> distinct is \<Longrightarrow> set is \<inter> Q = {} \<Longrightarrow>
   \<exists>s' dying' W'. fold_opt (start_destroy now pool_map_w) is (s, dying) = Some (s', dying') \<and>
     old_pools s' f R W' P Q dying' \<and> same_use s s'"
proof (induction "is" arbitrary: s W dying)
  case (Cons i "is")
  from start_destroy_write [OF Cons(2), of i now] obtain s1 d1 W1 where
    one: "start_destroy now pool_map_w i (s, dying) = Some (s1, d1)"
      "old_pools s1 f R W1 P (set (i # is) \<union> Q - {i}) d1" "same_use s s1" by auto
  have "set (i # is) \<union> Q - {i} = set is \<union> Q" using Cons(3,4) by auto
  then have "old_pools s1 f R W1 P (set is \<union> Q) d1" using one(2) by simp
  from Cons(1) [OF this] Cons(3,4) obtain s' d' W' where
    "fold_opt (start_destroy now pool_map_w) is (s1, d1) = Some (s', d')"
    "old_pools s' f R W' P Q d'" "same_use s1 s'" by auto
  then show ?case using one same_use_trans [of s s1 s'] by auto
qed auto

text \<open>\<open>router_destroy\<close> right after a swap.\<close>

lemma router_destroy_ok:
  assumes "half s f {..<n} {..<n}" "router_next_flag s = f" "router_switching s" "n \<le> PARTITION_MOD_KEY"
  shows "\<exists>s' dying R W. router_destroy now (s, []) = Some (s', dying) \<and>
           old_pools s' f R W {} {} dying \<and> same_use s s'"
proof (cases "n = 0")
  case True
  then have h: "half s f {} {}" using assms(1) by simp
  then have nums: "pool_num_r s f = 0" "pool_num_w s f = 0" by (simp_all add: half_def)
  have "half (s\<lparr>router_switching := False\<rparr>) f {} {}" by (rule half_cong [OF h]) simp_all
  then have "old_pools (s\<lparr>router_switching := False\<rparr>) f {} {} {} {} []"
    using assms(2) by (simp add: old_pools_def)
  moreover have "same_use s (s\<lparr>router_switching := False\<rparr>)" by (simp add: same_use_def)
  moreover have "router_destroy now (s, []) = Some (s\<lparr>router_switching := False\<rparr>, [])"
    using nums assms(2) by (simp add: router_destroy_def)
  ultimately show ?thesis by blast
next
  case False
  have nums: "pool_num_r s f = int n" "pool_num_w s f = int n"
    using assms(1) by (simp_all add: half_def)
  have "old_pools s f {..<n} {..<n} (set [0..<n] \<union> {}) (set [0..<n] \<union> {}) []"
    using assms False by (auto simp: old_pools_def)
  from destroy_read_loop [OF this, of now] obtain s1 d1 R1 where
    r: "fold_opt (start_destroy now pool_map_r) [0..<n] (s, []) = Some (s1, d1)"
      "old_pools s1 f R1 {..<n} {} (set [0..<n] \<union> {}) d1" "same_use s s1" by auto
  from destroy_write_loop [OF r(2), of now] obtain s2 d2 W2 where
    w: "fold_opt (start_destroy now pool_map_w) [0..<n] (s1, d1) = Some (s2, d2)"
      "old_pools s2 f R1 W2 {} {} d2" "same_use s1 s2" by auto
  have "router_destroy now (s, []) = Some (s2, d2)"
    using nums assms(2) False r(1) w(1) by (simp add: router_destroy_def)
  then show ?thesis using w(2) same_use_trans [OF r(3) w(3)] by blast
qed

section \<open>The router as a system\<close>

text \<open>
  A loaded configuration gives one slot list per partition (theory \<open>Conf\<close>); the tables have
  room for \<open>PARTITION_MOD_KEY\<close> partitions.
\<close>

definition db_fits :: "db_info \<Rightarrow> bool" where
  "db_fits db \<longleftrightarrow> unat (partition_num db) \<le> PARTITION_MOD_KEY \<and>
     length (partitions db) = unat (partition_num db)"

text \<open>
  Reachable states, with the pools whose destroy callback is still to come: reloads happen
  only when no switch is on (\<open>_meta_conf_reload\<close> asks \<open>router_is_building\<close>), callbacks in any
  order.
\<close>

inductive router_reach :: "router_state \<Rightarrow> pool_desc list \<Rightarrow> bool" where
  reach_init: "router_reach router_init []"
| reach_reload: "router_reach s dying \<Longrightarrow> \<not> router_is_building s \<Longrightarrow> db_fits db \<Longrightarrow> shard_mode db = 0 \<Longrightarrow>
    router_build now db (s, dying) = Some (ret, s', dying') \<Longrightarrow> router_reach s' dying'"
| reach_destroyed: "router_reach s (as @ p # bs) \<Longrightarrow> router_reach (router_on_destroy p s) (as @ bs)"

definition table_in_range :: "router_state \<Rightarrow> nat \<Rightarrow> bool" where
  "table_in_range s n \<longleftrightarrow>
     shard_func s (router_flag s) \<longrightarrow>
     (\<forall>slot < PARTITION_MOD_KEY. 0 \<le> shard_params s (router_flag s) slot \<and>
        shard_params s (router_flag s) slot < int n)"

definition router_ok :: "router_state \<Rightarrow> pool_desc list \<Rightarrow> bool" where
  "router_ok s dying \<longleftrightarrow>
     router_flag s < 2 \<and> router_next_flag s = 1 - router_flag s \<and>
     (\<exists>n \<le> PARTITION_MOD_KEY. half s (router_flag s) {..<n} {..<n} \<and> table_in_range s n) \<and>
     (\<exists>R W. old_pools s (router_next_flag s) R W {} {} dying)"

lemma flip_flag: "f < 2 \<Longrightarrow> (1 - f :: nat) \<noteq> f" "f < 2 \<Longrightarrow> f \<noteq> (1 - f :: nat)"
  by arith+

lemma router_ok_init: "router_ok router_init []"
proof -
  have "old_pools router_init 0 {} {} {} {} []"
    using half_init [of 0] by (simp add: old_pools_def router_init_def)
  moreover have "\<exists>n \<le> PARTITION_MOD_KEY. half router_init 1 {..<n} {..<n} \<and> table_in_range router_init n"
    using half_init [of 1] by (intro exI [of _ 0]) (simp add: table_in_range_def router_init_def)
  moreover have "router_flag router_init = 1" "router_next_flag router_init = 0"
    by (simp_all add: router_init_def)
  ultimately show ?thesis by (auto simp: router_ok_def)
qed

lemma shard_table_in_range:
  assumes "shard_init_part pss = (None, t)" "slot < PARTITION_MOD_KEY"
  shows "0 \<le> t slot \<and> t slot < int (length pss)"
proof -
  have "exact_cover pss" using shard_init_part_None [of pss] assms(1) by simp
  then have "int slot \<in> set (concat pss)" using assms(2) by (simp add: exact_cover_def del: set_concat)
  then obtain j where "j < length pss" "int slot \<in> set (pss ! j)"
    by (auto simp: set_concat in_set_conv_nth [of _ pss])
  then show ?thesis using shard_init_part_table [OF assms(1)] by auto
qed

text \<open>The state before \<open>router_destroy\<close> in a successful build.\<close>

definition swapped :: "db_info \<Rightarrow> slot_table \<Rightarrow> router_state \<Rightarrow> router_state" where
  "swapped db t s =
     (let f = router_next_flag s; n = unat (partition_num db) in
      s\<lparr>router_switching := True,
        shard_params := (shard_params s)(f := t), shard_func := (shard_func s)(f := True),
        pool_map_r := read_cells db f n (pool_map_r s), pool_map_w := write_cells db f n (pool_map_w s),
        pool_num_r := (pool_num_r s)(f := pool_num_r s f + int n),
        pool_num_w := (pool_num_w s)(f := pool_num_w s f + int n),
        router_flag := f, router_next_flag := (if f = 0 then 1 else 0)\<rparr>)"

lemma router_build_ok:
  assumes "router_next_flag s < 2" "db_fits db" "shard_mode db = 0"
    and "shard_init_part (partitions db) = (None, t)"
  shows "router_build now db (s, dying) = map_option (Pair 0) (router_destroy now (swapped db t s, dying))"
  using assms
  by (simp add: router_build_def shard_build_pool_cells db_fits_def swapped_def Let_def)

lemma router_build_err:
  assumes "shard_mode db = 0" "shard_init_part (partitions db) = (Some e, t)"
    and "router_build now db (s, dying) = Some (ret, s', dying')"
  shows "ret = -1" "dying' = dying"
    "s' = s\<lparr>shard_params := (shard_params s)(router_next_flag s := t), router_switching := False\<rparr>"
  using assms by (auto simp: router_build_def Let_def split: init_error.splits)

lemma swapped_halves:
  assumes "half s f {} {}" "half s (1 - f) {..<n} {..<n}" "router_next_flag s = f" "f < 2"
    and "m = unat (partition_num db)" "m \<le> PARTITION_MOD_KEY"
  shows "half (swapped db t s) f {..<m} {..<m}" "half (swapped db t s) (1 - f) {..<n} {..<n}"
proof -
  have "f \<noteq> 1 - f" by (rule flip_flag) (rule assms(4))
  then show "half (swapped db t s) f {..<m} {..<m}" "half (swapped db t s) (1 - f) {..<n} {..<n}"
    using assms
    by (auto simp: half_def swapped_def Let_def cells_of_half pool_desc_of_def simp del: map_option_eq_Some)
qed

lemma not_building_no_old:
  assumes "old_pools s f R W {} {} dying" "\<not> router_is_building s"
  shows "R = {}" "W = {}" "dying = []"
  using assms by (auto simp: old_pools_def router_is_building_def)

lemma router_ok_built:
  assumes "router_ok s dying" "\<not> router_is_building s" "db_fits db" "shard_mode db = 0"
    and "shard_init_part (partitions db) = (None, t)"
  shows "\<exists>s' dying'. router_build now db (s, dying) = Some (0, s', dying') \<and> router_ok s' dying' \<and>
           same_use (swapped db t s) s'"
proof -
  let ?f = "router_next_flag s" and ?m = "unat (partition_num db)" and ?s = "swapped db t s"
  from assms(1) obtain n R W where fl: "router_flag s < 2" "?f = 1 - router_flag s"
    and n: "n \<le> PARTITION_MOD_KEY" "half s (router_flag s) {..<n} {..<n}"
    and old: "old_pools s ?f R W {} {} dying" by (auto simp: router_ok_def)
  have f: "?f < 2" "router_flag s = 1 - ?f" using fl by auto
  have empty: "half s ?f {} {}" "dying = []"
    using not_building_no_old [OF old assms(2)] old by (simp_all add: old_pools_def)
  have m: "?m \<le> PARTITION_MOD_KEY" using assms(3) by (simp add: db_fits_def)
  note halves = swapped_halves [OF empty(1) n(2) [unfolded f(2)] refl f(1) refl m, of t]
  have sw: "router_flag ?s = ?f" "router_next_flag ?s = 1 - ?f" "router_switching ?s"
    "shard_params ?s ?f = t"
    using f by (auto simp: swapped_def Let_def less_2_cases_iff)
  from router_destroy_ok [OF halves(2) sw(2,3) n(1), of now] obtain s' dying' R' W' where
    d: "router_destroy now (?s, []) = Some (s', dying')" "old_pools s' (1 - ?f) R' W' {} {} dying'"
      "same_use ?s s'" by auto
  have "half s' ?f {..<?m} {..<?m}"
    by (rule same_use_half [OF d(3) _ halves(1)]) (simp add: sw flip_flag f(1) del: One_nat_def)
  moreover have "table_in_range s' ?m"
    using d(3) sw shard_table_in_range [OF assms(5)] assms(3)
    by (simp add: table_in_range_def same_use_def db_fits_def)
  moreover have "router_flag s' = ?f" "router_next_flag s' = 1 - ?f"
    using d(3) sw by (simp_all add: same_use_def)
  ultimately have "router_ok s' dying'" using f(1) m d(2) by (auto simp: router_ok_def)
  then show ?thesis
    using router_build_ok [OF f(1) assms(3,4,5)] d(1,3) empty(2) by auto
qed

lemma router_ok_failed:
  assumes "router_ok s dying" "\<not> router_is_building s"
  shows "router_ok (s\<lparr>shard_params := (shard_params s)(router_next_flag s := t), router_switching := False\<rparr>) dying"
proof -
  let ?s = "s\<lparr>shard_params := (shard_params s)(router_next_flag s := t), router_switching := False\<rparr>"
  have half: "half ?s f R W \<longleftrightarrow> half s f R W" for f R W by (simp add: half_def)
  from assms(1) have "router_flag s < 2" "router_next_flag s = 1 - router_flag s"
    by (simp_all add: router_ok_def)
  then have "router_next_flag s \<noteq> router_flag s" using flip_flag(1) by metis
  then have "table_in_range ?s n \<longleftrightarrow> table_in_range s n" for n by (simp add: table_in_range_def)
  moreover have "old_pools ?s f R W {} {} dying \<longleftrightarrow> old_pools s f R W {} {} dying" for f R W
    using assms(2) by (simp add: old_pools_def half router_is_building_def)
  moreover have "router_flag ?s = router_flag s" "router_next_flag ?s = router_next_flag s" by simp_all
  ultimately have "router_ok ?s dying \<longleftrightarrow> router_ok s dying" by (simp only: router_ok_def half)
  then show ?thesis using assms(1) by blast
qed

lemma router_ok_destroyed:
  assumes "router_ok s (as @ p # bs)"
  shows "router_ok (router_on_destroy p s) (as @ bs) \<and> same_use s (router_on_destroy p s)"
proof -
  let ?f = "router_next_flag s" and ?s = "router_on_destroy p s"
  from assms obtain n R W where fl: "router_flag s < 2" "?f = 1 - router_flag s"
    and n: "n \<le> PARTITION_MOD_KEY" "half s (router_flag s) {..<n} {..<n}" "table_in_range s n"
    and old: "old_pools s ?f R W {} {} (as @ p # bs)" by (auto simp: router_ok_def)
  have dist: "distinct (map pool_idx as @ pool_idx p # map pool_idx bs)"
    using old_pools_parts(1) [OF old] by simp
  from distinct_removed [OF this] have d: "distinct (map pool_idx (as @ bs))"
    and out: "pool_idx p \<notin> pool_idx ` set (as @ bs)" by (simp_all add: image_Un)
  have rest: "pool_idx ` set (as @ bs) = pool_idx ` set (as @ p # bs) - {pool_idx p}"
    using out by (simp only: set_append list.set image_Un image_insert) blast
  have set: "pool_idx ` set (as @ p # bs) = read_idx ?f ` R \<union> write_idx ?f ` W"
    using old_pools_parts(2) [OF old] by (simp only: Diff_empty)
  then have "pool_idx p \<in> read_idx ?f ` R \<union> write_idx ?f ` W" by auto
  then have "\<exists>R' W'. old_pools ?s ?f R' W' {} {} (as @ bs) \<and> same_use s ?s"
  proof
    assume "pool_idx p \<in> read_idx ?f ` R"
    then obtain i where i: "i \<in> R" "pool_idx p = read_idx ?f i" by auto
    have "pool_idx ` set (as @ bs) =
        (read_idx ?f ` (R - {}) \<union> write_idx ?f ` (W - {})) - {read_idx ?f i}"
      by (simp only: rest set i(2) Diff_empty)
    from old_pools_read_gone [OF old i d this] show ?thesis unfolding empty_Diff by blast
  next
    assume "pool_idx p \<in> write_idx ?f ` W"
    then obtain i where i: "i \<in> W" "pool_idx p = write_idx ?f i" by auto
    have "pool_idx ` set (as @ bs) =
        (read_idx ?f ` (R - {}) \<union> write_idx ?f ` (W - {})) - {write_idx ?f i}"
      by (simp only: rest set i(2) Diff_empty)
    from old_pools_write_gone [OF old i d this] show ?thesis unfolding empty_Diff by blast
  qed
  then obtain R' W' where o: "old_pools ?s ?f R' W' {} {} (as @ bs)" and same: "same_use s ?s" by auto
  have flags: "router_flag ?s = router_flag s" "router_next_flag ?s = ?f" using same by (simp_all add: same_use_def)
  have "half ?s (router_flag s) {..<n} {..<n}"
    by (rule same_use_half [OF same _ n(2)]) (simp add: fl flip_flag del: One_nat_def)
  moreover have "table_in_range ?s n" using n(3) same by (simp add: table_in_range_def same_use_def)
  ultimately have "\<exists>n \<le> PARTITION_MOD_KEY. half ?s (router_flag s) {..<n} {..<n} \<and> table_in_range ?s n"
    using n(1) by blast
  then show ?thesis using fl o same unfolding router_ok_def flags by blast
qed

lemma router_reach_ok: "router_reach s dying \<Longrightarrow> router_ok s dying"
proof (induction rule: router_reach.induct)
  case reach_init
  show ?case by (rule router_ok_init)
next
  case (reach_reload s dying db now ret s' dying')
  obtain e t where i: "shard_init_part (partitions db) = (e, t)" by (cases "shard_init_part (partitions db)")
  show ?case
  proof (cases e)
    case None
    then have "shard_init_part (partitions db) = (None, t)" using i by simp
    from router_ok_built [OF reach_reload.IH reach_reload.hyps(2,3,4) this, of now] reach_reload.hyps(5)
    show ?thesis by auto
  next
    case (Some err)
    from router_build_err [OF reach_reload.hyps(4) i [unfolded Some] reach_reload.hyps(5)]
    show ?thesis using router_ok_failed [OF reach_reload.IH reach_reload.hyps(2)] by simp
  qed
next
  case (reach_destroyed s as p bs)
  then show ?case using router_ok_destroyed by blast
qed

section \<open>Properties\<close>



lemma router_reach_callbacks:
  "router_reach s dying \<Longrightarrow> mset order = mset dying \<Longrightarrow> router_reach (fold router_on_destroy order s) []"
proof (induction order arbitrary: s dying)
  case (Cons p order)
  from Cons.prems(2) have "p \<in> set dying" by (metis list.set_intros(1) set_mset_mset)
  then obtain as bs where d: "dying = as @ p # bs" by (rule split_at_mem)
  then have "router_reach (router_on_destroy p s) (as @ bs)"
    using reach_destroyed Cons.prems(1) by blast
  moreover have "mset order = mset (as @ bs)" using Cons.prems(2) d by simp
  ultimately show ?case using Cons.IH by simp
qed simp

text \<open>
  A switch ends: whatever the order in which the outstanding destroy callbacks arrive,
  after the last of them the router is no longer building, so the next configuration change
  is picked up.
\<close>

theorem router_switch_completes:
  assumes "router_reach s dying" "mset order = mset dying"
  shows "\<not> router_is_building (fold router_on_destroy order s)"
proof -
  have "router_reach (fold router_on_destroy order s) []" by (rule router_reach_callbacks [OF assms])
  from router_reach_ok [OF this] obtain f R W where
    "old_pools (fold router_on_destroy order s) f R W {} {} []" by (auto simp: router_ok_def)
  then show ?thesis by (auto simp: old_pools_def router_is_building_def)
qed

theorem router_switch_completes_witness: "\<not> router_is_building (fold router_on_destroy [] router_init)"
  by (rule router_switch_completes [OF reach_init]) simp

text \<open>A configuration with one partition that holds every slot, and the state it leads to.\<close>

definition example_db :: db_info where
  "example_db = (zero_db 0)\<lparr>partition_num := 1, partitions := [map int [0..<65536]],
     partition_service_r := [[]], partition_service_w := [[]]\<rparr>"

lemma example_db_ok: "db_fits example_db" "shard_mode example_db = 0" "exact_cover (partitions example_db)"
  using one_partition_cover
  by (simp_all add: example_db_def zero_db_def db_fits_def PARTITION_MOD_KEY_def)

lemma not_building_init: "\<not> router_is_building router_init"
  by (simp add: router_is_building_def router_init_def)

lemma get_shard_cell:
  assumes "router_flag s = g" "PARTITION_MOD_KEY * g + j < 2 * PARTITION_MOD_KEY"
  shows "get_shard s b (int j) = Some (if b then pool_map_r s (PARTITION_MOD_KEY * g + j)
      else pool_map_w s (PARTITION_MOD_KEY * g + j))"
proof -
  have at: "int (PARTITION_MOD_KEY * g) + int j = int (PARTITION_MOD_KEY * g + j)" by simp
  have "\<not> int (2 * PARTITION_MOD_KEY) \<le> int (PARTITION_MOD_KEY * g + j)"
    using assms(2) by (simp only: of_nat_le_iff not_le)
  then show ?thesis
    unfolding get_shard_def assms(1) at Let_def by (simp only: nat_int of_nat_less_0_iff simp_thms if_False)
qed

lemma router_lookup:
  assumes "router_reach s dying" "current_shard s = Some f"
  shows "\<exists>j p q. f (int_of_u64 (strhash k)) = int j \<and>
     get_shard s True (int j) = Some (Some p) \<and> pool_idx p = read_idx (router_flag s) j \<and>
     get_shard s False (int j) = Some (Some q) \<and> pool_idx q = write_idx (router_flag s) j"
proof -
  let ?g = "router_flag s"
  from router_reach_ok [OF assms(1)] obtain n where g: "?g < 2"
    and n: "n \<le> PARTITION_MOD_KEY" "half s ?g {..<n} {..<n}" "table_in_range s n"
    by (auto simp: router_ok_def)
  have f: "f = shard_func_part (shard_params s ?g)" "shard_func s ?g"
    using assms(2) by (auto simp: current_shard_def split: if_splits)
  have "0 \<le> f (int_of_u64 (strhash k)) \<and> f (int_of_u64 (strhash k)) < int n"
    using n(3) f key_slot_bound [of k] by (simp add: table_in_range_def shard_func_key)
  then obtain j where j: "f (int_of_u64 (strhash k)) = int j" "j < n"
    by (metis nonneg_int_cases of_nat_less_iff)
  then have "j \<in> {..<n}" by simp
  from half_read_pool [OF n(2) this] half_write_pool [OF n(2) this] obtain p q where
    pq: "pool_map_r s (PARTITION_MOD_KEY * ?g + j) = Some p" "pool_idx p = read_idx ?g j"
      "pool_map_w s (PARTITION_MOD_KEY * ?g + j) = Some q" "pool_idx q = write_idx ?g j" by auto
  have "PARTITION_MOD_KEY * ?g + j < 2 * PARTITION_MOD_KEY"
    by (rule cell_bound [OF g]) (use j(2) n(1) in simp)
  note get_shard_cell [OF refl this]
  then show ?thesis using j(1) pq by auto
qed

text \<open>
  In every reachable state with a hash table in use, the shard of every key is the index of
  a pool: \<open>_get_shard\<close> never reads outside the tables and never yields NULL, and the pool it
  yields carries the index of its cell (read pools \<open>>= 0\<close>, write pools \<open>< 0\<close>), by which
  \<open>_router_on_destroy\<close> later finds the cell again.
\<close>

theorem router_lookup_total:
  assumes "router_reach s dying" "current_shard s = Some f"
  shows "\<exists>j p q. f (int_of_u64 (strhash k)) = int j \<and>
     get_shard s True (int j) = Some (Some p) \<and> pool_idx p = read_idx (router_flag s) j \<and>
     get_shard s False (int j) = Some (Some q) \<and> pool_idx q = write_idx (router_flag s) j"
  by (rule router_lookup [OF assms])

lemma example_router:
  obtains s' dying' f where "router_reach s' dying'" "current_shard s' = Some f"
proof -
  obtain t where t: "shard_init_part (partitions example_db) = (None, t)"
    using shard_init_part_None [of "partitions example_db"] example_db_ok(3) by (metis prod.collapse)
  from router_ok_built [OF router_ok_init not_building_init example_db_ok(1,2) t, of "\<lambda>_. False"]
  obtain s' dying' where b: "router_build (\<lambda>_. False) example_db (router_init, []) = Some (0, s', dying')"
    "same_use (swapped example_db t router_init) s'" by auto
  have "router_reach s' dying'"
    by (rule reach_reload [OF reach_init not_building_init example_db_ok(1,2) b(1)])
  moreover have "shard_func s' (router_flag s')"
    using b(2) by (simp add: same_use_def swapped_def Let_def)
  ultimately show ?thesis using that by (auto simp: current_shard_def)
qed

theorem router_lookup_total_witness:
  "\<exists>s dying p. router_reach s dying \<and>
     (\<exists>j. get_shard s True (int j) = Some (Some p) \<and> pool_idx p = read_idx (router_flag s) j)"
proof -
  obtain s dying f where "router_reach s dying" "current_shard s = Some f" by (rule example_router)
  from router_lookup_total [OF this, of "''hello''"] this(1) show ?thesis by blast
qed



text \<open>
  C14: A reload whose partitions cover the slots exactly once succeeds from every reachable
  state without a switch on, and from then on every key is routed to the read (write) pool
  built from the read (write) services of the one partition that lists the key's slot.
\<close>

theorem router_build_routes:
  assumes "router_reach s dying" "\<not> router_is_building s" "db_fits db" "shard_mode db = 0"
    and "exact_cover (partitions db)"
  shows "\<exists>s' dying' f j. router_build now db (s, dying) = Some (0, s', dying') \<and> router_reach s' dying' \<and>
     current_shard s' = Some f \<and> f (int_of_u64 (strhash k)) = int j \<and>
     j < length (partitions db) \<and> int (key_slot k) \<in> set (partitions db ! j) \<and>
     get_shard s' True (int j) =
       Some (Some (pool_desc_of db (read_idx (router_next_flag s) j) (partition_service_r db ! j))) \<and>
     get_shard s' False (int j) =
       Some (Some (pool_desc_of db (write_idx (router_next_flag s) j) (partition_service_w db ! j)))"
proof -
  let ?g = "router_next_flag s"
  obtain t where t: "shard_init_part (partitions db) = (None, t)"
    using shard_init_part_None [of "partitions db"] assms(5) by (metis prod.collapse)
  note ok = router_reach_ok [OF assms(1)]
  from router_ok_built [OF ok assms(2,3,4) t, of now] obtain s' dying' where
    b: "router_build now db (s, dying) = Some (0, s', dying')" "same_use (swapped db t s) s'" by auto
  have r: "router_reach s' dying'" by (rule reach_reload [OF assms(1-4) b(1)])
  have g: "?g < 2" using ok by (auto simp: router_ok_def)
  have use: "router_flag s' = ?g" "shard_func s' ?g" "shard_params s' ?g = t"
    using b(2) by (simp_all add: same_use_def swapped_def Let_def)
  then have cur: "current_shard s' = Some (shard_func_part t)" by (simp add: current_shard_def)
  from assms(5) key_slot_bound [of k] have "int (key_slot k) \<in> set (concat (partitions db))"
    by (simp add: exact_cover_def del: set_concat)
  then obtain j where j: "j < length (partitions db)" "int (key_slot k) \<in> set (partitions db ! j)"
    by (auto simp: set_concat in_set_conv_nth [of _ "partitions db"])
  then have fj: "shard_func_part t (int_of_u64 (strhash k)) = int j"
    using shard_init_part_table [OF t] by (simp add: shard_func_key)
  have jn: "j < unat (partition_num db)" "unat (partition_num db) \<le> PARTITION_MOD_KEY"
    using j(1) assms(3) by (simp_all add: db_fits_def)
  have ne: "?g \<noteq> router_next_flag (swapped db t s)" using g by (simp add: swapped_def Let_def)
  have cells: "pool_map_r s' (PARTITION_MOD_KEY * ?g + j) =
        Some (pool_desc_of db (read_idx ?g j) (partition_service_r db ! j))"
      "pool_map_w s' (PARTITION_MOD_KEY * ?g + j) =
        Some (pool_desc_of db (write_idx ?g j) (partition_service_w db ! j))"
    using b(2) ne jn cells_of_half [of j "unat (partition_num db)" db ?g _ ?g]
    by (simp_all add: same_use_def swapped_def Let_def)
  have "PARTITION_MOD_KEY * ?g + j < 2 * PARTITION_MOD_KEY"
    by (rule cell_bound [OF g]) (use jn in simp)
  note get_shard_cell [OF use(1) this]
  then show ?thesis using b(1) r cur fj j cells by auto
qed

theorem router_build_routes_witness:
  "\<exists>s' dying'. router_build (\<lambda>_. False) example_db (router_init, []) = Some (0, s', dying')"
  using router_build_routes [OF reach_init not_building_init example_db_ok] by blast

text \<open>
  A reload that is refused (the partitions do not cover the slots once each) leaves the
  routing as it was and ends the switch at once: the table, the hash function and the pools in
  use are those of the configuration before.
\<close>

theorem router_build_refused:
  assumes "router_reach s dying" "\<not> router_is_building s" "shard_mode db = 0"
    and "\<not> exact_cover (partitions db)"
    and "router_build now db (s, dying) = Some (ret, s', dying')"
  shows "ret = -1 \<and> dying' = dying \<and> \<not> router_is_building s' \<and> current_shard s' = current_shard s \<and>
     (\<forall>b i. get_shard s' b i = get_shard s b i)"
proof -
  have ok: "router_ok s dying" by (rule router_reach_ok [OF assms(1)])
  then have fl: "router_flag s < 2" "router_next_flag s = 1 - router_flag s" by (simp_all add: router_ok_def)
  then have ne: "router_next_flag s \<noteq> router_flag s" using flip_flag(1) by metis
  obtain e t where i: "shard_init_part (partitions db) = (Some e, t)"
    using shard_init_part_None [of "partitions db"] assms(4)
    by (cases "shard_init_part (partitions db)"; cases "fst (shard_init_part (partitions db))") auto
  from router_build_err [OF assms(3) i assms(5)] show ?thesis
    using ne by (auto simp: router_is_building_def current_shard_def get_shard_def Let_def)
qed

lemma router_build_not_covered:
  "shard_mode db = 0 \<Longrightarrow> shard_init_part (partitions db) = (Some (NotAllocated i), t) \<Longrightarrow>
   \<exists>s'. router_build now db (s, dying) = Some (-1, s', dying)"
  by (simp add: router_build_def Let_def)

theorem router_build_refused_witness:
  "\<exists>s'. router_build (\<lambda>_. False) (zero_db 0) (router_init, []) = Some (-1, s', []) \<and>
     \<not> router_is_building s'"
proof -
  have u: "[0..<PARTITION_MOD_KEY] = 0 # [Suc 0..<PARTITION_MOD_KEY]"
    by (rule upt_conv_Cons) (simp add: PARTITION_MOD_KEY_def)
  have i: "shard_init_part (partitions (zero_db 0)) = (Some (NotAllocated 0), \<lambda>_. 0)"
    by (simp add: shard_init_part_def zero_db_def u)
  then have n: "\<not> exact_cover (partitions (zero_db 0))"
    using shard_init_part_None [of "partitions (zero_db 0)"] by simp
  have m: "shard_mode (zero_db 0) = 0" by (simp add: zero_db_def)
  obtain s' where b: "router_build (\<lambda>_. False) (zero_db 0) (router_init, []) = Some (-1, s', [])"
    using router_build_not_covered [OF m i] by blast
  from router_build_refused [OF reach_init not_building_init m n b] b show ?thesis by blast
qed

text \<open>
  A reload with a shard mode other than 0 fails with the switch left on although no old
  pool is being destroyed: no callback can end it, so no later configuration is ever loaded.
\<close>

theorem router_build_unsupported_mode:
  assumes "shard_mode db \<noteq> 0" "\<not> router_is_building s" "router_reach s dying"
  shows "\<exists>s'. router_build now db (s, dying) = Some (-1, s', []) \<and> router_is_building s'"
proof -
  have "dying = []" using router_reach_ok [OF assms(3)] not_building_no_old assms(2)
    by (auto simp: router_ok_def)
  then show ?thesis using assms(1) by (simp add: router_build_def router_is_building_def Let_def)
qed

theorem router_build_unsupported_mode_witness:
  "\<exists>s'. router_build (\<lambda>_. False) ((zero_db 0)\<lparr>shard_mode := 1\<rparr>) (router_init, []) = Some (-1, s', []) \<and>
     router_is_building s'"
  by (rule router_build_unsupported_mode [OF _ not_building_init reach_init]) (simp add: zero_db_def)

end
