(* ===== verification/Shardtool.thy ===== *)
theory Shardtool
  imports Conf
begin

text \<open>
  The command-line tool \<open>tools/shardtool.cpp\<close>, which prints the shard of a key from the same
  configuration file by a search of its own, and its agreement with the router. \<open>None\<close> is an
  exception of the configuration object, a failed allocation or an access outside an array.
\<close>

section \<open>The tool\<close>

text \<open>\<open>sscanf(s, "%d-%d", &start, &end)\<close>, or \<open>None\<close> when \<open>end\<close> is left uninitialised.\<close>

definition scan_int :: "string \<Rightarrow> (int \<times> string) option" where
  "scan_int str =
     (let s = dropWhile is_space str;
          neg = (s \<noteq> [] \<and> hd s = CHR ''-'');
          ds = (if s \<noteq> [] \<and> (hd s = CHR ''-'' \<or> hd s = CHR ''+'') then tl s else s);
          v = digits_value 0 ds
      in if takeWhile is_digit ds = [] then None
         else Some (if neg then - v else v, dropWhile is_digit ds))"

definition scan_range :: "string \<Rightarrow> (int \<times> int) option" where
  "scan_range s =
     (case scan_int s of
        Some (b, CHR ''-'' # r) \<Rightarrow> map_option (\<lambda>(e, _). (b, e)) (scan_int r)
      | _ \<Rightarrow> None)"

definition shard_ends :: "configure \<Rightarrow> nat \<Rightarrow> int list option" where
  "shard_ends c sum_shards =
     those (map (\<lambda>i. Option.bind
        (to_cstr c (db_path 0 [Name ''DbShard'', Name (''Db_Shard_Partition'' @ print_nat i)]))
        (\<lambda>s. map_option snd (scan_range s))) [0..<sum_shards])"

text \<open>The address table, filled from the services with \<open>Service_CanWrite = 1\<close>.\<close>

fun shard_addrs ::
  "configure \<Rightarrow> nat \<Rightarrow> nat list \<Rightarrow> (nat \<Rightarrow> (string \<times> 16 word) option) \<Rightarrow> (nat \<Rightarrow> (string \<times> 16 word) option) option" where
  "shard_addrs c sum_shards [] t = Some t"
| "shard_addrs c sum_shards (i # is) t =
     (case to_int32 c (sv_path 0 i ''Service_CanWrite'') of
        None \<Rightarrow> None
      | Some w \<Rightarrow>
          if w \<noteq> 1 then shard_addrs c sum_shards is t
          else
            (case (to_int32 c (sv_path 0 i ''Service_Partition''), get_cstr c (sv_path 0 i ''Service_Addr'') 32,
                   get_uint16 c (sv_path 0 i ''Service_Port'')) of
               (Some this_shard, Some a, Some p) \<Rightarrow>
                 if this_shard < 0 \<or> int sum_shards \<le> this_shard then None
                 else shard_addrs c sum_shards is (t(nat this_shard \<mapsto> (a, p)))
             | _ \<Rightarrow> None))"

text \<open>The search of the first shard whose end is not below the value.\<close>

fun find_shard :: "int list \<Rightarrow> int \<Rightarrow> nat" where
  "find_shard [] v = 0"
| "find_shard (e # es) v = (if v \<le> e then 0 else Suc (find_shard es v))"

text \<open>\<open>main\<close> for one key: value, shard number, address and port.\<close>

definition shardtool :: "configure \<Rightarrow> string \<Rightarrow> (int \<times> nat \<times> string \<times> 16 word) option" where
  "shardtool c arg =
     (case to_int32 c (db_path 0 [Name ''DbShard'', Name ''Db_Shard_PartitionNum'']) of
        None \<Rightarrow> None
      | Some n \<Rightarrow>
          if n < 0 then None
          else
            Option.bind (shard_ends c (nat n)) (\<lambda>ends.
            Option.bind (conf_size c (db_path 0 [Name ''Service''])) (\<lambda>sum_servers.
            Option.bind (shard_addrs c (nat n) [0..<sum_servers] (\<lambda>_. None)) (\<lambda>addrs.
              let shard_value = int (unat (and (int_of_u64 (strhash arg)) 0xFFFF));
                  shard_num = find_shard ends shard_value
              in map_option (\<lambda>(a, p). (shard_value, shard_num, a, p)) (addrs shard_num)))))"

section \<open>Agreement with the router\<close>

text \<open>Ranges in ascending order without gaps that end at the last slot.\<close>

fun contiguous :: "nat \<Rightarrow> (nat \<times> nat) list \<Rightarrow> bool" where
  "contiguous b [] \<longleftrightarrow> b = PARTITION_MOD_KEY"
| "contiguous b (r # rs) \<longleftrightarrow> fst r = b \<and> b \<le> snd r \<and> contiguous (Suc (snd r)) rs"

lemma contiguous_bound: "contiguous b rs \<Longrightarrow> b \<le> PARTITION_MOD_KEY"
  by (induction b rs rule: contiguous.induct) auto

lemma contiguous_slots: "contiguous b rs \<Longrightarrow> concat (map range_slots rs) = map int [b..<PARTITION_MOD_KEY]"
proof (induction b rs rule: contiguous.induct)
  case (2 b r rs)
  then have "Suc (snd r) \<le> PARTITION_MOD_KEY" using contiguous_bound by auto
  then have "[b..<PARTITION_MOD_KEY] = [b..<Suc (snd r)] @ [Suc (snd r)..<PARTITION_MOD_KEY]"
    using 2 upt_add_eq_append [of b "Suc (snd r)" "PARTITION_MOD_KEY - Suc (snd r)"] by simp
  then show ?case using 2 by (simp add: range_slots_def del: upt_Suc)
qed simp

lemma contiguous_cover: "contiguous 0 rs \<Longrightarrow> exact_cover (map range_slots rs)"
  by (auto simp: exact_cover_def contiguous_slots distinct_map image_iff intro: nonneg_int_cases)

lemma find_shard_range:
  "contiguous b rs \<Longrightarrow> b \<le> v \<Longrightarrow> v < PARTITION_MOD_KEY \<Longrightarrow>
   find_shard (map (\<lambda>r. int (snd r)) rs) (int v) < length rs \<and>
   int v \<in> set (range_slots (rs ! find_shard (map (\<lambda>r. int (snd r)) rs) (int v)))"
proof (induction b rs rule: contiguous.induct)
  case (2 b r rs)
  show ?case
  proof (cases "v \<le> snd r")
    case True
    then show ?thesis using 2 by (auto simp: range_slots_def)
  next
    case False
    then show ?thesis using 2 by auto
  qed
qed auto

lemma digits_value_stop:
  "list_all is_digit a \<Longrightarrow> digits_value acc (a @ CHR ''-'' # r) = digits_value acc a"
  by (subst digits_value_append) (auto simp: is_digit_def)

lemma scan_int_print:
  assumes "r = [] \<or> hd r = CHR ''-''"
  shows "scan_int (print_nat n @ r) = Some (int n, r)"
proof -
  obtain ch s where p: "print_nat n = ch # s" using print_nat_not_Nil by (cases "print_nat n") auto
  then obtain d :: nat where "d < 10" "ch = char_of (48 + d)"
    using print_nat_chars [of ch n] by auto
  then have c: "\<not> is_space ch" "ch \<noteq> CHR ''-''" "ch \<noteq> CHR ''+''" "is_digit ch" by auto
  have "\<not> is_digit CHR ''-''" by (simp add: is_digit_def)
  then have "digits_value 0 (print_nat n @ r) = int n" "dropWhile is_digit (print_nat n @ r) = r"
    "takeWhile is_digit (print_nat n @ r) = print_nat n"
    using assms print_nat_digits [of n] print_nat_value [of n]
    by (cases r; auto simp: digits_value_stop list_all_iff)+
  then show ?thesis using p c by (simp add: scan_int_def Let_def)
qed

text \<open>
  C39: On partition ranges in ascending order without gaps, \<open>shardtool\<close> and the router name the
  same shard for every key: the tool reads each range as it is printed, and its search for the
  first range end not below the key's value finds the partition \<open>_shard_func_part\<close> answers.
\<close>

theorem shardtool_agrees_with_router:
  assumes "contiguous 0 rs"
  shows "(\<forall>r \<in> set rs. scan_range (print_range r) = Some (int (fst r), int (snd r))) \<and>
     fst (shard_init_part (map range_slots rs)) = None \<and>
     shard_func_part (snd (shard_init_part (map range_slots rs))) (int_of_u64 (strhash k)) =
       int (find_shard (map (\<lambda>r. int (snd r)) rs) (int (unat (and (int_of_u64 (strhash k)) 0xFFFF))))"
proof -
  let ?j = "find_shard (map (\<lambda>r. int (snd r)) rs) (int (key_slot k))"
  obtain t where t: "shard_init_part (map range_slots rs) = (None, t)"
    using contiguous_cover [OF assms] shard_init_part_None by (metis prod.collapse)
  from find_shard_range [OF assms, of "key_slot k"] key_slot_bound [of k]
  have j: "?j < length rs" "int (key_slot k) \<in> set (map range_slots rs ! ?j)" by simp_all
  have "t (key_slot k) = int ?j"
    by (rule shard_init_part_table [OF t _ j(2)]) (use j(1) in simp)
  moreover have "unat (and (int_of_u64 (strhash k)) 0xFFFF) = key_slot k"
    by (simp only: slot_of_hash key_slot_def)
  moreover have "scan_range (print_range r) = Some (int (fst r), int (snd r))" for r
    using scan_int_print [of "[]" "snd r"] by (simp add: scan_range_def print_range_def scan_int_print)
  ultimately show ?thesis using t by (simp only: shard_func_key fst_conv snd_conv simp_thms Ball_def)
qed

theorem shardtool_agrees_with_router_witness:
  "shard_func_part (snd (shard_init_part (map range_slots [(0, 32767), (32768, 65535)]))) (int_of_u64 (strhash ''hello'')) =
   int (find_shard [32767, 65535] (int (unat (and (int_of_u64 (strhash ''hello'')) 0xFFFF))))"
  using shardtool_agrees_with_router [of "[(0, 32767), (32768, 65535)]" "''hello''"]
  by (simp add: PARTITION_MOD_KEY_def)

end
