(* ===== verification/Queues.thy ===== *)
theory Queues
  imports Prelude "HOL-Library.Monad_Syntax"
begin

text \<open>
  Doubly linked queues as the proxy's C structures have them: a head, a tail and the link
  fields of the nodes. \<open>dll\<close> says that a store of links holds a given list of nodes between
  head and tail; the three code shapes that occur (take the head, append at the tail, unlink a
  node) are proved once over it. The interface \<open>fifo_queue\<close> states what the callers of a
  queue rely on; every queue of the proxy interprets it.
\<close>

section \<open>The representation of a list by links\<close>

definition nth_opt :: "'a list \<Rightarrow> nat \<Rightarrow> 'a option" where
  "nth_opt xs i = (if i < length xs then Some (xs ! i) else None)"

fun lseg :: "('n \<Rightarrow> 'n option) \<Rightarrow> ('n \<Rightarrow> 'n option) \<Rightarrow> 'n option \<Rightarrow> 'n list \<Rightarrow> 'n option \<Rightarrow> bool" where
  "lseg nx pv p [] q \<longleftrightarrow> True"
| "lseg nx pv p (x # xs) q \<longleftrightarrow>
     pv x = p \<and> nx x = (case xs of [] \<Rightarrow> q | y # _ \<Rightarrow> Some y) \<and> lseg nx pv (Some x) xs q"

definition first :: "'n list \<Rightarrow> 'n option" where
  "first xs = (case xs of [] \<Rightarrow> None | x # _ \<Rightarrow> Some x)"

definition final :: "'n list \<Rightarrow> 'n option" where
  "final xs = (if xs = [] then None else Some (last xs))"

lemma first_simps [simp]:
  "first [] = None" "first (x # xs) = Some x" "first xs = None \<longleftrightarrow> xs = []"
  by (auto simp: first_def split: list.splits)

lemma final_simps [simp]:
  "final [] = None" "final (xs @ [x]) = Some x" "final xs = None \<longleftrightarrow> xs = []"
  "final (x # xs) = Some (last (x # xs))"
  by (auto simp: final_def)

lemma first_append: "first (xs @ ys) = (if xs = [] then first ys else first xs)"
  by (cases xs) auto

lemma final_append: "final (xs @ ys) = (if ys = [] then final xs else final ys)"
  by (auto simp: final_def)

definition dll ::
  "('n \<Rightarrow> 'n option) \<Rightarrow> ('n \<Rightarrow> 'n option) \<Rightarrow> 'n option \<Rightarrow> 'n option \<Rightarrow> 'n list \<Rightarrow> bool" where
  "dll nx pv h t xs \<longleftrightarrow> h = first xs \<and> t = final xs \<and> distinct xs \<and> lseg nx pv None xs None"

lemma lseg_append:
  "lseg nx pv p (xs @ ys) q \<longleftrightarrow>
     lseg nx pv p xs (if ys = [] then q else first ys) \<and>
     lseg nx pv (if xs = [] then p else final xs) ys q"
proof (induction xs arbitrary: p)
  case (Cons x xs)
  show ?case
  proof (cases xs)
    case Nil
    then show ?thesis by (cases ys) auto
  next
    case (Cons y zs)
    then show ?thesis using Cons.IH [of "Some x"] by auto
  qed
qed simp

lemma lseg_frame:
  assumes "\<And>x. x \<in> set xs \<Longrightarrow> nx' x = nx x \<and> pv' x = pv x"
  shows "lseg nx' pv' p xs q \<longleftrightarrow> lseg nx pv p xs q"
  using assms
proof (induction xs arbitrary: p)
  case (Cons x xs)
  then have "lseg nx' pv' (Some x) xs q \<longleftrightarrow> lseg nx pv (Some x) xs q" by simp
  then show ?case using Cons.prems [of x] by auto
qed simp

text \<open>Queues over disjoint nodes of one store do not touch each other.\<close>

lemma dll_frame:
  assumes "dll nx pv h t xs" "\<And>x. x \<in> set xs \<Longrightarrow> nx' x = nx x \<and> pv' x = pv x"
  shows "dll nx' pv' h t xs"
  using assms lseg_frame [of xs nx' nx pv' pv None None] by (simp add: dll_def)

lemma dll_Nil [simp]: "dll nx pv h t [] \<longleftrightarrow> h = None \<and> t = None"
  by (auto simp: dll_def)

lemma dll_head: "dll nx pv h t xs \<Longrightarrow> h = first xs" "dll nx pv h t xs \<Longrightarrow> t = final xs"
  "dll nx pv h t xs \<Longrightarrow> distinct xs"
  by (simp_all add: dll_def)

lemma dll_head_None: "dll nx pv h t xs \<Longrightarrow> h = None \<longleftrightarrow> xs = []" "dll nx pv h t xs \<Longrightarrow> t = None \<longleftrightarrow> xs = []"
  by (simp_all add: dll_def)

section \<open>The three operations on links\<close>

text \<open>Taking the head: the new head loses its back link.\<close>

lemma dll_pop:
  assumes "dll nx pv h t (x # xs)"
  shows "h = Some x" "nx x = first xs" "h = t \<longleftrightarrow> xs = []"
    "dll nx (case first xs of None \<Rightarrow> pv | Some y \<Rightarrow> pv(y := None)) (first xs) (if xs = [] then None else t) xs"
proof -
  have l: "h = Some x" "t = Some (last (x # xs))" "distinct (x # xs)" "lseg nx pv None (x # xs) None"
    using assms by (simp_all add: dll_def)
  show "h = Some x" by (rule l(1))
  show "nx x = first xs" using l(4) by (simp add: first_def)
  show "h = t \<longleftrightarrow> xs = []"
  proof (cases xs)
    case (Cons y ys)
    then have "last (x # xs) \<in> set xs" by simp
    then show ?thesis using l(1-3) Cons by auto
  qed (use l in simp)
  show "dll nx (case first xs of None \<Rightarrow> pv | Some y \<Rightarrow> pv(y := None)) (first xs) (if xs = [] then None else t) xs"
  proof (cases xs)
    case (Cons y ys)
    then have "y \<notin> set ys" using assms by (simp add: dll_def)
    then have "lseg nx (pv(y := None)) (Some y) ys None = lseg nx pv (Some y) ys None"
      by (intro lseg_frame) auto
    then show ?thesis using assms Cons by (simp add: dll_def)
  qed simp
qed

text \<open>Appending a node whose links the code clears first.\<close>

lemma dll_push:
  assumes "dll nx pv h t xs" "x \<notin> set xs"
  shows "dll (case t of None \<Rightarrow> nx(x := None) | Some l \<Rightarrow> nx(x := None, l := Some x))
             (pv(x := t)) (case h of None \<Rightarrow> Some x | Some _ \<Rightarrow> h) (Some x) (xs @ [x])"
proof (cases xs rule: rev_cases)
  case Nil
  then show ?thesis using assms by (auto simp: dll_def)
next
  case (snoc ys l)
  then have t: "t = Some l" and h: "h \<noteq> None" and d: "distinct (ys @ [l])" "x \<noteq> l" "x \<notin> set ys"
    using assms by (auto simp: dll_def)
  have ys: "lseg (nx(x := None, l := Some x)) (pv(x := Some l)) None ys (Some l) =
      lseg nx pv None ys (Some l)"
    by (rule lseg_frame) (use d in auto)
  have "lseg nx pv None (ys @ [l]) None" using assms snoc by (simp add: dll_def)
  then have "lseg nx pv None ys (Some l)" "pv l = (if ys = [] then None else final ys)"
    by (simp_all add: lseg_append)
  then have "lseg (nx(x := None, l := Some x)) (pv(x := Some l)) None ((ys @ [l]) @ [x]) None"
    using ys d by (simp add: lseg_append)
  moreover have "h = first ((ys @ [l]) @ [x])"
    using assms snoc by (simp add: dll_def first_append)
  ultimately show ?thesis using t h d snoc by (auto simp: dll_def final_append split: option.splits)
qed

text \<open>Unlinking a node: its neighbours take over its links.\<close>

definition unlink_nx :: "('n \<Rightarrow> 'n option) \<Rightarrow> ('n \<Rightarrow> 'n option) \<Rightarrow> 'n \<Rightarrow> 'n \<Rightarrow> 'n option" where
  "unlink_nx nx pv x = (case pv x of None \<Rightarrow> nx | Some p \<Rightarrow> nx(p := nx x))"

definition unlink_pv :: "('n \<Rightarrow> 'n option) \<Rightarrow> ('n \<Rightarrow> 'n option) \<Rightarrow> 'n \<Rightarrow> 'n \<Rightarrow> 'n option" where
  "unlink_pv nx pv x = (case nx x of None \<Rightarrow> pv | Some q \<Rightarrow> pv(q := pv x))"

lemma dll_mid:
  assumes "dll nx pv h t (as @ x # bs)"
  shows "pv x = final as" "nx x = first bs" "h = Some x \<longleftrightarrow> as = []" "t = Some x \<longleftrightarrow> bs = []"
proof -
  have l: "lseg nx pv None (as @ x # bs) None" and d: "distinct (as @ x # bs)"
    and ht: "h = first (as @ x # bs)" "t = final (as @ x # bs)" using assms by (simp_all add: dll_def)
  then have "lseg nx pv (if as = [] then None else final as) (x # bs) None"
    by (simp add: lseg_append)
  then show "pv x = final as" "nx x = first bs" by (auto simp: first_def split: if_splits list.splits)
  show "h = Some x \<longleftrightarrow> as = []" using ht(1) d by (cases as) auto
  show "t = Some x \<longleftrightarrow> bs = []" using ht(2) d by (auto simp: final_append)
qed

lemma dll_unlink:
  assumes "dll nx pv h t (as @ x # bs)"
  shows "dll (unlink_nx nx pv x) (unlink_pv nx pv x)
             (if h = Some x then nx x else h) (if t = Some x then pv x else t) (as @ bs)"
proof -
  note mid = dll_mid [OF assms]
  have l: "lseg nx pv None (as @ x # bs) None" and d: "distinct (as @ x # bs)"
    and ht: "h = first (as @ x # bs)" "t = final (as @ x # bs)" using assms by (simp_all add: dll_def)
  have la: "lseg nx pv None as (Some x)" and lb: "lseg nx pv (Some x) bs None"
    using l by (simp_all add: lseg_append)
  have a: "lseg (unlink_nx nx pv x) (unlink_pv nx pv x) None as (first bs)"
  proof (cases as rule: rev_cases)
    case (snoc as' p)
    then have p: "pv x = Some p" using mid(1) by simp
    have "lseg (unlink_nx nx pv x) (unlink_pv nx pv x) None as' (Some p) = lseg nx pv None as' (Some p)"
      by (rule lseg_frame)
         (use d snoc mid in \<open>auto simp: unlink_nx_def unlink_pv_def p first_def split: list.splits option.splits\<close>)
    moreover have "unlink_pv nx pv x p = pv p" "unlink_nx nx pv x p = first bs"
      using d snoc mid by (auto simp: unlink_pv_def unlink_nx_def p first_def split: list.splits)
    ultimately show ?thesis using la snoc by (simp add: lseg_append)
  qed simp
  have b: "lseg (unlink_nx nx pv x) (unlink_pv nx pv x) (final as) bs None"
  proof (cases bs)
    case (Cons q bs')
    then have q: "nx x = Some q" using mid(2) by simp
    have out: "as \<noteq> [] \<Longrightarrow> last as \<notin> set bs'" using d Cons last_in_set [of as] by (auto simp: disjoint_iff)
    have "lseg (unlink_nx nx pv x) (unlink_pv nx pv x) (Some q) bs' None = lseg nx pv (Some q) bs' None"
      by (rule lseg_frame)
         (use d Cons mid out in
           \<open>auto simp: unlink_nx_def unlink_pv_def q final_def split: if_splits option.splits\<close>)
    moreover have "unlink_pv nx pv x q = final as" "unlink_nx nx pv x q = nx q"
      using d Cons mid by (auto simp: unlink_pv_def unlink_nx_def q final_def split: if_splits)
    ultimately show ?thesis using lb Cons by simp
  qed simp
  have "lseg (unlink_nx nx pv x) (unlink_pv nx pv x) None (as @ bs) None"
    using a b by (cases "as = []"; cases "bs = []") (auto simp: lseg_append)
  moreover have "(if h = Some x then nx x else h) = first (as @ bs)"
    using mid(2,3) ht(1) by (cases as) (auto simp: first_append)
  moreover have "(if t = Some x then pv x else t) = final (as @ bs)"
    using mid(1,4) ht(2) by (auto simp: final_def)
  ultimately show ?thesis using d by (simp add: dll_def)
qed

text \<open>Where unlinking writes: only at the neighbours.\<close>

lemma unlink_frame:
  assumes "dll nx pv h t (as @ x # bs)" "y \<notin> set (as @ bs)"
  shows "unlink_nx nx pv x y = nx y" "unlink_pv nx pv x y = pv y"
  using dll_mid(1,2) [OF assms(1)] assms(2)
  by (auto simp: unlink_nx_def unlink_pv_def final_def first_def split: if_splits option.splits list.splits)

section \<open>What the users of a queue rely on\<close>

text \<open>
  \<open>holds q xs\<close>: the queue is well formed and holds the elements \<open>xs\<close> in order. \<open>get\<close> takes the
  oldest element, \<open>put\<close> appends one that is \<open>fit\<close> to be queued.
\<close>

locale fifo_queue =
  fixes holds :: "'q \<Rightarrow> 'x list \<Rightarrow> bool"
    and get :: "'q \<Rightarrow> ('x option \<times> 'q) option"
    and put :: "'x \<Rightarrow> 'q \<Rightarrow> 'q option"
    and fit :: "'x \<Rightarrow> 'q \<Rightarrow> bool"
  assumes get_nil: "holds q [] \<Longrightarrow> get q = Some (None, q)"
    and get_cons: "holds q (x # xs) \<Longrightarrow> \<exists>q'. get q = Some (Some x, q') \<and> holds q' xs"
    and put_holds: "holds q xs \<Longrightarrow> fit x q \<Longrightarrow> \<exists>q'. put x q = Some q' \<and> holds q' (xs @ [x])"
begin

text \<open>Taking everything out, as the destroy loops do.\<close>

fun drain :: "nat \<Rightarrow> 'q \<Rightarrow> ('x list \<times> 'q) option" where
  "drain 0 q = Some ([], q)"
| "drain (Suc n) q =
     (case get q of
        None \<Rightarrow> None
      | Some (None, q') \<Rightarrow> Some ([], q')
      | Some (Some x, q') \<Rightarrow> map_option (\<lambda>(xs, q''). (x # xs, q'')) (drain n q'))"

lemma drain_all:
  "holds q xs \<Longrightarrow> length xs < n \<Longrightarrow> \<exists>q'. drain n q = Some (xs, q') \<and> holds q' []"
proof (induction xs arbitrary: q n)
  case Nil
  then show ?case using get_nil [of q] by (cases n) auto
next
  case (Cons x xs)
  then obtain q1 where q1: "get q = Some (Some x, q1)" "holds q1 xs" using get_cons by blast
  obtain m where m: "n = Suc m" using Cons.prems(2) by (cases n) auto
  from Cons.IH [OF q1(2), of m] Cons.prems(2) m obtain q2 where "drain m q1 = Some (xs, q2)" "holds q2 []"
    by auto
  then show ?case using q1(1) m by simp
qed

lemma get_total: "holds q xs \<Longrightarrow> get q \<noteq> None"
  using get_nil [of q] get_cons [of q "hd xs" "tl xs"] by (cases xs) auto

lemma get_first:
  assumes "holds q xs" "get q = Some (r, q')"
  shows "r = first xs \<and> holds q' (tl xs)"
  using assms get_nil [of q] get_cons [of q "hd xs" "tl xs"] by (cases xs) auto

text \<open>First in, first out: an element put into a queue comes out after those before it.\<close>

lemma fifo:
  assumes "holds q xs" "fit x q"
  shows "\<exists>q1 q2. put x q = Some q1 \<and> drain (length xs + 2) q1 = Some (xs @ [x], q2) \<and> holds q2 []"
proof -
  from put_holds [OF assms] obtain q1 where q1: "put x q = Some q1" "holds q1 (xs @ [x])" by blast
  from drain_all [OF q1(2), of "length xs + 2"] q1(1) show ?thesis by auto
qed

end

text \<open>A queue from which any element can be unlinked.\<close>

locale unlinkable_queue = fifo_queue holds get put fit
  for holds :: "'q \<Rightarrow> 'x list \<Rightarrow> bool"
    and get :: "'q \<Rightarrow> ('x option \<times> 'q) option"
    and put :: "'x \<Rightarrow> 'q \<Rightarrow> 'q option"
    and fit :: "'x \<Rightarrow> 'q \<Rightarrow> bool" +
  fixes unlink :: "'x \<Rightarrow> 'q \<Rightarrow> 'q option"
  assumes unlink_holds: "holds q (as @ x # bs) \<Longrightarrow> \<exists>q'. unlink x q = Some q' \<and> holds q' (as @ bs)"
begin

lemma unlink_then_drain:
  assumes "holds q xs" "x \<in> set xs"
  shows "\<exists>q1 q2. unlink x q = Some q1 \<and> drain (length xs) q1 = Some (remove1 x xs, q2)"
proof -
  from split_list_first [OF assms(2)] obtain as bs where xs: "xs = as @ x # bs" "x \<notin> set as" by blast
  from unlink_holds [of q as x bs] assms(1) xs obtain q1 where q1: "unlink x q = Some q1" "holds q1 (as @ bs)"
    by auto
  from drain_all [OF q1(2), of "length xs"] xs show ?thesis
    using q1(1) by (auto simp: remove1_append)
qed

end

end
