(* ===== verification/PoolServer.thy ===== *)
theory PoolServer
  imports Queues
begin

text \<open>
  One backend server of a connection pool (\<open>pool.cpp\<close>): the queues of its connection slots, the
  queue of waiting requests, and the handlers that move a connection between them. Slot \<open>j\<close>
  stands for \<open>m_connectArr[j]\<close> and its one queue node, so the links of the free and of the
  unconnected queue share a store, as in the code. Waiting nodes are allocated and freed;
  \<open>w_nodes\<close> is the heap they live in. Calls out of the pool (backend, strategy, request layer)
  are emitted as outputs in the order of the calls; the callbacks they lead to are operations of
  their own. \<open>None\<close> is a crash: a NULL or dangling pointer used.
\<close>

record 'r wait_node =
  wq_last :: "nat option"
  wq_next :: "nat option"
  wq_req :: 'r

record 'r server_info =
  m_serverIdx :: nat
  m_connectPerServer :: int
  m_lowConnectPerServer :: int
  cq_next :: "nat \<Rightarrow> nat option"
  cq_prev :: "nat \<Rightarrow> nat option"
  m_connectQueueHead :: "nat option"
  m_connectQueueTail :: "nat option"
  m_unconnectQueueHead :: "nat option"
  m_unconnectQueueTail :: "nat option"
  m_waitingQueueHead :: "nat option"
  m_waitingQueueTail :: "nat option"
  w_nodes :: "nat \<Rightarrow> 'r wait_node option"
  w_fresh :: nat
  m_connectCount :: int
  m_unconnectCount :: int
  m_freeConnectCount :: int
  m_waitingCount :: int
  m_destroyFlag :: bool
  in_use :: "nat \<Rightarrow> bool"
  to_be_destroyed :: "nat \<Rightarrow> bool"
  has_handle :: "nat \<Rightarrow> bool"
  monitor_on :: bool
  srv_freed :: bool

datatype 'r pool_out =
    Acquired nat 'r      \<comment> \<open>the request's callback runs with connection \<open>j\<close>\<close>
  | CreateConn nat       \<comment> \<open>\<open>m_createCb\<close> for slot \<open>j\<close>\<close>
  | DestroyConn nat      \<comment> \<open>\<open>m_destroyCb\<close> for slot \<open>j\<close>\<close>
  | AfterConn nat int    \<comment> \<open>\<open>setServerArgAfterConn\<close>\<close>
  | Talk nat             \<comment> \<open>\<open>setServerArg\<close>\<close>
  | ServerFreed nat      \<comment> \<open>\<open>free(server)\<close> in \<open>_pool_server_destroyed\<close>\<close>

section \<open>Queue operations\<close>

definition unconnect_queue_get :: "'r server_info \<Rightarrow> nat option \<times> 'r server_info" where
  "unconnect_queue_get s =
     (case m_unconnectQueueHead s of
        None \<Rightarrow> (None, s)
      | Some j \<Rightarrow>
          (let s = (if m_unconnectQueueHead s = m_unconnectQueueTail s
                    then s\<lparr>m_unconnectQueueTail := None\<rparr> else s);
               s = s\<lparr>m_unconnectQueueHead := cq_next s j\<rparr>;
               s = (case m_unconnectQueueHead s of None \<Rightarrow> s | Some h \<Rightarrow> s\<lparr>cq_prev := (cq_prev s)(h := None)\<rparr>)
           in (Some j, s\<lparr>m_unconnectCount := m_unconnectCount s - 1,
                         cq_next := (cq_next s)(j := None), cq_prev := (cq_prev s)(j := None)\<rparr>)))"

definition unconnect_queue_put :: "nat \<Rightarrow> 'r server_info \<Rightarrow> 'r server_info option" where
  "unconnect_queue_put j s =
     (let s = s\<lparr>cq_next := (cq_next s)(j := None), cq_prev := (cq_prev s)(j := None)\<rparr> in
      if m_unconnectQueueHead s = None
      then Some (s\<lparr>m_unconnectQueueHead := Some j, m_unconnectQueueTail := Some j,
                   m_unconnectCount := m_unconnectCount s + 1\<rparr>)
      else
        (case m_unconnectQueueTail s of
           None \<Rightarrow> None
         | Some l \<Rightarrow> Some (s\<lparr>cq_next := (cq_next s)(l := Some j), cq_prev := (cq_prev s)(j := Some l),
                             m_unconnectQueueTail := Some j, m_unconnectCount := m_unconnectCount s + 1\<rparr>)))"

definition connect_queue_get :: "'r server_info \<Rightarrow> nat option \<times> 'r server_info" where
  "connect_queue_get s =
     (case m_connectQueueHead s of
        None \<Rightarrow> (None, s)
      | Some j \<Rightarrow>
          (let s = (if m_connectQueueHead s = m_connectQueueTail s
                    then s\<lparr>m_connectQueueTail := None\<rparr> else s);
               s = s\<lparr>m_connectQueueHead := cq_next s j\<rparr>;
               s = (case m_connectQueueHead s of None \<Rightarrow> s | Some h \<Rightarrow> s\<lparr>cq_prev := (cq_prev s)(h := None)\<rparr>)
           in (Some j, s\<lparr>m_freeConnectCount := m_freeConnectCount s - 1,
                         cq_next := (cq_next s)(j := None), cq_prev := (cq_prev s)(j := None)\<rparr>)))"

definition connect_queue_put :: "nat \<Rightarrow> 'r server_info \<Rightarrow> 'r server_info option" where
  "connect_queue_put j s =
     (let s = s\<lparr>cq_next := (cq_next s)(j := None), cq_prev := (cq_prev s)(j := None)\<rparr> in
      if m_connectQueueHead s = None
      then Some (s\<lparr>m_connectQueueHead := Some j, m_connectQueueTail := Some j,
                   m_freeConnectCount := m_freeConnectCount s + 1\<rparr>)
      else
        (case m_connectQueueTail s of
           None \<Rightarrow> None
         | Some l \<Rightarrow> Some (s\<lparr>cq_next := (cq_next s)(l := Some j), cq_prev := (cq_prev s)(j := Some l),
                             m_connectQueueTail := Some j, m_freeConnectCount := m_freeConnectCount s + 1\<rparr>)))"

definition connect_queue_rm :: "nat \<Rightarrow> 'r server_info \<Rightarrow> 'r server_info" where
  "connect_queue_rm j s =
     (let s = (if m_connectQueueHead s = Some j then s\<lparr>m_connectQueueHead := cq_next s j\<rparr> else s);
          s = (if m_connectQueueTail s = Some j then s\<lparr>m_connectQueueTail := cq_prev s j\<rparr> else s);
          s = (case cq_next s j of None \<Rightarrow> s | Some n \<Rightarrow> s\<lparr>cq_prev := (cq_prev s)(n := cq_prev s j)\<rparr>);
          s = (case cq_prev s j of None \<Rightarrow> s | Some p \<Rightarrow> s\<lparr>cq_next := (cq_next s)(p := cq_next s j)\<rparr>)
      in s\<lparr>cq_next := (cq_next s)(j := None), cq_prev := (cq_prev s)(j := None),
           m_freeConnectCount := m_freeConnectCount s - 1\<rparr>)"

text \<open>The waiting queue. Writing a field of a node is a crash when the node is not allocated.\<close>

definition set_wnext :: "nat option \<Rightarrow> nat \<Rightarrow> 'r server_info \<Rightarrow> 'r server_info option" where
  "set_wnext v w s = (case w_nodes s w of None \<Rightarrow> None
     | Some n \<Rightarrow> Some (s\<lparr>w_nodes := (w_nodes s)(w \<mapsto> n\<lparr>wq_next := v\<rparr>)\<rparr>))"

definition set_wlast :: "nat option \<Rightarrow> nat \<Rightarrow> 'r server_info \<Rightarrow> 'r server_info option" where
  "set_wlast v w s = (case w_nodes s w of None \<Rightarrow> None
     | Some n \<Rightarrow> Some (s\<lparr>w_nodes := (w_nodes s)(w \<mapsto> n\<lparr>wq_last := v\<rparr>)\<rparr>))"

definition waiting_queue_get :: "'r server_info \<Rightarrow> ('r option \<times> 'r server_info) option" where
  "waiting_queue_get s =
     (case m_waitingQueueHead s of
        None \<Rightarrow> Some (None, s)
      | Some w \<Rightarrow>
          do {
            n \<leftarrow> w_nodes s w;
            s \<leftarrow> (if m_waitingQueueHead s = m_waitingQueueTail s
                  then Some (s\<lparr>m_waitingQueueHead := None, m_waitingQueueTail := None\<rparr>)
                  else do { h \<leftarrow> wq_next n; set_wlast None h (s\<lparr>m_waitingQueueHead := Some h\<rparr>) });
            Some (Some (wq_req n), s\<lparr>m_waitingCount := m_waitingCount s - 1, w_nodes := (w_nodes s)(w := None)\<rparr>)
          })"

definition waiting_queue_put :: "nat \<Rightarrow> 'r server_info \<Rightarrow> 'r server_info option" where
  "waiting_queue_put w s =
     map_option (\<lambda>s. s\<lparr>m_waitingCount := m_waitingCount s + 1\<rparr>)
       (if m_waitingQueueHead s = None
        then do { s \<leftarrow> set_wnext None w (s\<lparr>m_waitingQueueHead := Some w, m_waitingQueueTail := Some w\<rparr>);
                  set_wlast None w s }
        else do { s \<leftarrow> set_wlast (m_waitingQueueTail s) w s;
                  s \<leftarrow> set_wnext None w s;
                  l \<leftarrow> m_waitingQueueTail s;
                  s \<leftarrow> set_wnext (Some w) l s;
                  Some (s\<lparr>m_waitingQueueTail := Some w\<rparr>) })"

text \<open>The unlinking part of \<open>_pool_waiting_queue_rm\<close> (pool.cpp 211-225).\<close>

definition waiting_unlink :: "nat \<Rightarrow> 'r server_info \<Rightarrow> 'r server_info option" where
  "waiting_unlink w s =
     do {
       n \<leftarrow> w_nodes s w;
       s \<leftarrow> (case wq_last n of None \<Rightarrow> Some s | Some l \<Rightarrow> set_wnext (wq_next n) l s);
       s \<leftarrow> (case wq_next n of None \<Rightarrow> Some s | Some x \<Rightarrow> set_wlast (wq_last n) x s);
       let s = (if m_waitingQueueHead s = Some w then s\<lparr>m_waitingQueueHead := wq_next n\<rparr> else s);
       let s = (if m_waitingQueueTail s = Some w then s\<lparr>m_waitingQueueTail := wq_last n\<rparr> else s);
       Some (s\<lparr>w_nodes := (w_nodes s)(w := None), m_waitingCount := m_waitingCount s - 1\<rparr>)
     }"

section \<open>Handlers\<close>

definition server_destroyed :: "'r server_info \<Rightarrow> 'r server_info \<times> 'r pool_out list" where
  "server_destroyed s = (s\<lparr>srv_freed := True\<rparr>, [ServerFreed (m_serverIdx s)])"

text \<open>The \<open>while (connectIdx >= 0)\<close> loop of \<open>_pool_server_destroy\<close>.\<close>

partial_function (option) destroy_loop ::
  "nat \<Rightarrow> 'r server_info \<Rightarrow> ('r server_info \<times> 'r pool_out list) option" where
  "destroy_loop j s =
     (case connect_queue_get s of
        (None, s) \<Rightarrow> Some (s, [DestroyConn j])
      | (Some i, s) \<Rightarrow> Option.bind (destroy_loop i s) (\<lambda>(s, os). Some (s, DestroyConn j # os)))"

definition server_destroy :: "'r server_info \<Rightarrow> ('r server_info \<times> 'r pool_out list) option" where
  "server_destroy s =
     (case connect_queue_get s of
        (None, s) \<Rightarrow> Some (server_destroyed s)
      | (Some j, s) \<Rightarrow> destroy_loop j s)"

text \<open>The test for a finished drain, shared by three handlers.\<close>

definition drained :: "'r server_info \<Rightarrow> bool" where
  "drained s \<longleftrightarrow> m_destroyFlag s \<and> m_freeConnectCount s + m_unconnectCount s = m_connectPerServer s"

definition waiting_queue_rm :: "nat option \<Rightarrow> 'r server_info \<Rightarrow> ('r server_info \<times> 'r pool_out list) option" where
  "waiting_queue_rm waiting s =
     (case waiting of
        None \<Rightarrow> Some (s, [])
      | Some w \<Rightarrow>
          if srv_freed s then None
          else
            do {
              s \<leftarrow> waiting_unlink w s;
              (s, os) \<leftarrow> (if m_waitingCount s = 0 \<and> drained s then server_destroy s else Some (s, []));
              if srv_freed s then None else Some (s, os)
            })"

definition create_new_connect :: "'r server_info \<Rightarrow> 'r server_info \<times> 'r pool_out list" where
  "create_new_connect s =
     (case unconnect_queue_get s of
        (None, s) \<Rightarrow> (s, [])
      | (Some j, s) \<Rightarrow> (s\<lparr>has_handle := (has_handle s)(j := True)\<rparr>, [CreateConn j]))"

definition server_connect_monitor :: "'r server_info \<Rightarrow> ('r server_info \<times> 'r pool_out list) option" where
  "server_connect_monitor s =
     (if srv_freed s then None
      else if m_connectCount s < m_lowConnectPerServer s then Some (create_new_connect s) else Some (s, []))"

definition put_back_connect :: "nat \<Rightarrow> 'r server_info \<Rightarrow> ('r server_info \<times> 'r pool_out list) option" where
  "put_back_connect j s =
     map_option (\<lambda>(s, os). (s, AfterConn (m_serverIdx s) 0 # os))
       (do {
          (sub_req, s) \<leftarrow> waiting_queue_get s;
          case sub_req of
            Some r \<Rightarrow> Some (s\<lparr>in_use := (in_use s)(j := True)\<rparr>, [Acquired j r])
          | None \<Rightarrow> do { s \<leftarrow> connect_queue_put j s; if drained s then server_destroy s else Some (s, []) }
        })"

definition on_connect_created :: "nat \<Rightarrow> int \<Rightarrow> 'r server_info \<Rightarrow> ('r server_info \<times> 'r pool_out list) option" where
  "on_connect_created j status s =
     (if srv_freed s then None
      else
        (let s = s\<lparr>in_use := (in_use s)(j := False), to_be_destroyed := (to_be_destroyed s)(j := False)\<rparr> in
         if status = 0 then put_back_connect j (s\<lparr>m_connectCount := m_connectCount s + 1\<rparr>)
         else
           do {
             s \<leftarrow> unconnect_queue_put j s;
             let s = s\<lparr>has_handle := (has_handle s)(j := False)\<rparr>;
             if drained s then server_destroy s else Some (s, [])
           }))"

definition on_connect_destroyed :: "nat \<Rightarrow> 'r server_info \<Rightarrow> ('r server_info \<times> 'r pool_out list) option" where
  "on_connect_destroyed j s =
     (if srv_freed s then None
      else if in_use s j \<and> \<not> to_be_destroyed s j
      then Some (s\<lparr>to_be_destroyed := (to_be_destroyed s)(j := True)\<rparr>, [AfterConn (m_serverIdx s) (-1)])
      else
        (let s = (if in_use s j then s else connect_queue_rm j s) in
         if \<not> has_handle s j then None
         else
           do {
             s \<leftarrow> unconnect_queue_put j (s\<lparr>has_handle := (has_handle s)(j := False)\<rparr>);
             let s = s\<lparr>m_connectCount := m_connectCount s - 1\<rparr>;
             let (s, os) = (if m_destroyFlag s \<and> m_connectCount s = 0 then server_destroyed s else (s, []));
             Some (s, AfterConn (m_serverIdx s) (-1) # os)
           }))"

definition release_connect :: "nat \<Rightarrow> bool \<Rightarrow> 'r server_info \<Rightarrow> ('r server_info \<times> 'r pool_out list) option" where
  "release_connect j errclose s =
     (if srv_freed s then None
      else
        (let s = s\<lparr>in_use := (in_use s)(j := False)\<rparr> in
         map_option (\<lambda>(s, os). (s, Talk (m_serverIdx s) # os))
           (if \<not> errclose \<and> \<not> to_be_destroyed s j then put_back_connect j s
            else Some (s, [DestroyConn j]))))"

definition fetch_from_connectqueue :: "'r \<Rightarrow> 'r server_info \<Rightarrow> ('r server_info \<times> 'r pool_out list) option" where
  "fetch_from_connectqueue r s =
     (case connect_queue_get s of
        (None, s) \<Rightarrow> None
      | (Some j, s) \<Rightarrow> Some (s\<lparr>in_use := (in_use s)(j := True)\<rparr>, [Acquired j r]))"

definition add_req_into_waitingqueue :: "'r \<Rightarrow> 'r server_info \<Rightarrow> (nat \<times> 'r server_info) option" where
  "add_req_into_waitingqueue r s =
     (let w = w_fresh s;
          s = s\<lparr>w_fresh := Suc w, w_nodes := (w_nodes s)(w \<mapsto> \<lparr>wq_last = None, wq_next = None, wq_req = r\<rparr>)\<rparr>
      in map_option (Pair w) (waiting_queue_put w s))"

text \<open>\<open>pool_fetch_connect\<close> once a server is chosen (pool.cpp 579-607), with the waiting node.\<close>

definition server_fetch ::
  "'r \<Rightarrow> 'r server_info \<Rightarrow> (nat option \<times> 'r server_info \<times> 'r pool_out list) option" where
  "server_fetch r s =
     (if srv_freed s then None
      else if m_connectQueueHead s \<noteq> None
      then map_option (Pair None) (fetch_from_connectqueue r s)
      else
        (let (s, os) = (if m_connectCount s < m_connectPerServer s then create_new_connect s else (s, []))
         in map_option (\<lambda>(w, s). (Some w, s, os)) (add_req_into_waitingqueue r s)))"

text \<open>One round of the loop of \<open>pool_destroy\<close> (pool.cpp 353-370).\<close>

definition server_pool_destroy :: "'r server_info \<Rightarrow> ('r server_info \<times> 'r pool_out list) option" where
  "server_pool_destroy s =
     (if srv_freed s then None
      else
        (let s = s\<lparr>monitor_on := False\<rparr>;
             idle = (m_connectCount s = m_freeConnectCount s \<and>
                     m_freeConnectCount s + m_unconnectCount s = m_connectPerServer s \<and> m_waitingCount s = 0);
             s = s\<lparr>m_destroyFlag := True\<rparr>
         in if idle then server_destroy s else Some (s, [])))"

text \<open>One round of the loop of \<open>pool_build\<close> (pool.cpp 292-340).\<close>

definition zero_server :: "nat \<Rightarrow> int \<Rightarrow> int \<Rightarrow> 'r server_info" where
  "zero_server idx per low =
     \<lparr>m_serverIdx = idx, m_connectPerServer = per, m_lowConnectPerServer = low,
      cq_next = (\<lambda>_. None), cq_prev = (\<lambda>_. None),
      m_connectQueueHead = None, m_connectQueueTail = None,
      m_unconnectQueueHead = None, m_unconnectQueueTail = None,
      m_waitingQueueHead = None, m_waitingQueueTail = None, w_nodes = (\<lambda>_. None), w_fresh = 0,
      m_connectCount = 0, m_unconnectCount = 0, m_freeConnectCount = 0, m_waitingCount = 0,
      m_destroyFlag = False, in_use = (\<lambda>_. False), to_be_destroyed = (\<lambda>_. False),
      has_handle = (\<lambda>_. False), monitor_on = True, srv_freed = False\<rparr>"

fun put_slots :: "nat list \<Rightarrow> 'r server_info \<Rightarrow> 'r server_info option" where
  "put_slots [] s = Some s"
| "put_slots (j # js) s = Option.bind (unconnect_queue_put j s) (put_slots js)"

definition server_build :: "nat \<Rightarrow> int \<Rightarrow> int \<Rightarrow> 'r server_info option" where
  "server_build idx per low = put_slots [0..<nat per] (zero_server idx per low)"

section \<open>The queues as lists\<close>

definition uq :: "'r server_info \<Rightarrow> nat list \<Rightarrow> bool" where
  "uq s xs \<longleftrightarrow> dll (cq_next s) (cq_prev s) (m_unconnectQueueHead s) (m_unconnectQueueTail s) xs"

definition fq :: "'r server_info \<Rightarrow> nat list \<Rightarrow> bool" where
  "fq s xs \<longleftrightarrow> dll (cq_next s) (cq_prev s) (m_connectQueueHead s) (m_connectQueueTail s) xs"

definition w_nx :: "'r server_info \<Rightarrow> nat \<Rightarrow> nat option" where
  "w_nx s w = Option.bind (w_nodes s w) wq_next"

definition w_pv :: "'r server_info \<Rightarrow> nat \<Rightarrow> nat option" where
  "w_pv s w = Option.bind (w_nodes s w) wq_last"

definition wq :: "'r server_info \<Rightarrow> nat list \<Rightarrow> bool" where
  "wq s ws \<longleftrightarrow> dll (w_nx s) (w_pv s) (m_waitingQueueHead s) (m_waitingQueueTail s) ws \<and>
     (\<forall>w \<in> set ws. w_nodes s w \<noteq> None) \<and> (\<forall>w \<ge> w_fresh s. w_nodes s w = None)"

text \<open>A queue operation changes its own queue and the shared links, nothing else.\<close>

definition u_frame :: "'r server_info \<Rightarrow> int \<Rightarrow> 'r server_info \<Rightarrow> bool" where
  "u_frame s d s' \<longleftrightarrow> (\<exists>nx pv h t. s' = s\<lparr>cq_next := nx, cq_prev := pv, m_unconnectQueueHead := h,
     m_unconnectQueueTail := t, m_unconnectCount := m_unconnectCount s + d\<rparr>)"

definition f_frame :: "'r server_info \<Rightarrow> int \<Rightarrow> 'r server_info \<Rightarrow> bool" where
  "f_frame s d s' \<longleftrightarrow> (\<exists>nx pv h t. s' = s\<lparr>cq_next := nx, cq_prev := pv, m_connectQueueHead := h,
     m_connectQueueTail := t, m_freeConnectCount := m_freeConnectCount s + d\<rparr>)"

definition w_frame :: "'r server_info \<Rightarrow> int \<Rightarrow> 'r server_info \<Rightarrow> bool" where
  "w_frame s d s' \<longleftrightarrow> (\<exists>m h t. s' = s\<lparr>w_nodes := m, m_waitingQueueHead := h,
     m_waitingQueueTail := t, m_waitingCount := m_waitingCount s + d\<rparr>)"

lemma u_frameI:
  "s' = s\<lparr>cq_next := cq_next s', cq_prev := cq_prev s', m_unconnectQueueHead := m_unconnectQueueHead s',
     m_unconnectQueueTail := m_unconnectQueueTail s', m_unconnectCount := m_unconnectCount s + d\<rparr> \<Longrightarrow>
   u_frame s d s'"
  unfolding u_frame_def by blast

lemma f_frameI:
  "s' = s\<lparr>cq_next := cq_next s', cq_prev := cq_prev s', m_connectQueueHead := m_connectQueueHead s',
     m_connectQueueTail := m_connectQueueTail s', m_freeConnectCount := m_freeConnectCount s + d\<rparr> \<Longrightarrow>
   f_frame s d s'"
  unfolding f_frame_def by blast

lemma w_frameI:
  "s' = s\<lparr>w_nodes := w_nodes s', m_waitingQueueHead := m_waitingQueueHead s',
     m_waitingQueueTail := m_waitingQueueTail s', m_waitingCount := m_waitingCount s + d\<rparr> \<Longrightarrow>
   w_frame s d s'"
  unfolding w_frame_def by blast

text \<open>Links outside a set of slots are kept.\<close>

definition links_kept :: "nat set \<Rightarrow> 'r server_info \<Rightarrow> 'r server_info \<Rightarrow> bool" where
  "links_kept A s s' \<longleftrightarrow> (\<forall>x. x \<notin> A \<longrightarrow> cq_next s' x = cq_next s x \<and> cq_prev s' x = cq_prev s x)"

lemma links_kept_fq: "links_kept A s s' \<Longrightarrow> u_frame s d s' \<Longrightarrow> fq s fc \<Longrightarrow> set fc \<inter> A = {} \<Longrightarrow> fq s' fc"
  unfolding fq_def by (rule dll_frame [where nx = "cq_next s" and pv = "cq_prev s"])
    (auto simp: links_kept_def u_frame_def)

lemma links_kept_uq: "links_kept A s s' \<Longrightarrow> f_frame s d s' \<Longrightarrow> uq s uc \<Longrightarrow> set uc \<inter> A = {} \<Longrightarrow> uq s' uc"
  unfolding uq_def by (rule dll_frame [where nx = "cq_next s" and pv = "cq_prev s"])
    (auto simp: links_kept_def f_frame_def)

text \<open>Pure versions of the three operations on a store of links.\<close>

lemma pop_links:
  assumes "dll nx pv (Some j) t (j # xs)"
  shows "dll (nx(j := None)) ((case nx j of None \<Rightarrow> pv | Some h \<Rightarrow> pv(h := None))(j := None))
           (nx j) (if Some j = t then None else t) xs"
    and "\<And>x. x \<notin> set (j # xs) \<Longrightarrow>
      ((case nx j of None \<Rightarrow> pv | Some h \<Rightarrow> pv(h := None))(j := None)) x = pv x"
proof -
  note p = dll_pop [OF assms]
  have j: "j \<notin> set xs" using dll_head(3) [OF assms] by simp
  have "dll nx (case nx j of None \<Rightarrow> pv | Some h \<Rightarrow> pv(h := None)) (nx j) (if Some j = t then None else t) xs"
    using p(2-4) by simp
  then show "dll (nx(j := None)) ((case nx j of None \<Rightarrow> pv | Some h \<Rightarrow> pv(h := None))(j := None))
           (nx j) (if Some j = t then None else t) xs"
    by (rule dll_frame) (use j in auto)
  show "((case nx j of None \<Rightarrow> pv | Some h \<Rightarrow> pv(h := None))(j := None)) x = pv x"
    if "x \<notin> set (j # xs)" for x
    using that p(2) by (auto simp: first_def split: option.splits list.splits)
qed

lemma unconnect_get_nil: "uq s [] \<Longrightarrow> unconnect_queue_get s = (None, s)"
  by (simp add: uq_def unconnect_queue_get_def)

lemma unconnect_get_cons:
  assumes "uq s (j # xs)"
  shows "\<exists>s'. unconnect_queue_get s = (Some j, s') \<and> uq s' xs \<and> u_frame s (-1) s' \<and> links_kept (set (j # xs)) s s'"
proof -
  have h: "m_unconnectQueueHead s = Some j" by (rule dll_pop(1) [OF assms [unfolded uq_def]])
  then have d: "dll (cq_next s) (cq_prev s) (Some j) (m_unconnectQueueTail s) (j # xs)"
    using assms by (simp add: uq_def)
  let ?s = "s\<lparr>cq_next := (cq_next s)(j := None),
      cq_prev := (case cq_next s j of None \<Rightarrow> cq_prev s | Some x \<Rightarrow> (cq_prev s)(x := None))(j := None),
      m_unconnectQueueHead := cq_next s j,
      m_unconnectQueueTail := (if Some j = m_unconnectQueueTail s then None else m_unconnectQueueTail s),
      m_unconnectCount := m_unconnectCount s - 1\<rparr>"
  have "unconnect_queue_get s = (Some j, ?s)"
    by (simp add: unconnect_queue_get_def h Let_def split: option.split)
  moreover have "uq ?s xs" using pop_links(1) [OF d] by (simp add: uq_def)
  moreover have "u_frame s (-1) ?s" by (rule u_frameI) simp
  moreover have "links_kept (set (j # xs)) s ?s"
    unfolding links_kept_def
  proof (intro allI impI conjI)
    fix x assume x: "x \<notin> set (j # xs)"
    then show "cq_next ?s x = cq_next s x" by simp
    show "cq_prev ?s x = cq_prev s x" using pop_links(2) [OF d x] by simp
  qed
  ultimately show ?thesis by blast
qed

lemma connect_get_nil: "fq s [] \<Longrightarrow> connect_queue_get s = (None, s)"
  by (simp add: fq_def connect_queue_get_def)

lemma connect_get_cons:
  assumes "fq s (j # xs)"
  shows "\<exists>s'. connect_queue_get s = (Some j, s') \<and> fq s' xs \<and> f_frame s (-1) s' \<and> links_kept (set (j # xs)) s s'"
proof -
  have h: "m_connectQueueHead s = Some j" by (rule dll_pop(1) [OF assms [unfolded fq_def]])
  then have d: "dll (cq_next s) (cq_prev s) (Some j) (m_connectQueueTail s) (j # xs)"
    using assms by (simp add: fq_def)
  let ?s = "s\<lparr>cq_next := (cq_next s)(j := None),
      cq_prev := (case cq_next s j of None \<Rightarrow> cq_prev s | Some x \<Rightarrow> (cq_prev s)(x := None))(j := None),
      m_connectQueueHead := cq_next s j,
      m_connectQueueTail := (if Some j = m_connectQueueTail s then None else m_connectQueueTail s),
      m_freeConnectCount := m_freeConnectCount s - 1\<rparr>"
  have "connect_queue_get s = (Some j, ?s)"
    by (simp add: connect_queue_get_def h Let_def split: option.split)
  moreover have "fq ?s xs" using pop_links(1) [OF d] by (simp add: fq_def)
  moreover have "f_frame s (-1) ?s" by (rule f_frameI) simp
  moreover have "links_kept (set (j # xs)) s ?s"
    unfolding links_kept_def
  proof (intro allI impI conjI)
    fix x assume x: "x \<notin> set (j # xs)"
    then show "cq_next ?s x = cq_next s x" by simp
    show "cq_prev ?s x = cq_prev s x" using pop_links(2) [OF d x] by simp
  qed
  ultimately show ?thesis by blast
qed

lemma push_links:
  assumes "dll nx pv h t xs" "x \<notin> set xs" "t = Some l"
  shows "dll (nx(x := None, l := Some x)) (pv(x := Some l)) h (Some x) (xs @ [x])" "l \<in> set xs"
proof -
  have "xs \<noteq> []" using dll_head_None(2) [OF assms(1)] assms(3) by auto
  then have "h \<noteq> None" using dll_head_None(1) [OF assms(1)] by simp
  then show "dll (nx(x := None, l := Some x)) (pv(x := Some l)) h (Some x) (xs @ [x])"
    using dll_push [OF assms(1,2)] assms(3) by (auto split: option.splits)
  have "l = last xs" using dll_head(2) [OF assms(1)] assms(3) \<open>xs \<noteq> []\<close> by (auto simp: final_def)
  then show "l \<in> set xs" using \<open>xs \<noteq> []\<close> by simp
qed

lemma unconnect_put:
  assumes "uq s xs" "j \<notin> set xs"
  shows "\<exists>s'. unconnect_queue_put j s = Some s' \<and> uq s' (xs @ [j]) \<and> u_frame s 1 s' \<and>
     links_kept (insert j (set xs)) s s'"
proof (cases "xs = []")
  case True
  then have "m_unconnectQueueHead s = None" using assms(1) by (simp add: uq_def)
  then show ?thesis
    using True by (auto simp: unconnect_queue_put_def uq_def dll_def u_frame_def links_kept_def Let_def)
next
  case False
  note h = dll_head_None [OF assms(1) [unfolded uq_def]]
  obtain l where l: "m_unconnectQueueTail s = Some l" using h(2) False by auto
  obtain y where hd: "m_unconnectQueueHead s = Some y" using h(1) False by auto
  let ?s = "s\<lparr>cq_next := (cq_next s)(j := None, l := Some j), cq_prev := (cq_prev s)(j := Some l),
      m_unconnectQueueTail := Some j, m_unconnectCount := m_unconnectCount s + 1\<rparr>"
  note p = push_links [OF assms(1) [unfolded uq_def] assms(2) l]
  have "unconnect_queue_put j s = Some ?s"
    using hd l by (simp add: unconnect_queue_put_def Let_def)
  moreover have "uq ?s (xs @ [j])" using p(1) by (simp add: uq_def)
  moreover have "u_frame s 1 ?s" by (rule u_frameI) simp
  moreover have "links_kept (insert j (set xs)) s ?s" using p(2) by (auto simp: links_kept_def)
  ultimately show ?thesis by blast
qed

lemma connect_put:
  assumes "fq s xs" "j \<notin> set xs"
  shows "\<exists>s'. connect_queue_put j s = Some s' \<and> fq s' (xs @ [j]) \<and> f_frame s 1 s' \<and>
     links_kept (insert j (set xs)) s s'"
proof (cases "xs = []")
  case True
  then have "m_connectQueueHead s = None" using assms(1) by (simp add: fq_def)
  then show ?thesis
    using True by (auto simp: connect_queue_put_def fq_def dll_def f_frame_def links_kept_def Let_def)
next
  case False
  note h = dll_head_None [OF assms(1) [unfolded fq_def]]
  obtain l where l: "m_connectQueueTail s = Some l" using h(2) False by auto
  obtain y where hd: "m_connectQueueHead s = Some y" using h(1) False by auto
  let ?s = "s\<lparr>cq_next := (cq_next s)(j := None, l := Some j), cq_prev := (cq_prev s)(j := Some l),
      m_connectQueueTail := Some j, m_freeConnectCount := m_freeConnectCount s + 1\<rparr>"
  note p = push_links [OF assms(1) [unfolded fq_def] assms(2) l]
  have "connect_queue_put j s = Some ?s"
    using hd l by (simp add: connect_queue_put_def Let_def)
  moreover have "fq ?s (xs @ [j])" using p(1) by (simp add: fq_def)
  moreover have "f_frame s 1 ?s" by (rule f_frameI) simp
  moreover have "links_kept (insert j (set xs)) s ?s" using p(2) by (auto simp: links_kept_def)
  ultimately show ?thesis by blast
qed

lemma connect_rm_queued:
  assumes "fq s (as @ j # bs)"
  shows "fq (connect_queue_rm j s) (as @ bs) \<and> f_frame s (-1) (connect_queue_rm j s) \<and>
     links_kept (set (as @ j # bs)) s (connect_queue_rm j s)"
proof -
  note d = assms [unfolded fq_def]
  note mid = dll_mid [OF d]
  have j: "j \<notin> set (as @ bs)" using dll_head(3) [OF d] by auto
  have ne: "cq_next s j \<noteq> Some j" using mid(2) j by (auto simp: first_def split: list.splits)
  let ?s = "s\<lparr>cq_next := (unlink_nx (cq_next s) (cq_prev s) j)(j := None),
      cq_prev := (unlink_pv (cq_next s) (cq_prev s) j)(j := None),
      m_connectQueueHead := (if m_connectQueueHead s = Some j then cq_next s j else m_connectQueueHead s),
      m_connectQueueTail := (if m_connectQueueTail s = Some j then cq_prev s j else m_connectQueueTail s),
      m_freeConnectCount := m_freeConnectCount s - 1\<rparr>"
  have eq: "connect_queue_rm j s = ?s"
    using ne
    by (cases "cq_next s j"; cases "cq_prev s j"; cases "m_connectQueueHead s = Some j";
        cases "m_connectQueueTail s = Some j")
       (simp_all add: connect_queue_rm_def unlink_nx_def unlink_pv_def Let_def)
  have "dll ((unlink_nx (cq_next s) (cq_prev s) j)(j := None)) ((unlink_pv (cq_next s) (cq_prev s) j)(j := None))
      (if m_connectQueueHead s = Some j then cq_next s j else m_connectQueueHead s)
      (if m_connectQueueTail s = Some j then cq_prev s j else m_connectQueueTail s) (as @ bs)"
    by (rule dll_frame [OF dll_unlink [OF d]]) (use j in auto)
  then have "fq ?s (as @ bs)" by (simp add: fq_def)
  moreover have "f_frame s (-1) ?s" by (rule f_frameI) simp
  moreover have "links_kept (set (as @ j # bs)) s ?s"
    unfolding links_kept_def
  proof (intro allI impI)
    fix x assume x: "x \<notin> set (as @ j # bs)"
    then have "x \<notin> set (as @ bs)" by auto
    from unlink_frame [OF d this] x show "cq_next ?s x = cq_next s x \<and> cq_prev ?s x = cq_prev s x" by auto
  qed
  ultimately show ?thesis using eq by simp
qed

text \<open>Unlinking a slot that is in no queue only counts down.\<close>

lemma connect_rm_unqueued:
  assumes "fq s fc" "j \<notin> set fc" "cq_next s j = None" "cq_prev s j = None"
  shows "connect_queue_rm j s = s\<lparr>m_freeConnectCount := m_freeConnectCount s - 1\<rparr>"
proof -
  have "first fc \<noteq> Some j" using assms(2) by (cases fc) auto
  then have "m_connectQueueHead s \<noteq> Some j" using dll_head(1) [OF assms(1) [unfolded fq_def]] by simp
  moreover have "final fc \<noteq> Some j" using assms(2) by (auto simp: final_def)
  then have "m_connectQueueTail s \<noteq> Some j" using dll_head(2) [OF assms(1) [unfolded fq_def]] by simp
  moreover have "(cq_next s)(j := None) = cq_next s" "(cq_prev s)(j := None) = cq_prev s"
    using assms(3,4) by (auto simp: fun_eq_iff)
  ultimately show ?thesis using assms(3,4) by (simp add: connect_queue_rm_def Let_def)
qed

subsection \<open>The waiting queue\<close>

definition wq_reqs :: "'r server_info \<Rightarrow> nat list \<Rightarrow> 'r list" where
  "wq_reqs s ws = map (\<lambda>w. wq_req (the (w_nodes s w))) ws"

lemma wq_length [simp]: "length (wq_reqs s ws) = length ws"
  by (simp add: wq_reqs_def)

lemma set_wnext_ok:
  "w_nodes s w = Some n \<Longrightarrow> set_wnext v w s = Some (s\<lparr>w_nodes := (w_nodes s)(w \<mapsto> n\<lparr>wq_next := v\<rparr>)\<rparr>)"
  by (simp add: set_wnext_def)

lemma set_wlast_ok:
  "w_nodes s w = Some n \<Longrightarrow> set_wlast v w s = Some (s\<lparr>w_nodes := (w_nodes s)(w \<mapsto> n\<lparr>wq_last := v\<rparr>)\<rparr>)"
  by (simp add: set_wlast_def)

lemma waiting_get_nil: "wq s [] \<Longrightarrow> waiting_queue_get s = Some (None, s)"
  by (simp add: wq_def waiting_queue_get_def)

lemma waiting_get_cons:
  assumes "wq s (w # ws)"
  shows "\<exists>s'. waiting_queue_get s = Some (Some (wq_req (the (w_nodes s w))), s') \<and> wq s' ws \<and>
     w_frame s (-1) s' \<and> wq_reqs s' ws = wq_reqs s ws"
proof -
  have d: "dll (w_nx s) (w_pv s) (m_waitingQueueHead s) (m_waitingQueueTail s) (w # ws)"
    and al: "\<And>x. x \<in> set (w # ws) \<Longrightarrow> w_nodes s x \<noteq> None"
    and fr: "\<And>x. w_fresh s \<le> x \<Longrightarrow> w_nodes s x = None"
    using assms by (auto simp: wq_def)
  note p = dll_pop [OF d]
  have w: "w \<notin> set ws" using dll_head(3) [OF d] by simp
  obtain n where n: "w_nodes s w = Some n" using al [of w] by auto
  show ?thesis
  proof (cases ws)
    case Nil
    then have ht: "m_waitingQueueHead s = Some w" "m_waitingQueueTail s = Some w" using p(1,3) by simp_all
    let ?s = "s\<lparr>m_waitingQueueHead := None, m_waitingQueueTail := None,
        m_waitingCount := m_waitingCount s - 1, w_nodes := (w_nodes s)(w := None)\<rparr>"
    have "waiting_queue_get s = Some (Some (wq_req n), ?s)"
      using ht n by (simp add: waiting_queue_get_def)
    moreover have "wq ?s []" using fr by (simp add: wq_def)
    moreover have "w_frame s (-1) ?s" by (rule w_frameI) simp
    ultimately show ?thesis using Nil n by (auto simp: wq_reqs_def)
  next
    case (Cons h hs)
    obtain m where m: "w_nodes s h = Some m" using al [of h] Cons by auto
    have nx: "wq_next n = Some h" using p(2) n Cons by (simp add: w_nx_def)
    let ?s = "s\<lparr>m_waitingQueueHead := Some h, m_waitingCount := m_waitingCount s - 1,
        w_nodes := ((w_nodes s)(h \<mapsto> m\<lparr>wq_last := None\<rparr>))(w := None)\<rparr>"
    have hw: "h \<noteq> w" using w Cons by auto
    have "waiting_queue_get s = Some (Some (wq_req n), ?s)"
      using p(1,3) Cons n nx m by (simp add: waiting_queue_get_def set_wlast_ok [where n = m])
    moreover have "wq ?s ws"
    proof -
      have "dll (w_nx s) ((w_pv s)(h := None)) (Some h) (m_waitingQueueTail s) ws"
        using p(4) Cons by simp
      then have "dll (w_nx ?s) (w_pv ?s) (Some h) (m_waitingQueueTail s) ws"
        by (rule dll_frame) (use w m in \<open>auto simp: w_nx_def w_pv_def\<close>)
      then show ?thesis using al fr w Cons m by (auto simp: wq_def)
    qed
    moreover have "w_frame s (-1) ?s" by (rule w_frameI) simp
    moreover have "wq_reqs ?s ws = wq_reqs s ws"
      using w m by (auto simp: wq_reqs_def)
    ultimately show ?thesis using n by auto
  qed
qed

lemma waiting_put:
  assumes "wq s ws" "w_nodes s w = Some n" "w \<notin> set ws" "wq_last n = None" "wq_next n = None"
  shows "\<exists>s'. waiting_queue_put w s = Some s' \<and> wq s' (ws @ [w]) \<and> w_frame s 1 s' \<and>
     wq_reqs s' (ws @ [w]) = wq_reqs s ws @ [wq_req n]"
proof -
  have d: "dll (w_nx s) (w_pv s) (m_waitingQueueHead s) (m_waitingQueueTail s) ws"
    and al: "\<And>x. x \<in> set ws \<Longrightarrow> w_nodes s x \<noteq> None"
    and fr: "\<And>x. w_fresh s \<le> x \<Longrightarrow> w_nodes s x = None"
    using assms(1) by (auto simp: wq_def)
  have nn: "n\<lparr>wq_next := None\<rparr> = n" "n\<lparr>wq_next := None, wq_last := None\<rparr> = n"
    using assms(4,5) by simp_all
  have keep: "(w_nodes s)(w \<mapsto> n) = w_nodes s" using assms(2) by auto
  show ?thesis
  proof (cases "ws = []")
    case True
    then have h: "m_waitingQueueHead s = None" using d by simp
    let ?s = "s\<lparr>m_waitingQueueHead := Some w, m_waitingQueueTail := Some w,
        m_waitingCount := m_waitingCount s + 1\<rparr>"
    have "waiting_queue_put w s = Some ?s"
      using h assms(2) nn keep by (simp add: waiting_queue_put_def set_wnext_def set_wlast_def)
    moreover have "wq ?s (ws @ [w])"
      using True assms fr by (auto simp: wq_def dll_def w_nx_def w_pv_def)
    moreover have "w_frame s 1 ?s" by (rule w_frameI) simp
    ultimately show ?thesis using True assms(2) by (auto simp: wq_reqs_def)
  next
    case False
    obtain l where l: "m_waitingQueueTail s = Some l" using dll_head_None(2) [OF d] False by auto
    obtain y where y: "m_waitingQueueHead s = Some y" using dll_head_None(1) [OF d] False by auto
    note p = push_links [OF d assms(3) l]
    obtain m where m: "w_nodes s l = Some m" using al [OF p(2)] by auto
    have lw: "l \<noteq> w" using p(2) assms(3) by auto
    have nl: "n\<lparr>wq_last := Some l, wq_next := None\<rparr> = n\<lparr>wq_last := Some l\<rparr>"
      using assms(5) by (cases n) simp
    let ?s = "s\<lparr>m_waitingQueueTail := Some w, m_waitingCount := m_waitingCount s + 1,
        w_nodes := (w_nodes s)(w \<mapsto> n\<lparr>wq_last := Some l\<rparr>, l \<mapsto> m\<lparr>wq_next := Some w\<rparr>)\<rparr>"
    have "waiting_queue_put w s = Some ?s"
      using l y m lw assms(2) nl by (simp add: waiting_queue_put_def set_wnext_def set_wlast_def)
    moreover have "wq ?s (ws @ [w])"
    proof -
      have "dll (w_nx ?s) (w_pv ?s) (m_waitingQueueHead s) (Some w) (ws @ [w])"
        by (rule dll_frame [OF p(1)]) (use assms(2,5) m lw in \<open>auto simp: w_nx_def w_pv_def\<close>)
      moreover have "w < w_fresh s" "l < w_fresh s" using fr assms(2) m by (metis not_le option.distinct(1))+
      ultimately show ?thesis using al fr by (auto simp: wq_def)
    qed
    moreover have "w_frame s 1 ?s" by (rule w_frameI) simp
    moreover have "wq_reqs ?s (ws @ [w]) = wq_reqs s ws @ [wq_req n]"
      using assms(3) m lw by (auto simp: wq_reqs_def)
    ultimately show ?thesis by blast
  qed
qed

lemma waiting_unlink_ok:
  assumes "wq s (as @ w # bs)"
  shows "\<exists>s'. waiting_unlink w s = Some s' \<and> wq s' (as @ bs) \<and> w_frame s (-1) s' \<and>
     wq_reqs s' (as @ bs) = wq_reqs s (as @ bs)"
proof -
  have d: "dll (w_nx s) (w_pv s) (m_waitingQueueHead s) (m_waitingQueueTail s) (as @ w # bs)"
    and al: "\<And>x. x \<in> set (as @ w # bs) \<Longrightarrow> w_nodes s x \<noteq> None"
    and fr: "\<And>x. w_fresh s \<le> x \<Longrightarrow> w_nodes s x = None"
    using assms by (auto simp: wq_def)
  note mid = dll_mid [OF d]
  have dist: "distinct (as @ w # bs)" by (rule dll_head(3) [OF d])
  obtain n where n: "w_nodes s w = Some n" using al [of w] by auto
  obtain nd where nd: "\<And>x. x \<in> set (as @ w # bs) \<Longrightarrow> w_nodes s x = Some (nd x)"
    by (rule that [of "\<lambda>x. the (w_nodes s x)"]) (use al in auto)
  have nl: "wq_last n = final as" "wq_next n = first bs" using mid(1,2) n by (simp_all add: w_pv_def w_nx_def)
  have la: "l \<in> set as" if "final as = Some l" for l using that by (auto simp: final_def split: if_splits)
  have fb: "x \<in> set bs" if "first bs = Some x" for x using that by (auto simp: first_def split: list.splits)
  define h where "h = (if m_waitingQueueHead s = Some w then wq_next n else m_waitingQueueHead s)"
  define t where "t = (if m_waitingQueueTail s = Some w then wq_last n else m_waitingQueueTail s)"
  define m1 where "m1 = (case final as of None \<Rightarrow> w_nodes s
      | Some l \<Rightarrow> (w_nodes s)(l \<mapsto> (nd l)\<lparr>wq_next := first bs\<rparr>))"
  define m2 where "m2 = (case first bs of None \<Rightarrow> m1
      | Some x \<Rightarrow> m1(x \<mapsto> (nd x)\<lparr>wq_last := final as\<rparr>))"
  let ?s = "s\<lparr>m_waitingQueueHead := h, m_waitingQueueTail := t, w_nodes := m2(w := None),
      m_waitingCount := m_waitingCount s - 1\<rparr>"
  have sep: "l \<noteq> x" if "final as = Some l" "first bs = Some x" for l x
    using la [OF that(1)] fb [OF that(2)] dist by auto
  have "waiting_unlink w s = Some ?s"
    using n nd la fb sep
    by (auto simp: waiting_unlink_def nl set_wnext_def set_wlast_def m1_def m2_def h_def t_def
        split: option.split)
  moreover have nx: "w_nx ?s x = unlink_nx (w_nx s) (w_pv s) w x \<and> w_pv ?s x = unlink_pv (w_nx s) (w_pv s) w x"
    if x: "x \<in> set (as @ bs)" for x
  proof -
    have xw: "x \<noteq> w" "w_nodes s x = Some (nd x)" using x dist nd by auto
    have l: "w_nodes s l = Some (nd l)" if "final as = Some l" for l using la [OF that] nd by simp
    have r: "w_nodes s l = Some (nd l)" if "first bs = Some l" for l using fb [OF that] nd by simp
    have u: "w_nx s w = first bs" "w_pv s w = final as" using n nl by (simp_all add: w_nx_def w_pv_def)
    show ?thesis
    proof (cases "final as")
      case None
      then show ?thesis
        using xw u r by (cases "first bs") (auto simp: w_nx_def w_pv_def m2_def m1_def unlink_nx_def unlink_pv_def)
    next
      case (Some p)
      then show ?thesis
        using xw u r l [OF Some] sep [OF Some]
        by (cases "first bs") (auto simp: w_nx_def w_pv_def m2_def m1_def unlink_nx_def unlink_pv_def)
    qed
  qed
  moreover have "wq ?s (as @ bs)"
  proof -
    have "dll (w_nx ?s) (w_pv ?s) (if m_waitingQueueHead s = Some w then w_nx s w else m_waitingQueueHead s)
        (if m_waitingQueueTail s = Some w then w_pv s w else m_waitingQueueTail s) (as @ bs)"
      by (rule dll_frame [OF dll_unlink [OF d]]) (use nx in blast)
    moreover have "(if m_waitingQueueHead s = Some w then w_nx s w else m_waitingQueueHead s) = h"
      "(if m_waitingQueueTail s = Some w then w_pv s w else m_waitingQueueTail s) = t"
      using n by (simp_all add: h_def t_def w_nx_def w_pv_def)
    ultimately have "dll (w_nx ?s) (w_pv ?s) h t (as @ bs)" by (simp only:)
    moreover have "w_nodes ?s x \<noteq> None" if "x \<in> set (as @ bs)" for x
      using that nd dist by (auto simp: m2_def m1_def split: option.splits)
    moreover have "w_nodes ?s x = None" if "w_fresh s \<le> x" for x
    proof -
      have none: "w_nodes s x = None" by (rule fr [OF that])
      have "x \<notin> set as" "x \<notin> set bs" using nd [of x] none by auto
      then have "final as \<noteq> Some x" "first bs \<noteq> Some x" using la fb by blast+
      then show ?thesis using none by (auto simp: m2_def m1_def split: option.splits)
    qed
    ultimately show ?thesis by (auto simp: wq_def)
  qed
  moreover have "w_frame s (-1) ?s" by (rule w_frameI) simp
  moreover have "wq_reqs ?s (as @ bs) = wq_reqs s (as @ bs)"
    unfolding wq_reqs_def
  proof (rule map_cong [OF refl])
    fix x assume "x \<in> set (as @ bs)"
    then show "wq_req (the (w_nodes ?s x)) = wq_req (the (w_nodes s x))"
      using dist nd by (auto simp: m2_def m1_def split: option.splits)
  qed
  ultimately show ?thesis by blast
qed

lemma add_req_ok:
  assumes "wq s ws"
  shows "\<exists>s'. add_req_into_waitingqueue r s = Some (w_fresh s, s') \<and> wq s' (ws @ [w_fresh s]) \<and>
     w_frame (s\<lparr>w_fresh := Suc (w_fresh s)\<rparr>) 1 s' \<and> wq_reqs s' (ws @ [w_fresh s]) = wq_reqs s ws @ [r]"
proof -
  let ?w = "w_fresh s"
  let ?n = "\<lparr>wq_last = None, wq_next = None, wq_req = r\<rparr>"
  let ?s = "s\<lparr>w_fresh := Suc ?w, w_nodes := (w_nodes s)(?w \<mapsto> ?n)\<rparr>"
  have out: "?w \<notin> set ws" using assms by (auto simp: wq_def)
  have "dll (w_nx ?s) (w_pv ?s) (m_waitingQueueHead s) (m_waitingQueueTail s) ws"
    by (rule dll_frame [where nx = "w_nx s" and pv = "w_pv s"])
       (use assms out in \<open>auto simp: wq_def w_nx_def w_pv_def\<close>)
  then have "wq ?s ws" using assms by (auto simp: wq_def)
  from waiting_put [OF this, of ?w ?n] out obtain s' where
    s': "waiting_queue_put ?w ?s = Some s'" "wq s' (ws @ [?w])" "w_frame ?s 1 s'"
      "wq_reqs s' (ws @ [?w]) = wq_reqs ?s ws @ [r]" by auto
  have "wq_reqs ?s ws = wq_reqs s ws" using out by (auto simp: wq_reqs_def)
  moreover have "w_frame (s\<lparr>w_fresh := Suc ?w\<rparr>) 1 s'"
    using s'(3) by (auto simp: w_frame_def)
  ultimately show ?thesis using s' by (auto simp: add_req_into_waitingqueue_def Let_def)
qed

section \<open>The queues as implementations of the interface\<close>

interpretation ucq: fifo_queue uq "\<lambda>s. Some (unconnect_queue_get s)" unconnect_queue_put
  "\<lambda>j s. \<forall>xs. uq s xs \<longrightarrow> j \<notin> set xs"
proof
  show "uq s [] \<Longrightarrow> Some (unconnect_queue_get s) = Some (None, s)" for s :: "'r server_info"
    by (simp add: unconnect_get_nil)
  show "uq s (j # xs) \<Longrightarrow> \<exists>s'. Some (unconnect_queue_get s) = Some (Some j, s') \<and> uq s' xs"
    for s :: "'r server_info" and j xs using unconnect_get_cons [of s j xs] by auto
  show "uq s xs \<Longrightarrow> \<forall>xs. uq s xs \<longrightarrow> j \<notin> set xs \<Longrightarrow> \<exists>s'. unconnect_queue_put j s = Some s' \<and> uq s' (xs @ [j])"
    for s :: "'r server_info" and j xs using unconnect_put [of s xs j] by auto
qed

interpretation cnq: unlinkable_queue fq "\<lambda>s. Some (connect_queue_get s)" connect_queue_put
  "\<lambda>j s. \<forall>xs. fq s xs \<longrightarrow> j \<notin> set xs" "\<lambda>j s. Some (connect_queue_rm j s)"
proof
  show "fq s [] \<Longrightarrow> Some (connect_queue_get s) = Some (None, s)" for s :: "'r server_info"
    by (simp add: connect_get_nil)
  show "fq s (j # xs) \<Longrightarrow> \<exists>s'. Some (connect_queue_get s) = Some (Some j, s') \<and> fq s' xs"
    for s :: "'r server_info" and j xs using connect_get_cons [of s j xs] by auto
  show "fq s xs \<Longrightarrow> \<forall>xs. fq s xs \<longrightarrow> j \<notin> set xs \<Longrightarrow> \<exists>s'. connect_queue_put j s = Some s' \<and> fq s' (xs @ [j])"
    for s :: "'r server_info" and j xs using connect_put [of s xs j] by auto
  show "fq s (as @ j # bs) \<Longrightarrow> \<exists>s'. Some (connect_queue_rm j s) = Some s' \<and> fq s' (as @ bs)"
    for s :: "'r server_info" and j as bs using connect_rm_queued [of s as j bs] by auto
qed

definition waits :: "'r server_info \<Rightarrow> 'r list \<Rightarrow> bool" where
  "waits s rs \<longleftrightarrow> (\<exists>ws. wq s ws \<and> rs = wq_reqs s ws)"

interpretation wtq: fifo_queue waits waiting_queue_get
  "\<lambda>r s. map_option snd (add_req_into_waitingqueue r s)" "\<lambda>_ _. True"
proof
  show "waits s [] \<Longrightarrow> waiting_queue_get s = Some (None, s)" for s :: "'r server_info"
    by (auto simp: waits_def wq_reqs_def waiting_get_nil)
  show "\<exists>s'. waiting_queue_get s = Some (Some r, s') \<and> waits s' rs" if "waits s (r # rs)"
    for s :: "'r server_info" and r rs
  proof -
    from that obtain w ws where "wq s (w # ws)" "r # rs = wq_reqs s (w # ws)"
      by (auto simp: waits_def wq_reqs_def)
    then show ?thesis using waiting_get_cons [of s w ws] by (force simp: waits_def wq_reqs_def)
  qed
  show "\<exists>s'. map_option snd (add_req_into_waitingqueue r s) = Some s' \<and> waits s' (rs @ [r])" if "waits s rs"
    for s :: "'r server_info" and r rs
    using that add_req_ok [of s _ r] by (fastforce simp: waits_def)
qed

end
