(* ===== verification/PoolSystem.thy ===== *)
theory PoolSystem
  imports PoolServer
begin

text \<open>
  The server of a pool together with what goes on outside it: the slots whose connection is
  being created (\<open>C\<close>), is in the hands of a request (\<open>B\<close>) or is being closed (\<open>K\<close>). The
  handlers of \<open>PoolServer\<close> are its steps; the sets follow from the calls the handlers make.
  The invariant accounts for every slot and counter; \<open>d\<close> is the number of closed connections
  that were taken off \<open>m_freeConnectCount\<close> although they were not in the free queue.
\<close>

section \<open>The invariant\<close>

definition queues :: "'r server_info \<Rightarrow> nat list \<Rightarrow> nat list \<Rightarrow> nat list \<Rightarrow> bool" where
  "queues s uc fc ws \<longleftrightarrow> uq s uc \<and> fq s fc \<and> wq s ws \<and>
     (\<forall>j. j \<notin> set uc \<union> set fc \<longrightarrow> cq_next s j = None \<and> cq_prev s j = None)"

definition slots ::
  "'r server_info \<Rightarrow> nat set \<Rightarrow> nat set \<Rightarrow> nat set \<Rightarrow> nat list \<Rightarrow> nat list \<Rightarrow> nat list \<Rightarrow> nat \<Rightarrow> bool" where
  "slots s C B K uc fc ws d \<longleftrightarrow>
     \<not> srv_freed s \<and> 0 \<le> m_connectPerServer s \<and>
     distinct uc \<and> distinct fc \<and> set uc \<inter> set fc = {} \<and>
     (set uc \<union> set fc) \<inter> (C \<union> B \<union> K) = {} \<and> C \<inter> B = {} \<and> C \<inter> K = {} \<and> B \<inter> K = {} \<and>
     set uc \<union> set fc \<union> C \<union> B \<union> K = {..<nat (m_connectPerServer s)} \<and>
     m_unconnectCount s = int (length uc) \<and> m_freeConnectCount s = int (length fc) - int d \<and>
     m_waitingCount s = int (length ws) \<and>
     m_connectCount s = int (length fc) + int (card B) + int (card K) \<and>
     (\<forall>j. has_handle s j \<longleftrightarrow> j \<in> set fc \<union> C \<union> B \<union> K) \<and>
     (\<forall>j. in_use s j \<longleftrightarrow> j \<in> B) \<and>
     (ws \<noteq> [] \<longrightarrow> fc = [])"

definition inv ::
  "'r server_info \<Rightarrow> nat set \<Rightarrow> nat set \<Rightarrow> nat set \<Rightarrow> nat list \<Rightarrow> nat list \<Rightarrow> nat list \<Rightarrow> nat \<Rightarrow> bool" where
  "inv s C B K uc fc ws d \<longleftrightarrow> queues s uc fc ws \<and> slots s C B K uc fc ws d"

lemma slots_finite: "slots s C B K uc fc ws d \<Longrightarrow> finite C \<and> finite B \<and> finite K"
  unfolding slots_def by (metis finite_Un finite_lessThan)

lemma invD: "inv s C B K uc fc ws d \<Longrightarrow> queues s uc fc ws" "inv s C B K uc fc ws d \<Longrightarrow> slots s C B K uc fc ws d"
  by (simp_all add: inv_def)

text \<open>All slots together are the configured number of connections.\<close>

lemma slots_total:
  assumes "slots s C B K uc fc ws d"
  shows "int (length uc) + int (length fc) + int (card C) + int (card B) + int (card K) = m_connectPerServer s"
proof -
  note f = slots_finite [OF assms]
  have s: "distinct uc" "distinct fc" "set uc \<inter> set fc = {}" "(set uc \<union> set fc) \<inter> (C \<union> B \<union> K) = {}"
    "C \<inter> B = {}" "C \<inter> K = {}" "B \<inter> K = {}"
    "set uc \<union> set fc \<union> C \<union> B \<union> K = {..<nat (m_connectPerServer s)}" "0 \<le> m_connectPerServer s"
    using assms by (simp_all add: slots_def)
  have "card (set uc \<union> set fc \<union> C \<union> B \<union> K) = card (set uc \<union> set fc \<union> C \<union> B) + card K"
    by (rule card_Un_disjoint) (use s f in auto)
  also have "card (set uc \<union> set fc \<union> C \<union> B) = card (set uc \<union> set fc \<union> C) + card B"
    by (rule card_Un_disjoint) (use s f in auto)
  also have "card (set uc \<union> set fc \<union> C) = card (set uc \<union> set fc) + card C"
    by (rule card_Un_disjoint) (use s f in auto)
  also have "card (set uc \<union> set fc) = length uc + length fc"
    using s(1-3) by (simp add: card_Un_disjoint distinct_card)
  finally have "card {..<nat (m_connectPerServer s)} = length uc + length fc + card C + card B + card K"
    using s(8) by simp
  then show ?thesis using s(9) by simp
qed

text \<open>The drain test can only succeed when no slot is outside the two queues and no count drifted.\<close>

lemma drained_quiet:
  assumes "slots s C B K uc fc ws d" "m_freeConnectCount s + m_unconnectCount s = m_connectPerServer s"
  shows "d = 0" "C = {}" "B = {}" "K = {}"
proof -
  have "int (length fc) - int d + int (length uc) = m_connectPerServer s"
    using assms by (simp add: slots_def)
  with slots_total [OF assms(1)] have "int (card C) + int (card B) + int (card K) + int d = 0" by linarith
  then have "d = 0" "card C = 0" "card B = 0" "card K = 0" by linarith+
  then show "d = 0" "C = {}" "B = {}" "K = {}" using slots_finite [OF assms(1)] by simp_all
qed

section \<open>Queue operations under the invariant\<close>

lemma wq_cong:
  assumes "wq s ws" "w_nodes s' = w_nodes s" "m_waitingQueueHead s' = m_waitingQueueHead s"
    "m_waitingQueueTail s' = m_waitingQueueTail s" "w_fresh s' = w_fresh s"
  shows "wq s' ws"
proof -
  have "w_nx s' = w_nx s" "w_pv s' = w_pv s" using assms(2) by (simp_all add: w_nx_def w_pv_def fun_eq_iff)
  then show ?thesis using assms by (simp add: wq_def)
qed

lemma wq_u_frame: "wq s ws \<Longrightarrow> u_frame s d s' \<Longrightarrow> wq s' ws"
  by (erule wq_cong) (auto simp: u_frame_def)

lemma wq_f_frame: "wq s ws \<Longrightarrow> f_frame s d s' \<Longrightarrow> wq s' ws"
  by (erule wq_cong) (auto simp: f_frame_def)

lemma queues_u_get:
  assumes "queues s (j # uc) fc ws" "set (j # uc) \<inter> set fc = {}"
  shows "\<exists>s'. unconnect_queue_get s = (Some j, s') \<and> queues s' uc fc ws \<and> u_frame s (-1) s'"
proof -
  have q: "uq s (j # uc)" "fq s fc" "wq s ws"
    "\<And>x. x \<notin> set (j # uc) \<union> set fc \<Longrightarrow> cq_next s x = None \<and> cq_prev s x = None"
    using assms(1) by (simp_all add: queues_def)
  from unconnect_get_cons [OF q(1)] obtain s' where
    s': "unconnect_queue_get s = (Some j, s')" "uq s' uc" "u_frame s (-1) s'" "links_kept (set (j # uc)) s s'"
    by blast
  have fc: "fq s' fc" by (rule links_kept_fq [OF s'(4,3) q(2)]) (use assms(2) in auto)
  have "wq s' ws" by (rule wq_u_frame [OF q(3) s'(3)])
  moreover have "cq_next s' x = None \<and> cq_prev s' x = None" if "x \<notin> set uc \<union> set fc" for x
  proof (cases "x = j")
    case True
    have "cq_next s' j = None \<and> cq_prev s' j = None"
      using s'(1) by (auto simp: unconnect_queue_get_def Let_def split: option.splits)
    then show ?thesis using True by simp
  next
    case False
    then show ?thesis using that s'(4) q(4) by (auto simp: links_kept_def)
  qed
  ultimately show ?thesis using s' fc by (auto simp: queues_def)
qed

lemma queues_f_get:
  assumes "queues s uc (j # fc) ws" "set uc \<inter> set (j # fc) = {}"
  shows "\<exists>s'. connect_queue_get s = (Some j, s') \<and> queues s' uc fc ws \<and> f_frame s (-1) s'"
proof -
  have q: "uq s uc" "fq s (j # fc)" "wq s ws"
    "\<And>x. x \<notin> set uc \<union> set (j # fc) \<Longrightarrow> cq_next s x = None \<and> cq_prev s x = None"
    using assms(1) by (simp_all add: queues_def)
  from connect_get_cons [OF q(2)] obtain s' where
    s': "connect_queue_get s = (Some j, s')" "fq s' fc" "f_frame s (-1) s'" "links_kept (set (j # fc)) s s'"
    by blast
  have uc: "uq s' uc" by (rule links_kept_uq [OF s'(4,3) q(1)]) (use assms(2) in auto)
  have "wq s' ws" by (rule wq_f_frame [OF q(3) s'(3)])
  moreover have "cq_next s' x = None \<and> cq_prev s' x = None" if "x \<notin> set uc \<union> set fc" for x
  proof (cases "x = j")
    case True
    have "cq_next s' j = None \<and> cq_prev s' j = None"
      using s'(1) by (auto simp: connect_queue_get_def Let_def split: option.splits)
    then show ?thesis using True by simp
  next
    case False
    then show ?thesis using that s'(4) q(4) by (auto simp: links_kept_def)
  qed
  ultimately show ?thesis using s' uc by (auto simp: queues_def)
qed

lemma queues_u_put:
  assumes "queues s uc fc ws" "j \<notin> set uc" "j \<notin> set fc" "set uc \<inter> set fc = {}"
  shows "\<exists>s'. unconnect_queue_put j s = Some s' \<and> queues s' (uc @ [j]) fc ws \<and> u_frame s 1 s'"
proof -
  have q: "uq s uc" "fq s fc" "wq s ws"
    "\<And>x. x \<notin> set uc \<union> set fc \<Longrightarrow> cq_next s x = None \<and> cq_prev s x = None"
    using assms(1) by (simp_all add: queues_def)
  from unconnect_put [OF q(1) assms(2)] obtain s' where
    s': "unconnect_queue_put j s = Some s'" "uq s' (uc @ [j])" "u_frame s 1 s'" "links_kept (insert j (set uc)) s s'"
    by blast
  have fc: "fq s' fc" by (rule links_kept_fq [OF s'(4,3) q(2)]) (use assms in auto)
  have "wq s' ws" by (rule wq_u_frame [OF q(3) s'(3)])
  moreover have "cq_next s' x = None \<and> cq_prev s' x = None" if "x \<notin> set (uc @ [j]) \<union> set fc" for x
    using that s'(4) q(4) by (auto simp: links_kept_def)
  ultimately show ?thesis using s' fc by (auto simp: queues_def)
qed

lemma queues_f_put:
  assumes "queues s uc fc ws" "j \<notin> set uc" "j \<notin> set fc" "set uc \<inter> set fc = {}"
  shows "\<exists>s'. connect_queue_put j s = Some s' \<and> queues s' uc (fc @ [j]) ws \<and> f_frame s 1 s'"
proof -
  have q: "uq s uc" "fq s fc" "wq s ws"
    "\<And>x. x \<notin> set uc \<union> set fc \<Longrightarrow> cq_next s x = None \<and> cq_prev s x = None"
    using assms(1) by (simp_all add: queues_def)
  from connect_put [OF q(2) assms(3)] obtain s' where
    s': "connect_queue_put j s = Some s'" "fq s' (fc @ [j])" "f_frame s 1 s'" "links_kept (insert j (set fc)) s s'"
    by blast
  have uc: "uq s' uc" by (rule links_kept_uq [OF s'(4,3) q(1)]) (use assms in auto)
  have "wq s' ws" by (rule wq_f_frame [OF q(3) s'(3)])
  moreover have "cq_next s' x = None \<and> cq_prev s' x = None" if "x \<notin> set uc \<union> set (fc @ [j])" for x
    using that s'(4) q(4) by (auto simp: links_kept_def)
  ultimately show ?thesis using s' uc by (auto simp: queues_def)
qed

lemma queues_f_rm:
  assumes "queues s uc (as @ j # bs) ws" "set uc \<inter> set (as @ j # bs) = {}"
  shows "queues (connect_queue_rm j s) uc (as @ bs) ws \<and> f_frame s (-1) (connect_queue_rm j s)"
proof -
  let ?s = "connect_queue_rm j s"
  have q: "uq s uc" "fq s (as @ j # bs)" "wq s ws"
    "\<And>x. x \<notin> set uc \<union> set (as @ j # bs) \<Longrightarrow> cq_next s x = None \<and> cq_prev s x = None"
    using assms(1) by (simp_all add: queues_def)
  from connect_rm_queued [OF q(2)] have
    s': "fq ?s (as @ bs)" "f_frame s (-1) ?s" "links_kept (set (as @ j # bs)) s ?s" by blast+
  have uc: "uq ?s uc" by (rule links_kept_uq [OF s'(3,2) q(1)]) (use assms(2) in auto)
  have "wq ?s ws" by (rule wq_f_frame [OF q(3) s'(2)])
  moreover have "cq_next ?s x = None \<and> cq_prev ?s x = None" if "x \<notin> set uc \<union> set (as @ bs)" for x
  proof (cases "x = j")
    case True
    then show ?thesis by (simp add: connect_queue_rm_def Let_def)
  next
    case False
    then show ?thesis using that s'(3) q(4) [of x] by (auto simp: links_kept_def)
  qed
  ultimately show ?thesis using s' uc by (auto simp: queues_def)
qed

lemma queues_w:
  assumes "queues s uc fc ws" "wq s' ws'" "w_frame s d s'"
  shows "queues s' uc fc ws'"
  using assms by (auto simp: queues_def w_frame_def uq_def fq_def)

lemma queues_cong:
  assumes "queues s uc fc ws" "cq_next s' = cq_next s" "cq_prev s' = cq_prev s"
    "m_connectQueueHead s' = m_connectQueueHead s" "m_connectQueueTail s' = m_connectQueueTail s"
    "m_unconnectQueueHead s' = m_unconnectQueueHead s" "m_unconnectQueueTail s' = m_unconnectQueueTail s"
    "w_nodes s' = w_nodes s" "m_waitingQueueHead s' = m_waitingQueueHead s"
    "m_waitingQueueTail s' = m_waitingQueueTail s" "w_fresh s' = w_fresh s"
  shows "queues s' uc fc ws"
proof -
  have "wq s ws" using assms(1) by (simp add: queues_def)
  then have "wq s' ws" by (rule wq_cong) (simp_all add: assms)
  then show ?thesis using assms by (simp add: queues_def uq_def fq_def)
qed

text \<open>The sets and queues a slot is not in.\<close>

lemma slots_apart:
  assumes "slots s C B K uc fc ws d"
  shows "j \<in> C \<Longrightarrow> j \<notin> B \<and> j \<notin> K \<and> j \<notin> set uc \<and> j \<notin> set fc"
    "j \<in> B \<Longrightarrow> j \<notin> C \<and> j \<notin> K \<and> j \<notin> set uc \<and> j \<notin> set fc"
    "j \<in> K \<Longrightarrow> j \<notin> C \<and> j \<notin> B \<and> j \<notin> set uc \<and> j \<notin> set fc"
    "j \<in> set fc \<Longrightarrow> j \<notin> C \<and> j \<notin> B \<and> j \<notin> K \<and> j \<notin> set uc"
    "j \<in> set uc \<Longrightarrow> j \<notin> C \<and> j \<notin> B \<and> j \<notin> K \<and> j \<notin> set fc"
proof -
  have "set uc \<inter> set fc = {}" "(set uc \<union> set fc) \<inter> (C \<union> B \<union> K) = {}" "C \<inter> B = {}" "C \<inter> K = {}" "B \<inter> K = {}"
    using assms by (simp_all add: slots_def)
  then show "j \<in> C \<Longrightarrow> j \<notin> B \<and> j \<notin> K \<and> j \<notin> set uc \<and> j \<notin> set fc"
    "j \<in> B \<Longrightarrow> j \<notin> C \<and> j \<notin> K \<and> j \<notin> set uc \<and> j \<notin> set fc"
    "j \<in> K \<Longrightarrow> j \<notin> C \<and> j \<notin> B \<and> j \<notin> set uc \<and> j \<notin> set fc"
    "j \<in> set fc \<Longrightarrow> j \<notin> C \<and> j \<notin> B \<and> j \<notin> K \<and> j \<notin> set uc"
    "j \<in> set uc \<Longrightarrow> j \<notin> C \<and> j \<notin> B \<and> j \<notin> K \<and> j \<notin> set fc"
    by blast+
qed

section \<open>Moves of a slot\<close>

text \<open>What no move changes.\<close>

definition cfg :: "'r server_info \<Rightarrow> 'r server_info \<Rightarrow> bool" where
  "cfg s s' \<longleftrightarrow> m_connectPerServer s' = m_connectPerServer s \<and> m_serverIdx s' = m_serverIdx s \<and>
     m_lowConnectPerServer s' = m_lowConnectPerServer s \<and> m_destroyFlag s' = m_destroyFlag s \<and>
     monitor_on s' = monitor_on s"

lemma cfg_refl [simp]: "cfg s s"
  by (simp add: cfg_def)

lemma cfg_trans: "cfg a b \<Longrightarrow> cfg b c \<Longrightarrow> cfg a c"
  by (simp add: cfg_def)

lemma create_none: "inv s C B K [] fc ws d \<Longrightarrow> create_new_connect s = (s, [])"
  by (simp add: inv_def queues_def create_new_connect_def unconnect_get_nil)

lemma create_some:
  assumes "inv s C B K (j # uc) fc ws d"
  shows "\<exists>s'. create_new_connect s = (s', [CreateConn j]) \<and> inv s' (insert j C) B K uc fc ws d \<and> cfg s s'"
proof -
  note sl = invD(2) [OF assms]
  have "set (j # uc) \<inter> set fc = {}" using sl by (simp add: slots_def)
  from queues_u_get [OF invD(1) [OF assms] this] obtain s1 where
    s1: "unconnect_queue_get s = (Some j, s1)" "queues s1 uc fc ws" "u_frame s (-1) s1" by blast
  let ?s = "s1\<lparr>has_handle := (has_handle s1)(j := True)\<rparr>"
  have "queues ?s uc fc ws" by (rule queues_cong [OF s1(2)]) simp_all
  moreover have "slots ?s (insert j C) B K uc fc ws d"
    using sl s1(3) unfolding slots_def u_frame_def by (elim exE) auto
  moreover have "cfg s ?s" using s1(3) by (auto simp: cfg_def u_frame_def)
  ultimately show ?thesis using s1(1) by (simp add: create_new_connect_def inv_def)
qed

text \<open>Taking a free connection: it counts as outside until it is handed on.\<close>

lemma take_free:
  assumes "inv s C B K uc (j # fc) ws d"
  shows "\<exists>s'. connect_queue_get s = (Some j, s') \<and> inv s' C B (insert j K) uc fc ws d \<and> cfg s s'"
proof -
  note sl = invD(2) [OF assms]
  have "set uc \<inter> set (j # fc) = {}" using sl by (simp add: slots_def)
  from queues_f_get [OF invD(1) [OF assms] this] obtain s' where
    s': "connect_queue_get s = (Some j, s')" "queues s' uc fc ws" "f_frame s (-1) s'" by blast
  have "card (insert j K) = Suc (card K)" using slots_finite [OF sl] slots_apart(4) [OF sl, of j] by simp
  then have "slots s' C B (insert j K) uc fc ws d"
    using sl s'(3) unfolding slots_def f_frame_def by (elim exE) auto
  moreover have "cfg s s'" using s'(3) by (auto simp: cfg_def f_frame_def)
  ultimately show ?thesis using s' by (simp add: inv_def)
qed

lemma outside_to_use:
  assumes "inv s C B K uc fc ws d" "j \<in> K"
  shows "inv (s\<lparr>in_use := (in_use s)(j := True)\<rparr>) C (insert j B) (K - {j}) uc fc ws d"
proof -
  note sl = invD(2) [OF assms(1)]
  have "card (insert j B) = Suc (card B)" "card K = Suc (card (K - {j}))"
    using slots_finite [OF sl] slots_apart(3) [OF sl assms(2)] assms(2) card_Suc_Diff1 [of K j] by simp_all
  then have "slots (s\<lparr>in_use := (in_use s)(j := True)\<rparr>) C (insert j B) (K - {j}) uc fc ws d"
    using sl assms(2) unfolding slots_def by auto
  moreover have "queues (s\<lparr>in_use := (in_use s)(j := True)\<rparr>) uc fc ws"
    by (rule queues_cong [OF invD(1) [OF assms(1)]]) simp_all
  ultimately show ?thesis by (simp add: inv_def)
qed

lemma use_to_outside:
  assumes "inv s C B K uc fc ws d" "j \<in> B"
  shows "inv (s\<lparr>in_use := (in_use s)(j := False)\<rparr>) C (B - {j}) (insert j K) uc fc ws d"
proof -
  note sl = invD(2) [OF assms(1)]
  have "card B = Suc (card (B - {j}))" "card (insert j K) = Suc (card K)"
    using slots_finite [OF sl] slots_apart(2) [OF sl assms(2)] assms(2) card_Suc_Diff1 [of B j] by simp_all
  then have "slots (s\<lparr>in_use := (in_use s)(j := False)\<rparr>) C (B - {j}) (insert j K) uc fc ws d"
    using sl assms(2) unfolding slots_def by auto
  moreover have "queues (s\<lparr>in_use := (in_use s)(j := False)\<rparr>) uc fc ws"
    by (rule queues_cong [OF invD(1) [OF assms(1)]]) simp_all
  ultimately show ?thesis by (simp add: inv_def)
qed

lemma created_to_outside:
  assumes "inv s C B K uc fc ws d" "j \<in> C"
  shows "inv (s\<lparr>in_use := (in_use s)(j := False), to_be_destroyed := t, m_connectCount := m_connectCount s + 1\<rparr>)
           (C - {j}) B (insert j K) uc fc ws d"
proof -
  note sl = invD(2) [OF assms(1)]
  let ?s = "s\<lparr>in_use := (in_use s)(j := False), to_be_destroyed := t, m_connectCount := m_connectCount s + 1\<rparr>"
  have "card (insert j K) = Suc (card K)" using slots_finite [OF sl] slots_apart(1) [OF sl assms(2)] by simp
  then have "slots ?s (C - {j}) B (insert j K) uc fc ws d"
    using sl assms(2) unfolding slots_def by auto
  moreover have "queues ?s uc fc ws"
    by (rule queues_cong [OF invD(1) [OF assms(1)]]) simp_all
  ultimately show ?thesis by (simp add: inv_def)
qed

lemma created_to_unconnected:
  assumes "inv s C B K uc fc ws d" "j \<in> C"
  shows "\<exists>s'. unconnect_queue_put j (s\<lparr>in_use := (in_use s)(j := False), to_be_destroyed := t\<rparr>) = Some s' \<and>
     inv (s'\<lparr>has_handle := (has_handle s')(j := False)\<rparr>) (C - {j}) B K (uc @ [j]) fc ws d \<and> cfg s s'"
proof -
  note sl = invD(2) [OF assms(1)]
  let ?s = "s\<lparr>in_use := (in_use s)(j := False), to_be_destroyed := t\<rparr>"
  have "queues ?s uc fc ws"
    by (rule queues_cong [OF invD(1) [OF assms(1)]]) simp_all
  moreover have "j \<notin> set uc" "j \<notin> set fc" "set uc \<inter> set fc = {}" using sl assms(2) by (auto simp: slots_def)
  ultimately obtain s' where s': "unconnect_queue_put j ?s = Some s'" "queues s' (uc @ [j]) fc ws" "u_frame ?s 1 s'"
    using queues_u_put by blast
  let ?t = "s'\<lparr>has_handle := (has_handle s')(j := False)\<rparr>"
  have "queues ?t (uc @ [j]) fc ws"
    by (rule queues_cong [OF s'(2)]) simp_all
  moreover have "slots ?t (C - {j}) B K (uc @ [j]) fc ws d"
    using sl s'(3) assms(2) unfolding slots_def u_frame_def by (elim exE) auto
  moreover have "cfg s s'" using s'(3) by (auto simp: cfg_def u_frame_def)
  ultimately show ?thesis using s'(1) by (auto simp: inv_def)
qed

text \<open>Putting a connection into the free queue, when nobody waits.\<close>

lemma outside_to_free:
  assumes "inv s C B K uc fc [] d" "j \<in> K"
  shows "\<exists>s'. connect_queue_put j s = Some s' \<and> inv s' C B (K - {j}) uc (fc @ [j]) [] d \<and> cfg s s'"
proof -
  note sl = invD(2) [OF assms(1)]
  have "j \<notin> set uc" "j \<notin> set fc" "set uc \<inter> set fc = {}" using sl assms(2) by (auto simp: slots_def)
  from queues_f_put [OF invD(1) [OF assms(1)] this] obtain s' where
    s': "connect_queue_put j s = Some s'" "queues s' uc (fc @ [j]) []" "f_frame s 1 s'" by blast
  have "card K = Suc (card (K - {j}))" using slots_finite [OF sl] assms(2) card_Suc_Diff1 [of K j] by auto
  then have "slots s' C B (K - {j}) uc (fc @ [j]) [] d"
    using sl s'(3) assms(2) unfolding slots_def f_frame_def by (elim exE) auto
  moreover have "cfg s s'" using s'(3) by (auto simp: cfg_def f_frame_def)
  ultimately show ?thesis using s' by (simp add: inv_def)
qed

text \<open>A closed connection: one that was outside takes a count off the free queue it was not in.\<close>

lemma closed_outside:
  assumes "inv s C B K uc fc ws d" "j \<in> K"
  shows "\<exists>s'. unconnect_queue_put j ((connect_queue_rm j s)\<lparr>has_handle := (has_handle s)(j := False)\<rparr>) = Some s' \<and>
     inv (s'\<lparr>m_connectCount := m_connectCount s' - 1\<rparr>) C B (K - {j}) (uc @ [j]) fc ws (Suc d) \<and> cfg s s' \<and>
     \<not> in_use s j \<and> has_handle s j"
proof -
  note sl = invD(2) [OF assms(1)] and q = invD(1) [OF assms(1)]
  have j: "j \<notin> set uc" "j \<notin> set fc" "set uc \<inter> set fc = {}" "\<not> in_use s j" "has_handle s j"
    using sl assms(2) by (auto simp: slots_def)
  have "fq s fc" "cq_next s j = None" "cq_prev s j = None" using q j(1,2) by (simp_all add: queues_def)
  from connect_rm_unqueued [OF this(1) j(2) this(2,3)]
  have rm: "connect_queue_rm j s = s\<lparr>m_freeConnectCount := m_freeConnectCount s - 1\<rparr>" .
  let ?s = "s\<lparr>m_freeConnectCount := m_freeConnectCount s - 1, has_handle := (has_handle s)(j := False)\<rparr>"
  have "queues ?s uc fc ws"
    by (rule queues_cong [OF q]) simp_all
  from queues_u_put [OF this j(1-3)] obtain s' where
    s': "unconnect_queue_put j ?s = Some s'" "queues s' (uc @ [j]) fc ws" "u_frame ?s 1 s'" by blast
  let ?t = "s'\<lparr>m_connectCount := m_connectCount s' - 1\<rparr>"
  have "queues ?t (uc @ [j]) fc ws"
    by (rule queues_cong [OF s'(2)]) simp_all
  moreover have "card K = Suc (card (K - {j}))" using slots_finite [OF sl] assms(2) card_Suc_Diff1 [of K j] by auto
  then have "slots ?t C B (K - {j}) (uc @ [j]) fc ws (Suc d)"
    using sl s'(3) assms(2) unfolding slots_def u_frame_def by (elim exE) auto
  moreover have "cfg s s'" using s'(3) by (auto simp: cfg_def u_frame_def)
  ultimately show ?thesis using s'(1) j rm by (auto simp: inv_def)
qed

lemma closed_free:
  assumes "inv s C B K uc (as @ j # bs) ws d"
  shows "\<exists>s'. unconnect_queue_put j ((connect_queue_rm j s)\<lparr>has_handle := (has_handle s)(j := False)\<rparr>) = Some s' \<and>
     inv (s'\<lparr>m_connectCount := m_connectCount s' - 1\<rparr>) C B K (uc @ [j]) (as @ bs) ws d \<and> cfg s s' \<and>
     \<not> in_use s j \<and> has_handle s j"
proof -
  note sl = invD(2) [OF assms] and q = invD(1) [OF assms]
  have "set uc \<inter> set (as @ j # bs) = {}" using sl by (simp add: slots_def)
  from queues_f_rm [OF q this] have
    rm: "queues (connect_queue_rm j s) uc (as @ bs) ws" "f_frame s (-1) (connect_queue_rm j s)" by blast+
  have j: "j \<notin> set uc" "j \<notin> set (as @ bs)" "set uc \<inter> set (as @ bs) = {}" "\<not> in_use s j" "has_handle s j"
    using sl by (auto simp: slots_def)
  let ?r = "connect_queue_rm j s"
  let ?s = "?r\<lparr>has_handle := (has_handle s)(j := False)\<rparr>"
  have "queues ?s uc (as @ bs) ws"
    by (rule queues_cong [OF rm(1)]) simp_all
  from queues_u_put [OF this j(1-3)] obtain s' where
    s': "unconnect_queue_put j ?s = Some s'" "queues s' (uc @ [j]) (as @ bs) ws" "u_frame ?s 1 s'" by blast
  let ?t = "s'\<lparr>m_connectCount := m_connectCount s' - 1\<rparr>"
  have "queues ?t (uc @ [j]) (as @ bs) ws"
    by (rule queues_cong [OF s'(2)]) simp_all
  moreover have "slots ?t C B K (uc @ [j]) (as @ bs) ws d"
    using sl s'(3) rm(2) unfolding slots_def u_frame_def f_frame_def by (elim exE) auto
  moreover have "cfg s s'" using s'(3) rm(2) by (auto simp: cfg_def u_frame_def f_frame_def)
  ultimately show ?thesis using s'(1) j by (auto simp: inv_def)
qed

section \<open>Moves of the waiting queue\<close>

lemma inv_waiting:
  assumes "inv s C B K uc fc ws d" "wq s' ws'" "w_frame s e s'" "int (length ws') = int (length ws) + e"
    "ws' \<noteq> [] \<longrightarrow> fc = []"
  shows "inv s' C B K uc fc ws' d \<and> cfg s s'"
proof -
  have "queues s' uc fc ws'" by (rule queues_w [OF invD(1) [OF assms(1)] assms(2,3)])
  moreover have "slots s' C B K uc fc ws' d"
    using invD(2) [OF assms(1)] assms(3-5) unfolding slots_def w_frame_def by (elim exE) simp
  moreover have "cfg s s'" using assms(3) by (auto simp: cfg_def w_frame_def)
  ultimately show ?thesis by (simp add: inv_def)
qed

lemma inv_empty_wait: "inv s C B K uc fc ws d \<Longrightarrow> ws \<noteq> [] \<Longrightarrow> fc = []"
  by (simp add: inv_def slots_def)

lemma wait_get:
  assumes "inv s C B K uc fc (w # ws) d"
  shows "\<exists>s'. waiting_queue_get s = Some (Some (wq_req (the (w_nodes s w))), s') \<and>
     inv s' C B K uc fc ws d \<and> cfg s s'"
proof -
  have "wq s (w # ws)" using assms by (simp add: inv_def queues_def)
  from waiting_get_cons [OF this] obtain s' where
    s': "waiting_queue_get s = Some (Some (wq_req (the (w_nodes s w))), s')" "wq s' ws" "w_frame s (-1) s'" by blast
  have "fc = []" by (rule inv_empty_wait [OF assms]) simp
  then have "inv s' C B K uc fc ws d \<and> cfg s s'" by (intro inv_waiting [OF assms s'(2,3)]) simp_all
  then show ?thesis using s'(1) by blast
qed

lemma wait_add:
  assumes "inv s C B K uc [] ws d"
  shows "\<exists>s'. add_req_into_waitingqueue r s = Some (w_fresh s, s') \<and>
     inv s' C B K uc [] (ws @ [w_fresh s]) d \<and> cfg s s'"
proof -
  have w: "wq s ws" using assms by (simp add: inv_def queues_def)
  from add_req_ok [OF w, of r] obtain s' where
    s': "add_req_into_waitingqueue r s = Some (w_fresh s, s')" "wq s' (ws @ [w_fresh s])"
      "w_frame (s\<lparr>w_fresh := Suc (w_fresh s)\<rparr>) 1 s'" by blast
  let ?s = "s\<lparr>w_fresh := Suc (w_fresh s)\<rparr>"
  have "w_nx ?s = w_nx s" "w_pv ?s = w_pv s" by (simp_all add: w_nx_def w_pv_def fun_eq_iff)
  then have "wq ?s ws" using w by (simp add: wq_def)
  then have "queues ?s uc [] ws" using assms by (simp add: inv_def queues_def uq_def fq_def)
  moreover have "slots ?s C B K uc [] ws d" using invD(2) [OF assms] by (simp add: slots_def)
  ultimately have "inv ?s C B K uc [] ws d" by (simp add: inv_def)
  from inv_waiting [OF this s'(2,3)] have "inv s' C B K uc [] (ws @ [w_fresh s]) d" "cfg ?s s'" by simp_all
  then show ?thesis using s'(1) by (auto simp: cfg_def)
qed

lemma wait_unlink:
  assumes "inv s C B K uc fc ws d" "w \<in> set ws"
  shows "\<exists>s'. waiting_unlink w s = Some s' \<and> inv s' C B K uc fc (remove1 w ws) d \<and> cfg s s'"
proof -
  from split_list_first [OF assms(2)] obtain as bs where ws: "ws = as @ w # bs" "w \<notin> set as" by blast
  have "wq s (as @ w # bs)" using assms(1) ws(1) by (simp add: inv_def queues_def)
  from waiting_unlink_ok [OF this] obtain s' where
    s': "waiting_unlink w s = Some s'" "wq s' (as @ bs)" "w_frame s (-1) s'" by blast
  have "fc = []" using inv_empty_wait [OF assms(1)] ws(1) by simp
  then have "inv s' C B K uc fc (as @ bs) d \<and> cfg s s'"
    by (intro inv_waiting [OF assms(1) s'(2,3)]) (simp_all add: ws)
  then show ?thesis using s'(1) ws by (simp add: remove1_append)
qed

section \<open>The handlers as steps\<close>

type_synonym env = "nat set \<times> nat set \<times> nat set"

fun note_out :: "'r pool_out \<Rightarrow> env \<Rightarrow> env" where
  "note_out (Acquired j r) (C, B, K) = (C, insert j B, K)"
| "note_out (CreateConn j) (C, B, K) = (insert j C, B, K)"
| "note_out (DestroyConn j) (C, B, K) = (C, B, insert j K)"
| "note_out (AfterConn i e) (C, B, K) = (C, B, K)"
| "note_out (Talk i) (C, B, K) = (C, B, K)"
| "note_out (ServerFreed i) (C, B, K) = (C, B, K)"

definition note_outs :: "'r pool_out list \<Rightarrow> env \<Rightarrow> env" where
  "note_outs os e = fold note_out os e"

lemma note_outs_simps [simp]:
  "note_outs [] e = e" "note_outs (x # os) e = note_outs os (note_out x e)"
  by (simp_all add: note_outs_def)

lemma note_destroys [simp]: "note_outs (map DestroyConn js) (C, B, K) = (C, B, K \<union> set js)"
  by (induction js arbitrary: K) auto

text \<open>Either the invariant holds, or the server is freed with no connection of it left.\<close>

definition sys_ok :: "'r server_info \<Rightarrow> env \<Rightarrow> bool" where
  "sys_ok s e = (case e of (C, B, K) \<Rightarrow>
     if srv_freed s then B = {} \<and> K = {} else (\<exists>uc fc ws d. inv s C B K uc fc ws d))"

lemma inv_not_freed: "inv s C B K uc fc ws d \<Longrightarrow> \<not> srv_freed s"
  by (simp add: inv_def slots_def)

lemma sys_okI: "inv s C B K uc fc ws d \<Longrightarrow> sys_ok s (C, B, K)"
  using inv_not_freed [of s C B K uc fc ws d] by (auto simp: sys_ok_def)

lemma destroy_loop_ok:
  "inv s C B (insert j K) uc fc ws d \<Longrightarrow>
   \<exists>s'. destroy_loop j s = Some (s', map DestroyConn (j # fc)) \<and>
     inv s' C B (insert j K \<union> set fc) uc [] ws d \<and> cfg s s'"
proof (induction fc arbitrary: j s K)
  case Nil
  then have "connect_queue_get s = (None, s)" by (simp add: inv_def queues_def connect_get_nil)
  then show ?case using Nil by (simp add: destroy_loop.simps)
next
  case (Cons i fc)
  from take_free [OF Cons.prems] obtain s1 where
    s1: "connect_queue_get s = (Some i, s1)" "inv s1 C B (insert i (insert j K)) uc fc ws d" "cfg s s1" by blast
  from Cons.IH [OF s1(2)] obtain s2 where
    s2: "destroy_loop i s1 = Some (s2, map DestroyConn (i # fc))"
      "inv s2 C B (insert i (insert j K) \<union> set fc) uc [] ws d" "cfg s1 s2" by blast
  have "insert i (insert j K) \<union> set fc = insert j K \<union> set (i # fc)" by auto
  then show ?case
    using s1(1) s2 cfg_trans [OF s1(3) s2(3)] by (simp add: destroy_loop.simps [of j])
qed

lemma server_destroy_free:
  assumes "inv s C B K uc fc ws d" "fc \<noteq> []"
  shows "\<exists>s'. server_destroy s = Some (s', map DestroyConn fc) \<and>
     inv s' C B (K \<union> set fc) uc [] ws d \<and> cfg s s'"
proof -
  obtain j js where fc: "fc = j # js" using assms(2) by (cases fc) auto
  from take_free [OF assms(1) [unfolded fc]] obtain s1 where
    s1: "connect_queue_get s = (Some j, s1)" "inv s1 C B (insert j K) uc js ws d" "cfg s s1" by blast
  from destroy_loop_ok [OF s1(2)] obtain s2 where
    s2: "destroy_loop j s1 = Some (s2, map DestroyConn (j # js))"
      "inv s2 C B (insert j K \<union> set js) uc [] ws d" "cfg s1 s2" by blast
  have "insert j K \<union> set js = K \<union> set fc" using fc by auto
  then show ?thesis using s1(1) s2 fc cfg_trans [OF s1(3) s2(3)] by (simp add: server_destroy_def)
qed

lemma server_destroy_empty:
  assumes "inv s C B K uc [] ws d"
  shows "server_destroy s = Some (s\<lparr>srv_freed := True\<rparr>, [ServerFreed (m_serverIdx s)])"
  using assms by (simp add: inv_def queues_def connect_get_nil server_destroy_def server_destroyed_def)

lemma server_destroy_drained:
  assumes "inv s C B K uc fc ws d" "m_freeConnectCount s + m_unconnectCount s = m_connectPerServer s"
  shows "\<exists>s' os. server_destroy s = Some (s', os) \<and> sys_ok s' (note_outs os (C, B, K)) \<and>
     (srv_freed s' \<longleftrightarrow> fc = [])"
proof (cases "fc = []")
  case True
  then have e: "server_destroy s = Some (s\<lparr>srv_freed := True\<rparr>, [ServerFreed (m_serverIdx s)])"
    using server_destroy_empty assms(1) by blast
  show ?thesis
    using e True drained_quiet [OF invD(2) [OF assms(1)] assms(2)] by (simp add: sys_ok_def)
next
  case False
  from server_destroy_free [OF assms(1) this] obtain s' where
    s': "server_destroy s = Some (s', map DestroyConn fc)" "inv s' C B (K \<union> set fc) uc [] ws d" by blast
  have "note_outs (map DestroyConn fc :: 'a pool_out list) (C, B, K) = (C, B, K \<union> set fc)" by simp
  then show ?thesis using s'(1) False sys_okI [OF s'(2)] inv_not_freed [OF s'(2)] by simp
qed

lemma put_back_ok:
  assumes "inv s C B K uc fc ws d" "j \<in> K"
  shows "\<exists>s' os. put_back_connect j s = Some (s', os) \<and> sys_ok s' (note_outs os (C, B, K - {j}))"
proof (cases ws)
  case Nil
  have w: "waiting_queue_get s = Some (None, s)"
    using assms(1) Nil by (simp add: inv_def queues_def waiting_get_nil)
  from outside_to_free [OF assms(1) [unfolded Nil] assms(2)] obtain s1 where
    s1: "connect_queue_put j s = Some s1" "inv s1 C B (K - {j}) uc (fc @ [j]) [] d" by blast
  show ?thesis
  proof (cases "drained s1")
    case True
    then have "m_freeConnectCount s1 + m_unconnectCount s1 = m_connectPerServer s1" by (simp add: drained_def)
    from server_destroy_drained [OF s1(2) this] show ?thesis
      using w s1(1) True by (auto simp: put_back_connect_def)
  next
    case False
    then show ?thesis using w s1 sys_okI [OF s1(2)] by (simp add: put_back_connect_def)
  qed
next
  case (Cons w ws')
  from wait_get [OF assms(1) [unfolded Cons]] obtain r s1 where
    s1: "waiting_queue_get s = Some (Some r, s1)" "inv s1 C B K uc fc ws' d" by blast
  from sys_okI [OF outside_to_use [OF s1(2) assms(2)]] show ?thesis
    using s1(1) by (simp add: put_back_connect_def)
qed

lemma created_ok:
  assumes "inv s C B K uc fc ws d" "j \<in> C"
  shows "\<exists>s' os. on_connect_created j status s = Some (s', os) \<and> sys_ok s' (note_outs os (C - {j}, B, K))"
proof -
  note nf = inv_not_freed [OF assms(1)]
  let ?s = "s\<lparr>in_use := (in_use s)(j := False), to_be_destroyed := (to_be_destroyed s)(j := False)\<rparr>"
  show ?thesis
  proof (cases "status = 0")
    case True
    from created_to_outside [OF assms, of "(to_be_destroyed s)(j := False)"]
    have i: "inv (?s\<lparr>m_connectCount := m_connectCount ?s + 1\<rparr>) (C - {j}) B (insert j K) uc fc ws d" by simp
    have "insert j K - {j} = K" using slots_apart(1) [OF invD(2) [OF assms(1)] assms(2)] by auto
    with put_back_ok [OF i, of j] show ?thesis using True nf by (simp add: on_connect_created_def Let_def)
  next
    case False
    from created_to_unconnected [OF assms, of "(to_be_destroyed s)(j := False)"] obtain s1 where
      s1: "unconnect_queue_put j ?s = Some s1"
        "inv (s1\<lparr>has_handle := (has_handle s1)(j := False)\<rparr>) (C - {j}) B K (uc @ [j]) fc ws d" by blast
    show ?thesis
    proof (cases "drained (s1\<lparr>has_handle := (has_handle s1)(j := False)\<rparr>)")
      case d: True
      then have "m_freeConnectCount (s1\<lparr>has_handle := (has_handle s1)(j := False)\<rparr>) +
          m_unconnectCount (s1\<lparr>has_handle := (has_handle s1)(j := False)\<rparr>) =
          m_connectPerServer (s1\<lparr>has_handle := (has_handle s1)(j := False)\<rparr>)" by (simp add: drained_def)
      from server_destroy_drained [OF s1(2) this] show ?thesis
        using False nf s1(1) d by (auto simp: on_connect_created_def Let_def)
    next
      case d: False
      then show ?thesis using False nf s1(1) sys_okI [OF s1(2)] by (simp add: on_connect_created_def Let_def)
    qed
  qed
qed

lemma release_ok:
  assumes "inv s C B K uc fc ws d" "j \<in> B"
  shows "\<exists>s' os. release_connect j err s = Some (s', os) \<and> sys_ok s' (note_outs os (C, B - {j}, K))"
proof -
  note nf = inv_not_freed [OF assms(1)] and i = use_to_outside [OF assms]
  have "insert j K - {j} = K" using slots_apart(2) [OF invD(2) [OF assms(1)] assms(2)] by auto
  then show ?thesis
    using put_back_ok [OF i, of j] sys_okI [OF i] nf by (auto simp: release_connect_def Let_def)
qed

text \<open>The end of \<open>_pool_on_connect_destroyed\<close>.\<close>

lemma destroyed_tail_ok:
  assumes "inv s C B K uc fc ws d"
  shows "sys_ok (fst (if m_destroyFlag s \<and> m_connectCount s = 0 then server_destroyed s else (s, [])))
     (note_outs (snd (if m_destroyFlag s \<and> m_connectCount s = 0 then server_destroyed s else (s, []))) (C, B, K))"
proof (cases "m_destroyFlag s \<and> m_connectCount s = 0")
  case True
  then have "int (length fc) + int (card B) + int (card K) = 0"
    using assms by (simp add: inv_def slots_def)
  then have "card B = 0" "card K = 0" by linarith+
  then have "B = {}" "K = {}" using slots_finite [OF invD(2) [OF assms]] by simp_all
  then show ?thesis using True by (simp add: server_destroyed_def sys_ok_def)
next
  case False
  then show ?thesis using sys_okI [OF assms] by (simp only: if_False fst_conv snd_conv note_outs_simps)
qed

lemma destroyed_outside_ok:
  assumes "inv s C B K uc fc ws d" "j \<in> K"
  shows "\<exists>s' os. on_connect_destroyed j s = Some (s', os) \<and> sys_ok s' (note_outs os (C, B, K - {j}))"
proof -
  from closed_outside [OF assms] obtain s1 where
    s1: "unconnect_queue_put j ((connect_queue_rm j s)\<lparr>has_handle := (has_handle s)(j := False)\<rparr>) = Some s1"
      "inv (s1\<lparr>m_connectCount := m_connectCount s1 - 1\<rparr>) C B (K - {j}) (uc @ [j]) fc ws (Suc d)"
      "\<not> in_use s j" "has_handle s j" by blast
  have "has_handle (connect_queue_rm j s) = has_handle s"
    by (simp add: connect_queue_rm_def Let_def split: option.split)
  then show ?thesis
    using s1(1,3,4) inv_not_freed [OF assms(1)] destroyed_tail_ok [OF s1(2)]
    by (auto simp: on_connect_destroyed_def Let_def split: prod.split)
qed

lemma destroyed_open_ok:
  assumes "inv s C B K uc fc ws d" "j \<in> set fc \<or> (j \<in> B \<and> \<not> to_be_destroyed s j)"
  shows "\<exists>s' os. on_connect_destroyed j s = Some (s', os) \<and> sys_ok s' (note_outs os (C, B, K))"
proof (cases "j \<in> B")
  case True
  then have "in_use s j" "\<not> to_be_destroyed s j"
    using assms slots_apart(2) [OF invD(2) [OF assms(1)] True] by (auto simp: inv_def slots_def)
  moreover have "inv (s\<lparr>to_be_destroyed := (to_be_destroyed s)(j := True)\<rparr>) C B K uc fc ws d"
    unfolding inv_def
  proof
    show "queues (s\<lparr>to_be_destroyed := (to_be_destroyed s)(j := True)\<rparr>) uc fc ws"
      by (rule queues_cong [OF invD(1) [OF assms(1)]]) simp_all
    show "slots (s\<lparr>to_be_destroyed := (to_be_destroyed s)(j := True)\<rparr>) C B K uc fc ws d"
      using invD(2) [OF assms(1)] by (simp add: slots_def)
  qed
  ultimately show ?thesis
    using sys_okI inv_not_freed [OF assms(1)] by (auto simp: on_connect_destroyed_def)
next
  case False
  then have "j \<in> set fc" using assms(2) by blast
  then obtain as bs where fc: "fc = as @ j # bs" by (rule split_at_mem)
  from closed_free [OF assms(1) [unfolded fc]] obtain s1 where
    s1: "unconnect_queue_put j ((connect_queue_rm j s)\<lparr>has_handle := (has_handle s)(j := False)\<rparr>) = Some s1"
      "inv (s1\<lparr>m_connectCount := m_connectCount s1 - 1\<rparr>) C B K (uc @ [j]) (as @ bs) ws d"
      "\<not> in_use s j" "has_handle s j" by blast
  have "has_handle (connect_queue_rm j s) = has_handle s"
    by (simp add: connect_queue_rm_def Let_def split: option.split)
  then show ?thesis
    using s1(1,3,4) inv_not_freed [OF assms(1)] destroyed_tail_ok [OF s1(2)]
    by (auto simp: on_connect_destroyed_def Let_def split: prod.split)
qed

lemma fq_head: "inv s C B K uc fc ws d \<Longrightarrow> m_connectQueueHead s = None \<longleftrightarrow> fc = []"
  using dll_head_None(1) by (fastforce simp: inv_def queues_def fq_def)

lemma fetch_ok:
  assumes "inv s C B K uc fc ws d"
  shows "\<exists>w s' os. server_fetch r s = Some (w, s', os) \<and> sys_ok s' (note_outs os (C, B, K))"
proof (cases fc)
  case (Cons j js)
  from take_free [OF assms [unfolded Cons]] obtain s1 where
    s1: "connect_queue_get s = (Some j, s1)" "inv s1 C B (insert j K) uc js ws d" by blast
  have "insert j K - {j} = K" using slots_apart(4) [OF invD(2) [OF assms], of j] Cons by auto
  then have "inv (s1\<lparr>in_use := (in_use s1)(j := True)\<rparr>) C (insert j B) K uc js ws d"
    using outside_to_use [OF s1(2), of j] by simp
  from sys_okI [OF this] show ?thesis
    using fq_head [OF assms] Cons s1(1) inv_not_freed [OF assms]
    by (simp add: server_fetch_def fetch_from_connectqueue_def)
next
  case Nil
  obtain s1 os C' where c: "(if m_connectCount s < m_connectPerServer s then create_new_connect s else (s, [])) = (s1, os)"
    "note_outs os (C, B, K) = (C', B, K)" "\<exists>uc'. inv s1 C' B K uc' [] ws d"
  proof (cases "m_connectCount s < m_connectPerServer s \<and> uc \<noteq> []")
    case True
    then obtain j us where uc: "uc = j # us" by (cases uc) auto
    from create_some [OF assms [unfolded uc Nil]] obtain s1 where
      "create_new_connect s = (s1, [CreateConn j])" "inv s1 (insert j C) B K us [] ws d" by blast
    then show ?thesis using that True by auto
  next
    case False
    then have "(if m_connectCount s < m_connectPerServer s then create_new_connect s else (s, [])) = (s, [])"
      using create_none assms by auto
    then show ?thesis using that assms Nil by auto
  qed
  from c(3) obtain uc' where i: "inv s1 C' B K uc' [] ws d" by blast
  from wait_add [OF i, of r] obtain s2 where
    s2: "add_req_into_waitingqueue r s1 = Some (w_fresh s1, s2)" "inv s2 C' B K uc' [] (ws @ [w_fresh s1]) d" by blast
  have "server_fetch r s = Some (Some (w_fresh s1), s2, os)"
    using fq_head [OF assms] Nil inv_not_freed [OF assms] c(1) s2(1) by (simp add: server_fetch_def)
  then show ?thesis using sys_okI [OF s2(2)] c(2) by auto
qed

lemma monitor_ok:
  assumes "inv s C B K uc fc ws d"
  shows "\<exists>s' os. server_connect_monitor s = Some (s', os) \<and> sys_ok s' (note_outs os (C, B, K))"
proof (cases "m_connectCount s < m_lowConnectPerServer s \<and> uc \<noteq> []")
  case True
  then obtain j us where uc: "uc = j # us" by (cases uc) auto
  from create_some [OF assms [unfolded uc]] obtain s1 where
    "create_new_connect s = (s1, [CreateConn j])" "inv s1 (insert j C) B K us fc ws d" by blast
  then show ?thesis using True inv_not_freed [OF assms] sys_okI by (auto simp: server_connect_monitor_def)
next
  case False
  then have "server_connect_monitor s = Some (s, [])"
    using create_none assms inv_not_freed [OF assms] by (auto simp: server_connect_monitor_def)
  then show ?thesis using sys_okI [OF assms] by simp
qed

lemma inv_flags:
  assumes "inv s C B K uc fc ws d"
  shows "inv (s\<lparr>monitor_on := m, m_destroyFlag := f\<rparr>) C B K uc fc ws d"
  unfolding inv_def
proof
  show "queues (s\<lparr>monitor_on := m, m_destroyFlag := f\<rparr>) uc fc ws"
    by (rule queues_cong [OF invD(1) [OF assms]]) simp_all
  show "slots (s\<lparr>monitor_on := m, m_destroyFlag := f\<rparr>) C B K uc fc ws d"
    using invD(2) [OF assms] by (simp add: slots_def)
qed

lemma server_pool_destroy_ok:
  assumes "inv s C B K uc fc ws d"
  shows "\<exists>s' os. server_pool_destroy s = Some (s', os) \<and> sys_ok s' (note_outs os (C, B, K))"
proof -
  let ?s = "s\<lparr>monitor_on := False, m_destroyFlag := True\<rparr>"
  note i = inv_flags [OF assms, where m = False and f = True]
  show ?thesis
  proof (cases "m_connectCount s = m_freeConnectCount s \<and>
      m_freeConnectCount s + m_unconnectCount s = m_connectPerServer s \<and> m_waitingCount s = 0")
    case True
    then have "m_freeConnectCount ?s + m_unconnectCount ?s = m_connectPerServer ?s" by simp
    from server_destroy_drained [OF i this] show ?thesis
      using True inv_not_freed [OF assms] by (auto simp: server_pool_destroy_def Let_def)
  next
    case False
    then have "server_pool_destroy s = Some (?s, [])"
      using inv_not_freed [OF assms] by (auto simp: server_pool_destroy_def Let_def)
    then show ?thesis using sys_okI [OF i] by simp
  qed
qed

text \<open>
  Taking a waiting request back: fine unless it was the last one of a server that is being
  destroyed and has no connection at all; then the server is freed and used once more.
\<close>

lemma timeout_ok:
  assumes "inv s C B K uc fc ws d" "w \<in> set ws"
  shows "(\<exists>s' os. waiting_queue_rm (Some w) s = Some (s', os) \<and> sys_ok s' (note_outs os (C, B, K))) \<or>
     (waiting_queue_rm (Some w) s = None \<and> m_destroyFlag s \<and> ws = [w] \<and>
      m_freeConnectCount s + m_unconnectCount s = m_connectPerServer s)"
proof -
  from wait_unlink [OF assms] obtain s1 where
    s1: "waiting_unlink w s = Some s1" "inv s1 C B K uc fc (remove1 w ws) d" "cfg s s1" by blast
  note nf = inv_not_freed [OF assms(1)]
  show ?thesis
  proof (cases "m_waitingCount s1 = 0 \<and> drained s1")
    case True
    then have dr: "m_freeConnectCount s1 + m_unconnectCount s1 = m_connectPerServer s1" "m_destroyFlag s1"
      by (simp_all add: drained_def)
    have "ws \<noteq> []" using assms(2) by auto
    then have fc: "fc = []" using inv_empty_wait [OF assms(1)] by blast
    from server_destroy_empty [OF s1(2) [unfolded fc]] have
      sd: "server_destroy s1 = Some (s1\<lparr>srv_freed := True\<rparr>, [ServerFreed (m_serverIdx s1)])" .
    have "length (remove1 w ws) = 0" using True s1(2) by (simp add: inv_def slots_def)
    then have "ws = [w]" using assms(2) by (cases ws) (auto split: if_splits)
    moreover have "m_freeConnectCount s + m_unconnectCount s = m_connectPerServer s"
      using dr(1) s1(2,3) assms(1) by (simp add: inv_def slots_def cfg_def)
    moreover have "m_destroyFlag s" using dr(2) s1(3) by (simp add: cfg_def)
    ultimately show ?thesis using nf s1(1) True sd by (simp add: waiting_queue_rm_def)
  next
    case False
    then have "(if m_waitingCount s1 = 0 \<and> drained s1 then server_destroy s1 else Some (s1, [])) = Some (s1, [])"
      by (simp only: if_False)
    then have "waiting_queue_rm (Some w) s = Some (s1, [])"
      using nf s1(1) inv_not_freed [OF s1(2)] by (simp add: waiting_queue_rm_def del: if_split)
    then show ?thesis using sys_okI [OF s1(2)] by simp
  qed
qed

lemma put_slots_ok:
  "queues s uc [] [] \<Longrightarrow> distinct (uc @ js) \<Longrightarrow>
   \<exists>s'. put_slots js s = Some s' \<and> queues s' (uc @ js) [] [] \<and> u_frame s (int (length js)) s'"
proof (induction js arbitrary: s uc)
  case Nil
  then show ?case by (auto intro: u_frameI)
next
  case (Cons j js)
  from queues_u_put [OF Cons.prems(1), of j] Cons.prems(2) obtain s1 where
    s1: "unconnect_queue_put j s = Some s1" "queues s1 (uc @ [j]) [] []" "u_frame s 1 s1" by auto
  from Cons.IH [OF s1(2)] Cons.prems(2) obtain s2 where
    s2: "put_slots js s1 = Some s2" "queues s2 (uc @ j # js) [] []" "u_frame s1 (int (length js)) s2" by auto
  have "u_frame s (int (length (j # js))) s2"
    using s1(3) s2(3) by (intro u_frameI) (auto simp: u_frame_def)
  then show ?case using s1(1) s2(1,2) by simp
qed

lemma server_build_ok:
  assumes "0 \<le> per"
  shows "\<exists>s. server_build idx per low = Some s \<and> inv s {} {} {} [0..<nat per] [] [] 0 \<and>
     m_connectPerServer s = per \<and> \<not> m_destroyFlag s"
proof -
  let ?z = "zero_server idx per low :: 'a server_info"
  have "queues ?z [] [] []"
    by (simp add: queues_def uq_def fq_def wq_def zero_server_def)
  from put_slots_ok [OF this, of "[0..<nat per]"] obtain s where
    s: "put_slots [0..<nat per] ?z = Some s" "queues s [0..<nat per] [] []"
      "u_frame ?z (int (length [0..<nat per])) s" by auto
  have "slots s {} {} {} [0..<nat per] [] [] 0"
    using s(3) assms unfolding slots_def u_frame_def by (elim exE) (simp add: zero_server_def atLeast0LessThan)
  moreover have "m_connectPerServer s = per" "\<not> m_destroyFlag s"
    using s(3) by (auto simp: u_frame_def zero_server_def)
  ultimately show ?thesis using s by (simp add: server_build_def inv_def)
qed

section \<open>Reachable states\<close>

inductive pool_reach :: "'r server_info \<Rightarrow> env \<Rightarrow> bool" where
  reach_build: "0 \<le> per \<Longrightarrow> server_build idx per low = Some s \<Longrightarrow> pool_reach s ({}, {}, {})"
| reach_fetch: "pool_reach s e \<Longrightarrow> server_fetch r s = Some (w, s', os) \<Longrightarrow> pool_reach s' (note_outs os e)"
| reach_created: "pool_reach s (C, B, K) \<Longrightarrow> j \<in> C \<Longrightarrow> on_connect_created j status s = Some (s', os) \<Longrightarrow>
    pool_reach s' (note_outs os (C - {j}, B, K))"
| reach_release: "pool_reach s (C, B, K) \<Longrightarrow> j \<in> B \<Longrightarrow> release_connect j err s = Some (s', os) \<Longrightarrow>
    pool_reach s' (note_outs os (C, B - {j}, K))"
| reach_closed: "pool_reach s (C, B, K) \<Longrightarrow> j \<in> K \<Longrightarrow> on_connect_destroyed j s = Some (s', os) \<Longrightarrow>
    pool_reach s' (note_outs os (C, B, K - {j}))"
| reach_lost: "pool_reach s (C, B, K) \<Longrightarrow> has_handle s j \<Longrightarrow> j \<notin> C \<union> K \<Longrightarrow>
    (in_use s j \<longrightarrow> \<not> to_be_destroyed s j) \<Longrightarrow> on_connect_destroyed j s = Some (s', os) \<Longrightarrow>
    pool_reach s' (note_outs os (C, B, K))"
| reach_timeout: "pool_reach s e \<Longrightarrow> wq s ws \<Longrightarrow> w \<in> set ws \<Longrightarrow> waiting_queue_rm (Some w) s = Some (s', os) \<Longrightarrow>
    pool_reach s' (note_outs os e)"
| reach_monitor: "pool_reach s e \<Longrightarrow> server_connect_monitor s = Some (s', os) \<Longrightarrow> pool_reach s' (note_outs os e)"
| reach_destroy: "pool_reach s e \<Longrightarrow> server_pool_destroy s = Some (s', os) \<Longrightarrow> pool_reach s' (note_outs os e)"

text \<open>A well-formed queue holds one list only.\<close>

lemma lseg_unique: "lseg nx pv p xs None \<Longrightarrow> lseg nx pv p ys None \<Longrightarrow> first xs = first ys \<Longrightarrow> xs = ys"
proof (induction xs arbitrary: ys p)
  case Nil
  then show ?case by (cases ys) auto
next
  case (Cons x xs)
  then obtain zs where ys: "ys = x # zs" by (cases ys) auto
  then have "first xs = first zs"
    using Cons.prems(1,2) by (auto simp: first_def split: list.splits)
  then show ?case using Cons.IH [of "Some x" zs] Cons.prems ys by auto
qed

lemma wq_unique: "wq s ws \<Longrightarrow> wq s vs \<Longrightarrow> ws = vs"
  unfolding wq_def dll_def by (metis lseg_unique)

text \<open>A freed server is never used with success again.\<close>

lemma freed_stuck:
  assumes "srv_freed s"
  shows "server_fetch r s = None" "on_connect_created j st s = None" "release_connect j err s = None"
    "on_connect_destroyed j s = None" "waiting_queue_rm (Some w) s = None" "server_connect_monitor s = None"
    "server_pool_destroy s = None"
  using assms
  by (simp_all add: server_fetch_def on_connect_created_def release_connect_def on_connect_destroyed_def
      waiting_queue_rm_def server_connect_monitor_def server_pool_destroy_def)

lemma pool_reach_ok: "pool_reach s e \<Longrightarrow> sys_ok s e"
proof (induction rule: pool_reach.induct)
  case (reach_build per idx low s)
  from server_build_ok [OF reach_build(1), of idx low, where 'a = 'a] reach_build(2)
  have "inv s {} {} {} [0..<nat per] [] [] 0" by auto
  then show ?case by (rule sys_okI)
next
  case (reach_fetch s e r w s' os)
  obtain C B K where e: "e = (C, B, K)" by (cases e)
  have "\<not> srv_freed s" using freed_stuck(1) [of s r] reach_fetch.hyps by auto
  then obtain uc fc ws d where "inv s C B K uc fc ws d" using reach_fetch.IH e by (auto simp: sys_ok_def)
  from fetch_ok [OF this, of r] show ?case using reach_fetch.hyps e by auto
next
  case (reach_created s C B K j status s' os)
  have "\<not> srv_freed s" using freed_stuck(2) [of s j status] reach_created.hyps by auto
  then obtain uc fc ws d where "inv s C B K uc fc ws d" using reach_created.IH by (auto simp: sys_ok_def)
  from created_ok [OF this reach_created.hyps(2), of status] show ?case using reach_created.hyps by auto
next
  case (reach_release s C B K j err s' os)
  have "\<not> srv_freed s" using freed_stuck(3) [of s j err] reach_release.hyps by auto
  then obtain uc fc ws d where "inv s C B K uc fc ws d" using reach_release.IH by (auto simp: sys_ok_def)
  from release_ok [OF this reach_release.hyps(2), of err] show ?case using reach_release.hyps by auto
next
  case (reach_closed s C B K j s' os)
  have "\<not> srv_freed s" using freed_stuck(4) [of s j] reach_closed.hyps by auto
  then obtain uc fc ws d where "inv s C B K uc fc ws d" using reach_closed.IH by (auto simp: sys_ok_def)
  from destroyed_outside_ok [OF this reach_closed.hyps(2)] show ?case using reach_closed.hyps by auto
next
  case (reach_lost s C B K j s' os)
  have "\<not> srv_freed s" using freed_stuck(4) [of s j] reach_lost.hyps by auto
  then obtain uc fc ws d where i: "inv s C B K uc fc ws d" using reach_lost.IH by (auto simp: sys_ok_def)
  then have "j \<in> set fc \<or> (j \<in> B \<and> \<not> to_be_destroyed s j)"
    using reach_lost.hyps(2-4) by (auto simp: inv_def slots_def)
  from destroyed_open_ok [OF i this] show ?case using reach_lost.hyps by auto
next
  case (reach_timeout s e ws w s' os)
  obtain C B K where e: "e = (C, B, K)" by (cases e)
  have "\<not> srv_freed s" using freed_stuck(5) [of s w] reach_timeout.hyps by auto
  then obtain uc fc vs d where i: "inv s C B K uc fc vs d" using reach_timeout.IH e by (auto simp: sys_ok_def)
  then have "vs = ws" using wq_unique reach_timeout.hyps(2) by (auto simp: inv_def queues_def)
  from timeout_ok [OF i, of w] show ?case using reach_timeout.hyps e \<open>vs = ws\<close> by auto
next
  case (reach_monitor s e s' os)
  obtain C B K where e: "e = (C, B, K)" by (cases e)
  have "\<not> srv_freed s" using freed_stuck(6) [of s] reach_monitor.hyps by auto
  then obtain uc fc ws d where "inv s C B K uc fc ws d" using reach_monitor.IH e by (auto simp: sys_ok_def)
  from monitor_ok [OF this] show ?case using reach_monitor.hyps e by auto
next
  case (reach_destroy s e s' os)
  obtain C B K where e: "e = (C, B, K)" by (cases e)
  have "\<not> srv_freed s" using freed_stuck(7) [of s] reach_destroy.hyps by auto
  then obtain uc fc ws d where "inv s C B K uc fc ws d" using reach_destroy.IH e by (auto simp: sys_ok_def)
  from server_pool_destroy_ok [OF this] show ?case using reach_destroy.hyps e by auto
qed

section \<open>Runs\<close>

text \<open>Events as a sequence, for concrete runs; an event that cannot happen stops the run.\<close>

datatype 'r pool_event =
  Fetch 'r | Created nat int | Release nat bool | Closed nat | Lost nat | Monitor | Destroy

definition after :: "('r server_info \<times> 'r pool_out list) option \<Rightarrow> env \<Rightarrow> ('r server_info \<times> env) option" where
  "after res e = map_option (\<lambda>(s, os). (s, note_outs os e)) res"

fun run_event :: "'r pool_event \<Rightarrow> 'r server_info \<times> env \<Rightarrow> ('r server_info \<times> env) option" where
  "run_event (Fetch r) (s, C, B, K) = after (map_option snd (server_fetch r s)) (C, B, K)"
| "run_event (Created j st) (s, C, B, K) =
     (if j \<in> C then after (on_connect_created j st s) (C - {j}, B, K) else None)"
| "run_event (Release j err) (s, C, B, K) =
     (if j \<in> B then after (release_connect j err s) (C, B - {j}, K) else None)"
| "run_event (Closed j) (s, C, B, K) =
     (if j \<in> K then after (on_connect_destroyed j s) (C, B, K - {j}) else None)"
| "run_event (Lost j) (s, C, B, K) =
     (if has_handle s j \<and> j \<notin> C \<union> K \<and> (in_use s j \<longrightarrow> \<not> to_be_destroyed s j)
      then after (on_connect_destroyed j s) (C, B, K) else None)"
| "run_event Monitor (s, C, B, K) = after (server_connect_monitor s) (C, B, K)"
| "run_event Destroy (s, C, B, K) = after (server_pool_destroy s) (C, B, K)"

fun run_events :: "'r pool_event list \<Rightarrow> 'r server_info \<times> env \<Rightarrow> ('r server_info \<times> env) option" where
  "run_events [] x = Some x"
| "run_events (ev # evs) x = Option.bind (run_event ev x) (run_events evs)"

definition run_pool :: "int \<Rightarrow> int \<Rightarrow> 'r pool_event list \<Rightarrow> ('r server_info \<times> env) option" where
  "run_pool per low evs = Option.bind (server_build 0 per low) (\<lambda>s. run_events evs (s, {}, {}, {}))"

lemma run_event_reach:
  assumes "run_event ev (s, e) = Some (s', e')" "pool_reach s e"
  shows "pool_reach s' e'"
proof -
  obtain C B K where e: "e = (C, B, K)" by (cases e)
  show ?thesis
    using assms unfolding e
    by (cases ev) (auto simp: after_def split: if_splits intro: pool_reach.intros)
qed

lemma run_events_reach:
  "run_events evs (s, e) = Some (s', e') \<Longrightarrow> pool_reach s e \<Longrightarrow> pool_reach s' e'"
proof (induction evs arbitrary: s e)
  case (Cons ev evs)
  then obtain s1 e1 where "run_event ev (s, e) = Some (s1, e1)" "run_events evs (s1, e1) = Some (s', e')"
    by (auto simp: bind_eq_Some_conv)
  then show ?case using Cons run_event_reach by blast
qed simp

lemma run_pool_reach:
  assumes "run_pool per low evs = Some (s, e)" "0 \<le> per"
  shows "pool_reach s e"
proof -
  from assms(1) obtain s0 where "server_build 0 per low = Some s0" "run_events evs (s0, {}, {}, {}) = Some (s, e)"
    by (auto simp: run_pool_def bind_eq_Some_conv)
  then show ?thesis using run_events_reach reach_build [OF assms(2)] by blast
qed

declare destroy_loop.simps [code]

lemma busy_run:
  "map_option (\<lambda>(s, e). (e, srv_freed s, m_connectCount s, m_unconnectCount s, m_freeConnectCount s,
       m_waitingCount s, map (to_be_destroyed s) [0]))
     (run_pool 2 1 [Fetch (7 :: nat), Fetch 8, Fetch 9, Created 0 0]) =
   Some (({1}, {0}, {}), False, 1, 0, 0, 2, [False])"
  by code_simp

lemma uaf_run:
  "map_option (\<lambda>(s, e). (e, srv_freed s))
     (run_pool 2 1 [Fetch (7 :: nat), Fetch 8, Created 0 0, Destroy, Release 0 True, Closed 0]) =
   Some (({1}, {}, {}), True)"
  by code_simp

text \<open>A state with two waiting requests, one busy connection and one in creation.\<close>

lemma busy_state:
  obtains s :: "nat server_info" where "pool_reach s ({1}, {0}, {})" "\<not> srv_freed s" "m_waitingCount s = 2"
    "\<not> to_be_destroyed s 0"
proof -
  from busy_run obtain s where
    s: "run_pool 2 1 [Fetch (7 :: nat), Fetch 8, Fetch 9, Created 0 0] = Some (s, {1}, {0}, {})"
      "\<not> srv_freed s" "m_waitingCount s = 2" "\<not> to_be_destroyed s 0" by auto
  have "pool_reach s ({1}, {0}, {})" by (rule run_pool_reach [OF s(1)]) simp
  then show ?thesis using that s by blast
qed

text \<open>The list a reachable waiting queue holds.\<close>

lemma reach_wq:
  assumes "pool_reach s e" "\<not> srv_freed s"
  obtains ws where "wq s ws" "m_waitingCount s = int (length ws)"
  using pool_reach_ok [OF assms(1)] assms(2)
  by (cases e) (auto simp: sys_ok_def inv_def queues_def slots_def)

lemma reach_fq:
  assumes "pool_reach s ({}, {}, {})" "\<not> srv_freed s"
  obtains fc where "fq s fc" "distinct fc" "m_connectCount s = int (length fc)"
proof -
  from pool_reach_ok [OF assms(1)] assms(2) obtain uc fc ws d where "inv s {} {} {} uc fc ws d"
    by (auto simp: sys_ok_def)
  then have "fq s fc" "distinct fc" "m_connectCount s = int (length fc)"
    by (simp_all add: inv_def queues_def slots_def)
  then show ?thesis by (rule that)
qed

lemma idle_run:
  "map_option (\<lambda>(s, e). (e, srv_freed s, m_connectCount s, m_freeConnectCount s, m_waitingCount s))
     (run_pool 2 1 [Fetch (7 :: nat), Created 0 0, Release 0 False]) =
   Some (({}, {}, {}), False, 1, 1, 0)"
  by code_simp

lemma drift_run:
  "map_option (\<lambda>(s, e). (e, srv_freed s, m_connectCount s, m_freeConnectCount s, m_waitingCount s))
     (run_pool 1 1 [Fetch (7 :: nat), Created 0 0, Release 0 True, Closed 0, Fetch 8, Created 0 0, Release 0 False]) =
   Some (({}, {}, {}), False, 1, 0, 0)"
  by code_simp

lemma dying_run:
  "map_option (\<lambda>(s, e). (e, srv_freed s, m_waitingCount s))
     (run_pool 1 1 [Fetch (7 :: nat), Destroy]) = Some (({0}, {}, {}), False, 1)"
  by code_simp

section \<open>Properties\<close>

text \<open>
  C12: Accounting of a server's connections: in every reachable state (until the server is freed)
  the open connections, the unconnected slots and the slots being created add up to the
  configured number, the slots outside the queues are pairwise disjoint, and a slot is marked in
  use exactly when a request holds it. In particular a server never has more connections, open or
  being opened, than \<open>m_connectPerServer\<close>.
\<close>

theorem pool_connections_accounted:
  assumes "pool_reach s (C, B, K)" "\<not> srv_freed s"
  shows "m_connectCount s + m_unconnectCount s + int (card C) = m_connectPerServer s \<and>
     0 \<le> m_unconnectCount s \<and> 0 \<le> m_connectCount s \<and> 0 \<le> m_waitingCount s \<and>
     C \<inter> B = {} \<and> C \<inter> K = {} \<and> B \<inter> K = {} \<and>
     (\<forall>j \<in> C \<union> B \<union> K. int j < m_connectPerServer s) \<and> (\<forall>j. in_use s j \<longleftrightarrow> j \<in> B)"
proof -
  from pool_reach_ok [OF assms(1)] assms(2) obtain uc fc ws d where i: "inv s C B K uc fc ws d"
    by (auto simp: sys_ok_def)
  note sl = invD(2) [OF i]
  have "m_connectCount s = int (length fc) + int (card B) + int (card K)" "m_unconnectCount s = int (length uc)"
    "m_waitingCount s = int (length ws)" "C \<inter> B = {} \<and> C \<inter> K = {} \<and> B \<inter> K = {}" "\<forall>j. in_use s j \<longleftrightarrow> j \<in> B"
    using sl by (simp_all add: slots_def)
  moreover have "int j < m_connectPerServer s" if "j \<in> C \<union> B \<union> K" for j
  proof -
    have "set uc \<union> set fc \<union> C \<union> B \<union> K = {..<nat (m_connectPerServer s)}" using sl by (simp add: slots_def)
    then have "j \<in> {..<nat (m_connectPerServer s)}" using that by blast
    then show ?thesis by auto
  qed
  ultimately show ?thesis using slots_total [OF sl] by auto
qed

theorem pool_connections_accounted_witness:
  "\<exists>s :: nat server_info. pool_reach s ({1}, {0}, {}) \<and> m_connectCount s + m_unconnectCount s + 1 = m_connectPerServer s"
proof -
  obtain s where s: "pool_reach s ({1}, {0}, {})" "\<not> srv_freed (s :: nat server_info)" by (rule busy_state)
  from pool_connections_accounted [OF s] s(1) show ?thesis by auto
qed

text \<open>
  No connection idles while a request waits: in every reachable state with a request in the
  waiting queue the free queue is empty.
\<close>

theorem pool_work_conserving:
  assumes "pool_reach s e" "\<not> srv_freed s" "0 < m_waitingCount s"
  shows "m_connectQueueHead s = None"
proof -
  obtain C B K where e: "e = (C, B, K)" by (cases e)
  from pool_reach_ok [OF assms(1)] assms(2) e obtain uc fc ws d where i: "inv s C B K uc fc ws d"
    by (auto simp: sys_ok_def)
  then have "ws \<noteq> []" using assms(3) by (auto simp: inv_def slots_def)
  then have "fc = []" by (rule inv_empty_wait [OF i])
  then show ?thesis using fq_head [OF i] by simp
qed

theorem pool_work_conserving_witness:
  "\<exists>s :: nat server_info. pool_reach s ({1}, {0}, {}) \<and> 0 < m_waitingCount s \<and> m_connectQueueHead s = None"
proof -
  obtain s where s: "pool_reach s ({1}, {0}, {})" "\<not> srv_freed (s :: nat server_info)" "m_waitingCount s = 2"
    by (rule busy_state)
  from pool_work_conserving [OF s(1,2)] s show ?thesis by auto
qed



text \<open>
  A request taken off the waiting queue (its timeout) uses freed memory in exactly one
  situation: it was the last waiting request of a server under destruction whose connections are
  all closed. \<open>_pool_waiting_queue_rm\<close> then frees the server and still returns its
  \<open>m_waitingCount\<close>.
\<close>

theorem pool_timeout_use_after_free:
  assumes "pool_reach s e" "\<not> srv_freed s" "wq s ws" "w \<in> set ws"
  shows "waiting_queue_rm (Some w) s = None \<longleftrightarrow>
     m_destroyFlag s \<and> ws = [w] \<and> m_freeConnectCount s + m_unconnectCount s = m_connectPerServer s"
proof -
  obtain C B K where e: "e = (C, B, K)" by (cases e)
  from pool_reach_ok [OF assms(1)] assms(2) e obtain uc fc vs d where "inv s C B K uc fc vs d"
    by (auto simp: sys_ok_def)
  moreover from this have "vs = ws" using wq_unique assms(3) by (auto simp: inv_def queues_def)
  ultimately have i: "inv s C B K uc fc ws d" by simp
  show ?thesis
  proof
    assume n: "waiting_queue_rm (Some w) s = None"
    show "m_destroyFlag s \<and> ws = [w] \<and> m_freeConnectCount s + m_unconnectCount s = m_connectPerServer s"
      using timeout_ok [OF i assms(4)] n by auto
  next
    assume h: "m_destroyFlag s \<and> ws = [w] \<and>
      m_freeConnectCount s + m_unconnectCount s = m_connectPerServer s"
    from wait_unlink [OF i assms(4)] h obtain s1 where
      s1: "waiting_unlink w s = Some s1" "inv s1 C B K uc fc [] d" "cfg s s1" by auto
    have fc: "fc = []" by (rule inv_empty_wait [OF i]) (use assms(4) in auto)
    have "drained s1" "m_waitingCount s1 = 0"
      using s1(2,3) h i by (simp_all add: drained_def cfg_def inv_def slots_def)
    then show "waiting_queue_rm (Some w) s = None"
      using s1(1,2) server_destroy_empty [of s1 C B K uc "[]" d] fc assms(2)
      by (simp add: waiting_queue_rm_def)
  qed
qed

theorem pool_timeout_use_after_free_witness:
  "\<exists>(s :: nat server_info) w. pool_reach s ({1}, {0}, {}) \<and> waiting_queue_rm (Some w) s \<noteq> None"
proof -
  obtain s where s: "pool_reach s ({1}, {0}, {})" "\<not> srv_freed (s :: nat server_info)" "m_waitingCount s = 2"
    by (rule busy_state)
  obtain ws where ws: "wq s ws" "m_waitingCount s = int (length ws)" by (rule reach_wq [OF s(1,2)])
  then obtain w v vs where w: "ws = w # v # vs" using s(3) by (cases ws rule: list.exhaust; cases "tl ws") auto
  from pool_timeout_use_after_free [OF s(1,2) ws(1), of w] s(1) w show ?thesis by auto
qed

text \<open>
  C24: Waiting requests are served first come, first served: when a request gives its connection
  back without an error, the connection goes at once to the oldest waiting request, and the others
  keep their order.
\<close>

theorem pool_serves_oldest_waiting:
  assumes "pool_reach s (C, B, K)" "\<not> srv_freed s" "j \<in> B" "\<not> to_be_destroyed s j"
    and "wq s (w # ws)"
  shows "\<exists>s'. release_connect j False s =
       Some (s', [Talk (m_serverIdx s), AfterConn (m_serverIdx s) 0, Acquired j (wq_req (the (w_nodes s w)))]) \<and>
     wq s' ws \<and> wq_reqs s' ws = wq_reqs s ws \<and> in_use s' j"
proof -
  let ?s = "s\<lparr>in_use := (in_use s)(j := False)\<rparr>"
  have q: "wq ?s (w # ws)" by (rule wq_cong [OF assms(5)]) simp_all
  from waiting_get_cons [OF q] obtain s' where
    s': "waiting_queue_get ?s = Some (Some (wq_req (the (w_nodes ?s w))), s')" "wq s' ws"
      "w_frame ?s (-1) s'" "wq_reqs s' ws = wq_reqs ?s ws" by blast
  have idx: "m_serverIdx s' = m_serverIdx s" using s'(3) by (auto simp: w_frame_def)
  let ?t = "s'\<lparr>in_use := (in_use s')(j := True)\<rparr>"
  have "release_connect j False s =
       Some (?t, [Talk (m_serverIdx s), AfterConn (m_serverIdx s) 0, Acquired j (wq_req (the (w_nodes s w)))])"
    using s'(1) idx assms(2,4) by (simp add: release_connect_def put_back_connect_def)
  moreover have "wq ?t ws" by (rule wq_cong [OF s'(2)]) simp_all
  moreover have "wq_reqs ?t ws = wq_reqs s ws" using s'(4) by (simp add: wq_reqs_def)
  ultimately show ?thesis by (intro exI [of _ ?t]) simp
qed

theorem pool_serves_oldest_waiting_witness:
  "\<exists>(s :: nat server_info) s' r. pool_reach s ({1}, {0}, {}) \<and>
     release_connect 0 False s = Some (s', [Talk (m_serverIdx s), AfterConn (m_serverIdx s) 0, Acquired 0 r])"
proof -
  obtain s where s: "pool_reach s ({1}, {0}, {})" "\<not> srv_freed (s :: nat server_info)" "m_waitingCount s = 2"
    "\<not> to_be_destroyed s 0" by (rule busy_state)
  obtain ws where ws: "wq s ws" "m_waitingCount s = int (length ws)" by (rule reach_wq [OF s(1,2)])
  then obtain w vs where w: "ws = w # vs" using s(3) by (cases ws) auto
  have "(0 :: nat) \<in> {0}" by simp
  from pool_serves_oldest_waiting [OF s(1,2) this s(4) ws(1) [unfolded w]] s(1) show ?thesis by blast
qed

lemma destroy_loop_outs: "destroy_loop j s = Some p \<Longrightarrow> \<exists>js. snd p = map DestroyConn js"
proof (induction rule: destroy_loop.raw_induct [rotated, consumes 1, case_names step])
  case (step f j s p)
  show ?case
  proof (cases "connect_queue_get s")
    case (Pair i s1)
    show ?thesis
    proof (cases i)
      case None
      then have "snd p = map DestroyConn [j]" using step(2) Pair by auto
      then show ?thesis by blast
    next
      case (Some k)
      then obtain q where q: "f k s1 = Some q" "snd p = DestroyConn j # snd q"
        using step(2) Pair by (auto simp: bind_eq_Some_conv)
      from step(1) [OF q(1)] obtain js where "snd q = map DestroyConn js" by blast
      then have "snd p = map DestroyConn (j # js)" using q(2) by simp
      then show ?thesis by blast
    qed
  qed
qed

lemma server_destroy_no_acquire: "server_destroy s = Some (s', os) \<Longrightarrow> Acquired i r \<notin> set os"
  using destroy_loop_outs
  by (fastforce simp: server_destroy_def server_destroyed_def split: prod.splits option.splits)

lemma put_back_acquired:
  "put_back_connect j s = Some (s', os) \<Longrightarrow> Acquired i r \<in> set os \<Longrightarrow> i = j"
  by (auto simp: put_back_connect_def bind_eq_Some_conv split: option.splits if_splits
      dest: server_destroy_no_acquire)

lemma fetch_acquired:
  assumes "inv s C B K uc fc ws d" "server_fetch r s = Some (w, s', os)" "Acquired i q \<in> set os"
  shows "i \<in> set fc \<and> q = r"
proof (cases fc)
  case (Cons j js)
  from take_free [OF assms(1) [unfolded Cons]] obtain s1 where "connect_queue_get s = (Some j, s1)" by blast
  then show ?thesis
    using assms(2,3) Cons fq_head [OF assms(1)] inv_not_freed [OF assms(1)]
    by (auto simp: server_fetch_def fetch_from_connectqueue_def)
next
  case Nil
  have "Acquired i q \<notin> set (snd (create_new_connect s))"
    by (simp add: create_new_connect_def split: prod.split option.split)
  then show ?thesis
    using assms(2,3) Nil fq_head [OF assms(1)] inv_not_freed [OF assms(1)]
    by (auto simp: server_fetch_def split: prod.splits if_splits)
qed

text \<open>
  C7: Connections are handed out exclusively: whenever fetching, a finished creation or a release
  hands a connection to a request, no other request holds that connection, it is not being closed,
  and it has a live handle.
\<close>

theorem pool_hands_out_exclusively:
  assumes "pool_reach s (C, B, K)" "\<not> srv_freed s"
  shows "(server_fetch r s = Some (w, s', os) \<and> Acquired i q \<in> set os \<longrightarrow>
       i \<notin> B \<and> i \<notin> C \<and> i \<notin> K \<and> has_handle s i \<and> q = r) \<and>
     (j \<in> C \<and> on_connect_created j st s = Some (s', os) \<and> Acquired i q \<in> set os \<longrightarrow>
       i = j \<and> i \<notin> B \<and> i \<notin> K \<and> has_handle s i) \<and>
     (j \<in> B \<and> release_connect j err s = Some (s', os) \<and> Acquired i q \<in> set os \<longrightarrow>
       i = j \<and> i \<notin> B - {j} \<and> i \<notin> K \<and> has_handle s i \<and> \<not> err)"
proof -
  from pool_reach_ok [OF assms(1)] assms(2) obtain uc fc ws d where i: "inv s C B K uc fc ws d"
    by (auto simp: sys_ok_def)
  note apart = slots_apart [OF invD(2) [OF i]]
  have hh: "\<And>x. has_handle s x \<longleftrightarrow> x \<in> set fc \<union> C \<union> B \<union> K" using i by (simp add: inv_def slots_def)
  show ?thesis
  proof (intro conjI impI)
    assume a: "server_fetch r s = Some (w, s', os) \<and> Acquired i q \<in> set os"
    then have "i \<in> set fc \<and> q = r" using fetch_acquired [OF i] by blast
    then show "i \<notin> B" "i \<notin> C" "i \<notin> K" "has_handle s i" "q = r" using apart(4) [of i] hh by auto
  next
    assume a: "j \<in> C \<and> on_connect_created j st s = Some (s', os) \<and> Acquired i q \<in> set os"
    then have "i = j"
      using assms(2)
      by (auto simp: on_connect_created_def Let_def bind_eq_Some_conv split: if_splits
          dest: put_back_acquired server_destroy_no_acquire)
    then show "i = j" "i \<notin> B" "i \<notin> K" "has_handle s i" using a apart(1) [of j] hh by auto
  next
    assume a: "j \<in> B \<and> release_connect j err s = Some (s', os) \<and> Acquired i q \<in> set os"
    then have "i = j \<and> \<not> err"
      using assms(2)
      by (auto simp: release_connect_def Let_def split: if_splits dest: put_back_acquired)
    then show "i = j" "i \<notin> B - {j}" "i \<notin> K" "has_handle s i" "\<not> err" using a apart(2) [of j] hh by auto
  qed
qed

theorem pool_hands_out_exclusively_witness:
  "\<exists>s :: nat server_info. pool_reach s ({1}, {0}, {}) \<and>
     (\<forall>w s' os q. \<not> (server_fetch 5 s = Some (w, s', os) \<and> Acquired 0 q \<in> set os))"
proof -
  obtain s where s: "pool_reach s ({1}, {0}, {})" "\<not> srv_freed (s :: nat server_info)" by (rule busy_state)
  have "\<not> (server_fetch 5 s = Some (w, s', os) \<and> Acquired 0 q \<in> set os)" for w s' os q
    using pool_hands_out_exclusively [OF s, of 5 w s' os 0 q 0 0 False] by simp
  then show ?thesis using s(1) by blast
qed

section \<open>Destruction\<close>

lemma close_step:
  assumes "inv s C B K uc fc ws d" "j \<in> K"
  shows "\<exists>s1. inv s1 C B (K - {j}) (uc @ [j]) fc ws (Suc d) \<and> cfg s s1 \<and>
     on_connect_destroyed j s = Some (if m_destroyFlag s1 \<and> m_connectCount s1 = 0
       then (s1\<lparr>srv_freed := True\<rparr>, [AfterConn (m_serverIdx s) (-1), ServerFreed (m_serverIdx s)])
       else (s1, [AfterConn (m_serverIdx s) (-1)]))"
proof -
  from closed_outside [OF assms] obtain s1 where
    s1: "unconnect_queue_put j ((connect_queue_rm j s)\<lparr>has_handle := (has_handle s)(j := False)\<rparr>) = Some s1"
      "inv (s1\<lparr>m_connectCount := m_connectCount s1 - 1\<rparr>) C B (K - {j}) (uc @ [j]) fc ws (Suc d)"
      "cfg s s1" "\<not> in_use s j" "has_handle s j" by blast
  have h: "has_handle (connect_queue_rm j s) = has_handle s"
    by (simp add: connect_queue_rm_def Let_def split: option.split)
  let ?s = "s1\<lparr>m_connectCount := m_connectCount s1 - 1\<rparr>"
  have idx: "m_serverIdx s1 = m_serverIdx s" using s1(3) by (simp add: cfg_def)
  have "on_connect_destroyed j s = Some (if m_destroyFlag ?s \<and> m_connectCount ?s = 0
       then (?s\<lparr>srv_freed := True\<rparr>, [AfterConn (m_serverIdx s) (-1), ServerFreed (m_serverIdx s)])
       else (?s, [AfterConn (m_serverIdx s) (-1)]))"
    using s1(1,4,5) h inv_not_freed [OF assms(1)] idx
    by (cases "m_destroyFlag s1"; cases "m_connectCount s1 = 1")
       (simp_all add: on_connect_destroyed_def server_destroyed_def Let_def)
  moreover have "cfg s ?s" using s1(3) by (simp add: cfg_def)
  ultimately show ?thesis using s1(2) by blast
qed

fun close_all :: "nat list \<Rightarrow> 'r server_info \<Rightarrow> ('r server_info \<times> 'r pool_out list) option" where
  "close_all [] s = Some (s, [])"
| "close_all (j # js) s =
     do { (s, os) \<leftarrow> on_connect_destroyed j s; (s, os') \<leftarrow> close_all js s; Some (s, os @ os') }"

lemma close_all_frees:
  "inv s C {} (set js) uc [] ws d \<Longrightarrow> distinct js \<Longrightarrow> js \<noteq> [] \<Longrightarrow> m_destroyFlag s \<Longrightarrow>
   \<exists>s'. close_all js s =
     Some (s', map (\<lambda>_. AfterConn (m_serverIdx s) (-1)) js @ [ServerFreed (m_serverIdx s)]) \<and> srv_freed s'"
proof (induction js arbitrary: s uc d)
  case (Cons j js)
  from close_step [OF Cons.prems(1), of j] obtain s1 where
    s1: "inv s1 C {} (set (j # js) - {j}) (uc @ [j]) [] ws (Suc d)" "cfg s s1"
      "on_connect_destroyed j s = Some (if m_destroyFlag s1 \<and> m_connectCount s1 = 0
         then (s1\<lparr>srv_freed := True\<rparr>, [AfterConn (m_serverIdx s) (-1), ServerFreed (m_serverIdx s)])
         else (s1, [AfterConn (m_serverIdx s) (-1)]))" by auto
  have rest: "set (j # js) - {j} = set js" using Cons.prems(2) by auto
  have count: "m_connectCount s1 = int (length js)"
    using s1(1) Cons.prems(2) unfolding rest by (simp add: inv_def slots_def distinct_card)
  have f: "m_destroyFlag s1" "m_serverIdx s1 = m_serverIdx s" using s1(2) Cons.prems(4) by (simp_all add: cfg_def)
  show ?case
  proof (cases "js = []")
    case True
    then show ?thesis using s1(3) f count by simp
  next
    case False
    from Cons.IH [OF s1(1) [unfolded rest] _ False f(1)] Cons.prems(2) obtain s' where
      "close_all js s1 = Some (s', map (\<lambda>_. AfterConn (m_serverIdx s1) (-1)) js @ [ServerFreed (m_serverIdx s1)])"
      "srv_freed s'" by auto
    then show ?thesis using s1(3) f count False by simp
  qed
qed simp



text \<open>
  A server whose free count has drifted is not destroyed although all its connections idle:
  once \<open>m_freeConnectCount\<close> differs from the length of the free queue (every connection closed
  after an error release takes one off the count, see \<open>_pool_on_connect_destroyed\<close>), starting the
  destruction closes nothing and frees nothing.
\<close>

theorem pool_drifted_server_survives:
  assumes "pool_reach s e" "\<not> srv_freed s" "fq s fc" "m_freeConnectCount s \<noteq> int (length fc)"
  shows "\<exists>s'. server_pool_destroy s = Some (s', []) \<and> \<not> srv_freed s' \<and> m_destroyFlag s' \<and> fq s' fc"
proof -
  obtain C B K where e: "e = (C, B, K)" by (cases e)
  from pool_reach_ok [OF assms(1)] assms(2) e obtain uc fc' ws d where i: "inv s C B K uc fc' ws d"
    by (auto simp: sys_ok_def)
  have "fc' = fc"
    using i assms(3) lseg_unique unfolding inv_def queues_def fq_def dll_def by metis
  then have "d \<noteq> 0" using i assms(4) by (auto simp: inv_def slots_def)
  then have "m_freeConnectCount s + m_unconnectCount s \<noteq> m_connectPerServer s"
    using drained_quiet(1) [OF invD(2) [OF i]] by blast
  then have "server_pool_destroy s = Some (s\<lparr>monitor_on := False, m_destroyFlag := True\<rparr>, [])"
    using assms(2) by (simp add: server_pool_destroy_def)
  then show ?thesis using assms(2,3) by (simp add: fq_def)
qed

theorem pool_drifted_server_survives_witness:
  "\<exists>s s' :: nat server_info. pool_reach s ({}, {}, {}) \<and> server_pool_destroy s = Some (s', []) \<and> \<not> srv_freed s'"
proof -
  from drift_run obtain s where
    t: "run_pool 1 1 [Fetch (7 :: nat), Created 0 0, Release 0 True, Closed 0, Fetch 8, Created 0 0, Release 0 False] =
          Some (s, {}, {}, {})"
      "\<not> srv_freed s" "m_connectCount s = 1" "m_freeConnectCount s = 0" by auto
  have r: "pool_reach s ({}, {}, {})" by (rule run_pool_reach [OF t(1)]) simp
  obtain fc where fc: "fq s fc" "distinct fc" "m_connectCount s = int (length fc)"
    by (rule reach_fq [OF r t(2)])
  then have "m_freeConnectCount s \<noteq> int (length fc)" using t(3,4) by auto
  from pool_drifted_server_survives [OF r t(2) fc(1) this] r show ?thesis by blast
qed

text \<open>
  A freed server has no connection left with a request or in closing; but one may still be in
  creation: the server is freed when its last open connection closes, without a look at the
  creations in progress, and the callback of such a creation then uses freed memory.
\<close>

theorem pool_freed_before_creation_ends:
  "(pool_reach s (C, B, K) \<and> srv_freed s \<longrightarrow> B = {} \<and> K = {}) \<and>
   (\<exists>s :: nat server_info. pool_reach s ({1}, {}, {}) \<and> srv_freed s \<and> on_connect_created 1 0 s = None)"
proof
  show "pool_reach s (C, B, K) \<and> srv_freed s \<longrightarrow> B = {} \<and> K = {}"
    using pool_reach_ok [of s "(C, B, K)"] by (auto simp: sys_ok_def)
  from uaf_run obtain t where
    t: "run_pool 2 1 [Fetch (7 :: nat), Fetch 8, Created 0 0, Destroy, Release 0 True, Closed 0] = Some (t, {1}, {}, {})"
      "srv_freed t" by auto
  have "pool_reach t ({1}, {}, {})" by (rule run_pool_reach [OF t(1)]) simp
  then show "\<exists>s :: nat server_info. pool_reach s ({1}, {}, {}) \<and> srv_freed s \<and> on_connect_created 1 0 s = None"
    using t(2) freed_stuck(2) by blast
qed

theorem pool_freed_before_creation_ends_witness:
  "\<not> (\<exists>s :: nat server_info. pool_reach s ({}, {0}, {}) \<and> srv_freed s)"
  using pool_freed_before_creation_ends by blast

end
