(* ===== verification/SlbStatus.thy ===== *)
theory SlbStatus
  imports Prelude Complex_Main "HOL-Library.Monad_Syntax"
begin

text \<open>
  What the load balancer remembers of one backend server (\<open>deps/slb\<close>): the ring queue
  (\<open>util/Queue.h\<close>), the outcome of the last connections (\<open>ConnectStatus\<close> of
  \<open>filter/ConnectFilter.cpp\<close>) and the processing times of the last seconds (\<open>HealthyStatus\<close> of
  \<open>filter/HealthyFilter.cpp\<close>). The ring is shown to be a sliding window over everything that was
  inserted; the two statuses are clients of that contract (locale \<open>window\<close>). A \<open>uint\<close> is a
  32-bit word, a \<open>double\<close> a real number; \<open>None\<close> is a crash (an access outside the array, or a
  remainder by zero).
\<close>

named_theorems ring_simps "equations of the ring queue"

section \<open>The ring queue (util/Queue.h)\<close>

record 'a ring_node =
  nd_value :: 'a
  nd_valid :: bool

record 'a ring =
  ring_cells :: "'a ring_node list"
  queueSize :: int
  nextPos :: int

text \<open>
  The constructor. \<open>ok\<close> tells whether the resource pool had room for the array; when it had
  not, the exception is swallowed and the queue has size 0.
\<close>

definition ring_new :: "bool \<Rightarrow> int \<Rightarrow> 'a::zero ring" where
  "ring_new ok n =
     (if ok then \<lparr>ring_cells = replicate (nat n) \<lparr>nd_value = 0, nd_valid = False\<rparr>, queueSize = n, nextPos = 0\<rparr>
      else \<lparr>ring_cells = [], queueSize = 0, nextPos = 0\<rparr>)"

definition cell_at :: "'a ring \<Rightarrow> int \<Rightarrow> 'a ring_node option" where
  "cell_at q p = (if 0 \<le> p \<and> nat p < length (ring_cells q) then Some (ring_cells q ! nat p) else None)"

definition ring_insert :: "'a \<Rightarrow> 'a \<Rightarrow> 'a ring \<Rightarrow> (bool \<times> 'a \<times> 'a ring) option" where
  "ring_insert v old q =
     do {
       nd \<leftarrow> cell_at q (nextPos q);
       let old = (if nd_valid nd then nd_value nd else old);
       let ret = nd_valid nd;
       let q = q\<lparr>ring_cells := (ring_cells q)[nat (nextPos q) := \<lparr>nd_value = v, nd_valid = True\<rparr>]\<rparr>;
       if queueSize q = 0 then None
       else Some (ret, old, q\<lparr>nextPos := (nextPos q + 1) mod queueSize q\<rparr>)
     }"

text \<open>The loop \<open>while (lastPos < 0) lastPos += _queueSize\<close>; it would not end for size 0.\<close>

function wrap_pos :: "int \<Rightarrow> int \<Rightarrow> int" where
  "wrap_pos sz p = (if p < 0 \<and> 0 < sz then wrap_pos sz (p + sz) else p)"
  by auto
termination by (relation "measure (\<lambda>(sz, p). nat (- p))") auto

declare wrap_pos.simps [simp del]

definition getLast :: "nat \<Rightarrow> 'a \<Rightarrow> 'a ring \<Rightarrow> (bool \<times> 'a) option" where
  "getLast index val q =
     (if queueSize q \<le> 0 then None
      else do {
        nd \<leftarrow> cell_at q (wrap_pos (queueSize q) (nextPos q - 1 - int index) mod queueSize q);
        Some (nd_valid nd, if nd_valid nd then nd_value nd else val)
      })"

lemma wrap_pos_mod: "0 < sz \<Longrightarrow> wrap_pos sz p mod sz = p mod sz"
proof (induction sz p rule: wrap_pos.induct)
  case (1 sz p)
  then show ?case by (cases "p < 0") (simp_all add: wrap_pos.simps [of sz p])
qed

subsection \<open>The contract: a sliding window\<close>

text \<open>
  What a client of the queue relies on: \<open>rep n h q\<close> says that \<open>q\<close> remembers the last \<open>n\<close> of the
  inserted values \<open>h\<close>, newest first. An insertion never fails, reports whether the window was
  full and hands out the value that drops out of it.
\<close>

locale window =
  fixes ins :: "'a \<Rightarrow> 'a \<Rightarrow> 's \<Rightarrow> (bool \<times> 'a \<times> 's) option"
    and last_of :: "nat \<Rightarrow> 'a \<Rightarrow> 's \<Rightarrow> (bool \<times> 'a) option"
    and rep :: "nat \<Rightarrow> 'a list \<Rightarrow> 's \<Rightarrow> bool"
  assumes rep_pos: "rep n h q \<Longrightarrow> 0 < n"
    and ins_law: "rep n h q \<Longrightarrow> \<exists>q'. ins v old q =
            Some (n \<le> length h, if n \<le> length h then h ! (n - 1) else old, q') \<and> rep n (v # h) q'"
    and last_law: "rep n h q \<Longrightarrow> i < n \<Longrightarrow>
            last_of i val q = Some (i < length h, if i < length h then h ! i else val)"
begin

lemma insE:
  assumes "rep n h q"
  obtains q' where "ins v old q = Some (n \<le> length h, if n \<le> length h then h ! (n - 1) else old, q')"
    "rep n (v # h) q'"
  using ins_law [OF assms] by blast

text \<open>A total kept up to date with the value that drops out is the total over the window.\<close>

lemma running_total:
  fixes w :: "'a \<Rightarrow> 'b::ab_group_add"
  assumes "rep n h q"
  shows "sum_list (map w (take n (v # h))) =
         sum_list (map w (take n h)) - (if n \<le> length h then w (h ! (n - 1)) else 0) + w v"
proof -
  obtain m where n: "n = Suc m" using rep_pos [OF assms] by (cases n) auto
  show ?thesis
  proof (cases "n \<le> length h")
    case True
    then have "take n h = take m h @ [h ! m]" using n by (simp add: take_Suc_conv_app_nth)
    then show ?thesis using n True by simp
  next
    case False
    then have "take m h = h" "take n h = h" using n by auto
    then show ?thesis using n False by simp
  qed
qed

end

text \<open>
  The abstraction of the ring: position \<open>k\<close> holds the value inserted \<open>(length h - 1 - k) mod n\<close>
  insertions ago.
\<close>

definition ring_abs :: "nat \<Rightarrow> 'a list \<Rightarrow> 'a ring \<Rightarrow> bool" where
  "ring_abs n h q \<longleftrightarrow>
     0 < n \<and> length (ring_cells q) = n \<and> queueSize q = int n \<and> nextPos q = int (length h mod n) \<and>
     (\<forall>k<n. nd_valid (ring_cells q ! k) = (k < length h) \<and>
            (k < length h \<longrightarrow> nd_value (ring_cells q ! k) = h ! ((length h - 1 - k) mod n)))"

lemma ring_absD:
  assumes "ring_abs n h q"
  shows "0 < n" "length (ring_cells q) = n" "queueSize q = int n" "nextPos q = int (length h mod n)"
    and "k < n \<Longrightarrow> nd_valid (ring_cells q ! k) = (k < length h)"
    and "k < n \<Longrightarrow> k < length h \<Longrightarrow> nd_value (ring_cells q ! k) = h ! ((length h - 1 - k) mod n)"
  using assms by (simp_all add: ring_abs_def)

lemma ring_new_abs [simp]: "0 < n \<Longrightarrow> ring_abs (nat n) [] (ring_new True n)"
  by (simp add: ring_abs_def ring_new_def)

lemma age_step:
  assumes "(k::nat) < n" "k < l" "k \<noteq> l mod n"
  shows "(l - k) mod n = Suc ((l - 1 - k) mod n)"
proof -
  have "(l - k) mod n \<noteq> 0"
  proof
    assume "(l - k) mod n = 0"
    then have "l mod n = k mod n" using assms(2) by (metis mod_eq_dvd_iff_nat mod_0_imp_dvd less_imp_le)
    then show False using assms by simp
  qed
  moreover have "l - k = Suc (l - 1 - k)" using assms(2) by simp
  ultimately show ?thesis by (metis mod_Suc)
qed

lemma full_position:
  assumes "0 < (n::nat)"
  shows "l mod n < l \<longleftrightarrow> n \<le> l"
  using assms by (metis le_less_trans less_or_eq_imp_le mod_le_divisor mod_less mod_less_divisor
      not_less order_less_le_trans)

lemma oldest_age:
  assumes "0 < (n::nat)" "n \<le> l"
  shows "(l - 1 - l mod n) mod n = n - 1"
proof -
  have "n * (l div n) + l mod n = l" by simp
  moreover obtain d where d: "l div n = Suc d" using assms by (cases "l div n") (auto simp: div_eq_0_iff)
  ultimately have "l - 1 - l mod n = n * d + (n - 1)"
    using assms(1) by (simp add: algebra_simps)
  then have "(l - 1 - l mod n) mod n = (n - 1) mod n" by (simp only: mod_mult_self4)
  also have "\<dots> = n - 1" using assms(1) by (intro mod_less) simp
  finally show ?thesis .
qed

lemma ring_insert_law:
  assumes "ring_abs n h q"
  shows "\<exists>q'. ring_insert v old q =
           Some (n \<le> length h, if n \<le> length h then h ! (n - 1) else old, q') \<and> ring_abs n (v # h) q'"
proof -
  note A = ring_absD [OF assms]
  let ?p = "length h mod n"
  let ?q = "q\<lparr>ring_cells := (ring_cells q)[?p := \<lparr>nd_value = v, nd_valid = True\<rparr>],
              nextPos := (int ?p + 1) mod int n\<rparr>"
  have p: "?p < n" using A(1) by simp
  have at: "cell_at q (nextPos q) = Some (ring_cells q ! ?p)" using A p by (simp add: cell_at_def)
  have val: "nd_valid (ring_cells q ! ?p) = (n \<le> length h)"
    using A(5) [OF p] full_position [OF A(1)] by simp
  have old: "nd_value (ring_cells q ! ?p) = h ! (n - 1)" if "n \<le> length h"
    using A(6) [OF p] full_position [OF A(1)] oldest_age [OF A(1) that] that by simp
  have "ring_insert v old q = Some (n \<le> length h, if n \<le> length h then h ! (n - 1) else old, ?q)"
    using A(1,3,4) val old unfolding ring_insert_def at Let_def by (simp del: mod_less)
  moreover have "ring_abs n (v # h) ?q"
  proof -
    have np: "nextPos ?q = int (length (v # h) mod n)"
      by simp (metis of_nat_Suc of_nat_mod mod_Suc_eq add.commute)
    have cells: "nd_valid (ring_cells ?q ! k) = (k < length (v # h)) \<and>
        (k < length (v # h) \<longrightarrow> nd_value (ring_cells ?q ! k) = (v # h) ! ((length (v # h) - 1 - k) mod n))"
      if k: "k < n" for k
    proof (cases "k = ?p")
      case True
      have "(length h - ?p) mod n = 0" by (metis minus_mod_eq_mult_div mod_mult_self1_is_0)
      then show ?thesis using True A(2) p by (simp add: nth_list_update_if le_imp_less_Suc)
    next
      case False
      then have less: "k < Suc (length h) \<longleftrightarrow> k < length h" using k by (auto simp: less_Suc_eq)
      show ?thesis
        using False A(2) A(5,6) [OF k] k p less age_step [OF k _ False]
        by (simp add: nth_list_update_if)
    qed
    show ?thesis using A np cells by (simp add: ring_abs_def)
  qed
  ultimately show ?thesis by blast
qed

lemma getLast_law:
  assumes "ring_abs n h q" "i < n"
  shows "getLast i val q = Some (i < length h, if i < length h then h ! i else val)"
proof -
  note A = ring_absD [OF assms(1)]
  let ?l = "length h"
  let ?p = "wrap_pos (queueSize q) (nextPos q - 1 - int i) mod queueSize q"
  have p: "?p = (int ?l - 1 - int i) mod int n"
    using A(1,3,4) by (simp add: wrap_pos_mod zmod_int) (metis mod_diff_left_eq)
  show ?thesis
  proof (cases "i < ?l")
    case True
    then have pn: "?p = int ((?l - 1 - i) mod n)" unfolding p by (simp add: zmod_int of_nat_diff diff_diff_eq)
    let ?k = "(?l - 1 - i) mod n"
    have k: "?k < n" "?k < ?l" using A(1) True by (simp_all add: le_less_trans [OF mod_less_eq_dividend])
    have "?l - 1 - ?k = n * ((?l - 1 - i) div n) + i"
    proof -
      have "n * ((?l - 1 - i) div n) + ?k = ?l - 1 - i" by simp
      then show ?thesis using True by linarith
    qed
    then have "(?l - 1 - ?k) mod n = i" using assms(2) by simp
    then show ?thesis using A(1-3) A(5,6) [OF k(1)] k pn True by (simp add: getLast_def cell_at_def)
  next
    case False
    then have l: "?l < n" using assms(2) by simp
    have "?p = int (?l + n - 1 - i)"
    proof -
      have "(int ?l - 1 - int i) mod int n = (int ?l - 1 - int i + int n) mod int n" by simp
      also have "\<dots> = int ?l - 1 - int i + int n" using False assms(2) by (intro mod_pos_pos_trivial) auto
      finally show ?thesis unfolding p using False assms(2) by (simp add: of_nat_diff)
    qed
    moreover have "?l + n - 1 - i < n" "\<not> ?l + n - 1 - i < ?l" using False assms(2) by auto
    ultimately show ?thesis
      using A(1-3) A(5) [of "?l + n - 1 - i"] False by (simp add: getLast_def cell_at_def)
  qed
qed

interpretation ring: window ring_insert getLast ring_abs
  by unfold_locales (simp_all add: ring_absD(1) ring_insert_law getLast_law)

section \<open>Connection results (class ConnectStatus)\<close>

record conn_status =
  cs_failedCount :: int
  cs_queue :: "int ring"

definition conn_status_new :: "bool \<Rightarrow> int \<Rightarrow> conn_status" where
  "conn_status_new ok queue_size = \<lparr>cs_failedCount = 0, cs_queue = ring_new ok queue_size\<rparr>"

definition conn_insert :: "int \<Rightarrow> conn_status \<Rightarrow> conn_status option" where
  "conn_insert status cs =
     do {
       (r, lastStatus, q) \<leftarrow> ring_insert status 0 (cs_queue cs);
       let failed = cs_failedCount cs;
       let failed = (if r \<and> lastStatus \<noteq> 0 then failed - 1 else failed);
       let failed = (if status \<noteq> 0 then failed + 1 else failed);
       Some (\<lparr>cs_failedCount = failed, cs_queue = q\<rparr>)
     }"

primrec conn_run :: "int list \<Rightarrow> conn_status \<Rightarrow> conn_status option" where
  "conn_run [] cs = Some cs"
| "conn_run (x # xs) cs = do { cs \<leftarrow> conn_insert x cs; conn_run xs cs }"

definition fail_weight :: "int \<Rightarrow> int" where
  "fail_weight status = (if status \<noteq> 0 then 1 else 0)"

lemma sum_fail_weight: "sum_list (map fail_weight xs) = int (length (filter (\<lambda>x. x \<noteq> 0) xs))"
  by (induction xs) (simp_all add: fail_weight_def)

definition conn_rep :: "nat \<Rightarrow> int list \<Rightarrow> conn_status \<Rightarrow> bool" where
  "conn_rep n h cs \<longleftrightarrow> ring_abs n h (cs_queue cs) \<and>
     cs_failedCount cs = int (length (filter (\<lambda>x. x \<noteq> 0) (take n h)))"

lemma conn_new_rep [simp]: "0 < n \<Longrightarrow> conn_rep (nat n) [] (conn_status_new True n)"
  by (simp add: conn_rep_def conn_status_new_def)

lemma conn_insert_rep:
  assumes "conn_rep n h cs"
  shows "\<exists>cs'. conn_insert x cs = Some cs' \<and> conn_rep n (x # h) cs'"
proof -
  have rep: "ring_abs n h (cs_queue cs)" using assms by (simp add: conn_rep_def)
  obtain q where ins: "ring_insert x 0 (cs_queue cs) =
      Some (n \<le> length h, if n \<le> length h then h ! (n - 1) else 0, q)" and q: "ring_abs n (x # h) q"
    using ring.insE [OF rep] by metis
  have "int (length (filter (\<lambda>x. x \<noteq> 0) (take n (x # h)))) =
        cs_failedCount cs - (if n \<le> length h then fail_weight (h ! (n - 1)) else 0) + fail_weight x"
    using ring.running_total [OF rep, of fail_weight x] assms
    by (simp add: sum_fail_weight conn_rep_def)
  then show ?thesis using q by (auto simp: conn_insert_def ins conn_rep_def fail_weight_def)
qed

lemma conn_run_rep:
  "conn_rep n h cs \<Longrightarrow> \<exists>cs'. conn_run xs cs = Some cs' \<and> conn_rep n (rev xs @ h) cs'"
proof (induction xs arbitrary: h cs)
  case (Cons x xs)
  obtain cs1 where "conn_insert x cs = Some cs1" "conn_rep n (x # h) cs1"
    using conn_insert_rep [OF Cons.prems] by blast
  then show ?case using Cons.IH [of "x # h" cs1] by simp
qed simp

section \<open>Processing times (class HealthyStatus)\<close>

record healthy_status =
  hs_curTotalTime :: u32
  hs_curCount :: u32
  hs_timeQueue :: "u32 ring"
  hs_countQueue :: "u32 ring"
  hs_totalTime :: u32
  hs_totalCount :: u32
  hs_currentTime :: u32
  hs_lastCheckTime :: int
  hs_lastSelectRate :: real
  hs_mutex :: nat

definition healthy_new :: "bool \<Rightarrow> int \<Rightarrow> nat \<Rightarrow> healthy_status" where
  "healthy_new ok timeWindow mutex =
     \<lparr>hs_curTotalTime = 0, hs_curCount = 0, hs_timeQueue = ring_new ok timeWindow,
      hs_countQueue = ring_new ok timeWindow, hs_totalTime = 0, hs_totalCount = 0, hs_currentTime = 0,
      hs_lastCheckTime = 0, hs_lastSelectRate = 0, hs_mutex = mutex\<rparr>"

text \<open>\<open>(unsigned long)_mutex < 0x65\<close>: the object has no usable lock.\<close>

definition bad_mutex :: "healthy_status \<Rightarrow> bool" where
  "bad_mutex hs \<longleftrightarrow> hs_mutex hs < 0x65"

definition total_avg :: "healthy_status \<Rightarrow> real" where
  "total_avg hs = (if hs_totalCount hs = 0 then 0
     else real (unat (hs_totalTime hs)) / real (unat (hs_totalCount hs)))"

definition getTotalAvgTime :: "healthy_status \<Rightarrow> real" where
  "getTotalAvgTime hs = (if bad_mutex hs then 0 else total_avg hs)"

text \<open>\<open>_getRecentAvgTime\<close>: the loop over the indices of the last seconds.\<close>

primrec recent_sums :: "nat list \<Rightarrow> u32 \<Rightarrow> u32 \<Rightarrow> healthy_status \<Rightarrow> (u32 \<times> u32) option" where
  "recent_sums [] t c hs = Some (t, c)"
| "recent_sums (i # is) t c hs =
     do {
       (r1, tm) \<leftarrow> getLast i 0 (hs_timeQueue hs);
       (r2, count) \<leftarrow> getLast i 0 (hs_countQueue hs);
       if r1 \<and> r2 then recent_sums is (t + tm) (c + count) hs else recent_sums is t c hs
     }"

definition recent_avg :: "int \<Rightarrow> u32 \<Rightarrow> healthy_status \<Rightarrow> real option" where
  "recent_avg checkTime timeout hs =
     do {
       (t, c) \<leftarrow> recent_sums [0..<nat (min checkTime (queueSize (hs_timeQueue hs)))] 0 0 hs;
       Some (if c \<noteq> 0 then real (unat t) / real (unat c) else real (unat timeout))
     }"

definition getSelectRate :: "u32 \<Rightarrow> int \<Rightarrow> real \<Rightarrow> int \<Rightarrow> healthy_status \<Rightarrow> (real \<times> healthy_status) option" where
  "getSelectRate timeout checkTime minRate tm hs =
     (let kept = (if hs_lastSelectRate hs \<ge> minRate then hs_lastSelectRate hs else minRate) in
      if bad_mutex hs then Some (kept, hs)
      else if hs_lastCheckTime hs + checkTime \<le> tm then
        do {
          recent \<leftarrow> recent_avg checkTime timeout hs;
          let total = total_avg hs;
          let rate = (if total < 1 / 10 ^ 6 \<or> recent < 1 / 10 ^ 6 then 1
                      else if total \<ge> real (unat timeout) then 0
                      else (real (unat timeout) - recent) / (real (unat timeout) - total));
          let rate = (if rate < minRate then minRate else if rate > 1 then 1 else rate);
          Some (rate, hs\<lparr>hs_lastSelectRate := rate, hs_lastCheckTime := tm\<rparr>)
        }
      else Some (kept, hs))"

definition healthy_add :: "u32 \<Rightarrow> u32 \<Rightarrow> healthy_status \<Rightarrow> healthy_status option" where
  "healthy_add proctime currentTime hs =
     (if bad_mutex hs then Some hs
      else do {
        hs \<leftarrow> (if currentTime \<noteq> hs_currentTime hs
              then do {
                (r1, oldTime, tq) \<leftarrow> ring_insert (hs_curTotalTime hs) 0 (hs_timeQueue hs);
                (r2, oldCount, cq) \<leftarrow> ring_insert (hs_curCount hs) 0 (hs_countQueue hs);
                let hs = hs\<lparr>hs_timeQueue := tq, hs_countQueue := cq\<rparr>;
                let hs = (if r1 \<and> r2 then hs\<lparr>hs_totalTime := hs_totalTime hs - oldTime,
                                              hs_totalCount := hs_totalCount hs - oldCount\<rparr> else hs);
                let hs = hs\<lparr>hs_totalTime := hs_totalTime hs + hs_curTotalTime hs,
                            hs_totalCount := hs_totalCount hs + hs_curCount hs\<rparr>;
                Some (hs\<lparr>hs_curTotalTime := 0, hs_curCount := 0, hs_currentTime := currentTime\<rparr>)
              }
              else Some hs);
        Some (hs\<lparr>hs_curTotalTime := hs_curTotalTime hs + proctime, hs_curCount := hs_curCount hs + 1\<rparr>)
      })"

primrec healthy_run :: "(u32 \<times> u32) list \<Rightarrow> healthy_status \<Rightarrow> healthy_status option" where
  "healthy_run [] hs = Some hs"
| "healthy_run (e # es) hs = do { hs \<leftarrow> healthy_add (fst e) (snd e) hs; healthy_run es hs }"

lemma healthy_run_append:
  "healthy_run (xs @ ys) hs = do { hs \<leftarrow> healthy_run xs hs; healthy_run ys hs }"
  by (induction xs arbitrary: hs) (simp_all split: option.split bind_split)

text \<open>
  The invariant: the two rings remember the same closed seconds, and the totals are the sums
  over the remembered ones (in 32-bit arithmetic).
\<close>

definition healthy_rep :: "nat \<Rightarrow> u32 list \<Rightarrow> u32 list \<Rightarrow> healthy_status \<Rightarrow> bool" where
  "healthy_rep n ts cs hs \<longleftrightarrow>
     \<not> bad_mutex hs \<and> ring_abs n ts (hs_timeQueue hs) \<and> ring_abs n cs (hs_countQueue hs) \<and>
     length ts = length cs \<and> hs_totalTime hs = sum_list (take n ts) \<and> hs_totalCount hs = sum_list (take n cs)"

lemma healthy_new_rep: "0 < n \<Longrightarrow> 0x65 \<le> m \<Longrightarrow> healthy_rep (nat n) [] [] (healthy_new True n m)"
  by (simp add: healthy_rep_def healthy_new_def bad_mutex_def)

lemma healthy_same_second:
  "\<not> bad_mutex hs \<Longrightarrow> t = hs_currentTime hs \<Longrightarrow>
   healthy_add p t hs = Some (hs\<lparr>hs_curTotalTime := hs_curTotalTime hs + p, hs_curCount := hs_curCount hs + 1\<rparr>)"
  by (simp add: healthy_add_def)

lemma healthy_new_second:
  assumes rep: "healthy_rep n ts cs hs" and t: "t \<noteq> hs_currentTime hs"
  shows "\<exists>hs'. healthy_add p t hs = Some hs' \<and>
           healthy_rep n (hs_curTotalTime hs # ts) (hs_curCount hs # cs) hs' \<and>
           hs_currentTime hs' = t \<and> hs_curTotalTime hs' = p \<and> hs_curCount hs' = 1 \<and>
           hs_lastSelectRate hs' = hs_lastSelectRate hs"
proof -
  have tq: "ring_abs n ts (hs_timeQueue hs)" and cq: "ring_abs n cs (hs_countQueue hs)"
    and len: "length ts = length cs" and mx: "\<not> bad_mutex hs"
    and tot: "hs_totalTime hs = sum_list (take n ts)" "hs_totalCount hs = sum_list (take n cs)"
    using rep by (simp_all add: healthy_rep_def)
  obtain tq' where t1: "ring_insert (hs_curTotalTime hs) 0 (hs_timeQueue hs) =
      Some (n \<le> length cs, if n \<le> length cs then ts ! (n - 1) else 0, tq')"
      "ring_abs n (hs_curTotalTime hs # ts) tq'"
    using ring.insE [OF tq] len by metis
  obtain cq' where c1: "ring_insert (hs_curCount hs) 0 (hs_countQueue hs) =
      Some (n \<le> length cs, if n \<le> length cs then cs ! (n - 1) else 0, cq')"
      "ring_abs n (hs_curCount hs # cs) cq'"
    using ring.insE [OF cq] by metis
  show ?thesis
    using ring.running_total [OF tq, of "\<lambda>x. x" "hs_curTotalTime hs"]
      ring.running_total [OF cq, of "\<lambda>x. x" "hs_curCount hs"] mx t len t1 c1 tot
    by (cases "n \<le> length cs") (simp_all add: healthy_add_def healthy_rep_def bad_mutex_def)
qed

lemma healthy_second:
  assumes "\<not> bad_mutex hs"
  shows "healthy_run (map (\<lambda>p. (p, hs_currentTime hs)) ps) hs =
         Some (hs\<lparr>hs_curTotalTime := hs_curTotalTime hs + sum_list ps,
                  hs_curCount := hs_curCount hs + of_nat (length ps)\<rparr>)"
  using assms
proof (induction ps arbitrary: hs)
  case (Cons p ps)
  let ?hs = "hs\<lparr>hs_curTotalTime := hs_curTotalTime hs + p, hs_curCount := hs_curCount hs + 1\<rparr>"
  have "\<not> bad_mutex ?hs" using Cons.prems by (simp add: bad_mutex_def)
  from Cons.IH [OF this] show ?case
    using Cons.prems by (simp add: healthy_same_second algebra_simps)
qed simp

text \<open>
  Requests grouped by the second they ended in: a new block for every change of the clock,
  the first one different from the initial \<open>_currentTime\<close>.
\<close>

fun well_timed :: "u32 \<Rightarrow> (u32 \<times> u32 list) list \<Rightarrow> bool" where
  "well_timed t [] = True"
| "well_timed t ((s, ps) # bs) = (s \<noteq> t \<and> ps \<noteq> [] \<and> well_timed s bs)"

definition requests_of :: "(u32 \<times> u32 list) list \<Rightarrow> (u32 \<times> u32) list" where
  "requests_of bs = concat (map (\<lambda>(s, ps). map (\<lambda>p. (p, s)) ps) bs)"

abbreviation block_time :: "u32 \<times> u32 list \<Rightarrow> u32" where
  "block_time b \<equiv> sum_list (snd b)"

abbreviation block_count :: "u32 \<times> u32 list \<Rightarrow> u32" where
  "block_count b \<equiv> of_nat (length (snd b))"

lemma healthy_block:
  assumes "healthy_rep n ts cs hs" "s \<noteq> hs_currentTime hs" "ps \<noteq> []"
  shows "\<exists>hs'. healthy_run (map (\<lambda>p. (p, s)) ps) hs = Some hs' \<and>
           healthy_rep n (hs_curTotalTime hs # ts) (hs_curCount hs # cs) hs' \<and> hs_currentTime hs' = s \<and>
           hs_curTotalTime hs' = sum_list ps \<and> hs_curCount hs' = of_nat (length ps)"
proof -
  obtain p rest where ps: "ps = p # rest" using assms(3) by (cases ps) auto
  obtain hs1 where hs1: "healthy_add p s hs = Some hs1"
      "healthy_rep n (hs_curTotalTime hs # ts) (hs_curCount hs # cs) hs1"
      "hs_currentTime hs1 = s" "hs_curTotalTime hs1 = p" "hs_curCount hs1 = 1"
    using healthy_new_second [OF assms(1,2)] by blast
  have mx: "\<not> bad_mutex hs1" using hs1(2) by (simp add: healthy_rep_def)
  show ?thesis
    using healthy_second [OF mx, of rest] hs1
    by (simp add: ps healthy_rep_def bad_mutex_def)
qed

lemma healthy_blocks:
  assumes "healthy_rep n ts cs hs" "well_timed (hs_currentTime hs) bs" "bs \<noteq> []"
  shows "\<exists>hs'. healthy_run (requests_of bs) hs = Some hs' \<and>
           healthy_rep n (rev (hs_curTotalTime hs # map block_time (butlast bs)) @ ts)
                         (rev (hs_curCount hs # map block_count (butlast bs)) @ cs) hs'"
  using assms
proof (induction bs arbitrary: hs ts cs)
  case (Cons b bs)
  obtain s ps where b: "b = (s, ps)" by (cases b)
  have step: "s \<noteq> hs_currentTime hs" "ps \<noteq> []" "well_timed s bs" using Cons.prems(2) by (auto simp: b)
  obtain hs1 where run: "healthy_run (map (\<lambda>p. (p, s)) ps) hs = Some hs1"
      and rep: "healthy_rep n (hs_curTotalTime hs # ts) (hs_curCount hs # cs) hs1"
      and cur: "hs_currentTime hs1 = s" "hs_curTotalTime hs1 = sum_list ps" "hs_curCount hs1 = of_nat (length ps)"
    using healthy_block [OF Cons.prems(1) step(1,2)] by blast
  show ?case
  proof (cases "bs = []")
    case True
    then show ?thesis using run rep by (simp add: b requests_of_def)
  next
    case False
    obtain hs2 where "healthy_run (requests_of bs) hs1 = Some hs2"
        "healthy_rep n (rev (hs_curTotalTime hs1 # map block_time (butlast bs)) @ hs_curTotalTime hs # ts)
                       (rev (hs_curCount hs1 # map block_count (butlast bs)) @ hs_curCount hs # cs) hs2"
      using Cons.IH [OF rep _ False] step(3) cur(1) by blast
    then show ?thesis using run cur False by (simp add: b requests_of_def healthy_run_append)
  qed
qed simp

subsection \<open>Reachable statuses\<close>

inductive healthy_reach :: "nat \<Rightarrow> healthy_status \<Rightarrow> bool" for n where
  created: "0 < n \<Longrightarrow> 0x65 \<le> m \<Longrightarrow> healthy_reach n (healthy_new True (int n) m)"
| request: "healthy_reach n hs \<Longrightarrow> healthy_add p t hs = Some hs' \<Longrightarrow> healthy_reach n hs'"
| rated: "healthy_reach n hs \<Longrightarrow> 0 \<le> minRate \<Longrightarrow> minRate \<le> 1 \<Longrightarrow>
          getSelectRate timeout checkTime minRate tm hs = Some (rate, hs') \<Longrightarrow> healthy_reach n hs'"

inductive_cases healthy_reachE: "healthy_reach n hs"

lemma healthy_add_rep:
  assumes "healthy_rep n ts cs hs"
  shows "\<exists>hs' ts' cs'. healthy_add p t hs = Some hs' \<and> healthy_rep n ts' cs' hs' \<and>
           hs_lastSelectRate hs' = hs_lastSelectRate hs"
proof (cases "t = hs_currentTime hs")
  case True
  have "\<not> bad_mutex hs" using assms by (simp add: healthy_rep_def)
  moreover have "healthy_rep n ts cs (hs\<lparr>hs_curTotalTime := a, hs_curCount := c\<rparr>)" for a c
    using assms by (simp add: healthy_rep_def bad_mutex_def)
  ultimately show ?thesis using True
    by (intro exI [of _ "hs\<lparr>hs_curTotalTime := hs_curTotalTime hs + p, hs_curCount := hs_curCount hs + 1\<rparr>"])
       (auto simp: healthy_same_second)
next
  case False
  then show ?thesis using healthy_new_second [OF assms False] by blast
qed

lemma sum_take_drop:
  fixes xs :: "'a::comm_monoid_add list"
  shows "sum_list (take (Suc d) (drop k xs)) =
         (if k < length xs then xs ! k else 0) + sum_list (take d (drop (Suc k) xs))"
proof (cases "k < length xs")
  case True
  then have "drop k xs = xs ! k # drop (Suc k) xs" by (rule Cons_nth_drop_Suc [symmetric])
  then show ?thesis using True by simp
qed simp

lemma recent_sums_window:
  assumes rep: "healthy_rep n ts cs hs"
  shows "k + d \<le> n \<Longrightarrow> recent_sums [k..<k + d] t c hs =
           Some (t + sum_list (take d (drop k ts)), c + sum_list (take d (drop k cs)))"
proof (induction d arbitrary: k t c)
  case (Suc d)
  have q: "ring_abs n ts (hs_timeQueue hs)" "ring_abs n cs (hs_countQueue hs)" "length ts = length cs"
    using rep by (simp_all add: healthy_rep_def)
  have upt: "[k..<k + Suc d] = k # [Suc k..<Suc k + d]" by (simp add: upt_rec)
  have kn: "k < n" using Suc.prems by simp
  show ?case
    unfolding upt using Suc.IH [of "Suc k"] Suc.prems q
    by (simp add: ring.last_law [OF q(1) kn] ring.last_law [OF q(2) kn] sum_take_drop add.assoc del: upt_Suc)
qed simp

lemma recent_avg_window:
  assumes rep: "healthy_rep n ts cs hs"
  shows "recent_avg checkTime timeout hs =
           (let m = nat (min checkTime (int n)); t = sum_list (take m ts); c = sum_list (take m cs)
            in Some (if c \<noteq> 0 then real (unat t) / real (unat c) else real (unat timeout)))"
proof -
  have "queueSize (hs_timeQueue hs) = int n" using rep by (simp add: healthy_rep_def ring_abs_def)
  then show ?thesis using recent_sums_window [OF rep, of 0 "nat (min checkTime (int n))" 0 0]
    by (simp add: recent_avg_def Let_def)
qed

lemma getSelectRate_rep:
  assumes rep: "healthy_rep n ts cs hs"
  shows "\<exists>rate hs'. getSelectRate timeout checkTime minRate tm hs = Some (rate, hs') \<and>
           healthy_rep n ts cs hs' \<and>
           (0 \<le> minRate \<longrightarrow> minRate \<le> 1 \<longrightarrow> hs_lastSelectRate hs \<le> 1 \<longrightarrow>
              minRate \<le> rate \<and> rate \<le> 1 \<and> hs_lastSelectRate hs' \<le> 1)"
proof -
  obtain ra where ra: "recent_avg checkTime timeout hs = Some ra"
    using recent_avg_window [OF rep] by (simp add: Let_def)
  have "healthy_rep n ts cs (hs\<lparr>hs_lastSelectRate := r, hs_lastCheckTime := u\<rparr>)" for r u
    using rep by (simp add: healthy_rep_def bad_mutex_def)
  then show ?thesis using rep by (auto simp: getSelectRate_def ra Let_def)
qed

lemma healthy_reach_rep:
  "healthy_reach n hs \<Longrightarrow> \<exists>ts cs. healthy_rep n ts cs hs \<and> hs_lastSelectRate hs \<le> 1"
proof (induction rule: healthy_reach.induct)
  case (created m)
  then show ?case using healthy_new_rep [of "int n" m]
    by (intro exI [of _ "[]"]) (simp add: healthy_new_def)
next
  case (request hs p t hs')
  then obtain ts cs where "healthy_rep n ts cs hs" "hs_lastSelectRate hs \<le> 1" by blast
  then show ?case using healthy_add_rep [of n ts cs hs p t] request.hyps(2) by auto
next
  case (rated hs minRate timeout checkTime tm rate hs')
  then obtain ts cs where "healthy_rep n ts cs hs" "hs_lastSelectRate hs \<le> 1" by blast
  then show ?case using getSelectRate_rep [of n ts cs hs timeout checkTime minRate tm] rated by auto
qed

section \<open>Properties\<close>

text \<open>
  C28: The failure counter of a server is the number of failed connections among the last
  \<open>queueSize\<close> ones, whatever the order of successes and failures was; it never leaves
  \<open>0..queueSize\<close>, and recording a result never accesses the ring outside its bounds.
\<close>

theorem connect_failures_counted:
  assumes "0 < queue_size"
  shows "\<exists>cs. conn_run results (conn_status_new True queue_size) = Some cs \<and>
           cs_failedCount cs = int (length (filter (\<lambda>x. x \<noteq> 0) (take (nat queue_size) (rev results)))) \<and>
           0 \<le> cs_failedCount cs \<and> cs_failedCount cs \<le> queue_size"
proof -
  obtain cs where cs: "conn_run results (conn_status_new True queue_size) = Some cs"
      "conn_rep (nat queue_size) (rev results) cs"
    using conn_run_rep [OF conn_new_rep [OF assms], of results] by auto
  have "length (filter (\<lambda>x. x \<noteq> 0) (take (nat queue_size) (rev results))) \<le> nat queue_size"
    by (rule le_trans [OF length_filter_le]) simp
  then show ?thesis using cs assms by (simp add: conn_rep_def)
qed

theorem connect_failures_counted_witness:
  "\<exists>cs. conn_run [1, 0, 1, 1, 0] (conn_status_new True 3) = Some cs \<and> cs_failedCount cs = 2"
  using connect_failures_counted [of 3 "[1, 0, 1, 1, 0]"] by auto

text \<open>
  The processing time and the request count kept for a server are the sums over the last
  \<open>queueSize\<close> closed seconds in which it served requests (the current second is not counted
  yet), in 32-bit arithmetic, so that intermediate wrap-arounds of the totals cancel out.
\<close>

theorem healthy_totals:
  assumes "0 < n" "0x65 \<le> mutex" "well_timed 0 bs" "bs \<noteq> []"
  shows "\<exists>hs. healthy_run (requests_of bs) (healthy_new True n mutex) = Some hs \<and>
           hs_totalTime hs = sum_list (take (nat n) (rev (map block_time (butlast bs)))) \<and>
           hs_totalCount hs = sum_list (take (nat n) (rev (map block_count (butlast bs))))"
proof -
  have zero: "sum_list (take k [0 :: u32]) = 0" for k
    by (cases k) simp_all
  have init: "hs_currentTime (healthy_new True n mutex) = 0" "hs_curTotalTime (healthy_new True n mutex) = 0"
    "hs_curCount (healthy_new True n mutex) = 0"
    by (simp_all add: healthy_new_def)
  show ?thesis
    using healthy_blocks [OF healthy_new_rep [OF assms(1,2)], of bs] assms(3,4)
    by (auto simp: init healthy_rep_def zero)
qed

theorem healthy_totals_witness:
  "\<exists>hs. healthy_run [(30, 7), (10, 7), (5, 8), (1, 9), (2, 9)] (healthy_new True 2 4096) = Some hs \<and>
        hs_totalTime hs = 45 \<and> hs_totalCount hs = 3"
  using healthy_totals [of 2 4096 "[(7, [30, 10]), (8, [5]), (9, [1, 2])]"]
  by (simp add: requests_of_def)

text \<open>
  However a server's status was reached by recorded requests and earlier checks, the
  health check returns, and the selection rate it gives lies between the configured minimum
  and 1; recording a further request returns as well.
\<close>

theorem select_rate_bounds:
  assumes "healthy_reach n hs" "0 \<le> minRate" "minRate \<le> 1"
  shows "\<exists>rate hs'. getSelectRate timeout checkTime minRate tm hs = Some (rate, hs') \<and>
           minRate \<le> rate \<and> rate \<le> 1 \<and> healthy_add p t hs \<noteq> None"
proof -
  obtain ts cs where rep: "healthy_rep n ts cs hs" "hs_lastSelectRate hs \<le> 1"
    using healthy_reach_rep [OF assms(1)] by blast
  then show ?thesis
    using getSelectRate_rep [OF rep(1), of timeout checkTime minRate tm] healthy_add_rep [OF rep(1), of p t]
      assms(2,3) by auto
qed

theorem select_rate_bounds_witness:
  "\<exists>rate hs'. getSelectRate 100 3 (1 / 10) 50 (healthy_new True 5 4096) = Some (rate, hs') \<and>
     1 / 10 \<le> rate \<and> rate \<le> 1"
  using select_rate_bounds [OF healthy_reach.created [of 5 4096], where minRate = "1 / 10"
    and timeout = 100 and checkTime = 3 and tm = 50 and p = 0 and t = 0] by auto

text \<open>
  When the check is due and the averages are usable, the rate is
  \<open>(timeout - recent) / (timeout - total)\<close> clipped to \<open>minRate..1\<close>, where \<open>recent\<close> is the mean time
  of the last \<open>checkTime\<close> remembered seconds: a server that is not slower than its own long
  term average keeps rate 1, one whose recent mean reaches the timeout falls to the minimum; the
  rate is kept until the next check.
\<close>

theorem select_rate_formula:
  assumes "healthy_rep n ts cs hs" "hs_lastCheckTime hs + checkTime \<le> tm" "minRate \<le> 1"
    and "sum_list (take (nat (min checkTime (int n))) cs) \<noteq> 0"
    and "recent = real (unat (sum_list (take (nat (min checkTime (int n))) ts))) /
                  real (unat (sum_list (take (nat (min checkTime (int n))) cs)))"
    and "1 / 10 ^ 6 \<le> total_avg hs" "1 / 10 ^ 6 \<le> recent" "total_avg hs < real (unat timeout)"
  shows "\<exists>rate hs'. getSelectRate timeout checkTime minRate tm hs = Some (rate, hs') \<and>
           rate = max minRate (min 1 ((real (unat timeout) - recent) / (real (unat timeout) - total_avg hs))) \<and>
           (recent \<le> total_avg hs \<longrightarrow> rate = 1) \<and>
           (real (unat timeout) \<le> recent \<longrightarrow> 0 \<le> minRate \<longrightarrow> rate = minRate) \<and>
           (tm' < tm + checkTime \<longrightarrow> getSelectRate timeout checkTime minRate tm' hs' = Some (rate, hs'))"
proof -
  let ?r = "(real (unat timeout) - recent) / (real (unat timeout) - total_avg hs)"
  let ?m = "max minRate (min 1 ?r)"
  have mx: "\<not> bad_mutex hs" using assms(1) by (simp add: healthy_rep_def)
  have ra: "recent_avg checkTime timeout hs = Some recent"
    using recent_avg_window [OF assms(1), of checkTime timeout] assms(4,5) by (simp add: Let_def)
  have clip: "(if ?r < minRate then minRate else if ?r > 1 then 1 else ?r) = ?m"
    using assms(3) by (simp add: max_def min_def)
  have "\<not> (total_avg hs < 1 / 10 ^ 6 \<or> recent < 1 / 10 ^ 6)" "\<not> real (unat timeout) \<le> total_avg hs"
    using assms(6-8) by auto
  then have get: "getSelectRate timeout checkTime minRate tm hs =
      Some (?m, hs\<lparr>hs_lastSelectRate := ?m, hs_lastCheckTime := tm\<rparr>)"
    using mx assms(2) clip by (simp only: getSelectRate_def ra Let_def if_False if_True bind.bind_lunit)
  have fast: "?m = 1" if "recent \<le> total_avg hs"
  proof -
    have "1 \<le> ?r" using that assms(8) by (simp add: le_divide_eq)
    then show ?thesis using assms(3) by simp
  qed
  have slow: "?m = minRate" if "real (unat timeout) \<le> recent" "0 \<le> minRate"
  proof -
    have "?r \<le> 0" using that(1) assms(8) by (simp add: divide_le_0_iff)
    then show ?thesis using that(2) by simp
  qed
  have kept: "getSelectRate timeout checkTime minRate tm' (hs\<lparr>hs_lastSelectRate := ?m, hs_lastCheckTime := tm\<rparr>) =
      Some (?m, hs\<lparr>hs_lastSelectRate := ?m, hs_lastCheckTime := tm\<rparr>)" if "tm' < tm + checkTime"
    using that mx by (simp add: getSelectRate_def Let_def bad_mutex_def)
  show ?thesis using get fast slow kept by blast
qed

theorem select_rate_formula_witness:
  "\<exists>hs rate hs'. getSelectRate 100 3 (1 / 10) 50 hs = Some (rate, hs') \<and> rate = (100 - 60) / (100 - 60) \<and>
     getSelectRate 100 3 (1 / 10) 52 hs' = Some (rate, hs')"
proof -
  let ?q = "\<lambda>v. \<lparr>ring_cells = [\<lparr>nd_value = v, nd_valid = True\<rparr>], queueSize = 1, nextPos = 0\<rparr>"
  let ?hs = "\<lparr>hs_curTotalTime = 0, hs_curCount = 0, hs_timeQueue = ?q 120, hs_countQueue = ?q 2,
      hs_totalTime = 120, hs_totalCount = 2, hs_currentTime = 9, hs_lastCheckTime = 0,
      hs_lastSelectRate = 0, hs_mutex = 4096\<rparr>"
  have "healthy_rep 1 [120] [2] ?hs" by (simp add: healthy_rep_def ring_abs_def bad_mutex_def)
  from select_rate_formula [OF this, of 3 50 "1 / 10" 60 100 52]
  show ?thesis by (auto simp: total_avg_def)
qed

end
