(* ===== verification/SlbFilter.thy ===== *)
theory SlbFilter
  imports SlbStatus Partitions
begin

text \<open>
  The filters of the load balancer (\<open>deps/slb/filter\<close>, \<open>deps/slb/balance\<close>): each one marks, scores,
  sorts or selects in the array of \<open>server_rank_t\<close> of one request. \<open>rand()\<close> and \<open>time(NULL)\<close> are
  parameters that draw from a world of their own; \<open>std::sort\<close> (not stable), MD5, the
  configuration object and the resource pool are parameters too. \<open>None\<close> is a crash: an access
  through a NULL status, outside an array, or a remainder by zero.
\<close>

section \<open>Data (strategy/server_rank_t.h, request_t.h, slb_define.h)\<close>

definition MAX_SERVER_SIZE :: nat where
  "MAX_SERVER_SIZE = 64"

definition SLB_DEF_QUEUE_SIZE :: int where
  "SLB_DEF_QUEUE_SIZE = 100"

record slb_server =
  sl_isHealthy :: bool
  sl_enable :: bool
  sl_id :: int
  sl_port :: int
  sl_ip :: string
  sl_tag :: "string option"

text \<open>
  The pointer \<open>server\<close> of a rank is the server it points to: \<open>PrepareFilter\<close>, the first of the
  chain, sets it before anything reads it, and never to NULL.
\<close>

record server_rank =
  r_serverId :: nat
  r_machineRoom :: "string option"
  r_crossRoom :: bool
  r_server :: slb_server
  r_balanceRank :: nat
  r_connectScore :: real
  r_healthyScore :: real
  r_healthySelectRate :: real
  r_disabled :: bool
  r_useBackup :: bool
  r_backupServerId :: nat

record slb_req =
  q_key :: int
  q_nthRetry :: int
  q_server :: "slb_server list"
  q_room :: string
  q_ranks :: "server_rank list"
  q_mustSelectOneServer :: bool
  q_needHealthyFilter :: bool

text \<open>The ranks are a C array of \<open>serverNum\<close> elements.\<close>

abbreviation q_serverNum :: "slb_req \<Rightarrow> nat" where
  "q_serverNum q \<equiv> length (q_ranks q)"

text \<open>The sources of change outside the library: the generator and the clock.\<close>

record 'w world =
  w_rand :: "'w \<Rightarrow> nat \<times> 'w"
  w_time :: "'w \<Rightarrow> int \<times> 'w"

record slb_conf =
  sc_double :: "string \<Rightarrow> real option"
  sc_uint32 :: "string \<Rightarrow> u32 option"
  sc_int32 :: "string \<Rightarrow> int option"
  sc_cstr :: "string \<Rightarrow> string option"

definition is_rank_sort :: "(server_rank list \<Rightarrow> server_rank list) \<Rightarrow> bool" where
  "is_rank_sort srt \<longleftrightarrow> (\<forall>rs. mset (srt rs) = mset rs \<and>
     sorted_wrt (\<lambda>a b. r_balanceRank b \<le> r_balanceRank a) (srt rs))"

definition is_backup_sort :: "((nat \<times> nat) list \<Rightarrow> (nat \<times> nat) list) \<Rightarrow> bool" where
  "is_backup_sort srt \<longleftrightarrow> (\<forall>bs. mset (srt bs) = mset bs \<and> sorted_wrt (\<lambda>a b. fst b \<le> fst a) (srt bs))"

section \<open>PrepareFilter\<close>

definition prepare_rank :: "nat \<Rightarrow> slb_server \<Rightarrow> string \<Rightarrow> server_rank \<Rightarrow> server_rank" where
  "prepare_rank i sv room r =
     (let r = r\<lparr>r_serverId := i, r_server := sv, r_machineRoom := sl_tag sv\<rparr>;
          r = (if \<not> sl_enable sv \<or> \<not> sl_isHealthy sv then r\<lparr>r_disabled := True\<rparr> else r)
      in r\<lparr>r_crossRoom := (case r_machineRoom r of None \<Rightarrow> False
                           | Some m \<Rightarrow> \<not> (m = [] \<or> room = [] \<or> m = room))\<rparr>)"

definition prepare_filter :: "slb_req \<Rightarrow> int \<times> slb_req" where
  "prepare_filter q =
     (0, q\<lparr>q_ranks := map (\<lambda>i. prepare_rank i (q_server q ! i) (q_room q) (q_ranks q ! i)) [0..<q_serverNum q]\<rparr>)"

section \<open>BalanceFilter and the balances\<close>

datatype balance = RandomBalance | ConsistencyBalance | RoundRobinBalance u32

definition INT_NEG1 :: u32 where
  "INT_NEG1 = - 1"

definition lower_case :: "string \<Rightarrow> string" where
  "lower_case s = map (\<lambda>c. let k = of_char c :: nat in if 65 \<le> k \<and> k \<le> 90 then char_of (k + 32) else c) s"

definition strcaseeq :: "string \<Rightarrow> string \<Rightarrow> bool" where
  "strcaseeq a b \<longleftrightarrow> lower_case a = lower_case b"

definition get_balance :: "slb_conf \<Rightarrow> balance option" where
  "get_balance conf =
     (case sc_cstr conf ''Balance'' of
        None \<Rightarrow> Some RandomBalance
      | Some b \<Rightarrow>
          if strcaseeq ''Random'' b then Some RandomBalance
          else if strcaseeq ''Consistency'' b then Some ConsistencyBalance
          else if strcaseeq ''RoundRobin'' b then Some (RoundRobinBalance INT_NEG1)
          else None)"

primrec random_ranks :: "('w, 'z) world_scheme \<Rightarrow> server_rank list \<Rightarrow> 'w \<Rightarrow> server_rank list \<times> 'w" where
  "random_ranks W [] w = ([], w)"
| "random_ranks W (r # rs) w =
     (let (v, w) = w_rand W w; (rs', w) = random_ranks W rs w in (r\<lparr>r_balanceRank := v\<rparr> # rs', w))"

text \<open>RandomBalance::balanceServer\<close>

definition random_balance_server :: "('w, 'z) world_scheme \<Rightarrow> slb_req \<Rightarrow> 'w \<Rightarrow> int \<times> slb_req \<times> 'w" where
  "random_balance_server W q w =
     (if q_serverNum q = 0 then (- 1, q, w)
      else let (rs, w) = random_ranks W (q_ranks q) w in (0, q\<lparr>q_ranks := rs\<rparr>, w))"

text \<open>ConsistencyBalance::balanceServer: the key of the hash, and the sum of its four words.\<close>

definition consistency_key :: "slb_server \<Rightarrow> int \<Rightarrow> string" where
  "consistency_key sv k =
     sl_ip sv @ ''#'' @ print_nat (unat (of_int (sl_port sv) :: u32)) @ ''#'' @ print_int k"

definition consistency_balance_server ::
    "(string \<Rightarrow> u32 \<times> u32 \<times> u32 \<times> u32) \<Rightarrow> slb_req \<Rightarrow> int \<times> slb_req" where
  "consistency_balance_server md5 q =
     (if q_serverNum q = 0 then (- 1, q)
      else (0, q\<lparr>q_ranks := map (\<lambda>r.
              (case md5 (consistency_key (r_server r) (q_key q)) of
                 (a, b, c, d) \<Rightarrow> r\<lparr>r_balanceRank := unat (a + b + c + d)\<rparr>)) (q_ranks q)\<rparr>))"

text \<open>RoundRobinBalance::balanceServer; \<open>_lastId\<close> is the counter, an \<open>int\<close>.\<close>

definition round_robin_cur :: "u32 \<Rightarrow> nat \<Rightarrow> nat" where
  "round_robin_cur lastId serverNum =
     (let lastId = (if sint lastId < 0 then INT_NEG1 else lastId) in unat (lastId + 1) mod serverNum)"

primrec round_robin_ranks ::
    "('w, 'z) world_scheme \<Rightarrow> nat \<Rightarrow> nat \<Rightarrow> nat list \<Rightarrow> server_rank list \<Rightarrow> 'w \<Rightarrow> server_rank list \<times> 'w" where
  "round_robin_ranks W n curId [] rs w = (rs, w)"
| "round_robin_ranks W n curId (i # is) rs w =
     (if i = curId then round_robin_ranks W n curId is (rs[i := (rs ! i)\<lparr>r_balanceRank := n + 1\<rparr>]) w
      else let (v, w) = w_rand W w
           in round_robin_ranks W n curId is (rs[i := (rs ! i)\<lparr>r_balanceRank := v mod n\<rparr>]) w)"

definition round_robin_balance_server ::
    "('w, 'z) world_scheme \<Rightarrow> u32 \<Rightarrow> slb_req \<Rightarrow> 'w \<Rightarrow> int \<times> u32 \<times> slb_req \<times> 'w" where
  "round_robin_balance_server W lastId q w =
     (if q_serverNum q = 0 then (- 1, lastId, q, w)
      else let n = q_serverNum q;
               (rs, w) = round_robin_ranks W n (round_robin_cur lastId n) [0..<n] (q_ranks q) w
           in (0, lastId + 1, q\<lparr>q_ranks := rs\<rparr>, w))"

definition balance_server ::
    "('w, 'z) world_scheme \<Rightarrow> (string \<Rightarrow> u32 \<times> u32 \<times> u32 \<times> u32) \<Rightarrow> balance \<Rightarrow> slb_req \<Rightarrow> 'w \<Rightarrow>
     int \<times> balance \<times> slb_req \<times> 'w" where
  "balance_server W md5 b q w =
     (case b of
        RandomBalance \<Rightarrow> (case random_balance_server W q w of (ret, q, w) \<Rightarrow> (ret, b, q, w))
      | ConsistencyBalance \<Rightarrow> (case consistency_balance_server md5 q of (ret, q) \<Rightarrow> (ret, b, q, w))
      | RoundRobinBalance lastId \<Rightarrow>
          (case round_robin_balance_server W lastId q w of
             (ret, lastId, q, w) \<Rightarrow> (ret, RoundRobinBalance lastId, q, w)))"

definition balance_filter ::
    "('w, 'z) world_scheme \<Rightarrow> (string \<Rightarrow> u32 \<times> u32 \<times> u32 \<times> u32) \<Rightarrow> (server_rank list \<Rightarrow> server_rank list) \<Rightarrow>
     balance option \<Rightarrow> slb_req \<Rightarrow> 'w \<Rightarrow> int \<times> balance option \<times> slb_req \<times> 'w" where
  "balance_filter W md5 srt bal q w =
     (case bal of
        None \<Rightarrow> (- 1, None, q, w)
      | Some b \<Rightarrow>
          (case balance_server W md5 b q w of
             (ret, b, q, w) \<Rightarrow>
               if ret < 0 then (ret, Some b, q, w)
               else (0, Some b, q\<lparr>q_ranks := srt (q_ranks q)\<rparr>, w)))"

definition balance_load :: "slb_conf \<Rightarrow> int \<times> balance option" where
  "balance_load conf = (case get_balance conf of None \<Rightarrow> (- 1, None) | Some b \<Rightarrow> (0, Some b))"

definition balance_reload :: "slb_conf \<Rightarrow> balance option \<Rightarrow> int \<times> balance option" where
  "balance_reload conf bal = (case get_balance conf of None \<Rightarrow> (0, bal) | Some b \<Rightarrow> (0, Some b))"

section \<open>ConnectFilter\<close>

record connect_filter =
  cf_status :: "nat \<Rightarrow> conn_status option"
  cf_x1 :: real
  cf_y1 :: real
  cf_x2 :: real
  cf_y2 :: real
  cf_loadSucc :: bool

definition connect_filter_new :: connect_filter where
  "connect_filter_new = \<lparr>cf_status = (\<lambda>_. None), cf_x1 = 0, cf_y1 = 0, cf_x2 = 0, cf_y2 = 0, cf_loadSucc = False\<rparr>"

definition connect_rate :: "connect_filter \<Rightarrow> int \<Rightarrow> real" where
  "connect_rate f failedCount =
     (let c = real_of_int failedCount in
      if 0 \<le> failedCount \<and> c < cf_x1 f then c * (cf_y1 f - 100) / cf_x1 f + 100
      else if cf_x1 f \<le> c \<and> c < cf_x2 f then
        c * (cf_y2 f - cf_y1 f) / (cf_x2 f - cf_x1 f) + cf_y1 f - (cf_y2 f - cf_y1 f) / (cf_x2 f - cf_x1 f) * cf_x1 f
      else cf_y2 f)"

definition connect_mark :: "('w, 'z) world_scheme \<Rightarrow> connect_filter \<Rightarrow> server_rank \<Rightarrow> 'w \<Rightarrow> (server_rank \<times> 'w) option" where
  "connect_mark W f r w =
     (if r_serverId r \<ge> MAX_SERVER_SIZE then Some (r, w)
      else do {
        status \<leftarrow> cf_status f (r_serverId r);
        let rate = connect_rate f (cs_failedCount status);
        let (v, w) = w_rand W w;
        let r = r\<lparr>r_connectScore := rate / 100\<rparr>;
        Some (if real (v mod 100) > rate then r\<lparr>r_disabled := True\<rparr> else r, w)
      })"

primrec connect_marks ::
    "('w, 'z) world_scheme \<Rightarrow> connect_filter \<Rightarrow> server_rank list \<Rightarrow> 'w \<Rightarrow> (server_rank list \<times> 'w) option" where
  "connect_marks W f [] w = Some ([], w)"
| "connect_marks W f (r # rs) w =
     do { (r, w) \<leftarrow> connect_mark W f r w; (rs, w) \<leftarrow> connect_marks W f rs w; Some (r # rs, w) }"

definition connect_doFilter ::
    "('w, 'z) world_scheme \<Rightarrow> connect_filter \<Rightarrow> slb_req \<Rightarrow> 'w \<Rightarrow> (int \<times> slb_req \<times> 'w) option" where
  "connect_doFilter W f q w =
     (if \<not> cf_loadSucc f then Some (0, q, w)
      else do { (rs, w) \<leftarrow> connect_marks W f (q_ranks q) w; Some (0, q\<lparr>q_ranks := rs\<rparr>, w) })"

text \<open>
  Loading. The four reads come in the order of the code; a failed one leaves the filter off.
  \<open>alloc i\<close> is the outcome of the \<open>i\<close>-th \<open>createp\<close>: \<open>None\<close> when it throws, else whether the
  ring of the status got its memory. A failed read is a nonzero error code or an exception.
\<close>

definition read_curve :: "slb_conf \<Rightarrow> connect_filter \<Rightarrow> connect_filter option" where
  "read_curve conf f =
     do {
       x1 \<leftarrow> sc_double conf ''ConnectX1'';
       y1 \<leftarrow> sc_double conf ''ConnectY1'';
       x2 \<leftarrow> sc_double conf ''ConnectX2'';
       y2 \<leftarrow> sc_double conf ''ConnectY2'';
       Some (f\<lparr>cf_x1 := x1, cf_y1 := y1, cf_x2 := x2, cf_y2 := y2\<rparr>)
     }"

definition read_queue_size :: "slb_conf \<Rightarrow> string \<Rightarrow> int" where
  "read_queue_size conf name =
     (case sc_int32 conf name of
        None \<Rightarrow> 100
      | Some n \<Rightarrow> if n > SLB_DEF_QUEUE_SIZE \<or> n \<le> 0 then SLB_DEF_QUEUE_SIZE else n)"

primrec create_statuses :: "(nat \<Rightarrow> 'a option) \<Rightarrow> ('a \<Rightarrow> 's) \<Rightarrow> nat list \<Rightarrow> (nat \<Rightarrow> 's option) \<Rightarrow> bool \<times> (nat \<Rightarrow> 's option)" where
  "create_statuses alloc mk [] st = (True, st)"
| "create_statuses alloc mk (i # is) st =
     (case alloc i of
        None \<Rightarrow> (False, st)
      | Some ok \<Rightarrow> create_statuses alloc mk is (st(i \<mapsto> mk ok)))"

definition connect_load :: "slb_conf \<Rightarrow> (nat \<Rightarrow> bool option) \<Rightarrow> connect_filter \<Rightarrow> int \<times> connect_filter" where
  "connect_load conf alloc f =
     (case read_curve conf f of
        None \<Rightarrow> (0, f)
      | Some f \<Rightarrow>
          (case create_statuses alloc (\<lambda>ok. conn_status_new ok (read_queue_size conf ''ConnectQueueSize''))
                  [0..<MAX_SERVER_SIZE] (cf_status f) of
             (done, st) \<Rightarrow> (0, if done then f\<lparr>cf_status := st, cf_loadSucc := True\<rparr> else f\<lparr>cf_status := st\<rparr>)))"

definition connect_reload :: "slb_conf \<Rightarrow> connect_filter \<Rightarrow> int \<times> connect_filter" where
  "connect_reload conf f =
     (if \<not> cf_loadSucc f then (0, f)
      else let f = f\<lparr>cf_loadSucc := False\<rparr> in
           case read_curve conf f of None \<Rightarrow> (0, f) | Some f \<Rightarrow> (0, f\<lparr>cf_loadSucc := True\<rparr>))"

definition updateConnectStatus :: "slb_server \<Rightarrow> int \<Rightarrow> connect_filter \<Rightarrow> (int \<times> connect_filter) option" where
  "updateConnectStatus sv errNo f =
     (if \<not> cf_loadSucc f then Some (0, f)
      else if sl_id sv \<ge> int MAX_SERVER_SIZE then Some (- 1, f)
      else if sl_id sv < 0 then None
      else do {
        status \<leftarrow> cf_status f (nat (sl_id sv));
        status \<leftarrow> conn_insert (if errNo \<noteq> 0 then 1 else 0) status;
        Some (0, f\<lparr>cf_status := (cf_status f)(nat (sl_id sv) \<mapsto> status)\<rparr>)
      })"

section \<open>HealthyFilter\<close>

record healthy_filter =
  hf_timeout :: u32
  hf_minRate :: real
  hf_checkTime :: u32
  hf_status :: "nat \<Rightarrow> healthy_status option"
  hf_K :: real
  hf_loadSucc :: bool

definition healthy_filter_new :: healthy_filter where
  "healthy_filter_new = \<lparr>hf_timeout = 0, hf_minRate = 0, hf_checkTime = 0, hf_status = (\<lambda>_. None), hf_K = 0,
                         hf_loadSucc = False\<rparr>"

text \<open>The first loop: the selection rate of every server, and the draw against it.\<close>

definition healthy_mark ::
    "('w, 'z) world_scheme \<Rightarrow> healthy_filter \<Rightarrow> server_rank \<Rightarrow> 'w \<Rightarrow> (healthy_filter \<times> server_rank \<times> 'w) option" where
  "healthy_mark W f r w =
     (if r_serverId r \<ge> MAX_SERVER_SIZE then Some (f, r, w)
      else do {
        hs \<leftarrow> hf_status f (r_serverId r);
        let (tm, w) = w_time W w;
        (rate, hs) \<leftarrow> getSelectRate (hf_timeout f) (sint (hf_checkTime f)) (hf_minRate f) tm hs;
        let f = f\<lparr>hf_status := (hf_status f)(r_serverId r \<mapsto> hs)\<rparr>;
        let (v, w) = w_rand W w;
        let r = r\<lparr>r_healthyScore := rate\<rparr>;
        Some (f, if real (v mod 100) > rate * 100 then r\<lparr>r_disabled := True\<rparr> else r, w)
      })"

primrec healthy_marks ::
    "('w, 'z) world_scheme \<Rightarrow> healthy_filter \<Rightarrow> server_rank list \<Rightarrow> 'w \<Rightarrow>
     (healthy_filter \<times> server_rank list \<times> 'w) option" where
  "healthy_marks W f [] w = Some (f, [], w)"
| "healthy_marks W f (r # rs) w =
     do { (f, r, w) \<leftarrow> healthy_mark W f r w; (f, rs, w) \<leftarrow> healthy_marks W f rs w; Some (f, r # rs, w) }"

definition avg_of :: "healthy_filter \<Rightarrow> nat \<Rightarrow> real option" where
  "avg_of f i = map_option getTotalAvgTime (hf_status f i)"

text \<open>The second loop: the speed of the servers of this room, and their number.\<close>

primrec sum_speeds :: "healthy_filter \<Rightarrow> server_rank list \<Rightarrow> real \<Rightarrow> int \<Rightarrow> (real \<times> int) option" where
  "sum_speeds f [] sumSpeed cnt = Some (sumSpeed, cnt)"
| "sum_speeds f (r # rs) sumSpeed cnt =
     (if r_serverId r \<ge> MAX_SERVER_SIZE \<or> r_crossRoom r then sum_speeds f rs sumSpeed cnt
      else do {
        avgTime \<leftarrow> avg_of f (r_serverId r);
        sum_speeds f rs (if avgTime > 1 / 10 ^ 6 then sumSpeed + 1 / avgTime else sumSpeed) (cnt + 1)
      })"

text \<open>The third loop: the speed of a server relative to the mean of its room.\<close>

definition speed_mark :: "healthy_filter \<Rightarrow> real \<Rightarrow> int \<Rightarrow> server_rank \<Rightarrow> server_rank option" where
  "speed_mark f sumSpeed cnt r =
     (if r_serverId r \<ge> MAX_SERVER_SIZE \<or> r_crossRoom r \<or> r_disabled r then Some r
      else do {
        avgTime \<leftarrow> avg_of f (r_serverId r);
        Some (if avgTime < 1 / 10 ^ 6 \<or> sumSpeed < 1 / 10 ^ 6 then r\<lparr>r_healthySelectRate := 1\<rparr>
              else r\<lparr>r_healthySelectRate := (1 / avgTime) / (sumSpeed / real_of_int cnt)\<rparr>)
      })"

primrec speed_marks :: "healthy_filter \<Rightarrow> real \<Rightarrow> int \<Rightarrow> server_rank list \<Rightarrow> server_rank list option" where
  "speed_marks f sumSpeed cnt [] = Some []"
| "speed_marks f sumSpeed cnt (r # rs) =
     do { r \<leftarrow> speed_mark f sumSpeed cnt r; rs \<leftarrow> speed_marks f sumSpeed cnt rs; Some (r # rs) }"

text \<open>
  The last loop: a server drawn out by its speed is replaced by the best balanced one that is at
  least \<open>K\<close> times as fast. An entry of \<open>backup\<close> is its balance and its id (the speed stored
  beside them and the sum of the speeds are never read).
\<close>

primrec backup_list ::
    "healthy_filter \<Rightarrow> server_rank list \<Rightarrow> nat \<Rightarrow> real \<Rightarrow> nat list \<Rightarrow> (nat \<times> nat) list option" where
  "backup_list f rs i avgTime [] = Some []"
| "backup_list f rs i avgTime (j # js) =
     (let r = rs ! j in
      if r_disabled r \<or> r_crossRoom r \<or> i = j \<or> r_serverId r \<ge> MAX_SERVER_SIZE
      then backup_list f rs i avgTime js
      else do {
        tj \<leftarrow> avg_of f (r_serverId r);
        rest \<leftarrow> backup_list f rs i avgTime js;
        Some (if avgTime \<ge> tj * hf_K f then (r_balanceRank r, r_serverId r) # rest else rest)
      })"

primrec backup_loop ::
    "('w, 'z) world_scheme \<Rightarrow> ((nat \<times> nat) list \<Rightarrow> (nat \<times> nat) list) \<Rightarrow> healthy_filter \<Rightarrow> nat list \<Rightarrow>
     server_rank list \<Rightarrow> 'w \<Rightarrow> (server_rank list \<times> 'w) option" where
  "backup_loop W bsrt f [] rs w = Some (rs, w)"
| "backup_loop W bsrt f (i # is) rs w =
     do {
       let r = rs ! i;
       avgTime \<leftarrow> avg_of f (r_serverId r);
       let (v, w) = w_rand W w;
       if real (v mod 100) > r_healthySelectRate r * 100
       then do {
         backup \<leftarrow> backup_list f rs i avgTime [0..<length rs];
         let rs = (if backup \<noteq> []
                   then rs[i := r\<lparr>r_backupServerId := snd (hd (bsrt backup)), r_disabled := True, r_useBackup := True\<rparr>]
                   else rs);
         backup_loop W bsrt f is rs w
       }
       else backup_loop W bsrt f is rs w
     }"

definition healthy_doFilter ::
    "('w, 'z) world_scheme \<Rightarrow> ((nat \<times> nat) list \<Rightarrow> (nat \<times> nat) list) \<Rightarrow> healthy_filter \<Rightarrow> slb_req \<Rightarrow> 'w \<Rightarrow>
     (int \<times> healthy_filter \<times> slb_req \<times> 'w) option" where
  "healthy_doFilter W bsrt f q w =
     (if \<not> hf_loadSucc f \<or> \<not> q_needHealthyFilter q then Some (0, f, q, w)
      else do {
        (f, rs, w) \<leftarrow> healthy_marks W f (q_ranks q) w;
        (sumSpeed, cnt) \<leftarrow> sum_speeds f rs 0 0;
        rs \<leftarrow> speed_marks f sumSpeed cnt rs;
        (rs, w) \<leftarrow> backup_loop W bsrt f [0..<length rs] rs w;
        Some (0, f, q\<lparr>q_ranks := rs\<rparr>, w)
      })"

definition read_healthy :: "slb_conf \<Rightarrow> healthy_filter \<Rightarrow> healthy_filter option" where
  "read_healthy conf f =
     do {
       tmo \<leftarrow> sc_uint32 conf ''HealthyTimeout'';
       ct \<leftarrow> sc_uint32 conf ''HealthyCheckTime'';
       mr \<leftarrow> sc_double conf ''HealthyMinRate'';
       k \<leftarrow> sc_double conf ''HealthyBackupThreshold'';
       Some (f\<lparr>hf_timeout := tmo, hf_checkTime := ct, hf_minRate := mr, hf_K := k\<rparr>)
     }"

definition healthy_load :: "slb_conf \<Rightarrow> (nat \<Rightarrow> (bool \<times> nat) option) \<Rightarrow> healthy_filter \<Rightarrow> int \<times> healthy_filter" where
  "healthy_load conf alloc f =
     (case read_healthy conf f of
        None \<Rightarrow> (0, f)
      | Some f \<Rightarrow>
          (case create_statuses alloc (\<lambda>(ok, m). healthy_new ok (read_queue_size conf ''HealthyQueueSize'') m)
                  [0..<MAX_SERVER_SIZE] (hf_status f) of
             (done, st) \<Rightarrow> (0, if done then f\<lparr>hf_status := st, hf_loadSucc := True\<rparr> else f\<lparr>hf_status := st\<rparr>)))"

definition healthy_reload :: "slb_conf \<Rightarrow> healthy_filter \<Rightarrow> int \<times> healthy_filter" where
  "healthy_reload conf f =
     (if \<not> hf_loadSucc f then (0, f)
      else let f = f\<lparr>hf_loadSucc := False\<rparr> in
           case read_healthy conf f of None \<Rightarrow> (0, f) | Some f \<Rightarrow> (0, f\<lparr>hf_loadSucc := True\<rparr>))"

text \<open>\<open>realreadtime\<close> is an \<open>int\<close>, the clock a \<open>time_t\<close>; both are stored as \<open>uint\<close>.\<close>

definition updateRequestStatus :: "slb_server \<Rightarrow> int \<Rightarrow> int \<Rightarrow> healthy_filter \<Rightarrow> (int \<times> healthy_filter) option" where
  "updateRequestStatus sv realreadtime tm f =
     (if \<not> hf_loadSucc f then Some (0, f)
      else if unat (of_int (sl_id sv) :: u32) \<ge> MAX_SERVER_SIZE then Some (- 1, f)
      else do {
        hs \<leftarrow> hf_status f (unat (of_int (sl_id sv) :: u32));
        hs \<leftarrow> healthy_add (of_int realreadtime) (of_int tm) hs;
        Some (0, f\<lparr>hf_status := (hf_status f)(unat (of_int (sl_id sv) :: u32) \<mapsto> hs)\<rparr>)
      })"

section \<open>CrossRoomFilter\<close>

definition cross_load :: "slb_conf \<Rightarrow> bool" where
  "cross_load conf = (case sc_cstr conf ''CrossRoom'' of None \<Rightarrow> False | Some c \<Rightarrow> strcaseeq c ''On'')"

definition cross_reload :: "slb_conf \<Rightarrow> bool \<Rightarrow> bool" where
  "cross_reload conf on = (case sc_cstr conf ''CrossRoom'' of None \<Rightarrow> on | Some c \<Rightarrow> strcaseeq c ''On'')"

text \<open>The index of the first rank with a property, in the order of the array.\<close>

definition first_rank :: "(server_rank \<Rightarrow> bool) \<Rightarrow> server_rank list \<Rightarrow> nat option" where
  "first_rank P rs = List.find (\<lambda>i. P (rs ! i)) [0..<length rs]"

definition cross_doFilter :: "bool \<Rightarrow> slb_req \<Rightarrow> int \<times> slb_req" where
  "cross_doFilter on q =
     (if \<not> on \<or> q_nthRetry q > 0 then (0, q)
      else case first_rank (\<lambda>r. \<not> r_crossRoom r \<and> sl_enable (r_server r)) (q_ranks q) of
        None \<Rightarrow> (0, q)
      | Some s \<Rightarrow>
          if \<not> r_disabled (q_ranks q ! s) then (0, q)
          else
            let cross = map_option (\<lambda>c. r_serverId (q_ranks q ! c))
                          (first_rank (\<lambda>r. r_crossRoom r \<and> sl_enable (r_server r) \<and> \<not> r_disabled r) (q_ranks q));
                rs = (case cross of
                        None \<Rightarrow> q_ranks q
                      | Some c \<Rightarrow> (q_ranks q)[s := (q_ranks q ! s)\<lparr>r_backupServerId := c, r_useBackup := True\<rparr>]);
                rs = map (\<lambda>r. if cross = Some (r_serverId r) then r
                              else if r_crossRoom r \<and> \<not> r_disabled r then r\<lparr>r_disabled := True\<rparr> else r) rs
            in (0, q\<lparr>q_ranks := rs\<rparr>))"

section \<open>SelectFilter\<close>

text \<open>\<open>(int) serverId\<close> of a rank that can be selected, -1 for one that cannot.\<close>

definition select_id :: "server_rank \<Rightarrow> int" where
  "select_id r = (if \<not> r_disabled r then int (r_serverId r)
                  else if r_useBackup r then int (r_backupServerId r) else - 1)"

primrec select_loop :: "int \<Rightarrow> int \<Rightarrow> server_rank list \<Rightarrow> int" where
  "select_loop retry cnt [] = - 1"
| "select_loop retry cnt (r # rs) =
     (if r_crossRoom r then select_loop retry cnt rs
      else let serverId = select_id r in
           if serverId \<ge> 0 \<and> cnt = retry then serverId
           else select_loop retry (if serverId \<ge> 0 then cnt + 1 else cnt) rs)"

definition select_doFilter :: "('w, 'z) world_scheme \<Rightarrow> slb_req \<Rightarrow> 'w \<Rightarrow> (int \<times> 'w) option" where
  "select_doFilter W q w =
     (let ret = select_loop (q_nthRetry q) 0 (q_ranks q) in
      if ret \<ge> 0 then Some (ret, w)
      else if q_serverNum q = 0 then None
      else let (v, w) = w_rand W w; n = q_serverNum q; rd = v mod n;
               usable = (\<lambda>r. if q_mustSelectOneServer q
                             then sl_enable (r_server r) \<and> sl_isHealthy (r_server r) \<and> \<not> r_crossRoom r
                             else \<not> r_disabled r)
           in Some (case List.find (\<lambda>i. usable (q_ranks q ! ((i + rd) mod n))) [0..<n] of
                      None \<Rightarrow> - 1
                    | Some i \<Rightarrow> int (r_serverId (q_ranks q ! ((i + rd) mod n))), w))"

end
