(* ===== verification/Slb.thy ===== *)
theory Slb
  imports SlbFilter
begin

text \<open>
  The strategy of the load balancer (\<open>deps/slb/strategy/CamelSuperStrategy.cpp\<close>,
  \<open>filter/ChainFilter.cpp\<close>): the chain of the six filters, the selection of a server and the
  feedback of its results. The invariant of the chain says what a rank may still be selected
  for; every filter keeps it, so that the server selected is enabled and healthy, and the
  statuses stay sliding windows, so that no operation crashes.
\<close>

named_theorems slb_intros "preservation by the filters"

section \<open>The chain\<close>

record 'w slb_env = "'w world" +
  e_md5 :: "string \<Rightarrow> u32 \<times> u32 \<times> u32 \<times> u32"
  e_sort :: "server_rank list \<Rightarrow> server_rank list"
  e_backup_sort :: "(nat \<times> nat) list \<Rightarrow> (nat \<times> nat) list"

record strategy =
  st_balance :: "balance option"
  st_connect :: connect_filter
  st_healthy :: healthy_filter
  st_cross :: bool

datatype filter_kind = Prepare | Balance | Connect | Healthy | CrossRoom | Select

text \<open>The constructor of \<open>CamelSuperStrategy\<close>: the filters in their order, none loaded.\<close>

definition strategy_new :: strategy where
  "strategy_new = \<lparr>st_balance = None, st_connect = connect_filter_new, st_healthy = healthy_filter_new,
                   st_cross = False\<rparr>"

definition super_chain :: "filter_kind list" where
  "super_chain = [Prepare, Balance, Connect, Healthy, CrossRoom, Select]"

definition filter_doFilter ::
    "'w slb_env \<Rightarrow> filter_kind \<Rightarrow> strategy \<Rightarrow> slb_req \<Rightarrow> 'w \<Rightarrow> (int \<times> strategy \<times> slb_req \<times> 'w) option" where
  "filter_doFilter E k st q w =
     (case k of
        Prepare \<Rightarrow> (case prepare_filter q of (ret, q) \<Rightarrow> Some (ret, st, q, w))
      | Balance \<Rightarrow> (case balance_filter E (e_md5 E) (e_sort E) (st_balance st) q w of
                     (ret, b, q, w) \<Rightarrow> Some (ret, st\<lparr>st_balance := b\<rparr>, q, w))
      | Connect \<Rightarrow> do { (ret, q, w) \<leftarrow> connect_doFilter E (st_connect st) q w; Some (ret, st, q, w) }
      | Healthy \<Rightarrow> do { (ret, f, q, w) \<leftarrow> healthy_doFilter E (e_backup_sort E) (st_healthy st) q w;
                        Some (ret, st\<lparr>st_healthy := f\<rparr>, q, w) }
      | CrossRoom \<Rightarrow> (case cross_doFilter (st_cross st) q of (ret, q) \<Rightarrow> Some (ret, st, q, w))
      | Select \<Rightarrow> do { (ret, w) \<leftarrow> select_doFilter E q w; Some (ret, st, q, w) })"

text \<open>
  \<open>ChainFilter::doFilter\<close>: the chain stops at the first negative result. The \<open>doAfter\<close> calls that
  follow return 0 and change nothing for every filter and balance there is.
\<close>

primrec chain_doFilter ::
    "'w slb_env \<Rightarrow> filter_kind list \<Rightarrow> int \<Rightarrow> strategy \<Rightarrow> slb_req \<Rightarrow> 'w \<Rightarrow> (int \<times> strategy \<times> slb_req \<times> 'w) option" where
  "chain_doFilter E [] ret st q w = Some (ret, st, q, w)"
| "chain_doFilter E (k # ks) ret st q w =
     do {
       (ret, st, q, w) \<leftarrow> filter_doFilter E k st q w;
       if ret < 0 then Some (ret, st, q, w) else chain_doFilter E ks ret st q w
     }"

definition chain_load :: "slb_conf \<Rightarrow> (nat \<Rightarrow> bool option) \<Rightarrow> (nat \<Rightarrow> (bool \<times> nat) option) \<Rightarrow> strategy \<Rightarrow> int \<times> strategy" where
  "chain_load conf calloc halloc st =
     (case balance_load conf of
        (ret, b) \<Rightarrow>
          let st = st\<lparr>st_balance := b\<rparr> in
          if ret < 0 then (ret, st)
          else let (_, cf) = connect_load conf calloc (st_connect st);
                   (_, hf) = healthy_load conf halloc (st_healthy st)
               in (0, st\<lparr>st_connect := cf, st_healthy := hf, st_cross := cross_load conf\<rparr>))"

definition chain_reload :: "slb_conf \<Rightarrow> strategy \<Rightarrow> int \<times> strategy" where
  "chain_reload conf st =
     (let (_, b) = balance_reload conf (st_balance st);
          (_, cf) = connect_reload conf (st_connect st);
          (_, hf) = healthy_reload conf (st_healthy st)
      in (0, \<lparr>st_balance = b, st_connect = cf, st_healthy = hf, st_cross = cross_reload conf (st_cross st)\<rparr>))"

section \<open>The strategy\<close>

record 'x slb_request =
  sq_key :: int
  sq_nthRetry :: int
  sq_svr :: "'x list"
  sq_room :: string

definition rank_zero :: server_rank where
  "rank_zero = \<lparr>r_serverId = 0, r_machineRoom = None, r_crossRoom = False,
     r_server = \<lparr>sl_isHealthy = False, sl_enable = False, sl_id = 0, sl_port = 0, sl_ip = [], sl_tag = None\<rparr>,
     r_balanceRank = 0, r_connectScore = 0, r_healthyScore = 0, r_healthySelectRate = 0,
     r_disabled = False, r_useBackup = False, r_backupServerId = 0\<rparr>"

text \<open>
  \<open>fetchServer\<close>; \<open>copy\<close> is the callback registered by \<open>setCallBack\<close>. \<open>snprintf\<close> cuts the room to the
  31 characters of its buffer.
\<close>

definition fetchServer ::
    "'w slb_env \<Rightarrow> ('x \<Rightarrow> slb_server) option \<Rightarrow> 'x slb_request \<Rightarrow> strategy \<Rightarrow> 'w \<Rightarrow> (int \<times> strategy \<times> 'w) option" where
  "fetchServer E copyCall req st w =
     (case copyCall of
        None \<Rightarrow> Some (- 1, st, w)
      | Some copy \<Rightarrow>
          let serverNum = length (sq_svr req) in
          if serverNum > MAX_SERVER_SIZE then Some (- 1, st, w)
          else
            let q = \<lparr>q_key = sq_key req, q_nthRetry = sq_nthRetry req, q_server = map copy (sq_svr req),
                     q_room = take 31 (sq_room req), q_ranks = replicate serverNum rank_zero,
                     q_mustSelectOneServer = True, q_needHealthyFilter = True\<rparr>
            in do {
              (ret, st, q, w) \<leftarrow> chain_doFilter E super_chain 0 st q w;
              Some (if ret \<ge> 0 \<and> List.find (\<lambda>r. int (r_serverId r) = ret) (q_ranks q) \<noteq> None then ret else - 1, st, w)
            })"

definition setServerArgAfterConn ::
    "('x \<Rightarrow> slb_server) option \<Rightarrow> 'x option \<Rightarrow> int \<Rightarrow> strategy \<Rightarrow> (int \<times> strategy) option" where
  "setServerArgAfterConn copyCall xxServer errNo st =
     (case (xxServer, copyCall) of
        (Some x, Some copy) \<Rightarrow>
          do { (ret, cf) \<leftarrow> updateConnectStatus (copy x) errNo (st_connect st); Some (ret, st\<lparr>st_connect := cf\<rparr>) }
      | _ \<Rightarrow> Some (- 1, st))"

definition setServerArg ::
    "('x \<Rightarrow> slb_server) option \<Rightarrow> 'x option \<Rightarrow> int option \<Rightarrow> int \<Rightarrow> strategy \<Rightarrow> (int \<times> strategy) option" where
  "setServerArg copyCall xxServer readtime tm st =
     (case (xxServer, readtime, copyCall) of
        (Some x, Some rt, Some copy) \<Rightarrow>
          do { (ret, hf) \<leftarrow> updateRequestStatus (copy x) rt tm (st_healthy st); Some (ret, st\<lparr>st_healthy := hf\<rparr>) }
      | _ \<Rightarrow> Some (- 1, st))"

section \<open>What the chain keeps of the ranks\<close>

definition usable :: "slb_server \<Rightarrow> bool" where
  "usable sv \<longleftrightarrow> sl_enable sv \<and> sl_isHealthy sv"

definition other_room :: "string \<Rightarrow> slb_server \<Rightarrow> bool" where
  "other_room room sv = (case sl_tag sv of None \<Rightarrow> False | Some m \<Rightarrow> \<not> (m = [] \<or> room = [] \<or> m = room))"

text \<open>
  A rank that is not disabled belongs to an enabled, healthy server, and so does a backup;
  \<open>allow\<close> tells whether a backup in another room is allowed.
\<close>

definition rank_ok :: "bool \<Rightarrow> string \<Rightarrow> slb_server list \<Rightarrow> server_rank \<Rightarrow> bool" where
  "rank_ok allow room svs r \<longleftrightarrow>
     r_serverId r < length svs \<and> r_server r = svs ! r_serverId r \<and> r_crossRoom r = other_room room (r_server r) \<and>
     (r_disabled r \<or> usable (r_server r)) \<and>
     (r_useBackup r \<longrightarrow> r_backupServerId r < length svs \<and> usable (svs ! r_backupServerId r) \<and>
                      (allow \<or> \<not> other_room room (svs ! r_backupServerId r)))"

definition ranks_ok :: "bool \<Rightarrow> string \<Rightarrow> slb_server list \<Rightarrow> server_rank list \<Rightarrow> bool" where
  "ranks_ok allow room svs rs \<longleftrightarrow>
     length rs = length svs \<and> r_serverId ` set rs = {..<length svs} \<and> (\<forall>r\<in>set rs. rank_ok allow room svs r)"

text \<open>Marking: scores and ranks may change, a rank may get disabled, nothing else.\<close>

definition marked :: "server_rank \<Rightarrow> server_rank \<Rightarrow> bool" where
  "marked r r' \<longleftrightarrow> r_serverId r' = r_serverId r \<and> r_server r' = r_server r \<and> r_crossRoom r' = r_crossRoom r \<and>
     r_useBackup r' = r_useBackup r \<and> r_backupServerId r' = r_backupServerId r \<and> (r_disabled r \<longrightarrow> r_disabled r')"

lemma marked_refl [simp]: "marked r r" by (simp add: marked_def)

lemma rank_ok_marked: "rank_ok allow room svs r \<Longrightarrow> marked r r' \<Longrightarrow> rank_ok allow room svs r'"
  by (auto simp: rank_ok_def marked_def)

lemma ranks_ok_marked:
  assumes "ranks_ok allow room svs rs" "list_all2 marked rs rs'"
  shows "ranks_ok allow room svs rs'"
proof -
  have len: "length rs' = length rs" using assms(2) by (simp add: list_all2_lengthD)
  have nth: "marked (rs ! i) (rs' ! i)" if "i < length rs" for i
    using assms(2) that by (simp add: list_all2_conv_all_nth)
  have "map r_serverId rs' = map r_serverId rs"
    using nth len by (intro nth_equalityI) (auto simp: marked_def)
  then have "r_serverId ` set rs' = r_serverId ` set rs" by (metis set_map)
  moreover have "rank_ok allow room svs r" if "r \<in> set rs'" for r
  proof -
    obtain i where i: "i < length rs" "r = rs' ! i" using \<open>r \<in> set rs'\<close> len by (auto simp: in_set_conv_nth)
    then have "rank_ok allow room svs (rs ! i)" using assms(1) by (simp add: ranks_ok_def)
    from rank_ok_marked [OF this nth [OF i(1)]] show ?thesis using i(2) by simp
  qed
  ultimately show ?thesis using assms(1) len by (simp add: ranks_ok_def)
qed

lemma ranks_ok_mset:
  "ranks_ok allow room svs rs \<Longrightarrow> mset rs' = mset rs \<Longrightarrow> ranks_ok allow room svs rs'"
  using mset_eq_length [of rs' rs] mset_eq_setD [of rs' rs] by (simp add: ranks_ok_def)

lemma ranks_ok_update:
  assumes "ranks_ok allow room svs rs" "i < length rs" "rank_ok allow room svs r" "r_serverId r = r_serverId (rs ! i)"
  shows "ranks_ok allow room svs (rs[i := r])"
proof -
  have "map r_serverId (rs[i := r]) = map r_serverId rs"
    using assms(2,4) by (simp add: map_update list_update_same_conv)
  then have "r_serverId ` set (rs[i := r]) = r_serverId ` set rs" by (metis set_map)
  moreover have "\<forall>x\<in>set (rs[i := r]). rank_ok allow room svs x"
    using assms(1,3) set_update_subset_insert [of rs i r] by (auto simp: ranks_ok_def)
  ultimately show ?thesis using assms(1) by (simp add: ranks_ok_def)
qed

lemma prepare_ranks_ok:
  "ranks_ok allow (q_room q) (q_server q)
     (q_ranks (snd (prepare_filter (q\<lparr>q_ranks := replicate (length (q_server q)) rank_zero\<rparr>))))"
  by (auto simp: prepare_filter_def ranks_ok_def rank_ok_def prepare_rank_def Let_def rank_zero_def usable_def
      other_room_def lessThan_atLeast0 image_image split: option.split)

lemma random_ranks_marked: "list_all2 marked rs (fst (random_ranks W rs w))"
proof (induction rs arbitrary: w)
  case (Cons r rs)
  obtain v w1 where v: "w_rand W w = (v, w1)" by fastforce
  show ?case using Cons.IH [of w1] by (simp add: v split_beta marked_def)
qed simp

lemma consistency_marked:
  "list_all2 marked (q_ranks q) (q_ranks (snd (consistency_balance_server md5 q)))"
  by (auto simp: consistency_balance_server_def list_all2_conv_all_nth marked_def split: prod.split)

lemma list_all2_update_same:
  assumes "list_all2 R xs ys" "i < length ys" "\<And>x. R x (ys ! i) \<Longrightarrow> R x y"
  shows "list_all2 R xs (ys[i := y])"
  using assms by (auto simp: list_all2_conv_all_nth nth_list_update)

lemma marked_rank: "marked x y \<Longrightarrow> marked x (y\<lparr>r_balanceRank := b\<rparr>)"
  by (simp add: marked_def)

lemma round_robin_marked:
  "list_all2 marked rs0 rs \<Longrightarrow> list_all (\<lambda>i. i < length rs) is \<Longrightarrow>
   list_all2 marked rs0 (fst (round_robin_ranks W n cur is rs w))"
proof (induction "is" arbitrary: rs w)
  case (Cons i "is")
  obtain v w1 where v: "w_rand W w = (v, w1)" by fastforce
  have "list_all2 marked rs0 (rs[i := (rs ! i)\<lparr>r_balanceRank := b\<rparr>])" for b
    using Cons.prems by (intro list_all2_update_same) (simp_all add: marked_rank)
  then have "list_all2 marked rs0 (fst (round_robin_ranks W n cur is (rs[i := (rs ! i)\<lparr>r_balanceRank := b\<rparr>]) u))" for b u
    using Cons.IH [of "rs[i := (rs ! i)\<lparr>r_balanceRank := b\<rparr>]"] Cons.prems(2) by simp
  then show ?case by (auto simp: v)
qed simp

text \<open>What a filter leaves of a request besides the ranks.\<close>

definition same_req :: "slb_req \<Rightarrow> slb_req \<Rightarrow> bool" where
  "same_req q q' \<longleftrightarrow> q_server q' = q_server q \<and> q_room q' = q_room q \<and> q_nthRetry q' = q_nthRetry q \<and>
     q_mustSelectOneServer q' = q_mustSelectOneServer q \<and> q_needHealthyFilter q' = q_needHealthyFilter q"

lemma same_req_simps [simp]: "same_req q q" "same_req q (q\<lparr>q_ranks := rs\<rparr>)"
  by (simp_all add: same_req_def)

lemma same_req_trans: "same_req a b \<Longrightarrow> same_req b c \<Longrightarrow> same_req a c"
  by (simp add: same_req_def)

definition balanced :: "slb_req \<Rightarrow> int \<Rightarrow> slb_req \<Rightarrow> bool" where
  "balanced q ret q' \<longleftrightarrow> list_all2 marked (q_ranks q) (q_ranks q') \<and> same_req q q' \<and>
     ret = (if q_serverNum q = 0 then - 1 else 0)"

lemma random_balanced:
  "random_balance_server W q w = (ret, q', w') \<Longrightarrow> balanced q ret q'"
  using random_ranks_marked [of "q_ranks q" W w]
  by (cases "q_ranks q = []") (auto simp: random_balance_server_def balanced_def simp del: random_ranks.simps split: prod.splits)

lemma consistency_balanced:
  "consistency_balance_server md5 q = (ret, q') \<Longrightarrow> balanced q ret q'"
  using consistency_marked [of q md5] by (auto simp: consistency_balance_server_def balanced_def)

lemma round_robin_balanced:
  "round_robin_balance_server W l q w = (ret, l', q', w') \<Longrightarrow> balanced q ret q'"
  using round_robin_marked [OF list.rel_refl [of marked "q_ranks q"], of "[0..<q_serverNum q]" W]
  by (cases "q_ranks q = []")
     (auto simp: round_robin_balance_server_def balanced_def list_all_iff Let_def split_beta simp del: upt_Suc)

lemma balance_server_balanced:
  "balance_server W md5 b q w = (ret, b', q', w') \<Longrightarrow> balanced q ret q'"
  by (cases b) (auto simp: balance_server_def split: prod.splits
      dest: random_balanced consistency_balanced round_robin_balanced)

lemma balance_filter_ranks:
  assumes srt: "is_rank_sort srt" and f: "balance_filter W md5 srt bal q w = (ret, bal', q', w')"
    and ok: "ranks_ok allow room svs (q_ranks q)"
  shows "ranks_ok allow room svs (q_ranks q')" "same_req q q'"
    "ret = (if bal = None \<or> svs = [] then - 1 else 0)" "(bal' = None) = (bal = None)"
proof -
  have svs: "q_ranks q = [] \<longleftrightarrow> svs = []" using ok by (auto simp: ranks_ok_def)
  have "ranks_ok allow room svs (q_ranks q') \<and> same_req q q' \<and>
        ret = (if bal = None \<or> svs = [] then - 1 else 0) \<and> (bal' = None) = (bal = None)"
  proof (cases bal)
    case None
    then show ?thesis using f ok by (simp add: balance_filter_def)
  next
    case (Some b)
    obtain r1 b1 q1 w1 where e: "balance_server W md5 b q w = (r1, b1, q1, w1)" by (metis prod_cases4)
    have B: "list_all2 marked (q_ranks q) (q_ranks q1)" "same_req q q1" "r1 = (if svs = [] then - 1 else 0)"
      using balance_server_balanced [OF e] svs by (simp_all add: balanced_def)
    have k1: "ranks_ok allow room svs (q_ranks q1)" by (rule ranks_ok_marked [OF ok B(1)])
    have "mset (srt (q_ranks q1)) = mset (q_ranks q1)" using srt by (simp add: is_rank_sort_def)
    then have k2: "ranks_ok allow room svs (srt (q_ranks q1))" by (rule ranks_ok_mset [OF k1])
    have "same_req q (q1\<lparr>q_ranks := srt (q_ranks q1)\<rparr>)" by (rule same_req_trans [OF B(2)]) simp
    then show ?thesis using f B k1 k2 by (cases "svs = []") (auto simp: balance_filter_def Some e)
  qed
  then show "ranks_ok allow room svs (q_ranks q')" "same_req q q'"
    "ret = (if bal = None \<or> svs = [] then - 1 else 0)" "(bal' = None) = (bal = None)" by simp_all
qed

section \<open>The statuses stay windows\<close>

definition connect_ok :: "connect_filter \<Rightarrow> bool" where
  "connect_ok f \<longleftrightarrow> cf_loadSucc f \<longrightarrow>
     (\<forall>i<MAX_SERVER_SIZE. \<exists>cs n h. cf_status f i = Some cs \<and> conn_rep n h cs)"

definition healthy_ok :: "healthy_filter \<Rightarrow> bool" where
  "healthy_ok f \<longleftrightarrow> hf_loadSucc f \<longrightarrow>
     (\<forall>i<MAX_SERVER_SIZE. \<exists>hs n ts cs. hf_status f i = Some hs \<and> healthy_rep n ts cs hs)"

definition strategy_ok :: "strategy \<Rightarrow> bool" where
  "strategy_ok st \<longleftrightarrow> connect_ok (st_connect st) \<and> healthy_ok (st_healthy st)"

lemma strategy_new_ok [simp]: "strategy_ok strategy_new"
  by (simp add: strategy_ok_def strategy_new_def connect_ok_def healthy_ok_def connect_filter_new_def
      healthy_filter_new_def)

lemma connect_status_exists:
  "connect_ok f \<Longrightarrow> cf_loadSucc f \<Longrightarrow> i < MAX_SERVER_SIZE \<Longrightarrow> \<exists>cs. cf_status f i = Some cs"
  by (fastforce simp: connect_ok_def)

lemma avg_exists:
  "healthy_ok f \<Longrightarrow> hf_loadSucc f \<Longrightarrow> i < MAX_SERVER_SIZE \<Longrightarrow> \<exists>a. avg_of f i = Some a"
  by (fastforce simp: healthy_ok_def avg_of_def)

lemma updateConnectStatus_ok:
  assumes "connect_ok f" "0 \<le> sl_id sv"
  shows "\<exists>ret f'. updateConnectStatus sv err f = Some (ret, f') \<and> connect_ok f'"
proof (cases "cf_loadSucc f \<and> sl_id sv < int MAX_SERVER_SIZE")
  case True
  then have i: "nat (sl_id sv) < MAX_SERVER_SIZE" using assms(2) by linarith
  obtain cs n h where cs: "cf_status f (nat (sl_id sv)) = Some cs" "conn_rep n h cs"
    using assms(1) True i by (auto simp: connect_ok_def)
  obtain cs' where cs': "conn_insert (if err \<noteq> 0 then 1 else 0) cs = Some cs'"
      "conn_rep n ((if err \<noteq> 0 then 1 else 0) # h) cs'"
    using conn_insert_rep [OF cs(2)] by blast
  have "connect_ok (f\<lparr>cf_status := (cf_status f)(nat (sl_id sv) \<mapsto> cs')\<rparr>)"
    using assms(1) cs'(2) by (auto simp: connect_ok_def)
  then show ?thesis using True assms(2) cs(1) cs'(1) by (simp add: updateConnectStatus_def)
next
  case False
  then show ?thesis using assms(1) by (auto simp: updateConnectStatus_def)
qed

lemma updateRequestStatus_ok:
  assumes "healthy_ok f"
  shows "\<exists>ret f'. updateRequestStatus sv rt tm f = Some (ret, f') \<and> healthy_ok f'"
proof (cases "hf_loadSucc f \<and> unat (of_int (sl_id sv) :: u32) < MAX_SERVER_SIZE")
  case True
  let ?i = "unat (of_int (sl_id sv) :: u32)"
  obtain hs n ts cs where hs: "hf_status f ?i = Some hs" "healthy_rep n ts cs hs"
    using assms True by (auto simp: healthy_ok_def)
  obtain hs' ts' cs' where hs': "healthy_add (of_int rt) (of_int tm) hs = Some hs'" "healthy_rep n ts' cs' hs'"
    using healthy_add_rep [OF hs(2)] by blast
  have "healthy_ok (f\<lparr>hf_status := (hf_status f)(?i \<mapsto> hs')\<rparr>)"
    using assms hs'(2) by (auto simp: healthy_ok_def)
  then show ?thesis using True hs(1) hs'(1) by (simp add: updateRequestStatus_def)
next
  case False
  then show ?thesis using assms by (auto simp: updateRequestStatus_def)
qed

lemma create_statuses_ok:
  assumes "create_statuses alloc mk is st = (True, st')" "i \<in> set is \<or> (\<exists>s. st i = Some s \<and> P s)"
    and "\<And>i a. alloc i = Some a \<Longrightarrow> P (mk a)"
  shows "\<exists>s. st' i = Some s \<and> P s"
  using assms(1,2)
proof (induction "is" arbitrary: st)
  case (Cons j js)
  obtain a where a: "alloc j = Some a" using Cons.prems(1) by (auto split: option.splits)
  have "i \<in> set js \<or> (\<exists>s. (st(j \<mapsto> mk a)) i = Some s \<and> P s)"
    using Cons.prems(2) assms(3) [OF a] by (cases "i = j") auto
  with Cons.IH show ?case using Cons.prems(1) a by simp
qed simp

text \<open>Loading succeeds with all rings allocated: that is the hypothesis on the resource pool.\<close>

lemma read_queue_size_pos: "0 < read_queue_size conf name"
  by (simp add: read_queue_size_def SLB_DEF_QUEUE_SIZE_def split: option.split)

lemma read_curve_frame: "read_curve conf f = Some f' \<Longrightarrow> cf_status f' = cf_status f \<and> cf_loadSucc f' = cf_loadSucc f"
  by (auto simp: read_curve_def split: bind_splits)

lemma read_healthy_frame: "read_healthy conf f = Some f' \<Longrightarrow> hf_status f' = hf_status f \<and> hf_loadSucc f' = hf_loadSucc f"
  by (auto simp: read_healthy_def split: bind_splits)

lemma connect_load_ok:
  assumes "\<And>i ok. alloc i = Some ok \<Longrightarrow> ok" "\<not> cf_loadSucc f"
  shows "connect_ok (snd (connect_load conf alloc f))"
proof (cases "read_curve conf f")
  case (Some g)
  obtain d st where cr: "create_statuses alloc (\<lambda>ok. conn_status_new ok (read_queue_size conf ''ConnectQueueSize''))
      [0..<MAX_SERVER_SIZE] (cf_status g) = (d, st)" by fastforce
  have P: "\<exists>n h. conn_rep n h (conn_status_new ok (read_queue_size conf ''ConnectQueueSize''))"
    if "alloc i = Some ok" for i ok
    using conn_new_rep [OF read_queue_size_pos] assms(1) [OF that] by metis
  have "\<exists>cs. st i = Some cs \<and> (\<exists>n h. conn_rep n h cs)" if "d" "i < MAX_SERVER_SIZE" for i
  proof (rule create_statuses_ok [where alloc = alloc])
    show "create_statuses alloc (\<lambda>ok. conn_status_new ok (read_queue_size conf ''ConnectQueueSize''))
      [0..<MAX_SERVER_SIZE] (cf_status g) = (True, st)" using cr that(1) by simp
    show "i \<in> set [0..<MAX_SERVER_SIZE] \<or> (\<exists>s. cf_status g i = Some s \<and> (\<exists>n h. conn_rep n h s))"
      using that(2) by simp
  qed (rule P)
  moreover have "\<not> cf_loadSucc g" using read_curve_frame [OF Some] assms(2) by simp
  ultimately show ?thesis by (auto simp: connect_load_def Some cr connect_ok_def)
qed (use assms(2) in \<open>simp add: connect_load_def connect_ok_def\<close>)

lemma healthy_load_ok:
  assumes "\<And>i ok m. alloc i = Some (ok, m) \<Longrightarrow> ok \<and> 0x65 \<le> m" "\<not> hf_loadSucc f"
  shows "healthy_ok (snd (healthy_load conf alloc f))"
proof (cases "read_healthy conf f")
  case (Some g)
  let ?mk = "\<lambda>(ok, m). healthy_new ok (read_queue_size conf ''HealthyQueueSize'') m"
  obtain d st where cr: "create_statuses alloc ?mk [0..<MAX_SERVER_SIZE] (hf_status g) = (d, st)" by fastforce
  have P: "\<exists>n ts cs. healthy_rep n ts cs (?mk a)" if "alloc i = Some a" for i a
  proof -
    have "fst a" "0x65 \<le> snd a" using assms(1) [of i "fst a" "snd a"] that by simp_all
    then show ?thesis using healthy_new_rep [OF read_queue_size_pos, of "snd a" conf "''HealthyQueueSize''"]
      by (auto simp: case_prod_beta)
  qed
  have "\<exists>hs. st i = Some hs \<and> (\<exists>n ts cs. healthy_rep n ts cs hs)" if "d" "i < MAX_SERVER_SIZE" for i
  proof (rule create_statuses_ok [where alloc = alloc])
    show "create_statuses alloc ?mk [0..<MAX_SERVER_SIZE] (hf_status g) = (True, st)" using cr that(1) by simp
    show "i \<in> set [0..<MAX_SERVER_SIZE] \<or> (\<exists>s. hf_status g i = Some s \<and> (\<exists>n ts cs. healthy_rep n ts cs s))"
      using that(2) by simp
  qed (rule P)
  moreover have "\<not> hf_loadSucc g" using read_healthy_frame [OF Some] assms(2) by simp
  ultimately show ?thesis by (auto simp: healthy_load_def Some cr healthy_ok_def)
qed (use assms(2) in \<open>simp add: healthy_load_def healthy_ok_def\<close>)

lemma connect_reload_ok: "connect_ok f \<Longrightarrow> connect_ok (snd (connect_reload conf f))"
  by (cases "read_curve conf (f\<lparr>cf_loadSucc := False\<rparr>)")
     (auto simp: connect_reload_def connect_ok_def dest: read_curve_frame)

lemma healthy_reload_ok: "healthy_ok f \<Longrightarrow> healthy_ok (snd (healthy_reload conf f))"
  by (cases "read_healthy conf (f\<lparr>hf_loadSucc := False\<rparr>)")
     (auto simp: healthy_reload_def healthy_ok_def dest: read_healthy_frame)

section \<open>The filters keep the ranks\<close>

lemma connect_mark_ok:
  assumes "connect_ok f" "cf_loadSucc f"
  shows "\<exists>r' w'. connect_mark W f r w = Some (r', w') \<and> marked r r'"
proof (cases "r_serverId r < MAX_SERVER_SIZE")
  case True
  obtain cs where "cf_status f (r_serverId r) = Some cs" using connect_status_exists [OF assms True] by blast
  then show ?thesis using True by (simp add: connect_mark_def split_beta marked_def Let_def)
qed (simp add: connect_mark_def)

lemma connect_marks_ok:
  assumes "connect_ok f" "cf_loadSucc f"
  shows "\<exists>rs' w'. connect_marks W f rs w = Some (rs', w') \<and> list_all2 marked rs rs'"
proof (induction rs arbitrary: w)
  case (Cons r rs)
  obtain r' w1 where r: "connect_mark W f r w = Some (r', w1)" "marked r r'"
    using connect_mark_ok [OF assms, of W r w] by blast
  obtain rs' w2 where "connect_marks W f rs w1 = Some (rs', w2)" "list_all2 marked rs rs'"
    using Cons.IH by blast
  then show ?case using r by simp
qed simp

lemma connect_filter_ok:
  assumes "connect_ok f" "ranks_ok allow room svs (q_ranks q)"
  shows "\<exists>q' w'. connect_doFilter W f q w = Some (0, q', w') \<and> ranks_ok allow room svs (q_ranks q') \<and> same_req q q'"
proof (cases "cf_loadSucc f")
  case True
  obtain rs w' where "connect_marks W f (q_ranks q) w = Some (rs, w')" "list_all2 marked (q_ranks q) rs"
    using connect_marks_ok [OF assms(1) True, of W "q_ranks q" w] by blast
  moreover from this(2) have "ranks_ok allow room svs rs" by (rule ranks_ok_marked [OF assms(2)])
  ultimately show ?thesis using True by (simp add: connect_doFilter_def)
qed (use assms in \<open>simp add: connect_doFilter_def\<close>)

lemma healthy_mark_ok:
  assumes "healthy_ok f" "hf_loadSucc f"
  shows "\<exists>f' r' w'. healthy_mark W f r w = Some (f', r', w') \<and> marked r r' \<and> healthy_ok f' \<and> hf_loadSucc f'"
proof (cases "r_serverId r < MAX_SERVER_SIZE")
  case True
  obtain hs n ts cs where hs: "hf_status f (r_serverId r) = Some hs" "healthy_rep n ts cs hs"
    using assms True by (auto simp: healthy_ok_def)
  obtain tm w1 where tm: "w_time W w = (tm, w1)" by fastforce
  obtain rate hs' where rate: "getSelectRate (hf_timeout f) (sint (hf_checkTime f)) (hf_minRate f) tm hs = Some (rate, hs')"
      "healthy_rep n ts cs hs'"
    using getSelectRate_rep [OF hs(2)] by blast
  obtain v w2 where v: "w_rand W w1 = (v, w2)" by fastforce
  have "healthy_ok (f\<lparr>hf_status := (hf_status f)(r_serverId r \<mapsto> hs')\<rparr>)"
    using assms(1) rate(2) by (auto simp: healthy_ok_def)
  then show ?thesis using True hs(1) rate(1) assms(2) by (simp add: healthy_mark_def tm v marked_def Let_def)
qed (use assms in \<open>simp add: healthy_mark_def\<close>)

lemma healthy_marks_ok:
  "healthy_ok f \<Longrightarrow> hf_loadSucc f \<Longrightarrow>
   \<exists>f' rs' w'. healthy_marks W f rs w = Some (f', rs', w') \<and> list_all2 marked rs rs' \<and> healthy_ok f' \<and> hf_loadSucc f'"
proof (induction rs arbitrary: f w)
  case (Cons r rs)
  obtain f1 r' w1 where r: "healthy_mark W f r w = Some (f1, r', w1)" "marked r r'" "healthy_ok f1" "hf_loadSucc f1"
    using healthy_mark_ok [OF Cons.prems, of W r w] by blast
  obtain f2 rs' w2 where "healthy_marks W f1 rs w1 = Some (f2, rs', w2)" "list_all2 marked rs rs'"
      "healthy_ok f2" "hf_loadSucc f2"
    using Cons.IH [OF r(3,4)] by blast
  then show ?case using r by simp
qed simp

lemma sum_speeds_ok:
  assumes "healthy_ok f" "hf_loadSucc f"
  shows "\<exists>s c'. sum_speeds f rs sumSpeed c = Some (s, c')"
proof (induction rs arbitrary: sumSpeed c)
  case (Cons r rs)
  show ?case
  proof (cases "r_serverId r < MAX_SERVER_SIZE")
    case True
    then obtain a where "avg_of f (r_serverId r) = Some a" using avg_exists [OF assms] by blast
    then show ?thesis using Cons.IH by (cases "r_crossRoom r") auto
  qed (use Cons.IH in simp)
qed simp

lemma speed_marks_ok:
  assumes "healthy_ok f" "hf_loadSucc f"
  shows "\<exists>rs'. speed_marks f s c rs = Some rs' \<and> list_all2 marked rs rs'"
proof (induction rs)
  case (Cons r rs)
  have "\<exists>r'. speed_mark f s c r = Some r' \<and> marked r r'"
  proof (cases "r_serverId r < MAX_SERVER_SIZE")
    case True
    then obtain a where "avg_of f (r_serverId r) = Some a" using avg_exists [OF assms] by blast
    then show ?thesis by (simp add: speed_mark_def marked_def)
  qed (simp add: speed_mark_def)
  then show ?case using Cons.IH by auto
qed simp

text \<open>A backup is an enabled, healthy server of the room of the request.\<close>

definition good_backup :: "string \<Rightarrow> slb_server list \<Rightarrow> nat \<Rightarrow> bool" where
  "good_backup room svs b \<longleftrightarrow> b < length svs \<and> usable (svs ! b) \<and> \<not> other_room room (svs ! b)"

lemma backup_list_ok:
  assumes f: "healthy_ok f" "hf_loadSucc f" and rs: "ranks_ok allow room svs rs"
  shows "list_all (\<lambda>j. j < length rs) js \<Longrightarrow>
         \<exists>bs. backup_list f rs i a js = Some bs \<and> (\<forall>b\<in>set bs. good_backup room svs (snd b))"
proof (induction js)
  case (Cons j js)
  let ?r = "rs ! j"
  obtain bs where bs: "backup_list f rs i a js = Some bs" "\<forall>b\<in>set bs. good_backup room svs (snd b)"
    using Cons by auto
  have ok: "rank_ok allow room svs ?r" using Cons.prems rs by (simp add: ranks_ok_def)
  show ?case
  proof (cases "r_disabled ?r \<or> r_crossRoom ?r \<or> i = j \<or> r_serverId ?r \<ge> MAX_SERVER_SIZE")
    case True
    then show ?thesis using bs by (simp add: Let_def)
  next
    case False
    then obtain tj where "avg_of f (r_serverId ?r) = Some tj" using avg_exists [OF f, of "r_serverId ?r"] by auto
    moreover have "good_backup room svs (r_serverId ?r)"
      using ok False by (auto simp: good_backup_def rank_ok_def)
    ultimately show ?thesis using False bs by (simp add: Let_def)
  qed
qed simp

lemma backup_loop_ok:
  assumes f: "healthy_ok f" "hf_loadSucc f" and srt: "is_backup_sort bsrt" and svs: "length svs \<le> MAX_SERVER_SIZE"
  shows "ranks_ok allow room svs rs \<Longrightarrow> list_all (\<lambda>i. i < length rs) is \<Longrightarrow>
         \<exists>rs' w'. backup_loop W bsrt f is rs w = Some (rs', w') \<and> ranks_ok allow room svs rs'"
proof (induction "is" arbitrary: rs w)
  case (Cons i "is")
  let ?r = "rs ! i"
  have i: "i < length rs" "list_all (\<lambda>i. i < length rs) is" using Cons.prems(2) by simp_all
  have ok: "rank_ok allow room svs ?r" using i Cons.prems(1) by (simp add: ranks_ok_def)
  then have "r_serverId ?r < MAX_SERVER_SIZE" using svs by (simp add: rank_ok_def)
  then obtain a where a: "avg_of f (r_serverId ?r) = Some a" using avg_exists [OF f] by blast
  obtain v w1 where v: "w_rand W w = (v, w1)" by fastforce
  have "list_all (\<lambda>j. j < length rs) [0..<length rs]" by (simp add: list_all_iff)
  then obtain bs where bs: "backup_list f rs i a [0..<length rs] = Some bs"
      "\<forall>b\<in>set bs. good_backup room svs (snd b)"
    using backup_list_ok [OF f Cons.prems(1)] by blast
  define rs1 where "rs1 = (if bs \<noteq> []
    then rs[i := ?r\<lparr>r_backupServerId := snd (hd (bsrt bs)), r_disabled := True, r_useBackup := True\<rparr>] else rs)"
  have "ranks_ok allow room svs rs1"
  proof (cases "bs = []")
    case False
    have m: "mset (bsrt bs) = mset bs" using srt by (simp add: is_backup_sort_def)
    then have "set (bsrt bs) = set bs" "bsrt bs \<noteq> []" using False by (auto dest: mset_eq_setD)
    then have "good_backup room svs (snd (hd (bsrt bs)))" using bs(2) hd_in_set by blast
    then have "rank_ok allow room svs (?r\<lparr>r_backupServerId := snd (hd (bsrt bs)), r_disabled := True, r_useBackup := True\<rparr>)"
      using ok by (simp add: rank_ok_def good_backup_def)
    then show ?thesis using False i(1) Cons.prems(1) by (simp add: rs1_def ranks_ok_update)
  qed (use Cons.prems(1) in \<open>simp add: rs1_def\<close>)
  moreover have "length rs1 = length rs" by (simp add: rs1_def)
  ultimately obtain rs2 w2 where "backup_loop W bsrt f is rs1 w1 = Some (rs2, w2)" "ranks_ok allow room svs rs2"
    using Cons.IH [of rs1 w1] i(2) by auto
  moreover obtain rs3 w3 where "backup_loop W bsrt f is rs w1 = Some (rs3, w3)" "ranks_ok allow room svs rs3"
    using Cons.IH [of rs w1] i(2) Cons.prems(1) by auto
  ultimately show ?case
    using bs(1) by (simp add: a v rs1_def Let_def)
qed simp

lemma healthy_filter_ok:
  assumes f: "healthy_ok f" and srt: "is_backup_sort bsrt" and svs: "length svs \<le> MAX_SERVER_SIZE"
    and rs: "ranks_ok allow room svs (q_ranks q)"
  shows "\<exists>f' q' w'. healthy_doFilter W bsrt f q w = Some (0, f', q', w') \<and> ranks_ok allow room svs (q_ranks q') \<and>
           same_req q q' \<and> healthy_ok f'"
proof (cases "hf_loadSucc f \<and> q_needHealthyFilter q")
  case True
  obtain f1 rs1 w1 where 1: "healthy_marks W f (q_ranks q) w = Some (f1, rs1, w1)" "list_all2 marked (q_ranks q) rs1"
      "healthy_ok f1" "hf_loadSucc f1"
    using healthy_marks_ok [OF f, of W "q_ranks q" w] True by blast
  obtain s c where 2: "sum_speeds f1 rs1 0 0 = Some (s, c)" using sum_speeds_ok [OF 1(3,4)] by blast
  obtain rs2 where 3: "speed_marks f1 s c rs1 = Some rs2" "list_all2 marked rs1 rs2"
    using speed_marks_ok [OF 1(3,4)] by blast
  have ok: "ranks_ok allow room svs rs2" by (rule ranks_ok_marked [OF ranks_ok_marked [OF rs 1(2)] 3(2)])
  have "list_all (\<lambda>i. i < length rs2) [0..<length rs2]" by (simp add: list_all_iff)
  then obtain rs3 w3 where "backup_loop W bsrt f1 [0..<length rs2] rs2 w1 = Some (rs3, w3)"
      "ranks_ok allow room svs rs3"
    using backup_loop_ok [OF 1(3,4) srt svs ok, of _ W w1] by blast
  then show ?thesis using True 1 2 3 by (simp add: healthy_doFilter_def)
qed (use assms in \<open>auto simp: healthy_doFilter_def\<close>)

lemma first_rankD:
  assumes "first_rank P rs = Some i"
  shows "i < length rs" "P (rs ! i)"
  using assms unfolding first_rank_def by (auto simp: find_Some_iff simp del: upt_Suc)

lemma cross_filter_ok:
  assumes rs: "ranks_ok allow room svs (q_ranks q)" and allow: "on \<and> q_nthRetry q \<le> 0 \<longrightarrow> allow"
  shows "\<exists>q'. cross_doFilter on q = (0, q') \<and> ranks_ok allow room svs (q_ranks q') \<and> same_req q q'"
proof (cases "\<not> on \<or> q_nthRetry q > 0 \<or>
    first_rank (\<lambda>r. \<not> r_crossRoom r \<and> sl_enable (r_server r)) (q_ranks q) = None \<or>
    \<not> r_disabled (q_ranks q ! the (first_rank (\<lambda>r. \<not> r_crossRoom r \<and> sl_enable (r_server r)) (q_ranks q)))")
  case True
  then have "cross_doFilter on q = (0, q)" by (auto simp: cross_doFilter_def split: option.split)
  then show ?thesis using rs by simp
next
  case False
  then obtain s where s: "first_rank (\<lambda>r. \<not> r_crossRoom r \<and> sl_enable (r_server r)) (q_ranks q) = Some s"
      "r_disabled (q_ranks q ! s)" and on: "on" "\<not> q_nthRetry q > 0" by auto
  define cross where "cross = map_option (\<lambda>c. r_serverId (q_ranks q ! c))
    (first_rank (\<lambda>r. r_crossRoom r \<and> sl_enable (r_server r) \<and> \<not> r_disabled r) (q_ranks q))"
  define rs1 where "rs1 = (case cross of None \<Rightarrow> q_ranks q
    | Some c \<Rightarrow> (q_ranks q)[s := (q_ranks q ! s)\<lparr>r_backupServerId := c, r_useBackup := True\<rparr>])"
  define rs2 where "rs2 = map (\<lambda>r. if cross = Some (r_serverId r) then r
    else if r_crossRoom r \<and> \<not> r_disabled r then r\<lparr>r_disabled := True\<rparr> else r) rs1"
  have ok1: "ranks_ok allow room svs rs1"
  proof (cases "first_rank (\<lambda>r. r_crossRoom r \<and> sl_enable (r_server r) \<and> \<not> r_disabled r) (q_ranks q)")
    case (Some c)
    note C = first_rankD [OF Some] and S = first_rankD [OF s(1)]
    have okc: "rank_ok allow room svs (q_ranks q ! c)" and oks: "rank_ok allow room svs (q_ranks q ! s)"
      using rs C(1) S(1) by (simp_all add: ranks_ok_def)
    have "rank_ok allow room svs ((q_ranks q ! s)\<lparr>r_backupServerId := r_serverId (q_ranks q ! c), r_useBackup := True\<rparr>)"
      using okc oks C(2) allow on by (auto simp: rank_ok_def)
    then have "ranks_ok allow room svs ((q_ranks q)[s := (q_ranks q ! s)\<lparr>r_backupServerId := r_serverId (q_ranks q ! c), r_useBackup := True\<rparr>])"
      by (intro ranks_ok_update [OF rs S(1)]) simp_all
    then show ?thesis by (simp add: rs1_def cross_def Some)
  qed (use rs in \<open>simp add: rs1_def cross_def\<close>)
  have "list_all2 marked rs1 rs2"
    unfolding rs2_def by (simp add: list_all2_conv_all_nth marked_def)
  then have "ranks_ok allow room svs rs2" by (rule ranks_ok_marked [OF ok1])
  moreover have "cross_doFilter on q = (0, q\<lparr>q_ranks := rs2\<rparr>)"
    using on s by (simp add: cross_doFilter_def Let_def cross_def rs1_def rs2_def)
  ultimately show ?thesis by simp
qed

lemma select_loop_ok:
  assumes "\<forall>r\<in>set rs. rank_ok allow room svs r"
  shows "select_loop retry c rs = - 1 \<or>
    (\<exists>i. select_loop retry c rs = int i \<and> i < length svs \<and> usable (svs ! i) \<and> (allow \<or> \<not> other_room room (svs ! i)))"
  using assms
proof (induction rs arbitrary: c)
  case (Cons r rs)
  have IH: "select_loop retry c' rs = - 1 \<or> (\<exists>i. select_loop retry c' rs = int i \<and> i < length svs \<and>
      usable (svs ! i) \<and> (allow \<or> \<not> other_room room (svs ! i)))" for c'
    using Cons by simp
  have ok: "rank_ok allow room svs r" using Cons.prems by simp
  have "\<exists>i. select_id r = int i \<and> i < length svs \<and> usable (svs ! i) \<and> (allow \<or> \<not> other_room room (svs ! i))"
    if "select_id r \<ge> 0" "\<not> r_crossRoom r"
  proof (cases "r_disabled r")
    case True
    then have "r_useBackup r" using that(1) by (simp add: select_id_def split: if_splits)
    then show ?thesis using ok True by (auto simp: select_id_def rank_ok_def)
  next
    case False
    then show ?thesis using ok that(2) by (auto simp: select_id_def rank_ok_def)
  qed
  then show ?case using IH [of c] IH [of "c + 1"] by (auto simp: Let_def)
qed simp

lemma rotation_hits:
  assumes "0 < (n::nat)" "p < n"
  shows "\<exists>i<n. (i + v mod n) mod n = p"
proof -
  have "((p + n - v mod n) mod n + v mod n) mod n = (p + n - v mod n + v mod n) mod n" by (rule mod_add_left_eq)
  also have "p + n - v mod n + v mod n = p + n" using assms(1) by (simp add: less_imp_le trans_le_add2)
  finally have "((p + n - v mod n) mod n + v mod n) mod n = p" using assms by simp
  then show ?thesis using assms(1) by (intro exI [of _ "(p + n - v mod n) mod n"]) simp
qed

lemma select_filter_ok:
  assumes rs: "ranks_ok allow room svs (q_ranks q)" and svs: "svs \<noteq> []" and must: "q_mustSelectOneServer q"
  shows "\<exists>ret w'. select_doFilter W q w = Some (ret, w') \<and>
    (ret = - 1 \<or> (\<exists>i. ret = int i \<and> i < length svs \<and> usable (svs ! i) \<and> (allow \<or> \<not> other_room room (svs ! i)))) \<and>
    ((\<exists>i<length svs. usable (svs ! i) \<and> \<not> other_room room (svs ! i)) \<longrightarrow> 0 \<le> ret)"
proof -
  let ?n = "q_serverNum q"
  have n: "?n = length svs" "0 < ?n" using rs svs by (simp_all add: ranks_ok_def)
  have ok: "rank_ok allow room svs (q_ranks q ! k)" if "k < ?n" for k using rs that by (simp add: ranks_ok_def)
  have all: "\<forall>r\<in>set (q_ranks q). rank_ok allow room svs r" using rs by (simp add: ranks_ok_def)
  obtain v w1 where v: "w_rand W w = (v, w1)" by fastforce
  let ?u = "\<lambda>i. let r = q_ranks q ! ((i + v mod ?n) mod ?n) in
              sl_enable (r_server r) \<and> sl_isHealthy (r_server r) \<and> \<not> r_crossRoom r"
  show ?thesis
  proof (cases "select_loop (q_nthRetry q) 0 (q_ranks q) \<ge> 0")
    case True
    then show ?thesis using select_loop_ok [OF all, of "q_nthRetry q" 0] by (auto simp: select_doFilter_def)
  next
    case loop: False
    show ?thesis
    proof (cases "List.find ?u [0..<?n]")
      case (Some i)
      let ?r = "q_ranks q ! ((i + v mod ?n) mod ?n)"
      have "?u i" using Some by (auto simp: find_Some_iff simp del: upt_Suc)
      moreover have "rank_ok allow room svs ?r" using n(2) by (intro ok) simp
      ultimately have "r_serverId ?r < length svs \<and> usable (svs ! r_serverId ?r) \<and> \<not> other_room room (svs ! r_serverId ?r)"
        by (auto simp: rank_ok_def usable_def Let_def)
      then show ?thesis using loop n Some must by (auto simp: select_doFilter_def v Let_def)
    next
      case None
      have none: "\<not> (\<exists>i<length svs. usable (svs ! i) \<and> \<not> other_room room (svs ! i))"
      proof
        assume "\<exists>i<length svs. usable (svs ! i) \<and> \<not> other_room room (svs ! i)"
        then obtain i where i: "i < length svs" "usable (svs ! i)" "\<not> other_room room (svs ! i)" by blast
        have "i \<in> r_serverId ` set (q_ranks q)" using rs i(1) by (simp add: ranks_ok_def)
        then obtain p where p: "p < ?n" "r_serverId (q_ranks q ! p) = i" by (auto simp: in_set_conv_nth)
        obtain k where k: "k < ?n" "(k + v mod ?n) mod ?n = p" using rotation_hits [OF n(2) p(1)] by blast
        have "?u k" using ok [OF p(1)] i p(2) k(2) by (simp add: rank_ok_def usable_def Let_def)
        moreover have "k \<in> set [0..<?n]" using k(1) by simp
        ultimately show False using None unfolding find_None_iff by blast
      qed
      then show ?thesis using loop n None must by (auto simp: select_doFilter_def v Let_def)
    qed
  qed
qed

section \<open>The whole chain\<close>

definition cross_allowed :: "strategy \<Rightarrow> 'x slb_request \<Rightarrow> bool" where
  "cross_allowed st req \<longleftrightarrow> st_cross st \<and> sq_nthRetry req \<le> 0"

text \<open>What a selection promises: a usable server, in this room unless the first try may cross rooms.\<close>

definition good_choice :: "strategy \<Rightarrow> ('x \<Rightarrow> slb_server) \<Rightarrow> 'x slb_request \<Rightarrow> nat \<Rightarrow> bool" where
  "good_choice st copy req i \<longleftrightarrow> i < length (sq_svr req) \<and> usable (copy (sq_svr req ! i)) \<and>
     (cross_allowed st req \<or> \<not> other_room (take 31 (sq_room req)) (copy (sq_svr req ! i)))"

lemma find_rank:
  assumes "ranks_ok allow room svs rs" "i < length svs"
  shows "List.find (\<lambda>r. int (r_serverId r) = int i) rs \<noteq> None"
proof -
  have "i \<in> r_serverId ` set rs" using assms by (simp add: ranks_ok_def)
  then show ?thesis by (auto simp: find_None_iff)
qed

lemma chain_fetch_ok:
  assumes srt: "is_rank_sort (e_sort E)" "is_backup_sort (e_backup_sort E)" and st: "strategy_ok st"
  shows "\<exists>ret st' w'. fetchServer E (Some copy) req st w = Some (ret, st', w') \<and> strategy_ok st' \<and>
           (st_balance st' = None \<longleftrightarrow> st_balance st = None) \<and>
           (ret = - 1 \<or> (\<exists>i. ret = int i \<and> good_choice st copy req i)) \<and>
           (st_balance st \<noteq> None \<and> length (sq_svr req) \<le> MAX_SERVER_SIZE \<and>
            (\<exists>i<length (sq_svr req). usable (copy (sq_svr req ! i)) \<and>
               \<not> other_room (take 31 (sq_room req)) (copy (sq_svr req ! i))) \<longrightarrow> 0 \<le> ret)"
proof (cases "length (sq_svr req) > MAX_SERVER_SIZE")
  case True
  then show ?thesis using st by (simp add: fetchServer_def Let_def)
next
  case False
  let ?svs = "map copy (sq_svr req)" let ?room = "take 31 (sq_room req)" let ?allow = "cross_allowed st req"
  let ?q0 = "\<lparr>q_key = sq_key req, q_nthRetry = sq_nthRetry req, q_server = ?svs, q_room = ?room,
              q_ranks = replicate (length (sq_svr req)) rank_zero,
              q_mustSelectOneServer = True, q_needHealthyFilter = True\<rparr>"
  have len: "length ?svs \<le> MAX_SERVER_SIZE" using False by simp
  have F: "fetchServer E (Some copy) req st w =
      do { (ret, st', q, w) \<leftarrow> chain_doFilter E super_chain 0 st ?q0 w;
           Some (if ret \<ge> 0 \<and> List.find (\<lambda>r. int (r_serverId r) = ret) (q_ranks q) \<noteq> None then ret else - 1, st', w) }"
    using False by (simp add: fetchServer_def Let_def)
  obtain q1 where q1: "prepare_filter ?q0 = (0, q1)" by (simp add: prepare_filter_def)
  have ok1: "ranks_ok ?allow ?room ?svs (q_ranks q1)" "same_req ?q0 q1"
    using prepare_ranks_ok [of ?allow ?q0] q1 by (auto simp: prepare_filter_def same_req_def)
  obtain r2 b2 q2 w2 where q2: "balance_filter E (e_md5 E) (e_sort E) (st_balance st) q1 w = (r2, b2, q2, w2)"
    by (metis prod_cases4)
  note B = balance_filter_ranks [OF srt(1) q2 ok1(1)]
  show ?thesis
  proof (cases "st_balance st = None \<or> ?svs = []")
    case True
    then have r2: "r2 = - 1" using B(3) by simp
    have ne: "\<not> (\<exists>i<length (sq_svr req). usable (copy (sq_svr req ! i)) \<and>
               \<not> other_room ?room (copy (sq_svr req ! i))) \<or> st_balance st = None" using True by auto
    have "fetchServer E (Some copy) req st w = Some (- 1, st\<lparr>st_balance := b2\<rparr>, w2)"
      unfolding F using q1 q2 r2 by (simp add: super_chain_def filter_doFilter_def)
    moreover have "strategy_ok (st\<lparr>st_balance := b2\<rparr>)" using st by (simp add: strategy_ok_def)
    ultimately show ?thesis using B(4) ne by auto
  next
    case bal: False
    then have r2: "r2 = 0" using B(3) by simp
    have cok: "connect_ok (st_connect st)" and hok: "healthy_ok (st_healthy st)" using st by (simp_all add: strategy_ok_def)
    obtain q3 w3 where q3: "connect_doFilter E (st_connect st) q2 w2 = Some (0, q3, w3)"
        "ranks_ok ?allow ?room ?svs (q_ranks q3)" "same_req q2 q3"
      using connect_filter_ok [OF cok B(1), of E w2] by blast
    obtain f4 q4 w4 where q4: "healthy_doFilter E (e_backup_sort E) (st_healthy st) q3 w3 = Some (0, f4, q4, w4)"
        "ranks_ok ?allow ?room ?svs (q_ranks q4)" "same_req q3 q4" "healthy_ok f4"
      using healthy_filter_ok [OF hok srt(2) len q3(2), of E w3] by blast
    have sr: "same_req ?q0 q4"
      by (meson same_req_trans ok1(2) B(2) q3(3) q4(3))
    have "st_cross st \<and> q_nthRetry q4 \<le> 0 \<longrightarrow> ?allow" using sr by (simp add: same_req_def cross_allowed_def)
    then obtain q5 where q5: "cross_doFilter (st_cross st) q4 = (0, q5)" "ranks_ok ?allow ?room ?svs (q_ranks q5)"
        "same_req q4 q5"
      using cross_filter_ok [OF q4(2), of "st_cross st"] by blast
    have must: "q_mustSelectOneServer q5" using same_req_trans [OF sr q5(3)] by (simp add: same_req_def)
    have ne: "?svs \<noteq> []" using bal by blast
    obtain ret w6 where sel: "select_doFilter E q5 w4 = Some (ret, w6)"
        "ret = - 1 \<or> (\<exists>i. ret = int i \<and> i < length ?svs \<and> usable (?svs ! i) \<and> (?allow \<or> \<not> other_room ?room (?svs ! i)))"
        "(\<exists>i<length ?svs. usable (?svs ! i) \<and> \<not> other_room ?room (?svs ! i)) \<longrightarrow> 0 \<le> ret"
      using select_filter_ok [OF q5(2) ne must, of E w4] by blast
    have fnd: "0 \<le> ret \<Longrightarrow> List.find (\<lambda>r. int (r_serverId r) = ret) (q_ranks q5) \<noteq> None"
      using sel(2) find_rank [OF q5(2)] by auto
    have "fetchServer E (Some copy) req st w = Some (ret, st\<lparr>st_balance := b2, st_healthy := f4\<rparr>, w6)"
      unfolding F using q1 q2 r2 q3(1) q4(1) q5(1) sel(1,2) fnd
      by (auto simp: super_chain_def filter_doFilter_def)
    moreover have "strategy_ok (st\<lparr>st_balance := b2, st_healthy := f4\<rparr>)"
      using st q4(4) by (simp add: strategy_ok_def)
    moreover have "ret = - 1 \<or> (\<exists>i. ret = int i \<and> good_choice st copy req i)"
      using sel(2) by (auto simp: good_choice_def)
    moreover have "(\<exists>i<length (sq_svr req). usable (copy (sq_svr req ! i)) \<and>
               \<not> other_room ?room (copy (sq_svr req ! i))) \<longrightarrow> 0 \<le> ret"
      using sel(3) by (auto simp: nth_map)
    ultimately show ?thesis using B(4) by auto
  qed
qed

section \<open>Reachable strategies\<close>

inductive slb_reach :: "'w slb_env \<Rightarrow> ('x \<Rightarrow> slb_server) \<Rightarrow> strategy \<Rightarrow> bool" for E copy where
  loaded: "chain_load conf calloc halloc strategy_new = (0, st) \<Longrightarrow> (\<And>i ok. calloc i = Some ok \<Longrightarrow> ok) \<Longrightarrow>
           (\<And>i ok m. halloc i = Some (ok, m) \<Longrightarrow> ok \<and> 0x65 \<le> m) \<Longrightarrow> slb_reach E copy st"
| reloaded: "slb_reach E copy st \<Longrightarrow> chain_reload conf st = (ret, st') \<Longrightarrow> slb_reach E copy st'"
| fetched: "slb_reach E copy st \<Longrightarrow> fetchServer E (Some copy) req st w = Some (ret, st', w') \<Longrightarrow> slb_reach E copy st'"
| connected: "slb_reach E copy st \<Longrightarrow> 0 \<le> sl_id (copy x) \<Longrightarrow>
              setServerArgAfterConn (Some copy) (Some x) err st = Some (ret, st') \<Longrightarrow> slb_reach E copy st'"
| served: "slb_reach E copy st \<Longrightarrow> setServerArg (Some copy) (Some x) (Some rt) tm st = Some (ret, st') \<Longrightarrow>
           slb_reach E copy st'"

inductive_cases slb_reachE: "slb_reach E copy st"

lemma chain_load_ok:
  assumes "chain_load conf calloc halloc strategy_new = (0, st)" "\<And>i ok. calloc i = Some ok \<Longrightarrow> ok"
    and "\<And>i ok m. halloc i = Some (ok, m) \<Longrightarrow> ok \<and> 0x65 \<le> m"
  shows "strategy_ok st \<and> st_balance st \<noteq> None"
proof -
  have off: "\<not> cf_loadSucc (st_connect strategy_new)" "\<not> hf_loadSucc (st_healthy strategy_new)"
    by (simp_all add: strategy_new_def connect_filter_new_def healthy_filter_new_def)
  show ?thesis
    using assms(1) connect_load_ok [OF assms(2) off(1), where conf = conf] healthy_load_ok [OF assms(3) off(2), where conf = conf]
    by (auto simp: chain_load_def balance_load_def strategy_ok_def Let_def split_beta split: option.splits)
qed

lemma chain_reload_ok:
  "strategy_ok st \<Longrightarrow> st_balance st \<noteq> None \<Longrightarrow> chain_reload conf st = (ret, st') \<Longrightarrow>
   strategy_ok st' \<and> st_balance st' \<noteq> None"
  using connect_reload_ok [of "st_connect st" conf] healthy_reload_ok [of "st_healthy st" conf]
  by (auto simp: chain_reload_def balance_reload_def strategy_ok_def Let_def split_beta split: option.splits)

lemma slb_reach_ok:
  assumes srt: "is_rank_sort (e_sort E)" "is_backup_sort (e_backup_sort E)"
  shows "slb_reach E copy st \<Longrightarrow> strategy_ok st \<and> st_balance st \<noteq> None"
proof (induction rule: slb_reach.induct)
  case (loaded conf calloc halloc st)
  then show ?case using chain_load_ok by blast
next
  case (reloaded st conf ret st')
  then show ?case using chain_reload_ok by blast
next
  case (fetched st req w ret st' w')
  then show ?case using chain_fetch_ok [OF srt, of st copy req w] by auto
next
  case (connected st x err ret st')
  then show ?case using updateConnectStatus_ok [of "st_connect st" "copy x" err]
    by (auto simp: setServerArgAfterConn_def strategy_ok_def)
next
  case (served st x rt tm ret st')
  then show ?case using updateRequestStatus_ok [of "st_healthy st" "copy x" rt tm]
    by (auto simp: setServerArg_def strategy_ok_def)
qed

end
