(* ===== verification/SlbProps.thy ===== *)
theory SlbProps
  imports Slb
begin

text \<open>
  The properties of the load balancer: what a selection promises, the curve of the connection
  filter, the order of the round robin, and what a reload does to a filter.
\<close>

section \<open>A concrete environment and configuration\<close>

definition example_env :: "nat slb_env" where
  "example_env = \<lparr>w_rand = (\<lambda>n. (n * 37 mod 101, n + 1)), w_time = (\<lambda>n. (int n, n)), e_md5 = (\<lambda>s. (0, 0, 0, 0)),
     e_sort = (\<lambda>rs. rev (sort_key r_balanceRank rs)), e_backup_sort = (\<lambda>bs. rev (sort_key fst bs))\<rparr>"

lemma sorted_down: "sorted_wrt (\<lambda>a b. f b \<le> f a) (rev (sort_key f xs))"
  using sorted_sort_key [of f xs] by (simp add: sorted_wrt_rev sorted_wrt_map)

lemma example_sorts: "is_rank_sort (e_sort example_env)" "is_backup_sort (e_backup_sort example_env)"
  by (simp_all add: is_rank_sort_def is_backup_sort_def example_env_def sorted_down)

definition example_slb_conf :: slb_conf where
  "example_slb_conf = \<lparr>sc_double = (\<lambda>k. Some (if k = ''ConnectX1'' then 10 else if k = ''ConnectY1'' then 95
       else if k = ''ConnectX2'' then 40 else if k = ''ConnectY2'' then 5
       else if k = ''HealthyMinRate'' then 1 / 10 else 3)),
     sc_uint32 = (\<lambda>k. Some (if k = ''HealthyTimeout'' then 100 else 3)), sc_int32 = (\<lambda>_. None),
     sc_cstr = (\<lambda>k. Some (if k = ''Balance'' then ''roundrobin'' else ''On''))\<rparr>"

lemma example_balance: "get_balance example_slb_conf = Some (RoundRobinBalance INT_NEG1)"
  by code_simp

definition example_strategy :: strategy where
  "example_strategy = snd (chain_load example_slb_conf (\<lambda>_. Some True) (\<lambda>_. Some (True, 4096)) strategy_new)"

lemma example_reach: "slb_reach E copy example_strategy"
proof (rule slb_reach.loaded [where conf = example_slb_conf and calloc = "\<lambda>_. Some True"
      and halloc = "\<lambda>_. Some (True, 4096)"])
  have "fst (chain_load example_slb_conf (\<lambda>_. Some True) (\<lambda>_. Some (True, 4096)) strategy_new) = 0"
    using example_balance by (simp add: chain_load_def balance_load_def split_beta Let_def)
  then show "chain_load example_slb_conf (\<lambda>_. Some True) (\<lambda>_. Some (True, 4096)) strategy_new = (0, example_strategy)"
    by (simp add: example_strategy_def prod_eq_iff)
qed simp_all

definition example_server :: "bool \<Rightarrow> bool \<Rightarrow> string \<Rightarrow> slb_server" where
  "example_server on healthy room = \<lparr>sl_isHealthy = healthy, sl_enable = on, sl_id = 0, sl_port = 80,
     sl_ip = ''10.0.0.1'', sl_tag = Some room\<rparr>"

section \<open>Selection\<close>

text \<open>
  C13: Whatever loads, reloads, selections and results a strategy has been through, whatever the
  generator, the clock and the hash return: a selection never crashes, and it returns -1 or the
  index of one of the candidate servers that is enabled and healthy; one of another room only on
  a first try with the cross-room filter on.
\<close>

theorem slb_selects_usable:
  assumes "slb_reach E copy st" "is_rank_sort (e_sort E)" "is_backup_sort (e_backup_sort E)"
  shows "\<exists>ret st' w'. fetchServer E (Some copy) req st w = Some (ret, st', w') \<and>
           (ret = - 1 \<or> (\<exists>i. ret = int i \<and> i < length (sq_svr req) \<and>
              sl_enable (copy (sq_svr req ! i)) \<and> sl_isHealthy (copy (sq_svr req ! i)) \<and>
              (st_cross st \<and> sq_nthRetry req \<le> 0 \<or>
               \<not> other_room (take 31 (sq_room req)) (copy (sq_svr req ! i)))))"
  using chain_fetch_ok [OF assms(2,3), of st copy req w] slb_reach_ok [OF assms(2,3,1)]
  by (auto simp: good_choice_def usable_def cross_allowed_def)

theorem slb_selects_usable_witness:
  "\<exists>ret st' w'. fetchServer example_env (Some (\<lambda>x. x))
       \<lparr>sq_key = 7, sq_nthRetry = 1, sq_svr = [example_server True True ''jx'', example_server False True ''tc''],
        sq_room = ''tc''\<rparr> example_strategy 5 = Some (ret, st', w') \<and> ret = - 1"
  using slb_selects_usable [OF example_reach example_sorts, of "\<lambda>x. x"
      "\<lparr>sq_key = 7, sq_nthRetry = 1, sq_svr = [example_server True True ''jx'', example_server False True ''tc''],
        sq_room = ''tc''\<rparr>" 5]
  by (auto simp: example_server_def other_room_def less_Suc_eq)

text \<open>
  C33: As long as one of at most 64 candidates is enabled, healthy and in the room of the request
  (or has no room), a selection succeeds: the filters that throw servers out at random can never
  leave a request without a server.
\<close>

theorem slb_finds_server:
  assumes "slb_reach E copy st" "is_rank_sort (e_sort E)" "is_backup_sort (e_backup_sort E)"
    and "length (sq_svr req) \<le> 64" "i < length (sq_svr req)"
    and "sl_enable (copy (sq_svr req ! i))" "sl_isHealthy (copy (sq_svr req ! i))"
    and "\<not> other_room (take 31 (sq_room req)) (copy (sq_svr req ! i))"
  shows "\<exists>j st' w'. fetchServer E (Some copy) req st w = Some (int j, st', w') \<and> j < length (sq_svr req)"
proof -
  have "\<exists>i<length (sq_svr req). usable (copy (sq_svr req ! i)) \<and> \<not> other_room (take 31 (sq_room req)) (copy (sq_svr req ! i))"
    using assms(5-8) by (auto simp: usable_def)
  then show ?thesis
    using chain_fetch_ok [OF assms(2,3), of st copy req w] slb_reach_ok [OF assms(2,3,1)] assms(4)
    by (auto simp: good_choice_def MAX_SERVER_SIZE_def)
qed

theorem slb_finds_server_witness:
  "\<exists>j st' w'. fetchServer example_env (Some (\<lambda>x. x))
       \<lparr>sq_key = 7, sq_nthRetry = 0, sq_svr = [example_server True False ''tc'', example_server True True ''tc''],
        sq_room = ''tc''\<rparr> example_strategy 5 = Some (int j, st', w') \<and> j < 2"
  using slb_finds_server [OF example_reach example_sorts, where copy = "\<lambda>x. x" and i = 1
      and req = "\<lparr>sq_key = 7, sq_nthRetry = 0, sq_svr = [example_server True False ''tc'', example_server True True ''tc''],
        sq_room = ''tc''\<rparr>" and w = 5]
  by (simp add: example_server_def other_room_def numeral_2_eq_2)

section \<open>The curve of the connection filter\<close>

text \<open>
  For corner points \<open>K = (x1, y1)\<close> and \<open>P = (x2, y2)\<close> in order, the selection rate is 100 without
  a failure, never increases with the number of failures, passes through both corner points and
  stays at \<open>y2\<close> from \<open>x2\<close> on, so it is always between \<open>y2\<close> and 100.
\<close>

theorem connect_rate_curve:
  assumes "0 < cf_x1 f" "cf_x1 f < cf_x2 f" "cf_y2 f \<le> cf_y1 f" "cf_y1 f \<le> 100" "0 \<le> m" "m \<le> n"
  shows "connect_rate f 0 = 100 \<and> connect_rate f n \<le> connect_rate f m \<and>
         cf_y2 f \<le> connect_rate f n \<and> connect_rate f m \<le> 100 \<and>
         (real_of_int n = cf_x1 f \<longrightarrow> connect_rate f n = cf_y1 f) \<and>
         (cf_x2 f \<le> real_of_int n \<longrightarrow> connect_rate f n = cf_y2 f)"
proof -
  let ?x1 = "cf_x1 f" let ?x2 = "cf_x2 f" let ?y1 = "cf_y1 f" let ?y2 = "cf_y2 f"
  define A where "A c = c * (?y1 - 100) / ?x1 + 100" for c
  define B where "B c = ?y1 + (?y2 - ?y1) * ((c - ?x1) / (?x2 - ?x1))" for c
  have rate: "connect_rate f k = (if real_of_int k < ?x1 then A k else if real_of_int k < ?x2 then B k else ?y2)"
    if "0 \<le> k" for k
    using that assms(2) unfolding connect_rate_def A_def B_def Let_def
    by (simp add: diff_divide_distrib right_diff_distrib left_diff_distrib add_divide_distrib mult.commute)
  have A_mono: "A d \<le> A c" if "c \<le> d" for c d
    using that assms(1,4) unfolding A_def
    by (simp add: divide_right_mono mult_right_mono_neg)
  have B_mono: "B d \<le> B c" if "c \<le> d" for c d
    using that assms(2,3) unfolding B_def
    by (simp add: divide_right_mono mult_left_mono_neg)
  have ends: "A 0 = 100" "A ?x1 = ?y1" "B ?x1 = ?y1" "B ?x2 = ?y2"
    using assms(1,2) by (simp_all add: A_def B_def)
  have AB: "B d \<le> A c" if "c \<le> ?x1" "?x1 \<le> d" for c d
    using A_mono [OF that(1)] B_mono [OF that(2)] ends by simp
  have By: "?y2 \<le> B c" if "c \<le> ?x2" for c using B_mono [OF that] ends by simp
  have Ay: "?y2 \<le> A c" if "c \<le> ?x1" for c using A_mono [OF that] ends assms(3) by simp
  have mn: "real_of_int m \<le> real_of_int n" "0 \<le> n" using assms(5,6) by simp_all
  have le: "connect_rate f n \<le> connect_rate f m"
    using A_mono [OF mn(1)] B_mono [OF mn(1)] AB [of m n] By [of m] Ay [of m] mn assms(2) rate [OF assms(5)] rate [OF mn(2)]
    by (cases "real_of_int m < ?x1"; cases "real_of_int n < ?x1"; cases "real_of_int m < ?x2"; cases "real_of_int n < ?x2") auto
  have low: "?y2 \<le> connect_rate f n" using Ay [of n] By [of n] rate [OF mn(2)] by simp
  have zero: "connect_rate f 0 = 100" using rate [of 0] ends(1) assms(1) by simp
  have high: "connect_rate f m \<le> 100"
    using rate [OF assms(5)] A_mono [of 0 m] AB [of 0 m] ends(1) assms by (auto simp: not_less)
  have corners: "real_of_int n = ?x1 \<longrightarrow> connect_rate f n = ?y1" "?x2 \<le> real_of_int n \<longrightarrow> connect_rate f n = ?y2"
    using rate [OF mn(2)] ends(3) assms(2) by auto
  show ?thesis using le low zero high corners by blast
qed

theorem connect_rate_curve_witness:
  "connect_rate (connect_filter_new\<lparr>cf_x1 := 10, cf_y1 := 95, cf_x2 := 40, cf_y2 := 5\<rparr>) 40 = 5 \<and>
   connect_rate (connect_filter_new\<lparr>cf_x1 := 10, cf_y1 := 95, cf_x2 := 40, cf_y2 := 5\<rparr>) 10 \<le> 100"
  using connect_rate_curve [of "connect_filter_new\<lparr>cf_x1 := 10, cf_y1 := 95, cf_x2 := 40, cf_y2 := 5\<rparr>" 10 40] by simp
section \<open>The round robin\<close>

lemma round_robin_ranks_result:
  assumes "distinct is" "list_all (\<lambda>i. i < length rs) is" "0 < n"
  shows "length (fst (round_robin_ranks W n cur is rs w)) = length rs \<and>
         (\<forall>i<length rs. let r = fst (round_robin_ranks W n cur is rs w) ! i in
            r_serverId r = r_serverId (rs ! i) \<and>
            r_balanceRank r = (if i \<notin> set is then r_balanceRank (rs ! i) else if i = cur then n + 1 else r_balanceRank r) \<and>
            (i \<in> set is \<longrightarrow> i \<noteq> cur \<longrightarrow> r_balanceRank r < n))"
  using assms(1,2)
proof (induction "is" arbitrary: rs w)
  case Nil
  then show ?case by simp
next
  case (Cons i "is")
  obtain v w1 where v: "w_rand W w = (v, w1)" by fastforce
  define b where "b = (if i = cur then n + 1 else v mod n)"
  define rs1 where "rs1 = rs[i := (rs ! i)\<lparr>r_balanceRank := b\<rparr>]"
  define w2 where "w2 = (if i = cur then w else w1)"
  have step: "round_robin_ranks W n cur (i # is) rs w = round_robin_ranks W n cur is rs1 w2"
    by (simp add: v b_def rs1_def w2_def)
  have i: "i < length rs" "i \<notin> set is" "distinct is" "list_all (\<lambda>i. i < length rs1) is"
    using Cons.prems by (simp_all add: rs1_def)
  have "b < n \<or> i = cur" using assms(3) by (simp add: b_def)
  moreover have "i = cur \<Longrightarrow> b = n + 1" by (simp add: b_def)
  ultimately show ?case
    using Cons.IH [OF i(3,4), of w2] i(1,2) unfolding step
    by (auto simp: rs1_def nth_list_update Let_def)
qed

lemma sorted_head_max:
  assumes "is_rank_sort srt" "r \<in> set rs"
  shows "hd (srt rs) \<in> set rs" "r_balanceRank r \<le> r_balanceRank (hd (srt rs))"
proof -
  have m: "mset (srt rs) = mset rs" and s: "sorted_wrt (\<lambda>a b. r_balanceRank b \<le> r_balanceRank a) (srt rs)"
    using assms(1) by (simp_all add: is_rank_sort_def)
  have set: "set (srt rs) = set rs" using m by (rule mset_eq_setD)
  then obtain a as where a: "srt rs = a # as" using assms(2) by (cases "srt rs") auto
  then show "hd (srt rs) \<in> set rs" using set by auto
  show "r_balanceRank r \<le> r_balanceRank (hd (srt rs))" using s a set assms(2) by auto
qed

lemma sint_small: "- (2 ^ 31) \<le> i \<Longrightarrow> i < 2 ^ 31 \<Longrightarrow> sint (word_of_int i :: u32) = i"
  by (simp add: signed_of_int signed_take_bit_int_eq_self)

lemma round_robin_cur_call:
  assumes "k \<le> 2 ^ 31"
  shows "round_robin_cur (of_nat k - 1) n = k mod n"
proof (cases "k = 0")
  case True
  then show ?thesis by (simp add: round_robin_cur_def INT_NEG1_def)
next
  case False
  have "(of_nat k - 1 :: u32) = word_of_int (int k - 1)" by simp
  moreover have "sint (word_of_int (int k - 1) :: u32) = int k - 1"
    by (rule sint_small) (use False assms in simp_all)
  ultimately have "\<not> sint (of_nat k - 1 :: u32) < 0" using False by simp
  moreover have "unat (of_nat k :: u32) = k" using assms by (simp add: unat_of_nat)
  ultimately show ?thesis by (simp add: round_robin_cur_def Let_def)
qed

text \<open>
  The round robin is fair: the call number \<open>k\<close> (from 0) puts server \<open>k mod n\<close> at the front of
  the candidates, whatever the generator gives to the others and however the sort breaks ties,
  and leaves the counter ready for call \<open>k + 1\<close>; this holds for the first \<open>2^31\<close> calls.
\<close>

theorem round_robin_cycles:
  assumes "is_rank_sort srt" "0 < q_serverNum q" "k < 2 ^ 31"
  shows "\<exists>q' w'. balance_filter W md5 srt (Some (RoundRobinBalance (of_nat k - 1))) (snd (prepare_filter q)) w =
           (0, Some (RoundRobinBalance (of_nat (Suc k) - 1)), q', w') \<and>
         r_serverId (hd (q_ranks q')) = k mod q_serverNum q"
proof -
  let ?n = "q_serverNum q" let ?q = "snd (prepare_filter q)" let ?l = "of_nat k - 1 :: u32"
  have n: "q_serverNum ?q = ?n" by (simp add: prepare_filter_def)
  have ids: "r_serverId (q_ranks ?q ! i) = i" if "i < ?n" for i
    using that by (simp add: prepare_filter_def prepare_rank_def Let_def)
  have cur: "round_robin_cur ?l ?n = k mod ?n" using assms(3) by (intro round_robin_cur_call) simp
  obtain rs w1 where rs: "round_robin_ranks W ?n (k mod ?n) [0..<?n] (q_ranks ?q) w = (rs, w1)" by fastforce
  have all: "list_all (\<lambda>i. i < length (q_ranks ?q)) [0..<?n]" by (simp add: list_all_iff n del: upt_Suc)
  have R: "length rs = ?n" "r_serverId (rs ! i) = i" "i = k mod ?n \<Longrightarrow> r_balanceRank (rs ! i) = ?n + 1"
      "i \<noteq> k mod ?n \<Longrightarrow> r_balanceRank (rs ! i) < ?n" if "i < ?n" for i
    using round_robin_ranks_result [OF distinct_upt all assms(2), of W "k mod ?n" w] that ids [OF that] n rs
    by (auto simp: Let_def simp del: upt_Suc)
  have cn: "k mod ?n < ?n" using assms(2) by simp
  have call: "balance_filter W md5 srt (Some (RoundRobinBalance ?l)) ?q w =
      (0, Some (RoundRobinBalance (of_nat (Suc k) - 1)), ?q\<lparr>q_ranks := srt rs\<rparr>, w1)"
    using assms(2) n rs cur
    by (simp add: balance_filter_def balance_server_def round_robin_balance_server_def Let_def del: upt_Suc)
  have mem: "rs ! (k mod ?n) \<in> set rs" using R(1) [OF cn] cn by simp
  have hd: "hd (srt rs) \<in> set rs" "?n + 1 \<le> r_balanceRank (hd (srt rs))"
    using sorted_head_max [OF assms(1) mem] R(3) [OF cn] by simp_all
  obtain i where i: "i < ?n" "hd (srt rs) = rs ! i" using hd(1) R(1) [OF cn] by (auto simp: in_set_conv_nth)
  have "i = k mod ?n" using R(4) [OF i(1)] hd(2) i(2) by (cases "i = k mod ?n") auto
  then have "r_serverId (hd (srt rs)) = k mod ?n" using i R(2) [OF i(1)] by simp
  then show ?thesis using call by simp
qed

theorem round_robin_cycles_witness:
  "\<exists>q' w'. balance_filter example_env (\<lambda>_. (0, 0, 0, 0)) (e_sort example_env) (Some (RoundRobinBalance (of_nat 5 - 1)))
       (snd (prepare_filter \<lparr>q_key = 0, q_nthRetry = 0, q_server = [], q_room = '''',
          q_ranks = [rank_zero, rank_zero, rank_zero], q_mustSelectOneServer = True, q_needHealthyFilter = True\<rparr>)) 0 =
       (0, Some (RoundRobinBalance (of_nat 6 - 1)), q', w') \<and> r_serverId (hd (q_ranks q')) = 2"
  using round_robin_cycles [OF example_sorts(1), of "\<lparr>q_key = 0, q_nthRetry = 0, q_server = [], q_room = '''',
          q_ranks = [rank_zero, rank_zero, rank_zero], q_mustSelectOneServer = True, q_needHealthyFilter = True\<rparr>"
      5 example_env "\<lambda>_. (0, 0, 0, 0)" 0] by simp

text \<open>
  The counter of the round robin is an \<open>int\<close> that is never reset: once it has wrapped
  around, every call for the next \<open>2^31 - 1\<close> calls prefers server 0.
\<close>

theorem round_robin_stuck:
  assumes "2 ^ 31 < k" "k \<le> 2 ^ 32"
  shows "round_robin_cur (of_nat k - 1) n = 0"
proof -
  have "(of_nat k - 1 :: u32) = word_of_int (int k - 1)" by simp
  also have "\<dots> = word_of_int (int k - 1 - 2 ^ 32)"
  proof (rule word_of_int_eq_iff [THEN iffD2])
    show "take_bit LENGTH(32) (int k - 1) = take_bit LENGTH(32) (int k - 1 - 2 ^ 32)"
      using minus_mod_self2 [of "int k - 1" "2 ^ 32"] unfolding take_bit_eq_mod by simp
  qed
  finally have eq: "(of_nat k - 1 :: u32) = word_of_int (int k - 1 - 2 ^ 32)" .
  have "sint (word_of_int (int k - 1 - 2 ^ 32) :: u32) = int k - 1 - 2 ^ 32"
    by (rule sint_small) (use assms in simp_all)
  then have "sint (of_nat k - 1 :: u32) = int k - 1 - 2 ^ 32" by (simp only: eq)
  then have "sint (of_nat k - 1 :: u32) < 0" using assms by simp
  then show ?thesis by (simp add: round_robin_cur_def INT_NEG1_def Let_def)
qed

theorem round_robin_stuck_witness: "round_robin_cur (of_nat (2 ^ 31 + 5) - 1) 3 = 0"
  by (rule round_robin_stuck) simp_all

section \<open>Reloading\<close>

text \<open>
  A reload that finds one of its keys missing switches the connection or the health filter
  off for good: \<open>_loadSucc\<close> is cleared before the keys are read, and every later reload returns
  at once because it is not set, however complete its configuration is.
\<close>

theorem failed_reload_is_final:
  assumes "cf_loadSucc f" "hf_loadSucc h"
    and "list_ex (\<lambda>k. sc_double conf k = None) [''ConnectX1'', ''ConnectY1'', ''ConnectX2'', ''ConnectY2'']"
    and "list_ex (\<lambda>k. sc_double conf k = None) [''HealthyMinRate'', ''HealthyBackupThreshold'']"
  shows "\<not> cf_loadSucc (fold (\<lambda>c f. snd (connect_reload c f)) (conf # confs) f) \<and>
         \<not> hf_loadSucc (fold (\<lambda>c f. snd (healthy_reload c f)) (conf # confs) h)"
proof -
  have c: "\<not> cf_loadSucc f \<Longrightarrow> fold (\<lambda>c f. snd (connect_reload c f)) confs f = f" for f
    by (induction confs) (simp_all add: connect_reload_def)
  have h: "\<not> hf_loadSucc f \<Longrightarrow> fold (\<lambda>c f. snd (healthy_reload c f)) confs f = f" for f
    by (induction confs) (simp_all add: healthy_reload_def)
  have "read_curve conf g = None" for g :: connect_filter
    using assms(3) by (auto simp: read_curve_def split: bind_split)
  moreover have "read_healthy conf g = None" for g :: healthy_filter
    using assms(4) by (auto simp: read_healthy_def split: bind_split)
  ultimately have "snd (connect_reload conf f) = f\<lparr>cf_loadSucc := False\<rparr>"
      "snd (healthy_reload conf h) = h\<lparr>hf_loadSucc := False\<rparr>"
    using assms(1,2) by (simp_all add: connect_reload_def healthy_reload_def)
  then show ?thesis by (simp add: c h)
qed

theorem failed_reload_is_final_witness:
  "\<not> cf_loadSucc (fold (\<lambda>c f. snd (connect_reload c f))
      [example_slb_conf\<lparr>sc_double := (\<lambda>_. None)\<rparr>, example_slb_conf] (connect_filter_new\<lparr>cf_loadSucc := True\<rparr>))"
  using failed_reload_is_final [of "connect_filter_new\<lparr>cf_loadSucc := True\<rparr>" "healthy_filter_new\<lparr>hf_loadSucc := True\<rparr>"
      "example_slb_conf\<lparr>sc_double := (\<lambda>_. None)\<rparr>" "[example_slb_conf]"] by simp

end
