(* ===== verification/Pool.thy ===== *)
theory Pool
  imports PoolSystem SlbProps
begin

text \<open>
  A whole connection pool (\<open>pool.cpp\<close>): its array of servers, its load balancing strategy and the
  count of the servers that are not freed yet. An operation of \<open>PoolServer\<close> on one server emits
  its calls as outputs; here they reach the strategy, and the last freed server takes the
  strategy with it and reports the end of the pool to the router. \<open>None\<close> is a crash.
\<close>

section \<open>The pool\<close>

record 'r pool_info =
  m_poolIdx :: int
  m_serverArr :: "'r server_info list"
  server_addr :: "string list"
  server_port :: "int list"
  m_machineRoom :: string
  m_serverCount :: int
  pool_lowConnect :: int
  pool_perServer :: int
  m_connectRetry :: int
  m_longConnect :: bool
  m_cTimeOutMs :: int
  m_strategy :: "strategy option"
  destroy_reports :: nat    \<comment> \<open>calls of \<open>m_destroy_cb\<close>\<close>

definition LOW_CONNECT_THRESHOLD :: int where
  "LOW_CONNECT_THRESHOLD = 10"

definition MACHINE_ROOM_SIZE :: nat where
  "MACHINE_ROOM_SIZE = 32"

text \<open>A server is handed to the strategy as \<open>void*\<close>: here its index in the array.\<close>

definition strategy_copy_serv :: "'r pool_info \<Rightarrow> nat \<Rightarrow> slb_server" where
  "strategy_copy_serv p i =
     \<lparr>sl_isHealthy = True, sl_enable = True, sl_id = int (m_serverIdx (m_serverArr p ! i)),
      sl_port = server_port p ! i, sl_ip = server_addr p ! i, sl_tag = None\<rparr>"

text \<open>
  \<open>_pool_strategy_init\<close>: \<open>conf\<close> is the section \<open>SuperStrategy\<close>, or the empty configuration when it
  does not exist.
\<close>

definition strategy_init ::
    "slb_conf \<Rightarrow> (nat \<Rightarrow> bool option) \<Rightarrow> (nat \<Rightarrow> (bool \<times> nat) option) \<Rightarrow> int \<times> strategy" where
  "strategy_init conf calloc halloc = chain_load conf calloc halloc strategy_new"

primrec build_servers :: "nat list \<Rightarrow> int \<Rightarrow> int \<Rightarrow> 'r server_info list option" where
  "build_servers [] per low = Some []"
| "build_servers (i # is) per low =
     do { s \<leftarrow> server_build i per low; rest \<leftarrow> build_servers is per low; Some (s # rest) }"

text \<open>\<open>pool_build\<close>; the result of the strategy's initialisation is not looked at.\<close>

definition pool_build ::
    "int \<Rightarrow> (string \<times> int) list \<Rightarrow> int \<Rightarrow> int \<Rightarrow> string \<Rightarrow> int \<Rightarrow> bool \<Rightarrow> strategy \<Rightarrow> 'r pool_info option" where
  "pool_build pool_idx serverConfs connectPerServer cTimeOutMs room connectRetry longConnect st =
     (let low = (if connectPerServer div LOW_CONNECT_THRESHOLD > 0 then connectPerServer div LOW_CONNECT_THRESHOLD else 1)
      in map_option (\<lambda>servers.
           \<lparr>m_poolIdx = pool_idx, m_serverArr = servers, server_addr = map fst serverConfs,
            server_port = map snd serverConfs, m_machineRoom = room, m_serverCount = int (length serverConfs),
            pool_lowConnect = low, pool_perServer = connectPerServer, m_connectRetry = connectRetry,
            m_longConnect = longConnect, m_cTimeOutMs = cTimeOutMs, m_strategy = Some st, destroy_reports = 0\<rparr>)
         (build_servers [0..<length serverConfs] connectPerServer low))"

section \<open>Calls out of a server\<close>

text \<open>
  What the outputs of an operation on server \<open>i\<close> do in the pool, in their order: feedback to the
  strategy (\<open>rt\<close> is the measured time, \<open>tm\<close> the clock), and the count of servers.
\<close>

primrec pool_notes :: "nat \<Rightarrow> int \<Rightarrow> int \<Rightarrow> 'r pool_out list \<Rightarrow> 'r pool_info \<Rightarrow> 'r pool_info option" where
  "pool_notes i rt tm [] p = Some p"
| "pool_notes i rt tm (out # os) p =
     (case out of
        AfterConn _ err \<Rightarrow>
          do { st \<leftarrow> m_strategy p;
               (_, st) \<leftarrow> setServerArgAfterConn (Some (strategy_copy_serv p)) (Some i) err st;
               pool_notes i rt tm os (p\<lparr>m_strategy := Some st\<rparr>) }
      | Talk _ \<Rightarrow>
          do { st \<leftarrow> m_strategy p;
               (_, st) \<leftarrow> setServerArg (Some (strategy_copy_serv p)) (Some i) (Some rt) tm st;
               pool_notes i rt tm os (p\<lparr>m_strategy := Some st\<rparr>) }
      | ServerFreed _ \<Rightarrow>
          (let p = p\<lparr>m_serverCount := m_serverCount p - 1\<rparr>;
               p = (if m_serverCount p = 0
                    then p\<lparr>m_strategy := None, destroy_reports := Suc (destroy_reports p)\<rparr> else p)
           in pool_notes i rt tm os p)
      | _ \<Rightarrow> pool_notes i rt tm os p)"

definition on_server ::
    "nat \<Rightarrow> ('r server_info \<Rightarrow> ('r server_info \<times> 'r pool_out list) option) \<Rightarrow> int \<Rightarrow> int \<Rightarrow>
     'r pool_info \<Rightarrow> ('r pool_info \<times> 'r pool_out list) option" where
  "on_server i op rt tm p =
     (if i < length (m_serverArr p) then
        do {
          (s, os) \<leftarrow> op (m_serverArr p ! i);
          p \<leftarrow> pool_notes i rt tm os (p\<lparr>m_serverArr := (m_serverArr p)[i := s]\<rparr>);
          Some (p, os)
        }
      else None)"

section \<open>Balancing\<close>

definition get_random_server :: "int \<Rightarrow> int \<Rightarrow> int" where
  "get_random_server server_num balanceKey =
     (if balanceKey > 0 \<and> server_num > 0 then balanceKey mod server_num else 0)"

text \<open>The servers offered to the strategy: connected, but not with all connections.\<close>

definition candidates :: "'r pool_info \<Rightarrow> nat list" where
  "candidates p = filter (\<lambda>i. let c = m_connectCount (m_serverArr p ! i) in \<not> (c = 0 \<or> c = pool_perServer p))
                    [0..<nat (m_serverCount p)]"

primrec scan_connected :: "'r pool_info \<Rightarrow> nat \<Rightarrow> nat \<Rightarrow> nat" where
  "scan_connected p 0 index = index"
| "scan_connected p (Suc k) index =
     (if m_connectCount (m_serverArr p ! index) = 0
      then scan_connected p k ((index + 1) mod nat (m_serverCount p)) else index)"

definition get_balance_server :: "'w slb_env \<Rightarrow> int \<Rightarrow> 'r pool_info \<Rightarrow> 'w \<Rightarrow> (int \<times> 'r pool_info \<times> 'w) option" where
  "get_balance_server E balanceKey p w =
     (let svr = candidates p; n = m_serverCount p in
      if length svr > MAX_SERVER_SIZE then None
      else if svr = [] then
        if n \<le> 0 then None
        else let (v, w) = w_rand E w in Some (int (scan_connected p (nat n) (v mod nat n)), p, w)
      else do {
        st \<leftarrow> m_strategy p;
        (sel, st, w) \<leftarrow> fetchServer E (Some (strategy_copy_serv p))
          \<lparr>sq_key = balanceKey, sq_nthRetry = 0, sq_svr = svr,
           sq_room = take (MACHINE_ROOM_SIZE - 1) (m_machineRoom p)\<rparr> st w;
        let sel = (if 0 \<le> sel \<and> nat sel < length svr
                   then let sid = int (m_serverIdx (m_serverArr p ! (svr ! nat sel)))
                        in if sid < 0 \<or> n \<le> sid then get_random_server n balanceKey else sid
                   else get_random_server n balanceKey);
        Some (sel, p\<lparr>m_strategy := Some st\<rparr>, w)
      })"

text \<open>The loop \<open>while (retry >= 0)\<close> of \<open>pool_fetch_connect\<close>; the first argument is \<open>retry + 1\<close>.\<close>

fun balance_retry :: "'w slb_env \<Rightarrow> nat \<Rightarrow> int \<Rightarrow> int \<Rightarrow> 'r pool_info \<Rightarrow> 'w \<Rightarrow> (int \<times> 'r pool_info \<times> 'w) option" where
  "balance_retry E 0 bkey serverid p w = Some (serverid, p, w)"
| "balance_retry E (Suc k) bkey serverid p w =
     do { (serverid, p, w) \<leftarrow> get_balance_server E bkey p w;
          if serverid \<ge> 0 then Some (serverid, p, w) else balance_retry E k bkey serverid p w }"

text \<open>
  \<open>pool_fetch_connect\<close>: the return code, the waiting node and the calls made. A negative
  \<open>m_connectRetry\<close> leaves \<open>serverid\<close> unset.
\<close>

definition pool_fetch_connect ::
    "'w slb_env \<Rightarrow> 'r \<Rightarrow> int \<Rightarrow> 'r pool_info \<Rightarrow> 'w \<Rightarrow>
     (int \<times> nat option \<times> 'r pool_info \<times> 'w \<times> 'r pool_out list) option" where
  "pool_fetch_connect E sub_req balanceKey p w =
     (if m_serverCount p \<le> 0 then Some (- 1, None, p, w, [])
      else if m_connectRetry p < 0 then None
      else do {
        (serverid, p, w) \<leftarrow> balance_retry E (nat (m_connectRetry p) + 1) balanceKey (- 1) p w;
        if serverid < 0 then Some (- 1, None, p, w, [])
        else if nat serverid < length (m_serverArr p) then
          do { (node, s, os) \<leftarrow> server_fetch sub_req (m_serverArr p ! nat serverid);
               Some (0, node, p\<lparr>m_serverArr := (m_serverArr p)[nat serverid := s]\<rparr>, w, os) }
        else None
      })"

text \<open>\<open>pool_destroy\<close>: the loop over the servers there were at its start.\<close>

primrec destroy_servers :: "nat list \<Rightarrow> 'r pool_info \<Rightarrow> ('r pool_info \<times> 'r pool_out list) option" where
  "destroy_servers [] p = Some (p, [])"
| "destroy_servers (i # is) p =
     do { (p, os) \<leftarrow> on_server i server_pool_destroy 0 0 p; (p, os') \<leftarrow> destroy_servers is p; Some (p, os @ os') }"

definition pool_destroy :: "'r pool_info \<Rightarrow> ('r pool_info \<times> 'r pool_out list) option" where
  "pool_destroy p = destroy_servers [0..<nat (m_serverCount p)] p"

section \<open>Events of a pool\<close>

datatype 'r pool_call =
    PFetch 'r int                 \<comment> \<open>\<open>pool_fetch_connect\<close>\<close>
  | PCreated nat nat int          \<comment> \<open>\<open>_pool_on_connect_created\<close>\<close>
  | PClosed nat nat               \<comment> \<open>\<open>_pool_on_connect_destroyed\<close>\<close>
  | PRelease nat nat bool int int \<comment> \<open>\<open>pool_release_connect\<close>, with the measured time and the clock\<close>
  | PMonitor nat                  \<comment> \<open>the monitor timer of a server\<close>
  | PTimeout nat "nat option"     \<comment> \<open>\<open>_pool_waiting_queue_rm\<close>\<close>
  | PDestroy                      \<comment> \<open>\<open>pool_destroy\<close>\<close>

definition pool_step ::
    "'w slb_env \<Rightarrow> 'r pool_call \<Rightarrow> 'r pool_info \<times> 'w \<Rightarrow> (('r pool_info \<times> 'w) \<times> 'r pool_out list) option" where
  "pool_step E c x =
     (case x of (p, w) \<Rightarrow>
       let run_on = (\<lambda>i op rt tm. map_option (\<lambda>(p, os). ((p, w), os)) (on_server i op rt tm p)) in
       (case c of
          PFetch r bkey \<Rightarrow> map_option (\<lambda>(ret, node, p, w, os). ((p, w), os)) (pool_fetch_connect E r bkey p w)
        | PCreated i j status \<Rightarrow> run_on i (on_connect_created j status) 0 0
        | PClosed i j \<Rightarrow> run_on i (on_connect_destroyed j) 0 0
        | PRelease i j err rt tm \<Rightarrow> run_on i (release_connect j err) rt tm
        | PMonitor i \<Rightarrow> run_on i server_connect_monitor 0 0
        | PTimeout i node \<Rightarrow> run_on i (waiting_queue_rm node) 0 0
        | PDestroy \<Rightarrow> map_option (\<lambda>(p, os). ((p, w), os)) (pool_destroy p)))"

inductive pool_run :: "'w slb_env \<Rightarrow> 'r pool_info \<times> 'w \<Rightarrow> bool" for E where
  pool_built: "pool_build idx confs per tmo room retry long st = Some p \<Longrightarrow> confs \<noteq> [] \<Longrightarrow> 0 \<le> per \<Longrightarrow> strategy_ok st \<Longrightarrow>
     pool_run E (p, w)"
| pool_stepped: "pool_run E x \<Longrightarrow> pool_step E c x = Some (x', os) \<Longrightarrow> pool_run E x'"

inductive_cases pool_runE: "pool_run E x"

section \<open>Every freed server is counted once\<close>

fun is_freed :: "'r pool_out \<Rightarrow> bool" where
  "is_freed (ServerFreed _) = True"
| "is_freed _ = False"

definition freed_count :: "'r pool_out list \<Rightarrow> nat" where
  "freed_count os = length (filter is_freed os)"

lemma freed_count_simps [simp]:
  "freed_count [] = 0" "freed_count (x # os) = (if is_freed x then Suc (freed_count os) else freed_count os)"
  "freed_count (as @ bs) = freed_count as + freed_count bs" "freed_count (map DestroyConn js) = 0"
  by (simp_all add: freed_count_def filter_empty_conv)

text \<open>An operation keeps the index, and frees the server exactly when it says so, once.\<close>

definition acct :: "'r server_info \<Rightarrow> 'r server_info \<Rightarrow> 'r pool_out list \<Rightarrow> bool" where
  "acct s s' os \<longleftrightarrow> m_serverIdx s' = m_serverIdx s \<and> (srv_freed s \<longrightarrow> srv_freed s') \<and>
     freed_count os = (if srv_freed s' \<and> \<not> srv_freed s then 1 else 0)"

abbreviation keeps :: "'r server_info \<Rightarrow> 'r server_info \<Rightarrow> bool" where
  "keeps s s' \<equiv> m_serverIdx s' = m_serverIdx s \<and> srv_freed s' = srv_freed s"

lemma connect_get_keeps: "connect_queue_get s = (j, s') \<Longrightarrow> keeps s s'"
  by (auto simp: connect_queue_get_def Let_def split: option.splits if_splits)

lemma unconnect_get_keeps: "unconnect_queue_get s = (j, s') \<Longrightarrow> keeps s s'"
  by (auto simp: unconnect_queue_get_def Let_def split: option.splits if_splits)

lemma unconnect_put_keeps: "unconnect_queue_put j s = Some s' \<Longrightarrow> keeps s s'"
  by (auto simp: unconnect_queue_put_def Let_def split: option.splits if_splits)

lemma connect_put_keeps: "connect_queue_put j s = Some s' \<Longrightarrow> keeps s s'"
  by (auto simp: connect_queue_put_def Let_def split: option.splits if_splits)

lemma connect_rm_keeps: "keeps s (connect_queue_rm j s)"
  by (simp add: connect_queue_rm_def Let_def split: option.split)

lemma set_wnext_keeps: "set_wnext v w s = Some s' \<Longrightarrow> keeps s s'"
  by (auto simp: set_wnext_def split: option.splits)

lemma set_wlast_keeps: "set_wlast v w s = Some s' \<Longrightarrow> keeps s s'"
  by (auto simp: set_wlast_def split: option.splits)

lemma waiting_get_keeps: "waiting_queue_get s = Some (r, s') \<Longrightarrow> keeps s s'"
  by (auto simp: waiting_queue_get_def bind_eq_Some_conv split: option.splits if_splits dest: set_wlast_keeps)

lemma waiting_put_keeps: "waiting_queue_put w s = Some s' \<Longrightarrow> keeps s s'"
  by (auto simp: waiting_queue_put_def bind_eq_Some_conv split: if_splits dest!: set_wlast_keeps set_wnext_keeps)

lemma opt_set_keeps:
  "(case x of None \<Rightarrow> Some s | Some l \<Rightarrow> set_wnext v l s) = Some s' \<Longrightarrow> keeps s s'"
  "(case x of None \<Rightarrow> Some s | Some l \<Rightarrow> set_wlast v l s) = Some s' \<Longrightarrow> keeps s s'"
  by (auto split: option.splits dest: set_wnext_keeps set_wlast_keeps)

lemma waiting_unlink_keeps:
  assumes "waiting_unlink w s = Some s'"
  shows "keeps s s'"
proof -
  obtain n s1 s2 where "w_nodes s w = Some n"
      and s1: "(case wq_last n of None \<Rightarrow> Some s | Some l \<Rightarrow> set_wnext (wq_next n) l s) = Some s1"
      and s2: "(case wq_next n of None \<Rightarrow> Some s1 | Some x \<Rightarrow> set_wlast (wq_last n) x s1) = Some s2"
      and s': "s' = (let s = (if m_waitingQueueHead s2 = Some w then s2\<lparr>m_waitingQueueHead := wq_next n\<rparr> else s2);
                         s = (if m_waitingQueueTail s = Some w then s\<lparr>m_waitingQueueTail := wq_last n\<rparr> else s)
                     in s\<lparr>w_nodes := (w_nodes s)(w := None), m_waitingCount := m_waitingCount s - 1\<rparr>)"
    using assms by (auto simp: waiting_unlink_def bind_eq_Some_conv Let_def)
  have "keeps s2 s'" by (simp add: s' Let_def)
  then show ?thesis using opt_set_keeps(1) [OF s1] opt_set_keeps(2) [OF s2] by simp
qed

lemma destroy_loop_keeps: "destroy_loop j s = Some p \<Longrightarrow> keeps s (fst p)"
proof (induction rule: destroy_loop.raw_induct [rotated, consumes 1, case_names step])
  case (step f j s p)
  obtain i s1 where g: "connect_queue_get s = (i, s1)" by fastforce
  note k = connect_get_keeps [OF g]
  show ?case
  proof (cases i)
    case None
    then show ?thesis using step(2) g k by auto
  next
    case (Some k')
    then obtain q where q: "f k' s1 = Some q" "fst p = fst q"
      using step(2) g by (auto simp: bind_eq_Some_conv)
    then show ?thesis using step(1) [OF q(1)] k by simp
  qed
qed

lemma server_destroy_acct:
  assumes "server_destroy s = Some (s', os)" "\<not> srv_freed s"
  shows "acct s s' os"
proof -
  obtain j s1 where g: "connect_queue_get s = (j, s1)" by fastforce
  note k = connect_get_keeps [OF g]
  show ?thesis
  proof (cases j)
    case None
    then show ?thesis using assms g k by (auto simp: server_destroy_def server_destroyed_def acct_def)
  next
    case (Some i)
    then have l: "destroy_loop i s1 = Some (s', os)" using assms(1) g by (simp add: server_destroy_def)
    obtain js where "os = map DestroyConn js" using destroy_loop_outs [OF l] by auto
    then show ?thesis using destroy_loop_keeps [OF l] k assms(2) by (simp add: acct_def)
  qed
qed

lemma create_acct: "create_new_connect s = (s', os) \<Longrightarrow> acct s s' os"
  by (auto simp: create_new_connect_def acct_def split: prod.splits option.splits dest: unconnect_get_keeps)

lemma acct_keeps: "acct s1 s2 os \<Longrightarrow> keeps s s1 \<Longrightarrow> acct s s2 os"
  by (simp add: acct_def)

lemma put_back_acct:
  assumes "put_back_connect j s = Some (s', os)" "\<not> srv_freed s"
  shows "acct s s' os"
proof -
  obtain r s1 os1 where g: "waiting_queue_get s = Some (r, s1)" and os: "os = AfterConn (m_serverIdx s') 0 # os1"
    and t: "(case r of Some x \<Rightarrow> Some (s1\<lparr>in_use := (in_use s1)(j := True)\<rparr>, [Acquired j x])
       | None \<Rightarrow> do { s \<leftarrow> connect_queue_put j s1; if drained s then server_destroy s else Some (s, []) }) = Some (s', os1)"
    using assms(1) by (auto simp: put_back_connect_def bind_eq_Some_conv)
  note k = waiting_get_keeps [OF g]
  have "acct s1 s' os1"
  proof (cases r)
    case (Some x)
    then show ?thesis using t by (auto simp: acct_def)
  next
    case None
    then obtain s2 where s2: "connect_queue_put j s1 = Some s2"
        "(if drained s2 then server_destroy s2 else Some (s2, [])) = Some (s', os1)"
      using t by (auto simp: bind_eq_Some_conv)
    note k2 = connect_put_keeps [OF s2(1)]
    show ?thesis
    proof (cases "drained s2")
      case True
      then have "acct s2 s' os1" using s2(2) k k2 assms(2) by (intro server_destroy_acct) auto
      then show ?thesis using k2 acct_keeps by blast
    next
      case False
      then show ?thesis using s2(2) k2 by (simp add: acct_def)
    qed
  qed
  then show ?thesis using k by (simp add: acct_def os)
qed

lemma handlers_acct:
  assumes "\<not> srv_freed s"
  shows "on_connect_created j status s = Some (s', os) \<Longrightarrow> acct s s' os"
    and "on_connect_destroyed j s = Some (s', os) \<Longrightarrow> acct s s' os"
    and "release_connect j err s = Some (s', os) \<Longrightarrow> acct s s' os"
    and "server_connect_monitor s = Some (s', os) \<Longrightarrow> acct s s' os"
    and "waiting_queue_rm node s = Some (s', os) \<Longrightarrow> acct s s' os"
    and "server_pool_destroy s = Some (s', os) \<Longrightarrow> acct s s' os"
proof -
  assume c: "on_connect_created j status s = Some (s', os)"
  let ?s = "s\<lparr>in_use := (in_use s)(j := False), to_be_destroyed := (to_be_destroyed s)(j := False)\<rparr>"
  show "acct s s' os"
  proof (cases "status = 0")
    case True
    then have "put_back_connect j (?s\<lparr>m_connectCount := m_connectCount ?s + 1\<rparr>) = Some (s', os)"
      using c assms by (simp add: on_connect_created_def Let_def)
    from put_back_acct [OF this] show ?thesis using assms by (simp add: acct_def)
  next
    case False
    then obtain s1 where s1: "unconnect_queue_put j ?s = Some s1"
      "(if drained (s1\<lparr>has_handle := (has_handle s1)(j := False)\<rparr>)
        then server_destroy (s1\<lparr>has_handle := (has_handle s1)(j := False)\<rparr>)
        else Some (s1\<lparr>has_handle := (has_handle s1)(j := False)\<rparr>, [])) = Some (s', os)"
      using c assms by (auto simp: on_connect_created_def Let_def bind_eq_Some_conv)
    note k = unconnect_put_keeps [OF s1(1)]
    show ?thesis
    proof (cases "drained (s1\<lparr>has_handle := (has_handle s1)(j := False)\<rparr>)")
      case True
      then have "server_destroy (s1\<lparr>has_handle := (has_handle s1)(j := False)\<rparr>) = Some (s', os)" using s1(2) by simp
      from server_destroy_acct [OF this] show ?thesis using k assms by (simp add: acct_def)
    next
      case False
      then show ?thesis using s1(2) k by (auto simp: acct_def)
    qed
  qed
next
  assume c: "on_connect_destroyed j s = Some (s', os)"
  have k: "keeps s (if in_use s j then s else connect_queue_rm j s)" by (simp add: connect_rm_keeps)
  show "acct s s' os"
  proof (cases "in_use s j \<and> \<not> to_be_destroyed s j")
    case True
    then show ?thesis using c assms by (auto simp: on_connect_destroyed_def acct_def)
  next
    case False
    then obtain s1 where s1: "unconnect_queue_put j ((if in_use s j then s else connect_queue_rm j s)\<lparr>has_handle :=
          (has_handle (if in_use s j then s else connect_queue_rm j s))(j := False)\<rparr>) = Some s1"
      "(let s = s1\<lparr>m_connectCount := m_connectCount s1 - 1\<rparr>;
            (s, os) = (if m_destroyFlag s \<and> m_connectCount s = 0 then server_destroyed s else (s, []))
        in (s, AfterConn (m_serverIdx s) (-1) # os)) = (s', os)"
      using c assms by (auto simp: on_connect_destroyed_def server_destroyed_def Let_def bind_eq_Some_conv split: if_splits)
    note k1 = unconnect_put_keeps [OF s1(1)]
    show ?thesis using s1(2) k k1 assms
      by (auto simp: acct_def server_destroyed_def Let_def split: if_splits)
  qed
next
  assume c: "release_connect j err s = Some (s', os)"
  let ?s = "s\<lparr>in_use := (in_use s)(j := False)\<rparr>"
  show "acct s s' os"
  proof (cases "\<not> err \<and> \<not> to_be_destroyed ?s j")
    case True
    then obtain os1 where os: "put_back_connect j ?s = Some (s', os1)" "os = Talk (m_serverIdx s') # os1"
      using c assms by (auto simp: release_connect_def Let_def)
    from put_back_acct [OF os(1)] show ?thesis using assms os(2) by (simp add: acct_def)
  next
    case False
    then show ?thesis using c assms by (auto simp: release_connect_def acct_def Let_def)
  qed
next
  assume "server_connect_monitor s = Some (s', os)"
  then show "acct s s' os" using create_acct [of s s' os] assms
    by (auto simp: server_connect_monitor_def acct_def split: if_splits)
next
  assume c: "waiting_queue_rm node s = Some (s', os)"
  show "acct s s' os"
  proof (cases node)
    case None
    then show ?thesis using c by (simp add: waiting_queue_rm_def acct_def)
  next
    case (Some w)
    then obtain s1 where s1: "waiting_unlink w s = Some s1"
      "(if m_waitingCount s1 = 0 \<and> drained s1 then server_destroy s1 else Some (s1, [])) = Some (s', os)"
      using c assms by (auto simp: waiting_queue_rm_def bind_eq_Some_conv split: if_splits)
    note k = waiting_unlink_keeps [OF s1(1)]
    show ?thesis
    proof (cases "m_waitingCount s1 = 0 \<and> drained s1")
      case True
      then have "server_destroy s1 = Some (s', os)" using s1(2) by simp
      from server_destroy_acct [OF this] show ?thesis using k assms by (simp add: acct_def)
    next
      case False
      then show ?thesis using s1(2) k by (auto simp: acct_def)
    qed
  qed
next
  assume c: "server_pool_destroy s = Some (s', os)"
  let ?s = "s\<lparr>monitor_on := False, m_destroyFlag := True\<rparr>"
  have "server_destroy ?s = Some (s', os) \<or> (s', os) = (?s, [])"
    using c assms by (auto simp: server_pool_destroy_def Let_def split: if_splits)
  then show "acct s s' os" using server_destroy_acct [of ?s s' os] assms by (auto simp: acct_def)
qed

lemma fetch_acct:
  assumes "server_fetch r s = Some (w, s', os)"
  shows "keeps s s' \<and> freed_count os = 0"
proof -
  have nf: "\<not> srv_freed s" using assms by (simp add: server_fetch_def split: if_splits)
  show ?thesis
  proof (cases "m_connectQueueHead s = None")
    case False
    then show ?thesis using assms nf
      by (auto simp: server_fetch_def fetch_from_connectqueue_def split: prod.splits option.splits
          dest: connect_get_keeps)
  next
    case True
    obtain s1 os1 where c: "(if m_connectCount s < m_connectPerServer s then create_new_connect s else (s, [])) = (s1, os1)"
      by fastforce
    have k1: "keeps s s1 \<and> freed_count os1 = 0"
    proof (cases "m_connectCount s < m_connectPerServer s")
      case True
      then have "create_new_connect s = (s1, os1)" using c by simp
      then show ?thesis
        by (auto simp: create_new_connect_def split: prod.splits option.splits dest: unconnect_get_keeps)
    next
      case False
      then show ?thesis using c by auto
    qed
    obtain s0 where "waiting_queue_put (w_fresh s1) s0 = Some s'" "keeps s1 s0" "os = os1"
      using assms nf True c by (auto simp: server_fetch_def add_req_into_waitingqueue_def Let_def)
    then show ?thesis using k1 waiting_put_keeps by metis
  qed
qed

section \<open>The life of a pool\<close>

text \<open>The strategy lives as long as a server does, and the end is reported when the last one goes.\<close>

definition life_ok :: "'r pool_info \<Rightarrow> bool" where
  "life_ok p \<longleftrightarrow> (m_strategy p = None \<longleftrightarrow> m_serverCount p = 0) \<and>
     destroy_reports p = (if m_serverCount p = 0 then 1 else 0) \<and>
     (\<forall>st. m_strategy p = Some st \<longrightarrow> strategy_ok st)"

definition alive :: "'r pool_info \<Rightarrow> nat" where
  "alive p = length (filter (\<lambda>s. \<not> srv_freed s) (m_serverArr p))"

definition pool_ok :: "'r pool_info \<Rightarrow> bool" where
  "pool_ok p \<longleftrightarrow> life_ok p \<and> m_serverCount p = int (alive p) \<and>
     map m_serverIdx (m_serverArr p) = [0..<length (m_serverArr p)]"

text \<open>What never changes once a pool is built.\<close>

definition same_pool :: "'r pool_info \<Rightarrow> 'r pool_info \<Rightarrow> bool" where
  "same_pool p p' \<longleftrightarrow> length (m_serverArr p') = length (m_serverArr p) \<and> pool_perServer p' = pool_perServer p"

lemma strategy_feedback_ok:
  "strategy_ok st \<Longrightarrow> setServerArgAfterConn (Some (strategy_copy_serv p)) (Some i) err st = Some (ret, st') \<Longrightarrow> strategy_ok st'"
  "strategy_ok st \<Longrightarrow> setServerArg (Some (strategy_copy_serv p)) (Some i) (Some rt) tm st = Some (ret, st') \<Longrightarrow> strategy_ok st'"
  using updateConnectStatus_ok [of "st_connect st" "strategy_copy_serv p i" err]
    updateRequestStatus_ok [of "st_healthy st" "strategy_copy_serv p i" rt tm]
  by (auto simp: setServerArgAfterConn_def setServerArg_def strategy_ok_def strategy_copy_serv_def)

lemma pool_notes_life:
  "pool_notes i rt tm os p = Some p' \<Longrightarrow> life_ok p \<Longrightarrow> int (freed_count os) \<le> m_serverCount p \<Longrightarrow>
   life_ok p' \<and> m_serverCount p' = m_serverCount p - int (freed_count os) \<and> m_serverArr p' = m_serverArr p \<and>
   same_pool p p'"
proof (induction os arbitrary: p)
  case Nil
  then show ?case by (simp add: same_pool_def)
next
  case (Cons out os)
  show ?case
  proof (cases out)
    case (AfterConn k err)
    then obtain st ret st' where st: "m_strategy p = Some st"
        "setServerArgAfterConn (Some (strategy_copy_serv p)) (Some i) err st = Some (ret, st')"
        "pool_notes i rt tm os (p\<lparr>m_strategy := Some st'\<rparr>) = Some p'"
      using Cons.prems(1) by (auto simp: bind_eq_Some_conv)
    have "strategy_ok st'" using strategy_feedback_ok(1) st(1,2) Cons.prems(2) by (auto simp: life_ok_def)
    then have "life_ok (p\<lparr>m_strategy := Some st'\<rparr>)" using Cons.prems(2) st(1) by (simp add: life_ok_def)
    from Cons.IH [OF st(3) this] show ?thesis using AfterConn Cons.prems(3) by (simp add: same_pool_def)
  next
    case (Talk k)
    then obtain st ret st' where st: "m_strategy p = Some st"
        "setServerArg (Some (strategy_copy_serv p)) (Some i) (Some rt) tm st = Some (ret, st')"
        "pool_notes i rt tm os (p\<lparr>m_strategy := Some st'\<rparr>) = Some p'"
      using Cons.prems(1) by (auto simp: bind_eq_Some_conv)
    have "strategy_ok st'" using strategy_feedback_ok(2) st(1,2) Cons.prems(2) by (auto simp: life_ok_def)
    then have "life_ok (p\<lparr>m_strategy := Some st'\<rparr>)" using Cons.prems(2) st(1) by (simp add: life_ok_def)
    from Cons.IH [OF st(3) this] show ?thesis using Talk Cons.prems(3) by (simp add: same_pool_def)
  next
    case (ServerFreed k)
    let ?c = "m_serverCount p - 1"
    let ?p = "if ?c = 0 then p\<lparr>m_serverCount := ?c, m_strategy := None, destroy_reports := Suc (destroy_reports p)\<rparr>
              else p\<lparr>m_serverCount := ?c\<rparr>"
    have run: "pool_notes i rt tm os ?p = Some p'" using Cons.prems(1) ServerFreed by (simp add: Let_def split: if_splits)
    have pos: "0 < m_serverCount p" using Cons.prems(3) ServerFreed by simp
    then have "life_ok ?p" using Cons.prems(2) by (simp add: life_ok_def)
    from Cons.IH [OF run this] show ?thesis using ServerFreed Cons.prems(3) by (simp add: same_pool_def split: if_splits)
  qed (use Cons in simp_all)
qed

lemma filter_length_update:
  "i < length xs \<Longrightarrow> length (filter P (xs[i := y])) + (if P (xs ! i) then 1 else 0) =
                     length (filter P xs) + (if P y then 1 else 0)"
  by (subst (2) id_take_nth_drop [of i xs]) (simp_all add: upd_conv_take_nth_drop)

lemma on_server_ok:
  assumes run: "on_server i op rt tm p = Some (p', os)" and ok: "pool_ok p"
    and acct: "\<And>s s' os. op s = Some (s', os) \<Longrightarrow> \<not> srv_freed s \<Longrightarrow> acct s s' os"
    and stuck: "\<And>s. srv_freed s \<Longrightarrow> op s = None \<or> op s = Some (s, [])"
  shows "pool_ok p' \<and> same_pool p p'"
proof -
  obtain s where i: "i < length (m_serverArr p)" and s: "op (m_serverArr p ! i) = Some (s, os)"
      and n: "pool_notes i rt tm os (p\<lparr>m_serverArr := (m_serverArr p)[i := s]\<rparr>) = Some p'"
    using run by (auto simp: on_server_def bind_eq_Some_conv split: if_splits)
  let ?o = "m_serverArr p ! i" let ?p = "p\<lparr>m_serverArr := (m_serverArr p)[i := s]\<rparr>"
  have a: "acct ?o s os"
  proof (cases "srv_freed ?o")
    case True
    then show ?thesis using stuck [OF True] s by (auto simp: acct_def)
  next
    case False
    then show ?thesis using acct [OF s] by blast
  qed
  have life: "life_ok ?p" using ok by (simp add: pool_ok_def life_ok_def)
  have cnt: "m_serverCount p = int (alive p)" using ok by (simp add: pool_ok_def)
  have al: "alive ?p + freed_count os = alive p"
    using filter_length_update [OF i, of "\<lambda>s. \<not> srv_freed s" s] a
    by (auto simp: alive_def acct_def split: if_splits)
  then have le: "int (freed_count os) \<le> m_serverCount ?p" using cnt by simp
  from pool_notes_life [OF n life le] have
    r: "life_ok p'" "m_serverCount p' = m_serverCount p - int (freed_count os)" "m_serverArr p' = (m_serverArr p)[i := s]"
      "same_pool ?p p'" by simp_all
  have idx: "map m_serverIdx ((m_serverArr p)[i := s]) = map m_serverIdx (m_serverArr p)"
    using a i by (simp add: map_update acct_def list_update_same_conv)
  have "alive p' = alive ?p" using r(3) by (simp add: alive_def)
  then show ?thesis using r ok idx al cnt by (simp add: pool_ok_def same_pool_def)
qed

lemma same_pool_trans: "same_pool a b \<Longrightarrow> same_pool b c \<Longrightarrow> same_pool a c"
  by (simp add: same_pool_def)

lemma server_pool_destroy_stuck: "srv_freed s \<Longrightarrow> server_pool_destroy s = None \<or> server_pool_destroy s = Some (s, [])"
  by (simp add: freed_stuck)

lemma destroy_servers_ok:
  "destroy_servers is p = Some (p', os) \<Longrightarrow> pool_ok p \<Longrightarrow> pool_ok p' \<and> same_pool p p'"
proof (induction "is" arbitrary: p os)
  case (Cons i "is")
  then obtain p1 os1 os2 where 1: "on_server i server_pool_destroy 0 0 p = Some (p1, os1)"
      "destroy_servers is p1 = Some (p', os2)"
    by (auto simp: bind_eq_Some_conv)
  have "pool_ok p1 \<and> same_pool p p1"
    by (rule on_server_ok [OF 1(1) Cons.prems(2) handlers_acct(6) server_pool_destroy_stuck])
  then show ?case using Cons.IH [OF 1(2)] same_pool_trans by blast
qed (simp add: same_pool_def)

lemma balance_ok:
  assumes srt: "is_rank_sort (e_sort E)" "is_backup_sort (e_backup_sort E)" and ok: "pool_ok p"
    and run: "get_balance_server E bkey p w = Some (ret, p', w')"
  shows "pool_ok p' \<and> same_pool p p' \<and> m_serverArr p' = m_serverArr p"
proof -
  have "p' = p \<or> (\<exists>st st'. m_strategy p = Some st \<and> p' = p\<lparr>m_strategy := Some st'\<rparr> \<and> strategy_ok st')"
  proof (cases "candidates p = []")
    case True
    then show ?thesis using run by (auto simp: get_balance_server_def Let_def split: if_splits prod.splits)
  next
    case False
    let ?q = "\<lparr>sq_key = bkey, sq_nthRetry = 0, sq_svr = candidates p,
           sq_room = take (MACHINE_ROOM_SIZE - 1) (m_machineRoom p)\<rparr>"
    obtain st ret' st' w'' where st: "m_strategy p = Some st"
        "fetchServer E (Some (strategy_copy_serv p)) ?q st w = Some (ret', st', w'')" "p' = p\<lparr>m_strategy := Some st'\<rparr>"
      using run False by (auto simp: get_balance_server_def Let_def bind_eq_Some_conv split: if_splits)
    have "strategy_ok st" using ok st(1) by (simp add: pool_ok_def life_ok_def)
    then have "strategy_ok st'" using chain_fetch_ok [OF srt, of st "strategy_copy_serv p" ?q w] st(2) by auto
    then show ?thesis using st by blast
  qed
  then show ?thesis using ok by (auto simp: pool_ok_def life_ok_def alive_def same_pool_def)
qed

lemma balance_retry_ok:
  assumes srt: "is_rank_sort (e_sort E)" "is_backup_sort (e_backup_sort E)"
  shows "pool_ok p \<Longrightarrow> balance_retry E k bkey sid p w = Some (ret, p', w') \<Longrightarrow>
    pool_ok p' \<and> same_pool p p' \<and> m_serverArr p' = m_serverArr p"
proof (induction k arbitrary: sid p w)
  case (Suc k)
  obtain r1 p1 w1 where 1: "get_balance_server E bkey p w = Some (r1, p1, w1)"
      "(if r1 \<ge> 0 then Some (r1, p1, w1) else balance_retry E k bkey r1 p1 w1) = Some (ret, p', w')"
    using Suc.prems(2) by (auto simp: bind_eq_Some_conv)
  note b = balance_ok [OF srt Suc.prems(1) 1(1)]
  show ?case
  proof (cases "r1 \<ge> 0")
    case True
    then show ?thesis using 1(2) b by simp
  next
    case False
    then have "balance_retry E k bkey r1 p1 w1 = Some (ret, p', w')" using 1(2) by simp
    from Suc.IH [OF _ this] show ?thesis using b same_pool_trans by metis
  qed
qed (simp add: same_pool_def)

lemma put_slots_keeps: "put_slots js s = Some s' \<Longrightarrow> keeps s s'"
proof (induction js arbitrary: s)
  case (Cons j js)
  then obtain s1 where "unconnect_queue_put j s = Some s1" "put_slots js s1 = Some s'"
    by (auto simp: bind_eq_Some_conv)
  then show ?case using Cons.IH unconnect_put_keeps by metis
qed simp

lemma server_build_idx: "server_build i per low = Some s \<Longrightarrow> m_serverIdx s = i"
  using put_slots_keeps by (fastforce simp: server_build_def zero_server_def)

lemma build_servers_ok:
  "0 \<le> per \<Longrightarrow> \<exists>ss. build_servers is per low = Some ss \<and> map m_serverIdx ss = is \<and>
     list_all (\<lambda>s. \<not> srv_freed s \<and> pool_reach s ({}, {}, {}) \<and> m_connectCount s = 0) (ss :: 'r server_info list)"
proof (induction "is")
  case (Cons i "is")
  obtain ss where ss: "build_servers is per low = Some ss" "map m_serverIdx ss = is"
      "list_all (\<lambda>s. \<not> srv_freed s \<and> pool_reach s ({}, {}, {}) \<and> m_connectCount s = 0) (ss :: 'r server_info list)"
    using Cons by blast
  obtain s :: "'r server_info" where s: "server_build i per low = Some s" "inv s {} {} {} [0..<nat per] [] [] 0"
    using server_build_ok [OF Cons.prems, of i low] by blast
  have idx: "m_serverIdx s = i" by (rule server_build_idx [OF s(1)])
  have "pool_reach s ({}, {}, {})" by (rule reach_build [OF Cons.prems s(1)])
  moreover have "m_connectCount s = 0" using s(2) by (simp add: inv_def slots_def)
  ultimately show ?case using ss s idx inv_not_freed [OF s(2)] by simp
qed simp

lemma pool_build_ok:
  assumes "pool_build idx confs per tmo room retry long st = Some (p :: 'r pool_info)" "confs \<noteq> []" "strategy_ok st" "0 \<le> per"
  shows "pool_ok p \<and> m_serverCount p = int (length confs) \<and> alive p = length confs"
proof -
  obtain ss :: "'r server_info list" where ss: "build_servers [0..<length confs] per
      (if per div LOW_CONNECT_THRESHOLD > 0 then per div LOW_CONNECT_THRESHOLD else 1) = Some ss"
      "map m_serverIdx ss = [0..<length confs]" "list_all (\<lambda>s. \<not> srv_freed s \<and> pool_reach s ({}, {}, {}) \<and> m_connectCount s = 0) ss"
      "m_serverArr p = ss" "m_serverCount p = int (length confs)" "m_strategy p = Some st" "destroy_reports p = 0"
    using build_servers_ok [where 'r = 'r, OF assms(4), of "[0..<length confs]"
        "if per div LOW_CONNECT_THRESHOLD > 0 then per div LOW_CONNECT_THRESHOLD else 1"] assms(1)
    by (auto simp: pool_build_def Let_def)
  have len: "length ss = length confs" using arg_cong [OF ss(2), of length] by simp
  have "filter (\<lambda>s. \<not> srv_freed s) ss = ss" using ss(3) by (auto simp: list_all_iff filter_id_conv)
  then have "alive p = length confs" using ss(4) len by (simp add: alive_def)
  then show ?thesis using ss len assms(2,3) by (simp add: pool_ok_def life_ok_def)
qed

lemma handlers_stuck:
  assumes "srv_freed s"
  shows "on_connect_created j st s = None \<or> on_connect_created j st s = Some (s, [])"
    "on_connect_destroyed j s = None \<or> on_connect_destroyed j s = Some (s, [])"
    "release_connect j err s = None \<or> release_connect j err s = Some (s, [])"
    "server_connect_monitor s = None \<or> server_connect_monitor s = Some (s, [])"
    "waiting_queue_rm node s = None \<or> waiting_queue_rm node s = Some (s, [])"
  using freed_stuck [OF assms] by (simp_all add: waiting_queue_rm_def assms split: option.split)

lemma pool_fetch_ok:
  assumes srt: "is_rank_sort (e_sort E)" "is_backup_sort (e_backup_sort E)" and ok: "pool_ok p"
    and run: "pool_fetch_connect E r bkey p w = Some (ret, node, p', w', os)"
  shows "pool_ok p'"
proof -
  define k where "k = nat (m_connectRetry p) + 1"
  consider "p' = p"
    | sid p1 w1 where "balance_retry E k bkey (- 1) p w = Some (sid, p1, w1)" "p' = p1"
    | sid p1 w1 nd s os1 where "balance_retry E k bkey (- 1) p w = Some (sid, p1, w1)" "nat sid < length (m_serverArr p1)"
        "server_fetch r (m_serverArr p1 ! nat sid) = Some (nd, s, os1)"
        "p' = p1\<lparr>m_serverArr := (m_serverArr p1)[nat sid := s]\<rparr>"
    using run unfolding pool_fetch_connect_def k_def [symmetric]
    by (auto simp: bind_eq_Some_conv split: if_splits)
  then show ?thesis
  proof cases
    case 1
    then show ?thesis using ok by simp
  next
    case 2
    then show ?thesis using balance_retry_ok [OF srt ok] by blast
  next
    case (3 sid p1 w1 nd s os1)
    have ok1: "pool_ok p1" using balance_retry_ok [OF srt ok 3(1)] by blast
    have k: "keeps (m_serverArr p1 ! nat sid) s" using fetch_acct [OF 3(3)] by blast
    have "alive p' = alive p1"
      using filter_length_update [OF 3(2), of "\<lambda>s. \<not> srv_freed s" s] k by (auto simp: alive_def 3(4) split: if_splits)
    moreover have "map m_serverIdx (m_serverArr p') = map m_serverIdx (m_serverArr p1)"
      using k 3(2) by (simp add: 3(4) map_update list_update_same_conv)
    ultimately show ?thesis using ok1 by (simp add: pool_ok_def 3(4) life_ok_def)
  qed
qed

lemma pool_step_ok:
  assumes srt: "is_rank_sort (e_sort E)" "is_backup_sort (e_backup_sort E)" and ok: "pool_ok p"
    and run: "pool_step E c (p, w) = Some ((p', w'), os)"
  shows "pool_ok p'"
proof (cases c)
  case (PFetch r bkey)
  then obtain ret node where "pool_fetch_connect E r bkey p w = Some (ret, node, p', w', os)"
    using run by (auto simp: pool_step_def Let_def)
  then show ?thesis by (rule pool_fetch_ok [OF srt ok])
next
  case (PCreated i j status)
  then have r: "on_server i (on_connect_created j status) 0 0 p = Some (p', os)" using run by (auto simp: pool_step_def)
  have "pool_ok p' \<and> same_pool p p'"
    by (rule on_server_ok [OF r ok]) (blast intro: handlers_acct(1), rule handlers_stuck(1))
  then show ?thesis by simp
next
  case (PClosed i j)
  then have r: "on_server i (on_connect_destroyed j) 0 0 p = Some (p', os)" using run by (auto simp: pool_step_def)
  have "pool_ok p' \<and> same_pool p p'"
    by (rule on_server_ok [OF r ok]) (blast intro: handlers_acct(2), rule handlers_stuck(2))
  then show ?thesis by simp
next
  case (PRelease i j err rt tm)
  then have r: "on_server i (release_connect j err) rt tm p = Some (p', os)" using run by (auto simp: pool_step_def)
  have "pool_ok p' \<and> same_pool p p'"
    by (rule on_server_ok [OF r ok]) (blast intro: handlers_acct(3), rule handlers_stuck(3))
  then show ?thesis by simp
next
  case (PMonitor i)
  then have r: "on_server i server_connect_monitor 0 0 p = Some (p', os)" using run by (auto simp: pool_step_def)
  have "pool_ok p' \<and> same_pool p p'"
    by (rule on_server_ok [OF r ok]) (blast intro: handlers_acct(4), rule handlers_stuck(4))
  then show ?thesis by simp
next
  case (PTimeout i node)
  then have r: "on_server i (waiting_queue_rm node) 0 0 p = Some (p', os)" using run by (auto simp: pool_step_def)
  have "pool_ok p' \<and> same_pool p p'"
    by (rule on_server_ok [OF r ok]) (blast intro: handlers_acct(5), rule handlers_stuck(5))
  then show ?thesis by simp
next
  case PDestroy
  then have "destroy_servers [0..<nat (m_serverCount p)] p = Some (p', os)"
    using run by (auto simp: pool_step_def pool_destroy_def)
  then show ?thesis using destroy_servers_ok ok by blast
qed

lemma pool_run_ok:
  assumes srt: "is_rank_sort (e_sort E)" "is_backup_sort (e_backup_sort E)"
  shows "pool_run E x \<Longrightarrow> pool_ok (fst x)"
proof (induction rule: pool_run.induct)
  case (pool_built idx confs per tmo room retry long st p w)
  then show ?case using pool_build_ok by (metis fst_conv)
next
  case (pool_stepped x c x' os)
  then show ?case using pool_step_ok [OF srt, of "fst x" c "snd x" "fst x'" "snd x'" os] by simp
qed

section \<open>Properties\<close>

lemma candidatesD:
  assumes "i \<in> set (candidates p)" "m_serverCount p \<le> int (length (m_serverArr p))"
  shows "i < length (m_serverArr p)" "int i < m_serverCount p"
    "m_connectCount (m_serverArr p ! i) \<noteq> 0" "m_connectCount (m_serverArr p ! i) \<noteq> pool_perServer p"
  using assms by (auto simp: candidates_def Let_def simp del: upt_Suc)

lemma scan_connected_range: "0 < m_serverCount p \<Longrightarrow> int k < m_serverCount p \<Longrightarrow> int (scan_connected p n k) < m_serverCount p"
proof (induction n arbitrary: k)
  case (Suc n)
  have "(k + 1) mod nat (m_serverCount p) < nat (m_serverCount p)" using Suc.prems(1) by simp
  then have "int ((k + 1) mod nat (m_serverCount p)) < m_serverCount p" using Suc.prems(1) by linarith
  then show ?case using Suc.IH [OF Suc.prems(1)] Suc.prems(2) by auto
qed simp

lemma random_server_range: "0 < n \<Longrightarrow> 0 \<le> get_random_server n k \<and> get_random_server n k < n"
  by (simp add: get_random_server_def)

lemma balance_total:
  assumes srt: "is_rank_sort (e_sort E)" "is_backup_sort (e_backup_sort E)" and ok: "pool_ok p"
    and pos: "0 < m_serverCount p" and few: "length (candidates p) \<le> 64"
  shows "\<exists>sel p' w'. get_balance_server E bkey p w = Some (sel, p', w') \<and> 0 \<le> sel \<and> sel < m_serverCount p \<and>
           (candidates p \<noteq> [] \<and> (\<exists>st. m_strategy p = Some st \<and> st_balance st \<noteq> None) \<longrightarrow>
            nat sel \<in> set (candidates p))"
proof (cases "candidates p = []")
  case True
  obtain v w1 where v: "w_rand E w = (v, w1)" by fastforce
  have "v mod nat (m_serverCount p) < nat (m_serverCount p)" using pos by simp
  then have "int (v mod nat (m_serverCount p)) < m_serverCount p" using pos by linarith
  from scan_connected_range [OF pos this] show ?thesis
    using True pos v by (simp add: get_balance_server_def Let_def)
next
  case False
  let ?c = "candidates p"
  let ?q = "\<lparr>sq_key = bkey, sq_nthRetry = 0, sq_svr = ?c, sq_room = take (MACHINE_ROOM_SIZE - 1) (m_machineRoom p)\<rparr>"
  have idx: "map m_serverIdx (m_serverArr p) = [0..<length (m_serverArr p)]" using ok by (simp add: pool_ok_def)
  have cnt: "m_serverCount p \<le> int (length (m_serverArr p))"
    using ok length_filter_le [of "\<lambda>s. \<not> srv_freed s" "m_serverArr p"] by (simp add: pool_ok_def alive_def)
  obtain st where st: "m_strategy p = Some st" "strategy_ok st"
    using ok pos by (fastforce simp: pool_ok_def life_ok_def)
  obtain ret st' w' where f: "fetchServer E (Some (strategy_copy_serv p)) ?q st w = Some (ret, st', w')"
      "ret = - 1 \<or> (\<exists>i. ret = int i \<and> good_choice st (strategy_copy_serv p) ?q i)"
      "st_balance st \<noteq> None \<and> length ?c \<le> MAX_SERVER_SIZE \<and>
        (\<exists>i<length ?c. usable (strategy_copy_serv p (?c ! i)) \<and>
           \<not> other_room (take 31 (take (MACHINE_ROOM_SIZE - 1) (m_machineRoom p))) (strategy_copy_serv p (?c ! i))) \<longrightarrow> 0 \<le> ret"
    using chain_fetch_ok [OF srt st(2), of "strategy_copy_serv p" ?q w] by auto
  have us: "usable (strategy_copy_serv p i)" "\<not> other_room room (strategy_copy_serv p i)" for i room
    by (simp_all add: usable_def other_room_def strategy_copy_serv_def)
  have ret: "ret = - 1 \<or> (\<exists>i<length ?c. ret = int i)" using f(2) by (auto simp: good_choice_def)
  have found: "0 \<le> ret" if "st_balance st \<noteq> None"
    using f(3) that few us False by (auto simp: MAX_SERVER_SIZE_def)
  have sid: "m_serverIdx (m_serverArr p ! (?c ! i)) = ?c ! i" "int (?c ! i) < m_serverCount p" if "i < length ?c" for i
  proof -
    have m: "?c ! i \<in> set ?c" using that by simp
    note d = candidatesD [OF m cnt]
    show "int (?c ! i) < m_serverCount p" by (rule d(2))
    have "map m_serverIdx (m_serverArr p) ! (?c ! i) = [0..<length (m_serverArr p)] ! (?c ! i)" by (simp only: idx)
    then show "m_serverIdx (m_serverArr p ! (?c ! i)) = ?c ! i" using d(1) by simp
  qed
  show ?thesis
  proof (cases "ret = - 1")
    case True
    then have "get_balance_server E bkey p w =
        Some (get_random_server (m_serverCount p) bkey, p\<lparr>m_strategy := Some st'\<rparr>, w')"
      using False few f(1) st(1) by (simp add: get_balance_server_def Let_def MAX_SERVER_SIZE_def)
    then show ?thesis using random_server_range [OF pos] found True st(1) by auto
  next
    case r: False
    then obtain i where i: "i < length ?c" "ret = int i" using ret by blast
    have "get_balance_server E bkey p w = Some (int (?c ! i), p\<lparr>m_strategy := Some st'\<rparr>, w')"
      using False few f(1) st(1) i sid [OF i(1)] by (simp add: get_balance_server_def Let_def MAX_SERVER_SIZE_def)
    then show ?thesis using sid [OF i(1)] i(1) by simp
  qed
qed

definition example_confs :: "(string \<times> int) list" where
  "example_confs = [(''10.0.0.1'', 6379), (''10.0.0.2'', 6379)]"

lemma example_pool:
  "\<exists>p :: nat pool_info. pool_build 0 example_confs 20 100 ''jx'' 1 True example_strategy = Some p \<and>
     pool_run example_env (p, 0) \<and> m_serverCount p = 2 \<and> m_connectRetry p = 1 \<and> candidates p = [] \<and>
     list_all (\<lambda>s. \<not> srv_freed s \<and> pool_reach s ({}, {}, {})) (m_serverArr p)"
proof -
  have st: "strategy_ok example_strategy" using slb_reach_ok [OF example_sorts example_reach] by blast
  obtain ss where ss: "build_servers [0..<length example_confs] 20 2 = Some (ss :: nat server_info list)"
      "map m_serverIdx ss = [0..<length example_confs]"
      "list_all (\<lambda>s. \<not> srv_freed s \<and> pool_reach s ({}, {}, {}) \<and> m_connectCount s = 0) ss"
    using build_servers_ok [where 'r = nat, of 20 "[0..<length example_confs]" 2] by auto
  define p where "p = \<lparr>m_poolIdx = 0, m_serverArr = ss, server_addr = map fst example_confs,
            server_port = map snd example_confs, m_machineRoom = ''jx'', m_serverCount = int (length example_confs),
            pool_lowConnect = 2, pool_perServer = 20, m_connectRetry = 1,
            m_longConnect = True, m_cTimeOutMs = 100, m_strategy = Some example_strategy, destroy_reports = 0\<rparr>"
  have b: "pool_build 0 example_confs 20 100 ''jx'' 1 True example_strategy = Some p"
    using ss(1) by (simp add: pool_build_def LOW_CONNECT_THRESHOLD_def p_def)
  have len: "length ss = 2" using arg_cong [OF ss(2), of length] by (simp add: example_confs_def)
  then have "candidates p = []" using ss(3)
    by (auto simp: candidates_def p_def example_confs_def filter_empty_conv list_all_length Let_def)
  moreover have "pool_run example_env (p, 0)"
    by (rule pool_built [OF b]) (simp_all add: example_confs_def st)
  ultimately show ?thesis using b ss(3) by (auto simp: p_def example_confs_def list_all_iff)
qed

text \<open>
  Whatever happens to a pool after it was built, its server count is the number of servers not
  freed yet; the load balancing strategy lives exactly as long as one of them does, and the end of
  the pool is reported to the router exactly once, when the last server is freed.
\<close>

theorem pool_end_reported_once:
  assumes "pool_run E (p, w)" "is_rank_sort (e_sort E)" "is_backup_sort (e_backup_sort E)"
  shows "m_serverCount p = int (length (filter (\<lambda>s. \<not> srv_freed s) (m_serverArr p))) \<and>
         (m_strategy p = None \<longleftrightarrow> m_serverCount p = 0) \<and>
         destroy_reports p = (if m_serverCount p = 0 then 1 else 0)"
  using pool_run_ok [OF assms(2,3,1)] by (simp add: pool_ok_def life_ok_def alive_def)

theorem pool_end_reported_once_witness:
  "\<exists>p :: nat pool_info. pool_run example_env (p, 0) \<and> m_serverCount p = 2 \<and> destroy_reports p = 0 \<and> m_strategy p \<noteq> None"
proof -
  obtain p :: "nat pool_info" where p: "pool_run example_env (p, 0)" "m_serverCount p = 2" using example_pool by blast
  from pool_end_reported_once [OF p(1) example_sorts] p show ?thesis by auto
qed

text \<open>
  As long as a pool has a server, choosing one never fails and never leaves the array: the
  index is always that of a server counted by \<open>m_serverCount\<close>. When some server has connections but
  is not full, one of those is chosen, so that the fallback without balancing is never used; the
  hypothesis of at most 64 such servers is the size of \<open>slb_request_t.svr\<close>, which the code does not
  check.
\<close>

theorem pool_balance_valid:
  assumes "pool_run E (p, w0)" "is_rank_sort (e_sort E)" "is_backup_sort (e_backup_sort E)"
    and "0 < m_serverCount p" "length (candidates p) \<le> 64"
  shows "\<exists>sel p' w'. get_balance_server E balanceKey p w = Some (sel, p', w') \<and> 0 \<le> sel \<and> sel < m_serverCount p \<and>
           (candidates p \<noteq> [] \<and> (\<exists>st. m_strategy p = Some st \<and> st_balance st \<noteq> None) \<longrightarrow>
            nat sel \<in> set (candidates p))"
  by (rule balance_total [OF assms(2,3) _ assms(4,5)]) (use pool_run_ok [OF assms(2,3,1)] in simp)

theorem pool_balance_valid_witness:
  "\<exists>(p :: nat pool_info) sel p' w'. get_balance_server example_env 7 p 5 = Some (sel, p', w') \<and> 0 \<le> sel \<and> sel < 2"
proof -
  obtain p :: "nat pool_info" where p: "pool_run example_env (p, 0)" "m_serverCount p = 2" "candidates p = []"
    using example_pool by blast
  from pool_balance_valid [OF p(1) example_sorts, where balanceKey = 7 and w = 5] p(2,3) show ?thesis by auto
qed

text \<open>
  A pool takes every request: with all its servers in reachable states (none freed),
  \<open>pool_fetch_connect\<close> returns 0 without a crash, and the request has either been given a free
  connection at once, or a node of the waiting queue of the server chosen.
\<close>

theorem pool_takes_every_request:
  assumes "pool_run E (p, w0)" "is_rank_sort (e_sort E)" "is_backup_sort (e_backup_sort E)"
    and "0 < m_serverCount p" "length (candidates p) \<le> 64" "0 \<le> m_connectRetry p"
    and "list_all (\<lambda>s. \<not> srv_freed s \<and> (\<exists>e. pool_reach s e)) (m_serverArr p)"
  shows "\<exists>node p' w' os. pool_fetch_connect E r balanceKey p w = Some (0, node, p', w', os) \<and>
           (node = None \<longleftrightarrow> (\<exists>j. os = [Acquired j r]))"
proof -
  have ok: "pool_ok p" using pool_run_ok [OF assms(2,3,1)] by simp
  obtain sel p1 w1 where b: "get_balance_server E balanceKey p w = Some (sel, p1, w1)" "0 \<le> sel" "sel < m_serverCount p"
    using balance_total [OF assms(2,3) ok assms(4,5), of balanceKey w] by blast
  have arr: "m_serverArr p1 = m_serverArr p" using balance_ok [OF assms(2,3) ok b(1)] by blast
  have "m_serverCount p \<le> int (length (m_serverArr p))"
    using ok length_filter_le [of "\<lambda>s. \<not> srv_freed s" "m_serverArr p"] by (simp add: pool_ok_def alive_def)
  then have i: "nat sel < length (m_serverArr p)" using b(2,3) by linarith
  let ?s = "m_serverArr p ! nat sel"
  obtain C B K where "\<not> srv_freed ?s" "pool_reach ?s (C, B, K)"
    using assms(7) i by (auto simp: list_all_length)
  then obtain uc fc ws d where inv: "PoolSystem.inv ?s C B K uc fc ws d"
    using pool_reach_ok by (fastforce simp: sys_ok_def)
  obtain node s' os where f: "server_fetch r ?s = Some (node, s', os)" using PoolSystem.fetch_ok [OF inv, of r] by blast
  have "node = None \<longleftrightarrow> (\<exists>j. os = [Acquired j r])"
  proof (cases "m_connectQueueHead ?s = None")
    case True
    then have "node \<noteq> None" using f by (auto simp: server_fetch_def split: if_splits prod.splits)
    moreover have "Acquired j r \<notin> set os" for j
      using f True by (auto simp: server_fetch_def create_new_connect_def split: if_splits prod.splits option.splits)
    ultimately show ?thesis by force
  next
    case False
    then show ?thesis using f
      by (auto simp: server_fetch_def fetch_from_connectqueue_def split: if_splits prod.splits option.splits)
  qed
  moreover have "pool_fetch_connect E r balanceKey p w =
      Some (0, node, p1\<lparr>m_serverArr := (m_serverArr p1)[nat sel := s']\<rparr>, w1, os)"
    using assms(4,6) b arr i f by (simp add: pool_fetch_connect_def)
  ultimately show ?thesis by blast
qed

theorem pool_takes_every_request_witness:
  "\<exists>(p :: nat pool_info) node p' w' os. pool_fetch_connect example_env 42 7 p 5 = Some (0, node, p', w', os) \<and>
     (node = None \<longleftrightarrow> (\<exists>j. os = [Acquired j 42]))"
proof -
  obtain p :: "nat pool_info" where p: "pool_run example_env (p, 0)" "m_serverCount p = 2" "m_connectRetry p = 1"
      "candidates p = []" "list_all (\<lambda>s. \<not> srv_freed s \<and> pool_reach s ({}, {}, {})) (m_serverArr p)"
    using example_pool by blast
  have "list_all (\<lambda>s. \<not> srv_freed s \<and> (\<exists>e. pool_reach s e)) (m_serverArr p)"
    using p(5) by (auto simp: list_all_iff)
  from pool_takes_every_request [OF p(1) example_sorts _ _ _ this, where r = 42 and balanceKey = 7 and w = 5] p(2,3,4)
  have "\<exists>node p' w' os. pool_fetch_connect example_env 42 7 p 5 = Some (0, node, p', w', os) \<and>
     (node = None \<longleftrightarrow> (\<exists>j. os = [Acquired j 42]))" by simp
  then show ?thesis by blast
qed

end
