(* ===== verification/Meta.thy ===== *)
theory Meta
  imports Router "HOL-Library.Monad_Syntax"
begin

text \<open>
  The rest of \<open>meta.cpp\<close>: starting up, reloading the configuration, rebuilding the router from it,
  and the table of users with the authentication of a request. The hash map of the users
  (\<open>bsl::hashmap\<close>, not under src/) is a record of its operations; what the code relies on is
  \<open>hash_laws\<close>. \<open>None\<close> is a crash.
\<close>

section \<open>State\<close>

record 'm hash_ops =
  h_clear :: "'m \<Rightarrow> 'm"
  h_set :: "string \<Rightarrow> int \<Rightarrow> 'm \<Rightarrow> bool \<times> 'm"
  h_get :: "string \<Rightarrow> 'm \<Rightarrow> int option"

text \<open>
  The documented behaviour of \<open>clear\<close>, of \<open>set\<close> without the overwrite flag (the result tells
  \<open>HASH_EXIST\<close>, and an existing entry stays), and of \<open>get\<close>.
\<close>

definition hash_laws :: "('m, 'z) hash_ops_scheme \<Rightarrow> bool" where
  "hash_laws H \<longleftrightarrow>
     (\<forall>m k. h_get H k (h_clear H m) = None) \<and>
     (\<forall>m k k' v. h_get H k' (snd (h_set H k v m)) =
        (if k' = k \<and> h_get H k m = None then Some v else h_get H k' m))"

record 'm meta_state =
  meta_dbs :: "db_info option"   \<comment> \<open>\<open>meta->dbs[0]\<close>, \<open>None\<close> for NULL or freed\<close>
  meta_auth :: 'm
  conf_lastmodify :: int
  m_conf :: configure
  m_router :: router_state
  m_dying :: "pool_desc list"    \<comment> \<open>old pools whose destroy callback is still to come\<close>

section \<open>Operations\<close>

definition meta_info_clean :: "'m meta_state \<Rightarrow> 'm meta_state" where
  "meta_info_clean m = (case meta_dbs m of None \<Rightarrow> m | Some _ \<Rightarrow> m\<lparr>meta_dbs := None\<rparr>)"

definition meta_build_router :: "(pool_desc \<Rightarrow> bool) \<Rightarrow> 'm meta_state \<Rightarrow> (int \<times> 'm meta_state) option" where
  "meta_build_router now m =
     (let m = meta_info_clean m in
      case load_conf (m_conf m) 0 of
        (Crashed, _) \<Rightarrow> None
      | (Failed, db) \<Rightarrow> Some (- 1, m\<lparr>meta_dbs := Some db\<rparr>)
      | (Loaded, db) \<Rightarrow>
          map_option (\<lambda>(ret, s, dying). (ret, m\<lparr>meta_dbs := Some db, m_router := s, m_dying := dying\<rparr>))
            (router_build now db (m_router m, m_dying m)))"

text \<open>The loop of \<open>_meta_auth_load\<close>: users \<open>i\<close>, \<open>i + 1\<close>, \<open>...\<close>; a NULL user is a crash.\<close>

primrec auth_add :: "('m, 'z) hash_ops_scheme \<Rightarrow> user_info option list \<Rightarrow> int \<Rightarrow> 'm \<Rightarrow> 'm option" where
  "auth_add H [] i a = Some a"
| "auth_add H (u # us) i a =
     (case u of None \<Rightarrow> None | Some user \<Rightarrow> auth_add H us (i + 1) (snd (h_set H (uname user) i a)))"

definition meta_auth_load :: "('m, 'z) hash_ops_scheme \<Rightarrow> 'm meta_state \<Rightarrow> 'm meta_state option" where
  "meta_auth_load H m =
     (case meta_dbs m of
        None \<Rightarrow> None
      | Some db \<Rightarrow> map_option (\<lambda>a. m\<lparr>meta_auth := a\<rparr>) (auth_add H (users db) 0 (h_clear H (meta_auth m))))"

definition meta_auth_check ::
    "('m, 'z) hash_ops_scheme \<Rightarrow> 'm meta_state \<Rightarrow> string option \<Rightarrow> string option \<Rightarrow> string option \<Rightarrow> int option" where
  "meta_auth_check H m name tok ip =
     (case (name, tok, ip) of
        (Some name, Some tok, Some _) \<Rightarrow>
          (case h_get H name (meta_auth m) of
             None \<Rightarrow> Some (- 1)
           | Some uid \<Rightarrow>
               (case meta_dbs m of
                  None \<Rightarrow> None
                | Some db \<Rightarrow>
                    if uid < 0 \<or> int (length (users db)) \<le> uid then None
                    else (case users db ! nat uid of
                            None \<Rightarrow> None
                          | Some user \<Rightarrow> if strhash tok \<noteq> strhash (tk user) then Some (- 2) else Some (power user))))
      | _ \<Rightarrow> Some (- 1))"

text \<open>
  \<open>_meta_conf_reload\<close>; \<open>t\<close> is the result of \<open>lastConfigModify\<close>, \<open>loaded\<close> that of loading the files
  (\<open>None\<close> when it fails).
\<close>

definition meta_conf_reload ::
    "('m, 'z) hash_ops_scheme \<Rightarrow> (pool_desc \<Rightarrow> bool) \<Rightarrow> int \<Rightarrow> configure option \<Rightarrow> 'm meta_state \<Rightarrow>
     (int \<times> 'm meta_state) option" where
  "meta_conf_reload H now t loaded m =
     (if conf_lastmodify m < t \<and> \<not> router_is_building (m_router m) then
        (case loaded of
           None \<Rightarrow> Some (- 1, m)
         | Some c \<Rightarrow>
             let m = m\<lparr>m_conf := c, conf_lastmodify := t\<rparr> in
             (case conf_size c [Name ''Db''] of
                None \<Rightarrow> Some (- 1, m)
              | Some n \<Rightarrow>
                  if n \<noteq> 1 then Some (- 1, m)
                  else do {
                    (ret, m) \<leftarrow> meta_build_router now m;
                    if ret \<noteq> 0 then Some (- 1, m)
                    else do { m \<leftarrow> meta_auth_load H m; Some (0, m) }
                  }))
      else Some (0, m))"

text \<open>\<open>meta_init\<close>; \<open>auth0\<close> is the created map, \<open>None\<close> when it cannot be created.\<close>

definition meta_init ::
    "('m, 'z) hash_ops_scheme \<Rightarrow> (pool_desc \<Rightarrow> bool) \<Rightarrow> 'm option \<Rightarrow> int \<Rightarrow> configure \<Rightarrow> configure option \<Rightarrow>
     (int \<times> 'm meta_state) option \<times> bool" where
  "meta_init H now auth0 t c loaded =
     (case auth0 of
        None \<Rightarrow> (None, False)
      | Some a \<Rightarrow>
          (meta_conf_reload H now t loaded
             \<lparr>meta_dbs = None, meta_auth = a, conf_lastmodify = 0, m_conf = c, m_router = router_init, m_dying = []\<rparr>, True))"

definition meta_get_timeout :: "'m meta_state \<Rightarrow> (u32 \<times> u32) option" where
  "meta_get_timeout m = map_option (\<lambda>db. (timeout_sec db, timeout_usec db)) (meta_dbs m)"

section \<open>The table of users\<close>

lemma auth_add_get:
  assumes "hash_laws H"
  shows "\<exists>a'. auth_add H (map Some us) i a = Some a' \<and>
    (\<forall>k. h_get H k a' = (case h_get H k a of Some v \<Rightarrow> Some v
       | None \<Rightarrow> map_option (\<lambda>j. i + int j) (List.find (\<lambda>j. uname (us ! j) = k) [0..<length us])))"
proof (induction us arbitrary: i a)
  case Nil
  then show ?case by (auto split: option.split)
next
  case (Cons u us)
  let ?a = "snd (h_set H (uname u) i a)"
  obtain a' where a': "auth_add H (map Some us) (i + 1) ?a = Some a'"
      "\<And>k. h_get H k a' = (case h_get H k ?a of Some v \<Rightarrow> Some v
       | None \<Rightarrow> map_option (\<lambda>j. i + 1 + int j) (List.find (\<lambda>j. uname (us ! j) = k) [0..<length us]))"
    using Cons.IH by blast
  have set: "h_get H k ?a = (if k = uname u \<and> h_get H (uname u) a = None then Some i else h_get H k a)" for k
    using assms by (simp add: hash_laws_def)
  have find: "List.find (\<lambda>j. uname ((u # us) ! j) = k) [0..<length (u # us)] =
      (if uname u = k then Some 0 else map_option Suc (List.find (\<lambda>j. uname (us ! j) = k) [0..<length us]))" for k
  proof -
    have "List.find P (map f xs) = map_option f (List.find (P \<circ> f) xs)" for P and f :: "nat \<Rightarrow> nat" and xs
      by (induction xs) simp_all
    moreover have "[0..<length (u # us)] = 0 # map Suc [0..<length us]"
      by (simp only: length_Cons map_Suc_upt upt_conv_Cons zero_less_Suc)
    ultimately show ?thesis by (simp add: comp_def)
  qed
  have "h_get H k a' = (case h_get H k a of Some v \<Rightarrow> Some v
       | None \<Rightarrow> map_option (\<lambda>j. i + int j) (List.find (\<lambda>j. uname ((u # us) ! j) = k) [0..<length (u # us)]))" for k
    unfolding a'(2) set find
    by (auto split: option.split simp: option.map_comp comp_def ac_simps)
  then show ?case using a'(1) by simp
qed

section \<open>Reloading\<close>

lemma mark_slots_in_bounds:
  "\<forall>p \<in> set ps. 0 \<le> p \<and> p < int PARTITION_MOD_KEY \<Longrightarrow> fst (mark_slots i ps t c) \<noteq> Some (OutOfBounds p)"
  by (induction ps arbitrary: t c) simp_all

lemma mark_partitions_in_bounds:
  "\<forall>p \<in> set (concat pss). 0 \<le> p \<and> p < int PARTITION_MOD_KEY \<Longrightarrow>
   fst (mark_partitions i pss t c) \<noteq> Some (OutOfBounds p)"
proof (induction pss arbitrary: i t c)
  case (Cons ps pss)
  have "fst (mark_slots (int i) ps t c) \<noteq> Some (OutOfBounds p)"
    by (rule mark_slots_in_bounds) (use Cons.prems in auto)
  moreover have "fst (mark_partitions (Suc i) pss t' c') \<noteq> Some (OutOfBounds p)" for t' c'
    by (rule Cons.IH) (use Cons.prems in auto)
  ultimately show ?case by (auto split: prod.splits option.splits)
qed simp

lemma shard_init_part_in_bounds:
  assumes "\<forall>p \<in> set (concat pss). 0 \<le> p \<and> p < int PARTITION_MOD_KEY"
  shows "shard_init_part pss \<noteq> (Some (OutOfBounds p), t)"
proof
  assume "shard_init_part pss = (Some (OutOfBounds p), t)"
  then have "fst (mark_partitions 0 pss (\<lambda>_. 0) (\<lambda>_. False)) = Some (OutOfBounds p)"
    by (auto simp: shard_init_part_def split: prod.splits option.splits)
  then show False using mark_partitions_in_bounds [OF assms] by blast
qed

text \<open>Everything the code looks at before it loads the new configuration.\<close>

definition reload_due :: "int \<Rightarrow> configure \<Rightarrow> 'm meta_state \<Rightarrow> bool" where
  "reload_due t c m \<longleftrightarrow>
     conf_lastmodify m < t \<and> \<not> router_is_building (m_router m) \<and> conf_size c [Name ''Db''] = Some 1"

lemma meta_info_clean_simps [simp]:
  "m_conf (meta_info_clean m) = m_conf m" "m_router (meta_info_clean m) = m_router m"
  "m_dying (meta_info_clean m) = m_dying m" "meta_auth (meta_info_clean m) = meta_auth m"
  "conf_lastmodify (meta_info_clean m) = conf_lastmodify m"
  by (simp_all add: meta_info_clean_def split: option.split)

lemma reload_due_eq:
  assumes "reload_due t c m"
  shows "meta_conf_reload H now t (Some c) m =
    do { (ret, m) \<leftarrow> meta_build_router now (m\<lparr>m_conf := c, conf_lastmodify := t\<rparr>);
         if ret \<noteq> 0 then Some (- 1, m) else do { m \<leftarrow> meta_auth_load H m; Some (0, m) } }"
  using assms by (simp add: meta_conf_reload_def reload_due_def Let_def)

lemma build_router_loaded:
  assumes "load_conf (m_conf m) 0 = (Loaded, db)"
    and "router_build now db (m_router m, m_dying m) = Some (ret, s, dying)"
  shows "meta_build_router now m =
    Some (ret, (meta_info_clean m)\<lparr>meta_dbs := Some db, m_router := s, m_dying := dying\<rparr>)"
  using assms by (simp add: meta_build_router_def Let_def)

lemma auth_load_loaded:
  assumes "load_conf c 0 = (Loaded, db)" "meta_dbs m = Some db" "hash_laws H"
  shows "\<exists>us a. users db = map Some us \<and> meta_auth_load H m = Some (m\<lparr>meta_auth := a\<rparr>) \<and>
    (\<forall>k. h_get H k a = map_option int (List.find (\<lambda>j. uname (us ! j) = k) [0..<length us]))"
proof -
  obtain us where us: "users db = map Some us"
    by (rule load_conf_stages [OF assms(1)]) simp
  from auth_add_get [OF assms(3), of us 0 "h_clear H (meta_auth m)"] obtain a where
    a: "auth_add H (map Some us) 0 (h_clear H (meta_auth m)) = Some a"
      "\<And>k. h_get H k a = map_option int (List.find (\<lambda>j. uname (us ! j) = k) [0..<length us])"
    using assms(3) by (auto simp: hash_laws_def)
  have "meta_auth_load H m = Some (m\<lparr>meta_auth := a\<rparr>)"
    using a(1) us assms(2) by (simp add: meta_auth_load_def)
  then show ?thesis using us a(2) by blast
qed

lemma find_nth_find:
  "List.find P us = map_option (\<lambda>j. us ! j) (List.find (\<lambda>j. P (us ! j)) [0..<length us])"
proof -
  have "List.find P (map f xs) = map_option f (List.find (P \<circ> f) xs)" for f :: "nat \<Rightarrow> 'a" and xs
    by (induction xs) simp_all
  from this [of "\<lambda>j. us ! j" "[0..<length us]"] show ?thesis by (simp add: map_nth comp_def)
qed

section \<open>Properties\<close>

text \<open>
  A hash map that keeps its laws: an association from names to numbers.
\<close>

definition map_ops :: "(string \<Rightarrow> int option) hash_ops" where
  "map_ops = \<lparr>h_clear = (\<lambda>m. (\<lambda>_. None)),
     h_set = (\<lambda>k v m. case m k of None \<Rightarrow> (True, m(k := Some v)) | Some _ \<Rightarrow> (False, m)),
     h_get = (\<lambda>k m. m k)\<rparr>"

lemma map_ops_laws: "hash_laws map_ops"
  by (auto simp: hash_laws_def map_ops_def split: option.split)

definition example_meta :: "db_info option \<Rightarrow> configure \<Rightarrow> (string \<Rightarrow> int option) meta_state" where
  "example_meta db c = \<lparr>meta_dbs = db, meta_auth = [''0-2'' \<mapsto> 0], conf_lastmodify = 0, m_conf = c,
     m_router = router_init, m_dying = []\<rparr>"

text \<open>
  After a configuration has been loaded, loading the table of users never fails, and from
  then on \<open>meta_auth_check\<close> decides by the users of the configuration: an unknown name is
  refused with -1, a token whose hash is not that of the user's token with -2, and otherwise
  the answer is the user's power. Of several users with one name the first one counts.
\<close>

theorem meta_auth_decides:
  assumes "hash_laws H" "load_conf c 0 = (Loaded, db)" "meta_dbs m = Some db"
  shows "\<exists>us m'. users db = map Some us \<and> meta_auth_load H m = Some m' \<and>
    (\<forall>name tok ip. meta_auth_check H m' (Some name) (Some tok) (Some ip) =
       Some (case List.find (\<lambda>u. uname u = name) us of
               None \<Rightarrow> - 1
             | Some u \<Rightarrow> if strhash tok = strhash (tk u) then power u else - 2))"
proof -
  from auth_load_loaded [OF assms(2,3,1)] obtain us a where us: "users db = map Some us"
    and l: "meta_auth_load H m = Some (m\<lparr>meta_auth := a\<rparr>)"
    and g: "\<And>k. h_get H k a = map_option int (List.find (\<lambda>j. uname (us ! j) = k) [0..<length us])" by blast
  have "meta_auth_check H (m\<lparr>meta_auth := a\<rparr>) (Some name) (Some tok) (Some ip) =
       Some (case List.find (\<lambda>u. uname u = name) us of
               None \<Rightarrow> - 1
             | Some u \<Rightarrow> if strhash tok = strhash (tk u) then power u else - 2)" for name tok ip
  proof (cases "List.find (\<lambda>j. uname (us ! j) = name) [0..<length us]")
    case None
    then show ?thesis by (simp add: meta_auth_check_def g find_nth_find [of "\<lambda>u. uname u = name"])
  next
    case (Some j)
    then have "j < length us" by (auto simp: find_Some_iff)
    then show ?thesis using Some assms(3) us
      by (simp add: meta_auth_check_def g find_nth_find [of "\<lambda>u. uname u = name"])
  qed
  then show ?thesis using us l by blast
qed

theorem meta_auth_decides_witness:
  "\<exists>us m'. users (snd (load_conf example_conf 0)) = map Some us \<and>
     meta_auth_load map_ops (example_meta (Some (snd (load_conf example_conf 0))) example_conf) = Some m'"
proof -
  have "load_conf example_conf 0 = (Loaded, snd (load_conf example_conf 0))"
    using example_conf_loads by (metis prod.collapse)
  from meta_auth_decides [OF map_ops_laws this,
      of "example_meta (Some (snd (load_conf example_conf 0))) example_conf"]
  show ?thesis by (auto simp: example_meta_def)
qed

text \<open>
  A due reload of a configuration that loads, from any reachable state of the router, leads
  to a reachable state again, replaces the data of the database and remembers the time. It
  returns 0 exactly when the partitions hold every slot once; otherwise it returns -1, and the
  table of users and the routing stay those of the configuration before.
\<close>

theorem meta_reload_outcome:
  assumes "reload_due t c m" "router_reach (m_router m) (m_dying m)" "hash_laws H"
    and "load_conf c 0 = (Loaded, db)" "db_fits db" "shard_mode db = 0"
    and "\<forall>p \<in> set (concat (partitions db)). 0 \<le> p \<and> p < int PARTITION_MOD_KEY"
  shows "\<exists>ret m'. meta_conf_reload H now t (Some c) m = Some (ret, m') \<and>
    router_reach (m_router m') (m_dying m') \<and> meta_dbs m' = Some db \<and> conf_lastmodify m' = t \<and>
    (if exact_cover (partitions db) then ret = 0
     else ret = - 1 \<and> meta_auth m' = meta_auth m \<and> current_shard (m_router m') = current_shard (m_router m))"
proof -
  let ?m = "m\<lparr>m_conf := c, conf_lastmodify := t\<rparr>"
  have nb: "\<not> router_is_building (m_router m)" using assms(1) by (simp add: reload_due_def)
  obtain e tab where i: "shard_init_part (partitions db) = (e, tab)"
    by (cases "shard_init_part (partitions db)")
  have lc: "load_conf (m_conf ?m) 0 = (Loaded, db)" using assms(4) by simp
  show ?thesis
  proof (cases e)
    case None
    with i have tab: "shard_init_part (partitions db) = (None, tab)" by simp
    have cov: "exact_cover (partitions db)" using shard_init_part_None [of "partitions db"] tab by simp
    from router_ok_built [OF router_reach_ok [OF assms(2)] nb assms(5,6) tab, of now] obtain s d where
      b: "router_build now db (m_router m, m_dying m) = Some (0, s, d)" by auto
    have r: "router_reach s d" by (rule reach_reload [OF assms(2) nb assms(5,6) b])
    let ?b = "(meta_info_clean ?m)\<lparr>meta_dbs := Some db, m_router := s, m_dying := d\<rparr>"
    have bl: "meta_build_router now ?m = Some (0, ?b)"
      by (rule build_router_loaded [OF lc]) (simp add: b)
    have "meta_dbs ?b = Some db" by simp
    from auth_load_loaded [OF assms(4) this assms(3)] obtain a where
      "meta_auth_load H ?b = Some (?b\<lparr>meta_auth := a\<rparr>)" by blast
    then show ?thesis using reload_due_eq [OF assms(1), of H now] bl r cov by simp
  next
    case (Some err)
    have ncov: "\<not> exact_cover (partitions db)" using shard_init_part_None [of "partitions db"] i Some by simp
    have "err \<noteq> OutOfBounds p" for p using shard_init_part_in_bounds [OF assms(7)] i Some by blast
    then have "router_build now db (m_router m, m_dying m) =
        Some (- 1, (m_router m)\<lparr>router_switching := True,
          shard_params := (shard_params (m_router m))(router_next_flag (m_router m) := tab),
          router_switching := False\<rparr>, m_dying m)" (is "_ = Some (_, ?s, _)")
      using assms(6) i Some by (auto simp: router_build_def Let_def split: init_error.split)
    note b = this
    have r: "router_reach ?s (m_dying m)" by (rule reach_reload [OF assms(2) nb assms(5,6) b])
    have "router_next_flag (m_router m) \<noteq> router_flag (m_router m)"
      using router_reach_ok [OF assms(2)] flip_flag(1) by (metis router_ok_def)
    then have cur: "current_shard ?s = current_shard (m_router m)" by (simp add: current_shard_def)
    have bl: "meta_build_router now ?m =
        Some (- 1, (meta_info_clean ?m)\<lparr>meta_dbs := Some db, m_router := ?s, m_dying := m_dying m\<rparr>)"
      by (rule build_router_loaded [OF lc]) (simp add: b)
    show ?thesis using reload_due_eq [OF assms(1), of H now] bl r cur ncov by simp
  qed
qed

lemma example_conf_db_fields:
  assumes "load_conf example_conf 0 = (Loaded, db)"
  shows "partition_num db = 1 \<and> shard_mode db = 0 \<and> partitions db = [[0, 1, 2]]"
proof -
  obtain isLong b r rn d dn pss svs us db3 where st:
    "load_basic example_conf 0 ([], zero_db (int 0)) = (Loaded, isLong, b)"
    "db3 = snd (load_derived isLong (b\<lparr>readRoomOnly := r, serverMachineRoomName := rn,
                                       readIdcOnly := d, serverIdcName := dn\<rparr>))"
    "length pss = unat (partition_num b)"
    "\<forall>j < unat (partition_num b). \<exists>str ret. partition_strings example_conf 0 j = Some str \<and>
        load_partition str = Some (ret, pss ! j)"
    "db = (services_loaded (db3\<lparr>partitions := pss\<rparr>) (length svs) svs)\<lparr>users := map Some us\<rparr>"
    by (rule load_conf_stages [OF assms])
  have b: "partition_num b = 1" "shard_mode b = 0" using st(1)
    by (auto simp: load_basic_def read_str_def read_u32_def example_conf_def db_path_def Let_def zero_db_def)
  have "pss = [[0, 1, 2]]"
    using st(3,4) b
    by (cases pss) (auto simp: partition_strings_def example_conf_def example_partition db_path_def)
  then show ?thesis using st(2,5) b by (simp add: load_derived_def services_loaded_def)
qed

theorem meta_reload_outcome_witness:
  "\<exists>m'. meta_conf_reload map_ops (\<lambda>_. False) 7 (Some example_conf) (example_meta None example_conf) =
     Some (- 1, m') \<and> meta_auth m' = [''0-2'' \<mapsto> 0]"
proof -
  let ?m = "example_meta None example_conf"
  obtain db where db: "load_conf example_conf 0 = (Loaded, db)" using example_conf_db by blast
  note f = example_conf_db_fields [OF db]
  have fits: "db_fits db" using f by (simp add: db_fits_def PARTITION_MOD_KEY_def)
  have mode: "shard_mode db = 0" using f by simp
  have bnd: "\<forall>p \<in> set (concat (partitions db)). 0 \<le> p \<and> p < int PARTITION_MOD_KEY"
    using f by (simp add: PARTITION_MOD_KEY_def)
  have "3 \<notin> set (concat (partitions db))" "3 \<in> {0..<int PARTITION_MOD_KEY}"
    using f by (simp_all add: PARTITION_MOD_KEY_def)
  then have nc: "\<not> exact_cover (partitions db)" unfolding exact_cover_def by blast
  have due: "reload_due 7 example_conf ?m"
    using not_building_init by (simp add: reload_due_def example_meta_def example_conf_def)
  have r: "router_reach (m_router ?m) (m_dying ?m)" using reach_init by (simp add: example_meta_def)
  from meta_reload_outcome [OF due r map_ops_laws db fits mode bnd] nc
  show ?thesis by (auto simp: example_meta_def)
qed

text \<open>
  A due reload of a configuration that fails to load before its users (a missing item of
  the database or of a service) returns -1 but has already freed the old data: the table of
  users is still the old one, and checking the token of any user it knows reads past the
  user array, which is a crash. The same file is not tried again, its time being remembered.
\<close>

theorem meta_failed_reload_breaks_auth:
  assumes "reload_due t c m" "load_conf c 0 = (Failed, db)" "users db = []"
    and "h_get H name (meta_auth m) = Some uid"
  shows "\<exists>m'. meta_conf_reload H now t (Some c) m = Some (- 1, m') \<and>
    meta_auth_check H m' (Some name) (Some tok) (Some ip) = None \<and>
    meta_conf_reload H now t loaded m' = Some (0, m')"
proof -
  let ?m = "(meta_info_clean (m\<lparr>m_conf := c, conf_lastmodify := t\<rparr>))\<lparr>meta_dbs := Some db\<rparr>"
  have "meta_build_router now (m\<lparr>m_conf := c, conf_lastmodify := t\<rparr>) = Some (- 1, ?m)"
    using assms(2) by (simp add: meta_build_router_def Let_def)
  then have "meta_conf_reload H now t (Some c) m = Some (- 1, ?m)"
    using reload_due_eq [OF assms(1), of H now] by simp
  moreover have "meta_auth_check H ?m (Some name) (Some tok) (Some ip) = None"
    using assms(3,4) by (auto simp: meta_auth_check_def)
  moreover have "meta_conf_reload H now t loaded ?m = Some (0, ?m)"
    by (simp add: meta_conf_reload_def)
  ultimately show ?thesis by blast
qed

definition broken_conf :: configure where
  "broken_conf = example_conf\<lparr>get_cstr := (\<lambda>p n. None)\<rparr>"

theorem meta_failed_reload_breaks_auth_witness:
  "\<exists>m'. meta_conf_reload map_ops (\<lambda>_. False) 7 (Some broken_conf) (example_meta None example_conf) =
       Some (- 1, m') \<and>
     meta_auth_check map_ops m' (Some ''0-2'') (Some ''t'') (Some ''ip'') = None"
proof -
  have due: "reload_due 7 broken_conf (example_meta None example_conf)"
    using not_building_init by (simp add: reload_due_def example_meta_def broken_conf_def example_conf_def)
  obtain db where db: "load_conf broken_conf 0 = (Failed, db)" "users db = []"
    by (auto simp: load_conf_def load_basic_def read_str_def broken_conf_def example_conf_def zero_db_def
        db_path_def split: prod.split load_res.split)
  have "h_get map_ops ''0-2'' (meta_auth (example_meta None example_conf)) = Some 0"
    by (simp add: map_ops_def example_meta_def)
  from meta_failed_reload_breaks_auth [OF due db this, of "\<lambda>_. False" "''t''" "''ip''"]
  show ?thesis by blast
qed

end
