(* ===== verification/Event.thy ===== *)
theory Event
  imports Hash "HOL-Library.Monad_Syntax"
begin

text \<open>
  \<open>event.cpp\<close>: the buffered socket of libevent as far as the proxy uses it (its input and output
  bytes, the read switch and the read watermarks), and the list that carries custom events from any
  thread to the event loop. The threads of that list are interleaved statement by statement, memory
  being sequentially consistent; a producer holds the mutex, the one consumer takes no lock.
  \<open>None\<close> is a crash: an access through a NULL pointer, to memory that is not allocated or past
  the end of an allocation.
\<close>

section \<open>Buffered sockets\<close>

record bufev =
  ev_input :: "u8 list"
  ev_output :: "u8 list"
  ev_reading :: bool
  wm_low :: int
  wm_high :: int        \<comment> \<open>0 for no limit\<close>
  wm_write_low :: int
  wm_write_high :: int

text \<open>An \<open>int\<close> passed where a \<open>size_t\<close> is expected.\<close>

definition size_of_int :: "int \<Rightarrow> int" where
  "size_of_int i = (if i < 0 then i + 2 ^ 64 else i)"

definition event_new :: bufev where
  "event_new = \<lparr>ev_input = [], ev_output = [], ev_reading = False, wm_low = 0, wm_high = 0,
     wm_write_low = 0, wm_write_high = 0\<rparr>"

text \<open>
  \<open>event_read\<close> removes at most \<open>sz\<close> bytes of the input and copies them to the buffer, of which
  the allocated bytes are given; \<open>evbuffer_remove\<close> does not touch the buffer when nothing is there.
\<close>

definition event_read :: "bufev \<Rightarrow> u8 list option \<Rightarrow> int \<Rightarrow> (int \<times> bufev \<times> u8 list option) option" where
  "event_read e buf sz =
     (let n = (if int (length (ev_input e)) \<le> size_of_int sz then length (ev_input e) else nat (size_of_int sz)) in
      if n = 0 then Some (0, e, buf)
      else (case buf of
              None \<Rightarrow> None
            | Some b \<Rightarrow>
                if length b < n then None
                else Some (int n, e\<lparr>ev_input := drop n (ev_input e)\<rparr>, Some (take n (ev_input e) @ drop n b))))"

definition event_write :: "bufev \<Rightarrow> u8 list \<Rightarrow> bufev" where
  "event_write e bs = e\<lparr>ev_output := ev_output e @ bs\<rparr>"

definition event_get_input_len :: "bufev \<Rightarrow> int" where
  "event_get_input_len e = int (length (ev_input e))"

definition event_disable_read :: "bufev \<Rightarrow> bufev" where
  "event_disable_read e = e\<lparr>ev_reading := False\<rparr>"

definition event_enable_read :: "bufev \<Rightarrow> bufev" where
  "event_enable_read e = e\<lparr>ev_reading := True\<rparr>"

definition event_set_read_watermark :: "bufev \<Rightarrow> int \<Rightarrow> int \<Rightarrow> bufev" where
  "event_set_read_watermark e low high = e\<lparr>wm_low := size_of_int low, wm_high := size_of_int high\<rparr>"

definition event_set_write_watermark :: "bufev \<Rightarrow> int \<Rightarrow> int \<Rightarrow> bufev" where
  "event_set_write_watermark e low high = e\<lparr>wm_write_low := size_of_int low, wm_write_high := size_of_int high\<rparr>"

text \<open>How many bytes the socket may still deliver: reading stops at the high watermark.\<close>

definition may_deliver :: "bufev \<Rightarrow> nat \<Rightarrow> bool" where
  "may_deliver e n \<longleftrightarrow> ev_reading e \<and> (wm_high e = 0 \<or> int (length (ev_input e) + n) \<le> wm_high e)"

lemma event_read_within:
  assumes "0 \<le> sz" "nat sz \<le> length b"
  shows "event_read e (Some b) sz =
    (let n = min (length (ev_input e)) (nat sz) in
     Some (int n, e\<lparr>ev_input := drop n (ev_input e)\<rparr>, Some (take n (ev_input e) @ drop n b)))"
proof (cases "min (length (ev_input e)) (nat sz) = 0")
  case True
  then show ?thesis using assms by (auto simp: event_read_def size_of_int_def Let_def min_def split: if_splits)
next
  case False
  have "(if int (length (ev_input e)) \<le> sz then length (ev_input e) else nat sz) =
      min (length (ev_input e)) (nat sz)" using assms(1) by auto
  moreover from assms(2) have "min (length (ev_input e)) (nat sz) \<le> length b" by simp
  ultimately show ?thesis using False assms(1) by (auto simp: event_read_def size_of_int_def Let_def)
qed

section \<open>Timers\<close>

record ('f, 'x) event_timer =
  t_cb :: 'f
  t_ctx :: 'x
  t_sec :: u64
  t_usec :: u64
  t_repeating :: bool

definition event_timer_new :: "'f \<Rightarrow> u64 \<Rightarrow> bool \<Rightarrow> 'x \<Rightarrow> ('f, 'x) event_timer" where
  "event_timer_new cb usec rep ctx =
     \<lparr>t_cb = cb, t_ctx = ctx, t_sec = usec div 1000000, t_usec = usec mod 1000000, t_repeating = rep\<rparr>"

definition my_timer_cb :: "('f, 'x) event_timer \<Rightarrow> 'f \<times> 'x" where
  "my_timer_cb t = (t_cb t, t_ctx t)"

section \<open>The list of custom events\<close>

text \<open>Address 0 is NULL.\<close>

record 'd ts_node =
  nd_next :: nat
  nd_key :: u64
  nd_data :: 'd
  nd_holder :: bool

record 'd ts_list =
  ts_heap :: "nat \<Rightarrow> 'd ts_node option"
  ts_head :: nat
  ts_tail :: nat

definition set_node :: "nat \<Rightarrow> ('d ts_node \<Rightarrow> 'd ts_node) \<Rightarrow> 'd ts_list \<Rightarrow> 'd ts_list option" where
  "set_node a f l = (case ts_heap l a of None \<Rightarrow> None | Some n \<Rightarrow> Some (l\<lparr>ts_heap := (ts_heap l)(a := Some (f n))\<rparr>))"

definition list_init :: "'d ts_node \<Rightarrow> nat \<Rightarrow> 'd ts_list" where
  "list_init junk a =
     \<lparr>ts_heap = [a \<mapsto> junk\<lparr>nd_holder := True, nd_next := 0\<rparr>], ts_head = a, ts_tail = a\<rparr>"

text \<open>
  The statements of \<open>list_produce\<close> inside the mutex, after \<open>cur_tail = ts_list.tail\<close>; \<open>new\<close> is the
  node allocated before.
\<close>

definition produce_stmt :: "nat \<Rightarrow> u64 \<Rightarrow> 'd \<Rightarrow> nat \<Rightarrow> nat \<Rightarrow> 'd ts_list \<Rightarrow> 'd ts_list option" where
  "produce_stmt i k d new cur_tail =
     [set_node cur_tail (nd_key_update (\<lambda>_. k)),
      set_node cur_tail (nd_data_update (\<lambda>_. d)),
      set_node cur_tail (nd_next_update (\<lambda>_. new)),
      set_node new (nd_next_update (\<lambda>_. 0)),
      set_node new (nd_holder_update (\<lambda>_. True)),
      set_node cur_tail (nd_holder_update (\<lambda>_. False)),
      (\<lambda>l. Some (l\<lparr>ts_tail := new\<rparr>))] ! i"

text \<open>\<open>list_produce\<close> undisturbed; \<open>new\<close> is the result of \<open>malloc\<close>.\<close>

definition list_produce :: "nat option \<Rightarrow> 'd ts_node \<Rightarrow> u64 \<Rightarrow> 'd \<Rightarrow> 'd ts_list \<Rightarrow> (int \<times> 'd ts_list) option" where
  "list_produce new junk k d l =
     (case new of
        None \<Rightarrow> Some (- 1, l)
      | Some a \<Rightarrow>
          map_option (Pair 0)
            (fold (\<lambda>i r. Option.bind r (produce_stmt i k d a (ts_tail l))) [0..<7]
               (Some (l\<lparr>ts_heap := (ts_heap l)(a \<mapsto> junk)\<rparr>))))"

text \<open>\<open>list_consume\<close> undisturbed: the element taken, if there is one.\<close>

definition list_consume :: "'d ts_list \<Rightarrow> ((u64 \<times> 'd) option \<times> 'd ts_list) option" where
  "list_consume l =
     (case ts_heap l (ts_head l) of
        None \<Rightarrow> None
      | Some n \<Rightarrow>
          if nd_holder n then Some (None, l)
          else Some (Some (nd_key n, nd_data n),
                     l\<lparr>ts_head := nd_next n, ts_heap := (ts_heap l)(ts_head l := None)\<rparr>))"

text \<open>
  The loop of \<open>custom_event_cb\<close>: every element whose key has a listener is handed to it. A listener
  registers in the map with \<open>event_listen\<close>; the last one for a key stays.
\<close>

definition event_listen :: "string \<Rightarrow> 'f \<Rightarrow> (u64 \<Rightarrow> 'f option) \<Rightarrow> (u64 \<Rightarrow> 'f option)" where
  "event_listen event cb m = m(strhash event \<mapsto> cb)"

text \<open>\<open>event_trigger\<close>; the flag tells whether the custom event has been activated.\<close>

definition event_trigger ::
    "nat option \<Rightarrow> 'd ts_node \<Rightarrow> string \<Rightarrow> 'd \<Rightarrow> 'd ts_list \<Rightarrow> (int \<times> bool \<times> 'd ts_list) option" where
  "event_trigger new junk event param l =
     (case list_produce new junk (strhash event) param l of
        None \<Rightarrow> None
      | Some (ret, l) \<Rightarrow> if ret \<noteq> 0 then Some (- 1, False, l) else Some (0, True, l))"

fun custom_event_loop :: "nat \<Rightarrow> (u64 \<Rightarrow> 'f option) \<Rightarrow> 'd ts_list \<Rightarrow> (('f \<times> 'd) list \<times> 'd ts_list) option" where
  "custom_event_loop 0 m l = None"
| "custom_event_loop (Suc fuel) m l =
     (case list_consume l of
        None \<Rightarrow> None
      | Some (None, l) \<Rightarrow> Some ([], l)
      | Some (Some (k, d), l) \<Rightarrow>
          (case custom_event_loop fuel m l of
             None \<Rightarrow> None
           | Some (calls, l) \<Rightarrow> Some ((case m k of None \<Rightarrow> calls | Some cb \<Rightarrow> (cb, d) # calls), l)))"

section \<open>All interleavings\<close>

text \<open>A producer inside the mutex with its next statement, its arguments and its two pointers.\<close>

datatype 'd producer = Unlocked | Producing nat u64 'd nat nat

text \<open>
  The consumer: about to look at the head, or past the test with the node, and then with the key
  and the data it has read.
\<close>

datatype 'd consumer = Looking | Testing nat | GotKey nat u64 | GotBoth nat u64 'd | Freeing nat

record 'd ts_sys =
  tsl :: "'d ts_list"
  prod :: "'d producer"
  consumer :: "'d consumer"
  produced :: "(u64 \<times> 'd) list"  \<comment> \<open>in the order in which the producers took the mutex\<close>
  consumed :: "(u64 \<times> 'd) list"

definition produce_step :: "'d ts_sys \<Rightarrow> 'd ts_sys option" where
  "produce_step s =
     (case prod s of
        Unlocked \<Rightarrow> Some s
      | Producing i k d new ct \<Rightarrow>
          map_option (\<lambda>l. s\<lparr>tsl := l, prod := (if i = 6 then Unlocked else Producing (Suc i) k d new ct)\<rparr>)
            (produce_stmt i k d new ct (tsl s)))"

definition consume_step :: "'d ts_sys \<Rightarrow> 'd ts_sys option" where
  "consume_step s =
     (let l = tsl s in
      case consumer s of
        Looking \<Rightarrow>
          map_option (\<lambda>n. if nd_holder n then s else s\<lparr>consumer := Testing (ts_head l)\<rparr>) (ts_heap l (ts_head l))
      | Testing a \<Rightarrow> map_option (\<lambda>n. s\<lparr>consumer := GotKey a (nd_key n)\<rparr>) (ts_heap l a)
      | GotKey a k \<Rightarrow> map_option (\<lambda>n. s\<lparr>consumer := GotBoth a k (nd_data n)\<rparr>) (ts_heap l a)
      | GotBoth a k d \<Rightarrow>
          map_option (\<lambda>n. s\<lparr>tsl := l\<lparr>ts_head := nd_next n\<rparr>, consumer := Freeing a, consumed := consumed s @ [(k, d)]\<rparr>)
            (ts_heap l a)
      | Freeing a \<Rightarrow>
          (case ts_heap l a of
             None \<Rightarrow> None
           | Some _ \<Rightarrow> Some (s\<lparr>tsl := l\<lparr>ts_heap := (ts_heap l)(a := None)\<rparr>, consumer := Looking\<rparr>)))"

definition produce_start :: "nat \<Rightarrow> 'd ts_node \<Rightarrow> u64 \<Rightarrow> 'd \<Rightarrow> 'd ts_sys \<Rightarrow> 'd ts_sys" where
  "produce_start new junk k d s =
     s\<lparr>tsl := (tsl s)\<lparr>ts_heap := (ts_heap (tsl s))(new \<mapsto> junk)\<rparr>,
       prod := Producing 0 k d new (ts_tail (tsl s)), produced := produced s @ [(k, d)]\<rparr>"

inductive ts_reach :: "'d ts_sys \<Rightarrow> bool" where
  ts_init: "a \<noteq> 0 \<Longrightarrow>
    ts_reach \<lparr>tsl = list_init junk a, prod = Unlocked, consumer = Looking, produced = [], consumed = []\<rparr>"
| ts_lock: "ts_reach s \<Longrightarrow> prod s = Unlocked \<Longrightarrow> new \<noteq> 0 \<Longrightarrow> ts_heap (tsl s) new = None \<Longrightarrow>
    ts_reach (produce_start new junk k d s)"
| ts_produce: "ts_reach s \<Longrightarrow> produce_step s = Some s' \<Longrightarrow> ts_reach s'"
| ts_consume: "ts_reach s \<Longrightarrow> consume_step s = Some s' \<Longrightarrow> ts_reach s'"

section \<open>The chain of nodes\<close>

text \<open>
  From \<open>a\<close>, closed nodes with the elements \<open>xs\<close> (and their addresses) up to the open node \<open>e\<close>,
  the placeholder.
\<close>

fun chain :: "(nat \<Rightarrow> 'd ts_node option) \<Rightarrow> nat \<Rightarrow> (nat \<times> u64 \<times> 'd) list \<Rightarrow> nat \<Rightarrow> bool" where
  "chain h a [] e \<longleftrightarrow> a = e \<and> (\<exists>n. h a = Some n \<and> nd_holder n)"
| "chain h a ((b, k, d) # xs) e \<longleftrightarrow>
     a = b \<and> b \<noteq> e \<and> b \<notin> fst ` set xs \<and>
     (\<exists>n. h b = Some n \<and> \<not> nd_holder n \<and> nd_key n = k \<and> nd_data n = d \<and> chain h (nd_next n) xs e)"

abbreviation nodes :: "(nat \<times> u64 \<times> 'd) list \<Rightarrow> nat \<Rightarrow> nat set" where
  "nodes xs e \<equiv> insert e (fst ` set xs)"

lemma chain_ConsE:
  assumes "chain h a ((b, k, d) # xs) e"
  obtains n where "a = b" "b \<noteq> e" "b \<notin> fst ` set xs" "h b = Some n" "\<not> nd_holder n"
    "nd_key n = k" "nd_data n = d" "chain h (nd_next n) xs e"
  using assms by auto

lemma chain_allocated: "chain h a xs e \<Longrightarrow> b \<in> nodes xs e \<Longrightarrow> h b \<noteq> None"
proof (induction h a xs e rule: chain.induct)
  case (2 h a c k d xs e)
  obtain n where n: "h c = Some n" "chain h (nd_next n) xs e" by (rule chain_ConsE [OF 2(2)])
  show ?case
  proof (cases "b = c")
    case False
    then have "b \<in> nodes xs e" using 2(3) by simp
    then show ?thesis by (rule 2(1) [OF n(2)])
  qed (simp add: n)
qed auto

lemma chain_end_fresh: "chain h a xs e \<Longrightarrow> e \<notin> fst ` set xs"
proof (induction h a xs e rule: chain.induct)
  case (2 h a c k d xs e)
  obtain n where "h c = Some n" "c \<noteq> e" "chain h (nd_next n) xs e" by (rule chain_ConsE [OF 2(2)])
  then show ?case using 2(1) [of n] by simp
qed simp

lemma chain_end: "chain h a xs e \<Longrightarrow> \<exists>n. h e = Some n \<and> nd_holder n"
  by (induction h a xs e rule: chain.induct) auto

lemma chain_frame: "chain h a xs e \<Longrightarrow> (\<And>b. b \<in> nodes xs e \<Longrightarrow> h' b = h b) \<Longrightarrow> chain h' a xs e"
proof (induction h a xs e rule: chain.induct)
  case (2 h a c k d xs e)
  from 2(2) obtain n where n: "h c = Some n" "\<not> nd_holder n" "nd_key n = k" "nd_data n = d"
    "chain h (nd_next n) xs e" by auto
  have "chain h' (nd_next n) xs e" by (rule 2(1) [OF n(5)], rule 2(3)) auto
  then show ?case using 2(2) n 2(3) [of c] by simp
qed auto

lemma chain_other: "chain h a xs e \<Longrightarrow> b \<notin> nodes xs e \<Longrightarrow> chain (h(b := v)) a xs e"
  by (rule chain_frame) (assumption, metis fun_upd_other)

lemma chain_open: "chain h a xs e \<Longrightarrow> nd_holder n \<Longrightarrow> chain (h(e := Some n)) a xs e"
  by (induction h a xs e rule: chain.induct) auto

lemma chain_close:
  assumes "chain h a xs e" "h e = Some n" "h (nd_next n) = Some m" "nd_holder m"
    and "nd_next n \<noteq> e" "nd_next n \<notin> fst ` set xs"
  shows "chain (h(e := Some (n\<lparr>nd_holder := False\<rparr>))) a (xs @ [(e, nd_key n, nd_data n)]) (nd_next n)"
  using assms
proof (induction h a xs e rule: chain.induct)
  case (2 h a c k d xs e)
  then obtain n' where n': "h c = Some n'" "\<not> nd_holder n'" "nd_key n' = k" "nd_data n' = d"
    "chain h (nd_next n') xs e" by auto
  note IH = 2(1) [OF n'(5) 2(3-6)]
  show ?case using 2(2,6,7) n' IH by (auto simp del: fun_upd_apply simp: fun_upd_other)
qed auto

lemma chain_head: "chain h a xs e \<Longrightarrow> a \<in> nodes xs e"
  by (cases xs) auto

section \<open>The invariant\<close>

text \<open>What the statements of the producer before the \<open>i\<close>-th have achieved.\<close>

definition produced_so_far :: "(nat \<Rightarrow> 'd ts_node option) \<Rightarrow> nat \<Rightarrow> u64 \<Rightarrow> 'd \<Rightarrow> nat \<Rightarrow> nat \<Rightarrow> bool" where
  "produced_so_far h i k d new e \<longleftrightarrow>
     (\<exists>n m. h e = Some n \<and> h new = Some m \<and> (0 < i \<longrightarrow> nd_key n = k) \<and> (1 < i \<longrightarrow> nd_data n = d) \<and>
        (2 < i \<longrightarrow> nd_next n = new) \<and> (3 < i \<longrightarrow> nd_next m = 0) \<and> (4 < i \<longrightarrow> nd_holder m))"

definition producer_ok :: "'d ts_sys \<Rightarrow> (nat \<times> u64 \<times> 'd) list \<Rightarrow> nat \<Rightarrow> (u64 \<times> 'd) list \<Rightarrow> bool" where
  "producer_ok s xs e pending \<longleftrightarrow>
     (case prod s of
        Unlocked \<Rightarrow> ts_tail (tsl s) = e \<and> pending = []
      | Producing i k d new ct \<Rightarrow>
          if i < 6 then ts_tail (tsl s) = e \<and> ct = e \<and> pending = [(k, d)] \<and>
            new \<notin> nodes xs e \<and> new \<noteq> 0 \<and> produced_so_far (ts_heap (tsl s)) i k d new e
          else i = 6 \<and> new = e \<and> pending = [])"

definition consumer_ok :: "'d ts_sys \<Rightarrow> (nat \<times> u64 \<times> 'd) list \<Rightarrow> nat \<Rightarrow> bool" where
  "consumer_ok s xs e \<longleftrightarrow>
     (case consumer s of
        Looking \<Rightarrow> True
      | Testing a \<Rightarrow> (\<exists>k d ys. xs = (a, k, d) # ys)
      | GotKey a k \<Rightarrow> (\<exists>d ys. xs = (a, k, d) # ys)
      | GotBoth a k d \<Rightarrow> (\<exists>ys. xs = (a, k, d) # ys)
      | Freeing a \<Rightarrow> a \<notin> nodes xs e \<and> ts_heap (tsl s) a \<noteq> None \<and>
          (case prod s of Producing i k d new ct \<Rightarrow> i < 6 \<longrightarrow> a \<noteq> new | Unlocked \<Rightarrow> True))"

definition ts_inv :: "'d ts_sys \<Rightarrow> bool" where
  "ts_inv s \<longleftrightarrow> (\<exists>xs e pending.
     chain (ts_heap (tsl s)) (ts_head (tsl s)) xs e \<and> producer_ok s xs e pending \<and> consumer_ok s xs e \<and>
     produced s = consumed s @ map snd xs @ pending)"

lemma consumer_ok_new:
  assumes "consumer_ok s xs e" "ts_heap (tsl s) new = None"
  shows "consumer_ok (produce_start new junk k d s) xs e"
  using assms by (auto simp: consumer_ok_def produce_start_def split: consumer.splits)

lemma ts_inv_lock:
  assumes "ts_inv s" "prod s = Unlocked" "new \<noteq> 0" "ts_heap (tsl s) new = None"
  shows "ts_inv (produce_start new junk k d s)"
proof -
  from assms(1) obtain xs e pending where
    c: "chain (ts_heap (tsl s)) (ts_head (tsl s)) xs e" and p: "producer_ok s xs e pending"
    and co: "consumer_ok s xs e" and q: "produced s = consumed s @ map snd xs @ pending"
    by (auto simp: ts_inv_def)
  have out: "new \<notin> nodes xs e" using chain_allocated [OF c, of new] assms(4) by auto
  have "chain (ts_heap (tsl (produce_start new junk k d s))) (ts_head (tsl (produce_start new junk k d s))) xs e"
    using chain_other [OF c out] by (simp add: produce_start_def)
  moreover have "producer_ok (produce_start new junk k d s) xs e [(k, d)]"
    using p assms(2,3) out chain_end [OF c]
    by (auto simp: producer_ok_def produce_start_def produced_so_far_def)
  moreover have "produced (produce_start new junk k d s) =
      consumed (produce_start new junk k d s) @ map snd xs @ [(k, d)]"
    using q p assms(2) by (simp add: producer_ok_def produce_start_def)
  ultimately show ?thesis using consumer_ok_new [OF co assms(4)] unfolding ts_inv_def by blast
qed

lemma ts_invI:
  "chain (ts_heap (tsl s)) (ts_head (tsl s)) xs e \<Longrightarrow> producer_ok s xs e pending \<Longrightarrow> consumer_ok s xs e \<Longrightarrow>
   produced s = consumed s @ map snd xs @ pending \<Longrightarrow> ts_inv s"
  unfolding ts_inv_def by blast

lemma less_6_cases: "i < (6::nat) \<Longrightarrow> i = 0 \<or> i = 1 \<or> i = 2 \<or> i = 3 \<or> i = 4 \<or> i = 5"
  by auto

text \<open>The statements that only fill in the old placeholder and the new node.\<close>

lemma produce_fill:
  assumes "chain h a xs e" "new \<notin> nodes xs e" "i < 5" "produced_so_far h i k d new e"
    and "h = ts_heap l" "a = ts_head l"
  shows "\<exists>h'. produce_stmt i k d new e l = Some (l\<lparr>ts_heap := h'\<rparr>) \<and> chain h' a xs e \<and>
    produced_so_far h' (Suc i) k d new e \<and> (\<forall>b. h b \<noteq> None \<longrightarrow> h' b \<noteq> None)"
proof -
  from assms(4) obtain n m where nm: "h e = Some n" "h new = Some m" "0 < i \<longrightarrow> nd_key n = k"
    "1 < i \<longrightarrow> nd_data n = d" "2 < i \<longrightarrow> nd_next n = new" "3 < i \<longrightarrow> nd_next m = 0"
    by (auto simp: produced_so_far_def)
  have ne: "new \<noteq> e" "e \<noteq> new" using assms(2) by auto
  have hn: "nd_holder n" using chain_end [OF assms(1)] nm(1) by simp
  note o = chain_open [OF assms(1)] and f = chain_other [OF assms(1,2)]
  from assms(3) consider "i = 0" | "i = 1" | "i = 2" | "i = 3" | "i = 4" by linarith
  then show ?thesis
  proof cases
    case 1
    with nm ne hn show ?thesis
      using o [of "n\<lparr>nd_key := k\<rparr>"]
      by (intro exI [of _ "h(e := Some (n\<lparr>nd_key := k\<rparr>))"])
        (simp add: produce_stmt_def set_node_def produced_so_far_def assms(5) [symmetric])
  next
    case 2
    with nm ne hn show ?thesis
      using o [of "n\<lparr>nd_data := d\<rparr>"]
      by (intro exI [of _ "h(e := Some (n\<lparr>nd_data := d\<rparr>))"])
        (simp add: produce_stmt_def set_node_def produced_so_far_def assms(5) [symmetric])
  next
    case 3
    with nm ne hn show ?thesis
      using o [of "n\<lparr>nd_next := new\<rparr>"]
      by (intro exI [of _ "h(e := Some (n\<lparr>nd_next := new\<rparr>))"])
        (simp add: produce_stmt_def set_node_def produced_so_far_def assms(5) [symmetric])
  next
    case 4
    with nm ne show ?thesis
      using f [of "Some (m\<lparr>nd_next := 0\<rparr>)"]
      by (intro exI [of _ "h(new := Some (m\<lparr>nd_next := 0\<rparr>))"])
        (simp add: produce_stmt_def set_node_def produced_so_far_def assms(5) [symmetric])
  next
    case 5
    with nm ne show ?thesis
      using f [of "Some (m\<lparr>nd_holder := True\<rparr>)"]
      by (intro exI [of _ "h(new := Some (m\<lparr>nd_holder := True\<rparr>))"])
        (simp add: produce_stmt_def set_node_def produced_so_far_def assms(5) [symmetric])
  qed
qed

lemma ts_inv_produce:
  assumes "ts_inv s"
  shows "\<exists>s'. produce_step s = Some s' \<and> ts_inv s'"
proof (cases "prod s")
  case Unlocked
  then show ?thesis using assms by (simp add: produce_step_def)
next
  case (Producing i k d new ct)
  from assms obtain xs e pending where
    c: "chain (ts_heap (tsl s)) (ts_head (tsl s)) xs e" and p: "producer_ok s xs e pending"
    and co: "consumer_ok s xs e" and q: "produced s = consumed s @ map snd xs @ pending"
    by (auto simp: ts_inv_def)
  show ?thesis
  proof (cases "i < 6")
    case False
    with p Producing have i: "i = 6" "new = e" "pending = []" by (simp_all add: producer_ok_def split: if_splits)
    let ?s = "s\<lparr>tsl := (tsl s)\<lparr>ts_tail := new\<rparr>, prod := Unlocked\<rparr>"
    have "produce_step s = Some ?s" using Producing i by (simp add: produce_step_def produce_stmt_def)
    moreover have "ts_inv ?s"
    proof (rule ts_invI [where xs = xs and e = e and pending = "[]"])
      show "consumer_ok ?s xs e"
        using co Producing by (auto simp: consumer_ok_def split: consumer.splits)
    qed (use c q i in \<open>simp_all add: producer_ok_def\<close>)
    ultimately show ?thesis by blast
  next
    case True
    with p Producing have t: "ts_tail (tsl s) = e" "ct = e" "pending = [(k, d)]" "new \<notin> nodes xs e" "new \<noteq> 0"
      "produced_so_far (ts_heap (tsl s)) i k d new e" by (simp_all add: producer_ok_def)
    show ?thesis
    proof (cases "i = 5")
      case False
      with True have i: "i < 5" by simp
      from produce_fill [OF c t(4) i t(6) refl refl] obtain h' where
        h': "produce_stmt i k d new e (tsl s) = Some ((tsl s)\<lparr>ts_heap := h'\<rparr>)"
          "chain h' (ts_head (tsl s)) xs e" "produced_so_far h' (Suc i) k d new e"
          "\<And>b. ts_heap (tsl s) b \<noteq> None \<Longrightarrow> h' b \<noteq> None" by blast
      let ?s = "s\<lparr>tsl := (tsl s)\<lparr>ts_heap := h'\<rparr>, prod := Producing (Suc i) k d new e\<rparr>"
      have "produce_step s = Some ?s" using Producing i t(2) h'(1) by (simp add: produce_step_def)
      moreover have "ts_inv ?s"
      proof (rule ts_invI [where xs = xs and e = e and pending = "[(k, d)]"])
        show "producer_ok ?s xs e [(k, d)]" using t h'(3) i by (simp add: producer_ok_def)
        show "consumer_ok ?s xs e" using co Producing i h'(4)
          by (auto simp: consumer_ok_def split: consumer.splits)
      qed (use h'(2) q t in simp_all)
      ultimately show ?thesis by blast
    next
      case i: True
      from t(6) i obtain n m where nm: "ts_heap (tsl s) e = Some n" "ts_heap (tsl s) new = Some m"
        "nd_key n = k" "nd_data n = d" "nd_next n = new" "nd_holder m" by (auto simp: produced_so_far_def)
      let ?h = "(ts_heap (tsl s))(e := Some (n\<lparr>nd_holder := False\<rparr>))"
      let ?s = "s\<lparr>tsl := (tsl s)\<lparr>ts_heap := ?h\<rparr>, prod := Producing 6 k d new e\<rparr>"
      have "produce_step s = Some ?s"
        using Producing i t(2) nm(1) by (simp add: produce_step_def produce_stmt_def set_node_def)
      moreover have "ts_inv ?s"
      proof (rule ts_invI [where xs = "xs @ [(e, k, d)]" and e = new and pending = "[]"])
        from chain_close [OF c nm(1) _ nm(6)] nm t(4)
        show "chain (ts_heap (tsl ?s)) (ts_head (tsl ?s)) (xs @ [(e, k, d)]) new" by simp
        show "producer_ok ?s (xs @ [(e, k, d)]) new []" by (simp add: producer_ok_def)
        show "consumer_ok ?s (xs @ [(e, k, d)]) new" using co Producing i
          by (auto simp: consumer_ok_def split: consumer.splits)
        show "produced ?s = consumed ?s @ map snd (xs @ [(e, k, d)]) @ []" using q t(3) by simp
      qed
      ultimately show ?thesis by blast
    qed
  qed
qed

lemma produced_so_far_other:
  "b \<noteq> new \<Longrightarrow> b \<noteq> e \<Longrightarrow> produced_so_far (h(b := v)) i k d new e = produced_so_far h i k d new e"
  by (simp add: produced_so_far_def)

lemma ts_inv_consume:
  assumes "ts_inv s"
  shows "\<exists>s'. consume_step s = Some s' \<and> ts_inv s'"
proof -
  let ?h = "ts_heap (tsl s)"
  from assms obtain xs e pending where
    c: "chain ?h (ts_head (tsl s)) xs e" and p: "producer_ok s xs e pending"
    and co: "consumer_ok s xs e" and q: "produced s = consumed s @ map snd xs @ pending"
    by (auto simp: ts_inv_def)
  have produ: "producer_ok (s\<lparr>consumer := c\<rparr>) xs e pending" for c
    using p by (auto simp: producer_ok_def split: producer.splits if_splits)
  show ?thesis
  proof (cases "consumer s")
    case Looking
    obtain n where n: "?h (ts_head (tsl s)) = Some n"
      using chain_allocated [OF c chain_head [OF c]] by auto
    show ?thesis
    proof (cases xs)
      case Nil
      then have "nd_holder n" using c n by simp
      then show ?thesis using Looking n assms by (simp add: consume_step_def Let_def)
    next
      case (Cons x ys)
      obtain b k d where x: "x = (b, k, d)" by (cases x)
      let ?s = "s\<lparr>consumer := Testing b\<rparr>"
      have "consume_step s = Some ?s" using Looking n Cons x c by (auto simp: consume_step_def Let_def)
      moreover have "ts_inv ?s"
      proof (rule ts_invI [where xs = xs and e = e and pending = pending])
        show "consumer_ok ?s xs e" using Cons x by (simp add: consumer_ok_def)
      qed (use c q produ in simp_all)
      ultimately show ?thesis by blast
    qed
  next
    case (Testing b)
    with co obtain k d ys where x: "xs = (b, k, d) # ys" by (auto simp: consumer_ok_def)
    with c obtain n where n: "?h b = Some n" "nd_key n = k" by auto
    have "ts_inv (s\<lparr>consumer := GotKey b k\<rparr>)"
    proof (rule ts_invI [where xs = xs and e = e and pending = pending])
      show "consumer_ok (s\<lparr>consumer := GotKey b k\<rparr>) xs e" using x by (simp add: consumer_ok_def)
    qed (use c q produ in simp_all)
    then show ?thesis using Testing n by (simp add: consume_step_def Let_def)
  next
    case (GotKey b k)
    with co obtain d ys where x: "xs = (b, k, d) # ys" by (auto simp: consumer_ok_def)
    with c obtain n where n: "?h b = Some n" "nd_data n = d" by auto
    have "ts_inv (s\<lparr>consumer := GotBoth b k d\<rparr>)"
    proof (rule ts_invI [where xs = xs and e = e and pending = pending])
      show "consumer_ok (s\<lparr>consumer := GotBoth b k d\<rparr>) xs e" using x by (simp add: consumer_ok_def)
    qed (use c q produ in simp_all)
    then show ?thesis using GotKey n by (simp add: consume_step_def Let_def)
  next
    case (GotBoth b k d)
    with co obtain ys where x: "xs = (b, k, d) # ys" by (auto simp: consumer_ok_def)
    with c obtain n where n: "?h b = Some n" "chain ?h (nd_next n) ys e" "b \<notin> nodes ys e" by auto
    let ?s = "s\<lparr>tsl := (tsl s)\<lparr>ts_head := nd_next n\<rparr>, consumer := Freeing b, consumed := consumed s @ [(k, d)]\<rparr>"
    have "consume_step s = Some ?s" using GotBoth n by (simp add: consume_step_def Let_def)
    moreover have "ts_inv ?s"
    proof (rule ts_invI [where xs = ys and e = e and pending = pending])
      show "producer_ok ?s ys e pending" using p x
        by (cases "prod s") (simp_all add: producer_ok_def split: if_splits)
      show "consumer_ok ?s ys e" using n x p
        by (auto simp: consumer_ok_def producer_ok_def split: producer.splits)
    qed (use n(2) q x in simp_all)
    ultimately show ?thesis by blast
  next
    case (Freeing b)
    with co have b: "b \<notin> nodes xs e" "?h b \<noteq> None"
      "case prod s of Producing i k d new ct \<Rightarrow> i < 6 \<longrightarrow> b \<noteq> new | Unlocked \<Rightarrow> True"
      by (auto simp: consumer_ok_def)
    let ?s = "s\<lparr>tsl := (tsl s)\<lparr>ts_heap := ?h(b := None)\<rparr>, consumer := Looking\<rparr>"
    have "consume_step s = Some ?s" using Freeing b(2) by (auto simp: consume_step_def Let_def split: option.split)
    moreover have "ts_inv ?s"
    proof (rule ts_invI [where xs = xs and e = e and pending = pending])
      show "chain (ts_heap (tsl ?s)) (ts_head (tsl ?s)) xs e" using chain_other [OF c b(1)] by simp
      show "producer_ok ?s xs e pending" using p b(1,3)
        by (cases "prod s") (simp_all add: producer_ok_def produced_so_far_other split: if_splits)
      show "consumer_ok ?s xs e" by (simp add: consumer_ok_def)
    qed (use q in simp)
    ultimately show ?thesis by blast
  qed
qed

lemma ts_reach_inv: "ts_reach s \<Longrightarrow> ts_inv s"
proof (induction rule: ts_reach.induct)
  case (ts_init a junk)
  show ?case
    by (rule ts_invI [where xs = "[]" and e = a and pending = "[]"])
      (simp_all add: list_init_def producer_ok_def consumer_ok_def)
next
  case (ts_lock s new junk k d)
  show ?case by (rule ts_inv_lock [OF ts_lock.IH ts_lock.hyps(2-4)])
next
  case (ts_produce s s')
  then show ?case using ts_inv_produce [of s] by auto
next
  case (ts_consume s s')
  then show ?case using ts_inv_consume [of s] by auto
qed

section \<open>Properties\<close>

text \<open>
  C26: However producers and the consumer interleave, no statement of \<open>list_produce\<close> or
  \<open>list_consume\<close> touches memory that is not allocated, and the consumer gets the elements in the
  order in which the producers took the mutex, each once: what has been consumed is always a
  prefix of what has been produced.
\<close>

theorem event_list_fifo:
  assumes "ts_reach s"
  shows "produce_step s \<noteq> None \<and> consume_step s \<noteq> None \<and> (\<exists>q. produced s = consumed s @ q)"
proof -
  have i: "ts_inv s" by (rule ts_reach_inv) (rule assms)
  then show ?thesis using ts_inv_produce [OF i] ts_inv_consume [OF i] by (auto simp: ts_inv_def)
qed

lemma ts_reach_start: "ts_reach \<lparr>tsl = list_init (\<lparr>nd_next = 0, nd_key = 0, nd_data = (), nd_holder = False\<rparr>) 1,
    prod = Unlocked, consumer = Looking, produced = [], consumed = []\<rparr>"
  by (rule ts_init) simp

theorem event_list_fifo_witness:
  "consume_step \<lparr>tsl = list_init (\<lparr>nd_next = 0, nd_key = 0, nd_data = (), nd_holder = False\<rparr>) 1,
     prod = Unlocked, consumer = Looking, produced = [], consumed = []\<rparr> \<noteq> None"
  using event_list_fifo [OF ts_reach_start] by blast

text \<open>The undisturbed operations, in terms of the chain.\<close>

lemma produce_all:
  assumes "chain (ts_heap l) (ts_head l) xs (ts_tail l)" "ts_heap l a = None"
  shows "\<exists>l'. list_produce (Some a) junk k d l = Some (0, l') \<and>
    chain (ts_heap l') (ts_head l') (xs @ [(ts_tail l, k, d)]) (ts_tail l') \<and> ts_tail l' = a"
proof -
  let ?e = "ts_tail l" and ?h = "(ts_heap l)(a := Some junk)"
  obtain n where n: "ts_heap l ?e = Some n" "nd_holder n" using chain_end [OF assms(1)] by blast
  have out: "a \<notin> nodes xs ?e" using chain_allocated [OF assms(1), of a] assms(2) by auto
  then have ne: "a \<noteq> ?e" "?e \<noteq> a" by auto
  let ?n = "n\<lparr>nd_key := k, nd_data := d, nd_next := a\<rparr>" and ?m = "junk\<lparr>nd_next := 0, nd_holder := True\<rparr>"
  let ?h1 = "(ts_heap l)(a := Some ?m, ?e := Some ?n)"
  have c: "chain ?h1 (ts_head l) xs ?e"
    by (rule chain_open [OF chain_other [OF assms(1) out]]) (simp add: n)
  have "chain (?h1(?e := Some (?n\<lparr>nd_holder := False\<rparr>))) (ts_head l) (xs @ [(?e, nd_key ?n, nd_data ?n)]) (nd_next ?n)"
    by (rule chain_close [OF c, where n = ?n and m = ?m]) (use ne out in simp_all)
  then have "chain ((ts_heap l)(a := Some ?m, ?e := Some (?n\<lparr>nd_holder := False\<rparr>))) (ts_head l) (xs @ [(?e, k, d)]) a"
    by simp
  moreover have "list_produce (Some a) junk k d l =
      Some (0, l\<lparr>ts_heap := (ts_heap l)(a := Some ?m, ?e := Some (?n\<lparr>nd_holder := False\<rparr>)), ts_tail := a\<rparr>)"
    using n(1) ne by (simp add: list_produce_def upt_rec [of _ 7] produce_stmt_def set_node_def fun_upd_twist)
  ultimately show ?thesis by simp
qed

lemma consume_all:
  assumes "chain (ts_heap l) (ts_head l) xs (ts_tail l)" "length xs < fuel"
  shows "\<exists>l'. custom_event_loop fuel m l =
      Some (concat (map (\<lambda>(b, k, d). case m k of None \<Rightarrow> [] | Some cb \<Rightarrow> [(cb, d)]) xs), l') \<and>
    chain (ts_heap l') (ts_head l') [] (ts_tail l') \<and> ts_tail l' = ts_tail l"
  using assms
proof (induction xs arbitrary: l fuel)
  case Nil
  then obtain n where "ts_heap l (ts_tail l) = Some n" "nd_holder n" by auto
  then show ?case using Nil by (cases fuel) (auto simp: list_consume_def)
next
  case (Cons x xs)
  obtain b k d where x: "x = (b, k, d)" by (cases x)
  obtain f where f: "fuel = Suc f" using Cons.prems(2) by (cases fuel) auto
  from Cons.prems(1) [unfolded x] obtain n where n: "ts_head l = b" "b \<noteq> ts_tail l" "b \<notin> fst ` set xs"
    "ts_heap l b = Some n" "\<not> nd_holder n" "nd_key n = k" "nd_data n = d" "chain (ts_heap l) (nd_next n) xs (ts_tail l)"
    by (rule chain_ConsE)
  let ?l = "l\<lparr>ts_head := nd_next n, ts_heap := (ts_heap l)(b := None)\<rparr>"
  have take: "list_consume l = Some (Some (k, d), ?l)" using n by (simp add: list_consume_def)
  have "chain (ts_heap ?l) (ts_head ?l) xs (ts_tail ?l)" using chain_other [OF n(8)] n(2,3) by simp
  from Cons.IH [OF this, of f] Cons.prems(2) f obtain l' where
    "custom_event_loop f m ?l =
      Some (concat (map (\<lambda>(b, k, d). case m k of None \<Rightarrow> [] | Some cb \<Rightarrow> [(cb, d)]) xs), l')"
    "chain (ts_heap l') (ts_head l') [] (ts_tail l')" "ts_tail l' = ts_tail l" by auto
  then show ?case using take f x by (auto split: option.split)
qed

text \<open>
  A trigger whose node can be allocated succeeds and activates the event loop; the next run of
  \<open>custom_event_cb\<close> calls the listeners of the waiting elements in order, that of the triggered
  event last with its parameter, and leaves the list empty.
\<close>

theorem event_trigger_delivered:
  assumes "chain (ts_heap l) (ts_head l) xs (ts_tail l)" "ts_heap l a = None" "length xs + 2 \<le> fuel"
  shows "\<exists>l1 l2 calls. event_trigger (Some a) junk event d l = Some (0, True, l1) \<and>
    custom_event_loop fuel (event_listen event cb m) l1 = Some (calls @ [(cb, d)], l2) \<and>
    list_consume l2 = Some (None, l2)"
proof -
  let ?m = "event_listen event cb m"
  have m: "?m (strhash event) = Some cb" by (simp add: event_listen_def)
  from produce_all [OF assms(1,2)] obtain l1 where
    l1: "list_produce (Some a) junk (strhash event) d l = Some (0, l1)"
    "chain (ts_heap l1) (ts_head l1) (xs @ [(ts_tail l, strhash event, d)]) (ts_tail l1)" by blast
  have "length (xs @ [(ts_tail l, strhash event, d)]) < fuel" using assms(3) by simp
  from consume_all [OF l1(2) this, of ?m] obtain l2 where l2: "custom_event_loop fuel ?m l1 =
      Some (concat (map (\<lambda>(b, k, d). case ?m k of None \<Rightarrow> [] | Some cb \<Rightarrow> [(cb, d)]) xs) @ [(cb, d)], l2)"
    "chain (ts_heap l2) (ts_head l2) [] (ts_tail l2)" using m by auto
  then have "list_consume l2 = Some (None, l2)" by (auto simp: list_consume_def)
  moreover have "event_trigger (Some a) junk event d l = Some (0, True, l1)" using l1(1) by (simp add: event_trigger_def)
  ultimately show ?thesis using l2(1) by blast
qed

theorem event_trigger_delivered_witness:
  "\<exists>l1 l2 calls. event_trigger (Some 2) \<lparr>nd_next = 0, nd_key = 0, nd_data = (7::int), nd_holder = False\<rparr> ''e'' 5
       (list_init \<lparr>nd_next = 0, nd_key = 0, nd_data = 7, nd_holder = False\<rparr> 1) = Some (0, True, l1) \<and>
     custom_event_loop 2 (event_listen ''e'' ''cb'' (\<lambda>_. None)) l1 = Some (calls @ [(''cb'', 5)], l2)"
proof -
  let ?l = "list_init \<lparr>nd_next = 0, nd_key = 0, nd_data = (7::int), nd_holder = False\<rparr> 1"
  have "chain (ts_heap ?l) (ts_head ?l) [] (ts_tail ?l)" "ts_heap ?l 2 = None"
    by (simp_all add: list_init_def)
  from event_trigger_delivered [OF this, of 2 _ "''e''" 5 "''cb''" "\<lambda>_. None"] show ?thesis by force
qed

end
