(* ===== verification/Connection.thy ===== *)
theory Connection
  imports Event
begin

text \<open>
  The client connections: the nshead protocol of \<open>connection.cpp\<close> (a header that names the length
  of the body, then the body) and the callbacks of \<open>server.cpp\<close> that pass a complete request on
  and go on reading when its answer is done. The header format (\<open>nshead.h\<close>, not under src/) is a
  record of its reader and printer with the laws \<open>nshead_laws\<close>; \<open>malloc\<close> is a parameter that
  gives the new bytes or fails. \<open>None\<close> as a result is a crash; a freed connection is \<open>None\<close> as a
  state.
\<close>

section \<open>The header\<close>

record nshead =
  magic_num :: u32
  head_provider :: string    \<comment> \<open>all 16 bytes of the field\<close>
  head_log_id :: u32
  body_len :: u32

record nshead_format =
  read_head :: "u8 list \<Rightarrow> nshead"
  print_head :: "nshead \<Rightarrow> u8 list"
  head_size :: nat
  NSHEAD_MAGICNUM :: u32

definition nshead_laws :: "nshead_format \<Rightarrow> bool" where
  "nshead_laws F \<longleftrightarrow> 0 < head_size F \<and> head_size F < 2 ^ 16 \<and>
     (\<forall>h. length (head_provider h) = 16 \<longrightarrow> length (print_head F h) = head_size F \<and> read_head F (print_head F h) = h)"

text \<open>What \<open>snprintf(field, 16, "%s", s)\<close> leaves in a field, and the field as 16 bytes.\<close>

definition copy_field :: "string \<Rightarrow> string" where
  "copy_field s = take 15 (c_string s)"

definition pad_field :: "string \<Rightarrow> string" where
  "pad_field s = copy_field s @ replicate (16 - length (copy_field s)) (CHR 0x00)"

section \<open>The connection\<close>

datatype nshead_state = NSHEAD_STATE_IDLE | NSHEAD_STATE_HEAD | NSHEAD_STATE_BODY | NSHEAD_STATE_PROCESSING

text \<open>The functions of \<open>server.cpp\<close> that are registered as callbacks.\<close>

datatype server_cb = error_cb_fun | read_done_cb_fun

type_synonym time_val = "int \<times> int"

record connection =
  ev :: bufev
  readbuf :: "u8 list option"   \<comment> \<open>the allocated bytes\<close>
  readbuf_size :: int
  is_processing :: bool
  has_error :: bool
  reqip :: string
  provider :: string
  log_id :: u32
  connect_cb :: "server_cb option"
  error_cb :: "server_cb option"
  read_done_cb :: "server_cb option"
  write_done_cb :: "server_cb option"
  accept_time :: time_val
  read_begin_time :: time_val
  read_done_time :: time_val
  backend_request_time :: time_val
  backend_reply_time :: time_val
  write_done_time :: time_val
  nstate :: nshead_state
  expected_input_len :: int

text \<open>Products of \<open>int\<close> at 32 bits.\<close>

definition wrap32 :: "int \<Rightarrow> int" where
  "wrap32 i = sint (word_of_int i :: 32 word)"

definition nshead_conn_set_expected_input_len :: "connection \<Rightarrow> int \<Rightarrow> connection" where
  "nshead_conn_set_expected_input_len c sz =
     c\<lparr>expected_input_len := sz, ev := event_set_read_watermark (ev c) sz (wrap32 (sz * 10))\<rparr>"

definition nshead_conn_prepare_read :: "nshead_format \<Rightarrow> connection \<Rightarrow> connection" where
  "nshead_conn_prepare_read F c =
     nshead_conn_set_expected_input_len (c\<lparr>nstate := NSHEAD_STATE_HEAD\<rparr>) (int (head_size F))"

text \<open>The buffer for a body of \<open>len\<close> bytes (which may be negative as an \<open>int\<close>).\<close>

definition ensure_buffer :: "(int \<Rightarrow> u8 list option) \<Rightarrow> int \<Rightarrow> connection \<Rightarrow> connection" where
  "ensure_buffer alloc len c =
     (case readbuf c of
        None \<Rightarrow> c\<lparr>readbuf := alloc len, readbuf_size := len\<rparr>
      | Some b \<Rightarrow> if readbuf_size c < len then c\<lparr>readbuf := alloc len, readbuf_size := len\<rparr> else c)"

definition read_nshead :: "nshead_format \<Rightarrow> (int \<Rightarrow> u8 list option) \<Rightarrow> connection \<Rightarrow> (int option \<times> connection) option" where
  "read_nshead F alloc c =
     do { (len, e, hb) \<leftarrow> event_read (ev c) (Some (replicate (head_size F) 0)) (int (head_size F));
          let c = c\<lparr>ev := e\<rparr>;
          if len < int (head_size F) then Some (Some (- 1), c)
          else let h = read_head F (the hb) in
            if magic_num h \<noteq> NSHEAD_MAGICNUM F then Some (Some (- 1), c)
            else
              let len = sint (body_len h);
                  c = c\<lparr>nstate := NSHEAD_STATE_BODY, provider := copy_field (head_provider h), log_id := head_log_id h\<rparr>;
                  c = nshead_conn_set_expected_input_len c len
              in Some (None, ensure_buffer alloc len c) }"

definition read_body :: "connection \<Rightarrow> (int \<times> connection) option" where
  "read_body c =
     do { (len, e, b) \<leftarrow> event_read (ev c) (readbuf c) (readbuf_size c);
          let c = c\<lparr>ev := e, readbuf := b\<rparr>;
          Some (if len < expected_input_len c then (- 1, c) else (1, c\<lparr>nstate := NSHEAD_STATE_PROCESSING\<rparr>)) }"

text \<open>
  The loop of \<open>nshead_conn_read\<close> ends: reading a header leaves the state HEAD, and everything
  else returns.
\<close>

lemma read_nshead_state:
  "read_nshead F alloc c = Some (None, c') \<Longrightarrow> nstate c' = NSHEAD_STATE_BODY"
  by (auto simp: read_nshead_def bind_eq_Some_conv Let_def ensure_buffer_def
      nshead_conn_set_expected_input_len_def split: if_splits option.splits)

function nshead_conn_read :: "nshead_format \<Rightarrow> (int \<Rightarrow> u8 list option) \<Rightarrow> connection \<Rightarrow> (int \<times> connection) option" where
  "nshead_conn_read F alloc c =
     (if expected_input_len c \<le> event_get_input_len (ev c) then
        if nstate c = NSHEAD_STATE_HEAD then
          (case read_nshead F alloc c of
             None \<Rightarrow> None
           | Some (Some ret, c) \<Rightarrow> Some (ret, c)
           | Some (None, c) \<Rightarrow> nshead_conn_read F alloc c)
        else read_body c
      else Some (0, c))"
  by pat_completeness auto
termination
  by (relation "measure (\<lambda>(F, alloc, c). if nstate c = NSHEAD_STATE_HEAD then 1 else 0)")
    (auto dest: read_nshead_state)

declare nshead_conn_read.simps [simp del]

definition nshead_conn_write :: "nshead_format \<Rightarrow> connection \<Rightarrow> u8 list \<Rightarrow> int \<Rightarrow> connection" where
  "nshead_conn_write F c buffer sz =
     (let h = \<lparr>magic_num = NSHEAD_MAGICNUM F, head_provider = pad_field (provider c), head_log_id = log_id c,
               body_len = word_of_int sz\<rparr> in
      c\<lparr>ev := event_write (event_write (ev c) (print_head F h)) buffer\<rparr>)"

definition connection_new :: connection where
  "connection_new =
     \<lparr>ev = event_new, readbuf = None, readbuf_size = 0, is_processing = False, has_error = False,
      reqip = [], provider = [], log_id = 0, connect_cb = None, error_cb = None, read_done_cb = None,
      write_done_cb = None, accept_time = (0, 0), read_begin_time = (0, 0), read_done_time = (0, 0),
      backend_request_time = (0, 0), backend_reply_time = (0, 0), write_done_time = (0, 0),
      nstate = NSHEAD_STATE_IDLE, expected_input_len = 0\<rparr>"

definition connection_set_cb ::
    "server_cb option \<Rightarrow> server_cb option \<Rightarrow> server_cb option \<Rightarrow> server_cb option \<Rightarrow> connection \<Rightarrow> connection" where
  "connection_set_cb conn err rd wr c =
     c\<lparr>connect_cb := conn, error_cb := err, read_done_cb := rd, write_done_cb := wr\<rparr>"

definition connection_set_processing :: "bool \<Rightarrow> connection \<Rightarrow> connection" where
  "connection_set_processing b c = c\<lparr>is_processing := b\<rparr>"

definition connection_prepare_read :: "nshead_format \<Rightarrow> connection \<Rightarrow> connection" where
  "connection_prepare_read F c = (let c = nshead_conn_prepare_read F c in c\<lparr>ev := event_enable_read (ev c)\<rparr>)"

definition connection_disable_read :: "connection \<Rightarrow> connection" where
  "connection_disable_read c = c\<lparr>ev := event_disable_read (ev c)\<rparr>"

definition connection_write :: "nshead_format \<Rightarrow> u8 list \<Rightarrow> int \<Rightarrow> connection \<Rightarrow> connection" where
  "connection_write F buffer sz c = (if has_error c then c else nshead_conn_write F c buffer sz)"

section \<open>The server's callbacks\<close>

text \<open>What leaves the connection for the rest of the program.\<close>

datatype conn_out = Req_ready connection | Closed

definition server_write :: "nshead_format \<Rightarrow> u8 list \<Rightarrow> int \<Rightarrow> connection \<Rightarrow> connection" where
  "server_write F buffer sz c = connection_write F buffer sz c"

text \<open>\<open>error_cb\<close>: the connection is freed unless its request is being processed.\<close>

definition server_error_cb :: "connection \<Rightarrow> conn_out list \<times> connection option" where
  "server_error_cb c = (if \<not> is_processing c then ([Closed], None) else ([], Some c))"

definition server_read_done_cb :: "nshead_format \<Rightarrow> time_val \<Rightarrow> connection \<Rightarrow> conn_out list \<times> connection option" where
  "server_read_done_cb F now c =
     (let c = connection_set_processing True c; c = connection_disable_read c; c = c\<lparr>read_done_time := now\<rparr> in
      if provider c = ''__MONITOR__'' then ([], Some (server_write F [] 0 c)) else ([Req_ready c], Some c))"

definition call_cb :: "nshead_format \<Rightarrow> time_val \<Rightarrow> server_cb option \<Rightarrow> connection \<Rightarrow> conn_out list \<times> connection option" where
  "call_cb F now cb c =
     (case cb of
        None \<Rightarrow> ([], Some c)
      | Some error_cb_fun \<Rightarrow> server_error_cb c
      | Some read_done_cb_fun \<Rightarrow> server_read_done_cb F now c)"

definition connection_call_error_cb :: "nshead_format \<Rightarrow> time_val \<Rightarrow> connection \<Rightarrow> conn_out list \<times> connection option" where
  "connection_call_error_cb F now c = (let c = c\<lparr>has_error := True\<rparr> in call_cb F now (error_cb c) c)"

definition connection_read_cb ::
    "nshead_format \<Rightarrow> (int \<Rightarrow> u8 list option) \<Rightarrow> time_val \<Rightarrow> connection \<Rightarrow> (conn_out list \<times> connection option) option" where
  "connection_read_cb F alloc now c =
     (let c = (if read_begin_time c = (0, 0) then c\<lparr>read_begin_time := now\<rparr> else c) in
      case nshead_conn_read F alloc c of
        None \<Rightarrow> None
      | Some (ret, c) \<Rightarrow>
          Some (if 0 < ret then call_cb F now (read_done_cb c) c
                else if ret < 0 then connection_call_error_cb F now c
                else ([], Some c)))"

definition connection_write_cb :: "nshead_format \<Rightarrow> time_val \<Rightarrow> connection \<Rightarrow> conn_out list \<times> connection option" where
  "connection_write_cb F now c = call_cb F now (write_done_cb c) c"

datatype bev_event = BevConnected | BevEof | BevError

definition connection_event_cb :: "nshead_format \<Rightarrow> time_val \<Rightarrow> bev_event \<Rightarrow> connection \<Rightarrow> conn_out list \<times> connection option" where
  "connection_event_cb F now what c =
     (case what of
        BevConnected \<Rightarrow> call_cb F now (connect_cb c) c
      | BevEof \<Rightarrow> connection_call_error_cb F now c
      | BevError \<Rightarrow> connection_call_error_cb F now c)"

text \<open>The part of \<open>accept_cb\<close> behind the whitelist, for a client of address \<open>ip\<close>.\<close>

definition accept_connection :: "nshead_format \<Rightarrow> time_val \<Rightarrow> string \<Rightarrow> connection" where
  "accept_connection F now ip =
     (let c = connection_new\<lparr>accept_time := now\<rparr>;
          c = connection_set_cb None (Some error_cb_fun) (Some read_done_cb_fun) None c;
          c = c\<lparr>reqip := take 15 ip\<rparr>
      in connection_prepare_read F c)"

definition server_process_done :: "nshead_format \<Rightarrow> connection \<Rightarrow> conn_out list \<times> connection option" where
  "server_process_done F c =
     (let c = connection_set_processing False c;
          c = c\<lparr>read_begin_time := (0, 0), read_done_time := (0, 0), backend_request_time := (0, 0),
                backend_reply_time := (0, 0), write_done_time := (0, 0)\<rparr> in
      if has_error c then ([Closed], None) else ([], Some (connection_prepare_read F c)))"

section \<open>A connection's life\<close>

text \<open>
  The events of one connection: bytes that arrive (libevent calls the read callback when the low
  watermark is reached), the end or an error of the socket (libevent stops reading), and what the
  request does: it writes its answer and is done.
\<close>

datatype conn_event = Deliver "u8 list" | Bev bev_event | Reply "u8 list" | Done

definition conn_step ::
    "nshead_format \<Rightarrow> (int \<Rightarrow> u8 list option) \<Rightarrow> time_val \<Rightarrow> conn_event \<Rightarrow> connection \<Rightarrow>
     (conn_out list \<times> connection option) option" where
  "conn_step F alloc now x c =
     (case x of
        Deliver bs \<Rightarrow>
          let c = c\<lparr>ev := (ev c)\<lparr>ev_input := ev_input (ev c) @ bs\<rparr>\<rparr> in
          if wm_low (ev c) \<le> event_get_input_len (ev c) then connection_read_cb F alloc now c else Some ([], Some c)
      | Bev what \<Rightarrow>
          Some (connection_event_cb F now what
                  (if what = BevConnected then c else c\<lparr>ev := event_disable_read (ev c)\<rparr>))
      | Reply b \<Rightarrow> Some ([], Some (server_write F b (int (length b)) c))
      | Done \<Rightarrow> Some (server_process_done F c))"

text \<open>
  What may happen: bytes arrive while reading is on and below the high watermark; only a request that
  has been passed on writes and ends, and it ends once.
\<close>

definition conn_allowed :: "conn_event \<Rightarrow> connection \<Rightarrow> bool" where
  "conn_allowed x c \<longleftrightarrow>
     (case x of
        Deliver bs \<Rightarrow> bs \<noteq> [] \<and> may_deliver (ev c) (length bs)
      | Bev what \<Rightarrow> what \<noteq> BevConnected
      | _ \<Rightarrow> is_processing c \<and> provider c \<noteq> ''__MONITOR__'')"

inductive conn_reach :: "nshead_format \<Rightarrow> (int \<Rightarrow> u8 list option) \<Rightarrow> connection \<Rightarrow> bool" for F alloc where
  conn_accepted: "conn_reach F alloc (accept_connection F now ip)"
| conn_stepped: "conn_reach F alloc c \<Longrightarrow> conn_allowed x c \<Longrightarrow>
    conn_step F alloc now x c = Some (out, Some c') \<Longrightarrow> conn_reach F alloc c'"

definition alloc_ok :: "(int \<Rightarrow> u8 list option) \<Rightarrow> bool" where
  "alloc_ok alloc \<longleftrightarrow> (\<forall>n b. alloc n = Some b \<longrightarrow> 0 \<le> n \<and> length b = nat n)"

definition buffer_ok :: "connection \<Rightarrow> bool" where
  "buffer_ok c \<longleftrightarrow> (\<forall>b. readbuf c = Some b \<longrightarrow> readbuf_size c = int (length b))"

text \<open>The invariant between two events.\<close>

definition conn_ok :: "nshead_format \<Rightarrow> connection \<Rightarrow> bool" where
  "conn_ok F c \<longleftrightarrow>
     error_cb c = Some error_cb_fun \<and> read_done_cb c = Some read_done_cb_fun \<and> buffer_ok c \<and>
     nstate c \<noteq> NSHEAD_STATE_IDLE \<and> (is_processing c \<longleftrightarrow> nstate c = NSHEAD_STATE_PROCESSING) \<and>
     (has_error c \<longrightarrow> is_processing c) \<and> (ev_reading (ev c) \<longleftrightarrow> \<not> is_processing c) \<and>
     (\<not> is_processing c \<longrightarrow> wm_low (ev c) = size_of_int (expected_input_len c)) \<and>
     (nstate c = NSHEAD_STATE_HEAD \<longrightarrow> expected_input_len c = int (head_size F)) \<and>
     (nstate c = NSHEAD_STATE_BODY \<longrightarrow> event_get_input_len (ev c) < expected_input_len c)"

lemma ensure_buffer_ok:
  assumes "alloc_ok alloc" "buffer_ok c"
  shows "buffer_ok (ensure_buffer alloc len c)"
  using assms by (auto simp: buffer_ok_def ensure_buffer_def alloc_ok_def split: option.splits)

lemma ensure_buffer_simps [simp]:
  "error_cb (ensure_buffer alloc len c) = error_cb c" "read_done_cb (ensure_buffer alloc len c) = read_done_cb c"
  "nstate (ensure_buffer alloc len c) = nstate c" "is_processing (ensure_buffer alloc len c) = is_processing c"
  "has_error (ensure_buffer alloc len c) = has_error c" "ev (ensure_buffer alloc len c) = ev c"
  "expected_input_len (ensure_buffer alloc len c) = expected_input_len c"
  "provider (ensure_buffer alloc len c) = provider c" "log_id (ensure_buffer alloc len c) = log_id c"
  by (simp_all add: ensure_buffer_def split: option.split)

text \<open>What reading leaves alone.\<close>

definition same_conn :: "connection \<Rightarrow> connection \<Rightarrow> bool" where
  "same_conn c c' \<longleftrightarrow> error_cb c' = error_cb c \<and> read_done_cb c' = read_done_cb c \<and>
     is_processing c' = is_processing c \<and> has_error c' = has_error c \<and> ev_reading (ev c') = ev_reading (ev c) \<and>
     (wm_low (ev c) = size_of_int (expected_input_len c) \<longrightarrow> wm_low (ev c') = size_of_int (expected_input_len c'))"

lemma event_read_reading: "event_read e b sz = Some (n, e', b') \<Longrightarrow> ev_reading e' = ev_reading e \<and> wm_low e' = wm_low e"
  by (auto simp: event_read_def Let_def split: if_splits option.splits)

lemma event_read_length:
  "event_read e (Some b) sz = Some (n, e', b') \<Longrightarrow> \<exists>b''. b' = Some b'' \<and> length b'' = length b"
  by (auto simp: event_read_def Let_def split: if_splits option.splits)

lemma buffer_ok_update [simp]:
  "buffer_ok (c\<lparr>ev := e\<rparr>) = buffer_ok c" "buffer_ok (c\<lparr>nstate := st\<rparr>) = buffer_ok c"
  "buffer_ok (c\<lparr>provider := p\<rparr>) = buffer_ok c" "buffer_ok (c\<lparr>log_id := l\<rparr>) = buffer_ok c"
  "buffer_ok (c\<lparr>expected_input_len := n\<rparr>) = buffer_ok c" "buffer_ok (c\<lparr>read_begin_time := t\<rparr>) = buffer_ok c"
  "buffer_ok (c\<lparr>is_processing := f\<rparr>) = buffer_ok c" "buffer_ok (c\<lparr>has_error := f\<rparr>) = buffer_ok c"
  "buffer_ok (c\<lparr>read_done_time := t\<rparr>) = buffer_ok c"
  by (simp_all add: buffer_ok_def)

lemma set_expected_simps [simp]:
  "buffer_ok (nshead_conn_set_expected_input_len c n) = buffer_ok c"
  "error_cb (nshead_conn_set_expected_input_len c n) = error_cb c"
  "read_done_cb (nshead_conn_set_expected_input_len c n) = read_done_cb c"
  "is_processing (nshead_conn_set_expected_input_len c n) = is_processing c"
  "has_error (nshead_conn_set_expected_input_len c n) = has_error c"
  "nstate (nshead_conn_set_expected_input_len c n) = nstate c"
  "readbuf (nshead_conn_set_expected_input_len c n) = readbuf c"
  "readbuf_size (nshead_conn_set_expected_input_len c n) = readbuf_size c"
  "provider (nshead_conn_set_expected_input_len c n) = provider c"
  "log_id (nshead_conn_set_expected_input_len c n) = log_id c"
  "expected_input_len (nshead_conn_set_expected_input_len c n) = n"
  "ev_reading (ev (nshead_conn_set_expected_input_len c n)) = ev_reading (ev c)"
  "ev_input (ev (nshead_conn_set_expected_input_len c n)) = ev_input (ev c)"
  "wm_low (ev (nshead_conn_set_expected_input_len c n)) = size_of_int n"
  by (simp_all add: nshead_conn_set_expected_input_len_def event_set_read_watermark_def)

text \<open>The connection after a header \<open>h\<close> has been taken from the input.\<close>

definition after_head :: "(int \<Rightarrow> u8 list option) \<Rightarrow> nshead \<Rightarrow> bufev \<Rightarrow> connection \<Rightarrow> connection" where
  "after_head alloc h e c =
     ensure_buffer alloc (sint (body_len h))
       (nshead_conn_set_expected_input_len
          (c\<lparr>ev := e, nstate := NSHEAD_STATE_BODY, provider := copy_field (head_provider h), log_id := head_log_id h\<rparr>)
          (sint (body_len h)))"

lemma read_nshead_eq:
  "read_nshead F alloc c =
     (case event_read (ev c) (Some (replicate (head_size F) 0)) (int (head_size F)) of
        None \<Rightarrow> None
      | Some (len, e, hb) \<Rightarrow>
          if len < int (head_size F) \<or> magic_num (read_head F (the hb)) \<noteq> NSHEAD_MAGICNUM F
          then Some (Some (- 1), c\<lparr>ev := e\<rparr>)
          else Some (None, after_head alloc (read_head F (the hb)) e c))"
  by (simp add: read_nshead_def after_head_def Let_def split: option.split)

lemma same_conn_update:
  "ev_reading e = ev_reading (ev c) \<and> wm_low e = wm_low (ev c) \<Longrightarrow> same_conn c (c\<lparr>ev := e\<rparr>)"
  "ev_reading e = ev_reading (ev c) \<and> wm_low e = wm_low (ev c) \<Longrightarrow> same_conn c (after_head alloc h e c)"
  "ev_reading e = ev_reading (ev c) \<and> wm_low e = wm_low (ev c) \<Longrightarrow> same_conn c (c\<lparr>ev := e, readbuf := b\<rparr>)"
  "ev_reading e = ev_reading (ev c) \<and> wm_low e = wm_low (ev c) \<Longrightarrow> same_conn c (c\<lparr>ev := e, readbuf := b, nstate := st\<rparr>)"
  by (simp_all add: same_conn_def after_head_def)

lemma read_nshead_kept:
  assumes "read_nshead F alloc c = Some (r, c')" "alloc_ok alloc" "buffer_ok c"
  shows "same_conn c c' \<and> buffer_ok c' \<and> (r = None \<and> nstate c' = NSHEAD_STATE_BODY \<or> r = Some (- 1))"
proof -
  obtain len e hb where e: "event_read (ev c) (Some (replicate (head_size F) 0)) (int (head_size F)) = Some (len, e, hb)"
    using assms(1) by (cases "event_read (ev c) (Some (replicate (head_size F) 0)) (int (head_size F))")
      (auto simp: read_nshead_eq)
  have "r = Some (- 1) \<and> c' = c\<lparr>ev := e\<rparr> \<or> r = None \<and> c' = after_head alloc (read_head F (the hb)) e c"
    using assms(1) e by (auto simp: read_nshead_eq split: if_splits)
  then show ?thesis
  proof
    assume "r = Some (- 1) \<and> c' = c\<lparr>ev := e\<rparr>"
    then show ?thesis using same_conn_update(1) [OF event_read_reading [OF e]] assms(3) by simp
  next
    assume r: "r = None \<and> c' = after_head alloc (read_head F (the hb)) e c"
    have "buffer_ok c'" unfolding r [THEN conjunct2] after_head_def
      by (rule ensure_buffer_ok [OF assms(2)]) (simp add: assms(3))
    then show ?thesis using same_conn_update(2) [OF event_read_reading [OF e]] r
      by (simp add: after_head_def)
  qed
qed

lemma read_body_kept:
  assumes "read_body c = Some (r, c')" "buffer_ok c"
  shows "same_conn c c' \<and> buffer_ok c' \<and> (r = 1 \<and> nstate c' = NSHEAD_STATE_PROCESSING \<or> r = -1)"
proof -
  obtain n e b where e: "event_read (ev c) (readbuf c) (readbuf_size c) = Some (n, e, b)"
    using assms(1) by (cases "event_read (ev c) (readbuf c) (readbuf_size c)") (auto simp: read_body_def)
  have b: "buffer_ok (c\<lparr>ev := e, readbuf := b\<rparr>)"
  proof (cases "readbuf c")
    case None
    then have "b = None" using e by (auto simp: event_read_def Let_def split: if_splits)
    then show ?thesis by (simp add: buffer_ok_def)
  next
    case (Some b0)
    from event_read_length [OF e [unfolded Some]] obtain b1 where "b = Some b1" "length b1 = length b0" by blast
    then show ?thesis using assms(2) Some by (simp add: buffer_ok_def)
  qed
  have "r = - 1 \<and> c' = c\<lparr>ev := e, readbuf := b\<rparr> \<or>
      r = 1 \<and> c' = c\<lparr>ev := e, readbuf := b, nstate := NSHEAD_STATE_PROCESSING\<rparr>"
    using assms(1) e by (auto simp: read_body_def Let_def split: if_splits)
  then show ?thesis using b same_conn_update(3,4) [OF event_read_reading [OF e]] by auto
qed

text \<open>
  The loop returns 1 with a complete body, 0 when it has to wait (in the state it was in, or for a
  body), or -1.
\<close>

lemma same_conn_trans: "same_conn a b \<Longrightarrow> same_conn b c \<Longrightarrow> same_conn a c"
  by (simp add: same_conn_def)

lemma nshead_conn_read_kept:
  assumes "nshead_conn_read F alloc c = Some (r, c')" "alloc_ok alloc" "buffer_ok c"
  shows "same_conn c c' \<and> buffer_ok c' \<and>
    (r = 1 \<and> nstate c' = NSHEAD_STATE_PROCESSING \<or> r = - 1 \<or>
     r = 0 \<and> (c' = c \<or> nstate c' = NSHEAD_STATE_BODY) \<and> event_get_input_len (ev c') < expected_input_len c')"
  using assms
proof (induction F alloc c rule: nshead_conn_read.induct)
  case (1 F alloc c)
  show ?case
  proof (cases "expected_input_len c \<le> event_get_input_len (ev c)")
    case False
    then show ?thesis using 1(2,4) by (simp add: nshead_conn_read.simps [of F alloc c] same_conn_def)
  next
    case enough: True
    show ?thesis
    proof (cases "nstate c = NSHEAD_STATE_HEAD")
      case False
      then have "read_body c = Some (r, c')" using 1(2) enough by (simp add: nshead_conn_read.simps [of F alloc c])
      from read_body_kept [OF this 1(4)] show ?thesis by auto
    next
      case True
      obtain q c1 where q: "read_nshead F alloc c = Some (q, c1)"
        using 1(2) enough True by (cases "read_nshead F alloc c") (auto simp: nshead_conn_read.simps [of F alloc c])
      note k = read_nshead_kept [OF q 1(3,4)]
      show ?thesis
      proof (cases q)
        case (Some x)
        then have "r = x" "c' = c1" using 1(2) enough True q by (simp_all add: nshead_conn_read.simps [of F alloc c])
        then show ?thesis using k Some by simp
      next
        case None
        then have rest: "nshead_conn_read F alloc c1 = Some (r, c')"
          using 1(2) enough True q by (simp add: nshead_conn_read.simps [of F alloc c])
        from 1(1) [OF enough True q refl None rest 1(3)] k None show ?thesis
          by (auto dest: same_conn_trans)
      qed
    qed
  qed
qed

lemma event_bits [simp]:
  "ev_input (event_disable_read e) = ev_input e" "ev_input (event_enable_read e) = ev_input e"
  "ev_reading (event_disable_read e) = False" "ev_reading (event_enable_read e)"
  "wm_low (event_disable_read e) = wm_low e" "wm_low (event_enable_read e) = wm_low e"
  "ev_input (event_write e b) = ev_input e" "ev_reading (event_write e b) = ev_reading e"
  "wm_low (event_write e b) = wm_low e"
  by (simp_all add: event_disable_read_def event_enable_read_def event_write_def)

lemma size_of_int_nat [simp]: "size_of_int (int n) = int n"
  by (simp add: size_of_int_def)

lemma conn_ok_prepared:
  assumes "error_cb c = Some error_cb_fun" "read_done_cb c = Some read_done_cb_fun" "buffer_ok c"
    and "\<not> is_processing c" "\<not> has_error c"
  shows "conn_ok F (connection_prepare_read F c)"
  using assms by (simp add: conn_ok_def connection_prepare_read_def nshead_conn_prepare_read_def Let_def)

lemma conn_ok_accepted: "conn_ok F (accept_connection F now ip)"
  unfolding accept_connection_def Let_def
  by (rule conn_ok_prepared) (simp_all add: connection_set_cb_def connection_new_def buffer_ok_def)

lemma conn_ok_written:
  assumes "conn_ok F c" "is_processing c"
  shows "conn_ok F (server_write F b n c) \<and> is_processing (server_write F b n c)"
proof -
  have "nstate c = NSHEAD_STATE_PROCESSING" using assms by (simp add: conn_ok_def)
  then show ?thesis using assms
    by (simp add: conn_ok_def server_write_def connection_write_def nshead_conn_write_def Let_def)
qed

text \<open>What a callback of the connection may do, given that no request is being processed before.\<close>

definition read_outcome :: "nshead_format \<Rightarrow> conn_out list \<Rightarrow> connection option \<Rightarrow> bool" where
  "read_outcome F out c' \<longleftrightarrow>
     (out = [] \<and> (\<exists>d. c' = Some d \<and> conn_ok F d) \<or> out = [Closed] \<and> c' = None \<or>
      (\<exists>r. out = [Req_ready r] \<and> c' = Some r \<and> conn_ok F r \<and> is_processing r \<and> provider r \<noteq> ''__MONITOR__''))"

lemma read_done_outcome:
  assumes "error_cb c = Some error_cb_fun" "read_done_cb c = Some read_done_cb_fun" "buffer_ok c"
    and "nstate c = NSHEAD_STATE_PROCESSING"
  shows "read_outcome F (fst (server_read_done_cb F now c)) (snd (server_read_done_cb F now c))"
proof -
  let ?c = "(connection_disable_read (connection_set_processing True c))\<lparr>read_done_time := now\<rparr>"
  have k: "conn_ok F ?c" "is_processing ?c"
    using assms by (simp_all add: conn_ok_def connection_disable_read_def connection_set_processing_def)
  show ?thesis
    using k conn_ok_written [OF k, of "[]" 0]
    by (auto simp: server_read_done_cb_def Let_def read_outcome_def)
qed

lemma read_cb_outcome:
  assumes "connection_read_cb F alloc now c = Some (out, c')" "alloc_ok alloc"
    and "error_cb c = Some error_cb_fun" "read_done_cb c = Some read_done_cb_fun" "buffer_ok c"
    and "\<not> is_processing c" "\<not> has_error c" "ev_reading (ev c)"
    and "nstate c = NSHEAD_STATE_HEAD \<or> nstate c = NSHEAD_STATE_BODY"
    and "nstate c = NSHEAD_STATE_HEAD \<Longrightarrow> expected_input_len c = int (head_size F)"
    and "wm_low (ev c) = size_of_int (expected_input_len c)"
  shows "read_outcome F out c'"
proof -
  let ?c = "if read_begin_time c = (0, 0) then c\<lparr>read_begin_time := now\<rparr> else c"
  obtain r d where r: "nshead_conn_read F alloc ?c = Some (r, d)"
    and out: "(out, c') = (if 0 < r then call_cb F now (read_done_cb d) d
        else if r < 0 then connection_call_error_cb F now d else ([], Some d))"
    using assms(1) by (cases "nshead_conn_read F alloc ?c") (auto simp: connection_read_cb_def Let_def)
  have b: "buffer_ok ?c" using assms(5) by simp
  have c: "error_cb ?c = error_cb c" "read_done_cb ?c = read_done_cb c" "is_processing ?c = is_processing c"
    "has_error ?c = has_error c" "ev ?c = ev c" "nstate ?c = nstate c" "expected_input_len ?c = expected_input_len c"
    by simp_all
  from nshead_conn_read_kept [OF r assms(2) b] have k: "same_conn ?c d" "buffer_ok d"
    "r = 1 \<and> nstate d = NSHEAD_STATE_PROCESSING \<or> r = - 1 \<or>
     r = 0 \<and> (d = ?c \<or> nstate d = NSHEAD_STATE_BODY) \<and> event_get_input_len (ev d) < expected_input_len d" by auto
  have same: "error_cb d = Some error_cb_fun" "read_done_cb d = Some read_done_cb_fun" "\<not> is_processing d"
    "\<not> has_error d" "ev_reading (ev d)" "wm_low (ev d) = size_of_int (expected_input_len d)"
    using k(1) assms(3-8,11) by (simp_all add: same_conn_def)
  from k(3) consider "r = 1" "nstate d = NSHEAD_STATE_PROCESSING" | "r = - 1"
    | "r = 0" "d = ?c \<or> nstate d = NSHEAD_STATE_BODY" "event_get_input_len (ev d) < expected_input_len d" by auto
  then show ?thesis
  proof cases
    case 1
    then have "(out, c') = server_read_done_cb F now d" using out same by (simp add: call_cb_def)
    then show ?thesis using read_done_outcome [OF same(1,2) k(2) 1(2), of F now] by (metis fst_conv snd_conv)
  next
    case 2
    then show ?thesis using out same
      by (simp add: connection_call_error_cb_def call_cb_def server_error_cb_def read_outcome_def)
  next
    case 3
    have "nstate d = NSHEAD_STATE_HEAD \<or> nstate d = NSHEAD_STATE_BODY" using 3(2) assms(9) c(6) by auto
    moreover have "nstate d = NSHEAD_STATE_HEAD \<longrightarrow> expected_input_len d = int (head_size F)"
      using 3(2) assms(10) c by auto
    ultimately have "conn_ok F d" using same k(2) 3(3) by (auto simp: conn_ok_def)
    then show ?thesis using out 3(1) by (simp add: read_outcome_def)
  qed
qed

text \<open>What a step may do while a request is being processed, and otherwise.\<close>

lemma process_done_outcome:
  assumes "conn_ok F c"
  shows "server_process_done F c = ([Closed], None) \<and> has_error c \<or>
    (\<exists>d. server_process_done F c = ([], Some d) \<and> conn_ok F d \<and> \<not> is_processing d) \<and> \<not> has_error c"
proof (cases "has_error c")
  case True
  then show ?thesis by (simp add: server_process_done_def connection_set_processing_def)
next
  case False
  let ?c = "(connection_set_processing False c)\<lparr>read_begin_time := (0, 0), read_done_time := (0, 0),
    backend_request_time := (0, 0), backend_reply_time := (0, 0), write_done_time := (0, 0)\<rparr>"
  have "server_process_done F c = ([], Some (connection_prepare_read F ?c))"
    using False by (simp add: server_process_done_def connection_set_processing_def)
  moreover have "conn_ok F (connection_prepare_read F ?c)"
    by (rule conn_ok_prepared) (use assms False in
      \<open>simp_all add: conn_ok_def connection_set_processing_def buffer_ok_def\<close>)
  moreover have "\<not> is_processing (connection_prepare_read F ?c)"
    by (simp add: connection_prepare_read_def nshead_conn_prepare_read_def connection_set_processing_def Let_def)
  ultimately show ?thesis using False by blast
qed

lemma conn_step_processing:
  assumes "conn_ok F c" "is_processing c" "conn_allowed x c" "conn_step F alloc now x c = Some (out, c')" "x \<noteq> Done"
  shows "\<exists>d. c' = Some d \<and> conn_ok F d \<and> is_processing d \<and> out = []"
proof (cases x)
  case (Deliver bs)
  then show ?thesis using assms(1,2,3) by (simp add: conn_allowed_def may_deliver_def conn_ok_def)
next
  case (Bev w)
  then have w: "w \<noteq> BevConnected" using assms(3) by (simp add: conn_allowed_def)
  let ?d = "c\<lparr>ev := event_disable_read (ev c), has_error := True\<rparr>"
  have "error_cb c = Some error_cb_fun" using assms(1) by (simp add: conn_ok_def)
  then have "out = [] \<and> c' = Some ?d"
    using assms(2,4) Bev w
    by (cases w) (simp_all add: conn_step_def connection_event_cb_def connection_call_error_cb_def call_cb_def
        server_error_cb_def)
  moreover have "conn_ok F ?d" using assms(1,2) by (simp add: conn_ok_def)
  ultimately show ?thesis using assms(2) by simp
next
  case (Reply b)
  then have "out = []" "c' = Some (server_write F b (int (length b)) c)" using assms(4) by (simp_all add: conn_step_def)
  then show ?thesis using conn_ok_written [OF assms(1,2)] by blast
next
  case Done
  then show ?thesis using assms(5) by simp
qed

lemma deliver_outcome:
  assumes "conn_ok F c" "\<not> is_processing c" "conn_step F alloc now (Deliver bs) c = Some (out, c')" "alloc_ok alloc"
  shows "read_outcome F out c'"
proof -
  let ?c = "c\<lparr>ev := (ev c)\<lparr>ev_input := ev_input (ev c) @ bs\<rparr>\<rparr>"
  have st: "nstate ?c = NSHEAD_STATE_HEAD \<or> nstate ?c = NSHEAD_STATE_BODY"
    using assms(1,2) by (cases "nstate c") (simp_all add: conn_ok_def)
  show ?thesis
  proof (cases "wm_low (ev ?c) \<le> event_get_input_len (ev ?c)")
    case True
    then have "connection_read_cb F alloc now ?c = Some (out, c')" using assms(3) by (simp add: conn_step_def Let_def)
    from read_cb_outcome [OF this assms(4) _ _ _ _ _ _ st] show ?thesis
      using assms(1,2) by (simp add: conn_ok_def)
  next
    case False
    then have o: "out = []" "c' = Some ?c" using assms(3) by (simp_all add: conn_step_def Let_def)
    have "nstate c = NSHEAD_STATE_BODY \<Longrightarrow> event_get_input_len (ev ?c) < expected_input_len ?c"
      using False assms(1,2) by (simp add: conn_ok_def size_of_int_def event_get_input_len_def split: if_splits)
    then have "conn_ok F ?c" using assms(1) by (auto simp: conn_ok_def)
    then show ?thesis using o by (simp add: read_outcome_def)
  qed
qed

lemma conn_step_reading:
  assumes "conn_ok F c" "\<not> is_processing c" "conn_allowed x c" "conn_step F alloc now x c = Some (out, c')"
    and "alloc_ok alloc"
  shows "read_outcome F out c'"
proof (cases x)
  case (Deliver bs)
  show ?thesis by (rule deliver_outcome [OF assms(1,2) assms(4) [unfolded Deliver] assms(5)])
next
  case (Bev w)
  then have w: "w \<noteq> BevConnected" using assms(3) by (simp add: conn_allowed_def)
  have "error_cb c = Some error_cb_fun" using assms(1) by (simp add: conn_ok_def)
  then have "out = [Closed] \<and> c' = None"
    using assms(2,4) Bev w
    by (cases w) (simp_all add: conn_step_def connection_event_cb_def connection_call_error_cb_def call_cb_def
        server_error_cb_def)
  then show ?thesis by (simp add: read_outcome_def)
next
  case (Reply b)
  then show ?thesis using assms(2,3) by (simp add: conn_allowed_def)
next
  case Done
  then show ?thesis using assms(2,3) by (simp add: conn_allowed_def)
qed

lemma read_outcome_ok: "read_outcome F out (Some d) \<Longrightarrow> conn_ok F d"
  by (auto simp: read_outcome_def)

lemma conn_reach_ok:
  assumes "conn_reach F alloc c" "alloc_ok alloc"
  shows "conn_ok F c"
  using assms(1)
proof induction
  case (conn_accepted now ip)
  show ?case by (rule conn_ok_accepted)
next
  case (conn_stepped c x now out c')
  show ?case
  proof (cases "is_processing c")
    case False
    show ?thesis
      by (rule read_outcome_ok, rule conn_step_reading [OF conn_stepped.IH False conn_stepped.hyps(2,3) assms(2)])
  next
    case True
    show ?thesis
    proof (cases "x = Done")
      case True
      then show ?thesis using conn_stepped.hyps(3) process_done_outcome [OF conn_stepped.IH]
        by (auto simp: conn_step_def)
    next
      case False
      from conn_step_processing [OF conn_stepped.IH True conn_stepped.hyps(2,3) False] show ?thesis by auto
    qed
  qed
qed

text \<open>
  C25: A connection serves one request at a time and lives as long as its request: a step passes a
  request on only when none is being processed, and then the connection is alive with that request
  being processed; while it is, nothing but the end of the request frees the connection (the end or
  an error of the socket is only remembered); and the connection is freed exactly when its closing
  is reported, after the request if there was an error.
\<close>

theorem connection_outlives_request:
  assumes "conn_reach F alloc c" "alloc_ok alloc" "conn_allowed x c"
    and "conn_step F alloc now x c = Some (out, c')"
  shows "(c' = None \<longleftrightarrow> Closed \<in> set out) \<and> length out \<le> 1 \<and>
    (is_processing c \<longrightarrow> (c' = None \<longleftrightarrow> x = Done \<and> has_error c)) \<and>
    (Req_ready r \<in> set out \<longrightarrow> \<not> is_processing c \<and> c' = Some r \<and> is_processing r)"
proof -
  note ok = conn_reach_ok [OF assms(1,2)]
  show ?thesis
  proof (cases "is_processing c")
    case False
    from conn_step_reading [OF ok False assms(3,4,2)] False show ?thesis by (auto simp: read_outcome_def)
  next
    case True
    show ?thesis
    proof (cases "x = Done")
      case x: True
      from process_done_outcome [OF ok] show ?thesis using x True assms(4) by (auto simp: conn_step_def)
    next
      case False
      from conn_step_processing [OF ok True assms(3,4) False] False show ?thesis by auto
    qed
  qed
qed

section \<open>Framing\<close>

lemma event_read_exact:
  assumes "ev_input e = xs @ ys" "length b = length xs"
  shows "event_read e (Some b) (int (length xs)) = Some (int (length xs), e\<lparr>ev_input := ys\<rparr>, Some xs)"
  using assms by (simp add: event_read_within Let_def)

lemma read_nshead_header:
  assumes "ev_input (ev c) = print_head F h @ rest" "nshead_laws F" "length (head_provider h) = 16"
    and "magic_num h = NSHEAD_MAGICNUM F"
  shows "read_nshead F alloc c = Some (None, after_head alloc h ((ev c)\<lparr>ev_input := rest\<rparr>) c)"
proof -
  have l: "length (print_head F h) = head_size F" "read_head F (print_head F h) = h"
    using assms(2,3) by (simp_all add: nshead_laws_def)
  then have "event_read (ev c) (Some (replicate (head_size F) 0)) (int (head_size F)) =
      Some (int (head_size F), (ev c)\<lparr>ev_input := rest\<rparr>, Some (print_head F h))"
    using event_read_exact [OF assms(1), of "replicate (head_size F) 0"] by simp
  then show ?thesis using l assms(4) by (simp add: read_nshead_eq)
qed

lemma nshead_conn_read_head:
  assumes "ev_input (ev c) = print_head F h @ rest" "nshead_laws F" "length (head_provider h) = 16"
    and "magic_num h = NSHEAD_MAGICNUM F" "nstate c = NSHEAD_STATE_HEAD" "expected_input_len c = int (head_size F)"
  shows "nshead_conn_read F alloc c = nshead_conn_read F alloc (after_head alloc h ((ev c)\<lparr>ev_input := rest\<rparr>) c)"
proof -
  have "length (print_head F h) = head_size F" using assms(2,3) by (simp add: nshead_laws_def)
  then have "expected_input_len c \<le> event_get_input_len (ev c)"
    using assms(1,6) by (simp add: event_get_input_len_def)
  then show ?thesis using assms(5) read_nshead_header [OF assms(1-4), of alloc]
    by (simp add: nshead_conn_read.simps [of F alloc c])
qed

lemma sint_body_len:
  assumes "unat w < 2 ^ 31"
  shows "sint (w :: u32) = int (unat w)"
proof -
  have u: "uint w = int (unat w)" by simp
  have "signed_take_bit 31 (int (unat w)) = int (unat w)"
  proof (rule signed_take_bit_int_eq_self)
    show "- (2 ^ 31) \<le> int (unat w)" by (rule order_trans [of _ 0]) simp_all
    have "int (unat w) < int (2 ^ 31)" using assms by (simp only: of_nat_less_iff)
    then show "int (unat w) < 2 ^ 31" by (simp only: of_nat_power of_nat_numeral)
  qed
  then show ?thesis by (simp only: sint_uint u len_num1 len_bit0) simp
qed

text \<open>A body that is there in full is read; what comes behind it stays only up to the buffer's size.\<close>

lemma nshead_conn_read_body:
  assumes "nstate c = NSHEAD_STATE_BODY" "expected_input_len c = int (length body)"
    and "ev_input (ev c) = body @ extra" "readbuf c = Some b" "readbuf_size c = int (length b)" "length body \<le> length b"
  shows "\<exists>c' b'. nshead_conn_read F alloc c = Some (1, c') \<and> nstate c' = NSHEAD_STATE_PROCESSING \<and>
    readbuf c' = Some b' \<and> take (length body) b' = body \<and> provider c' = provider c \<and> log_id c' = log_id c \<and>
    ev_input (ev c') = drop (length b - length body) extra"
proof -
  let ?n = "min (length (body @ extra)) (length b)"
  let ?b = "take ?n (body @ extra) @ drop ?n b"
  have r: "event_read (ev c) (readbuf c) (readbuf_size c) =
      Some (int ?n, (ev c)\<lparr>ev_input := drop ?n (body @ extra)\<rparr>, Some ?b)"
    using event_read_within [of "int (length b)" b "ev c"] assms(3-5) by (simp add: Let_def)
  have n: "length body \<le> ?n" using assms(6) by simp
  have "nshead_conn_read F alloc c = read_body c"
    using assms(1-3) by (simp add: nshead_conn_read.simps [of F alloc c] event_get_input_len_def)
  moreover have "read_body c = Some (1, c\<lparr>ev := (ev c)\<lparr>ev_input := drop ?n (body @ extra)\<rparr>, readbuf := Some ?b,
      nstate := NSHEAD_STATE_PROCESSING\<rparr>)"
    using r n assms(2) by (simp add: read_body_def Let_def)
  moreover have "take (length body) ?b = body" using n by simp
  moreover have "drop ?n (body @ extra) = drop (length b - length body) extra"
    using assms(6) by (simp add: min_def)
  ultimately show ?thesis by auto
qed

text \<open>The size of the buffer a body of \<open>n\<close> bytes is read into.\<close>

definition buffer_cap :: "connection \<Rightarrow> nat \<Rightarrow> nat" where
  "buffer_cap c n = (case readbuf c of None \<Rightarrow> n | Some b \<Rightarrow> max (length b) n)"

lemma after_head_fields:
  assumes "buffer_ok c" "alloc_ok alloc" "alloc (int n) \<noteq> None" "unat (body_len h) = n" "n < 2 ^ 31"
  shows "nstate (after_head alloc h e c) = NSHEAD_STATE_BODY" "expected_input_len (after_head alloc h e c) = int n"
    "ev_input (ev (after_head alloc h e c)) = ev_input e"
    "provider (after_head alloc h e c) = copy_field (head_provider h)" "log_id (after_head alloc h e c) = head_log_id h"
    "\<exists>b. readbuf (after_head alloc h e c) = Some b \<and> readbuf_size (after_head alloc h e c) = int (length b) \<and>
       length b = buffer_cap c n"
proof -
  have s: "sint (body_len h) = int n"
    unfolding assms(4) [symmetric] by (rule sint_body_len) (use assms(4,5) in simp)
  show "\<exists>b. readbuf (after_head alloc h e c) = Some b \<and> readbuf_size (after_head alloc h e c) = int (length b) \<and>
       length b = buffer_cap c n"
  proof (cases "readbuf c")
    case None
    then show ?thesis using assms(2,3) s
      by (auto simp: after_head_def ensure_buffer_def buffer_cap_def alloc_ok_def)
  next
    case (Some b)
    then show ?thesis using assms(1-3) s
      by (auto simp: after_head_def ensure_buffer_def buffer_cap_def alloc_ok_def buffer_ok_def)
  qed
next
  have "sint (body_len h) = int n"
    unfolding assms(4) [symmetric] by (rule sint_body_len) (use assms(4,5) in simp)
  then show "expected_input_len (after_head alloc h e c) = int n" by (simp add: after_head_def)
qed (simp_all add: after_head_def)

lemma buffer_cap_ge: "n \<le> buffer_cap c n"
  by (simp add: buffer_cap_def split: option.split)

text \<open>
  A complete request in the input is read as it was sent: the buffer begins with the body, and
  the provider and the log id are those of the header. Of the bytes behind it (a client that does
  not wait for the answer) as many are taken, too, and lost for the next request, as the buffer is
  larger than the body; nothing is lost when the buffer is new or not larger.
\<close>

theorem nshead_request_read:
  assumes "ev_input (ev c) = print_head F h @ body @ extra" "nshead_laws F" "length (head_provider h) = 16"
    and "magic_num h = NSHEAD_MAGICNUM F" "nstate c = NSHEAD_STATE_HEAD" "expected_input_len c = int (head_size F)"
    and "buffer_ok c" "alloc_ok alloc" "alloc (int (length body)) \<noteq> None"
    and "unat (body_len h) = length body" "length body < 2 ^ 31"
  shows "\<exists>c' b. nshead_conn_read F alloc c = Some (1, c') \<and> nstate c' = NSHEAD_STATE_PROCESSING \<and>
    readbuf c' = Some b \<and> take (length body) b = body \<and>
    provider c' = copy_field (head_provider h) \<and> log_id c' = head_log_id h \<and>
    ev_input (ev c') = drop (buffer_cap c (length body) - length body) extra"
proof -
  let ?d = "after_head alloc h ((ev c)\<lparr>ev_input := body @ extra\<rparr>) c"
  note f = after_head_fields [OF assms(7-11), of "(ev c)\<lparr>ev_input := body @ extra\<rparr>"]
  from f(6) obtain b where b: "readbuf ?d = Some b" "readbuf_size ?d = int (length b)"
    "length b = buffer_cap c (length body)" by blast
  have i: "ev_input (ev ?d) = body @ extra" using f(3) by simp
  have l: "length body \<le> length b" using b(3) buffer_cap_ge by simp
  from nshead_conn_read_body [OF f(1,2) i b(1,2) l, of F alloc] f(4,5)
    nshead_conn_read_head [OF assms(1-6), of alloc] b(3)
  show ?thesis by auto
qed

section \<open>A request in pieces\<close>

fun conn_feed ::
    "nshead_format \<Rightarrow> (int \<Rightarrow> u8 list option) \<Rightarrow> time_val \<Rightarrow> u8 list list \<Rightarrow> connection \<Rightarrow>
     (conn_out list \<times> connection option) option" where
  "conn_feed F alloc now [] c = Some ([], Some c)"
| "conn_feed F alloc now (bs # bss) c =
     (case conn_step F alloc now (Deliver bs) c of
        None \<Rightarrow> None
      | Some (out, None) \<Rightarrow> Some (out, None)
      | Some (out, Some c) \<Rightarrow> map_option (\<lambda>(out', c'). (out @ out', c')) (conn_feed F alloc now bss c))"

definition waiting :: "nshead_format \<Rightarrow> nshead \<Rightarrow> u8 list \<Rightarrow> connection \<Rightarrow> u8 list \<Rightarrow> bool" where
  "waiting F h body c p \<longleftrightarrow> conn_ok F c \<and> \<not> is_processing c \<and>
     (nstate c = NSHEAD_STATE_HEAD \<and> ev_input (ev c) = p \<and> length p < head_size F \<or>
      nstate c = NSHEAD_STATE_BODY \<and> p = print_head F h @ ev_input (ev c) \<and> expected_input_len c = int (length body) \<and>
      provider c = copy_field (head_provider h) \<and> log_id c = head_log_id h \<and>
      (\<exists>b. readbuf c = Some b \<and> readbuf_size c = int (length b) \<and> length body \<le> length b))"

definition request_is :: "nshead \<Rightarrow> u8 list \<Rightarrow> connection \<Rightarrow> bool" where
  "request_is h body r \<longleftrightarrow> (\<exists>b. readbuf r = Some b \<and> take (length body) b = body) \<and>
     provider r = copy_field (head_provider h) \<and> log_id r = head_log_id h"

lemma read_done_passes:
  assumes "provider c \<noteq> ''__MONITOR__''" "request_is h body c"
  shows "\<exists>r. server_read_done_cb F now c = ([Req_ready r], Some r) \<and> request_is h body r"
  using assms
  by (simp add: server_read_done_cb_def Let_def connection_set_processing_def connection_disable_read_def request_is_def)

lemma read_cb_passes:
  assumes "nshead_conn_read F alloc (if read_begin_time c = (0, 0) then c\<lparr>read_begin_time := now\<rparr> else c) = Some (1, d)"
    and "read_done_cb d = Some read_done_cb_fun" "provider d \<noteq> ''__MONITOR__''" "request_is h body d"
  shows "\<exists>r. connection_read_cb F alloc now c = Some ([Req_ready r], Some r) \<and> request_is h body r"
  using assms(1,2) read_done_passes [OF assms(3,4), of F now] by (auto simp: connection_read_cb_def Let_def call_cb_def)

lemma read_cb_waits:
  assumes "nshead_conn_read F alloc (if read_begin_time c = (0, 0) then c\<lparr>read_begin_time := now\<rparr> else c) = Some (0, d)"
  shows "connection_read_cb F alloc now c = Some ([], Some d)"
  using assms by (auto simp: connection_read_cb_def Let_def)

text \<open>A message in two parts: both behind the header, or the header not complete.\<close>

lemma append_eq_split:
  assumes "u @ v = xs @ ys" "length xs \<le> length u"
  shows "\<exists>w. u = xs @ w \<and> w @ v = ys"
  using assms by (auto simp: append_eq_append_conv2)

lemma waiting_step:
  assumes w: "waiting F h body c p" "p @ bs @ q = print_head F h @ body"
    and laws: "nshead_laws F" "length (head_provider h) = 16" "magic_num h = NSHEAD_MAGICNUM F"
    and mem: "alloc_ok alloc" "alloc (int (length body)) \<noteq> None"
    and len: "unat (body_len h) = length body" "length body < 2 ^ 31"
    and user: "copy_field (head_provider h) \<noteq> ''__MONITOR__''"
  shows "(q \<noteq> [] \<longrightarrow>
      (\<exists>c'. conn_step F alloc now (Deliver bs) c = Some ([], Some c') \<and> waiting F h body c' (p @ bs))) \<and>
    (q = [] \<longrightarrow>
      (\<exists>r. conn_step F alloc now (Deliver bs) c = Some ([Req_ready r], Some r) \<and> request_is h body r))"
proof -
  let ?c = "c\<lparr>ev := (ev c)\<lparr>ev_input := ev_input (ev c) @ bs\<rparr>\<rparr>"
  define d where "d = (if read_begin_time ?c = (0, 0) then ?c\<lparr>read_begin_time := now\<rparr> else ?c)"
  have hl: "length (print_head F h) = head_size F" using laws by (simp add: nshead_laws_def)
  have ok: "conn_ok F c" "\<not> is_processing c" using w(1) by (simp_all add: waiting_def)
  have step: "conn_step F alloc now (Deliver bs) c =
      (if wm_low (ev c) \<le> int (length (ev_input (ev c) @ bs)) then connection_read_cb F alloc now ?c else Some ([], Some ?c))"
    by (simp add: conn_step_def event_get_input_len_def Let_def)
  have wm: "wm_low (ev c) = size_of_int (expected_input_len c)" using ok by (simp add: conn_ok_def)
  have d_fields: "ev d = ev ?c" "nstate d = nstate c" "expected_input_len d = expected_input_len c" "buffer_ok d"
    "readbuf d = readbuf c" "readbuf_size d = readbuf_size c" "provider d = provider c" "log_id d = log_id c" "read_done_cb d = read_done_cb c"
    using ok(1) by (simp_all add: d_def conn_ok_def)
  have go: "waiting F h body e (p @ bs)"
    if "conn_step F alloc now (Deliver bs) c = Some ([], Some e)"
      "nstate e = NSHEAD_STATE_HEAD \<and> ev_input (ev e) = p @ bs \<and> length (p @ bs) < head_size F \<or>
       nstate e = NSHEAD_STATE_BODY \<and> p @ bs = print_head F h @ ev_input (ev e) \<and>
       expected_input_len e = int (length body) \<and> provider e = copy_field (head_provider h) \<and> log_id e = head_log_id h \<and>
       (\<exists>b. readbuf e = Some b \<and> readbuf_size e = int (length b) \<and> length body \<le> length b)" for e
  proof -
    from deliver_outcome [OF ok that(1) mem(1)] have "conn_ok F e" by (rule read_outcome_ok)
    moreover from this that(2) have "\<not> is_processing e" by (auto simp: conn_ok_def)
    ultimately show ?thesis using that(2) by (simp add: waiting_def)
  qed
  have fin: "\<exists>r. conn_step F alloc now (Deliver bs) c = Some ([Req_ready r], Some r) \<and> request_is h body r"
    if "wm_low (ev c) \<le> int (length (ev_input (ev c) @ bs))" "nshead_conn_read F alloc d = Some (1, e)"
      "request_is h body e" for e
  proof -
    have "same_conn d e" using nshead_conn_read_kept [OF that(2) mem(1) d_fields(4)] by blast
    then have "read_done_cb e = Some read_done_cb_fun" using ok(1) d_fields(9) by (simp add: same_conn_def conn_ok_def)
    from read_cb_passes [OF that(2) [unfolded d_def] this _ that(3)] that(3) user show ?thesis
      using step that(1) by (simp add: request_is_def)
  qed
  show ?thesis
  proof (cases "nstate c = NSHEAD_STATE_HEAD")
    case head: True
    then have p: "ev_input (ev c) = p" "expected_input_len c = int (head_size F)"
      using w(1) ok(1) by (simp_all add: waiting_def conn_ok_def)
    show ?thesis
    proof (cases "length (p @ bs) < head_size F")
      case True
      then have "q \<noteq> []" using w(2) hl by (metis append_Nil2 length_append not_add_less1)
      moreover have s: "conn_step F alloc now (Deliver bs) c = Some ([], Some ?c)"
        using True step p wm by simp
      moreover have "waiting F h body ?c (p @ bs)" by (rule go [OF s]) (use True head p in simp)
      ultimately show ?thesis by blast
    next
      case False
      have "(p @ bs) @ q = print_head F h @ body" using w(2) by simp
      from append_eq_split [OF this] False hl obtain rest where
        r: "p @ bs = print_head F h @ rest" "rest @ q = body" by auto
      have i: "ev_input (ev d) = print_head F h @ rest" using p(1) r(1) d_fields(1) by simp
      define a where "a = after_head alloc h ((ev d)\<lparr>ev_input := rest\<rparr>) d"
      note f = after_head_fields [OF d_fields(4) mem len(1,2), of "(ev d)\<lparr>ev_input := rest\<rparr>", folded a_def]
      from f(6) obtain b where b: "readbuf a = Some b" "readbuf_size a = int (length b)" "length body \<le> length b"
        using buffer_cap_ge by metis
      have e: "expected_input_len d = int (head_size F)" "nstate d = NSHEAD_STATE_HEAD" using d_fields(2,3) p head by simp_all
      note rd = nshead_conn_read_head [OF i laws e(2,1), of alloc, folded a_def]
      have cb: "wm_low (ev c) \<le> int (length (ev_input (ev c) @ bs))" using wm p False by simp
      show ?thesis
      proof (cases "q = []")
        case True
        then have "ev_input (ev a) = body @ []" using f(3) r(2) by simp
        from nshead_conn_read_body [OF f(1,2) this b(1,2,3), of F alloc] obtain g b' where
          g: "nshead_conn_read F alloc a = Some (1, g)" "readbuf g = Some b'" "take (length body) b' = body"
            "provider g = provider a" "log_id g = log_id a" by blast
        have "request_is h body g" using g f(4,5) by (simp add: request_is_def)
        from fin [OF cb _ this] g(1) rd True show ?thesis by simp
      next
        case q: False
        then have "length rest < length body" using r(2) by auto
        then have "nshead_conn_read F alloc a = Some (0, a)"
          using f(2,3) by (simp add: nshead_conn_read.simps [of F alloc a] event_get_input_len_def)
        then have "connection_read_cb F alloc now ?c = Some ([], Some a)" using rd by (intro read_cb_waits) (simp only: d_def)
        then have s: "conn_step F alloc now (Deliver bs) c = Some ([], Some a)" using step cb by simp
        have "waiting F h body a (p @ bs)"
          by (rule go [OF s], rule disjI2) (use f(1-5) b r(1) in simp)
        then show ?thesis using s q by blast
      qed
    qed
  next
    case False
    then have bd: "nstate c = NSHEAD_STATE_BODY" and p: "p = print_head F h @ ev_input (ev c)"
      "expected_input_len c = int (length body)" "provider c = copy_field (head_provider h)" "log_id c = head_log_id h"
      using w(1) by (auto simp: waiting_def)
    from w(1) False obtain b where b: "readbuf c = Some b" "readbuf_size c = int (length b)" "length body \<le> length b"
      by (auto simp: waiting_def)
    have i: "(ev_input (ev c) @ bs) @ q = body" using w(2) p(1) by simp
    show ?thesis
    proof (cases "q = []")
      case True
      have e: "nstate d = NSHEAD_STATE_BODY" "expected_input_len d = int (length body)" "ev_input (ev d) = body @ []"
        "readbuf d = Some b" "readbuf_size d = int (length b)" using d_fields bd p(2) b i True by simp_all
      from nshead_conn_read_body [OF e b(3), of F alloc] obtain g b' where
        g: "nshead_conn_read F alloc d = Some (1, g)" "readbuf g = Some b'" "take (length body) b' = body"
          "provider g = provider d" "log_id g = log_id d" by blast
      have "request_is h body g" using g d_fields(7,8) p(3,4) by (simp add: request_is_def)
      moreover have "wm_low (ev c) \<le> int (length (ev_input (ev c) @ bs))" using wm p(2) i True by simp
      ultimately show ?thesis using fin [OF _ g(1)] True by blast
    next
      case q: False
      have "length (ev_input (ev c) @ bs) + length q = length body" using i by (metis length_append)
      then have lt: "length (ev_input (ev c) @ bs) < length body" using q by (cases q) auto
      then have s: "conn_step F alloc now (Deliver bs) c = Some ([], Some ?c)" using step wm p(2) by simp
      have "waiting F h body ?c (p @ bs)" by (rule go [OF s], rule disjI2) (use bd p b in simp)
      then show ?thesis using s q by blast
    qed
  qed
qed

lemma waiting_feed:
  assumes "bss \<noteq> []" "waiting F h body c p" "p @ concat bss = print_head F h @ body" "\<forall>bs \<in> set bss. bs \<noteq> []"
    and "nshead_laws F" "length (head_provider h) = 16" "magic_num h = NSHEAD_MAGICNUM F"
    and "alloc_ok alloc" "alloc (int (length body)) \<noteq> None"
    and "unat (body_len h) = length body" "length body < 2 ^ 31"
    and "copy_field (head_provider h) \<noteq> ''__MONITOR__''"
  shows "\<exists>r. conn_feed F alloc now bss c = Some ([Req_ready r], Some r) \<and> request_is h body r"
  using assms(1-4)
proof (induction bss arbitrary: c p)
  case (Cons bs bss)
  have e: "p @ bs @ concat bss = print_head F h @ body" using Cons.prems(3) by simp
  note st = waiting_step [OF Cons.prems(2) e assms(5-12), of now]
  show ?case
  proof (cases "bss = []")
    case True
    then have "concat bss = []" by simp
    with st True show ?thesis by auto
  next
    case False
    then have "concat bss \<noteq> []" using Cons.prems(4) by (cases bss) auto
    with st obtain c' where c': "conn_step F alloc now (Deliver bs) c = Some ([], Some c')" "waiting F h body c' (p @ bs)"
      by blast
    have "(p @ bs) @ concat bss = print_head F h @ body" using e by simp
    from Cons.IH [OF False c'(2) this] Cons.prems(4) obtain r where
      "conn_feed F alloc now bss c' = Some ([Req_ready r], Some r)" "request_is h body r" by auto
    then show ?thesis using c'(1) by simp
  qed
qed simp


section \<open>A concrete header format\<close>

text \<open>
  For the witnesses: the 16 bytes of the provider, then the magic number, the log id and the length
  in four bytes each.
\<close>

definition bytes4 :: "u32 \<Rightarrow> u8 list" where
  "bytes4 w = [word_of_nat (unat w mod 256), word_of_nat (unat w div 256 mod 256),
     word_of_nat (unat w div 65536 mod 256), word_of_nat (unat w div 16777216 mod 256)]"

definition word4 :: "u8 list \<Rightarrow> u32" where
  "word4 bs = word_of_nat (unat (bs ! 0) + 256 * unat (bs ! 1) + 65536 * unat (bs ! 2) + 16777216 * unat (bs ! 3))"

definition example_format :: nshead_format where
  "example_format =
     \<lparr>read_head = (\<lambda>bs. \<lparr>magic_num = word4 (drop 16 bs), head_provider = map (\<lambda>b. char_of (unat b)) (take 16 bs),
                         head_log_id = word4 (drop 20 bs), body_len = word4 (drop 24 bs)\<rparr>),
      print_head = (\<lambda>h. map (\<lambda>c. word_of_nat (of_char c)) (head_provider h) @
         bytes4 (magic_num h) @ bytes4 (head_log_id h) @ bytes4 (body_len h)),
      head_size = 28, NSHEAD_MAGICNUM = 0xfb709394\<rparr>"

lemma base_256:
  assumes "x < 2 ^ 32"
  shows "x mod 256 + 256 * (x div 256 mod 256) + 65536 * (x div 65536 mod 256) + 16777216 * (x div 16777216 mod 256) = (x :: nat)"
proof -
  have d: "x div 65536 = x div 256 div 256" "x div 16777216 = x div 256 div 256 div 256"
    by (simp_all add: div_mult2_eq [symmetric])
  have "x div 16777216 < 256" using assms by (simp add: less_mult_imp_div_less)
  then have "x div 16777216 mod 256 = x div 16777216" by simp
  then show ?thesis unfolding d
    using div_mult_mod_eq [of x 256] div_mult_mod_eq [of "x div 256" 256] div_mult_mod_eq [of "x div 256 div 256" 256]
    by linarith
qed

lemma word4_bytes4: "word4 (bytes4 w @ bs) = w"
proof -
  have b: "unat (word_of_nat (n mod 256) :: u8) = n mod 256" for n
    by (simp add: unat_of_nat)
  have x: "unat w < 2 ^ 32" using unsigned_less [of w, where 'a = nat] by simp
  have "word4 ([a, b, c, d] @ bs) = word_of_nat (unat a + 256 * unat b + 65536 * unat c + 16777216 * unat d)" for a b c d
    by (simp add: word4_def)
  then show ?thesis unfolding bytes4_def by (simp only: b base_256 [OF x]) simp
qed

lemma length_bytes4 [simp]: "length (bytes4 w) = 4"
  by (simp add: bytes4_def)

lemma example_format_laws: "nshead_laws example_format"
proof -
  have c: "char_of (unat (word_of_nat (of_char c) :: u8)) = c" for c
  proof -
    have "unat (word_of_nat (of_char c) :: u8) = of_char c mod 256" by (simp add: unat_of_nat)
    then show ?thesis by simp
  qed
  have w: "word4 (bytes4 x) = x" for x using word4_bytes4 [of x "[]"] by simp
  show ?thesis
    by (auto simp: nshead_laws_def example_format_def word4_bytes4 w c comp_def map_idI)
qed

definition example_head :: nshead where
  "example_head = \<lparr>magic_num = 0xfb709394, head_provider = ''redis'' @ replicate 11 (CHR 0x00), head_log_id = 7, body_len = 3\<rparr>"

definition some_alloc :: "int \<Rightarrow> u8 list option" where
  "some_alloc n = (if 0 \<le> n \<and> n < 2 ^ 20 then Some (replicate (nat n) 0) else None)"

lemma some_alloc_ok: "alloc_ok some_alloc"
  by (auto simp: alloc_ok_def some_alloc_def split: if_splits)

lemma example_head_fields: "length (head_provider example_head) = 16"
  "magic_num example_head = NSHEAD_MAGICNUM example_format" "unat (body_len example_head) = 3"
  "copy_field (head_provider example_head) = ''redis''" "head_log_id example_head = 7"
  by (simp_all add: example_head_def example_format_def copy_field_def c_string_def)

abbreviation fresh :: connection where
  "fresh \<equiv> accept_connection example_format (1, 0) ''10.0.0.1''"

lemma fresh_waits: "nstate fresh = NSHEAD_STATE_HEAD" "ev_input (ev fresh) = []" "expected_input_len fresh = 28"
  "readbuf fresh = None"
  by (simp_all add: accept_connection_def connection_prepare_read_def nshead_conn_prepare_read_def Let_def
      connection_set_cb_def connection_new_def event_new_def example_format_def)

section \<open>Witnesses and errors\<close>

lemma fresh_ok: "buffer_ok fresh"
  by (simp add: buffer_ok_def fresh_waits)

abbreviation example_input :: "u8 list" where
  "example_input \<equiv> print_head example_format example_head @ [1, 2, 3] @ [9]"

theorem connection_outlives_request_witness:
  "snd (the (conn_step example_format some_alloc (2, 0) (Bev BevEof) fresh)) = None"
proof -
  have al: "conn_allowed (Bev BevEof) fresh" by (simp add: conn_allowed_def)
  obtain out c' where st: "conn_step example_format some_alloc (2, 0) (Bev BevEof) fresh = Some (out, c')"
    and o: "Closed \<in> set out"
    by (simp add: conn_step_def connection_event_cb_def connection_call_error_cb_def call_cb_def server_error_cb_def
        accept_connection_def connection_set_cb_def connection_new_def connection_prepare_read_def
        nshead_conn_prepare_read_def Let_def)
  from connection_outlives_request [OF conn_accepted some_alloc_ok al st, of fresh] o st show ?thesis by simp
qed

theorem nshead_request_read_witness:
  "\<exists>c' b. nshead_conn_read example_format some_alloc (fresh\<lparr>ev := (ev fresh)\<lparr>ev_input := example_input\<rparr>\<rparr>) = Some (1, c') \<and>
     readbuf c' = Some b \<and> take 3 b = [1, 2, 3] \<and> provider c' = ''redis'' \<and> ev_input (ev c') = [9]"
proof -
  let ?c = "fresh\<lparr>ev := (ev fresh)\<lparr>ev_input := example_input\<rparr>\<rparr>"
  have i: "ev_input (ev ?c) = example_input" by simp
  have e: "nstate ?c = NSHEAD_STATE_HEAD" "expected_input_len ?c = int (head_size example_format)" "buffer_ok ?c"
    using fresh_waits fresh_ok by (simp_all add: example_format_def)
  have a: "some_alloc (int (length [1, 2, 3 :: u8])) \<noteq> None" by (simp add: some_alloc_def)
  have l: "unat (body_len example_head) = length [1, 2, 3 :: u8]" "length [1, 2, 3 :: u8] < 2 ^ 31"
    using example_head_fields(3) by simp_all
  have cap: "buffer_cap ?c 3 = 3" using fresh_waits(4) by (simp add: buffer_cap_def)
  from nshead_request_read [OF i example_format_laws example_head_fields(1,2) e some_alloc_ok a l]
  show ?thesis using example_head_fields(4) cap by (auto simp: numeral_3_eq_3)
qed


text \<open>
  The length in the header is not checked. A first request whose length has the top bit set
  makes \<open>malloc\<close> fail and the server read the bytes behind the header to NULL: any client can crash
  the proxy.
\<close>

theorem nshead_negative_length:
  assumes "ev_input (ev c) = print_head F h @ extra" "extra \<noteq> []" "nshead_laws F" "length (head_provider h) = 16"
    and "magic_num h = NSHEAD_MAGICNUM F" "nstate c = NSHEAD_STATE_HEAD" "expected_input_len c = int (head_size F)"
    and "readbuf c = None" "alloc_ok alloc" "sint (body_len h) < 0"
  shows "nshead_conn_read F alloc c = None"
proof -
  let ?n = "sint (body_len h)"
  let ?a = "after_head alloc h ((ev c)\<lparr>ev_input := extra\<rparr>) c"
  have "0 \<le> ?n" if "alloc ?n = Some b" for b using assms(9) that unfolding alloc_ok_def by blast
  then have "alloc ?n = None" using assms(10) by (cases "alloc ?n") (simp, metis not_less)
  then have a: "nstate ?a = NSHEAD_STATE_BODY" "expected_input_len ?a = ?n" "readbuf ?a = None" "readbuf_size ?a = ?n"
    "ev_input (ev ?a) = extra" using assms(8) by (simp_all add: after_head_def ensure_buffer_def)
  have "- (2 ^ 31) \<le> ?n" using sint_greater_eq [of "body_len h"] by simp
  then have "0 < nat (size_of_int ?n)" using assms(10) by (simp add: size_of_int_def)
  then have "event_read (ev ?a) None ?n = None" using assms(2) a(5) by (simp add: event_read_def Let_def)
  then have "read_body ?a = None" using a by (simp add: read_body_def)
  moreover have "expected_input_len ?a \<le> event_get_input_len (ev ?a)" using a(2) assms(10)
    by (simp add: event_get_input_len_def)
  ultimately have "nshead_conn_read F alloc ?a = None" using a(1) by (simp add: nshead_conn_read.simps [of F alloc ?a])
  then show ?thesis using nshead_conn_read_head [OF assms(1,3-7), of alloc] by simp
qed

theorem nshead_negative_length_witness:
  "nshead_conn_read example_format some_alloc
     (fresh\<lparr>ev := (ev fresh)\<lparr>ev_input := print_head example_format (example_head\<lparr>body_len := 0xFFFFFFFF\<rparr>) @ [0]\<rparr>\<rparr>) = None"
proof -
  let ?h = "example_head\<lparr>body_len := 0xFFFFFFFF\<rparr>"
  let ?c = "fresh\<lparr>ev := (ev fresh)\<lparr>ev_input := print_head example_format ?h @ [0]\<rparr>\<rparr>"
  have i: "ev_input (ev ?c) = print_head example_format ?h @ [0]" by simp
  have h: "length (head_provider ?h) = 16" "magic_num ?h = NSHEAD_MAGICNUM example_format"
    using example_head_fields by simp_all
  have e: "nstate ?c = NSHEAD_STATE_HEAD" "expected_input_len ?c = int (head_size example_format)" "readbuf ?c = None"
    using fresh_waits by (simp_all add: example_format_def)
  have "sint (body_len ?h) < 0" by simp
  from nshead_negative_length [OF i _ example_format_laws h e some_alloc_ok this] show ?thesis by simp
qed

text \<open>
  A request of the provider \<open>__MONITOR__\<close> is answered but never ended: whatever happens afterwards
  the connection stays as it is, not reading and never freed.
\<close>

theorem monitor_never_done:
  assumes "conn_reach F alloc c" "alloc_ok alloc" "is_processing c" "provider c = ''__MONITOR__''"
    and "conn_allowed x c" "conn_step F alloc now x c = Some (out, c')"
  shows "\<exists>d. c' = Some d \<and> is_processing d \<and> \<not> ev_reading (ev d) \<and> out = []"
proof -
  note ok = conn_reach_ok [OF assms(1,2)]
  have "x \<noteq> Done" using assms(4,5) by (auto simp: conn_allowed_def)
  from conn_step_processing [OF ok assms(3,5,6) this] obtain d where
    "c' = Some d" "conn_ok F d" "is_processing d" "out = []" by blast
  then show ?thesis by (simp add: conn_ok_def)
qed

text \<open>What the proxy writes another end of the protocol reads: the answer begins with a header of its length.\<close>

lemma pad_field_props: "length (pad_field s) = 16 \<and> copy_field (pad_field s) = copy_field s"
proof -
  have t: "takeWhile (\<lambda>c. c \<noteq> CHR 0x00) (take 15 (c_string s) @ replicate n (CHR 0x00)) = take 15 (c_string s)" for n
  proof -
    have "\<forall>c \<in> set (take 15 (c_string s)). c \<noteq> CHR 0x00"
      by (auto simp: c_string_def dest!: in_set_takeD set_takeWhileD)
    then have "takeWhile (\<lambda>c. c \<noteq> CHR 0x00) (take 15 (c_string s) @ replicate n (CHR 0x00)) =
        take 15 (c_string s) @ takeWhile (\<lambda>c. c \<noteq> CHR 0x00) (replicate n (CHR 0x00))"
      by (simp add: takeWhile_append2)
    then show ?thesis by (cases n) simp_all
  qed
  show ?thesis using t by (simp add: pad_field_def copy_field_def c_string_def [of "take _ _ @ _"])
qed

lemma answer_written:
  assumes "nshead_laws F" "\<not> has_error c" "int (length buf) < 2 ^ 31"
  shows "\<exists>h. ev_output (ev (server_write F buf (int (length buf)) c)) = ev_output (ev c) @ print_head F h @ buf \<and>
    read_head F (print_head F h) = h \<and> magic_num h = NSHEAD_MAGICNUM F \<and>
    copy_field (head_provider h) = copy_field (provider c) \<and> head_log_id h = log_id c \<and> unat (body_len h) = length buf"
proof -
  let ?h = "\<lparr>magic_num = NSHEAD_MAGICNUM F, head_provider = pad_field (provider c), head_log_id = log_id c,
    body_len = word_of_int (int (length buf))\<rparr>"
  have "ev_output (ev (server_write F buf (int (length buf)) c)) = ev_output (ev c) @ print_head F ?h @ buf"
    using assms(2) by (simp add: server_write_def connection_write_def nshead_conn_write_def event_write_def Let_def)
  moreover have "read_head F (print_head F ?h) = ?h" using assms(1) pad_field_props by (simp add: nshead_laws_def)
  moreover have "unat (word_of_int (int (length buf)) :: u32) = length buf"
    using assms(3) by (simp add: unat_of_nat)
  ultimately show ?thesis using pad_field_props by (intro exI [of _ ?h]) simp
qed

end
