(* ===== verification/Log.thy ===== *)
theory Log
  imports Partitions "HOL-Library.Monad_Syntax"
begin

text \<open>
  \<open>log.cpp\<close>: the key/value pairs a request collects for its log line, the construction of a line in
  a buffer of fixed size, the two rings through which the lines reach the log thread (one round of its
  loop at a time, and what goes wrong when a line is written in the middle of one), and the start. The pipe that
  wakes the thread is not modelled, the files are the text written to them. The text of the time, of a \<open>double\<close> and of the caller's message are parameters. \<open>None\<close> is a crash.
\<close>

section \<open>The pairs of a request\<close>

datatype 'd log_value = LogStr string | LogInt int | LogUint u64 | LogDouble 'd

text \<open>A chain of nodes with at most \<open>_LOG_DATA_SIZE\<close> pairs each; the tail is the last node.\<close>

definition LOG_DATA_SIZE :: nat where "LOG_DATA_SIZE = 16"

type_synonym 'd log_node = "(string \<times> 'd log_value) list"

definition log_data_new :: "bool \<Rightarrow> 'd log_node option" where
  "log_data_new malloc_ok = (if malloc_ok then Some [] else None)"

definition log_data_push :: "bool \<Rightarrow> string \<Rightarrow> 'd log_value \<Rightarrow> 'd log_node list \<Rightarrow> 'd log_node list option" where
  "log_data_push malloc_ok k v ld =
     (if ld = [] then None
      else if LOG_DATA_SIZE \<le> length (last ld) then map_option (\<lambda>n. ld @ [n @ [(k, v)]]) (log_data_new malloc_ok)
      else Some (butlast ld @ [last ld @ [(k, v)]]))"

definition log_data_push_str :: "bool \<Rightarrow> string \<Rightarrow> string \<Rightarrow> 'd log_node list \<Rightarrow> 'd log_node list option" where
  "log_data_push_str ok k v = log_data_push ok k (LogStr v)"

definition log_data_push_int :: "bool \<Rightarrow> string \<Rightarrow> int \<Rightarrow> 'd log_node list \<Rightarrow> 'd log_node list option" where
  "log_data_push_int ok k v = log_data_push ok k (LogInt v)"

definition log_data_push_uint :: "bool \<Rightarrow> string \<Rightarrow> u64 \<Rightarrow> 'd log_node list \<Rightarrow> 'd log_node list option" where
  "log_data_push_uint ok k v = log_data_push ok k (LogUint v)"

definition log_data_push_double :: "bool \<Rightarrow> string \<Rightarrow> 'd \<Rightarrow> 'd log_node list \<Rightarrow> 'd log_node list option" where
  "log_data_push_double ok k v = log_data_push ok k (LogDouble v)"

text \<open>Every node but the last is full; no node is more than full.\<close>

definition log_data_ok :: "'d log_node list \<Rightarrow> bool" where
  "log_data_ok ld \<longleftrightarrow> ld \<noteq> [] \<and> (\<forall>n \<in> set (butlast ld). length n = LOG_DATA_SIZE) \<and> length (last ld) \<le> LOG_DATA_SIZE"

lemma log_data_push_ok:
  assumes "log_data_ok ld" "log_data_push malloc_ok k v ld = Some ld'"
  shows "log_data_ok ld' \<and> concat ld' = concat ld @ [(k, v)]"
proof -
  have ne: "ld \<noteq> []" using assms(1) by (simp add: log_data_ok_def)
  then have cc: "concat ld = concat (butlast ld) @ last ld"
    by (metis append_butlast_last_id concat.simps concat_append append_Nil2)
  show ?thesis
  proof (cases "LOG_DATA_SIZE \<le> length (last ld)")
    case True
    then have "ld' = ld @ [[(k, v)]]" using assms(2) ne by (auto simp: log_data_push_def log_data_new_def split: if_splits)
    moreover have "\<forall>n \<in> set ld. length n = LOG_DATA_SIZE"
    proof
      fix n assume "n \<in> set ld"
      then have "n \<in> set (butlast ld @ [last ld])" using ne by simp
      then show "length n = LOG_DATA_SIZE" using assms(1) True by (auto simp: log_data_ok_def)
    qed
    ultimately show ?thesis by (simp add: log_data_ok_def LOG_DATA_SIZE_def butlast_append)
  next
    case False
    then have "ld' = butlast ld @ [last ld @ [(k, v)]]" using assms(2) ne by (simp add: log_data_push_def)
    then show ?thesis using assms(1) False cc by (simp add: log_data_ok_def butlast_append)
  qed
qed

section \<open>The line\<close>

definition LOG_LINE_SIZE :: nat where "LOG_LINE_SIZE = 16384"

text \<open>
  One \<open>snprintf(buf, size, ...)\<close> with its clipping of the result: what has been written so far and
  the room left, the terminating NUL included.
\<close>

definition log_put :: "string \<Rightarrow> string \<times> nat \<Rightarrow> string \<times> nat" where
  "log_put s = (\<lambda>(out, room). let ret = (if room \<le> length s then room - 1 else length s) in (out @ take ret s, room - ret))"

fun log_value_text :: "('d \<Rightarrow> string) \<Rightarrow> 'd log_value \<Rightarrow> string" where
  "log_value_text show_double (LogStr s) = s"
| "log_value_text show_double (LogInt i) = print_int i"
| "log_value_text show_double (LogUint u) = print_nat (unat u)"
| "log_value_text show_double (LogDouble d) = show_double d"

text \<open>The pieces of a line in order.\<close>

definition log_pieces ::
    "('d \<Rightarrow> string) \<Rightarrow> string \<Rightarrow> string \<Rightarrow> string \<Rightarrow> int \<Rightarrow> string option \<Rightarrow> 'd log_node list \<Rightarrow> string \<Rightarrow> string list" where
  "log_pieces show_double levelstr timebuf name pid fileline ld msg =
     [levelstr @ '': '' @ timebuf @ '': '' @ name @ '' * '' @ print_int pid @ '' [''] @
     (case fileline of None \<Rightarrow> [] | Some f \<Rightarrow> [''file='' @ f @ '' '']) @
     concat (map (map (\<lambda>(k, v). k @ ''='' @ log_value_text show_double v @ '' '')) ld) @
     [''msg='', msg, '']'' @ [CHR 0x0A]]"

definition log_line :: "string list \<Rightarrow> string option" where
  "log_line pieces =
     (let out = fst (fold log_put pieces ([], LOG_LINE_SIZE)) in
      if out = [] then None
      else Some (if last out \<noteq> CHR 0x0A then butlast out @ [CHR 0x0A] else out))"

section \<open>The rings\<close>

definition LOG_BUF_SIZE :: nat where "LOG_BUF_SIZE = 16 * 1024 * 1024"

record log_ring =
  ring_buf :: "nat \<Rightarrow> char"
  write_offset :: nat
  read_offset :: nat

definition memcpy :: "nat \<Rightarrow> string \<Rightarrow> (nat \<Rightarrow> char) \<Rightarrow> nat \<Rightarrow> char" where
  "memcpy off s b = (\<lambda>i. if off \<le> i \<and> i < off + length s then s ! (i - off) else b i)"

text \<open>\<open>LOG_BUF_SIZE - (write - read + LOG_BUF_SIZE) % LOG_BUF_SIZE\<close>.\<close>

definition buf_left_size :: "log_ring \<Rightarrow> nat" where
  "buf_left_size g = LOG_BUF_SIZE - (write_offset g + LOG_BUF_SIZE - read_offset g) mod LOG_BUF_SIZE"

text \<open>What is kept of a line when the room is short: its beginning, with the last character a newline.\<close>

definition fit_line :: "nat \<Rightarrow> string \<Rightarrow> string" where
  "fit_line left line =
     (if left - 1 < length line then
        (if 0 < left - 1 then (take (left - 1) line)[left - 1 - 1 := CHR 0x0A] else [])
      else line)"

definition log_ring_write :: "string \<Rightarrow> log_ring \<Rightarrow> log_ring" where
  "log_ring_write line g =
     (let s = fit_line (buf_left_size g) line; w = write_offset g in
      g\<lparr>ring_buf := (if w + length s < LOG_BUF_SIZE then memcpy w s (ring_buf g)
                     else memcpy 0 (drop (LOG_BUF_SIZE - w) s) (memcpy w (take (LOG_BUF_SIZE - w) s) (ring_buf g))),
        write_offset := (w + length s) mod LOG_BUF_SIZE\<rparr>)"

text \<open>\<open>log_printf\<close>: warnings and errors go to the second ring.\<close>

record log_state =
  log_buf :: log_ring
  logwf_buf :: log_ring

definition log_printf :: "int \<Rightarrow> string list \<Rightarrow> log_state \<Rightarrow> log_state option" where
  "log_printf level pieces s =
     map_option (\<lambda>line. if level \<le> 2 then s\<lparr>logwf_buf := log_ring_write line (logwf_buf s)\<rparr>
                        else s\<lparr>log_buf := log_ring_write line (log_buf s)\<rparr>)
       (log_line pieces)"

text \<open>
  One round of the log thread on one ring. \<open>wrote n\<close> is what \<open>fwrite\<close> returns when asked for \<open>n\<close>
  bytes. The thread takes no lock: \<open>w1\<close>, \<open>w2\<close>, \<open>w3\<close> are the values of the write offset at the test for
  something new, at the test for the wrap-around and at the (last) length. A length is a difference of offsets
  as a \<open>size_t\<close>: when it is negative, or ends behind the buffer, the read leaves the buffer.
\<close>

definition log_ring_read_seen ::
    "(nat \<Rightarrow> nat) \<Rightarrow> (nat \<Rightarrow> nat) \<Rightarrow> nat \<Rightarrow> nat \<Rightarrow> nat \<Rightarrow> log_ring \<Rightarrow> (string \<times> log_ring) option" where
  "log_ring_read_seen wrote wrote2 w1 w2 w3 g =
     (let r = read_offset g; b = ring_buf g in
      if w1 = r then Some ([], g)
      else if r < w2 then
        if w3 < r \<or> LOG_BUF_SIZE < w3 then None
        else let n = wrote (w3 - r) in Some (map b [r..<r + n], g\<lparr>read_offset := (r + n) mod LOG_BUF_SIZE\<rparr>)
      else
        let n = wrote (LOG_BUF_SIZE - r); r1 = (r + n) mod LOG_BUF_SIZE in
        if w3 < r1 \<or> LOG_BUF_SIZE < w3 then None
        else let m = wrote2 (w3 - r1) in
          Some (map b [r..<r + n] @ map b [r1..<r1 + m], g\<lparr>read_offset := (r1 + m) mod LOG_BUF_SIZE\<rparr>))"

text \<open>A round that no \<open>log_printf\<close> interrupts.\<close>

definition log_ring_read :: "(nat \<Rightarrow> nat) \<Rightarrow> (nat \<Rightarrow> nat) \<Rightarrow> log_ring \<Rightarrow> (string \<times> log_ring) option" where
  "log_ring_read wrote wrote2 g =
     log_ring_read_seen wrote wrote2 (write_offset g) (write_offset g) (write_offset g) g"

text \<open>
  The whole round: a log file that has been moved away is opened anew (if that fails the old one is kept), then
  both rings are written to their files. \<open>'f\<close> are the open files; \<open>missing\<close> is the result of \<open>stat\<close>.
\<close>

record 'f log_files =
  log_f :: 'f
  logwf_f :: 'f
  log_text :: "'f \<Rightarrow> string"

definition reopen :: "bool \<Rightarrow> 'f option \<Rightarrow> 'f \<Rightarrow> 'f" where
  "reopen missing fopen f = (if missing then (case fopen of None \<Rightarrow> f | Some ftemp \<Rightarrow> ftemp) else f)"

definition log_thread_round ::
    "bool \<Rightarrow> 'f option \<Rightarrow> bool \<Rightarrow> 'f option \<Rightarrow> log_state \<Rightarrow> 'f log_files \<Rightarrow> (log_state \<times> 'f log_files) option" where
  "log_thread_round missing fopen missing_wf fopen_wf s e =
     (let e = e\<lparr>log_f := reopen missing fopen (log_f e), logwf_f := reopen missing_wf fopen_wf (logwf_f e)\<rparr> in
      case log_ring_read id id (log_buf s) of
        None \<Rightarrow> None
      | Some (t, g) \<Rightarrow>
          (let e = e\<lparr>log_text := (log_text e)(log_f e := log_text e (log_f e) @ t)\<rparr> in
           case log_ring_read id id (logwf_buf s) of
             None \<Rightarrow> None
           | Some (t, g') \<Rightarrow>
               Some (s\<lparr>log_buf := g, logwf_buf := g'\<rparr>,
                     e\<lparr>log_text := (log_text e)(logwf_f e := log_text e (logwf_f e) @ t)\<rparr>)))"

section \<open>Starting\<close>

text \<open>
  \<open>log_read_conf\<close>: the fields are read in order and the first that is missing (\<open>None\<close>) ends it. The name and
  the directory are NULL before; \<open>snprintf\<close> prints NULL as \<open>(null)\<close> and cuts at the size of its buffer.
\<close>

record log_conf =
  lc_name :: "string option"
  lc_dir :: "string option"
  lc_level :: int

definition log_read_conf :: "string option \<Rightarrow> string option \<Rightarrow> int option \<Rightarrow> int \<times> log_conf" where
  "log_read_conf name dir level =
     (case name of
        None \<Rightarrow> (- 1, \<lparr>lc_name = None, lc_dir = None, lc_level = 0\<rparr>)
      | Some n \<Rightarrow>
          (case dir of
             None \<Rightarrow> (- 1, \<lparr>lc_name = Some n, lc_dir = None, lc_level = 0\<rparr>)
           | Some d \<Rightarrow>
               (case level of
                  None \<Rightarrow> (- 1, \<lparr>lc_name = Some n, lc_dir = Some d, lc_level = 0\<rparr>)
                | Some l \<Rightarrow> (0, \<lparr>lc_name = Some n, lc_dir = Some d, lc_level = l\<rparr>))))"

definition print_str :: "string option \<Rightarrow> string" where
  "print_str s = (case s of None \<Rightarrow> ''(null)'' | Some t \<Rightarrow> t)"

definition log_path :: "log_conf \<Rightarrow> string \<Rightarrow> string" where
  "log_path c suffix = take 1023 (print_str (lc_dir c) @ ''/'' @ print_str (lc_name c) @ suffix)"

definition fresh_ring :: log_ring where
  "fresh_ring = \<lparr>ring_buf = (\<lambda>_. CHR 0x00), write_offset = 0, read_offset = 0\<rparr>"

text \<open>
  \<open>log_init\<close>; \<open>None\<close>: \<open>exit(1)\<close>. \<open>mem\<close>, \<open>pipes\<close> and \<open>thread\<close> say whether the memory, the pipe and the thread
  could be had.
\<close>

definition log_init ::
    "(string \<Rightarrow> 'f option) \<Rightarrow> bool \<Rightarrow> bool \<Rightarrow> bool \<Rightarrow> string option \<Rightarrow> string option \<Rightarrow> int option \<Rightarrow>
     ('f \<Rightarrow> string) \<Rightarrow> (int \<times> log_conf \<times> log_state \<times> 'f log_files) option" where
  "log_init fopen mem pipes thread name dir level texts =
     (let (_, c) = log_read_conf name dir level in
      case (fopen (log_path c ''.log''), fopen (log_path c ''.log.wf'')) of
        (Some f, Some fw) \<Rightarrow>
          if mem \<and> pipes \<and> thread
          then Some (0, c, \<lparr>log_buf = fresh_ring, logwf_buf = fresh_ring\<rparr>,
                     \<lparr>log_f = f, logwf_f = fw, log_text = texts\<rparr>)
          else None
      | _ \<Rightarrow> None)"

section \<open>Lines\<close>

lemma log_put_take:
  assumes "1 \<le> n"
  shows "log_put s (take (n - 1) acc, n - length (take (n - 1) acc)) =
    (take (n - 1) (acc @ s), n - length (take (n - 1) (acc @ s)))"
proof (cases "length acc \<le> n - 1")
  case True
  then have "take (n - 1) acc = acc" by simp
  then show ?thesis using True assms by (auto simp: log_put_def Let_def min_def)
next
  case False
  then show ?thesis using assms by (cases s) (auto simp: log_put_def Let_def min_def)
qed

lemma fold_log_put:
  assumes "1 \<le> n"
  shows "fold log_put ps (take (n - 1) acc, n - length (take (n - 1) acc)) =
    (take (n - 1) (acc @ concat ps), n - length (take (n - 1) (acc @ concat ps)))"
  by (induction ps arbitrary: acc) (simp_all only: fold_simps log_put_take [OF assms] concat.simps append_assoc
      append_Nil2)

lemma log_line_eq:
  "log_line ps =
     (let out = take 16383 (concat ps) in
      if out = [] then None else Some (if last out \<noteq> CHR 0x0A then butlast out @ [CHR 0x0A] else out))"
  using fold_log_put [of LOG_LINE_SIZE ps "[]"] by (simp add: log_line_def LOG_LINE_SIZE_def)

lemma log_pieces_ends:
  "concat (log_pieces show_double levelstr timebuf name pid fileline ld msg) \<noteq> [] \<and>
   last (concat (log_pieces show_double levelstr timebuf name pid fileline ld msg)) = CHR 0x0A"
  by (simp add: log_pieces_def)

text \<open>
  Whatever a log line is made of, \<open>log_printf\<close> builds it inside its buffer of 16384 bytes and
  ends it with a newline: a line that fits is exactly its pieces, a longer one is cut to 16383
  characters of which only the last is changed.
\<close>

theorem log_line_bounded:
  "\<exists>line. log_line (log_pieces show_double levelstr timebuf name pid fileline ld msg) = Some line \<and>
     length line = min 16383 (length (concat (log_pieces show_double levelstr timebuf name pid fileline ld msg))) \<and>
     last line = CHR 0x0A \<and>
     butlast line = butlast (take 16383 (concat (log_pieces show_double levelstr timebuf name pid fileline ld msg)))"
proof -
  let ?s = "concat (log_pieces show_double levelstr timebuf name pid fileline ld msg)"
  have "take 16383 ?s \<noteq> []"
    using log_pieces_ends [of show_double levelstr timebuf name pid fileline ld msg] by (simp only: take_eq_Nil) simp
  then show ?thesis by (simp add: log_line_eq Let_def min.commute)
qed

section \<open>Rings\<close>

text \<open>The characters between the two offsets, the oldest first.\<close>

definition ring_len :: "log_ring \<Rightarrow> nat" where
  "ring_len g = (write_offset g + LOG_BUF_SIZE - read_offset g) mod LOG_BUF_SIZE"

definition ring_content :: "log_ring \<Rightarrow> string" where
  "ring_content g = map (\<lambda>i. ring_buf g ((read_offset g + i) mod LOG_BUF_SIZE)) [0..<ring_len g]"

definition ring_ok :: "log_ring \<Rightarrow> bool" where
  "ring_ok g \<longleftrightarrow> write_offset g < LOG_BUF_SIZE \<and> read_offset g < LOG_BUF_SIZE"

lemma mod_once: "i < 2 * n \<Longrightarrow> i mod n = (if i < n then i else i - n)" for i n :: nat
  by (simp add: mod_if)

lemma ring_len_eq:
  assumes "ring_ok g"
  shows "ring_len g = (if read_offset g \<le> write_offset g then write_offset g - read_offset g
                       else write_offset g + LOG_BUF_SIZE - read_offset g)"
  using assms by (auto simp: ring_len_def ring_ok_def mod_once)

lemma ring_len_less: "ring_len g < LOG_BUF_SIZE"
  by (simp add: ring_len_def LOG_BUF_SIZE_def)

text \<open>What the two copies leave at an index.\<close>

lemma written_at:
  assumes "w < LOG_BUF_SIZE" "length s < LOG_BUF_SIZE" "j < LOG_BUF_SIZE"
  shows "(if w + length s < LOG_BUF_SIZE then memcpy w s b
          else memcpy 0 (drop (LOG_BUF_SIZE - w) s) (memcpy w (take (LOG_BUF_SIZE - w) s) b)) j =
    (let i = (if w \<le> j then j - w else j + LOG_BUF_SIZE - w) in if i < length s then s ! i else b j)"
proof (cases "w + length s < LOG_BUF_SIZE")
  case True
  then show ?thesis using assms by (auto simp: memcpy_def Let_def)
next
  case False
  then show ?thesis using assms
    by (auto simp: memcpy_def Let_def min_def add.commute intro!: arg_cong [where f = "(!) s"])
qed

lemma fit_line_short: "length (fit_line left line) \<le> left - 1"
  by (simp add: fit_line_def)

lemma log_ring_write_ok:
  assumes "ring_ok g" "s = fit_line (LOG_BUF_SIZE - ring_len g) line"
  shows "ring_ok (log_ring_write line g) \<and> ring_content (log_ring_write line g) = ring_content g @ s"
proof -
  let ?g = "log_ring_write line g" and ?N = LOG_BUF_SIZE
  define w r l where "w = write_offset g" and "r = read_offset g" and "l = ring_len g"
  have bounds: "w < ?N" "r < ?N" "l < ?N" using assms(1) ring_len_less by (simp_all add: ring_ok_def w_def r_def l_def)
  have wl: "w = (if r + l < ?N then r + l else r + l - ?N)"
    using ring_len_eq [OF assms(1)] bounds by (auto simp: w_def r_def l_def)
  have s: "length s \<le> ?N - l - 1" using fit_line_short [of "?N - ring_len g" line] assms(2) by (simp add: l_def)
  have left: "buf_left_size g = ?N - ring_len g" by (simp add: buf_left_size_def ring_len_def)
  have f: "write_offset ?g = (w + length s) mod ?N" "read_offset ?g = r"
    "ring_buf ?g = (if w + length s < ?N then memcpy w s (ring_buf g)
       else memcpy 0 (drop (?N - w) s) (memcpy w (take (?N - w) s) (ring_buf g)))"
    by (simp_all add: log_ring_write_def left assms(2) [symmetric] Let_def w_def r_def)
  have N: "0 < ?N" by (simp add: LOG_BUF_SIZE_def)
  have ok: "ring_ok ?g" using bounds f N by (simp add: ring_ok_def)
  have w': "(w + length s) mod ?N = (if w + length s < ?N then w + length s else w + length s - ?N)"
    using bounds s by (intro mod_once) linarith
  have len: "ring_len ?g = l + length s"
    using ring_len_eq [OF ok] f(1,2) w' wl bounds s by (auto split: if_splits)
  have at: "ring_buf ?g ((r + i) mod ?N) = (if i < l then ring_buf g ((r + i) mod ?N) else s ! (i - l))"
    if "i < l + length s" for i
  proof -
    have i: "i < ?N" "length s < ?N" using that s bounds by linarith+
    have j: "(r + i) mod ?N = (if r + i < ?N then r + i else r + i - ?N)"
      using bounds i by (intro mod_once) linarith
    have "(r + i) mod ?N < ?N" using N by simp
    from written_at [OF bounds(1) i(2) this, of "ring_buf g"] f(3)
    have e: "ring_buf ?g ((r + i) mod ?N) =
        (let k = (if w \<le> (r + i) mod ?N then (r + i) mod ?N - w else (r + i) mod ?N + ?N - w) in
         if k < length s then s ! k else ring_buf g ((r + i) mod ?N))" by simp
    have k: "(if w \<le> (r + i) mod ?N then (r + i) mod ?N - w else (r + i) mod ?N + ?N - w) =
        (if i < l then i + ?N - l else i - l)"
      unfolding j wl using bounds i that s by (auto split: if_splits)
    show ?thesis
    proof (cases "i < l")
      case True
      then have "\<not> i + ?N - l < length s" using s bounds by linarith
      then show ?thesis using e k True by simp
    next
      case False
      then have "i - l < length s" using that by linarith
      then show ?thesis using e k False by simp
    qed
  qed
  have "ring_content ?g = map (\<lambda>i. if i < l then ring_buf g ((r + i) mod ?N) else s ! (i - l)) [0..<l + length s]"
    unfolding ring_content_def len f(2) by (rule map_cong [OF refl]) (simp add: at)
  also have "\<dots> = map (\<lambda>i. ring_buf g ((r + i) mod ?N)) [0..<l] @ map (\<lambda>i. s ! (i - l)) [l..<l + length s]"
    by (subst upt_add_eq_append [OF le0]) simp
  also have "map (\<lambda>i. s ! (i - l)) [l..<l + length s] = s"
    by (rule nth_equalityI) simp_all
  finally show ?thesis using ok by (simp add: ring_content_def l_def r_def)
qed

lemma log_ring_read_ok:
  assumes "ring_ok g"
  shows "log_ring_read id id g = Some (ring_content g, g\<lparr>read_offset := write_offset g\<rparr>)"
proof -
  let ?N = LOG_BUF_SIZE
  define w r where "w = write_offset g" and "r = read_offset g"
  have b: "w < ?N" "r < ?N" using assms by (simp_all add: ring_ok_def w_def r_def)
  have m: "map f [r..<r + n] = map (\<lambda>i. f (r + i)) [0..<n]" for f :: "nat \<Rightarrow> char" and n
    by (rule nth_equalityI) simp_all
  consider "w = r" | "r < w" | "w < r" by linarith
  then show ?thesis
  proof cases
    case 1
    then have "ring_len g = 0" using ring_len_eq [OF assms] by (simp add: w_def r_def)
    then show ?thesis using 1 by (simp add: log_ring_read_def log_ring_read_seen_def ring_content_def w_def r_def)
  next
    case 2
    then have l: "ring_len g = w - r" using ring_len_eq [OF assms] by (simp add: w_def r_def)
    have "map (ring_buf g) [r..<w] = ring_content g"
      unfolding ring_content_def l r_def [symmetric] using 2 b m [of "ring_buf g" "w - r"]
      by (simp cong: map_cong)
    then show ?thesis using 2 b by (simp add: log_ring_read_def log_ring_read_seen_def Let_def w_def [symmetric] r_def [symmetric])
  next
    case 3
    then have l: "ring_len g = (?N - r) + w" using ring_len_eq [OF assms] b by (simp add: w_def r_def)
    have "ring_content g = map (\<lambda>i. ring_buf g ((r + i) mod ?N)) [0..<?N - r] @
        map (\<lambda>i. ring_buf g ((r + i) mod ?N)) [?N - r..<?N - r + w]"
      unfolding ring_content_def l r_def [symmetric] by (subst upt_add_eq_append [OF le0]) simp
    moreover have "map (\<lambda>i. ring_buf g ((r + i) mod ?N)) [0..<?N - r] = map (ring_buf g) [r..<?N]"
      using b m [of "ring_buf g" "?N - r"] by (simp cong: map_cong)
    moreover have "map (\<lambda>i. ring_buf g ((r + i) mod ?N)) [?N - r..<?N - r + w] = map (ring_buf g) [0..<w]"
      using b by (intro nth_equalityI) (simp_all add: mod_if)
    ultimately show ?thesis using 3 b
      by (simp add: log_ring_read_def log_ring_read_seen_def Let_def w_def [symmetric] r_def [symmetric])
  qed
qed


definition empty_ring :: log_ring where
  "empty_ring = \<lparr>ring_buf = (\<lambda>_. CHR 0x00), write_offset = 16777214, read_offset = 16777214\<rparr>"


text \<open>
  When \<open>fwrite\<close> stops short before the end of the buffer (a full disk) the second \<open>fwrite\<close> of the
  round gets a negative length.
\<close>

lemma log_thread_short_write:
  assumes "ring_ok g" "write_offset g < read_offset g" "wrote (LOG_BUF_SIZE - read_offset g) < LOG_BUF_SIZE - read_offset g"
  shows "log_ring_read wrote wrote2 g = None"
  using assms by (simp add: log_ring_read_def log_ring_read_seen_def ring_ok_def Let_def)

text \<open>A round of the thread brings every character of the two rings to the end of its file and empties them.\<close>

theorem log_round_writes_all:
  assumes "ring_ok (log_buf s)" "ring_ok (logwf_buf s)" "e' = e\<lparr>log_f := reopen m f (log_f e), logwf_f := reopen m' f' (logwf_f e)\<rparr>"
    and "log_f e' \<noteq> logwf_f e'"
  shows "\<exists>s'' e''. log_thread_round m f m' f' s e = Some (s'', e'') \<and>
    ring_content (log_buf s'') = [] \<and> ring_content (logwf_buf s'') = [] \<and>
    log_text e'' (log_f e') = log_text e (log_f e') @ ring_content (log_buf s) \<and>
    log_text e'' (logwf_f e') = log_text e (logwf_f e') @ ring_content (logwf_buf s)"
proof -
  have "ring_content (g\<lparr>read_offset := write_offset g\<rparr>) = []" if "ring_ok g" for g :: log_ring
    using that by (simp add: ring_content_def ring_len_def ring_ok_def)
  then show ?thesis using assms
    by (simp add: log_thread_round_def log_ring_read_ok Let_def)
qed

text \<open>
  The values of the write offset another thread may see while \<open>log_printf\<close> appends: it is increased first and
  brought back into the buffer by a second statement.
\<close>

definition offsets_seen :: "string \<Rightarrow> log_ring \<Rightarrow> nat list" where
  "offsets_seen line g =
     (let n = length (fit_line (buf_left_size g) line); w = write_offset g in [w, w + n, (w + n) mod LOG_BUF_SIZE])"

text \<open>
  A line that crosses the end of the ring while the log thread is in the middle of a round makes the thread
  read outside the buffer: when it sees the offset before it is brought back, or when it sees the old one in
  its test and the new one in the length.
\<close>

theorem log_thread_race:
  assumes "ring_ok g" "read_offset g < write_offset g" "offsets_seen line g = [w, w', w'']" "LOG_BUF_SIZE < w'"
  shows "log_ring_read_seen wrote wrote2 w' w' w' g = None \<and> log_ring_read_seen wrote wrote2 w w w'' g = None"
proof -
  let ?n = "length (fit_line (buf_left_size g) line)"
  have w: "w = write_offset g" "w' = write_offset g + ?n" "w'' = w' mod LOG_BUF_SIZE"
    using assms(3) by (auto simp: offsets_seen_def Let_def)
  have "?n \<le> buf_left_size g - 1" by (rule fit_line_short)
  moreover have "buf_left_size g = LOG_BUF_SIZE - (write_offset g - read_offset g)"
    using assms(2) ring_len_eq [OF assms(1)] by (simp add: buf_left_size_def ring_len_def)
  ultimately have n: "w' - LOG_BUF_SIZE < read_offset g" "w' < 2 * LOG_BUF_SIZE"
    using assms(1,2,4) w by (auto simp: ring_ok_def)
  have "w'' = w' - LOG_BUF_SIZE" using n(2) assms(4) w(3) by (simp add: mod_once)
  then have "w'' < read_offset g" using n(1) by simp
  moreover have "read_offset g < w'" using assms(1,4) by (simp add: ring_ok_def)
  ultimately show ?thesis using assms(2,4) w(1) by (auto simp: log_ring_read_seen_def Let_def)
qed

text \<open>A logging configuration that cannot be read does not stop the start: the files get the names of NULL.\<close>

lemma log_init_without_configuration:
  "log_init Some True True True None dir level texts =
     Some (0, \<lparr>lc_name = None, lc_dir = None, lc_level = 0\<rparr>, \<lparr>log_buf = fresh_ring, logwf_buf = fresh_ring\<rparr>,
       \<lparr>log_f = ''(null)/(null).log'', logwf_f = ''(null)/(null).log.wf'', log_text = texts\<rparr>)"
  by (simp add: log_init_def log_read_conf_def log_path_def print_str_def)

end
