(* ===== verification/File.thy ===== *)
theory File
  imports Prelude
begin

text \<open>
  The path functions of \<open>file.cpp\<close>. A \<open>std::string\<close> keeps its length when a NUL is stored in it: the
  functions cut a path by storing a NUL, which only its readers as a C string notice
  (\<open>c_string\<close>). The file system is a record of the calls the code makes.
\<close>

section \<open>Directory and name of a path\<close>

text \<open>
  The loops that move \<open>last\<close> back: the argument and the result are \<open>last + 1\<close>. The second one stops at
  the first character.
\<close>

primrec skip_back :: "(char \<Rightarrow> bool) \<Rightarrow> string \<Rightarrow> nat \<Rightarrow> nat" where
  "skip_back P s 0 = 0"
| "skip_back P s (Suc n) = (if P (s ! n) then skip_back P s n else Suc n)"

fun skip_slashes :: "string \<Rightarrow> nat \<Rightarrow> nat" where
  "skip_slashes s (Suc (Suc n)) = (if s ! Suc n = CHR ''/'' then skip_slashes s (Suc n) else Suc (Suc n))"
| "skip_slashes s n = n"

definition dirname :: "string \<Rightarrow> bool \<Rightarrow> string" where
  "dirname pathname reserve_last_slash =
     (let n = skip_back (\<lambda>c. c = CHR ''/'') pathname (length pathname) in
      if n = 0 then ''/''
      else
        let n = skip_back (\<lambda>c. c \<noteq> CHR ''/'') pathname n;
            (parent, n) = (if n = 0 then (''./'', 2) else (pathname[n := CHR 0x00], n)) in
        if reserve_last_slash then parent
        else let n = skip_slashes parent n in parent[n := CHR 0x00])"

definition basename :: "string \<Rightarrow> string" where
  "basename pathname =
     (let n = skip_back (\<lambda>c. c = CHR ''/'') pathname (length pathname) in
      if n = 0 then ''/''
      else
        let k = skip_back (\<lambda>c. c \<noteq> CHR ''/'') pathname n in take (n - k) (drop k pathname))"

section \<open>Creating directories\<close>

text \<open>
  \<open>dir_ok\<close>: \<open>stat\<close> finds a directory that may be read, written and entered; \<open>present\<close>: \<open>access\<close>
  with \<open>F_OK\<close>.
\<close>

record 's fs_ops =
  dir_ok :: "string \<Rightarrow> 's \<Rightarrow> bool"
  present :: "string \<Rightarrow> 's \<Rightarrow> bool"
  mkdir :: "string \<Rightarrow> 's \<Rightarrow> int \<times> 's"

text \<open>\<open>None\<close> when the recursion does not end within the fuel.\<close>

fun create_parent_dir :: "nat \<Rightarrow> ('s, 'z) fs_ops_scheme \<Rightarrow> string \<Rightarrow> 's \<Rightarrow> (int \<times> 's) option" where
  "create_parent_dir 0 F path s = None"
| "create_parent_dir (Suc fuel) F path s =
     (let parent = dirname path False; p = c_string parent in
      if dir_ok F p s then Some (0, s)
      else if present F p s then Some (- 1, s)
      else
        (case create_parent_dir fuel F parent s of
           None \<Rightarrow> None
         | Some (ret, s) \<Rightarrow>
             if ret = 0 then (let (ret, s) = mkdir F p s in Some (if ret = 0 then 0 else - 1, s))
             else Some (- 1, s)))"

definition create_dir :: "nat \<Rightarrow> ('s, 'z) fs_ops_scheme \<Rightarrow> string \<Rightarrow> 's \<Rightarrow> (int \<times> 's) option" where
  "create_dir fuel F path s =
     (let p = c_string path in
      if dir_ok F p s then Some (0, s)
      else if present F p s then Some (- 1, s)
      else
        (case create_parent_dir fuel F path s of
           None \<Rightarrow> None
         | Some (ret, s) \<Rightarrow>
             if ret = 0 then (let (ret, s) = mkdir F p s in Some (if ret = 0 then 0 else - 1, s))
             else Some (- 1, s)))"

section \<open>Listing a directory\<close>

text \<open>
  What \<open>readdir_r\<close> returns call after call: a name, an error, or the end (the end of the list). \<open>memcmp\<close>
  compares the prefix with the name and its terminating NUL.
\<close>

datatype dir_entry = DirName string | DirError

fun scan_entries :: "string \<Rightarrow> dir_entry list \<Rightarrow> string list \<Rightarrow> int \<times> string list" where
  "scan_entries prefix [] files = (0, files)"
| "scan_entries prefix (DirError # es) files = (- 1, files)"
| "scan_entries prefix (DirName d_name # es) files =
     (if d_name = ''..'' \<or> d_name = ''.'' then scan_entries prefix es files
      else if take (length prefix) (d_name @ [CHR 0x00]) = prefix then scan_entries prefix es (files @ [d_name])
      else scan_entries prefix es files)"

text \<open>\<open>opendir\<close> yields the entries, or \<open>None\<close>.\<close>

definition scan_dir :: "(string \<Rightarrow> dir_entry list option) \<Rightarrow> string \<Rightarrow> string \<Rightarrow> int \<times> string list" where
  "scan_dir opendir dir_path prefix =
     (case opendir (c_string dir_path) of None \<Rightarrow> (- 1, []) | Some es \<Rightarrow> scan_entries prefix es [])"

section \<open>What the loops find\<close>

lemma skip_back_le: "skip_back P s n \<le> n"
  by (induction n) auto

lemma skip_back_stop: "skip_back P s n = Suc k \<Longrightarrow> \<not> P (s ! k)"
  by (induction n) (auto split: if_splits)

lemma skip_back_over: "i < n \<Longrightarrow> skip_back P s n \<le> i \<Longrightarrow> P (s ! i)"
  by (induction n) (auto simp: less_Suc_eq split: if_splits)

lemma skip_back_append:
  assumes "list_all P ys" "xs = [] \<or> \<not> P (last xs)"
  shows "skip_back P (xs @ ys @ zs) (length xs + length ys) = length xs"
  using assms
proof (induction ys arbitrary: zs rule: rev_induct)
  case Nil
  then show ?case by (cases xs rule: rev_cases) (auto simp: nth_append)
next
  case (snoc y ys)
  have "skip_back P (xs @ ys @ y # zs) (length xs + length ys) = length xs" using snoc by simp
  then show ?case using snoc.prems by (simp add: nth_append)
qed

lemma skip_slashes_append:
  assumes "list_all (\<lambda>c. c = CHR ''/'') ys" "xs \<noteq> []" "last xs \<noteq> CHR ''/'' \<or> length xs = 1"
  shows "skip_slashes (xs @ ys @ zs) (length xs + length ys) = length xs"
  using assms
proof (induction ys arbitrary: zs rule: rev_induct)
  case Nil
  obtain a x where x: "xs = a @ [x]" using Nil.prems(2) by (cases xs rule: rev_cases) auto
  then show ?case using Nil.prems(3) by (cases "length a") (auto simp: nth_append)
next
  case (snoc y ys)
  have "skip_slashes (xs @ ys @ y # zs) (length xs + length ys) = length xs" using snoc by simp
  moreover obtain n where "length xs = Suc n" using snoc.prems(2) by (cases xs) auto
  ultimately show ?case using snoc.prems by (simp add: nth_append)
qed

lemma c_string_cut: "CHR 0x00 \<notin> set xs \<Longrightarrow> c_string (xs @ CHR 0x00 # ys) = xs"
  by (auto simp: c_string_def takeWhile_append)

text \<open>
  For a path made of a directory, slashes, a name and perhaps slashes at the end, \<open>dirname\<close> is the
  directory (\<open>/\<close> when only slashes come before the name) and \<open>basename\<close> the name.
\<close>

theorem dirname_basename:
  assumes "path = d @ replicate (Suc i) (CHR ''/'') @ b @ replicate j (CHR ''/'')"
    and "b \<noteq> []" "CHR ''/'' \<notin> set b" "CHR 0x00 \<notin> set d" "d = [] \<or> last d \<noteq> CHR ''/''"
  shows "c_string (dirname path False) = (if d = [] then ''/'' else d) \<and> basename path = b"
proof -
  let ?m = "d @ replicate (Suc i) (CHR ''/'')"
  have lb: "last b \<noteq> CHR ''/''" using assms(2,3) by (metis last_in_set)
  have n1: "skip_back (\<lambda>c. c = CHR ''/'') path (length path) = length (?m @ b)"
    using skip_back_append [of "\<lambda>c. c = CHR ''/''" "replicate j (CHR ''/'')" "?m @ b" "[]"] assms(1,2) lb
    by (simp add: list_all_iff add.assoc)
  have n2: "skip_back (\<lambda>c. c \<noteq> CHR ''/'') path (length (?m @ b)) = length ?m"
  proof -
    have "list_all (\<lambda>c. c \<noteq> CHR ''/'') b" using assms(3) by (auto simp: list_all_iff)
    moreover have "last ?m = CHR ''/''" by simp
    ultimately have "skip_back (\<lambda>c. c \<noteq> CHR ''/'') (?m @ b @ replicate j (CHR ''/'')) (length ?m + length b) = length ?m"
      by (intro skip_back_append) simp_all
    then show ?thesis using assms(1) by (simp only: append_assoc length_append add.assoc)
  qed
  have base: "basename path = b"
    using n1 n2 assms(1,2) by (simp add: basename_def Let_def)
  obtain b0 bs where b: "b = b0 # bs" using assms(2) by (cases b) auto
  have cut: "path[length ?m := CHR 0x00] = ?m @ CHR 0x00 # bs @ replicate j (CHR ''/'')"
    using assms(1) b by (simp add: list_update_append)
  let ?t = "CHR 0x00 # bs @ replicate j (CHR ''/'')"
  have dir: "dirname path False =
      (let n = skip_slashes (?m @ ?t) (length ?m) in (?m @ ?t)[n := CHR 0x00])"
    using n1 n2 cut assms(2) by (simp add: dirname_def Let_def)
  show ?thesis
  proof (cases "d = []")
    case True
    have "skip_slashes ([CHR ''/''] @ replicate i (CHR ''/'') @ ?t) (1 + i) = 1"
      using skip_slashes_append [of "replicate i (CHR ''/'')" "[CHR ''/'']" ?t] by (simp add: list_all_iff)
    then have "dirname path False = (CHR ''/'' # replicate i (CHR ''/'') @ ?t)[1 := CHR 0x00]"
      using dir True by (simp add: Let_def)
    also have "\<dots> = [CHR ''/''] @ CHR 0x00 # tl (replicate i (CHR ''/'') @ ?t)"
      by (cases i) simp_all
    finally show ?thesis using True base c_string_cut [of "''/''"] by simp
  next
    case False
    have "skip_slashes (d @ replicate (Suc i) (CHR ''/'') @ ?t) (length d + Suc i) = length d"
      using skip_slashes_append [of "replicate (Suc i) (CHR ''/'')" d ?t] False assms(5) by (simp add: list_all_iff)
    then have "dirname path False = (d @ replicate (Suc i) (CHR ''/'') @ ?t)[length d := CHR 0x00]"
      using dir by (simp add: Let_def)
    also have "\<dots> = d @ CHR 0x00 # replicate i (CHR ''/'') @ ?t" by (simp add: list_update_append)
    finally show ?thesis using False base c_string_cut [OF assms(4)] by simp
  qed
qed

section \<open>The recursion ends\<close>

lemma count_update:
  assumes "i < length xs" "y \<noteq> c"
  shows "count_list (xs[i := y]) c = count_list xs c - (if xs ! i = c then 1 else 0)"
proof -
  have "count_list xs c = count_list (take i xs @ xs ! i # drop (Suc i) xs) c"
    by (rule arg_cong [OF id_take_nth_drop [OF assms(1)]])
  then have "count_list xs c = count_list (take i xs) c + (if xs ! i = c then 1 else 0) + count_list (drop (Suc i) xs) c"
    by simp
  moreover have "count_list (xs[i := y]) c = count_list (take i xs) c + count_list (drop (Suc i) xs) c"
    using assms by (simp add: upd_conv_take_nth_drop)
  ultimately show ?thesis by simp
qed

lemma skip_slashes_range: "skip_slashes s n \<le> n \<and> (0 < n \<longrightarrow> 0 < skip_slashes s n)"
  by (induction s n rule: skip_slashes.induct) auto

lemma skip_slashes_over:
  "skip_slashes s n < n \<Longrightarrow> s ! skip_slashes s n = CHR ''/''"
proof (induction s n rule: skip_slashes.induct)
  case (1 s n)
  then have h: "s ! Suc n = CHR ''/''" "skip_slashes s (Suc (Suc n)) = skip_slashes s (Suc n)"
    by (auto split: if_splits)
  show ?case
  proof (cases "skip_slashes s (Suc n) < Suc n")
    case False
    then have "skip_slashes s (Suc n) = Suc n" using skip_slashes_range [of s "Suc n"] by simp
    then show ?thesis using h by simp
  qed (use 1 h in simp)
qed simp_all

lemma skip_slashes_stay:
  "skip_slashes s (Suc (Suc n)) = Suc (Suc n) \<Longrightarrow> s ! Suc n \<noteq> CHR ''/''"
  using skip_slashes_range [of s "Suc n"] by auto

lemma dirname_progress:
  "c_string (dirname path False) = ''/'' \<or> c_string (dirname path False) = ''.'' \<or>
   count_list (dirname path False) (CHR ''/'') < count_list path (CHR ''/'')"
proof -
  define n1 where "n1 = skip_back (\<lambda>c. c = CHR ''/'') path (length path)"
  define n2 where "n2 = skip_back (\<lambda>c. c \<noteq> CHR ''/'') path n1"
  show ?thesis
  proof (cases n1)
    case 0
    then show ?thesis by (simp add: dirname_def n1_def c_string_def)
  next
    case (Suc k1)
    then have k1: "path ! k1 \<noteq> CHR ''/''" using skip_back_stop unfolding n1_def by fastforce
    have l1: "n1 \<le> length path" unfolding n1_def by (rule skip_back_le)
    show ?thesis
    proof (cases n2)
      case 0
      then show ?thesis using Suc by (simp add: dirname_def n1_def n2_def c_string_def eval_nat_numeral Let_def)
    next
      case (Suc k)
      then have k: "path ! k = CHR ''/''" using skip_back_stop [of "\<lambda>c. c \<noteq> CHR ''/''" path n1 k] unfolding n2_def by blast
      have "n2 \<le> n1" unfolding n2_def by (rule skip_back_le)
      moreover have "n2 \<noteq> n1" using k k1 \<open>n1 = Suc k1\<close> Suc by auto
      ultimately have l2: "n2 < n1" "n2 < length path" using l1 by simp_all
      let ?p = "path[n2 := CHR 0x00]"
      define n3 where "n3 = skip_slashes ?p n2"
      have d: "dirname path False = ?p[n3 := CHR 0x00]"
      proof -
        have "n1 \<noteq> 0" "n2 \<noteq> 0" using \<open>n1 = Suc k1\<close> Suc by simp_all
        then show ?thesis unfolding n3_def
          by (simp add: dirname_def n1_def [symmetric] n2_def [symmetric] Let_def)
      qed
      have n3: "n3 \<le> n2" "0 < n3" using skip_slashes_range [of ?p n2] Suc by (simp_all add: n3_def)
      have c: "count_list ?p (CHR ''/'') \<le> count_list path (CHR ''/'')" using l2 by (simp add: count_update)
      show ?thesis
      proof (cases "n3 < n2")
        case True
        then have "?p ! n3 = CHR ''/''" unfolding n3_def by (rule skip_slashes_over)
        moreover from this have "0 < count_list ?p (CHR ''/'')"
          using True l2 by (metis count_list_0_iff gr0I length_list_update less_trans nth_mem)
        ultimately show ?thesis using c True l2 d by (simp add: count_update)
      next
        case False
        then have e: "skip_slashes ?p n2 = n2" using n3 n3_def by simp
        show ?thesis
        proof (cases k)
          case 0
          then obtain rest where "path = CHR ''/'' # rest" "rest \<noteq> []" using k l2 Suc by (cases path) auto
          then show ?thesis using d e Suc 0 n3_def by (cases rest) (simp_all add: c_string_def)
        next
          case (Suc j)
          then have "?p ! k \<noteq> CHR ''/''" using e \<open>n2 = Suc k\<close> skip_slashes_stay [of ?p j] by simp
          then show ?thesis using k \<open>n2 = Suc k\<close> by simp
        qed
      qed
    qed
  qed
qed

text \<open>
  C40: \<open>create_parent_dir\<close> ends whatever the path and the file system, the working directory and the
  root being there: every level of the recursion has a slash less, although the strings do not get
  shorter. The result is 0 or -1.
\<close>

theorem create_parent_dir_terminates:
  assumes "\<And>s. present F ''.'' s" "\<And>s. present F ''/'' s" "count_list path (CHR ''/'') + 1 < fuel"
  shows "\<exists>ret s'. create_parent_dir fuel F path s = Some (ret, s') \<and> (ret = 0 \<or> ret = - 1)"
  using assms(3)
proof (induction fuel arbitrary: path s)
  case (Suc fuel)
  let ?d = "dirname path False"
  show ?case
  proof (cases "present F (c_string ?d) s \<or> dir_ok F (c_string ?d) s")
    case False
    then have "c_string ?d \<noteq> ''/''" "c_string ?d \<noteq> ''.''" using assms(1,2) by metis+
    then have "count_list ?d (CHR ''/'') < count_list path (CHR ''/'')" using dirname_progress [of path] by simp
    then have "count_list ?d (CHR ''/'') + 1 < fuel" using Suc.prems by simp
    from Suc.IH [OF this, of s] obtain ret s' where "create_parent_dir fuel F ?d s = Some (ret, s')" by blast
    then show ?thesis using False by (auto simp: Let_def split: prod.split)
  qed (auto simp: Let_def)
qed simp

definition set_fs :: "string set fs_ops" where
  "set_fs = \<lparr>dir_ok = (\<lambda>p s. p \<in> insert ''.'' (insert ''/'' s)), present = (\<lambda>p s. p \<in> insert ''.'' (insert ''/'' s)),
     mkdir = (\<lambda>p s. if p \<in> insert ''.'' (insert ''/'' s) then (- 1, s) else (0, insert p s))\<rparr>"

theorem create_parent_dir_terminates_witness:
  "\<exists>ret s'. create_parent_dir 4 set_fs ''a//b'' {} = Some (ret, s') \<and> (ret = 0 \<or> ret = - 1)"
  by (rule create_parent_dir_terminates) (simp_all add: set_fs_def)

text \<open>
  With two slashes in a row the directory is made by the level below and then made again, which fails.
\<close>

lemma create_parent_dir_double_slash:
  "create_parent_dir 3 set_fs ''a/b'' {} = Some (0, {''a''}) \<and>
   create_parent_dir 4 set_fs ''a//b'' {} = Some (- 1, {''a''})"
  by (simp add: set_fs_def dirname_def c_string_def eval_nat_numeral Let_def)

text \<open>Without an error the result is the list of the names that begin with the prefix, in their order.\<close>

lemma scan_entries_names:
  assumes "CHR 0x00 \<notin> set prefix"
  shows "scan_entries prefix (map DirName names) files =
    (0, files @ filter (\<lambda>n. n \<noteq> ''.'' \<and> n \<noteq> ''..'' \<and> take (length prefix) n = prefix) names)"
proof (induction names arbitrary: files)
  case (Cons n names)
  have "take (length prefix) (n @ [CHR 0x00]) = prefix \<longleftrightarrow> take (length prefix) n = prefix"
  proof (cases "length prefix \<le> length n")
    case False
    then have "take (length prefix) (n @ [CHR 0x00]) = n @ [CHR 0x00]" "take (length prefix) n = n" by simp_all
    then show ?thesis using assms False by auto
  qed simp
  then show ?case using Cons by auto
qed simp

theorem scan_dir_lists:
  assumes "opendir (c_string dir_path) = Some (map DirName names)" "CHR 0x00 \<notin> set prefix"
  shows "scan_dir opendir dir_path prefix =
    (0, filter (\<lambda>n. n \<noteq> ''.'' \<and> n \<noteq> ''..'' \<and> take (length prefix) n = prefix) names)"
  using assms by (simp add: scan_dir_def scan_entries_names)

end
