(* ===== verification/Whitelist.thy ===== *)
theory Whitelist
  imports Partitions "HOL-Library.Monad_Syntax"
begin

text \<open>
  \<open>ip_whitelist.cpp\<close> with the two functions of \<open>server.cpp\<close> that own the lists: reading the file,
  asking for an address, and the hand-over of a new list from the watching thread to the event loop.
  There are two variables called \<open>whitelist\<close>: the one of \<open>ip_whitelist.cpp\<close> is what \<open>in_whitelist\<close>
  reads, the one of \<open>server.cpp\<close> only remembers what to free. \<open>inet_pton\<close> is a parameter. \<open>None\<close> as
  a result is a use of freed memory.
\<close>

section \<open>Reading the file\<close>

text \<open>\<open>fgets\<close> with a buffer of \<open>n + 1\<close> bytes: up to \<open>n\<close> characters, not beyond a newline.\<close>

fun fgets_line :: "nat \<Rightarrow> string \<Rightarrow> string \<times> string" where
  "fgets_line n [] = ([], [])"
| "fgets_line 0 s = ([], s)"
| "fgets_line (Suc n) (c # s) =
     (if c = CHR 0x0A then ([c], s) else (let (l, r) = fgets_line n s in (c # l, r)))"

lemma fgets_line_append: "fst (fgets_line n s) @ snd (fgets_line n s) = s"
  by (induction n s rule: fgets_line.induct) (auto simp: Let_def split: prod.splits)

lemma fgets_line_rest: "length (snd (fgets_line n s)) \<le> length s"
  using arg_cong [OF fgets_line_append [of n s], of length] by simp

text \<open>The successive results of \<open>fgets(buf, 128, f)\<close>.\<close>

function fgets_lines :: "string \<Rightarrow> string list" where
  "fgets_lines s = (if s = [] then [] else (let (l, r) = fgets_line 127 s in l # fgets_lines r))"
  by pat_completeness auto
termination
proof (relation "measure length")
  fix s x xa y
  assume s: "s \<noteq> []" "x = fgets_line 127 s" "(xa, y) = x"
  then obtain c s' where c: "s = c # s'" by (cases s) auto
  have "y = s' \<or> y = snd (fgets_line 126 s')"
    using s c by (auto simp: eval_nat_numeral Let_def split: if_splits prod.splits)
  then have "length y \<le> length s'" using fgets_line_rest by auto
  then show "(y, s) \<in> measure length" using c by simp
qed simp

declare fgets_lines.simps [simp del]

definition line_skipped :: "string \<Rightarrow> bool" where
  "line_skipped buf \<longleftrightarrow>
     (case c_string buf of [] \<Rightarrow> True | c # _ \<Rightarrow> c = CHR ''#'' \<or> c = CHR 0x0D \<or> c = CHR 0x0A)"

definition line_token :: "string \<Rightarrow> string" where
  "line_token buf =
     takeWhile (\<lambda>c. is_digit c \<or> c = CHR ''.'')
       (dropWhile (\<lambda>c. c = CHR '' '' \<or> c = CHR 0x09) (c_string buf))"

text \<open>
  The loop over the lines: \<open>addr\<close> is the variable of that name, which keeps its value when
  \<open>inet_pton\<close> fails.
\<close>

fun load_lines :: "(string \<Rightarrow> u32 option) \<Rightarrow> string list \<Rightarrow> u32 \<Rightarrow> u32 set \<Rightarrow> u32 set" where
  "load_lines pton [] addr ips = ips"
| "load_lines pton (buf # bufs) addr ips =
     (if line_skipped buf then load_lines pton bufs addr ips
      else (let addr = (case pton (line_token buf) of None \<Rightarrow> addr | Some a \<Rightarrow> a) in
            load_lines pton bufs addr (insert addr ips)))"

section \<open>The lists in use\<close>

record whitelist_t =
  wl_set :: "u32 set"
  wl_mtime :: int

record wl_state =
  wl_heap :: "nat \<Rightarrow> whitelist_t option"
  wl_current :: "nat option"        \<comment> \<open>\<open>whitelist\<close> of \<open>ip_whitelist.cpp\<close>\<close>
  wl_server :: "nat option"         \<comment> \<open>\<open>whitelist\<close> of \<open>server.cpp\<close>\<close>
  wl_pending :: "nat option list"   \<comment> \<open>events \<open>whitelist_changed\<close> on their way to the event loop\<close>

text \<open>What the file system and the allocations answer to one load.\<close>

record wl_env =
  env_mtime :: int                  \<comment> \<open>\<open>get_mtime\<close>, negative when there is no file\<close>
  env_file :: "string option"       \<comment> \<open>\<open>None\<close> when it cannot be opened\<close>
  env_junk :: u32                   \<comment> \<open>the uninitialised \<open>addr\<close>\<close>
  env_assign :: bool                \<comment> \<open>\<open>readset::assign\<close> succeeds\<close>

definition load_whitelist :: "(string \<Rightarrow> u32 option) \<Rightarrow> wl_env \<Rightarrow> nat \<Rightarrow> wl_state \<Rightarrow> nat option \<times> wl_state" where
  "load_whitelist pton E new s =
     (if env_mtime E < 0 then (None, s)
      else case env_file E of
        None \<Rightarrow> (None, s)
      | Some f \<Rightarrow>
          if \<not> env_assign E then (None, s)
          else (Some new,
                s\<lparr>wl_heap := (wl_heap s)(new \<mapsto> \<lparr>wl_set = load_lines pton (fgets_lines f) (env_junk E) {}, wl_mtime = env_mtime E\<rparr>),
                  wl_current := Some new\<rparr>))"

definition is_whitelist_changed :: "int \<Rightarrow> wl_state \<Rightarrow> bool option" where
  "is_whitelist_changed mtime s =
     (case wl_current s of
        None \<Rightarrow> Some False
      | Some a \<Rightarrow> map_option (\<lambda>w. wl_mtime w < mtime) (wl_heap s a))"

definition in_whitelist_u :: "u32 \<Rightarrow> wl_state \<Rightarrow> bool option" where
  "in_whitelist_u ip s =
     (case wl_current s of
        None \<Rightarrow> Some True
      | Some a \<Rightarrow> map_option (\<lambda>w. ip \<in> wl_set w) (wl_heap s a))"

definition free_whitelist :: "nat option \<Rightarrow> wl_state \<Rightarrow> wl_state option" where
  "free_whitelist w s =
     (case w of
        None \<Rightarrow> Some s
      | Some a \<Rightarrow> (case wl_heap s a of None \<Rightarrow> None | Some _ \<Rightarrow> Some (s\<lparr>wl_heap := (wl_heap s)(a := None)\<rparr>)))"

definition assign_whitelist :: "nat option \<Rightarrow> wl_state \<Rightarrow> wl_state option" where
  "assign_whitelist w s = free_whitelist (wl_server s) (s\<lparr>wl_server := w\<rparr>)"

text \<open>The event loop takes the next event.\<close>

definition whitelist_changed_event :: "wl_state \<Rightarrow> wl_state option" where
  "whitelist_changed_event s =
     (case wl_pending s of [] \<Rightarrow> Some s | w # ws \<Rightarrow> assign_whitelist w (s\<lparr>wl_pending := ws\<rparr>))"

text \<open>One round of the watching thread; \<open>mtime\<close> is what it sees when it asks for a change.\<close>

definition whitelist_round :: "(string \<Rightarrow> u32 option) \<Rightarrow> int \<Rightarrow> wl_env \<Rightarrow> nat \<Rightarrow> wl_state \<Rightarrow> wl_state option" where
  "whitelist_round pton mtime E new s =
     do { changed \<leftarrow> is_whitelist_changed mtime s;
          Some (if changed then (let (w, s) = load_whitelist pton E new s in s\<lparr>wl_pending := wl_pending s @ [w]\<rparr>) else s) }"

text \<open>The part of \<open>server_init\<close> that loads the first list.\<close>

definition whitelist_start :: "(string \<Rightarrow> u32 option) \<Rightarrow> wl_env \<Rightarrow> nat \<Rightarrow> wl_state option" where
  "whitelist_start pton E new =
     (let (w, s) = load_whitelist pton E new
        \<lparr>wl_heap = (\<lambda>_. None), wl_current = None, wl_server = None, wl_pending = []\<rparr> in assign_whitelist w s)"

section \<open>What the file allows\<close>

lemma load_lines_set:
  "load_lines pton bufs addr ips =
     ips \<union> {a. \<exists>buf \<in> set bufs. \<not> line_skipped buf \<and> pton (line_token buf) = Some a} \<union>
     (case filter (\<lambda>buf. \<not> line_skipped buf) bufs of
        [] \<Rightarrow> {} | buf # _ \<Rightarrow> if pton (line_token buf) = None then {addr} else {})"
proof (induction pton bufs addr ips rule: load_lines.induct)
  case (2 pton buf bufs addr ips)
  show ?case
  proof (cases "line_skipped buf")
    case True
    then show ?thesis using 2(1) by auto
  next
    case False
    show ?thesis
    proof (cases "pton (line_token buf)")
      case None
      then show ?thesis using 2(2) [OF False refl] False by (auto split: list.splits)
    next
      case (Some a)
      then show ?thesis using 2(2) [OF False refl] False by (auto split: list.splits if_splits)
    qed
  qed
qed simp

text \<open>
  A whitelist file allows exactly the addresses of its lines that are not skipped and that
  \<open>inet_pton\<close> accepts, and one more when the first line that is not skipped is refused: whatever the
  uninitialised address variable holds.
\<close>

theorem whitelist_allows:
  assumes "0 \<le> env_mtime E" "env_file E = Some f" "env_assign E"
  shows "\<exists>s'. load_whitelist pton E new s = (Some new, s') \<and>
    in_whitelist_u ip s' = Some
      ((\<exists>buf \<in> set (fgets_lines f). \<not> line_skipped buf \<and> pton (line_token buf) = Some ip) \<or>
       (\<exists>buf bufs. filter (\<lambda>buf. \<not> line_skipped buf) (fgets_lines f) = buf # bufs \<and>
          pton (line_token buf) = None \<and> ip = env_junk E))"
  using assms
  by (auto simp: load_whitelist_def in_whitelist_u_def load_lines_set split: list.splits)

definition example_env :: wl_env where
  "example_env = \<lparr>env_mtime = 5, env_file = Some (''#x'' @ [CHR 0x0A] @ ''1.2'' @ [CHR 0x0A]), env_junk = 0, env_assign = True\<rparr>"

definition example_pton :: "string \<Rightarrow> u32 option" where
  "example_pton s = (if s = ''1.2'' then Some 7 else None)"

definition empty_wl :: wl_state where
  "empty_wl = \<lparr>wl_heap = (\<lambda>_. None), wl_current = None, wl_server = None, wl_pending = []\<rparr>"

theorem whitelist_allows_witness:
  "\<exists>s'. load_whitelist example_pton example_env 1 empty_wl = (Some 1, s') \<and> in_whitelist_u 7 s' = Some True"
proof -
  have l: "fgets_lines (''#x'' @ [CHR 0x0A] @ ''1.2'' @ [CHR 0x0A]) = [''#x'' @ [CHR 0x0A], ''1.2'' @ [CHR 0x0A]]"
    by (simp add: fgets_lines.simps [of "_ # _"] fgets_lines.simps [of "[]"] eval_nat_numeral)
  have t: "line_token (''1.2'' @ [CHR 0x0A]) = ''1.2''" "\<not> line_skipped (''1.2'' @ [CHR 0x0A])"
    by (simp_all add: line_token_def line_skipped_def c_string_def is_digit_def)
  have f: "0 \<le> env_mtime example_env" "env_file example_env = Some (''#x'' @ [CHR 0x0A] @ ''1.2'' @ [CHR 0x0A])"
    "env_assign example_env" by (simp_all add: example_env_def)
  from whitelist_allows [OF f, of example_pton 1 empty_wl 7] show ?thesis
    unfolding l using t by (auto simp: example_pton_def)
qed

section \<open>The hand-over\<close>

text \<open>All histories in which every load of a changed file succeeds.\<close>

definition env_good :: "wl_env \<Rightarrow> bool" where
  "env_good E \<longleftrightarrow> 0 \<le> env_mtime E \<and> env_file E \<noteq> None \<and> env_assign E"

inductive wl_reach :: "(string \<Rightarrow> u32 option) \<Rightarrow> wl_state \<Rightarrow> bool" for pton where
  wl_started: "whitelist_start pton E new = Some s \<Longrightarrow> wl_reach pton s"
| wl_round: "wl_reach pton s \<Longrightarrow> env_good E \<Longrightarrow> wl_heap s new = None \<Longrightarrow>
    whitelist_round pton mtime E new s = Some s' \<Longrightarrow> wl_reach pton s'"
| wl_event: "wl_reach pton s \<Longrightarrow> whitelist_changed_event s = Some s' \<Longrightarrow> wl_reach pton s'"

text \<open>
  The lists alive are the one the server remembers and those on their way to it; the last of them is
  the one in use.
\<close>

definition wl_owned :: "wl_state \<Rightarrow> nat option list" where
  "wl_owned s = wl_server s # wl_pending s"

definition wl_ok :: "wl_state \<Rightarrow> bool" where
  "wl_ok s \<longleftrightarrow>
     (wl_current s = None \<and> wl_owned s = [None] \<and> (\<forall>a. wl_heap s a = None)) \<or>
     (\<exists>as. wl_owned s = map Some as \<and> distinct as \<and> set as = {a. wl_heap s a \<noteq> None} \<and> wl_current s = Some (last as))"

lemma load_good:
  assumes "env_good E"
  shows "\<exists>w. load_whitelist pton E new s = (Some new, s\<lparr>wl_heap := (wl_heap s)(new \<mapsto> w), wl_current := Some new\<rparr>)"
  using assms by (auto simp: env_good_def load_whitelist_def)

lemma wl_ok_start: "whitelist_start pton E new = Some s \<Longrightarrow> wl_ok s"
  by (auto simp: whitelist_start_def load_whitelist_def assign_whitelist_def free_whitelist_def wl_ok_def wl_owned_def
      Let_def intro!: exI [of _ "[new]"] split: if_splits option.splits)

lemma wl_ok_round:
  assumes "wl_ok s" "env_good E" "wl_heap s new = None"
  shows "\<exists>s'. whitelist_round pton mtime E new s = Some s' \<and> wl_ok s'"
proof (cases "wl_current s")
  case None
  then show ?thesis using assms(1) by (simp add: whitelist_round_def is_whitelist_changed_def)
next
  case (Some a)
  with assms(1) obtain as where as: "wl_owned s = map Some as" "distinct as" "set as = {a. wl_heap s a \<noteq> None}"
    "wl_current s = Some (last as)" by (auto simp: wl_ok_def)
  have "as \<noteq> []" using as(1) by (auto simp: wl_owned_def)
  then have "last as \<in> set as" by simp
  then obtain w where w: "wl_heap s a = Some w" using as(3,4) Some by auto
  show ?thesis
  proof (cases "wl_mtime w < mtime")
    case False
    then show ?thesis using assms(1) Some w by (simp add: whitelist_round_def is_whitelist_changed_def)
  next
    case True
    obtain v where v: "load_whitelist pton E new s = (Some new, s\<lparr>wl_heap := (wl_heap s)(new \<mapsto> v), wl_current := Some new\<rparr>)"
      using load_good [OF assms(2)] by blast
    let ?s = "s\<lparr>wl_heap := (wl_heap s)(new \<mapsto> v), wl_current := Some new, wl_pending := wl_pending s @ [Some new]\<rparr>"
    have "whitelist_round pton mtime E new s = Some ?s"
      using Some w True v by (simp add: whitelist_round_def is_whitelist_changed_def)
    moreover have "wl_ok ?s" unfolding wl_ok_def
      by (rule disjI2, rule exI [of _ "as @ [new]"]) (use as assms(3) in \<open>auto simp: wl_owned_def\<close>)
    ultimately show ?thesis by blast
  qed
qed

lemma wl_ok_event:
  assumes "wl_ok s"
  shows "\<exists>s'. whitelist_changed_event s = Some s' \<and> wl_ok s'"
proof (cases "wl_pending s")
  case Nil
  then show ?thesis using assms by (simp add: whitelist_changed_event_def)
next
  case (Cons p ps)
  then obtain a as where as: "wl_server s = Some a" "p # ps = map Some as" "distinct (a # as)"
    "set (a # as) = {a. wl_heap s a \<noteq> None}" "wl_current s = Some (last (a # as))"
    using assms by (auto simp: wl_ok_def wl_owned_def Cons_eq_map_conv)
  have "a \<in> {a. wl_heap s a \<noteq> None}" using as(4) by auto
  then obtain w where w: "wl_heap s a = Some w" by auto
  let ?s = "s\<lparr>wl_pending := ps, wl_server := p, wl_heap := (wl_heap s)(a := None)\<rparr>"
  have "whitelist_changed_event s = Some ?s"
    using Cons as(1) w by (simp add: whitelist_changed_event_def assign_whitelist_def free_whitelist_def)
  moreover have "wl_ok ?s" unfolding wl_ok_def
  proof (rule disjI2, rule exI [of _ as], intro conjI)
    have "set as = {b. wl_heap s b \<noteq> None} - {a}" using as(3,4) by auto
    then show "set as = {b. wl_heap ?s b \<noteq> None}" by auto
  qed (use as in \<open>auto simp: wl_owned_def\<close>)
  ultimately show ?thesis by blast
qed

lemma wl_reach_ok: "wl_reach pton s \<Longrightarrow> wl_ok s"
proof (induction rule: wl_reach.induct)
  case (wl_started E new s)
  then show ?case by (rule wl_ok_start)
next
  case (wl_round s E new mtime s')
  then show ?case using wl_ok_round [of s E new pton mtime] by auto
next
  case (wl_event s s')
  then show ?case using wl_ok_event [of s] by auto
qed

text \<open>
  As long as a changed whitelist file can be loaded, no question, no check for a change and no
  hand-over ever uses a list that has been freed, whatever the order of the thread's rounds and of
  the events; and nothing leaks: once no event is on its way the list in use is the only one alive.
\<close>

theorem whitelist_handover_safe:
  assumes "wl_reach pton s"
  shows "in_whitelist_u ip s \<noteq> None \<and> is_whitelist_changed mtime s \<noteq> None \<and> whitelist_changed_event s \<noteq> None \<and>
    (if wl_pending s = [] then {a. wl_heap s a \<noteq> None} = set_option (wl_current s) else True)"
proof -
  have ok: "wl_ok s" by (rule wl_reach_ok [OF assms])
  have cur: "wl_heap s a \<noteq> None" if "wl_current s = Some a" for a
  proof -
    from ok that obtain as where as: "wl_owned s = map Some as" "set as = {a. wl_heap s a \<noteq> None}" "a = last as"
      by (auto simp: wl_ok_def)
    have "as \<noteq> []" using as(1) by (auto simp: wl_owned_def)
    then have "last as \<in> set as" by simp
    then show ?thesis using as(2,3) by blast
  qed
  have "{a. wl_heap s a \<noteq> None} = set_option (wl_current s)" if pending: "wl_pending s = []"
    using ok unfolding wl_ok_def
  proof
    assume "\<exists>as. wl_owned s = map Some as \<and> distinct as \<and> set as = {a. wl_heap s a \<noteq> None} \<and> wl_current s = Some (last as)"
    then obtain as where as: "wl_owned s = map Some as" "set as = {a. wl_heap s a \<noteq> None}" "wl_current s = Some (last as)"
      by blast
    then obtain a where "as = [a]" using pending by (auto simp: wl_owned_def Cons_eq_map_conv)
    then show ?thesis using as(2,3) by simp
  qed simp
  then show ?thesis using cur wl_ok_event [OF ok]
    by (auto simp: in_whitelist_u_def is_whitelist_changed_def split: option.split)
qed

lemma example_started: "wl_reach example_pton (the (whitelist_start example_pton example_env 1))"
  by (rule wl_started [of _ example_env 1])
    (simp add: whitelist_start_def load_whitelist_def assign_whitelist_def free_whitelist_def example_env_def Let_def)

theorem whitelist_handover_safe_witness:
  "in_whitelist_u 3 (the (whitelist_start example_pton example_env 1)) \<noteq> None"
  using whitelist_handover_safe [OF example_started] by blast

text \<open>
  A changed file that cannot be loaded again makes the thread hand over NULL: the event loop frees
  the list that is still in use, and the next question for an address uses freed memory.
\<close>

theorem whitelist_failed_load_dangles:
  assumes "wl_server s = Some a" "wl_current s = Some a" "wl_heap s a = Some w" "wl_pending s = []"
    and "wl_mtime w < mtime" "env_mtime E < 0 \<or> env_file E = None \<or> \<not> env_assign E"
  shows "\<exists>s1 s2. whitelist_round pton mtime E new s = Some s1 \<and> whitelist_changed_event s1 = Some s2 \<and>
    in_whitelist_u ip s2 = None"
proof -
  have "load_whitelist pton E new s = (None, s)" using assms(6) by (auto simp: load_whitelist_def split: option.split)
  then have "whitelist_round pton mtime E new s = Some (s\<lparr>wl_pending := [None]\<rparr>)"
    using assms(2-5) by (simp add: whitelist_round_def is_whitelist_changed_def)
  moreover have "whitelist_changed_event (s\<lparr>wl_pending := [None]\<rparr>) =
      Some (s\<lparr>wl_pending := [], wl_server := None, wl_heap := (wl_heap s)(a := None)\<rparr>)"
    using assms(1,3) by (simp add: whitelist_changed_event_def assign_whitelist_def free_whitelist_def)
  ultimately show ?thesis using assms(2) by (simp add: in_whitelist_u_def)
qed

theorem whitelist_failed_load_dangles_witness:
  "\<exists>s1 s2. whitelist_round example_pton 9 (example_env\<lparr>env_file := None\<rparr>) 2
       \<lparr>wl_heap = [1 \<mapsto> \<lparr>wl_set = {7}, wl_mtime = 5\<rparr>], wl_current = Some 1, wl_server = Some 1, wl_pending = []\<rparr> = Some s1 \<and>
     whitelist_changed_event s1 = Some s2 \<and> in_whitelist_u 7 s2 = None"
  by (rule whitelist_failed_load_dangles [where a = 1 and w = "\<lparr>wl_set = {7}, wl_mtime = 5\<rparr>"]) simp_all

text \<open>A whitelist that cannot be loaded at the start allows every address, and is never looked at again.\<close>

lemma whitelist_missing_at_start:
  assumes "env_mtime E < 0" "whitelist_start pton E new = Some s"
  shows "in_whitelist_u ip s = Some True \<and> whitelist_round pton mtime E' new' s = Some s"
  using assms by (auto simp: whitelist_start_def load_whitelist_def assign_whitelist_def free_whitelist_def
      in_whitelist_u_def whitelist_round_def is_whitelist_changed_def Let_def)

end
