(* ===== verification/Mem.thy ===== *)
theory Mem
  imports Queues
begin

text \<open>
  The memory pools of \<open>mem.cpp\<close>: every block has a header that links it with the other blocks of its
  pool, so that any of them gives access to all. A block is named by the address of its header; the
  results of \<open>malloc\<close>, \<open>calloc\<close> and \<open>realloc\<close> are parameters. \<open>None\<close> as a result is an access to
  memory that is not allocated or a failed \<open>ASSERT\<close>.
\<close>

section \<open>Headers\<close>

definition SIG :: u32 where "SIG = 0xba1da5b3"

record 'd mem_state =
  mem_next :: "nat \<Rightarrow> nat option"
  mem_prev :: "nat \<Rightarrow> nat option"
  mem_data :: "nat \<Rightarrow> 'd"
  mem_sig :: "nat \<Rightarrow> u32"
  mem_live :: "nat set"

text \<open>The assertion on a header: it is allocated and has the signature.\<close>

definition mem_valid :: "'d mem_state \<Rightarrow> nat \<Rightarrow> bool" where
  "mem_valid s a \<longleftrightarrow> a \<in> mem_live s \<and> mem_sig s a = SIG"

definition live_opt :: "'d mem_state \<Rightarrow> nat option \<Rightarrow> bool" where
  "live_opt s p \<longleftrightarrow> (case p of None \<Rightarrow> True | Some a \<Rightarrow> a \<in> mem_live s)"

definition mem_free :: "nat \<Rightarrow> 'd mem_state \<Rightarrow> 'd mem_state option" where
  "mem_free a s = (if a \<in> mem_live s then Some (s\<lparr>mem_live := mem_live s - {a}\<rparr>) else None)"

section \<open>Operations\<close>

definition emalloc :: "nat option \<Rightarrow> nat \<Rightarrow> 'd mem_state \<Rightarrow> (nat option \<times> 'd mem_state) option" where
  "emalloc new base s =
     (if \<not> mem_valid s base then None
      else case new of
        None \<Rightarrow> Some (None, s)
      | Some n \<Rightarrow>
          let nx = (mem_next s)(n := mem_next s base); nx = nx(base := Some n); pv = (mem_prev s)(n := Some base) in
          if \<not> live_opt s (nx n) then None
          else
            let pv = (case nx n of None \<Rightarrow> pv | Some m \<Rightarrow> pv(m := Some n)) in
            Some (Some n, s\<lparr>mem_next := nx, mem_prev := pv, mem_sig := (mem_sig s)(n := SIG),
              mem_data := (mem_data s)(n := mem_data s base), mem_live := insert n (mem_live s)\<rparr>))"

text \<open>\<open>ecalloc\<close> differs only in the contents of the block.\<close>

definition ecalloc :: "nat option \<Rightarrow> nat \<Rightarrow> 'd mem_state \<Rightarrow> (nat option \<times> 'd mem_state) option" where
  "ecalloc = emalloc"

text \<open>\<open>realloc\<close> copies the header when it moves the block; the neighbours are told the new address.\<close>

definition erealloc :: "nat option \<Rightarrow> nat \<Rightarrow> 'd mem_state \<Rightarrow> (nat option \<times> 'd mem_state) option" where
  "erealloc new base s =
     (if \<not> mem_valid s base then None
      else case new of
        None \<Rightarrow> Some (None, s)
      | Some n \<Rightarrow>
          let s = s\<lparr>mem_next := (mem_next s)(n := mem_next s base), mem_prev := (mem_prev s)(n := mem_prev s base),
                    mem_sig := (mem_sig s)(n := mem_sig s base), mem_data := (mem_data s)(n := mem_data s base),
                    mem_live := insert n (mem_live s - {base})\<rparr> in
          if \<not> live_opt s (mem_next s n) then None
          else
            let s = s\<lparr>mem_prev := (case mem_next s n of None \<Rightarrow> mem_prev s | Some m \<Rightarrow> (mem_prev s)(m := Some n))\<rparr> in
            if \<not> live_opt s (mem_prev s n) then None
            else
              Some (Some n, s\<lparr>mem_next := (case mem_prev s n of None \<Rightarrow> mem_next s | Some m \<Rightarrow> (mem_next s)(m := Some n))\<rparr>))"

text \<open>\<open>emalloc_new\<close> leaves \<open>data\<close> as \<open>malloc\<close> gives it (\<open>junk\<close>), \<open>ecalloc_new\<close> clears it.\<close>

definition emalloc_new :: "nat option \<Rightarrow> 'd \<Rightarrow> 'd mem_state \<Rightarrow> nat option \<times> 'd mem_state" where
  "emalloc_new new junk s =
     (case new of
        None \<Rightarrow> (None, s)
      | Some n \<Rightarrow>
          (Some n, s\<lparr>mem_next := (mem_next s)(n := None), mem_prev := (mem_prev s)(n := None),
             mem_sig := (mem_sig s)(n := SIG), mem_data := (mem_data s)(n := junk), mem_live := insert n (mem_live s)\<rparr>))"

definition ecalloc_new :: "nat option \<Rightarrow> 'd::zero mem_state \<Rightarrow> nat option \<times> 'd mem_state" where
  "ecalloc_new new s = emalloc_new new 0 s"

definition emalloc_safe :: "nat option \<Rightarrow> nat option \<Rightarrow> 'd \<Rightarrow> 'd mem_state \<Rightarrow> (nat option \<times> 'd mem_state) option" where
  "emalloc_safe new base junk s =
     (case base of None \<Rightarrow> Some (emalloc_new new junk s) | Some b \<Rightarrow> emalloc new b s)"

definition efree :: "nat \<Rightarrow> 'd mem_state \<Rightarrow> 'd mem_state option" where
  "efree a s =
     (if \<not> mem_valid s a \<or> \<not> live_opt s (mem_next s a) \<or> \<not> live_opt s (mem_prev s a) then None
      else
        let s = s\<lparr>mem_prev := unlink_pv (mem_next s) (mem_prev s) a\<rparr>;
            s = s\<lparr>mem_next := unlink_nx (mem_next s) (mem_prev s) a\<rparr>
        in mem_free a s)"

text \<open>A loop of \<open>efree_all\<close>: follow \<open>next\<close> (or \<open>prev\<close>) and free.\<close>

fun free_chain :: "nat \<Rightarrow> (nat \<Rightarrow> nat option) \<Rightarrow> nat option \<Rightarrow> 'd mem_state \<Rightarrow> 'd mem_state option" where
  "free_chain fuel link None s = Some s"
| "free_chain 0 link (Some n) s = None"
| "free_chain (Suc fuel) link (Some n) s =
     (if \<not> mem_valid s n then None else Option.bind (mem_free n s) (free_chain fuel link (link n)))"

definition efree_all :: "nat \<Rightarrow> nat \<Rightarrow> 'd mem_state \<Rightarrow> 'd mem_state option" where
  "efree_all fuel a s =
     (if \<not> mem_valid s a then None
      else do {
        s1 \<leftarrow> free_chain fuel (mem_next s) (mem_next s a) s;
        s2 \<leftarrow> free_chain fuel (mem_prev s) (mem_prev s a) s1;
        mem_free a s2 })"

definition e_set_data :: "nat \<Rightarrow> 'd \<Rightarrow> 'd mem_state \<Rightarrow> 'd mem_state option" where
  "e_set_data a d s = (if a \<in> mem_live s then Some (s\<lparr>mem_data := (mem_data s)(a := d)\<rparr>) else None)"

definition e_get_data :: "nat \<Rightarrow> 'd mem_state \<Rightarrow> 'd option" where
  "e_get_data a s = (if a \<in> mem_live s then Some (mem_data s a) else None)"

section \<open>A pool as a list of blocks\<close>

text \<open>The middle of a list of links: what surrounds a node, and how to put the parts together.\<close>

lemma lseg_parts:
  "lseg nx pv None (as @ x # bs) None \<longleftrightarrow>
     lseg nx pv None as (Some x) \<and> pv x = final as \<and> nx x = first bs \<and> lseg nx pv (Some x) bs None"
  by (cases "as = []"; cases bs) (auto simp: lseg_append)

lemma lseg_first:
  "lseg nx pv p (m # bs) q \<longleftrightarrow> pv m = p \<and> lseg nx pv (pv m) (m # bs) q"
  by auto

text \<open>Linking a node \<open>n\<close> behind \<open>b\<close>.\<close>

lemma lseg_insert_after:
  assumes "lseg nx pv None (as @ b # bs) None" "distinct (as @ b # bs)" "n \<notin> set (as @ b # bs)"
    and "nx' = nx(n := nx b, b := Some n)"
    and "pv' = (case nx b of None \<Rightarrow> pv(n := Some b) | Some m \<Rightarrow> pv(n := Some b, m := Some n))"
  shows "lseg nx' pv' None (as @ b # n # bs) None"
proof -
  have l: "lseg nx pv None as (Some b)" "pv b = final as" "nx b = first bs" "lseg nx pv (Some b) bs None"
    using assms(1) by (simp_all add: lseg_parts)
  have nb: "nx b \<noteq> Some y" if "y \<in> set as \<or> y = b" for y
    using that l(3) assms(2) by (cases bs) auto
  have a: "lseg nx' pv' None as (Some b)"
    using l(1) nb assms(2-5) by (subst lseg_frame [where nx = nx and pv = pv]) (auto split: option.splits)
  have b: "pv' b = final as" "nx' b = Some n"
    using l(2) nb assms(3-5) by (auto split: option.splits)
  have n: "pv' n = Some b" "nx' n = first bs"
    using l(3) assms(3-5) by (cases bs; auto)+
  have bs: "lseg nx' pv' (Some n) bs None"
  proof (cases bs)
    case (Cons m ms)
    have "lseg nx' pv' (Some m) ms None = lseg nx pv (Some m) ms None"
      using assms(2-5) l(3) Cons by (intro lseg_frame) auto
    then show ?thesis using l(3,4) Cons assms(2-5) by (cases ms) auto
  qed simp
  have "lseg nx' pv' None (as @ b # (n # bs)) None"
    unfolding lseg_parts using a b n bs by (cases bs) auto
  then show ?thesis by simp
qed

text \<open>Moving a node \<open>x\<close> to a new address \<open>n\<close>.\<close>

lemma lseg_move:
  assumes "lseg nx pv None (as @ x # bs) None" "distinct (as @ x # bs)" "n \<notin> set (as @ x # bs)"
    and "pv' = (case nx x of None \<Rightarrow> pv(n := pv x) | Some m \<Rightarrow> pv(n := pv x, m := Some n))"
    and "nx' = (case pv x of None \<Rightarrow> nx(n := nx x) | Some p \<Rightarrow> nx(n := nx x, p := Some n))"
  shows "lseg nx' pv' None (as @ n # bs) None"
proof -
  have l: "lseg nx pv None as (Some x)" "pv x = final as" "nx x = first bs" "lseg nx pv (Some x) bs None"
    using assms(1) by (simp_all add: lseg_parts)
  have a: "lseg nx' pv' None as (Some n)"
  proof (cases as rule: rev_cases)
    case (snoc as' p)
    have "nx x \<noteq> Some y" if "y \<in> set as" for y using that l(3) assms(2) by (cases bs) auto
    then have "lseg nx' pv' None as' (Some p) = lseg nx pv None as' (Some p)"
      using assms(2-5) l(2) snoc by (intro lseg_frame) (auto split: option.splits)
    moreover have "pv' p = pv p" "nx' p = Some n"
      using assms(2-5) l(2,3) snoc by (cases bs; auto)+
    ultimately show ?thesis using l(1) snoc by (simp add: lseg_append)
  qed simp
  have n: "pv' n = final as" "nx' n = first bs"
    using l(2,3) assms(3-5) by (cases bs; cases as rule: rev_cases; auto)+
  have bs: "lseg nx' pv' (Some n) bs None"
  proof (cases bs)
    case (Cons m ms)
    have px: "p \<notin> set bs" if "pv x = Some p" for p using that l(2) assms(2) by (cases as rule: rev_cases) auto
    have "lseg nx' pv' (Some m) ms None = lseg nx pv (Some m) ms None" "nx' m = nx m"
      using px assms(2-5) l(3) Cons by (cases "pv x"; auto intro!: lseg_frame)+
    then show ?thesis using l(3,4) Cons assms(2-5) by (cases ms) auto
  qed simp
  show ?thesis unfolding lseg_parts using a n bs by blast
qed

definition pool_of :: "'d mem_state \<Rightarrow> nat list \<Rightarrow> bool" where
  "pool_of s xs \<longleftrightarrow> distinct xs \<and> lseg (mem_next s) (mem_prev s) None xs None \<and> set xs \<subseteq> mem_live s \<and>
     (\<forall>x \<in> set xs. mem_sig s x = SIG)"

lemma pool_of_valid: "pool_of s xs \<Longrightarrow> x \<in> set xs \<Longrightarrow> mem_valid s x"
  by (auto simp: pool_of_def mem_valid_def)

lemma pool_of_neighbours:
  assumes "pool_of s (as @ x # bs)"
  shows "mem_next s x = first bs" "mem_prev s x = final as" "live_opt s (mem_next s x)" "live_opt s (mem_prev s x)"
proof -
  show "mem_next s x = first bs" "mem_prev s x = final as" using assms by (simp_all add: pool_of_def lseg_parts)
  then show "live_opt s (mem_next s x)" "live_opt s (mem_prev s x)"
    using assms by (cases bs; cases as rule: rev_cases; auto simp: pool_of_def live_opt_def)+
qed

lemma emalloc_pool:
  assumes "pool_of s (as @ b # bs)" "n \<notin> mem_live s"
  shows "\<exists>s'. emalloc (Some n) b s = Some (Some n, s') \<and> pool_of s' (as @ b # n # bs) \<and>
    mem_live s' = insert n (mem_live s) \<and> mem_data s' n = mem_data s b"
proof -
  have v: "mem_valid s b" using pool_of_valid [OF assms(1)] by simp
  have nl: "n \<notin> set (as @ b # bs)" using assms by (auto simp: pool_of_def)
  let ?nx = "(mem_next s)(n := mem_next s b, b := Some n)"
  let ?pv = "case mem_next s b of None \<Rightarrow> (mem_prev s)(n := Some b) | Some m \<Rightarrow> (mem_prev s)(n := Some b, m := Some n)"
  let ?s = "s\<lparr>mem_next := ?nx, mem_prev := ?pv, mem_sig := (mem_sig s)(n := SIG),
    mem_data := (mem_data s)(n := mem_data s b), mem_live := insert n (mem_live s)\<rparr>"
  have nb: "n \<noteq> b" "b \<noteq> n" using nl by auto
  have "emalloc (Some n) b s = Some (Some n, ?s)"
    using v nb pool_of_neighbours(3) [OF assms(1)] by (simp add: emalloc_def Let_def)
  moreover have "lseg ?nx ?pv None (as @ b # n # bs) None"
    by (rule lseg_insert_after [OF _ _ nl refl refl]) (use assms(1) in \<open>simp_all add: pool_of_def\<close>)
  then have "pool_of ?s (as @ b # n # bs)" using assms(1) nl by (auto simp: pool_of_def)
  ultimately show ?thesis by auto
qed

lemma erealloc_pool:
  assumes "pool_of s (as @ x # bs)" "n \<notin> mem_live s"
  shows "\<exists>s'. erealloc (Some n) x s = Some (Some n, s') \<and> pool_of s' (as @ n # bs) \<and>
    mem_live s' = insert n (mem_live s - {x}) \<and> mem_data s' n = mem_data s x"
proof -
  have v: "mem_valid s x" using pool_of_valid [OF assms(1)] by simp
  have nl: "n \<notin> set (as @ x # bs)" using assms by (auto simp: pool_of_def)
  have d: "distinct (as @ x # bs)" using assms(1) by (simp add: pool_of_def)
  note nb = pool_of_neighbours [OF assms(1)]
  let ?nx = "case mem_prev s x of None \<Rightarrow> (mem_next s)(n := mem_next s x) | Some p \<Rightarrow> (mem_next s)(n := mem_next s x, p := Some n)"
  let ?pv = "case mem_next s x of None \<Rightarrow> (mem_prev s)(n := mem_prev s x) | Some m \<Rightarrow> (mem_prev s)(n := mem_prev s x, m := Some n)"
  let ?s = "s\<lparr>mem_next := ?nx, mem_prev := ?pv, mem_sig := (mem_sig s)(n := mem_sig s x),
    mem_data := (mem_data s)(n := mem_data s x), mem_live := insert n (mem_live s - {x})\<rparr>"
  have out: "mem_next s x \<noteq> Some x" "mem_prev s x \<noteq> Some x" "mem_next s x \<noteq> Some n" "mem_prev s x \<noteq> Some n"
    using nb(1,2) d nl by (cases bs; cases as rule: rev_cases; auto)+
  then have "erealloc (Some n) x s = Some (Some n, ?s)"
    using v nb(3,4) by (auto simp: erealloc_def Let_def live_opt_def split: option.splits)
  moreover have "lseg ?nx ?pv None (as @ n # bs) None"
    by (rule lseg_move [OF _ d nl refl refl]) (use assms(1) in \<open>simp add: pool_of_def\<close>)
  then have "pool_of ?s (as @ n # bs)" using assms(1) nl d by (auto simp: pool_of_def)
  ultimately show ?thesis by auto
qed

lemma efree_pool:
  assumes "pool_of s (as @ x # bs)"
  shows "\<exists>s'. efree x s = Some s' \<and> pool_of s' (as @ bs) \<and> mem_live s' = mem_live s - {x}"
proof -
  have v: "mem_valid s x" using pool_of_valid [OF assms] by simp
  note nb = pool_of_neighbours [OF assms]
  have d: "dll (mem_next s) (mem_prev s) (first (as @ x # bs)) (final (as @ x # bs)) (as @ x # bs)"
    using assms by (simp add: pool_of_def dll_def)
  have "mem_next s x \<noteq> Some x" using nb(1) assms by (cases bs) (auto simp: pool_of_def)
  then have px: "unlink_pv (mem_next s) (mem_prev s) x x = mem_prev s x" by (auto simp: unlink_pv_def split: option.split)
  then have "unlink_nx (mem_next s) (unlink_pv (mem_next s) (mem_prev s) x) x = unlink_nx (mem_next s) (mem_prev s) x"
    by (simp add: unlink_nx_def)
  moreover have "mem_live s - {x} \<subseteq> mem_live s" "x \<in> mem_live s" using v by (auto simp: mem_valid_def)
  ultimately have "efree x s = Some (s\<lparr>mem_prev := unlink_pv (mem_next s) (mem_prev s) x,
      mem_next := unlink_nx (mem_next s) (mem_prev s) x, mem_live := mem_live s - {x}\<rparr>)"
    using v nb(3,4) by (simp add: efree_def mem_free_def Let_def)
  then show ?thesis using dll_unlink [OF d] assms by (auto simp: pool_of_def dll_def)
qed

lemma free_chain_list:
  assumes "set xs \<subseteq> mem_live s" "distinct xs" "\<forall>x \<in> set xs. mem_sig s x = SIG" "length xs \<le> fuel"
    and "lk = first xs" "\<And>as x bs. xs = as @ x # bs \<Longrightarrow> link x = first bs"
  shows "free_chain fuel link lk s = Some (s\<lparr>mem_live := mem_live s - set xs\<rparr>)"
  using assms
proof (induction xs arbitrary: fuel s lk)
  case (Cons x xs)
  then obtain f where f: "fuel = Suc f" by (cases fuel) auto
  let ?s = "s\<lparr>mem_live := mem_live s - {x}\<rparr>"
  have x: "mem_valid s x" "mem_free x s = Some ?s" "link x = first xs"
    using Cons.prems(1,3) Cons.prems(6) [of "[]" x xs] by (auto simp: mem_valid_def mem_free_def)
  have "free_chain f link (first xs) ?s = Some (?s\<lparr>mem_live := mem_live ?s - set xs\<rparr>)"
    by (rule Cons.IH) (use Cons.prems f in \<open>auto simp: Cons_eq_append_conv\<close>)
  then show ?case using x f Cons.prems(5) by (simp add: Diff_insert2 [symmetric] insert_commute)
qed (cases fuel; simp)

text \<open>\<open>efree_all\<close> from any block of a pool frees exactly the blocks of the pool.\<close>

lemma efree_all_pool:
  assumes "pool_of s (as @ x # bs)" "length (as @ bs) \<le> fuel"
  shows "\<exists>s'. efree_all fuel x s = Some s' \<and> mem_live s' = mem_live s - set (as @ x # bs)"
proof -
  note nb = pool_of_neighbours [OF assms(1)]
  from assms(1) have p: "distinct (as @ x # bs)" "set (as @ x # bs) \<subseteq> mem_live s" "\<forall>y \<in> set (as @ x # bs). mem_sig s y = SIG"
    by (simp_all add: pool_of_def)
  have nxt: "mem_next s y = first ds" if "bs = cs @ y # ds" for cs y ds
    using pool_of_neighbours(1) [of s "as @ x # cs" y ds] assms(1) that by simp
  have prv: "mem_prev s y = final cs" if "as = cs @ y # ds" for cs y ds
    using pool_of_neighbours(2) [of s cs y "ds @ x # bs"] assms(1) that by simp
  have one: "free_chain fuel (mem_next s) (mem_next s x) s = Some (s\<lparr>mem_live := mem_live s - set bs\<rparr>)"
    by (rule free_chain_list) (use p assms(2) nb(1) nxt in auto)
  let ?s = "s\<lparr>mem_live := mem_live s - set bs\<rparr>"
  have two: "free_chain fuel (mem_prev s) (mem_prev s x) ?s = Some (?s\<lparr>mem_live := mem_live ?s - set (rev as)\<rparr>)"
  proof (rule free_chain_list)
    show "mem_prev s x = first (rev as)" using nb(2) by (cases as rule: rev_cases) auto
    fix cs y ds
    assume "rev as = cs @ y # ds"
    then have "as = rev ds @ y # rev cs" by (metis append.assoc append_Cons append_Nil rev.simps(2) rev_append rev_rev_ident)
    from prv [OF this] show "mem_prev s y = first ds" by (cases ds) auto
  qed (use p assms(2) in auto)
  have "x \<in> mem_live s - set bs - set (rev as)" using p by auto
  then have "efree_all fuel x s = Some (?s\<lparr>mem_live := mem_live s - set bs - set (rev as) - {x}\<rparr>)"
    using one two pool_of_valid [OF assms(1), of x] by (simp add: efree_all_def mem_free_def)
  then show ?thesis by auto
qed

section \<open>Histories of a pool\<close>

text \<open>
  A pool made when the blocks \<open>L\<close> are in use by others, after any sequence of allocations, moves and
  releases of its blocks; \<open>B\<close> are the blocks it should consist of.
\<close>

inductive mem_reach :: "nat set \<Rightarrow> 'd mem_state \<Rightarrow> nat set \<Rightarrow> bool" for L where
  mem_new: "n \<notin> L \<Longrightarrow> mem_live s = L \<Longrightarrow> emalloc_new (Some n) junk s = (Some n, s') \<Longrightarrow> mem_reach L s' {n}"
| mem_malloc: "mem_reach L s B \<Longrightarrow> b \<in> B \<Longrightarrow> n \<notin> mem_live s \<Longrightarrow> emalloc (Some n) b s = Some (r, s') \<Longrightarrow>
    mem_reach L s' (insert n B)"
| mem_realloc: "mem_reach L s B \<Longrightarrow> b \<in> B \<Longrightarrow> n \<notin> mem_live s \<Longrightarrow> erealloc (Some n) b s = Some (r, s') \<Longrightarrow>
    mem_reach L s' (insert n (B - {b}))"
| mem_release: "mem_reach L s B \<Longrightarrow> b \<in> B \<Longrightarrow> efree b s = Some s' \<Longrightarrow> mem_reach L s' (B - {b})"

lemma mem_reach_pool: "mem_reach L s B \<Longrightarrow> \<exists>xs. pool_of s xs \<and> set xs = B \<and> mem_live s = L \<union> B \<and> L \<inter> B = {}"
proof (induction rule: mem_reach.induct)
  case (mem_new n s junk s')
  then show ?case by (intro exI [of _ "[n]"]) (auto simp: emalloc_new_def pool_of_def)
next
  case (mem_malloc s B b n r s')
  then obtain as bs where p: "pool_of s (as @ b # bs)" "set (as @ b # bs) = B" "mem_live s = L \<union> B" "L \<inter> B = {}"
    by (metis split_list)
  from emalloc_pool [OF p(1) mem_malloc.hyps(3)] mem_malloc.hyps(4)
  have "pool_of s' (as @ b # n # bs)" "mem_live s' = insert n (mem_live s)" by auto
  then show ?case using p mem_malloc.hyps(3) by (intro exI [of _ "as @ b # n # bs"]) auto
next
  case (mem_realloc s B b n r s')
  then obtain as bs where p: "pool_of s (as @ b # bs)" "set (as @ b # bs) = B" "mem_live s = L \<union> B" "L \<inter> B = {}"
    by (metis split_list)
  have d: "b \<notin> set (as @ bs)" using p(1) by (auto simp: pool_of_def)
  from erealloc_pool [OF p(1) mem_realloc.hyps(3)] mem_realloc.hyps(4)
  have "pool_of s' (as @ n # bs)" "mem_live s' = insert n (mem_live s - {b})" by auto
  then show ?case using p d mem_realloc.hyps(3) by (intro exI [of _ "as @ n # bs"]) auto
next
  case (mem_release s B b s')
  then obtain as bs where p: "pool_of s (as @ b # bs)" "set (as @ b # bs) = B" "mem_live s = L \<union> B" "L \<inter> B = {}"
    by (metis split_list)
  have d: "b \<notin> set (as @ bs)" using p(1) by (auto simp: pool_of_def)
  from efree_pool [OF p(1)] mem_release.hyps(3)
  have "pool_of s' (as @ bs)" "mem_live s' = mem_live s - {b}" by auto
  then show ?case using p d by (intro exI [of _ "as @ bs"]) auto
qed

text \<open>
  C37: Whatever has been allocated from, moved within and released from a pool, in any order and through
  any of its blocks, no operation on one of its blocks follows a dangling link or fails an assertion;
  a new block inherits the data of the block it was allocated through; and \<open>efree_all\<close> from any block
  frees exactly the blocks of the pool: nothing leaks, and no memory of others is touched.
\<close>

theorem mem_pool_accounted:
  assumes "mem_reach L s B" "b \<in> B" "n \<notin> mem_live s" "card B \<le> fuel"
  shows "(\<exists>s'. emalloc (Some n) b s = Some (Some n, s') \<and> mem_data s' n = mem_data s b) \<and>
    (\<exists>s'. erealloc (Some n) b s = Some (Some n, s') \<and> mem_data s' n = mem_data s b) \<and>
    efree b s \<noteq> None \<and> (\<exists>s'. efree_all fuel b s = Some s' \<and> mem_live s' = L)"
proof -
  obtain as bs where p: "pool_of s (as @ b # bs)" "set (as @ b # bs) = B" "mem_live s = L \<union> B" "L \<inter> B = {}"
    using mem_reach_pool [OF assms(1)] assms(2) by (metis split_list)
  have "card B = length (as @ b # bs)" using p(1,2) distinct_card [of "as @ b # bs"] by (simp add: pool_of_def)
  then have f: "length (as @ bs) \<le> fuel" using assms(4) by simp
  have "mem_live s - B = L" using p(3,4) by blast
  then show ?thesis
    using emalloc_pool [OF p(1) assms(3)] erealloc_pool [OF p(1) assms(3)] efree_pool [OF p(1)]
      efree_all_pool [OF p(1) f] p(2) by auto
qed

definition no_mem :: "int mem_state" where
  "no_mem = \<lparr>mem_next = (\<lambda>_. None), mem_prev = (\<lambda>_. None), mem_data = (\<lambda>_. 0), mem_sig = (\<lambda>_. 0), mem_live = {}\<rparr>"

theorem mem_pool_accounted_witness:
  "\<exists>s'. efree_all 1 3 (snd (emalloc_new (Some 3) 7 no_mem)) = Some s' \<and> mem_live s' = {}"
proof -
  have e: "emalloc_new (Some 3) 7 no_mem = (Some 3, snd (emalloc_new (Some 3) 7 no_mem))"
    by (simp add: emalloc_new_def)
  have r: "mem_reach {} (snd (emalloc_new (Some 3) 7 no_mem)) {3}"
    by (rule mem_new [OF _ _ e]) (simp_all add: no_mem_def)
  have "4 \<notin> mem_live (snd (emalloc_new (Some 3) 7 no_mem))" by (simp add: emalloc_new_def no_mem_def)
  from mem_pool_accounted [OF r _ this, of 3 1] show ?thesis by auto
qed

end
