(* ===== verification/Req.thy ===== *)
theory Req
  imports Shards Queues
begin

text \<open>
  The life of one request (\<open>req.cpp\<close>): its sub-requests, one per shard, from the pool over the backend
  to the answer, the timeout, and the errors. The pool and the backend plugin are parameters of each
  call: what \<open>pool_fetch_connect\<close> and \<open>backend_call\<close> do at once; what they do later is an event. What
  leaves the request is a list of outputs. A use of freed memory or of NULL sets \<open>r_crashed\<close>, except
  the read of a waiting node just freed, which is an output of its own and taken to find the old value.
\<close>

section \<open>State\<close>

datatype sub_req_state = BEFORE_REQUEST_POOL | POOL_RETURNED | BACKEND_RETURNED

text \<open>
  \<open>'h\<close> are the handles of connections, \<open>'n\<close> the waiting nodes of the pool. The reads of a freed node and
  the feedback to the balancer belong to \<open>req_timeout_connect_cleanup\<close>.
\<close>

datatype ('h, 'n) req_out =
    Answered int            \<comment> \<open>\<open>req_done\<close>: the answer is written, with \<open>err_no\<close>\<close>
  | BackendCall nat 'h      \<comment> \<open>\<open>backend_call\<close> for a sub-request\<close>
  | Release 'h int          \<comment> \<open>\<open>pool_release_connect\<close>\<close>
  | CancelWait 'n           \<comment> \<open>\<open>_pool_waiting_queue_rm\<close>\<close>
  | ReadFreed 'n            \<comment> \<open>the node's \<open>server\<close> is read after the node has been freed\<close>
  | TimeoutArg 'n           \<comment> \<open>\<open>setServerArg\<close> with the timeout as the cost\<close>
  | BackendTimeout nat 'h   \<comment> \<open>\<open>backend_timeout\<close>\<close>

record ('h, 'n) req_t = shard_counter +
  r_live :: bool
  r_err_no :: int
  r_timeout :: bool
  req_done_called :: bool
  sub_req_not_done :: "nat option"
  sr_next :: "nat \<Rightarrow> nat option"
  sr_prev :: "nat \<Rightarrow> nat option"
  sr_state :: "nat \<Rightarrow> sub_req_state"
  sr_handle :: "nat \<Rightarrow> 'h option"
  sr_node :: "nat \<Rightarrow> 'n option"
  sr_live :: "nat set"
  sr_fresh :: nat
  r_crashed :: bool
  r_out :: "('h, 'n) req_out list"

definition emit :: "('h, 'n) req_out \<Rightarrow> ('h, 'n) req_t \<Rightarrow> ('h, 'n) req_t" where
  "emit x r = r\<lparr>r_out := r_out r @ [x]\<rparr>"

definition crash :: "('h, 'n) req_t \<Rightarrow> ('h, 'n) req_t" where
  "crash r = r\<lparr>r_crashed := True\<rparr>"

section \<open>The list of sub-requests\<close>

definition req_subreq_queue_push :: "nat \<Rightarrow> ('h, 'n) req_t \<Rightarrow> ('h, 'n) req_t" where
  "req_subreq_queue_push sr r =
     (case sub_req_not_done r of
        None \<Rightarrow> r\<lparr>sub_req_not_done := Some sr\<rparr>
      | Some h \<Rightarrow> r\<lparr>sr_prev := (sr_prev r)(sr := None, h := Some sr), sr_next := (sr_next r)(sr := Some h),
                     sub_req_not_done := Some sr\<rparr>)"

definition req_subreq_queue_pop :: "('h, 'n) req_t \<Rightarrow> nat option \<times> ('h, 'n) req_t" where
  "req_subreq_queue_pop r =
     (case sub_req_not_done r of
        None \<Rightarrow> (None, r)
      | Some temp \<Rightarrow>
          (Some temp,
           r\<lparr>sub_req_not_done := sr_next r temp,
             sr_prev := (case sr_next r temp of None \<Rightarrow> sr_prev r | Some m \<Rightarrow> (sr_prev r)(m := None))\<rparr>))"

definition req_subreq_queue_rm :: "nat \<Rightarrow> ('h, 'n) req_t \<Rightarrow> ('h, 'n) req_t" where
  "req_subreq_queue_rm sr r =
     r\<lparr>sr_next := unlink_nx (sr_next r) (sr_prev r) sr, sr_prev := unlink_pv (sr_next r) (sr_prev r) sr,
       sub_req_not_done := (if sub_req_not_done r = Some sr then sr_next r sr else sub_req_not_done r)\<rparr>"

section \<open>Handlers\<close>

text \<open>\<open>efree_all\<close> frees the request and all its sub-requests.\<close>

definition req_cleanup :: "('h, 'n) req_t \<Rightarrow> ('h, 'n) req_t" where
  "req_cleanup r = r\<lparr>r_live := False, sr_live := {}\<rparr>"

definition req_done :: "('h, 'n) req_t \<Rightarrow> ('h, 'n) req_t" where
  "req_done r =
     (if \<not> r_live r then crash r
      else if req_done_called r then r
      else req_cleanup (emit (Answered (r_err_no r)) (r\<lparr>req_done_called := True\<rparr>)))"

definition req_fail :: "('h, 'n) req_t \<Rightarrow> ('h, 'n) req_t" where
  "req_fail r = (if \<not> r_live r then crash r else req_done (if r_err_no r = 0 then r\<lparr>r_err_no := 500\<rparr> else r))"

text \<open>The part of \<open>req_on_shard_done\<close> that deals with its sub-request, when it is given one.\<close>

definition sub_req_done :: "int \<Rightarrow> nat \<Rightarrow> ('h, 'n) req_t \<Rightarrow> ('h, 'n) req_t" where
  "sub_req_done err sr r =
     (if sr \<notin> sr_live r then crash r
      else
        let handle = sr_handle r sr;
            r = req_subreq_queue_rm sr (r\<lparr>sr_state := (sr_state r)(sr := BACKEND_RETURNED)\<rparr>);
            r = (case handle of None \<Rightarrow> r | Some h \<Rightarrow> emit (Release h err) r)
        in r\<lparr>sr_live := sr_live r - {sr}\<rparr>)"

definition req_on_shard_done :: "int \<Rightarrow> nat option \<Rightarrow> ('h, 'n) req_t \<Rightarrow> ('h, 'n) req_t" where
  "req_on_shard_done err priv r =
     (if \<not> r_live r then crash r
      else
        let r = (case priv of None \<Rightarrow> r | Some sr \<Rightarrow> sub_req_done err sr r);
            r = r\<lparr>shard_count := shard_count r - 1\<rparr>
        in if shard_count r = 0 then (if r_timeout r then r else req_done r) else r)"

text \<open>What \<open>backend_call\<close> does at once: it fails, it has started, or the shard has already answered.\<close>

datatype call_res = CallFails | CallPending | CallDone int

definition req_on_acquired :: "'h \<Rightarrow> call_res \<Rightarrow> nat \<Rightarrow> ('h, 'n) req_t \<Rightarrow> ('h, 'n) req_t" where
  "req_on_acquired h res sr r =
     (if \<not> r_live r \<or> sr \<notin> sr_live r then crash r
      else
        let r = emit (BackendCall sr h)
                  (r\<lparr>sr_handle := (sr_handle r)(sr := Some h), sr_state := (sr_state r)(sr := POOL_RETURNED)\<rparr>)
        in case res of
             CallFails \<Rightarrow> r\<lparr>sr_state := (sr_state r)(sr := BACKEND_RETURNED)\<rparr>
           | CallPending \<Rightarrow> r
           | CallDone err \<Rightarrow> req_on_shard_done err (Some sr) r)"

text \<open>What \<open>pool_fetch_connect\<close> does: it fails, it queues the sub-request, or it hands out a connection.\<close>

datatype ('h, 'n) fetch_res = FetchFails | FetchWaits 'n | FetchNow 'h call_res

definition new_sub_req :: "('h, 'n) req_t \<Rightarrow> nat \<times> ('h, 'n) req_t" where
  "new_sub_req r =
     (let sr = sr_fresh r in
      (sr, r\<lparr>sr_fresh := Suc sr, sr_live := insert sr (sr_live r), sr_prev := (sr_prev r)(sr := None),
             sr_next := (sr_next r)(sr := None), sr_node := (sr_node r)(sr := None),
             sr_state := (sr_state r)(sr := BEFORE_REQUEST_POOL)\<rparr>))"

definition req_on_getshards ::
    "(('h, 'n) req_t \<Rightarrow> 'p \<Rightarrow> ('h, 'n) fetch_res) \<Rightarrow> ('h, 'n) req_t \<Rightarrow> backend_req list \<Rightarrow> 'p \<Rightarrow> ('h, 'n) req_t" where
  "req_on_getshards fetch r backend_req pool =
     (if \<not> r_live r then crash r
      else
        let (sr, r) = new_sub_req r;
            r = req_subreq_queue_push sr r
        in case fetch r pool of
             FetchFails \<Rightarrow> req_on_shard_done 1 None (r\<lparr>r_err_no := 503\<rparr>)
           | FetchWaits n \<Rightarrow> r\<lparr>sr_node := (sr_node r)(sr := Some n)\<rparr>
           | FetchNow h res \<Rightarrow> req_on_acquired h res sr r)"

text \<open>The loop of \<open>req_timeout_connect_cleanup\<close>; the fuel is more than the number of sub-requests.\<close>

fun timeout_loop :: "nat \<Rightarrow> ('h, 'n) req_t \<Rightarrow> ('h, 'n) req_t" where
  "timeout_loop 0 r = r"
| "timeout_loop (Suc fuel) r =
     (case req_subreq_queue_pop r of
        (None, r) \<Rightarrow> r
      | (Some sr, r) \<Rightarrow>
          if sr \<notin> sr_live r then crash r
          else (case sr_state r sr of
                  BEFORE_REQUEST_POOL \<Rightarrow>
                    (case sr_node r sr of
                       None \<Rightarrow> crash r
                     | Some n \<Rightarrow>
                         let r = emit (TimeoutArg n) (emit (ReadFreed n) (emit (CancelWait n) r)) in
                         timeout_loop fuel (r\<lparr>sr_live := sr_live r - {sr}, shard_count := shard_count r - 1\<rparr>))
                | POOL_RETURNED \<Rightarrow>
                    (case sr_handle r sr of
                       None \<Rightarrow> crash r
                     | Some h \<Rightarrow>
                         let r = emit (BackendTimeout sr h) r in
                         timeout_loop fuel (r\<lparr>shard_count := shard_count r - 1\<rparr>))
                | BACKEND_RETURNED \<Rightarrow> timeout_loop fuel r))"

definition req_timeout_connect_cleanup :: "('h, 'n) req_t \<Rightarrow> ('h, 'n) req_t" where
  "req_timeout_connect_cleanup r = timeout_loop (Suc (sr_fresh r)) r"

definition req_timeout :: "('h, 'n) req_t \<Rightarrow> ('h, 'n) req_t" where
  "req_timeout r =
     (if \<not> r_live r then crash r
      else req_fail (req_timeout_connect_cleanup (r\<lparr>r_timeout := True, r_err_no := 504\<rparr>)))"

definition AUTH_READ_ONLY :: int where "AUTH_READ_ONLY = 2"

text \<open>
  \<open>req_process\<close>: \<open>debug\<close> says whether debug lines are logged: the one after \<open>router_acquire_shards\<close> reads the
  log data of the request, which may be freed by then. \<open>init_ret\<close> and \<open>parse_ret\<close> are the results of the plugin's \<open>backend_req_init\<close> and
  \<open>backend_parse\<close>, which yield the keys and \<open>is_write\<close>; \<open>auth\<close> is that of \<open>meta_auth_check\<close>.
\<close>

definition req_process ::
    "bool \<Rightarrow> (32 word \<Rightarrow> int) option \<Rightarrow> (int \<Rightarrow> 'p option) \<Rightarrow> (('h, 'n) req_t \<Rightarrow> 'p \<Rightarrow> ('h, 'n) fetch_res) \<Rightarrow>
     int \<Rightarrow> int \<Rightarrow> int option \<Rightarrow> bool \<Rightarrow> backend_req list \<Rightarrow> ('h, 'n) req_t \<Rightarrow> (int \<times> ('h, 'n) req_t) option" where
  "req_process debug shard get_pool fetch init_ret parse_ret auth is_write keys r =
     (if init_ret < 0 then Some (- 1, r)
      else if parse_ret < 0 then Some (- 1, r)
      else case auth of
        None \<Rightarrow> None
      | Some ret \<Rightarrow>
          if ret \<le> 0 \<or> (ret = AUTH_READ_ONLY \<and> is_write) then Some (- 1, r\<lparr>r_err_no := 401\<rparr>)
          else map_option (\<lambda>r. (0, if debug \<and> \<not> r_live r then crash r else r))
            (router_acquire_shards shard get_pool (req_on_getshards fetch) keys
               (r\<lparr>shard_count := 0, sub_req_not_done := None\<rparr>)))"

definition req_create :: "('h, 'n) req_t" where
  "req_create =
     \<lparr>shard_count = 0, r_live = True, r_err_no = 0, r_timeout = False, req_done_called = False,
      sub_req_not_done = None, sr_next = (\<lambda>_. None), sr_prev = (\<lambda>_. None), sr_state = (\<lambda>_. BEFORE_REQUEST_POOL),
      sr_handle = (\<lambda>_. None), sr_node = (\<lambda>_. None), sr_live = {}, sr_fresh = 0, r_crashed = False, r_out = []\<rparr>"

definition req_ready ::
    "bool \<Rightarrow> (32 word \<Rightarrow> int) option \<Rightarrow> (int \<Rightarrow> 'p option) \<Rightarrow> (('h, 'n) req_t \<Rightarrow> 'p \<Rightarrow> ('h, 'n) fetch_res) \<Rightarrow>
     int \<Rightarrow> int \<Rightarrow> int option \<Rightarrow> bool \<Rightarrow> backend_req list \<Rightarrow> ('h, 'n) req_t option" where
  "req_ready debug shard get_pool fetch init_ret parse_ret auth is_write keys =
     map_option (\<lambda>(ret, r). if ret \<noteq> 0 then req_fail r else r)
       (req_process debug shard get_pool fetch init_ret parse_ret auth is_write keys req_create)"

section \<open>The list operations\<close>

text \<open>The sub-requests alive, in the order of the list.\<close>

definition list_ok :: "('h, 'n) req_t \<Rightarrow> nat list \<Rightarrow> bool" where
  "list_ok r xs \<longleftrightarrow> lseg (sr_next r) (sr_prev r) None xs None \<and> distinct xs \<and> sub_req_not_done r = first xs \<and>
     set xs = sr_live r \<and> (\<forall>x \<in> sr_live r. x < sr_fresh r) \<and>
     (\<forall>x \<in> sr_live r. sr_state r x = POOL_RETURNED \<longrightarrow> sr_handle r x \<noteq> None)"

lemma lseg_push:
  assumes "lseg nx pv None xs None" "distinct xs" "x \<notin> set xs" "nx x = None" "pv x = None"
  shows "lseg (case first xs of None \<Rightarrow> nx | Some h \<Rightarrow> nx(x := Some h))
    (case first xs of None \<Rightarrow> pv | Some h \<Rightarrow> pv(x := None, h := Some x)) None (x # xs) None"
proof (cases xs)
  case (Cons h ys)
  have "lseg (nx(x := Some h)) (pv(x := None, h := Some x)) (Some h) ys None = lseg nx pv (Some h) ys None"
    using assms(2,3) Cons by (intro lseg_frame) auto
  then show ?thesis using assms Cons by (cases ys) auto
qed (use assms in simp)

lemma lseg_pop:
  assumes "lseg nx pv None (x # xs) None" "distinct (x # xs)"
  shows "nx x = first xs" "lseg nx (case nx x of None \<Rightarrow> pv | Some m \<Rightarrow> pv(m := None)) None xs None"
proof -
  show n: "nx x = first xs" using assms(1) by (simp add: first_def)
  show "lseg nx (case nx x of None \<Rightarrow> pv | Some m \<Rightarrow> pv(m := None)) None xs None"
  proof (cases xs)
    case (Cons m ms)
    have "lseg nx (pv(m := None)) (Some m) ms None = lseg nx pv (Some m) ms None"
      using assms(2) Cons by (intro lseg_frame) auto
    then show ?thesis using assms(1) Cons n by simp
  qed simp
qed

lemma lseg_rm:
  assumes "lseg nx pv None xs None" "distinct xs" "x \<in> set xs"
  shows "\<exists>ys. lseg (unlink_nx nx pv x) (unlink_pv nx pv x) None ys None \<and> distinct ys \<and> set ys = set xs - {x} \<and>
    (if first xs = Some x then nx x else first xs) = first ys"
proof -
  obtain as bs where xs: "xs = as @ x # bs" using assms(3) by (meson split_list)
  have "dll nx pv (first xs) (final xs) xs" using assms by (simp add: dll_def)
  from dll_unlink [OF this [unfolded xs]] assms(2) xs show ?thesis
    by (intro exI [of _ "as @ bs"]) (auto simp: dll_def)
qed

section \<open>The invariant\<close>

text \<open>
  A sub-request whose connection could not be fetched stays in the list without a node: it is lost;
  every other one is counted by \<open>shard_count\<close>, together with the groups still to be handed out (\<open>k\<close>).
\<close>

definition lost :: "('h, 'n) req_t \<Rightarrow> nat \<Rightarrow> bool" where
  "lost r x \<longleftrightarrow> sr_state r x = BEFORE_REQUEST_POOL \<and> sr_node r x = None"

definition outstanding :: "('h, 'n) req_t \<Rightarrow> nat set" where
  "outstanding r = {x \<in> sr_live r. \<not> lost r x}"

definition answers :: "('h, 'n) req_t \<Rightarrow> nat" where
  "answers r = length (filter (\<lambda>x. case x of Answered _ \<Rightarrow> True | _ \<Rightarrow> False) (r_out r))"

definition req_ok :: "nat \<Rightarrow> ('h, 'n) req_t \<Rightarrow> bool" where
  "req_ok k r \<longleftrightarrow> \<not> r_crashed r \<and> r_live r = (\<not> req_done_called r) \<and> answers r = (if r_live r then 0 else 1) \<and>
     (r_live r \<longrightarrow> \<not> r_timeout r \<and> (\<exists>xs. list_ok r xs) \<and> shard_count r = int (card (outstanding r) + k) \<and>
       0 < card (outstanding r) + k) \<and>
     (\<not> r_live r \<longrightarrow> sr_live r = {})"

lemma outstanding_finite: "list_ok r xs \<Longrightarrow> finite (outstanding r)"
proof -
  assume "list_ok r xs"
  then have "sr_live r = set xs" by (simp add: list_ok_def)
  then show ?thesis by (simp add: outstanding_def)
qed

lemma answers_emit [simp]:
  "answers (emit (Answered e) r) = Suc (answers r)" "answers (emit (BackendCall x h) r) = answers r"
  "answers (emit (Release h e) r) = answers r" "answers (emit (CancelWait n) r) = answers r"
  "answers (emit (ReadFreed n) r) = answers r" "answers (emit (TimeoutArg n) r) = answers r"
  "answers (emit (BackendTimeout x h) r) = answers r"
  by (simp_all add: answers_def emit_def)

lemma req_done_ok:
  assumes "r_live r" "\<not> r_crashed r" "\<not> req_done_called r" "answers r = 0"
  shows "req_ok k (req_done r) \<and> \<not> r_live (req_done r) \<and> r_out (req_done r) = r_out r @ [Answered (r_err_no r)]"
  using assms by (simp add: req_ok_def req_done_def req_cleanup_def emit_def answers_def)

text \<open>What taking a sub-request out of the list and the memory leaves.\<close>

lemma sub_req_done_ok:
  assumes "list_ok r xs" "x \<in> outstanding r"
  shows "\<exists>ys. list_ok (sub_req_done err x r) ys" "outstanding (sub_req_done err x r) = outstanding r - {x}"
    "r_live (sub_req_done err x r) = r_live r" "r_crashed (sub_req_done err x r) = r_crashed r"
    "req_done_called (sub_req_done err x r) = req_done_called r" "r_timeout (sub_req_done err x r) = r_timeout r"
    "answers (sub_req_done err x r) = answers r" "shard_count (sub_req_done err x r) = shard_count r"
proof -
  have x: "x \<in> sr_live r" "x \<in> set xs" using assms by (auto simp: outstanding_def list_ok_def)
  have l: "lseg (sr_next r) (sr_prev r) None xs None" "distinct xs" "sub_req_not_done r = first xs" "set xs = sr_live r"
    using assms(1) by (simp_all add: list_ok_def)
  from lseg_rm [OF l(1,2) x(2)] obtain ys where
    ys: "lseg (unlink_nx (sr_next r) (sr_prev r) x) (unlink_pv (sr_next r) (sr_prev r) x) None ys None" "distinct ys"
      "set ys = set xs - {x}" "(if first xs = Some x then sr_next r x else first xs) = first ys" by blast
  show "\<exists>ys. list_ok (sub_req_done err x r) ys"
    using assms(1) x ys l
    by (intro exI [of _ ys])
      (auto simp: list_ok_def sub_req_done_def req_subreq_queue_rm_def emit_def Let_def split: option.splits)
  show "outstanding (sub_req_done err x r) = outstanding r - {x}"
    using x by (auto simp: outstanding_def lost_def sub_req_done_def req_subreq_queue_rm_def emit_def Let_def
        split: option.splits if_splits)
qed (use assms in \<open>auto simp: outstanding_def sub_req_done_def req_subreq_queue_rm_def emit_def answers_def Let_def
    split: option.splits\<close>)

text \<open>The end of \<open>req_on_shard_done\<close>: one off the counter, and the answer when nothing is left.\<close>

lemma shard_off_ok:
  assumes "r_live r" "\<not> r_crashed r" "\<not> req_done_called r" "answers r = 0" "\<not> r_timeout r" "list_ok r xs"
    and "shard_count r = int (card (outstanding r) + k) + 1"
    and "r' = (let r = r\<lparr>shard_count := shard_count r - 1\<rparr> in
               if shard_count r = 0 then (if r_timeout r then r else req_done r) else r)"
  shows "req_ok k r' \<and> (r_live r' \<longleftrightarrow> 0 < card (outstanding r) + k)"
proof -
  let ?r = "r\<lparr>shard_count := shard_count r - 1\<rparr>"
  have same: "list_ok ?r xs" "outstanding ?r = outstanding r" "answers ?r = answers r"
    using assms(6) by (simp_all add: list_ok_def outstanding_def lost_def answers_def)
  show ?thesis
  proof (cases "card (outstanding r) + k = 0")
    case True
    then have "r' = req_done ?r" using assms(5,7,8) by (simp add: Let_def)
    then show ?thesis using req_done_ok [of ?r k] assms(1-4) same(3) True by simp
  next
    case False
    then have "r' = ?r" using assms(7,8) by (simp add: Let_def) linarith
    then show ?thesis using assms(1-7) same False by (auto simp: req_ok_def)
  qed
qed

lemma shard_done_sub_ok:
  assumes "req_ok k r" "r_live r" "x \<in> outstanding r"
  shows "req_ok k (req_on_shard_done err (Some x) r) \<and>
    (r_live (req_on_shard_done err (Some x) r) \<longleftrightarrow> 0 < card (outstanding r - {x}) + k)"
proof -
  obtain xs where xs: "list_ok r xs" using assms(1,2) by (auto simp: req_ok_def)
  note s = sub_req_done_ok [OF xs assms(3), of err]
  obtain ys where ys: "list_ok (sub_req_done err x r) ys" using s(1) by blast
  have c: "card (outstanding r) = Suc (card (outstanding r - {x}))"
    using assms(3) outstanding_finite [OF xs] by (simp only: card.remove)
  have "req_ok k (req_on_shard_done err (Some x) r) \<and>
    (r_live (req_on_shard_done err (Some x) r) \<longleftrightarrow> 0 < card (outstanding (sub_req_done err x r)) + k)"
    by (rule shard_off_ok [of "sub_req_done err x r"]) (use assms(1,2) ys s c in \<open>simp_all add: req_ok_def req_on_shard_done_def\<close>)
  then show ?thesis using s(2) by simp
qed

lemma shard_done_none_ok:
  assumes "req_ok (Suc k) r" "r_live r"
  shows "req_ok k (req_on_shard_done err None r) \<and>
    (r_live (req_on_shard_done err None r) \<longleftrightarrow> 0 < card (outstanding r) + k)"
proof -
  obtain xs where xs: "list_ok r xs" using assms by (auto simp: req_ok_def)
  show ?thesis
    by (rule shard_off_ok [OF _ _ _ _ _ xs]) (use assms in \<open>simp_all add: req_ok_def req_on_shard_done_def\<close>)
qed

text \<open>A connection arrives for a sub-request that is not yet at the backend.\<close>

lemma acquired_state:
  assumes "list_ok r xs" "x \<in> sr_live r"
    and "r1 = emit (BackendCall x h) (r\<lparr>sr_handle := (sr_handle r)(x := Some h), sr_state := (sr_state r)(x := st)\<rparr>)"
    and "st \<noteq> BEFORE_REQUEST_POOL"
  shows "list_ok r1 xs" "outstanding r1 = insert x (outstanding r)" "r_live r1 = r_live r" "r_crashed r1 = r_crashed r"
    "req_done_called r1 = req_done_called r" "r_timeout r1 = r_timeout r" "answers r1 = answers r"
    "shard_count r1 = shard_count r"
  using assms by (auto simp: list_ok_def outstanding_def lost_def emit_def answers_def)

lemma req_on_acquired_ok:
  assumes "r_live r" "\<not> r_crashed r" "\<not> req_done_called r" "answers r = 0" "\<not> r_timeout r" "list_ok r xs"
    and "x \<in> sr_live r" "shard_count r = int (card (insert x (outstanding r)) + k)"
  shows "req_ok k (req_on_acquired h res x r) \<and> (0 < k \<longrightarrow> r_live (req_on_acquired h res x r))"
proof -
  let ?r = "\<lambda>st. emit (BackendCall x h) (r\<lparr>sr_handle := (sr_handle r)(x := Some h), sr_state := (sr_state r)(x := st)\<rparr>)"
  have pos: "0 < card (insert x (outstanding r))" using outstanding_finite [OF assms(6)] by (simp add: card_gt_0_iff)
  have st: "req_ok k (?r st) \<and> r_live (?r st) \<and> x \<in> outstanding (?r st)" if "st \<noteq> BEFORE_REQUEST_POOL" for st
    using acquired_state [OF assms(6,7) refl that, of h] assms(1-5,8) pos by (auto simp: req_ok_def)
  show ?thesis
  proof (cases res)
    case CallFails
    have "req_on_acquired h res x r = ?r BACKEND_RETURNED"
      using assms(1,7) CallFails by (simp add: req_on_acquired_def emit_def Let_def)
    then show ?thesis using st [of BACKEND_RETURNED] by simp
  next
    case CallPending
    have "req_on_acquired h res x r = ?r POOL_RETURNED"
      using assms(1,7) CallPending by (simp add: req_on_acquired_def Let_def)
    then show ?thesis using st [of POOL_RETURNED] by simp
  next
    case (CallDone e)
    have "req_on_acquired h res x r = req_on_shard_done e (Some x) (?r POOL_RETURNED)"
      using assms(1,7) CallDone by (simp add: req_on_acquired_def Let_def)
    then show ?thesis using st [of POOL_RETURNED] shard_done_sub_ok [of k "?r POOL_RETURNED" x e] by simp
  qed
qed

text \<open>A new sub-request, in the list but lost until the pool has answered.\<close>

lemma new_sub_req_ok:
  assumes "list_ok r xs" "r1 = req_subreq_queue_push (sr_fresh r) (snd (new_sub_req r))" "x = sr_fresh r"
  shows "list_ok r1 (x # xs)" "outstanding r1 = outstanding r" "x \<in> sr_live r1" "x \<notin> outstanding r"
    "r_live r1 = r_live r" "r_crashed r1 = r_crashed r" "req_done_called r1 = req_done_called r"
    "r_timeout r1 = r_timeout r" "answers r1 = answers r" "shard_count r1 = shard_count r"
proof -
  have out: "x \<notin> set xs" "x \<notin> sr_live r" using assms(1,3) by (auto simp: list_ok_def)
  let ?nx = "(sr_next r)(x := None)" and ?pv = "(sr_prev r)(x := None)"
  have "lseg ?nx ?pv None xs None = lseg (sr_next r) (sr_prev r) None xs None"
    using out by (intro lseg_frame) auto
  then have "lseg ?nx ?pv None xs None" "distinct xs" using assms(1) by (simp_all add: list_ok_def)
  from lseg_push [OF this out(1)] have
    l: "lseg (case first xs of None \<Rightarrow> ?nx | Some h \<Rightarrow> ?nx(x := Some h))
      (case first xs of None \<Rightarrow> ?pv | Some h \<Rightarrow> ?pv(x := None, h := Some x)) None (x # xs) None" by simp
  have f: "sub_req_not_done r = first xs" "set xs = sr_live r" using assms(1) by (simp_all add: list_ok_def)
  have r1: "sr_next r1 = (case first xs of None \<Rightarrow> ?nx | Some h \<Rightarrow> ?nx(x := Some h))"
    "sr_prev r1 = (case first xs of None \<Rightarrow> ?pv | Some h \<Rightarrow> ?pv(x := None, h := Some x))"
    "sub_req_not_done r1 = Some x" "sr_live r1 = insert x (sr_live r)" "sr_fresh r1 = Suc x"
    "sr_state r1 = (sr_state r)(x := BEFORE_REQUEST_POOL)" "sr_node r1 = (sr_node r)(x := None)"
    "sr_handle r1 = sr_handle r"
    using assms(2,3) f(1)
    by (auto simp: req_subreq_queue_push_def new_sub_req_def Let_def split: option.splits)
  show "list_ok r1 (x # xs)" using assms(1,3) out l f by (auto simp: list_ok_def r1 less_SucI)
  show "outstanding r1 = outstanding r" using out by (auto simp: outstanding_def lost_def r1)
  show "x \<in> sr_live r1" "x \<notin> outstanding r" using out by (auto simp: r1 outstanding_def)
qed (use assms(2) in \<open>simp_all add: req_subreq_queue_push_def new_sub_req_def answers_def Let_def split: option.splits\<close>)

lemma req_on_getshards_run:
  assumes "r_live r" "r1 = req_subreq_queue_push (sr_fresh r) (snd (new_sub_req r))"
  shows "req_on_getshards fetch r g p =
      (case fetch r1 p of
         FetchFails \<Rightarrow> req_on_shard_done 1 None (r1\<lparr>r_err_no := 503\<rparr>)
       | FetchWaits n \<Rightarrow> r1\<lparr>sr_node := (sr_node r1)(sr_fresh r := Some n)\<rparr>
       | FetchNow h res \<Rightarrow> req_on_acquired h res (sr_fresh r) r1)"
proof -
  have x: "fst (new_sub_req r) = sr_fresh r" by (simp add: new_sub_req_def Let_def)
  show ?thesis
    using assms(1) by (simp only: req_on_getshards_def assms(2) Let_def split_beta x not_True_eq_False if_False)
qed

lemma req_on_getshards_ok:
  assumes "req_ok (Suc k) r" "r_live r"
  shows "req_ok k (req_on_getshards fetch r g p) \<and> (0 < k \<longrightarrow> r_live (req_on_getshards fetch r g p))"
proof -
  obtain xs where xs: "list_ok r xs" using assms by (auto simp: req_ok_def)
  let ?x = "sr_fresh r"
  define r1 where "r1 = req_subreq_queue_push ?x (snd (new_sub_req r))"
  note n = new_sub_req_ok [OF xs r1_def refl]
  have fin: "finite (outstanding r)" by (rule outstanding_finite [OF xs])
  note g = req_on_getshards_run [OF assms(2) r1_def, of fetch g p]
  have ok: "\<not> r_crashed r1" "r_live r1" "\<not> req_done_called r1" "answers r1 = 0" "\<not> r_timeout r1"
    "shard_count r1 = int (card (outstanding r1) + Suc k)"
    using assms n by (auto simp: req_ok_def)
  show ?thesis
  proof (cases "fetch r1 p")
    case FetchFails
    have "list_ok (r1\<lparr>r_err_no := 503\<rparr>) (?x # xs)" "outstanding (r1\<lparr>r_err_no := 503\<rparr>) = outstanding r1"
      "answers (r1\<lparr>r_err_no := 503\<rparr>) = answers r1"
      using n(1) by (simp_all add: list_ok_def outstanding_def lost_def answers_def)
    then have "req_ok (Suc k) (r1\<lparr>r_err_no := 503\<rparr>)" using ok by (auto simp: req_ok_def)
    from shard_done_none_ok [OF this] ok(2) show ?thesis using g FetchFails by simp
  next
    case (FetchWaits w)
    let ?r = "r1\<lparr>sr_node := (sr_node r1)(?x := Some w)\<rparr>"
    have "list_ok ?r (?x # xs)" "outstanding ?r = insert ?x (outstanding r1)" "answers ?r = answers r1"
      using n(1,3) by (auto simp: list_ok_def outstanding_def lost_def answers_def)
    then have "req_ok k ?r" using ok n(2,4) fin by (auto simp: req_ok_def)
    then show ?thesis using g FetchWaits ok(2) by simp
  next
    case (FetchNow h res)
    have "shard_count r1 = int (card (insert ?x (outstanding r1)) + k)" using ok(6) n(2,4) fin by simp
    from req_on_acquired_ok [OF ok(2,1,3,4,5) n(1,3) this] show ?thesis using g FetchNow by simp
  qed
qed

lemma serve_runs_ok:
  assumes "req_ok (length (concat gs)) r" "r_live r" "\<forall>g \<in> set gs. g \<noteq> []" "gs \<noteq> []"
  shows "req_ok 0 (foldl (serve_run get_pool (req_on_getshards fetch)) r gs)"
  using assms
proof (induction gs arbitrary: r)
  case (Cons g gs)
  let ?r = "r\<lparr>shard_count := shard_count r - int (length g - 1)\<rparr>"
  have len: "length (concat (g # gs)) = Suc (length (concat gs)) + (length g - 1)" using Cons.prems(3) by (cases g) auto
  have same: "outstanding ?r = outstanding r" "answers ?r = answers r" "\<And>xs. list_ok ?r xs = list_ok r xs"
    by (simp_all add: list_ok_def outstanding_def lost_def answers_def)
  have "req_ok (Suc (length (concat gs))) ?r" using Cons.prems(1) same unfolding req_ok_def len by auto
  from req_on_getshards_ok [OF this, of fetch g "the (get_pool (shard_key (hd g)))"] Cons.prems(2)
  have s: "req_ok (length (concat gs)) (serve_run get_pool (req_on_getshards fetch) r g)"
    "0 < length (concat gs) \<longrightarrow> r_live (serve_run get_pool (req_on_getshards fetch) r g)"
    by (simp_all add: serve_run_def)
  show ?case
  proof (cases "gs = []")
    case True
    then show ?thesis using s(1) by simp
  next
    case False
    then have "0 < length (concat gs)" using Cons.prems(3) by (cases gs) auto
    then show ?thesis using Cons.IH [OF s(1)] s(2) Cons.prems(3) False by simp
  qed
qed simp

lemma req_create_ok: "list_ok req_create []" "outstanding req_create = {}" "answers req_create = 0"
  by (simp_all add: list_ok_def req_create_def outstanding_def answers_def)

lemma req_fail_ok:
  assumes "r_live r" "\<not> r_crashed r" "\<not> req_done_called r" "answers r = 0"
  shows "req_ok k (req_fail r) \<and> \<not> r_live (req_fail r) \<and>
    r_out (req_fail r) = r_out r @ [Answered (if r_err_no r = 0 then 500 else r_err_no r)]"
proof (cases "r_err_no r = 0")
  case True
  have "req_fail r = req_done (r\<lparr>r_err_no := 500\<rparr>)" using assms(1) True by (simp add: req_fail_def)
  then show ?thesis using req_done_ok [of "r\<lparr>r_err_no := 500\<rparr>" k] assms True by (simp add: answers_def)
next
  case False
  have "req_fail r = req_done r" using assms(1) False by (simp add: req_fail_def)
  then show ?thesis using req_done_ok [OF assms, of k] False by simp
qed

text \<open>The keys of a request that has been parsed: at least one, each of a known shard.\<close>

definition keys_ok :: "(32 word \<Rightarrow> int) \<Rightarrow> (int \<Rightarrow> 'p option) \<Rightarrow> backend_req list \<Rightarrow> bool" where
  "keys_ok f get_pool keys \<longleftrightarrow> keys \<noteq> [] \<and>
     (\<forall>x \<in> set (hashed_reqs f keys). shard_key x \<noteq> -1 \<and> get_pool (shard_key x) \<noteq> None)"

text \<open>The request when its first group is handed out.\<close>

definition req_start :: "backend_req list \<Rightarrow> ('h, 'n) req_t" where
  "req_start keys = req_create\<lparr>shard_count := int (length keys)\<rparr>"

lemma req_start_ok:
  assumes "keys_ok f get_pool keys"
  shows "req_ok (length (concat (shard_runs (hashed_reqs f keys)))) (req_start keys :: ('h, 'n) req_t)" "r_live (req_start keys :: ('h, 'n) req_t)"
    "shard_runs (hashed_reqs f keys) \<noteq> []"
proof -
  have len: "length (concat (shard_runs (hashed_reqs f keys))) = length keys"
    by (simp only: concat_shard_runs) (simp add: hashed_reqs_def)
  have k: "keys \<noteq> []" using assms by (simp add: keys_ok_def)
  have "list_ok (req_start keys :: ('h, 'n) req_t) []" "outstanding (req_start keys :: ('h, 'n) req_t) = {}" "answers (req_start keys :: ('h, 'n) req_t) = 0"
    "r_live (req_start keys :: ('h, 'n) req_t)" "\<not> r_crashed (req_start keys :: ('h, 'n) req_t)" "\<not> req_done_called (req_start keys :: ('h, 'n) req_t)"
    "\<not> r_timeout (req_start keys :: ('h, 'n) req_t)" "shard_count (req_start keys :: ('h, 'n) req_t) = int (length keys)"
    by (simp_all add: req_start_def list_ok_def req_create_def outstanding_def answers_def)
  then show "req_ok (length (concat (shard_runs (hashed_reqs f keys)))) (req_start keys :: ('h, 'n) req_t)" "r_live (req_start keys :: ('h, 'n) req_t)"
    using len k by (auto simp: req_ok_def)
  show "shard_runs (hashed_reqs f keys) \<noteq> []" using len k by auto
qed

lemma req_ready_run:
  fixes fetch :: "('h, 'n) req_t \<Rightarrow> 'p \<Rightarrow> ('h, 'n) fetch_res"
  assumes "keys_ok f get_pool keys"
  shows "req_ready False (Some f) get_pool fetch init_ret parse_ret (Some auth) is_write keys =
    Some (if init_ret < 0 \<or> parse_ret < 0 then req_fail req_create
          else if auth \<le> 0 \<or> auth = AUTH_READ_ONLY \<and> is_write then req_fail (req_create\<lparr>r_err_no := 401\<rparr>)
          else foldl (serve_run get_pool (req_on_getshards fetch)) (req_start keys) (shard_runs (hashed_reqs f keys)))"
proof -
  have k: "keys \<noteq> []" "\<forall>x \<in> set (hashed_reqs f keys). shard_key x \<noteq> -1 \<and> get_pool (shard_key x) \<noteq> None"
    using assms by (simp_all add: keys_ok_def)
  have "(req_create :: ('h, 'n) req_t)\<lparr>shard_count := 0, sub_req_not_done := None, shard_count := int (length keys)\<rparr> = req_start keys"
    by (simp add: req_start_def req_create_def)
  then show ?thesis by (auto simp: req_ready_def req_process_def acquire_as_runs [OF k])
qed

lemma req_ready_ok:
  fixes fetch :: "('h, 'n) req_t \<Rightarrow> 'p \<Rightarrow> ('h, 'n) fetch_res"
  assumes "keys_ok f get_pool keys"
  shows "\<exists>r. req_ready False (Some f) get_pool fetch init_ret parse_ret (Some auth) is_write keys = Some r \<and> req_ok 0 r"
proof -
  have c: "r_live ((req_create :: ('h, 'n) req_t)\<lparr>r_err_no := e\<rparr>)" "\<not> r_crashed ((req_create :: ('h, 'n) req_t)\<lparr>r_err_no := e\<rparr>)"
    "\<not> req_done_called ((req_create :: ('h, 'n) req_t)\<lparr>r_err_no := e\<rparr>)" "answers ((req_create :: ('h, 'n) req_t)\<lparr>r_err_no := e\<rparr>) = 0" for e
    by (simp_all add: req_create_def answers_def)
  have "(req_create :: ('h, 'n) req_t)\<lparr>r_err_no := 0\<rparr> = req_create" by (simp add: req_create_def)
  then have "req_ok 0 (req_fail (req_create :: ('h, 'n) req_t))" "req_ok 0 (req_fail ((req_create :: ('h, 'n) req_t)\<lparr>r_err_no := 401\<rparr>))"
    using req_fail_ok [OF c, of 0 0] req_fail_ok [OF c, of 0 401] by simp_all
  moreover have "req_ok 0 (foldl (serve_run get_pool (req_on_getshards fetch)) (req_start keys) (shard_runs (hashed_reqs f keys)))"
    using serve_runs_ok [OF req_start_ok(1,2) _ req_start_ok(3)] assms by (simp add: shard_runs_nonempty)
  ultimately show ?thesis by (simp add: req_ready_run [OF assms])
qed

text \<open>
  With debug lines, a request that is complete before \<open>router_acquire_shards\<close> returns is read after
  it has been freed.
\<close>

lemma req_ready_debug_use_after_free:
  assumes "req_ready False shard get_pool fetch 0 0 (Some auth) is_write keys = Some r" "\<not> r_live r"
    and "0 < auth" "\<not> (auth = AUTH_READ_ONLY \<and> is_write)"
  shows "\<exists>r'. req_ready True shard get_pool fetch 0 0 (Some auth) is_write keys = Some r' \<and> r_crashed r'"
  using assms by (auto simp: req_ready_def req_process_def crash_def split: if_splits)

section \<open>The timeout\<close>

text \<open>What the timeout does for one sub-request.\<close>

definition timeout_out :: "('h, 'n) req_t \<Rightarrow> nat \<Rightarrow> ('h, 'n) req_out list" where
  "timeout_out r x =
     (case sr_state r x of
        BEFORE_REQUEST_POOL \<Rightarrow>
          (let n = the (sr_node r x) in [CancelWait n, ReadFreed n, TimeoutArg n])
      | POOL_RETURNED \<Rightarrow> [BackendTimeout x (the (sr_handle r x))]
      | BACKEND_RETURNED \<Rightarrow> [])"

lemma timeout_out_cong:
  assumes "sr_state r2 = sr_state r" "sr_node r2 = sr_node r" "sr_handle r2 = sr_handle r"
  shows "timeout_out r2 = timeout_out r"
  by (intro ext) (simp only: timeout_out_def assms)

definition loop_ok :: "('h, 'n) req_t \<Rightarrow> nat list \<Rightarrow> bool" where
  "loop_ok r xs \<longleftrightarrow> lseg (sr_next r) (sr_prev r) None xs None \<and> distinct xs \<and> sub_req_not_done r = first xs \<and>
     set xs \<subseteq> sr_live r \<and> (\<forall>x \<in> set xs. sr_state r x = POOL_RETURNED \<longrightarrow> sr_handle r x \<noteq> None)"

lemma loop_pop:
  assumes "loop_ok r (x # xs)"
  shows "\<exists>r1. req_subreq_queue_pop r = (Some x, r1) \<and> loop_ok r1 xs \<and> sr_live r1 = sr_live r \<and> sr_state r1 = sr_state r \<and>
    sr_node r1 = sr_node r \<and> sr_handle r1 = sr_handle r \<and> r_out r1 = r_out r \<and> r_live r1 = r_live r \<and>
    r_crashed r1 = r_crashed r \<and> req_done_called r1 = req_done_called r \<and> r_err_no r1 = r_err_no r \<and> r_timeout r1 = r_timeout r"
proof -
  have l: "lseg (sr_next r) (sr_prev r) None (x # xs) None" "distinct (x # xs)" "sub_req_not_done r = Some x"
    using assms by (simp_all add: loop_ok_def first_def)
  show ?thesis using assms lseg_pop [OF l(1,2)] l(3) by (auto simp: req_subreq_queue_pop_def loop_ok_def)
qed

lemma loop_ok_step:
  assumes "loop_ok r1 xs" "x \<notin> set xs" "sr_next r2 = sr_next r1" "sr_prev r2 = sr_prev r1"
    "sub_req_not_done r2 = sub_req_not_done r1" "sr_live r1 - {x} \<subseteq> sr_live r2" "sr_state r2 = sr_state r1"
    "sr_handle r2 = sr_handle r1"
  shows "loop_ok r2 xs"
  using assms by (auto simp: loop_ok_def)

text \<open>One turn of the loop for a sub-request that is not lost.\<close>

lemma timeout_turn:
  assumes "loop_ok r (x # xs)" "\<not> lost r x"
  shows "\<exists>r2. timeout_loop (Suc fuel) r = timeout_loop fuel r2 \<and> loop_ok r2 xs \<and> sr_state r2 = sr_state r \<and>
    sr_node r2 = sr_node r \<and> sr_handle r2 = sr_handle r \<and> r_out r2 = r_out r @ timeout_out r x \<and> r_live r2 = r_live r \<and>
    r_crashed r2 = r_crashed r \<and> req_done_called r2 = req_done_called r \<and> r_err_no r2 = r_err_no r \<and> r_timeout r2 = r_timeout r"
proof -
  from loop_pop [OF assms(1)] obtain r1 where
    pop: "req_subreq_queue_pop r = (Some x, r1)" and ok: "loop_ok r1 xs" and
    eq: "sr_live r1 = sr_live r" "sr_state r1 = sr_state r" "sr_node r1 = sr_node r" "sr_handle r1 = sr_handle r"
      "r_out r1 = r_out r" "r_live r1 = r_live r" "r_crashed r1 = r_crashed r" "req_done_called r1 = req_done_called r"
      "r_err_no r1 = r_err_no r" "r_timeout r1 = r_timeout r" by blast
  have x: "x \<in> sr_live r" "x \<notin> set xs" using assms(1) by (simp_all add: loop_ok_def)
  show ?thesis
  proof (cases "sr_state r x")
    case BEFORE_REQUEST_POOL
    then obtain n where n: "sr_node r x = Some n" using assms(2) by (auto simp: lost_def)
    let ?r = "emit (TimeoutArg n) (emit (ReadFreed n) (emit (CancelWait n) r1))"
    let ?r2 = "?r\<lparr>sr_live := sr_live ?r - {x}, shard_count := shard_count ?r - 1\<rparr>"
    have "timeout_loop (Suc fuel) r = timeout_loop fuel ?r2"
      using BEFORE_REQUEST_POOL n x(1) by (simp add: pop eq Let_def)
    moreover have "loop_ok ?r2 xs" by (rule loop_ok_step [OF ok x(2)]) (simp_all add: emit_def)
    ultimately show ?thesis using BEFORE_REQUEST_POOL n eq
      by (intro exI [of _ ?r2]) (simp add: timeout_out_def emit_def)
  next
    case POOL_RETURNED
    then obtain h where h: "sr_handle r x = Some h" using assms(1) by (auto simp: loop_ok_def)
    let ?r = "emit (BackendTimeout x h) r1"
    let ?r2 = "?r\<lparr>shard_count := shard_count ?r - 1\<rparr>"
    have "timeout_loop (Suc fuel) r = timeout_loop fuel ?r2"
      using POOL_RETURNED h x(1) by (simp add: pop eq Let_def)
    moreover have "loop_ok ?r2 xs" by (rule loop_ok_step [OF ok x(2)]) (simp_all add: emit_def)
    ultimately show ?thesis using POOL_RETURNED h eq
      by (intro exI [of _ ?r2]) (simp add: timeout_out_def emit_def)
  next
    case BACKEND_RETURNED
    have "timeout_loop (Suc fuel) r = timeout_loop fuel r1" using BACKEND_RETURNED x(1) by (simp add: pop eq)
    then show ?thesis using BACKEND_RETURNED ok eq by (intro exI [of _ r1]) (simp add: timeout_out_def)
  qed
qed

lemma timeout_loop_run:
  assumes "loop_ok r xs" "\<forall>x \<in> set xs. \<not> lost r x" "length xs < fuel"
  shows "r_out (timeout_loop fuel r) = r_out r @ concat (map (timeout_out r) xs) \<and>
    r_live (timeout_loop fuel r) = r_live r \<and> r_crashed (timeout_loop fuel r) = r_crashed r \<and>
    req_done_called (timeout_loop fuel r) = req_done_called r \<and> r_err_no (timeout_loop fuel r) = r_err_no r \<and>
    r_timeout (timeout_loop fuel r) = r_timeout r"
  using assms
proof (induction xs arbitrary: r fuel)
  case Nil
  then show ?case by (cases fuel) (simp_all add: loop_ok_def req_subreq_queue_pop_def first_def)
next
  case (Cons x xs)
  obtain fuel' where f: "fuel = Suc fuel'" "length xs < fuel'" using Cons.prems(3) by (cases fuel) auto
  have "\<not> lost r x" using Cons.prems(2) by simp
  from timeout_turn [OF Cons.prems(1) this, of fuel'] obtain r2 where
    r2: "timeout_loop fuel r = timeout_loop fuel' r2" "loop_ok r2 xs" and
    eq: "sr_state r2 = sr_state r" "sr_node r2 = sr_node r" "sr_handle r2 = sr_handle r"
      "r_out r2 = r_out r @ timeout_out r x" "r_live r2 = r_live r" "r_crashed r2 = r_crashed r"
      "req_done_called r2 = req_done_called r" "r_err_no r2 = r_err_no r" "r_timeout r2 = r_timeout r"
    using f(1) by blast
  have "\<forall>x \<in> set xs. \<not> lost r2 x" using Cons.prems(2) by (simp add: lost_def eq)
  moreover have "timeout_out r2 = timeout_out r" by (rule timeout_out_cong) (fact eq)+
  ultimately show ?case using Cons.IH [OF r2(2) _ f(2)] eq by (simp add: r2(1))
qed

text \<open>A lost sub-request has no node to take out of the waiting queue: the loop passes NULL on.\<close>

lemma timeout_loop_lost:
  assumes "loop_ok r xs" "x \<in> set xs" "lost r x" "length xs < fuel"
  shows "r_crashed (timeout_loop fuel r) \<and> r_live (timeout_loop fuel r) = r_live r"
  using assms
proof (induction xs arbitrary: r fuel)
  case (Cons y ys)
  obtain fuel' where f: "fuel = Suc fuel'" "length ys < fuel'" using Cons.prems(4) by (cases fuel) auto
  show ?case
  proof (cases "lost r y")
    case True
    from loop_pop [OF Cons.prems(1)] obtain r1 where "req_subreq_queue_pop r = (Some y, r1)"
      "sr_state r1 = sr_state r" "sr_node r1 = sr_node r" "sr_live r1 = sr_live r" "r_live r1 = r_live r" by blast
    then show ?thesis using True f(1) by (auto simp: lost_def crash_def)
  next
    case False
    from timeout_turn [OF Cons.prems(1) False, of fuel'] obtain r2 where
      r2: "timeout_loop fuel r = timeout_loop fuel' r2" "loop_ok r2 ys" "sr_state r2 = sr_state r" "sr_node r2 = sr_node r"
        "r_live r2 = r_live r"
      using f(1) by blast
    have "lost r2 x" "x \<in> set ys" using Cons.prems(2,3) False r2 by (auto simp: lost_def)
    then show ?thesis using Cons.IH [OF r2(2) _ _ f(2)] r2 by simp
  qed
qed simp

lemma list_length:
  assumes "list_ok r xs"
  shows "length xs < Suc (sr_fresh r)"
proof -
  have d: "distinct xs" "set xs \<subseteq> {..<sr_fresh r}" using assms by (auto simp: list_ok_def)
  then have "card (set xs) \<le> card {..<sr_fresh r}" by (intro card_mono) auto
  then show ?thesis using d(1) by (simp add: distinct_card)
qed


section \<open>Reachable requests\<close>

text \<open>
  A request starts with \<open>req_ready\<close>, without debug lines; connections arrive for the sub-requests that wait (they have a
  node), and the backend answers those it was called for. Pools are named by
  their shard. The timeout, which ends a request, is treated apart.
\<close>

inductive req_reach :: "('h, 'n) req_t \<Rightarrow> bool" where
  started: "\<lbrakk>keys_ok f (get_pool :: int \<Rightarrow> int option) keys;
      req_ready False (Some f) get_pool fetch init_ret parse_ret (Some auth) is_write keys = Some r\<rbrakk> \<Longrightarrow> req_reach r"
| acquired: "\<lbrakk>req_reach r; r_live r; sr \<in> sr_live r; sr_state r sr = BEFORE_REQUEST_POOL; sr_node r sr \<noteq> None\<rbrakk>
    \<Longrightarrow> req_reach (req_on_acquired h res sr r)"
| backend_done: "\<lbrakk>req_reach r; r_live r; sr \<in> sr_live r; sr_state r sr = POOL_RETURNED\<rbrakk>
    \<Longrightarrow> req_reach (req_on_shard_done err (Some sr) r)"

lemma req_reach_ok: "req_reach r \<Longrightarrow> req_ok 0 r"
proof (induction rule: req_reach.induct)
  case (started f get_pool keys fetch init_ret parse_ret auth is_write r)
  from req_ready_ok [OF started(1), of fetch init_ret parse_ret auth is_write] started(2) show ?case by auto
next
  case (acquired r sr h res)
  then obtain xs where xs: "list_ok r xs" by (auto simp: req_ok_def)
  have "insert sr (outstanding r) = outstanding r" using acquired by (auto simp: outstanding_def lost_def)
  then show ?case
    using acquired req_on_acquired_ok [OF acquired(2) _ _ _ _ xs acquired(3), of 0 h res] by (simp add: req_ok_def)
next
  case (backend_done r sr err)
  have "sr \<in> outstanding r" using backend_done by (simp add: outstanding_def lost_def)
  then show ?case using shard_done_sub_ok [OF backend_done(5,2)] by blast
qed

text \<open>The names of the pools do not matter: they only pass from the lookup to the pool.\<close>

lemma serve_runs_rename:
  assumes "\<forall>g \<in> set gs. get_pool (shard_key (hd g)) \<noteq> None"
  shows "foldl (serve_run get_pool (req_on_getshards fetch)) r gs =
    foldl (serve_run (\<lambda>k. map_option (\<lambda>_. k) (get_pool k)) (req_on_getshards (\<lambda>r k. fetch r (the (get_pool k))))) r gs"
  using assms by (induction gs arbitrary: r) (auto simp: serve_run_def req_on_getshards_def)

lemma req_reach_any_pool:
  assumes "keys_ok f get_pool keys"
    and "req_ready False (Some f) get_pool fetch init_ret parse_ret (Some auth) is_write keys = Some r"
  shows "req_reach r"
proof (rule started)
  let ?get = "\<lambda>k. map_option (\<lambda>_. k) (get_pool k)" and ?fetch = "\<lambda>r k. fetch r (the (get_pool k))"
  show k: "keys_ok f ?get keys" using assms(1) by (simp add: keys_ok_def)
  have p: "get_pool (shard_key (hd g)) \<noteq> None" if "g \<in> set (shard_runs (hashed_reqs f keys))" for g
  proof -
    have "hd g \<in> set (concat (shard_runs (hashed_reqs f keys)))"
      using that hd_in_set [OF shard_runs_nonempty [OF that]] by (auto simp: set_concat)
    then show ?thesis using assms(1) by (simp add: concat_shard_runs keys_ok_def del: set_concat)
  qed
  have "foldl (serve_run get_pool (req_on_getshards fetch)) (req_start keys) (shard_runs (hashed_reqs f keys)) =
      foldl (serve_run ?get (req_on_getshards ?fetch)) (req_start keys) (shard_runs (hashed_reqs f keys))"
    by (rule serve_runs_rename) (use p in blast)
  then show "req_ready False (Some f) ?get ?fetch init_ret parse_ret (Some auth) is_write keys = Some r"
    using assms(2) by (simp only: req_ready_run [OF assms(1)] req_ready_run [OF k])
qed

section \<open>An example\<close>

text \<open>A request with two keys, of the shards 1 and 2.\<close>

definition example_keys :: "backend_req list" where
  "example_keys = [\<lparr>key = ''a'', shard_key = 0\<rparr>, \<lparr>key = ''b'', shard_key = 0\<rparr>]"

definition example_shard :: "32 word \<Rightarrow> int" where
  "example_shard w = (if bit w 0 then 1 else 2)"

lemma example_hashed:
  "hashed_reqs example_shard example_keys = [\<lparr>key = ''b'', shard_key = 1\<rparr>, \<lparr>key = ''a'', shard_key = 2\<rparr>]"
  by code_simp

definition example_request :: "((nat, nat) req_t \<Rightarrow> int \<Rightarrow> (nat, nat) fetch_res) \<Rightarrow> (nat, nat) req_t" where
  "example_request fetch =
     req_on_getshards fetch (req_on_getshards fetch (req_create\<lparr>shard_count := 2\<rparr>) [\<lparr>key = ''b'', shard_key = 1\<rparr>] 1)
       [\<lparr>key = ''a'', shard_key = 2\<rparr>] 2"

lemma example_request_reach: "req_reach (example_request fetch)"
proof (rule started)
  show k: "keys_ok example_shard Some example_keys"
    by (simp add: keys_ok_def example_hashed) (simp add: example_keys_def)
  have "(req_start example_keys :: (nat, nat) req_t) = req_create\<lparr>shard_count := 2\<rparr>" by (simp add: req_start_def example_keys_def)
  then show "req_ready False (Some example_shard) Some fetch 0 0 (Some 1) False example_keys =
      Some (example_request fetch)"
    by (simp add: req_ready_run [OF k] AUTH_READ_ONLY_def example_hashed serve_run_def example_request_def)
qed

lemmas example_run = example_request_def req_create_def req_on_getshards_def new_sub_req_def req_subreq_queue_push_def
  req_on_acquired_def req_on_shard_done_def sub_req_done_def req_subreq_queue_rm_def req_done_def emit_def crash_def
  Let_def lost_def outstanding_def

abbreviation "pending_and_waiting \<equiv> (\<lambda>r p. if p = 1 then FetchWaits 5 else FetchNow 9 CallPending)"

abbreviation "failing_and_waiting \<equiv> (\<lambda>r p. if p = 1 then FetchFails else FetchWaits 5)"

section \<open>Properties\<close>

lemma req_reach_dead: "req_reach r \<Longrightarrow> \<not> r_live r \<Longrightarrow> sr_live r = {}"
  using req_reach_ok by (fastforce simp: req_ok_def)



text \<open>
  C34: The sub-requests of an unanswered request form a well-linked list that holds each sub-request alive
  exactly once, and \<open>shard_count\<close> is the number of those with the pool or at the backend.
\<close>

theorem req_well_formed:
  assumes "req_reach r" "r_live r"
  shows "\<exists>xs. lseg (sr_next r) (sr_prev r) None xs None \<and> distinct xs \<and> sub_req_not_done r = first xs \<and>
    set xs = sr_live r \<and> shard_count r = int (card (outstanding r))"
  using req_reach_ok [OF assms(1)] assms(2) by (auto simp: req_ok_def list_ok_def)

theorem req_well_formed_witness: "shard_count (example_request pending_and_waiting) = int (card {0 :: nat, 1})"
proof -
  let ?r = "example_request pending_and_waiting"
  have "r_live ?r" "outstanding ?r = {0, 1}" by (auto simp: example_run)
  then show ?thesis using req_well_formed [OF example_request_reach, of pending_and_waiting] by metis
qed

text \<open>
  C17: A shard's answer gives its connection back to the pool with the shard's error number; the request is
  answered, with the error number collected so far, by the last outstanding shard and by no other.
\<close>

theorem req_answers_with_last_shard:
  assumes "req_reach r" "r_live r" "x \<in> sr_live r" "sr_state r x = POOL_RETURNED"
  shows "\<exists>h. sr_handle r x = Some h \<and>
    (if outstanding r = {x}
     then \<not> r_live (req_on_shard_done e (Some x) r) \<and>
          r_out (req_on_shard_done e (Some x) r) = r_out r @ [Release h e, Answered (r_err_no r)]
     else r_live (req_on_shard_done e (Some x) r) \<and> outstanding (req_on_shard_done e (Some x) r) = outstanding r - {x} \<and>
          r_out (req_on_shard_done e (Some x) r) = r_out r @ [Release h e])"
proof -
  let ?d = "sub_req_done e x r"
  have ok: "req_ok 0 r" by (rule req_reach_ok [OF assms(1)])
  then obtain xs where xs: "list_ok r xs" using assms(2) by (auto simp: req_ok_def)
  have x: "x \<in> outstanding r" using assms(3,4) by (simp add: outstanding_def lost_def)
  obtain h where h: "sr_handle r x = Some h" using xs assms(3,4) by (auto simp: list_ok_def)
  have d: "r_out ?d = r_out r @ [Release h e]" "r_err_no ?d = r_err_no r" "req_done_called ?d = req_done_called r"
      "r_timeout ?d = r_timeout r" "shard_count ?d = shard_count r"
    using assms(3) h by (simp_all add: sub_req_done_def req_subreq_queue_rm_def emit_def Let_def)
  have live: "r_live ?d" "outstanding ?d = outstanding r - {x}" using sub_req_done_ok [OF xs x, of e] assms(2) by simp_all
  have c: "shard_count r = int (card (outstanding r))" using ok assms(2) by (simp add: req_ok_def)
  have one: "shard_count r - 1 = 0 \<longleftrightarrow> outstanding r = {x}"
    using x c by (auto simp: card_1_singleton_iff)
  have st: "\<not> r_timeout r" "\<not> req_done_called r" using ok assms(2) by (auto simp: req_ok_def)
  have run: "req_on_shard_done e (Some x) r =
      (if outstanding r = {x} then req_done (?d\<lparr>shard_count := shard_count r - 1\<rparr>) else ?d\<lparr>shard_count := shard_count r - 1\<rparr>)"
    using assms(2) one d(4,5) st(1) by (simp add: req_on_shard_done_def Let_def)
  show ?thesis
  proof (cases "outstanding r = {x}")
    case True
    then show ?thesis using h d st live run
      by (simp add: req_done_def req_cleanup_def emit_def)
  next
    case False
    then show ?thesis using h d live run by (simp add: outstanding_def lost_def)
  qed
qed

theorem req_answers_with_last_shard_witness:
  "r_out (req_on_shard_done 0 (Some 1) (example_request pending_and_waiting)) = [BackendCall 1 9, Release 9 0]"
proof -
  let ?r = "example_request pending_and_waiting"
  have "r_live ?r" "1 \<in> sr_live ?r" "sr_state ?r 1 = POOL_RETURNED" "outstanding ?r \<noteq> {1}" "r_out ?r = [BackendCall 1 9]"
    "sr_handle ?r 1 = Some 9"
    by (simp_all add: example_run set_eq_iff exI [of _ 0])
  then show ?thesis using req_answers_with_last_shard [OF example_request_reach, of pending_and_waiting 1 0] by simp
qed

lemma loop_ok_timeout: "list_ok r xs \<Longrightarrow> loop_ok (r\<lparr>r_timeout := True, r_err_no := 504\<rparr>) xs"
  by (auto simp: list_ok_def loop_ok_def)



text \<open>
  C36: A sub-request whose connection could not be fetched stays in the list without a waiting node; when the
  request times out its NULL node is used, and the proxy crashes.
\<close>

theorem req_timeout_crashes:
  assumes "req_reach r" "r_live r" "x \<in> sr_live r" "lost r x"
  shows "r_crashed (req_timeout r)"
proof -
  let ?r = "r\<lparr>r_timeout := True, r_err_no := 504\<rparr>"
  have "req_ok 0 r" by (rule req_reach_ok [OF assms(1)])
  then obtain xs where xs: "list_ok r xs" using assms(2) by (auto simp: req_ok_def)
  have "x \<in> set xs" "lost ?r x" using xs assms(3,4) by (auto simp: list_ok_def lost_def)
  from timeout_loop_lost [OF loop_ok_timeout [OF xs] this list_length [OF xs]] show ?thesis
    using assms(2) by (simp add: req_timeout_def req_timeout_connect_cleanup_def req_fail_def req_done_def
        req_cleanup_def emit_def)
qed


theorem req_timeout_crashes_witness: "r_crashed (req_timeout (example_request failing_and_waiting))"
proof -
  let ?r = "example_request failing_and_waiting"
  have "r_live ?r" "0 \<in> sr_live ?r" "lost ?r 0" by (simp_all add: example_run)
  from req_timeout_crashes [OF example_request_reach this] show ?thesis .
qed

end
