(* ===== verification/ReqConns.thy ===== *)
theory ReqConns
  imports Req
begin

text \<open>
  The connections a request is given by its pools: each is counted when the request's callback receives it
  (\<open>BackendCall\<close>), when it is given back (\<open>Release\<close>) and while a sub-request holds it. The pool relies on
  this (theory \<open>PoolSystem\<close>): a connection given back is in use, and is given back once.
\<close>

section \<open>The account of one connection\<close>

definition calls :: "('h, 'n) req_t \<Rightarrow> 'h \<Rightarrow> nat" where
  "calls r h = length (filter (\<lambda>x. case x of BackendCall _ h' \<Rightarrow> h' = h | _ \<Rightarrow> False) (r_out r))"

definition releases :: "('h, 'n) req_t \<Rightarrow> 'h \<Rightarrow> nat" where
  "releases r h = length (filter (\<lambda>x. case x of Release h' _ \<Rightarrow> h' = h | _ \<Rightarrow> False) (r_out r))"

definition held_by :: "('h, 'n) req_t \<Rightarrow> 'h \<Rightarrow> nat set" where
  "held_by r h = {x \<in> sr_live r. sr_state r x \<noteq> BEFORE_REQUEST_POOL \<and> sr_handle r x = Some h}"

definition balanced :: "('h, 'n) req_t \<Rightarrow> bool" where
  "balanced r \<longleftrightarrow> (\<forall>h. calls r h = releases r h + card (held_by r h))"

lemma calls_emit [simp]:
  "calls (emit (BackendCall x h') r) h = calls r h + (if h' = h then 1 else 0)"
  "calls (emit (Answered e) r) h = calls r h" "calls (emit (Release h' e) r) h = calls r h"
  by (simp_all add: calls_def emit_def)

lemma releases_emit [simp]:
  "releases (emit (Release h' e) r) h = releases r h + (if h' = h then 1 else 0)"
  "releases (emit (Answered e) r) h = releases r h" "releases (emit (BackendCall x h') r) h = releases r h"
  by (simp_all add: releases_def emit_def)

lemma held_by_emit [simp]: "held_by (emit x r) h = held_by r h"
  by (simp add: held_by_def emit_def)

lemma balanced_cong:
  assumes "balanced r" "r_out r' = r_out r" "\<And>h. held_by r' h = held_by r h"
  shows "balanced r'"
  using assms by (simp add: balanced_def calls_def releases_def)

lemma held_finite: "list_ok r xs \<Longrightarrow> finite (held_by r h)"
  by (rule finite_subset [OF _ finite_set [of xs]]) (simp only: list_ok_def held_by_def, blast)

section \<open>The handlers keep the account\<close>

lemma held_outstanding: "outstanding r = {} \<Longrightarrow> held_by r h = {}"
  by (auto simp: outstanding_def held_by_def lost_def)

lemma req_done_balanced:
  assumes "balanced r" "outstanding r = {}" "r_live r" "\<not> req_done_called r"
  shows "balanced (req_done r)"
proof -
  have "req_done r = req_cleanup (emit (Answered (r_err_no r)) (r\<lparr>req_done_called := True\<rparr>))"
    using assms(3,4) by (simp add: req_done_def)
  moreover have "calls (req_cleanup r) h = calls r h" "releases (req_cleanup r) h = releases r h"
    "held_by (req_cleanup r) h = {}" for h and r :: "('a, 'b) req_t"
    by (simp_all add: req_cleanup_def calls_def releases_def held_by_def)
  moreover have "calls (r\<lparr>req_done_called := True\<rparr>) h = calls r h" "releases (r\<lparr>req_done_called := True\<rparr>) h = releases r h" for h
    by (simp_all add: calls_def releases_def)
  ultimately show ?thesis using assms(1) held_outstanding [OF assms(2)] by (simp add: balanced_def)
qed

lemma sub_req_done_balanced:
  assumes "balanced r" "list_ok r xs" "x \<in> sr_live r" "sr_state r x \<noteq> BEFORE_REQUEST_POOL" "sr_handle r x = Some h0"
  shows "balanced (sub_req_done e x r)"
  unfolding balanced_def
proof
  fix h
  let ?d = "sub_req_done e x r"
  have out: "r_out ?d = r_out r @ [Release h0 e]" and live: "sr_live ?d = sr_live r - {x}"
    and st: "sr_handle ?d = sr_handle r" "sr_state ?d = (sr_state r)(x := BACKEND_RETURNED)"
    using assms(3,5) by (simp_all add: sub_req_done_def req_subreq_queue_rm_def emit_def Let_def)
  have held: "held_by ?d h = held_by r h - {x}" by (auto simp: held_by_def live st)
  have "card (held_by r h) = card (held_by r h - {x}) + (if h = h0 then 1 else 0)"
  proof (cases "h = h0")
    case True
    then have "x \<in> held_by r h" using assms(3-5) by (simp add: held_by_def)
    from card_Suc_Diff1 [OF held_finite [OF assms(2)] this] show ?thesis using True by simp
  next
    case False
    then have "x \<notin> held_by r h" using assms(5) by (simp add: held_by_def)
    then show ?thesis using False by simp
  qed
  moreover have "calls ?d h = calls r h" "releases ?d h = releases r h + (if h = h0 then 1 else 0)"
    by (simp_all add: calls_def releases_def out)
  ultimately show "calls ?d h = releases ?d h + card (held_by ?d h)" using assms(1) held by (simp add: balanced_def)
qed

text \<open>One off the counter, and the answer when nothing is left.\<close>

lemma shard_off_balanced:
  assumes "balanced r" "r_live r" "\<not> req_done_called r" "\<not> r_timeout r" "list_ok r xs"
    and "shard_count r = int (card (outstanding r) + k) + 1"
    and "r' = (let r = r\<lparr>shard_count := shard_count r - 1\<rparr> in
               if shard_count r = 0 then (if r_timeout r then r else req_done r) else r)"
  shows "balanced r'"
proof -
  let ?r = "r\<lparr>shard_count := shard_count r - 1\<rparr>"
  have b: "balanced ?r" by (rule balanced_cong [OF assms(1)]) (simp_all add: held_by_def)
  show ?thesis
  proof (cases "shard_count r - 1 = 0")
    case True
    then have "card (outstanding r) = 0" using assms(6) by simp
    then have "outstanding ?r = {}" using outstanding_finite [OF assms(5)] by (simp add: outstanding_def lost_def)
    from req_done_balanced [OF b this] show ?thesis using assms(2-4,7) True by simp
  next
    case False
    then show ?thesis using assms(7) b by simp
  qed
qed

lemma shard_done_sub_balanced:
  assumes "balanced r" "req_ok k r" "r_live r" "x \<in> sr_live r" "sr_state r x = POOL_RETURNED"
  shows "balanced (req_on_shard_done e (Some x) r)"
proof -
  obtain xs where xs: "list_ok r xs" using assms(2,3) by (auto simp: req_ok_def)
  have x: "x \<in> outstanding r" using assms(4,5) by (simp add: outstanding_def lost_def)
  obtain h0 where h0: "sr_handle r x = Some h0" using xs assms(4,5) by (auto simp: list_ok_def)
  note s = sub_req_done_ok [OF xs x, of e]
  obtain ys where ys: "list_ok (sub_req_done e x r) ys" using s(1) by blast
  have "card (outstanding r) = Suc (card (outstanding r - {x}))"
    using x outstanding_finite [OF xs] by (simp only: card.remove)
  then have c: "shard_count (sub_req_done e x r) = int (card (outstanding (sub_req_done e x r)) + k) + 1"
    using assms(2,3) s by (simp add: req_ok_def)
  have b: "balanced (sub_req_done e x r)"
    by (rule sub_req_done_balanced [OF assms(1) xs assms(4) _ h0]) (simp add: assms(5))
  show ?thesis
    by (rule shard_off_balanced [OF b _ _ _ ys c]) (use assms(2,3) s in \<open>simp_all add: req_ok_def req_on_shard_done_def\<close>)
qed

lemma shard_done_none_balanced:
  assumes "balanced r" "req_ok (Suc k) r" "r_live r"
  shows "balanced (req_on_shard_done e None r)"
proof -
  obtain xs where xs: "list_ok r xs" using assms(2,3) by (auto simp: req_ok_def)
  show ?thesis
    by (rule shard_off_balanced [OF assms(1) _ _ _ xs, of k])
      (use assms in \<open>simp_all add: req_ok_def req_on_shard_done_def\<close>)
qed

lemma acquired_balanced:
  assumes "balanced r" "list_ok r xs" "x \<in> sr_live r" "sr_state r x = BEFORE_REQUEST_POOL" "st \<noteq> BEFORE_REQUEST_POOL"
    and "r1 = emit (BackendCall x h) (r\<lparr>sr_handle := (sr_handle r)(x := Some h), sr_state := (sr_state r)(x := st)\<rparr>)"
  shows "balanced r1"
  unfolding balanced_def
proof
  fix h'
  have held: "held_by r1 h' = (if h' = h then insert x (held_by r h') else held_by r h')"
    using assms(3-6) by (auto simp: held_by_def emit_def)
  have "x \<notin> held_by r h'" using assms(4) by (simp add: held_by_def)
  then have "card (held_by r1 h') = card (held_by r h') + (if h' = h then 1 else 0)"
    using held held_finite [OF assms(2), of h'] by (cases "h' = h") simp_all
  moreover have "calls r1 h' = calls r h' + (if h' = h then 1 else 0)" "releases r1 h' = releases r h'"
    by (simp_all add: assms(6) calls_def releases_def emit_def)
  ultimately show "calls r1 h' = releases r1 h' + card (held_by r1 h')" using assms(1) by (simp add: balanced_def)
qed

lemma req_on_acquired_balanced:
  assumes "balanced r" "r_live r" "\<not> r_crashed r" "\<not> req_done_called r" "answers r = 0" "\<not> r_timeout r" "list_ok r xs"
    and "x \<in> sr_live r" "sr_state r x = BEFORE_REQUEST_POOL" "shard_count r = int (card (insert x (outstanding r)) + k)"
  shows "balanced (req_on_acquired h res x r)"
proof -
  let ?r = "\<lambda>st. emit (BackendCall x h) (r\<lparr>sr_handle := (sr_handle r)(x := Some h), sr_state := (sr_state r)(x := st)\<rparr>)"
  have b: "balanced (?r st)" if "st \<noteq> BEFORE_REQUEST_POOL" for st
    by (rule acquired_balanced [OF assms(1,7-9) that refl])
  show ?thesis
  proof (cases res)
    case CallFails
    have "req_on_acquired h res x r = ?r BACKEND_RETURNED"
      using assms(2,8) CallFails by (simp add: req_on_acquired_def emit_def Let_def)
    then show ?thesis using b by simp
  next
    case CallPending
    have "req_on_acquired h res x r = ?r POOL_RETURNED"
      using assms(2,8) CallPending by (simp add: req_on_acquired_def Let_def)
    then show ?thesis using b by simp
  next
    case (CallDone e)
    note a = acquired_state [OF assms(7,8) refl, of POOL_RETURNED h]
    have "0 < card (insert x (outstanding r))" using outstanding_finite [OF assms(7)] by (simp add: card_gt_0_iff)
    then have ok: "req_ok k (?r POOL_RETURNED)" using a assms(2-6,10) by (auto simp: req_ok_def)
    have "req_on_acquired h res x r = req_on_shard_done e (Some x) (?r POOL_RETURNED)"
      using assms(2,8) CallDone by (simp add: req_on_acquired_def Let_def)
    moreover have "balanced (req_on_shard_done e (Some x) (?r POOL_RETURNED))"
      by (rule shard_done_sub_balanced [OF b ok]) (use assms(2,8) in \<open>simp_all add: emit_def\<close>)
    ultimately show ?thesis by simp
  qed
qed

lemma req_on_getshards_balanced:
  assumes "balanced r" "req_ok (Suc k) r" "r_live r"
  shows "balanced (req_on_getshards fetch r g p)"
proof -
  obtain xs where xs: "list_ok r xs" using assms by (auto simp: req_ok_def)
  let ?x = "sr_fresh r"
  define r1 where "r1 = req_subreq_queue_push ?x (snd (new_sub_req r))"
  note n = new_sub_req_ok [OF xs r1_def refl]
  have new: "?x \<notin> sr_live r" using xs by (auto simp: list_ok_def)
  have st: "r_out r1 = r_out r" "sr_live r1 = insert ?x (sr_live r)" "sr_handle r1 = sr_handle r"
    "sr_state r1 = (sr_state r)(?x := BEFORE_REQUEST_POOL)"
    by (simp_all add: r1_def req_subreq_queue_push_def new_sub_req_def Let_def split: option.splits)
  have "held_by r1 h = held_by r h" for h using new by (auto simp: held_by_def st)
  then have b: "balanced r1" using balanced_cong [OF assms(1) st(1)] by blast
  have ok: "\<not> r_crashed r1" "r_live r1" "\<not> req_done_called r1" "answers r1 = 0" "\<not> r_timeout r1"
    "shard_count r1 = int (card (outstanding r1) + Suc k)"
    using assms n by (auto simp: req_ok_def)
  note g = req_on_getshards_run [OF assms(3) r1_def, of fetch g p]
  show ?thesis
  proof (cases "fetch r1 p")
    case FetchFails
    have s: "list_ok (r1\<lparr>r_err_no := 503\<rparr>) (?x # xs)" "outstanding (r1\<lparr>r_err_no := 503\<rparr>) = outstanding r1"
      "answers (r1\<lparr>r_err_no := 503\<rparr>) = answers r1"
      using n(1) by (simp_all add: list_ok_def outstanding_def lost_def answers_def)
    then have "req_ok (Suc k) (r1\<lparr>r_err_no := 503\<rparr>)" using ok by (auto simp: req_ok_def)
    moreover have "balanced (r1\<lparr>r_err_no := 503\<rparr>)" by (rule balanced_cong [OF b]) (simp_all add: held_by_def)
    ultimately show ?thesis using shard_done_none_balanced ok(2) g FetchFails by fastforce
  next
    case (FetchWaits w)
    have "balanced (r1\<lparr>sr_node := (sr_node r1)(?x := Some w)\<rparr>)" by (rule balanced_cong [OF b]) (simp_all add: held_by_def)
    then show ?thesis using g FetchWaits by simp
  next
    case (FetchNow h res)
    have "shard_count r1 = int (card (insert ?x (outstanding r1)) + k)"
      using ok(6) n(2,4) outstanding_finite [OF xs] by simp
    from req_on_acquired_balanced [OF b ok(2,1,3,4,5) n(1,3) _ this] show ?thesis using g FetchNow st(4) by simp
  qed
qed

lemma serve_runs_balanced:
  assumes "balanced r" "req_ok (length (concat gs)) r" "r_live r" "\<forall>g \<in> set gs. g \<noteq> []"
  shows "balanced (foldl (serve_run get_pool (req_on_getshards fetch)) r gs)"
  using assms
proof (induction gs arbitrary: r)
  case (Cons g gs)
  let ?r = "r\<lparr>shard_count := shard_count r - int (length g - 1)\<rparr>"
  let ?s = "serve_run get_pool (req_on_getshards fetch) r g"
  have len: "length (concat (g # gs)) = Suc (length (concat gs)) + (length g - 1)" using Cons.prems(4) by (cases g) auto
  have same: "outstanding ?r = outstanding r" "answers ?r = answers r" "\<And>xs. list_ok ?r xs = list_ok r xs"
    by (simp_all add: list_ok_def outstanding_def lost_def answers_def)
  have ok: "req_ok (Suc (length (concat gs))) ?r" using Cons.prems(2) same unfolding req_ok_def len by auto
  have b: "balanced ?r" by (rule balanced_cong [OF Cons.prems(1)]) (simp_all add: held_by_def)
  have s: "balanced ?s" using req_on_getshards_balanced [OF b ok] Cons.prems(3) by (simp add: serve_run_def)
  have o: "req_ok (length (concat gs)) ?s" "0 < length (concat gs) \<longrightarrow> r_live ?s"
    using req_on_getshards_ok [OF ok, of fetch g] Cons.prems(3) by (simp_all add: serve_run_def)
  show ?case
  proof (cases "gs = []")
    case True
    then show ?thesis using s by simp
  next
    case False
    then have "0 < length (concat gs)" using Cons.prems(4) by (cases gs) auto
    then show ?thesis using Cons.IH [OF s o(1)] o(2) Cons.prems(4) by simp
  qed
qed simp

section \<open>Properties\<close>

lemma req_fail_balanced: "balanced (req_fail req_create)" "balanced (req_fail (req_create\<lparr>r_err_no := e\<rparr>))"
  by (simp_all add: balanced_def req_fail_def req_done_def req_cleanup_def req_create_def emit_def calls_def releases_def
      held_by_def)

lemma req_reach_balanced: "req_reach r \<Longrightarrow> balanced r"
proof (induction rule: req_reach.induct)
  case (started f get_pool keys fetch init_ret parse_ret auth is_write r)
  have b: "balanced (req_start keys :: ('a, 'b) req_t)"
    by (simp add: balanced_def calls_def releases_def held_by_def req_start_def req_create_def)
  have "balanced (foldl (serve_run get_pool (req_on_getshards fetch)) (req_start keys) (shard_runs (hashed_reqs f keys)))"
    using serve_runs_balanced [OF b req_start_ok(1,2) [OF started(1)]] by (simp add: shard_runs_nonempty)
  then show ?case
    using started(2) req_fail_balanced(1) req_fail_balanced(2) [of 401] by (auto simp: req_ready_run [OF started(1)] split: if_splits)
next
  case (acquired r sr h res)
  have ok: "req_ok 0 r" by (rule req_reach_ok [OF acquired(1)])
  then obtain xs where xs: "list_ok r xs" using acquired(2) by (auto simp: req_ok_def)
  have "insert sr (outstanding r) = outstanding r" using acquired by (auto simp: outstanding_def lost_def)
  then show ?case
    using req_on_acquired_balanced [OF acquired(6,2) _ _ _ _ xs acquired(3,4), of 0 h res] ok acquired(2)
    by (simp add: req_ok_def)
next
  case (backend_done r sr err)
  then show ?case using shard_done_sub_balanced [OF _ req_reach_ok] by blast
qed

text \<open>
  C18: Until its timeout a request gives every connection back exactly once: each one it was handed is either
  still held by a sub-request or has been released as often as it was handed out, and an answered request
  holds none.
\<close>

theorem req_connections_balanced:
  assumes "req_reach r"
  shows "calls r h = releases r h + card (held_by r h) \<and> (\<not> r_live r \<longrightarrow> releases r h = calls r h)"
proof -
  have b: "calls r h = releases r h + card (held_by r h)" using req_reach_balanced [OF assms] by (simp add: balanced_def)
  moreover have "held_by r h = {}" if "\<not> r_live r"
    using req_reach_dead [OF assms that] by (simp add: held_by_def)
  ultimately show ?thesis by simp
qed

theorem req_connections_balanced_witness:
  "calls (example_request pending_and_waiting) 9 = 1 \<and> releases (example_request pending_and_waiting) 9 = 0"
proof -
  let ?r = "example_request pending_and_waiting"
  have "releases ?r 9 = 0" "held_by ?r 9 = {1}"
    by (simp add: releases_def example_run) (auto simp: held_by_def example_run)
  then show ?thesis using req_connections_balanced [OF example_request_reach, of pending_and_waiting 9] by simp
qed

end
