(* ===== verification/Agent.thy ===== *)
theory Agent
  imports Meta ReqConns
begin

text \<open>
  The components together: a request that arrives in a reachable state of the router and the configuration
  (\<open>Meta\<close>, \<open>Router\<close>) is a request in the sense of \<open>Req\<close>, whatever its keys.
\<close>

section \<open>A request meets the router\<close>

text \<open>The pool \<open>router_acquire_shards\<close> passes on; \<open>None\<close> also for a NULL pool, which the pool would follow.\<close>

definition pool_of :: "router_state \<Rightarrow> bool \<Rightarrow> int \<Rightarrow> pool_desc option" where
  "pool_of s is_read k = (case get_shard s is_read k of None \<Rightarrow> None | Some p \<Rightarrow> p)"

definition agent_request ::
    "('m, 'z) hash_ops_scheme \<Rightarrow> 'm meta_state \<Rightarrow> (('h, 'n) req_t \<Rightarrow> pool_desc \<Rightarrow> ('h, 'n) fetch_res) \<Rightarrow> int \<Rightarrow> int \<Rightarrow>
     string option \<Rightarrow> string option \<Rightarrow> string option \<Rightarrow> bool \<Rightarrow> backend_req list \<Rightarrow> ('h, 'n) req_t option" where
  "agent_request H m fetch init_ret parse_ret name token ip is_write keys =
     req_ready False (current_shard (m_router m)) (pool_of (m_router m) (\<not> is_write)) fetch init_ret parse_ret
       (meta_auth_check H m name token ip) is_write keys"

lemma routed_keys_ok:
  assumes "router_reach s dying" "current_shard s = Some f" "keys \<noteq> []"
  shows "keys_ok f (pool_of s b) keys"
  unfolding keys_ok_def
proof (intro conjI ballI assms(3))
  fix x assume "x \<in> set (hashed_reqs f keys)"
  then have "shard_key x = f (int_of_u64 (strhash (key x)))" by (auto simp: hashed_reqs_def)
  then show "shard_key x \<noteq> -1" "pool_of s b (shard_key x) \<noteq> None"
    using router_lookup [OF assms(1,2), of "key x"] by (cases b; auto simp: pool_of_def)+
qed

section \<open>One sub-request per shard\<close>

lemma fresh_output [simp]:
  "sr_fresh (emit out r) = sr_fresh r" "sr_fresh (crash r) = sr_fresh r" "sr_fresh (req_cleanup r) = sr_fresh r"
  by (simp_all add: emit_def crash_def req_cleanup_def)

lemma fresh_done [simp]: "sr_fresh (req_done r) = sr_fresh r"
  by (simp add: req_done_def)

lemma fresh_sub_done [simp]: "sr_fresh (sub_req_done e x r) = sr_fresh r"
  by (simp add: sub_req_done_def req_subreq_queue_rm_def Let_def split: option.split)

lemma fresh_shard_done [simp]: "sr_fresh (req_on_shard_done e p r) = sr_fresh r"
  by (simp add: req_on_shard_done_def Let_def split: option.split)

lemma fresh_acquired [simp]: "sr_fresh (req_on_acquired h res x r) = sr_fresh r"
  by (simp add: req_on_acquired_def Let_def split: call_res.split)

lemma getshards_fresh: "r_live r \<Longrightarrow> sr_fresh (req_on_getshards fetch r g p) = Suc (sr_fresh r)"
proof -
  assume live: "r_live r"
  define r1 where "r1 = req_subreq_queue_push (sr_fresh r) (snd (new_sub_req r))"
  have "sr_fresh r1 = Suc (sr_fresh r)"
    by (simp add: r1_def req_subreq_queue_push_def new_sub_req_def Let_def split: option.split)
  then show ?thesis by (simp add: req_on_getshards_run [OF live r1_def] split: fetch_res.split)
qed

lemma serve_runs_fresh:
  assumes "req_ok (length (concat gs)) r" "r_live r" "\<forall>g \<in> set gs. g \<noteq> []"
  shows "sr_fresh (foldl (serve_run get_pool (req_on_getshards fetch)) r gs) = sr_fresh r + length gs"
  using assms
proof (induction gs arbitrary: r)
  case (Cons g gs)
  let ?r = "r\<lparr>shard_count := shard_count r - int (length g - 1)\<rparr>"
  let ?s = "serve_run get_pool (req_on_getshards fetch) r g"
  have len: "length (concat (g # gs)) = Suc (length (concat gs)) + (length g - 1)" using Cons.prems(3) by (cases g) auto
  have same: "outstanding ?r = outstanding r" "answers ?r = answers r" "\<And>xs. list_ok ?r xs = list_ok r xs"
    by (simp_all add: list_ok_def outstanding_def lost_def answers_def)
  have ok: "req_ok (Suc (length (concat gs))) ?r" using Cons.prems(1) same unfolding req_ok_def len by auto
  have o: "req_ok (length (concat gs)) ?s" "0 < length (concat gs) \<longrightarrow> r_live ?s"
    using req_on_getshards_ok [OF ok, of fetch g] Cons.prems(2) by (simp_all add: serve_run_def)
  have f: "sr_fresh ?s = Suc (sr_fresh r)" using getshards_fresh [of ?r] Cons.prems(2) by (simp add: serve_run_def)
  show ?case
  proof (cases "gs = []")
    case True
    then show ?thesis using f by simp
  next
    case False
    then have "0 < length (concat gs)" using Cons.prems(3) by (cases gs) auto
    then show ?thesis using Cons.IH [OF o(1)] o(2) Cons.prems(3) f by simp
  qed
qed simp

lemma length_shard_runs:
  assumes "sorted (map shard_key xs)"
  shows "length (shard_runs xs) = card (shard_key ` set xs)"
proof -
  let ?ks = "map (\<lambda>g. shard_key (hd g)) (shard_runs xs)"
  have "shard_key ` set xs = shard_key ` set (concat (shard_runs xs))" by (simp only: concat_shard_runs)
  also have "\<dots> = set ?ks"
  proof (rule set_eqI)
    fix k
    have u: "shard_key x = shard_key (hd g) \<and> hd g \<in> set g" if "g \<in> set (shard_runs xs)" "x \<in> set g" for g x
      using shard_runs_uniform [OF that] hd_in_set [OF shard_runs_nonempty [OF that(1)]] by simp
    have n: "hd g \<in> set g" if "g \<in> set (shard_runs xs)" for g using shard_runs_nonempty [OF that] by simp
    show "k \<in> shard_key ` set (concat (shard_runs xs)) \<longleftrightarrow> k \<in> set ?ks"
      unfolding set_concat set_map image_iff using u n by blast
  qed
  finally have "card (shard_key ` set xs) = card (set ?ks)" by simp
  also have "\<dots> = length ?ks"
    using shard_runs_distinct [OF assms] by (intro distinct_card) (simp only: strict_sorted_iff)
  finally show ?thesis by simp
qed

section \<open>Properties\<close>



end
