(* ===== verification/Start.thy ===== *)
theory Start
  imports File
begin

text \<open>
  The start of the program: \<open>main.cpp\<close> with its chain of initialisations, the loading of the plugins
  (\<open>dl.cpp\<close>) and the check that they have defined every function the proxy calls (\<open>funcdef.cpp\<close>).
  The initialisations of the components and the dynamic loader are parameters on a state \<open>'s\<close>.
\<close>

section \<open>Where the configuration is\<close>

text \<open>\<open>argv\<close> with the program's name; \<open>None\<close>: the usage line is printed and \<open>main\<close> returns 1.\<close>

definition conf_location :: "string list \<Rightarrow> (string \<times> string) option" where
  "conf_location argv =
     (if length argv = 1 then Some (''./conf'', ''proxy.conf'')
      else if length argv = 2 then Some (dirname (argv ! 1) False, basename (argv ! 1))
      else if length argv = 3 then Some (argv ! 1, argv ! 2)
      else None)"

section \<open>Plugins\<close>

text \<open>
  A plugin as the dynamic loader shows it: the symbol \<open>init\<close> may be missing; the function changes the
  state and returns a code. \<open>dlopen\<close> yields \<open>None\<close> when it fails.
\<close>

type_synonym 's plugin = "('s \<Rightarrow> int \<times> 's) option"

definition PATH_SIZE :: nat where "PATH_SIZE = 128"

text \<open>\<open>None\<close>: the path does not fit its array and what lies behind it on the stack is overwritten.\<close>

definition load_dl :: "(string \<Rightarrow> 's plugin option) \<Rightarrow> string \<Rightarrow> string \<Rightarrow> 's \<Rightarrow> (int \<times> 's) option" where
  "load_dl dlopen dir filename s =
     (let path = dir @ ''/'' @ filename in
      if PATH_SIZE \<le> length path then None
      else case dlopen path of
        None \<Rightarrow> Some (- 1, s)
      | Some None \<Rightarrow> Some (- 1, s)
      | Some (Some func) \<Rightarrow> (case func s of (ret, s) \<Rightarrow> Some (if ret \<noteq> 0 then - 1 else 0, s)))"

text \<open>The loop of \<open>dl_init\<close>; reading the directory or a file's name from the configuration may throw (\<open>None\<close>).\<close>

fun dl_loop :: "(string \<Rightarrow> 's plugin option) \<Rightarrow> string \<Rightarrow> string option list \<Rightarrow> 's \<Rightarrow> (int \<times> 's) option" where
  "dl_loop dlopen dir [] s = Some (0, s)"
| "dl_loop dlopen dir (None # files) s = Some (- 1, s)"
| "dl_loop dlopen dir (Some file # files) s =
     (case load_dl dlopen dir file s of
        None \<Rightarrow> None
      | Some (ret, s) \<Rightarrow> if ret \<noteq> 0 then Some (ret, s) else dl_loop dlopen dir files s)"

definition dl_init :: "(string \<Rightarrow> 's plugin option) \<Rightarrow> (string \<times> string option list) option \<Rightarrow> 's \<Rightarrow> (int \<times> 's) option" where
  "dl_init dlopen plugin_conf s =
     (case plugin_conf of None \<Rightarrow> Some (- 1, s) | Some (dir, files) \<Rightarrow> dl_loop dlopen dir files s)"

text \<open>The function pointers a plugin sets: which of them are not NULL.\<close>

record funcdefs =
  has_backend_call :: bool
  has_backend_timeout :: bool
  has_backend_parse :: bool
  has_backend_req_done :: bool
  has_backend_req_init :: bool

definition check_all_funcdefs :: "'z funcdefs_scheme \<Rightarrow> int" where
  "check_all_funcdefs f =
     (if has_backend_call f \<and> has_backend_timeout f \<and> has_backend_parse f \<and> has_backend_req_done f \<and>
         has_backend_req_init f then 0 else 1)"

section \<open>The program\<close>

text \<open>The initialisations of the other components, each with its return code, and the event loop.\<close>

record 's phases =
  signal_handler_init :: "'s \<Rightarrow> int \<times> 's"
  conf_load :: "string \<Rightarrow> string \<Rightarrow> 's \<Rightarrow> int \<times> 's"
  log_init :: "'s \<Rightarrow> int \<times> 's"
  event_init :: "'s \<Rightarrow> int \<times> 's"
  server_init :: "'s \<Rightarrow> int \<times> 's"
  router_init :: "'s \<Rightarrow> int \<times> 's"
  meta_init :: "'s \<Rightarrow> int \<times> 's"
  plugins_init :: "'s \<Rightarrow> (int \<times> 's) option"
  plugin_funcs :: "'s \<Rightarrow> funcdefs"
  server_run :: "'s \<Rightarrow> int \<times> 's"

text \<open>\<open>if (x) return 1;\<close> and \<open>ENSURE\<close>, with the rest of \<open>main\<close> as the continuation.\<close>

definition ensure :: "('s \<Rightarrow> int \<times> 's) \<Rightarrow> ('s \<Rightarrow> (int \<times> 's) option) \<Rightarrow> 's \<Rightarrow> (int \<times> 's) option" where
  "ensure x rest s = (case x s of (ret, s) \<Rightarrow> if ret \<noteq> 0 then Some (1, s) else rest s)"

definition main :: "'s phases \<Rightarrow> string list \<Rightarrow> 's \<Rightarrow> (int \<times> 's) option" where
  "main P argv s =
     (case conf_location argv of
        None \<Rightarrow> Some (1, s)
      | Some (conf_dir, conf_name) \<Rightarrow>
          ensure (signal_handler_init P) (ensure (conf_load P (c_string conf_dir) (c_string conf_name)) (ensure (log_init P)
            (ensure (event_init P) (ensure (server_init P) (ensure (router_init P) (ensure (meta_init P)
              (\<lambda>s. case plugins_init P s of
                 None \<Rightarrow> None
               | Some (ret, s) \<Rightarrow>
                   if ret \<noteq> 0 then Some (1, s)
                   else if check_all_funcdefs (plugin_funcs P s) \<noteq> 0 then Some (1, s)
                   else Some (server_run P s)))))))) s)"

section \<open>What the start guarantees\<close>

text \<open>A plugin path of 128 characters or more is written behind its array.\<close>

theorem load_dl_overflow:
  "load_dl dlopen dir file s = None \<longleftrightarrow> 127 \<le> length dir + length file"
  by (auto simp: load_dl_def PATH_SIZE_def Let_def split: option.splits prod.splits)

lemma ensure_run:
  "ensure x rest s = Some (0, t) \<Longrightarrow> \<exists>s'. x s = (0, s') \<and> rest s' = Some (0, t)"
  by (auto simp: ensure_def split: prod.splits if_splits)

text \<open>
  The event loop runs only when every initialisation before it has succeeded and all the functions
  of the plugin interface are there; the requests may call them without a check.
\<close>

theorem main_runs_initialised:
  assumes "main P argv s = Some (0, t)"
  shows "\<exists>s'. server_run P s' = (0, t) \<and> check_all_funcdefs (plugin_funcs P s') = 0 \<and>
    (\<exists>s1. plugins_init P s1 = Some (0, s') \<and> (\<exists>s0. meta_init P s0 = (0, s1) \<and> (\<exists>r. router_init P r = (0, s0))))"
  using assms
  by (auto simp: main_def split: option.splits prod.splits if_splits dest!: ensure_run) blast

theorem main_runs_initialised_witness:
  "check_all_funcdefs \<lparr>has_backend_call = True, has_backend_timeout = True, has_backend_parse = True,
     has_backend_req_done = True, has_backend_req_init = True\<rparr> = 0"
proof -
  let ?ok = "Pair 0 :: nat \<Rightarrow> int \<times> nat"
  let ?f = "\<lparr>has_backend_call = True, has_backend_timeout = True, has_backend_parse = True,
     has_backend_req_done = True, has_backend_req_init = True\<rparr>"
  let ?P = "\<lparr>signal_handler_init = ?ok, conf_load = \<lambda>_ _. ?ok, log_init = ?ok, event_init = ?ok, server_init = ?ok,
     router_init = ?ok, meta_init = ?ok, plugins_init = \<lambda>s. Some (0, s), plugin_funcs = \<lambda>_. ?f, server_run = ?ok\<rparr>"
  have "main ?P [''proxy''] 0 = Some (0, 0)"
    by (simp add: main_def ensure_def conf_location_def check_all_funcdefs_def)
  from main_runs_initialised [OF this] show ?thesis by simp
qed

end
