(* ===== verification/Listen.thy ===== *)
theory Listen
  imports Connection Whitelist
begin

text \<open>
  The listening side of \<open>server.cpp\<close>: reading the configuration of the server, the start of the listening
  socket, accepting a connection, and the pause when the process has no file descriptor left. The results of
  the system calls are parameters; \<open>Exits\<close> is a call of \<open>exit\<close>, \<open>Crashes\<close> a use of freed memory.
\<close>

section \<open>Configuration\<close>

text \<open>The fields, \<open>None\<close> where the configuration has none; the last three have defaults.\<close>

record server_fields =
  cf_port :: "int option"
  cf_whitelist :: "string option"
  cf_interval :: "int option"
  cf_pid :: "string option"
  cf_product :: "string option"
  cf_subsys :: "string option"
  cf_module :: "string option"

record server_conf =
  sc_port :: int
  sc_whitelist :: string
  sc_interval :: int
  sc_pid :: string
  sc_product :: string
  sc_subsys :: string
  sc_module :: string

definition with_default :: "'a option \<Rightarrow> 'a \<Rightarrow> 'a" where
  "with_default x d = (case x of None \<Rightarrow> d | Some v \<Rightarrow> v)"

text \<open>\<open>None\<close>: the configuration object throws and the result is -1.\<close>

definition server_read_conf :: "server_fields \<Rightarrow> server_conf option" where
  "server_read_conf F =
     do {
       p \<leftarrow> cf_port F;
       w \<leftarrow> cf_whitelist F;
       i \<leftarrow> cf_interval F;
       d \<leftarrow> cf_pid F;
       Some \<lparr>sc_port = p, sc_whitelist = w, sc_interval = i, sc_pid = d,
             sc_product = with_default (cf_product F) ''ksarch-redis'', sc_subsys = with_default (cf_subsys F) d,
             sc_module = with_default (cf_module F) ''redisproxy''\<rparr>
     }"

section \<open>Accepting connections\<close>

text \<open>Whether \<open>listen_ev\<close> is in the event loop, and \<open>enable_timer\<close> (pending as long as it is not NULL).\<close>

record listen_state =
  listen_added :: bool
  enable_timer :: "(unit, unit) event_timer option"

datatype 'a outcome = Runs 'a | Exits | Crashes

text \<open>\<open>listen_ok\<close> and \<open>add_ok\<close> are the results of \<open>listen\<close> and \<open>event_add\<close>.\<close>

definition enable_accept :: "bool \<Rightarrow> bool \<Rightarrow> listen_state \<Rightarrow> listen_state outcome" where
  "enable_accept listen_ok add_ok s =
     (if \<not> listen_ok then Exits
      else if \<not> add_ok then Exits
      else Runs (let s = s\<lparr>listen_added := True\<rparr> in
                 case enable_timer s of None \<Rightarrow> s | Some _ \<Rightarrow> s\<lparr>enable_timer := None\<rparr>))"

datatype errno = EINTR | ENFILE | EMFILE | OtherErrno

text \<open>A descriptor comes with the address of the client, as a number and as text.\<close>

datatype accept_res = AcceptError errno | Accepted u32 string

datatype accept_out = NoConnection | Refused | NewConnection connection

definition accept_cb ::
    "nshead_format \<Rightarrow> time_val \<Rightarrow> wl_state \<Rightarrow> bool \<Rightarrow> accept_res \<Rightarrow> listen_state \<Rightarrow> (accept_out \<times> listen_state) outcome" where
  "accept_cb F now wl listen_ok res s =
     (case res of
        AcceptError e \<Rightarrow>
          if e = EINTR then Runs (NoConnection, s)
          else if e = ENFILE \<or> e = EMFILE then
            if \<not> listen_ok then Exits
            else Runs (NoConnection, s\<lparr>listen_added := False, enable_timer := Some (event_timer_new () 10000 False ())\<rparr>)
          else Exits
      | Accepted ip ip_text \<Rightarrow>
          (case in_whitelist_u ip wl of
             None \<Rightarrow> Crashes
           | Some False \<Rightarrow> Runs (Refused, s)
           | Some True \<Rightarrow> Runs (NewConnection (accept_connection F now ip_text), s)))"

text \<open>\<open>server_run\<close>: each system call that fails ends the process; then accepting is enabled.\<close>

definition server_run :: "bool list \<Rightarrow> bool \<Rightarrow> bool \<Rightarrow> listen_state outcome" where
  "server_run calls_ok listen_ok add_ok =
     (if \<not> list_all id calls_ok then Exits
      else enable_accept listen_ok add_ok \<lparr>listen_added = False, enable_timer = None\<rparr>)"

text \<open>The callback of the listening event runs while the event is in the loop, the timer when it is pending.\<close>

inductive listen_reach :: "listen_state \<Rightarrow> bool" where
  started: "server_run calls_ok listen_ok add_ok = Runs s \<Longrightarrow> listen_reach s"
| accept: "\<lbrakk>listen_reach s; listen_added s; accept_cb F now wl listen_ok res s = Runs (out, s')\<rbrakk> \<Longrightarrow> listen_reach s'"
| timer: "\<lbrakk>listen_reach s; enable_timer s = Some t; enable_accept listen_ok add_ok s = Runs s'\<rbrakk> \<Longrightarrow> listen_reach s'"

inductive_cases listen_reachE: "listen_reach s"

lemma enable_accept_state: "enable_accept l a s = Runs s' \<Longrightarrow> listen_added s' \<and> enable_timer s' = None"
  by (auto simp: enable_accept_def Let_def split: if_splits option.splits)

text \<open>
  The proxy is never deaf for good: as long as it runs, it either listens or a timer is pending that makes it
  listen again; the timer exists only during a pause.
\<close>

theorem listen_or_timer:
  assumes "listen_reach s"
  shows "listen_added s \<longleftrightarrow> enable_timer s = None"
  using assms
proof (induction rule: listen_reach.induct)
  case (started calls_ok listen_ok add_ok s)
  then show ?case by (auto simp: server_run_def dest: enable_accept_state split: if_splits)
next
  case (accept s F now wl listen_ok res out s')
  then show ?case by (auto simp: accept_cb_def split: accept_res.splits if_splits option.splits bool.splits)
next
  case (timer s t listen_ok add_ok s')
  then show ?case by (auto dest: enable_accept_state)
qed

text \<open>A connection is set up only for an address the whitelist allows, and then it reads its first header.\<close>

theorem accept_whitelisted:
  assumes "accept_cb F now wl listen_ok res s = Runs (NewConnection c, s')"
  shows "\<exists>ip t. res = Accepted ip t \<and> in_whitelist_u ip wl = Some True \<and> c = accept_connection F now t \<and> s' = s"
  using assms by (auto simp: accept_cb_def split: accept_res.splits if_splits option.splits bool.splits)

text \<open>
  Every other error of \<open>accept\<close> ends the process, also those that a client causes by giving up
  before it is accepted.
\<close>

lemma accept_error_exits: "accept_cb F now wl listen_ok (AcceptError OtherErrno) s = Exits"
  by (simp add: accept_cb_def)

end
