(* ===== verification/MinHeap.thy ===== *)
theory MinHeap
  imports Prelude
begin

text \<open>
  The timer heap of libevent (\<^verbatim>\<open>src/deps/libevent/minheap-internal.h\<close>), which holds
  every pending timer of the proxy.

  The array \<^verbatim>\<open>p\<close> is a partial map from indices to events: a cell that was never
  written is \<^verbatim>\<open>None\<close>, and reading it, or writing at or past the capacity \<^verbatim>\<open>a\<close>, makes an
  operation return \<^verbatim>\<open>None\<close>.  The field \<^verbatim>\<open>min_heap_idx\<close> that each event carries is the map
  \<^verbatim>\<open>hp_idx\<close>; the deadlines \<^verbatim>\<open>ev_timeout\<close> are only read here and are an argument.  Indices
  are natural numbers: the unsigned arithmetic of the source wraps only past 2^31 timers.

  The lemmas show that every operation stays inside the array, keeps the heap order and
  the back indices, and changes the set of members by exactly the event it is called for,
  and that the top is a member with the least deadline.  They are stated once as the
  contract of a priority queue, which the event loop rests on.
\<close>

subsection \<open>Times\<close>

text \<open>\<^verbatim>\<open>struct timeval\<close>: seconds and microseconds, compared as \<^verbatim>\<open>evutil_timercmp\<close> does.\<close>

datatype timeval = Timeval (tv_sec: int) (tv_usec: int)

definition evutil_timercmp :: "(int \<Rightarrow> int \<Rightarrow> bool) \<Rightarrow> timeval \<Rightarrow> timeval \<Rightarrow> bool" where
  "evutil_timercmp cmp s t \<longleftrightarrow>
     (if tv_sec s = tv_sec t then cmp (tv_usec s) (tv_usec t) else cmp (tv_sec s) (tv_sec t))"

instantiation timeval :: linorder
begin

definition timeval_le: "s \<le> t \<longleftrightarrow> evutil_timercmp (\<le>) s t"

definition timeval_less: "s < t \<longleftrightarrow> evutil_timercmp (<) s t"

instance
proof
  fix s t u :: timeval
  show "s < t \<longleftrightarrow> s \<le> t \<and> \<not> t \<le> s"
    by (auto simp: timeval_le timeval_less evutil_timercmp_def)
  show "s \<le> s" by (simp add: timeval_le evutil_timercmp_def)
  show "s \<le> t \<Longrightarrow> t \<le> u \<Longrightarrow> s \<le> u"
    by (auto simp: timeval_le evutil_timercmp_def split: if_splits)
  show "s \<le> t \<Longrightarrow> t \<le> s \<Longrightarrow> s = t"
    by (auto simp: timeval_le evutil_timercmp_def timeval.expand split: if_splits)
  show "s \<le> t \<or> t \<le> s"
    by (auto simp: timeval_le evutil_timercmp_def)
qed

end

subsection \<open>The heap\<close>

record 'e min_heap =
  hp_p :: "nat \<rightharpoonup> 'e"
  hp_n :: nat
  hp_a :: nat
  hp_idx :: "'e \<Rightarrow> int"

definition min_heap_elem_greater :: "('e \<Rightarrow> timeval) \<Rightarrow> 'e \<Rightarrow> 'e \<Rightarrow> bool" where
  "min_heap_elem_greater tm x y \<longleftrightarrow> tm x > tm y"

definition min_heap_ctor :: "('e \<Rightarrow> int) \<Rightarrow> 'e min_heap" where
  "min_heap_ctor idx = \<lparr>hp_p = Map.empty, hp_n = 0, hp_a = 0, hp_idx = idx\<rparr>"

definition min_heap_elem_init :: "'e \<Rightarrow> 'e min_heap \<Rightarrow> 'e min_heap" where
  "min_heap_elem_init e h = h\<lparr>hp_idx := (hp_idx h)(e := -1)\<rparr>"

definition min_heap_empty :: "'e min_heap \<Rightarrow> bool" where
  "min_heap_empty h \<longleftrightarrow> 0 = hp_n h"

definition min_heap_size :: "'e min_heap \<Rightarrow> nat" where
  "min_heap_size h = hp_n h"

text \<open>The outer option is the access to the array, the inner one the null pointer.\<close>

definition min_heap_top :: "'e min_heap \<Rightarrow> 'e option option" where
  "min_heap_top h = (if hp_n h \<noteq> 0 then map_option Some (hp_p h 0) else Some None)"

definition min_heap_elt_is_top :: "'e \<Rightarrow> 'e min_heap \<Rightarrow> bool" where
  "min_heap_elt_is_top e h \<longleftrightarrow> hp_idx h e = 0"

text \<open>The assignment \<^verbatim>\<open>(s->p[hole_index] = e)->min_heap_idx = hole_index\<close>.\<close>

definition min_heap_place :: "'e min_heap \<Rightarrow> nat \<Rightarrow> 'e \<Rightarrow> 'e min_heap option" where
  "min_heap_place h hole e =
     (if hole < hp_a h
      then Some (h\<lparr>hp_p := (hp_p h)(hole \<mapsto> e), hp_idx := (hp_idx h)(e := int hole)\<rparr>)
      else None)"

lemma min_heap_place_n [simp]: "min_heap_place h i e = Some h' \<Longrightarrow> hp_n h' = hp_n h"
  by (auto simp: min_heap_place_def split: if_splits)

function (sequential) min_heap_shift_up ::
  "('e \<Rightarrow> timeval) \<Rightarrow> 'e min_heap \<Rightarrow> nat \<Rightarrow> 'e \<Rightarrow> 'e min_heap option" where
  "min_heap_shift_up tm h hole e =
     (if hole = 0 then min_heap_place h hole e
      else case hp_p h ((hole - 1) div 2) of
        None \<Rightarrow> None
      | Some q \<Rightarrow>
          if min_heap_elem_greater tm q e
          then case min_heap_place h hole q of
                 None \<Rightarrow> None
               | Some h' \<Rightarrow> min_heap_shift_up tm h' ((hole - 1) div 2) e
          else min_heap_place h hole e)"
  by pat_completeness auto
termination by (relation "measure (\<lambda>(tm, h, hole, e). hole)") auto

text \<open>The smaller child: \<^verbatim>\<open>min_child -= min_child == s->n || greater (p[min_child], p[min_child - 1])\<close>.\<close>

definition min_heap_min_child ::
  "('e \<Rightarrow> timeval) \<Rightarrow> 'e min_heap \<Rightarrow> nat \<Rightarrow> nat option" where
  "min_heap_min_child tm h c =
     (if c = hp_n h then Some (c - 1)
      else case (hp_p h c, hp_p h (c - 1)) of
        (Some r, Some l) \<Rightarrow> Some (if min_heap_elem_greater tm r l then c - 1 else c)
      | _ \<Rightarrow> None)"

lemma min_heap_min_child_range:
  "min_heap_min_child tm h c = Some d \<Longrightarrow> d = c \<and> c \<noteq> hp_n h \<or> d = c - 1"
  by (auto simp: min_heap_min_child_def split: if_splits option.splits)

function (sequential) min_heap_shift_down ::
  "('e \<Rightarrow> timeval) \<Rightarrow> 'e min_heap \<Rightarrow> nat \<Rightarrow> 'e \<Rightarrow> 'e min_heap option" where
  "min_heap_shift_down tm h hole e =
     (if 2 * (hole + 1) \<le> hp_n h
      then case min_heap_min_child tm h (2 * (hole + 1)) of
             None \<Rightarrow> None
           | Some c \<Rightarrow>
               (case hp_p h c of
                  None \<Rightarrow> None
                | Some q \<Rightarrow>
                    if \<not> min_heap_elem_greater tm e q then min_heap_place h hole e
                    else case min_heap_place h hole q of
                           None \<Rightarrow> None
                         | Some h' \<Rightarrow> min_heap_shift_down tm h' c e)
      else min_heap_place h hole e)"
  by pat_completeness auto
termination
  by (relation "measure (\<lambda>(tm, h, hole, e). hp_n h - hole)")
     (auto dest!: min_heap_min_child_range)

text \<open>\<^verbatim>\<open>alloc\<close> says whether \<^verbatim>\<open>mm_realloc\<close> finds memory; the result is the return value.\<close>

definition min_heap_reserve :: "bool \<Rightarrow> 'e min_heap \<Rightarrow> nat \<Rightarrow> int \<times> 'e min_heap" where
  "min_heap_reserve alloc h n =
     (if hp_a h < n
      then let a = (if hp_a h \<noteq> 0 then hp_a h * 2 else 8);
               a' = (if a < n then n else a)
           in if alloc then (0, h\<lparr>hp_a := a'\<rparr>) else (-1, h)
      else (0, h))"

definition min_heap_push ::
  "bool \<Rightarrow> ('e \<Rightarrow> timeval) \<Rightarrow> 'e min_heap \<Rightarrow> 'e \<Rightarrow> (int \<times> 'e min_heap) option" where
  "min_heap_push alloc tm h e =
     (case min_heap_reserve alloc h (hp_n h + 1) of
        (r, h1) \<Rightarrow>
          if r \<noteq> 0 then Some (-1, h1)
          else map_option (Pair 0)
                 (min_heap_shift_up tm (h1\<lparr>hp_n := hp_n h1 + 1\<rparr>) (hp_n h1) e))"

definition min_heap_pop ::
  "('e \<Rightarrow> timeval) \<Rightarrow> 'e min_heap \<Rightarrow> ('e option \<times> 'e min_heap) option" where
  "min_heap_pop tm h =
     (if hp_n h \<noteq> 0
      then case (hp_p h 0, hp_p h (hp_n h - 1)) of
             (Some e, Some x) \<Rightarrow>
               map_option (\<lambda>h'. (Some e, h'\<lparr>hp_idx := (hp_idx h')(e := -1)\<rparr>))
                 (min_heap_shift_down tm (h\<lparr>hp_n := hp_n h - 1\<rparr>) 0 x)
           | _ \<Rightarrow> None
      else Some (None, h))"

definition min_heap_erase ::
  "('e \<Rightarrow> timeval) \<Rightarrow> 'e min_heap \<Rightarrow> 'e \<Rightarrow> (int \<times> 'e min_heap) option" where
  "min_heap_erase tm h e =
     (if -1 \<noteq> hp_idx h e
      then case (if hp_idx h e < 0 then None else hp_p h (hp_n h - 1)) of
             None \<Rightarrow> None
           | Some x \<Rightarrow>
               let h1 = h\<lparr>hp_n := hp_n h - 1\<rparr>;
                   i = nat (hp_idx h e);
                   fin = map_option (\<lambda>h'. (0, h'\<lparr>hp_idx := (hp_idx h')(e := -1)\<rparr>))
               in if 0 < hp_idx h e
                  then (case hp_p h ((i - 1) div 2) of
                          None \<Rightarrow> None
                        | Some q \<Rightarrow>
                            if min_heap_elem_greater tm q x
                            then fin (min_heap_shift_up tm h1 i x)
                            else fin (min_heap_shift_down tm h1 i x))
                  else fin (min_heap_shift_down tm h1 i x)
      else Some (-1, h))"


declare min_heap_shift_up.simps [simp del] min_heap_shift_down.simps [simp del]

subsection \<open>The order of the heap\<close>

text \<open>
  The order is stated over the deadlines as a function \<open>T\<close> of the index.  While an event is
  sifted the array has a hole at \<open>i\<close>: \<open>near_ordered\<close> is the order of everything else, the
  parent of the hole standing above the hole's children.
\<close>

definition heap_ordered :: "(nat \<Rightarrow> timeval) \<Rightarrow> nat \<Rightarrow> bool" where
  "heap_ordered T n \<longleftrightarrow> (\<forall>j. 0 < j \<longrightarrow> j < n \<longrightarrow> T ((j - 1) div 2) \<le> T j)"

definition near_ordered :: "(nat \<Rightarrow> timeval) \<Rightarrow> nat \<Rightarrow> nat \<Rightarrow> bool" where
  "near_ordered T n i \<longleftrightarrow>
     (\<forall>j. 0 < j \<longrightarrow> j < n \<longrightarrow> j \<noteq> i \<longrightarrow> (j - 1) div 2 \<noteq> i \<longrightarrow> T ((j - 1) div 2) \<le> T j) \<and>
     (\<forall>j. 0 < j \<longrightarrow> j < n \<longrightarrow> (j - 1) div 2 = i \<longrightarrow> 0 < i \<longrightarrow> T ((i - 1) div 2) \<le> T j)"

definition below_ok :: "(nat \<Rightarrow> timeval) \<Rightarrow> nat \<Rightarrow> nat \<Rightarrow> timeval \<Rightarrow> bool" where
  "below_ok T n i t \<longleftrightarrow> (\<forall>j. 0 < j \<longrightarrow> j < n \<longrightarrow> (j - 1) div 2 = i \<longrightarrow> t \<le> T j)"

definition above_ok :: "(nat \<Rightarrow> timeval) \<Rightarrow> nat \<Rightarrow> timeval \<Rightarrow> bool" where
  "above_ok T i t \<longleftrightarrow> (0 < i \<longrightarrow> T ((i - 1) div 2) \<le> t)"

lemma heap_ordered_top:
  assumes "heap_ordered T n" "i < n"
  shows "T 0 \<le> T i"
  using assms(2)
proof (induction i rule: less_induct)
  case (less i)
  show ?case
  proof (cases "i = 0")
    case False
    then have "(i - 1) div 2 < i" by linarith
    then have "T 0 \<le> T ((i - 1) div 2)" using less by simp
    also have "\<dots> \<le> T i" using assms(1) less.prems False by (simp add: heap_ordered_def)
    finally show ?thesis .
  qed simp
qed

lemma near_ordered_of_heap:
  assumes "heap_ordered T n" "m \<le> n"
  shows "near_ordered T m i"
  unfolding near_ordered_def
proof (intro conjI allI impI)
  fix j assume "0 < j" "j < m" "j \<noteq> i" "(j - 1) div 2 \<noteq> i"
  then show "T ((j - 1) div 2) \<le> T j" using assms by (simp add: heap_ordered_def)
next
  fix j assume j: "0 < j" "j < m" "(j - 1) div 2 = i" and i: "0 < i"
  have "T ((i - 1) div 2) \<le> T i"
    using assms j i by (auto simp: heap_ordered_def)
  also have "\<dots> \<le> T j" using assms j by (auto simp: heap_ordered_def)
  finally show "T ((i - 1) div 2) \<le> T j" .
qed

lemma heap_ordered_fill:
  assumes "near_ordered T n i" "below_ok T n i t" "above_ok T i t"
  shows "heap_ordered (T(i := t)) n"
  unfolding heap_ordered_def
proof (intro allI impI)
  fix j assume j: "0 < j" "j < n"
  have "(j - 1) div 2 \<noteq> j" using j by linarith
  then show "(T(i := t)) ((j - 1) div 2) \<le> (T(i := t)) j"
    using assms j
    by (cases "j = i"; cases "(j - 1) div 2 = i")
       (auto simp: near_ordered_def below_ok_def above_ok_def)
qed

lemma near_ordered_up:
  assumes near: "near_ordered T n i" and i: "0 < i" "i < n"
    and t: "t < T ((i - 1) div 2)"
  shows "near_ordered (T(i := T ((i - 1) div 2))) n ((i - 1) div 2)"
    and "below_ok (T(i := T ((i - 1) div 2))) n ((i - 1) div 2) t"
proof -
  define q where "q = (i - 1) div 2"
  have q: "q < i" using i by (simp add: q_def) 
  show "near_ordered (T(i := T ((i - 1) div 2))) n ((i - 1) div 2)"
    unfolding near_ordered_def q_def [symmetric]
  proof (intro conjI allI impI)
    fix j assume j: "0 < j" "j < n" "j \<noteq> q" "(j - 1) div 2 \<noteq> q"
    then have "j \<noteq> i" by (auto simp: q_def)
    then show "(T(i := T q)) ((j - 1) div 2) \<le> (T(i := T q)) j"
      using near i j by (auto simp: near_ordered_def q_def)
  next
    fix j assume j: "0 < j" "j < n" "(j - 1) div 2 = q" and q0: "0 < q"
    have qq: "(q - 1) div 2 \<noteq> i" "q \<noteq> i" "(q - 1) div 2 < q" using q q0 by linarith+
    have up: "T ((q - 1) div 2) \<le> T q"
      using near q0 q i qq by (simp add: near_ordered_def)
    show "(T(i := T q)) ((q - 1) div 2) \<le> (T(i := T q)) j"
    proof (cases "j = i")
      case False
      then have "T q \<le> T j" using near j q by (auto simp: near_ordered_def)
      then show ?thesis using up qq False by auto
    qed (use up qq in auto)
  qed
  show "below_ok (T(i := T ((i - 1) div 2))) n ((i - 1) div 2) t"
    unfolding below_ok_def q_def [symmetric]
  proof (intro allI impI)
    fix j assume j: "0 < j" "j < n" "(j - 1) div 2 = q"
    show "t \<le> (T(i := T q)) j"
    proof (cases "j = i")
      case False
      then have "T q \<le> T j" using near j q by (auto simp: near_ordered_def)
      then show ?thesis using t False by (auto simp: q_def)
    qed (use t in \<open>auto simp: q_def\<close>)
  qed
qed

lemma near_ordered_down:
  assumes near: "near_ordered T n i" and c: "0 < c" "c < n" "(c - 1) div 2 = i"
    and least: "\<And>j. 0 < j \<Longrightarrow> j < n \<Longrightarrow> (j - 1) div 2 = i \<Longrightarrow> T c \<le> T j"
    and t: "T c < t"
  shows "near_ordered (T(i := T c)) n c" "above_ok (T(i := T c)) c t"
proof -
  have ic: "i < c" using c by linarith
  show "near_ordered (T(i := T c)) n c"
    unfolding near_ordered_def
  proof (intro conjI allI impI)
    fix j assume j: "0 < j" "j < n" "j \<noteq> c" "(j - 1) div 2 \<noteq> c"
    have ne: "(j - 1) div 2 \<noteq> j" using j by linarith
    show "(T(i := T c)) ((j - 1) div 2) \<le> (T(i := T c)) j"
    proof (cases "j = i")
      case True
      then have "T ((i - 1) div 2) \<le> T c" using near c j by (auto simp: near_ordered_def)
      then show ?thesis using True ne by auto
    next
      case False
      then show ?thesis using near j least [of j] by (auto simp: near_ordered_def)
    qed
  next
    fix j assume j: "0 < j" "j < n" "(j - 1) div 2 = c" "0 < c"
    then have "j \<noteq> i" "j \<noteq> c" using ic by auto
    then have "T c \<le> T j" using near j ic by (auto simp: near_ordered_def)
    then show "(T(i := T c)) ((c - 1) div 2) \<le> (T(i := T c)) j"
      using \<open>j \<noteq> i\<close> c by auto
  qed
  show "above_ok (T(i := T c)) c t" using c t by (simp add: above_ok_def)
qed


subsection \<open>The array with a hole\<close>

definition deadline :: "('e \<Rightarrow> timeval) \<Rightarrow> 'e min_heap \<Rightarrow> nat \<Rightarrow> timeval" where
  "deadline tm h i = tm (the (hp_p h i))"

definition heap_members :: "'e min_heap \<Rightarrow> 'e set" where
  "heap_members h = {e. hp_idx h e \<noteq> -1}"

text \<open>The cells below \<open>n\<close> hold exactly the events of \<open>M\<close>, each at the index it carries.\<close>

definition heap_filled :: "'e set \<Rightarrow> 'e min_heap \<Rightarrow> bool" where
  "heap_filled M h \<longleftrightarrow>
     hp_n h \<le> hp_a h \<and>
     (\<forall>j < hp_n h. \<exists>x \<in> M. hp_p h j = Some x \<and> hp_idx h x = int j) \<and>
     (\<forall>x \<in> M. \<exists>j < hp_n h. hp_p h j = Some x)"

text \<open>The same with the cell \<open>i\<close> still to be filled with \<open>e\<close>.\<close>

definition heap_hole :: "'e set \<Rightarrow> 'e min_heap \<Rightarrow> nat \<Rightarrow> 'e \<Rightarrow> bool" where
  "heap_hole M h i e \<longleftrightarrow>
     hp_n h \<le> hp_a h \<and> i < hp_n h \<and> e \<in> M \<and>
     (\<forall>j < hp_n h. j \<noteq> i \<longrightarrow> (\<exists>x \<in> M. x \<noteq> e \<and> hp_p h j = Some x \<and> hp_idx h x = int j)) \<and>
     (\<forall>x \<in> M. x \<noteq> e \<longrightarrow> (\<exists>j < hp_n h. j \<noteq> i \<and> hp_p h j = Some x))"

definition heap_inv :: "('e \<Rightarrow> timeval) \<Rightarrow> 'e min_heap \<Rightarrow> bool" where
  "heap_inv tm h \<longleftrightarrow>
     heap_filled (heap_members h) h \<and> heap_ordered (deadline tm h) (hp_n h)"

definition heap_frame :: "'e set \<Rightarrow> 'e min_heap \<Rightarrow> 'e min_heap \<Rightarrow> bool" where
  "heap_frame M h h' \<longleftrightarrow>
     hp_n h' = hp_n h \<and> hp_a h' = hp_a h \<and> (\<forall>x. x \<notin> M \<longrightarrow> hp_idx h' x = hp_idx h x)"

lemma heap_frame_trans:
  "heap_frame M h h' \<Longrightarrow> heap_frame M h' h'' \<Longrightarrow> heap_frame M h h''"
  by (simp add: heap_frame_def)

lemma heap_hole_cell:
  assumes "heap_hole M h i e" "j < hp_n h" "j \<noteq> i"
  obtains x where "x \<in> M" "x \<noteq> e" "hp_p h j = Some x" "hp_idx h x = int j"
  using assms by (auto simp: heap_hole_def)

lemma heap_filled_cell:
  assumes "heap_filled M h" "j < hp_n h"
  obtains x where "x \<in> M" "hp_p h j = Some x" "hp_idx h x = int j"
  using assms by (auto simp: heap_filled_def)

lemma heap_place_last:
  assumes hole: "heap_hole M h i e"
    and near: "near_ordered (deadline tm h) (hp_n h) i"
    and below: "below_ok (deadline tm h) (hp_n h) i (tm e)"
    and above: "above_ok (deadline tm h) i (tm e)"
  obtains h' where "min_heap_place h i e = Some h'" "heap_filled M h'"
    "heap_ordered (deadline tm h') (hp_n h')" "heap_frame M h h'"
proof -
  define h' where
    "h' = h\<lparr>hp_p := (hp_p h)(i \<mapsto> e), hp_idx := (hp_idx h)(e := int i)\<rparr>"
  have place: "min_heap_place h i e = Some h'"
    using hole by (auto simp: min_heap_place_def heap_hole_def h'_def)
  have filled: "heap_filled M h'"
    unfolding heap_filled_def
  proof (intro conjI allI impI ballI)
    show "hp_n h' \<le> hp_a h'" using hole by (simp add: heap_hole_def h'_def)
    show "\<exists>x \<in> M. hp_p h' j = Some x \<and> hp_idx h' x = int j" if "j < hp_n h'" for j
    proof (cases "j = i")
      case True
      then show ?thesis using hole by (auto simp: heap_hole_def h'_def)
    next
      case False
      then show ?thesis
        using heap_hole_cell [OF hole, of j] that by (auto simp: h'_def)
    qed
    show "\<exists>j < hp_n h'. hp_p h' j = Some x" if xM: "x \<in> M" for x
    proof (cases "x = e")
      case True
      then show ?thesis using hole by (auto simp: heap_hole_def h'_def)
    next
      case False
      then obtain j where "j < hp_n h" "j \<noteq> i" "hp_p h j = Some x"
        using hole xM by (auto simp: heap_hole_def)
      then show ?thesis by (auto simp: h'_def intro!: exI [of _ j])
    qed
  qed
  have "deadline tm h' = (deadline tm h)(i := tm e)"
    by (auto simp: deadline_def h'_def)
  then have "heap_ordered (deadline tm h') (hp_n h')"
    using heap_ordered_fill [OF near below above] by (simp add: h'_def)
  moreover have "heap_frame M h h'" using hole by (auto simp: heap_frame_def h'_def heap_hole_def)
  ultimately show thesis using that place filled by blast
qed

lemma heap_place_move:
  assumes hole: "heap_hole M h i e" and j: "j < hp_n h" "j \<noteq> i" "hp_p h j = Some q"
  obtains h' where "min_heap_place h i q = Some h'" "heap_hole M h' j e"
    "deadline tm h' = (deadline tm h)(i := deadline tm h j)" "heap_frame M h h'"
proof -
  define h' where
    "h' = h\<lparr>hp_p := (hp_p h)(i \<mapsto> q), hp_idx := (hp_idx h)(q := int i)\<rparr>"
  have q: "q \<in> M" "q \<noteq> e" "hp_idx h q = int j"
    using heap_hole_cell [OF hole j(1,2)] j(3) by auto
  have place: "min_heap_place h i q = Some h'"
    using hole by (auto simp: min_heap_place_def heap_hole_def h'_def)
  have other: "x \<noteq> q" if "k < hp_n h" "k \<noteq> i" "k \<noteq> j" "hp_p h k = Some x" for k x
    using heap_hole_cell [OF hole that(1,2)] that q by force
  have "heap_hole M h' j e"
    unfolding heap_hole_def
  proof (intro conjI allI impI ballI)
    show "hp_n h' \<le> hp_a h'" "j < hp_n h'" "e \<in> M"
      using hole j by (simp_all add: heap_hole_def h'_def)
    show "\<exists>x \<in> M. x \<noteq> e \<and> hp_p h' k = Some x \<and> hp_idx h' x = int k"
      if k: "k < hp_n h'" "k \<noteq> j" for k
    proof (cases "k = i")
      case True
      then show ?thesis using q by (auto simp: h'_def)
    next
      case False
      then have kn: "k < hp_n h" using k by (simp add: h'_def)
      obtain x where x: "x \<in> M" "x \<noteq> e" "hp_p h k = Some x" "hp_idx h x = int k"
        using heap_hole_cell [OF hole kn False] .
      then show ?thesis using False other [OF kn False k(2)] by (auto simp: h'_def)
    qed
    show "\<exists>k < hp_n h'. k \<noteq> j \<and> hp_p h' k = Some x" if x: "x \<in> M" "x \<noteq> e" for x
    proof (cases "x = q")
      case True
      then show ?thesis using j hole by (auto simp: h'_def heap_hole_def intro!: exI [of _ i])
    next
      case False
      then obtain k where "k < hp_n h" "k \<noteq> i" "hp_p h k = Some x"
        using hole x by (auto simp: heap_hole_def)
      then show ?thesis using False j by (auto simp: h'_def intro!: exI [of _ k])
    qed
  qed
  moreover have "deadline tm h' = (deadline tm h)(i := deadline tm h j)"
    using j by (auto simp: deadline_def h'_def)
  moreover have "heap_frame M h h'" using q by (auto simp: heap_frame_def h'_def)
  ultimately show thesis using that place by blast
qed

subsection \<open>Sifting\<close>

lemma min_heap_shift_up_ok:
  assumes "heap_hole M h i e" "near_ordered (deadline tm h) (hp_n h) i"
    and "below_ok (deadline tm h) (hp_n h) i (tm e)"
  shows "\<exists>h'. min_heap_shift_up tm h i e = Some h' \<and> heap_filled M h' \<and>
              heap_ordered (deadline tm h') (hp_n h') \<and> heap_frame M h h'"
  using assms
proof (induction tm h i e rule: min_heap_shift_up.induct)
  case (1 tm h i e)
  show ?case
  proof (cases "i = 0")
    case True
    then have ok: "above_ok (deadline tm h) i (tm e)" by (simp add: above_ok_def)
    obtain h' where h': "min_heap_place h i e = Some h'" "heap_filled M h'"
        "heap_ordered (deadline tm h') (hp_n h')" "heap_frame M h h'"
        using heap_place_last [OF "1.prems" ok] .
    have "min_heap_shift_up tm h i e = Some h'"
      using h'(1) True by (subst min_heap_shift_up.simps) simp
    then show ?thesis using h' by blast
  next
    case False
    let ?p = "(i - 1) div 2"
    have i: "0 < i" "i < hp_n h" using False "1.prems"(1) by (simp_all add: heap_hole_def)
    then have p: "?p < hp_n h" "?p \<noteq> i" by linarith+
    obtain q where q: "hp_p h ?p = Some q"
      using heap_hole_cell [OF "1.prems"(1) p] by metis
    then have dq: "deadline tm h ?p = tm q" by (simp add: deadline_def)
    show ?thesis
    proof (cases "min_heap_elem_greater tm q e")
      case True
      obtain h1 where h1: "min_heap_place h i q = Some h1" "heap_hole M h1 ?p e"
        "deadline tm h1 = (deadline tm h)(i := deadline tm h ?p)" "heap_frame M h h1"
        using heap_place_move [OF "1.prems"(1) p q] .
      have lt: "tm e < deadline tm h ?p" using True dq by (simp add: min_heap_elem_greater_def)
      note up = near_ordered_up [OF "1.prems"(2) i lt]
      have n: "hp_n h1 = hp_n h" using h1(4) by (simp add: heap_frame_def)
      obtain h' where h': "min_heap_shift_up tm h1 ?p e = Some h'" "heap_filled M h'"
        "heap_ordered (deadline tm h') (hp_n h')" "heap_frame M h1 h'"
        using "1.IH" [OF False q True h1(1,2)] up unfolding h1(3) n by metis
      have "min_heap_shift_up tm h i e = Some h'"
        using False q True h1(1) h'(1) by (simp add: min_heap_shift_up.simps [of tm h i e])
      then show ?thesis using h' heap_frame_trans [OF h1(4) h'(4)] by blast
    next
      case nle: False
      then have ok: "above_ok (deadline tm h) i (tm e)"
        using dq by (simp add: above_ok_def min_heap_elem_greater_def not_less)
    obtain h' where h': "min_heap_place h i e = Some h'" "heap_filled M h'"
        "heap_ordered (deadline tm h') (hp_n h')" "heap_frame M h h'"
        using heap_place_last [OF "1.prems" ok] .
    have "min_heap_shift_up tm h i e = Some h'"
      using h'(1) False nle q by (simp add: min_heap_shift_up.simps [of tm h i e])
    then show ?thesis using h' by blast
    qed
  qed
qed

lemma min_heap_min_child_ok:
  assumes "heap_hole M h i e" "2 * (i + 1) \<le> hp_n h"
  obtains c q where "min_heap_min_child tm h (2 * (i + 1)) = Some c" "hp_p h c = Some q"
    "0 < c" "c < hp_n h" "c \<noteq> i" "(c - 1) div 2 = i"
    "\<And>j. 0 < j \<Longrightarrow> j < hp_n h \<Longrightarrow> (j - 1) div 2 = i \<Longrightarrow> deadline tm h c \<le> deadline tm h j"
proof -
  let ?c = "2 * (i + 1)"
  have kids: "j = ?c - 1 \<or> j = ?c" if "0 < j" "(j - 1) div 2 = i" for j
    using that by (cases j) auto
  have l: "?c - 1 < hp_n h" "?c - 1 \<noteq> i" using assms(2) by auto
  obtain lq where lq: "hp_p h (?c - 1) = Some lq"
    using heap_hole_cell [OF assms(1) l] by metis
  show thesis
  proof (cases "?c = hp_n h")
    case True
    then have "min_heap_min_child tm h ?c = Some (?c - 1)" by (simp add: min_heap_min_child_def)
    moreover have "deadline tm h (?c - 1) \<le> deadline tm h j"
      if "0 < j" "j < hp_n h" "(j - 1) div 2 = i" for j
    proof -
      have "j = ?c - 1" using kids [OF that(1,3)] that(2) True by auto
      then show ?thesis by (simp only: order_refl)
    qed
    ultimately show thesis using that [of "?c - 1" lq] lq l by auto
  next
    case False
    then have r: "?c < hp_n h" "?c \<noteq> i" using assms(2) by auto
    obtain rq where rq: "hp_p h ?c = Some rq"
      using heap_hole_cell [OF assms(1) r] by metis
    let ?d = "if min_heap_elem_greater tm rq lq then ?c - 1 else ?c"
    have pick: "min_heap_min_child tm h ?c = Some ?d"
      using False rq lq by (simp add: min_heap_min_child_def)
    have least: "deadline tm h ?d \<le> deadline tm h j"
      if "0 < j" "j < hp_n h" "(j - 1) div 2 = i" for j
      using kids [OF that(1,3)] rq lq by (auto simp: deadline_def min_heap_elem_greater_def)
    show thesis
      by (rule that [OF pick, of "if min_heap_elem_greater tm rq lq then lq else rq"])
         (use l r rq lq least in auto)
  qed
qed

lemma min_heap_shift_down_ok:
  assumes "heap_hole M h i e" "near_ordered (deadline tm h) (hp_n h) i"
    and "above_ok (deadline tm h) i (tm e)"
  shows "\<exists>h'. min_heap_shift_down tm h i e = Some h' \<and> heap_filled M h' \<and>
              heap_ordered (deadline tm h') (hp_n h') \<and> heap_frame M h h'"
  using assms
proof (induction tm h i e rule: min_heap_shift_down.induct)
  case (1 tm h i e)
  show ?case
  proof (cases "2 * (i + 1) \<le> hp_n h")
    case False
    then have ok: "below_ok (deadline tm h) (hp_n h) i (tm e)" by (auto simp: below_ok_def)
    obtain h' where h': "min_heap_place h i e = Some h'" "heap_filled M h'"
        "heap_ordered (deadline tm h') (hp_n h')" "heap_frame M h h'"
        using heap_place_last [OF "1.prems"(1,2) ok "1.prems"(3)] .
    have "min_heap_shift_down tm h i e = Some h'"
      using h'(1) False by (simp add: min_heap_shift_down.simps [of tm h i e])
    then show ?thesis using h' by blast
  next
    case True
    obtain c q where c: "min_heap_min_child tm h (2 * (i + 1)) = Some c" "hp_p h c = Some q"
      "0 < c" "c < hp_n h" "c \<noteq> i" "(c - 1) div 2 = i"
      and least: "\<And>j. 0 < j \<Longrightarrow> j < hp_n h \<Longrightarrow> (j - 1) div 2 = i \<Longrightarrow>
        deadline tm h c \<le> deadline tm h j"
      using min_heap_min_child_ok [OF "1.prems"(1) True] by metis
    have dq: "deadline tm h c = tm q" using c by (simp add: deadline_def)
    show ?thesis
    proof (cases "min_heap_elem_greater tm e q")
      case gr: True
      obtain h1 where h1: "min_heap_place h i q = Some h1" "heap_hole M h1 c e"
        "deadline tm h1 = (deadline tm h)(i := deadline tm h c)" "heap_frame M h h1"
        using heap_place_move [OF "1.prems"(1) c(4,5,2)] .
      have lt: "deadline tm h c < tm e" using gr dq by (simp add: min_heap_elem_greater_def)
      note down = near_ordered_down [OF "1.prems"(2) c(3,4,6) least lt]
      have n: "hp_n h1 = hp_n h" using h1(4) by (simp add: heap_frame_def)
      have ngr: "\<not> \<not> min_heap_elem_greater tm e q" using gr by simp
      obtain h' where h': "min_heap_shift_down tm h1 c e = Some h'" "heap_filled M h'"
        "heap_ordered (deadline tm h') (hp_n h')" "heap_frame M h1 h'"
        using "1.IH" [OF True c(1,2) ngr h1(1,2)] down unfolding h1(3) n by metis
      have "min_heap_shift_down tm h i e = Some h'"
        using True c(1,2) gr h1(1) h'(1) by (simp add: min_heap_shift_down.simps [of tm h i e])
      then show ?thesis using h' heap_frame_trans [OF h1(4) h'(4)] by blast
    next
      case nle: False
      then have "tm e \<le> deadline tm h c" using dq by (simp add: min_heap_elem_greater_def)
      then have ok: "below_ok (deadline tm h) (hp_n h) i (tm e)"
        using least order_trans unfolding below_ok_def by metis
    obtain h' where h': "min_heap_place h i e = Some h'" "heap_filled M h'"
        "heap_ordered (deadline tm h') (hp_n h')" "heap_frame M h h'"
        using heap_place_last [OF "1.prems"(1,2) ok "1.prems"(3)] .
    have "min_heap_shift_down tm h i e = Some h'"
      using h'(1) True nle c(1,2) by (simp add: min_heap_shift_down.simps [of tm h i e])
    then show ?thesis using h' by blast
    qed
  qed
qed


subsection \<open>The operations\<close>

text \<open>A set of members that agrees with the back indices is the set of members.\<close>

lemma heap_members_filled:
  assumes "heap_filled M h" "\<And>x. x \<notin> M \<Longrightarrow> hp_idx h x = -1"
  shows "heap_members h = M"
proof -
  have "hp_idx h x \<noteq> -1" if x: "x \<in> M" for x
  proof -
    obtain j where j: "j < hp_n h" "hp_p h j = Some x" using assms(1) x by (auto simp: heap_filled_def)
    then show ?thesis using heap_filled_cell [OF assms(1) j(1)] by force
  qed
  then show ?thesis using assms(2) by (auto simp: heap_members_def)
qed

lemma heap_invI:
  assumes "heap_filled M h" "heap_ordered (deadline tm h) (hp_n h)"
    and "\<And>x. x \<notin> M \<Longrightarrow> hp_idx h x = -1"
  shows "heap_inv tm h \<and> heap_members h = M"
  using assms heap_members_filled [OF assms(1,3)] by (simp add: heap_inv_def)

lemma heap_inv_cong:
  assumes "heap_inv tm h" "\<And>x. x \<in> heap_members h \<Longrightarrow> tm' x = tm x"
  shows "heap_inv tm' h"
proof -
  have filled: "heap_filled (heap_members h) h" using assms(1) by (simp add: heap_inv_def)
  have "deadline tm' h j = deadline tm h j" if "j < hp_n h" for j
    using heap_filled_cell [OF filled that] assms(2) by (metis deadline_def option.sel)
  then show ?thesis
    using assms(1) by (auto simp: heap_inv_def heap_ordered_def)
qed

lemma heap_inv_capacity: "heap_inv tm h \<Longrightarrow> hp_n h \<le> hp_a h"
  by (simp add: heap_inv_def heap_filled_def)

lemma heap_inv_empty: "heap_inv tm (min_heap_ctor (\<lambda>_. -1))"
  by (simp add: heap_inv_def heap_filled_def heap_ordered_def min_heap_ctor_def
      heap_members_def)

lemma heap_size_card:
  assumes "heap_inv tm h"
  shows "hp_n h = card (heap_members h)" "finite (heap_members h)"
proof -
  have filled: "heap_filled (heap_members h) h" using assms by (simp add: heap_inv_def)
  have img: "heap_members h = (\<lambda>j. the (hp_p h j)) ` {..< hp_n h}"
  proof (intro equalityI subsetI)
    fix x assume "x \<in> heap_members h"
    then obtain j where "j < hp_n h" "hp_p h j = Some x"
      using filled unfolding heap_filled_def by metis
    then show "x \<in> (\<lambda>j. the (hp_p h j)) ` {..< hp_n h}" by (auto intro!: image_eqI [of _ _ j])
  next
    fix x assume "x \<in> (\<lambda>j. the (hp_p h j)) ` {..< hp_n h}"
    then obtain j where j: "j < hp_n h" "x = the (hp_p h j)" by auto
    then show "x \<in> heap_members h" using heap_filled_cell [OF filled j(1)] by force
  qed
  have inj: "inj_on (\<lambda>j. the (hp_p h j)) {..< hp_n h}"
  proof (rule inj_onI)
    fix j k assume jk: "j \<in> {..< hp_n h}" "k \<in> {..< hp_n h}"
      "the (hp_p h j) = the (hp_p h k)"
    obtain x where "hp_p h j = Some x" "hp_idx h x = int j"
      using heap_filled_cell [OF filled, of j] jk by auto
    moreover obtain y where "hp_p h k = Some y" "hp_idx h y = int k"
      using heap_filled_cell [OF filled, of k] jk by auto
    ultimately show "j = k" using jk(3) by simp
  qed
  show "finite (heap_members h)" using img by simp
  show "hp_n h = card (heap_members h)" using card_image [OF inj] img by simp
qed

lemma min_heap_top_ok:
  assumes "heap_inv tm h"
  shows "\<exists>r. min_heap_top h = Some r \<and>
             (case r of None \<Rightarrow> heap_members h = {}
              | Some e \<Rightarrow> e \<in> heap_members h \<and> (\<forall>x \<in> heap_members h. tm e \<le> tm x))"
proof (cases "hp_n h = 0")
  case True
  then show ?thesis
    using heap_size_card [OF assms] by (simp add: min_heap_top_def)
next
  case False
  have filled: "heap_filled (heap_members h) h" and ord: "heap_ordered (deadline tm h) (hp_n h)"
    using assms by (simp_all add: heap_inv_def)
  obtain e where e: "e \<in> heap_members h" "hp_p h 0 = Some e"
    using heap_filled_cell [OF filled, of 0] False by auto
  have "tm e \<le> tm x" if x: "x \<in> heap_members h" for x
  proof -
    obtain j where j: "j < hp_n h" "hp_p h j = Some x"
      using filled x unfolding heap_filled_def by metis
    then show ?thesis using heap_ordered_top [OF ord j(1)] e by (simp add: deadline_def)
  qed
  then show ?thesis using False e by (simp add: min_heap_top_def)
qed

lemma min_heap_push_ok:
  assumes inv: "heap_inv tm h" and e: "e \<notin> heap_members h"
    and room: "alloc \<or> hp_n h < hp_a h"
  shows "\<exists>h'. min_heap_push alloc tm h e = Some (0, h') \<and> heap_inv tm h' \<and>
              heap_members h' = insert e (heap_members h)"
proof -
  let ?M = "insert e (heap_members h)"
  have filled: "heap_filled (heap_members h) h" and ord: "heap_ordered (deadline tm h) (hp_n h)"
    using inv by (simp_all add: heap_inv_def)
  obtain a where res: "min_heap_reserve alloc h (hp_n h + 1) = (0, h\<lparr>hp_a := a\<rparr>)"
    and a: "hp_n h < a"
  proof (cases "hp_a h < hp_n h + 1")
    case True
    then show thesis using room that by (auto simp: min_heap_reserve_def Let_def)
  next
    case False
    then show thesis using that [of "hp_a h"] by (simp add: min_heap_reserve_def)
  qed
  define h1 where "h1 = h\<lparr>hp_a := a, hp_n := hp_n h + 1\<rparr>"
  have hole: "heap_hole ?M h1 (hp_n h) e"
    unfolding heap_hole_def
  proof (intro conjI allI impI ballI)
    show "\<exists>x \<in> ?M. x \<noteq> e \<and> hp_p h1 j = Some x \<and> hp_idx h1 x = int j"
      if j: "j < hp_n h1" "j \<noteq> hp_n h" for j
    proof -
      have "j < hp_n h" using j by (simp add: h1_def)
      then obtain x where "x \<in> heap_members h" "hp_p h j = Some x" "hp_idx h x = int j"
        using heap_filled_cell [OF filled] by blast
      then show ?thesis using e by (auto simp: h1_def)
    qed
    show "\<exists>j < hp_n h1. j \<noteq> hp_n h \<and> hp_p h1 j = Some x" if x: "x \<in> ?M" "x \<noteq> e" for x
    proof -
      obtain j where "j < hp_n h" "hp_p h j = Some x"
        using filled x unfolding heap_filled_def by blast
      then show ?thesis by (auto simp: h1_def intro!: exI [of _ j])
    qed
  qed (use a in \<open>auto simp: h1_def\<close>)
  have d: "deadline tm h1 = deadline tm h" by (rule ext) (simp add: deadline_def h1_def)
  have near: "near_ordered (deadline tm h1) (hp_n h1) (hp_n h)"
    unfolding near_ordered_def
  proof (intro conjI allI impI)
    fix j assume j: "0 < j" "j < hp_n h1" "j \<noteq> hp_n h"
    then have "j < hp_n h" by (simp add: h1_def)
    then show "deadline tm h1 ((j - 1) div 2) \<le> deadline tm h1 j"
      using ord j(1) unfolding d heap_ordered_def by blast
  next
    fix j assume "0 < j" "j < hp_n h1" "(j - 1) div 2 = hp_n h"
    then have False by (auto simp: h1_def)
    then show "deadline tm h1 ((hp_n h - 1) div 2) \<le> deadline tm h1 j" by simp
  qed
  have below: "below_ok (deadline tm h1) (hp_n h1) (hp_n h) (tm e)"
    unfolding below_ok_def
  proof (intro allI impI)
    fix j assume "0 < j" "j < hp_n h1" "(j - 1) div 2 = hp_n h"
    then have False by (auto simp: h1_def)
    then show "tm e \<le> deadline tm h1 j" by simp
  qed
  obtain h' where h': "min_heap_shift_up tm h1 (hp_n h) e = Some h'" "heap_filled ?M h'"
    "heap_ordered (deadline tm h') (hp_n h')" "heap_frame ?M h1 h'"
    using min_heap_shift_up_ok [OF hole near below] by blast
  have "hp_idx h' x = -1" if "x \<notin> ?M" for x
    using that h'(4) by (auto simp: heap_frame_def h1_def heap_members_def)
  then have "heap_inv tm h' \<and> heap_members h' = ?M"
    using heap_invI [OF h'(2,3)] by blast
  moreover have "min_heap_push alloc tm h e = Some (0, h')"
    using res h'(1) by (simp add: min_heap_push_def h1_def)
  ultimately show ?thesis by blast
qed

lemma min_heap_push_fails:
  assumes "heap_inv tm h" "\<not> alloc" "hp_n h = hp_a h"
  shows "min_heap_push alloc tm h e = Some (-1, h)"
  using assms by (simp add: min_heap_push_def min_heap_reserve_def Let_def)

text \<open>Taking out the event at \<open>i\<close>: the last event goes to the hole, up or down.\<close>

lemma heap_take_out:
  assumes inv: "heap_inv tm h" and e: "hp_p h i = Some e" "i < hp_n h"
    and x: "hp_p h (hp_n h - 1) = Some x"
    and sift: "sift = (if above_ok (deadline tm h) i (tm x)
                       then min_heap_shift_down tm (h\<lparr>hp_n := hp_n h - 1\<rparr>) i x
                       else min_heap_shift_up tm (h\<lparr>hp_n := hp_n h - 1\<rparr>) i x)"
  shows "\<exists>h'. sift = Some h' \<and>
              heap_inv tm (h'\<lparr>hp_idx := (hp_idx h')(e := -1)\<rparr>) \<and>
              heap_members (h'\<lparr>hp_idx := (hp_idx h')(e := -1)\<rparr>) = heap_members h - {e}"
proof -
  let ?M = "heap_members h - {e}" and ?n = "hp_n h - 1"
  have filled: "heap_filled (heap_members h) h" and ord: "heap_ordered (deadline tm h) (hp_n h)"
    using inv by (simp_all add: heap_inv_def)
  have idx: "hp_idx h y = int j \<and> y \<in> heap_members h" if "hp_p h j = Some y" "j < hp_n h" for j y
    using heap_filled_cell [OF filled that(2)] that(1) by force
  define h1 where "h1 = h\<lparr>hp_n := ?n\<rparr>"
  have d: "deadline tm h1 = deadline tm h" by (rule ext) (simp add: deadline_def h1_def)
  have fin: "heap_inv tm (h'\<lparr>hp_idx := (hp_idx h')(e := -1)\<rparr>) \<and>
             heap_members (h'\<lparr>hp_idx := (hp_idx h')(e := -1)\<rparr>) = ?M"
    if h': "heap_filled ?M h'" "heap_ordered (deadline tm h') (hp_n h')"
      "\<And>y. y \<notin> insert e ?M \<Longrightarrow> hp_idx h' y = hp_idx h y" for h'
  proof (rule heap_invI)
    show "heap_filled ?M (h'\<lparr>hp_idx := (hp_idx h')(e := -1)\<rparr>)"
      using h'(1) by (fastforce simp: heap_filled_def)
    have "deadline tm (h'\<lparr>hp_idx := (hp_idx h')(e := -1)\<rparr>) = deadline tm h'"
      by (rule ext) (simp add: deadline_def)
    then show "heap_ordered (deadline tm (h'\<lparr>hp_idx := (hp_idx h')(e := -1)\<rparr>))
        (hp_n (h'\<lparr>hp_idx := (hp_idx h')(e := -1)\<rparr>))"
      using h'(2) by simp
    show "hp_idx (h'\<lparr>hp_idx := (hp_idx h')(e := -1)\<rparr>) y = -1" if "y \<notin> ?M" for y
      using that h'(3) [of y] by (auto simp: heap_members_def)
  qed
  show ?thesis
  proof (cases "i = ?n")
    case True
    then have xe: "x = e" using e x by simp
    have le: "above_ok (deadline tm h) i (tm x)"
    proof -
      have "0 < i \<Longrightarrow> deadline tm h ((i - 1) div 2) \<le> deadline tm h i"
        using ord e by (simp add: heap_ordered_def)
      then show ?thesis using e xe by (simp add: above_ok_def deadline_def)
    qed
    define h' where
      "h' = h1\<lparr>hp_p := (hp_p h1)(i \<mapsto> x), hp_idx := (hp_idx h1)(x := int i)\<rparr>"
    have "min_heap_shift_down tm h1 i x = Some h'"
      using True e filled
      by (subst min_heap_shift_down.simps)
         (auto simp: h1_def h'_def min_heap_place_def heap_filled_def)
    then have sift': "sift = Some h'" using le sift by (simp add: h1_def)
    have "heap_filled ?M h'"
      unfolding heap_filled_def
    proof (intro conjI allI impI ballI)
      have "hp_n h \<le> hp_a h" using filled by (simp add: heap_filled_def)
      then show "hp_n h' \<le> hp_a h'" by (simp add: h'_def h1_def)
      show "\<exists>y \<in> ?M. hp_p h' j = Some y \<and> hp_idx h' y = int j" if j: "j < hp_n h'" for j
      proof -
        have jn: "j < hp_n h" "j \<noteq> i" using j True by (auto simp: h'_def h1_def)
        obtain y where y: "y \<in> heap_members h" "hp_p h j = Some y" "hp_idx h y = int j"
          using heap_filled_cell [OF filled jn(1)] .
        then have "y \<noteq> e" using idx [OF e] jn by auto
        then show ?thesis using y jn xe by (auto simp: h'_def h1_def)
      qed
      show "\<exists>j < hp_n h'. hp_p h' j = Some y" if y: "y \<in> ?M" for y
      proof -
        obtain j where j: "j < hp_n h" "hp_p h j = Some y"
          using filled y unfolding heap_filled_def by blast
        then have "j \<noteq> i" using e y by auto
        then show ?thesis using j True by (auto simp: h'_def h1_def intro!: exI [of _ j])
      qed
    qed
    moreover have "heap_ordered (deadline tm h') (hp_n h')"
    proof -
      have "deadline tm h' = deadline tm h"
        using e(1) xe by (auto simp: deadline_def h'_def h1_def)
      then show ?thesis using ord by (auto simp: heap_ordered_def h'_def h1_def)
    qed
    moreover have "\<And>y. y \<notin> insert e ?M \<Longrightarrow> hp_idx h' y = hp_idx h y"
      using xe by (auto simp: h'_def h1_def)
    ultimately show ?thesis using fin sift' by blast
  next
    case False
    then have i: "i < ?n" using e by simp
    have n: "?n < hp_n h" using i by linarith
    have xidx: "hp_idx h x = int ?n" using idx [OF x n] by blast
    have ie: "hp_idx h e = int i" using idx [OF e] by blast
    then have xne: "x \<noteq> e" using xidx i by (metis nat_int less_irrefl)
    then have xM: "x \<in> ?M" using idx [OF x n] by blast
    have hole: "heap_hole ?M h1 i x"
      unfolding heap_hole_def
    proof (intro conjI allI impI ballI)
      have "hp_n h \<le> hp_a h" using filled by (simp add: heap_filled_def)
      then show "hp_n h1 \<le> hp_a h1" by (simp add: h1_def)
      show "\<exists>y \<in> ?M. y \<noteq> x \<and> hp_p h1 j = Some y \<and> hp_idx h1 y = int j"
        if j: "j < hp_n h1" "j \<noteq> i" for j
      proof -
        have jn: "j < hp_n h" "j \<noteq> ?n" using j by (auto simp: h1_def)
        obtain y where y: "y \<in> heap_members h" "hp_p h j = Some y" "hp_idx h y = int j"
          using heap_filled_cell [OF filled jn(1)] .
        moreover have "y \<noteq> e" using ie y(3) j(2) by (metis of_nat_eq_iff)
        moreover have "y \<noteq> x" using xidx y(3) jn(2) by (metis of_nat_eq_iff)
        ultimately show ?thesis by (auto simp: h1_def)
      qed
      show "\<exists>j < hp_n h1. j \<noteq> i \<and> hp_p h1 j = Some y" if y: "y \<in> ?M" "y \<noteq> x" for y
      proof -
        obtain j where j: "j < hp_n h" "hp_p h j = Some y"
          using filled y unfolding heap_filled_def by blast
        then have "j \<noteq> i" "j \<noteq> ?n" using e x y by auto
        then show ?thesis using j by (auto simp: h1_def intro!: exI [of _ j])
      qed
    qed (use i xM in \<open>auto simp: h1_def\<close>)
    have near: "near_ordered (deadline tm h1) (hp_n h1) i"
      unfolding d using near_ordered_of_heap [OF ord] by (simp add: h1_def)
    have "\<exists>h'. sift = Some h' \<and> heap_filled ?M h' \<and>
               heap_ordered (deadline tm h') (hp_n h') \<and> heap_frame ?M h1 h'"
    proof (cases "above_ok (deadline tm h) i (tm x)")
      case True
      then have "sift = min_heap_shift_down tm h1 i x" using sift by (simp add: h1_def)
      then show ?thesis using min_heap_shift_down_ok [OF hole near] True unfolding d by simp
    next
      case above: False
      have "below_ok (deadline tm h1) (hp_n h1) i (tm x)"
        unfolding below_ok_def d
      proof (intro allI impI)
        fix j assume j: "0 < j" "j < hp_n h1" "(j - 1) div 2 = i"
        have "tm x < deadline tm h ((i - 1) div 2)" "0 < i"
          using above by (auto simp: above_ok_def)
        moreover have "deadline tm h ((i - 1) div 2) \<le> deadline tm h j"
          using near j \<open>0 < i\<close> by (auto simp: near_ordered_def d)
        ultimately show "tm x \<le> deadline tm h j" by simp
      qed
      moreover have "sift = min_heap_shift_up tm h1 i x" using above sift by (simp add: h1_def)
      ultimately show ?thesis using min_heap_shift_up_ok [OF hole near] by simp
    qed
    then obtain h' where h': "sift = Some h'" "heap_filled ?M h'"
      "heap_ordered (deadline tm h') (hp_n h')" "heap_frame ?M h1 h'" by blast
    have "\<And>y. y \<notin> insert e ?M \<Longrightarrow> hp_idx h' y = hp_idx h y"
      using h'(4) by (auto simp: heap_frame_def h1_def)
    then show ?thesis using fin [OF h'(2,3)] h'(1) by blast
  qed
qed

lemma min_heap_erase_ok:
  assumes inv: "heap_inv tm h" and e: "e \<in> heap_members h"
  shows "\<exists>h'. min_heap_erase tm h e = Some (0, h') \<and> heap_inv tm h' \<and>
              heap_members h' = heap_members h - {e}"
proof -
  have filled: "heap_filled (heap_members h) h" using inv by (simp add: heap_inv_def)
  obtain i where i: "i < hp_n h" "hp_p h i = Some e"
    using filled e unfolding heap_filled_def by blast
  then have idx: "hp_idx h e = int i" using heap_filled_cell [OF filled i(1)] by force
  have "hp_n h - 1 < hp_n h" using i by simp
  then obtain x where x: "hp_p h (hp_n h - 1) = Some x" using heap_filled_cell [OF filled] by metis
  define sift where
    "sift = (if above_ok (deadline tm h) i (tm x)
             then min_heap_shift_down tm (h\<lparr>hp_n := hp_n h - 1\<rparr>) i x
             else min_heap_shift_up tm (h\<lparr>hp_n := hp_n h - 1\<rparr>) i x)"
  have "min_heap_erase tm h e =
        map_option (\<lambda>h'. (0, h'\<lparr>hp_idx := (hp_idx h')(e := -1)\<rparr>)) sift"
  proof (cases "0 < i")
    case True
    then have "(i - 1) div 2 < hp_n h" using i by linarith
    then obtain q where q: "hp_p h ((i - 1) div 2) = Some q"
      using heap_filled_cell [OF filled] by metis
    then have "above_ok (deadline tm h) i (tm x) \<longleftrightarrow> \<not> min_heap_elem_greater tm q x"
      using True by (auto simp: above_ok_def min_heap_elem_greater_def deadline_def)
    then show ?thesis using True idx x q by (simp add: min_heap_erase_def sift_def)
  next
    case False
    then show ?thesis using idx x by (simp add: min_heap_erase_def sift_def above_ok_def)
  qed
  moreover obtain h' where "sift = Some h'"
    "heap_inv tm (h'\<lparr>hp_idx := (hp_idx h')(e := -1)\<rparr>)"
    "heap_members (h'\<lparr>hp_idx := (hp_idx h')(e := -1)\<rparr>) = heap_members h - {e}"
    using heap_take_out [OF inv i(2,1) x sift_def] by blast
  ultimately show ?thesis by simp
qed

text \<open>Sifting keeps the sizes, so an erased event leaves room for the next one.\<close>

lemma min_heap_place_size:
  "min_heap_place h i e = Some h' \<Longrightarrow> hp_n h' = hp_n h \<and> hp_a h' = hp_a h"
  by (auto simp: min_heap_place_def split: if_splits)

lemma min_heap_shift_up_size:
  "min_heap_shift_up tm h i e = Some h' \<Longrightarrow> hp_n h' = hp_n h \<and> hp_a h' = hp_a h"
proof (induction tm h i e rule: min_heap_shift_up.induct)
  case (1 tm h i e)
  from "1.prems" show ?case
    by (subst (asm) min_heap_shift_up.simps)
       (auto split: if_splits option.splits dest!: "1.IH" [simplified] dest: min_heap_place_size)
qed

lemma min_heap_shift_down_size:
  "min_heap_shift_down tm h i e = Some h' \<Longrightarrow> hp_n h' = hp_n h \<and> hp_a h' = hp_a h"
proof (induction tm h i e rule: min_heap_shift_down.induct)
  case (1 tm h i e)
  from "1.prems" show ?case
    by (subst (asm) min_heap_shift_down.simps)
       (auto split: if_splits option.splits dest!: "1.IH" [simplified] dest: min_heap_place_size)
qed

lemma min_heap_erase_size:
  assumes "min_heap_erase tm h e = Some (0, h')"
  shows "hp_n h' = hp_n h - 1 \<and> hp_a h' = hp_a h"
  using assms
  by (auto simp: min_heap_erase_def Let_def split: if_splits option.splits
      dest!: min_heap_shift_up_size min_heap_shift_down_size)

lemma min_heap_erase_absent:
  "e \<notin> heap_members h \<Longrightarrow> min_heap_erase tm h e = Some (-1, h)"
  by (simp add: heap_members_def min_heap_erase_def)

lemma min_heap_pop_ok:
  assumes inv: "heap_inv tm h"
  shows "\<exists>r h'. min_heap_pop tm h = Some (r, h') \<and> min_heap_top h = Some r \<and> heap_inv tm h' \<and>
                heap_members h' = heap_members h - set_option r"
proof (cases "hp_n h = 0")
  case True
  then show ?thesis using inv by (simp add: min_heap_pop_def min_heap_top_def)
next
  case False
  have filled: "heap_filled (heap_members h) h" using inv by (simp add: heap_inv_def)
  have n: "0 < hp_n h" "hp_n h - 1 < hp_n h" using False by auto
  obtain e where e: "hp_p h 0 = Some e" using heap_filled_cell [OF filled n(1)] by metis
  obtain x where x: "hp_p h (hp_n h - 1) = Some x" using heap_filled_cell [OF filled n(2)] by metis
  define sift where "sift = min_heap_shift_down tm (h\<lparr>hp_n := hp_n h - 1\<rparr>) 0 x"
  have "sift = (if above_ok (deadline tm h) 0 (tm x)
             then min_heap_shift_down tm (h\<lparr>hp_n := hp_n h - 1\<rparr>) 0 x
             else min_heap_shift_up tm (h\<lparr>hp_n := hp_n h - 1\<rparr>) 0 x)"
    by (simp add: above_ok_def sift_def)
  then obtain h' where "sift = Some h'"
    "heap_inv tm (h'\<lparr>hp_idx := (hp_idx h')(e := -1)\<rparr>)"
    "heap_members (h'\<lparr>hp_idx := (hp_idx h')(e := -1)\<rparr>) = heap_members h - {e}"
    using heap_take_out [OF inv e n(1) x] by blast
  then show ?thesis
    using False e x by (simp add: min_heap_pop_def min_heap_top_def sift_def)
qed

text \<open>
  \<^verbatim>\<open>timeout_correct\<close> moves every deadline by the same amount without touching the array: any
  change of the deadlines that keeps their order keeps the heap.
\<close>

lemma heap_inv_shift:
  assumes "heap_inv tm h"
    and "\<And>x y. x \<in> heap_members h \<Longrightarrow> y \<in> heap_members h \<Longrightarrow> tm x \<le> tm y \<Longrightarrow> tm' x \<le> tm' y"
  shows "heap_inv tm' h"
proof -
  have filled: "heap_filled (heap_members h) h" using assms(1) by (simp add: heap_inv_def)
  have "deadline tm' h ((j - 1) div 2) \<le> deadline tm' h j" if j: "0 < j" "j < hp_n h" for j
  proof -
    have k: "(j - 1) div 2 < hp_n h" using j by linarith
    obtain x where x: "x \<in> heap_members h" "hp_p h ((j - 1) div 2) = Some x"
      using heap_filled_cell [OF filled k] .
    obtain y where y: "y \<in> heap_members h" "hp_p h j = Some y"
      using heap_filled_cell [OF filled j(2)] .
    have "deadline tm h ((j - 1) div 2) \<le> deadline tm h j"
      using assms(1) j by (simp add: heap_inv_def heap_ordered_def)
    then have "tm x \<le> tm y" using x(2) y(2) by (simp add: deadline_def)
    then show ?thesis using assms(2) x y by (simp add: deadline_def)
  qed
  then show ?thesis using assms(1) by (auto simp: heap_inv_def heap_ordered_def)
qed

subsection \<open>The contract of the timer queue\<close>

text \<open>
  What the event loop relies on: a queue of events whose members change exactly as it asks
  and whose top has the least deadline.
\<close>

locale timer_queue =
  fixes inv :: "('e \<Rightarrow> timeval) \<Rightarrow> 's \<Rightarrow> bool"
    and members :: "'s \<Rightarrow> 'e set"
    and top :: "'s \<Rightarrow> 'e option option"
    and push :: "('e \<Rightarrow> timeval) \<Rightarrow> 's \<Rightarrow> 'e \<Rightarrow> (int \<times> 's) option"
    and erase :: "('e \<Rightarrow> timeval) \<Rightarrow> 's \<Rightarrow> 'e \<Rightarrow> (int \<times> 's) option"
  assumes fin: "inv tm s \<Longrightarrow> finite (members s)"
    and top: "inv tm s \<Longrightarrow> \<exists>r. top s = Some r \<and>
        (case r of None \<Rightarrow> members s = {}
         | Some e \<Rightarrow> e \<in> members s \<and> (\<forall>x \<in> members s. tm e \<le> tm x))"
    and push: "inv tm s \<Longrightarrow> e \<notin> members s \<Longrightarrow>
        \<exists>s'. push tm s e = Some (0, s') \<and> inv tm s' \<and> members s' = insert e (members s)"
    and erase: "inv tm s \<Longrightarrow> e \<in> members s \<Longrightarrow>
        \<exists>s'. erase tm s e = Some (0, s') \<and> inv tm s' \<and> members s' = members s - {e}"
    and rekey: "inv tm s \<Longrightarrow>
        (\<And>x y. x \<in> members s \<Longrightarrow> y \<in> members s \<Longrightarrow> tm x \<le> tm y \<Longrightarrow> tm' x \<le> tm' y) \<Longrightarrow>
        inv tm' s"
begin

text \<open>
  A client whose state \<open>c\<close> holds the queue \<open>q c\<close> with the deadlines \<open>tm c\<close> and handles the top, which
  takes it out, while its time has come.
\<close>

fun steps :: "('e \<Rightarrow> 'c \<Rightarrow> 'c option) \<Rightarrow> 'e list \<Rightarrow> 'c \<Rightarrow> 'c option" where
  "steps handle [] c = Some c"
| "steps handle (e # es) c = Option.bind (handle e c) (steps handle es)"

fun drain :: "('c \<Rightarrow> 's) \<Rightarrow> ('c \<Rightarrow> 'e \<Rightarrow> timeval) \<Rightarrow> ('e \<Rightarrow> 'c \<Rightarrow> 'c option) \<Rightarrow> timeval \<Rightarrow> nat \<Rightarrow> 'c \<Rightarrow> 'c option" where
  "drain q tm handle now 0 c = None"
| "drain q tm handle now (Suc f) c =
     (case top (q c) of
        None \<Rightarrow> None
      | Some None \<Rightarrow> Some c
      | Some (Some e) \<Rightarrow>
          if tm c e > now then Some c
          else Option.bind (handle e c) (drain q tm handle now f))"

lemma drain_ok:
  assumes inv: "\<And>c. P c \<Longrightarrow> inv (tm c) (q c)"
    and handle: "\<And>c e. P c \<Longrightarrow> e \<in> members (q c) \<Longrightarrow>
      \<exists>c'. handle e c = Some c' \<and> P c' \<and> members (q c') = members (q c) - {e} \<and>
           (\<forall>x \<in> members (q c'). tm c' x = tm c x)"
  shows "P c \<Longrightarrow> card (members (q c)) < fuel \<Longrightarrow>
    \<exists>es c'. drain q tm handle now fuel c = Some c' \<and> steps handle es c = Some c' \<and> P c' \<and>
      distinct es \<and> sorted (map (tm c) es) \<and> set es = {e \<in> members (q c). tm c e \<le> now} \<and>
      members (q c') = {e \<in> members (q c). now < tm c e}"
proof (induction fuel arbitrary: c)
  case 0
  then show ?case by simp
next
  case (Suc f)
  note P = Suc.prems(1)
  obtain r where r: "top (q c) = Some r"
    "case r of None \<Rightarrow> members (q c) = {}
     | Some e \<Rightarrow> e \<in> members (q c) \<and> (\<forall>x \<in> members (q c). tm c e \<le> tm c x)"
    using top [OF inv [OF P]] by blast
  show ?case
  proof (cases r)
    case None
    then show ?thesis using r P by (intro exI [of _ "[]"] exI [of _ c]) simp
  next
    case (Some e)
    have e: "e \<in> members (q c)" "\<And>x. x \<in> members (q c) \<Longrightarrow> tm c e \<le> tm c x" using r(2) Some by auto
    show ?thesis
    proof (cases "tm c e > now")
      case True
      then have "{x \<in> members (q c). tm c x \<le> now} = {}"
        "{x \<in> members (q c). now < tm c x} = members (q c)"
        using e(2) by fastforce+
      then show ?thesis using r(1) Some True P by (intro exI [of _ "[]"] exI [of _ c]) simp
    next
      case False
      then have le: "tm c e \<le> now" by simp
      obtain c1 where c1: "handle e c = Some c1" "P c1" "members (q c1) = members (q c) - {e}"
        "\<And>x. x \<in> members (q c1) \<Longrightarrow> tm c1 x = tm c x"
        using handle [OF P e(1)] by blast
      have "card (members (q c1)) < f"
        using c1(3) Suc.prems e(1) fin [OF inv [OF P]] card_Diff1_less [of "members (q c)" e] by simp
      then obtain es c' where es: "drain q tm handle now f c1 = Some c'" "steps handle es c1 = Some c'"
        "P c'" "distinct es" "sorted (map (tm c1) es)" "set es = {x \<in> members (q c1). tm c1 x \<le> now}"
        "members (q c') = {x \<in> members (q c1). now < tm c1 x}"
        using Suc.IH [OF c1(2)] by blast
      have "set es \<subseteq> members (q c1)" using es(6) by blast
      then have same: "map (tm c1) es = map (tm c) es" using c1(4) by (intro map_cong) auto
      have set_es: "set es = {x \<in> members (q c) - {e}. tm c x \<le> now}"
        unfolding es(6) using c1(3,4) by auto
      have "drain q tm handle now (Suc f) c = Some c'" "steps handle (e # es) c = Some c'"
        using r(1) Some False c1(1) es(1,2) by simp_all
      moreover have "distinct (e # es)" using es(4) set_es by simp
      moreover have "sorted (map (tm c) (e # es))"
        using es(5) same set_es e(2) by auto
      moreover have "set (e # es) = {x \<in> members (q c). tm c x \<le> now}"
        unfolding list.set set_es using e(1) le by blast
      moreover have "members (q c') = {x \<in> members (q c). now < tm c x}"
      proof -
        have "members (q c') = {x \<in> members (q c) - {e}. now < tm c x}"
          unfolding es(7) using c1(3,4) by auto
        then show ?thesis using le by fastforce
      qed
      ultimately show ?thesis using es(3) by blast
    qed
  qed
qed

end

text \<open>The heap with memory at hand keeps the contract.\<close>

interpretation mh: timer_queue heap_inv heap_members min_heap_top "min_heap_push True" min_heap_erase
proof
  show "heap_inv tm s \<Longrightarrow> finite (heap_members s)" for tm and s :: "'e min_heap"
    by (rule heap_size_card)
  show "heap_inv tm s \<Longrightarrow> e \<notin> heap_members s \<Longrightarrow>
      \<exists>s'. min_heap_push True tm s e = Some (0, s') \<and> heap_inv tm s' \<and>
           heap_members s' = insert e (heap_members s)" for tm s and e :: 'e
    by (rule min_heap_push_ok) auto
qed (fact min_heap_top_ok min_heap_erase_ok heap_inv_shift)+

end
