(* ===== verification/EvMap.thy ===== *)
theory EvMap
  imports Prelude
begin

text \<open>
  Which descriptors libevent watches: the table of \<^verbatim>\<open>src/deps/libevent/evmap.c\<close>, that counts the
  readers and writers of every descriptor, and the translation of its changes to \<^verbatim>\<open>epoll_ctl\<close>
  calls in \<^verbatim>\<open>src/deps/libevent/epoll.c\<close> (the back end without a change list, the one that
  \<^verbatim>\<open>event_base_new\<close> picks on Linux).

  Masks of bits are sets of their bits.  The kernel is the argument \<open>ctl\<close>, a call of
  \<^verbatim>\<open>epoll_ctl\<close> on its state: the error number, if the call fails, and the next state.  What is
  relied on of it is \<open>epoll_contract\<close>, the behaviour epoll_ctl(2) documents.  \<^verbatim>\<open>None\<close> is a failed
  assertion or an access through a null pointer; \<open>alloc\<close> and \<open>alloc'\<close> tell whether memory is found.

  The lemmas show that after every successful change the kernel watches each descriptor for
  exactly what the table asks for, and that a failed one leaves both as they were.
\<close>

datatype ev_what = EV_TIMEOUT | EV_READ | EV_WRITE | EV_SIGNAL | EV_PERSIST | EV_ET

section \<open>The epoll back end\<close>

datatype epoll_op = EPOLL_CTL_ADD | EPOLL_CTL_MOD | EPOLL_CTL_DEL
datatype epoll_ev = EPOLLIN | EPOLLOUT | EPOLLERR | EPOLLHUP | EPOLLET
datatype errno = ENOENT | EEXIST | EBADF | EPERM | ENOMEM | ENOSPC | EINTR

type_synonym 'k epoll_ctl =
  "epoll_op \<Rightarrow> int \<Rightarrow> epoll_ev set \<Rightarrow> 'k \<Rightarrow> errno option \<times> 'k"

datatype change_bit = EV_CHANGE_ADD | EV_CHANGE_DEL | EV_CHANGE_ET

record event_change =
  ch_fd :: int
  old_events :: "ev_what set"
  read_change :: "change_bit set"
  write_change :: "change_bit set"

text \<open>The operation and the events of a change; no events, no call.\<close>

definition epoll_change_op :: "event_change \<Rightarrow> epoll_op \<times> epoll_ev set" where
  "epoll_change_op ch =
     (let rd = read_change ch; wr = write_change ch; old = old_events ch in
      if EV_CHANGE_ADD \<in> rd \<or> EV_CHANGE_ADD \<in> wr
      then (if old \<noteq> {} then EPOLL_CTL_MOD else EPOLL_CTL_ADD,
            (if EV_CHANGE_ADD \<in> rd then {EPOLLIN}
             else if EV_CHANGE_DEL \<in> rd then {}
             else if EV_READ \<in> old then {EPOLLIN} else {}) \<union>
            (if EV_CHANGE_ADD \<in> wr then {EPOLLOUT}
             else if EV_CHANGE_DEL \<in> wr then {}
             else if EV_WRITE \<in> old then {EPOLLOUT} else {}) \<union>
            (if EV_CHANGE_ET \<in> rd \<union> wr then {EPOLLET} else {}))
      else if EV_CHANGE_DEL \<in> rd \<or> EV_CHANGE_DEL \<in> wr
      then (if EV_CHANGE_DEL \<in> rd
            then if EV_CHANGE_DEL \<in> wr then (EPOLL_CTL_DEL, {EPOLLIN, EPOLLOUT})
                 else if EV_WRITE \<in> old then (EPOLL_CTL_MOD, {EPOLLOUT})
                 else (EPOLL_CTL_DEL, {EPOLLIN})
            else if EV_READ \<in> old then (EPOLL_CTL_MOD, {EPOLLIN})
                 else (EPOLL_CTL_DEL, {EPOLLOUT}))
      else (EPOLL_CTL_ADD, {}))"

definition epoll_apply_one_change :: "'k epoll_ctl \<Rightarrow> event_change \<Rightarrow> 'k \<Rightarrow> int \<times> 'k" where
  "epoll_apply_one_change ctl ch k =
     (case epoll_change_op ch of (oper, events) \<Rightarrow>
        if events = {} then (0, k)
        else
          (case ctl oper (ch_fd ch) events k of
             (None, k) \<Rightarrow> (0, k)
           | (Some err, k) \<Rightarrow>
               if oper = EPOLL_CTL_MOD \<and> err = ENOENT
               then (case ctl EPOLL_CTL_ADD (ch_fd ch) events k of
                       (None, k) \<Rightarrow> (0, k) | (Some _, k) \<Rightarrow> (-1, k))
               else if oper = EPOLL_CTL_ADD \<and> err = EEXIST
               then (case ctl EPOLL_CTL_MOD (ch_fd ch) events k of
                       (None, k) \<Rightarrow> (0, k) | (Some _, k) \<Rightarrow> (-1, k))
               else if oper = EPOLL_CTL_DEL \<and> (err = ENOENT \<or> err = EBADF \<or> err = EPERM)
               then (0, k)
               else (-1, k)))"

definition epoll_nochangelist_add ::
    "'k epoll_ctl \<Rightarrow> int \<Rightarrow> ev_what set \<Rightarrow> ev_what set \<Rightarrow> 'k \<Rightarrow> int \<times> 'k" where
  "epoll_nochangelist_add ctl fd old events k =
     (let bits = insert EV_CHANGE_ADD (if EV_ET \<in> events then {EV_CHANGE_ET} else {}) in
      epoll_apply_one_change ctl
        \<lparr>ch_fd = fd, old_events = old,
         read_change = (if EV_READ \<in> events then bits else {}),
         write_change = (if EV_WRITE \<in> events then bits else {})\<rparr> k)"

definition epoll_nochangelist_del ::
    "'k epoll_ctl \<Rightarrow> int \<Rightarrow> ev_what set \<Rightarrow> ev_what set \<Rightarrow> 'k \<Rightarrow> int \<times> 'k" where
  "epoll_nochangelist_del ctl fd old events k =
     epoll_apply_one_change ctl
       \<lparr>ch_fd = fd, old_events = old,
        read_change = (if EV_READ \<in> events then {EV_CHANGE_DEL} else {}),
        write_change = (if EV_WRITE \<in> events then {EV_CHANGE_DEL} else {})\<rparr> k"

section \<open>The table of descriptors\<close>

record 'e evmap_io =
  io_events :: "'e list"
  nread :: nat
  nwrite :: nat

record 'e event_io_map =
  nentries :: nat
  io_entries :: "nat \<rightharpoonup> 'e evmap_io"   \<comment> \<open>a missing entry is the null pointer\<close>

definition evmap_io_initmap :: "'e event_io_map" where
  "evmap_io_initmap = \<lparr>nentries = 0, io_entries = Map.empty\<rparr>"

definition evmap_io_init :: "'e evmap_io" where
  "evmap_io_init = \<lparr>io_events = [], nread = 0, nwrite = 0\<rparr>"

text \<open>The loop \<^verbatim>\<open>while (nentries <= slot) nentries <<= 1\<close>, from 32 or the present size.\<close>

function evmap_grow :: "nat \<Rightarrow> nat \<Rightarrow> nat" where
  "evmap_grow n slot = (if n \<noteq> 0 \<and> n \<le> slot then evmap_grow (2 * n) slot else n)"
  by pat_completeness auto
termination by (relation "measure (\<lambda>(n, slot). Suc slot - n)") auto

declare evmap_grow.simps [simp del]

definition evmap_make_space :: "bool \<Rightarrow> nat \<Rightarrow> 'e event_io_map \<Rightarrow> int \<times> 'e event_io_map" where
  "evmap_make_space alloc slot io =
     (if nentries io \<le> slot
      then if alloc
           then (0, io\<lparr>nentries := evmap_grow (if nentries io \<noteq> 0 then nentries io else 32) slot\<rparr>)
           else (-1, io)
      else (0, io))"

text \<open>The bits of interest that a count of readers and writers stands for.\<close>

definition io_old :: "nat \<Rightarrow> nat \<Rightarrow> ev_what set" where
  "io_old r w = (if r \<noteq> 0 then {EV_READ} else {}) \<union> (if w \<noteq> 0 then {EV_WRITE} else {})"

definition evmap_io_add ::
    "'k epoll_ctl \<Rightarrow> bool \<Rightarrow> bool \<Rightarrow> int \<Rightarrow> 'e \<Rightarrow> ev_what set \<Rightarrow> 'e event_io_map \<Rightarrow> 'k \<Rightarrow>
     int \<times> 'e event_io_map \<times> 'k" where
  "evmap_io_add ctl alloc alloc' fd ev events io k =
     (if fd < 0 then (0, io, k)
      else
        let slot = nat fd;
            (r, io) = (if nentries io \<le> slot then evmap_make_space alloc slot io else (0, io)) in
        if r = -1 then (-1, io, k)
        else if io_entries io slot = None \<and> \<not> alloc' then (-1, io, k)
        else
          let ctx = (case io_entries io slot of None \<Rightarrow> evmap_io_init | Some c \<Rightarrow> c);
              io = io\<lparr>io_entries := (io_entries io)(slot \<mapsto> ctx)\<rparr>;
              old = io_old (nread ctx) (nwrite ctx);
              nr = (if EV_READ \<in> events then nread ctx + 1 else nread ctx);
              nw = (if EV_WRITE \<in> events then nwrite ctx + 1 else nwrite ctx);
              res = (if EV_READ \<in> events \<and> nr = 1 then {EV_READ} else {}) \<union>
                    (if EV_WRITE \<in> events \<and> nw = 1 then {EV_WRITE} else {}) in
          if nr > 0xffff \<or> nw > 0xffff then (-1, io, k)
          else
            let (q, k) = (if res \<noteq> {}
                          then epoll_nochangelist_add ctl fd old
                                 ((if EV_ET \<in> events then {EV_ET} else {}) \<union> res) k
                          else (0, k)) in
            if q = -1 then (-1, io, k)
            else (if res \<noteq> {} then 1 else 0,
                  io\<lparr>io_entries := (io_entries io)
                       (slot \<mapsto> \<lparr>io_events = io_events ctx @ [ev], nread = nr, nwrite = nw\<rparr>)\<rparr>,
                  k))"

definition evmap_io_del ::
    "'k epoll_ctl \<Rightarrow> int \<Rightarrow> 'e \<Rightarrow> ev_what set \<Rightarrow> 'e event_io_map \<Rightarrow> 'k \<Rightarrow>
     (int \<times> 'e event_io_map \<times> 'k) option" where
  "evmap_io_del ctl fd ev events io k =
     (if fd < 0 then Some (0, io, k)
      else if nentries io \<le> nat fd then Some (-1, io, k)
      else
        case io_entries io (nat fd) of
          None \<Rightarrow> None
        | Some ctx \<Rightarrow>
            if EV_READ \<in> events \<and> nread ctx = 0 \<or> EV_WRITE \<in> events \<and> nwrite ctx = 0 then None
            else
              let old = io_old (nread ctx) (nwrite ctx);
                  nr = (if EV_READ \<in> events then nread ctx - 1 else nread ctx);
                  nw = (if EV_WRITE \<in> events then nwrite ctx - 1 else nwrite ctx);
                  res = (if EV_READ \<in> events \<and> nr = 0 then {EV_READ} else {}) \<union>
                        (if EV_WRITE \<in> events \<and> nw = 0 then {EV_WRITE} else {});
                  (q, k) = (if res \<noteq> {} then epoll_nochangelist_del ctl fd old res k else (0, k)) in
              if q = -1 then Some (-1, io, k)
              else if ev \<notin> set (io_events ctx) then None
              else Some (if res \<noteq> {} then 1 else 0,
                         io\<lparr>io_entries := (io_entries io)
                              (nat fd \<mapsto> \<lparr>io_events = remove1 ev (io_events ctx), nread = nr, nwrite = nw\<rparr>)\<rparr>,
                         k))"

section \<open>The kernel and the table agree\<close>

definition epoll_contract :: "'k epoll_ctl \<Rightarrow> ('k \<Rightarrow> int \<rightharpoonup> epoll_ev set) \<Rightarrow> bool" where
  "epoll_contract ctl interest \<longleftrightarrow>
     (\<forall>oper fd evs k.
        case ctl oper fd evs k of
          (None, k') \<Rightarrow>
            interest k' = (interest k)(fd := if oper = EPOLL_CTL_DEL then None else Some evs) \<and>
            (interest k fd = None \<longleftrightarrow> oper = EPOLL_CTL_ADD)
        | (Some err, k') \<Rightarrow>
            interest k' = interest k \<and>
            (err = EEXIST \<longrightarrow> interest k fd \<noteq> None) \<and>
            (err = ENOENT \<or> err = EBADF \<or> err = EPERM \<longrightarrow> interest k fd = None))"

lemma epoll_contract_ok:
  assumes "epoll_contract ctl interest" "ctl oper fd evs k = (None, k')"
  shows "interest k' = (interest k)(fd := if oper = EPOLL_CTL_DEL then None else Some evs)"
  using assms(1) [unfolded epoll_contract_def, THEN spec [where x = oper], THEN spec [where x = fd],
      THEN spec [where x = evs], THEN spec [where x = k]] assms(2) by simp

lemma epoll_contract_err:
  assumes "epoll_contract ctl interest" "ctl oper fd evs k = (Some err, k')"
  shows "interest k' = interest k" "err = EEXIST \<Longrightarrow> interest k fd \<noteq> None"
    "err = ENOENT \<or> err = EBADF \<or> err = EPERM \<Longrightarrow> interest k fd = None"
  using assms(1) [unfolded epoll_contract_def, THEN spec [where x = oper], THEN spec [where x = fd],
      THEN spec [where x = evs], THEN spec [where x = k]] assms(2) by auto

text \<open>
  When the operation fits what the kernel watches, a change either takes effect or fails and
  leaves the kernel's interest as it was: none of the retries is needed.
\<close>

lemma epoll_apply_one_change_ok:
  assumes contract: "epoll_contract ctl interest"
    and ch: "epoll_change_op ch = (oper, events)" "events \<noteq> {}"
    and fits: "oper = EPOLL_CTL_ADD \<longleftrightarrow> interest k (ch_fd ch) = None"
    and res: "epoll_apply_one_change ctl ch k = (r, k')"
  shows "r = 0 \<and> interest k' =
           (interest k)(ch_fd ch := if oper = EPOLL_CTL_DEL then None else Some events) \<or>
         r = -1 \<and> interest k' = interest k"
proof (cases "ctl oper (ch_fd ch) events k")
  case (Pair e k1)
  show ?thesis
  proof (cases e)
    case None
    then have k1: "ctl oper (ch_fd ch) events k = (None, k1)" using Pair by simp
    then show ?thesis
      using epoll_contract_ok [OF contract k1] res ch by (simp add: epoll_apply_one_change_def)
  next
    case (Some err)
    then have k1: "ctl oper (ch_fd ch) events k = (Some err, k1)" using Pair by simp
    note err = epoll_contract_err [OF contract k1]
    have "\<not> (oper = EPOLL_CTL_MOD \<and> err = ENOENT)" "\<not> (oper = EPOLL_CTL_ADD \<and> err = EEXIST)"
      "\<not> (oper = EPOLL_CTL_DEL \<and> (err = ENOENT \<or> err = EBADF \<or> err = EPERM))"
      using err(2,3) fits by auto
    then have "r = -1 \<and> k' = k1"
      using res ch k1 by (auto simp: epoll_apply_one_change_def split: if_splits)
    then show ?thesis using err(1) by simp
  qed
qed

definition epoll_bits :: "nat \<Rightarrow> nat \<Rightarrow> epoll_ev set option" where
  "epoll_bits r w =
     (if r = 0 \<and> w = 0 then None
      else Some ((if r \<noteq> 0 then {EPOLLIN} else {}) \<union> (if w \<noteq> 0 then {EPOLLOUT} else {})))"

abbreviation inout :: "epoll_ev set option \<Rightarrow> epoll_ev set option" where
  "inout \<equiv> map_option (\<lambda>s. s \<inter> {EPOLLIN, EPOLLOUT})"

definition readers :: "('e \<Rightarrow> ev_what set) \<Rightarrow> 'e list \<Rightarrow> nat" where
  "readers evf es = length (filter (\<lambda>e. EV_READ \<in> evf e) es)"

definition writers :: "('e \<Rightarrow> ev_what set) \<Rightarrow> 'e list \<Rightarrow> nat" where
  "writers evf es = length (filter (\<lambda>e. EV_WRITE \<in> evf e) es)"

text \<open>The events on a descriptor, in the order in which they were added.\<close>

definition fd_events :: "'e event_io_map \<Rightarrow> int \<Rightarrow> 'e list" where
  "fd_events io fd =
     (if fd < 0 then [] else case io_entries io (nat fd) of None \<Rightarrow> [] | Some c \<Rightarrow> io_events c)"

definition evmap_inv ::
    "('e \<Rightarrow> ev_what set) \<Rightarrow> ('k \<Rightarrow> int \<rightharpoonup> epoll_ev set) \<Rightarrow> 'e event_io_map \<Rightarrow> 'k \<Rightarrow> bool" where
  "evmap_inv evf interest io k \<longleftrightarrow>
     (\<forall>slot c. io_entries io slot = Some c \<longrightarrow>
        slot < nentries io \<and> nread c = readers evf (io_events c) \<and>
        nwrite c = writers evf (io_events c)) \<and>
     (\<forall>fd \<ge> 0. inout (interest k fd) =
        epoll_bits (readers evf (fd_events io fd)) (writers evf (fd_events io fd)))"

text \<open>The change of a descriptor's readers and writers, as the kernel sees it.\<close>

lemma epoll_add_ok:
  assumes contract: "epoll_contract ctl interest" and now: "inout (interest k fd) = epoll_bits r w"
    and events: "res = (if rd \<and> r = 0 then {EV_READ} else {}) \<union> (if wr \<and> w = 0 then {EV_WRITE} else {})"
      "res \<noteq> {}" "events = (if et then {EV_ET} else {}) \<union> res"
    and res: "epoll_nochangelist_add ctl fd (io_old r w) events k = (q, k')"
  shows "q = 0 \<and> inout (interest k' fd) =
             epoll_bits (if rd then r + 1 else r) (if wr then w + 1 else w) \<and>
             (\<forall>fd'. fd' \<noteq> fd \<longrightarrow> interest k' fd' = interest k fd') \<or>
         q = -1 \<and> interest k' = interest k"
proof -
  define bits where "bits = insert EV_CHANGE_ADD (if EV_ET \<in> events then {EV_CHANGE_ET} else {})"
  define ch where "ch = \<lparr>ch_fd = fd, old_events = io_old r w,
    read_change = (if EV_READ \<in> events then bits else {}),
    write_change = (if EV_WRITE \<in> events then bits else {})\<rparr>"
  obtain oper evs where ch': "epoll_change_op ch = (oper, evs)" by fastforce
  have res': "epoll_apply_one_change ctl ch k = (q, k')"
    using res unfolding epoll_nochangelist_add_def Let_def ch_def bits_def .
  have "(oper, evs) = epoll_change_op ch" using ch' by simp
  then have what: "oper = (if r = 0 \<and> w = 0 then EPOLL_CTL_ADD else EPOLL_CTL_MOD) \<and> evs \<noteq> {} \<and>
      Some (evs \<inter> {EPOLLIN, EPOLLOUT}) =
        epoll_bits (if rd then r + 1 else r) (if wr then w + 1 else w)"
    using events
    by (cases "r = 0"; cases "w = 0"; cases rd; cases wr; cases et)
       (simp_all add: epoll_change_op_def ch_def bits_def io_old_def Let_def epoll_bits_def insert_commute)
  have none: "interest k fd = None \<longleftrightarrow> r = 0 \<and> w = 0"
    using now by (cases "interest k fd") (auto simp: epoll_bits_def split: if_splits)
  have fits: "oper = EPOLL_CTL_ADD \<longleftrightarrow> interest k (ch_fd ch) = None"
    using what none by (auto simp: ch_def)
  have "oper \<noteq> EPOLL_CTL_DEL" using what by simp
  then show ?thesis
    using epoll_apply_one_change_ok [OF contract ch' _ fits res'] what by (auto simp: ch_def)
qed

lemma epoll_del_ok:
  assumes contract: "epoll_contract ctl interest" and now: "inout (interest k fd) = epoll_bits r w"
    and have': "rd \<longrightarrow> r \<noteq> 0" "wr \<longrightarrow> w \<noteq> 0"
    and events: "events = (if rd \<and> r - 1 = 0 then {EV_READ} else {}) \<union>
      (if wr \<and> w - 1 = 0 then {EV_WRITE} else {})" "events \<noteq> {}"
    and res: "epoll_nochangelist_del ctl fd (io_old r w) events k = (q, k')"
  shows "q = 0 \<and> inout (interest k' fd) =
             epoll_bits (if rd then r - 1 else r) (if wr then w - 1 else w) \<and>
             (\<forall>fd'. fd' \<noteq> fd \<longrightarrow> interest k' fd' = interest k fd') \<or>
         q = -1 \<and> interest k' = interest k"
proof -
  define ch where "ch = \<lparr>ch_fd = fd, old_events = io_old r w,
    read_change = (if EV_READ \<in> events then {EV_CHANGE_DEL} else {}),
    write_change = (if EV_WRITE \<in> events then {EV_CHANGE_DEL} else {})\<rparr>"
  obtain oper evs where ch': "epoll_change_op ch = (oper, evs)" by fastforce
  have res': "epoll_apply_one_change ctl ch k = (q, k')"
    using res by (simp add: epoll_nochangelist_del_def ch_def)
  have "(oper, evs) = epoll_change_op ch" using ch' by simp
  then have what: "oper \<noteq> EPOLL_CTL_ADD \<and> evs \<noteq> {} \<and>
      (if oper = EPOLL_CTL_DEL then None else Some (evs \<inter> {EPOLLIN, EPOLLOUT})) =
        epoll_bits (if rd then r - 1 else r) (if wr then w - 1 else w)"
    using events have'
    by (cases "r - 1 = 0"; cases "w - 1 = 0"; cases "r = 0"; cases "w = 0"; cases rd; cases wr)
       (simp_all add: epoll_change_op_def ch_def io_old_def Let_def epoll_bits_def)
  have "epoll_bits r w \<noteq> None" using have' events by (auto simp: epoll_bits_def split: if_splits)
  then have "interest k fd \<noteq> None" using now by auto
  then have fits: "oper = EPOLL_CTL_ADD \<longleftrightarrow> interest k (ch_fd ch) = None"
    using what by (simp add: ch_def)
  show ?thesis
    using epoll_apply_one_change_ok [OF contract ch' _ fits res'] what
    by (auto simp: ch_def split: if_splits)
qed

lemma evmap_grow_over: "n \<noteq> 0 \<Longrightarrow> slot < evmap_grow n slot \<and> n \<le> evmap_grow n slot"
proof (induction n slot rule: evmap_grow.induct)
  case (1 n slot)
  show ?case
  proof (cases "n \<le> slot")
    case True
    then show ?thesis using 1 by (simp add: evmap_grow.simps [of n slot])
  next
    case False
    then show ?thesis by (simp add: evmap_grow.simps [of n slot])
  qed
qed

lemma evmap_make_space_ok:
  assumes "evmap_make_space alloc slot io = (r, io')"
  shows "io_entries io' = io_entries io \<and> nentries io \<le> nentries io' \<and>
         (r = 0 \<and> slot < nentries io' \<or> r = -1)"
  using assms evmap_grow_over [of "nentries io" slot] evmap_grow_over [of 32 slot]
  by (auto simp: evmap_make_space_def split: if_splits)

lemma readers_writers_simps [simp]:
  "readers evf [] = 0" "writers evf [] = 0"
  "readers evf (es @ [e]) = (if EV_READ \<in> evf e then readers evf es + 1 else readers evf es)"
  "writers evf (es @ [e]) = (if EV_WRITE \<in> evf e then writers evf es + 1 else writers evf es)"
  by (simp_all add: readers_def writers_def)

lemma readers_writers_remove1:
  assumes "e \<in> set es"
  shows "readers evf (remove1 e es) = (if EV_READ \<in> evf e then readers evf es - 1 else readers evf es)"
    "writers evf (remove1 e es) = (if EV_WRITE \<in> evf e then writers evf es - 1 else writers evf es)"
    "EV_READ \<in> evf e \<Longrightarrow> readers evf es \<noteq> 0" "EV_WRITE \<in> evf e \<Longrightarrow> writers evf es \<noteq> 0"
proof -
  obtain as bs where es: "es = as @ e # bs" "e \<notin> set as"
    using split_list_first [OF assms] by blast
  have "remove1 e es = as @ bs" using es by (simp add: remove1_append)
  then show "readers evf (remove1 e es) = (if EV_READ \<in> evf e then readers evf es - 1 else readers evf es)"
    "writers evf (remove1 e es) = (if EV_WRITE \<in> evf e then writers evf es - 1 else writers evf es)"
    using es by (simp_all add: readers_def writers_def)
  show "EV_READ \<in> evf e \<Longrightarrow> readers evf es \<noteq> 0" "EV_WRITE \<in> evf e \<Longrightarrow> writers evf es \<noteq> 0"
    using es by (simp_all add: readers_def writers_def)
qed

text \<open>The invariant only looks at the entries; what the kernel watches follows the entry changed.\<close>

lemma evmap_inv_entry:
  assumes inv: "evmap_inv evf interest io k" and fd: "0 \<le> fd"
    and n: "nentries io \<le> nentries io'" "nat fd < nentries io'"
    and entries: "io_entries io' = (io_entries io)(nat fd \<mapsto> c)"
    and c: "nread c = readers evf (io_events c)" "nwrite c = writers evf (io_events c)"
    and here: "inout (interest k' fd) =
      epoll_bits (readers evf (io_events c)) (writers evf (io_events c))"
    and there: "\<And>fd'. fd' \<noteq> fd \<Longrightarrow> interest k' fd' = interest k fd'"
  shows "evmap_inv evf interest io' k'"
  unfolding evmap_inv_def
proof (intro conjI allI impI)
  fix slot d assume "io_entries io' slot = Some d"
  then show "slot < nentries io'" "nread d = readers evf (io_events d)"
    "nwrite d = writers evf (io_events d)"
    using inv n entries c by (fastforce simp: evmap_inv_def split: if_splits)+
next
  fix fd' :: int assume fd': "0 \<le> fd'"
  show "inout (interest k' fd') =
      epoll_bits (readers evf (fd_events io' fd')) (writers evf (fd_events io' fd'))"
  proof (cases "fd' = fd")
    case True
    then show ?thesis using here fd entries by (simp add: fd_events_def)
  next
    case False
    then have "nat fd' \<noteq> nat fd" using fd fd' by simp
    then have "fd_events io' fd' = fd_events io fd'" using entries by (simp add: fd_events_def)
    then show ?thesis using inv there [OF False] fd' by (simp add: evmap_inv_def)
  qed
qed

lemma evmap_inv_same:
  assumes "evmap_inv evf interest io k" "nentries io \<le> nentries io'" "io_entries io' = io_entries io"
    "interest k' = interest k"
  shows "evmap_inv evf interest io' k' \<and> fd_events io' = fd_events io"
proof -
  have "fd_events io' = fd_events io" by (rule ext) (simp add: fd_events_def assms(3))
  then show ?thesis using assms by (force simp: evmap_inv_def)
qed

lemma fd_events_upd:
  "0 \<le> fd \<Longrightarrow> io_entries io' = (io_entries io)(nat fd \<mapsto> c) \<Longrightarrow>
   fd_events io' = (fd_events io)(fd := io_events c)"
  by (rule ext) (auto simp: fd_events_def)

lemma evmap_io_add_ok:
  assumes contract: "epoll_contract ctl interest" and inv: "evmap_inv evf interest io k"
    and add: "evmap_io_add ctl alloc alloc' fd ev (evf ev) io k = (r, io', k')"
  shows "evmap_inv evf interest io' k' \<and>
         (r = -1 \<and> fd_events io' = fd_events io \<and> interest k' = interest k \<or>
          (r = 0 \<or> r = 1) \<and>
          fd_events io' = (if fd < 0 then fd_events io
                           else (fd_events io)(fd := fd_events io fd @ [ev])))"
proof (cases "fd < 0")
  case True
  then show ?thesis using add inv by (simp add: evmap_io_add_def)
next
  case False
  then have fd: "0 \<le> fd" by simp
  obtain q0 io1 where space:
    "(if nentries io \<le> nat fd then evmap_make_space alloc (nat fd) io else (0, io)) = (q0, io1)"
    by fastforce
  then have io1: "io_entries io1 = io_entries io" "nentries io \<le> nentries io1"
    "q0 = 0 \<and> nat fd < nentries io1 \<or> q0 = -1"
    using evmap_make_space_ok [of alloc "nat fd" io q0 io1] by (auto split: if_splits)
  note inv1 = evmap_inv_same [OF inv io1(2,1) refl]
  show ?thesis
  proof (cases "q0 = -1 \<or> (io_entries io1 (nat fd) = None \<and> \<not> alloc')")
    case True
    then have "evmap_io_add ctl alloc alloc' fd ev (evf ev) io k = (-1, io1, k)"
      using False space by (elim disjE) (simp_all add: evmap_io_add_def Let_def)
    then have "r = -1 \<and> io' = io1 \<and> k' = k" using add by simp
    then show ?thesis using inv1 by simp
  next
    case ok: False
    then have n: "nat fd < nentries io1" using io1(3) by blast
    define ctx where "ctx = (case io_entries io1 (nat fd) of None \<Rightarrow> evmap_io_init | Some c \<Rightarrow> c)"
    have ctx: "io_events ctx = fd_events io fd" "nread ctx = readers evf (fd_events io fd)"
      "nwrite ctx = writers evf (fd_events io fd)"
      using inv fd io1(1)
      by (auto simp: ctx_def fd_events_def evmap_inv_def evmap_io_init_def split: option.split)
    define io2 where "io2 = io1\<lparr>io_entries := (io_entries io1)(nat fd \<mapsto> ctx)\<rparr>"
    let ?es = "fd_events io fd"
    have here: "inout (interest k fd) = epoll_bits (readers evf ?es) (writers evf ?es)"
      using inv fd by (simp add: evmap_inv_def)
    have inv2: "evmap_inv evf interest io2 k"
      using evmap_inv_entry [OF conjunct1 [OF inv1] fd, of io2 ctx k] ctx here n
      by (simp add: io2_def)
    have ev2: "fd_events io2 = fd_events io"
    proof -
      have "fd_events io2 = (fd_events io1)(fd := io_events ctx)"
        by (rule fd_events_upd [OF fd]) (simp add: io2_def)
      then show ?thesis using conjunct2 [OF inv1] ctx(1) by simp
    qed
    let ?nr = "if EV_READ \<in> evf ev then nread ctx + 1 else nread ctx"
    let ?nw = "if EV_WRITE \<in> evf ev then nwrite ctx + 1 else nwrite ctx"
    define res where "res = (if EV_READ \<in> evf ev \<and> ?nr = 1 then {EV_READ} else {}) \<union>
                    (if EV_WRITE \<in> evf ev \<and> ?nw = 1 then {EV_WRITE} else {})"
    show ?thesis
    proof (cases "?nr > 0xffff \<or> ?nw > 0xffff")
      case True
      then have "r = -1 \<and> io' = io2 \<and> k' = k"
        using add False space ok
        by (simp add: evmap_io_add_def Let_def io2_def ctx_def split: if_splits)
      then show ?thesis using inv2 ev2 by simp
    next
      case few: False
      define ctl_res where "ctl_res =
        (if res \<noteq> {} then epoll_nochangelist_add ctl fd (io_old (nread ctx) (nwrite ctx))
                             ((if EV_ET \<in> evf ev then {EV_ET} else {}) \<union> res) k
         else (0, k))"
      define io3 where "io3 = io2\<lparr>io_entries := (io_entries io2)
        (nat fd \<mapsto> \<lparr>io_events = io_events ctx @ [ev], nread = ?nr, nwrite = ?nw\<rparr>)\<rparr>"
      have all: "(r, io', k') = (case ctl_res of (q, k1) \<Rightarrow>
          if q = -1 then (-1, io2, k1) else (if res \<noteq> {} then 1 else 0, io3, k1))"
        using add [symmetric] False space ok few
        unfolding evmap_io_add_def Let_def io3_def io2_def ctl_res_def res_def ctx_def
        by (auto split: if_splits)
      obtain q k1 where q: "ctl_res = (q, k1)" by fastforce
      have kernel: "(q = 0 \<and> inout (interest k1 fd) = epoll_bits ?nr ?nw \<and>
             (\<forall>fd'. fd' \<noteq> fd \<longrightarrow> interest k1 fd' = interest k fd')) \<or>
          q = -1 \<and> interest k1 = interest k"
      proof (cases "res = {}")
        case True
        then have "q = 0" "k1 = k" using q by (simp_all add: ctl_res_def)
        moreover have "epoll_bits ?nr ?nw = epoll_bits (nread ctx) (nwrite ctx)"
          using True by (auto simp: res_def epoll_bits_def split: if_splits)
        ultimately show ?thesis using here ctx by simp
      next
        case False
        then have "epoll_nochangelist_add ctl fd (io_old (nread ctx) (nwrite ctx))
            ((if EV_ET \<in> evf ev then {EV_ET} else {}) \<union> res) k = (q, k1)"
          using q by (simp add: ctl_res_def)
        from epoll_add_ok [OF contract _ _ False refl this, of "EV_READ \<in> evf ev" "EV_WRITE \<in> evf ev"]
        show ?thesis using here ctx by (simp add: res_def cong: if_cong)
      qed
      show ?thesis
      proof (cases "q = -1")
        case True
        then have "r = -1 \<and> io' = io2 \<and> k' = k1" using all q by simp
        moreover have "interest k1 = interest k" using kernel True by auto
        ultimately show ?thesis
          using evmap_inv_same [OF inv2 order_refl refl, of k1] ev2 by simp
      next
        case False
        then have out: "(r = 0 \<or> r = 1) \<and> io' = io3 \<and> k' = k1" using all q by (simp split: if_splits)
        have "evmap_inv evf interest io3 k1"
          by (rule evmap_inv_entry [OF inv2 fd,
                of _ "\<lparr>io_events = io_events ctx @ [ev], nread = ?nr, nwrite = ?nw\<rparr>"])
             (use kernel False ctx n in \<open>auto simp: io3_def io2_def\<close>)
        moreover have "fd_events io3 = (fd_events io)(fd := ?es @ [ev])"
        proof -
          have "fd_events io3 = (fd_events io2)
              (fd := io_events \<lparr>io_events = io_events ctx @ [ev], nread = ?nr, nwrite = ?nw\<rparr>)"
            by (rule fd_events_upd [OF fd]) (simp add: io3_def)
          then show ?thesis using ev2 ctx(1) by simp
        qed
        ultimately show ?thesis using out fd by simp
      qed
    qed
  qed
qed

text \<open>The deletion of an event the table knows: one call, when the last reader or writer goes.\<close>

lemma evmap_io_del_eq:
  assumes inv: "evmap_inv evf interest io k" and fd: "0 \<le> fd" and mem: "ev \<in> set (fd_events io fd)"
    and ctx: "io_entries io (nat fd) = Some ctx"
  shows "evmap_io_del ctl fd ev (evf ev) io k =
    (let nr = (if EV_READ \<in> evf ev then nread ctx - 1 else nread ctx);
         nw = (if EV_WRITE \<in> evf ev then nwrite ctx - 1 else nwrite ctx);
         res = (if EV_READ \<in> evf ev \<and> nr = 0 then {EV_READ} else {}) \<union>
               (if EV_WRITE \<in> evf ev \<and> nw = 0 then {EV_WRITE} else {});
         (q, k1) = (if res \<noteq> {} then epoll_nochangelist_del ctl fd (io_old (nread ctx) (nwrite ctx)) res k
                    else (0, k))
     in if q = -1 then Some (-1, io, k1)
        else Some (if res \<noteq> {} then 1 else 0,
               io\<lparr>io_entries := (io_entries io)(nat fd \<mapsto>
                    \<lparr>io_events = remove1 ev (io_events ctx), nread = nr, nwrite = nw\<rparr>)\<rparr>, k1))"
proof -
  have ctx': "io_events ctx = fd_events io fd" "nread ctx = readers evf (fd_events io fd)"
      "nwrite ctx = writers evf (fd_events io fd)" "nat fd < nentries io"
    using inv fd ctx by (auto simp: fd_events_def evmap_inv_def)
  note rm = readers_writers_remove1 [OF mem, of evf]
  have "\<not> fd < 0" "\<not> nentries io \<le> nat fd" "ev \<in> set (io_events ctx)"
    "\<not> (EV_READ \<in> evf ev \<and> nread ctx = 0 \<or> EV_WRITE \<in> evf ev \<and> nwrite ctx = 0)"
    using fd ctx' mem rm(3,4) by auto
  then show ?thesis
    unfolding evmap_io_del_def Let_def by (simp only: ctx option.case if_False not_not simp_thms)
qed

lemma evmap_io_del_ok:
  assumes contract: "epoll_contract ctl interest" and inv: "evmap_inv evf interest io k"
    and mem: "0 \<le> fd \<Longrightarrow> ev \<in> set (fd_events io fd)"
  shows "\<exists>r io' k'. evmap_io_del ctl fd ev (evf ev) io k = Some (r, io', k') \<and>
         evmap_inv evf interest io' k' \<and>
         (r = -1 \<and> io' = io \<and> interest k' = interest k \<or>
          (r = 0 \<or> r = 1) \<and>
          fd_events io' = (if fd < 0 then fd_events io
                           else (fd_events io)(fd := remove1 ev (fd_events io fd))))"
proof (cases "fd < 0")
  case True
  then show ?thesis using inv by (simp add: evmap_io_del_def)
next
  case False
  then have fd: "0 \<le> fd" by simp
  note mem = mem [OF fd]
  obtain ctx where ctx: "io_entries io (nat fd) = Some ctx"
    using mem fd by (cases "io_entries io (nat fd)") (simp_all add: fd_events_def)
  then have ctx': "io_events ctx = fd_events io fd" "nread ctx = readers evf (fd_events io fd)"
      "nwrite ctx = writers evf (fd_events io fd)" "nat fd < nentries io"
    using inv fd by (auto simp: fd_events_def evmap_inv_def)
  let ?es = "fd_events io fd"
  note rm = readers_writers_remove1 [OF mem, of evf]
  have here: "inout (interest k fd) = epoll_bits (nread ctx) (nwrite ctx)"
    using inv fd ctx' by (simp add: evmap_inv_def)
  let ?nr = "if EV_READ \<in> evf ev then nread ctx - 1 else nread ctx"
  let ?nw = "if EV_WRITE \<in> evf ev then nwrite ctx - 1 else nwrite ctx"
  define res where "res = (if EV_READ \<in> evf ev \<and> ?nr = 0 then {EV_READ} else {}) \<union>
                  (if EV_WRITE \<in> evf ev \<and> ?nw = 0 then {EV_WRITE} else {})"
  define ctl_res where "ctl_res =
    (if res \<noteq> {} then epoll_nochangelist_del ctl fd (io_old (nread ctx) (nwrite ctx)) res k
     else (0, k))"
  define c2 where "c2 = \<lparr>io_events = remove1 ev ?es, nread = ?nr, nwrite = ?nw\<rparr>"
  define io2 where "io2 = io\<lparr>io_entries := (io_entries io)(nat fd \<mapsto> c2)\<rparr>"
  obtain q k1 where q: "ctl_res = (q, k1)" by fastforce
  have all: "evmap_io_del ctl fd ev (evf ev) io k =
      (if q = -1 then Some (-1, io, k1) else Some (if res \<noteq> {} then 1 else 0, io2, k1))"
    using q unfolding evmap_io_del_eq [OF inv fd mem ctx] Let_def io2_def ctl_res_def res_def c2_def ctx'(1)
    by simp
  have kernel: "(q = 0 \<and> inout (interest k1 fd) = epoll_bits ?nr ?nw \<and>
         (\<forall>fd'. fd' \<noteq> fd \<longrightarrow> interest k1 fd' = interest k fd')) \<or>
      q = -1 \<and> interest k1 = interest k"
  proof (cases "res = {}")
    case True
    then have "q = 0" "k1 = k" using q by (simp_all add: ctl_res_def)
    moreover have "epoll_bits ?nr ?nw = epoll_bits (nread ctx) (nwrite ctx)"
      using True rm(3,4) ctx' by (auto simp: res_def epoll_bits_def split: if_splits)
    ultimately show ?thesis using here by simp
  next
    case False
    then have call: "epoll_nochangelist_del ctl fd (io_old (nread ctx) (nwrite ctx)) res k = (q, k1)"
      using q by (simp add: ctl_res_def)
    have res': "res = (if EV_READ \<in> evf ev \<and> nread ctx - 1 = 0 then {EV_READ} else {}) \<union>
      (if EV_WRITE \<in> evf ev \<and> nwrite ctx - 1 = 0 then {EV_WRITE} else {})"
      by (auto simp: res_def)
    show ?thesis
      by (rule epoll_del_ok [OF contract here _ _ res' False call]) (use rm(3,4) ctx' in auto)
  qed
  show ?thesis
  proof (cases "q = -1")
    case True
    then have "interest k1 = interest k" using kernel by auto
    then show ?thesis using evmap_inv_same [OF inv order_refl refl, of k1] all True by simp
  next
    case False
    have "evmap_inv evf interest io2 k1"
      by (rule evmap_inv_entry [OF inv fd, of _ c2])
         (use kernel False ctx' rm(1,2) in \<open>auto simp: io2_def c2_def\<close>)
    moreover have "fd_events io2 = (fd_events io)(fd := remove1 ev ?es)"
      using fd_events_upd [OF fd, of io2 io c2] by (simp add: io2_def c2_def)
    ultimately show ?thesis using all False fd by simp
  qed
qed

end
