(* ===== verification/EvBase.thy ===== *)
theory EvBase
  imports MinHeap EvMap "HOL-Library.Monad_Syntax"
begin

text \<open>
  The event base of libevent (\<^verbatim>\<open>src/deps/libevent/event.c\<close>): its queues of inserted, active and
  timed events, the operations the proxy calls on events (\<^verbatim>\<open>event_assign\<close>, \<^verbatim>\<open>event_add\<close>,
  \<^verbatim>\<open>event_del\<close>, \<^verbatim>\<open>event_active\<close>, \<^verbatim>\<open>event_free\<close>) and the deferred callbacks of the buffered
  sockets.

  An event is a pointer of type \<open>'e\<close>, a deferred callback one of type \<open>'d\<close>; the structures they
  point to are the maps \<open>evs\<close> and \<open>dcb_queued\<close>.  The field \<^verbatim>\<open>min_heap_idx\<close> is kept with the heap.
  Bit masks are sets of their bits.  The kernel is the state \<open>kern\<close> with the call \<open>ctl\<close> of
  \<^verbatim>\<open>EvMap\<close>, the clock is \<open>clock\<close>, and \<open>mem i\<close> tells whether the \<open>i\<close>-th allocation of an operation
  succeeds.  \<^verbatim>\<open>None\<close> is an exit of the process (\<^verbatim>\<open>event_errx\<close>, a failed assertion) or an access
  outside an array or list.

  Not here, because the proxy never uses them: events on signals, common timeouts (so
  \<^verbatim>\<open>n_common_timeouts\<close> is 0 and \<^verbatim>\<open>is_common_timeout\<close> is false) and the notification of a loop
  that runs in another thread (\<^verbatim>\<open>EVBASE_NEED_NOTIFY\<close> is false as long as no thread identity
  function is set, and the proxy sets none).
\<close>

section \<open>The state\<close>

datatype evlist_flag =
  EVLIST_TIMEOUT | EVLIST_INSERTED | EVLIST_SIGNAL | EVLIST_ACTIVE | EVLIST_INTERNAL | EVLIST_INIT

datatype ev_closure = EV_CLOSURE_NONE | EV_CLOSURE_SIGNAL | EV_CLOSURE_PERSIST

record event_s =
  ev_fd :: int
  ev_events :: "ev_what set"
  ev_res :: "ev_what set"
  ev_flags :: "evlist_flag set"
  ev_closure :: ev_closure
  ev_pri :: nat
  ev_timeout :: timeval
  ev_io_timeout :: timeval

record ('e, 'd, 'k) event_base =
  evs :: "'e \<Rightarrow> event_s"
  timeheap :: "'e min_heap"
  eventqueue :: "'e list"
  activequeues :: "'e list list"
  event_count :: int
  event_count_active :: int
  virtual_event_count :: int
  defer_queue :: "'d list"
  active_count :: int
  dcb_queued :: "'d \<Rightarrow> bool"
  event_gotterm :: bool
  event_break :: bool
  event_continue :: bool
  event_running_priority :: int
  running_loop :: bool
  use_monotonic :: bool
  event_tv :: timeval
  tv_cache :: timeval
  io :: "'e event_io_map"
  kern :: 'k
  ep_nevents :: nat   \<comment> \<open>of the epoll back end: the room for the answers of \<^verbatim>\<open>epoll_wait\<close>\<close>
  clock :: timeval

definition deadlines :: "('e, 'd, 'k) event_base \<Rightarrow> 'e \<Rightarrow> timeval" where
  "deadlines b e = ev_timeout (evs b e)"

abbreviation flags :: "('e, 'd, 'k) event_base \<Rightarrow> 'e \<Rightarrow> evlist_flag set" where
  "flags b e \<equiv> ev_flags (evs b e)"

definition set_ev :: "'e \<Rightarrow> (event_s \<Rightarrow> event_s) \<Rightarrow> ('e, 'd, 'k) event_base \<Rightarrow> ('e, 'd, 'k) event_base" where
  "set_ev e f b = b\<lparr>evs := (evs b)(e := f (evs b e))\<rparr>"

section \<open>Time\<close>

definition evutil_timeradd :: "timeval \<Rightarrow> timeval \<Rightarrow> timeval" where
  "evutil_timeradd s t =
     (let sec = tv_sec s + tv_sec t; usec = tv_usec s + tv_usec t in
      if usec \<ge> 1000000 then Timeval (sec + 1) (usec - 1000000) else Timeval sec usec)"

definition evutil_timersub :: "timeval \<Rightarrow> timeval \<Rightarrow> timeval" where
  "evutil_timersub s t =
     (let sec = tv_sec s - tv_sec t; usec = tv_usec s - tv_usec t in
      if usec < 0 then Timeval (sec - 1) (usec + 1000000) else Timeval sec usec)"

definition evutil_timerclear :: timeval where
  "evutil_timerclear = Timeval 0 0"

definition gettime :: "('e, 'd, 'k) event_base \<Rightarrow> timeval" where
  "gettime b = (if tv_sec (tv_cache b) \<noteq> 0 then tv_cache b else clock b)"

definition clear_time_cache :: "('e, 'd, 'k) event_base \<Rightarrow> ('e, 'd, 'k) event_base" where
  "clear_time_cache b = b\<lparr>tv_cache := Timeval 0 (tv_usec (tv_cache b))\<rparr>"

definition update_time_cache :: "('e, 'd, 'k) event_base \<Rightarrow> ('e, 'd, 'k) event_base" where
  "update_time_cache b =
     (let b = b\<lparr>tv_cache := Timeval 0 (tv_usec (tv_cache b))\<rparr> in b\<lparr>tv_cache := gettime b\<rparr>)"

section \<open>The queues\<close>

definition event_queue_remove ::
    "'e \<Rightarrow> evlist_flag \<Rightarrow> ('e, 'd, 'k) event_base \<Rightarrow> ('e, 'd, 'k) event_base option" where
  "event_queue_remove e queue b =
     (if queue \<notin> flags b e then None
      else
        let b = (if EVLIST_INTERNAL \<notin> flags b e then b\<lparr>event_count := event_count b - 1\<rparr> else b);
            b = set_ev e (ev_flags_update (\<lambda>fl. fl - {queue})) b in
        case queue of
          EVLIST_INSERTED \<Rightarrow>
            if e \<in> set (eventqueue b) then Some (b\<lparr>eventqueue := remove1 e (eventqueue b)\<rparr>) else None
        | EVLIST_ACTIVE \<Rightarrow>
            let p = ev_pri (evs b e) in
            if p < length (activequeues b) \<and> e \<in> set (activequeues b ! p)
            then Some (b\<lparr>event_count_active := event_count_active b - 1,
                         activequeues := (activequeues b)[p := remove1 e (activequeues b ! p)]\<rparr>)
            else None
        | EVLIST_TIMEOUT \<Rightarrow>
            map_option (\<lambda>(r, h). b\<lparr>timeheap := h\<rparr>) (min_heap_erase (deadlines b) (timeheap b) e)
        | _ \<Rightarrow> None)"

definition event_queue_insert ::
    "bool \<Rightarrow> 'e \<Rightarrow> evlist_flag \<Rightarrow> ('e, 'd, 'k) event_base \<Rightarrow> ('e, 'd, 'k) event_base option" where
  "event_queue_insert alloc e queue b =
     (if queue \<in> flags b e then (if queue = EVLIST_ACTIVE then Some b else None)
      else
        let b = (if EVLIST_INTERNAL \<notin> flags b e then b\<lparr>event_count := event_count b + 1\<rparr> else b);
            b = set_ev e (ev_flags_update (insert queue)) b in
        case queue of
          EVLIST_INSERTED \<Rightarrow> Some (b\<lparr>eventqueue := eventqueue b @ [e]\<rparr>)
        | EVLIST_ACTIVE \<Rightarrow>
            let p = ev_pri (evs b e) in
            if p < length (activequeues b)
            then Some (b\<lparr>event_count_active := event_count_active b + 1,
                         activequeues := (activequeues b)[p := activequeues b ! p @ [e]]\<rparr>)
            else None
        | EVLIST_TIMEOUT \<Rightarrow>
            map_option (\<lambda>(r, h). b\<lparr>timeheap := h\<rparr>)
              (min_heap_push alloc (deadlines b) (timeheap b) e)
        | _ \<Rightarrow> None)"

section \<open>Operations on events\<close>

text \<open>\<^verbatim>\<open>event_assign\<close> for events that are not on signals.\<close>

definition event_assign :: "'e \<Rightarrow> int \<Rightarrow> ev_what set \<Rightarrow> ('e, 'd, 'k) event_base \<Rightarrow> ('e, 'd, 'k) event_base" where
  "event_assign e fd events b =
     (let b = set_ev e (\<lambda>s. s\<lparr>ev_fd := fd, ev_events := events, ev_res := {}, ev_flags := {EVLIST_INIT}\<rparr>) b;
          b = set_ev e (\<lambda>s. if EV_PERSIST \<in> events
                            then s\<lparr>ev_io_timeout := evutil_timerclear, ev_closure := EV_CLOSURE_PERSIST\<rparr>
                            else s\<lparr>ev_closure := EV_CLOSURE_NONE\<rparr>) b;
          b = b\<lparr>timeheap := min_heap_elem_init e (timeheap b)\<rparr>
      in set_ev e (ev_pri_update (\<lambda>_. length (activequeues b) div 2)) b)"

text \<open>The registration for reading or writing, the timer, and the two together.\<close>

definition event_add_io ::
    "'k epoll_ctl \<Rightarrow> (nat \<Rightarrow> bool) \<Rightarrow> 'e \<Rightarrow> ('e, 'd, 'k) event_base \<Rightarrow> (int \<times> ('e, 'd, 'k) event_base) option" where
  "event_add_io ctl mem e b =
     (if ev_events (evs b e) \<inter> {EV_READ, EV_WRITE} \<noteq> {} \<and>
         flags b e \<inter> {EVLIST_INSERTED, EVLIST_ACTIVE} = {}
      then
        (case evmap_io_add ctl (mem 1) (mem 2) (ev_fd (evs b e)) e (ev_events (evs b e)) (io b) (kern b) of
           (res, m, k) \<Rightarrow>
             let b = b\<lparr>io := m, kern := k\<rparr> in
             if res \<noteq> -1
             then map_option (Pair 0) (event_queue_insert (mem 3) e EVLIST_INSERTED b)
             else Some (res, b))
      else Some (0, b))"

definition event_add_timeout ::
    "(nat \<Rightarrow> bool) \<Rightarrow> 'e \<Rightarrow> timeval \<Rightarrow> bool \<Rightarrow> ('e, 'd, 'k) event_base \<Rightarrow> ('e, 'd, 'k) event_base option" where
  "event_add_timeout mem e t absolute b =
     do {
       let b = (if ev_closure (evs b e) = EV_CLOSURE_PERSIST \<and> \<not> absolute
                then set_ev e (ev_io_timeout_update (\<lambda>_. t)) b else b);
       b \<leftarrow> (if EVLIST_TIMEOUT \<in> flags b e then event_queue_remove e EVLIST_TIMEOUT b else Some b);
       b \<leftarrow> (if EVLIST_ACTIVE \<in> flags b e \<and> EV_TIMEOUT \<in> ev_res (evs b e)
             then event_queue_remove e EVLIST_ACTIVE b else Some b);
       let b = set_ev e (ev_timeout_update
                 (\<lambda>_. if absolute then t else evutil_timeradd (gettime b) t)) b;
       event_queue_insert (mem 3) e EVLIST_TIMEOUT b
     }"

definition event_add_internal ::
    "'k epoll_ctl \<Rightarrow> (nat \<Rightarrow> bool) \<Rightarrow> 'e \<Rightarrow> timeval option \<Rightarrow> bool \<Rightarrow> ('e, 'd, 'k) event_base \<Rightarrow>
     (int \<times> ('e, 'd, 'k) event_base) option" where
  "event_add_internal ctl mem e tv absolute b =
     (let (r, h) = (if tv \<noteq> None \<and> EVLIST_TIMEOUT \<notin> flags b e
                    then min_heap_reserve (mem 0) (timeheap b) (1 + min_heap_size (timeheap b))
                    else (0, timeheap b)) in
      if r = -1 then Some (-1, b)
      else do {
        (res, b) \<leftarrow> event_add_io ctl mem e (b\<lparr>timeheap := h\<rparr>);
        if res \<noteq> -1 \<and> tv \<noteq> None
        then map_option (Pair res) (event_add_timeout mem e (the tv) absolute b)
        else Some (res, b)
      })"

definition event_add ::
    "'k epoll_ctl \<Rightarrow> (nat \<Rightarrow> bool) \<Rightarrow> 'e \<Rightarrow> timeval option \<Rightarrow> ('e, 'd, 'k) event_base \<Rightarrow>
     (int \<times> ('e, 'd, 'k) event_base) option" where
  "event_add ctl mem e tv b = event_add_internal ctl mem e tv False b"

definition event_del_internal ::
    "'k epoll_ctl \<Rightarrow> 'e \<Rightarrow> ('e, 'd, 'k) event_base \<Rightarrow> (int \<times> ('e, 'd, 'k) event_base) option" where
  "event_del_internal ctl e b =
     do {
       b \<leftarrow> (if EVLIST_TIMEOUT \<in> flags b e then event_queue_remove e EVLIST_TIMEOUT b else Some b);
       b \<leftarrow> (if EVLIST_ACTIVE \<in> flags b e then event_queue_remove e EVLIST_ACTIVE b else Some b);
       if EVLIST_INSERTED \<in> flags b e
       then do {
         b \<leftarrow> event_queue_remove e EVLIST_INSERTED b;
         if ev_events (evs b e) \<inter> {EV_READ, EV_WRITE} \<noteq> {}
         then do {
           (res, m, k) \<leftarrow> evmap_io_del ctl (ev_fd (evs b e)) e (ev_events (evs b e)) (io b) (kern b);
           Some (if res = 1 then 0 else res, b\<lparr>io := m, kern := k\<rparr>)
         }
         else None
       }
       else Some (0, b)
     }"

definition event_active_nolock ::
    "'e \<Rightarrow> ev_what set \<Rightarrow> ('e, 'd, 'k) event_base \<Rightarrow> ('e, 'd, 'k) event_base option" where
  "event_active_nolock e res b =
     (if EVLIST_ACTIVE \<in> flags b e then Some (set_ev e (ev_res_update (\<lambda>r. r \<union> res)) b)
      else
        let b = set_ev e (ev_res_update (\<lambda>_. res)) b;
            b = (if int (ev_pri (evs b e)) < event_running_priority b
                 then b\<lparr>event_continue := True\<rparr> else b)
        in event_queue_insert True e EVLIST_ACTIVE b)"

text \<open>The memory of a freed event belongs to nobody: its flags are cleared.\<close>

definition event_free_ev ::
    "'k epoll_ctl \<Rightarrow> 'e \<Rightarrow> ('e, 'd, 'k) event_base \<Rightarrow> ('e, 'd, 'k) event_base option" where
  "event_free_ev ctl e b =
     map_option (\<lambda>(r, b). set_ev e (ev_flags_update (\<lambda>_. {})) b) (event_del_internal ctl e b)"

text \<open>Deferred callbacks.\<close>

definition event_deferred_cb_schedule :: "'d \<Rightarrow> ('e, 'd, 'k) event_base \<Rightarrow> ('e, 'd, 'k) event_base" where
  "event_deferred_cb_schedule d b =
     (if dcb_queued b d then b
      else b\<lparr>dcb_queued := (dcb_queued b)(d := True), defer_queue := defer_queue b @ [d],
             active_count := active_count b + 1\<rparr>)"

definition event_deferred_cb_cancel ::
    "'d \<Rightarrow> ('e, 'd, 'k) event_base \<Rightarrow> ('e, 'd, 'k) event_base option" where
  "event_deferred_cb_cancel d b =
     (if dcb_queued b d
      then if d \<in> set (defer_queue b)
           then Some (b\<lparr>defer_queue := remove1 d (defer_queue b), active_count := active_count b - 1,
                        dcb_queued := (dcb_queued b)(d := False)\<rparr>)
           else None
      else Some b)"

definition event_base_loopbreak :: "('e, 'd, 'k) event_base \<Rightarrow> ('e, 'd, 'k) event_base" where
  "event_base_loopbreak b = b\<lparr>event_break := True\<rparr>"

text \<open>\<^verbatim>\<open>event_base_new\<close>, up to \<^verbatim>\<open>event_base_priority_init (base, 1)\<close>; the memory is zeroed.\<close>

definition event_base_new :: "bool \<Rightarrow> ('e \<Rightarrow> event_s) \<Rightarrow> 'k \<Rightarrow> timeval \<Rightarrow> ('e, 'd, 'k) event_base" where
  "event_base_new monotonic memory k now =
     \<lparr>evs = memory, timeheap = min_heap_ctor (\<lambda>_. -1), eventqueue = [], activequeues = [[]],
      event_count = 0, event_count_active = 0, virtual_event_count = 0,
      defer_queue = [], active_count = 0, dcb_queued = (\<lambda>_. False),
      event_gotterm = False, event_break = False, event_continue = False,
      event_running_priority = 0, running_loop = False, use_monotonic = monotonic,
      event_tv = now, tv_cache = Timeval 0 0,
      io = evmap_io_initmap, kern = k, ep_nevents = 32, clock = now\<rparr>"

section \<open>The invariant\<close>

definition timers_wf :: "('e, 'd, 'k) event_base \<Rightarrow> bool" where
  "timers_wf b \<longleftrightarrow> heap_inv (deadlines b) (timeheap b) \<and>
     heap_members (timeheap b) = {e. EVLIST_TIMEOUT \<in> flags b e}"

definition inserted_wf :: "('e, 'd, 'k) event_base \<Rightarrow> bool" where
  "inserted_wf b \<longleftrightarrow> distinct (eventqueue b) \<and> set (eventqueue b) = {e. EVLIST_INSERTED \<in> flags b e}"

definition active_wf :: "('e, 'd, 'k) event_base \<Rightarrow> bool" where
  "active_wf b \<longleftrightarrow>
     (\<forall>p < length (activequeues b). distinct (activequeues b ! p) \<and>
        set (activequeues b ! p) = {e. EVLIST_ACTIVE \<in> flags b e \<and> ev_pri (evs b e) = p})"

definition counts_wf :: "('e, 'd, 'k) event_base \<Rightarrow> bool" where
  "counts_wf b \<longleftrightarrow>
     event_count b = int (hp_n (timeheap b) + length (eventqueue b) + sum_list (map length (activequeues b))) \<and>
     event_count_active b = int (sum_list (map length (activequeues b)))"

definition deferred_wf :: "('e, 'd, 'k) event_base \<Rightarrow> bool" where
  "deferred_wf b \<longleftrightarrow> distinct (defer_queue b) \<and> active_count b = int (length (defer_queue b)) \<and>
     (\<forall>d. dcb_queued b d \<longleftrightarrow> d \<in> set (defer_queue b))"

text \<open>An event: on a queue only after it has been assigned, never on signals, never internal.\<close>

definition event_wf :: "nat \<Rightarrow> event_s \<Rightarrow> bool" where
  "event_wf n s \<longleftrightarrow>
     ev_flags s \<subseteq> {EVLIST_TIMEOUT, EVLIST_INSERTED, EVLIST_ACTIVE, EVLIST_INIT} \<and>
     (ev_flags s \<noteq> {} \<longrightarrow>
        EVLIST_INIT \<in> ev_flags s \<and> ev_pri s < n \<and>
        (ev_closure s = (if EV_PERSIST \<in> ev_events s then EV_CLOSURE_PERSIST else EV_CLOSURE_NONE))) \<and>
     (EVLIST_INSERTED \<in> ev_flags s \<longrightarrow> ev_events s \<inter> {EV_READ, EV_WRITE} \<noteq> {})"

definition core_wf :: "('e, 'd, 'k) event_base \<Rightarrow> bool" where
  "core_wf b \<longleftrightarrow> timers_wf b \<and> inserted_wf b \<and> active_wf b \<and> counts_wf b \<and> deferred_wf b \<and>
     activequeues b \<noteq> [] \<and> (\<forall>e. event_wf (length (activequeues b)) (evs b e))"

definition io_wf :: "('k \<Rightarrow> int \<rightharpoonup> epoll_ev set) \<Rightarrow> ('e, 'd, 'k) event_base \<Rightarrow> bool" where
  "io_wf interest b \<longleftrightarrow>
     evmap_inv (\<lambda>e. ev_events (evs b e)) interest (io b) (kern b) \<and>
     (\<forall>fd \<ge> 0. distinct (fd_events (io b) fd) \<and>
        set (fd_events (io b) fd) = {e. EVLIST_INSERTED \<in> flags b e \<and> ev_fd (evs b e) = fd})"

definition base_wf :: "('k \<Rightarrow> int \<rightharpoonup> epoll_ev set) \<Rightarrow> ('e, 'd, 'k) event_base \<Rightarrow> bool" where
  "base_wf interest b \<longleftrightarrow> core_wf b \<and> io_wf interest b"

lemma set_ev_simps [simp]:
  "timeheap (set_ev e f b) = timeheap b" "eventqueue (set_ev e f b) = eventqueue b"
  "activequeues (set_ev e f b) = activequeues b" "event_count (set_ev e f b) = event_count b"
  "event_count_active (set_ev e f b) = event_count_active b"
  "defer_queue (set_ev e f b) = defer_queue b" "active_count (set_ev e f b) = active_count b"
  "dcb_queued (set_ev e f b) = dcb_queued b" "io (set_ev e f b) = io b" "kern (set_ev e f b) = kern b"
  "tv_cache (set_ev e f b) = tv_cache b" "clock (set_ev e f b) = clock b"
  "evs (set_ev e f b) x = (if x = e then f (evs b e) else evs b x)"
  "event_running_priority (set_ev e f b) = event_running_priority b"
  "virtual_event_count (set_ev e f b) = virtual_event_count b"
  "event_break (set_ev e f b) = event_break b" "event_continue (set_ev e f b) = event_continue b"
  "use_monotonic (set_ev e f b) = use_monotonic b" "event_tv (set_ev e f b) = event_tv b"
  "ep_nevents (set_ev e f b) = ep_nevents b" "event_gotterm (set_ev e f b) = event_gotterm b"
  "running_loop (set_ev e f b) = running_loop b"
  by (simp_all add: set_ev_def)

lemma set_ev_update [simp]:
  "(set_ev e f b)\<lparr>timeheap := v0\<rparr> = set_ev e f (b\<lparr>timeheap := v0\<rparr>)"
  "(set_ev e f b)\<lparr>eventqueue := v1\<rparr> = set_ev e f (b\<lparr>eventqueue := v1\<rparr>)"
  "(set_ev e f b)\<lparr>activequeues := v2\<rparr> = set_ev e f (b\<lparr>activequeues := v2\<rparr>)"
  "(set_ev e f b)\<lparr>event_count := v3\<rparr> = set_ev e f (b\<lparr>event_count := v3\<rparr>)"
  "(set_ev e f b)\<lparr>event_count_active := v4\<rparr> = set_ev e f (b\<lparr>event_count_active := v4\<rparr>)"
  "(set_ev e f b)\<lparr>defer_queue := v5\<rparr> = set_ev e f (b\<lparr>defer_queue := v5\<rparr>)"
  "(set_ev e f b)\<lparr>active_count := v6\<rparr> = set_ev e f (b\<lparr>active_count := v6\<rparr>)"
  "(set_ev e f b)\<lparr>dcb_queued := v7\<rparr> = set_ev e f (b\<lparr>dcb_queued := v7\<rparr>)"
  "(set_ev e f b)\<lparr>io := v8\<rparr> = set_ev e f (b\<lparr>io := v8\<rparr>)"
  "(set_ev e f b)\<lparr>kern := v9\<rparr> = set_ev e f (b\<lparr>kern := v9\<rparr>)"
  "(set_ev e f b)\<lparr>event_continue := v10\<rparr> = set_ev e f (b\<lparr>event_continue := v10\<rparr>)"
  "(set_ev e f b)\<lparr>event_break := v11\<rparr> = set_ev e f (b\<lparr>event_break := v11\<rparr>)"
  "(set_ev e f b)\<lparr>tv_cache := v12\<rparr> = set_ev e f (b\<lparr>tv_cache := v12\<rparr>)"
  "(set_ev e f b)\<lparr>clock := v13\<rparr> = set_ev e f (b\<lparr>clock := v13\<rparr>)"
  "(set_ev e f b)\<lparr>event_tv := v14\<rparr> = set_ev e f (b\<lparr>event_tv := v14\<rparr>)"
  "(set_ev e f b)\<lparr>event_running_priority := v15\<rparr> = set_ev e f (b\<lparr>event_running_priority := v15\<rparr>)"
  "(set_ev e f b)\<lparr>running_loop := v16\<rparr> = set_ev e f (b\<lparr>running_loop := v16\<rparr>)"
  by (simp_all add: set_ev_def)

lemma deadlines_simps [simp]:
  "deadlines (b\<lparr>timeheap := v0\<rparr>) = deadlines b"
  "deadlines (b\<lparr>eventqueue := v1\<rparr>) = deadlines b"
  "deadlines (b\<lparr>activequeues := v2\<rparr>) = deadlines b"
  "deadlines (b\<lparr>event_count := v3\<rparr>) = deadlines b"
  "deadlines (b\<lparr>event_count_active := v4\<rparr>) = deadlines b"
  "deadlines (b\<lparr>defer_queue := v5\<rparr>) = deadlines b"
  "deadlines (b\<lparr>active_count := v6\<rparr>) = deadlines b"
  "deadlines (b\<lparr>dcb_queued := v7\<rparr>) = deadlines b"
  "deadlines (b\<lparr>io := v8\<rparr>) = deadlines b"
  "deadlines (b\<lparr>kern := v9\<rparr>) = deadlines b"
  "deadlines (b\<lparr>event_continue := v10\<rparr>) = deadlines b"
  "deadlines (b\<lparr>event_break := v11\<rparr>) = deadlines b"
  "deadlines (b\<lparr>tv_cache := v12\<rparr>) = deadlines b"
  "deadlines (b\<lparr>clock := v13\<rparr>) = deadlines b"
  "deadlines (b\<lparr>event_tv := v14\<rparr>) = deadlines b"
  "deadlines (b\<lparr>event_running_priority := v15\<rparr>) = deadlines b"
  "deadlines (b\<lparr>running_loop := v16\<rparr>) = deadlines b"
  "deadlines (set_ev e (ev_flags_update g) b) = deadlines b"
  "deadlines (set_ev e (ev_res_update h) b) = deadlines b"
  "deadlines (set_ev e (ev_io_timeout_update i) b) = deadlines b"
  by (rule ext, simp add: deadlines_def)+

lemma sum_length_update:
  assumes "p < length xss" "length xs + a = length (xss ! p) + c"
  shows "sum_list (map length (xss[p := xs])) + a = sum_list (map length xss) + c"
proof -
  have xss: "xss = take p xss @ xss ! p # drop (Suc p) xss"
    using assms(1) by (rule id_take_nth_drop)
  have "xss[p := xs] = take p xss @ xs # drop (Suc p) xss"
    using assms(1) by (rule upd_conv_take_nth_drop)
  moreover have "sum_list (map length xss) =
      sum_list (map length (take p xss)) + length (xss ! p) + sum_list (map length (drop (Suc p) xss))"
    by (subst xss) simp
  ultimately show ?thesis using assms(2) by simp
qed

lemma length_remove1_mem: "x \<in> set xs \<Longrightarrow> length (remove1 x xs) + 1 = length xs"
  by (cases "length xs") (auto simp: length_remove1)

lemma core_wf_event: "core_wf b \<Longrightarrow> event_wf (length (activequeues b)) (evs b e)"
  by (simp add: core_wf_def)

lemma core_wf_not_internal [simp]: "core_wf b \<Longrightarrow> EVLIST_INTERNAL \<notin> flags b e"
  using core_wf_event [of b e] by (auto simp: event_wf_def)

text \<open>Taking an event off a queue it is on, and putting it on one it is not on, always works.\<close>

lemma remove_timeout:
  assumes wf: "core_wf b" and on: "EVLIST_TIMEOUT \<in> flags b e"
  shows "\<exists>b'. event_queue_remove e EVLIST_TIMEOUT b = Some b' \<and> core_wf b' \<and>
     (\<exists>h. b' = set_ev e (ev_flags_update (\<lambda>fl. fl - {EVLIST_TIMEOUT}))
                (b\<lparr>event_count := event_count b - 1, timeheap := h\<rparr>) \<and>
          heap_members h = heap_members (timeheap b) - {e} \<and> hp_n h < hp_a h)"
proof -
  have t: "timers_wf b" using wf by (simp add: core_wf_def)
  then have mem: "e \<in> heap_members (timeheap b)" using on by (simp add: timers_wf_def)
  obtain h where h: "min_heap_erase (deadlines b) (timeheap b) e = Some (0, h)"
    "heap_inv (deadlines b) h" "heap_members h = heap_members (timeheap b) - {e}"
    using mh.erase [OF conjunct1 [OF t [unfolded timers_wf_def]] mem] by blast
  define b' where "b' = set_ev e (ev_flags_update (\<lambda>fl. fl - {EVLIST_TIMEOUT}))
                (b\<lparr>event_count := event_count b - 1, timeheap := h\<rparr>)"
  have d: "deadlines b' = deadlines b" by (rule ext) (simp add: b'_def)
  have n: "0 < hp_n (timeheap b)" "hp_n (timeheap b) \<le> hp_a (timeheap b)"
    using mem heap_size_card [OF conjunct1 [OF t [unfolded timers_wf_def]]] card_gt_0_iff
      heap_inv_capacity [OF conjunct1 [OF t [unfolded timers_wf_def]]] by auto
  have room: "hp_n h < hp_a h" using min_heap_erase_size [OF h(1)] n by linarith
  have size: "int (hp_n h) = int (hp_n (timeheap b)) - 1"
    using heap_size_card [OF h(2)] heap_size_card [OF conjunct1 [OF t [unfolded timers_wf_def]]] h(3) mem
      card_Suc_Diff1 [of "heap_members (timeheap b)" e] by simp
  have "event_queue_remove e EVLIST_TIMEOUT b = Some b'"
    using on wf h(1) by (simp add: event_queue_remove_def b'_def Let_def)
  moreover have "core_wf b'"
    unfolding core_wf_def
  proof (intro conjI allI)
    show "timers_wf b'"
      using t h(2,3) unfolding timers_wf_def d by (auto simp: b'_def)
    show "inserted_wf b'" "active_wf b'" "deferred_wf b'"
      using wf by (auto simp: core_wf_def inserted_wf_def active_wf_def deferred_wf_def b'_def)
    show "counts_wf b'"
      using wf size by (simp add: core_wf_def counts_wf_def b'_def)
    show "activequeues b' \<noteq> []" using wf by (simp add: core_wf_def b'_def)
    show "event_wf (length (activequeues b')) (evs b' x)" for x
      using core_wf_event [OF wf, of x] on by (auto simp: event_wf_def b'_def)
  qed
  ultimately show ?thesis using h(3) room b'_def by blast
qed

lemma remove_inserted:
  assumes wf: "core_wf b" and on: "EVLIST_INSERTED \<in> flags b e"
  shows "\<exists>b'. event_queue_remove e EVLIST_INSERTED b = Some b' \<and> core_wf b' \<and>
     b' = set_ev e (ev_flags_update (\<lambda>fl. fl - {EVLIST_INSERTED}))
            (b\<lparr>event_count := event_count b - 1, eventqueue := remove1 e (eventqueue b)\<rparr>)"
proof -
  have q: "inserted_wf b" using wf by (simp add: core_wf_def)
  then have mem: "e \<in> set (eventqueue b)" using on by (simp add: inserted_wf_def)
  define b' where "b' = set_ev e (ev_flags_update (\<lambda>fl. fl - {EVLIST_INSERTED}))
            (b\<lparr>event_count := event_count b - 1, eventqueue := remove1 e (eventqueue b)\<rparr>)"
  have "event_queue_remove e EVLIST_INSERTED b = Some b'"
    using on wf mem by (simp add: event_queue_remove_def b'_def Let_def)
  moreover have "core_wf b'"
    unfolding core_wf_def
  proof (intro conjI allI)
    show "timers_wf b'" "active_wf b'" "deferred_wf b'"
      using wf by (auto simp: core_wf_def timers_wf_def active_wf_def deferred_wf_def b'_def)
    show "inserted_wf b'" using q by (auto simp: inserted_wf_def b'_def)
    show "counts_wf b'"
      using wf length_remove1_mem [OF mem] by (simp add: core_wf_def counts_wf_def b'_def)
    show "activequeues b' \<noteq> []" using wf by (simp add: core_wf_def b'_def)
    show "event_wf (length (activequeues b')) (evs b' x)" for x
      using core_wf_event [OF wf, of x] on by (auto simp: event_wf_def b'_def)
  qed
  ultimately show ?thesis using b'_def by blast
qed

lemma active_on_queue:
  assumes wf: "core_wf b" and on: "EVLIST_ACTIVE \<in> flags b e"
  shows "ev_pri (evs b e) < length (activequeues b)"
    "e \<in> set (activequeues b ! ev_pri (evs b e))"
proof -
  show p: "ev_pri (evs b e) < length (activequeues b)"
    using core_wf_event [OF wf, of e] on by (auto simp: event_wf_def)
  show "e \<in> set (activequeues b ! ev_pri (evs b e))"
    using wf on p by (auto simp: core_wf_def active_wf_def)
qed

lemma remove_active:
  assumes wf: "core_wf b" and on: "EVLIST_ACTIVE \<in> flags b e"
  shows "\<exists>b'. event_queue_remove e EVLIST_ACTIVE b = Some b' \<and> core_wf b' \<and>
     b' = set_ev e (ev_flags_update (\<lambda>fl. fl - {EVLIST_ACTIVE}))
            (b\<lparr>event_count := event_count b - 1, event_count_active := event_count_active b - 1,
               activequeues := (activequeues b)
                 [ev_pri (evs b e) := remove1 e (activequeues b ! ev_pri (evs b e))]\<rparr>)"
proof -
  let ?p = "ev_pri (evs b e)"
  note on' = active_on_queue [OF wf on]
  define b' where "b' = set_ev e (ev_flags_update (\<lambda>fl. fl - {EVLIST_ACTIVE}))
            (b\<lparr>event_count := event_count b - 1, event_count_active := event_count_active b - 1,
               activequeues := (activequeues b)[?p := remove1 e (activequeues b ! ?p)]\<rparr>)"
  have "event_queue_remove e EVLIST_ACTIVE b = Some b'"
    using on wf on' by (simp add: event_queue_remove_def b'_def Let_def)
  moreover have "core_wf b'"
    unfolding core_wf_def
  proof (intro conjI allI)
    show "timers_wf b'" "inserted_wf b'" "deferred_wf b'"
      using wf by (auto simp: core_wf_def timers_wf_def inserted_wf_def deferred_wf_def b'_def)
    show "active_wf b'"
      unfolding active_wf_def
    proof (intro allI impI)
      fix p assume p: "p < length (activequeues b')"
      then have "distinct (activequeues b ! p) \<and>
          set (activequeues b ! p) = {e. EVLIST_ACTIVE \<in> flags b e \<and> ev_pri (evs b e) = p}"
        using wf by (simp add: core_wf_def active_wf_def b'_def)
      then show "distinct (activequeues b' ! p) \<and>
          set (activequeues b' ! p) = {e. EVLIST_ACTIVE \<in> flags b' e \<and> ev_pri (evs b' e) = p}"
        using on'(1) by (cases "p = ?p") (auto simp: b'_def)
    qed
    have "length (remove1 e (activequeues b ! ?p)) + 1 = length (activequeues b ! ?p) + 0"
      using length_remove1_mem [OF on'(2)] by simp
    from sum_length_update [OF on'(1) this] show "counts_wf b'"
      using wf by (simp add: core_wf_def counts_wf_def b'_def)
    show "activequeues b' \<noteq> []" using wf by (simp add: core_wf_def b'_def)
    show "event_wf (length (activequeues b')) (evs b' x)" for x
      using core_wf_event [OF wf, of x] on by (auto simp: event_wf_def b'_def)
  qed
  ultimately show ?thesis using b'_def by blast
qed

lemma insert_timeout:
  assumes wf: "core_wf b" and off: "EVLIST_TIMEOUT \<notin> flags b e" and init: "EVLIST_INIT \<in> flags b e"
    and room: "alloc \<or> hp_n (timeheap b) < hp_a (timeheap b)"
  shows "\<exists>b'. event_queue_insert alloc e EVLIST_TIMEOUT b = Some b' \<and> core_wf b' \<and>
     (\<exists>h. b' = set_ev e (ev_flags_update (insert EVLIST_TIMEOUT))
                (b\<lparr>event_count := event_count b + 1, timeheap := h\<rparr>) \<and>
          heap_members h = insert e (heap_members (timeheap b)))"
proof -
  have t: "timers_wf b" using wf by (simp add: core_wf_def)
  then have mem: "e \<notin> heap_members (timeheap b)" using off by (simp add: timers_wf_def)
  obtain h where h: "min_heap_push alloc (deadlines b) (timeheap b) e = Some (0, h)"
    "heap_inv (deadlines b) h" "heap_members h = insert e (heap_members (timeheap b))"
    using min_heap_push_ok [OF conjunct1 [OF t [unfolded timers_wf_def]] mem room] by blast
  define b' where "b' = set_ev e (ev_flags_update (insert EVLIST_TIMEOUT))
                (b\<lparr>event_count := event_count b + 1, timeheap := h\<rparr>)"
  have d: "deadlines b' = deadlines b" by (simp add: b'_def)
  have size: "hp_n h = hp_n (timeheap b) + 1"
    using heap_size_card [OF h(2)] heap_size_card [OF conjunct1 [OF t [unfolded timers_wf_def]]] h(3) mem
    by simp
  have "event_queue_insert alloc e EVLIST_TIMEOUT b = Some b'"
    using off wf h(1) by (simp add: event_queue_insert_def b'_def Let_def)
  moreover have "core_wf b'"
    unfolding core_wf_def
  proof (intro conjI allI)
    show "timers_wf b'"
      using t h(2,3) unfolding timers_wf_def d by (auto simp: b'_def)
    show "inserted_wf b'" "active_wf b'" "deferred_wf b'"
      using wf by (auto simp: core_wf_def inserted_wf_def active_wf_def deferred_wf_def b'_def)
    show "counts_wf b'" using wf size by (simp add: core_wf_def counts_wf_def b'_def)
    show "activequeues b' \<noteq> []" using wf by (simp add: core_wf_def b'_def)
    show "event_wf (length (activequeues b')) (evs b' x)" for x
      using core_wf_event [OF wf, of x] init by (auto simp: event_wf_def b'_def)
  qed
  ultimately show ?thesis using h(3) b'_def by blast
qed

lemma insert_inserted:
  assumes wf: "core_wf b" and off: "EVLIST_INSERTED \<notin> flags b e" and init: "EVLIST_INIT \<in> flags b e"
    and rw: "ev_events (evs b e) \<inter> {EV_READ, EV_WRITE} \<noteq> {}"
  shows "\<exists>b'. event_queue_insert alloc e EVLIST_INSERTED b = Some b' \<and> core_wf b' \<and>
     b' = set_ev e (ev_flags_update (insert EVLIST_INSERTED))
            (b\<lparr>event_count := event_count b + 1, eventqueue := eventqueue b @ [e]\<rparr>)"
proof -
  have q: "inserted_wf b" using wf by (simp add: core_wf_def)
  define b' where "b' = set_ev e (ev_flags_update (insert EVLIST_INSERTED))
            (b\<lparr>event_count := event_count b + 1, eventqueue := eventqueue b @ [e]\<rparr>)"
  have "event_queue_insert alloc e EVLIST_INSERTED b = Some b'"
    using off wf by (simp add: event_queue_insert_def b'_def Let_def)
  moreover have "core_wf b'"
    unfolding core_wf_def
  proof (intro conjI allI)
    show "timers_wf b'" "active_wf b'" "deferred_wf b'"
      using wf by (auto simp: core_wf_def timers_wf_def active_wf_def deferred_wf_def b'_def)
    show "inserted_wf b'" using q off by (auto simp: inserted_wf_def b'_def)
    show "counts_wf b'" using wf by (simp add: core_wf_def counts_wf_def b'_def)
    show "activequeues b' \<noteq> []" using wf by (simp add: core_wf_def b'_def)
    show "event_wf (length (activequeues b')) (evs b' x)" for x
      using core_wf_event [OF wf, of x] init rw by (auto simp: event_wf_def b'_def)
  qed
  ultimately show ?thesis using b'_def by blast
qed

lemma insert_active:
  assumes wf: "core_wf b" and off: "EVLIST_ACTIVE \<notin> flags b e" and init: "EVLIST_INIT \<in> flags b e"
  shows "\<exists>b'. event_queue_insert alloc e EVLIST_ACTIVE b = Some b' \<and> core_wf b' \<and>
     b' = set_ev e (ev_flags_update (insert EVLIST_ACTIVE))
            (b\<lparr>event_count := event_count b + 1, event_count_active := event_count_active b + 1,
               activequeues := (activequeues b)
                 [ev_pri (evs b e) := activequeues b ! ev_pri (evs b e) @ [e]]\<rparr>)"
proof -
  let ?p = "ev_pri (evs b e)"
  have p: "?p < length (activequeues b)"
    using core_wf_event [OF wf, of e] init by (auto simp: event_wf_def)
  define b' where "b' = set_ev e (ev_flags_update (insert EVLIST_ACTIVE))
            (b\<lparr>event_count := event_count b + 1, event_count_active := event_count_active b + 1,
               activequeues := (activequeues b)[?p := activequeues b ! ?p @ [e]]\<rparr>)"
  have "event_queue_insert alloc e EVLIST_ACTIVE b = Some b'"
    using off wf p by (simp add: event_queue_insert_def b'_def Let_def)
  moreover have "core_wf b'"
    unfolding core_wf_def
  proof (intro conjI allI)
    show "timers_wf b'" "inserted_wf b'" "deferred_wf b'"
      using wf by (auto simp: core_wf_def timers_wf_def inserted_wf_def deferred_wf_def b'_def)
    show "active_wf b'"
      unfolding active_wf_def
    proof (intro allI impI)
      fix q assume q: "q < length (activequeues b')"
      then have "distinct (activequeues b ! q) \<and>
          set (activequeues b ! q) = {e. EVLIST_ACTIVE \<in> flags b e \<and> ev_pri (evs b e) = q}"
        using wf by (simp add: core_wf_def active_wf_def b'_def)
      then show "distinct (activequeues b' ! q) \<and>
          set (activequeues b' ! q) = {e. EVLIST_ACTIVE \<in> flags b' e \<and> ev_pri (evs b' e) = q}"
        using p off by (cases "q = ?p") (auto simp: b'_def)
    qed
    have "length (activequeues b ! ?p @ [e]) + 0 = length (activequeues b ! ?p) + 1" by simp
    from sum_length_update [OF p this] show "counts_wf b'"
      using wf by (simp add: core_wf_def counts_wf_def b'_def)
    show "activequeues b' \<noteq> []" using wf by (simp add: core_wf_def b'_def)
    show "event_wf (length (activequeues b')) (evs b' x)" for x
      using core_wf_event [OF wf, of x] init by (auto simp: event_wf_def b'_def)
  qed
  ultimately show ?thesis using b'_def by blast
qed

section \<open>The operations keep the invariant\<close>

text \<open>What no operation on events touches.\<close>

definition base_frame :: "('e, 'd, 'k) event_base \<Rightarrow> ('e, 'd, 'k) event_base \<Rightarrow> bool" where
  "base_frame b b' \<longleftrightarrow>
     defer_queue b' = defer_queue b \<and> active_count b' = active_count b \<and>
     dcb_queued b' = dcb_queued b \<and> tv_cache b' = tv_cache b \<and> clock b' = clock b \<and>
     event_tv b' = event_tv b \<and> event_running_priority b' = event_running_priority b \<and>
     event_break b' = event_break b \<and> event_gotterm b' = event_gotterm b \<and>
     running_loop b' = running_loop b \<and> use_monotonic b' = use_monotonic b \<and>
     virtual_event_count b' = virtual_event_count b \<and> ep_nevents b' = ep_nevents b \<and>
     length (activequeues b') = length (activequeues b)"

lemma base_frame_refl [simp]: "base_frame b b"
  by (simp add: base_frame_def)

lemma base_frame_trans: "base_frame b b' \<Longrightarrow> base_frame b' b'' \<Longrightarrow> base_frame b b''"
  by (simp add: base_frame_def)

text \<open>The table of descriptors only depends on what the events on it watch.\<close>

lemma evmap_inv_cong:
  assumes "evmap_inv f interest m k" "\<And>fd e. 0 \<le> fd \<Longrightarrow> e \<in> set (fd_events m fd) \<Longrightarrow> g e = f e"
  shows "evmap_inv g interest m k"
proof -
  have rw: "readers g es = readers f es \<and> writers g es = writers f es"
    if "\<And>e. e \<in> set es \<Longrightarrow> g e = f e" for es
    using that by (auto simp: readers_def writers_def intro!: arg_cong [where f = length] filter_cong)
  have ent: "readers g (io_events c) = readers f (io_events c) \<and>
      writers g (io_events c) = writers f (io_events c)" if "io_entries m slot = Some c" for slot c
  proof (rule rw)
    fix e assume "e \<in> set (io_events c)"
    then show "g e = f e" using assms(2) [of "int slot" e] that by (simp add: fd_events_def)
  qed
  have fds: "readers g (fd_events m fd) = readers f (fd_events m fd) \<and>
      writers g (fd_events m fd) = writers f (fd_events m fd)" if "0 \<le> fd" for fd
    using assms(2) that by (intro rw) blast
  show ?thesis
    using assms(1) ent fds unfolding evmap_inv_def by metis
qed

lemma io_wf_cong:
  assumes "io_wf interest b" "io b' = io b" "kern b' = kern b"
    and "\<And>e. ev_events (evs b' e) = ev_events (evs b e) \<and> ev_fd (evs b' e) = ev_fd (evs b e) \<and>
             (EVLIST_INSERTED \<in> flags b' e \<longleftrightarrow> EVLIST_INSERTED \<in> flags b e)"
  shows "io_wf interest b'"
  using assms by (simp add: io_wf_def)

lemma remove1_other_queues:
  assumes wf: "core_wf b" and on: "EVLIST_ACTIVE \<in> flags b e"
  shows "(activequeues b)[ev_pri (evs b e) := remove1 e (activequeues b ! ev_pri (evs b e))] =
         map (remove1 e) (activequeues b)"
proof (rule nth_equalityI)
  fix p assume "p < length ((activequeues b)
    [ev_pri (evs b e) := remove1 e (activequeues b ! ev_pri (evs b e))])"
  then have p: "p < length (activequeues b)" by simp
  have "remove1 e (activequeues b ! p) = activequeues b ! p" if "p \<noteq> ev_pri (evs b e)"
    using wf p that by (intro remove1_idem) (auto simp: core_wf_def active_wf_def)
  then show "(activequeues b)[ev_pri (evs b e) := remove1 e (activequeues b ! ev_pri (evs b e))] ! p =
      map (remove1 e) (activequeues b) ! p"
    using p by (cases "p = ev_pri (evs b e)") simp_all
qed simp

lemma remove1_not_active:
  assumes wf: "core_wf b" and off: "EVLIST_ACTIVE \<notin> flags b e"
  shows "map (remove1 e) (activequeues b) = activequeues b"
proof (rule nth_equalityI)
  fix p assume p: "p < length (map (remove1 e) (activequeues b))"
  then have "e \<notin> set (activequeues b ! p)"
    using wf off by (auto simp: core_wf_def active_wf_def)
  then show "map (remove1 e) (activequeues b) ! p = activequeues b ! p"
    using p by (simp add: remove1_idem)
qed simp

text \<open>A kernel that never refuses to change or drop what it watches.\<close>

definition epoll_steady :: "'k epoll_ctl \<Rightarrow> ('k \<Rightarrow> int \<rightharpoonup> epoll_ev set) \<Rightarrow> bool" where
  "epoll_steady ctl interest \<longleftrightarrow>
     (\<forall>oper fd evs k. oper \<noteq> EPOLL_CTL_ADD \<longrightarrow> interest k fd \<noteq> None \<longrightarrow> fst (ctl oper fd evs k) = None)"

lemma evmap_io_del_steady:
  assumes contract: "epoll_contract ctl interest" and steady: "epoll_steady ctl interest"
    and inv: "evmap_inv evf interest m k" and mem: "0 \<le> fd \<Longrightarrow> e \<in> set (fd_events m fd)"
    and del: "evmap_io_del ctl fd e (evf e) m k = Some (r, m', k')"
  shows "r \<noteq> -1"
proof (cases "fd < 0")
  case True
  then show ?thesis using del by (simp add: evmap_io_del_def)
next
  case False
  then have fd: "0 \<le> fd" by simp
  obtain c where c: "io_entries m (nat fd) = Some c" "e \<in> set (io_events c)"
    using mem [OF fd] fd by (cases "io_entries m (nat fd)") (simp_all add: fd_events_def)
  note rm = readers_writers_remove1 [OF c(2), of evf]
  have c': "nread c = readers evf (io_events c)" "nwrite c = writers evf (io_events c)"
    "nat fd < nentries m" "fd_events m fd = io_events c"
    using inv c fd by (auto simp: evmap_inv_def fd_events_def)
  have watch: "interest k fd \<noteq> None" if "EV_READ \<in> evf e \<or> EV_WRITE \<in> evf e"
  proof -
    have "epoll_bits (nread c) (nwrite c) \<noteq> None"
      using that rm(3,4) c' by (auto simp: epoll_bits_def)
    moreover have "inout (interest k fd) = epoll_bits (nread c) (nwrite c)"
      using inv fd c' by (simp add: evmap_inv_def)
    ultimately show ?thesis by auto
  qed
  have call: "fst (epoll_nochangelist_del ctl fd old res k) \<noteq> -1"
    if "res \<subseteq> {EV_READ, EV_WRITE}" "interest k fd \<noteq> None" for old res
  proof -
    define ch where "ch = \<lparr>ch_fd = fd, old_events = old,
        read_change = (if EV_READ \<in> res then {EV_CHANGE_DEL} else {}),
        write_change = (if EV_WRITE \<in> res then {EV_CHANGE_DEL} else {})\<rparr>"
    obtain oper evs where ch': "epoll_change_op ch = (oper, evs)" by fastforce
    have "evs = {} \<or> oper \<noteq> EPOLL_CTL_ADD"
      using ch' by (auto simp: ch_def epoll_change_op_def Let_def split: if_splits)
    moreover have "fst (ctl oper fd evs k) = None" if "oper \<noteq> EPOLL_CTL_ADD"
      using steady that \<open>interest k fd \<noteq> None\<close> unfolding epoll_steady_def by blast
    ultimately have "fst (epoll_apply_one_change ctl ch k) \<noteq> -1"
      using ch' by (cases "ctl oper fd evs k") (auto simp: epoll_apply_one_change_def ch_def)
    then show ?thesis by (simp add: epoll_nochangelist_del_def ch_def)
  qed
  define res where "res =
    (if EV_READ \<in> evf e \<and> (if EV_READ \<in> evf e then nread c - 1 else nread c) = 0 then {EV_READ} else {}) \<union>
    (if EV_WRITE \<in> evf e \<and> (if EV_WRITE \<in> evf e then nwrite c - 1 else nwrite c) = 0 then {EV_WRITE} else {})"
  define ctl_res where "ctl_res =
    (if res \<noteq> {} then epoll_nochangelist_del ctl fd (io_old (nread c) (nwrite c)) res k else (0, k))"
  have "res \<subseteq> {EV_READ, EV_WRITE}" "res \<noteq> {} \<Longrightarrow> EV_READ \<in> evf e \<or> EV_WRITE \<in> evf e"
    by (auto simp: res_def split: if_splits)
  then have q: "fst ctl_res \<noteq> -1" using call watch by (simp add: ctl_res_def)
  have mem': "e \<in> set (fd_events m fd)" using mem [OF fd] .
  show ?thesis
    using del q unfolding evmap_io_del_eq [OF inv fd mem' c(1)] Let_def ctl_res_def res_def
    by (auto split: prod.splits if_split_asm)
qed

text \<open>\<^verbatim>\<open>event_del\<close>: the event leaves every queue, everything else stays.\<close>

definition event_deleted :: "'e \<Rightarrow> ('e, 'd, 'k) event_base \<Rightarrow> ('e, 'd, 'k) event_base \<Rightarrow> bool" where
  "event_deleted e b b' \<longleftrightarrow>
     evs b' = (evs b)(e := (evs b e)
       \<lparr>ev_flags := flags b e - {EVLIST_TIMEOUT, EVLIST_INSERTED, EVLIST_ACTIVE}\<rparr>) \<and>
     heap_members (timeheap b') = heap_members (timeheap b) - {e} \<and>
     eventqueue b' = remove1 e (eventqueue b) \<and>
     activequeues b' = map (remove1 e) (activequeues b) \<and>
     event_continue b' = event_continue b \<and> base_frame b b'"

lemma take_off_timeout:
  assumes wf: "core_wf b"
  shows "\<exists>b'. (if EVLIST_TIMEOUT \<in> flags b e then event_queue_remove e EVLIST_TIMEOUT b else Some b) = Some b' \<and>
    core_wf b' \<and> io b' = io b \<and> kern b' = kern b \<and>
    evs b' = (evs b)(e := (evs b e)\<lparr>ev_flags := flags b e - {EVLIST_TIMEOUT}\<rparr>) \<and>
    heap_members (timeheap b') = heap_members (timeheap b) - {e} \<and>
    eventqueue b' = eventqueue b \<and> activequeues b' = activequeues b \<and>
    event_continue b' = event_continue b \<and> base_frame b b' \<and>
    (EVLIST_TIMEOUT \<in> flags b e \<longrightarrow> hp_n (timeheap b') < hp_a (timeheap b')) \<and>
    (EVLIST_TIMEOUT \<notin> flags b e \<longrightarrow> timeheap b' = timeheap b)"
proof (cases "EVLIST_TIMEOUT \<in> flags b e")
  case True
  obtain b' h where b': "event_queue_remove e EVLIST_TIMEOUT b = Some b'" "core_wf b'"
    "b' = set_ev e (ev_flags_update (\<lambda>fl. fl - {EVLIST_TIMEOUT}))
                (b\<lparr>event_count := event_count b - 1, timeheap := h\<rparr>)"
    "heap_members h = heap_members (timeheap b) - {e} \<and> hp_n h < hp_a h"
    using remove_timeout [OF wf True] by blast
  have "evs b' = (evs b)(e := (evs b e)\<lparr>ev_flags := flags b e - {EVLIST_TIMEOUT}\<rparr>)"
    by (cases "evs b e") (simp add: b'(3) set_ev_def)
  moreover have "base_frame b b'" "io b' = io b \<and> kern b' = kern b \<and> eventqueue b' = eventqueue b \<and>
    activequeues b' = activequeues b \<and> event_continue b' = event_continue b \<and> timeheap b' = h"
    by (simp_all add: b'(3) base_frame_def set_ev_def)
  ultimately show ?thesis using True b'(1,2,4) by simp
next
  case False
  have "(evs b e)\<lparr>ev_flags := flags b e - {EVLIST_TIMEOUT}\<rparr> = evs b e" using False by simp
  moreover have "e \<notin> heap_members (timeheap b)"
    using wf False by (simp add: core_wf_def timers_wf_def)
  ultimately show ?thesis using wf False by simp
qed

lemma take_off_active:
  assumes wf: "core_wf b"
  shows "\<exists>b'. (if EVLIST_ACTIVE \<in> flags b e then event_queue_remove e EVLIST_ACTIVE b else Some b) = Some b' \<and>
    core_wf b' \<and> io b' = io b \<and> kern b' = kern b \<and>
    evs b' = (evs b)(e := (evs b e)\<lparr>ev_flags := flags b e - {EVLIST_ACTIVE}\<rparr>) \<and>
    timeheap b' = timeheap b \<and> eventqueue b' = eventqueue b \<and>
    activequeues b' = map (remove1 e) (activequeues b) \<and>
    event_continue b' = event_continue b \<and> base_frame b b'"
proof (cases "EVLIST_ACTIVE \<in> flags b e")
  case True
  define b' where
    "b' = set_ev e (ev_flags_update (\<lambda>fl. fl - {EVLIST_ACTIVE}))
            (b\<lparr>event_count := event_count b - 1, event_count_active := event_count_active b - 1,
               activequeues := map (remove1 e) (activequeues b)\<rparr>)"
  have b': "event_queue_remove e EVLIST_ACTIVE b = Some b'" "core_wf b'"
    using remove_active [OF wf True] unfolding remove1_other_queues [OF wf True] b'_def by auto
  have "evs b' = (evs b)(e := (evs b e)\<lparr>ev_flags := flags b e - {EVLIST_ACTIVE}\<rparr>)"
    by (cases "evs b e") (simp add: b'_def set_ev_def)
  moreover have "base_frame b b'" by (simp add: b'_def base_frame_def set_ev_def)
  ultimately show ?thesis using True b' by (simp add: b'_def)
next
  case False
  have "(evs b e)\<lparr>ev_flags := flags b e - {EVLIST_ACTIVE}\<rparr> = evs b e" using False by simp
  then show ?thesis using wf False remove1_not_active [OF wf False] by simp
qed

lemma event_del_ok:
  assumes contract: "epoll_contract ctl interest" and steady: "epoll_steady ctl interest"
    and wf: "base_wf interest b"
  shows "\<exists>b'. event_del_internal ctl e b = Some (0, b') \<and> base_wf interest b' \<and> event_deleted e b b'"
proof -
  have core: "core_wf b" and iow: "io_wf interest b" using wf by (simp_all add: base_wf_def)
  obtain b1 where b1: "(if EVLIST_TIMEOUT \<in> flags b e then event_queue_remove e EVLIST_TIMEOUT b else Some b) = Some b1"
    "core_wf b1" "io b1 = io b" "kern b1 = kern b"
    "evs b1 = (evs b)(e := (evs b e)\<lparr>ev_flags := flags b e - {EVLIST_TIMEOUT}\<rparr>)"
    "heap_members (timeheap b1) = heap_members (timeheap b) - {e}"
    "eventqueue b1 = eventqueue b" "activequeues b1 = activequeues b"
    "event_continue b1 = event_continue b" "base_frame b b1"
    using take_off_timeout [OF core, of e] by blast
  obtain b2 where b2: "(if EVLIST_ACTIVE \<in> flags b1 e then event_queue_remove e EVLIST_ACTIVE b1 else Some b1) = Some b2"
    "core_wf b2" "io b2 = io b1" "kern b2 = kern b1"
    "evs b2 = (evs b1)(e := (evs b1 e)\<lparr>ev_flags := flags b1 e - {EVLIST_ACTIVE}\<rparr>)"
    "timeheap b2 = timeheap b1" "eventqueue b2 = eventqueue b1"
    "activequeues b2 = map (remove1 e) (activequeues b1)"
    "event_continue b2 = event_continue b1" "base_frame b1 b2"
    using take_off_active [OF b1(2), of e] by blast
  have evs2: "evs b2 = (evs b)(e := (evs b e)\<lparr>ev_flags := flags b e - {EVLIST_TIMEOUT, EVLIST_ACTIVE}\<rparr>)"
  proof -
    have "flags b e - {EVLIST_TIMEOUT, EVLIST_ACTIVE} = flags b e - {EVLIST_TIMEOUT} - {EVLIST_ACTIVE}"
      by blast
    then show ?thesis unfolding b2(5) b1(5) by simp
  qed
  have frame2: "base_frame b b2" using base_frame_trans [OF b1(10) b2(10)] .
  have iow2: "io_wf interest b2"
    by (rule io_wf_cong [OF iow]) (simp_all add: b1 b2(3,4) evs2)
  show ?thesis
  proof (cases "EVLIST_INSERTED \<in> flags b e")
    case False
    have "event_del_internal ctl e b = Some (0, b2)"
      using b1(1) b2(1) False by (simp add: event_del_internal_def evs2)
    moreover have "base_wf interest b2" using b2(2) iow2 by (simp add: base_wf_def)
    moreover have "event_deleted e b b2"
    proof -
      have "e \<notin> set (eventqueue b)" using core False by (simp add: core_wf_def inserted_wf_def)
      moreover have "flags b e - {EVLIST_TIMEOUT, EVLIST_ACTIVE} =
          flags b e - {EVLIST_TIMEOUT, EVLIST_INSERTED, EVLIST_ACTIVE}" using False by auto
      ultimately show ?thesis
        using frame2 by (simp add: event_deleted_def evs2 b1 b2(6-9) remove1_idem)
    qed
    ultimately show ?thesis by blast
  next
    case True
    then have ins: "EVLIST_INSERTED \<in> flags b2 e" by (simp add: evs2)
    define b3 where "b3 = set_ev e (ev_flags_update (\<lambda>fl. fl - {EVLIST_INSERTED}))
            (b2\<lparr>event_count := event_count b2 - 1, eventqueue := remove1 e (eventqueue b2)\<rparr>)"
    have b3: "event_queue_remove e EVLIST_INSERTED b2 = Some b3" "core_wf b3"
      using remove_inserted [OF b2(2) ins] b3_def by auto
    have rw: "ev_events (evs b e) \<inter> {EV_READ, EV_WRITE} \<noteq> {}"
      using core_wf_event [OF core, of e] True by (simp add: event_wf_def)
    let ?evf = "\<lambda>x. ev_events (evs b2 x)" and ?fd = "ev_fd (evs b e)"
    have inv2: "evmap_inv ?evf interest (io b2) (kern b2)" using iow2 by (simp add: io_wf_def)
    have mem: "0 \<le> ?fd \<Longrightarrow> e \<in> set (fd_events (io b2) ?fd)"
      using iow2 ins by (simp add: io_wf_def evs2)
    obtain r m k where del: "evmap_io_del ctl ?fd e (?evf e) (io b2) (kern b2) = Some (r, m, k)"
      "evmap_inv ?evf interest m k"
      "r = -1 \<and> m = io b2 \<and> interest k = interest (kern b2) \<or>
       (r = 0 \<or> r = 1) \<and> fd_events m = (if ?fd < 0 then fd_events (io b2)
           else (fd_events (io b2))(?fd := remove1 e (fd_events (io b2) ?fd)))"
      using evmap_io_del_ok [OF contract inv2 mem] by blast
    have r: "r = 0 \<or> r = 1"
      using evmap_io_del_steady [OF contract steady inv2 mem del(1)] del(3) by auto
    have fds: "fd_events m = (if ?fd < 0 then fd_events (io b2)
           else (fd_events (io b2))(?fd := remove1 e (fd_events (io b2) ?fd)))"
      using del(3) r by auto
    define b4 where "b4 = b3\<lparr>io := m, kern := k\<rparr>"
    have "event_del_internal ctl e b = Some (0, b4)"
      using b1(1) b2(1) ins b3(1) rw del(1) r
      by (auto simp: event_del_internal_def b4_def b3_def evs2)
    moreover have core4: "core_wf b4"
      using b3(2) by (simp add: core_wf_def timers_wf_def inserted_wf_def active_wf_def counts_wf_def
          deferred_wf_def b4_def)
    moreover have "io_wf interest b4"
      unfolding io_wf_def
    proof (intro conjI allI impI)
      show "evmap_inv (\<lambda>x. ev_events (evs b4 x)) interest (io b4) (kern b4)"
        by (rule evmap_inv_cong [of ?evf]) (simp_all add: b4_def b3_def del(2))
      fix fd :: int assume fd: "0 \<le> fd"
      have now: "distinct (fd_events (io b2) fd)"
        "set (fd_events (io b2) fd) = {x. EVLIST_INSERTED \<in> flags b2 x \<and> ev_fd (evs b2 x) = fd}"
        using iow2 fd by (simp_all add: io_wf_def)
      show "distinct (fd_events (io b4) fd)"
        using now(1) by (auto simp: b4_def fds)
      show "set (fd_events (io b4) fd) = {x. EVLIST_INSERTED \<in> flags b4 x \<and> ev_fd (evs b4 x) = fd}"
        using now fd by (auto simp: b4_def b3_def fds evs2)
    qed
    moreover have "event_deleted e b b4"
    proof -
      have "evs b4 = (evs b)(e := (evs b e)
          \<lparr>ev_flags := flags b e - {EVLIST_TIMEOUT, EVLIST_INSERTED, EVLIST_ACTIVE}\<rparr>)"
        by (rule ext, cases "evs b e") (auto simp: b4_def b3_def evs2)
      moreover have "base_frame b b4"
        using frame2 by (simp add: base_frame_def b4_def b3_def set_ev_def)
      ultimately show ?thesis
        by (simp add: event_deleted_def b4_def b3_def b1 b2(6-9))
    qed
    ultimately show ?thesis by (auto simp: base_wf_def)
  qed
qed

text \<open>\<^verbatim>\<open>event_active\<close>: the event is active with the result added, at the end of its queue.\<close>

definition event_activated :: "'e \<Rightarrow> ev_what set \<Rightarrow> ('e, 'd, 'k) event_base \<Rightarrow> ('e, 'd, 'k) event_base \<Rightarrow> bool" where
  "event_activated e res b b' \<longleftrightarrow>
     evs b' = (evs b)(e := (evs b e)
       \<lparr>ev_flags := insert EVLIST_ACTIVE (flags b e),
        ev_res := (if EVLIST_ACTIVE \<in> flags b e then ev_res (evs b e) \<union> res else res)\<rparr>) \<and>
     timeheap b' = timeheap b \<and> eventqueue b' = eventqueue b \<and>
     activequeues b' =
       (if EVLIST_ACTIVE \<in> flags b e then activequeues b
        else (activequeues b)[ev_pri (evs b e) := activequeues b ! ev_pri (evs b e) @ [e]]) \<and>
     io b' = io b \<and> kern b' = kern b \<and> base_frame b b'"

text \<open>The queues only depend on the queue bits of the events, and on the deadlines of those in the heap.\<close>

lemma core_wf_evs:
  assumes wf: "core_wf b"
    and same: "timeheap b' = timeheap b" "eventqueue b' = eventqueue b" "activequeues b' = activequeues b"
      "event_count b' = event_count b" "event_count_active b' = event_count_active b"
      "defer_queue b' = defer_queue b" "active_count b' = active_count b" "dcb_queued b' = dcb_queued b"
    and bits: "\<And>x. (EVLIST_TIMEOUT \<in> flags b' x \<longleftrightarrow> EVLIST_TIMEOUT \<in> flags b x) \<and>
      (EVLIST_INSERTED \<in> flags b' x \<longleftrightarrow> EVLIST_INSERTED \<in> flags b x) \<and>
      (EVLIST_ACTIVE \<in> flags b' x \<longleftrightarrow> EVLIST_ACTIVE \<in> flags b x)"
    and pri: "\<And>x. EVLIST_ACTIVE \<in> flags b x \<Longrightarrow> ev_pri (evs b' x) = ev_pri (evs b x)"
    and deadline: "\<And>x. EVLIST_TIMEOUT \<in> flags b x \<Longrightarrow> ev_timeout (evs b' x) = ev_timeout (evs b x)"
    and ev: "\<And>x. event_wf (length (activequeues b)) (evs b' x)"
  shows "core_wf b'"
proof -
  have "heap_inv (deadlines b') (timeheap b)"
  proof (rule heap_inv_cong)
    show "heap_inv (deadlines b) (timeheap b)" using wf by (simp add: core_wf_def timers_wf_def)
    show "deadlines b' x = deadlines b x" if "x \<in> heap_members (timeheap b)" for x
      using wf that deadline by (simp add: core_wf_def timers_wf_def deadlines_def)
  qed
  moreover have "{x. EVLIST_ACTIVE \<in> flags b' x \<and> ev_pri (evs b' x) = p} =
      {x. EVLIST_ACTIVE \<in> flags b x \<and> ev_pri (evs b x) = p}" for p
    using bits pri by auto
  ultimately show ?thesis
    using wf same bits ev
    unfolding core_wf_def timers_wf_def inserted_wf_def active_wf_def counts_wf_def deferred_wf_def
    by simp
qed

lemma core_wf_res:
  assumes "core_wf b"
  shows "core_wf (set_ev e (ev_res_update g) b)"
  by (rule core_wf_evs [OF assms]) (use core_wf_event [OF assms] in \<open>simp_all add: event_wf_def\<close>)

lemma core_wf_continue: "core_wf (b\<lparr>event_continue := c\<rparr>) = core_wf b"
  by (simp add: core_wf_def timers_wf_def inserted_wf_def active_wf_def counts_wf_def deferred_wf_def)

lemma event_active_ok:
  assumes wf: "base_wf interest b" and init: "EVLIST_INIT \<in> flags b e"
  shows "\<exists>b'. event_active_nolock e res b = Some b' \<and> base_wf interest b' \<and> event_activated e res b b'"
proof -
  have core: "core_wf b" and iow: "io_wf interest b" using wf by (simp_all add: base_wf_def)
  show ?thesis
  proof (cases "EVLIST_ACTIVE \<in> flags b e")
    case True
    define b' where "b' = set_ev e (ev_res_update (\<lambda>r. r \<union> res)) b"
    have "event_active_nolock e res b = Some b'"
      using True by (simp add: event_active_nolock_def b'_def)
    moreover have "core_wf b'" unfolding b'_def by (rule core_wf_res [OF core])
    moreover have "io_wf interest b'" by (rule io_wf_cong [OF iow]) (simp_all add: b'_def)
    moreover have "event_activated e res b b'"
      using True by (cases "evs b e")
        (simp add: event_activated_def b'_def base_frame_def set_ev_def insert_absorb)
    ultimately show ?thesis by (auto simp: base_wf_def)
  next
    case False
    define b1 where "b1 = set_ev e (ev_res_update (\<lambda>_. res)) b"
    define b2 where "b2 = (if int (ev_pri (evs b1 e)) < event_running_priority b1
                           then b1\<lparr>event_continue := True\<rparr> else b1)"
    have core1: "core_wf b1" unfolding b1_def by (rule core_wf_res [OF core])
    then have core2: "core_wf b2" by (simp add: b2_def core_wf_continue)
    have evs2: "evs b2 = evs b1" by (simp add: b2_def)
    have off: "EVLIST_ACTIVE \<notin> flags b2 e" "EVLIST_INIT \<in> flags b2 e"
      using False init by (simp_all add: evs2 b1_def)
    define b3 where "b3 = set_ev e (ev_flags_update (insert EVLIST_ACTIVE))
            (b2\<lparr>event_count := event_count b2 + 1, event_count_active := event_count_active b2 + 1,
               activequeues := (activequeues b2)
                 [ev_pri (evs b2 e) := activequeues b2 ! ev_pri (evs b2 e) @ [e]]\<rparr>)"
    have b3: "event_queue_insert True e EVLIST_ACTIVE b2 = Some b3" "core_wf b3"
      using insert_active [OF core2 off] b3_def by auto
    have "event_active_nolock e res b = Some b3"
      using False b3(1) unfolding event_active_nolock_def b2_def b1_def Let_def by simp
    moreover have same: "io b3 = io b" "kern b3 = kern b" "timeheap b3 = timeheap b" "eventqueue b3 = eventqueue b"
      by (simp_all add: b3_def b2_def b1_def)
    moreover have evs3: "evs b3 = (evs b)(e := (evs b e)
       \<lparr>ev_flags := insert EVLIST_ACTIVE (flags b e), ev_res := res\<rparr>)"
      by (rule ext, cases "evs b e") (simp add: b3_def evs2 b1_def)
    moreover have "io_wf interest b3"
      by (rule io_wf_cong [OF iow]) (simp_all add: same evs3)
    moreover have "base_frame b b3"
      by (simp add: base_frame_def b3_def b2_def b1_def set_ev_def)
    moreover have "activequeues b3 =
        (activequeues b)[ev_pri (evs b e) := activequeues b ! ev_pri (evs b e) @ [e]]"
      by (simp add: b3_def b2_def b1_def)
    ultimately show ?thesis using b3(2) False by (auto simp: base_wf_def event_activated_def)
  qed
qed

text \<open>Deferred callbacks are queued once.\<close>

lemma core_wf_deferred:
  assumes "core_wf b" "distinct q" "n = int (length q)" "\<And>d. f d \<longleftrightarrow> d \<in> set q"
  shows "core_wf (b\<lparr>defer_queue := q, active_count := n, dcb_queued := f\<rparr>)"
  using assms
  by (simp add: core_wf_def timers_wf_def inserted_wf_def active_wf_def counts_wf_def deferred_wf_def)

lemma io_wf_deferred:
  "io_wf interest (b\<lparr>defer_queue := q, active_count := n, dcb_queued := f\<rparr>) = io_wf interest b"
  by (simp add: io_wf_def)

lemma defer_update_commute:
  "b\<lparr>dcb_queued := f, defer_queue := q, active_count := n\<rparr> =
   b\<lparr>defer_queue := q, active_count := n, dcb_queued := f\<rparr>"
  by simp

lemma event_deferred_cb_schedule_ok:
  assumes "base_wf interest b"
  shows "base_wf interest (event_deferred_cb_schedule d b)"
    "set (defer_queue (event_deferred_cb_schedule d b)) = insert d (set (defer_queue b))"
proof -
  have def: "deferred_wf b" using assms by (simp add: base_wf_def core_wf_def)
  show "base_wf interest (event_deferred_cb_schedule d b)"
  proof (cases "dcb_queued b d")
    case False
    then have "event_deferred_cb_schedule d b =
      b\<lparr>defer_queue := defer_queue b @ [d], active_count := active_count b + 1,
        dcb_queued := (dcb_queued b)(d := True)\<rparr>"
      by (simp add: event_deferred_cb_schedule_def)
    then show ?thesis
      using assms def False by (simp add: base_wf_def io_wf_deferred core_wf_deferred deferred_wf_def)
  qed (use assms in \<open>simp add: event_deferred_cb_schedule_def\<close>)
  show "set (defer_queue (event_deferred_cb_schedule d b)) = insert d (set (defer_queue b))"
    using def by (auto simp: event_deferred_cb_schedule_def deferred_wf_def)
qed

lemma event_deferred_cb_cancel_ok:
  assumes "base_wf interest b"
  shows "\<exists>b'. event_deferred_cb_cancel d b = Some b' \<and> base_wf interest b' \<and>
    set (defer_queue b') = set (defer_queue b) - {d}"
proof (cases "dcb_queued b d")
  case True
  have def: "deferred_wf b" using assms by (simp add: base_wf_def core_wf_def)
  then have mem: "d \<in> set (defer_queue b)" using True by (simp add: deferred_wf_def)
  define b' where "b' = b\<lparr>defer_queue := remove1 d (defer_queue b), active_count := active_count b - 1,
                        dcb_queued := (dcb_queued b)(d := False)\<rparr>"
  have "event_deferred_cb_cancel d b = Some b'"
    using True mem by (simp add: event_deferred_cb_cancel_def b'_def)
  moreover have "base_wf interest b'"
    using assms def length_remove1_mem [OF mem]
    by (auto simp: b'_def base_wf_def io_wf_deferred deferred_wf_def split: if_splits intro!: core_wf_deferred)
  moreover have "set (defer_queue b') = set (defer_queue b) - {d}"
    using def by (simp add: b'_def deferred_wf_def)
  ultimately show ?thesis by blast
next
  case False
  then show ?thesis
    using assms by (auto simp: event_deferred_cb_cancel_def base_wf_def core_wf_def deferred_wf_def)
qed

text \<open>\<^verbatim>\<open>event_assign\<close> and \<^verbatim>\<open>event_free\<close>.\<close>

lemma event_assign_ok:
  assumes wf: "base_wf interest b" and free: "flags b e \<inter> {EVLIST_TIMEOUT, EVLIST_INSERTED, EVLIST_ACTIVE} = {}"
  shows "base_wf interest (event_assign e fd events b)"
    "\<And>x. x \<noteq> e \<Longrightarrow> evs (event_assign e fd events b) x = evs b x"
    "flags (event_assign e fd events b) e = {EVLIST_INIT}"
    "base_frame b (event_assign e fd events b)"
proof -
  let ?b = "event_assign e fd events b"
  have core: "core_wf b" and iow: "io_wf interest b" using wf by (simp_all add: base_wf_def)
  have n: "activequeues b \<noteq> []" using core by (simp add: core_wf_def)
  have heap: "timeheap ?b = timeheap b"
  proof -
    have "e \<notin> heap_members (timeheap b)" using core free by (auto simp: core_wf_def timers_wf_def)
    then have "(hp_idx (timeheap b))(e := -1) = hp_idx (timeheap b)"
      by (auto simp: heap_members_def)
    then have "min_heap_elem_init e (timeheap b) = timeheap b" by (simp add: min_heap_elem_init_def)
    then show ?thesis by (simp add: event_assign_def Let_def)
  qed
  have same: "eventqueue ?b = eventqueue b" "activequeues ?b = activequeues b" "event_count ?b = event_count b"
    "event_count_active ?b = event_count_active b" "defer_queue ?b = defer_queue b"
    "active_count ?b = active_count b" "dcb_queued ?b = dcb_queued b" "io ?b = io b" "kern ?b = kern b"
    by (simp_all add: event_assign_def Let_def)
  show other: "evs ?b x = evs b x" if "x \<noteq> e" for x
    using that by (simp add: event_assign_def Let_def)
  have here: "flags ?b e = {EVLIST_INIT}" "ev_events (evs ?b e) = events" "ev_fd (evs ?b e) = fd"
    "ev_pri (evs ?b e) = length (activequeues b) div 2"
    "ev_closure (evs ?b e) = (if EV_PERSIST \<in> events then EV_CLOSURE_PERSIST else EV_CLOSURE_NONE)"
    by (simp_all add: event_assign_def Let_def)
  show "flags ?b e = {EVLIST_INIT}" by (rule here)
  have ev: "event_wf (length (activequeues b)) (evs ?b x)" for x
    using core_wf_event [OF core, of x] other here n by (cases "x = e") (auto simp: event_wf_def)
  have bits: "(EVLIST_TIMEOUT \<in> flags ?b x \<longleftrightarrow> EVLIST_TIMEOUT \<in> flags b x) \<and>
      (EVLIST_INSERTED \<in> flags ?b x \<longleftrightarrow> EVLIST_INSERTED \<in> flags b x) \<and>
      (EVLIST_ACTIVE \<in> flags ?b x \<longleftrightarrow> EVLIST_ACTIVE \<in> flags b x)" for x
    using free other here by (cases "x = e") auto
  have "ev_pri (evs ?b x) = ev_pri (evs b x)" if "EVLIST_ACTIVE \<in> flags b x" for x
    using that free other by (cases "x = e") auto
  moreover have "ev_timeout (evs ?b x) = ev_timeout (evs b x)" if "EVLIST_TIMEOUT \<in> flags b x" for x
    using that free other by (cases "x = e") auto
  ultimately have "core_wf ?b"
    using core_wf_evs [OF core heap same(1-7) bits _ _ ev] by blast
  moreover have "io_wf interest ?b"
    unfolding io_wf_def same
  proof (intro conjI allI impI)
    have on: "x \<noteq> e" if "0 \<le> f" "x \<in> set (fd_events (io b) f)" for x f
      using iow that free by (auto simp: io_wf_def)
    show "evmap_inv (\<lambda>x. ev_events (evs ?b x)) interest (io b) (kern b)"
      by (rule evmap_inv_cong [of "\<lambda>x. ev_events (evs b x)"])
         (use iow on other in \<open>simp_all add: io_wf_def\<close>)
    fix f :: int assume f: "0 \<le> f"
    then show "distinct (fd_events (io b) f)" using iow by (simp add: io_wf_def)
    have "{x. EVLIST_INSERTED \<in> flags ?b x \<and> ev_fd (evs ?b x) = f} =
        {x. EVLIST_INSERTED \<in> flags b x \<and> ev_fd (evs b x) = f}"
      using bits other free by (intro Collect_cong) (metis disjoint_insert(2))
    then show "set (fd_events (io b) f) = {x. EVLIST_INSERTED \<in> flags ?b x \<and> ev_fd (evs ?b x) = f}"
      using iow f by (simp add: io_wf_def)
  qed
  ultimately show "base_wf interest ?b" by (simp add: base_wf_def)
  show "base_frame b ?b" by (simp add: base_frame_def event_assign_def Let_def set_ev_def)
qed

lemma event_free_ok:
  assumes contract: "epoll_contract ctl interest" and steady: "epoll_steady ctl interest"
    and wf: "base_wf interest b"
  shows "\<exists>b'. event_free_ev ctl e b = Some b' \<and> base_wf interest b' \<and> flags b' e = {} \<and>
    (\<forall>x. x \<noteq> e \<longrightarrow> evs b' x = evs b x) \<and> base_frame b b'"
proof -
  obtain b1 where b1: "event_del_internal ctl e b = Some (0, b1)" "base_wf interest b1" "event_deleted e b b1"
    using event_del_ok [OF contract steady wf] by blast
  define b2 where "b2 = set_ev e (ev_flags_update (\<lambda>_. {})) b1"
  have core: "core_wf b1" and iow: "io_wf interest b1" using b1(2) by (simp_all add: base_wf_def)
  have off: "flags b1 e \<inter> {EVLIST_TIMEOUT, EVLIST_INSERTED, EVLIST_ACTIVE} = {}"
    using b1(3) by (auto simp: event_deleted_def)
  have "core_wf b2"
    by (rule core_wf_evs [OF core])
       (use off core_wf_event [OF core] in \<open>auto simp: b2_def event_wf_def\<close>)
  moreover have "io_wf interest b2"
    by (rule io_wf_cong [OF iow]) (use off in \<open>auto simp: b2_def\<close>)
  moreover have "\<forall>x. x \<noteq> e \<longrightarrow> evs b2 x = evs b x" using b1(3) by (simp add: event_deleted_def b2_def)
  moreover have "base_frame b b2"
    using b1(3) by (simp add: event_deleted_def b2_def base_frame_def set_ev_def)
  ultimately show ?thesis
    using b1(1) by (auto simp: event_free_ev_def b2_def base_wf_def)
qed

text \<open>\<^verbatim>\<open>event_add\<close>.\<close>

lemma core_wf_heap:
  assumes wf: "core_wf b" and h: "heap_inv (deadlines b) h" "heap_members h = heap_members (timeheap b)"
    "hp_n h = hp_n (timeheap b)"
  shows "core_wf (b\<lparr>timeheap := h\<rparr>)"
  using assms
  by (simp add: core_wf_def timers_wf_def inserted_wf_def active_wf_def counts_wf_def deferred_wf_def)

lemma core_wf_io [simp]: "core_wf (b\<lparr>io := m, kern := k\<rparr>) = core_wf b"
  by (simp add: core_wf_def timers_wf_def inserted_wf_def active_wf_def counts_wf_def deferred_wf_def)

text \<open>Where an event is, and the fields no operation touches.\<close>

definition same_queues :: "('e, 'd, 'k) event_base \<Rightarrow> ('e, 'd, 'k) event_base \<Rightarrow> bool" where
  "same_queues b b' \<longleftrightarrow>
     heap_members (timeheap b') = heap_members (timeheap b) \<and> eventqueue b' = eventqueue b \<and>
     activequeues b' = activequeues b \<and> event_continue b' = event_continue b \<and> base_frame b b'"

definition wants_io :: "event_s \<Rightarrow> bool" where
  "wants_io s \<longleftrightarrow> ev_events s \<inter> {EV_READ, EV_WRITE} \<noteq> {} \<and>
     ev_flags s \<inter> {EVLIST_INSERTED, EVLIST_ACTIVE} = {}"

lemma event_add_io_ok:
  assumes contract: "epoll_contract ctl interest" and wf: "base_wf interest b"
    and init: "EVLIST_INIT \<in> flags b e"
  shows "\<exists>r b'. event_add_io ctl mem e b = Some (r, b') \<and> base_wf interest b' \<and>
    timeheap b' = timeheap b \<and> activequeues b' = activequeues b \<and>
    event_continue b' = event_continue b \<and> base_frame b b' \<and>
    (r = -1 \<and> evs b' = evs b \<and> eventqueue b' = eventqueue b \<or>
     r = 0 \<and>
     evs b' = (evs b)(e := (evs b e)\<lparr>ev_flags :=
       (if wants_io (evs b e) then insert EVLIST_INSERTED (flags b e) else flags b e)\<rparr>) \<and>
     eventqueue b' = (if wants_io (evs b e) then eventqueue b @ [e] else eventqueue b))"
proof (cases "wants_io (evs b e)")
  case False
  then have "event_add_io ctl mem e b = Some (0, b)"
    unfolding event_add_io_def wants_io_def by (simp only: if_False)
  then show ?thesis using wf False by simp
next
  case True
  have core: "core_wf b" and iow: "io_wf interest b" using wf by (simp_all add: base_wf_def)
  let ?evf = "\<lambda>x. ev_events (evs b x)" and ?fd = "ev_fd (evs b e)"
  obtain r m k where add: "evmap_io_add ctl (mem 1) (mem 2) ?fd e (?evf e) (io b) (kern b) = (r, m, k)"
    by (cases "evmap_io_add ctl (mem 1) (mem 2) ?fd e (?evf e) (io b) (kern b)") auto
  have inv: "evmap_inv ?evf interest (io b) (kern b)" using iow by (simp add: io_wf_def)
  note out = evmap_io_add_ok [OF contract inv add]
  define b1 where "b1 = b\<lparr>io := m, kern := k\<rparr>"
  have core1: "core_wf b1" using core by (simp add: b1_def)
  have inv1: "evmap_inv ?evf interest m k" using out by blast
  show ?thesis
  proof (cases "r = -1")
    case r: True
    then have "fd_events m = fd_events (io b)" using out by auto
    then have "io_wf interest b1" using iow inv1 by (simp add: io_wf_def b1_def)
    moreover have "event_add_io ctl mem e b = Some (-1, b1)"
      using True add r by (simp add: event_add_io_def wants_io_def b1_def)
    moreover have "base_frame b b1" by (simp add: b1_def base_frame_def)
    ultimately show ?thesis using core1 by (simp add: base_wf_def b1_def)
  next
    case ok: False
    then have fds: "fd_events m = (if ?fd < 0 then fd_events (io b)
        else (fd_events (io b))(?fd := fd_events (io b) ?fd @ [e]))" using out by auto
    have off: "EVLIST_INSERTED \<notin> flags b1 e" "EVLIST_INIT \<in> flags b1 e"
      "ev_events (evs b1 e) \<inter> {EV_READ, EV_WRITE} \<noteq> {}"
      using True init by (auto simp: wants_io_def b1_def)
    define b2 where "b2 = set_ev e (ev_flags_update (insert EVLIST_INSERTED))
            (b1\<lparr>event_count := event_count b1 + 1, eventqueue := eventqueue b1 @ [e]\<rparr>)"
    have b2: "event_queue_insert (mem 3) e EVLIST_INSERTED b1 = Some b2" "core_wf b2"
      using insert_inserted [OF core1 off] b2_def by auto
    have "event_add_io ctl mem e b = Some (0, b2)"
      using True add ok b2(1) by (simp add: event_add_io_def wants_io_def b1_def)
    moreover have evs2: "evs b2 = (evs b)(e := (evs b e)\<lparr>ev_flags := insert EVLIST_INSERTED (flags b e)\<rparr>)"
      by (rule ext, cases "evs b e") (simp add: b2_def b1_def)
    moreover have "io_wf interest b2"
      unfolding io_wf_def
    proof (intro conjI allI impI)
      show "evmap_inv (\<lambda>x. ev_events (evs b2 x)) interest (io b2) (kern b2)"
        by (rule evmap_inv_cong [of ?evf]) (simp_all add: evs2, simp_all add: b2_def b1_def inv1)
      fix fd :: int assume fd: "0 \<le> fd"
      have now: "distinct (fd_events (io b) fd)"
        "set (fd_events (io b) fd) = {x. EVLIST_INSERTED \<in> flags b x \<and> ev_fd (evs b x) = fd}"
        using iow fd by (simp_all add: io_wf_def)
      have io2: "io b2 = m" by (simp add: b2_def b1_def)
      have "EVLIST_INSERTED \<notin> flags b e" using off by (simp add: b1_def)
      then show "distinct (fd_events (io b2) fd)"
        "set (fd_events (io b2) fd) = {x. EVLIST_INSERTED \<in> flags b2 x \<and> ev_fd (evs b2 x) = fd}"
        using now fd by (auto simp: io2 fds evs2)
    qed
    moreover have "base_frame b b2" by (simp add: base_frame_def b2_def b1_def set_ev_def)
    ultimately show ?thesis using b2(2) True by (simp add: base_wf_def b2_def b1_def)
  qed
qed

lemma set_io_timeout_wf:
  assumes "base_wf interest b"
  shows "base_wf interest (set_ev e (ev_io_timeout_update g) b)"
proof -
  have core: "core_wf b" and iow: "io_wf interest b" using assms by (simp_all add: base_wf_def)
  have "core_wf (set_ev e (ev_io_timeout_update g) b)"
    by (rule core_wf_evs [OF core]) (use core_wf_event [OF core] in \<open>simp_all add: event_wf_def\<close>)
  moreover have "io_wf interest (set_ev e (ev_io_timeout_update g) b)"
    by (rule io_wf_cong [OF iow]) simp_all
  ultimately show ?thesis by (simp add: base_wf_def)
qed

lemma set_timeout_wf:
  assumes "core_wf b" "EVLIST_TIMEOUT \<notin> flags b e"
  shows "core_wf (set_ev e (ev_timeout_update g) b)"
  by (rule core_wf_evs [OF assms(1)])
     (use core_wf_event [OF assms(1)] assms(2) in \<open>auto simp: event_wf_def\<close>)

definition timer_set :: "'e \<Rightarrow> timeval \<Rightarrow> bool \<Rightarrow> ('e, 'd, 'k) event_base \<Rightarrow> ('e, 'd, 'k) event_base \<Rightarrow> bool" where
  "timer_set e t absolute b b' \<longleftrightarrow>
     (let late = EVLIST_ACTIVE \<in> flags b e \<and> EV_TIMEOUT \<in> ev_res (evs b e) in
      evs b' = (evs b)(e := (evs b e)
        \<lparr>ev_flags := insert EVLIST_TIMEOUT (if late then flags b e - {EVLIST_ACTIVE} else flags b e),
         ev_timeout := (if absolute then t else evutil_timeradd (gettime b) t),
         ev_io_timeout := (if ev_closure (evs b e) = EV_CLOSURE_PERSIST \<and> \<not> absolute then t
                           else ev_io_timeout (evs b e))\<rparr>) \<and>
      heap_members (timeheap b') = insert e (heap_members (timeheap b)) \<and>
      eventqueue b' = eventqueue b \<and>
      activequeues b' = (if late then map (remove1 e) (activequeues b) else activequeues b) \<and>
      io b' = io b \<and> kern b' = kern b \<and>
      event_continue b' = event_continue b \<and> base_frame b b')"

lemma event_add_timeout_ok:
  assumes wf: "base_wf interest b" and init: "EVLIST_INIT \<in> flags b e"
    and room: "EVLIST_TIMEOUT \<in> flags b e \<or> hp_n (timeheap b) < hp_a (timeheap b)"
  shows "\<exists>b'. event_add_timeout mem e t absolute b = Some b' \<and> base_wf interest b' \<and>
    timer_set e t absolute b b'"
proof -
  define b0 where "b0 = (if ev_closure (evs b e) = EV_CLOSURE_PERSIST \<and> \<not> absolute
                then set_ev e (ev_io_timeout_update (\<lambda>_. t)) b else b)"
  have wf0: "base_wf interest b0" using wf by (simp add: b0_def set_io_timeout_wf)
  then have core0: "core_wf b0" and iow0: "io_wf interest b0" by (simp_all add: base_wf_def)
  have evs0: "evs b0 = (evs b)(e := (evs b e)\<lparr>ev_io_timeout :=
      (if ev_closure (evs b e) = EV_CLOSURE_PERSIST \<and> \<not> absolute then t else ev_io_timeout (evs b e))\<rparr>)"
    by (rule ext, cases "evs b e") (simp add: b0_def)
  have same0: "timeheap b0 = timeheap b" "eventqueue b0 = eventqueue b" "activequeues b0 = activequeues b"
    "io b0 = io b" "kern b0 = kern b" "event_continue b0 = event_continue b" "base_frame b b0"
    by (simp_all add: b0_def base_frame_def set_ev_def)
  obtain b1 where b1: "(if EVLIST_TIMEOUT \<in> flags b0 e then event_queue_remove e EVLIST_TIMEOUT b0 else Some b0) = Some b1"
    "core_wf b1" "io b1 = io b0" "kern b1 = kern b0"
    "evs b1 = (evs b0)(e := (evs b0 e)\<lparr>ev_flags := flags b0 e - {EVLIST_TIMEOUT}\<rparr>)"
    "heap_members (timeheap b1) = heap_members (timeheap b0) - {e}"
    "eventqueue b1 = eventqueue b0" "activequeues b1 = activequeues b0"
    "event_continue b1 = event_continue b0" "base_frame b0 b1"
    "EVLIST_TIMEOUT \<in> flags b0 e \<longrightarrow> hp_n (timeheap b1) < hp_a (timeheap b1)"
    "EVLIST_TIMEOUT \<notin> flags b0 e \<longrightarrow> timeheap b1 = timeheap b0"
    using take_off_timeout [OF core0, of e] by blast
  have "flags b0 e = flags b e" by (simp add: evs0)
  then have room1: "hp_n (timeheap b1) < hp_a (timeheap b1)"
    using room b1(11,12) same0(1) by (cases "EVLIST_TIMEOUT \<in> flags b e") simp_all
  define late where "late = (EVLIST_ACTIVE \<in> flags b e \<and> EV_TIMEOUT \<in> ev_res (evs b e))"
  have late1: "late \<longleftrightarrow> EVLIST_ACTIVE \<in> flags b1 e \<and> EV_TIMEOUT \<in> ev_res (evs b1 e)"
    by (simp add: late_def b1(5) evs0)
  have "\<exists>b2. (if late then event_queue_remove e EVLIST_ACTIVE b1 else Some b1) = Some b2 \<and>
    core_wf b2 \<and> io b2 = io b1 \<and> kern b2 = kern b1 \<and>
    evs b2 = (evs b1)(e := (evs b1 e)\<lparr>ev_flags := (if late then flags b1 e - {EVLIST_ACTIVE} else flags b1 e)\<rparr>) \<and>
    timeheap b2 = timeheap b1 \<and> eventqueue b2 = eventqueue b1 \<and>
    activequeues b2 = (if late then map (remove1 e) (activequeues b1) else activequeues b1) \<and>
    event_continue b2 = event_continue b1 \<and> base_frame b1 b2"
    using take_off_active [OF b1(2), of e] b1(2) late1 by (cases late) simp_all
  then obtain b2 where b2: "(if late then event_queue_remove e EVLIST_ACTIVE b1 else Some b1) = Some b2"
    "core_wf b2" "io b2 = io b1" "kern b2 = kern b1"
    "evs b2 = (evs b1)(e := (evs b1 e)\<lparr>ev_flags := (if late then flags b1 e - {EVLIST_ACTIVE} else flags b1 e)\<rparr>)"
    "timeheap b2 = timeheap b1" "eventqueue b2 = eventqueue b1"
    "activequeues b2 = (if late then map (remove1 e) (activequeues b1) else activequeues b1)"
    "event_continue b2 = event_continue b1" "base_frame b1 b2" by blast
  have fl2: "flags b2 e = (if late then flags b e - {EVLIST_ACTIVE} else flags b e) - {EVLIST_TIMEOUT}"
    by (auto simp: b2(5) b1(5) evs0)
  define b3 where "b3 = set_ev e (ev_timeout_update
                 (\<lambda>_. if absolute then t else evutil_timeradd (gettime b2) t)) b2"
  have off: "EVLIST_TIMEOUT \<notin> flags b2 e" "EVLIST_INIT \<in> flags b2 e" using init by (auto simp: fl2)
  have core3: "core_wf b3" unfolding b3_def by (rule set_timeout_wf [OF b2(2) off(1)])
  have off3: "EVLIST_TIMEOUT \<notin> flags b3 e" "EVLIST_INIT \<in> flags b3 e" using off by (simp_all add: b3_def)
  have room3: "mem 3 \<or> hp_n (timeheap b3) < hp_a (timeheap b3)" using room1 by (simp add: b3_def b2(6))
  obtain b4 h where b4: "event_queue_insert (mem 3) e EVLIST_TIMEOUT b3 = Some b4" "core_wf b4"
    "b4 = set_ev e (ev_flags_update (insert EVLIST_TIMEOUT))
                (b3\<lparr>event_count := event_count b3 + 1, timeheap := h\<rparr>)"
    "heap_members h = insert e (heap_members (timeheap b3))"
    using insert_timeout [OF core3 off3 room3] by blast
  have frame2: "base_frame b b2"
    using base_frame_trans [OF base_frame_trans [OF same0(7) b1(10)] b2(10)] .
  have gt: "gettime b2 = gettime b" using frame2 by (simp add: gettime_def base_frame_def)
  have evs4: "evs b4 = (evs b)(e := (evs b e)
        \<lparr>ev_flags := insert EVLIST_TIMEOUT (if late then flags b e - {EVLIST_ACTIVE} else flags b e),
         ev_timeout := (if absolute then t else evutil_timeradd (gettime b) t),
         ev_io_timeout := (if ev_closure (evs b e) = EV_CLOSURE_PERSIST \<and> \<not> absolute then t
                           else ev_io_timeout (evs b e))\<rparr>)"
  proof
    fix x show "evs b4 x = ((evs b)(e := (evs b e)
        \<lparr>ev_flags := insert EVLIST_TIMEOUT (if late then flags b e - {EVLIST_ACTIVE} else flags b e),
         ev_timeout := (if absolute then t else evutil_timeradd (gettime b) t),
         ev_io_timeout := (if ev_closure (evs b e) = EV_CLOSURE_PERSIST \<and> \<not> absolute then t
                           else ev_io_timeout (evs b e))\<rparr>)) x"
    proof (cases "x = e")
      case False
      then show ?thesis by (simp add: b4(3) b3_def b2(5) b1(5) evs0)
    next
      case True
      have "insert EVLIST_TIMEOUT ((if late then flags b e - {EVLIST_ACTIVE} else flags b e) - {EVLIST_TIMEOUT}) =
        insert EVLIST_TIMEOUT (if late then flags b e - {EVLIST_ACTIVE} else flags b e)" by auto
      then show ?thesis using True fl2
        by (cases "evs b e") (simp add: b4(3) b3_def b2(5) b1(5) evs0 gt)
    qed
  qed
  have "event_add_timeout mem e t absolute b = Some b4"
    unfolding event_add_timeout_def Let_def b0_def [symmetric]
    using b1(1) b2(1) late1 b4(1) by (simp add: b3_def)
  moreover have "io_wf interest b4"
    by (rule io_wf_cong [OF iow0])
       (simp_all add: evs4 evs0, simp_all add: b4(3) b3_def b2(3,4) b1(3,4))
  moreover have "timer_set e t absolute b b4"
  proof -
    have "base_frame b b4" using frame2 by (simp add: b4(3) b3_def base_frame_def set_ev_def)
    moreover have "heap_members (timeheap b4) = insert e (heap_members (timeheap b))"
      by (simp add: b4(3)) (auto simp: b4(4) b3_def b2(6) b1(6) same0(1))
    ultimately show ?thesis
      using evs4
      by (simp add: timer_set_def late_def [symmetric])
         (simp add: b4(3) b3_def b2(3,4,7,8,9) b1(3,4,7,8,9) same0)
  qed
  ultimately show ?thesis using b4(2) by (auto simp: base_wf_def)
qed

lemma min_heap_reserve_ok:
  assumes "heap_inv tm h" "min_heap_reserve alloc h n = (r, h')"
  shows "heap_inv tm h' \<and> heap_members h' = heap_members h \<and> hp_n h' = hp_n h \<and>
    (r = 0 \<and> n \<le> hp_a h' \<or> r = -1 \<and> h' = h)"
proof -
  have "(r = 0 \<or> r = -1) \<and> (\<exists>a \<ge> hp_a h. h' = h\<lparr>hp_a := a\<rparr> \<and> (r = 0 \<longrightarrow> n \<le> a) \<and> (r = -1 \<longrightarrow> a = hp_a h))"
  proof (cases "hp_a h < n")
    case True
    then show ?thesis using assms(2)
      by (cases alloc) (auto simp: min_heap_reserve_def Let_def intro!: exI [of _ "hp_a h'"])
  next
    case False
    then show ?thesis using assms(2)
      by (auto simp: min_heap_reserve_def intro!: exI [of _ "hp_a h"])
  qed
  then obtain a where a: "hp_a h \<le> a" "h' = h\<lparr>hp_a := a\<rparr>" "r = 0 \<and> n \<le> a \<or> r = -1 \<and> a = hp_a h"
    by auto
  have "deadline tm (h\<lparr>hp_a := a\<rparr>) = deadline tm h" by (rule ext) (simp add: deadline_def)
  moreover have "hp_n h \<le> a" using heap_inv_capacity [OF assms(1)] a(1) by simp
  ultimately have "heap_inv tm h'"
    using assms(1) by (simp add: a(2) heap_inv_def heap_filled_def heap_members_def)
  then show ?thesis using a(2,3) by (auto simp: heap_members_def)
qed

lemma same_queues_heap:
  "heap_members h = heap_members (timeheap b) \<Longrightarrow> same_queues b (b\<lparr>timeheap := h\<rparr>)"
  by (simp add: same_queues_def base_frame_def)

text \<open>
  The effect of a successful \<^verbatim>\<open>event_add\<close>: the event is registered with its descriptor, when it
  watches one and is on neither queue, and its timer, if one is given, runs from now.
\<close>

definition event_added ::
    "'e \<Rightarrow> timeval option \<Rightarrow> bool \<Rightarrow> ('e, 'd, 'k) event_base \<Rightarrow> ('e, 'd, 'k) event_base \<Rightarrow> bool" where
  "event_added e tv absolute b b' \<longleftrightarrow>
     (let s = evs b e;
          late = tv \<noteq> None \<and> EVLIST_ACTIVE \<in> ev_flags s \<and> EV_TIMEOUT \<in> ev_res s;
          fl = (if wants_io s then insert EVLIST_INSERTED (ev_flags s) else ev_flags s);
          fl = (if late then fl - {EVLIST_ACTIVE} else fl) in
      evs b' = (evs b)(e :=
        (case tv of
           None \<Rightarrow> s\<lparr>ev_flags := fl\<rparr>
         | Some t \<Rightarrow>
             s\<lparr>ev_flags := insert EVLIST_TIMEOUT fl,
               ev_timeout := (if absolute then t else evutil_timeradd (gettime b) t),
               ev_io_timeout := (if ev_closure s = EV_CLOSURE_PERSIST \<and> \<not> absolute then t
                                 else ev_io_timeout s)\<rparr>)) \<and>
      heap_members (timeheap b') =
        (if tv \<noteq> None then insert e (heap_members (timeheap b)) else heap_members (timeheap b)) \<and>
      eventqueue b' = (if wants_io s then eventqueue b @ [e] else eventqueue b) \<and>
      activequeues b' = (if late then map (remove1 e) (activequeues b) else activequeues b) \<and>
      event_continue b' = event_continue b \<and> base_frame b b')"

lemma event_add_ok:
  assumes contract: "epoll_contract ctl interest" and wf: "base_wf interest b"
    and init: "EVLIST_INIT \<in> flags b e"
  shows "\<exists>r b'. event_add_internal ctl mem e tv absolute b = Some (r, b') \<and> base_wf interest b' \<and>
    (r = -1 \<and> evs b' = evs b \<and> same_queues b b' \<or> r = 0 \<and> event_added e tv absolute b b')"
proof -
  have core: "core_wf b" and iow: "io_wf interest b" using wf by (simp_all add: base_wf_def)
  have inv: "heap_inv (deadlines b) (timeheap b)" using core by (simp add: core_wf_def timers_wf_def)
  obtain r0 h where h: "(if tv \<noteq> None \<and> EVLIST_TIMEOUT \<notin> flags b e
                    then min_heap_reserve (mem 0) (timeheap b) (1 + min_heap_size (timeheap b))
                    else (0, timeheap b)) = (r0, h)" by fastforce
  have hres: "heap_inv (deadlines b) h \<and> heap_members h = heap_members (timeheap b) \<and>
      hp_n h = hp_n (timeheap b) \<and>
      (r0 = 0 \<and> (tv \<noteq> None \<and> EVLIST_TIMEOUT \<notin> flags b e \<longrightarrow> hp_n h < hp_a h) \<or>
       r0 = -1 \<and> h = timeheap b)"
    using h inv min_heap_reserve_ok [OF inv, of "mem 0" "1 + min_heap_size (timeheap b)" r0 h]
    by (simp add: min_heap_size_def split: if_splits) auto
  define b1 where "b1 = b\<lparr>timeheap := h\<rparr>"
  have wf1: "base_wf interest b1"
    using core_wf_heap [OF core] hres iow by (simp add: base_wf_def b1_def io_wf_def)
  have init1: "EVLIST_INIT \<in> flags b1 e" using init by (simp add: b1_def)
  have sq1: "same_queues b b1" using hres by (simp add: b1_def same_queues_heap)
  show ?thesis
  proof (cases "r0 = -1")
    case True
    then have "event_add_internal ctl mem e tv absolute b = Some (-1, b)"
      by (simp only: event_add_internal_def h Let_def prod.case if_True simp_thms)
    then show ?thesis using wf by (simp add: same_queues_def)
  next
    case False
    have add: "event_add_internal ctl mem e tv absolute b =
      do {
        (res, b) \<leftarrow> event_add_io ctl mem e b1;
        if res \<noteq> -1 \<and> tv \<noteq> None
        then map_option (Pair res) (event_add_timeout mem e (the tv) absolute b)
        else Some (res, b)
      }"
      using False by (simp only: event_add_internal_def h Let_def prod.case if_False b1_def)
    obtain r b2 where b2: "event_add_io ctl mem e b1 = Some (r, b2)" "base_wf interest b2"
      "timeheap b2 = timeheap b1" "activequeues b2 = activequeues b1"
      "event_continue b2 = event_continue b1" "base_frame b1 b2"
      "r = -1 \<and> evs b2 = evs b1 \<and> eventqueue b2 = eventqueue b1 \<or>
       r = 0 \<and>
       evs b2 = (evs b1)(e := (evs b1 e)\<lparr>ev_flags :=
         (if wants_io (evs b1 e) then insert EVLIST_INSERTED (flags b1 e) else flags b1 e)\<rparr>) \<and>
       eventqueue b2 = (if wants_io (evs b1 e) then eventqueue b1 @ [e] else eventqueue b1)"
      using event_add_io_ok [OF contract wf1 init1, of mem] by blast
    have frame1: "base_frame b b1" by (simp add: b1_def base_frame_def)
    have frame2: "base_frame b b2" using base_frame_trans [OF frame1 b2(6)] .
    show ?thesis
    proof (cases "r = -1")
      case True
      then have "event_add_internal ctl mem e tv absolute b = Some (-1, b2)"
        using add b2(1) by simp
      moreover have "evs b2 = evs b" "same_queues b b2"
        using True b2(3-7) sq1 frame2 by (simp_all add: same_queues_def b1_def)
      ultimately show ?thesis using b2(2) by blast
    next
      case ok: False
      then have r: "r = 0" using b2(7) by auto
      have evs2: "evs b2 = (evs b)(e := (evs b e)\<lparr>ev_flags :=
          (if wants_io (evs b e) then insert EVLIST_INSERTED (flags b e) else flags b e)\<rparr>)"
        and q2: "eventqueue b2 = (if wants_io (evs b e) then eventqueue b @ [e] else eventqueue b)"
        using b2(7) ok by (simp_all add: b1_def)
      show ?thesis
      proof (cases tv)
        case None
        then have "event_add_internal ctl mem e tv absolute b = Some (0, b2)"
          using add b2(1) r by simp
        moreover have "event_added e tv absolute b b2"
          using None evs2 q2 b2(3-5) sq1 frame2
          by (simp add: event_added_def same_queues_def b1_def)
        ultimately show ?thesis using b2(2) by blast
      next
        case (Some t)
        have init2: "EVLIST_INIT \<in> flags b2 e" using init by (simp add: evs2)
        have room: "EVLIST_TIMEOUT \<in> flags b2 e \<or> hp_n (timeheap b2) < hp_a (timeheap b2)"
          using hres False Some by (auto simp: evs2 b2(3) b1_def)
        obtain b3 where b3: "event_add_timeout mem e t absolute b2 = Some b3" "base_wf interest b3"
          "timer_set e t absolute b2 b3"
          using event_add_timeout_ok [OF b2(2) init2 room] by blast
        have "event_add_internal ctl mem e tv absolute b = Some (0, b3)"
          using add b2(1) r b3(1) Some by simp
        moreover have "event_added e tv absolute b b3"
        proof -
          have gt: "gettime b2 = gettime b" using frame2 by (simp add: gettime_def base_frame_def)
          have late: "EVLIST_ACTIVE \<in> flags b2 e \<longleftrightarrow> EVLIST_ACTIVE \<in> flags b e"
            by (simp add: evs2)
          have h2: "heap_members (timeheap b2) = heap_members (timeheap b)"
            using hres by (simp add: b2(3) b1_def)
          have same: "activequeues b2 = activequeues b" "event_continue b2 = event_continue b"
            using b2(4,5) by (simp_all add: b1_def)
          have "base_frame b b3"
            using b3(3) base_frame_trans [OF frame2] by (simp add: timer_set_def Let_def)
          then show ?thesis
            using b3(3) unfolding event_added_def timer_set_def Let_def Some gt h2 same q2
            by (cases "wants_io (evs b e)"; cases "EVLIST_ACTIVE \<in> flags b e";
                cases "EV_TIMEOUT \<in> ev_res (evs b e)";
                cases "ev_closure (evs b e) = EV_CLOSURE_PERSIST"; cases absolute)
               (simp_all add: evs2)
        qed
        ultimately show ?thesis using b3(2) by blast
      qed
    qed
  qed
qed

end
