(* ===== verification/EvLoop.thy ===== *)
theory EvLoop
  imports EvBase
begin

text \<open>
  The loop of libevent (\<^verbatim>\<open>event_base_loop\<close> of \<^verbatim>\<open>src/deps/libevent/event.c\<close> with
  \<^verbatim>\<open>epoll_dispatch\<close> of \<^verbatim>\<open>epoll.c\<close>) that the proxy spends its life in: how long it waits, which
  events it makes active, and in which order the callbacks run.

  A callback is the list of calls it makes into libevent, which may depend on the whole state: the
  argument \<open>cb\<close> maps what is called, the result it is called with and the state to that list.
  \<open>wait\<close> is \<^verbatim>\<open>epoll_wait\<close>: from the room for answers, the timeout in milliseconds, the state of the
  kernel and the time to the error or the descriptors that are ready, the time afterwards and the
  next state of the kernel.
\<close>

section \<open>Outcomes\<close>

text \<open>\<open>Running\<close>: the steps allowed have been used up. \<open>Crash\<close>: what \<^verbatim>\<open>None\<close> is elsewhere.\<close>

datatype 'a run = Done 'a | Crash | Running

definition run_of :: "'a option \<Rightarrow> 'a run" where
  "run_of x = (case x of None \<Rightarrow> Crash | Some y \<Rightarrow> Done y)"

definition run_bind :: "'a run \<Rightarrow> ('a \<Rightarrow> 'b run) \<Rightarrow> 'b run" where
  "run_bind x f = (case x of Done y \<Rightarrow> f y | Crash \<Rightarrow> Crash | Running \<Rightarrow> Running)"

lemma run_simps [simp]:
  "run_of (Some x) = Done x" "run_of None = Crash"
  "run_bind (Done x) f = f x" "run_bind Crash f = Crash" "run_bind Running f = Running"
  by (simp_all add: run_of_def run_bind_def)

section \<open>Callbacks\<close>

datatype ('e, 'd) api =
  Assign 'e int "ev_what set"
| Add "nat \<Rightarrow> bool" 'e "timeval option"
| Del 'e
| Free 'e
| Active 'e "ev_what set"
| Schedule 'd
| Cancel 'd
| Loopbreak

datatype ('e, 'd) called = EventCb 'e "ev_what set" | DeferredCb 'd

type_synonym ('e, 'd, 'k) callbacks = "('e, 'd) called \<Rightarrow> ('e, 'd, 'k) event_base \<Rightarrow> ('e, 'd) api list"

definition api_call ::
    "'k epoll_ctl \<Rightarrow> ('e, 'd) api \<Rightarrow> ('e, 'd, 'k) event_base \<Rightarrow> ('e, 'd, 'k) event_base option" where
  "api_call ctl c b =
     (case c of
        Assign e fd events \<Rightarrow> Some (event_assign e fd events b)
      | Add mem e tv \<Rightarrow> map_option snd (event_add ctl mem e tv b)
      | Del e \<Rightarrow> map_option snd (event_del_internal ctl e b)
      | Free e \<Rightarrow> event_free_ev ctl e b
      | Active e res \<Rightarrow> event_active_nolock e res b
      | Schedule d \<Rightarrow> Some (event_deferred_cb_schedule d b)
      | Cancel d \<Rightarrow> event_deferred_cb_cancel d b
      | Loopbreak \<Rightarrow> Some (event_base_loopbreak b))"

fun api_calls ::
    "'k epoll_ctl \<Rightarrow> ('e, 'd) api list \<Rightarrow> ('e, 'd, 'k) event_base \<Rightarrow> ('e, 'd, 'k) event_base option" where
  "api_calls ctl [] b = Some b"
| "api_calls ctl (c # cs) b = Option.bind (api_call ctl c b) (api_calls ctl cs)"

section \<open>Timeouts\<close>

text \<open>The time to wait; \<^verbatim>\<open>None\<close> is the null pointer, to wait for descriptors only.\<close>

definition timeout_next :: "('e, 'd, 'k) event_base \<Rightarrow> timeval option option" where
  "timeout_next b =
     (case min_heap_top (timeheap b) of
        None \<Rightarrow> None
      | Some None \<Rightarrow> Some None
      | Some (Some e) \<Rightarrow>
          let now = gettime b in
          if ev_timeout (evs b e) \<le> now then Some (Some evutil_timerclear)
          else
            let tv = evutil_timersub (ev_timeout (evs b e)) now in
            if tv_sec tv \<ge> 0 \<and> tv_usec tv \<ge> 0 then Some (Some tv) else None)"

text \<open>The loop over the array of the heap, for a clock that runs backwards.\<close>

fun shift_deadlines ::
    "timeval \<Rightarrow> 'e list \<Rightarrow> ('e, 'd, 'k) event_base \<Rightarrow> ('e, 'd, 'k) event_base" where
  "shift_deadlines off [] b = b"
| "shift_deadlines off (e # es) b =
     shift_deadlines off es (set_ev e (ev_timeout_update (\<lambda>t. evutil_timersub t off)) b)"

definition timeout_correct :: "('e, 'd, 'k) event_base \<Rightarrow> ('e, 'd, 'k) event_base option" where
  "timeout_correct b =
     (if use_monotonic b then Some b
      else
        let tv = gettime b in
        if tv \<ge> event_tv b then Some (b\<lparr>event_tv := tv\<rparr>)
        else
          let cells = map (hp_p (timeheap b)) [0..<hp_n (timeheap b)] in
          if None \<in> set cells then None
          else Some ((shift_deadlines (evutil_timersub (event_tv b) tv) (map the cells) b)\<lparr>event_tv := tv\<rparr>))"

text \<open>
  \<^verbatim>\<open>timeout_process\<close>: every event whose time has come goes from all queues to the active ones. Each
  round takes one event out of the heap, so its size and one are enough rounds.
\<close>

fun timeout_loop ::
    "'k epoll_ctl \<Rightarrow> timeval \<Rightarrow> nat \<Rightarrow> ('e, 'd, 'k) event_base \<Rightarrow> ('e, 'd, 'k) event_base option" where
  "timeout_loop ctl now 0 b = None"
| "timeout_loop ctl now (Suc fuel) b =
     (case min_heap_top (timeheap b) of
        None \<Rightarrow> None
      | Some None \<Rightarrow> Some b
      | Some (Some e) \<Rightarrow>
          if ev_timeout (evs b e) > now then Some b
          else
            case event_del_internal ctl e b of
              None \<Rightarrow> None
            | Some (_, b) \<Rightarrow> Option.bind (event_active_nolock e {EV_TIMEOUT} b) (timeout_loop ctl now fuel))"

definition timeout_process ::
    "'k epoll_ctl \<Rightarrow> ('e, 'd, 'k) event_base \<Rightarrow> ('e, 'd, 'k) event_base option" where
  "timeout_process ctl b =
     (if min_heap_empty (timeheap b) then Some b
      else timeout_loop ctl (gettime b) (Suc (min_heap_size (timeheap b))) b)"

section \<open>Running the active events\<close>

text \<open>
  The next run of a persistent timer is one period after the last one was due, or after now when
  that is already over. The assertion compares the bits of the microseconds above the low 20.
\<close>

definition event_persist_closure ::
    "'k epoll_ctl \<Rightarrow> (nat \<Rightarrow> bool) \<Rightarrow> 'e \<Rightarrow> ('e, 'd, 'k) event_base \<Rightarrow> ('e, 'd, 'k) event_base option" where
  "event_persist_closure ctl mem e b =
     (let s = evs b e in
      if tv_sec (ev_io_timeout s) \<noteq> 0 \<or> tv_usec (ev_io_timeout s) \<noteq> 0
      then
        if tv_usec (ev_timeout s) div 2 ^ 20 \<noteq> tv_usec (ev_io_timeout s) div 2 ^ 20 then None
        else
          let now = gettime b;
              delay = ev_io_timeout s;
              relative_to = (if EV_TIMEOUT \<in> ev_res s then ev_timeout s else now);
              run_at = evutil_timeradd relative_to delay;
              run_at = (if run_at < now then evutil_timeradd now delay else run_at)
          in map_option snd (event_add_internal ctl mem e (Some run_at) True b)
      else Some b)"

text \<open>An event is taken from its queue, and its next run arranged, before its callback is called.\<close>

definition take_event ::
    "'k epoll_ctl \<Rightarrow> (nat \<Rightarrow> bool) \<Rightarrow> 'e \<Rightarrow> ('e, 'd, 'k) event_base \<Rightarrow> ('e, 'd, 'k) event_base option" where
  "take_event ctl mem e b =
     do {
       b \<leftarrow> (if EV_PERSIST \<in> ev_events (evs b e) then event_queue_remove e EVLIST_ACTIVE b
             else map_option snd (event_del_internal ctl e b));
       if ev_closure (evs b e) = EV_CLOSURE_PERSIST then event_persist_closure ctl mem e b else Some b
     }"

definition process_event ::
    "'k epoll_ctl \<Rightarrow> (nat \<Rightarrow> bool) \<Rightarrow> ('e, 'd, 'k) callbacks \<Rightarrow> 'e \<Rightarrow> ('e, 'd, 'k) event_base \<Rightarrow>
     ('e, 'd, 'k) event_base option" where
  "process_event ctl mem cb e b =
     do {
       b \<leftarrow> take_event ctl mem e b;
       api_calls ctl (cb (EventCb e (ev_res (evs b e))) b) b
     }"

fun event_process_active_single_queue ::
    "'k epoll_ctl \<Rightarrow> (nat \<Rightarrow> bool) \<Rightarrow> ('e, 'd, 'k) callbacks \<Rightarrow> nat \<Rightarrow> nat \<Rightarrow> int \<Rightarrow>
     ('e, 'd, 'k) event_base \<Rightarrow> (int \<times> ('e, 'd, 'k) event_base) run" where
  "event_process_active_single_queue ctl mem cb 0 p cnt b = Running"
| "event_process_active_single_queue ctl mem cb (Suc fuel) p cnt b =
     (if length (activequeues b) \<le> p then Crash
      else case activequeues b ! p of
        [] \<Rightarrow> Done (cnt, b)
      | e # _ \<Rightarrow>
          let cnt = (if EVLIST_INTERNAL \<notin> flags b e then cnt + 1 else cnt) in
          case process_event ctl mem cb e b of
            None \<Rightarrow> Crash
          | Some b \<Rightarrow>
              if event_break b then Done (-1, b)
              else if event_continue b then Done (cnt, b)
              else event_process_active_single_queue ctl mem cb fuel p cnt b)"

definition MAX_DEFERRED :: nat where "MAX_DEFERRED = 16"

fun deferred_loop ::
    "'k epoll_ctl \<Rightarrow> ('e, 'd, 'k) callbacks \<Rightarrow> nat \<Rightarrow> ('e, 'd, 'k) event_base \<Rightarrow> ('e, 'd, 'k) event_base option" where
  "deferred_loop ctl cb 0 b = Some b"
| "deferred_loop ctl cb (Suc n) b =
     (case defer_queue b of
        [] \<Rightarrow> Some b
      | d # q \<Rightarrow>
          do {
            let b = b\<lparr>dcb_queued := (dcb_queued b)(d := False), defer_queue := q,
                      active_count := active_count b - 1\<rparr>;
            b \<leftarrow> api_calls ctl (cb (DeferredCb d) b) b;
            if event_break b then Some b else deferred_loop ctl cb n b
          })"

definition event_process_deferred_callbacks ::
    "'k epoll_ctl \<Rightarrow> ('e, 'd, 'k) callbacks \<Rightarrow> ('e, 'd, 'k) event_base \<Rightarrow> ('e, 'd, 'k) event_base option" where
  "event_process_deferred_callbacks ctl cb b = deferred_loop ctl cb MAX_DEFERRED b"

text \<open>The loop over the priorities, from the \<open>i\<close>-th; \<open>n\<close> of them are left.\<close>

fun process_queues ::
    "'k epoll_ctl \<Rightarrow> (nat \<Rightarrow> bool) \<Rightarrow> ('e, 'd, 'k) callbacks \<Rightarrow> nat \<Rightarrow> nat \<Rightarrow> nat \<Rightarrow> int \<Rightarrow>
     ('e, 'd, 'k) event_base \<Rightarrow> (int \<times> ('e, 'd, 'k) event_base) run" where
  "process_queues ctl mem cb fuel 0 i c b = Done (c, b)"
| "process_queues ctl mem cb fuel (Suc n) i c b =
     (if length (activequeues b) \<le> i then Crash
      else if activequeues b ! i = [] then process_queues ctl mem cb fuel n (i + 1) c b
      else
        run_bind (event_process_active_single_queue ctl mem cb fuel i 0
                    (b\<lparr>event_running_priority := int i\<rparr>))
          (\<lambda>(c, b). if c \<noteq> 0 then Done (c, b) else process_queues ctl mem cb fuel n (i + 1) c b))"

definition event_process_active ::
    "'k epoll_ctl \<Rightarrow> (nat \<Rightarrow> bool) \<Rightarrow> ('e, 'd, 'k) callbacks \<Rightarrow> nat \<Rightarrow>
     ('e, 'd, 'k) event_base \<Rightarrow> (int \<times> ('e, 'd, 'k) event_base) run" where
  "event_process_active ctl mem cb fuel b =
     run_bind (process_queues ctl mem cb fuel (length (activequeues b)) 0 0 b)
       (\<lambda>(c, b).
          if c < 0 then Done (-1, b\<lparr>event_running_priority := -1\<rparr>)
          else run_bind (run_of (event_process_deferred_callbacks ctl cb b))
                 (\<lambda>b. Done (c, b\<lparr>event_running_priority := -1\<rparr>)))"

section \<open>Waiting\<close>

type_synonym 'k epoll_wait =
  "nat \<Rightarrow> int \<Rightarrow> 'k \<Rightarrow> timeval \<Rightarrow> (errno + (int \<times> epoll_ev set) list) \<times> timeval \<times> 'k"

definition MAX_SECONDS_IN_MSEC_LONG :: int where
  "MAX_SECONDS_IN_MSEC_LONG = (2 ^ 63 - 1 - 999) div 1000"

definition evutil_tv_to_msec :: "timeval \<Rightarrow> int" where
  "evutil_tv_to_msec tv =
     (if tv_usec tv > 1000000 \<or> tv_sec tv > MAX_SECONDS_IN_MSEC_LONG then -1
      else tv_sec tv * 1000 + (tv_usec tv + 999) div 1000)"

definition MAX_EPOLL_TIMEOUT_MSEC :: int where
  "MAX_EPOLL_TIMEOUT_MSEC = 35 * 60 * 1000"

definition epoll_timeout :: "timeval option \<Rightarrow> int" where
  "epoll_timeout tv =
     (case tv of
        None \<Rightarrow> -1
      | Some tv \<Rightarrow>
          let t = evutil_tv_to_msec tv in
          if t < 0 \<or> t > MAX_EPOLL_TIMEOUT_MSEC then MAX_EPOLL_TIMEOUT_MSEC else t)"

text \<open>\<^verbatim>\<open>evmap_io_active\<close>: all events on the descriptor that ask for one of the bits, in order.\<close>

fun activate_all ::
    "ev_what set \<Rightarrow> 'e list \<Rightarrow> ('e, 'd, 'k) event_base \<Rightarrow> ('e, 'd, 'k) event_base option" where
  "activate_all events [] b = Some b"
| "activate_all events (e # es) b =
     Option.bind (if ev_events (evs b e) \<inter> events \<noteq> {}
                  then event_active_nolock e (ev_events (evs b e) \<inter> events) b else Some b)
       (activate_all events es)"

definition evmap_io_active ::
    "int \<Rightarrow> ev_what set \<Rightarrow> ('e, 'd, 'k) event_base \<Rightarrow> ('e, 'd, 'k) event_base option" where
  "evmap_io_active fd events b =
     (if fd < 0 \<or> nentries (io b) \<le> nat fd then None
      else case io_entries (io b) (nat fd) of
             None \<Rightarrow> None
           | Some c \<Rightarrow> activate_all events (io_events c) b)"

definition epoll_what :: "epoll_ev set \<Rightarrow> ev_what set" where
  "epoll_what w =
     (if EPOLLHUP \<in> w \<or> EPOLLERR \<in> w then {EV_READ, EV_WRITE}
      else (if EPOLLIN \<in> w then {EV_READ} else {}) \<union> (if EPOLLOUT \<in> w then {EV_WRITE} else {}))"

fun epoll_ready ::
    "(int \<times> epoll_ev set) list \<Rightarrow> ('e, 'd, 'k) event_base \<Rightarrow> ('e, 'd, 'k) event_base option" where
  "epoll_ready [] b = Some b"
| "epoll_ready ((fd, w) # rs) b =
     Option.bind (if epoll_what w = {} then Some b
                  else evmap_io_active fd (insert EV_ET (epoll_what w)) b)
       (epoll_ready rs)"

definition MAX_NEVENT :: nat where "MAX_NEVENT = 4096"

definition epoll_dispatch ::
    "'k epoll_wait \<Rightarrow> bool \<Rightarrow> timeval option \<Rightarrow> ('e, 'd, 'k) event_base \<Rightarrow>
     (int \<times> ('e, 'd, 'k) event_base) option" where
  "epoll_dispatch wait alloc tv b =
     (case wait (ep_nevents b) (epoll_timeout tv) (kern b) (clock b) of
        (res, now, k) \<Rightarrow>
          let b = b\<lparr>kern := k, clock := now\<rparr> in
          case res of
            Inl err \<Rightarrow> Some (if err \<noteq> EINTR then -1 else 0, b)
          | Inr ready \<Rightarrow>
              if length ready > ep_nevents b then None
              else
                map_option
                  (\<lambda>b. (0, if length ready = ep_nevents b \<and> ep_nevents b < MAX_NEVENT \<and> alloc
                           then b\<lparr>ep_nevents := ep_nevents b * 2\<rparr> else b))
                  (epoll_ready ready b))"

section \<open>The loop\<close>

definition event_haveevents :: "('e, 'd, 'k) event_base \<Rightarrow> bool" where
  "event_haveevents b \<longleftrightarrow> virtual_event_count b > 0 \<or> event_count b > 0"

definition N_ACTIVE_CALLBACKS :: "('e, 'd, 'k) event_base \<Rightarrow> int" where
  "N_ACTIVE_CALLBACKS b = event_count_active b + active_count b"

text \<open>
  One round with the flags of \<^verbatim>\<open>event_base_dispatch\<close>, up to \<^verbatim>\<open>timeout_process\<close>: the value returned,
  if the loop ends here. Then the whole round.
\<close>

definition loop_wait ::
    "'k epoll_ctl \<Rightarrow> 'k epoll_wait \<Rightarrow> bool \<Rightarrow> ('e, 'd, 'k) event_base \<Rightarrow>
     (int option \<times> ('e, 'd, 'k) event_base) run" where
  "loop_wait ctl wait alloc b =
     (let b = b\<lparr>event_continue := False\<rparr> in
      if event_gotterm b \<or> event_break b then Done (Some 0, b)
      else
        run_bind (run_of (timeout_correct b)) (\<lambda>b.
        run_bind (if N_ACTIVE_CALLBACKS b = 0 then run_of (timeout_next b)
                  else Done (Some evutil_timerclear)) (\<lambda>tv.
        if \<not> event_haveevents b \<and> N_ACTIVE_CALLBACKS b = 0 then Done (Some 1, b)
        else
          let b = clear_time_cache (b\<lparr>event_tv := gettime b\<rparr>) in
          run_bind (run_of (epoll_dispatch wait alloc tv b)) (\<lambda>(res, b).
          if res = -1 then Done (Some (-1), b)
          else
            run_bind (run_of (timeout_process ctl (update_time_cache b))) (\<lambda>b. Done (None, b))))))"

definition loop_round ::
    "'k epoll_ctl \<Rightarrow> 'k epoll_wait \<Rightarrow> (nat \<Rightarrow> bool) \<Rightarrow> ('e, 'd, 'k) callbacks \<Rightarrow> nat \<Rightarrow>
     ('e, 'd, 'k) event_base \<Rightarrow> (int option \<times> ('e, 'd, 'k) event_base) run" where
  "loop_round ctl wait mem cb fuel b =
     run_bind (loop_wait ctl wait (mem 4) b) (\<lambda>(r, b).
       if r \<noteq> None \<or> N_ACTIVE_CALLBACKS b = 0 then Done (r, b)
       else run_bind (event_process_active ctl mem cb fuel b) (\<lambda>(n, b). Done (None, b)))"

fun loop_rounds ::
    "'k epoll_ctl \<Rightarrow> 'k epoll_wait \<Rightarrow> (nat \<Rightarrow> bool) \<Rightarrow> ('e, 'd, 'k) callbacks \<Rightarrow> nat \<Rightarrow>
     ('e, 'd, 'k) event_base \<Rightarrow> (int \<times> ('e, 'd, 'k) event_base) run" where
  "loop_rounds ctl wait mem cb 0 b = Running"
| "loop_rounds ctl wait mem cb (Suc fuel) b =
     run_bind (loop_round ctl wait mem cb fuel b) (\<lambda>(r, b).
       case r of
         None \<Rightarrow> loop_rounds ctl wait mem cb fuel b
       | Some r \<Rightarrow> Done (r, b))"

definition event_base_loop ::
    "'k epoll_ctl \<Rightarrow> 'k epoll_wait \<Rightarrow> (nat \<Rightarrow> bool) \<Rightarrow> ('e, 'd, 'k) callbacks \<Rightarrow> nat \<Rightarrow>
     ('e, 'd, 'k) event_base \<Rightarrow> (int \<times> ('e, 'd, 'k) event_base) run" where
  "event_base_loop ctl wait mem cb fuel b =
     (if running_loop b then Done (-1, b)
      else
        run_bind (loop_rounds ctl wait mem cb fuel
                    ((clear_time_cache (b\<lparr>running_loop := True\<rparr>))\<lparr>event_gotterm := False, event_break := False\<rparr>))
          (\<lambda>(r, b). Done (r, (clear_time_cache b)\<lparr>running_loop := False\<rparr>)))"

section \<open>The invariant of the loop\<close>

definition normal :: "timeval \<Rightarrow> bool" where
  "normal t \<longleftrightarrow> 0 \<le> tv_usec t \<and> tv_usec t < 1000000"

definition times_ev :: "event_s \<Rightarrow> bool" where
  "times_ev s \<longleftrightarrow>
     (EVLIST_TIMEOUT \<in> ev_flags s \<longrightarrow> normal (ev_timeout s)) \<and>
     (ev_flags s \<noteq> {} \<and> ev_closure s = EV_CLOSURE_PERSIST \<and> ev_io_timeout s \<noteq> evutil_timerclear \<longrightarrow>
        normal (ev_io_timeout s) \<and> normal (ev_timeout s))"

definition loop_inv :: "('k \<Rightarrow> int \<rightharpoonup> epoll_ev set) \<Rightarrow> ('e, 'd, 'k) event_base \<Rightarrow> bool" where
  "loop_inv interest b \<longleftrightarrow> base_wf interest b \<and> normal (tv_cache b) \<and> normal (clock b) \<and>
     normal (event_tv b) \<and> (\<forall>e. times_ev (evs b e))"

lemma normal_timeradd [simp]: "normal s \<Longrightarrow> normal t \<Longrightarrow> normal (evutil_timeradd s t)"
  by (auto simp: normal_def evutil_timeradd_def Let_def)

lemma normal_timersub [simp]: "normal s \<Longrightarrow> normal t \<Longrightarrow> normal (evutil_timersub s t)"
  by (auto simp: normal_def evutil_timersub_def Let_def)

lemma normal_clear [simp]: "normal evutil_timerclear"
  by (simp add: normal_def evutil_timerclear_def)

lemma normal_gettime: "loop_inv interest b \<Longrightarrow> normal (gettime b)"
  by (simp add: loop_inv_def gettime_def)

lemma loop_invI:
  assumes "loop_inv interest b" "base_wf interest b'" "base_frame b b'" "\<And>e. times_ev (evs b' e)"
  shows "loop_inv interest b'"
  using assms by (simp add: loop_inv_def base_frame_def)

text \<open>
  A callback uses the interface properly: it assigns only events that are on no queue, and adds and
  activates only events it has assigned, with microseconds below a million.
\<close>

definition api_ok :: "('e, 'd, 'k) event_base \<Rightarrow> ('e, 'd) api \<Rightarrow> bool" where
  "api_ok b c \<longleftrightarrow>
     (case c of
        Assign e fd events \<Rightarrow> flags b e \<inter> {EVLIST_TIMEOUT, EVLIST_INSERTED, EVLIST_ACTIVE} = {}
      | Add mem e tv \<Rightarrow> EVLIST_INIT \<in> flags b e \<and> (case tv of None \<Rightarrow> True | Some t \<Rightarrow> normal t)
      | Active e res \<Rightarrow> EVLIST_INIT \<in> flags b e
      | _ \<Rightarrow> True)"

fun api_oks :: "'k epoll_ctl \<Rightarrow> ('e, 'd) api list \<Rightarrow> ('e, 'd, 'k) event_base \<Rightarrow> bool" where
  "api_oks ctl [] b \<longleftrightarrow> True"
| "api_oks ctl (c # cs) b \<longleftrightarrow>
     api_ok b c \<and> (case api_call ctl c b of None \<Rightarrow> True | Some b' \<Rightarrow> api_oks ctl cs b')"

definition callbacks_ok ::
    "'k epoll_ctl \<Rightarrow> ('k \<Rightarrow> int \<rightharpoonup> epoll_ev set) \<Rightarrow> ('e, 'd, 'k) callbacks \<Rightarrow> bool" where
  "callbacks_ok ctl interest cb \<longleftrightarrow> (\<forall>c b. loop_inv interest b \<longrightarrow> api_oks ctl (cb c b) b)"

lemma times_ev_flags:
  "times_ev s \<Longrightarrow> fl \<subseteq> ev_flags s \<Longrightarrow> times_ev (s\<lparr>ev_flags := fl\<rparr>)"
  by (auto simp: times_ev_def)

lemma event_deleted_times:
  assumes "event_deleted e b b'" "\<And>x. times_ev (evs b x)"
  shows "times_ev (evs b' x)"
proof (cases "x = e")
  case True
  then show ?thesis
    using assms times_ev_flags [OF assms(2) [of e], of "flags b e - {EVLIST_TIMEOUT, EVLIST_INSERTED, EVLIST_ACTIVE}"]
    by (auto simp: event_deleted_def)
next
  case False
  then show ?thesis using assms by (simp add: event_deleted_def)
qed

lemma event_activated_times:
  assumes "event_activated e res b b'" "EVLIST_INIT \<in> flags b e" "\<And>x. times_ev (evs b x)"
  shows "times_ev (evs b' x)"
proof (cases "x = e")
  case True
  then show ?thesis
    using assms(1,2) assms(3) [of e] by (auto simp: event_activated_def times_ev_def)
next
  case False
  then show ?thesis using assms(1) assms(3) [of x] by (simp add: event_activated_def)
qed

lemma event_added_times:
  assumes added: "event_added e tv absolute b b'" and "EVLIST_INIT \<in> flags b e"
    and times: "\<And>x. times_ev (evs b x)" and now: "normal (gettime b)"
    and tv: "\<And>t. tv = Some t \<Longrightarrow> normal t"
  shows "times_ev (evs b' x)"
proof (cases "x = e")
  case False
  then show ?thesis using added times [of x] by (simp add: event_added_def Let_def)
next
  case True
  have nonempty: "flags b e \<noteq> {}" using assms(2) by auto
  show ?thesis
  proof (cases tv)
    case None
    then show ?thesis
      using True added times [of e] nonempty
      by (auto simp: event_added_def Let_def times_ev_def)
  next
    case (Some t)
    have nt: "normal (if absolute then t else evutil_timeradd (gettime b) t)"
      using tv [OF Some] now by simp
    have ev: "ev_timeout (evs b' e) = (if absolute then t else evutil_timeradd (gettime b) t)"
      "ev_io_timeout (evs b' e) = (if ev_closure (evs b e) = EV_CLOSURE_PERSIST \<and> \<not> absolute then t
                                   else ev_io_timeout (evs b e))"
      "ev_closure (evs b' e) = ev_closure (evs b e)"
      using added Some by (simp_all add: event_added_def Let_def)
    show ?thesis
      using True nt ev tv [OF Some] times [of e] nonempty
      by (auto simp: times_ev_def)
  qed
qed

text \<open>Calls never change the time, the clock in use or the number of priorities, nor an event they do not name.\<close>

definition time_frame :: "('e, 'd, 'k) event_base \<Rightarrow> ('e, 'd, 'k) event_base \<Rightarrow> bool" where
  "time_frame b b' \<longleftrightarrow> clock b' = clock b \<and> tv_cache b' = tv_cache b \<and> use_monotonic b' = use_monotonic b \<and>
     length (activequeues b') = length (activequeues b)"

lemma base_frame_time: "base_frame b b' \<Longrightarrow> time_frame b b'"
  by (simp add: base_frame_def time_frame_def)

lemma time_frame_trans: "time_frame b b' \<Longrightarrow> time_frame b' b'' \<Longrightarrow> time_frame b b''"
  by (simp add: time_frame_def)

definition api_target :: "('e, 'd) api \<Rightarrow> 'e option" where
  "api_target c =
     (case c of
        Assign e fd events \<Rightarrow> Some e
      | Add mem e tv \<Rightarrow> Some e
      | Del e \<Rightarrow> Some e
      | Free e \<Rightarrow> Some e
      | Active e res \<Rightarrow> Some e
      | _ \<Rightarrow> None)"

text \<open>Every proper call works and keeps the invariant.\<close>

lemma api_call_ok:
  assumes contract: "epoll_contract ctl interest" and steady: "epoll_steady ctl interest"
    and inv: "loop_inv interest b" and ok: "api_ok b c"
  shows "\<exists>b'. api_call ctl c b = Some b' \<and> loop_inv interest b' \<and> time_frame b b' \<and>
    (\<forall>x. api_target c \<noteq> Some x \<longrightarrow> evs b' x = evs b x)"
proof -
  have wf: "base_wf interest b" and times: "\<And>x. times_ev (evs b x)"
    using inv by (simp_all add: loop_inv_def)
  show ?thesis
  proof (cases c)
    case (Assign e fd events)
    then have free: "flags b e \<inter> {EVLIST_TIMEOUT, EVLIST_INSERTED, EVLIST_ACTIVE} = {}"
      using ok by (simp add: api_ok_def)
    note a = event_assign_ok [OF wf free, where fd = fd and events = events]
    have "times_ev (evs (event_assign e fd events b) x)" for x
    proof (cases "x = e")
      case False
      then show ?thesis using a(2) times by simp
    next
      case True
      then show ?thesis by (simp add: event_assign_def Let_def times_ev_def)
    qed
    then have "loop_inv interest (event_assign e fd events b)" by (rule loop_invI [OF inv a(1,4)])
    then show ?thesis using Assign base_frame_time [OF a(4)] a(2) by (simp add: api_call_def api_target_def)
  next
    case (Add mem e tv)
    then have init: "EVLIST_INIT \<in> flags b e" and tv: "\<And>t. tv = Some t \<Longrightarrow> normal t"
      using ok by (auto simp: api_ok_def)
    obtain r b' where b': "event_add_internal ctl mem e tv False b = Some (r, b')" "base_wf interest b'"
      "r = -1 \<and> evs b' = evs b \<and> same_queues b b' \<or> r = 0 \<and> event_added e tv False b b'"
      using event_add_ok [OF contract wf init] by blast
    have frame: "base_frame b b'" using b'(3) by (auto simp: same_queues_def event_added_def Let_def)
    have "times_ev (evs b' x)" for x
      using b'(3) times event_added_times [OF _ init times normal_gettime [OF inv] tv] by auto
    then have "loop_inv interest b'" by (rule loop_invI [OF inv b'(2) frame])
    moreover have "evs b' x = evs b x" if "x \<noteq> e" for x
      using b'(3) that by (auto simp: event_added_def Let_def)
    ultimately show ?thesis
      using Add b'(1) base_frame_time [OF frame] by (simp add: api_call_def event_add_def api_target_def)
  next
    case (Del e)
    obtain b' where b': "event_del_internal ctl e b = Some (0, b')" "base_wf interest b'" "event_deleted e b b'"
      using event_del_ok [OF contract steady wf] by blast
    have frame: "base_frame b b'" using b'(3) by (simp add: event_deleted_def)
    have "loop_inv interest b'"
      by (rule loop_invI [OF inv b'(2) frame]) (rule event_deleted_times [OF b'(3) times])
    then show ?thesis
      using Del b'(1,3) base_frame_time [OF frame] by (simp add: api_call_def api_target_def event_deleted_def)
  next
    case (Free e)
    obtain b' where b': "event_free_ev ctl e b = Some b'" "base_wf interest b'" "flags b' e = {}"
      "\<forall>x. x \<noteq> e \<longrightarrow> evs b' x = evs b x" "base_frame b b'"
      using event_free_ok [OF contract steady wf] by blast
    have "times_ev (evs b' x)" for x
      using b'(3,4) times by (cases "x = e") (simp_all add: times_ev_def)
    then have "loop_inv interest b'" by (rule loop_invI [OF inv b'(2,5)])
    then show ?thesis
      using Free b'(1,4) base_frame_time [OF b'(5)] by (simp add: api_call_def api_target_def)
  next
    case (Active e res)
    then have init: "EVLIST_INIT \<in> flags b e" using ok by (simp add: api_ok_def)
    obtain b' where b': "event_active_nolock e res b = Some b'" "base_wf interest b'" "event_activated e res b b'"
      using event_active_ok [OF wf init] by blast
    have frame: "base_frame b b'" using b'(3) by (simp add: event_activated_def)
    have "loop_inv interest b'"
      by (rule loop_invI [OF inv b'(2) frame]) (rule event_activated_times [OF b'(3) init times])
    then show ?thesis
      using Active b'(1,3) base_frame_time [OF frame] by (simp add: api_call_def api_target_def event_activated_def)
  next
    case (Schedule d)
    have "loop_inv interest (event_deferred_cb_schedule d b)"
      using inv event_deferred_cb_schedule_ok(1) [OF wf, of d]
      by (simp add: loop_inv_def) (simp add: event_deferred_cb_schedule_def)
    then show ?thesis
      using Schedule by (simp add: api_call_def time_frame_def) (simp add: event_deferred_cb_schedule_def)
  next
    case (Cancel d)
    obtain b' where b': "event_deferred_cb_cancel d b = Some b'" "base_wf interest b'"
      using event_deferred_cb_cancel_ok [OF wf, of d] by blast
    then have same: "evs b' = evs b" "tv_cache b' = tv_cache b" "clock b' = clock b" "event_tv b' = event_tv b"
      "activequeues b' = activequeues b" "use_monotonic b' = use_monotonic b"
      by (auto simp: event_deferred_cb_cancel_def split: if_splits)
    have "loop_inv interest b'" using inv b'(2) by (simp add: loop_inv_def same)
    then show ?thesis using Cancel b'(1) same by (simp add: api_call_def time_frame_def)
  next
    case Loopbreak
    have "base_wf interest (event_base_loopbreak b)"
      using wf by (simp add: event_base_loopbreak_def base_wf_def io_wf_def core_wf_def timers_wf_def
          inserted_wf_def active_wf_def counts_wf_def deferred_wf_def deadlines_def [abs_def])
    then have "loop_inv interest (event_base_loopbreak b)"
      using inv by (simp add: loop_inv_def event_base_loopbreak_def)
    then show ?thesis using Loopbreak by (simp add: api_call_def event_base_loopbreak_def time_frame_def)
  qed
qed

lemma api_calls_ok:
  assumes contract: "epoll_contract ctl interest" and steady: "epoll_steady ctl interest"
  shows "loop_inv interest b \<Longrightarrow> api_oks ctl cs b \<Longrightarrow>
    \<exists>b'. api_calls ctl cs b = Some b' \<and> loop_inv interest b' \<and> time_frame b b' \<and>
      (\<forall>x. (\<forall>c \<in> set cs. api_target c \<noteq> Some x) \<longrightarrow> evs b' x = evs b x)"
proof (induction cs arbitrary: b)
  case Nil
  then show ?case by (simp add: time_frame_def)
next
  case (Cons c cs)
  obtain b1 where b1: "api_call ctl c b = Some b1" "loop_inv interest b1" "time_frame b b1"
    "\<forall>x. api_target c \<noteq> Some x \<longrightarrow> evs b1 x = evs b x"
    using api_call_ok [OF contract steady Cons.prems(1), of c] Cons.prems(2) by auto
  obtain b' where b': "api_calls ctl cs b1 = Some b'" "loop_inv interest b'" "time_frame b1 b'"
    "\<forall>x. (\<forall>c \<in> set cs. api_target c \<noteq> Some x) \<longrightarrow> evs b' x = evs b1 x"
    using Cons.IH [OF b1(2)] Cons.prems(2) b1(1) by auto
  then show ?case using b1 time_frame_trans [OF b1(3) b'(3)] by simp
qed

text \<open>The callbacks of other events and the deferred ones leave the event alone.\<close>

definition spares :: "'e \<Rightarrow> ('e, 'd, 'k) callbacks \<Rightarrow> bool" where
  "spares e cb \<longleftrightarrow> (\<forall>c b. (\<forall>r. c \<noteq> EventCb e r) \<longrightarrow> (\<forall>a \<in> set (cb c b). api_target a \<noteq> Some e))"

lemma sparesD:
  "spares x cb \<Longrightarrow> (\<And>r. c \<noteq> EventCb x r) \<Longrightarrow> a \<in> set (cb c b) \<Longrightarrow> api_target a \<noteq> Some x"
  unfolding spares_def by blast

definition keeps :: "('e, 'd, 'k) callbacks \<Rightarrow> ('e, 'd, 'k) event_base \<Rightarrow> ('e, 'd, 'k) event_base \<Rightarrow> bool" where
  "keeps cb b b' \<longleftrightarrow> time_frame b b' \<and>
     (\<forall>x. EVLIST_ACTIVE \<notin> flags b x \<longrightarrow> spares x cb \<longrightarrow> evs b' x = evs b x)"

lemma keeps_refl [simp]: "keeps cb b b"
  by (simp add: keeps_def time_frame_def)

lemma keeps_trans: "keeps cb b b' \<Longrightarrow> keeps cb b' b'' \<Longrightarrow> keeps cb b b''"
  unfolding keeps_def using time_frame_trans by metis

lemma keeps_priority [simp]:
  "keeps cb (b\<lparr>event_running_priority := i\<rparr>) b' = keeps cb b b'"
  "keeps cb b (b'\<lparr>event_running_priority := i\<rparr>) = keeps cb b b'"
  by (simp_all add: keeps_def time_frame_def)

lemma keeps_length: "keeps cb b b' \<Longrightarrow> length (activequeues b') = length (activequeues b)"
  by (simp add: keeps_def time_frame_def)

section \<open>The events whose time has come\<close>

text \<open>One round of \<^verbatim>\<open>timeout_process\<close>, and its effect.\<close>

definition fire :: "'k epoll_ctl \<Rightarrow> 'e \<Rightarrow> ('e, 'd, 'k) event_base \<Rightarrow> ('e, 'd, 'k) event_base option" where
  "fire ctl e b =
     (case event_del_internal ctl e b of
        None \<Rightarrow> None
      | Some (_, b) \<Rightarrow> event_active_nolock e {EV_TIMEOUT} b)"

definition timed_out :: "event_s \<Rightarrow> event_s" where
  "timed_out s = s\<lparr>ev_flags := insert EVLIST_ACTIVE (ev_flags s - {EVLIST_TIMEOUT, EVLIST_INSERTED}),
                   ev_res := {EV_TIMEOUT}\<rparr>"

definition fired :: "'e list \<Rightarrow> ('e, 'd, 'k) event_base \<Rightarrow> ('e, 'd, 'k) event_base \<Rightarrow> bool" where
  "fired es b b' \<longleftrightarrow>
     evs b' = (\<lambda>e. if e \<in> set es then timed_out (evs b e) else evs b e) \<and>
     heap_members (timeheap b') = heap_members (timeheap b) - set es \<and>
     eventqueue b' = filter (\<lambda>e. e \<notin> set es) (eventqueue b) \<and>
     (\<forall>p < length (activequeues b).
        activequeues b' ! p = filter (\<lambda>e. e \<notin> set es) (activequeues b ! p) @
                              filter (\<lambda>e. ev_pri (evs b e) = p) es) \<and>
     base_frame b b'"

lemma fire_ok:
  assumes contract: "epoll_contract ctl interest" and steady: "epoll_steady ctl interest"
    and inv: "loop_inv interest b" and on: "EVLIST_TIMEOUT \<in> flags b e"
  shows "\<exists>b'. fire ctl e b = Some b' \<and> loop_inv interest b' \<and> fired [e] b b'"
proof -
  have wf: "base_wf interest b" and times: "\<And>x. times_ev (evs b x)" using inv by (simp_all add: loop_inv_def)
  then have core: "core_wf b" by (simp add: base_wf_def)
  have init: "EVLIST_INIT \<in> flags b e" using core_wf_event [OF core, of e] on by (auto simp: event_wf_def)
  obtain b1 where b1: "event_del_internal ctl e b = Some (0, b1)" "base_wf interest b1" "event_deleted e b b1"
    using event_del_ok [OF contract steady wf] by blast
  have init1: "EVLIST_INIT \<in> flags b1 e" "EVLIST_ACTIVE \<notin> flags b1 e"
    using b1(3) init by (auto simp: event_deleted_def)
  obtain b2 where b2: "event_active_nolock e {EV_TIMEOUT} b1 = Some b2" "base_wf interest b2"
    "event_activated e {EV_TIMEOUT} b1 b2"
    using event_active_ok [OF b1(2) init1(1)] by blast
  have frame: "base_frame b b2"
    using b1(3) b2(3) by (auto simp: event_deleted_def event_activated_def intro: base_frame_trans)
  have "loop_inv interest b2"
    by (rule loop_invI [OF inv b2(2) frame],
        rule event_activated_times [OF b2(3) init1(1)], rule event_deleted_times [OF b1(3) times])
  moreover have "fired [e] b b2"
  proof -
    have "insert EVLIST_ACTIVE (flags b e - {EVLIST_TIMEOUT, EVLIST_INSERTED, EVLIST_ACTIVE}) =
        insert EVLIST_ACTIVE (flags b e - {EVLIST_TIMEOUT, EVLIST_INSERTED})" by auto
    then have "evs b2 = (\<lambda>x. if x \<in> set [e] then timed_out (evs b x) else evs b x)"
      using b1(3) b2(3) init1(2)
      by (intro ext) (simp add: event_deleted_def event_activated_def timed_out_def)
    moreover have "remove1 e (eventqueue b) = filter (\<lambda>x. x \<notin> set [e]) (eventqueue b)"
      using core distinct_remove1_removeAll [of "eventqueue b" e]
      by (simp add: core_wf_def inserted_wf_def removeAll_filter_not_eq) (simp add: eq_commute)
    moreover have "activequeues b2 ! p = filter (\<lambda>x. x \<notin> set [e]) (activequeues b ! p) @
                              filter (\<lambda>x. ev_pri (evs b x) = p) [e]" if p: "p < length (activequeues b)" for p
    proof -
      have "distinct (activequeues b ! p)" using core p by (simp add: core_wf_def active_wf_def)
      then have "remove1 e (activequeues b ! p) = filter (\<lambda>x. x \<notin> set [e]) (activequeues b ! p)"
        using distinct_remove1_removeAll [of "activequeues b ! p" e]
        by (simp add: removeAll_filter_not_eq) (simp add: eq_commute)
      moreover have "activequeues b2 = (map (remove1 e) (activequeues b))
          [ev_pri (evs b e) := map (remove1 e) (activequeues b) ! ev_pri (evs b e) @ [e]]"
        using b1(3) b2(3) init1(2) by (simp add: event_deleted_def event_activated_def)
      ultimately show ?thesis using p by (cases "ev_pri (evs b e) = p") simp_all
    qed
    ultimately show ?thesis
      using b1(3) b2(3) frame by (simp add: fired_def event_deleted_def event_activated_def)
  qed
  ultimately show ?thesis using b1(1) b2(1) by (auto simp: fire_def)
qed

lemma fired_nil: "fired [] b b"
  by (simp add: fired_def)

lemma fired_cons:
  assumes one: "fired [e] b b1" and rest: "fired es b1 b2" and new: "e \<notin> set es"
  shows "fired (e # es) b b2"
  unfolding fired_def
proof (intro conjI allI impI)
  have len: "length (activequeues b1) = length (activequeues b)"
    using one by (simp add: fired_def base_frame_def)
  show "evs b2 = (\<lambda>x. if x \<in> set (e # es) then timed_out (evs b x) else evs b x)"
    using one rest new by (auto simp: fired_def)
  show "heap_members (timeheap b2) = heap_members (timeheap b) - set (e # es)"
    using one rest by (auto simp: fired_def)
  show "eventqueue b2 = filter (\<lambda>x. x \<notin> set (e # es)) (eventqueue b)"
    using one rest by (simp add: fired_def conj_commute)
  show "base_frame b b2" using one rest base_frame_trans by (auto simp: fired_def)
  fix p assume p: "p < length (activequeues b)"
  have "filter (\<lambda>x. ev_pri (evs b1 x) = p) es = filter (\<lambda>x. ev_pri (evs b x) = p) es"
    using one by (intro filter_cong) (auto simp: fired_def timed_out_def)
  moreover have "filter (\<lambda>x. x \<notin> set es) (filter (\<lambda>x. ev_pri (evs b x) = p) [e]) =
      filter (\<lambda>x. ev_pri (evs b x) = p) [e]" using new by simp
  ultimately show "activequeues b2 ! p = filter (\<lambda>x. x \<notin> set (e # es)) (activequeues b ! p) @
                              filter (\<lambda>x. ev_pri (evs b x) = p) (e # es)"
    using one rest p len by (simp add: fired_def conj_commute)
qed

lemma steps_fired:
  assumes contract: "epoll_contract ctl interest" and steady: "epoll_steady ctl interest"
  shows "loop_inv interest b \<Longrightarrow> distinct es \<Longrightarrow> set es \<subseteq> heap_members (timeheap b) \<Longrightarrow>
    mh.steps (fire ctl) es b = Some b' \<Longrightarrow> fired es b b'"
proof (induction es arbitrary: b)
  case Nil
  then show ?case by (simp add: fired_nil)
next
  case (Cons e es)
  have "EVLIST_TIMEOUT \<in> flags b e"
    using Cons.prems(1,3) by (auto simp: loop_inv_def base_wf_def core_wf_def timers_wf_def)
  then obtain b1 where b1: "fire ctl e b = Some b1" "loop_inv interest b1" "fired [e] b b1"
    using fire_ok [OF contract steady Cons.prems(1)] by blast
  have "set es \<subseteq> heap_members (timeheap b1)"
    using Cons.prems(2,3) b1(3) by (auto simp: fired_def)
  moreover have "mh.steps (fire ctl) es b1 = Some b'" using Cons.prems(4) b1(1) by simp
  ultimately have "fired es b1 b'" using Cons.IH b1(2) Cons.prems(2) by simp
  then show ?case using fired_cons [OF b1(3)] Cons.prems(2) by simp
qed

text \<open>The loop of the source is the loop of a client of the queue.\<close>

lemma timeout_loop_drain:
  fixes b :: "('e, 'd, 'k) event_base"
  shows "timeout_loop ctl now fuel b = mh.drain timeheap deadlines (fire ctl) now fuel b"
proof (induction fuel arbitrary: b)
  case 0
  then show ?case by simp
next
  case (Suc f)
  have "(case event_del_internal ctl e b of None \<Rightarrow> None
      | Some (_, b) \<Rightarrow> Option.bind (event_active_nolock e {EV_TIMEOUT} b) (timeout_loop ctl now f)) =
      Option.bind (fire ctl e b) (mh.drain timeheap deadlines (fire ctl) now f)" for e
  proof -
    have "timeout_loop ctl now f =
        (mh.drain timeheap deadlines (fire ctl) now f :: ('e, 'd, 'k) event_base \<Rightarrow> _)"
      by (rule ext) (rule Suc)
    then show ?thesis by (simp add: fire_def split: option.split)
  qed
  then show ?case by (simp add: deadlines_def [symmetric] split: option.split)
qed

definition due :: "timeval \<Rightarrow> ('e, 'd, 'k) event_base \<Rightarrow> 'e set" where
  "due now b = {e. EVLIST_TIMEOUT \<in> flags b e \<and> ev_timeout (evs b e) \<le> now}"

lemma loop_inv_timers:
  assumes "loop_inv interest b"
  shows "heap_members (timeheap b) = {e. EVLIST_TIMEOUT \<in> flags b e}"
    "heap_inv (deadlines b) (timeheap b)"
  using assms by (simp_all add: loop_inv_def base_wf_def core_wf_def timers_wf_def)

lemma timeout_process_ok:
  assumes contract: "epoll_contract ctl interest" and steady: "epoll_steady ctl interest"
    and inv: "loop_inv interest b"
  shows "\<exists>es b'. timeout_process ctl b = Some b' \<and> loop_inv interest b' \<and> fired es b b' \<and>
    distinct es \<and> set es = due (gettime b) b \<and> sorted (map (deadlines b) es)"
proof -
  note members = loop_inv_timers(1) and heap = loop_inv_timers(2)
  show ?thesis
  proof (cases "min_heap_empty (timeheap b)")
    case True
    then have "heap_members (timeheap b) = {}"
      using heap_size_card [OF heap [OF inv]] by (simp add: min_heap_empty_def)
    then have "due (gettime b) b = {}" using members [OF inv] by (auto simp: due_def)
    then show ?thesis
      using True inv fired_nil by (intro exI [of _ "[]"] exI [of _ b]) (simp add: timeout_process_def)
  next
    case False
    let ?n = "Suc (min_heap_size (timeheap b))"
    have n: "card (heap_members (timeheap b)) < ?n"
      using heap_size_card [OF heap [OF inv]] by (simp add: min_heap_size_def)
    have handle: "\<exists>c'. fire ctl e c = Some c' \<and> loop_inv interest c' \<and>
        heap_members (timeheap c') = heap_members (timeheap c) - {e} \<and>
        (\<forall>x \<in> heap_members (timeheap c'). deadlines c' x = deadlines c x)"
      if c: "loop_inv interest c" and e: "e \<in> heap_members (timeheap c)" for c e
    proof -
      have "EVLIST_TIMEOUT \<in> flags c e" using members [OF c] e by simp
      then obtain c' where "fire ctl e c = Some c'" "loop_inv interest c'" "fired [e] c c'"
        using fire_ok [OF contract steady c] by blast
      then show ?thesis by (auto simp: fired_def deadlines_def)
    qed
    have "\<exists>es c'. mh.drain timeheap deadlines (fire ctl) (gettime b) ?n b = Some c' \<and>
        mh.steps (fire ctl) es b = Some c' \<and> loop_inv interest c' \<and> distinct es \<and>
        sorted (map (deadlines b) es) \<and>
        set es = {e \<in> heap_members (timeheap b). deadlines b e \<le> gettime b} \<and>
        heap_members (timeheap c') = {e \<in> heap_members (timeheap b). gettime b < deadlines b e}"
      by (rule mh.drain_ok [where P = "loop_inv interest"]) (fact heap handle inv n)+
    then obtain es b' where "mh.drain timeheap deadlines (fire ctl) (gettime b) ?n b = Some b'"
      "mh.steps (fire ctl) es b = Some b'" "loop_inv interest b'" "distinct es"
      "sorted (map (deadlines b) es)"
      "set es = {e \<in> heap_members (timeheap b). deadlines b e \<le> gettime b}" by blast
    then show ?thesis
      using False steps_fired [OF contract steady inv, of es b'] members [OF inv]
      by (intro exI [of _ es] exI [of _ b'])
         (auto simp: timeout_process_def timeout_loop_drain due_def deadlines_def)
  qed
qed

section \<open>Running the active events is safe\<close>

lemma event_persist_closure_ok:
  assumes contract: "epoll_contract ctl interest"
    and inv: "loop_inv interest b" and init: "EVLIST_INIT \<in> flags b e"
    and persist: "ev_closure (evs b e) = EV_CLOSURE_PERSIST"
  shows "\<exists>b'. event_persist_closure ctl mem e b = Some b' \<and> loop_inv interest b' \<and> base_frame b b' \<and>
    (\<forall>x. x \<noteq> e \<longrightarrow> evs b' x = evs b x) \<and> EVLIST_INIT \<in> flags b' e \<and>
    ev_events (evs b' e) = ev_events (evs b e) \<and> ev_fd (evs b' e) = ev_fd (evs b e)"
proof (cases "ev_io_timeout (evs b e) = evutil_timerclear")
  case True
  then show ?thesis using inv init by (simp add: event_persist_closure_def evutil_timerclear_def)
next
  case False
  have wf: "base_wf interest b" and times: "\<And>x. times_ev (evs b x)" using inv by (simp_all add: loop_inv_def)
  have "flags b e \<noteq> {}" using init by auto
  then have nt: "normal (ev_io_timeout (evs b e))" "normal (ev_timeout (evs b e))"
    using times [of e] persist False by (simp_all add: times_ev_def)
  let ?d = "ev_io_timeout (evs b e)" and ?now = "gettime b"
  let ?rel = "if EV_TIMEOUT \<in> ev_res (evs b e) then ev_timeout (evs b e) else ?now"
  define run_at where "run_at = (if evutil_timeradd ?rel ?d < ?now then evutil_timeradd ?now ?d
    else evutil_timeradd ?rel ?d)"
  have now: "normal ?now" by (rule normal_gettime [OF inv])
  then have nrun: "normal run_at" using nt by (simp add: run_at_def)
  obtain r b' where b': "event_add_internal ctl mem e (Some run_at) True b = Some (r, b')" "base_wf interest b'"
    "r = -1 \<and> evs b' = evs b \<and> same_queues b b' \<or> r = 0 \<and> event_added e (Some run_at) True b b'"
    using event_add_ok [OF contract wf init] by blast
  have frame: "base_frame b b'" using b'(3) by (auto simp: same_queues_def event_added_def Let_def)
  have "times_ev (evs b' x)" for x
    using b'(3) times nrun event_added_times [OF _ init times now, of "Some run_at" True b' x] by auto
  then have "loop_inv interest b'" by (rule loop_invI [OF inv b'(2) frame])
  moreover have "\<not> tv_usec (ev_timeout (evs b e)) div 2 ^ 20 \<noteq> tv_usec ?d div 2 ^ 20"
    using nt by (simp add: normal_def)
  moreover have "tv_sec ?d \<noteq> 0 \<or> tv_usec ?d \<noteq> 0"
    using False by (cases ?d) (simp add: evutil_timerclear_def)
  moreover have "evs b' x = evs b x" if "x \<noteq> e" for x
    using b'(3) that by (auto simp: event_added_def Let_def)
  moreover have "EVLIST_INIT \<in> flags b' e \<and> ev_events (evs b' e) = ev_events (evs b e) \<and>
      ev_fd (evs b' e) = ev_fd (evs b e)"
    using b'(3) init by (auto simp: event_added_def Let_def)
  ultimately show ?thesis
    using b'(1) frame by (simp add: event_persist_closure_def Let_def run_at_def)
qed

lemma take_event_ok:
  assumes contract: "epoll_contract ctl interest" and steady: "epoll_steady ctl interest"
    and inv: "loop_inv interest b" and on: "EVLIST_ACTIVE \<in> flags b e"
  shows "\<exists>b'. take_event ctl mem e b = Some b' \<and> loop_inv interest b' \<and> base_frame b b' \<and>
    (\<forall>x. x \<noteq> e \<longrightarrow> evs b' x = evs b x) \<and> EVLIST_INIT \<in> flags b' e \<and>
    ev_events (evs b' e) = ev_events (evs b e) \<and> ev_fd (evs b' e) = ev_fd (evs b e)"
proof -
  have wf: "base_wf interest b" and times: "\<And>x. times_ev (evs b x)" using inv by (simp_all add: loop_inv_def)
  then have core: "core_wf b" and iow: "io_wf interest b" by (simp_all add: base_wf_def)
  have init: "EVLIST_INIT \<in> flags b e" using core_wf_event [OF core, of e] on by (auto simp: event_wf_def)
  have "\<exists>b1. (if EV_PERSIST \<in> ev_events (evs b e) then event_queue_remove e EVLIST_ACTIVE b
             else map_option snd (event_del_internal ctl e b)) = Some b1 \<and> loop_inv interest b1 \<and>
      base_frame b b1 \<and> (\<forall>x. x \<noteq> e \<longrightarrow> evs b1 x = evs b x) \<and> EVLIST_INIT \<in> flags b1 e \<and>
      ev_events (evs b1 e) = ev_events (evs b e) \<and> ev_fd (evs b1 e) = ev_fd (evs b e)"
  proof (cases "EV_PERSIST \<in> ev_events (evs b e)")
    case True
    obtain b1 where b1: "event_queue_remove e EVLIST_ACTIVE b = Some b1" "core_wf b1" "io b1 = io b"
      "kern b1 = kern b" "evs b1 = (evs b)(e := (evs b e)\<lparr>ev_flags := flags b e - {EVLIST_ACTIVE}\<rparr>)"
      "base_frame b b1"
      using take_off_active [OF core, of e] on by auto
    have "io_wf interest b1" by (rule io_wf_cong [OF iow b1(3,4)]) (simp add: b1(5))
    then have wf1: "base_wf interest b1" using b1(2) by (simp add: base_wf_def)
    have "times_ev (evs b1 x)" for x
      using times times_ev_flags [OF times [of e], of "flags b e - {EVLIST_ACTIVE}"]
      by (cases "x = e") (simp_all add: b1(5))
    then have "loop_inv interest b1" by (rule loop_invI [OF inv wf1 b1(6)])
    then show ?thesis
      using True b1(1,5,6) init by simp
  next
    case False
    obtain b1 where b1: "event_del_internal ctl e b = Some (0, b1)" "base_wf interest b1" "event_deleted e b b1"
      using event_del_ok [OF contract steady wf] by blast
    have frame: "base_frame b b1" using b1(3) by (simp add: event_deleted_def)
    have "loop_inv interest b1"
      by (rule loop_invI [OF inv b1(2) frame]) (rule event_deleted_times [OF b1(3) times])
    then show ?thesis
      using False b1(1,3) init frame by (simp add: event_deleted_def)
  qed
  then obtain b1 where b1: "(if EV_PERSIST \<in> ev_events (evs b e) then event_queue_remove e EVLIST_ACTIVE b
             else map_option snd (event_del_internal ctl e b)) = Some b1" "loop_inv interest b1"
      "base_frame b b1" "\<forall>x. x \<noteq> e \<longrightarrow> evs b1 x = evs b x" "EVLIST_INIT \<in> flags b1 e"
      "ev_events (evs b1 e) = ev_events (evs b e)" "ev_fd (evs b1 e) = ev_fd (evs b e)" by blast
  have "\<exists>b2. (if ev_closure (evs b1 e) = EV_CLOSURE_PERSIST then event_persist_closure ctl mem e b1 else Some b1) =
      Some b2 \<and> loop_inv interest b2 \<and> base_frame b1 b2 \<and> (\<forall>x. x \<noteq> e \<longrightarrow> evs b2 x = evs b1 x) \<and>
      EVLIST_INIT \<in> flags b2 e \<and> ev_events (evs b2 e) = ev_events (evs b1 e) \<and> ev_fd (evs b2 e) = ev_fd (evs b1 e)"
    using event_persist_closure_ok [OF contract b1(2,5), of mem] b1(2,5) by simp
  then obtain b2 where b2: "(if ev_closure (evs b1 e) = EV_CLOSURE_PERSIST
      then event_persist_closure ctl mem e b1 else Some b1) = Some b2" "loop_inv interest b2"
      "base_frame b1 b2" "\<forall>x. x \<noteq> e \<longrightarrow> evs b2 x = evs b1 x" "EVLIST_INIT \<in> flags b2 e"
      "ev_events (evs b2 e) = ev_events (evs b1 e)" "ev_fd (evs b2 e) = ev_fd (evs b1 e)" by blast
  have "take_event ctl mem e b = Some b2"
    unfolding take_event_def b1(1) Option.bind.bind_lunit by (rule b2(1))
  then show ?thesis using b1 b2 base_frame_trans [OF b1(3) b2(3)] by simp
qed

lemma process_event_ok:
  assumes contract: "epoll_contract ctl interest" and steady: "epoll_steady ctl interest"
    and cbs: "callbacks_ok ctl interest cb"
    and inv: "loop_inv interest b" and on: "EVLIST_ACTIVE \<in> flags b e"
  shows "\<exists>b'. process_event ctl mem cb e b = Some b' \<and> loop_inv interest b' \<and> keeps cb b b'"
proof -
  obtain b2 where b2: "take_event ctl mem e b = Some b2" "loop_inv interest b2" "base_frame b b2"
    "\<forall>x. x \<noteq> e \<longrightarrow> evs b2 x = evs b x"
    using take_event_ok [OF contract steady inv on] by blast
  have "api_oks ctl (cb (EventCb e (ev_res (evs b2 e))) b2) b2"
    using cbs b2(2) by (simp add: callbacks_ok_def)
  then obtain b3 where b3: "api_calls ctl (cb (EventCb e (ev_res (evs b2 e))) b2) b2 = Some b3"
    "loop_inv interest b3" "time_frame b2 b3"
    "\<forall>x. (\<forall>c \<in> set (cb (EventCb e (ev_res (evs b2 e))) b2). api_target c \<noteq> Some x) \<longrightarrow> evs b3 x = evs b2 x"
    using api_calls_ok [OF contract steady b2(2)] by blast
  have "evs b3 x = evs b x" if x: "EVLIST_ACTIVE \<notin> flags b x" "spares x cb" for x
  proof -
    have "x \<noteq> e" using x(1) on by auto
    moreover have "\<forall>c \<in> set (cb (EventCb e (ev_res (evs b2 e))) b2). api_target c \<noteq> Some x"
      by (intro ballI, rule sparesD [OF x(2), rotated], assumption) (use \<open>x \<noteq> e\<close> in simp)
    ultimately show ?thesis using b3(4) b2(4) by simp
  qed
  moreover have "time_frame b b3" using time_frame_trans [OF base_frame_time [OF b2(3)] b3(3)] .
  ultimately show ?thesis using b2(1) b3(1,2) unfolding process_event_def keeps_def by simp
qed

text \<open>What a run may not be, and what holds of the state it ends in.\<close>

definition safe :: "('a \<Rightarrow> bool) \<Rightarrow> 'a run \<Rightarrow> bool" where
  "safe P x \<longleftrightarrow> (case x of Done y \<Rightarrow> P y | Crash \<Rightarrow> False | Running \<Rightarrow> True)"

lemma safe_simps [simp]: "safe P (Done y) = P y" "safe P Running" "\<not> safe P Crash"
  by (simp_all add: safe_def)

lemma safe_mono: "safe P x \<Longrightarrow> (\<And>y. P y \<Longrightarrow> Q y) \<Longrightarrow> safe Q x"
  by (cases x) simp_all

lemma safe_bind:
  "safe P x \<Longrightarrow> (\<And>y. P y \<Longrightarrow> safe Q (f y)) \<Longrightarrow> safe Q (run_bind x f)"
  by (cases x) simp_all

lemma single_queue_safe:
  assumes contract: "epoll_contract ctl interest" and steady: "epoll_steady ctl interest"
    and cbs: "callbacks_ok ctl interest cb"
  shows "loop_inv interest b \<Longrightarrow> p < length (activequeues b) \<Longrightarrow>
    safe (\<lambda>(c, b'). loop_inv interest b' \<and> keeps cb b b')
      (event_process_active_single_queue ctl mem cb fuel p cnt b)"
proof (induction fuel arbitrary: b cnt)
  case 0
  then show ?case by simp
next
  case (Suc fuel)
  show ?case
  proof (cases "activequeues b ! p")
    case Nil
    then show ?thesis using Suc.prems by simp
  next
    case (Cons e q)
    have "e \<in> set (activequeues b ! p)" using Cons by simp
    then have "EVLIST_ACTIVE \<in> flags b e"
      using Suc.prems by (auto simp: loop_inv_def base_wf_def core_wf_def active_wf_def)
    then obtain b1 where b1: "process_event ctl mem cb e b = Some b1" "loop_inv interest b1"
      "keeps cb b b1"
      using process_event_ok [OF contract steady cbs Suc.prems(1)] by blast
    have "safe (\<lambda>(c, b'). loop_inv interest b' \<and> keeps cb b b')
        (event_process_active_single_queue ctl mem cb fuel p c b1)" for c
      by (rule safe_mono [OF Suc.IH [OF b1(2)]])
         (use Suc.prems(2) keeps_length [OF b1(3)] keeps_trans [OF b1(3)] in auto)
    then show ?thesis using Suc.prems Cons b1 by (simp add: Let_def)
  qed
qed

lemma loop_inv_pop_deferred:
  assumes "loop_inv interest b" "defer_queue b = d # q"
  shows "loop_inv interest (b\<lparr>dcb_queued := (dcb_queued b)(d := False), defer_queue := q,
                              active_count := active_count b - 1\<rparr>)"
proof -
  have def: "deferred_wf b" using assms(1) by (simp add: loop_inv_def base_wf_def core_wf_def)
  have "core_wf (b\<lparr>defer_queue := q, active_count := active_count b - 1,
      dcb_queued := (dcb_queued b)(d := False)\<rparr>)"
    by (rule core_wf_deferred)
       (use assms def in \<open>auto simp: loop_inv_def base_wf_def deferred_wf_def split: if_splits\<close>)
  then show ?thesis
    using assms(1) unfolding defer_update_commute by (simp add: loop_inv_def base_wf_def io_wf_deferred)
qed

lemma deferred_loop_ok:
  assumes contract: "epoll_contract ctl interest" and steady: "epoll_steady ctl interest"
    and cbs: "callbacks_ok ctl interest cb"
  shows "loop_inv interest b \<Longrightarrow> \<exists>b'. deferred_loop ctl cb n b = Some b' \<and> loop_inv interest b' \<and>
    keeps cb b b'"
proof (induction n arbitrary: b)
  case 0
  then show ?case by simp
next
  case (Suc n)
  show ?case
  proof (cases "defer_queue b")
    case Nil
    then show ?thesis using Suc.prems by simp
  next
    case (Cons d q)
    define b1 where "b1 = b\<lparr>dcb_queued := (dcb_queued b)(d := False), defer_queue := q,
                            active_count := active_count b - 1\<rparr>"
    have inv1: "loop_inv interest b1" unfolding b1_def by (rule loop_inv_pop_deferred [OF Suc.prems Cons])
    then have "api_oks ctl (cb (DeferredCb d) b1) b1" using cbs by (simp add: callbacks_ok_def)
    then obtain b2 where b2: "api_calls ctl (cb (DeferredCb d) b1) b1 = Some b2" "loop_inv interest b2"
      "time_frame b1 b2" "\<forall>x. (\<forall>c \<in> set (cb (DeferredCb d) b1). api_target c \<noteq> Some x) \<longrightarrow> evs b2 x = evs b1 x"
      using api_calls_ok [OF contract steady inv1] by blast
    have keep: "keeps cb b b2"
      unfolding keeps_def
    proof (intro conjI allI impI)
      show "time_frame b b2" using b2(3) by (simp add: b1_def time_frame_def)
      fix x assume x: "spares x cb"
      have "\<forall>c \<in> set (cb (DeferredCb d) b1). api_target c \<noteq> Some x"
        by (intro ballI, rule sparesD [OF x, rotated], assumption) simp
      then show "evs b2 x = evs b x" using b2(4) by (simp add: b1_def)
    qed
    have step: "deferred_loop ctl cb (Suc n) b =
        (if event_break b2 then Some b2 else deferred_loop ctl cb n b2)"
      using Cons b2(1) by (simp add: b1_def)
    show ?thesis unfolding step using Suc.IH [OF b2(2)] b2(2) keep keeps_trans [OF keep] by auto
  qed
qed

lemma loop_inv_running_priority:
  "loop_inv interest (b\<lparr>event_running_priority := i\<rparr>) = loop_inv interest b"
  by (simp add: loop_inv_def base_wf_def io_wf_def core_wf_def timers_wf_def inserted_wf_def active_wf_def
      counts_wf_def deferred_wf_def)

lemma process_queues_safe:
  fixes b :: "('e, 'd, 'k) event_base"
  assumes contract: "epoll_contract ctl interest" and steady: "epoll_steady ctl interest"
    and cbs: "callbacks_ok ctl interest cb"
  shows "loop_inv interest b \<Longrightarrow> i + n = length (activequeues b) \<Longrightarrow>
    safe (\<lambda>(c, b'). loop_inv interest b' \<and> keeps cb b b')
      (process_queues ctl mem cb fuel n i c b)"
proof (induction n arbitrary: i c b)
  case 0
  then show ?case by simp
next
  case (Suc n)
  show ?case
  proof (cases "activequeues b ! i = []")
    case True
    then show ?thesis using Suc.IH [of b "i + 1" c] Suc.prems by simp
  next
    case False
    have inv: "loop_inv interest (b\<lparr>event_running_priority := int i\<rparr>)"
      using Suc.prems(1) by (simp add: loop_inv_running_priority)
    have "safe (\<lambda>(c, b'). loop_inv interest b' \<and> keeps cb b b')
        (run_bind (event_process_active_single_queue ctl mem cb fuel i 0 (b\<lparr>event_running_priority := int i\<rparr>))
          (\<lambda>(c, b). if c \<noteq> 0 then Done (c, b) else process_queues ctl mem cb fuel n (i + 1) c b))"
    proof (rule safe_bind [OF single_queue_safe [OF contract steady cbs inv]])
      show "i < length (activequeues (b\<lparr>event_running_priority := int i\<rparr>))" using Suc.prems(2) by simp
      fix y :: "int \<times> ('e, 'd, 'k) event_base"
      assume y: "case y of (c, b') \<Rightarrow> loop_inv interest b' \<and> keeps cb (b\<lparr>event_running_priority := int i\<rparr>) b'"
      obtain c1 b1 where y1: "y = (c1, b1)" by (cases y)
      then have b1: "loop_inv interest b1" "keeps cb b b1" using y by auto
      have "safe (\<lambda>(c, b'). loop_inv interest b' \<and> keeps cb b b') (process_queues ctl mem cb fuel n (i + 1) c1 b1)"
        by (rule safe_mono [OF Suc.IH [OF b1(1)]])
           (use Suc.prems(2) keeps_length [OF b1(2)] keeps_trans [OF b1(2)] in auto)
      then show "safe (\<lambda>(c, b'). loop_inv interest b' \<and> keeps cb b b')
          (case y of (c, b) \<Rightarrow> if c \<noteq> 0 then Done (c, b) else process_queues ctl mem cb fuel n (i + 1) c b)"
        using b1 by (cases "c1 = 0") (simp_all add: y1)
    qed
    then show ?thesis using False Suc.prems(2) by simp
  qed
qed

lemma event_process_active_safe:
  fixes b :: "('e, 'd, 'k) event_base"
  assumes contract: "epoll_contract ctl interest" and steady: "epoll_steady ctl interest"
    and cbs: "callbacks_ok ctl interest cb" and inv: "loop_inv interest b"
  shows "safe (\<lambda>(c, b'). loop_inv interest b' \<and> keeps cb b b') (event_process_active ctl mem cb fuel b)"
  unfolding event_process_active_def
proof (rule safe_bind [OF process_queues_safe [OF contract steady cbs inv]])
  show "0 + length (activequeues b) = length (activequeues b)" by simp
  fix y :: "int \<times> ('e, 'd, 'k) event_base"
  assume y: "case y of (c, b') \<Rightarrow> loop_inv interest b' \<and> keeps cb b b'"
  obtain c1 b1 where y1: "y = (c1, b1)" by (cases y)
  then have b1: "loop_inv interest b1" "keeps cb b b1" using y by auto
  obtain b2 where b2: "deferred_loop ctl cb MAX_DEFERRED b1 = Some b2" "loop_inv interest b2" "keeps cb b1 b2"
    using deferred_loop_ok [OF contract steady cbs b1(1)] by blast
  show "safe (\<lambda>(c, b'). loop_inv interest b' \<and> keeps cb b b')
      (case y of (c, b) \<Rightarrow>
          if c < 0 then Done (-1, b\<lparr>event_running_priority := -1\<rparr>)
          else run_bind (run_of (event_process_deferred_callbacks ctl cb b))
                 (\<lambda>b. Done (c, b\<lparr>event_running_priority := -1\<rparr>)))"
    using b1 b2 keeps_trans [OF b1(2) b2(3)]
    by (simp add: y1 event_process_deferred_callbacks_def loop_inv_running_priority)
qed

section \<open>A ready descriptor\<close>

text \<open>What activating events leaves alone, and that it only adds the active bit.\<close>

definition activates :: "('e \<Rightarrow> bool) \<Rightarrow> ev_what set \<Rightarrow> ('e, 'd, 'k) event_base \<Rightarrow> ('e, 'd, 'k) event_base \<Rightarrow> bool" where
  "activates A ev b b' \<longleftrightarrow>
     (\<forall>x. ev_events (evs b' x) = ev_events (evs b x) \<and> ev_fd (evs b' x) = ev_fd (evs b x) \<and>
          flags b' x = (if A x then insert EVLIST_ACTIVE (flags b x) else flags b x) \<and>
          (A x \<longrightarrow> ev_events (evs b x) \<inter> ev \<subseteq> ev_res (evs b' x)) \<and>
          (EVLIST_ACTIVE \<in> flags b x \<longrightarrow> ev_res (evs b x) \<subseteq> ev_res (evs b' x)) \<and>
          (\<not> A x \<longrightarrow> evs b' x = evs b x)) \<and>
     io b' = io b \<and> kern b' = kern b \<and> timeheap b' = timeheap b \<and> base_frame b b'"

lemma activate_all_ok:
  shows "loop_inv interest b \<Longrightarrow> (\<And>e. e \<in> set es \<Longrightarrow> EVLIST_INIT \<in> flags b e) \<Longrightarrow>
    \<exists>b'. activate_all ev es b = Some b' \<and> loop_inv interest b' \<and>
      activates (\<lambda>x. x \<in> set es \<and> ev_events (evs b x) \<inter> ev \<noteq> {}) ev b b'"
proof (induction es arbitrary: b)
  case Nil
  then show ?case by (simp add: activates_def)
next
  case (Cons e es)
  have wf: "base_wf interest b" and times: "\<And>x. times_ev (evs b x)"
    using Cons.prems(1) by (simp_all add: loop_inv_def)
  have init: "EVLIST_INIT \<in> flags b e" using Cons.prems(2) by simp
  show ?case
  proof (cases "ev_events (evs b e) \<inter> ev = {}")
    case True
    obtain b' where "activate_all ev es b = Some b'" "loop_inv interest b'"
      "activates (\<lambda>x. x \<in> set es \<and> ev_events (evs b x) \<inter> ev \<noteq> {}) ev b b'"
      using Cons.IH [OF Cons.prems(1)] Cons.prems(2) by auto
    moreover have "(\<lambda>x. x \<in> set (e # es) \<and> ev_events (evs b x) \<inter> ev \<noteq> {}) =
        (\<lambda>x. x \<in> set es \<and> ev_events (evs b x) \<inter> ev \<noteq> {})" using True by auto
    ultimately show ?thesis using True by simp
  next
    case False
    let ?r = "ev_events (evs b e) \<inter> ev"
    obtain b1 where b1: "event_active_nolock e ?r b = Some b1" "base_wf interest b1" "event_activated e ?r b b1"
      using event_active_ok [OF wf init] by blast
    have frame: "base_frame b b1" using b1(3) by (simp add: event_activated_def)
    have inv1: "loop_inv interest b1"
      by (rule loop_invI [OF Cons.prems(1) b1(2) frame]) (rule event_activated_times [OF b1(3) init times])
    have evs1: "evs b1 = (evs b)(e := (evs b e)\<lparr>ev_flags := insert EVLIST_ACTIVE (flags b e),
        ev_res := (if EVLIST_ACTIVE \<in> flags b e then ev_res (evs b e) \<union> ?r else ?r)\<rparr>)"
      using b1(3) by (simp add: event_activated_def)
    have "EVLIST_INIT \<in> flags b1 x" if "x \<in> set es" for x
      using Cons.prems(2) [of x] that init by (simp add: evs1)
    then obtain b' where b': "activate_all ev es b1 = Some b'" "loop_inv interest b'"
      "activates (\<lambda>x. x \<in> set es \<and> ev_events (evs b1 x) \<inter> ev \<noteq> {}) ev b1 b'"
      using Cons.IH [OF inv1] by blast
    have "activate_all ev (e # es) b = Some b'" using False b1(1) b'(1) by simp
    moreover have "activates (\<lambda>x. x \<in> set (e # es) \<and> ev_events (evs b x) \<inter> ev \<noteq> {}) ev b b'"
      unfolding activates_def
    proof (intro conjI allI)
      show "io b' = io b" "kern b' = kern b" "timeheap b' = timeheap b"
        using b'(3) b1(3) by (simp_all add: activates_def event_activated_def)
      show "base_frame b b'"
        using b'(3) base_frame_trans [OF frame] by (simp add: activates_def)
      fix x
      have x: "ev_events (evs b' x) = ev_events (evs b1 x)" "ev_fd (evs b' x) = ev_fd (evs b1 x)"
        "flags b' x = (if x \<in> set es \<and> ev_events (evs b1 x) \<inter> ev \<noteq> {}
           then insert EVLIST_ACTIVE (flags b1 x) else flags b1 x)"
        "x \<in> set es \<and> ev_events (evs b1 x) \<inter> ev \<noteq> {} \<longrightarrow> ev_events (evs b1 x) \<inter> ev \<subseteq> ev_res (evs b' x)"
        "EVLIST_ACTIVE \<in> flags b1 x \<longrightarrow> ev_res (evs b1 x) \<subseteq> ev_res (evs b' x)"
        "\<not> (x \<in> set es \<and> ev_events (evs b1 x) \<inter> ev \<noteq> {}) \<longrightarrow> evs b' x = evs b1 x"
        using b'(3) unfolding activates_def by blast+
      have same: "ev_events (evs b1 x) = ev_events (evs b x)" "ev_fd (evs b1 x) = ev_fd (evs b x)"
        by (simp_all add: evs1)
      show "ev_events (evs b' x) = ev_events (evs b x)" "ev_fd (evs b' x) = ev_fd (evs b x)"
        using x(1,2) same by simp_all
      show "flags b' x = (if x \<in> set (e # es) \<and> ev_events (evs b x) \<inter> ev \<noteq> {}
          then insert EVLIST_ACTIVE (flags b x) else flags b x)"
        using x(3) False unfolding same by (auto simp: evs1)
      show "x \<in> set (e # es) \<and> ev_events (evs b x) \<inter> ev \<noteq> {} \<longrightarrow> ev_events (evs b x) \<inter> ev \<subseteq> ev_res (evs b' x)"
      proof (cases "x = e")
        case True
        then have "EVLIST_ACTIVE \<in> flags b1 x" "?r \<subseteq> ev_res (evs b1 x)" by (simp_all add: evs1)
        then show ?thesis using x(5) True by auto
      next
        case False
        then show ?thesis using x(4) unfolding same by simp
      qed
      show "\<not> (x \<in> set (e # es) \<and> ev_events (evs b x) \<inter> ev \<noteq> {}) \<longrightarrow> evs b' x = evs b x"
        using x(6) False unfolding same by (auto simp: evs1)
      show "EVLIST_ACTIVE \<in> flags b x \<longrightarrow> ev_res (evs b x) \<subseteq> ev_res (evs b' x)"
      proof
        assume on: "EVLIST_ACTIVE \<in> flags b x"
        then have "EVLIST_ACTIVE \<in> flags b1 x" "ev_res (evs b x) \<subseteq> ev_res (evs b1 x)"
          by (auto simp: evs1)
        then show "ev_res (evs b x) \<subseteq> ev_res (evs b' x)" using x(5) by auto
      qed
    qed
    ultimately show ?thesis using b'(2) by blast
  qed
qed

text \<open>Who is made active by the answers of the kernel.\<close>

definition asked :: "(int \<times> epoll_ev set) list \<Rightarrow> ('e, 'd, 'k) event_base \<Rightarrow> 'e \<Rightarrow> bool" where
  "asked ready b e \<longleftrightarrow> EVLIST_INSERTED \<in> flags b e \<and>
     (\<exists>(fd, w) \<in> set ready. ev_fd (evs b e) = fd \<and> epoll_what w \<noteq> {} \<and>
        ev_events (evs b e) \<inter> insert EV_ET (epoll_what w) \<noteq> {})"

lemma evmap_io_active_ok:
  assumes inv: "loop_inv interest b" and fd: "0 \<le> fd" and watched: "interest (kern b) fd \<noteq> None"
  shows "\<exists>b'. evmap_io_active fd ev b = Some b' \<and> loop_inv interest b' \<and>
    activates (\<lambda>x. EVLIST_INSERTED \<in> flags b x \<and> ev_fd (evs b x) = fd \<and> ev_events (evs b x) \<inter> ev \<noteq> {}) ev b b'"
proof -
  have iow: "io_wf interest b" and core: "core_wf b" using inv by (simp_all add: loop_inv_def base_wf_def)
  have em: "evmap_inv (\<lambda>e. ev_events (evs b e)) interest (io b) (kern b)" using iow by (simp add: io_wf_def)
  then have "inout (interest (kern b) fd) = epoll_bits (readers (\<lambda>e. ev_events (evs b e)) (fd_events (io b) fd))
      (writers (\<lambda>e. ev_events (evs b e)) (fd_events (io b) fd))"
    using fd by (simp add: evmap_inv_def)
  moreover have "inout (interest (kern b) fd) \<noteq> None" using watched by simp
  ultimately have "fd_events (io b) fd \<noteq> []" by (metis epoll_bits_def readers_writers_simps(1,2))
  then obtain c where c: "io_entries (io b) (nat fd) = Some c"
    using fd by (cases "io_entries (io b) (nat fd)") (simp_all add: fd_events_def)
  then have n: "nat fd < nentries (io b)" using em by (simp add: evmap_inv_def)
  have es: "io_events c = fd_events (io b) fd" using c fd by (simp add: fd_events_def)
  have on: "set (io_events c) = {e. EVLIST_INSERTED \<in> flags b e \<and> ev_fd (evs b e) = fd}"
    using iow fd es by (simp add: io_wf_def)
  have "EVLIST_INIT \<in> flags b e" if "e \<in> set (io_events c)" for e
    using core_wf_event [OF core, of e] on that by (auto simp: event_wf_def)
  from activate_all_ok [OF inv this, of "io_events c" ev]
  obtain b' where b': "activate_all ev (io_events c) b = Some b'" "loop_inv interest b'"
    "activates (\<lambda>x. x \<in> set (io_events c) \<and> ev_events (evs b x) \<inter> ev \<noteq> {}) ev b b'" by auto
  have "evmap_io_active fd ev b = Some b'"
    using fd n c b'(1) by (simp add: evmap_io_active_def)
  moreover have "(\<lambda>x. x \<in> set (io_events c) \<and> ev_events (evs b x) \<inter> ev \<noteq> {}) =
      (\<lambda>x. EVLIST_INSERTED \<in> flags b x \<and> ev_fd (evs b x) = fd \<and> ev_events (evs b x) \<inter> ev \<noteq> {})"
    using on by auto
  ultimately show ?thesis using b'(2,3) by auto
qed

lemma epoll_ready_ok:
  shows "loop_inv interest b \<Longrightarrow>
    (\<And>fd w. (fd, w) \<in> set ready \<Longrightarrow> 0 \<le> fd \<and> interest (kern b) fd \<noteq> None) \<Longrightarrow>
    \<exists>b'. epoll_ready ready b = Some b' \<and> loop_inv interest b' \<and>
      (\<forall>x. ev_events (evs b' x) = ev_events (evs b x) \<and> ev_fd (evs b' x) = ev_fd (evs b x) \<and>
           flags b' x = (if asked ready b x then insert EVLIST_ACTIVE (flags b x) else flags b x) \<and>
           (\<not> asked ready b x \<longrightarrow> evs b' x = evs b x)) \<and>
      base_frame b b'"
proof (induction ready arbitrary: b)
  case Nil
  then show ?case by (simp add: asked_def)
next
  case (Cons r ready)
  obtain fd w where r: "r = (fd, w)" by (cases r)
  show ?case
  proof (cases "epoll_what w = {}")
    case True
    then have ask: "asked (r # ready) b = asked ready b" by (intro ext) (auto simp: asked_def r)
    have rest: "(fd', w') \<in> set ready \<Longrightarrow> 0 \<le> fd' \<and> interest (kern b) fd' \<noteq> None" for fd' w'
      by (rule Cons.prems(2) [where w = w']) simp
    have "epoll_ready (r # ready) b = epoll_ready ready b" using True r by simp
    then show ?thesis using Cons.IH [OF Cons.prems(1) rest] unfolding ask by simp
  next
    case False
    let ?ev = "insert EV_ET (epoll_what w)"
    have fd: "0 \<le> fd" "interest (kern b) fd \<noteq> None" using Cons.prems(2) [of fd w] r by simp_all
    obtain b1 where b1: "evmap_io_active fd ?ev b = Some b1" "loop_inv interest b1"
      "activates (\<lambda>x. EVLIST_INSERTED \<in> flags b x \<and> ev_fd (evs b x) = fd \<and>
         ev_events (evs b x) \<inter> ?ev \<noteq> {}) ?ev b b1"
      using evmap_io_active_ok [OF Cons.prems(1) fd] by blast
    have same: "ev_events (evs b1 x) = ev_events (evs b x)" "ev_fd (evs b1 x) = ev_fd (evs b x)"
      "flags b1 x = (if EVLIST_INSERTED \<in> flags b x \<and> ev_fd (evs b x) = fd \<and> ev_events (evs b x) \<inter> ?ev \<noteq> {}
         then insert EVLIST_ACTIVE (flags b x) else flags b x)"
      "\<not> (EVLIST_INSERTED \<in> flags b x \<and> ev_fd (evs b x) = fd \<and> ev_events (evs b x) \<inter> ?ev \<noteq> {}) \<longrightarrow>
         evs b1 x = evs b x" for x
      using b1(3) unfolding activates_def by blast+
    have frame: "base_frame b b1" and kern: "kern b1 = kern b"
      using b1(3) by (simp_all add: activates_def)
    obtain b' where b': "epoll_ready ready b1 = Some b'" "loop_inv interest b'"
      "\<And>x. ev_events (evs b' x) = ev_events (evs b1 x) \<and> ev_fd (evs b' x) = ev_fd (evs b1 x) \<and>
           flags b' x = (if asked ready b1 x then insert EVLIST_ACTIVE (flags b1 x) else flags b1 x) \<and>
           (\<not> asked ready b1 x \<longrightarrow> evs b' x = evs b1 x)"
      "base_frame b1 b'"
    proof -
      have "(fd', w') \<in> set ready \<Longrightarrow> 0 \<le> fd' \<and> interest (kern b1) fd' \<noteq> None" for fd' w'
        unfolding kern by (rule Cons.prems(2) [where w = w']) simp
      then show thesis using Cons.IH [OF b1(2)] that by (metis (lifting))
    qed
    have ask: "asked (r # ready) b x \<longleftrightarrow>
        EVLIST_INSERTED \<in> flags b x \<and> ev_fd (evs b x) = fd \<and> ev_events (evs b x) \<inter> ?ev \<noteq> {} \<or> asked ready b1 x" for x
      using False by (auto simp: asked_def r same)
    have "flags b' x = (if asked (r # ready) b x then insert EVLIST_ACTIVE (flags b x) else flags b x)" for x
      using b'(3) [of x] same(3) [of x] ask [of x] by (cases "asked ready b1 x") (simp_all add: insert_absorb)
    moreover have "\<not> asked (r # ready) b x \<longrightarrow> evs b' x = evs b x" for x
      using b'(3) [of x] same(4) [of x] ask [of x] by simp
    moreover have "epoll_ready (r # ready) b = Some b'" using False r b1(1) b'(1) by simp
    ultimately show ?thesis
      using b'(2,3) same base_frame_trans [OF frame b'(4)] by auto
  qed
qed

text \<open>The kernel, as epoll_wait(2) documents it.\<close>

definition epoll_wait_contract :: "'k epoll_wait \<Rightarrow> ('k \<Rightarrow> int \<rightharpoonup> epoll_ev set) \<Rightarrow> bool" where
  "epoll_wait_contract wait interest \<longleftrightarrow>
     (\<forall>maxevents ms k now. case wait maxevents ms k now of
        (res, now', k') \<Rightarrow>
          interest k' = interest k \<and> (normal now \<longrightarrow> normal now') \<and>
          (case res of
             Inl _ \<Rightarrow> True
           | Inr ready \<Rightarrow> length ready \<le> maxevents \<and>
               (\<forall>(fd, w) \<in> set ready. 0 \<le> fd \<and> interest k fd \<noteq> None)))"

lemma loop_inv_kern:
  assumes "loop_inv interest b" "interest k = interest (kern b)" "normal now"
  shows "loop_inv interest (b\<lparr>kern := k, clock := now\<rparr>)"
proof -
  have "evmap_inv (\<lambda>e. ev_events (evs b e)) interest (io b) (kern b)"
    using assms(1) by (simp add: loop_inv_def base_wf_def io_wf_def)
  then have "evmap_inv (\<lambda>e. ev_events (evs b e)) interest (io b) k"
    using assms(2) by (simp add: evmap_inv_def)
  then show ?thesis
    using assms(1,3)
    by (simp add: loop_inv_def base_wf_def io_wf_def core_wf_def timers_wf_def inserted_wf_def active_wf_def
        counts_wf_def deferred_wf_def)
qed

lemma loop_inv_nevents: "loop_inv interest (b\<lparr>ep_nevents := n\<rparr>) = loop_inv interest b"
proof -
  have "deadlines (b\<lparr>ep_nevents := n\<rparr>) = deadlines b" by (rule ext) (simp add: deadlines_def)
  then show ?thesis
    by (simp add: loop_inv_def base_wf_def io_wf_def core_wf_def timers_wf_def inserted_wf_def active_wf_def
        counts_wf_def deferred_wf_def)
qed

lemma epoll_dispatch_ok:
  assumes contract: "epoll_wait_contract wait interest" and inv: "loop_inv interest b"
  shows "\<exists>r b'. epoll_dispatch wait alloc tv b = Some (r, b') \<and> loop_inv interest b' \<and>
    (r = 0 \<or> r = -1) \<and> use_monotonic b' = use_monotonic b \<and>
    (\<forall>e. EVLIST_INSERTED \<notin> flags b e \<longrightarrow> evs b' e = evs b e) \<and>
    clock b' = fst (snd (wait (ep_nevents b) (epoll_timeout tv) (kern b) (clock b)))"
proof -
  obtain res now k where w: "wait (ep_nevents b) (epoll_timeout tv) (kern b) (clock b) = (res, now, k)"
    by (cases "wait (ep_nevents b) (epoll_timeout tv) (kern b) (clock b)") auto
  have k: "interest k = interest (kern b)" "normal now"
    and ready: "\<And>rd. res = Inr rd \<Longrightarrow> length rd \<le> ep_nevents b \<and>
               (\<forall>(fd, w) \<in> set rd. 0 \<le> fd \<and> interest (kern b) fd \<noteq> None)"
    using contract [unfolded epoll_wait_contract_def, THEN spec [where x = "ep_nevents b"],
        THEN spec [where x = "epoll_timeout tv"], THEN spec [where x = "kern b"],
        THEN spec [where x = "clock b"]] w inv
    by (auto simp: loop_inv_def)
  define b1 where "b1 = b\<lparr>kern := k, clock := now\<rparr>"
  have inv1: "loop_inv interest b1" unfolding b1_def by (rule loop_inv_kern [OF inv k])
  show ?thesis
  proof (cases res)
    case (Inl err)
    then show ?thesis using w inv1 by (simp add: epoll_dispatch_def b1_def)
  next
    case (Inr rd)
    have rd: "0 \<le> fd \<and> interest (kern b1) fd \<noteq> None" if "(fd, w) \<in> set rd" for fd w
      using ready [OF Inr] that k(1) by (auto simp: b1_def)
    obtain b2 where b2: "epoll_ready rd b1 = Some b2" "loop_inv interest b2" "base_frame b1 b2"
      "\<forall>x. \<not> asked rd b1 x \<longrightarrow> evs b2 x = evs b1 x"
      using epoll_ready_ok [OF inv1, of rd] rd by blast
    have "evs b2 e = evs b e" if "EVLIST_INSERTED \<notin> flags b e" for e
      using b2(4) that by (simp add: b1_def asked_def)
    moreover    have "epoll_dispatch wait alloc tv b =
        Some (0, if length rd = ep_nevents b2 \<and> ep_nevents b2 < MAX_NEVENT \<and> alloc
                 then b2\<lparr>ep_nevents := ep_nevents b2 * 2\<rparr> else b2)"
      using w Inr ready [OF Inr] b2(1) by (simp add: epoll_dispatch_def b1_def)
    ultimately show ?thesis using b2(2,3) w by (simp add: loop_inv_nevents base_frame_def b1_def)
  qed
qed

section \<open>Microseconds\<close>

definition us :: "timeval \<Rightarrow> int" where
  "us t = tv_sec t * 1000000 + tv_usec t"

lemma us_le: "normal s \<Longrightarrow> normal t \<Longrightarrow> s \<le> t \<longleftrightarrow> us s \<le> us t"
  by (auto simp: normal_def us_def timeval_le evutil_timercmp_def)

lemma us_less: "normal s \<Longrightarrow> normal t \<Longrightarrow> s < t \<longleftrightarrow> us s < us t"
  using us_le [of t s] by (simp add: not_le [symmetric])

lemma us_timeradd [simp]: "us (evutil_timeradd s t) = us s + us t"
  by (simp add: us_def evutil_timeradd_def Let_def)

lemma us_timersub [simp]: "us (evutil_timersub s t) = us s - us t"
  by (simp add: us_def evutil_timersub_def Let_def)

lemma us_clear [simp]: "us evutil_timerclear = 0"
  by (simp add: us_def evutil_timerclear_def)

lemma timersub_nonneg:
  assumes "normal s" "normal t" "t < s"
  shows "tv_sec (evutil_timersub s t) \<ge> 0 \<and> tv_usec (evutil_timersub s t) \<ge> 0"
  using assms by (auto simp: normal_def evutil_timersub_def timeval_less evutil_timercmp_def Let_def split: if_splits)

section \<open>How long the loop waits\<close>

lemma pending_normal:
  assumes "loop_inv interest b" "EVLIST_TIMEOUT \<in> flags b e"
  shows "normal (ev_timeout (evs b e))"
  using assms by (simp add: loop_inv_def times_ev_def)

lemma timeout_next_ok:
  assumes inv: "loop_inv interest b"
  shows "\<exists>r. timeout_next b = Some r \<and>
    (case r of
       None \<Rightarrow> \<forall>e. EVLIST_TIMEOUT \<notin> flags b e
     | Some tv \<Rightarrow> normal tv \<and> 0 \<le> us tv \<and>
         (\<exists>e. EVLIST_TIMEOUT \<in> flags b e \<and>
              us tv = max 0 (us (ev_timeout (evs b e)) - us (gettime b)) \<and>
              (\<forall>x. EVLIST_TIMEOUT \<in> flags b x \<longrightarrow> ev_timeout (evs b e) \<le> ev_timeout (evs b x))))"
proof -
  obtain r where r: "min_heap_top (timeheap b) = Some r"
    "case r of None \<Rightarrow> heap_members (timeheap b) = {}
     | Some e \<Rightarrow> e \<in> heap_members (timeheap b) \<and>
         (\<forall>x \<in> heap_members (timeheap b). deadlines b e \<le> deadlines b x)"
    using mh.top [OF loop_inv_timers(2) [OF inv]] by blast
  show ?thesis
  proof (cases r)
    case None
    then show ?thesis using r loop_inv_timers(1) [OF inv] by (auto simp: timeout_next_def)
  next
    case (Some e)
    have on: "EVLIST_TIMEOUT \<in> flags b e"
      and least: "\<And>x. EVLIST_TIMEOUT \<in> flags b x \<Longrightarrow> ev_timeout (evs b e) \<le> ev_timeout (evs b x)"
      using r(2) Some loop_inv_timers(1) [OF inv] by (auto simp: deadlines_def)
    let ?d = "ev_timeout (evs b e)" and ?now = "gettime b"
    have n: "normal ?d" "normal ?now" using pending_normal [OF inv on] normal_gettime [OF inv] by simp_all
    show ?thesis
    proof (cases "?d \<le> ?now")
      case True
      then have "timeout_next b = Some (Some evutil_timerclear)"
        using r(1) Some by (simp add: timeout_next_def Let_def)
      moreover have "max 0 (us ?d - us ?now) = 0" using True us_le [OF n] by simp
      ultimately show ?thesis using on least by auto
    next
      case False
      then have lt: "?now < ?d" by simp
      then have "timeout_next b = Some (Some (evutil_timersub ?d ?now))"
        using r(1) Some False timersub_nonneg [OF n lt] by (simp add: timeout_next_def Let_def)
      moreover have "max 0 (us ?d - us ?now) = us (evutil_timersub ?d ?now)"
        using lt us_less [OF n(2,1)] by simp
      moreover have "normal (evutil_timersub ?d ?now)" using n by simp
      ultimately show ?thesis using on least lt us_less [OF n(2,1)] by auto
    qed
  qed
qed

lemma epoll_timeout_bounds:
  assumes "normal tv" "0 \<le> us tv"
  shows "0 \<le> epoll_timeout (Some tv) \<and> epoll_timeout (Some tv) \<le> MAX_EPOLL_TIMEOUT_MSEC \<and>
    1000 * epoll_timeout (Some tv) < us tv + 1000 \<and>
    (us tv \<le> 1000 * MAX_EPOLL_TIMEOUT_MSEC \<longrightarrow> us tv \<le> 1000 * epoll_timeout (Some tv))"
proof -
  have sec: "0 \<le> tv_sec tv" using assms by (simp add: normal_def us_def)
  have u: "0 \<le> tv_usec tv" "tv_usec tv < 1000000" using assms by (simp_all add: normal_def)
  define m where "m = tv_sec tv * 1000 + (tv_usec tv + 999) div 1000"
  have m: "us tv \<le> 1000 * m" "1000 * m < us tv + 1000" "0 \<le> m"
    using u sec by (simp_all add: m_def us_def)
  have msec: "evutil_tv_to_msec tv = (if tv_sec tv > MAX_SECONDS_IN_MSEC_LONG then -1 else m)"
    using u by (simp add: evutil_tv_to_msec_def m_def)
  have big: "m > MAX_EPOLL_TIMEOUT_MSEC" if "tv_sec tv > MAX_SECONDS_IN_MSEC_LONG"
    using that u by (simp add: m_def MAX_SECONDS_IN_MSEC_LONG_def MAX_EPOLL_TIMEOUT_MSEC_def)
  show ?thesis
    using m msec big by (auto simp: epoll_timeout_def Let_def MAX_EPOLL_TIMEOUT_MSEC_def split: if_splits)
qed

section \<open>A clock that runs backwards\<close>

lemma shift_deadlines_evs:
  "distinct es \<Longrightarrow>
   evs (shift_deadlines off es b) =
     (\<lambda>e. if e \<in> set es then (evs b e)\<lparr>ev_timeout := evutil_timersub (ev_timeout (evs b e)) off\<rparr> else evs b e)"
proof (induction es arbitrary: b)
  case (Cons e es)
  show ?case
  proof
    fix x show "evs (shift_deadlines off (e # es) b) x =
        (if x \<in> set (e # es) then (evs b x)\<lparr>ev_timeout := evutil_timersub (ev_timeout (evs b x)) off\<rparr> else evs b x)"
      using Cons by (cases "evs b x") auto
  qed
qed simp

lemma shift_deadlines_same:
  "timeheap (shift_deadlines off es b) = timeheap b \<and> eventqueue (shift_deadlines off es b) = eventqueue b \<and>
   activequeues (shift_deadlines off es b) = activequeues b \<and> event_count (shift_deadlines off es b) = event_count b \<and>
   event_count_active (shift_deadlines off es b) = event_count_active b \<and>
   defer_queue (shift_deadlines off es b) = defer_queue b \<and> active_count (shift_deadlines off es b) = active_count b \<and>
   dcb_queued (shift_deadlines off es b) = dcb_queued b \<and> io (shift_deadlines off es b) = io b \<and>
   kern (shift_deadlines off es b) = kern b \<and> tv_cache (shift_deadlines off es b) = tv_cache b \<and>
   clock (shift_deadlines off es b) = clock b \<and> event_tv (shift_deadlines off es b) = event_tv b"
  by (induction es arbitrary: b) simp_all

lemma timers_wf_shifted:
  assumes inv: "loop_inv interest b" and off: "normal off"
    and b': "timeheap b' = timeheap b" "\<And>e. flags b' e = flags b e"
    "\<And>e. EVLIST_TIMEOUT \<in> flags b e \<Longrightarrow> ev_timeout (evs b' e) = evutil_timersub (ev_timeout (evs b e)) off"
  shows "timers_wf b'"
proof -
  have "heap_inv (deadlines b') (timeheap b)"
  proof (rule mh.rekey [OF loop_inv_timers(2) [OF inv]])
    fix x y assume xy: "x \<in> heap_members (timeheap b)" "y \<in> heap_members (timeheap b)"
      "deadlines b x \<le> deadlines b y"
    then have on: "EVLIST_TIMEOUT \<in> flags b x" "EVLIST_TIMEOUT \<in> flags b y"
      using loop_inv_timers(1) [OF inv] by auto
    note n = pending_normal [OF inv on(1)] pending_normal [OF inv on(2)]
    have "us (ev_timeout (evs b x)) \<le> us (ev_timeout (evs b y))"
      using xy(3) us_le [OF n] by (simp add: deadlines_def)
    then show "deadlines b' x \<le> deadlines b' y"
      using us_le [of "evutil_timersub (ev_timeout (evs b x)) off" "evutil_timersub (ev_timeout (evs b y)) off"]
        n off by (simp add: deadlines_def b'(3) on)
  qed
  then show ?thesis using loop_inv_timers(1) [OF inv] by (simp add: timers_wf_def b'(1,2))
qed

lemma timeout_correct_ok:
  assumes inv: "loop_inv interest b"
  shows "\<exists>b'. timeout_correct b = Some b' \<and> loop_inv interest b' \<and> (use_monotonic b \<longrightarrow> b' = b) \<and>
    (\<forall>e. flags b' e = flags b e)"
proof -
  let ?tv = "gettime b"
  have ntv: "normal ?tv" by (rule normal_gettime [OF inv])
  have core: "core_wf b" and iow: "io_wf interest b" using inv by (simp_all add: loop_inv_def base_wf_def)
  have deadlines_tv: "deadlines (c\<lparr>event_tv := t\<rparr>) = deadlines c" for c :: "('a, 'c, 'b) event_base" and t
    by simp
  consider "use_monotonic b" | "\<not> use_monotonic b" "?tv \<ge> event_tv b" | "\<not> use_monotonic b" "\<not> ?tv \<ge> event_tv b"
    by blast
  then show ?thesis
  proof cases
    case 1
    then show ?thesis using inv by (simp add: timeout_correct_def)
  next
    case 2
    have "loop_inv interest (b\<lparr>event_tv := ?tv\<rparr>)"
      using inv ntv
      by (simp add: loop_inv_def base_wf_def io_wf_def core_wf_def timers_wf_def inserted_wf_def active_wf_def
          counts_wf_def deferred_wf_def)
    then show ?thesis using 2 by (simp add: timeout_correct_def)
  next
    case 3
    let ?off = "evutil_timersub (event_tv b) ?tv"
    let ?cells = "map (hp_p (timeheap b)) [0..<hp_n (timeheap b)]"
    have off: "normal ?off" using inv ntv by (simp add: loop_inv_def)
    have filled: "heap_filled (heap_members (timeheap b)) (timeheap b)"
      using loop_inv_timers(2) [OF inv] by (simp add: heap_inv_def)
    have some: "\<exists>x. hp_p (timeheap b) j = Some x \<and> hp_idx (timeheap b) x = int j" if "j < hp_n (timeheap b)" for j
      using heap_filled_cell [OF filled that] by metis
    have none: "None \<notin> set ?cells" using some by force
    have dist: "distinct (map the ?cells)"
      unfolding distinct_conv_nth
    proof (intro allI impI)
      fix i j assume ij: "i < length (map the ?cells)" "j < length (map the ?cells)" "i \<noteq> j"
      obtain x where x: "hp_p (timeheap b) i = Some x" "hp_idx (timeheap b) x = int i"
        using some [of i] ij by auto
      obtain y where y: "hp_p (timeheap b) j = Some y" "hp_idx (timeheap b) y = int j"
        using some [of j] ij by auto
      show "map the ?cells ! i \<noteq> map the ?cells ! j" using x y ij by auto
    qed
    have mem: "set (map the ?cells) = {e. EVLIST_TIMEOUT \<in> flags b e}"
    proof -
      have "set (map the ?cells) = heap_members (timeheap b)"
      proof (intro equalityI subsetI)
        fix x assume "x \<in> set (map the ?cells)"
        then obtain j where j: "j < hp_n (timeheap b)" "x = the (hp_p (timeheap b) j)" by auto
        then show "x \<in> heap_members (timeheap b)" using heap_filled_cell [OF filled j(1)] by force
      next
        fix x assume "x \<in> heap_members (timeheap b)"
        then obtain j where "j < hp_n (timeheap b)" "hp_p (timeheap b) j = Some x"
          using filled unfolding heap_filled_def by blast
        then show "x \<in> set (map the ?cells)" by (auto simp: image_iff intro!: bexI [of _ j])
      qed
      then show ?thesis using loop_inv_timers(1) [OF inv] by simp
    qed
    define b1 where "b1 = shift_deadlines ?off (map the ?cells) b"
    have evs1: "evs b1 e = (if EVLIST_TIMEOUT \<in> flags b e
        then (evs b e)\<lparr>ev_timeout := evutil_timersub (ev_timeout (evs b e)) ?off\<rparr> else evs b e)" for e
      unfolding b1_def shift_deadlines_evs [OF dist] mem by simp
    have same1: "timeheap b1 = timeheap b" "eventqueue b1 = eventqueue b" "activequeues b1 = activequeues b"
      "event_count b1 = event_count b" "event_count_active b1 = event_count_active b"
      "defer_queue b1 = defer_queue b" "active_count b1 = active_count b" "dcb_queued b1 = dcb_queued b"
      "io b1 = io b" "kern b1 = kern b" "tv_cache b1 = tv_cache b" "clock b1 = clock b"
      using shift_deadlines_same [of ?off "map the ?cells" b] by (simp_all add: b1_def)
    have fl: "flags b1 e = flags b e" "ev_pri (evs b1 e) = ev_pri (evs b e)" "ev_events (evs b1 e) = ev_events (evs b e)"
      "ev_fd (evs b1 e) = ev_fd (evs b e)" "ev_closure (evs b1 e) = ev_closure (evs b e)"
      "ev_io_timeout (evs b1 e) = ev_io_timeout (evs b e)" for e by (simp_all add: evs1)
    have "timers_wf b1"
      by (rule timers_wf_shifted [OF inv off same1(1)]) (simp_all add: fl, simp add: evs1)
    then have core1: "core_wf b1"
      using core by (simp add: core_wf_def inserted_wf_def active_wf_def counts_wf_def deferred_wf_def same1 fl event_wf_def)
    have "io_wf interest b1" by (rule io_wf_cong [OF iow same1(9,10)]) (simp add: fl)
    moreover have "times_ev (evs b1 e)" for e
    proof -
      have "times_ev (evs b e)" using inv by (simp add: loop_inv_def)
      then show ?thesis using off by (auto simp: times_ev_def evs1)
    qed
    ultimately have "loop_inv interest (b1\<lparr>event_tv := ?tv\<rparr>)"
      using core1 inv ntv
      by (simp add: loop_inv_def base_wf_def io_wf_def core_wf_def timers_wf_def inserted_wf_def active_wf_def
          counts_wf_def deferred_wf_def same1)
    moreover have "timeout_correct b = Some (b1\<lparr>event_tv := ?tv\<rparr>)"
      using 3 none by (simp add: timeout_correct_def b1_def Let_def)
    ultimately show ?thesis using 3 fl by simp
  qed
qed

section \<open>The loop is safe\<close>

lemma loop_inv_continue: "loop_inv interest (b\<lparr>event_continue := v\<rparr>) = loop_inv interest b"
  by (simp add: loop_inv_def base_wf_def io_wf_def core_wf_def timers_wf_def inserted_wf_def active_wf_def
      counts_wf_def deferred_wf_def)

lemma loop_inv_times:
  assumes "loop_inv interest b" "normal t" "normal u"
  shows "loop_inv interest (b\<lparr>event_tv := t, tv_cache := u\<rparr>)" "loop_inv interest (b\<lparr>tv_cache := u\<rparr>)"
  using assms
  by (simp_all add: loop_inv_def base_wf_def io_wf_def core_wf_def timers_wf_def inserted_wf_def active_wf_def
      counts_wf_def deferred_wf_def)

lemma loop_inv_clear_cache: "loop_inv interest b \<Longrightarrow> loop_inv interest (clear_time_cache b)"
  unfolding clear_time_cache_def by (rule loop_inv_times(2)) (auto simp: loop_inv_def normal_def)

lemma loop_inv_event_tv: "loop_inv interest b \<Longrightarrow> loop_inv interest (b\<lparr>event_tv := gettime b\<rparr>)"
  using loop_inv_times(1) [of interest b "gettime b" "tv_cache b"] normal_gettime [of interest b]
  by (simp add: loop_inv_def)

lemma update_time_cache_eq: "update_time_cache b = b\<lparr>tv_cache := clock b\<rparr>"
  by (simp add: update_time_cache_def gettime_def)

lemma loop_inv_update_cache: "loop_inv interest b \<Longrightarrow> loop_inv interest (update_time_cache b)"
  unfolding update_time_cache_eq by (rule loop_inv_times(2)) (auto simp: loop_inv_def)

lemma loop_wait_ok:
  fixes b :: "('e, 'd, 'k) event_base"
  assumes contract: "epoll_contract ctl interest" and steady: "epoll_steady ctl interest"
    and waits: "epoll_wait_contract wait interest" and inv: "loop_inv interest b"
  shows "\<exists>r b'. loop_wait ctl wait alloc b = Done (r, b') \<and> loop_inv interest b' \<and>
    (r = None \<longrightarrow>
      (\<exists>b1 tv b3. timeout_correct (b\<lparr>event_continue := False\<rparr>) = Some b1 \<and>
         (if N_ACTIVE_CALLBACKS b1 = 0 then run_of (timeout_next b1) else Done (Some evutil_timerclear)) = Done tv \<and>
         epoll_dispatch wait alloc tv (clear_time_cache (b1\<lparr>event_tv := gettime b1\<rparr>)) = Some (0, b3) \<and>
         loop_inv interest b3 \<and> timeout_process ctl (update_time_cache b3) = Some b'))"
proof -
  define b0 where "b0 = b\<lparr>event_continue := False\<rparr>"
  have inv0: "loop_inv interest b0" using inv by (simp add: b0_def loop_inv_continue)
  show ?thesis
  proof (cases "event_gotterm b0 \<or> event_break b0")
    case True
    then show ?thesis using inv0 by (simp add: loop_wait_def Let_def b0_def [symmetric])
  next
    case False
    obtain b1 where b1: "timeout_correct b0 = Some b1" "loop_inv interest b1"
      using timeout_correct_ok [OF inv0] by blast
    obtain t where t: "timeout_next b1 = Some t" using timeout_next_ok [OF b1(2)] by blast
    obtain tv where tv: "(if N_ACTIVE_CALLBACKS b1 = 0 then run_of (timeout_next b1)
        else Done (Some evutil_timerclear)) = Done tv" using t by fastforce
    define b2 where "b2 = clear_time_cache (b1\<lparr>event_tv := gettime b1\<rparr>)"
    have inv2: "loop_inv interest b2" using b1(2) by (simp add: b2_def loop_inv_clear_cache loop_inv_event_tv)
    obtain r b3 where b3: "epoll_dispatch wait alloc tv b2 = Some (r, b3)" "loop_inv interest b3" "r = 0 \<or> r = -1"
      using epoll_dispatch_ok [OF waits inv2] by blast
    obtain b4 where b4: "timeout_process ctl (update_time_cache b3) = Some b4" "loop_inv interest b4"
      using timeout_process_ok [OF contract steady loop_inv_update_cache [OF b3(2)]] by blast
    have eq: "loop_wait ctl wait alloc b =
        (if \<not> event_haveevents b1 \<and> N_ACTIVE_CALLBACKS b1 = 0 then Done (Some 1, b1)
         else if r = -1 then Done (Some (-1), b3) else Done (None, b4))"
      using False b1(1) b3(1) b4(1)
      by (simp add: loop_wait_def Let_def b0_def [symmetric] b2_def [symmetric] tv)
    consider "\<not> event_haveevents b1 \<and> N_ACTIVE_CALLBACKS b1 = 0"
      | "\<not> (\<not> event_haveevents b1 \<and> N_ACTIVE_CALLBACKS b1 = 0)" "r = -1"
      | "\<not> (\<not> event_haveevents b1 \<and> N_ACTIVE_CALLBACKS b1 = 0)" "r = 0" using b3(3) by blast
    then show ?thesis
    proof cases
      case 1
      then show ?thesis using eq b1(2) by simp
    next
      case 2
      then show ?thesis using eq b1(2) b3(2) by simp
    next
      case 3
      then have "loop_wait ctl wait alloc b = Done (None, b4)" using eq by simp
      moreover have "epoll_dispatch wait alloc tv (clear_time_cache (b1\<lparr>event_tv := gettime b1\<rparr>)) = Some (0, b3)"
        using b3(1) 3 by (simp add: b2_def)
      ultimately show ?thesis using b1(1) tv b3(2) b4 unfolding b0_def by blast
    qed
  qed
qed

lemma loop_round_safe:
  fixes b :: "('e, 'd, 'k) event_base"
  assumes contract: "epoll_contract ctl interest" and steady: "epoll_steady ctl interest"
    and waits: "epoll_wait_contract wait interest" and cbs: "callbacks_ok ctl interest cb"
    and inv: "loop_inv interest b"
  shows "safe (\<lambda>(r, b'). loop_inv interest b') (loop_round ctl wait mem cb fuel b)"
proof -
  obtain r b1 where b1: "loop_wait ctl wait (mem 4) b = Done (r, b1)" "loop_inv interest b1"
    using loop_wait_ok [OF contract steady waits inv] by blast
  have "safe (\<lambda>(r, b'). loop_inv interest b')
      (run_bind (event_process_active ctl mem cb fuel b1) (\<lambda>(n, b). Done (None :: int option, b)))"
    by (rule safe_bind [OF event_process_active_safe [OF contract steady cbs b1(2)]]) auto
  then show ?thesis using b1 by (simp add: loop_round_def)
qed

lemma loop_rounds_safe:
  fixes b :: "('e, 'd, 'k) event_base"
  assumes contract: "epoll_contract ctl interest" and steady: "epoll_steady ctl interest"
    and waits: "epoll_wait_contract wait interest" and cbs: "callbacks_ok ctl interest cb"
  shows "loop_inv interest b \<Longrightarrow> safe (\<lambda>(r, b'). loop_inv interest b') (loop_rounds ctl wait mem cb fuel b)"
proof (induction fuel arbitrary: b)
  case 0
  then show ?case by simp
next
  case (Suc fuel)
  have "safe (\<lambda>(r, b'). loop_inv interest b')
      (run_bind (loop_round ctl wait mem cb fuel b) (\<lambda>(r, b).
         case r of None \<Rightarrow> loop_rounds ctl wait mem cb fuel b | Some r \<Rightarrow> Done (r, b)))"
  proof (rule safe_bind [OF loop_round_safe [OF contract steady waits cbs Suc.prems]])
    fix y :: "int option \<times> ('e, 'd, 'k) event_base"
    assume "case y of (r, b') \<Rightarrow> loop_inv interest b'"
    then show "safe (\<lambda>(r, b'). loop_inv interest b')
        (case y of (r, b) \<Rightarrow> case r of None \<Rightarrow> loop_rounds ctl wait mem cb fuel b | Some r \<Rightarrow> Done (r, b))"
      using Suc.IH [of "snd y"] by (cases y) (auto split: option.split)
  qed
  then show ?case by simp
qed

lemma event_base_new_inv:
  assumes "normal now" "\<And>fd. interest k fd = None" "\<And>e. ev_flags (memory e) = {}"
  shows "loop_inv interest (event_base_new monotonic memory k now)"
proof -
  have "evmap_inv (\<lambda>e. ev_events (memory e)) interest evmap_io_initmap k"
    using assms(2) by (simp add: evmap_inv_def evmap_io_initmap_def fd_events_def epoll_bits_def)
  moreover have "heap_inv (deadlines (event_base_new monotonic memory k now)) (min_heap_ctor (\<lambda>_. -1))"
    by (rule heap_inv_empty)
  ultimately show ?thesis
    using assms
    by (simp add: loop_inv_def base_wf_def io_wf_def core_wf_def timers_wf_def inserted_wf_def active_wf_def
        counts_wf_def deferred_wf_def event_wf_def times_ev_def normal_def event_base_new_def
        evmap_io_initmap_def fd_events_def heap_members_def min_heap_ctor_def)
qed


end
