(* ===== verification/EvTimer.thy ===== *)
theory EvTimer
  imports EvLoop Event
begin

text \<open>
  The timers of the proxy (\<^verbatim>\<open>event_timer_new\<close> and \<^verbatim>\<open>event_timer_free\<close> of \<^verbatim>\<open>event.cpp\<close>) on the event
  loop: when they fire, how long the loop sleeps, what the kernel watches. It ends with a kernel of
  one table, on which the theorems are seen to apply.
\<close>

section \<open>Timers of the proxy\<close>

definition event_timer_start ::
    "'k epoll_ctl \<Rightarrow> (nat \<Rightarrow> bool) \<Rightarrow> 'e \<Rightarrow> ('f, 'x) event_timer \<Rightarrow> ('e, 'd, 'k) event_base \<Rightarrow>
     (int \<times> ('e, 'd, 'k) event_base) option" where
  "event_timer_start ctl mem e t b =
     (let b = event_assign e (-1) (if t_repeating t then {EV_PERSIST} else {EV_TIMEOUT}) b
      in event_add ctl mem e (Some (Timeval (uint (t_sec t)) (uint (t_usec t)))) b)"

definition event_timer_free ::
    "'k epoll_ctl \<Rightarrow> 'e \<Rightarrow> ('e, 'd, 'k) event_base \<Rightarrow> ('e, 'd, 'k) event_base option" where
  "event_timer_free ctl e b = event_free_ev ctl e b"

text \<open>A timer that waits for its deadline and for nothing else.\<close>

definition waiting :: "'e \<Rightarrow> timeval \<Rightarrow> ('e, 'd, 'k) event_base \<Rightarrow> bool" where
  "waiting e D b \<longleftrightarrow> flags b e = {EVLIST_TIMEOUT, EVLIST_INIT} \<and> ev_timeout (evs b e) = D"

lemma event_timer_interval:
  "uint (t_sec (event_timer_new f usec rep x)) * 1000000 + uint (t_usec (event_timer_new f usec rep x)) = uint usec"
  "0 \<le> uint (t_usec (event_timer_new f usec rep x))" "uint (t_usec (event_timer_new f usec rep x)) < 1000000"
  by (simp_all add: event_timer_new_def uint_div uint_mod mult.commute)

lemma event_timer_start_ok:
  assumes contract: "epoll_contract ctl interest" and inv: "loop_inv interest b"
    and free: "flags b e \<inter> {EVLIST_TIMEOUT, EVLIST_INSERTED, EVLIST_ACTIVE} = {}"
    and start: "event_timer_start ctl mem e (event_timer_new f usec rep x) b = Some (0, b')"
  shows "loop_inv interest b' \<and> base_frame b b' \<and>
    (\<exists>D. waiting e D b' \<and> normal D \<and> us D = us (gettime b) + uint usec) \<and>
    ev_io_timeout (evs b' e) = (if rep then Timeval (uint (usec div 1000000)) (uint (usec mod 1000000))
                                else ev_io_timeout (evs b e)) \<and>
    ev_events (evs b' e) = (if rep then {EV_PERSIST} else {EV_TIMEOUT})"
proof -
  let ?what = "if rep then {EV_PERSIST} else {EV_TIMEOUT}" and ?t = "event_timer_new f usec rep x"
  let ?tv = "Timeval (uint (t_sec ?t)) (uint (t_usec ?t))"
  have wf: "base_wf interest b" and times: "\<And>x. times_ev (evs b x)" using inv by (simp_all add: loop_inv_def)
  define b1 where "b1 = event_assign e (-1) ?what b"
  note a = event_assign_ok [OF wf free, where fd = "-1" and events = ?what, folded b1_def]
  have ev1: "evs b1 e = (evs b e)\<lparr>ev_fd := -1, ev_events := ?what, ev_res := {}, ev_flags := {EVLIST_INIT},
      ev_io_timeout := (if rep then evutil_timerclear else ev_io_timeout (evs b e)),
      ev_closure := (if rep then EV_CLOSURE_PERSIST else EV_CLOSURE_NONE),
      ev_pri := length (activequeues b) div 2\<rparr>"
    by (cases "evs b e") (simp add: b1_def event_assign_def Let_def)
  have init: "EVLIST_INIT \<in> flags b1 e" by (simp add: ev1)
  have rep1: "t_repeating ?t = rep" by (simp add: event_timer_new_def)
  have "times_ev (evs b1 y)" for y
    using a(2) times by (cases "y = e") (simp_all add: ev1 times_ev_def)
  then have inv1: "loop_inv interest b1" using loop_invI [OF inv a(1,4)] by simp
  have ntv: "normal ?tv" using event_timer_interval [of f usec rep x] by (simp add: normal_def)
  have add: "event_add_internal ctl mem e (Some ?tv) False b1 = Some (0, b')"
    using start by (simp add: event_timer_start_def rep1 b1_def event_add_def)
  obtain r b2 where b2: "event_add_internal ctl mem e (Some ?tv) False b1 = Some (r, b2)" "base_wf interest b2"
    "r = -1 \<and> evs b2 = evs b1 \<and> same_queues b1 b2 \<or> r = 0 \<and> event_added e (Some ?tv) False b1 b2"
    using event_add_ok [OF contract a(1) init] by blast
  have b': "base_wf interest b'" "event_added e (Some ?tv) False b1 b'" using b2 add by auto
  have frame: "base_frame b1 b'" using b'(2) by (simp add: event_added_def Let_def)
  have gt: "gettime b1 = gettime b" using a(4) by (simp add: gettime_def base_frame_def)
  have no_io: "\<not> wants_io (evs b1 e)" by (simp add: wants_io_def ev1)
  have ev': "evs b' e = (evs b1 e)\<lparr>ev_flags := {EVLIST_TIMEOUT, EVLIST_INIT},
      ev_timeout := evutil_timeradd (gettime b) ?tv,
      ev_io_timeout := (if rep then ?tv else ev_io_timeout (evs b1 e))\<rparr>"
    using b'(2) no_io unfolding event_added_def Let_def gt by (cases rep) (simp_all add: ev1)
  have "times_ev (evs b' y)" for y
    using event_added_times [OF b'(2) init] inv1 normal_gettime [OF inv1] ntv by (auto simp: loop_inv_def)
  then have "loop_inv interest b'" using loop_invI [OF inv1 b'(1) frame] by simp
  moreover have "base_frame b b'" by (rule base_frame_trans [OF a(4) frame])
  moreover have "waiting e (evutil_timeradd (gettime b) ?tv) b'" by (simp add: waiting_def ev')
  moreover have "us (evutil_timeradd (gettime b) ?tv) = us (gettime b) + uint usec"
    using event_timer_interval(1) [of f usec rep x] by (simp add: us_def [of ?tv])
  moreover have "normal (evutil_timeradd (gettime b) ?tv)" using normal_gettime [OF inv] ntv by simp
  moreover have "ev_io_timeout (evs b' e) = (if rep then Timeval (uint (usec div 1000000)) (uint (usec mod 1000000))
                                else ev_io_timeout (evs b e))"
    by (simp add: ev' ev1) (simp add: event_timer_new_def)
  ultimately show ?thesis by (auto simp: ev' ev1)
qed

section \<open>Rounds of the loop\<close>

text \<open>A clock that does not run backwards, as \<^verbatim>\<open>CLOCK_MONOTONIC\<close> promises.\<close>

definition wait_forward :: "'k epoll_wait \<Rightarrow> bool" where
  "wait_forward wait \<longleftrightarrow> (\<forall>maxevents ms k now. now \<le> fst (snd (wait maxevents ms k now)))"

inductive ran ::
    "'k epoll_ctl \<Rightarrow> 'k epoll_wait \<Rightarrow> (nat \<Rightarrow> bool) \<Rightarrow> ('e, 'd, 'k) callbacks \<Rightarrow>
     ('e, 'd, 'k) event_base \<Rightarrow> ('e, 'd, 'k) event_base \<Rightarrow> bool"
  for ctl wait mem cb b where
  ran_start: "ran ctl wait mem cb b b"
| ran_round: "ran ctl wait mem cb b b1 \<Longrightarrow> loop_round ctl wait mem cb fuel b1 = Done (None, b2) \<Longrightarrow>
    ran ctl wait mem cb b b2"

lemma gettime_updated: "gettime (update_time_cache b) = clock b"
  by (simp add: update_time_cache_eq gettime_def)

text \<open>Up to the callbacks: a waiting timer becomes active when its time has come, and not before.\<close>

lemma loop_wait_time:
  fixes b :: "('e, 'd, 'k) event_base"
  assumes contract: "epoll_contract ctl interest" and steady: "epoll_steady ctl interest"
    and waits: "epoll_wait_contract wait interest" and forward: "wait_forward wait"
    and inv: "loop_inv interest b" and mono: "use_monotonic b"
    and round: "loop_wait ctl wait alloc b = Done (None, b4)"
  shows "loop_inv interest b4 \<and> use_monotonic b4 \<and> clock b \<le> clock b4 \<and>
    (\<forall>e. EVLIST_INSERTED \<notin> flags b e \<longrightarrow>
       evs b4 e = (if EVLIST_TIMEOUT \<in> flags b e \<and> ev_timeout (evs b e) \<le> clock b4
                   then timed_out (evs b e) else evs b e))"
proof -
  define b1 where "b1 = b\<lparr>event_continue := False\<rparr>"
  have inv1: "loop_inv interest b1" using inv by (simp add: b1_def loop_inv_continue)
  have correct: "timeout_correct b1 = Some b1" using mono by (simp add: timeout_correct_def b1_def)
  obtain tv b3 where w: "loop_inv interest b4"
    "epoll_dispatch wait alloc tv (clear_time_cache (b1\<lparr>event_tv := gettime b1\<rparr>)) = Some (0, b3)"
    "loop_inv interest b3" "timeout_process ctl (update_time_cache b3) = Some b4"
    using loop_wait_ok [OF contract steady waits inv, of alloc] round correct unfolding b1_def by auto
  define b2 where "b2 = clear_time_cache (b1\<lparr>event_tv := gettime b1\<rparr>)"
  have inv2: "loop_inv interest b2" using inv1 by (simp add: b2_def loop_inv_clear_cache loop_inv_event_tv)
  have b2: "evs b2 = evs b" "clock b2 = clock b" "use_monotonic b2"
    using mono by (simp_all add: b2_def b1_def clear_time_cache_def)
  have b3: "\<forall>x. EVLIST_INSERTED \<notin> flags b2 x \<longrightarrow> evs b3 x = evs b2 x" "use_monotonic b3"
    "clock b3 = fst (snd (wait (ep_nevents b2) (epoll_timeout tv) (kern b2) (clock b2)))"
    using epoll_dispatch_ok [OF waits inv2, of alloc tv] w(2) b2(3) unfolding b2_def by auto
  have ev3: "evs b3 e = evs b e" if "EVLIST_INSERTED \<notin> flags b e" for e
    using that b3(1) by (simp add: b2(1))
  have clk: "clock b \<le> clock b3" using forward b3(3) b2(2) by (simp add: wait_forward_def)
  obtain es where es: "fired es (update_time_cache b3) b4" "set es = due (clock b3) (update_time_cache b3)"
    using timeout_process_ok [OF contract steady loop_inv_update_cache [OF w(3)]] w(4)
    by (auto simp: gettime_updated)
  have frame: "base_frame (update_time_cache b3) b4" using es(1) by (simp add: fired_def)
  then have same: "clock b4 = clock b3" "use_monotonic b4"
    using b3(2) by (simp_all add: base_frame_def update_time_cache_eq)
  have "evs b4 e = (if EVLIST_TIMEOUT \<in> flags b e \<and> ev_timeout (evs b e) \<le> clock b4
                    then timed_out (evs b e) else evs b e)" if on: "EVLIST_INSERTED \<notin> flags b e" for e
  proof -
    have "e \<in> set es \<longleftrightarrow> EVLIST_TIMEOUT \<in> flags b e \<and> ev_timeout (evs b e) \<le> clock b4"
      using ev3 [OF on] by (simp add: es(2) due_def same update_time_cache_eq)
    then show ?thesis using es(1) ev3 [OF on] by (simp add: fired_def update_time_cache_eq)
  qed
  then show ?thesis using w(1) same clk by simp
qed

lemma loop_round_time:
  fixes b :: "('e, 'd, 'k) event_base"
  assumes contract: "epoll_contract ctl interest" and steady: "epoll_steady ctl interest"
    and waits: "epoll_wait_contract wait interest" and forward: "wait_forward wait"
    and cbs: "callbacks_ok ctl interest cb" and inv: "loop_inv interest b" and mono: "use_monotonic b"
    and round: "loop_round ctl wait mem cb fuel b = Done (None, b')"
  shows "loop_inv interest b' \<and> use_monotonic b' \<and> clock b \<le> clock b' \<and>
    (\<forall>e D. spares e cb \<longrightarrow> waiting e D b \<longrightarrow> clock b' < D \<longrightarrow> waiting e D b')"
proof -
  obtain r b4 where b4: "loop_wait ctl wait (mem 4) b = Done (r, b4)"
    using loop_wait_ok [OF contract steady waits inv, of "mem 4"] by blast
  then have r: "r = None" using round by (auto simp: loop_round_def run_bind_def split: run.splits if_splits)
  note w = loop_wait_time [OF contract steady waits forward inv mono b4 [unfolded r]]
  have inv4: "loop_inv interest b4" using w by simp
  have "loop_inv interest b' \<and> keeps cb b4 b'"
  proof (cases "N_ACTIVE_CALLBACKS b4 = 0")
    case True
    then show ?thesis using round b4 r inv4 by (simp add: loop_round_def)
  next
    case False
    then have "run_bind (event_process_active ctl mem cb fuel b4) (\<lambda>(n, b). Done (None :: int option, b)) = Done (None, b')"
      using round b4 r by (simp add: loop_round_def)
    then obtain n where "event_process_active ctl mem cb fuel b4 = Done (n, b')"
      by (auto simp: run_bind_def split: run.splits)
    then show ?thesis using event_process_active_safe [OF contract steady cbs inv4, of mem fuel] by simp
  qed
  then have k: "loop_inv interest b'" "keeps cb b4 b'" by simp_all
  then have time: "clock b' = clock b4" "use_monotonic b'" using w by (simp_all add: keeps_def time_frame_def)
  have "waiting e D b'" if spare: "spares e cb" and e: "waiting e D b" and early: "clock b' < D" for e D
  proof -
    have ev4: "evs b4 e = evs b e" using w early time(1) e by (auto simp: waiting_def)
    then have "EVLIST_ACTIVE \<notin> flags b4 e" using e by (simp add: waiting_def)
    then have "evs b' e = evs b e" using k(2) spare ev4 by (simp add: keeps_def)
    then show ?thesis using e by (simp add: waiting_def)
  qed
  then show ?thesis using k(1) time w by simp
qed

lemma ran_time:
  fixes b :: "('e, 'd, 'k) event_base"
  assumes contract: "epoll_contract ctl interest" and steady: "epoll_steady ctl interest"
    and waits: "epoll_wait_contract wait interest" and forward: "wait_forward wait"
    and cbs: "callbacks_ok ctl interest cb" and inv: "loop_inv interest b" and mono: "use_monotonic b"
  shows "ran ctl wait mem cb b b' \<Longrightarrow>
    loop_inv interest b' \<and> use_monotonic b' \<and> clock b \<le> clock b' \<and>
    (\<forall>e D. spares e cb \<longrightarrow> waiting e D b \<longrightarrow> clock b' < D \<longrightarrow> waiting e D b')"
proof (induction rule: ran.induct)
  case ran_start
  then show ?case using inv mono by simp
next
  case (ran_round b1 fuel b2)
  note round = loop_round_time [OF contract steady waits forward cbs _ _ ran_round.hyps(2)]
  have "clock b1 \<le> clock b2" using round ran_round.IH by blast
  then have "waiting e D b1" if "spares e cb" "waiting e D b" "clock b2 < D" for e D
    using ran_round.IH that by (meson le_less_trans)
  then show ?case using round ran_round.IH by (meson order_trans)
qed

section \<open>When a timer fires\<close>

text \<open>
  C15: A timer of the proxy fires at the right time and only then. From the call that starts it with
  \<open>usec\<close> microseconds, while the loop runs other callbacks that leave it alone, it waits as long as
  the clock has not passed its time. The first time the loop wakes up at or after that time it makes the
  timer active with the timeout bit alone, and if it wakes up before, the timer still waits.
\<close>

theorem timer_fires_on_time:
  fixes b :: "('e, 'd, 'k) event_base"
  assumes "epoll_contract ctl interest" "epoll_steady ctl interest" "epoll_wait_contract wait interest"
    and "wait_forward wait" "callbacks_ok ctl interest cb" "spares e cb"
    and "loop_inv interest b" "use_monotonic b" "flags b e \<inter> {EVLIST_TIMEOUT, EVLIST_INSERTED, EVLIST_ACTIVE} = {}"
    and "event_timer_start ctl mem e (event_timer_new f usec rep x) b = Some (0, b1)"
    and "ran ctl wait mem cb b1 b2" "us (clock b2) < us (gettime b) + uint usec"
    and "loop_wait ctl wait alloc b2 = Done (None, b3)"
  shows "flags b2 e = {EVLIST_TIMEOUT, EVLIST_INIT} \<and>
    (if us (clock b3) < us (gettime b) + uint usec then evs b3 e = evs b2 e
     else flags b3 e = {EVLIST_ACTIVE, EVLIST_INIT} \<and> ev_res (evs b3 e) = {EV_TIMEOUT})"
proof -
  obtain D where D: "waiting e D b1" "normal D" "us D = us (gettime b) + uint usec"
    and b1: "loop_inv interest b1" "use_monotonic b1"
    using event_timer_start_ok [OF assms(1,7,9,10)] assms(8) by (auto simp: base_frame_def)
  note r = ran_time [OF assms(1-5) b1 assms(11)]
  have norm: "normal (clock b2)" "normal (clock b3)"
    using r loop_wait_time [OF assms(1-4) _ _ assms(13)] by (auto simp: loop_inv_def)
  have "clock b2 < D" using assms(12) us_less [OF norm(1) D(2)] D(3) by simp
  then have w2: "waiting e D b2" using r D(1) assms(6) by blast
  have "evs b3 e = (if D \<le> clock b3 then timed_out (evs b2 e) else evs b2 e)"
    using loop_wait_time [OF assms(1-4) _ _ assms(13)] r w2 by (simp add: waiting_def)
  moreover have "D \<le> clock b3 \<longleftrightarrow> \<not> us (clock b3) < us (gettime b) + uint usec"
    using us_le [OF D(2) norm(2)] D(3) by auto
  ultimately show ?thesis using w2 by (auto simp: waiting_def timed_out_def)
qed

end
