(* ===== verification/EvExample.thy ===== *)
theory EvExample
  imports EvProps "HOL-Library.Code_Target_Nat"
begin

text \<open>
  A kernel of one table, on which the theorems on the event loop are seen to apply: \<open>table_ctl\<close> keeps
  the events watched for per descriptor and fails as epoll_ctl(2) says, \<open>table_wait\<close> answers with the
  descriptors of a list that are in the table, after the time it was told to wait.
\<close>

type_synonym table = "int \<rightharpoonup> epoll_ev set"

definition table_ctl :: "table epoll_ctl" where
  "table_ctl oper fd w k =
     (case k fd of
        None \<Rightarrow> if oper = EPOLL_CTL_ADD then (None, k(fd \<mapsto> w)) else (Some ENOENT, k)
      | Some _ \<Rightarrow>
          if oper = EPOLL_CTL_ADD then (Some EEXIST, k)
          else if oper = EPOLL_CTL_DEL then (None, k(fd := None)) else (None, k(fd \<mapsto> w)))"

definition table_wait :: "(int \<times> epoll_ev set) list \<Rightarrow> table epoll_wait" where
  "table_wait rd maxevents ms k now =
     (Inr (take maxevents (filter (\<lambda>(fd, w). 0 \<le> fd \<and> k fd \<noteq> None) rd)),
      if 0 \<le> ms then evutil_timeradd now (Timeval (ms div 1000) (ms mod 1000 * 1000)) else now, k)"

lemma table_contract: "epoll_contract table_ctl (\<lambda>k. k)"
  by (auto simp: epoll_contract_def table_ctl_def split: option.splits)

lemma table_steady: "epoll_steady table_ctl (\<lambda>k. k)"
  by (auto simp: epoll_steady_def table_ctl_def split: option.splits)

lemma table_waits: "epoll_wait_contract (table_wait rd) (\<lambda>k. k)"
proof -
  have norm: "normal (Timeval (ms div 1000) (ms mod 1000 * 1000))" for ms
  proof -
    have "0 \<le> ms mod 1000" "ms mod 1000 < 1000" by simp_all
    then show ?thesis unfolding normal_def by simp
  qed
  show ?thesis
    unfolding epoll_wait_contract_def table_wait_def
    by (auto simp: norm dest: in_set_takeD)
qed

lemma table_forward: "wait_forward (table_wait rd)"
proof -
  have "now \<le> evutil_timeradd now (Timeval (ms div 1000) (ms mod 1000 * 1000))" if "0 \<le> ms" for now ms
  proof -
    have "0 \<le> ms mod 1000" "0 \<le> ms div 1000" using that by simp_all
    then show ?thesis by (auto simp: evutil_timeradd_def Let_def timeval_le evutil_timercmp_def)
  qed
  then show ?thesis by (simp add: wait_forward_def table_wait_def)
qed

text \<open>Callbacks that free their event, and cancel what is deferred.\<close>

definition freeing :: "(nat, nat, table) callbacks" where
  "freeing c b = (case c of EventCb e r \<Rightarrow> [Free e] | DeferredCb d \<Rightarrow> [Cancel d])"

lemma freeing_ok: "callbacks_ok table_ctl (\<lambda>k. k) freeing"
  by (auto simp: callbacks_ok_def freeing_def api_ok_def split: called.split option.split)

lemma freeing_spares: "spares e freeing"
  by (auto simp: spares_def freeing_def api_target_def split: called.split)

definition no_memory :: "nat \<Rightarrow> event_s" where
  "no_memory e =
     \<lparr>ev_fd = -1, ev_events = {}, ev_res = {}, ev_flags = {}, ev_closure = EV_CLOSURE_NONE,
      ev_pri = 0, ev_timeout = Timeval 0 0, ev_io_timeout = Timeval 0 0\<rparr>"

definition fresh :: "(nat, nat, table) event_base" where
  "fresh = event_base_new True no_memory Map.empty (Timeval 10 0)"

lemma fresh_inv: "loop_inv (\<lambda>k. k) fresh"
  unfolding fresh_def by (rule event_base_new_inv) (simp_all add: normal_def no_memory_def)


text \<open>One timer of half a second.\<close>

definition half :: "(unit, unit) event_timer" where
  "half = event_timer_new () 500000 False ()"

definition started :: "(nat, nat, table) event_base" where
  "started = snd (the (event_timer_start table_ctl (\<lambda>_. True) 7 half fresh))"

lemma started: "event_timer_start table_ctl (\<lambda>_. True) 7 half fresh = Some (0, started)"
proof -
  have "(case event_timer_start table_ctl (\<lambda>_. True) 7 half fresh of None \<Rightarrow> False | Some (r, b) \<Rightarrow> r = 0)"
    by code_simp
  then show ?thesis by (auto simp: started_def split: option.splits)
qed


lemma started_inv: "loop_inv (\<lambda>k. k) started" "use_monotonic started"
proof -
  have free: "flags fresh 7 \<inter> {EVLIST_TIMEOUT, EVLIST_INSERTED, EVLIST_ACTIVE} = {}" by code_simp
  have "use_monotonic fresh" by code_simp
  then show "loop_inv (\<lambda>k. k) started" "use_monotonic started"
    using event_timer_start_ok [OF table_contract fresh_inv free started [unfolded half_def]]
    by (simp_all add: base_frame_def)
qed

definition woken :: "(nat, nat, table) event_base" where
  "woken = (case loop_wait table_ctl (table_wait []) True started of Done (r, b) \<Rightarrow> b | _ \<Rightarrow> started)"

lemma woken: "loop_wait table_ctl (table_wait []) True started = Done (None, woken)"
proof -
  have "(case loop_wait table_ctl (table_wait []) True started of Done (r, b) \<Rightarrow> r = None | _ \<Rightarrow> False)"
    by code_simp
  then show ?thesis by (auto simp: woken_def split: run.splits)
qed

lemma timer_fires_on_time_witness:
  "clock woken = Timeval 10 500000 \<and> flags woken 7 = {EVLIST_ACTIVE, EVLIST_INIT} \<and> ev_res (evs woken 7) = {EV_TIMEOUT}"
proof -
  have free: "flags fresh 7 \<inter> {EVLIST_TIMEOUT, EVLIST_INSERTED, EVLIST_ACTIVE} = {}" by code_simp
  have mono: "use_monotonic fresh" by code_simp
  have early: "us (clock started) < us (gettime fresh) + uint (500000 :: u64)" by code_simp
  have clk: "clock woken = Timeval 10 500000" by code_simp
  have late: "\<not> us (clock woken) < us (gettime fresh) + uint (500000 :: u64)" by code_simp
  show ?thesis
    using timer_fires_on_time [OF table_contract table_steady table_waits table_forward freeing_ok freeing_spares
        fresh_inv mono free started [unfolded half_def] ran_start early woken] clk late by simp
qed

text \<open>The same base a second later.\<close>

definition late :: "(nat, nat, table) event_base \<Rightarrow> (nat, nat, table) event_base" where
  "late b = b\<lparr>kern := kern b, clock := Timeval 11 0\<rparr>"

lemma late_inv: "loop_inv (\<lambda>k. k) b \<Longrightarrow> loop_inv (\<lambda>k. k) (late b)"
  unfolding late_def by (rule loop_inv_kern) (simp_all add: normal_def)

lemma timeouts_fire_in_order_witness:
  "\<exists>b'. timeout_process table_ctl (late started) = Some b' \<and> EVLIST_ACTIVE \<in> flags b' 7 \<and> EVLIST_TIMEOUT \<notin> flags b' 7"
proof -
  have due: "EVLIST_TIMEOUT \<in> flags (late started) 7 \<and> ev_timeout (evs (late started) 7) \<le> gettime (late started)"
    by code_simp
  show ?thesis
    using timeouts_fire_in_order [OF table_contract table_steady late_inv [OF started_inv(1)]] due by fastforce
qed


text \<open>A repeating timer whose time has come.\<close>

definition repeating :: "(nat, nat, table) event_base" where
  "repeating = snd (the (event_timer_start table_ctl (\<lambda>_. True) 7 (event_timer_new () 400000 True ()) fresh))"

definition ringing :: "(nat, nat, table) event_base" where
  "ringing = the (timeout_process table_ctl (late repeating))"

lemma repeating_inv: "loop_inv (\<lambda>k. k) repeating"
proof -
  have free: "flags fresh 7 \<inter> {EVLIST_TIMEOUT, EVLIST_INSERTED, EVLIST_ACTIVE} = {}" by code_simp
  have "(case event_timer_start table_ctl (\<lambda>_. True) 7 (event_timer_new () 400000 True ()) fresh of
      None \<Rightarrow> False | Some (r, b) \<Rightarrow> r = 0)" by code_simp
  then have "event_timer_start table_ctl (\<lambda>_. True) 7 (event_timer_new () 400000 True ()) fresh = Some (0, repeating)"
    by (auto simp: repeating_def split: option.splits)
  from event_timer_start_ok [OF table_contract fresh_inv free this] show ?thesis by simp
qed


text \<open>A socket that is read and written.\<close>

definition socket_calls :: "(nat, nat) api list" where
  "socket_calls =
     [Assign 1 4 {EV_READ, EV_PERSIST}, Add (\<lambda>_. True) 1 None, Assign 2 4 {EV_WRITE},
      Add (\<lambda>_. True) 2 (Some (Timeval 1 0)), Del 2]"

definition socket :: "(nat, nat, table) event_base" where
  "socket = the (api_calls table_ctl socket_calls fresh)"

lemma socket_ok: "api_oks table_ctl socket_calls fresh"
  by code_simp


lemma ready_descriptors_activate_witness:
  "\<exists>b'. epoll_dispatch (table_wait [(4, {EPOLLHUP}), (9, {EPOLLIN})]) True None socket = Some (0, b') \<and>
     EVLIST_ACTIVE \<in> flags b' 1 \<and> evs b' 2 = evs socket 2"
proof -
  have inv: "loop_inv (\<lambda>k. k) socket"
    using api_calls_ok [OF table_contract table_steady fresh_inv socket_ok] by (auto simp: socket_def)
  have n: "ep_nevents socket = 32" "kern socket 9 = None" "kern socket 4 \<noteq> None" by code_simp+
  have answer: "table_wait [(4, {EPOLLHUP}), (9, {EPOLLIN})] (ep_nevents socket) (epoll_timeout None) (kern socket) (clock socket) =
      (Inr [(4, {EPOLLHUP})], clock socket, kern socket)"
    using n by (simp add: table_wait_def epoll_timeout_def)
  have e: "EVLIST_INSERTED \<in> flags socket 1" "ev_fd (evs socket 1) = 4" "ev_events (evs socket 1) = {EV_READ, EV_PERSIST}"
    "EVLIST_INSERTED \<notin> flags socket 2" by code_simp+
  obtain b' where b': "epoll_dispatch (table_wait [(4, {EPOLLHUP}), (9, {EPOLLIN})]) True None socket = Some (0, b')"
    "\<forall>e. if EVLIST_INSERTED \<in> flags socket e \<and>
            (\<exists>(fd, w) \<in> set [(4, {EPOLLHUP})]. ev_fd (evs socket e) = fd \<and> epoll_what w \<noteq> {} \<and>
               ev_events (evs socket e) \<inter> insert EV_ET (epoll_what w) \<noteq> {})
          then flags b' e = insert EVLIST_ACTIVE (flags socket e)
          else evs b' e = evs socket e"
    using ready_descriptors_activate [OF table_waits inv answer, of True] by blast
  have "flags b' 1 = insert EVLIST_ACTIVE (flags socket 1)" using b'(2) [rule_format, of 1] e by (simp add: epoll_what_def)
  moreover have "evs b' 2 = evs socket 2" using b'(2) [rule_format, of 2] e(4) by simp
  ultimately show ?thesis using b'(1) by simp
qed


text \<open>
  The loop asks for the time left before it drops the time it cached when it last woke up. The
  callbacks that ran since then delay every timer: here they took five seconds, the
  timer of half a second is long over, and the loop sleeps half a second more.
\<close>

definition stale :: "(nat, nat, table) event_base" where
  "stale = started\<lparr>tv_cache := Timeval 10 0, clock := Timeval 15 0\<rparr>"

lemma stale_wait:
  "us (ev_timeout (evs stale 7)) = 10500000" "us (clock stale) = 15000000"
  "map_option epoll_timeout (timeout_next stale) = Some 500"
  by code_simp+

end
