(* ===== verification/Buffer.thy ===== *)
theory Buffer
  imports Prelude "HOL-Library.Monad_Syntax"
begin

text \<open>
  The byte buffers of libevent (\<^verbatim>\<open>src/deps/libevent/buffer.c\<close>) behind the sockets of the proxy: a
  linked list of chains of memory, filled at its end and drained at its front.

  The linked list is the list of its chains; a pointer to a chain is its position, and the pointer to
  a \<^verbatim>\<open>next\<close> field (\<^verbatim>\<open>last_with_datap\<close>) is the position of the chain the field points to, 0 standing for
  \<^verbatim>\<open>&buf->first\<close>.  A byte of memory that has not been written is \<^verbatim>\<open>None\<close>.  The result \<^verbatim>\<open>None\<close> of an
  operation is a failed assertion, an access through a null or dangling pointer, outside the memory of a
  chain or to bytes never written, or a loop that does not end.

  No chain of the proxy is pinned, immutable or a file (\<^verbatim>\<open>flags\<close> is 0), since only overlapped input and
  output, references and files make such chains; locks and reference counts of buffers are left out.
  \<open>alloc\<close> tells whether memory is found.
\<close>

section \<open>Chains\<close>

record 'b evbuffer_chain =
  buffer_len :: nat
  misalign :: nat
  off :: nat
  cells :: "'b option list"

definition MIN_BUFFER_SIZE :: nat where "MIN_BUFFER_SIZE = 1024"

definition EVBUFFER_CHAIN_SIZE :: nat where "EVBUFFER_CHAIN_SIZE = 48"

text \<open>The loop that doubles the allocation; a \<^verbatim>\<open>size_t\<close> wraps around.\<close>

partial_function (option) chain_alloc :: "nat \<Rightarrow> nat \<Rightarrow> nat option" where
  "chain_alloc sz to_alloc =
     (if to_alloc < sz then chain_alloc sz (to_alloc * 2 mod 2 ^ 64) else Some to_alloc)"

declare chain_alloc.simps [code]

definition evbuffer_chain_new :: "bool \<Rightarrow> nat \<Rightarrow> 'b evbuffer_chain option option" where
  "evbuffer_chain_new alloc sz =
     (case chain_alloc ((sz + EVBUFFER_CHAIN_SIZE) mod 2 ^ 64) MIN_BUFFER_SIZE of
        None \<Rightarrow> None
      | Some to_alloc \<Rightarrow>
          Some (if alloc
                then Some \<lparr>buffer_len = to_alloc - EVBUFFER_CHAIN_SIZE, misalign = 0, off = 0,
                           cells = replicate (to_alloc - EVBUFFER_CHAIN_SIZE) None\<rparr>
                else None))"

definition CHAIN_SPACE_LEN :: "'b evbuffer_chain \<Rightarrow> nat" where
  "CHAIN_SPACE_LEN c = buffer_len c - (misalign c + off c)"

text \<open>\<^verbatim>\<open>memcpy\<close> from and to the memory of a chain.\<close>

definition chain_get :: "nat \<Rightarrow> nat \<Rightarrow> 'b evbuffer_chain \<Rightarrow> 'b list option" where
  "chain_get p n c = (if p + n \<le> length (cells c) then those (take n (drop p (cells c))) else None)"

definition chain_put :: "nat \<Rightarrow> 'b list \<Rightarrow> 'b evbuffer_chain \<Rightarrow> 'b evbuffer_chain option" where
  "chain_put p bs c =
     (if p + length bs \<le> length (cells c)
      then Some (c\<lparr>cells := take p (cells c) @ map Some bs @ drop (p + length bs) (cells c)\<rparr>) else None)"

definition chain_append :: "'b list \<Rightarrow> 'b evbuffer_chain \<Rightarrow> 'b evbuffer_chain option" where
  "chain_append bs c =
     map_option (\<lambda>c. c\<lparr>off := off c + length bs\<rparr>) (chain_put (misalign c + off c) bs c)"

definition MAX_TO_REALIGN_IN_EXPAND :: nat where "MAX_TO_REALIGN_IN_EXPAND = 2048"

definition evbuffer_chain_should_realign :: "'b evbuffer_chain \<Rightarrow> nat \<Rightarrow> bool" where
  "evbuffer_chain_should_realign c datlen \<longleftrightarrow>
     buffer_len c - off c \<ge> datlen \<and> off c < buffer_len c div 2 \<and> off c \<le> MAX_TO_REALIGN_IN_EXPAND"

definition evbuffer_chain_align :: "'b evbuffer_chain \<Rightarrow> 'b evbuffer_chain" where
  "evbuffer_chain_align c =
     c\<lparr>misalign := 0,
       cells := take (off c) (drop (misalign c) (cells c)) @ drop (off c) (cells c)\<rparr>"

section \<open>Buffers\<close>

record 'b evbuffer =
  chains :: "'b evbuffer_chain list"
  last_chain :: "nat option"
  last_with_datap :: nat
  total_len :: nat
  n_add_for_cb :: nat
  n_del_for_cb :: nat
  freeze_start :: bool
  freeze_end :: bool
  has_cbs :: bool   \<comment> \<open>whether \<^verbatim>\<open>callbacks\<close> has entries\<close>

record evbuffer_cb_info =
  orig_size :: nat
  n_added :: nat
  n_deleted :: nat

definition evbuffer_new :: "'b evbuffer" where
  "evbuffer_new =
     \<lparr>chains = [], last_chain = None, last_with_datap = 0, total_len = 0, n_add_for_cb = 0, n_del_for_cb = 0,
      freeze_start = False, freeze_end = False, has_cbs = False\<rparr>"

text \<open>What the callbacks are called with, if they are.\<close>

definition evbuffer_invoke_callbacks :: "'b evbuffer \<Rightarrow> 'b evbuffer \<times> evbuffer_cb_info option" where
  "evbuffer_invoke_callbacks b =
     (if \<not> has_cbs b then (b\<lparr>n_add_for_cb := 0, n_del_for_cb := 0\<rparr>, None)
      else if n_add_for_cb b = 0 \<and> n_del_for_cb b = 0 then (b, None)
      else (b\<lparr>n_add_for_cb := 0, n_del_for_cb := 0\<rparr>,
            Some \<lparr>orig_size = total_len b + n_del_for_cb b - n_add_for_cb b,
                  n_added = n_add_for_cb b, n_deleted = n_del_for_cb b\<rparr>))"

definition evbuffer_get_length :: "'b evbuffer \<Rightarrow> nat" where
  "evbuffer_get_length b = total_len b"

definition evbuffer_freeze :: "bool \<Rightarrow> 'b evbuffer \<Rightarrow> 'b evbuffer" where
  "evbuffer_freeze start b = (if start then b\<lparr>freeze_start := True\<rparr> else b\<lparr>freeze_end := True\<rparr>)"

definition evbuffer_unfreeze :: "bool \<Rightarrow> 'b evbuffer \<Rightarrow> 'b evbuffer" where
  "evbuffer_unfreeze start b = (if start then b\<lparr>freeze_start := False\<rparr> else b\<lparr>freeze_end := False\<rparr>)"

definition ZERO_CHAIN :: "'b evbuffer \<Rightarrow> 'b evbuffer" where
  "ZERO_CHAIN b = b\<lparr>chains := [], last_chain := None, last_with_datap := 0, total_len := 0\<rparr>"

text \<open>The first of the chains from the \<open>k\<close>-th on that holds nothing; then all behind it must be empty.\<close>

fun first_empty :: "nat \<Rightarrow> 'b evbuffer_chain list \<Rightarrow> nat option" where
  "first_empty k [] = None"
| "first_empty k (c # cs) = (if off c \<noteq> 0 then first_empty (k + 1) cs else Some k)"

definition evbuffer_chains_all_empty :: "'b evbuffer_chain list \<Rightarrow> bool" where
  "evbuffer_chains_all_empty cs \<longleftrightarrow> list_all (\<lambda>c. off c = 0) cs"

definition evbuffer_chain_insert :: "'b evbuffer_chain \<Rightarrow> 'b evbuffer \<Rightarrow> 'b evbuffer option" where
  "evbuffer_chain_insert c b =
     map_option (\<lambda>b. b\<lparr>total_len := total_len b + off c\<rparr>)
       (if length (chains b) \<le> last_with_datap b
        then if last_with_datap b = 0 \<and> chains b = [] then Some (b\<lparr>chains := [c], last_chain := Some 0\<rparr>)
             else None
        else
          case first_empty (last_with_datap b) (drop (last_with_datap b) (chains b)) of
            None \<Rightarrow>
              (case last_chain b of
                 None \<Rightarrow> None
               | Some l \<Rightarrow>
                   Some (b\<lparr>chains := take (l + 1) (chains b) @ [c], last_chain := Some (l + 1),
                           last_with_datap := if off c \<noteq> 0 then l + 1 else last_with_datap b\<rparr>))
          | Some k \<Rightarrow>
              if evbuffer_chains_all_empty (drop k (chains b))
              then Some (b\<lparr>chains := take k (chains b) @ [c], last_chain := Some k\<rparr>)
              else None)"

section \<open>Taking bytes out\<close>

text \<open>
  The loop of \<^verbatim>\<open>evbuffer_drain\<close> over the chains that are freed: the position reached, the place of
  \<^verbatim>\<open>last_with_datap\<close> and the number of bytes still to drain.
\<close>

fun drain_loop ::
    "nat \<Rightarrow> nat \<Rightarrow> nat \<Rightarrow> 'b evbuffer_chain list \<Rightarrow> (nat \<times> nat \<times> nat \<times> 'b evbuffer_chain list) option" where
  "drain_loop j lwd remaining [] = None"
| "drain_loop j lwd remaining (c # cs) =
     (if remaining \<ge> off c
      then drain_loop (j + 1) (if lwd = j \<or> lwd = j + 1 then 0 else lwd) (remaining - off c) cs
      else Some (j, lwd, remaining, c # cs))"

definition evbuffer_drain :: "nat \<Rightarrow> 'b evbuffer \<Rightarrow> (int \<times> 'b evbuffer \<times> evbuffer_cb_info option) option" where
  "evbuffer_drain len b =
     (let old_len = total_len b in
      if old_len = 0 then Some (0, b, None)
      else if freeze_start b then Some (-1, b, None)
      else do {
        b \<leftarrow> (if len \<ge> old_len then Some (ZERO_CHAIN b)
             else do {
               (j, lwd, remaining, cs) \<leftarrow> drain_loop 0 (last_with_datap b) len (chains b);
               if cs = [] \<or> (0 < lwd \<and> lwd \<le> j) \<or> (case last_chain b of None \<Rightarrow> True | Some l \<Rightarrow> l < j)
               then None
               else Some (b\<lparr>chains := (hd cs)\<lparr>misalign := misalign (hd cs) + remaining, off := off (hd cs) - remaining\<rparr> # tl cs,
                            last_chain := map_option (\<lambda>l. l - j) (last_chain b),
                            last_with_datap := lwd - j,
                            total_len := total_len b - len\<rparr>)
             });
        let (b, info) = evbuffer_invoke_callbacks (b\<lparr>n_del_for_cb := n_del_for_cb b + min len old_len\<rparr>);
        Some (0, b, info)
      })"

fun copy_loop :: "nat \<Rightarrow> 'b evbuffer_chain list \<Rightarrow> 'b list option" where
  "copy_loop datlen [] = (if datlen = 0 then Some [] else None)"
| "copy_loop datlen (c # cs) =
     (if datlen = 0 then Some []
      else if datlen \<ge> off c
      then do { bs \<leftarrow> chain_get (misalign c) (off c) c; rest \<leftarrow> copy_loop (datlen - off c) cs; Some (bs @ rest) }
      else chain_get (misalign c) datlen c)"

definition evbuffer_copyout :: "nat \<Rightarrow> 'b evbuffer \<Rightarrow> (int \<times> 'b list) option" where
  "evbuffer_copyout datlen b =
     (let datlen = (if datlen \<ge> total_len b then total_len b else datlen) in
      if datlen = 0 then Some (0, [])
      else if freeze_start b then Some (-1, [])
      else map_option (Pair (int datlen)) (copy_loop datlen (chains b)))"

text \<open>The result is cut to an \<^verbatim>\<open>int\<close>.\<close>

definition evbuffer_remove ::
    "nat \<Rightarrow> 'b evbuffer \<Rightarrow> (int \<times> 'b list \<times> 'b evbuffer \<times> evbuffer_cb_info option) option" where
  "evbuffer_remove datlen b =
     do {
       (n, bs) \<leftarrow> evbuffer_copyout datlen b;
       (n, b, info) \<leftarrow> (if n > 0
         then do {
           (r, b, info) \<leftarrow> evbuffer_drain (nat n) b;
           Some (if r < 0 then -1 else n, b, info)
         }
         else Some (n, b, None));
       Some (sint (word_of_int n :: 32 word), bs, b, info)
     }"

section \<open>Putting bytes in\<close>

definition EVBUFFER_CHAIN_MAX_AUTO_SIZE :: nat where "EVBUFFER_CHAIN_MAX_AUTO_SIZE = 4096"

text \<open>The end of \<^verbatim>\<open>evbuffer_add\<close>: what does not fit goes to a new chain.\<close>

definition add_overflow ::
    "bool \<Rightarrow> 'b list \<Rightarrow> nat \<Rightarrow> 'b evbuffer_chain \<Rightarrow> 'b evbuffer \<Rightarrow> (int \<times> 'b evbuffer \<times> evbuffer_cb_info option) option" where
  "add_overflow alloc data l c b =
     (let remain = buffer_len c - misalign c - off c;
          to_alloc = buffer_len c;
          to_alloc = (if to_alloc \<le> EVBUFFER_CHAIN_MAX_AUTO_SIZE div 2 then to_alloc * 2 else to_alloc);
          to_alloc = (if length data > to_alloc then length data else to_alloc) in
      do {
        tmp \<leftarrow> evbuffer_chain_new alloc to_alloc;
        (case tmp of
           None \<Rightarrow> Some (-1, b, None)
         | Some tmp \<Rightarrow>
             do {
               b \<leftarrow> (if remain \<noteq> 0
                     then do {
                       c \<leftarrow> chain_append (take remain data) c;
                       Some (b\<lparr>chains := (chains b)[l := c], total_len := total_len b + remain,
                               n_add_for_cb := n_add_for_cb b + remain\<rparr>)
                     }
                     else Some b);
               tmp \<leftarrow> chain_append (drop remain data) tmp;
               b \<leftarrow> evbuffer_chain_insert tmp b;
               let (b, info) = evbuffer_invoke_callbacks
                                 (b\<lparr>n_add_for_cb := n_add_for_cb b + length (drop remain data)\<rparr>);
               Some (0, b, info)
             })
      })"

definition evbuffer_add ::
    "bool \<Rightarrow> bool \<Rightarrow> 'b list \<Rightarrow> 'b evbuffer \<Rightarrow> (int \<times> 'b evbuffer \<times> evbuffer_cb_info option) option" where
  "evbuffer_add alloc alloc' data b =
     (if freeze_end b then Some (-1, b, None)
      else do {
        b' \<leftarrow> (case last_chain b of
                 Some l \<Rightarrow> Some (Some b)
               | None \<Rightarrow> do {
                   c \<leftarrow> evbuffer_chain_new alloc (length data);
                   (case c of None \<Rightarrow> Some None | Some c \<Rightarrow> map_option Some (evbuffer_chain_insert c b))
                 });
        (case b' of
           None \<Rightarrow> Some (-1, b, None)
         | Some b \<Rightarrow>
             do {
               l \<leftarrow> last_chain b;
               c \<leftarrow> (if l < length (chains b) then Some (chains b ! l) else None);
               if buffer_len c - misalign c - off c \<ge> length data
               then do {
                 c \<leftarrow> chain_append data c;
                 let (b, info) = evbuffer_invoke_callbacks
                   (b\<lparr>chains := (chains b)[l := c], total_len := total_len b + length data,
                      n_add_for_cb := n_add_for_cb b + length data\<rparr>);
                 Some (0, b, info)
               }
               else if evbuffer_chain_should_realign c (length data)
               then do {
                 c \<leftarrow> chain_append data (evbuffer_chain_align c);
                 let (b, info) = evbuffer_invoke_callbacks
                   (b\<lparr>chains := (chains b)[l := c], total_len := total_len b + length data,
                      n_add_for_cb := n_add_for_cb b + length data\<rparr>);
                 Some (0, b, info)
               }
               else add_overflow alloc' data l c b
             })
      })"

text \<open>
  \<^verbatim>\<open>_evbuffer_expand_fast\<close>: the loop that counts the room in the first \<open>n\<close> chains that have some
  gives the chains with those that are empty realigned, the room, the number of chains used and whether
  the room is enough.
\<close>

fun expand_scan ::
    "nat \<Rightarrow> nat \<Rightarrow> nat \<Rightarrow> nat \<Rightarrow> nat \<Rightarrow> nat \<Rightarrow> 'b evbuffer_chain list \<Rightarrow>
     ('b evbuffer_chain list \<times> nat \<times> nat \<times> bool) option" where
  "expand_scan k lwd datlen n avail used [] = Some ([], avail, used, False)"
| "expand_scan k lwd datlen n avail used (c # cs) =
     (if off c \<noteq> 0 \<and> k \<noteq> lwd then None
      else
        let c' = (if off c \<noteq> 0 then c else c\<lparr>misalign := 0\<rparr>);
            space = (if off c \<noteq> 0 then CHAIN_SPACE_LEN c else buffer_len c);
            avail = avail + space;
            used = (if off c \<noteq> 0 \<and> space = 0 then used else used + 1) in
        if avail \<ge> datlen then Some (c' # cs, avail, used, True)
        else if used = n then Some (c' # cs, avail, used, False)
        else map_option (\<lambda>(cs, r). (c' # cs, r)) (expand_scan (k + 1) lwd datlen n avail used cs))"

text \<open>All empty chains are replaced by one that is big enough.\<close>

definition expand_replace :: "bool \<Rightarrow> nat \<Rightarrow> 'b evbuffer \<Rightarrow> (int \<times> 'b evbuffer) option" where
  "expand_replace alloc datlen b =
     (let p = last_with_datap b in
      if length (chains b) \<le> p then None
      else
        let c = chains b ! p; rmv_all = (off c = 0);
            avail = (if rmv_all then 0 else CHAIN_SPACE_LEN c);
            rest = drop (if rmv_all then p else p + 1) (chains b) in
        if (rmv_all \<and> p \<noteq> 0) \<or> \<not> evbuffer_chains_all_empty rest then None
        else do {
          tmp \<leftarrow> evbuffer_chain_new alloc (datlen - avail);
          (case tmp of
             None \<Rightarrow>
               Some (-1, if rmv_all then ZERO_CHAIN b
                         else b\<lparr>chains := take (p + 1) (chains b), last_chain := Some p\<rparr>)
           | Some tmp \<Rightarrow>
               Some (0, if rmv_all then b\<lparr>chains := [tmp], last_chain := Some 0, last_with_datap := 0\<rparr>
                        else b\<lparr>chains := take (p + 1) (chains b) @ [tmp], last_chain := Some (p + 1)\<rparr>))
        })"

definition evbuffer_expand_fast :: "bool \<Rightarrow> nat \<Rightarrow> nat \<Rightarrow> 'b evbuffer \<Rightarrow> (int \<times> 'b evbuffer) option" where
  "evbuffer_expand_fast alloc datlen n b =
     (case last_chain b of
        None \<Rightarrow> do {
          c \<leftarrow> evbuffer_chain_new alloc datlen;
          (case c of None \<Rightarrow> Some (-1, b) | Some c \<Rightarrow> map_option (Pair 0) (evbuffer_chain_insert c b))
        }
      | Some l \<Rightarrow>
          do {
            let p = last_with_datap b;
            (cs, avail, used, enough) \<leftarrow> expand_scan p p datlen n 0 0 (drop p (chains b));
            let b = b\<lparr>chains := take p (chains b) @ cs\<rparr>;
            if enough then Some (0, b)
            else if used < n
            then do {
              tmp \<leftarrow> evbuffer_chain_new alloc (datlen - avail);
              (case tmp of
                 None \<Rightarrow> Some (-1, b)
               | Some tmp \<Rightarrow> Some (0, b\<lparr>chains := take (l + 1) (chains b) @ [tmp], last_chain := Some (l + 1)\<rparr>))
            }
            else expand_replace alloc datlen b
          })"

section \<open>Reading and writing\<close>

definition NUM_READ_IOVEC :: nat where "NUM_READ_IOVEC = 4"
definition EVBUFFER_MAX_READ :: int where "EVBUFFER_MAX_READ = 4096"
definition NUM_WRITE_IOVEC :: nat where "NUM_WRITE_IOVEC = 128"

text \<open>The lengths of the vectors, from the chains with room on; the vectors do not offer more than asked for.\<close>

fun setup_vecs :: "nat \<Rightarrow> nat \<Rightarrow> 'b evbuffer_chain list \<Rightarrow> nat list option" where
  "setup_vecs 0 howmuch cs = Some []"
| "setup_vecs (Suc n) howmuch cs =
     (if howmuch = 0 then Some []
      else case cs of
        [] \<Rightarrow> None
      | c # cs \<Rightarrow>
          let avail = min (CHAIN_SPACE_LEN c) howmuch in
          map_option ((#) avail) (setup_vecs n (howmuch - avail) cs))"

definition evbuffer_read_setup_vecs :: "nat \<Rightarrow> 'b evbuffer \<Rightarrow> (nat \<times> nat list) option" where
  "evbuffer_read_setup_vecs howmuch b =
     (let p = last_with_datap b in
      if length (chains b) \<le> p then None
      else
        let p = (if CHAIN_SPACE_LEN (chains b ! p) = 0 then p + 1 else p) in
        map_option (Pair p) (setup_vecs NUM_READ_IOVEC howmuch (drop p (chains b))))"

text \<open>What the kernel does with the vectors: it fills one after the other.\<close>

fun scatter :: "'b list \<Rightarrow> nat list \<Rightarrow> 'b evbuffer_chain list \<Rightarrow> 'b evbuffer_chain list option" where
  "scatter bs [] cs = Some cs"
| "scatter bs (v # vs) [] = None"
| "scatter bs (v # vs) (c # cs) =
     do {
       c \<leftarrow> chain_put (misalign c + off c) (take v bs) c;
       cs \<leftarrow> scatter (drop v bs) vs cs;
       Some (c # cs)
     }"

text \<open>The loop that counts what has been read, and the chain it ends at.\<close>

fun commit_read :: "nat \<Rightarrow> nat \<Rightarrow> nat \<Rightarrow> 'b evbuffer_chain list \<Rightarrow> (nat option \<times> 'b evbuffer_chain list) option" where
  "commit_read 0 k remaining cs = Some (None, cs)"
| "commit_read (Suc n) k remaining [] = None"
| "commit_read (Suc n) k remaining (c # cs) =
     (let space = CHAIN_SPACE_LEN c in
      if space < remaining
      then map_option (\<lambda>(p, cs). (p, c\<lparr>off := off c + space\<rparr> # cs)) (commit_read n (k + 1) (remaining - space) cs)
      else Some (Some k, c\<lparr>off := off c + remaining\<rparr> # cs))"

text \<open>\<open>readable\<close> is the answer of \<^verbatim>\<open>FIONREAD\<close>, \<open>readv\<close> the call: an error or the bytes that were there.\<close>

definition evbuffer_read ::
    "bool \<Rightarrow> int \<Rightarrow> (nat list \<Rightarrow> 'b list option) \<Rightarrow> int \<Rightarrow> 'b evbuffer \<Rightarrow>
     (int \<times> 'b evbuffer \<times> evbuffer_cb_info option) option" where
  "evbuffer_read alloc readable readv howmuch b =
     (if freeze_end b then Some (-1, b, None)
      else
        let n = (if readable \<le> 0 \<or> readable > EVBUFFER_MAX_READ then EVBUFFER_MAX_READ else readable);
            howmuch = (if howmuch < 0 \<or> howmuch > n then n else howmuch) in
        do {
          (r, b) \<leftarrow> evbuffer_expand_fast alloc (nat howmuch) NUM_READ_IOVEC b;
          if r = -1 then Some (-1, b, None)
          else do {
            (p, vecs) \<leftarrow> evbuffer_read_setup_vecs (nat howmuch) b;
            (case readv vecs of
               None \<Rightarrow> Some (-1, b, None)
             | Some [] \<Rightarrow> Some (0, b, None)
             | Some bs \<Rightarrow>
                 do {
                   cs \<leftarrow> scatter bs vecs (drop p (chains b));
                   (q, cs) \<leftarrow> commit_read (length vecs) p (length bs) cs;
                   let (b, info) = evbuffer_invoke_callbacks
                     (b\<lparr>chains := take p (chains b) @ cs,
                        last_with_datap := (case q of None \<Rightarrow> last_with_datap b | Some q \<Rightarrow> q),
                        total_len := total_len b + length bs, n_add_for_cb := n_add_for_cb b + length bs\<rparr>);
                   Some (int (length bs), b, info)
                 })
          }
        })"

text \<open>The vectors that are handed to \<^verbatim>\<open>writev\<close>, as the bytes they hold.\<close>

fun gather :: "nat \<Rightarrow> nat \<Rightarrow> 'b evbuffer_chain list \<Rightarrow> 'b list list option" where
  "gather 0 howmuch cs = Some []"
| "gather (Suc n) howmuch [] = Some []"
| "gather (Suc n) howmuch (c # cs) =
     (if howmuch = 0 then Some []
      else if howmuch \<ge> off c
      then do { bs \<leftarrow> chain_get (misalign c) (off c) c; rest \<leftarrow> gather n (howmuch - off c) cs; Some (bs # rest) }
      else map_option (\<lambda>bs. [bs]) (chain_get (misalign c) howmuch c))"

definition evbuffer_write_iovec :: "('b list list \<Rightarrow> int) \<Rightarrow> nat \<Rightarrow> 'b evbuffer \<Rightarrow> int option" where
  "evbuffer_write_iovec writev howmuch b = map_option writev (gather NUM_WRITE_IOVEC howmuch (chains b))"

definition evbuffer_write_atmost ::
    "('b list list \<Rightarrow> int) \<Rightarrow> int \<Rightarrow> 'b evbuffer \<Rightarrow> (int \<times> 'b evbuffer \<times> evbuffer_cb_info option) option" where
  "evbuffer_write_atmost writev howmuch b =
     (if freeze_start b then Some (-1, b, None)
      else
        let howmuch = (if howmuch < 0 \<or> howmuch > int (total_len b) then int (total_len b) else howmuch) in
        do {
          n \<leftarrow> (if howmuch > 0 then evbuffer_write_iovec writev (nat howmuch) b else Some (-1));
          if n > 0
          then do { (r, b, info) \<leftarrow> evbuffer_drain (nat n) b; Some (n, b, info) }
          else Some (n, b, None)
        })"

definition evbuffer_write :: "('b list list \<Rightarrow> int) \<Rightarrow> 'b evbuffer \<Rightarrow> (int \<times> 'b evbuffer \<times> evbuffer_cb_info option) option" where
  "evbuffer_write writev b = evbuffer_write_atmost writev (-1) b"

section \<open>What a buffer holds\<close>

definition chain_data :: "'b evbuffer_chain \<Rightarrow> 'b list" where
  "chain_data c = map the (take (off c) (drop (misalign c) (cells c)))"

definition chain_wf :: "'b evbuffer_chain \<Rightarrow> bool" where
  "chain_wf c \<longleftrightarrow> misalign c + off c \<le> buffer_len c \<and> length (cells c) = buffer_len c \<and>
     (\<exists>k. 10 \<le> k \<and> k \<le> 62 \<and> buffer_len c + EVBUFFER_CHAIN_SIZE = 2 ^ k) \<and>
     None \<notin> set (take (off c) (drop (misalign c) (cells c)))"

definition buffered :: "'b evbuffer \<Rightarrow> 'b list" where
  "buffered b = concat (map chain_data (chains b))"

text \<open>The data is in the chains up to \<^verbatim>\<open>last_with_datap\<close>; only that one may be empty, when it is the first.\<close>

definition evbuffer_wf :: "'b evbuffer \<Rightarrow> bool" where
  "evbuffer_wf b \<longleftrightarrow> list_all chain_wf (chains b) \<and> total_len b = length (buffered b) \<and>
     (if chains b = [] then last_chain b = None \<and> last_with_datap b = 0
      else last_chain b = Some (length (chains b) - 1) \<and>
           (\<exists>pre c post. chains b = pre @ c # post \<and> length pre = last_with_datap b \<and>
              evbuffer_chains_all_empty post \<and> (pre \<noteq> [] \<longrightarrow> off c \<noteq> 0)))"

text \<open>No empty chain at the end: what \<^verbatim>\<open>evbuffer_add\<close> relies on.\<close>

definition tight :: "'b evbuffer \<Rightarrow> bool" where
  "tight b \<longleftrightarrow> length (chains b) \<le> last_with_datap b + 1"

lemma those_map_Some [simp]: "those (map Some xs) = Some xs"
  by (induction xs) simp_all

lemma those_some: "None \<notin> set xs \<Longrightarrow> those xs = Some (map the xs)"
proof (induction xs)
  case (Cons a xs)
  then show ?case by (cases a) simp_all
qed simp

lemma chain_data_length [simp]: "chain_wf c \<Longrightarrow> length (chain_data c) = off c"
  by (auto simp: chain_wf_def chain_data_def min_def)

lemma chain_data_empty: "off c = 0 \<Longrightarrow> chain_data c = []"
  by (simp add: chain_data_def)

lemma all_empty_data: "evbuffer_chains_all_empty cs \<Longrightarrow> concat (map chain_data cs) = []"
  by (induction cs) (auto simp: evbuffer_chains_all_empty_def chain_data_empty)

lemma chain_get_ok:
  assumes "chain_wf c" "n \<le> off c"
  shows "chain_get (misalign c) n c = Some (take n (chain_data c))"
proof -
  let ?xs = "take (off c) (drop (misalign c) (cells c))"
  have "take n (drop (misalign c) (cells c)) = take n ?xs" using assms(2) by (simp add: min_def)
  moreover have "None \<notin> set (take n ?xs)"
    using assms(1) set_take_subset [of n ?xs] unfolding chain_wf_def by blast
  ultimately have "those (take n (drop (misalign c) (cells c))) = Some (take n (map the ?xs))"
    by (simp add: those_some take_map)
  then show ?thesis using assms by (simp add: chain_get_def chain_wf_def chain_data_def)
qed

lemma chain_append_ok:
  assumes "chain_wf c" "length bs \<le> CHAIN_SPACE_LEN c"
  shows "\<exists>c'. chain_append bs c = Some c' \<and> chain_wf c' \<and> chain_data c' = chain_data c @ bs \<and>
    off c' = off c + length bs \<and> misalign c' = misalign c \<and> buffer_len c' = buffer_len c"
proof -
  let ?p = "misalign c + off c"
  have len: "length (cells c) = buffer_len c" "?p \<le> buffer_len c"
    and clean: "None \<notin> set (take (off c) (drop (misalign c) (cells c)))"
    and fits: "?p + length bs \<le> buffer_len c"
    using assms by (auto simp: chain_wf_def CHAIN_SPACE_LEN_def)
  define xs where "xs = take ?p (cells c) @ map Some bs @ drop (?p + length bs) (cells c)"
  have "drop (misalign c) xs = take (off c) (drop (misalign c) (cells c)) @ map Some bs @ drop (?p + length bs) (cells c)"
    using len by (simp add: xs_def drop_take)
  moreover have "length (take (off c) (drop (misalign c) (cells c))) = off c" using len by simp
  ultimately have seg: "take (off c + length bs) (drop (misalign c) xs) =
      take (off c) (drop (misalign c) (cells c)) @ map Some bs" by (simp del: length_take)
  have "length xs = buffer_len c" using len fits by (simp add: xs_def)
  then have "chain_wf (c\<lparr>cells := xs, off := off c + length bs\<rparr>)"
    using assms(1) fits clean seg by (auto simp: chain_wf_def)
  moreover have "chain_data (c\<lparr>cells := xs, off := off c + length bs\<rparr>) = chain_data c @ bs"
    using seg by (simp add: chain_data_def o_def)
  moreover have "chain_append bs c = Some (c\<lparr>cells := xs, off := off c + length bs\<rparr>)"
    using fits len by (simp add: chain_append_def chain_put_def xs_def)
  ultimately show ?thesis by simp
qed

lemma chain_align_ok:
  assumes "chain_wf c"
  shows "chain_wf (evbuffer_chain_align c)" "chain_data (evbuffer_chain_align c) = chain_data c"
    "CHAIN_SPACE_LEN (evbuffer_chain_align c) = buffer_len c - off c"
    "off (evbuffer_chain_align c) = off c" "buffer_len (evbuffer_chain_align c) = buffer_len c"
  using assms by (auto simp: chain_wf_def evbuffer_chain_align_def chain_data_def CHAIN_SPACE_LEN_def)

lemma chain_realign_empty_ok:
  assumes "chain_wf c" "off c = 0"
  shows "chain_wf (c\<lparr>misalign := 0\<rparr>)"
  using assms by (auto simp: chain_wf_def)

text \<open>Allocations below \<open>2 ^ 62\<close> bytes are made, with at least the room asked for.\<close>

lemma chain_alloc_ok:
  assumes "sz \<le> 2 ^ 62" "k \<le> 62" "10 \<le> k"
  shows "\<exists>j. chain_alloc sz (2 ^ k) = Some (2 ^ j) \<and> k \<le> j \<and> j \<le> 62 \<and> sz \<le> 2 ^ j"
  using assms(2,3)
proof (induction "62 - k" arbitrary: k)
  case 0
  then have "k = 62" by simp
  then show ?case using assms(1) by (intro exI [of _ 62]) (simp add: chain_alloc.simps)
next
  case (Suc d)
  show ?case
  proof (cases "2 ^ k < sz")
    case True
    have lt: "k < 62" using Suc.hyps(2) by simp
    then have "(2 :: nat) ^ k * 2 < 2 ^ 64"
      using power_strict_increasing [of "Suc k" 64 "2 :: nat"] by (simp add: mult.commute)
    then have step: "chain_alloc sz (2 ^ k) = chain_alloc sz (2 ^ Suc k)"
      using True by (subst chain_alloc.simps) (simp add: mult.commute)
    have "\<exists>j. chain_alloc sz (2 ^ Suc k) = Some (2 ^ j) \<and> Suc k \<le> j \<and> j \<le> 62 \<and> sz \<le> 2 ^ j"
      using Suc.hyps(1) [of "Suc k"] Suc.hyps(2) Suc.prems lt by simp
    then show ?thesis using step Suc_leD by metis
  next
    case False
    then show ?thesis using Suc.prems by (intro exI [of _ k]) (simp add: chain_alloc.simps)
  qed
qed

lemma chain_new_ok:
  assumes "sz + EVBUFFER_CHAIN_SIZE \<le> 2 ^ 62"
  shows "\<exists>c. evbuffer_chain_new alloc sz = Some (if alloc then Some c else None) \<and> chain_wf c \<and>
    off c = 0 \<and> misalign c = 0 \<and> sz \<le> buffer_len c"
proof -
  have "(sz + EVBUFFER_CHAIN_SIZE) mod 2 ^ 64 = sz + EVBUFFER_CHAIN_SIZE" using assms by simp
  moreover have "MIN_BUFFER_SIZE = 2 ^ 10" by (simp add: MIN_BUFFER_SIZE_def)
  ultimately obtain j where j: "chain_alloc ((sz + EVBUFFER_CHAIN_SIZE) mod 2 ^ 64) MIN_BUFFER_SIZE = Some (2 ^ j)"
    "10 \<le> j" "j \<le> 62" "sz + EVBUFFER_CHAIN_SIZE \<le> 2 ^ j"
    using chain_alloc_ok [OF assms, of 10] by auto
  let ?n = "2 ^ j - EVBUFFER_CHAIN_SIZE"
  let ?c = "\<lparr>buffer_len = ?n, misalign = 0, off = 0, cells = replicate ?n None\<rparr>"
  have "?n + EVBUFFER_CHAIN_SIZE = 2 ^ j" using j(4) by simp
  then have "chain_wf ?c" using j(2,3) by (auto simp: chain_wf_def)
  moreover have "sz \<le> ?n" using j(4) by simp
  ultimately show ?thesis using j by (intro exI [of _ ?c]) (simp add: evbuffer_chain_new_def)
qed

section \<open>Every operation on the bytes it holds\<close>

lemma all_empty_wf: "evbuffer_chains_all_empty (c # cs) \<longleftrightarrow> off c = 0 \<and> evbuffer_chains_all_empty cs"
  "evbuffer_chains_all_empty []" "evbuffer_chains_all_empty (xs @ ys) \<longleftrightarrow> evbuffer_chains_all_empty xs \<and> evbuffer_chains_all_empty ys"
  by (simp_all add: evbuffer_chains_all_empty_def)

lemma evbuffer_wfI:
  assumes "list_all chain_wf (pre @ c # post)" "evbuffer_chains_all_empty post" "pre \<noteq> [] \<longrightarrow> off c \<noteq> 0"
    and "chains b = pre @ c # post" "last_chain b = Some (length pre + length post)" "last_with_datap b = length pre"
    and "total_len b = length (buffered b)"
  shows "evbuffer_wf b"
  unfolding evbuffer_wf_def using assms by auto

lemma buffered_split:
  "chains b = pre @ c # post \<Longrightarrow> evbuffer_chains_all_empty post \<Longrightarrow>
   buffered b = concat (map chain_data pre) @ chain_data c"
  by (simp add: buffered_def all_empty_data)

lemma evbuffer_wf_empty:
  "chains b = [] \<Longrightarrow> last_chain b = None \<Longrightarrow> last_with_datap b = 0 \<Longrightarrow> total_len b = 0 \<Longrightarrow> evbuffer_wf b"
  by (simp add: evbuffer_wf_def buffered_def)

lemma evbuffer_new_ok: "evbuffer_wf evbuffer_new" "tight evbuffer_new" "buffered evbuffer_new = []"
  by (simp_all add: evbuffer_new_def evbuffer_wf_def buffered_def tight_def)

lemma invoke_callbacks_same [simp]:
  "chains (fst (evbuffer_invoke_callbacks b)) = chains b"
  "last_chain (fst (evbuffer_invoke_callbacks b)) = last_chain b"
  "last_with_datap (fst (evbuffer_invoke_callbacks b)) = last_with_datap b"
  "total_len (fst (evbuffer_invoke_callbacks b)) = total_len b"
  "freeze_start (fst (evbuffer_invoke_callbacks b)) = freeze_start b"
  "freeze_end (fst (evbuffer_invoke_callbacks b)) = freeze_end b"
  "has_cbs (fst (evbuffer_invoke_callbacks b)) = has_cbs b"
  by (simp_all add: evbuffer_invoke_callbacks_def)

text \<open>Nothing but the list of chains and its length matters.\<close>

lemma evbuffer_cong:
  assumes "chains b' = chains b" "last_chain b' = last_chain b" "last_with_datap b' = last_with_datap b"
  shows "buffered b' = buffered b" "tight b' = tight b"
    "total_len b' = total_len b \<Longrightarrow> evbuffer_wf b' = evbuffer_wf b"
  using assms by (simp_all add: buffered_def tight_def evbuffer_wf_def)

lemma first_empty_all: "evbuffer_chains_all_empty cs \<Longrightarrow> first_empty k cs = (if cs = [] then None else Some k)"
  by (cases cs) (simp_all add: evbuffer_chains_all_empty_def)

lemma chain_insert_ok:
  assumes wf: "evbuffer_wf b" and c: "chain_wf c" and use: "off c = 0 \<or> tight b"
  shows "\<exists>b'. evbuffer_chain_insert c b = Some b' \<and> evbuffer_wf b' \<and> buffered b' = buffered b @ chain_data c \<and>
    (tight b \<and> (off c \<noteq> 0 \<or> buffered b = []) \<longrightarrow> tight b') \<and>
    n_add_for_cb b' = n_add_for_cb b \<and> n_del_for_cb b' = n_del_for_cb b \<and>
    freeze_start b' = freeze_start b \<and> freeze_end b' = freeze_end b \<and> has_cbs b' = has_cbs b \<and>
    chains b' \<noteq> [] \<and> last (chains b') = c"
proof (cases "chains b = []")
  case True
  then have "evbuffer_chain_insert c b =
      Some (b\<lparr>chains := [c], last_chain := Some 0, total_len := total_len b + off c\<rparr>)"
    using wf by (simp add: evbuffer_chain_insert_def evbuffer_wf_def)
  then show ?thesis
    using True wf c
    by (intro exI [of _ "b\<lparr>chains := [c], last_chain := Some 0, total_len := total_len b + off c\<rparr>"])
       (auto simp: evbuffer_wf_def buffered_def tight_def all_empty_wf)
next
  case False
  then obtain pre d post where b: "chains b = pre @ d # post" "length pre = last_with_datap b"
    "evbuffer_chains_all_empty post" "pre \<noteq> [] \<longrightarrow> off d \<noteq> 0" "last_chain b = Some (length pre + length post)"
    "list_all chain_wf (chains b)" "total_len b = length (buffered b)"
    using wf by (auto simp: evbuffer_wf_def)
  have lwd: "\<not> length (chains b) \<le> last_with_datap b" "drop (last_with_datap b) (chains b) = d # post"
    using b(1,2) by auto
  note data = buffered_split [OF b(1,3)]
  let ?b = "\<lambda>cs l p. b\<lparr>chains := cs, last_chain := Some l, last_with_datap := p, total_len := total_len b + off c\<rparr>"
  consider "off d = 0" | "off d \<noteq> 0" "post = []" | "off d \<noteq> 0" "post \<noteq> []" by blast
  then show ?thesis
  proof cases
    case 1
    then have pre: "pre = []" using b(4) by blast
    have "evbuffer_chains_all_empty (drop 0 (chains b))" using 1 b(1,3) pre by (simp add: all_empty_wf)
    then have res: "evbuffer_chain_insert c b = Some (?b [c] 0 (last_with_datap b))"
      using lwd 1 pre b(2) by (simp add: evbuffer_chain_insert_def)
    have "buffered b = []" using data pre 1 by (simp add: chain_data_empty)
    then show ?thesis
      using res c b(2,7) pre
      by (intro exI [of _ "?b [c] 0 (last_with_datap b)"]) (auto simp: evbuffer_wf_def buffered_def tight_def all_empty_wf)
  next
    case 2
    let ?l = "length pre"
    have res: "evbuffer_chain_insert c b =
        Some (?b (pre @ [d, c]) (?l + 1) (if off c \<noteq> 0 then ?l + 1 else ?l))"
      using lwd 2 b(1,2,5) by (simp add: evbuffer_chain_insert_def)
    have data': "buffered x = buffered b @ chain_data c" if "chains x = pre @ [d, c]" for x
      using data that by (simp add: buffered_def)
    have "evbuffer_wf (?b (pre @ [d, c]) (?l + 1) (if off c \<noteq> 0 then ?l + 1 else ?l))"
    proof (cases "off c = 0")
      case True
      show ?thesis
        by (rule evbuffer_wfI [where pre = pre and c = d and post = "[c]"])
           (use True 2 b c data' in \<open>simp_all add: all_empty_wf\<close>)
    next
      case False
      show ?thesis
        by (rule evbuffer_wfI [where pre = "pre @ [d]" and c = c and post = "[]"])
           (use False 2 b c data' in \<open>simp_all add: all_empty_wf\<close>)
    qed
    moreover have "buffered b \<noteq> []"
      using data 2 b(1,6) chain_data_length [of d] by (cases "chain_data d") auto
    ultimately show ?thesis using res data' 2 b(1,2) by (auto simp: tight_def)
  next
    case 3
    then have "\<not> tight b" using b(1,2) by (cases post) (auto simp: tight_def)
    then have empty: "off c = 0" using use by blast
    let ?l = "length pre"
    have "first_empty (last_with_datap b) (d # post) = Some (?l + 1)"
      using 3 first_empty_all [OF b(3), of "?l + 1"] b(2) by simp
    moreover have "drop (?l + 1) (chains b) = post" "take (?l + 1) (chains b) = pre @ [d]" using b(1) by simp_all
    ultimately have res: "evbuffer_chain_insert c b = Some (?b (pre @ [d, c]) (?l + 1) (last_with_datap b))"
      using lwd b(3) by (simp add: evbuffer_chain_insert_def)
    have data': "buffered (?b (pre @ [d, c]) (?l + 1) (last_with_datap b)) = buffered b @ chain_data c"
      using data by (simp add: buffered_def)
    have "evbuffer_wf (?b (pre @ [d, c]) (?l + 1) (last_with_datap b))"
      by (rule evbuffer_wfI [where pre = pre and c = d and post = "[c]"])
         (use 3 b c data' empty in \<open>simp_all add: all_empty_wf\<close>)
    then show ?thesis using res data' \<open>\<not> tight b\<close> by auto
  qed
qed

text \<open>The switches that no operation on the content moves.\<close>

definition same_switches :: "'b evbuffer \<Rightarrow> 'b evbuffer \<Rightarrow> bool" where
  "same_switches b b' \<longleftrightarrow> freeze_start b' = freeze_start b \<and> freeze_end b' = freeze_end b \<and> has_cbs b' = has_cbs b"

lemma same_switches_simps [simp]:
  "same_switches b b" "same_switches b (fst (evbuffer_invoke_callbacks b')) = same_switches b b'"
  by (simp_all add: same_switches_def)

lemma drain_loop_ok:
  "list_all chain_wf cs \<Longrightarrow> remaining < length (concat (map chain_data cs)) \<Longrightarrow>
   \<exists>dr c rest rem. drain_loop j lwd remaining cs =
       Some (j + length dr, if dr \<noteq> [] \<and> j \<le> lwd \<and> lwd \<le> j + length dr then 0 else lwd, rem, c # rest) \<and>
     cs = dr @ c # rest \<and> rem < off c \<and> remaining = length (concat (map chain_data dr)) + rem"
proof (induction cs arbitrary: j lwd remaining)
  case (Cons c cs)
  show ?case
  proof (cases "off c \<le> remaining")
    case True
    let ?lwd = "if lwd = j \<or> lwd = j + 1 then 0 else lwd"
    have "remaining - off c < length (concat (map chain_data cs))" using Cons.prems True by simp
    then obtain dr d rest rem where ih: "drain_loop (j + 1) ?lwd (remaining - off c) cs =
        Some (j + 1 + length dr, if dr \<noteq> [] \<and> j + 1 \<le> ?lwd \<and> ?lwd \<le> j + 1 + length dr then 0 else ?lwd, rem, d # rest)"
      "cs = dr @ d # rest" "rem < off d" "remaining - off c = length (concat (map chain_data dr)) + rem"
      using Cons.IH [of "remaining - off c" "j + 1" ?lwd] Cons.prems(1) by auto
    have lwd: "(if dr \<noteq> [] \<and> j + 1 \<le> ?lwd \<and> ?lwd \<le> j + 1 + length dr then 0 else ?lwd) =
        (if j \<le> lwd \<and> lwd \<le> j + 1 + length dr then 0 else lwd)"
      by (cases dr) auto
    have "remaining = length (concat (map chain_data (c # dr))) + rem" using ih(4) True Cons.prems(1) by simp
    then show ?thesis
      using ih(1-3) True unfolding lwd
      by (intro exI [of _ "c # dr"] exI [of _ d] exI [of _ rest] exI [of _ rem]) simp
  next
    case False
    then show ?thesis by (intro exI [of _ "[]"]) auto
  qed
qed simp

lemma chain_skip_ok:
  assumes "chain_wf c" "n \<le> off c"
  shows "chain_wf (c\<lparr>misalign := misalign c + n, off := off c - n\<rparr>)"
    "chain_data (c\<lparr>misalign := misalign c + n, off := off c - n\<rparr>) = drop n (chain_data c)"
proof -
  have eq: "take (off c - n) (drop (misalign c + n) (cells c)) = drop n (take (off c) (drop (misalign c) (cells c)))"
    by (simp add: drop_take add.commute)
  then show "chain_data (c\<lparr>misalign := misalign c + n, off := off c - n\<rparr>) = drop n (chain_data c)"
    by (simp add: chain_data_def drop_map)
  have "None \<notin> set (drop n (take (off c) (drop (misalign c) (cells c))))"
    using assms(1) in_set_dropD [of None n] unfolding chain_wf_def by blast
  then have "None \<notin> set (take (off c - n) (drop (misalign c + n) (cells c)))" unfolding eq .
  moreover have "misalign c + n + (off c - n) \<le> buffer_len c" using assms unfolding chain_wf_def by linarith
  moreover have "length (cells c) = buffer_len c"
    "\<exists>k. 10 \<le> k \<and> k \<le> 62 \<and> buffer_len c + EVBUFFER_CHAIN_SIZE = 2 ^ k"
    using assms(1) unfolding chain_wf_def by blast+
  ultimately show "chain_wf (c\<lparr>misalign := misalign c + n, off := off c - n\<rparr>)"
    unfolding chain_wf_def by simp
qed

lemma evbuffer_drain_ok:
  assumes wf: "evbuffer_wf b" and free: "\<not> freeze_start b"
  shows "\<exists>b' info. evbuffer_drain len b = Some (0, b', info) \<and> evbuffer_wf b' \<and> buffered b' = drop len (buffered b) \<and>
    (tight b \<longrightarrow> tight b') \<and> same_switches b b'"
proof (cases "total_len b = 0")
  case True
  then have "buffered b = []" using wf by (simp add: evbuffer_wf_def)
  then show ?thesis using wf True by (simp add: evbuffer_drain_def)
next
  case False
  have total: "total_len b = length (buffered b)" using wf by (simp add: evbuffer_wf_def)
  define fin where "fin b2 = evbuffer_invoke_callbacks (b2\<lparr>n_del_for_cb := n_del_for_cb b2 + min len (total_len b)\<rparr>)"
    for b2 :: "'a evbuffer"
  have step: "\<exists>b1. (if len \<ge> total_len b then Some (ZERO_CHAIN b)
             else do {
               (j, lwd, remaining, cs) \<leftarrow> drain_loop 0 (last_with_datap b) len (chains b);
               if cs = [] \<or> (0 < lwd \<and> lwd \<le> j) \<or> (case last_chain b of None \<Rightarrow> True | Some l \<Rightarrow> l < j)
               then None
               else Some (b\<lparr>chains := (hd cs)\<lparr>misalign := misalign (hd cs) + remaining, off := off (hd cs) - remaining\<rparr> # tl cs,
                            last_chain := map_option (\<lambda>l. l - j) (last_chain b),
                            last_with_datap := lwd - j,
                            total_len := total_len b - len\<rparr>)
             }) = Some b1 \<and> evbuffer_wf b1 \<and> buffered b1 = drop len (buffered b) \<and> (tight b \<longrightarrow> tight b1) \<and> same_switches b b1"
  proof (cases "len \<ge> total_len b")
    case True
    then show ?thesis
      using total by (auto simp: ZERO_CHAIN_def tight_def same_switches_def buffered_def intro!: evbuffer_wf_empty)
  next
    case less: False
    have ne: "chains b \<noteq> []" using False total by (auto simp: buffered_def)
    then obtain pre d post where b: "chains b = pre @ d # post" "length pre = last_with_datap b"
      "evbuffer_chains_all_empty post" "pre \<noteq> [] \<longrightarrow> off d \<noteq> 0" "last_chain b = Some (length pre + length post)"
      "list_all chain_wf (chains b)"
      using wf by (auto simp: evbuffer_wf_def)
    have "len < length (concat (map chain_data (chains b)))" using less total by (simp add: buffered_def)
    then obtain dr c rest rem where loop: "drain_loop 0 (last_with_datap b) len (chains b) =
        Some (length dr, if dr \<noteq> [] \<and> last_with_datap b \<le> length dr then 0 else last_with_datap b, rem, c # rest)"
      "chains b = dr @ c # rest" "rem < off c" "len = length (concat (map chain_data dr)) + rem"
      using drain_loop_ok [OF b(6), of len 0 "last_with_datap b"] by auto
    have le: "length dr \<le> length pre"
    proof (rule ccontr)
      assume "\<not> length dr \<le> length pre"
      then have "c \<in> set post" using b(1) loop(2) by (auto simp: append_eq_append_conv2 Cons_eq_append_conv append_eq_Cons_conv)
      then show False using b(3) loop(3) by (auto simp: evbuffer_chains_all_empty_def list_all_iff)
    qed
    define c' where "c' = c\<lparr>misalign := misalign c + rem, off := off c - rem\<rparr>"
    define lwd where "lwd = (if dr \<noteq> [] \<and> last_with_datap b \<le> length dr then 0 else last_with_datap b)"
    define b1 where "b1 = b\<lparr>chains := c' # rest, last_chain := Some (length pre + length post - length dr),
      last_with_datap := lwd - length dr, total_len := total_len b - len\<rparr>"
    have lwd': "lwd - length dr = length pre - length dr" "\<not> (0 < lwd \<and> lwd \<le> length dr)"
      using le b(2) by (auto simp: lwd_def)
    have c: "chain_wf c" using b(6) loop(2) by simp
    note c' = chain_skip_ok [OF c, of rem, folded c'_def]
    have data: "buffered b1 = drop len (buffered b)"
      using loop(2,4) c' loop(3) chain_data_length [OF c] by (simp add: buffered_def b1_def)
    have split: "\<exists>pre' d' post'. c' # rest = pre' @ d' # post' \<and> length pre' = length pre - length dr \<and>
        evbuffer_chains_all_empty post' \<and> (pre' \<noteq> [] \<longrightarrow> off d' \<noteq> 0)"
    proof (cases "length dr = length pre")
      case True
      then have "dr = pre" "rest = post" using loop(2) b(1) by auto
      then show ?thesis using b(3) by (intro exI [of _ "[]"]) simp
    next
      case False
      have eq: "dr @ c # rest = pre @ d # post" using loop(2) b(1) by simp
      have "pre = take (length dr) pre @ drop (length dr) pre" by simp
      moreover have "take (length dr) pre = dr" using arg_cong [OF eq, of "take (length dr)"] le by simp
      ultimately obtain mid where mid0: "pre = dr @ mid" by metis
      then have mid: "pre = dr @ mid" "c # rest = mid @ d # post" "mid \<noteq> []" using eq False by auto
      then obtain mid' where "mid = c # mid'" "rest = mid' @ d # post" by (cases mid) auto
      then show ?thesis
        using b(3,4) mid by (intro exI [of _ "c' # mid'"] exI [of _ d] exI [of _ post]) auto
    qed
    have lens: "length dr + length rest = length pre + length post" using loop(2) b(1) by (metis add_Suc_right length_Cons length_append nat.inject)
    obtain pre' d' post' where s: "c' # rest = pre' @ d' # post'" "length pre' = length pre - length dr"
      "evbuffer_chains_all_empty post'" "pre' \<noteq> [] \<longrightarrow> off d' \<noteq> 0" using split by blast
    have "length (c' # rest) = length (pre' @ d' # post')" using s(1) by simp
    then have lens': "length pre' + length post' = length pre + length post - length dr" using lens by simp
    have "list_all chain_wf (c' # rest)" using b(6) loop(2,3) c'(1) by simp
    then have wf1: "evbuffer_wf b1"
      by (intro evbuffer_wfI [OF _ s(3,4)])
         (use s lens' lwd'(1) data total in \<open>simp_all add: b1_def\<close>)
    have "tight b1" if "tight b"
    proof -
      have "post = []" using that b(1,2) by (cases post) (auto simp: tight_def)
      then show ?thesis using lens le by (simp add: tight_def b1_def lwd'(1))
    qed
    moreover have "last_chain b = Some (length pre + length post)" "length dr \<le> length pre + length post" using b(5) le by simp_all
    ultimately show ?thesis
      using less loop(1) data wf1 lwd'(2)
      by (intro exI [of _ b1]) (simp add: lwd_def [symmetric] b1_def c'_def same_switches_def not_less)
  qed
  then obtain b1 where b1: "evbuffer_wf b1" "buffered b1 = drop len (buffered b)" "tight b \<longrightarrow> tight b1" "same_switches b b1"
    and eq: "evbuffer_drain len b = Some (0, fin b1)"
    using False free by (auto simp: evbuffer_drain_def Let_def fin_def split: prod.splits)
  have same: "chains (fst (fin b1)) = chains b1" "last_chain (fst (fin b1)) = last_chain b1"
    "last_with_datap (fst (fin b1)) = last_with_datap b1" "total_len (fst (fin b1)) = total_len b1"
    by (simp_all add: fin_def)
  note cong = evbuffer_cong [OF same(1-3)]
  have "evbuffer_wf (fst (fin b1)) \<and> buffered (fst (fin b1)) = drop len (buffered b) \<and>
      (tight b \<longrightarrow> tight (fst (fin b1))) \<and> same_switches b (fst (fin b1))"
    using b1 cong(1,2) cong(3) [OF same(4)] by (simp add: fin_def same_switches_def)
  then show ?thesis using eq by (cases "fin b1") auto
qed

lemma copy_loop_ok:
  "list_all chain_wf cs \<Longrightarrow> n \<le> length (concat (map chain_data cs)) \<Longrightarrow>
   copy_loop n cs = Some (take n (concat (map chain_data cs)))"
proof (induction cs arbitrary: n)
  case (Cons c cs)
  then have c: "chain_wf c" by simp
  have len: "length (chain_data c) = off c" using c by simp
  show ?case
  proof (cases "n \<ge> off c \<and> n \<noteq> 0")
    case True
    have "copy_loop (n - off c) cs = Some (take (n - off c) (concat (map chain_data cs)))"
      using Cons len by simp
    then show ?thesis using True chain_get_ok [OF c, of "off c"] len by simp
  next
    case False
    then show ?thesis using chain_get_ok [OF c, of n] len by (cases "n = 0") auto
  qed
qed simp

lemma evbuffer_copyout_ok:
  assumes "evbuffer_wf b" "\<not> freeze_start b"
  shows "evbuffer_copyout n b = Some (int (min n (length (buffered b))), take n (buffered b))"
proof -
  have wf: "total_len b = length (buffered b)" "list_all chain_wf (chains b)"
    using assms(1) by (simp_all add: evbuffer_wf_def)
  have "copy_loop (min n (length (buffered b))) (chains b) = Some (take (min n (length (buffered b))) (buffered b))"
    using copy_loop_ok [OF wf(2)] by (simp add: buffered_def)
  then show ?thesis using assms(2) wf(1) by (auto simp: evbuffer_copyout_def min_def Let_def)
qed

lemma evbuffer_remove_ok:
  assumes wf: "evbuffer_wf b" and free: "\<not> freeze_start b" and small: "min n (length (buffered b)) < 2 ^ 31"
  shows "\<exists>b' info. evbuffer_remove n b = Some (int (min n (length (buffered b))), take n (buffered b), b', info) \<and>
    evbuffer_wf b' \<and> buffered b' = drop n (buffered b) \<and> (tight b \<longrightarrow> tight b') \<and> same_switches b b'"
proof -
  let ?m = "min n (length (buffered b))"
  have cast: "sint (word_of_int (int ?m) :: 32 word) = int ?m"
    unfolding sint_sbintrunc' by (rule signed_take_bit_int_eq_self) (use small in simp_all)
  have out: "evbuffer_copyout n b = Some (int ?m, take n (buffered b))" by (rule evbuffer_copyout_ok [OF wf free])
  show ?thesis
  proof (cases "?m = 0")
    case True
    then have "drop n (buffered b) = buffered b" by (cases "n = 0") (auto simp: min_def split: if_splits)
    then show ?thesis using out True cast wf by (simp add: evbuffer_remove_def)
  next
    case False
    obtain b' info where d: "evbuffer_drain ?m b = Some (0, b', info)" "evbuffer_wf b'"
      "buffered b' = drop ?m (buffered b)" "tight b \<longrightarrow> tight b'" "same_switches b b'"
      using evbuffer_drain_ok [OF wf free, of ?m] by blast
    have "drop ?m (buffered b) = drop n (buffered b)" by (cases "n \<le> length (buffered b)") (simp_all add: min_def)
    then show ?thesis using out False cast d by (simp add: evbuffer_remove_def)
  qed
qed

lemma gather_ok:
  "list_all chain_wf cs \<Longrightarrow>
   \<exists>vs. gather m n cs = Some vs \<and> concat vs = take n (concat (map chain_data (take m cs)))"
proof (induction m n cs rule: gather.induct)
  case (3 m n c cs)
  then have c: "chain_wf c" by simp
  have len: "length (chain_data c) = off c" using c by simp
  show ?case
  proof (cases "n = 0 \<or> \<not> n \<ge> off c")
    case True
    then show ?thesis using chain_get_ok [OF c, of n] len by (cases "n = 0") auto
  next
    case False
    then obtain vs where "gather m (n - off c) cs = Some vs"
      "concat vs = take (n - off c) (concat (map chain_data (take m cs)))"
      using 3 chain_get_ok [OF c, of "off c"] by auto
    then show ?thesis using False chain_get_ok [OF c, of "off c"] len by simp
  qed
qed simp_all

text \<open>\<open>writev\<close> takes a part of what it is given.\<close>

definition writev_contract :: "('b list list \<Rightarrow> int) \<Rightarrow> bool" where
  "writev_contract writev \<longleftrightarrow> (\<forall>vs. writev vs \<le> int (length (concat vs)))"

lemma evbuffer_write_ok:
  assumes contract: "writev_contract writev" and wf: "evbuffer_wf b" and free: "\<not> freeze_start b"
  shows "\<exists>n b' info. evbuffer_write_atmost writev howmuch b = Some (n, b', info) \<and> evbuffer_wf b' \<and>
    buffered b' = drop (nat n) (buffered b) \<and> n \<le> int (length (buffered b)) \<and>
    (tight b \<longrightarrow> tight b') \<and> same_switches b b' \<and>
    (0 < n \<longrightarrow> (\<exists>vs. n = writev vs \<and> nat n \<le> length (concat vs) \<and> (\<exists>rest. concat vs @ rest = buffered b)))"
proof -
  have tot: "total_len b = length (buffered b)" "list_all chain_wf (chains b)" using wf by (simp_all add: evbuffer_wf_def)
  define h where "h = (if howmuch < 0 \<or> howmuch > int (total_len b) then int (total_len b) else howmuch)"
  obtain vs where vs: "gather NUM_WRITE_IOVEC (nat h) (chains b) = Some vs"
    "concat vs = take (nat h) (concat (map chain_data (take NUM_WRITE_IOVEC (chains b))))"
    using gather_ok [OF tot(2)] by blast
  have "buffered b = concat (map chain_data (take NUM_WRITE_IOVEC (chains b))) @
      concat (map chain_data (drop NUM_WRITE_IOVEC (chains b)))"
    unfolding buffered_def by (metis append_take_drop_id concat_append map_append)
  then have rest: "\<exists>rest. concat vs @ rest = buffered b"
    unfolding vs(2) by (metis append.assoc append_take_drop_id)
  define n where "n = (if h > 0 then writev vs else -1)"
  have step: "(if h > 0 then evbuffer_write_iovec writev (nat h) b else Some (-1)) = Some n"
    using vs(1) by (simp add: n_def evbuffer_write_iovec_def)
  have n: "n \<le> int (length (concat vs))"
    using contract [unfolded writev_contract_def, THEN spec [where x = vs]] by (simp add: n_def)
  have fits: "length (concat vs) \<le> length (buffered b)" using rest by (metis length_append le_add1)
  show ?thesis
  proof (cases "n > 0")
    case True
    obtain b' info where d: "evbuffer_drain (nat n) b = Some (0, b', info)" "evbuffer_wf b'"
      "buffered b' = drop (nat n) (buffered b)" "tight b \<longrightarrow> tight b'" "same_switches b b'"
      using evbuffer_drain_ok [OF wf free, of "nat n"] by blast
    have "evbuffer_write_atmost writev howmuch b = Some (n, b', info)"
      using free step True d(1) by (simp add: evbuffer_write_atmost_def h_def [symmetric])
    moreover have "n = writev vs" using True by (auto simp: n_def split: if_splits)
    ultimately show ?thesis using d(2-) n fits rest by fastforce
  next
    case False
    then have "evbuffer_write_atmost writev howmuch b = Some (n, b, None)"
      using free step by (simp add: evbuffer_write_atmost_def h_def [symmetric])
    then show ?thesis using False wf by simp
  qed
qed

lemma tight_last:
  assumes "evbuffer_wf b" "tight b" "chains b \<noteq> []"
  obtains pre c where "chains b = pre @ [c]" "last_chain b = Some (length pre)" "last_with_datap b = length pre"
    "pre \<noteq> [] \<longrightarrow> off c \<noteq> 0" "buffered b = concat (map chain_data pre) @ chain_data c"
    "chain_wf c" "list_all chain_wf pre" "total_len b = length (buffered b)"
proof -
  obtain pre c post where b: "chains b = pre @ c # post" "length pre = last_with_datap b"
    "evbuffer_chains_all_empty post" "pre \<noteq> [] \<longrightarrow> off c \<noteq> 0" "last_chain b = Some (length pre + length post)"
    "list_all chain_wf (chains b)" "total_len b = length (buffered b)"
    using assms by (auto simp: evbuffer_wf_def)
  have "post = []" using assms(2) b(1,2) by (cases post) (auto simp: tight_def)
  then show thesis by (intro that [of pre c]) (use b in \<open>simp_all add: buffered_def\<close>)
qed

text \<open>Bytes put behind those of the last chain.\<close>

lemma last_chain_extended:
  assumes wf: "evbuffer_wf b" and t: "tight b" and b: "chains b = pre @ [c]"
    and c': "chain_wf c'" "chain_data c' = chain_data c @ bs" "off c \<le> off c'"
    and b': "chains b' = pre @ [c']" "last_chain b' = last_chain b" "last_with_datap b' = last_with_datap b"
      "total_len b' = total_len b + length bs"
  shows "evbuffer_wf b'" "tight b'" "buffered b' = buffered b @ bs"
proof -
  have ne: "chains b \<noteq> []" using b by simp
  obtain pre2 c2 where c: "chains b = pre2 @ [c2]" "last_chain b = Some (length pre2)" "last_with_datap b = length pre2"
    "pre2 \<noteq> [] \<longrightarrow> off c2 \<noteq> 0" "buffered b = concat (map chain_data pre2) @ chain_data c2"
    "chain_wf c2" "list_all chain_wf pre2" "total_len b = length (buffered b)"
    by (rule tight_last [OF wf t ne])
  have eq: "pre2 = pre" "c2 = c" using b c(1) by simp_all
  show data: "buffered b' = buffered b @ bs" using b'(1) c(5) c'(2) by (simp add: buffered_def eq)
  show "tight b'" using b' c(3) by (simp add: tight_def eq)
  show "evbuffer_wf b'"
    by (rule evbuffer_wfI [where pre = pre and c = c' and post = "[]"])
       (use c c' b' data in \<open>auto simp: eq all_empty_wf\<close>)
qed

lemma add_overflow_ok:
  fixes b :: "'b evbuffer"
  assumes wf: "evbuffer_wf b" and t: "tight b" and b: "chains b = pre @ [c]"
    and small: "length data + EVBUFFER_CHAIN_SIZE \<le> 2 ^ 62" and full: "CHAIN_SPACE_LEN c < length data"
  shows "\<exists>r b' info. add_overflow alloc data (length pre) c b = Some (r, b', info) \<and> evbuffer_wf b' \<and> tight b' \<and>
    same_switches b b' \<and>
    (r = 0 \<and> buffered b' = buffered b @ data \<or> r = -1 \<and> \<not> alloc \<and> buffered b' = buffered b)"
proof -
  have c: "chain_wf c" using wf b by (simp add: evbuffer_wf_def)
  define remain where "remain = CHAIN_SPACE_LEN c"
  have remain: "buffer_len c - misalign c - off c = remain" by (simp add: remain_def CHAIN_SPACE_LEN_def)
  define to_alloc where "to_alloc = (let a = (if buffer_len c \<le> EVBUFFER_CHAIN_MAX_AUTO_SIZE div 2
    then buffer_len c * 2 else buffer_len c) in if length data > a then length data else a)"
  have len: "buffer_len c + EVBUFFER_CHAIN_SIZE \<le> 2 ^ 62"
    using c power_increasing [of _ 62 "2 :: nat"] by (auto simp: chain_wf_def)
  then have "to_alloc + EVBUFFER_CHAIN_SIZE \<le> 2 ^ 62" "length data \<le> to_alloc"
    using small by (auto simp: to_alloc_def Let_def EVBUFFER_CHAIN_MAX_AUTO_SIZE_def EVBUFFER_CHAIN_SIZE_def)
  then obtain tmp :: "'b evbuffer_chain"
    where tmp: "evbuffer_chain_new alloc to_alloc = Some (if alloc then Some tmp else None)"
    "chain_wf tmp" "off tmp = 0" "misalign tmp = 0" "length data \<le> buffer_len tmp"
    using chain_new_ok [of to_alloc alloc] by (metis order_trans)
  define put where "put = (if remain \<noteq> 0 then do {
        c \<leftarrow> chain_append (take remain data) c;
        Some (b\<lparr>chains := (chains b)[length pre := c], total_len := total_len b + remain,
                n_add_for_cb := n_add_for_cb b + remain\<rparr>) } else Some b)"
  have eq: "add_overflow alloc data (length pre) c b =
      do {
        tmp \<leftarrow> evbuffer_chain_new alloc to_alloc;
        (case tmp of
           None \<Rightarrow> Some (-1, b, None)
         | Some tmp \<Rightarrow>
             do {
               b \<leftarrow> put;
               tmp \<leftarrow> chain_append (drop remain data) tmp;
               b \<leftarrow> evbuffer_chain_insert tmp b;
               let (b, info) = evbuffer_invoke_callbacks
                                 (b\<lparr>n_add_for_cb := n_add_for_cb b + length (drop remain data)\<rparr>);
               Some (0, b, info)
             })
      }"
    unfolding add_overflow_def Let_def remain to_alloc_def put_def by (rule refl)
  show ?thesis
  proof (cases alloc)
    case False
    then show ?thesis unfolding eq using tmp(1) wf t by simp
  next
    case True
    have "length (drop remain data) \<le> CHAIN_SPACE_LEN tmp" using tmp(3-5) by (simp add: CHAIN_SPACE_LEN_def)
    from chain_append_ok [OF tmp(2) this]
    obtain tmp' where tmp': "chain_append (drop remain data) tmp = Some tmp'" "chain_wf tmp'"
      "chain_data tmp' = drop remain data" "off tmp' = length (drop remain data)"
      using tmp(3) by (auto simp: chain_data_empty)
    have rest: "off tmp' \<noteq> 0" using tmp'(4) full by (simp add: remain_def)
    have "\<exists>b1. put = Some b1 \<and> evbuffer_wf b1 \<and> tight b1 \<and> buffered b1 = buffered b @ take remain data \<and> same_switches b b1"
    proof (cases "remain = 0")
      case True
      then show ?thesis using wf t by (simp add: put_def)
    next
      case False
      obtain c' where c': "chain_append (take remain data) c = Some c'" "chain_wf c'"
        "chain_data c' = chain_data c @ take remain data" "off c \<le> off c'"
        using chain_append_ok [OF c, of "take remain data"] by (auto simp: remain_def)
      define b1 where "b1 = b\<lparr>chains := (chains b)[length pre := c'], total_len := total_len b + remain,
                n_add_for_cb := n_add_for_cb b + remain\<rparr>"
      have "length (take remain data) = remain" using full by (simp add: remain_def)
      then have "evbuffer_wf b1 \<and> tight b1 \<and> buffered b1 = buffered b @ take remain data"
        using last_chain_extended [OF wf t b c'(2-4), of b1] b by (simp add: b1_def)
      then show ?thesis using False c'(1) by (simp add: put_def b1_def same_switches_def)
    qed
    then obtain b1 where b1: "put = Some b1" "evbuffer_wf b1" "tight b1"
      "buffered b1 = buffered b @ take remain data" "same_switches b b1" by blast
    obtain b2 where b2: "evbuffer_chain_insert tmp' b1 = Some b2" "evbuffer_wf b2"
      "buffered b2 = buffered b1 @ chain_data tmp'" "tight b2" "same_switches b1 b2"
      using chain_insert_ok [OF b1(2) tmp'(2)] b1(3) rest by (auto simp: same_switches_def)
    define b3 where "b3 = evbuffer_invoke_callbacks (b2\<lparr>n_add_for_cb := n_add_for_cb b2 + length (drop remain data)\<rparr>)"
    have "add_overflow alloc data (length pre) c b = Some (0, b3)"
      using True tmp(1) tmp'(1) b1(1) b2(1) unfolding eq by (simp add: b3_def split: prod.split)
    moreover have same: "chains (fst b3) = chains b2" "last_chain (fst b3) = last_chain b2"
      "last_with_datap (fst b3) = last_with_datap b2" "total_len (fst b3) = total_len b2" by (simp_all add: b3_def)
    moreover have "same_switches b (fst b3)" using b1(5) b2(5) by (simp add: b3_def same_switches_def)
    ultimately show ?thesis
      using b1(4) b2(2-4) tmp'(3) evbuffer_cong(1,2) [OF same(1-3)] evbuffer_cong(3) [OF same(1-4)]
      by (cases b3) simp
  qed
qed

text \<open>The last part of \<^verbatim>\<open>evbuffer_add\<close>, on a buffer that has a chain.\<close>

lemma invoke_callbacks_ok:
  assumes "evbuffer_wf b" "buffered b = bs"
  shows "\<exists>b' info. evbuffer_invoke_callbacks b = (b', info) \<and> evbuffer_wf b' \<and> buffered b' = bs \<and>
    tight b' = tight b \<and> same_switches b b'"
proof -
  have same: "chains (fst (evbuffer_invoke_callbacks b)) = chains b"
    "last_chain (fst (evbuffer_invoke_callbacks b)) = last_chain b"
    "last_with_datap (fst (evbuffer_invoke_callbacks b)) = last_with_datap b"
    "total_len (fst (evbuffer_invoke_callbacks b)) = total_len b" by simp_all
  have sw: "same_switches b (fst (evbuffer_invoke_callbacks b))" by simp
  obtain b' info where res: "evbuffer_invoke_callbacks b = (b', info)" by (cases "evbuffer_invoke_callbacks b")
  show ?thesis
    using assms evbuffer_cong(1,2) [OF same(1-3)] evbuffer_cong(3) [OF same] sw unfolding res by simp
qed

lemma evbuffer_add_ok:
  fixes b :: "'b evbuffer"
  assumes wf: "evbuffer_wf b" and t: "tight b" and free: "\<not> freeze_end b"
    and small: "length data + EVBUFFER_CHAIN_SIZE \<le> 2 ^ 62"
  shows "\<exists>r b' info. evbuffer_add alloc alloc' data b = Some (r, b', info) \<and> evbuffer_wf b' \<and> tight b' \<and>
    same_switches b b' \<and>
    (r = 0 \<and> buffered b' = buffered b @ data \<or> r = -1 \<and> \<not> (alloc \<and> alloc') \<and> buffered b' = buffered b)"
proof -
  define start where "start = (case last_chain b of
                 Some l \<Rightarrow> Some (Some b)
               | None \<Rightarrow> do {
                   c \<leftarrow> evbuffer_chain_new alloc (length data);
                   (case c of None \<Rightarrow> Some None | Some c \<Rightarrow> map_option Some (evbuffer_chain_insert c b))
                 })"
  have "start = Some None \<and> \<not> alloc \<or>
      (\<exists>b1. start = Some (Some b1) \<and> evbuffer_wf b1 \<and> tight b1 \<and> buffered b1 = buffered b \<and>
         same_switches b b1 \<and> chains b1 \<noteq> [])"
  proof (cases "chains b = []")
    case False
    then show ?thesis using wf t by (auto simp: start_def evbuffer_wf_def)
  next
    case True
    obtain c :: "'b evbuffer_chain" where c: "evbuffer_chain_new alloc (length data) = Some (if alloc then Some c else None)"
      "chain_wf c" "off c = 0" using chain_new_ok [OF small, of alloc] by blast
    obtain b1 where b1: "evbuffer_chain_insert c b = Some b1" "evbuffer_wf b1" "buffered b1 = buffered b @ chain_data c"
      "tight b \<and> (off c \<noteq> 0 \<or> buffered b = []) \<longrightarrow> tight b1" "same_switches b b1" "chains b1 \<noteq> []"
      using chain_insert_ok [OF wf c(2)] c(3) by (auto simp: same_switches_def)
    have "last_chain b = None" "buffered b = []" using wf True by (simp_all add: evbuffer_wf_def buffered_def)
    then show ?thesis using c b1 t by (cases alloc) (simp_all add: start_def chain_data_empty)
  qed
  then consider "start = Some None" "\<not> alloc"
    | b1 where "start = Some (Some b1)" "evbuffer_wf b1" "tight b1" "buffered b1 = buffered b" "same_switches b b1" "chains b1 \<noteq> []"
    by blast
  then show ?thesis
  proof cases
    case 1
    have "evbuffer_add alloc alloc' data b = Some (-1, b, None)"
      using free 1(1) by (simp add: evbuffer_add_def start_def [symmetric])
    then show ?thesis using 1(2) wf t by simp
  next
    case 2
    obtain pre c where c: "chains b1 = pre @ [c]" "last_chain b1 = Some (length pre)" "chain_wf c"
      using tight_last [OF 2(2,3,6)] by metis
    define fin where "fin = (\<lambda>c'. do {
                 c \<leftarrow> chain_append data c';
                 let (b, info) = evbuffer_invoke_callbacks
                   (b1\<lparr>chains := (chains b1)[length pre := c], total_len := total_len b1 + length data,
                      n_add_for_cb := n_add_for_cb b1 + length data\<rparr>);
                 Some (0 :: int, b, info)
               })"
    have eq: "evbuffer_add alloc alloc' data b =
        (if length data \<le> CHAIN_SPACE_LEN c then fin c
         else if evbuffer_chain_should_realign c (length data) then fin (evbuffer_chain_align c)
         else add_overflow alloc' data (length pre) c b1)"
      using free 2(1) c(1,2) by (simp add: evbuffer_add_def start_def [symmetric] CHAIN_SPACE_LEN_def fin_def)
    have fin_ok: "\<exists>b' info. fin c' = Some (0, b', info) \<and> evbuffer_wf b' \<and> tight b' \<and> same_switches b b' \<and>
        buffered b' = buffered b @ data"
      if c': "chain_wf c'" "chain_data c' = chain_data c" "off c' = off c" "length data \<le> CHAIN_SPACE_LEN c'" for c'
    proof -
      obtain d where d: "chain_append data c' = Some d" "chain_wf d" "chain_data d = chain_data c @ data" "off c \<le> off d"
        using chain_append_ok [OF c'(1,4)] c'(2,3) by auto
      define b2 where "b2 = b1\<lparr>chains := (chains b1)[length pre := d], total_len := total_len b1 + length data,
                      n_add_for_cb := n_add_for_cb b1 + length data\<rparr>"
      have "evbuffer_wf b2 \<and> tight b2 \<and> buffered b2 = buffered b1 @ data"
        using last_chain_extended [OF 2(2,3) c(1) d(2-4), of b2] c(1) by (simp add: b2_def)
      moreover have "same_switches b b2" using 2(5) by (simp add: b2_def same_switches_def)
      ultimately show ?thesis
        using invoke_callbacks_ok [of b2 "buffered b @ data"] d(1) 2(4)
        by (auto simp: fin_def b2_def [symmetric] same_switches_def)
    qed
    consider "length data \<le> CHAIN_SPACE_LEN c"
      | "\<not> length data \<le> CHAIN_SPACE_LEN c" "evbuffer_chain_should_realign c (length data)"
      | "\<not> length data \<le> CHAIN_SPACE_LEN c" "\<not> evbuffer_chain_should_realign c (length data)" by blast
    then show ?thesis
    proof cases
      case fits: 1
      then show ?thesis using fin_ok [OF c(3)] eq by auto
    next
      case align: 2
      have "length data \<le> CHAIN_SPACE_LEN (evbuffer_chain_align c)"
        using align(2) chain_align_ok(3) [OF c(3)] by (simp add: evbuffer_chain_should_realign_def)
      then show ?thesis using fin_ok [of "evbuffer_chain_align c"] chain_align_ok [OF c(3)] eq align by auto
    next
      case over: 3
      obtain r b' info where "add_overflow alloc' data (length pre) c b1 = Some (r, b', info)" "evbuffer_wf b'" "tight b'"
        "same_switches b1 b'"
        "r = 0 \<and> buffered b' = buffered b1 @ data \<or> r = -1 \<and> \<not> alloc' \<and> buffered b' = buffered b1"
        using add_overflow_ok [OF 2(2,3) c(1) small, of alloc'] over(1) by auto
      then show ?thesis using eq over 2(4,5) by (auto simp: same_switches_def)
    qed
  qed
qed

section \<open>Room for reading\<close>

text \<open>The room in the first chains, and the chains that have some.\<close>

definition room :: "nat \<Rightarrow> 'b evbuffer_chain list \<Rightarrow> nat" where
  "room n cs = sum_list (map CHAIN_SPACE_LEN (take n cs))"

definition roomy :: "'b evbuffer_chain list \<Rightarrow> 'b evbuffer_chain list" where
  "roomy cs = (case cs of [] \<Rightarrow> [] | c # rest \<Rightarrow> if CHAIN_SPACE_LEN c = 0 then rest else cs)"

lemma room_simps [simp]:
  "room 0 cs = 0" "room n [] = 0" "room (Suc n) (c # cs) = CHAIN_SPACE_LEN c + room n cs"
  by (simp_all add: room_def)

lemma room_append: "length cs \<le> m \<Longrightarrow> room (m + n) (cs @ ds) = room (length cs) cs + room (m + n - length cs) ds"
  by (simp add: room_def)

lemma room_mono: "m \<le> n \<Longrightarrow> room m cs \<le> room n cs"
proof (induction m arbitrary: n cs)
  case (Suc m)
  then obtain n' where "n = Suc n'" "m \<le> n'" by (cases n) auto
  then show ?case using Suc.IH by (cases cs) simp_all
qed simp

lemma buffer_len_pos: "chain_wf c \<Longrightarrow> 0 < buffer_len c"
proof -
  assume "chain_wf c"
  then obtain k where "10 \<le> k" "buffer_len c + EVBUFFER_CHAIN_SIZE = 2 ^ k" by (auto simp: chain_wf_def)
  then show ?thesis
    using power_increasing [of 10 k "2 :: nat"] by (simp add: EVBUFFER_CHAIN_SIZE_def)
qed

lemma scan_empty_ok:
  "evbuffer_chains_all_empty cs \<Longrightarrow> list_all chain_wf cs \<Longrightarrow> used < n \<Longrightarrow>
   \<exists>cs' avail' used' enough. expand_scan k lwd datlen n avail used cs = Some (cs', avail', used', enough) \<and>
     list_all chain_wf cs' \<and> evbuffer_chains_all_empty cs' \<and> length cs' = length cs \<and>
     used \<le> used' \<and> used' \<le> n \<and> avail' = avail + room (used' - used) cs' \<and>
     (enough \<longrightarrow> datlen \<le> avail') \<and> (\<not> enough \<and> used' < n \<longrightarrow> used' = used + length cs')"
proof (induction cs arbitrary: k avail used)
  case Nil
  then show ?case
    by (intro exI [of _ "[]"] exI [of _ avail] exI [of _ used] exI [of _ False]) (simp add: all_empty_wf)
next
  case (Cons c cs)
  let ?c = "c\<lparr>misalign := 0\<rparr>" and ?avail = "avail + buffer_len c"
  have c: "off c = 0" "evbuffer_chains_all_empty cs" "chain_wf c" "list_all chain_wf cs"
    using Cons.prems by (simp_all add: all_empty_wf)
  note wf = chain_realign_empty_ok [OF c(3,1)]
  have space: "CHAIN_SPACE_LEN ?c = buffer_len c" using c(1) by (simp add: CHAIN_SPACE_LEN_def)
  have empty: "off ?c = 0" using c(1) by simp
  consider "datlen \<le> ?avail" | "\<not> datlen \<le> ?avail" "n = used + 1" | "\<not> datlen \<le> ?avail" "n \<noteq> used + 1" by blast
  then show ?case
  proof cases
    case 1
    then show ?thesis
      using c wf space empty Cons.prems(3)
      by (intro exI [of _ "?c # cs"] exI [of _ ?avail] exI [of _ "used + 1"] exI [of _ True]) (simp add: Let_def all_empty_wf)
  next
    case 2
    then show ?thesis
      using c wf space empty
      by (intro exI [of _ "?c # cs"] exI [of _ ?avail] exI [of _ "used + 1"] exI [of _ False]) (simp add: Let_def all_empty_wf)
  next
    case 3
    then have "used + 1 < n" using Cons.prems(3) by simp
    then obtain cs' avail' used' enough where ih: "expand_scan (k + 1) lwd datlen n ?avail (used + 1) cs = Some (cs', avail', used', enough)"
      "list_all chain_wf cs'" "evbuffer_chains_all_empty cs'" "length cs' = length cs" "used + 1 \<le> used'" "used' \<le> n"
      "avail' = ?avail + room (used' - (used + 1)) cs'" "enough \<longrightarrow> datlen \<le> avail'"
      "\<not> enough \<and> used' < n \<longrightarrow> used' = used + 1 + length cs'"
      using Cons.IH [OF c(2,4), of "used + 1" "k + 1" ?avail] by blast
    have "used' - used = Suc (used' - (used + 1))" using ih(5) by simp
    then have "room (used' - used) (?c # cs') = buffer_len c + room (used' - (used + 1)) cs'" using space by simp
    then show ?thesis
      using 3 c wf empty ih
      by (intro exI [of _ "?c # cs'"] exI [of _ avail'] exI [of _ used'] exI [of _ enough]) (simp add: Let_def all_empty_wf)
  qed
qed

lemma scan_ok:
  assumes d: "chain_wf d" and post: "evbuffer_chains_all_empty post" "list_all chain_wf post" and n: "1 < n"
  shows "\<exists>d' post' avail used enough. expand_scan p p datlen n 0 0 (d # post) = Some (d' # post', avail, used, enough) \<and>
    chain_wf d' \<and> chain_data d' = chain_data d \<and> off d' = off d \<and>
    (off d = 0 \<longrightarrow> CHAIN_SPACE_LEN d' = buffer_len d') \<and>
    list_all chain_wf post' \<and> evbuffer_chains_all_empty post' \<and> length post' = length post \<and>
    used \<le> n \<and> avail = room used (roomy (d' # post')) \<and>
    (enough \<longrightarrow> datlen \<le> avail) \<and> (\<not> enough \<and> used < n \<longrightarrow> used = length (roomy (d' # post')))"
proof -
  define d' where "d' = (if off d \<noteq> 0 then d else d\<lparr>misalign := 0\<rparr>)"
  define space where "space = (if off d \<noteq> 0 then CHAIN_SPACE_LEN d else buffer_len d)"
  define used where "used = (if off d \<noteq> 0 \<and> space = 0 then 0 else 1 :: nat)"
  have wf': "chain_wf d'" using d chain_realign_empty_ok [OF d] by (simp add: d'_def)
  have same: "off d' = off d" "chain_data d' = chain_data d" "CHAIN_SPACE_LEN d' = space" "buffer_len d' = buffer_len d"
    using chain_data_empty [of d] chain_data_empty [of "d\<lparr>misalign := 0\<rparr>"]
    by (simp_all add: d'_def space_def CHAIN_SPACE_LEN_def)
  have pos: "off d = 0 \<Longrightarrow> space \<noteq> 0" using buffer_len_pos [OF d] by (simp add: space_def)
  have roomy: "roomy (d' # cs) = (if used = 0 then cs else d' # cs)" for cs
    using same(3) pos by (simp add: roomy_def used_def)
  have eq: "expand_scan p p datlen n 0 0 (d # post) =
      (if datlen \<le> space then Some (d' # post, space, used, True)
       else map_option (\<lambda>(cs, r). (d' # cs, r)) (expand_scan (p + 1) p datlen n space used post))"
    using n by (simp add: d'_def space_def used_def Let_def)
  have r1: "space = room used (roomy (d' # cs))" for cs
    using same(3) by (simp add: roomy used_def)
  show ?thesis
  proof (cases "datlen \<le> space")
    case True
    then show ?thesis
      using eq wf' same post r1 [of post] n
      by (intro exI [of _ d'] exI [of _ post] exI [of _ space] exI [of _ used] exI [of _ True])
         (simp add: space_def used_def)
  next
    case False
    have "used < n" using n by (simp add: used_def)
    then obtain cs' avail' used' enough where ih: "expand_scan (p + 1) p datlen n space used post = Some (cs', avail', used', enough)"
      "list_all chain_wf cs'" "evbuffer_chains_all_empty cs'" "length cs' = length post" "used \<le> used'" "used' \<le> n"
      "avail' = space + room (used' - used) cs'" "enough \<longrightarrow> datlen \<le> avail'"
      "\<not> enough \<and> used' < n \<longrightarrow> used' = used + length cs'"
      using scan_empty_ok [OF post, of used n "p + 1" p datlen space] by blast
    have "room used' (roomy (d' # cs')) = avail'"
      using ih(5,7) same(3) by (cases "used = 0"; cases used') (auto simp: roomy used_def split: if_splits)
    moreover have "length (roomy (d' # cs')) = used + length cs'" by (simp add: roomy used_def)
    ultimately show ?thesis
      using eq False wf' same ih
      by (intro exI [of _ d'] exI [of _ cs'] exI [of _ avail'] exI [of _ used'] exI [of _ enough])
         (simp add: space_def)
  qed
qed

lemma roomy_append: "cs \<noteq> [] \<Longrightarrow> roomy (cs @ ds) = roomy cs @ ds"
  by (cases cs) (simp_all add: roomy_def)

text \<open>What \<^verbatim>\<open>_evbuffer_expand_fast\<close> leaves: the same bytes, and room for those that come.\<close>

definition expanded :: "bool \<Rightarrow> nat \<Rightarrow> nat \<Rightarrow> 'b evbuffer \<Rightarrow> int \<times> 'b evbuffer \<Rightarrow> bool" where
  "expanded alloc datlen n b res \<longleftrightarrow>
     (case res of (r, b') \<Rightarrow>
        evbuffer_wf b' \<and> buffered b' = buffered b \<and> same_switches b b' \<and>
        (r = 0 \<and> chains b' \<noteq> [] \<and> datlen \<le> room n (roomy (drop (last_with_datap b') (chains b'))) \<or>
         r = -1 \<and> \<not> alloc))"

lemma expand_replace_ok:
  fixes b :: "'b evbuffer"
  assumes b: "chains b = pre @ d # post" "length pre = last_with_datap b" "evbuffer_chains_all_empty post"
    "pre \<noteq> [] \<longrightarrow> off d \<noteq> 0" "list_all chain_wf (chains b)" "total_len b = length (buffered b)"
    and small: "datlen + EVBUFFER_CHAIN_SIZE \<le> 2 ^ 62" and n: "2 \<le> n"
  shows "\<exists>res. expand_replace alloc datlen b = Some res \<and> expanded alloc datlen n b res"
proof -
  let ?avail = "if off d = 0 then 0 else CHAIN_SPACE_LEN d"
  have d: "chain_wf d" and pre: "list_all chain_wf pre" using b(1,5) by simp_all
  have data: "buffered b = concat (map chain_data pre) @ chain_data d" by (rule buffered_split [OF b(1,3)])
  obtain tmp :: "'b evbuffer_chain" where tmp:
    "evbuffer_chain_new alloc (datlen - ?avail) = Some (if alloc then Some tmp else None)"
    "chain_wf tmp" "off tmp = 0" "misalign tmp = 0" "datlen - ?avail \<le> buffer_len tmp"
    using chain_new_ok [of "datlen - ?avail" alloc] small by fastforce
  have space: "CHAIN_SPACE_LEN tmp = buffer_len tmp" using tmp(3,4) by (simp add: CHAIN_SPACE_LEN_def)
  obtain m where m: "n = Suc (Suc m)" using n by (metis add_2_eq_Suc le_Suc_ex)
  show ?thesis
  proof (cases "off d = 0")
    case True
    then have p: "pre = []" "last_with_datap b = 0" using b(2,4) by auto
    have none: "buffered b = []" using data p True by (simp add: chain_data_empty)
    define res where "res = (if alloc then (0 :: int, b\<lparr>chains := [tmp], last_chain := Some 0, last_with_datap := 0\<rparr>)
      else (-1, ZERO_CHAIN b))"
    have "expand_replace alloc datlen b = Some res"
      using True p b(1,3) tmp(1) by (simp add: expand_replace_def Let_def all_empty_wf res_def)
    moreover have "expanded alloc datlen n b res"
      using True tmp(2,3,5) none b(6) space buffer_len_pos [OF tmp(2)]
      by (auto simp: expanded_def res_def same_switches_def buffered_def chain_data_empty ZERO_CHAIN_def evbuffer_wf_def
          all_empty_wf roomy_def m)
    ultimately show ?thesis by blast
  next
    case False
    let ?ok = "b\<lparr>chains := pre @ [d, tmp], last_chain := Some (length pre + 1)\<rparr>"
    let ?bad = "b\<lparr>chains := pre @ [d], last_chain := Some (length pre)\<rparr>"
    have eq: "expand_replace alloc datlen b = Some (if alloc then (0, ?ok) else (-1, ?bad))"
    proof -
      have at: "chains b ! last_with_datap b = d" "take (last_with_datap b + 1) (chains b) = pre @ [d]"
        "drop (last_with_datap b + 1) (chains b) = post" "\<not> length (chains b) \<le> last_with_datap b"
        by (simp_all add: b(1) b(2) [symmetric])
      show ?thesis using False b(2,3) tmp(1) at by (cases alloc) (simp_all add: expand_replace_def Let_def)
    qed
    have datas: "buffered ?ok = buffered b" "buffered ?bad = buffered b"
      using data tmp(3) by (simp_all add: buffered_def chain_data_empty)
    have "evbuffer_wf ?bad"
      by (rule evbuffer_wfI [where pre = pre and c = d and post = "[]"])
         (use b d pre datas False in \<open>simp_all add: all_empty_wf\<close>)
    moreover have "evbuffer_wf ?ok"
      by (rule evbuffer_wfI [where pre = pre and c = d and post = "[tmp]"])
         (use b d pre datas False tmp(2,3) in \<open>simp_all add: all_empty_wf\<close>)
    moreover have "datlen \<le> room n (roomy [d, tmp])" using tmp(5) False space by (auto simp: roomy_def m)
    ultimately have "expanded alloc datlen n b (if alloc then (0, ?ok) else (-1, ?bad))"
      using datas b(2) by (cases alloc) (simp_all add: expanded_def same_switches_def)
    then show ?thesis using eq by blast
  qed
qed

lemma expand_fast_ok:
  fixes b :: "'b evbuffer"
  assumes wf: "evbuffer_wf b" and small: "datlen + EVBUFFER_CHAIN_SIZE \<le> 2 ^ 62" and n: "2 \<le> n"
  shows "\<exists>res. evbuffer_expand_fast alloc datlen n b = Some res \<and> expanded alloc datlen n b res"
proof (cases "chains b = []")
  case True
  obtain c :: "'b evbuffer_chain" where c: "evbuffer_chain_new alloc datlen = Some (if alloc then Some c else None)"
    "chain_wf c" "off c = 0" "misalign c = 0" "datlen \<le> buffer_len c" using chain_new_ok [OF small, of alloc] by blast
  have last: "last_chain b = None" "last_with_datap b = 0" using wf True by (simp_all add: evbuffer_wf_def)
  have ins: "evbuffer_chain_insert c b = Some (b\<lparr>chains := [c], last_chain := Some 0, total_len := total_len b\<rparr>)"
    using True last c(3) by (simp add: evbuffer_chain_insert_def)
  define res where "res = (if alloc then (0 :: int, b\<lparr>chains := [c], last_chain := Some 0, total_len := total_len b\<rparr>) else (-1, b))"
  have eq: "evbuffer_expand_fast alloc datlen n b = Some res"
    using last c(1) ins by (simp add: evbuffer_expand_fast_def res_def)
  obtain m where m: "n = Suc m" using n by (cases n) auto
  have "expanded alloc datlen n b res"
    using wf True c(2-5) last buffer_len_pos [OF c(2)]
    by (auto simp: expanded_def res_def same_switches_def evbuffer_wf_def buffered_def all_empty_wf chain_data_empty
        roomy_def CHAIN_SPACE_LEN_def m)
  then show ?thesis using eq by blast
next
  case False
  then obtain pre d post where b: "chains b = pre @ d # post" "length pre = last_with_datap b"
    "evbuffer_chains_all_empty post" "pre \<noteq> [] \<longrightarrow> off d \<noteq> 0" "last_chain b = Some (length pre + length post)"
    "list_all chain_wf (chains b)" "total_len b = length (buffered b)"
    using wf by (auto simp: evbuffer_wf_def)
  have d: "chain_wf d" and pre: "list_all chain_wf pre" and post: "list_all chain_wf post" using b(1,6) by simp_all
  let ?p = "last_with_datap b"
  have n1: "1 < n" using n by simp
  obtain d' post' avail used enough where scan: "expand_scan ?p ?p datlen n 0 0 (d # post) = Some (d' # post', avail, used, enough)"
    "chain_wf d'" "chain_data d' = chain_data d" "off d' = off d" "off d = 0 \<longrightarrow> CHAIN_SPACE_LEN d' = buffer_len d'"
    "list_all chain_wf post'" "evbuffer_chains_all_empty post'" "length post' = length post"
    "used \<le> n" "avail = room used (roomy (d' # post'))" "enough \<longrightarrow> datlen \<le> avail"
    "\<not> enough \<and> used < n \<longrightarrow> used = length (roomy (d' # post'))"
    using scan_ok [OF d b(3) post n1, of ?p datlen] by (elim exE conjE) (rule that; assumption)
  define b1 where "b1 = b\<lparr>chains := pre @ d' # post'\<rparr>"
  have drop: "drop ?p (chains b) = d # post" "take ?p (chains b) = pre" using b(1,2) by simp_all
  have b1: "chains b1 = pre @ d' # post'" "length pre = last_with_datap b1" "evbuffer_chains_all_empty post'"
    "pre \<noteq> [] \<longrightarrow> off d' \<noteq> 0" "last_chain b1 = Some (length pre + length post')" "list_all chain_wf (chains b1)"
    using b scan pre by (simp_all add: b1_def)
  have data1: "buffered b1 = buffered b"
    using buffered_split [OF b1(1,3)] buffered_split [OF b(1,3)] scan(3) by simp
  then have tot1: "total_len b1 = length (buffered b1)" using b(7) by (simp add: b1_def)
  have wf1: "evbuffer_wf b1" by (rule evbuffer_wfI [OF _ b1(3,4,1,5)]) (use b1 tot1 in simp_all)
  have sw: "same_switches b b1" by (simp add: b1_def same_switches_def)
  have lwd1: "drop (last_with_datap b1) (chains b1) = d' # post'" using b1(1,2) by simp
  have eq: "evbuffer_expand_fast alloc datlen n b =
      (if enough then Some (0, b1)
       else if used < n
       then do {
         tmp \<leftarrow> evbuffer_chain_new alloc (datlen - avail);
         (case tmp of
            None \<Rightarrow> Some (-1, b1)
          | Some tmp \<Rightarrow> Some (0, b1\<lparr>chains := chains b1 @ [tmp], last_chain := Some (length pre + length post + 1)\<rparr>))
       }
       else expand_replace alloc datlen b1)"
    using scan(1,8) drop b(5) by (simp add: evbuffer_expand_fast_def b1_def)
  consider "enough" | "\<not> enough" "used < n" | "\<not> enough" "\<not> used < n" by blast
  then show ?thesis
  proof cases
    case 1
    then have "datlen \<le> room n (roomy (d' # post'))"
      using scan(9-11) room_mono [of used n "roomy (d' # post')"] by simp
    then show ?thesis using 1 eq wf1 data1 sw lwd1 b1(1) by (simp add: expanded_def)
  next
    case 2
    obtain tmp :: "'b evbuffer_chain" where tmp:
      "evbuffer_chain_new alloc (datlen - avail) = Some (if alloc then Some tmp else None)"
      "chain_wf tmp" "off tmp = 0" "misalign tmp = 0" "datlen - avail \<le> buffer_len tmp"
      using chain_new_ok [of "datlen - avail" alloc] small by fastforce
    define b2 where "b2 = b1\<lparr>chains := chains b1 @ [tmp], last_chain := Some (length pre + length post + 1)\<rparr>"
    have eq2: "evbuffer_expand_fast alloc datlen n b = Some (if alloc then (0, b2) else (-1, b1))"
      unfolding eq using 2 tmp(1) by (simp add: b2_def)
    have data2: "buffered b2 = buffered b" using data1 tmp(3) by (simp add: b2_def buffered_def chain_data_empty)
    have "evbuffer_wf b2"
      by (rule evbuffer_wfI [where pre = pre and c = d' and post = "post' @ [tmp]"])
         (use b1 scan(8) tmp(2,3) data1 data2 tot1 in \<open>simp_all add: b2_def all_empty_wf\<close>)
    moreover have "drop (last_with_datap b2) (chains b2) = (d' # post') @ [tmp]" using lwd1 b1(2) by (simp add: b2_def b1(1))
    then have ro: "roomy (drop (last_with_datap b2) (chains b2)) = roomy (d' # post') @ [tmp]"
      using roomy_append [of "d' # post'" "[tmp]"] by simp
    have len: "used = length (roomy (d' # post'))" using scan(12) 2 by blast
    have space: "CHAIN_SPACE_LEN tmp = buffer_len tmp" using tmp(3,4) by (simp add: CHAIN_SPACE_LEN_def)
    have "room (Suc used) (roomy (d' # post') @ [tmp]) = avail + buffer_len tmp"
      using space scan(10) by (simp add: room_def len)
    then have "datlen \<le> room n (roomy (drop (last_with_datap b2) (chains b2)))"
      unfolding ro using tmp(5) room_mono [of "Suc used" n "roomy (d' # post') @ [tmp]"] 2(2) by simp
    moreover have "same_switches b b2" by (simp add: b2_def b1_def same_switches_def)
    ultimately have "expanded alloc datlen n b (if alloc then (0, b2) else (-1, b1))"
      using wf1 data1 data2 sw by (cases alloc) (simp_all add: expanded_def b2_def)
    then show ?thesis using eq2 by blast
  next
    case 3
    obtain res where "expand_replace alloc datlen b1 = Some res" "expanded alloc datlen n b1 res"
      using expand_replace_ok [OF b1(1-4,6) tot1 small n] by blast
    then show ?thesis using eq 3 data1 sw by (auto simp: expanded_def same_switches_def)
  qed
qed

section \<open>Reading from the socket\<close>

lemma setup_vecs_ok:
  "h \<le> room n cs \<Longrightarrow> \<exists>vs. setup_vecs n h cs = Some vs \<and> sum_list vs = h \<and> length vs \<le> length cs"
proof (induction n arbitrary: h cs)
  case (Suc n)
  show ?case
  proof (cases "h = 0")
    case False
    then obtain c rest where cs: "cs = c # rest" using Suc.prems by (cases cs) auto
    let ?v = "min (CHAIN_SPACE_LEN c) h"
    have "h - ?v \<le> room n rest" using Suc.prems cs by auto
    then obtain vs where "setup_vecs n (h - ?v) rest = Some vs" "sum_list vs = h - ?v" "length vs \<le> length rest"
      using Suc.IH by blast
    then show ?thesis using False cs by (intro exI [of _ "?v # vs"]) simp
  qed simp
qed simp

lemma scatter_nothing:
  "list_all chain_wf cs \<Longrightarrow> length vs \<le> length cs \<Longrightarrow> scatter [] vs cs = Some cs"
proof (induction cs arbitrary: vs)
  case Nil
  then show ?case by simp
next
  case (Cons c cs)
  then show ?case by (cases vs) (auto simp: chain_put_def chain_wf_def)
qed

text \<open>What the kernel writes and the loop counts: the bytes, behind those of the first chain.\<close>

lemma read_chains_ok:
  fixes cs :: "'b evbuffer_chain list"
  shows "list_all chain_wf cs \<Longrightarrow> evbuffer_chains_all_empty (tl cs) \<Longrightarrow> h \<le> room n cs \<Longrightarrow>
   bs \<noteq> [] \<Longrightarrow> length bs \<le> h \<Longrightarrow> setup_vecs n h cs = Some vs \<Longrightarrow>
   \<exists>cs1 cs2 pre c post. scatter bs vs cs = Some cs1 \<and>
     commit_read (length vs) k (length bs) cs1 = Some (Some (k + length pre), cs2) \<and>
     cs2 = pre @ c # post \<and> length cs2 = length cs \<and> list_all chain_wf cs2 \<and>
     evbuffer_chains_all_empty post \<and> off c \<noteq> 0 \<and>
     concat (map chain_data cs2) = concat (map chain_data cs) @ bs"
proof (induction n arbitrary: h cs bs vs k)
  case 0
  then show ?case by simp
next
  case (Suc n)
  have h: "h \<noteq> 0" using Suc.prems(4,5) by (cases bs) simp_all
  then obtain c rest where cs: "cs = c # rest" using Suc.prems(6) by (cases cs) auto
  define v where "v = min (CHAIN_SPACE_LEN c) h"
  obtain vs' where vs: "setup_vecs n (h - v) rest = Some vs'" "vs = v # vs'"
    using Suc.prems(6) h cs by (auto simp: v_def Let_def)
  have c: "chain_wf c" "list_all chain_wf rest" "evbuffer_chains_all_empty rest" using Suc.prems(1,2) cs by simp_all
  have data: "concat (map chain_data cs) = chain_data c" using cs all_empty_data [OF c(3)] by simp
  have hr: "h - v \<le> room n rest" using Suc.prems(3) cs by (auto simp: v_def)
  have lens: "length vs' \<le> length rest" using setup_vecs_ok [OF hr] vs(1) by auto
  have "length (take v bs) \<le> CHAIN_SPACE_LEN c" by (simp add: v_def)
  from chain_append_ok [OF c(1) this]
  obtain c1 where c1: "chain_append (take v bs) c = Some c1" "chain_wf c1" "chain_data c1 = chain_data c @ take v bs"
    "off c1 = off c + length (take v bs)" by blast
  then obtain c0 where c0: "chain_put (misalign c + off c) (take v bs) c = Some c0"
    "c1 = c0\<lparr>off := off c + length (take v bs)\<rparr>" by (auto simp: chain_append_def)
  have same: "off c0 = off c" "CHAIN_SPACE_LEN c0 = CHAIN_SPACE_LEN c"
    using c0(1) by (auto simp: chain_put_def CHAIN_SPACE_LEN_def split: if_splits)
  show ?case
  proof (cases "CHAIN_SPACE_LEN c < length bs")
    case False
    then have all: "take v bs = bs" "drop v bs = []" using Suc.prems(5) by (simp_all add: v_def)
    have scat: "scatter bs vs cs = Some (c0 # rest)"
      using scatter_nothing [OF c(2) lens] by (simp add: vs(2) cs c0(1) all(2))
    have "commit_read (length vs) k (length bs) (c0 # rest) = Some (Some k, c1 # rest)"
      using False same c0(2) all(1) vs(2) by simp
    moreover have "off c1 \<noteq> 0" using c1(4) all(1) Suc.prems(4) by simp
    moreover have "concat (map chain_data (c1 # rest)) = concat (map chain_data cs) @ bs"
      by (simp only: data) (simp add: all_empty_data [OF c(3)] c1(3) all(1))
    ultimately show ?thesis
      using scat c c1(2) cs
      by (intro exI [of _ "c0 # rest"] exI [of _ "c1 # rest"] exI [of _ "[]"] exI [of _ c1] exI [of _ rest]) simp
  next
    case True
    then have v: "v = CHAIN_SPACE_LEN c" using Suc.prems(5) by (simp add: v_def)
    have bs': "drop v bs \<noteq> []" "length (drop v bs) \<le> h - v" using True Suc.prems(5) v by auto
    have tl: "evbuffer_chains_all_empty (tl rest)" using c(3) by (cases rest) (simp_all add: all_empty_wf)
    obtain cs1 cs2 pre d post where ih: "scatter (drop v bs) vs' rest = Some cs1"
      "commit_read (length vs') (k + 1) (length (drop v bs)) cs1 = Some (Some (k + 1 + length pre), cs2)"
      "cs2 = pre @ d # post" "length cs2 = length rest" "list_all chain_wf cs2" "evbuffer_chains_all_empty post" "off d \<noteq> 0"
      "concat (map chain_data cs2) = concat (map chain_data rest) @ drop v bs"
      using Suc.IH [OF c(2) tl hr bs' vs(1), of "k + 1"] by blast
    have "scatter bs vs cs = Some (c0 # cs1)" using vs(2) cs c0(1) ih(1) by simp
    moreover have "commit_read (length vs) k (length bs) (c0 # cs1) = Some (Some (k + 1 + length pre), c1 # cs2)"
      using True same c0(2) vs(2) ih(2) v by (simp add: min_def)
    moreover have "concat (map chain_data (c1 # cs2)) = concat (map chain_data cs) @ bs"
      by (simp only: data) (simp add: ih(8) all_empty_data [OF c(3)] c1(3))
    ultimately show ?thesis
      using ih c1(2) cs
      by (intro exI [of _ "c0 # cs1"] exI [of _ "c1 # cs2"] exI [of _ "c1 # pre"] exI [of _ d] exI [of _ post]) simp
  qed
qed

text \<open>\<open>readv\<close> never gives more bytes than there is room for.\<close>

definition readv_contract :: "(nat list \<Rightarrow> 'b list option) \<Rightarrow> bool" where
  "readv_contract readv \<longleftrightarrow> (\<forall>vs bs. readv vs = Some bs \<longrightarrow> length bs \<le> sum_list vs)"

lemma evbuffer_read_ok:
  fixes b :: "'b evbuffer"
  assumes contract: "readv_contract readv" and wf: "evbuffer_wf b" and free: "\<not> freeze_end b"
  shows "\<exists>r b' info bs. evbuffer_read alloc readable readv howmuch b = Some (r, b', info) \<and> evbuffer_wf b' \<and>
    same_switches b b' \<and> buffered b' = buffered b @ bs \<and>
    (r = int (length bs) \<or> r = -1 \<and> bs = []) \<and> length bs \<le> 4096 \<and> (0 \<le> howmuch \<longrightarrow> length bs \<le> nat howmuch) \<and>
    (bs \<noteq> [] \<longrightarrow> (\<exists>vs. readv vs = Some bs))"
proof -
  define n where "n = (if readable \<le> 0 \<or> readable > EVBUFFER_MAX_READ then EVBUFFER_MAX_READ else readable)"
  define h where "h = nat (if howmuch < 0 \<or> howmuch > n then n else howmuch)"
  have h: "h \<le> 4096" "0 \<le> howmuch \<Longrightarrow> h \<le> nat howmuch"
    by (auto simp: h_def n_def EVBUFFER_MAX_READ_def)
  have "h + EVBUFFER_CHAIN_SIZE \<le> 2 ^ 62" using h(1) by (simp add: EVBUFFER_CHAIN_SIZE_def)
  then obtain r b1 where b1: "evbuffer_expand_fast alloc h NUM_READ_IOVEC b = Some (r, b1)"
    "expanded alloc h NUM_READ_IOVEC b (r, b1)"
    using expand_fast_ok [OF wf, of h NUM_READ_IOVEC alloc] by (auto simp: NUM_READ_IOVEC_def)
  then have e: "evbuffer_wf b1" "buffered b1 = buffered b" "same_switches b b1"
    "r = 0 \<and> chains b1 \<noteq> [] \<and> h \<le> room NUM_READ_IOVEC (roomy (drop (last_with_datap b1) (chains b1))) \<or> r = -1"
    by (auto simp: expanded_def)
  define rest where "rest = (\<lambda>b :: 'b evbuffer. do {
            (p, vecs) \<leftarrow> evbuffer_read_setup_vecs h b;
            (case readv vecs of
               None \<Rightarrow> Some (-1 :: int, b, None)
             | Some [] \<Rightarrow> Some (0, b, None)
             | Some bs \<Rightarrow>
                 do {
                   cs \<leftarrow> scatter bs vecs (drop p (chains b));
                   (q, cs) \<leftarrow> commit_read (length vecs) p (length bs) cs;
                   let (b, info) = evbuffer_invoke_callbacks
                     (b\<lparr>chains := take p (chains b) @ cs,
                        last_with_datap := (case q of None \<Rightarrow> last_with_datap b | Some q \<Rightarrow> q),
                        total_len := total_len b + length bs, n_add_for_cb := n_add_for_cb b + length bs\<rparr>);
                   Some (int (length bs), b, info)
                 })
          })"
  have eq: "evbuffer_read alloc readable readv howmuch b = (if r = -1 then Some (-1, b1, None) else rest b1)"
    using free b1(1) by (simp add: evbuffer_read_def n_def [symmetric] h_def [symmetric] rest_def Let_def)
  show ?thesis
  proof (cases "r = -1")
    case True
    then show ?thesis using eq e by simp
  next
    case False
    then have ne: "chains b1 \<noteq> []" and room: "h \<le> room NUM_READ_IOVEC (roomy (drop (last_with_datap b1) (chains b1)))"
      using e(4) by simp_all
    obtain pre d post where b: "chains b1 = pre @ d # post" "length pre = last_with_datap b1"
      "evbuffer_chains_all_empty post" "pre \<noteq> [] \<longrightarrow> off d \<noteq> 0" "last_chain b1 = Some (length pre + length post)"
      "list_all chain_wf (chains b1)" "total_len b1 = length (buffered b1)"
      using e(1) ne by (auto simp: evbuffer_wf_def)
    have drop: "drop (last_with_datap b1) (chains b1) = d # post" "chains b1 ! last_with_datap b1 = d"
      "\<not> length (chains b1) \<le> last_with_datap b1" by (simp_all add: b(1) b(2) [symmetric])
    define skip where "skip \<longleftrightarrow> CHAIN_SPACE_LEN d = 0"
    define p where "p = (if skip then last_with_datap b1 + 1 else last_with_datap b1)"
    define ds where "ds = (if skip then post else d # post)"
    define pre' where "pre' = (if skip then pre @ [d] else pre)"
    have chains: "chains b1 = pre' @ ds" "length pre' = p" "roomy (d # post) = ds"
      using b(1,2) by (simp_all add: pre'_def ds_def p_def skip_def roomy_def)
    have drop': "drop p (chains b1) = ds" "take p (chains b1) = pre'" using chains(1,2) by simp_all
    have room': "h \<le> room NUM_READ_IOVEC ds" using room drop(1) chains(3) by simp
    obtain vs where vs: "setup_vecs NUM_READ_IOVEC h ds = Some vs" "sum_list vs = h"
      using setup_vecs_ok [OF room'] by blast
    have su: "evbuffer_read_setup_vecs h b1 = Some (p, vs)"
      using drop(2,3) drop'(1) vs(1) by (simp add: evbuffer_read_setup_vecs_def p_def skip_def [symmetric])
    consider "readv vs = None" | "readv vs = Some []" | bs where "readv vs = Some bs" "bs \<noteq> []"
      by (cases "readv vs") auto
    then show ?thesis
    proof cases
      case 1
      then have "rest b1 = Some (-1, b1, None)" using su by (simp add: rest_def)
      then show ?thesis using eq False e by simp
    next
      case 2
      then have "rest b1 = Some (0, b1, None)" using su by (simp add: rest_def)
      then show ?thesis using eq False e by simp
    next
      case (3 bs)
      have len: "length bs \<le> h"
        using contract [unfolded readv_contract_def, THEN spec [where x = vs], THEN spec [where x = bs]] 3(1) vs(2) by simp
      have wfs: "list_all chain_wf ds" "list_all chain_wf pre'" using b(1,6) by (simp_all add: ds_def pre'_def)
      have empty: "evbuffer_chains_all_empty (tl ds)"
        using b(3) by (cases post) (simp_all add: ds_def all_empty_wf)
      obtain cs1 cs2 pre2 c post2 where r: "scatter bs vs ds = Some cs1"
        "commit_read (length vs) p (length bs) cs1 = Some (Some (p + length pre2), cs2)" "cs2 = pre2 @ c # post2"
        "length cs2 = length ds" "list_all chain_wf cs2" "evbuffer_chains_all_empty post2" "off c \<noteq> 0"
        "concat (map chain_data cs2) = concat (map chain_data ds) @ bs"
        using read_chains_ok [OF wfs(1) empty room' 3(2) len vs(1), of p] by blast
      define b2 where "b2 = b1\<lparr>chains := pre' @ cs2, last_with_datap := p + length pre2,
                        total_len := total_len b1 + length bs, n_add_for_cb := n_add_for_cb b1 + length bs\<rparr>"
      have data: "buffered b2 = buffered b @ bs"
        using r(8) chains(1) e(2) by (simp add: b2_def buffered_def)
      have lens: "length pre' + length ds = length pre + length post + 1"
        using chains(1) b(1) by (metis add_Suc_right length_Cons length_append add.commute plus_1_eq_Suc)
      have "evbuffer_wf b2"
        by (rule evbuffer_wfI [where pre = "pre' @ pre2" and c = c and post = post2])
           (use r wfs chains(2) b(5,7) lens data e(2) in \<open>simp_all add: b2_def\<close>)
      then obtain b3 info where b3: "evbuffer_invoke_callbacks b2 = (b3, info)" "evbuffer_wf b3"
        "buffered b3 = buffered b @ bs" "same_switches b2 b3"
        using invoke_callbacks_ok [OF _ data] by blast
      have "rest b1 = Some (int (length bs), b3, info)"
        using su 3 r(1,2) drop' b3(1) by (cases bs) (simp_all add: rest_def b2_def)
      moreover have "same_switches b b3" using e(3) b3(4) by (simp add: b2_def same_switches_def)
      ultimately show ?thesis using eq False b3(2,3) h len 3 by fastforce
    qed
  qed
qed

section \<open>Streams\<close>

text \<open>
  What both directions of a socket promise: a step takes bytes in at the end and gives bytes out at the
  front.  Then the bytes that have come out, followed by those still held, are those that went in.
\<close>

fun stream_steps ::
  "('op \<Rightarrow> 's \<Rightarrow> ('b list \<times> 'b list \<times> 's) option) \<Rightarrow> 'op list \<Rightarrow> 's \<Rightarrow> ('b list \<times> 'b list \<times> 's) option" where
  "stream_steps step [] s = Some ([], [], s)"
| "stream_steps step (x # xs) s =
     (case step x s of
        None \<Rightarrow> None
      | Some (i, out, s) \<Rightarrow> map_option (\<lambda>(i', out', s'). (i @ i', out @ out', s')) (stream_steps step xs s))"

locale byte_stream =
  fixes good :: "'s \<Rightarrow> bool" and content :: "'s \<Rightarrow> 'b list"
    and op_ok :: "'op \<Rightarrow> bool" and step :: "'op \<Rightarrow> 's \<Rightarrow> ('b list \<times> 'b list \<times> 's) option"
  assumes step_ok: "good s \<Longrightarrow> op_ok x \<Longrightarrow>
    \<exists>i out s'. step x s = Some (i, out, s') \<and> good s' \<and> out @ content s' = content s @ i"
begin

lemma steps_ok:
  "good s \<Longrightarrow> list_all op_ok xs \<Longrightarrow>
   \<exists>i out s'. stream_steps step xs s = Some (i, out, s') \<and> good s' \<and> out @ content s' = content s @ i"
proof (induction xs arbitrary: s)
  case (Cons x xs)
  obtain i out s1 where 1: "step x s = Some (i, out, s1)" "good s1" "out @ content s1 = content s @ i"
    using step_ok [OF Cons.prems(1), of x] Cons.prems(2) by auto
  obtain i' out' s2 where 2: "stream_steps step xs s1 = Some (i', out', s2)" "good s2" "out' @ content s2 = content s1 @ i'"
    using Cons.IH [OF 1(2)] Cons.prems(2) by auto
  have "(out @ out') @ content s2 = content s @ (i @ i')" using 1(3) 2(3) by (metis append.assoc)
  then show ?case using 1(1) 2(1,2) by simp
qed simp

end

text \<open>
  The input of a socket: a read finds the bytes \<open>w\<close> waiting in the kernel or fails; the proxy
  removes bytes.
\<close>

datatype 'b in_op = Read bool int "'b list option" int | Remove nat

definition in_op_ok :: "'b in_op \<Rightarrow> bool" where
  "in_op_ok x \<longleftrightarrow> (case x of Remove n \<Rightarrow> n < 2 ^ 31 | _ \<Rightarrow> True)"

definition in_step :: "'b in_op \<Rightarrow> 'b evbuffer \<Rightarrow> ('b list \<times> 'b list \<times> 'b evbuffer) option" where
  "in_step x b =
     (case x of
        Read alloc readable w howmuch \<Rightarrow>
          map_option (\<lambda>(r, b, _). (if r > 0 then take (nat r) (the w) else [], [], b))
            (evbuffer_read alloc readable (\<lambda>vs. map_option (take (sum_list vs)) w) howmuch b)
      | Remove n \<Rightarrow> map_option (\<lambda>(r, bs, b, _). ([], bs, b)) (evbuffer_remove n b))"

definition in_good :: "'b evbuffer \<Rightarrow> bool" where
  "in_good b \<longleftrightarrow> evbuffer_wf b \<and> \<not> freeze_start b \<and> \<not> freeze_end b"

text \<open>The output of a socket: the proxy adds bytes; a write finds room for some of them, or fails.\<close>

datatype 'b out_op = Add bool bool "'b list" | Write int int

definition out_op_ok :: "'b out_op \<Rightarrow> bool" where
  "out_op_ok x \<longleftrightarrow> (case x of Add _ _ bs \<Rightarrow> length bs + EVBUFFER_CHAIN_SIZE \<le> 2 ^ 62 | _ \<Rightarrow> True)"

definition out_step :: "'b out_op \<Rightarrow> 'b evbuffer \<Rightarrow> ('b list \<times> 'b list \<times> 'b evbuffer) option" where
  "out_step x b =
     (case x of
        Add alloc alloc' bs \<Rightarrow>
          map_option (\<lambda>(r, b, _). (if r = 0 then bs else [], [], b)) (evbuffer_add alloc alloc' bs b)
      | Write k howmuch \<Rightarrow>
          do {
            (n, b', info) \<leftarrow> evbuffer_write_atmost (\<lambda>vs. min k (int (length (concat vs)))) howmuch b;
            vs \<leftarrow> gather NUM_WRITE_IOVEC (total_len b) (chains b);
            Some ([], take (nat n) (concat vs), b')
          })"

definition out_good :: "'b evbuffer \<Rightarrow> bool" where
  "out_good b \<longleftrightarrow> evbuffer_wf b \<and> tight b \<and> \<not> freeze_start b \<and> \<not> freeze_end b"

lemma in_step_ok:
  assumes "in_good b" "in_op_ok x"
  shows "\<exists>i out b'. in_step x b = Some (i, out, b') \<and> in_good b' \<and> out @ buffered b' = buffered b @ i"
proof (cases x)
  case (Read alloc readable w howmuch)
  let ?readv = "\<lambda>vs. map_option (take (sum_list vs)) w"
  have "readv_contract ?readv" by (auto simp: readv_contract_def)
  then obtain r b' info bs where r: "evbuffer_read alloc readable ?readv howmuch b = Some (r, b', info)"
    "evbuffer_wf b'" "same_switches b b'" "buffered b' = buffered b @ bs" "r = int (length bs) \<or> r = -1 \<and> bs = []"
    "bs \<noteq> [] \<longrightarrow> (\<exists>vs. ?readv vs = Some bs)"
    using evbuffer_read_ok [of ?readv b alloc readable howmuch] assms(1) unfolding in_good_def by blast
  have "(if r > 0 then take (nat r) (the w) else []) = bs"
  proof (cases "bs = []")
    case False
    then obtain n z where "w = Some z" "bs = take n z" "r = int (length bs)" using r(5,6) by auto
    then show ?thesis using False by (auto simp: min_def)
  qed (use r(5) in auto)
  then show ?thesis using Read r assms(1) by (simp add: in_step_def in_good_def same_switches_def)
next
  case (Remove n)
  then have "min n (length (buffered b)) < 2 ^ 31" using assms(2) by (simp add: in_op_ok_def)
  then obtain b' info where "evbuffer_remove n b = Some (int (min n (length (buffered b))), take n (buffered b), b', info)"
    "evbuffer_wf b'" "buffered b' = drop n (buffered b)" "same_switches b b'"
    using evbuffer_remove_ok [of b n] assms(1) unfolding in_good_def by blast
  then show ?thesis using Remove assms(1) by (simp add: in_step_def in_good_def same_switches_def)
qed

lemma out_step_ok:
  assumes "out_good b" "out_op_ok x"
  shows "\<exists>i out b'. out_step x b = Some (i, out, b') \<and> out_good b' \<and> out @ buffered b' = buffered b @ i"
proof (cases x)
  case (Add alloc alloc' bs)
  then obtain r b' info where "evbuffer_add alloc alloc' bs b = Some (r, b', info)" "evbuffer_wf b'" "tight b'"
    "same_switches b b'" "r = 0 \<and> buffered b' = buffered b @ bs \<or> r = -1 \<and> buffered b' = buffered b"
    using evbuffer_add_ok [of b bs alloc alloc'] assms by (auto simp: out_good_def out_op_ok_def)
  then show ?thesis using Add assms(1) by (auto simp: out_step_def out_good_def same_switches_def)
next
  case (Write k howmuch)
  let ?writev = "\<lambda>vs :: 'a list list. min k (int (length (concat vs)))"
  have wf: "evbuffer_wf b" "\<not> freeze_start b" "tight b" using assms(1) by (simp_all add: out_good_def)
  have "writev_contract ?writev" by (simp add: writev_contract_def)
  from evbuffer_write_ok [OF this wf(1,2), of howmuch]
  obtain n b' info where n: "evbuffer_write_atmost ?writev howmuch b = Some (n, b', info)" "evbuffer_wf b'"
    "buffered b' = drop (nat n) (buffered b)" "tight b'" "same_switches b b'"
    "0 < n \<longrightarrow> (\<exists>vs. n = ?writev vs \<and> nat n \<le> length (concat vs) \<and> (\<exists>rest. concat vs @ rest = buffered b))"
    using wf(3) by blast
  have cs: "list_all chain_wf (chains b)" "total_len b = length (buffered b)" using wf(1) by (simp_all add: evbuffer_wf_def)
  obtain vs where vs: "gather NUM_WRITE_IOVEC (total_len b) (chains b) = Some vs"
    "concat vs = take (total_len b) (concat (map chain_data (take NUM_WRITE_IOVEC (chains b))))"
    using gather_ok [OF cs(1)] by blast
  define front where "front = concat (map chain_data (take NUM_WRITE_IOVEC (chains b)))"
  have split: "buffered b = front @ concat (map chain_data (drop NUM_WRITE_IOVEC (chains b)))"
    unfolding buffered_def front_def by (metis append_take_drop_id concat_append map_append)
  then have front: "concat vs = front" using vs(2) cs(2) by (simp add: front_def)
  have "nat n \<le> length front"
  proof (cases "0 < n")
    case True
    define h where "h = (if howmuch < 0 \<or> howmuch > int (total_len b) then int (total_len b) else howmuch)"
    obtain us where us: "gather NUM_WRITE_IOVEC (nat h) (chains b) = Some us" "concat us = take (nat h) front"
      using gather_ok [OF cs(1)] unfolding front_def by blast
    have "evbuffer_write_atmost ?writev howmuch b =
        (do { n \<leftarrow> (if h > 0 then Some (?writev us) else Some (-1));
              if n > 0 then do { (r, b, info) \<leftarrow> evbuffer_drain (nat n) b; Some (n, b, info) } else Some (n, b, None) })"
      using wf(2) us(1) by (simp add: evbuffer_write_atmost_def evbuffer_write_iovec_def h_def [symmetric])
    then have "n = ?writev us" using n(1) True by (auto split: if_splits bind_splits)
    then have "nat n \<le> length (concat us)" by simp
    then show ?thesis using us(2) by simp
  qed simp
  then have "take (nat n) (concat vs) = take (nat n) (buffered b)" using split front by simp
  then have "out_step x b = Some ([], take (nat n) (buffered b), b')" using Write n(1) vs(1) by (simp add: out_step_def)
  then show ?thesis using n(2-5) assms(1) by (simp add: out_good_def same_switches_def)
qed

interpretation inp: byte_stream in_good buffered in_op_ok in_step
  by unfold_locales (rule in_step_ok)

interpretation outp: byte_stream out_good buffered out_op_ok out_step
  by unfold_locales (rule out_step_ok)

text \<open>
  C21: What a socket sends is what was written to it: after any sequence of writes of the proxy
  and of moments when the socket takes some bytes - any number of them, or none, with memory failing at any time -
  the bytes sent so far followed by those still buffered are exactly the bytes accepted, in order;
  nothing is lost, repeated or taken from memory that was never written.
\<close>

theorem output_stream_intact:
  fixes b :: "'b evbuffer"
  assumes "evbuffer_wf b" "tight b" "\<not> freeze_start b" "\<not> freeze_end b"
    and "\<forall>alloc alloc' bs. Add alloc alloc' bs \<in> set xs \<longrightarrow> length bs \<le> 2 ^ 61"
  shows "\<exists>accepted sent b'. stream_steps out_step xs b = Some (accepted, sent, b') \<and> sent @ buffered b' = buffered b @ accepted"
proof -
  have "list_all out_op_ok xs"
  proof (unfold list_all_iff, intro ballI)
    fix x assume x: "x \<in> set xs"
    show "out_op_ok x"
    proof (cases x)
      case (Add a a' bs)
      then have "length bs \<le> 2 ^ 61" using assms(5) x by blast
      then show ?thesis using Add by (simp add: out_op_ok_def EVBUFFER_CHAIN_SIZE_def)
    qed (simp add: out_op_ok_def)
  qed
  then show ?thesis using outp.steps_ok [of b xs] assms(1-4) by (auto simp: out_good_def)
qed

text \<open>
  C22: What the proxy reads from a socket is what arrived: after any sequence of readings of the
  socket - of any size, failing or at the end of the stream - and removals, the bytes handed out so far followed by
  those still buffered are exactly the bytes received, in order.
\<close>

theorem input_stream_intact:
  fixes b :: "'b evbuffer"
  assumes "evbuffer_wf b" "\<not> freeze_start b" "\<not> freeze_end b" "\<forall>n. Remove n \<in> set xs \<longrightarrow> n < 2 ^ 31"
  shows "\<exists>received out b'. stream_steps in_step xs b = Some (received, out, b') \<and> out @ buffered b' = buffered b @ received"
proof -
  have "list_all in_op_ok xs"
    using assms(4) by (auto simp: list_all_iff in_op_ok_def split: in_op.split)
  then show ?thesis using inp.steps_ok [of b xs] assms(1-3) by (auto simp: in_good_def)
qed

lemma output_stream_intact_witness:
  "\<exists>accepted sent b'. stream_steps out_step [Add True True ''PING'', Write 3 (-1), Add True True ''!'', Write 9 (-1)] evbuffer_new =
     Some (accepted, sent, b') \<and> sent @ buffered b' = accepted"
proof -
  have "evbuffer_wf (evbuffer_new :: char evbuffer)" "tight (evbuffer_new :: char evbuffer)"
    "\<not> freeze_start (evbuffer_new :: char evbuffer)" "\<not> freeze_end (evbuffer_new :: char evbuffer)"
    by (simp_all add: evbuffer_new_ok) (simp_all add: evbuffer_new_def)
  from output_stream_intact [OF this, of "[Add True True ''PING'', Write 3 (-1), Add True True ''!'', Write 9 (-1)]"]
  show ?thesis by (auto simp: evbuffer_new_ok)
qed

lemma input_stream_intact_witness:
  "\<exists>received out b'. stream_steps in_step [Read True 6 (Some ''abcdef'') (-1), Remove 4, Read True 0 None (-1), Remove 4] evbuffer_new =
     Some (received, out, b') \<and> out @ buffered b' = received"
proof -
  have "evbuffer_wf (evbuffer_new :: char evbuffer)"
    "\<not> freeze_start (evbuffer_new :: char evbuffer)" "\<not> freeze_end (evbuffer_new :: char evbuffer)"
    by (simp_all add: evbuffer_new_ok) (simp_all add: evbuffer_new_def)
  from input_stream_intact [OF this, of "[Read True 6 (Some ''abcdef'') (-1), Remove 4, Read True 0 None (-1), Remove 4]"]
  show ?thesis by (auto simp: evbuffer_new_ok)
qed

section \<open>Where the buffers fail\<close>

text \<open>
  The doubling loop of \<^verbatim>\<open>evbuffer_chain_new\<close> does not end for sizes above \<open>2 ^ 63\<close>: the allocation wraps
  around to 0 and stays there.
\<close>

lemma chain_alloc_zero:
  assumes "0 < n"
  shows "chain_alloc n 0 = None"
proof (cases "chain_alloc n 0")
  case (Some y)
  have "0 = (0 :: nat) \<longrightarrow> n = 0"
    by (rule chain_alloc.raw_induct [OF _ Some, where P = "\<lambda>n z y. z = 0 \<longrightarrow> n = 0"]) (auto split: if_splits)
  then show ?thesis using assms by simp
qed

lemma chain_alloc_diverges:
  assumes "2 ^ 63 < n" "k \<le> 63"
  shows "chain_alloc n (2 ^ (63 - k)) = None"
  using assms(2)
proof (induction k)
  case 0
  then show ?case using assms(1) chain_alloc_zero [of n] by (subst chain_alloc.simps) simp
next
  case (Suc k)
  have "(2 :: nat) ^ (63 - Suc k) < n" by (rule le_less_trans [OF power_increasing assms(1)]) simp_all
  moreover have "(2 :: nat) ^ (63 - Suc k) * 2 = 2 ^ (63 - k)"
    using Suc.prems by (metis Suc_diff_Suc Suc_le_lessD power_Suc2)
  moreover have "(2 :: nat) ^ (63 - k) < 2 ^ 64" by (rule power_strict_increasing) simp_all
  ultimately show ?case using Suc by (subst chain_alloc.simps) simp
qed

lemma chain_new_diverges:
  assumes "2 ^ 63 < n" "n + EVBUFFER_CHAIN_SIZE < 2 ^ 64"
  shows "evbuffer_chain_new alloc n = None"
proof -
  have "chain_alloc (n + EVBUFFER_CHAIN_SIZE) (2 ^ (63 - 53)) = None"
    using assms(1) by (intro chain_alloc_diverges) simp_all
  then show ?thesis using assms(2) by (simp add: evbuffer_chain_new_def MIN_BUFFER_SIZE_def)
qed

text \<open>
  \<^verbatim>\<open>evbuffer_add\<close> fills the last chain without moving \<^verbatim>\<open>last_with_datap\<close> to it.  After a read that has added a
  chain and left it empty, the next read that needs room then fails its assertion.  No buffer of the proxy
  is both read into and added to.
\<close>

lemma add_after_read_fails:
  fixes c :: "'b evbuffer_chain" and b :: "'b evbuffer"
  assumes "chains b = [c, e]" "last_chain b = Some 1" "last_with_datap b = 0" "\<not> freeze_end b"
    and "off c \<noteq> 0" "off e = 0" "misalign e = 0" "length (cells e) = buffer_len e" "bs \<noteq> []"
    and "length bs \<le> buffer_len e" "CHAIN_SPACE_LEN c < n"
  shows "\<exists>b' info. evbuffer_add alloc alloc' bs b = Some (0, b', info) \<and>
    evbuffer_expand_fast alloc n NUM_READ_IOVEC b' = None"
proof -
  obtain e' where e': "chain_append bs e = Some e'" "off e' = length bs"
    using assms(6-8,10) by (simp add: chain_append_def chain_put_def)
  define b1 where "b1 = b\<lparr>chains := [c, e'], total_len := total_len b + length bs, n_add_for_cb := n_add_for_cb b + length bs\<rparr>"
  obtain b' info where b': "evbuffer_invoke_callbacks b1 = (b', info)" by fastforce
  have same: "chains b' = [c, e']" "last_chain b' = Some 1" "last_with_datap b' = 0"
    using b' assms(2,3) by (auto simp: evbuffer_invoke_callbacks_def b1_def split: if_splits)
  have "evbuffer_add alloc alloc' bs b = Some (0, b', info)"
    using assms e'(1) b' by (simp add: evbuffer_add_def b1_def)
  moreover have "expand_scan 0 0 n NUM_READ_IOVEC 0 0 [c, e'] = None"
    using assms(5,9,11) e'(2) by (simp add: NUM_READ_IOVEC_def Let_def)
  then have "evbuffer_expand_fast alloc n NUM_READ_IOVEC b' = None"
    by (simp add: evbuffer_expand_fast_def same)
  ultimately show ?thesis by blast
qed

end
