(* ===== verification/Bufferevent.thy ===== *)
theory Bufferevent
  imports EvLoop Buffer
begin

text \<open>
  The buffered sockets of libevent (\<^verbatim>\<open>src/deps/libevent/bufferevent.c\<close> and \<^verbatim>\<open>bufferevent_sock.c\<close>) as
  \<^verbatim>\<open>event.cpp\<close> makes them: closed with the socket (\<^verbatim>\<open>BEV_OPT_CLOSE_ON_FREE\<close>) and with deferred callbacks
  (\<^verbatim>\<open>BEV_OPT_DEFER_CALLBACKS\<close>), so that a callback of the proxy only runs from the queue of the event loop
  and never inside another operation.  Locks are no-ops, since the proxy turns no threads on in libevent.

  A socket is one record with both its structures, \<^verbatim>\<open>bufferevent\<close> and \<^verbatim>\<open>bufferevent_private\<close>; the event base
  that its pointer \<^verbatim>\<open>ev_base\<close> leads to is a field, as are two facts about the world: whether the memory has
  been freed (\<open>freed\<close>) and the descriptors closed (\<open>closed_fds\<close>).  \<open>user_freed\<close> is a ghost: the user has
  called \<^verbatim>\<open>bufferevent_free\<close>.  The result \<^verbatim>\<open>None\<close> is a failed assertion or a crash below.  What the kernel
  answers is a parameter: \<open>ctl\<close> and \<open>mem\<close> as in \<^verbatim>\<open>EvBase\<close>, errors and the bytes of a read or a write.

  The callbacks are values \<open>'f\<close> with the argument \<open>'x\<close>; what they do is a list of calls on the socket.
\<close>

section \<open>The state\<close>

datatype bev_event =
  BEV_EVENT_READING | BEV_EVENT_WRITING | BEV_EVENT_EOF | BEV_EVENT_ERROR | BEV_EVENT_TIMEOUT | BEV_EVENT_CONNECTED

datatype bev_suspend =
  BEV_SUSPEND_WM | BEV_SUSPEND_BW | BEV_SUSPEND_BW_GROUP | BEV_SUSPEND_LOOKUP | BEV_SUSPEND_FILT_READ

datatype sock_errno = E_INTR | E_AGAIN | E_INPROGRESS | E_CONNREFUSED | E_OTHER int

record event_watermark =
  wm_low :: nat
  wm_high :: nat

record ('e, 'd, 'k, 'b, 'f, 'x) bufferevent =
  ev_base :: "('e, 'd, 'k) event_base"
  ev_read :: 'e
  ev_write :: 'e
  inbuf :: "'b evbuffer"
  outbuf :: "'b evbuffer"
  wm_read :: event_watermark
  wm_write :: event_watermark
  readcb :: "'f option"
  writecb :: "'f option"
  errorcb :: "'f option"
  cbarg :: "'x option"
  timeout_read :: timeval
  timeout_write :: timeval
  enabled :: "ev_what set"
  read_watermarks_cb :: "bool option"   \<comment> \<open>the entry and whether it is enabled\<close>
  readcb_pending :: bool
  writecb_pending :: bool
  connecting :: bool
  connection_refused :: bool
  eventcb_pending :: "bev_event set"
  read_suspended :: "bev_suspend set"
  write_suspended :: "bev_suspend set"
  errno_pending :: "sock_errno option"
  deferred :: 'd
  refcnt :: nat
  freed :: bool
  closed_fds :: "int list"
  user_freed :: bool

definition EVUTIL_ERR_RW_RETRIABLE :: "sock_errno \<Rightarrow> bool" where
  "EVUTIL_ERR_RW_RETRIABLE e \<longleftrightarrow> e = E_INTR \<or> e = E_AGAIN"

definition EVUTIL_ERR_CONNECT_RETRIABLE :: "sock_errno \<Rightarrow> bool" where
  "EVUTIL_ERR_CONNECT_RETRIABLE e \<longleftrightarrow> e = E_INTR \<or> e = E_INPROGRESS"

definition EVUTIL_ERR_CONNECT_REFUSED :: "sock_errno \<Rightarrow> bool" where
  "EVUTIL_ERR_CONNECT_REFUSED e \<longleftrightarrow> e = E_CONNREFUSED"

text \<open>Without rate limits, which the proxy never sets.\<close>

definition get_read_max :: int where "get_read_max = 16384"
definition get_write_max :: int where "get_write_max = 16384"

section \<open>The events of a socket\<close>

text \<open>A call on the base whose result is used, and one whose result is ignored.\<close>

definition on_base ::
    "(('e, 'd, 'k) event_base \<Rightarrow> (int \<times> ('e, 'd, 'k) event_base) option) \<Rightarrow>
     ('e, 'd, 'k, 'b, 'f, 'x) bufferevent \<Rightarrow> (int \<times> ('e, 'd, 'k, 'b, 'f, 'x) bufferevent) option" where
  "on_base f s = map_option (\<lambda>(r, b). (r, s\<lparr>ev_base := b\<rparr>)) (f (ev_base s))"

definition on_base' ::
    "(('e, 'd, 'k) event_base \<Rightarrow> (int \<times> ('e, 'd, 'k) event_base) option) \<Rightarrow>
     ('e, 'd, 'k, 'b, 'f, 'x) bufferevent \<Rightarrow> ('e, 'd, 'k, 'b, 'f, 'x) bufferevent option" where
  "on_base' f s = map_option snd (on_base f s)"

definition event_pending :: "'e \<Rightarrow> ev_what set \<Rightarrow> ('e, 'd, 'k) event_base \<Rightarrow> ev_what set" where
  "event_pending e event b =
     (let fl = (if EVLIST_INSERTED \<in> flags b e then ev_events (evs b e) \<inter> {EV_READ, EV_WRITE, EV_SIGNAL} else {});
          fl = (if EVLIST_ACTIVE \<in> flags b e then fl \<union> ev_res (evs b e) else fl);
          fl = (if EVLIST_TIMEOUT \<in> flags b e then insert EV_TIMEOUT fl else fl)
      in fl \<inter> (event \<inter> {EV_TIMEOUT, EV_READ, EV_WRITE, EV_SIGNAL}))"

definition bufferevent_add_event ::
    "'k epoll_ctl \<Rightarrow> (nat \<Rightarrow> bool) \<Rightarrow> 'e \<Rightarrow> timeval \<Rightarrow> ('e, 'd, 'k) event_base \<Rightarrow>
     (int \<times> ('e, 'd, 'k) event_base) option" where
  "bufferevent_add_event ctl mem e tv b =
     (if tv_sec tv = 0 \<and> tv_usec tv = 0 then event_add ctl mem e None b else event_add ctl mem e (Some tv) b)"

definition be_socket_enable ::
    "'k epoll_ctl \<Rightarrow> (nat \<Rightarrow> bool) \<Rightarrow> ev_what set \<Rightarrow> ('e, 'd, 'k, 'b, 'f, 'x) bufferevent \<Rightarrow>
     (int \<times> ('e, 'd, 'k, 'b, 'f, 'x) bufferevent) option" where
  "be_socket_enable ctl mem event s =
     do {
       (r, s) \<leftarrow> (if EV_READ \<in> event
                   then on_base (bufferevent_add_event ctl mem (ev_read s) (timeout_read s)) s else Some (0, s));
       if r = -1 then Some (-1, s)
       else do {
         (r, s) \<leftarrow> (if EV_WRITE \<in> event
                     then on_base (bufferevent_add_event ctl mem (ev_write s) (timeout_write s)) s else Some (0, s));
         Some (if r = -1 then -1 else 0, s)
       }
     }"

definition be_socket_disable ::
    "'k epoll_ctl \<Rightarrow> ev_what set \<Rightarrow> ('e, 'd, 'k, 'b, 'f, 'x) bufferevent \<Rightarrow>
     (int \<times> ('e, 'd, 'k, 'b, 'f, 'x) bufferevent) option" where
  "be_socket_disable ctl event s =
     do {
       (r, s) \<leftarrow> (if EV_READ \<in> event then on_base (event_del_internal ctl (ev_read s)) s else Some (0, s));
       if r = -1 then Some (-1, s)
       else do {
         (r, s) \<leftarrow> (if EV_WRITE \<in> event \<and> \<not> connecting s
                     then on_base (event_del_internal ctl (ev_write s)) s else Some (0, s));
         Some (if r = -1 then -1 else 0, s)
       }
     }"

definition be_socket_destruct ::
    "'k epoll_ctl \<Rightarrow> ('e, 'd, 'k, 'b, 'f, 'x) bufferevent \<Rightarrow> ('e, 'd, 'k, 'b, 'f, 'x) bufferevent option" where
  "be_socket_destruct ctl s =
     do {
       let fd = ev_fd (evs (ev_base s) (ev_read s));
       s \<leftarrow> on_base' (event_del_internal ctl (ev_read s)) s;
       s \<leftarrow> on_base' (event_del_internal ctl (ev_write s)) s;
       Some (if fd \<ge> 0 then s\<lparr>closed_fds := closed_fds s @ [fd]\<rparr> else s)
     }"

definition be_socket_adj_timeouts ::
    "'k epoll_ctl \<Rightarrow> (nat \<Rightarrow> bool) \<Rightarrow> ('e, 'd, 'k, 'b, 'f, 'x) bufferevent \<Rightarrow>
     (int \<times> ('e, 'd, 'k, 'b, 'f, 'x) bufferevent) option" where
  "be_socket_adj_timeouts ctl mem s =
     do {
       (r, s) \<leftarrow> (if event_pending (ev_read s) {EV_READ} (ev_base s) \<noteq> {}
                   then on_base (bufferevent_add_event ctl mem (ev_read s) (timeout_read s)) s else Some (0, s));
       (r', s) \<leftarrow> (if event_pending (ev_write s) {EV_WRITE} (ev_base s) \<noteq> {}
                    then on_base (bufferevent_add_event ctl mem (ev_write s) (timeout_write s)) s else Some (0, s));
       Some (if r < 0 \<or> r' < 0 then -1 else 0, s)
     }"

section \<open>References\<close>

definition bufferevent_incref :: "('e, 'd, 'k, 'b, 'f, 'x) bufferevent \<Rightarrow> ('e, 'd, 'k, 'b, 'f, 'x) bufferevent" where
  "bufferevent_incref s = s\<lparr>refcnt := refcnt s + 1\<rparr>"

definition bufferevent_decref ::
    "'k epoll_ctl \<Rightarrow> ('e, 'd, 'k, 'b, 'f, 'x) bufferevent \<Rightarrow> ('e, 'd, 'k, 'b, 'f, 'x) bufferevent option" where
  "bufferevent_decref ctl s =
     (if freed s \<or> refcnt s = 0 then None
      else
        let s = s\<lparr>refcnt := refcnt s - 1\<rparr> in
        if refcnt s \<noteq> 0 then Some s
        else map_option (freed_update (\<lambda>_. True)) (be_socket_destruct ctl s))"

text \<open>A function that holds a reference while it runs.\<close>

definition with_ref ::
    "'k epoll_ctl \<Rightarrow>
     (('e, 'd, 'k, 'b, 'f, 'x) bufferevent \<Rightarrow> ('r \<times> ('e, 'd, 'k, 'b, 'f, 'x) bufferevent) option) \<Rightarrow>
     ('e, 'd, 'k, 'b, 'f, 'x) bufferevent \<Rightarrow> ('r \<times> ('e, 'd, 'k, 'b, 'f, 'x) bufferevent) option" where
  "with_ref ctl f s =
     (if freed s then None
      else do {
        (r, s) \<leftarrow> f (bufferevent_incref s);
        s \<leftarrow> bufferevent_decref ctl s;
        Some (r, s)
      })"

section \<open>Suspending, enabling and disabling\<close>

definition bufferevent_suspend_read ::
    "'k epoll_ctl \<Rightarrow> bev_suspend set \<Rightarrow> ('e, 'd, 'k, 'b, 'f, 'x) bufferevent \<Rightarrow>
     ('e, 'd, 'k, 'b, 'f, 'x) bufferevent option" where
  "bufferevent_suspend_read ctl what s =
     do {
       (r, s) \<leftarrow> (if read_suspended s = {} then be_socket_disable ctl {EV_READ} s else Some (0, s));
       Some (s\<lparr>read_suspended := read_suspended s \<union> what\<rparr>)
     }"

definition bufferevent_unsuspend_read ::
    "'k epoll_ctl \<Rightarrow> (nat \<Rightarrow> bool) \<Rightarrow> bev_suspend set \<Rightarrow> ('e, 'd, 'k, 'b, 'f, 'x) bufferevent \<Rightarrow>
     ('e, 'd, 'k, 'b, 'f, 'x) bufferevent option" where
  "bufferevent_unsuspend_read ctl mem what s =
     (let s = s\<lparr>read_suspended := read_suspended s - what\<rparr> in
      map_option snd
        (if read_suspended s = {} \<and> EV_READ \<in> enabled s then be_socket_enable ctl mem {EV_READ} s else Some (0, s)))"

definition bufferevent_suspend_write ::
    "'k epoll_ctl \<Rightarrow> bev_suspend set \<Rightarrow> ('e, 'd, 'k, 'b, 'f, 'x) bufferevent \<Rightarrow>
     ('e, 'd, 'k, 'b, 'f, 'x) bufferevent option" where
  "bufferevent_suspend_write ctl what s =
     do {
       (r, s) \<leftarrow> (if write_suspended s = {} then be_socket_disable ctl {EV_WRITE} s else Some (0, s));
       Some (s\<lparr>write_suspended := write_suspended s \<union> what\<rparr>)
     }"

definition bufferevent_unsuspend_write ::
    "'k epoll_ctl \<Rightarrow> (nat \<Rightarrow> bool) \<Rightarrow> bev_suspend set \<Rightarrow> ('e, 'd, 'k, 'b, 'f, 'x) bufferevent \<Rightarrow>
     ('e, 'd, 'k, 'b, 'f, 'x) bufferevent option" where
  "bufferevent_unsuspend_write ctl mem what s =
     (let s = s\<lparr>write_suspended := write_suspended s - what\<rparr> in
      map_option snd
        (if write_suspended s = {} \<and> EV_WRITE \<in> enabled s then be_socket_enable ctl mem {EV_WRITE} s else Some (0, s)))"

definition impl_events :: "ev_what set \<Rightarrow> ('e, 'd, 'k, 'b, 'f, 'x) bufferevent \<Rightarrow> ev_what set" where
  "impl_events event s =
     event - (if read_suspended s \<noteq> {} then {EV_READ} else {}) - (if write_suspended s \<noteq> {} then {EV_WRITE} else {})"

definition bufferevent_enable ::
    "'k epoll_ctl \<Rightarrow> (nat \<Rightarrow> bool) \<Rightarrow> ev_what set \<Rightarrow> ('e, 'd, 'k, 'b, 'f, 'x) bufferevent \<Rightarrow>
     (int \<times> ('e, 'd, 'k, 'b, 'f, 'x) bufferevent) option" where
  "bufferevent_enable ctl mem event =
     with_ref ctl (\<lambda>s.
       let s = s\<lparr>enabled := enabled s \<union> event\<rparr> in
       if impl_events event s \<noteq> {}
       then map_option (\<lambda>(r, s). (if r < 0 then -1 else 0, s)) (be_socket_enable ctl mem (impl_events event s) s)
       else Some (0, s))"

definition bufferevent_disable ::
    "'k epoll_ctl \<Rightarrow> ev_what set \<Rightarrow> ('e, 'd, 'k, 'b, 'f, 'x) bufferevent \<Rightarrow>
     (int \<times> ('e, 'd, 'k, 'b, 'f, 'x) bufferevent) option" where
  "bufferevent_disable ctl event s =
     (if freed s then None
      else map_option (\<lambda>(r, s). (if r < 0 then -1 else 0, s))
             (be_socket_disable ctl event (s\<lparr>enabled := enabled s - event\<rparr>)))"

definition bufferevent_set_timeouts ::
    "'k epoll_ctl \<Rightarrow> (nat \<Rightarrow> bool) \<Rightarrow> timeval option \<Rightarrow> timeval option \<Rightarrow> ('e, 'd, 'k, 'b, 'f, 'x) bufferevent \<Rightarrow>
     (int \<times> ('e, 'd, 'k, 'b, 'f, 'x) bufferevent) option" where
  "bufferevent_set_timeouts ctl mem tv_read tv_write s =
     (if freed s then None
      else be_socket_adj_timeouts ctl mem
        (s\<lparr>timeout_read := (case tv_read of Some t \<Rightarrow> t | None \<Rightarrow> evutil_timerclear),
           timeout_write := (case tv_write of Some t \<Rightarrow> t | None \<Rightarrow> evutil_timerclear)\<rparr>))"

section \<open>Deferred callbacks\<close>

definition SCHEDULE_DEFERRED ::
    "('e, 'd, 'k, 'b, 'f, 'x) bufferevent \<Rightarrow> ('e, 'd, 'k, 'b, 'f, 'x) bufferevent" where
  "SCHEDULE_DEFERRED s =
     (let s = bufferevent_incref s in s\<lparr>ev_base := event_deferred_cb_schedule (deferred s) (ev_base s)\<rparr>)"

definition schedule_once ::
    "('e, 'd, 'k, 'b, 'f, 'x) bufferevent \<Rightarrow> ('e, 'd, 'k, 'b, 'f, 'x) bufferevent" where
  "schedule_once s = (if \<not> dcb_queued (ev_base s) (deferred s) then SCHEDULE_DEFERRED s else s)"

definition bufferevent_run_readcb ::
    "('e, 'd, 'k, 'b, 'f, 'x) bufferevent \<Rightarrow> ('e, 'd, 'k, 'b, 'f, 'x) bufferevent" where
  "bufferevent_run_readcb s =
     (if readcb s = None then s else schedule_once (s\<lparr>readcb_pending := True\<rparr>))"

definition bufferevent_run_writecb ::
    "('e, 'd, 'k, 'b, 'f, 'x) bufferevent \<Rightarrow> ('e, 'd, 'k, 'b, 'f, 'x) bufferevent" where
  "bufferevent_run_writecb s =
     (if writecb s = None then s else schedule_once (s\<lparr>writecb_pending := True\<rparr>))"

text \<open>\<open>err\<close> is \<^verbatim>\<open>errno\<close>.\<close>

definition bufferevent_run_eventcb ::
    "sock_errno option \<Rightarrow> bev_event set \<Rightarrow>
     ('e, 'd, 'k, 'b, 'f, 'x) bufferevent \<Rightarrow> ('e, 'd, 'k, 'b, 'f, 'x) bufferevent" where
  "bufferevent_run_eventcb err what s =
     (if errorcb s = None then s
      else schedule_once (s\<lparr>eventcb_pending := eventcb_pending s \<union> what, errno_pending := err\<rparr>))"

text \<open>The callbacks the buffers call when their length has changed.\<close>

definition bufferevent_inbuf_wm_cb ::
    "'k epoll_ctl \<Rightarrow> (nat \<Rightarrow> bool) \<Rightarrow> evbuffer_cb_info option \<Rightarrow>
     ('e, 'd, 'k, 'b, 'f, 'x) bufferevent \<Rightarrow> ('e, 'd, 'k, 'b, 'f, 'x) bufferevent option" where
  "bufferevent_inbuf_wm_cb ctl mem info s =
     (if info = None \<or> read_watermarks_cb s \<noteq> Some True then Some s
      else if evbuffer_get_length (inbuf s) \<ge> wm_high (wm_read s)
      then bufferevent_suspend_read ctl {BEV_SUSPEND_WM} s
      else bufferevent_unsuspend_read ctl mem {BEV_SUSPEND_WM} s)"

definition bufferevent_socket_outbuf_cb ::
    "'k epoll_ctl \<Rightarrow> (nat \<Rightarrow> bool) \<Rightarrow> evbuffer_cb_info option \<Rightarrow>
     ('e, 'd, 'k, 'b, 'f, 'x) bufferevent \<Rightarrow> ('e, 'd, 'k, 'b, 'f, 'x) bufferevent option" where
  "bufferevent_socket_outbuf_cb ctl mem info s =
     (case info of
        None \<Rightarrow> Some s
      | Some cbinfo \<Rightarrow>
          if n_added cbinfo \<noteq> 0 \<and> EV_WRITE \<in> enabled s \<and>
             event_pending (ev_write s) {EV_WRITE} (ev_base s) = {} \<and> write_suspended s = {}
          then on_base' (bufferevent_add_event ctl mem (ev_write s) (timeout_write s)) s
          else Some s)"

section \<open>Making a socket\<close>

text \<open>
  \<^verbatim>\<open>bufferevent_init_common\<close> and \<^verbatim>\<open>bufferevent_socket_new\<close>: \<open>mem i\<close> tells whether the \<open>i\<close>-th of the
  allocations succeeds (the socket, its buffers, the callback on the output).
\<close>

definition bufferevent_init_common ::
    "(nat \<Rightarrow> bool) \<Rightarrow> 'e \<Rightarrow> 'e \<Rightarrow> 'd \<Rightarrow> ('e, 'd, 'k) event_base \<Rightarrow>
     ('e, 'd, 'k, 'b, 'f, 'x) bufferevent option" where
  "bufferevent_init_common mem r w d base =
     (if \<not> mem 1 \<or> \<not> mem 2 then None
      else Some
        \<lparr>ev_base = base, ev_read = r, ev_write = w, inbuf = evbuffer_new, outbuf = evbuffer_new,
         wm_read = \<lparr>wm_low = 0, wm_high = 0\<rparr>, wm_write = \<lparr>wm_low = 0, wm_high = 0\<rparr>,
         readcb = None, writecb = None, errorcb = None, cbarg = None,
         timeout_read = evutil_timerclear, timeout_write = evutil_timerclear, enabled = {EV_WRITE},
         read_watermarks_cb = None, readcb_pending = False, writecb_pending = False, connecting = False,
         connection_refused = False, eventcb_pending = {}, read_suspended = {}, write_suspended = {},
         errno_pending = None, deferred = d, refcnt = 1, freed = False, closed_fds = [], user_freed = False\<rparr>)"

definition bufferevent_socket_new ::
    "(nat \<Rightarrow> bool) \<Rightarrow> int \<Rightarrow> 'e \<Rightarrow> 'e \<Rightarrow> 'd \<Rightarrow> ('e, 'd, 'k) event_base \<Rightarrow>
     ('e, 'd, 'k, 'b, 'f, 'x) bufferevent option" where
  "bufferevent_socket_new mem fd r w d base =
     (if \<not> mem 0 then None
      else
        case bufferevent_init_common mem r w d base of
          None \<Rightarrow> None
        | Some s \<Rightarrow>
            let b = event_assign (ev_read s) fd {EV_READ, EV_PERSIST} (ev_base s);
                b = event_assign (ev_write s) fd {EV_WRITE, EV_PERSIST} b in
            Some (s\<lparr>ev_base := b,
                    outbuf := evbuffer_freeze True ((outbuf s)\<lparr>has_cbs := mem 3\<rparr>),
                    inbuf := evbuffer_freeze False (inbuf s)\<rparr>))"

definition bufferevent_setcb ::
    "'f option \<Rightarrow> 'f option \<Rightarrow> 'f option \<Rightarrow> 'x option \<Rightarrow>
     ('e, 'd, 'k, 'b, 'f, 'x) bufferevent \<Rightarrow> ('e, 'd, 'k, 'b, 'f, 'x) bufferevent" where
  "bufferevent_setcb r w e x s = s\<lparr>readcb := r, writecb := w, errorcb := e, cbarg := x\<rparr>"

definition bufferevent_free ::
    "'k epoll_ctl \<Rightarrow> ('e, 'd, 'k, 'b, 'f, 'x) bufferevent \<Rightarrow> ('e, 'd, 'k, 'b, 'f, 'x) bufferevent option" where
  "bufferevent_free ctl s =
     (if freed s then None
      else bufferevent_decref ctl ((bufferevent_setcb None None None None s)\<lparr>user_freed := True\<rparr>))"

section \<open>Reading, writing and watermarks\<close>

text \<open>What the user calls.  \<open>alloc\<close> and \<open>alloc'\<close> are the allocations of \<^verbatim>\<open>evbuffer_add\<close>.\<close>

definition bufferevent_write ::
    "'k epoll_ctl \<Rightarrow> (nat \<Rightarrow> bool) \<Rightarrow> bool \<Rightarrow> bool \<Rightarrow> 'b list \<Rightarrow> ('e, 'd, 'k, 'b, 'f, 'x) bufferevent \<Rightarrow>
     (int \<times> ('e, 'd, 'k, 'b, 'f, 'x) bufferevent) option" where
  "bufferevent_write ctl mem alloc alloc' data s =
     (if freed s then None
      else do {
        (r, b, info) \<leftarrow> evbuffer_add alloc alloc' data (outbuf s);
        s \<leftarrow> bufferevent_socket_outbuf_cb ctl mem info (s\<lparr>outbuf := b\<rparr>);
        Some (if r = -1 then -1 else 0, s)
      })"

definition bufferevent_read ::
    "'k epoll_ctl \<Rightarrow> (nat \<Rightarrow> bool) \<Rightarrow> nat \<Rightarrow> ('e, 'd, 'k, 'b, 'f, 'x) bufferevent \<Rightarrow>
     (int \<times> 'b list \<times> ('e, 'd, 'k, 'b, 'f, 'x) bufferevent) option" where
  "bufferevent_read ctl mem sz s =
     (if freed s then None
      else do {
        (r, data, b, info) \<leftarrow> evbuffer_remove sz (inbuf s);
        s \<leftarrow> bufferevent_inbuf_wm_cb ctl mem info (s\<lparr>inbuf := b\<rparr>);
        Some (r, data, s)
      })"

text \<open>\<open>alloc\<close> is the entry of the callback on the input; without it the flags are set through a null pointer.\<close>

definition bufferevent_setwatermark ::
    "'k epoll_ctl \<Rightarrow> (nat \<Rightarrow> bool) \<Rightarrow> bool \<Rightarrow> ev_what set \<Rightarrow> nat \<Rightarrow> nat \<Rightarrow> ('e, 'd, 'k, 'b, 'f, 'x) bufferevent \<Rightarrow>
     ('e, 'd, 'k, 'b, 'f, 'x) bufferevent option" where
  "bufferevent_setwatermark ctl mem alloc events lowmark highmark s =
     (if freed s then None
      else do {
        let s = (if EV_WRITE \<in> events then s\<lparr>wm_write := \<lparr>wm_low = lowmark, wm_high = highmark\<rparr>\<rparr> else s);
        if EV_READ \<notin> events then Some s
        else do {
          let s = s\<lparr>wm_read := \<lparr>wm_low = lowmark, wm_high = highmark\<rparr>\<rparr>;
          if highmark \<noteq> 0
          then
            if read_watermarks_cb s = None \<and> \<not> alloc then None
            else
              let s = s\<lparr>read_watermarks_cb := Some True, inbuf := (inbuf s)\<lparr>has_cbs := True\<rparr>\<rparr> in
              if evbuffer_get_length (inbuf s) > highmark then bufferevent_suspend_read ctl {BEV_SUSPEND_WM} s
              else if evbuffer_get_length (inbuf s) < highmark
              then bufferevent_unsuspend_read ctl mem {BEV_SUSPEND_WM} s
              else Some s
          else
            let s = (if read_watermarks_cb s \<noteq> None then s\<lparr>read_watermarks_cb := Some False\<rparr> else s) in
            bufferevent_unsuspend_read ctl mem {BEV_SUSPEND_WM} s
        }
      })"

section \<open>The socket is ready\<close>

text \<open>
  The callbacks of the two events; \<open>event\<close> is what the loop reports.  What the kernel answers to a read and to
  a write, with the error in case it is one.
\<close>

record 'b read_io =
  rd_alloc :: bool
  rd_readable :: int
  rd_readv :: "nat list \<Rightarrow> 'b list option"
  rd_errno :: sock_errno

record 'b write_io =
  so_error :: "sock_errno option option"   \<comment> \<open>\<^verbatim>\<open>getsockopt\<close>: an error of its own, or the value read\<close>
  wr_writev :: "'b list list \<Rightarrow> int"
  wr_errno :: sock_errno

text \<open>A difference of two \<^verbatim>\<open>size_t\<close> in an \<^verbatim>\<open>ev_ssize_t\<close>.\<close>

definition ssize_diff :: "nat \<Rightarrow> nat \<Rightarrow> int" where
  "ssize_diff m n = sint (word_of_int (int m - int n) :: 64 word)"

definition readcb_error ::
    "'k epoll_ctl \<Rightarrow> sock_errno option \<Rightarrow> bev_event set \<Rightarrow> ('e, 'd, 'k, 'b, 'f, 'x) bufferevent \<Rightarrow>
     ('e, 'd, 'k, 'b, 'f, 'x) bufferevent option" where
  "readcb_error ctl err what s =
     map_option (\<lambda>(r, s). bufferevent_run_eventcb err what s) (bufferevent_disable ctl {EV_READ} s)"

definition readcb_read ::
    "'k epoll_ctl \<Rightarrow> (nat \<Rightarrow> bool) \<Rightarrow> 'b read_io \<Rightarrow> int \<Rightarrow> ('e, 'd, 'k, 'b, 'f, 'x) bufferevent \<Rightarrow>
     ('e, 'd, 'k, 'b, 'f, 'x) bufferevent option" where
  "readcb_read ctl mem k howmuch s =
     do {
       (res, b, info) \<leftarrow> evbuffer_read (rd_alloc k) (rd_readable k) (rd_readv k) howmuch (evbuffer_unfreeze False (inbuf s));
       s \<leftarrow> bufferevent_inbuf_wm_cb ctl mem info (s\<lparr>inbuf := b\<rparr>);
       let s = s\<lparr>inbuf := evbuffer_freeze False (inbuf s)\<rparr>;
       if res = -1
       then if EVUTIL_ERR_RW_RETRIABLE (rd_errno k) then Some s
            else readcb_error ctl (Some (rd_errno k)) {BEV_EVENT_READING, BEV_EVENT_ERROR} s
       else if res = 0 then readcb_error ctl (Some (rd_errno k)) {BEV_EVENT_READING, BEV_EVENT_EOF} s
       else if evbuffer_get_length (inbuf s) \<ge> wm_low (wm_read s) then Some (bufferevent_run_readcb s)
       else Some s
     }"

definition bufferevent_readcb ::
    "'k epoll_ctl \<Rightarrow> (nat \<Rightarrow> bool) \<Rightarrow> 'b read_io \<Rightarrow> ev_what set \<Rightarrow> ('e, 'd, 'k, 'b, 'f, 'x) bufferevent \<Rightarrow>
     ('e, 'd, 'k, 'b, 'f, 'x) bufferevent option" where
  "bufferevent_readcb ctl mem k event s =
     map_option snd (with_ref ctl (\<lambda>s. map_option (Pair ())
       (if event = {EV_TIMEOUT}
        then readcb_error ctl (Some (rd_errno k)) {BEV_EVENT_READING, BEV_EVENT_TIMEOUT} s
        else
          let howmuch = (if wm_high (wm_read s) \<noteq> 0
                         then ssize_diff (wm_high (wm_read s)) (evbuffer_get_length (inbuf s)) else -1) in
          if wm_high (wm_read s) \<noteq> 0 \<and> howmuch \<le> 0
          then bufferevent_suspend_read ctl {BEV_SUSPEND_WM} s
          else
            let readmax = get_read_max;
                howmuch = (if howmuch < 0 \<or> howmuch > readmax then readmax else howmuch) in
            if read_suspended s \<noteq> {} then Some s
            else readcb_read ctl mem k howmuch s)) s)"

text \<open>Whether a connection that was begun is there: 1, or not yet: 0, or has failed: -1.\<close>

definition evutil_socket_finished_connecting :: "sock_errno option option \<Rightarrow> int" where
  "evutil_socket_finished_connecting e =
     (case e of
        None \<Rightarrow> -1
      | Some None \<Rightarrow> 1
      | Some (Some e) \<Rightarrow> if EVUTIL_ERR_CONNECT_RETRIABLE e then 0 else -1)"

text \<open>The \<^verbatim>\<open>errno\<close> it leaves: that of the connection, when it has failed.\<close>

definition finished_errno :: "'b write_io \<Rightarrow> sock_errno option" where
  "finished_errno k =
     (case so_error k of
        Some (Some e) \<Rightarrow> if EVUTIL_ERR_CONNECT_RETRIABLE e then Some (wr_errno k) else Some e
      | _ \<Rightarrow> Some (wr_errno k))"

definition writecb_error ::
    "'k epoll_ctl \<Rightarrow> sock_errno option \<Rightarrow> bev_event set \<Rightarrow> ('e, 'd, 'k, 'b, 'f, 'x) bufferevent \<Rightarrow>
     ('e, 'd, 'k, 'b, 'f, 'x) bufferevent option" where
  "writecb_error ctl err what s =
     map_option (\<lambda>(r, s). bufferevent_run_eventcb err what s) (bufferevent_disable ctl {EV_WRITE} s)"

definition writecb_drained ::
    "'k epoll_ctl \<Rightarrow> ('e, 'd, 'k, 'b, 'f, 'x) bufferevent \<Rightarrow> ('e, 'd, 'k, 'b, 'f, 'x) bufferevent option" where
  "writecb_drained ctl s =
     (if evbuffer_get_length (outbuf s) = 0 then on_base' (event_del_internal ctl (ev_write s)) s else Some s)"

text \<open>The part of \<^verbatim>\<open>bufferevent_writecb\<close> that writes; \<open>connected\<close> when the connection has just been made.\<close>

definition writecb_done ::
    "'k epoll_ctl \<Rightarrow> bool \<Rightarrow> int \<Rightarrow> ('e, 'd, 'k, 'b, 'f, 'x) bufferevent \<Rightarrow>
     ('e, 'd, 'k, 'b, 'f, 'x) bufferevent option" where
  "writecb_done ctl connected res s =
     do {
       s \<leftarrow> writecb_drained ctl s;
       Some (if (res \<noteq> 0 \<or> \<not> connected) \<and> evbuffer_get_length (outbuf s) \<le> wm_low (wm_write s)
             then bufferevent_run_writecb s else s)
     }"

definition writecb_write ::
    "'k epoll_ctl \<Rightarrow> (nat \<Rightarrow> bool) \<Rightarrow> 'b write_io \<Rightarrow> bool \<Rightarrow> ('e, 'd, 'k, 'b, 'f, 'x) bufferevent \<Rightarrow>
     ('e, 'd, 'k, 'b, 'f, 'x) bufferevent option" where
  "writecb_write ctl mem k connected s =
     (let atmost = get_write_max in
      if write_suspended s \<noteq> {} then Some s
      else if evbuffer_get_length (outbuf s) \<noteq> 0
      then do {
        (res, b, info) \<leftarrow> evbuffer_write_atmost (wr_writev k) atmost (evbuffer_unfreeze True (outbuf s));
        s \<leftarrow> bufferevent_socket_outbuf_cb ctl mem info (s\<lparr>outbuf := b\<rparr>);
        let s = s\<lparr>outbuf := evbuffer_freeze True (outbuf s)\<rparr>;
        if res = -1
        then if EVUTIL_ERR_RW_RETRIABLE (wr_errno k) then writecb_drained ctl s
             else writecb_error ctl (Some (wr_errno k)) {BEV_EVENT_WRITING, BEV_EVENT_ERROR} s
        else if res = 0 then writecb_error ctl (Some (wr_errno k)) {BEV_EVENT_WRITING, BEV_EVENT_EOF} s
        else if res < 0 then writecb_error ctl (Some (wr_errno k)) {BEV_EVENT_WRITING} s
        else writecb_done ctl connected res s
      }
      else writecb_done ctl connected 0 s)"

definition bufferevent_writecb ::
    "'k epoll_ctl \<Rightarrow> (nat \<Rightarrow> bool) \<Rightarrow> 'b write_io \<Rightarrow> ev_what set \<Rightarrow> ('e, 'd, 'k, 'b, 'f, 'x) bufferevent \<Rightarrow>
     ('e, 'd, 'k, 'b, 'f, 'x) bufferevent option" where
  "bufferevent_writecb ctl mem k event s =
     map_option snd (with_ref ctl (\<lambda>s. map_option (Pair ())
       (if event = {EV_TIMEOUT}
        then writecb_error ctl (Some (wr_errno k)) {BEV_EVENT_WRITING, BEV_EVENT_TIMEOUT} s
        else if connecting s
        then
          let c = evutil_socket_finished_connecting (so_error k);
              err = finished_errno k;
              c = (if connection_refused s then -1 else c);
              s = s\<lparr>connection_refused := False\<rparr> in
          if c = 0 then Some s
          else
            let s = s\<lparr>connecting := False\<rparr> in
            if c < 0
            then do {
              s \<leftarrow> on_base' (event_del_internal ctl (ev_write s)) s;
              s \<leftarrow> on_base' (event_del_internal ctl (ev_read s)) s;
              Some (bufferevent_run_eventcb err {BEV_EVENT_ERROR} s)
            }
            else
              let s = bufferevent_run_eventcb err {BEV_EVENT_CONNECTED} s in
              if EV_WRITE \<notin> enabled s \<or> write_suspended s \<noteq> {}
              then on_base' (event_del_internal ctl (ev_write s)) s
              else writecb_write ctl mem k True s
        else writecb_write ctl mem k False s)) s)"

section \<open>Connecting\<close>

text \<open>
  \<open>sock\<close> and \<open>nonblock\<close> are the results of \<^verbatim>\<open>socket\<close> and \<^verbatim>\<open>evutil_make_socket_nonblocking\<close>, \<open>conn\<close> the error of
  \<^verbatim>\<open>connect\<close>, if it gives one.  The result is the descriptor afterwards with those closed.
\<close>

record connect_io =
  cn_socket :: int
  cn_nonblock :: int
  cn_connect :: "sock_errno option"

definition evutil_socket_connect :: "connect_io \<Rightarrow> int \<Rightarrow> int \<times> int \<times> int list" where
  "evutil_socket_connect k fd =
     (let made_fd = (fd < 0); fd = (if fd < 0 then cn_socket k else fd) in
      if made_fd \<and> fd < 0 then (-1, fd, [])
      else if made_fd \<and> cn_nonblock k < 0 then (-1, -1, [fd])
      else
        case cn_connect k of
          None \<Rightarrow> (1, fd, [])
        | Some e \<Rightarrow>
            if EVUTIL_ERR_CONNECT_RETRIABLE e then (0, fd, [])
            else if EVUTIL_ERR_CONNECT_REFUSED e then (2, fd, [])
            else if made_fd then (-1, -1, [fd]) else (-1, fd, []))"

definition be_socket_setfd ::
    "'k epoll_ctl \<Rightarrow> (nat \<Rightarrow> bool) \<Rightarrow> int \<Rightarrow> ('e, 'd, 'k, 'b, 'f, 'x) bufferevent \<Rightarrow>
     ('e, 'd, 'k, 'b, 'f, 'x) bufferevent option" where
  "be_socket_setfd ctl mem fd s =
     do {
       s \<leftarrow> on_base' (event_del_internal ctl (ev_read s)) s;
       s \<leftarrow> on_base' (event_del_internal ctl (ev_write s)) s;
       let b = event_assign (ev_read s) fd {EV_READ, EV_PERSIST} (ev_base s);
       let b = event_assign (ev_write s) fd {EV_WRITE, EV_PERSIST} b;
       let s = s\<lparr>ev_base := b\<rparr>;
       if fd \<ge> 0 then map_option snd (bufferevent_enable ctl mem (enabled s) s) else Some s
     }"

definition bufferevent_getfd :: "('e, 'd, 'k, 'b, 'f, 'x) bufferevent \<Rightarrow> int" where
  "bufferevent_getfd s = ev_fd (evs (ev_base s) (ev_read s))"

text \<open>The end of \<^verbatim>\<open>bufferevent_socket_connect\<close> for the three results of \<^verbatim>\<open>connect\<close>.\<close>

definition connect_started ::
    "'k epoll_ctl \<Rightarrow> (nat \<Rightarrow> bool) \<Rightarrow> int \<Rightarrow> int \<Rightarrow> ('e, 'd, 'k, 'b, 'f, 'x) bufferevent \<Rightarrow>
     (int \<times> ('e, 'd, 'k, 'b, 'f, 'x) bufferevent) option" where
  "connect_started ctl mem r fd s =
     do {
       s \<leftarrow> be_socket_setfd ctl mem fd s;
       if r = 0
       then do {
         (e, s) \<leftarrow> be_socket_enable ctl mem {EV_WRITE} s;
         Some (if e = 0 then (0, s\<lparr>connecting := True\<rparr>) else (-1, s))
       }
       else do {
         let s = (if r = 1 then s else s\<lparr>connection_refused := True\<rparr>);
         s \<leftarrow> on_base' (\<lambda>b. map_option (Pair 0) (event_active_nolock (ev_write s) {EV_WRITE} b)) (s\<lparr>connecting := True\<rparr>);
         Some (0, s)
       }
     }"

definition bufferevent_socket_connect ::
    "'k epoll_ctl \<Rightarrow> (nat \<Rightarrow> bool) \<Rightarrow> connect_io \<Rightarrow> sock_errno option \<Rightarrow> bool \<Rightarrow>
     ('e, 'd, 'k, 'b, 'f, 'x) bufferevent \<Rightarrow> (int \<times> ('e, 'd, 'k, 'b, 'f, 'x) bufferevent) option" where
  "bufferevent_socket_connect ctl mem k err sa =
     with_ref ctl (\<lambda>s.
       let fd = bufferevent_getfd s; ownfd = (fd < 0) in
       if ownfd \<and> (\<not> sa \<or> cn_socket k < 0 \<or> cn_nonblock k < 0) then Some (-1, s)
       else
         let fd = (if ownfd then cn_socket k else fd) in
         case (if sa then evutil_socket_connect k fd else (0, fd, [])) of
           (r, fd, closed) \<Rightarrow>
             if r < 0
             then
               let s = bufferevent_run_eventcb err {BEV_EVENT_ERROR} s in
               Some (-1, if ownfd then s\<lparr>closed_fds := closed_fds s @ [fd]\<rparr> else s)
             else connect_started ctl mem r fd s)"

section \<open>Running the callbacks of the user\<close>

text \<open>
  What a callback of the user, or any other code of the user, may do with the socket; \<open>Bev_elsewhere\<close> is
  everything that it does to other events.
\<close>

datatype ('e, 'd, 'k, 'b, 'f, 'x) bev_call =
  Bev_setcb "'f option" "'f option" "'f option" "'x option"
| Bev_write "nat \<Rightarrow> bool" bool bool "'b list"
| Bev_read "nat \<Rightarrow> bool" nat
| Bev_enable "nat \<Rightarrow> bool" "ev_what set"
| Bev_disable "ev_what set"
| Bev_setwatermark "nat \<Rightarrow> bool" bool "ev_what set" nat nat
| Bev_set_timeouts "nat \<Rightarrow> bool" "timeval option" "timeval option"
| Bev_connect "nat \<Rightarrow> bool" connect_io "sock_errno option" bool
| Bev_free
| Bev_elsewhere "('e, 'd, 'k) event_base"

definition bev_call ::
    "'k epoll_ctl \<Rightarrow> ('e, 'd, 'k, 'b, 'f, 'x) bev_call \<Rightarrow> ('e, 'd, 'k, 'b, 'f, 'x) bufferevent \<Rightarrow>
     ('e, 'd, 'k, 'b, 'f, 'x) bufferevent option" where
  "bev_call ctl c s =
     (case c of
        Bev_setcb r w e x \<Rightarrow> if freed s then None else Some (bufferevent_setcb r w e x s)
      | Bev_write mem alloc alloc' data \<Rightarrow> map_option snd (bufferevent_write ctl mem alloc alloc' data s)
      | Bev_read mem n \<Rightarrow> map_option (\<lambda>(r, data, s). s) (bufferevent_read ctl mem n s)
      | Bev_enable mem event \<Rightarrow> map_option snd (bufferevent_enable ctl mem event s)
      | Bev_disable event \<Rightarrow> map_option snd (bufferevent_disable ctl event s)
      | Bev_setwatermark mem alloc events low high \<Rightarrow> bufferevent_setwatermark ctl mem alloc events low high s
      | Bev_set_timeouts mem tr tw \<Rightarrow> map_option snd (bufferevent_set_timeouts ctl mem tr tw s)
      | Bev_connect mem k err sa \<Rightarrow> map_option snd (bufferevent_socket_connect ctl mem k err sa s)
      | Bev_free \<Rightarrow> bufferevent_free ctl s
      | Bev_elsewhere b \<Rightarrow> Some (s\<lparr>ev_base := b\<rparr>))"

fun bev_calls ::
    "'k epoll_ctl \<Rightarrow> ('e, 'd, 'k, 'b, 'f, 'x) bev_call list \<Rightarrow> ('e, 'd, 'k, 'b, 'f, 'x) bufferevent \<Rightarrow>
     ('e, 'd, 'k, 'b, 'f, 'x) bufferevent option" where
  "bev_calls ctl [] s = Some s"
| "bev_calls ctl (c # cs) s = Option.bind (bev_call ctl c s) (bev_calls ctl cs)"

datatype ('f, 'x) user_cb = ReadCb 'f "'x option" | WriteCb 'f "'x option" | ErrorCb 'f "bev_event set" "'x option"

type_synonym ('e, 'd, 'k, 'b, 'f, 'x) user =
  "('f, 'x) user_cb \<Rightarrow> ('e, 'd, 'k, 'b, 'f, 'x) bufferevent \<Rightarrow> ('e, 'd, 'k, 'b, 'f, 'x) bev_call list"

text \<open>One of the four calls of \<^verbatim>\<open>bufferevent_run_deferred_callbacks_locked\<close>.\<close>

definition run_user ::
    "'k epoll_ctl \<Rightarrow> ('e, 'd, 'k, 'b, 'f, 'x) user \<Rightarrow> ('f, 'x) user_cb \<Rightarrow> ('e, 'd, 'k, 'b, 'f, 'x) bufferevent \<Rightarrow>
     ('e, 'd, 'k, 'b, 'f, 'x) bufferevent option" where
  "run_user ctl user cb s = bev_calls ctl (user cb s) s"

definition deferred_connected ::
    "'k epoll_ctl \<Rightarrow> ('e, 'd, 'k, 'b, 'f, 'x) user \<Rightarrow> ('e, 'd, 'k, 'b, 'f, 'x) bufferevent \<Rightarrow>
     ('e, 'd, 'k, 'b, 'f, 'x) bufferevent option" where
  "deferred_connected ctl user s =
     (if BEV_EVENT_CONNECTED \<in> eventcb_pending s \<and> errorcb s \<noteq> None
      then run_user ctl user (ErrorCb (the (errorcb s)) {BEV_EVENT_CONNECTED} (cbarg s))
             (s\<lparr>eventcb_pending := eventcb_pending s - {BEV_EVENT_CONNECTED}\<rparr>)
      else Some s)"

definition deferred_read ::
    "'k epoll_ctl \<Rightarrow> ('e, 'd, 'k, 'b, 'f, 'x) user \<Rightarrow> ('e, 'd, 'k, 'b, 'f, 'x) bufferevent \<Rightarrow>
     ('e, 'd, 'k, 'b, 'f, 'x) bufferevent option" where
  "deferred_read ctl user s =
     (if readcb_pending s \<and> readcb s \<noteq> None
      then run_user ctl user (ReadCb (the (readcb s)) (cbarg s)) (s\<lparr>readcb_pending := False\<rparr>)
      else Some s)"

definition deferred_write ::
    "'k epoll_ctl \<Rightarrow> ('e, 'd, 'k, 'b, 'f, 'x) user \<Rightarrow> ('e, 'd, 'k, 'b, 'f, 'x) bufferevent \<Rightarrow>
     ('e, 'd, 'k, 'b, 'f, 'x) bufferevent option" where
  "deferred_write ctl user s =
     (if writecb_pending s \<and> writecb s \<noteq> None
      then run_user ctl user (WriteCb (the (writecb s)) (cbarg s)) (s\<lparr>writecb_pending := False\<rparr>)
      else Some s)"

definition deferred_event ::
    "'k epoll_ctl \<Rightarrow> ('e, 'd, 'k, 'b, 'f, 'x) user \<Rightarrow> ('e, 'd, 'k, 'b, 'f, 'x) bufferevent \<Rightarrow>
     ('e, 'd, 'k, 'b, 'f, 'x) bufferevent option" where
  "deferred_event ctl user s =
     (if eventcb_pending s \<noteq> {} \<and> errorcb s \<noteq> None
      then run_user ctl user (ErrorCb (the (errorcb s)) (eventcb_pending s) (cbarg s))
             (s\<lparr>eventcb_pending := {}, errno_pending := None\<rparr>)
      else Some s)"

definition bufferevent_run_deferred_callbacks_locked ::
    "'k epoll_ctl \<Rightarrow> ('e, 'd, 'k, 'b, 'f, 'x) user \<Rightarrow> ('e, 'd, 'k, 'b, 'f, 'x) bufferevent \<Rightarrow>
     ('e, 'd, 'k, 'b, 'f, 'x) bufferevent option" where
  "bufferevent_run_deferred_callbacks_locked ctl user s =
     (if freed s then None
      else do {
        s \<leftarrow> deferred_connected ctl user s;
        s \<leftarrow> deferred_read ctl user s;
        s \<leftarrow> deferred_write ctl user s;
        s \<leftarrow> deferred_event ctl user s;
        bufferevent_decref ctl s
      })"

section \<open>The loop runs the socket\<close>

text \<open>
  The steps of the loop that concern the socket: one of its events is taken from the queue of active events
  and its callback called, or its deferred callback is taken.
\<close>

definition sock_readable ::
    "'k epoll_ctl \<Rightarrow> (nat \<Rightarrow> bool) \<Rightarrow> 'b read_io \<Rightarrow> ('e, 'd, 'k, 'b, 'f, 'x) bufferevent \<Rightarrow>
     ('e, 'd, 'k, 'b, 'f, 'x) bufferevent option" where
  "sock_readable ctl mem k s =
     do {
       b \<leftarrow> take_event ctl mem (ev_read s) (ev_base s);
       bufferevent_readcb ctl mem k (ev_res (evs b (ev_read s))) (s\<lparr>ev_base := b\<rparr>)
     }"

definition sock_writable ::
    "'k epoll_ctl \<Rightarrow> (nat \<Rightarrow> bool) \<Rightarrow> 'b write_io \<Rightarrow> ('e, 'd, 'k, 'b, 'f, 'x) bufferevent \<Rightarrow>
     ('e, 'd, 'k, 'b, 'f, 'x) bufferevent option" where
  "sock_writable ctl mem k s =
     do {
       b \<leftarrow> take_event ctl mem (ev_write s) (ev_base s);
       bufferevent_writecb ctl mem k (ev_res (evs b (ev_write s))) (s\<lparr>ev_base := b\<rparr>)
     }"

definition take_deferred :: "('e, 'd, 'k) event_base \<Rightarrow> ('e, 'd, 'k) event_base" where
  "take_deferred b =
     b\<lparr>dcb_queued := (dcb_queued b)(hd (defer_queue b) := False), defer_queue := tl (defer_queue b),
       active_count := active_count b - 1\<rparr>"

definition sock_deferred ::
    "'k epoll_ctl \<Rightarrow> ('e, 'd, 'k, 'b, 'f, 'x) user \<Rightarrow> ('e, 'd, 'k, 'b, 'f, 'x) bufferevent \<Rightarrow>
     ('e, 'd, 'k, 'b, 'f, 'x) bufferevent option" where
  "sock_deferred ctl user s =
     bufferevent_run_deferred_callbacks_locked ctl user (s\<lparr>ev_base := take_deferred (ev_base s)\<rparr>)"

section \<open>The invariant\<close>

text \<open>
  Where the two events are: assigned, and the one for reading only registered, active or timed while reading is
  enabled and not suspended.
\<close>

definition event_off :: "'e \<Rightarrow> ('e, 'd, 'k) event_base \<Rightarrow> bool" where
  "event_off e b \<longleftrightarrow> flags b e \<inter> {EVLIST_TIMEOUT, EVLIST_INSERTED, EVLIST_ACTIVE} = {}"

definition sock_events :: "('e, 'd, 'k, 'b, 'f, 'x) bufferevent \<Rightarrow> bool" where
  "sock_events s \<longleftrightarrow>
     (let b = ev_base s in
      EVLIST_INIT \<in> flags b (ev_read s) \<and> ev_events (evs b (ev_read s)) = {EV_READ, EV_PERSIST} \<and>
      EVLIST_INIT \<in> flags b (ev_write s) \<and> ev_events (evs b (ev_write s)) = {EV_WRITE, EV_PERSIST} \<and>
      (\<not> event_off (ev_read s) b \<longrightarrow> EV_READ \<in> enabled s \<and> read_suspended s = {}))"

definition sock_buffers :: "('e, 'd, 'k, 'b, 'f, 'x) bufferevent \<Rightarrow> bool" where
  "sock_buffers s \<longleftrightarrow>
     evbuffer_wf (inbuf s) \<and> \<not> freeze_start (inbuf s) \<and>
     evbuffer_wf (outbuf s) \<and> tight (outbuf s) \<and> \<not> freeze_end (outbuf s) \<and>
     normal (timeout_read s) \<and> normal (timeout_write s)"

definition callbacks_gone :: "('e, 'd, 'k, 'b, 'f, 'x) bufferevent \<Rightarrow> bool" where
  "callbacks_gone s \<longleftrightarrow> readcb s = None \<and> writecb s = None \<and> errorcb s = None"

definition sock_queued :: "('e, 'd, 'k, 'b, 'f, 'x) bufferevent \<Rightarrow> bool" where
  "sock_queued s \<longleftrightarrow> dcb_queued (ev_base s) (deferred s)"

text \<open>
  The references are the user's, that of the queue of deferred callbacks, and \<open>k\<close> of functions that run.
\<close>

definition sock_ok ::
    "('k \<Rightarrow> int \<rightharpoonup> epoll_ev set) \<Rightarrow> nat \<Rightarrow> ('e, 'd, 'k, 'b, 'f, 'x) bufferevent \<Rightarrow> bool" where
  "sock_ok interest k s \<longleftrightarrow> loop_inv interest (ev_base s) \<and> ev_read s \<noteq> ev_write s \<and>
     refcnt s = of_bool (\<not> user_freed s) + of_bool (sock_queued s) + k \<and>
     (freed s \<longleftrightarrow> refcnt s = 0) \<and> (user_freed s \<longrightarrow> callbacks_gone s) \<and>
     (if freed s
      then event_off (ev_read s) (ev_base s) \<and> event_off (ev_write s) (ev_base s) \<and>
        (0 \<le> bufferevent_getfd s \<longrightarrow> closed_fds s \<noteq> [] \<and> last (closed_fds s) = bufferevent_getfd s)
      else sock_events s \<and> sock_buffers s)"

definition live ::
    "('k \<Rightarrow> int \<rightharpoonup> epoll_ev set) \<Rightarrow> nat \<Rightarrow> ('e, 'd, 'k, 'b, 'f, 'x) bufferevent \<Rightarrow> bool" where
  "live interest k s \<longleftrightarrow> sock_ok interest k s \<and> \<not> freed s"

lemma live_iff:
  "live interest k s \<longleftrightarrow> \<not> freed s \<and> loop_inv interest (ev_base s) \<and> ev_read s \<noteq> ev_write s \<and>
     refcnt s = of_bool (\<not> user_freed s) + of_bool (sock_queued s) + k \<and> 0 < refcnt s \<and>
     (user_freed s \<longrightarrow> callbacks_gone s) \<and> sock_events s \<and> sock_buffers s"
  by (auto simp: live_def sock_ok_def)

lemma live_facts:
  assumes "live interest k s"
  shows "\<not> freed s" "loop_inv interest (ev_base s)" "ev_read s \<noteq> ev_write s" "0 < refcnt s"
    "user_freed s \<Longrightarrow> callbacks_gone s" "sock_events s" "sock_buffers s"
    "normal (timeout_read s)" "normal (timeout_write s)"
    "refcnt s = of_bool (\<not> user_freed s) + of_bool (sock_queued s) + k"
  using assms by (auto simp: live_iff sock_buffers_def)

lemma live_cong:
  assumes "live interest k s" "loop_inv interest (ev_base s')" "ev_read s' = ev_read s" "ev_write s' = ev_write s"
    and "refcnt s' = refcnt s" "user_freed s' = user_freed s" "freed s' = freed s" "sock_queued s' = sock_queued s"
    and "user_freed s \<Longrightarrow> callbacks_gone s \<Longrightarrow> callbacks_gone s'" "sock_events s'" "sock_buffers s'"
  shows "live interest k s'"
  using assms unfolding live_iff by auto

text \<open>What the internal operations leave alone: the bytes, the switches, the watermarks, the callbacks.\<close>

definition same_view ::
    "('e, 'd, 'k, 'b, 'f, 'x) bufferevent \<Rightarrow> ('e, 'd, 'k, 'b, 'f, 'x) bufferevent \<Rightarrow> bool" where
  "same_view s s' \<longleftrightarrow> inbuf s' = inbuf s \<and> outbuf s' = outbuf s \<and> enabled s' = enabled s \<and>
     wm_read s' = wm_read s \<and> wm_write s' = wm_write s \<and> read_watermarks_cb s' = read_watermarks_cb s \<and>
     readcb s' = readcb s \<and> writecb s' = writecb s \<and> errorcb s' = errorcb s \<and> cbarg s' = cbarg s \<and>
     timeout_read s' = timeout_read s \<and> timeout_write s' = timeout_write s \<and>
     user_freed s' = user_freed s \<and> ev_read s' = ev_read s \<and> ev_write s' = ev_write s \<and>
     deferred s' = deferred s \<and> closed_fds s' = closed_fds s \<and> (sock_queued s \<longrightarrow> sock_queued s')"

lemma sock_queued_simps [simp]:
  "sock_queued (s\<lparr>inbuf := v0\<rparr>) = sock_queued s" "sock_queued (s\<lparr>outbuf := v1\<rparr>) = sock_queued s"
  "sock_queued (s\<lparr>enabled := v2\<rparr>) = sock_queued s" "sock_queued (s\<lparr>connecting := v3\<rparr>) = sock_queued s"
  "sock_queued (s\<lparr>connection_refused := v4\<rparr>) = sock_queued s" "sock_queued (s\<lparr>closed_fds := v5\<rparr>) = sock_queued s"
  "sock_queued (s\<lparr>refcnt := v6\<rparr>) = sock_queued s" "sock_queued (s\<lparr>user_freed := v7\<rparr>) = sock_queued s"
  by (simp_all add: sock_queued_def)

lemma same_view_refl [simp]: "same_view s s"
  by (simp add: same_view_def)

lemma same_view_trans: "same_view s s' \<Longrightarrow> same_view s' s'' \<Longrightarrow> same_view s s''"
  by (simp add: same_view_def)

lemma event_off_simps:
  "event_off e b \<longleftrightarrow> EVLIST_TIMEOUT \<notin> flags b e \<and> EVLIST_INSERTED \<notin> flags b e \<and> EVLIST_ACTIVE \<notin> flags b e"
  by (auto simp: event_off_def)

text \<open>A change of the base that keeps both events assigned, and the queue of deferred callbacks as it was.\<close>

definition base_step ::
    "('k \<Rightarrow> int \<rightharpoonup> epoll_ev set) \<Rightarrow> ('e, 'd, 'k, 'b, 'f, 'x) bufferevent \<Rightarrow> ('e, 'd, 'k) event_base \<Rightarrow> bool" where
  "base_step interest s b \<longleftrightarrow> loop_inv interest b \<and> base_frame (ev_base s) b \<and>
     (\<forall>x. x \<noteq> ev_read s \<longrightarrow> x \<noteq> ev_write s \<longrightarrow> evs b x = evs (ev_base s) x) \<and> sock_events (s\<lparr>ev_base := b\<rparr>)"

lemma base_step_live:
  assumes "base_step interest s b" "live interest k s"
  shows "live interest k (s\<lparr>ev_base := b\<rparr>)" "same_view s (s\<lparr>ev_base := b\<rparr>)"
  using assms
  by (auto simp: base_step_def live_iff sock_queued_def sock_buffers_def callbacks_gone_def
      same_view_def base_frame_def)

definition may_add :: "('e, 'd, 'k, 'b, 'f, 'x) bufferevent \<Rightarrow> 'e \<Rightarrow> bool" where
  "may_add s e \<longleftrightarrow> e = ev_write s \<or> e = ev_read s \<and> EV_READ \<in> enabled s \<and> read_suspended s = {}"

lemma add_event_ok:
  fixes s :: "('e, 'd, 'k, 'b, 'f, 'x) bufferevent"
  assumes contract: "epoll_contract ctl interest" and live: "live interest k s"
    and e: "may_add s e" and tv: "normal tv"
  shows "\<exists>r b. bufferevent_add_event ctl mem e tv (ev_base s) = Some (r, b) \<and> base_step interest s b"
proof -
  have inv: "loop_inv interest (ev_base s)" and ne: "ev_read s \<noteq> ev_write s" and ev: "sock_events s"
    using live by (simp_all add: live_iff)
  have wf: "base_wf interest (ev_base s)" and times: "\<And>x. times_ev (evs (ev_base s) x)"
    using inv by (simp_all add: loop_inv_def)
  have init: "EVLIST_INIT \<in> flags (ev_base s) e" using ev e by (auto simp: sock_events_def may_add_def Let_def)
  define t where "t = (if tv_sec tv = 0 \<and> tv_usec tv = 0 then None else Some tv)"
  have nt: "\<And>u. t = Some u \<Longrightarrow> normal u" using tv by (auto simp: t_def split: if_splits)
  obtain r b where b: "event_add_internal ctl mem e t False (ev_base s) = Some (r, b)" "base_wf interest b"
    "r = -1 \<and> evs b = evs (ev_base s) \<and> same_queues (ev_base s) b \<or> r = 0 \<and> event_added e t False (ev_base s) b"
    using event_add_ok [OF contract wf init] by blast
  have frame: "base_frame (ev_base s) b" using b(3) by (auto simp: same_queues_def event_added_def Let_def)
  have "times_ev (evs b x)" for x
    using b(3) times event_added_times [OF _ init times normal_gettime [OF inv] nt] by auto
  then have "loop_inv interest b" by (rule loop_invI [OF inv b(2) frame])
  have other: "evs b x = evs (ev_base s) x" if "x \<noteq> e" for x
    using b(3) that by (auto simp: event_added_def Let_def)
  moreover have "EVLIST_INIT \<in> flags b e \<and> ev_events (evs b e) = ev_events (evs (ev_base s) e)"
    using b(3) init by (auto simp: event_added_def Let_def split: option.splits)
  ultimately have "sock_events (s\<lparr>ev_base := b\<rparr>)"
    using ev e ne by (auto simp: sock_events_def may_add_def event_off_def Let_def)
  moreover have "\<forall>x. x \<noteq> ev_read s \<longrightarrow> x \<noteq> ev_write s \<longrightarrow> evs b x = evs (ev_base s) x"
    using other e by (auto simp: may_add_def)
  ultimately have "base_step interest s b" using frame \<open>loop_inv interest b\<close> unfolding base_step_def by blast
  moreover have "bufferevent_add_event ctl mem e tv (ev_base s) = Some (r, b)"
    using b(1) by (auto simp: bufferevent_add_event_def event_add_def t_def split: if_splits)
  ultimately show ?thesis by blast
qed

lemma del_event_ok:
  fixes s :: "('e, 'd, 'k, 'b, 'f, 'x) bufferevent"
  assumes contract: "epoll_contract ctl interest" and steady: "epoll_steady ctl interest"
    and live: "live interest k s" and e: "e = ev_read s \<or> e = ev_write s"
  shows "\<exists>b. event_del_internal ctl e (ev_base s) = Some (0, b) \<and> base_step interest s b \<and> event_off e b \<and>
    (\<forall>x. x \<noteq> e \<longrightarrow> evs b x = evs (ev_base s) x) \<and> ev_fd (evs b e) = ev_fd (evs (ev_base s) e)"
proof -
  have inv: "loop_inv interest (ev_base s)" and ne: "ev_read s \<noteq> ev_write s" and ev: "sock_events s"
    using live by (simp_all add: live_iff)
  have wf: "base_wf interest (ev_base s)" and times: "\<And>x. times_ev (evs (ev_base s) x)"
    using inv by (simp_all add: loop_inv_def)
  obtain b where b: "event_del_internal ctl e (ev_base s) = Some (0, b)" "base_wf interest b"
    "event_deleted e (ev_base s) b"
    using event_del_ok [OF contract steady wf] by blast
  have frame: "base_frame (ev_base s) b" using b(3) by (simp add: event_deleted_def)
  have "loop_inv interest b"
    by (rule loop_invI [OF inv b(2) frame]) (rule event_deleted_times [OF b(3) times])
  moreover have evs: "evs b = (evs (ev_base s))(e := (evs (ev_base s) e)
       \<lparr>ev_flags := flags (ev_base s) e - {EVLIST_TIMEOUT, EVLIST_INSERTED, EVLIST_ACTIVE}\<rparr>)"
    using b(3) by (simp only: event_deleted_def)
  have "sock_events (s\<lparr>ev_base := b\<rparr>)"
    using e ev ne by (elim disjE) (simp_all add: sock_events_def Let_def evs event_off_simps)
  moreover have other: "\<forall>x. x \<noteq> e \<longrightarrow> evs b x = evs (ev_base s) x" using b(3) by (simp add: event_deleted_def)
  then have "\<forall>x. x \<noteq> ev_read s \<longrightarrow> x \<noteq> ev_write s \<longrightarrow> evs b x = evs (ev_base s) x" using e by blast
  ultimately have "base_step interest s b" using frame unfolding base_step_def by blast
  moreover have "event_off e b" "ev_fd (evs b e) = ev_fd (evs (ev_base s) e)"
    using b(3) by (auto simp: event_off_def event_deleted_def)
  ultimately show ?thesis using b(1) other by blast
qed

text \<open>The same as steps of the socket; \<open>quiet\<close> collects what they keep.\<close>

definition quiet ::
    "('k \<Rightarrow> int \<rightharpoonup> epoll_ev set) \<Rightarrow> nat \<Rightarrow>
     ('e, 'd, 'k, 'b, 'f, 'x) bufferevent \<Rightarrow> ('e, 'd, 'k, 'b, 'f, 'x) bufferevent \<Rightarrow> bool" where
  "quiet interest k s s' \<longleftrightarrow> live interest k s' \<and> same_view s s' \<and>
     read_suspended s' = read_suspended s \<and> write_suspended s' = write_suspended s \<and>
     connecting s' = connecting s"

lemma quiet_refl: "live interest k s \<Longrightarrow> quiet interest k s s"
  by (simp add: quiet_def)

lemma quiet_trans: "quiet interest k s s' \<Longrightarrow> quiet interest k s' s'' \<Longrightarrow> quiet interest k s s''"
  unfolding quiet_def using same_view_trans by metis

lemma on_add_ok:
  assumes "epoll_contract ctl interest" "live interest k s"
    and "may_add s e" "normal tv"
  shows "\<exists>r s'. on_base (bufferevent_add_event ctl mem e tv) s = Some (r, s') \<and> quiet interest k s s'"
  using add_event_ok [OF assms, where mem = mem] base_step_live [OF _ assms(2)]
  by (fastforce simp: on_base_def quiet_def)

lemma on_del_ok:
  assumes "epoll_contract ctl interest" "epoll_steady ctl interest" "live interest k s"
    and "e = ev_read s \<or> e = ev_write s"
  shows "\<exists>s'. on_base (event_del_internal ctl e) s = Some (0, s') \<and> quiet interest k s s' \<and> event_off e (ev_base s') \<and>
    (\<forall>x. x \<noteq> e \<longrightarrow> evs (ev_base s') x = evs (ev_base s) x)"
  using del_event_ok [OF assms] base_step_live [OF _ assms(3)]
  by (fastforce simp: on_base_def quiet_def)

lemma enable_ok:
  assumes contract: "epoll_contract ctl interest" and live: "live interest k s"
    and r: "EV_READ \<in> event \<Longrightarrow> EV_READ \<in> enabled s \<and> read_suspended s = {}"
  shows "\<exists>r s'. be_socket_enable ctl mem event s = Some (r, s') \<and> quiet interest k s s'"
proof -
  note n = live_facts(8,9) [OF live]
  obtain r1 s1 where 1: "(if EV_READ \<in> event
      then on_base (bufferevent_add_event ctl mem (ev_read s) (timeout_read s)) s else Some (0, s)) = Some (r1, s1)"
    "quiet interest k s s1"
  proof (cases "EV_READ \<in> event")
    case True
    then have "may_add s (ev_read s)" using r by (simp add: may_add_def)
    then show ?thesis using True on_add_ok [OF contract live _ n(1), of "ev_read s" mem] that by auto
  next
    case False
    then show ?thesis using that quiet_refl [OF live] by simp
  qed
  then have live1: "live interest k s1" "ev_write s1 = ev_write s" "timeout_write s1 = timeout_write s"
    by (simp_all add: quiet_def same_view_def)
  show ?thesis
  proof (cases "r1 = -1")
    case True
    then show ?thesis using 1 by (simp add: be_socket_enable_def)
  next
    case False
    obtain r2 s2 where 2: "(if EV_WRITE \<in> event
        then on_base (bufferevent_add_event ctl mem (ev_write s1) (timeout_write s1)) s1 else Some (0, s1)) = Some (r2, s2)"
      "quiet interest k s1 s2"
    proof (cases "EV_WRITE \<in> event")
      case True
      then show ?thesis
        using on_add_ok [OF contract live1(1), of "ev_write s1" "timeout_write s1" mem] n(2) live1(3) that
        by (auto simp: may_add_def)
    next
      case False
      then show ?thesis using that quiet_refl [OF live1(1)] by simp
    qed
    have "be_socket_enable ctl mem event s = Some (if r2 = -1 then -1 else 0, s2)"
      by (simp only: be_socket_enable_def 1(1) 2(1) Option.bind.bind_lunit prod.case False if_False)
    then show ?thesis using quiet_trans [OF 1(2) 2(2)] by simp
  qed
qed

lemma disable_ok:
  assumes contract: "epoll_contract ctl interest" and steady: "epoll_steady ctl interest" and live: "live interest k s"
  shows "\<exists>s'. be_socket_disable ctl event s = Some (0, s') \<and> quiet interest k s s' \<and>
    (EV_READ \<in> event \<longrightarrow> event_off (ev_read s) (ev_base s'))"
proof -
  obtain s1 where 1: "(if EV_READ \<in> event then on_base (event_del_internal ctl (ev_read s)) s else Some (0, s)) = Some (0, s1)"
    "quiet interest k s s1" "EV_READ \<in> event \<longrightarrow> event_off (ev_read s) (ev_base s1)"
    using on_del_ok [OF contract steady live, where e = "ev_read s"] quiet_refl [OF live]
    by (cases "EV_READ \<in> event") auto
  then have live1: "live interest k s1" "ev_write s1 = ev_write s" "ev_read s \<noteq> ev_write s"
    using live_facts(3) [OF live] by (simp_all add: quiet_def same_view_def)
  obtain s2 where 2: "(if EV_WRITE \<in> event \<and> \<not> connecting s1
      then on_base (event_del_internal ctl (ev_write s1)) s1 else Some (0, s1)) = Some (0, s2)"
    "quiet interest k s1 s2" "evs (ev_base s2) (ev_read s) = evs (ev_base s1) (ev_read s)"
    using on_del_ok [OF contract steady live1(1), where e = "ev_write s1"] quiet_refl [OF live1(1)] live1(2,3)
    by (cases "EV_WRITE \<in> event \<and> \<not> connecting s1") auto
  have "be_socket_disable ctl event s = Some (0, s2)"
    using 2(1) by (simp add: be_socket_disable_def 1(1))
  moreover have "event_off (ev_read s) (ev_base s2)" if "EV_READ \<in> event"
    using 1(3) 2(3) that by (simp add: event_off_def)
  ultimately show ?thesis using quiet_trans [OF 1(2) 2(2)] by blast
qed

text \<open>Operations that may also suspend.\<close>

definition calm ::
    "('k \<Rightarrow> int \<rightharpoonup> epoll_ev set) \<Rightarrow> nat \<Rightarrow>
     ('e, 'd, 'k, 'b, 'f, 'x) bufferevent \<Rightarrow> ('e, 'd, 'k, 'b, 'f, 'x) bufferevent \<Rightarrow> bool" where
  "calm interest k s s' \<longleftrightarrow> live interest k s' \<and> same_view s s'"

lemma quiet_calm: "quiet interest k s s' \<Longrightarrow> calm interest k s s'"
  by (simp add: quiet_def calm_def)

lemma calm_refl: "live interest k s \<Longrightarrow> calm interest k s s"
  by (simp add: calm_def)

lemma calm_trans: "calm interest k s s' \<Longrightarrow> calm interest k s' s'' \<Longrightarrow> calm interest k s s''"
  unfolding calm_def using same_view_trans by metis

lemma calm_live: "calm interest k s s' \<Longrightarrow> live interest k s'"
  by (simp add: calm_def)

lemma sock_events_switch:
  assumes "sock_events s" "\<not> event_off (ev_read s) (ev_base s) \<Longrightarrow> EV_READ \<in> en \<and> sus = {}"
  shows "sock_events (s\<lparr>enabled := en, read_suspended := sus\<rparr>)"
  using assms by (simp add: sock_events_def Let_def)

lemma suspend_read_ok:
  assumes "epoll_contract ctl interest" "epoll_steady ctl interest" and live: "live interest k s"
  shows "\<exists>s'. bufferevent_suspend_read ctl what s = Some s' \<and> calm interest k s s'"
proof -
  obtain s1 where 1: "(if read_suspended s = {} then be_socket_disable ctl {EV_READ} s else Some (0, s)) = Some (0, s1)"
    "quiet interest k s s1" "event_off (ev_read s1) (ev_base s1)"
  proof (cases "read_suspended s = {}")
    case True
    obtain s1 where s1: "be_socket_disable ctl {EV_READ} s = Some (0, s1)" "quiet interest k s s1"
      "event_off (ev_read s) (ev_base s1)"
      using disable_ok [OF assms, of "{EV_READ}"] by auto
    then have "ev_read s1 = ev_read s" by (simp add: quiet_def same_view_def)
    then show ?thesis using True s1 that by simp
  next
    case False
    then have "event_off (ev_read s) (ev_base s)"
      using live_facts(6) [OF live] by (auto simp: sock_events_def Let_def)
    then show ?thesis using False that quiet_refl [OF live] by simp
  qed
  define s2 where "s2 = s1\<lparr>read_suspended := read_suspended s1 \<union> what\<rparr>"
  have live1: "live interest k s1" using 1(2) by (simp add: quiet_def)
  have "sock_events s2"
    using sock_events_switch [OF live_facts(6) [OF live1], of "enabled s1" "read_suspended s1 \<union> what"] 1(3)
    by (simp add: s2_def)
  then have "live interest k s2"
    by (rule live_cong [OF live1, rotated 8])
       (use live_facts(2,7) [OF live1] in \<open>simp_all add: s2_def sock_queued_def sock_buffers_def callbacks_gone_def\<close>)
  moreover have "same_view s s2"
    using 1(2) by (auto simp: s2_def quiet_def same_view_def sock_queued_def)
  moreover have "bufferevent_suspend_read ctl what s = Some s2"
    by (simp add: bufferevent_suspend_read_def 1(1) s2_def)
  ultimately show ?thesis by (simp add: calm_def)
qed

lemma unsuspend_read_ok:
  assumes contract: "epoll_contract ctl interest" and live: "live interest k s"
  shows "\<exists>s'. bufferevent_unsuspend_read ctl mem what s = Some s' \<and> calm interest k s s'"
proof -
  define s1 where "s1 = s\<lparr>read_suspended := read_suspended s - what\<rparr>"
  have "sock_events s1"
    using sock_events_switch [OF live_facts(6) [OF live], of "enabled s" "read_suspended s - what"] live_facts(6) [OF live]
    by (simp add: s1_def sock_events_def Let_def)
  then have live1: "live interest k s1"
    by (rule live_cong [OF live, rotated 8])
       (use live_facts(2,7) [OF live] in \<open>simp_all add: s1_def sock_queued_def sock_buffers_def callbacks_gone_def\<close>)
  have calm: "calm interest k s s1" using live1 by (simp add: calm_def s1_def same_view_def sock_queued_def)
  show ?thesis
  proof (cases "read_suspended s1 = {} \<and> EV_READ \<in> enabled s1")
    case True
    then obtain r s2 where s2: "be_socket_enable ctl mem {EV_READ} s1 = Some (r, s2)" "quiet interest k s1 s2"
      using enable_ok [OF contract live1, of "{EV_READ}"] by blast
    have "bufferevent_unsuspend_read ctl mem what s = Some s2"
      using True s2(1) by (simp add: bufferevent_unsuspend_read_def Let_def s1_def)
    then show ?thesis using calm_trans [OF calm quiet_calm [OF s2(2)]] by blast
  next
    case False
    then have "bufferevent_unsuspend_read ctl mem what s = Some s1"
      by (auto simp add: bufferevent_unsuspend_read_def Let_def s1_def)
    then show ?thesis using calm by blast
  qed
qed

text \<open>References.\<close>

lemma incref_live:
  assumes "live interest k s"
  shows "live interest (Suc k) (bufferevent_incref s)"
proof -
  note f = live_facts [OF assms]
  have "sock_events (bufferevent_incref s)" "sock_buffers (bufferevent_incref s)"
    "user_freed s \<longrightarrow> callbacks_gone (bufferevent_incref s)"
    using f(5-7) by (simp_all add: bufferevent_incref_def sock_events_def sock_buffers_def callbacks_gone_def Let_def)
  moreover have "refcnt (bufferevent_incref s) =
      of_bool (\<not> user_freed s) + of_bool (sock_queued (bufferevent_incref s)) + Suc k"
    using f(10) by (simp add: bufferevent_incref_def sock_queued_def)
  ultimately show ?thesis using f(1-3) by (simp add: live_iff bufferevent_incref_def)
qed

lemma incref_view: "same_view s (bufferevent_incref s)"
  by (simp add: bufferevent_incref_def same_view_def sock_queued_def)

text \<open>
  Giving a reference back: the memory stays while there is another one; the last one takes both events off and
  closes the descriptor.
\<close>

definition released ::
    "('e, 'd, 'k, 'b, 'f, 'x) bufferevent \<Rightarrow> ('e, 'd, 'k, 'b, 'f, 'x) bufferevent \<Rightarrow> bool" where
  "released s s' \<longleftrightarrow>
     (let fd = bufferevent_getfd s in
      if refcnt s = 1 then freed s' \<and> closed_fds s' = closed_fds s @ (if fd \<ge> 0 then [fd] else [])
      else \<not> freed s' \<and> s' = s\<lparr>refcnt := refcnt s - 1\<rparr>)"

lemma decref_ok:
  assumes contract: "epoll_contract ctl interest" and steady: "epoll_steady ctl interest"
    and live: "live interest (Suc k) s"
  shows "\<exists>s'. bufferevent_decref ctl s = Some s' \<and> sock_ok interest k s' \<and> released s s' \<and> user_freed s' = user_freed s"
proof (cases "refcnt s = 1")
  case False
  define s' where "s' = s\<lparr>refcnt := refcnt s - 1\<rparr>"
  have "refcnt s' \<noteq> 0" using False live_facts(4) [OF live] by (simp add: s'_def)
  moreover have "sock_ok interest k s'"
    using live False by (auto simp: s'_def live_iff sock_ok_def sock_queued_def sock_buffers_def callbacks_gone_def
        sock_events_def Let_def)
  moreover have "released s s'"
    using False live_facts(1) [OF live] by (simp add: released_def Let_def s'_def)
  ultimately show ?thesis
    using live_facts(1,4) [OF live] by (simp add: bufferevent_decref_def Let_def s'_def)
next
  case True
  then have last: "user_freed s" "\<not> sock_queued s" "k = 0" using live_facts(10) [OF live] by (simp_all split: if_splits)
  have ne: "ev_read s \<noteq> ev_write s" by (rule live_facts(3) [OF live])
  define s1 where "s1 = s\<lparr>refcnt := 0\<rparr>"
  obtain b1 where b1: "event_del_internal ctl (ev_read s) (ev_base s) = Some (0, b1)" "base_step interest s b1"
    "event_off (ev_read s) b1" "ev_fd (evs b1 (ev_read s)) = ev_fd (evs (ev_base s) (ev_read s))"
    using del_event_ok [OF contract steady live, of "ev_read s"] by auto
  have live1: "live interest (Suc k) (s\<lparr>ev_base := b1\<rparr>)" by (rule base_step_live(1) [OF b1(2) live])
  obtain b2 where b2: "event_del_internal ctl (ev_write s) b1 = Some (0, b2)" "base_step interest (s\<lparr>ev_base := b1\<rparr>) b2"
    "event_off (ev_write s) b2" "\<forall>x. x \<noteq> ev_write s \<longrightarrow> evs b2 x = evs b1 x"
    using del_event_ok [OF contract steady live1, of "ev_write s"] by auto
  define fd where "fd = bufferevent_getfd s"
  define s2 where "s2 = s1\<lparr>ev_base := b2, freed := True, closed_fds := closed_fds s @ (if fd \<ge> 0 then [fd] else [])\<rparr>"
  have decref: "bufferevent_decref ctl s = Some s2"
    using True live_facts(1) [OF live] b1(1) b2(1)
    by (simp add: bufferevent_decref_def be_socket_destruct_def on_base'_def on_base_def Let_def
        s2_def s1_def fd_def bufferevent_getfd_def)
  have off: "event_off (ev_read s) b2" using b1(3) b2(4) ne by (simp add: event_off_def)
  have "bufferevent_getfd s2 = fd" "closed_fds s2 = closed_fds s @ (if fd \<ge> 0 then [fd] else [])"
    using b1(4) b2(4) ne by (simp_all add: s2_def s1_def fd_def bufferevent_getfd_def)
  then have closed: "0 \<le> bufferevent_getfd s2 \<longrightarrow> closed_fds s2 \<noteq> [] \<and> last (closed_fds s2) = bufferevent_getfd s2"
    by simp
  have facts: "freed s2" "ev_base s2 = b2" "ev_read s2 = ev_read s" "ev_write s2 = ev_write s" "refcnt s2 = 0"
    "user_freed s2" "\<not> sock_queued s2" "callbacks_gone s2"
    using last b2(2) b1(2) live_facts(5) [OF live]
    by (simp_all add: s2_def s1_def sock_queued_def callbacks_gone_def base_step_def base_frame_def)
  have "sock_ok interest k s2"
    using last(3) b2(2,3) ne facts closed off by (simp add: sock_ok_def base_step_def)
  moreover have "released s s2" using True by (simp add: released_def s2_def s1_def fd_def)
  moreover have "user_freed s2 = user_freed s" by (simp add: s2_def s1_def)
  ultimately show ?thesis using decref by blast
qed

lemma with_ref_ok:
  assumes contract: "epoll_contract ctl interest" and steady: "epoll_steady ctl interest"
    and live: "live interest k s"
    and f: "live interest (Suc k) (bufferevent_incref s) \<Longrightarrow>
      \<exists>r s'. f (bufferevent_incref s) = Some (r, s') \<and> live interest (Suc k) s' \<and> Q r s' \<and>
        user_freed s' = user_freed s \<and> (sock_queued s \<longrightarrow> sock_queued s')"
  shows "\<exists>r s1. with_ref ctl f s = Some (r, s1\<lparr>refcnt := refcnt s1 - 1\<rparr>) \<and>
    live interest k (s1\<lparr>refcnt := refcnt s1 - 1\<rparr>) \<and> Q r s1"
proof -
  obtain r s1 where s1: "f (bufferevent_incref s) = Some (r, s1)" "live interest (Suc k) s1" "Q r s1"
    "user_freed s1 = user_freed s" "sock_queued s \<longrightarrow> sock_queued s1"
    using f [OF incref_live [OF live]] by blast
  obtain s2 where s2: "bufferevent_decref ctl s1 = Some s2" "sock_ok interest k s2" "released s1 s2"
    using decref_ok [OF contract steady s1(2)] by blast
  have last: "refcnt s1 \<noteq> 1"
    using live_facts(4,10) [OF live] live_facts(10) [OF s1(2)] s1(4,5) by (auto split: if_splits)
  have "\<not> freed s2 \<and> s2 = s1\<lparr>refcnt := refcnt s1 - 1\<rparr>"
    using s2(3) unfolding released_def Let_def if_not_P [OF last] .
  moreover have "with_ref ctl f s = Some (r, s2)"
    using s1(1) s2(1) live_facts(1) [OF live] by (simp add: with_ref_def)
  ultimately show ?thesis using s1(3) s2(2) unfolding live_def by blast
qed

lemma view_refcnt [simp]: "same_view s (s'\<lparr>refcnt := n\<rparr>) \<longleftrightarrow> same_view s s'"
  by (simp add: same_view_def sock_queued_def)

section \<open>The operations keep the invariant\<close>

lemma schedule_once_ok:
  assumes "live interest k s"
  shows "live interest k (schedule_once s)" "same_view s (schedule_once s)" "sock_queued (schedule_once s)"
proof -
  note f = live_facts [OF assms]
  let ?b = "event_deferred_cb_schedule (deferred s) (ev_base s)"
  have wf: "base_wf interest (ev_base s)" using f(2) by (simp add: loop_inv_def)
  have same: "evs ?b = evs (ev_base s)" "dcb_queued ?b (deferred s)"
    by (simp_all add: event_deferred_cb_schedule_def)
  have inv: "loop_inv interest ?b"
    using f(2) event_deferred_cb_schedule_ok(1) [OF wf, of "deferred s"]
    by (simp add: loop_inv_def) (simp add: event_deferred_cb_schedule_def)
  have "live interest k (schedule_once s) \<and> same_view s (schedule_once s) \<and> sock_queued (schedule_once s)"
  proof (cases "dcb_queued (ev_base s) (deferred s)")
    case True
    then show ?thesis using assms by (simp add: schedule_once_def sock_queued_def)
  next
    case False
    define s' where "s' = s\<lparr>refcnt := refcnt s + 1, ev_base := ?b\<rparr>"
    have "sock_events s'" "sock_buffers s'" "user_freed s \<longrightarrow> callbacks_gone s'"
      using f(5-7) by (simp_all add: s'_def sock_events_def event_off_def same sock_buffers_def callbacks_gone_def Let_def)
    moreover have "refcnt s' = of_bool (\<not> user_freed s') + of_bool (sock_queued s') + k"
      using f(10) False by (simp add: s'_def sock_queued_def same)
    ultimately have "live interest k s'" using f(1-3) inv by (simp add: live_iff s'_def)
    moreover have "schedule_once s = s'"
      using False by (simp add: schedule_once_def SCHEDULE_DEFERRED_def bufferevent_incref_def s'_def Let_def)
    moreover have "same_view s s'" "sock_queued s'" by (simp_all add: s'_def same_view_def sock_queued_def same)
    ultimately show ?thesis by simp
  qed
  then show "live interest k (schedule_once s)" "same_view s (schedule_once s)" "sock_queued (schedule_once s)"
    by simp_all
qed

lemma schedule_once_simps [simp]:
  "readcb_pending (schedule_once s) = readcb_pending s" "writecb_pending (schedule_once s) = writecb_pending s"
  "eventcb_pending (schedule_once s) = eventcb_pending s" "connecting (schedule_once s) = connecting s"
  "read_suspended (schedule_once s) = read_suspended s" "write_suspended (schedule_once s) = write_suspended s"
  by (simp_all add: schedule_once_def SCHEDULE_DEFERRED_def bufferevent_incref_def Let_def)

text \<open>Fields the invariant does not speak of.\<close>

lemma live_pending:
  assumes "live interest k s"
  shows "live interest k (s\<lparr>readcb_pending := p1\<rparr>)" "live interest k (s\<lparr>writecb_pending := p2\<rparr>)"
    "live interest k (s\<lparr>eventcb_pending := p3\<rparr>)" "live interest k (s\<lparr>eventcb_pending := p3, errno_pending := p4\<rparr>)"
    "live interest k (s\<lparr>connecting := p5\<rparr>)" "live interest k (s\<lparr>connection_refused := p6\<rparr>)"
    "live interest k (s\<lparr>wm_read := p7\<rparr>)" "live interest k (s\<lparr>wm_write := p7\<rparr>)"
    "live interest k (s\<lparr>closed_fds := p8\<rparr>)" "live interest k (s\<lparr>write_suspended := p9\<rparr>)"
  using live_facts [OF assms]
  by (simp_all add: live_iff sock_queued_def sock_buffers_def callbacks_gone_def sock_events_def Let_def)

lemma view_pending:
  "same_view s (s\<lparr>readcb_pending := p1\<rparr>)" "same_view s (s\<lparr>writecb_pending := p2\<rparr>)"
  "same_view s (s\<lparr>eventcb_pending := p3, errno_pending := p4\<rparr>)" "same_view s (s\<lparr>eventcb_pending := p3\<rparr>)"
  "same_view s (s\<lparr>connecting := p5\<rparr>)" "same_view s (s\<lparr>connection_refused := p6\<rparr>)"
  "same_view s (s\<lparr>write_suspended := p9\<rparr>)"
  by (simp_all add: same_view_def sock_queued_def)

lemma run_readcb_ok:
  assumes live: "live interest k s"
  shows "calm interest k s (bufferevent_run_readcb s)"
    "readcb s \<noteq> None \<Longrightarrow> readcb_pending (bufferevent_run_readcb s) \<and> sock_queued (bufferevent_run_readcb s)"
proof -
  note p = schedule_once_ok [OF live_pending(1) [OF live, where ?p1.0 = True]]
  show "calm interest k s (bufferevent_run_readcb s)"
    using live p(1) same_view_trans [OF view_pending(1) p(2)] by (simp add: bufferevent_run_readcb_def calm_def)
  show "readcb s \<noteq> None \<Longrightarrow> readcb_pending (bufferevent_run_readcb s) \<and> sock_queued (bufferevent_run_readcb s)"
    using p(3) by (auto simp: bufferevent_run_readcb_def)
qed

lemma run_writecb_ok:
  assumes live: "live interest k s"
  shows "calm interest k s (bufferevent_run_writecb s)"
    "writecb s \<noteq> None \<Longrightarrow> writecb_pending (bufferevent_run_writecb s) \<and> sock_queued (bufferevent_run_writecb s)"
proof -
  note p = schedule_once_ok [OF live_pending(2) [OF live, where ?p2.0 = True]]
  show "calm interest k s (bufferevent_run_writecb s)"
    using live p(1) same_view_trans [OF view_pending(2) p(2)] by (simp add: bufferevent_run_writecb_def calm_def)
  show "writecb s \<noteq> None \<Longrightarrow> writecb_pending (bufferevent_run_writecb s) \<and> sock_queued (bufferevent_run_writecb s)"
    using p(3) by (auto simp: bufferevent_run_writecb_def)
qed

lemma run_eventcb_ok:
  assumes live: "live interest k s"
  shows "calm interest k s (bufferevent_run_eventcb err what s)"
    "errorcb s \<noteq> None \<Longrightarrow> what \<subseteq> eventcb_pending (bufferevent_run_eventcb err what s) \<and>
       sock_queued (bufferevent_run_eventcb err what s)"
proof -
  note p = schedule_once_ok [OF live_pending(4) [OF live, where ?p3.0 = "eventcb_pending s \<union> what" and ?p4.0 = err]]
  show "calm interest k s (bufferevent_run_eventcb err what s)"
    using live p(1) same_view_trans [OF view_pending(3) p(2)] by (simp add: bufferevent_run_eventcb_def calm_def)
  show "errorcb s \<noteq> None \<Longrightarrow> what \<subseteq> eventcb_pending (bufferevent_run_eventcb err what s) \<and>
       sock_queued (bufferevent_run_eventcb err what s)"
    using p(3) by (auto simp: bufferevent_run_eventcb_def)
qed

lemma inbuf_wm_cb_ok:
  assumes "epoll_contract ctl interest" "epoll_steady ctl interest" "live interest k s"
  shows "\<exists>s'. bufferevent_inbuf_wm_cb ctl mem info s = Some s' \<and> calm interest k s s'"
  using suspend_read_ok [OF assms, of "{BEV_SUSPEND_WM}"] unsuspend_read_ok [OF assms(1,3), of mem "{BEV_SUSPEND_WM}"]
    calm_refl [OF assms(3)]
  by (simp add: bufferevent_inbuf_wm_cb_def)

lemma outbuf_cb_ok:
  assumes contract: "epoll_contract ctl interest" and live: "live interest k s"
  shows "\<exists>s'. bufferevent_socket_outbuf_cb ctl mem info s = Some s' \<and> calm interest k s s'"
proof -
  obtain r s1 where "on_base (bufferevent_add_event ctl mem (ev_write s) (timeout_write s)) s = Some (r, s1)"
    "quiet interest k s s1"
    using on_add_ok [OF contract live _ live_facts(9) [OF live], of "ev_write s" mem] by (auto simp: may_add_def)
  then show ?thesis
    using calm_refl [OF live] quiet_calm
    by (auto simp: bufferevent_socket_outbuf_cb_def on_base'_def split: option.splits)
qed

lemma on_base_enabled:
  "on_base f (s\<lparr>enabled := en\<rparr>) = map_option (\<lambda>(r, s). (r, s\<lparr>enabled := en\<rparr>)) (on_base f s)"
  by (cases "f (ev_base s)") (auto simp: on_base_def)

lemma disable_enabled:
  assumes "be_socket_disable ctl event s = Some (r, s')"
  shows "be_socket_disable ctl event (s\<lparr>enabled := en\<rparr>) = Some (r, s'\<lparr>enabled := en\<rparr>)"
proof -
  obtain r1 s1 where 1: "(if EV_READ \<in> event then on_base (event_del_internal ctl (ev_read s)) s else Some (0, s)) = Some (r1, s1)"
    using assms by (cases "EV_READ \<in> event") (auto simp: be_socket_disable_def split: bind_splits)
  have first': "(if EV_READ \<in> event then on_base (event_del_internal ctl (ev_read (s\<lparr>enabled := en\<rparr>))) (s\<lparr>enabled := en\<rparr>)
      else Some (0, s\<lparr>enabled := en\<rparr>)) = Some (r1, s1\<lparr>enabled := en\<rparr>)"
    using 1 by (cases "EV_READ \<in> event") (simp_all add: on_base_enabled)
  show ?thesis
  proof (cases "r1 = -1")
    case True
    then show ?thesis using assms unfolding be_socket_disable_def 1 first' by simp
  next
    case False
    obtain r2 s2 where 2: "(if EV_WRITE \<in> event \<and> \<not> connecting s1
        then on_base (event_del_internal ctl (ev_write s1)) s1 else Some (0, s1)) = Some (r2, s2)"
      "r = (if r2 = -1 then -1 else 0)" "s' = s2"
      using assms False unfolding be_socket_disable_def 1 by (auto split: bind_splits)
    have second': "(if EV_WRITE \<in> event \<and> \<not> connecting (s1\<lparr>enabled := en\<rparr>)
        then on_base (event_del_internal ctl (ev_write (s1\<lparr>enabled := en\<rparr>))) (s1\<lparr>enabled := en\<rparr>)
        else Some (0, s1\<lparr>enabled := en\<rparr>)) = Some (r2, s2\<lparr>enabled := en\<rparr>)"
      using 2(1) by (auto simp: on_base_enabled split: if_splits)
    show ?thesis
      unfolding be_socket_disable_def first' Option.bind.bind_lunit prod.case if_not_P [OF False] second' 2(2,3) by simp
  qed
qed

lemma view_incref [simp]: "same_view (bufferevent_incref s) s' \<longleftrightarrow> same_view s s'"
  by (simp add: same_view_def bufferevent_incref_def sock_queued_def)

lemma view_queued: "same_view s s' \<Longrightarrow> sock_queued s \<Longrightarrow> sock_queued s'"
  by (simp add: same_view_def)

lemma live_enabled:
  assumes "live interest k s" "\<not> event_off (ev_read s) (ev_base s) \<Longrightarrow> EV_READ \<in> en"
  shows "live interest k (s\<lparr>enabled := en\<rparr>)"
  using live_facts [OF assms(1)] assms(2)
  by (simp add: live_iff sock_queued_def sock_buffers_def callbacks_gone_def sock_events_def Let_def)

lemma bufferevent_enable_ok:
  fixes s :: "('e, 'd, 'k, 'b, 'f, 'x) bufferevent"
  assumes contract: "epoll_contract ctl interest" and steady: "epoll_steady ctl interest" and live: "live interest k s"
  shows "\<exists>r s'. bufferevent_enable ctl mem event s = Some (r, s') \<and>
    calm interest k (s\<lparr>enabled := enabled s \<union> event\<rparr>) s'"
proof -
  let ?Q = "\<lambda>(r :: int) s1. same_view (s\<lparr>enabled := enabled s \<union> event\<rparr>) s1"
  have "\<exists>r s1. bufferevent_enable ctl mem event s = Some (r, s1\<lparr>refcnt := refcnt s1 - 1\<rparr>) \<and>
    live interest k (s1\<lparr>refcnt := refcnt s1 - 1\<rparr>) \<and> ?Q r s1"
    unfolding bufferevent_enable_def
  proof (rule with_ref_ok [OF contract steady live, where Q = ?Q])
    assume live0: "live interest (Suc k) (bufferevent_incref s)"
    define s0 where "s0 = (bufferevent_incref s)\<lparr>enabled := enabled s \<union> event\<rparr>"
    have en: "enabled (bufferevent_incref s) = enabled s" "read_suspended (bufferevent_incref s) = read_suspended s0"
      by (simp_all add: bufferevent_incref_def s0_def)
    have live1: "live interest (Suc k) s0"
      unfolding s0_def using live_facts(6) [OF live0]
      by (intro live_enabled [OF live0]) (simp add: sock_events_def en Let_def)
    have view: "same_view (s\<lparr>enabled := enabled s \<union> event\<rparr>) s0" "sock_queued s \<longrightarrow> sock_queued s0"
      "user_freed s0 = user_freed s"
      by (simp_all add: s0_def same_view_def bufferevent_incref_def sock_queued_def)
    define impl where "impl = impl_events event s0"
    have impl: "EV_READ \<in> impl \<Longrightarrow> EV_READ \<in> enabled s0 \<and> read_suspended s0 = {}"
      by (auto simp: impl_def impl_events_def s0_def split: if_splits)
    obtain r s1 where s1: "be_socket_enable ctl mem impl s0 = Some (r, s1)" "quiet interest (Suc k) s0 s1"
      using enable_ok [OF contract live1 impl] by blast
    have s01: "live interest (Suc k) s1" "same_view s0 s1" using s1(2) by (simp_all add: quiet_def)
    have q: "same_view (s\<lparr>enabled := enabled s \<union> event\<rparr>) s1" by (rule same_view_trans [OF view(1) s01(2)])
    then have q': "user_freed s1 = user_freed s" "sock_queued s \<longrightarrow> sock_queued s1"
      by (auto simp: same_view_def sock_queued_def)
    show "\<exists>r s'. (let s = (bufferevent_incref s)\<lparr>enabled := enabled (bufferevent_incref s) \<union> event\<rparr> in
           if impl_events event s \<noteq> {}
           then map_option (\<lambda>(r, s). (if r < 0 then - 1 else 0, s)) (be_socket_enable ctl mem (impl_events event s) s)
           else Some (0, s)) = Some (r, s') \<and> live interest (Suc k) s' \<and> ?Q r s' \<and>
          user_freed s' = user_freed s \<and> (sock_queued s \<longrightarrow> sock_queued s')"
      using s1(1) s01(1) q q' live1 view
      by (cases "impl = {}") (simp_all add: Let_def en(1) s0_def [symmetric] impl_def [symmetric])
  qed
  then show ?thesis unfolding calm_def by auto
qed

lemma bufferevent_disable_ok:
  assumes contract: "epoll_contract ctl interest" and steady: "epoll_steady ctl interest" and live: "live interest k s"
  shows "\<exists>s'. bufferevent_disable ctl event s = Some (0, s') \<and> calm interest k (s\<lparr>enabled := enabled s - event\<rparr>) s'"
proof -
  obtain s1 where s1: "be_socket_disable ctl event s = Some (0, s1)" "quiet interest k s s1"
    "EV_READ \<in> event \<longrightarrow> event_off (ev_read s) (ev_base s1)"
    using disable_ok [OF assms] by blast
  define s2 where "s2 = s1\<lparr>enabled := enabled s - event\<rparr>"
  have same: "ev_read s1 = ev_read s" "enabled s1 = enabled s" "live interest k s1"
    using s1(2) by (simp_all add: quiet_def same_view_def)
  have "EV_READ \<in> enabled s - event" if "\<not> event_off (ev_read s1) (ev_base s1)"
    using that live_facts(6) [OF same(3)] s1(3) same by (auto simp: sock_events_def Let_def)
  then have "live interest k s2" unfolding s2_def by (rule live_enabled [OF same(3)])
  moreover have "same_view (s\<lparr>enabled := enabled s - event\<rparr>) s2"
    using s1(2) by (auto simp: s2_def quiet_def same_view_def sock_queued_def)
  moreover have "bufferevent_disable ctl event s = Some (0, s2)"
    using disable_enabled [OF s1(1), of "enabled s - event"] live_facts(1) [OF live]
    by (simp add: bufferevent_disable_def s2_def)
  ultimately show ?thesis by (simp add: calm_def)
qed

lemma set_timeouts_ok:
  fixes s :: "('e, 'd, 'k, 'b, 'f, 'x) bufferevent"
  assumes contract: "epoll_contract ctl interest" and steady: "epoll_steady ctl interest" and live: "live interest k s"
    and "\<And>t. tr = Some t \<Longrightarrow> normal t" "\<And>t. tw = Some t \<Longrightarrow> normal t"
  shows "\<exists>r s'. bufferevent_set_timeouts ctl mem tr tw s = Some (r, s') \<and> live interest k s' \<and>
    user_freed s' = user_freed s"
proof -
  define s0 where "s0 = s\<lparr>timeout_read := (case tr of Some t \<Rightarrow> t | None \<Rightarrow> evutil_timerclear),
    timeout_write := (case tw of Some t \<Rightarrow> t | None \<Rightarrow> evutil_timerclear)\<rparr>"
  have n: "normal (timeout_read s0)" "normal (timeout_write s0)"
    using assms(4,5) by (simp_all add: s0_def split: option.split)
  have live0: "live interest k s0"
    using live_facts [OF live] n
    by (simp add: live_iff sock_queued_def sock_buffers_def callbacks_gone_def sock_events_def Let_def s0_def)
  have add: "\<exists>r s'. (if event_pending e {w} (ev_base s1) \<noteq> {}
        then on_base (bufferevent_add_event ctl mem e tv) s1 else Some (0, s1)) = Some (r, s') \<and> quiet interest k s1 s'"
    if "live interest k s1" "e = ev_read s1 \<and> w = EV_READ \<or> e = ev_write s1" "normal tv" for s1 e w tv
  proof (cases "event_pending e {w} (ev_base s1) = {}")
    case True
    then show ?thesis using that quiet_refl by auto
  next
    case False
    then have "\<not> event_off e (ev_base s1)"
      by (auto simp: event_pending_def event_off_def Let_def split: if_splits)
    then have "may_add s1 e"
      using that(2) live_facts(6) [OF that(1)] by (auto simp: may_add_def sock_events_def Let_def)
    then show ?thesis using False on_add_ok [OF contract that(1) _ that(3), of e mem] by simp
  qed
  obtain r1 s1 where 1: "(if event_pending (ev_read s0) {EV_READ} (ev_base s0) \<noteq> {}
      then on_base (bufferevent_add_event ctl mem (ev_read s0) (timeout_read s0)) s0 else Some (0, s0)) = Some (r1, s1)"
    "quiet interest k s0 s1"
    using add [OF live0 _ n(1), of "ev_read s0" EV_READ] by blast
  have live1: "live interest k s1" "normal (timeout_write s1)" using 1(2) n by (simp_all add: quiet_def same_view_def)
  obtain r2 s2 where 2: "(if event_pending (ev_write s1) {EV_WRITE} (ev_base s1) \<noteq> {}
      then on_base (bufferevent_add_event ctl mem (ev_write s1) (timeout_write s1)) s1 else Some (0, s1)) = Some (r2, s2)"
    "quiet interest k s1 s2"
    using add [OF live1(1) _ live1(2), of "ev_write s1" EV_WRITE] by blast
  have "bufferevent_set_timeouts ctl mem tr tw s = Some (if r1 < 0 \<or> r2 < 0 then -1 else 0, s2)"
    unfolding bufferevent_set_timeouts_def be_socket_adj_timeouts_def s0_def [symmetric] 1(1) Option.bind.bind_lunit prod.case 2(1)
    using live_facts(1) [OF live] by simp
  moreover have "live interest k s2" "user_freed s2 = user_freed s"
    using 1(2) 2(2) by (simp_all add: quiet_def same_view_def s0_def)
  ultimately show ?thesis by blast
qed

section \<open>What the user calls\<close>

lemma live_inbuf:
  assumes "live interest k s" "evbuffer_wf b" "\<not> freeze_start b"
  shows "live interest k (s\<lparr>inbuf := b\<rparr>)"
  using live_facts [OF assms(1)] assms(2,3)
  by (simp add: live_iff sock_queued_def sock_buffers_def callbacks_gone_def sock_events_def Let_def)

lemma live_outbuf:
  assumes "live interest k s" "evbuffer_wf b" "tight b" "\<not> freeze_end b"
  shows "live interest k (s\<lparr>outbuf := b\<rparr>)"
  using live_facts [OF assms(1)] assms(2-4)
  by (simp add: live_iff sock_queued_def sock_buffers_def callbacks_gone_def sock_events_def Let_def)

lemma bufferevent_write_ok:
  fixes s :: "('e, 'd, 'k, 'b, 'f, 'x) bufferevent"
  assumes contract: "epoll_contract ctl interest" and live: "live interest k s"
    and small: "length data + EVBUFFER_CHAIN_SIZE \<le> 2 ^ 62"
  shows "\<exists>r s'. bufferevent_write ctl mem alloc alloc' data s = Some (r, s') \<and>
    calm interest k (s\<lparr>outbuf := outbuf s'\<rparr>) s' \<and>
    (r = 0 \<and> buffered (outbuf s') = buffered (outbuf s) @ data \<or>
     r = -1 \<and> \<not> (alloc \<and> alloc') \<and> buffered (outbuf s') = buffered (outbuf s))"
proof -
  have buf: "evbuffer_wf (outbuf s)" "tight (outbuf s)" "\<not> freeze_end (outbuf s)"
    using live_facts(7) [OF live] by (simp_all add: sock_buffers_def)
  obtain r b info where b: "evbuffer_add alloc alloc' data (outbuf s) = Some (r, b, info)" "evbuffer_wf b" "tight b"
    "same_switches (outbuf s) b"
    "r = 0 \<and> buffered b = buffered (outbuf s) @ data \<or> r = -1 \<and> \<not> (alloc \<and> alloc') \<and> buffered b = buffered (outbuf s)"
    using evbuffer_add_ok [OF buf small] by blast
  have live1: "live interest k (s\<lparr>outbuf := b\<rparr>)"
    using live_outbuf [OF live b(2,3)] buf b(4) by (simp add: same_switches_def)
  obtain s' where s': "bufferevent_socket_outbuf_cb ctl mem info (s\<lparr>outbuf := b\<rparr>) = Some s'"
    "calm interest k (s\<lparr>outbuf := b\<rparr>) s'"
    using outbuf_cb_ok [OF contract live1] by blast
  have "outbuf s' = b" using s'(2) by (simp add: calm_def same_view_def)
  then show ?thesis using b s' live_facts(1) [OF live] by (auto simp: bufferevent_write_def)
qed

lemma bufferevent_read_ok:
  fixes s :: "('e, 'd, 'k, 'b, 'f, 'x) bufferevent"
  assumes contract: "epoll_contract ctl interest" and steady: "epoll_steady ctl interest" and live: "live interest k s"
    and small: "min n (length (buffered (inbuf s))) < 2 ^ 31"
  shows "\<exists>s'. bufferevent_read ctl mem n s =
      Some (int (min n (length (buffered (inbuf s)))), take n (buffered (inbuf s)), s') \<and>
    calm interest k (s\<lparr>inbuf := inbuf s'\<rparr>) s' \<and> buffered (inbuf s') = drop n (buffered (inbuf s))"
proof -
  have buf: "evbuffer_wf (inbuf s)" "\<not> freeze_start (inbuf s)"
    using live_facts(7) [OF live] by (simp_all add: sock_buffers_def)
  obtain b info where b: "evbuffer_remove n (inbuf s) =
      Some (int (min n (length (buffered (inbuf s)))), take n (buffered (inbuf s)), b, info)"
    "evbuffer_wf b" "buffered b = drop n (buffered (inbuf s))" "same_switches (inbuf s) b"
    using evbuffer_remove_ok [OF buf small] by blast
  have live1: "live interest k (s\<lparr>inbuf := b\<rparr>)"
    using live_inbuf [OF live b(2)] buf b(4) by (simp add: same_switches_def)
  obtain s' where s': "bufferevent_inbuf_wm_cb ctl mem info (s\<lparr>inbuf := b\<rparr>) = Some s'"
    "calm interest k (s\<lparr>inbuf := b\<rparr>) s'"
    using inbuf_wm_cb_ok [OF contract steady live1] by blast
  have "inbuf s' = b" using s'(2) by (simp add: calm_def same_view_def)
  then show ?thesis using b s' live_facts(1) [OF live] by (simp add: bufferevent_read_def)
qed

lemma evbuffer_wf_has_cbs [simp]: "evbuffer_wf (b\<lparr>has_cbs := c\<rparr>) = evbuffer_wf b"
  "buffered (b\<lparr>has_cbs := c\<rparr>) = buffered b"
  by (simp_all add: evbuffer_wf_def buffered_def)

lemma no_watermarks_cb: "read_watermarks_cb s = None \<Longrightarrow> s\<lparr>read_watermarks_cb := None\<rparr> = s"
  by (cases s) simp

definition wm_of :: "nat \<Rightarrow> nat \<Rightarrow> event_watermark" where
  "wm_of low high = \<lparr>wm_low = low, wm_high = high\<rparr>"

lemma setwatermark_ok:
  fixes s :: "('e, 'd, 'k, 'b, 'f, 'x) bufferevent"
  assumes contract: "epoll_contract ctl interest" and steady: "epoll_steady ctl interest" and live: "live interest k s"
    and alloc: "alloc \<or> read_watermarks_cb s \<noteq> None"
  shows "\<exists>s'. bufferevent_setwatermark ctl mem alloc events low high s = Some s' \<and>
    calm interest k
      (s\<lparr>inbuf := inbuf s', read_watermarks_cb := read_watermarks_cb s',
         wm_write := (if EV_WRITE \<in> events then wm_of low high else wm_write s),
         wm_read := (if EV_READ \<in> events then wm_of low high else wm_read s)\<rparr>) s' \<and>
    buffered (inbuf s') = buffered (inbuf s)"
proof -
  define s0 where "s0 = (if EV_WRITE \<in> events then s\<lparr>wm_write := wm_of low high\<rparr> else s)"
  have live0: "live interest k s0" using live live_pending(8) [OF live] by (simp add: s0_def)
  have f: "freed s = False" using live_facts(1) [OF live] by simp
  show ?thesis
  proof (cases "EV_READ \<in> events")
    case False
    then have "bufferevent_setwatermark ctl mem alloc events low high s = Some s0"
      by (simp add: bufferevent_setwatermark_def f s0_def wm_of_def Let_def)
    then show ?thesis using False live0 by (simp add: calm_def s0_def same_view_def sock_queued_def)
  next
    case True
    define cb where "cb = (if high \<noteq> 0 then Some True else if read_watermarks_cb s \<noteq> None then Some False else None)"
    define b where "b = (if high \<noteq> 0 then (inbuf s)\<lparr>has_cbs := True\<rparr> else inbuf s)"
    define s1 where "s1 = s0\<lparr>wm_read := wm_of low high, read_watermarks_cb := cb, inbuf := b\<rparr>"
    have buf: "evbuffer_wf b" "\<not> freeze_start b" "buffered b = buffered (inbuf s)"
      using live_facts(7) [OF live] by (simp_all add: sock_buffers_def b_def)
    have liveb: "live interest k (s0\<lparr>inbuf := b\<rparr>)" by (rule live_inbuf [OF live0 buf(1,2)])
    have live1: "live interest k s1"
      by (rule live_cong [OF liveb])
         (use live_facts(2,6,7) [OF liveb] in
           \<open>simp_all add: s1_def sock_queued_def sock_buffers_def callbacks_gone_def sock_events_def Let_def\<close>)
    have eq: "bufferevent_setwatermark ctl mem alloc events low high s =
        (if high \<noteq> 0
         then if evbuffer_get_length (inbuf s1) > high then bufferevent_suspend_read ctl {BEV_SUSPEND_WM} s1
              else if evbuffer_get_length (inbuf s1) < high then bufferevent_unsuspend_read ctl mem {BEV_SUSPEND_WM} s1
              else Some s1
         else bufferevent_unsuspend_read ctl mem {BEV_SUSPEND_WM} s1)"
      using True alloc
      by (cases "EV_WRITE \<in> events"; cases "high = 0"; cases "read_watermarks_cb s")
         (simp_all add: bufferevent_setwatermark_def f s1_def s0_def wm_of_def cb_def b_def Let_def no_watermarks_cb)
    obtain s2 where s2: "bufferevent_setwatermark ctl mem alloc events low high s = Some s2" "calm interest k s1 s2"
      using eq suspend_read_ok [OF contract steady live1, of "{BEV_SUSPEND_WM}"]
        unsuspend_read_ok [OF contract live1, of mem "{BEV_SUSPEND_WM}"] calm_refl [OF live1]
      by (cases "high = 0"; cases "evbuffer_get_length (inbuf s1) > high"; cases "evbuffer_get_length (inbuf s1) < high") auto
    have same: "inbuf s2 = b" "read_watermarks_cb s2 = cb" using s2(2) by (simp_all add: calm_def same_view_def s1_def)
    have "s1 = s\<lparr>inbuf := inbuf s2, read_watermarks_cb := read_watermarks_cb s2,
         wm_write := (if EV_WRITE \<in> events then wm_of low high else wm_write s),
         wm_read := (if EV_READ \<in> events then wm_of low high else wm_read s)\<rparr>"
      using True by (simp add: same s1_def s0_def)
    then show ?thesis using s2 same(1) buf(3) by simp
  qed
qed

section \<open>What the loop calls\<close>

text \<open>
  The effect of the callback for reading: bytes are added to the input, or reading is switched off and the user
  will be told.
\<close>

definition sock_received ::
    "(nat list \<Rightarrow> 'b list option) \<Rightarrow> 'b list \<Rightarrow>
     ('e, 'd, 'k, 'b, 'f, 'x) bufferevent \<Rightarrow> ('e, 'd, 'k, 'b, 'f, 'x) bufferevent \<Rightarrow> bool" where
  "sock_received rv bs s s' \<longleftrightarrow>
     same_view (s\<lparr>inbuf := inbuf s', enabled := enabled s'\<rparr>) s' \<and>
     buffered (inbuf s') = buffered (inbuf s) @ bs \<and>
     (bs \<noteq> [] \<longrightarrow> (\<exists>vs. rv vs = Some bs) \<and> enabled s' = enabled s \<and> read_suspended s = {} \<and>
        (wm_high (wm_read s) \<noteq> 0 \<and> length (buffered (inbuf s)) < 2 ^ 63 \<longrightarrow>
           length (buffered (inbuf s')) \<le> wm_high (wm_read s)) \<and>
        (readcb s \<noteq> None \<and> wm_low (wm_read s) \<le> length (buffered (inbuf s')) \<longrightarrow>
           readcb_pending s' \<and> sock_queued s')) \<and>
     (enabled s' = enabled s \<or>
        enabled s' = enabled s - {EV_READ} \<and> bs = [] \<and>
        (errorcb s \<noteq> None \<longrightarrow> BEV_EVENT_READING \<in> eventcb_pending s' \<and> sock_queued s'))"

lemma view_inbuf_same [simp]: "s\<lparr>inbuf := inbuf s, enabled := enabled s\<rparr> = s"
  by (cases s) simp

lemma received_nothing:
  assumes "calm interest k s s'"
  shows "sock_received rv [] s s'"
proof -
  have view: "same_view s s'" using assms by (simp add: calm_def)
  then have "inbuf s' = inbuf s" "enabled s' = enabled s" by (simp_all add: same_view_def)
  then show ?thesis using view by (simp add: sock_received_def)
qed

lemma readcb_error_ok:
  assumes contract: "epoll_contract ctl interest" and steady: "epoll_steady ctl interest" and live: "live interest k s"
  shows "\<exists>s'. readcb_error ctl err what s = Some s' \<and> calm interest k (s\<lparr>enabled := enabled s - {EV_READ}\<rparr>) s' \<and>
    (errorcb s \<noteq> None \<longrightarrow> what \<subseteq> eventcb_pending s' \<and> sock_queued s')"
proof -
  obtain s1 where s1: "bufferevent_disable ctl {EV_READ} s = Some (0, s1)"
    "calm interest k (s\<lparr>enabled := enabled s - {EV_READ}\<rparr>) s1"
    using bufferevent_disable_ok [OF assms, of "{EV_READ}"] by blast
  have "errorcb s1 = errorcb s" using s1(2) by (simp add: calm_def same_view_def)
  then show ?thesis
    using s1(1) calm_trans [OF s1(2) run_eventcb_ok(1) [OF calm_live [OF s1(2)]]]
      run_eventcb_ok(2) [OF calm_live [OF s1(2)]]
    by (simp add: readcb_error_def)
qed

lemma received_error:
  assumes "calm interest k (s\<lparr>enabled := enabled s - {EV_READ}\<rparr>) s'"
    and "errorcb s \<noteq> None \<longrightarrow> what \<subseteq> eventcb_pending s' \<and> sock_queued s'" "BEV_EVENT_READING \<in> what"
  shows "sock_received rv [] s s'"
proof -
  have "same_view (s\<lparr>enabled := enabled s - {EV_READ}\<rparr>) s'" using assms(1) by (simp add: calm_def)
  moreover from this have "inbuf s' = inbuf s" "enabled s' = enabled s - {EV_READ}" by (simp_all add: same_view_def)
  ultimately show ?thesis using assms(2,3)
    by (auto simp: sock_received_def same_view_def sock_queued_def)
qed

lemma received_trans:
  assumes "same_view (s\<lparr>inbuf := inbuf s1\<rparr>) s1" "buffered (inbuf s1) = buffered (inbuf s)" "sock_received rv [] s1 s'"
  shows "sock_received rv [] s s'"
  using assms by (auto simp: sock_received_def same_view_def sock_queued_def)

lemma same_switches_freeze:
  "evbuffer_wf (evbuffer_unfreeze st b) = evbuffer_wf b" "buffered (evbuffer_unfreeze st b) = buffered b"
  "evbuffer_wf (evbuffer_freeze st b) = evbuffer_wf b" "buffered (evbuffer_freeze st b) = buffered b"
  "tight (evbuffer_freeze st b) = tight b" "tight (evbuffer_unfreeze st b) = tight b"
  by (simp_all add: evbuffer_unfreeze_def evbuffer_freeze_def evbuffer_wf_def buffered_def tight_def)

lemma readcb_read_ok:
  fixes s :: "('e, 'd, 'k, 'b, 'f, 'x) bufferevent"
  assumes contract: "epoll_contract ctl interest" and steady: "epoll_steady ctl interest" and live: "live interest k s"
    and readv: "readv_contract (rd_readv ans)" and on: "read_suspended s = {}"
    and max: "0 \<le> howmuch" "wm_high (wm_read s) \<noteq> 0 \<Longrightarrow> length (buffered (inbuf s)) < 2 ^ 63 \<Longrightarrow>
      length (buffered (inbuf s)) + nat howmuch \<le> wm_high (wm_read s)"
  shows "\<exists>s' bs. readcb_read ctl mem ans howmuch s = Some s' \<and> live interest k s' \<and> sock_received (rd_readv ans) bs s s'"
proof -
  have buf: "evbuffer_wf (inbuf s)" "\<not> freeze_start (inbuf s)" using live_facts(7) [OF live] by (simp_all add: sock_buffers_def)
  have unfrozen: "evbuffer_wf (evbuffer_unfreeze False (inbuf s))" "\<not> freeze_end (evbuffer_unfreeze False (inbuf s))"
    using buf(1) by (simp_all add: same_switches_freeze) (simp add: evbuffer_unfreeze_def)
  obtain r b info bs where b: "evbuffer_read (rd_alloc ans) (rd_readable ans) (rd_readv ans) howmuch
      (evbuffer_unfreeze False (inbuf s)) = Some (r, b, info)" "evbuffer_wf b"
    "same_switches (evbuffer_unfreeze False (inbuf s)) b" "buffered b = buffered (inbuf s) @ bs"
    "r = int (length bs) \<or> r = -1 \<and> bs = []" "length bs \<le> nat howmuch"
    "bs \<noteq> [] \<longrightarrow> (\<exists>vs. rd_readv ans vs = Some bs)"
    using evbuffer_read_ok [OF readv unfrozen, of "rd_alloc ans" "rd_readable ans" howmuch] max(1)
    unfolding same_switches_freeze by blast
  have start: "\<not> freeze_start b" using b(3) buf(2) by (simp add: same_switches_def evbuffer_unfreeze_def)
  obtain s1 where s1: "bufferevent_inbuf_wm_cb ctl mem info (s\<lparr>inbuf := b\<rparr>) = Some s1" "calm interest k (s\<lparr>inbuf := b\<rparr>) s1"
    using inbuf_wm_cb_ok [OF contract steady live_inbuf [OF live b(2) start]] by blast
  have same: "inbuf s1 = b" "enabled s1 = enabled s" "readcb s1 = readcb s" "errorcb s1 = errorcb s" "wm_read s1 = wm_read s"
    using s1(2) by (simp_all add: calm_def same_view_def)
  define s2 where "s2 = s1\<lparr>inbuf := evbuffer_freeze False b\<rparr>"
  have "\<not> freeze_start (evbuffer_freeze False b)" using start by (simp add: evbuffer_freeze_def)
  then have live2: "live interest k s2"
    unfolding s2_def using b(2) by (intro live_inbuf [OF calm_live [OF s1(2)]]) (simp_all add: same_switches_freeze)
  have view2: "same_view (s\<lparr>inbuf := inbuf s2\<rparr>) s2"
    using s1(2) by (auto simp: s2_def calm_def same_view_def sock_queued_def)
  have data2: "buffered (inbuf s2) = buffered (inbuf s) @ bs" using b(4) by (simp add: s2_def same_switches_freeze)
  have eq: "readcb_read ctl mem ans howmuch s =
      (if r = -1
       then if EVUTIL_ERR_RW_RETRIABLE (rd_errno ans) then Some s2
            else readcb_error ctl (Some (rd_errno ans)) {BEV_EVENT_READING, BEV_EVENT_ERROR} s2
       else if r = 0 then readcb_error ctl (Some (rd_errno ans)) {BEV_EVENT_READING, BEV_EVENT_EOF} s2
       else if evbuffer_get_length (inbuf s2) \<ge> wm_low (wm_read s) then Some (bufferevent_run_readcb s2) else Some s2)"
    using b(1) s1(1) same by (simp add: readcb_read_def s2_def Let_def)
  have error: "\<exists>s'. readcb_error ctl err what s2 = Some s' \<and> live interest k s' \<and> sock_received (rd_readv ans) [] s s'"
    if "bs = []" "BEV_EVENT_READING \<in> what" for err what
  proof -
    obtain s' where s': "readcb_error ctl err what s2 = Some s'" "calm interest k (s2\<lparr>enabled := enabled s2 - {EV_READ}\<rparr>) s'"
      "errorcb s2 \<noteq> None \<longrightarrow> what \<subseteq> eventcb_pending s' \<and> sock_queued s'"
      using readcb_error_ok [OF contract steady live2] by blast
    have "sock_received (rd_readv ans) [] s s'"
      by (rule received_trans [OF view2 _ received_error [OF s'(2,3) that(2)]]) (simp add: data2 that(1))
    then show ?thesis using s'(1) calm_live [OF s'(2)] by blast
  qed
  consider "r = -1" "bs = []" | "r = 0" "bs = []" | "0 < r" "bs \<noteq> []"
    using b(5) by (cases bs) auto
  then show ?thesis
  proof cases
    case 1
    have "sock_received (rd_readv ans) [] s s2"
      by (rule received_trans [OF view2 _ received_nothing [OF calm_refl [OF live2]]]) (simp add: data2 1(2))
    then show ?thesis
      using eq 1 live2 error [OF 1(2), of "{BEV_EVENT_READING, BEV_EVENT_ERROR}" "Some (rd_errno ans)"]
      by (cases "EVUTIL_ERR_RW_RETRIABLE (rd_errno ans)") auto
  next
    case 2
    then show ?thesis using eq error [OF 2(2), of "{BEV_EVENT_READING, BEV_EVENT_EOF}" "Some (rd_errno ans)"] by auto
  next
    case 3
    have len: "evbuffer_get_length (inbuf s2) = length (buffered (inbuf s2))"
      using live_facts(7) [OF live2] by (simp add: evbuffer_get_length_def sock_buffers_def evbuffer_wf_def)
    define s' where "s' = (if evbuffer_get_length (inbuf s2) \<ge> wm_low (wm_read s) then bufferevent_run_readcb s2 else s2)"
    have calm: "calm interest k s2 s'" using run_readcb_ok(1) [OF live2] calm_refl [OF live2] by (simp add: s'_def)
    have sv: "inbuf s' = inbuf s2" "enabled s' = enabled s" "readcb s2 = readcb s"
      using calm view2 same by (simp_all add: calm_def same_view_def)
    have "same_view (s\<lparr>inbuf := inbuf s', enabled := enabled s'\<rparr>) s'"
      using calm view2 sv by (auto simp: calm_def same_view_def sock_queued_def)
    moreover have "readcb s \<noteq> None \<and> wm_low (wm_read s) \<le> length (buffered (inbuf s')) \<longrightarrow>
        readcb_pending s' \<and> sock_queued s'"
      using run_readcb_ok(2) [OF live2] sv len by (simp add: s'_def)
    moreover have "wm_high (wm_read s) \<noteq> 0 \<and> length (buffered (inbuf s)) < 2 ^ 63 \<longrightarrow>
        length (buffered (inbuf s')) \<le> wm_high (wm_read s)"
      using max(2) b(6) data2 sv(1) by simp linarith
    ultimately have "sock_received (rd_readv ans) bs s s'" using sv data2 on b(7) by (simp add: sock_received_def)
    then show ?thesis using eq 3(1) calm_live [OF calm] by (auto simp: s'_def)
  qed
qed

lemma ssize_diff_le:
  assumes "n < 2 ^ 63"
  shows "ssize_diff m n \<le> int m - int n"
proof -
  have "- (2 ^ 63) \<le> int m - int n" using assms by simp
  then show ?thesis
    unfolding ssize_diff_def sint_sbintrunc' by (simp add: signed_take_bit_int_less_eq_self_iff)
qed

lemma view_pair: "(\<exists>r s'. map_option (Pair ()) x = Some (r, s') \<and> P s') \<longleftrightarrow> (\<exists>s'. x = Some s' \<and> P s')"
  by (cases x) auto

text \<open>A callback of the loop holds a reference while it runs.\<close>

lemma with_ref_cb:
  assumes contract: "epoll_contract ctl interest" and steady: "epoll_steady ctl interest" and live: "live interest k s"
    and f: "live interest (Suc k) (bufferevent_incref s) \<Longrightarrow>
      \<exists>s'. f (bufferevent_incref s) = Some s' \<and> live interest (Suc k) s' \<and> Q s' \<and>
        user_freed s' = user_freed s \<and> (sock_queued s \<longrightarrow> sock_queued s')"
    and ref: "\<And>s'. Q s' \<Longrightarrow> Q (s'\<lparr>refcnt := refcnt s' - 1\<rparr>)"
  shows "\<exists>s'. map_option snd (with_ref ctl (\<lambda>s. map_option (Pair ()) (f s)) s) = Some s' \<and> live interest k s' \<and> Q s'"
  using with_ref_ok [OF contract steady live, where f = "\<lambda>s. map_option (Pair ()) (f s)" and Q = "\<lambda>_. Q"] f ref
  by (simp add: view_pair) blast

lemma received_incref [simp]:
  "sock_received rv bs (bufferevent_incref s) s' = sock_received rv bs s s'"
  "sock_received rv bs s (s'\<lparr>refcnt := n\<rparr>) = sock_received rv bs s s'"
  by (simp_all add: sock_received_def same_view_def bufferevent_incref_def sock_queued_def)

lemma received_keeps:
  assumes "sock_received rv bs s s'"
  shows "user_freed s' = user_freed s" "sock_queued s \<Longrightarrow> sock_queued s'"
proof -
  have view: "same_view (s\<lparr>inbuf := inbuf s', enabled := enabled s'\<rparr>) s'"
    using assms unfolding sock_received_def by (rule conjunct1)
  then show "user_freed s' = user_freed s" by (simp add: same_view_def)
  show "sock_queued s \<Longrightarrow> sock_queued s'" using view_queued [OF view] by (simp add: sock_queued_def)
qed

lemma bufferevent_readcb_ok:
  fixes s :: "('e, 'd, 'k, 'b, 'f, 'x) bufferevent"
  assumes contract: "epoll_contract ctl interest" and steady: "epoll_steady ctl interest" and live: "live interest k s"
    and readv: "readv_contract (rd_readv ans)"
  shows "\<exists>s' bs. bufferevent_readcb ctl mem ans event s = Some s' \<and> live interest k s' \<and> sock_received (rd_readv ans) bs s s'"
proof -
  define body where "body = (\<lambda>s :: ('e, 'd, 'k, 'b, 'f, 'x) bufferevent.
       if event = {EV_TIMEOUT}
        then readcb_error ctl (Some (rd_errno ans)) {BEV_EVENT_READING, BEV_EVENT_TIMEOUT} s
        else
          let howmuch = (if wm_high (wm_read s) \<noteq> 0
                         then ssize_diff (wm_high (wm_read s)) (evbuffer_get_length (inbuf s)) else -1) in
          if wm_high (wm_read s) \<noteq> 0 \<and> howmuch \<le> 0
          then bufferevent_suspend_read ctl {BEV_SUSPEND_WM} s
          else
            let readmax = get_read_max;
                howmuch = (if howmuch < 0 \<or> howmuch > readmax then readmax else howmuch) in
            if read_suspended s \<noteq> {} then Some s
            else readcb_read ctl mem ans howmuch s)"
  have body: "\<exists>s1 bs. body s0 = Some s1 \<and> live interest (Suc k) s1 \<and> sock_received (rd_readv ans) bs s0 s1"
    if live0: "live interest (Suc k) s0" for s0
  proof (cases "event = {EV_TIMEOUT}")
    case True
    obtain s1 where s1: "readcb_error ctl (Some (rd_errno ans)) {BEV_EVENT_READING, BEV_EVENT_TIMEOUT} s0 = Some s1"
      "calm interest (Suc k) (s0\<lparr>enabled := enabled s0 - {EV_READ}\<rparr>) s1"
      "errorcb s0 \<noteq> None \<longrightarrow> {BEV_EVENT_READING, BEV_EVENT_TIMEOUT} \<subseteq> eventcb_pending s1 \<and> sock_queued s1"
      using readcb_error_ok [OF contract steady live0] by blast
    have "sock_received (rd_readv ans) [] s0 s1" by (rule received_error [OF s1(2,3)]) simp
    moreover have "body s0 = Some s1" using True s1(1) by (simp add: body_def)
    ultimately show ?thesis using calm_live [OF s1(2)] by blast
  next
    case False
    define hm where "hm = (if wm_high (wm_read s0) \<noteq> 0
      then ssize_diff (wm_high (wm_read s0)) (evbuffer_get_length (inbuf s0)) else -1)"
    define h where "h = (if hm < 0 \<or> hm > get_read_max then get_read_max else hm)"
    have eq: "body s0 = (if wm_high (wm_read s0) \<noteq> 0 \<and> hm \<le> 0 then bufferevent_suspend_read ctl {BEV_SUSPEND_WM} s0
        else if read_suspended s0 \<noteq> {} then Some s0 else readcb_read ctl mem ans h s0)"
      using False by (simp add: body_def hm_def h_def Let_def)
    consider "wm_high (wm_read s0) \<noteq> 0" "hm \<le> 0" | "wm_high (wm_read s0) = 0 \<or> 0 < hm" "read_suspended s0 \<noteq> {}"
      | "wm_high (wm_read s0) = 0 \<or> 0 < hm" "read_suspended s0 = {}" by linarith
    then show ?thesis
    proof cases
      case 1
      obtain s1 where "bufferevent_suspend_read ctl {BEV_SUSPEND_WM} s0 = Some s1" "calm interest (Suc k) s0 s1"
        using suspend_read_ok [OF contract steady live0] by blast
      then show ?thesis using eq 1 received_nothing calm_live by fastforce
    next
      case 2
      then have "body s0 = Some s0" using eq by auto
      then show ?thesis using live0 received_nothing [OF calm_refl [OF live0]] by blast
    next
      case 3
      have len: "evbuffer_get_length (inbuf s0) = length (buffered (inbuf s0))"
        using live_facts(7) [OF live0] by (simp add: evbuffer_get_length_def sock_buffers_def evbuffer_wf_def)
      have h0: "0 \<le> h" by (simp add: h_def get_read_max_def)
      have "length (buffered (inbuf s0)) + nat h \<le> wm_high (wm_read s0)"
        if high: "wm_high (wm_read s0) \<noteq> 0" and small: "length (buffered (inbuf s0)) < 2 ^ 63"
      proof -
        have "hm \<le> int (wm_high (wm_read s0)) - int (length (buffered (inbuf s0)))"
          using ssize_diff_le [OF small, of "wm_high (wm_read s0)"] high len by (simp add: hm_def)
        moreover have "h \<le> hm" using 3(1) high by (simp add: h_def)
        ultimately show ?thesis using h0 by linarith
      qed
      then obtain s1 bs where "readcb_read ctl mem ans h s0 = Some s1" "live interest (Suc k) s1" "sock_received (rd_readv ans) bs s0 s1"
        using readcb_read_ok [OF contract steady live0 readv 3(2) h0] by blast
      then show ?thesis using eq 3 by auto
    qed
  qed
  have "\<exists>s'. map_option snd (with_ref ctl (\<lambda>s. map_option (Pair ()) (body s)) s) = Some s' \<and> live interest k s' \<and>
      (\<exists>bs. sock_received (rd_readv ans) bs s s')"
    by (rule with_ref_cb [OF contract steady live]) (use body received_keeps in \<open>fastforce+\<close>)
  then show ?thesis unfolding bufferevent_readcb_def body_def by blast
qed

text \<open>
  The effect of the callback for writing: bytes leave the front of the output, or writing is switched off and the
  user will be told.
\<close>

definition sock_sent ::
    "('b list list \<Rightarrow> int) \<Rightarrow> nat \<Rightarrow>
     ('e, 'd, 'k, 'b, 'f, 'x) bufferevent \<Rightarrow> ('e, 'd, 'k, 'b, 'f, 'x) bufferevent \<Rightarrow> bool" where
  "sock_sent wv n s s' \<longleftrightarrow>
     same_view (s\<lparr>outbuf := outbuf s', enabled := enabled s'\<rparr>) s' \<and>
     buffered (outbuf s') = drop n (buffered (outbuf s)) \<and> n \<le> length (buffered (outbuf s)) \<and>
     (0 < n \<longrightarrow> (\<exists>vs rest. wv vs = int n \<and> n \<le> length (concat vs) \<and> concat vs @ rest = buffered (outbuf s)) \<and>
        enabled s' = enabled s \<and> write_suspended s = {} \<and>
        (writecb s \<noteq> None \<and> length (buffered (outbuf s')) \<le> wm_low (wm_write s) \<longrightarrow>
           writecb_pending s' \<and> sock_queued s')) \<and>
     (enabled s' = enabled s \<or>
        enabled s' = enabled s - {EV_WRITE} \<and> n = 0 \<and>
        (errorcb s \<noteq> None \<longrightarrow> BEV_EVENT_WRITING \<in> eventcb_pending s' \<and> sock_queued s'))"

lemma view_outbuf_same [simp]: "s\<lparr>outbuf := outbuf s, enabled := enabled s\<rparr> = s"
  by (cases s) simp

lemma sent_incref [simp]:
  "sock_sent wv n (bufferevent_incref s) s' = sock_sent wv n s s'"
  "sock_sent wv n s (s'\<lparr>refcnt := m\<rparr>) = sock_sent wv n s s'"
  by (simp_all add: sock_sent_def same_view_def bufferevent_incref_def sock_queued_def)

lemma sent_keeps:
  assumes "sock_sent wv n s s'"
  shows "user_freed s' = user_freed s" "sock_queued s \<Longrightarrow> sock_queued s'"
proof -
  have view: "same_view (s\<lparr>outbuf := outbuf s', enabled := enabled s'\<rparr>) s'"
    using assms unfolding sock_sent_def by (rule conjunct1)
  then show "user_freed s' = user_freed s" by (simp add: same_view_def)
  show "sock_queued s \<Longrightarrow> sock_queued s'" using view_queued [OF view] by (simp add: sock_queued_def)
qed

lemma sent_nothing:
  assumes "same_view s s'"
  shows "sock_sent wv 0 s s'"
proof -
  have "outbuf s' = outbuf s" "enabled s' = enabled s" using assms by (simp_all add: same_view_def)
  then show ?thesis using assms by (simp add: sock_sent_def)
qed

text \<open>From a state with the same bytes, callbacks and switches.\<close>

lemma sent_before:
  assumes "sock_sent wv n s1 s'" "same_view s s1" "write_suspended s1 = write_suspended s"
  shows "sock_sent wv n s s'"
proof -
  have "same_view (s\<lparr>outbuf := outbuf s', enabled := enabled s'\<rparr>) (s1\<lparr>outbuf := outbuf s', enabled := enabled s'\<rparr>)"
    using assms(2) by (simp add: same_view_def)
  then have "same_view (s\<lparr>outbuf := outbuf s', enabled := enabled s'\<rparr>) s'"
    using assms(1) unfolding sock_sent_def by (metis same_view_trans)
  moreover have "outbuf s1 = outbuf s" "enabled s1 = enabled s" "writecb s1 = writecb s" "errorcb s1 = errorcb s"
    "wm_write s1 = wm_write s" using assms(2) by (simp_all add: same_view_def)
  ultimately show ?thesis using assms(1,3) by (simp add: sock_sent_def)
qed

lemma writecb_error_ok:
  assumes contract: "epoll_contract ctl interest" and steady: "epoll_steady ctl interest" and live: "live interest k s"
    and what: "BEV_EVENT_WRITING \<in> what"
  shows "\<exists>s'. writecb_error ctl err what s = Some s' \<and> live interest k s' \<and> sock_sent wv 0 s s'"
proof -
  obtain s1 where s1: "bufferevent_disable ctl {EV_WRITE} s = Some (0, s1)"
    "calm interest k (s\<lparr>enabled := enabled s - {EV_WRITE}\<rparr>) s1"
    using bufferevent_disable_ok [OF contract steady live, of "{EV_WRITE}"] by blast
  define s' where "s' = bufferevent_run_eventcb err what s1"
  have calm: "calm interest k (s\<lparr>enabled := enabled s - {EV_WRITE}\<rparr>) s'"
    unfolding s'_def by (rule calm_trans [OF s1(2) run_eventcb_ok(1) [OF calm_live [OF s1(2)]]])
  have same: "errorcb s1 = errorcb s" "outbuf s' = outbuf s" "enabled s' = enabled s - {EV_WRITE}"
    using s1(2) calm by (simp_all add: calm_def same_view_def)
  have "same_view (s\<lparr>outbuf := outbuf s', enabled := enabled s'\<rparr>) s'"
    using calm same by (simp add: calm_def same_view_def)
  moreover have "errorcb s \<noteq> None \<longrightarrow> BEV_EVENT_WRITING \<in> eventcb_pending s' \<and> sock_queued s'"
    using run_eventcb_ok(2) [OF calm_live [OF s1(2)], of what err] same(1) what by (auto simp: s'_def)
  ultimately have "sock_sent wv 0 s s'" using same by (simp add: sock_sent_def)
  then show ?thesis using s1(1) calm_live [OF calm] by (simp add: writecb_error_def s'_def)
qed

lemma writecb_drained_ok:
  assumes "epoll_contract ctl interest" "epoll_steady ctl interest" "live interest k s"
  shows "\<exists>s'. writecb_drained ctl s = Some s' \<and> quiet interest k s s'"
  using on_del_ok [OF assms, of "ev_write s"] quiet_refl [OF assms(3)]
  by (auto simp: writecb_drained_def on_base'_def)

lemma writecb_done_ok:
  assumes contract: "epoll_contract ctl interest" and steady: "epoll_steady ctl interest" and live: "live interest k s"
  shows "\<exists>s'. writecb_done ctl connected r s = Some s' \<and> calm interest k s s' \<and>
    (r \<noteq> 0 \<and> writecb s \<noteq> None \<and> length (buffered (outbuf s)) \<le> wm_low (wm_write s) \<longrightarrow>
       writecb_pending s' \<and> sock_queued s')"
proof -
  obtain s1 where s1: "writecb_drained ctl s = Some s1" "quiet interest k s s1"
    using writecb_drained_ok [OF assms] by blast
  have calm1: "calm interest k s s1" by (rule quiet_calm [OF s1(2)])
  have same: "outbuf s1 = outbuf s" "writecb s1 = writecb s" "wm_write s1 = wm_write s"
    using calm1 by (simp_all add: calm_def same_view_def)
  have len: "evbuffer_get_length (outbuf s) = length (buffered (outbuf s))"
    using live_facts(7) [OF live] by (simp add: evbuffer_get_length_def sock_buffers_def evbuffer_wf_def)
  note run = run_writecb_ok [OF calm_live [OF calm1]]
  show ?thesis
    using s1(1) calm1 calm_trans [OF calm1 run(1)] run(2) same len by (simp add: writecb_done_def)
qed

lemma writecb_write_ok:
  fixes s :: "('e, 'd, 'k, 'b, 'f, 'x) bufferevent"
  assumes contract: "epoll_contract ctl interest" and steady: "epoll_steady ctl interest" and live: "live interest k s"
    and writev: "writev_contract (wr_writev ans)"
  shows "\<exists>s' n. writecb_write ctl mem ans connected s = Some s' \<and> live interest k s' \<and> sock_sent (wr_writev ans) n s s'"
proof -
  have buf: "evbuffer_wf (outbuf s)" "tight (outbuf s)" "\<not> freeze_end (outbuf s)"
    using live_facts(7) [OF live] by (simp_all add: sock_buffers_def)
  have len: "evbuffer_get_length (outbuf s) = length (buffered (outbuf s))"
    using buf(1) by (simp add: evbuffer_get_length_def evbuffer_wf_def)
  consider "write_suspended s \<noteq> {}" | "write_suspended s = {}" "buffered (outbuf s) = []"
    | "write_suspended s = {}" "buffered (outbuf s) \<noteq> []" by blast
  then show ?thesis
  proof cases
    case 1
    then have "writecb_write ctl mem ans connected s = Some s" by (simp add: writecb_write_def)
    then show ?thesis using live sent_nothing [OF same_view_refl] by blast
  next
    case 2
    obtain s' where s': "writecb_done ctl connected 0 s = Some s'" "calm interest k s s'"
      using writecb_done_ok [OF contract steady live] by blast
    have "writecb_write ctl mem ans connected s = Some s'" using 2 s'(1) len by (simp add: writecb_write_def)
    moreover have "sock_sent (wr_writev ans) 0 s s'" using s'(2) sent_nothing by (auto simp: calm_def)
    ultimately show ?thesis using calm_live [OF s'(2)] by blast
  next
    case 3
    have unfrozen: "evbuffer_wf (evbuffer_unfreeze True (outbuf s))" "\<not> freeze_start (evbuffer_unfreeze True (outbuf s))"
      using buf(1) by (simp_all add: same_switches_freeze) (simp add: evbuffer_unfreeze_def)
    obtain r b info where b: "evbuffer_write_atmost (wr_writev ans) get_write_max (evbuffer_unfreeze True (outbuf s)) =
        Some (r, b, info)" "evbuffer_wf b" "buffered b = drop (nat r) (buffered (outbuf s))"
      "r \<le> int (length (buffered (outbuf s)))" "tight b" "same_switches (evbuffer_unfreeze True (outbuf s)) b"
      "0 < r \<longrightarrow> (\<exists>vs. r = wr_writev ans vs \<and> nat r \<le> length (concat vs) \<and> (\<exists>rest. concat vs @ rest = buffered (outbuf s)))"
      using evbuffer_write_ok [OF writev unfrozen, of get_write_max] buf(2) unfolding same_switches_freeze by blast
    have fe: "\<not> freeze_end b" using b(6) buf(3) by (simp add: same_switches_def evbuffer_unfreeze_def)
    obtain s1 where s1: "bufferevent_socket_outbuf_cb ctl mem info (s\<lparr>outbuf := b\<rparr>) = Some s1"
      "calm interest k (s\<lparr>outbuf := b\<rparr>) s1"
      using outbuf_cb_ok [OF contract live_outbuf [OF live b(2,5) fe]] by blast
    have same: "outbuf s1 = b" "enabled s1 = enabled s" "writecb s1 = writecb s" "errorcb s1 = errorcb s"
      "wm_write s1 = wm_write s" using s1(2) by (simp_all add: calm_def same_view_def)
    define s2 where "s2 = s1\<lparr>outbuf := evbuffer_freeze True b\<rparr>"
    have "\<not> freeze_end (evbuffer_freeze True b)" using fe by (simp add: evbuffer_freeze_def)
    then have live2: "live interest k s2"
      unfolding s2_def using b(2,5) by (intro live_outbuf [OF calm_live [OF s1(2)]]) (simp_all add: same_switches_freeze)
    have data2: "buffered (outbuf s2) = drop (nat r) (buffered (outbuf s))" "enabled s2 = enabled s"
      "writecb s2 = writecb s" "errorcb s2 = errorcb s" "wm_write s2 = wm_write s"
      using b(3) same by (simp_all add: s2_def same_switches_freeze)
    have view2: "same_view (s\<lparr>outbuf := outbuf s2, enabled := enabled s2\<rparr>) s2"
      using s1(2) by (auto simp: s2_def calm_def same_view_def sock_queued_def)
    have eq: "writecb_write ctl mem ans connected s =
        (if r = -1
         then if EVUTIL_ERR_RW_RETRIABLE (wr_errno ans) then writecb_drained ctl s2
              else writecb_error ctl (Some (wr_errno ans)) {BEV_EVENT_WRITING, BEV_EVENT_ERROR} s2
         else if r = 0 then writecb_error ctl (Some (wr_errno ans)) {BEV_EVENT_WRITING, BEV_EVENT_EOF} s2
         else if r < 0 then writecb_error ctl (Some (wr_errno ans)) {BEV_EVENT_WRITING} s2
         else writecb_done ctl connected r s2)"
      using 3 len b(1) s1(1) same(1) by (simp add: writecb_write_def s2_def Let_def)
    have unsent: "sock_sent (wr_writev ans) 0 s s'" if "sock_sent (wr_writev ans) 0 s2 s'" "r \<le> 0" for s'
    proof -
      have "same_view (s\<lparr>outbuf := outbuf s', enabled := enabled s'\<rparr>) (s2\<lparr>outbuf := outbuf s', enabled := enabled s'\<rparr>)"
        using view2 by (simp add: same_view_def)
      then have "same_view (s\<lparr>outbuf := outbuf s', enabled := enabled s'\<rparr>) s'"
        using that(1) unfolding sock_sent_def by (metis same_view_trans)
      then show ?thesis using that data2 by (simp add: sock_sent_def)
    qed
    have error: "\<exists>s'. writecb_error ctl err what s2 = Some s' \<and> live interest k s' \<and> sock_sent (wr_writev ans) 0 s s'"
      if "BEV_EVENT_WRITING \<in> what" "r \<le> 0" for err what
    proof -
      note w = that
      obtain s' where s': "writecb_error ctl err what s2 = Some s'" "live interest k s'" "sock_sent (wr_writev ans) 0 s2 s'"
        using writecb_error_ok [OF contract steady live2 w(1), of err] by blast
      then show ?thesis using unsent [OF s'(3) w(2)] by blast
    qed
    show ?thesis
    proof (cases "0 < r")
      case True
      obtain s' where s': "writecb_done ctl connected r s2 = Some s'" "calm interest k s2 s'"
        "r \<noteq> 0 \<and> writecb s2 \<noteq> None \<and> length (buffered (outbuf s2)) \<le> wm_low (wm_write s2) \<longrightarrow>
           writecb_pending s' \<and> sock_queued s'"
        using writecb_done_ok [OF contract steady live2] by blast
      have sv: "outbuf s' = outbuf s2" "enabled s' = enabled s" using s'(2) data2 by (simp_all add: calm_def same_view_def)
      have "same_view (s\<lparr>outbuf := outbuf s', enabled := enabled s'\<rparr>) s'"
        using same_view_trans [OF view2] s'(2) sv data2(2) by (simp add: calm_def)
      moreover have "\<exists>vs rest. wr_writev ans vs = int (nat r) \<and> nat r \<le> length (concat vs) \<and>
          concat vs @ rest = buffered (outbuf s)"
        using b(7) True by fastforce
      ultimately have "sock_sent (wr_writev ans) (nat r) s s'"
        using True s'(3) sv data2 b(4) 3(1) by (simp add: sock_sent_def)
      then show ?thesis using eq True s'(1) calm_live [OF s'(2)] by auto
    next
      case False
      obtain s' where s': "writecb_drained ctl s2 = Some s'" "quiet interest k s2 s'"
        using writecb_drained_ok [OF contract steady live2] by blast
      have "sock_sent (wr_writev ans) 0 s s'" using unsent sent_nothing False s'(2) by (auto simp: quiet_def)
      then have retry: "\<exists>s'. writecb_drained ctl s2 = Some s' \<and> live interest k s' \<and> sock_sent (wr_writev ans) 0 s s'"
        using s' by (auto simp: quiet_def)
      show ?thesis
        using eq False retry error [of "{BEV_EVENT_WRITING, BEV_EVENT_ERROR}" "Some (wr_errno ans)"]
          error [of "{BEV_EVENT_WRITING, BEV_EVENT_EOF}" "Some (wr_errno ans)"]
          error [of "{BEV_EVENT_WRITING}" "Some (wr_errno ans)"]
        by (cases "r = -1"; cases "r = 0"; cases "EVUTIL_ERR_RW_RETRIABLE (wr_errno ans)") auto
    qed
  qed
qed

lemma run_eventcb_suspended [simp]: "write_suspended (bufferevent_run_eventcb err what s) = write_suspended s"
  by (simp add: bufferevent_run_eventcb_def)

lemma del_ok:
  assumes "epoll_contract ctl interest" "epoll_steady ctl interest" "live interest k s"
    and "e = ev_read s \<or> e = ev_write s"
  shows "\<exists>s'. on_base' (event_del_internal ctl e) s = Some s' \<and> quiet interest k s s' \<and> event_off e (ev_base s') \<and>
    (\<forall>x. x \<noteq> e \<longrightarrow> evs (ev_base s') x = evs (ev_base s) x)"
  using on_del_ok [OF assms] by (auto simp: on_base'_def)

text \<open>Both events are taken off.\<close>

lemma del_both_ok:
  assumes contract: "epoll_contract ctl interest" and steady: "epoll_steady ctl interest" and live: "live interest k s"
    and e: "{e, e'} = {ev_read s, ev_write s}" "e \<noteq> e'"
  shows "\<exists>s1 s2. on_base' (event_del_internal ctl e) s = Some s1 \<and> on_base' (event_del_internal ctl e') s1 = Some s2 \<and>
    quiet interest k s s1 \<and> quiet interest k s s2 \<and>
    event_off (ev_read s) (ev_base s2) \<and> event_off (ev_write s) (ev_base s2)"
proof -
  have e1: "e = ev_read s \<or> e = ev_write s" "e' = ev_read s \<or> e' = ev_write s" using e(1) by auto
  obtain s1 where s1: "on_base' (event_del_internal ctl e) s = Some s1" "quiet interest k s s1" "event_off e (ev_base s1)"
    using del_ok [OF contract steady live e1(1)] by blast
  have live1: "live interest k s1" "ev_read s1 = ev_read s" "ev_write s1 = ev_write s"
    using s1(2) by (simp_all add: quiet_def same_view_def)
  obtain s2 where s2: "on_base' (event_del_internal ctl e') s1 = Some s2" "quiet interest k s1 s2"
    "event_off e' (ev_base s2)" "\<forall>x. x \<noteq> e' \<longrightarrow> evs (ev_base s2) x = evs (ev_base s1) x"
    using del_ok [OF contract steady live1(1), of e'] e1(2) live1(2,3) by metis
  have "event_off e (ev_base s2)" using s1(3) s2(4) e(2) by (simp add: event_off_def)
  then have "event_off (ev_read s) (ev_base s2)" "event_off (ev_write s) (ev_base s2)" using s2(3) e by auto
  then show ?thesis using s1(1,2) s2(1) quiet_trans [OF s1(2) s2(2)] by blast
qed

lemma bufferevent_writecb_ok:
  fixes s :: "('e, 'd, 'k, 'b, 'f, 'x) bufferevent"
  assumes contract: "epoll_contract ctl interest" and steady: "epoll_steady ctl interest" and live: "live interest k s"
    and writev: "writev_contract (wr_writev ans)"
  shows "\<exists>s' n. bufferevent_writecb ctl mem ans event s = Some s' \<and> live interest k s' \<and> sock_sent (wr_writev ans) n s s'"
proof -
  define body where "body = (\<lambda>s :: ('e, 'd, 'k, 'b, 'f, 'x) bufferevent.
       if event = {EV_TIMEOUT}
        then writecb_error ctl (Some (wr_errno ans)) {BEV_EVENT_WRITING, BEV_EVENT_TIMEOUT} s
        else if connecting s
        then
          let c = evutil_socket_finished_connecting (so_error ans);
              err = finished_errno ans;
              c = (if connection_refused s then -1 else c);
              s = s\<lparr>connection_refused := False\<rparr> in
          if c = 0 then Some s
          else
            let s = s\<lparr>connecting := False\<rparr> in
            if c < 0
            then do {
              s \<leftarrow> on_base' (event_del_internal ctl (ev_write s)) s;
              s \<leftarrow> on_base' (event_del_internal ctl (ev_read s)) s;
              Some (bufferevent_run_eventcb err {BEV_EVENT_ERROR} s)
            }
            else
              let s = bufferevent_run_eventcb err {BEV_EVENT_CONNECTED} s in
              if EV_WRITE \<notin> enabled s \<or> write_suspended s \<noteq> {}
              then on_base' (event_del_internal ctl (ev_write s)) s
              else writecb_write ctl mem ans True s
        else writecb_write ctl mem ans False s)"
  have body: "\<exists>s1 n. body s0 = Some s1 \<and> live interest (Suc k) s1 \<and> sock_sent (wr_writev ans) n s0 s1"
    if live0: "live interest (Suc k) s0" for s0
  proof -
    have calm_result: "\<exists>s1 n. body s0 = Some s1 \<and> live interest (Suc k) s1 \<and> sock_sent (wr_writev ans) n s0 s1"
      if "body s0 = Some s1" "calm interest (Suc k) s0 s1" for s1
      using that sent_nothing unfolding calm_def by blast
    define c where "c = (if connection_refused s0 then -1 else evutil_socket_finished_connecting (so_error ans))"
    define err where "err = finished_errno ans"
    define s1 where "s1 = s0\<lparr>connection_refused := False\<rparr>"
    define s2 where "s2 = s1\<lparr>connecting := False\<rparr>"
    have calm1: "calm interest (Suc k) s0 s1"
      using live_pending(6) [OF live0] by (simp add: s1_def calm_def same_view_def)
    have calm2: "calm interest (Suc k) s0 s2"
      using calm_trans [OF calm1, of s2] live_pending(5) [OF calm_live [OF calm1]]
      by (simp add: s2_def calm_def same_view_def)
    define s3 where "s3 = bufferevent_run_eventcb err {BEV_EVENT_CONNECTED} s2"
    have calm3: "calm interest (Suc k) s0 s3"
      unfolding s3_def by (rule calm_trans [OF calm2 run_eventcb_ok(1) [OF calm_live [OF calm2]]])
    have sus3: "write_suspended s3 = write_suspended s0" by (simp add: s3_def s2_def s1_def)
    consider "event = {EV_TIMEOUT}" | "event \<noteq> {EV_TIMEOUT}" "\<not> connecting s0"
      | "event \<noteq> {EV_TIMEOUT}" "connecting s0" "c = 0" | "event \<noteq> {EV_TIMEOUT}" "connecting s0" "c < 0"
      | "event \<noteq> {EV_TIMEOUT}" "connecting s0" "c > 0" by linarith
    then show ?thesis
    proof cases
      case 1
      then have "body s0 = writecb_error ctl (Some (wr_errno ans)) {BEV_EVENT_WRITING, BEV_EVENT_TIMEOUT} s0"
        by (simp add: body_def)
      then show ?thesis
        using writecb_error_ok [OF contract steady live0, of "{BEV_EVENT_WRITING, BEV_EVENT_TIMEOUT}" "Some (wr_errno ans)",
            where wv = "wr_writev ans"]
        by auto
    next
      case 2
      then have "body s0 = writecb_write ctl mem ans False s0" by (simp add: body_def)
      then show ?thesis using writecb_write_ok [OF contract steady live0 writev, of mem False] by simp
    next
      case 3
      then have "body s0 = Some s1" by (simp add: body_def c_def s1_def Let_def)
      then show ?thesis using calm_result calm1 by blast
    next
      case 4
      have ne: "{ev_write s2, ev_read s2} = {ev_read s2, ev_write s2}" "ev_write s2 \<noteq> ev_read s2"
        using live_facts(3) [OF calm_live [OF calm2]] by auto
      obtain s4 s5 where s5: "on_base' (event_del_internal ctl (ev_write s2)) s2 = Some s4"
        "on_base' (event_del_internal ctl (ev_read s2)) s4 = Some s5" "quiet interest (Suc k) s2 s4" "quiet interest (Suc k) s2 s5"
        using del_both_ok [OF contract steady calm_live [OF calm2] ne] by blast
      have calm5: "calm interest (Suc k) s0 s5" by (rule calm_trans [OF calm2 quiet_calm [OF s5(4)]])
      have "ev_read s4 = ev_read s2" using s5(3) by (simp add: quiet_def same_view_def)
      then have "body s0 = Some (bufferevent_run_eventcb err {BEV_EVENT_ERROR} s5)"
        using 4 s5(1,2) by (simp add: body_def c_def err_def s1_def [symmetric] s2_def [symmetric] Let_def)
      then show ?thesis
        using calm_result calm_trans [OF calm5 run_eventcb_ok(1) [OF calm_live [OF calm5]]] by blast
    next
      case 5
      then have eq: "body s0 = (if EV_WRITE \<notin> enabled s3 \<or> write_suspended s3 \<noteq> {}
          then on_base' (event_del_internal ctl (ev_write s3)) s3 else writecb_write ctl mem ans True s3)"
        by (simp add: body_def c_def err_def s1_def [symmetric] s2_def [symmetric] s3_def Let_def)
      obtain s4 where s4: "on_base' (event_del_internal ctl (ev_write s3)) s3 = Some s4" "quiet interest (Suc k) s3 s4"
        using del_ok [OF contract steady calm_live [OF calm3], of "ev_write s3"] by blast
      obtain s5 n where s5: "writecb_write ctl mem ans True s3 = Some s5" "live interest (Suc k) s5" "sock_sent (wr_writev ans) n s3 s5"
        using writecb_write_ok [OF contract steady calm_live [OF calm3] writev] by blast
      have "sock_sent (wr_writev ans) n s0 s5"
        using sent_before [OF s5(3) _ sus3] calm3 by (simp add: calm_def)
      then show ?thesis
        using eq s4(1) s5(1,2) calm_result calm_trans [OF calm3 quiet_calm [OF s4(2)]]
        by (cases "EV_WRITE \<notin> enabled s3 \<or> write_suspended s3 \<noteq> {}") auto
    qed
  qed
  have "\<exists>s'. map_option snd (with_ref ctl (\<lambda>s. map_option (Pair ()) (body s)) s) = Some s' \<and> live interest k s' \<and>
      (\<exists>n. sock_sent (wr_writev ans) n s s')"
    by (rule with_ref_cb [OF contract steady live]) (use body sent_keeps in \<open>fastforce+\<close>)
  then show ?thesis unfolding bufferevent_writecb_def body_def by blast
qed

section \<open>Connecting\<close>

lemma assign_two_ok:
  fixes fd :: int and b :: "('e, 'd, 'k) event_base"
  assumes inv: "loop_inv interest b" and ne: "r \<noteq> w" and off: "event_off r b" "event_off w b"
  defines "b2 \<equiv> event_assign w fd {EV_WRITE, EV_PERSIST} (event_assign r fd {EV_READ, EV_PERSIST} b)"
  shows "loop_inv interest b2" "base_frame b b2" "\<forall>x. x \<noteq> r \<longrightarrow> x \<noteq> w \<longrightarrow> evs b2 x = evs b x"
    "flags b2 r = {EVLIST_INIT}" "ev_events (evs b2 r) = {EV_READ, EV_PERSIST}" "ev_fd (evs b2 r) = fd"
    "flags b2 w = {EVLIST_INIT}" "ev_events (evs b2 w) = {EV_WRITE, EV_PERSIST}"
proof -
  define b1 where "b1 = event_assign r fd {EV_READ, EV_PERSIST} b"
  have b2: "b2 = event_assign w fd {EV_WRITE, EV_PERSIST} b1" by (simp add: b2_def b1_def)
  have wf: "base_wf interest b" using inv by (simp add: loop_inv_def)
  have times: "times_ev (evs (event_assign e fd what b) x)" if "\<And>x. times_ev (evs b x)"
    "\<And>x. x \<noteq> e \<Longrightarrow> evs (event_assign e fd what b) x = evs b x" for e what x and b :: "('e, 'd, 'k) event_base"
    using that by (cases "x = e") (simp_all add: event_assign_def Let_def times_ev_def)
  note a1 = event_assign_ok [OF wf off(1) [unfolded event_off_def], where fd = fd and events = "{EV_READ, EV_PERSIST}",
      folded b1_def]
  have inv1: "loop_inv interest b1"
    by (rule loop_invI [OF inv a1(1,4)]) (use times [OF _ a1(2) [unfolded b1_def]] inv in \<open>simp add: b1_def loop_inv_def\<close>)
  have off1: "flags b1 w \<inter> {EVLIST_TIMEOUT, EVLIST_INSERTED, EVLIST_ACTIVE} = {}"
    using off(2) a1(2) ne by (simp add: event_off_def)
  note a2 = event_assign_ok [OF a1(1) off1, where fd = fd and events = "{EV_WRITE, EV_PERSIST}", folded b2]
  show "loop_inv interest b2"
    by (rule loop_invI [OF inv1 a2(1,4)]) (use times [OF _ a2(2) [unfolded b2]] inv1 in \<open>simp add: b2 loop_inv_def\<close>)
  show "flags b2 r = {EVLIST_INIT}" "ev_events (evs b2 r) = {EV_READ, EV_PERSIST}" "ev_fd (evs b2 r) = fd"
    using a2(2) a1(3) ne by (simp_all add: b1_def event_assign_def Let_def)
  show "flags b2 w = {EVLIST_INIT}" "ev_events (evs b2 w) = {EV_WRITE, EV_PERSIST}"
    using a2(3) by (simp_all add: b2 event_assign_def Let_def)
  show "base_frame b b2" by (rule base_frame_trans [OF a1(4) a2(4)])
  show "\<forall>x. x \<noteq> r \<longrightarrow> x \<noteq> w \<longrightarrow> evs b2 x = evs b x" using a1(2) a2(2) by simp
qed

lemma assign_both_ok:
  fixes s :: "('e, 'd, 'k, 'b, 'f, 'x) bufferevent" and fd :: int
  assumes live: "live interest k s" and off: "event_off (ev_read s) (ev_base s)" "event_off (ev_write s) (ev_base s)"
  defines "b2 \<equiv> event_assign (ev_write s) fd {EV_WRITE, EV_PERSIST}
                  (event_assign (ev_read s) fd {EV_READ, EV_PERSIST} (ev_base s))"
  shows "quiet interest k s (s\<lparr>ev_base := b2\<rparr>)" "bufferevent_getfd (s\<lparr>ev_base := b2\<rparr>) = fd"
    "event_off (ev_read s) b2" "event_off (ev_write s) b2"
proof -
  note a = assign_two_ok [OF live_facts(2,3) [OF live] off, where fd = fd, folded b2_def]
  have "base_step interest s b2"
    using a by (simp add: base_step_def sock_events_def event_off_def)
  then show "quiet interest k s (s\<lparr>ev_base := b2\<rparr>)" using base_step_live [OF _ live] by (simp add: quiet_def)
  show "bufferevent_getfd (s\<lparr>ev_base := b2\<rparr>) = fd" using a(6) by (simp add: bufferevent_getfd_def)
  show "event_off (ev_read s) b2" "event_off (ev_write s) b2" using a(4,7) by (simp_all add: event_off_def)
qed

lemma view_enabled_same [simp]: "s\<lparr>enabled := enabled s\<rparr> = s"
  by (cases s) simp

lemma setfd_ok:
  assumes contract: "epoll_contract ctl interest" and steady: "epoll_steady ctl interest" and live: "live interest k s"
  shows "\<exists>s'. be_socket_setfd ctl mem fd s = Some s' \<and> calm interest k s s'"
proof -
  obtain s1 s2 where s2: "on_base' (event_del_internal ctl (ev_read s)) s = Some s1"
    "on_base' (event_del_internal ctl (ev_write s)) s1 = Some s2" "quiet interest k s s1" "quiet interest k s s2"
    "event_off (ev_read s) (ev_base s2)" "event_off (ev_write s) (ev_base s2)"
    using del_both_ok [OF contract steady live refl live_facts(3) [OF live]] by blast
  have same: "ev_write s1 = ev_write s" "ev_read s2 = ev_read s" "ev_write s2 = ev_write s" "live interest k s2"
    using s2(3,4) by (simp_all add: quiet_def same_view_def)
  define s3 where "s3 = s2\<lparr>ev_base := event_assign (ev_write s2) fd {EV_WRITE, EV_PERSIST}
    (event_assign (ev_read s2) fd {EV_READ, EV_PERSIST} (ev_base s2))\<rparr>"
  have quiet3: "quiet interest k s2 s3"
    unfolding s3_def by (rule assign_both_ok(1)) (use same s2(5,6) in simp_all)
  have calm3: "calm interest k s s3" by (rule quiet_calm [OF quiet_trans [OF s2(4) quiet3]])
  obtain r s4 where s4: "bufferevent_enable ctl mem (enabled s3) s3 = Some (r, s4)"
    "calm interest k (s3\<lparr>enabled := enabled s3 \<union> enabled s3\<rparr>) s4"
    using bufferevent_enable_ok [OF contract steady calm_live [OF calm3], of mem "enabled s3"] by blast
  have eq: "be_socket_setfd ctl mem fd s = (if fd \<ge> 0 then map_option snd (bufferevent_enable ctl mem (enabled s3) s3) else Some s3)"
    using s2(1,2) same by (simp add: be_socket_setfd_def s3_def Let_def)
  have calm4: "calm interest k s s4" using s4(2) by (intro calm_trans [OF calm3]) simp
  show ?thesis
  proof (cases "fd \<ge> 0")
    case True
    then have "be_socket_setfd ctl mem fd s = Some s4" using eq s4(1) by simp
    then show ?thesis using calm4 by blast
  next
    case False
    then have "be_socket_setfd ctl mem fd s = Some s3" using eq by simp
    then show ?thesis using calm3 by blast
  qed
qed

lemma activate_write_ok:
  fixes s :: "('e, 'd, 'k, 'b, 'f, 'x) bufferevent"
  assumes live: "live interest k s"
  shows "\<exists>b. event_active_nolock (ev_write s) {EV_WRITE} (ev_base s) = Some b \<and> calm interest k s (s\<lparr>ev_base := b\<rparr>)"
proof -
  have inv: "loop_inv interest (ev_base s)" and ne: "ev_read s \<noteq> ev_write s" and ev: "sock_events s"
    using live_facts [OF live] by simp_all
  have wf: "base_wf interest (ev_base s)" and times: "\<And>x. times_ev (evs (ev_base s) x)"
    using inv by (simp_all add: loop_inv_def)
  have init: "EVLIST_INIT \<in> flags (ev_base s) (ev_write s)" using ev by (simp add: sock_events_def Let_def)
  obtain b where b: "event_active_nolock (ev_write s) {EV_WRITE} (ev_base s) = Some b" "base_wf interest b"
    "event_activated (ev_write s) {EV_WRITE} (ev_base s) b"
    using event_active_ok [OF wf init] by blast
  have frame: "base_frame (ev_base s) b" using b(3) by (simp add: event_activated_def)
  have "loop_inv interest b"
    by (rule loop_invI [OF inv b(2) frame]) (rule event_activated_times [OF b(3) init times])
  moreover have evs: "evs b = (evs (ev_base s))(ev_write s := (evs (ev_base s) (ev_write s))
       \<lparr>ev_flags := insert EVLIST_ACTIVE (flags (ev_base s) (ev_write s)),
        ev_res := (if EVLIST_ACTIVE \<in> flags (ev_base s) (ev_write s)
                   then ev_res (evs (ev_base s) (ev_write s)) \<union> {EV_WRITE} else {EV_WRITE})\<rparr>)"
    using b(3) by (simp only: event_activated_def)
  have "sock_events (s\<lparr>ev_base := b\<rparr>)" using ev ne by (simp add: sock_events_def event_off_def Let_def evs)
  moreover have "\<forall>x. x \<noteq> ev_read s \<longrightarrow> x \<noteq> ev_write s \<longrightarrow> evs b x = evs (ev_base s) x" by (simp add: evs)
  ultimately have "base_step interest s b" using frame unfolding base_step_def by blast
  then show ?thesis using b(1) base_step_live [OF _ live] by (auto simp: calm_def)
qed

lemma connect_started_ok:
  assumes contract: "epoll_contract ctl interest" and steady: "epoll_steady ctl interest" and live: "live interest k s"
  shows "\<exists>x s'. connect_started ctl mem r fd s = Some (x, s') \<and> calm interest k s s'"
proof -
  obtain s1 where s1: "be_socket_setfd ctl mem fd s = Some s1" "calm interest k s s1"
    using setfd_ok [OF assms] by blast
  show ?thesis
  proof (cases "r = 0")
    case True
    obtain e s2 where s2: "be_socket_enable ctl mem {EV_WRITE} s1 = Some (e, s2)" "quiet interest k s1 s2"
      using enable_ok [OF contract calm_live [OF s1(2)], of "{EV_WRITE}" mem] by auto
    have calm2: "calm interest k s s2" by (rule calm_trans [OF s1(2) quiet_calm [OF s2(2)]])
    have "calm interest k s2 (s2\<lparr>connecting := True\<rparr>)"
      using live_pending(5) [OF calm_live [OF calm2]] by (simp add: calm_def view_pending)
    then show ?thesis using True s1(1) s2(1) calm2 calm_trans [OF calm2] by (simp add: connect_started_def)
  next
    case False
    define s2 where "s2 = (if r = 1 then s1 else s1\<lparr>connection_refused := True\<rparr>)\<lparr>connecting := True\<rparr>"
    have refused: "calm interest k s1 (if r = 1 then s1 else s1\<lparr>connection_refused := True\<rparr>)"
      using live_pending(6) [OF calm_live [OF s1(2)]] calm_live [OF s1(2)] by (simp add: calm_def view_pending)
    from calm_trans [OF this, of s2] have calm2: "calm interest k s1 s2"
      using live_pending(5) [OF calm_live [OF refused]] by (simp add: s2_def calm_def view_pending)
    obtain b where b: "event_active_nolock (ev_write s2) {EV_WRITE} (ev_base s2) = Some b" "calm interest k s2 (s2\<lparr>ev_base := b\<rparr>)"
      using activate_write_ok [OF calm_live [OF calm2]] by blast
    have ids: "ev_write s2 = ev_write s1" "ev_base s2 = ev_base s1" by (simp_all add: s2_def)
    have "connect_started ctl mem r fd s = Some (0, s2\<lparr>ev_base := b\<rparr>)"
      using False s1(1) b(1) ids by (simp add: connect_started_def on_base'_def on_base_def s2_def Let_def)
    then show ?thesis using calm_trans [OF s1(2) calm_trans [OF calm2 b(2)]] by blast
  qed
qed

text \<open>Whatever \<^verbatim>\<open>connect\<close> does, the socket stays in order; at most a descriptor made for it is closed again.\<close>

lemma socket_connect_ok:
  fixes s :: "('e, 'd, 'k, 'b, 'f, 'x) bufferevent"
  assumes contract: "epoll_contract ctl interest" and steady: "epoll_steady ctl interest" and live: "live interest k s"
  shows "\<exists>r s'. bufferevent_socket_connect ctl mem cn err sa s = Some (r, s') \<and>
    calm interest k (s\<lparr>closed_fds := closed_fds s'\<rparr>) s'"
proof -
  let ?Q = "\<lambda>(r :: int) s1. same_view (s\<lparr>closed_fds := closed_fds s1\<rparr>) s1"
  have "\<exists>r s1. bufferevent_socket_connect ctl mem cn err sa s = Some (r, s1\<lparr>refcnt := refcnt s1 - 1\<rparr>) \<and>
    live interest k (s1\<lparr>refcnt := refcnt s1 - 1\<rparr>) \<and> ?Q r s1"
    unfolding bufferevent_socket_connect_def
  proof (rule with_ref_ok [OF contract steady live, where Q = ?Q])
    assume live0: "live interest (Suc k) (bufferevent_incref s)"
    define s0 where "s0 = bufferevent_incref s"
    define ownfd where "ownfd \<longleftrightarrow> bufferevent_getfd s0 < 0"
    define fd where "fd = (if ownfd then cn_socket cn else bufferevent_getfd s0)"
    obtain r fd' cl where c: "(if sa then evutil_socket_connect cn fd else (0, fd, [])) = (r, fd', cl)"
      by (metis prod_cases3)
    have live0': "live interest (Suc k) s0" using live0 by (simp add: s0_def)
    have result: "\<exists>r s'. Some (r0, s1) = Some (r, s') \<and> live interest (Suc k) s' \<and> ?Q r s' \<and>
        user_freed s' = user_freed s \<and> (sock_queued s \<longrightarrow> sock_queued s')"
      if "live interest (Suc k) s1" "same_view (s0\<lparr>closed_fds := closed_fds s1\<rparr>) s1" for r0 :: int and s1
    proof -
      have "?Q r0 s1" using that(2) by (simp add: s0_def same_view_def bufferevent_incref_def)
      then show ?thesis using that(1) view_queued by (fastforce simp: same_view_def)
    qed
    have plain: "same_view (s0\<lparr>closed_fds := closed_fds s1\<rparr>) s1" if "calm interest k' s0 s1" for k' s1
      using that by (simp add: calm_def same_view_def)
    define s1 where "s1 = bufferevent_run_eventcb err {BEV_EVENT_ERROR} s0"
    have calm1: "calm interest (Suc k) s0 s1" unfolding s1_def by (rule run_eventcb_ok(1) [OF live0'])
    define s2 where "s2 = (if ownfd then s1\<lparr>closed_fds := closed_fds s1 @ [fd']\<rparr> else s1)"
    have s2: "live interest (Suc k) s2" "same_view (s0\<lparr>closed_fds := closed_fds s2\<rparr>) s2"
      using calm_live [OF calm1] live_pending(9) [OF calm_live [OF calm1]] calm1
      by (simp_all add: s2_def calm_def same_view_def)
    obtain x s3 where s3: "connect_started ctl mem r fd' s0 = Some (x, s3)" "calm interest (Suc k) s0 s3"
      using connect_started_ok [OF contract steady live0'] by blast
    have eq: "(let fd = bufferevent_getfd s0; ownfd = (fd < 0) in
       if ownfd \<and> (\<not> sa \<or> cn_socket cn < 0 \<or> cn_nonblock cn < 0) then Some (-1, s0)
       else
         let fd = (if ownfd then cn_socket cn else fd) in
         case (if sa then evutil_socket_connect cn fd else (0, fd, [])) of
           (r, fd, closed) \<Rightarrow>
             if r < 0
             then
               let s = bufferevent_run_eventcb err {BEV_EVENT_ERROR} s0 in
               Some (-1, if ownfd then s\<lparr>closed_fds := closed_fds s @ [fd]\<rparr> else s)
             else connect_started ctl mem r fd s0) =
        (if ownfd \<and> (\<not> sa \<or> cn_socket cn < 0 \<or> cn_nonblock cn < 0) then Some (-1, s0)
         else if r < 0 then Some (-1, s2) else Some (x, s3))"
      unfolding Let_def ownfd_def [symmetric] fd_def [symmetric] c prod.case s1_def [symmetric] s2_def [symmetric] s3(1)
      by (rule refl)
    show "\<exists>r s'. (let fd = bufferevent_getfd (bufferevent_incref s); ownfd = (fd < 0) in
       if ownfd \<and> (\<not> sa \<or> cn_socket cn < 0 \<or> cn_nonblock cn < 0) then Some (-1, bufferevent_incref s)
       else
         let fd = (if ownfd then cn_socket cn else fd) in
         case (if sa then evutil_socket_connect cn fd else (0, fd, [])) of
           (r, fd, closed) \<Rightarrow>
             if r < 0
             then
               let s = bufferevent_run_eventcb err {BEV_EVENT_ERROR} (bufferevent_incref s) in
               Some (-1, if ownfd then s\<lparr>closed_fds := closed_fds s @ [fd]\<rparr> else s)
             else connect_started ctl mem r fd (bufferevent_incref s)) = Some (r, s') \<and>
          live interest (Suc k) s' \<and> ?Q r s' \<and> user_freed s' = user_freed s \<and> (sock_queued s \<longrightarrow> sock_queued s')"
      unfolding s0_def [symmetric] eq
      using result [OF live0' plain [OF calm_refl [OF live0']], of "-1"] result [OF s2, of "-1"]
        result [OF calm_live [OF s3(2)] plain [OF s3(2)], of x]
      by (simp split: if_splits)
  qed
  then show ?thesis unfolding calm_def by auto
qed

end
