(* ===== verification/BevLife.thy ===== *)
theory BevLife
  imports Bufferevent
begin

text \<open>
  The life of a buffered socket of libevent: what may happen to it, from \<^verbatim>\<open>bufferevent_socket_new\<close> on, and that
  its memory is given back exactly when the user has freed it and no deferred callback is on the way.

  The steps are those of the event loop (one of the two events of the socket is active, or its deferred callback
  is the first of the queue), the calls of the user, and everything else the program does with the event base.
  The user keeps to the rules of the interface: no call after \<^verbatim>\<open>bufferevent_free\<close>, times with microseconds below
  a million, and not more than \<open>2 ^ 61\<close> bytes at a time.
\<close>

section \<open>What may happen to a socket\<close>

text \<open>The rest of the program does not touch the events of the socket, except that the loop may activate them.\<close>

definition elsewhere ::
    "('k \<Rightarrow> int \<rightharpoonup> epoll_ev set) \<Rightarrow> ('e, 'd, 'k, 'b, 'f, 'x) bufferevent \<Rightarrow> ('e, 'd, 'k) event_base \<Rightarrow> bool" where
  "elsewhere interest s b \<longleftrightarrow> loop_inv interest b \<and> dcb_queued b (deferred s) = dcb_queued (ev_base s) (deferred s) \<and>
     (\<forall>e \<in> {ev_read s, ev_write s}.
        ev_fd (evs b e) = ev_fd (evs (ev_base s) e) \<and> ev_events (evs b e) = ev_events (evs (ev_base s) e) \<and>
        (EVLIST_INIT \<in> flags (ev_base s) e \<longrightarrow> EVLIST_INIT \<in> flags b e) \<and>
        (event_off e (ev_base s) \<longrightarrow> event_off e b))"

definition call_ok ::
    "('k \<Rightarrow> int \<rightharpoonup> epoll_ev set) \<Rightarrow> ('e, 'd, 'k, 'b, 'f, 'x) bev_call \<Rightarrow>
     ('e, 'd, 'k, 'b, 'f, 'x) bufferevent \<Rightarrow> bool" where
  "call_ok interest c s \<longleftrightarrow>
     (case c of
        Bev_elsewhere b \<Rightarrow> elsewhere interest s b
      | Bev_write mem alloc alloc' data \<Rightarrow> \<not> user_freed s \<and> length data + EVBUFFER_CHAIN_SIZE \<le> 2 ^ 62
      | Bev_read mem n \<Rightarrow> \<not> user_freed s \<and> n < 2 ^ 31
      | Bev_setwatermark mem alloc events low high \<Rightarrow> \<not> user_freed s \<and> (alloc \<or> read_watermarks_cb s \<noteq> None)
      | Bev_set_timeouts mem tr tw \<Rightarrow> \<not> user_freed s \<and> pred_option normal tr \<and> pred_option normal tw
      | _ \<Rightarrow> \<not> user_freed s)"

fun calls_ok ::
    "'k epoll_ctl \<Rightarrow> ('k \<Rightarrow> int \<rightharpoonup> epoll_ev set) \<Rightarrow> ('e, 'd, 'k, 'b, 'f, 'x) bev_call list \<Rightarrow>
     ('e, 'd, 'k, 'b, 'f, 'x) bufferevent \<Rightarrow> bool" where
  "calls_ok ctl interest [] s \<longleftrightarrow> True"
| "calls_ok ctl interest (c # cs) s \<longleftrightarrow> call_ok interest c s \<and>
     (case bev_call ctl c s of None \<Rightarrow> True | Some s' \<Rightarrow> calls_ok ctl interest cs s')"

text \<open>The callbacks of the user keep to the rules whenever they are called.\<close>

definition user_ok ::
    "'k epoll_ctl \<Rightarrow> ('k \<Rightarrow> int \<rightharpoonup> epoll_ev set) \<Rightarrow> ('e, 'd, 'k, 'b, 'f, 'x) user \<Rightarrow> bool" where
  "user_ok ctl interest user \<longleftrightarrow>
     (\<forall>cb s. live interest 1 s \<longrightarrow> \<not> user_freed s \<longrightarrow> calls_ok ctl interest (user cb s) s)"

text \<open>A step; its result is \<open>None\<close> when the program crashes in it.\<close>

inductive sock_step ::
    "'k epoll_ctl \<Rightarrow> ('k \<Rightarrow> int \<rightharpoonup> epoll_ev set) \<Rightarrow> ('e, 'd, 'k, 'b, 'f, 'x) bufferevent \<Rightarrow>
     ('e, 'd, 'k, 'b, 'f, 'x) bufferevent option \<Rightarrow> bool"
  for ctl interest where
  readable: "sock_step ctl interest s (sock_readable ctl mem k s)"
    if "EVLIST_ACTIVE \<in> flags (ev_base s) (ev_read s)" "readv_contract (rd_readv k)"
| writable: "sock_step ctl interest s (sock_writable ctl mem k s)"
    if "EVLIST_ACTIVE \<in> flags (ev_base s) (ev_write s)" "writev_contract (wr_writev k)"
| deferred_callbacks: "sock_step ctl interest s (sock_deferred ctl user s)"
    if "defer_queue (ev_base s) = deferred s # q" "user_ok ctl interest user"
| calls: "sock_step ctl interest s (bev_call ctl c s)"
    if "call_ok interest c s"

inductive sock_reach ::
    "'k epoll_ctl \<Rightarrow> ('k \<Rightarrow> int \<rightharpoonup> epoll_ev set) \<Rightarrow> ('e, 'd, 'k, 'b, 'f, 'x) bufferevent option \<Rightarrow> bool"
  for ctl interest where
  made: "sock_reach ctl interest (Some s)"
    if "bufferevent_socket_new mem fd r w d b = Some s" "loop_inv interest b" "r \<noteq> w"
      "event_off r b" "event_off w b" "\<not> dcb_queued b d"
| stepped: "sock_reach ctl interest s'"
    if "sock_reach ctl interest (Some s)" "sock_step ctl interest s s'"

section \<open>Every step keeps the invariant\<close>

lemma elsewhere_ok:
  assumes ok: "sock_ok interest k s" and other: "elsewhere interest s b"
  shows "sock_ok interest k (s\<lparr>ev_base := b\<rparr>)"
proof -
  note o = other [unfolded elsewhere_def]
  have same: "ev_fd (evs b e) = ev_fd (evs (ev_base s) e)" "ev_events (evs b e) = ev_events (evs (ev_base s) e)"
    "EVLIST_INIT \<in> flags (ev_base s) e \<Longrightarrow> EVLIST_INIT \<in> flags b e" "event_off e (ev_base s) \<Longrightarrow> event_off e b"
    if "e = ev_read s \<or> e = ev_write s" for e using o that by auto
  have queued: "sock_queued (s\<lparr>ev_base := b\<rparr>) = sock_queued s" using o by (simp add: sock_queued_def)
  have "sock_events (s\<lparr>ev_base := b\<rparr>)" if "sock_events s"
    using that same by (auto simp: sock_events_def Let_def)
  moreover have "bufferevent_getfd (s\<lparr>ev_base := b\<rparr>) = bufferevent_getfd s"
    using same(1) [of "ev_read s"] by (simp add: bufferevent_getfd_def)
  ultimately show ?thesis
    using ok o same(4) unfolding sock_ok_def queued
    by (simp add: sock_buffers_def callbacks_gone_def split: if_splits)
qed

lemma free_ok:
  assumes contract: "epoll_contract ctl interest" and steady: "epoll_steady ctl interest"
    and live: "live interest k s" and held: "\<not> user_freed s"
  shows "\<exists>s'. bufferevent_free ctl s = Some s' \<and> sock_ok interest k s' \<and> user_freed s'"
proof -
  define s0 where "s0 = (bufferevent_setcb None None None None s)\<lparr>user_freed := True\<rparr>"
  note f = live_facts [OF live]
  have "sock_events s0" "sock_buffers s0" "callbacks_gone s0"
    using f(6,7) by (simp_all add: s0_def bufferevent_setcb_def sock_events_def sock_buffers_def callbacks_gone_def Let_def)
  moreover have "refcnt s0 = of_bool (sock_queued s0) + Suc k"
    using f(10) held by (simp add: s0_def bufferevent_setcb_def sock_queued_def)
  ultimately have "live interest (Suc k) s0"
    using f(1-3) by (simp add: live_iff s0_def bufferevent_setcb_def)
  then obtain s' where "bufferevent_decref ctl s0 = Some s'" "sock_ok interest k s'" "user_freed s' = user_freed s0"
    using decref_ok [OF contract steady] by blast
  then show ?thesis using f(1) by (simp add: bufferevent_free_def s0_def)
qed

lemma setcb_ok:
  assumes "live interest k s" "\<not> user_freed s"
  shows "live interest k (bufferevent_setcb r w e x s)"
  using live_facts [OF assms(1)] assms(2)
  by (simp add: live_iff bufferevent_setcb_def sock_queued_def sock_events_def sock_buffers_def Let_def)

lemma live_sock_ok: "live interest k s \<Longrightarrow> sock_ok interest k s"
  by (simp add: live_def)

lemma sock_ok_held: "sock_ok interest (Suc k) s \<Longrightarrow> live interest (Suc k) s"
  unfolding live_def by (simp add: sock_ok_def)

lemma sock_ok_user: "sock_ok interest k s \<Longrightarrow> \<not> user_freed s \<Longrightarrow> live interest k s"
  unfolding live_def by (simp add: sock_ok_def)

lemma bev_call_ok:
  fixes s :: "('e, 'd, 'k, 'b, 'f, 'x) bufferevent"
  assumes contract: "epoll_contract ctl interest" and steady: "epoll_steady ctl interest"
    and ok: "sock_ok interest k s" and call: "call_ok interest c s"
  shows "\<exists>s'. bev_call ctl c s = Some s' \<and> sock_ok interest k s'"
proof (cases "user_freed s")
  case True
  then obtain b where "c = Bev_elsewhere b" using call by (cases c) (simp_all add: call_ok_def)
  then show ?thesis using elsewhere_ok [OF ok] call by (simp add: call_ok_def bev_call_def)
next
  case False
  have live: "live interest k s" by (rule sock_ok_user [OF ok False])
  show ?thesis
  proof (cases c)
    case (Bev_setcb r w e x)
    then show ?thesis
      using live_sock_ok [OF setcb_ok [OF live False]] live_facts(1) [OF live] by (simp add: bev_call_def)
  next
    case (Bev_write mem alloc alloc' data)
    then show ?thesis
      using bufferevent_write_ok [OF contract live, of data mem alloc alloc'] call
      by (auto simp: bev_call_def call_ok_def calm_def live_def)
  next
    case (Bev_read mem n)
    then have "min n (length (buffered (inbuf s))) < 2 ^ 31" using call by (simp add: call_ok_def min_less_iff_disj)
    from bufferevent_read_ok [OF contract steady live this, of mem] Bev_read show ?thesis
      by (auto simp: bev_call_def calm_def live_def)
  next
    case (Bev_enable mem event)
    then show ?thesis
      using bufferevent_enable_ok [OF contract steady live, of mem event] by (auto simp: bev_call_def calm_def live_def)
  next
    case (Bev_disable event)
    then show ?thesis
      using bufferevent_disable_ok [OF contract steady live, of event] by (auto simp: bev_call_def calm_def live_def)
  next
    case (Bev_setwatermark mem alloc events low high)
    then have "alloc \<or> read_watermarks_cb s \<noteq> None" using call by (simp add: call_ok_def)
    from setwatermark_ok [OF contract steady live this, of mem events low high] Bev_setwatermark show ?thesis
      by (auto simp: bev_call_def calm_def live_def)
  next
    case (Bev_set_timeouts mem tr tw)
    then have "\<And>t. tr = Some t \<Longrightarrow> normal t" "\<And>t. tw = Some t \<Longrightarrow> normal t" using call by (simp_all add: call_ok_def)
    from set_timeouts_ok [where mem = mem and tr = tr and tw = tw, OF contract steady live this] Bev_set_timeouts show ?thesis
      by (auto simp: bev_call_def live_def)
  next
    case (Bev_connect mem cn err sa)
    then show ?thesis
      using socket_connect_ok [OF contract steady live, of mem cn err sa] by (auto simp: bev_call_def calm_def live_def)
  next
    case Bev_free
    then show ?thesis using free_ok [OF contract steady live False] by (auto simp: bev_call_def)
  next
    case (Bev_elsewhere b)
    then show ?thesis using elsewhere_ok [OF ok] call by (simp add: call_ok_def bev_call_def)
  qed
qed

lemma bev_calls_ok:
  assumes "epoll_contract ctl interest" "epoll_steady ctl interest"
  shows "sock_ok interest k s \<Longrightarrow> calls_ok ctl interest cs s \<Longrightarrow>
    \<exists>s'. bev_calls ctl cs s = Some s' \<and> sock_ok interest k s'"
proof (induction cs arbitrary: s)
  case Nil
  then show ?case by simp
next
  case (Cons c cs)
  then obtain s1 where "bev_call ctl c s = Some s1" "sock_ok interest k s1"
    using bev_call_ok [OF assms, of k s c] by auto
  then show ?case using Cons.IH [of s1] Cons.prems(2) by simp
qed

section \<open>Deferred callbacks\<close>

lemma run_user_ok:
  assumes contract: "epoll_contract ctl interest" and steady: "epoll_steady ctl interest"
    and user: "user_ok ctl interest user" and live: "live interest 1 s" and held: "\<not> user_freed s"
  shows "\<exists>s'. run_user ctl user cb s = Some s' \<and> live interest 1 s'"
  using bev_calls_ok [OF contract steady live_sock_ok [OF live], of "user cb s"] user live held sock_ok_held [of interest 0]
  by (auto simp: user_ok_def run_user_def)

text \<open>A callback is there, so the user has not freed the socket.\<close>

lemma callback_held:
  assumes "live interest k s" "readcb s \<noteq> None \<or> writecb s \<noteq> None \<or> errorcb s \<noteq> None"
  shows "\<not> user_freed s"
  using live_facts(5) [OF assms(1)] assms(2) by (auto simp: callbacks_gone_def)

lemma deferred_each_ok:
  assumes contract: "epoll_contract ctl interest" and steady: "epoll_steady ctl interest"
    and user: "user_ok ctl interest user" and live: "live interest 1 s"
  shows "\<exists>s'. deferred_connected ctl user s = Some s' \<and> live interest 1 s'"
    "\<exists>s'. deferred_read ctl user s = Some s' \<and> live interest 1 s'"
    "\<exists>s'. deferred_write ctl user s = Some s' \<and> live interest 1 s'"
    "\<exists>s'. deferred_event ctl user s = Some s' \<and> live interest 1 s'"
  using run_user_ok [OF contract steady user live_pending(3) [OF live, where ?p3.0 = "eventcb_pending s - {BEV_EVENT_CONNECTED}"],
      of "ErrorCb (the (errorcb s)) {BEV_EVENT_CONNECTED} (cbarg s)"]
    run_user_ok [OF contract steady user live_pending(1) [OF live, where ?p1.0 = False],
      of "ReadCb (the (readcb s)) (cbarg s)"]
    run_user_ok [OF contract steady user live_pending(2) [OF live, where ?p2.0 = False],
      of "WriteCb (the (writecb s)) (cbarg s)"]
    run_user_ok [OF contract steady user live_pending(4) [OF live, where ?p3.0 = "{}" and ?p4.0 = None],
      of "ErrorCb (the (errorcb s)) (eventcb_pending s) (cbarg s)"]
    callback_held [OF live] live
  by (simp_all add: deferred_connected_def deferred_read_def deferred_write_def deferred_event_def)

lemma run_deferred_ok:
  assumes contract: "epoll_contract ctl interest" and steady: "epoll_steady ctl interest"
    and user: "user_ok ctl interest user" and live: "live interest 1 s"
  shows "\<exists>s'. bufferevent_run_deferred_callbacks_locked ctl user s = Some s' \<and> sock_ok interest 0 s'"
proof -
  note each = deferred_each_ok [OF contract steady user]
  obtain s1 where s1: "deferred_connected ctl user s = Some s1" "live interest 1 s1" using each(1) [OF live] by blast
  obtain s2 where s2: "deferred_read ctl user s1 = Some s2" "live interest 1 s2" using each(2) [OF s1(2)] by blast
  obtain s3 where s3: "deferred_write ctl user s2 = Some s3" "live interest 1 s3" using each(3) [OF s2(2)] by blast
  obtain s4 where s4: "deferred_event ctl user s3 = Some s4" "live interest (Suc 0) s4"
    using each(4) [OF s3(2)] by auto
  obtain s5 where "bufferevent_decref ctl s4 = Some s5" "sock_ok interest 0 s5"
    using decref_ok [OF contract steady s4(2)] by blast
  then show ?thesis
    using s1(1) s2(1) s3(1) s4(1) live_facts(1) [OF live] by (simp add: bufferevent_run_deferred_callbacks_locked_def)
qed

lemma take_deferred_live:
  fixes s :: "('e, 'd, 'k, 'b, 'f, 'x) bufferevent"
  assumes live: "live interest 0 s" and first: "defer_queue (ev_base s) = deferred s # q"
  shows "live interest 1 (s\<lparr>ev_base := take_deferred (ev_base s)\<rparr>)"
proof -
  define s1 where "s1 = s\<lparr>ev_base := take_deferred (ev_base s)\<rparr>"
  note f = live_facts [OF live]
  have "deferred_wf (ev_base s)" using f(2) by (simp add: loop_inv_def base_wf_def core_wf_def)
  then have queued: "sock_queued s" using first by (simp add: deferred_wf_def sock_queued_def)
  have "loop_inv interest (ev_base s1)"
    using loop_inv_pop_deferred [OF f(2) first] first by (simp add: s1_def take_deferred_def)
  moreover have "\<not> sock_queued s1" using first by (simp add: s1_def sock_queued_def take_deferred_def)
  then have "refcnt s1 = of_bool (\<not> user_freed s1) + of_bool (sock_queued s1) + 1"
    using f(10) queued by (simp add: s1_def)
  moreover have "evs (ev_base s1) = evs (ev_base s)" by (simp add: s1_def take_deferred_def)
  then have "sock_events s1"
    using f(6) by (simp add: sock_events_def event_off_def Let_def s1_def)
  moreover have "sock_buffers s1" "user_freed s \<longrightarrow> callbacks_gone s1"
    using f(5,7) by (simp_all add: s1_def sock_buffers_def callbacks_gone_def)
  ultimately have "live interest 1 s1" using f(1,3) unfolding live_iff by (simp add: s1_def)
  then show ?thesis by (simp add: s1_def)
qed

section \<open>The loop\<close>

lemma take_event_live:
  fixes s :: "('e, 'd, 'k, 'b, 'f, 'x) bufferevent"
  assumes contract: "epoll_contract ctl interest" and steady: "epoll_steady ctl interest"
    and live: "live interest k s" and e: "e = ev_read s \<or> e = ev_write s"
    and on: "EVLIST_ACTIVE \<in> flags (ev_base s) e"
  shows "\<exists>b. take_event ctl mem e (ev_base s) = Some b \<and> live interest k (s\<lparr>ev_base := b\<rparr>) \<and>
    same_view s (s\<lparr>ev_base := b\<rparr>)"
proof -
  note f = live_facts [OF live]
  obtain b where b: "take_event ctl mem e (ev_base s) = Some b" "loop_inv interest b" "base_frame (ev_base s) b"
    "\<forall>x. x \<noteq> e \<longrightarrow> evs b x = evs (ev_base s) x" "EVLIST_INIT \<in> flags b e"
    "ev_events (evs b e) = ev_events (evs (ev_base s) e)"
    using take_event_ok [OF contract steady f(2) on] by blast
  have "\<not> event_off e (ev_base s)" using on by (auto simp: event_off_def)
  then have "sock_events (s\<lparr>ev_base := b\<rparr>)"
    using f(3,6) b(4-6) e by (auto simp: sock_events_def event_off_def Let_def)
  moreover have "\<forall>x. x \<noteq> ev_read s \<longrightarrow> x \<noteq> ev_write s \<longrightarrow> evs b x = evs (ev_base s) x" using b(4) e by auto
  ultimately have "base_step interest s b" using b(2,3) by (simp add: base_step_def)
  then show ?thesis using b(1) base_step_live [OF _ live] by blast
qed

text \<open>An active event belongs to a socket that is not freed.\<close>

lemma active_live:
  assumes "sock_ok interest k s" "e = ev_read s \<or> e = ev_write s" "EVLIST_ACTIVE \<in> flags (ev_base s) e"
  shows "live interest k s"
  using assms by (auto simp: live_def sock_ok_def event_off_def split: if_splits)

lemma sock_readable_ok:
  fixes s :: "('e, 'd, 'k, 'b, 'f, 'x) bufferevent"
  assumes contract: "epoll_contract ctl interest" and steady: "epoll_steady ctl interest" and live: "live interest k s"
    and on: "EVLIST_ACTIVE \<in> flags (ev_base s) (ev_read s)" and readv: "readv_contract (rd_readv ans)"
  shows "\<exists>s' bs s1. sock_readable ctl mem ans s = Some s' \<and> live interest k s' \<and> same_view s s1 \<and>
    read_suspended s1 = read_suspended s \<and> sock_received (rd_readv ans) bs s1 s'"
proof -
  obtain b where b: "take_event ctl mem (ev_read s) (ev_base s) = Some b" "live interest k (s\<lparr>ev_base := b\<rparr>)"
    "same_view s (s\<lparr>ev_base := b\<rparr>)"
    using take_event_live [OF contract steady live _ on] by blast
  obtain s' bs where "bufferevent_readcb ctl mem ans (ev_res (evs b (ev_read s))) (s\<lparr>ev_base := b\<rparr>) = Some s'"
    "live interest k s'" "sock_received (rd_readv ans) bs (s\<lparr>ev_base := b\<rparr>) s'"
    using bufferevent_readcb_ok [OF contract steady b(2) readv] by blast
  moreover have "read_suspended (s\<lparr>ev_base := b\<rparr>) = read_suspended s" by simp
  ultimately show ?thesis using b(1,3) unfolding sock_readable_def by fastforce
qed

lemma sock_writable_ok:
  fixes s :: "('e, 'd, 'k, 'b, 'f, 'x) bufferevent"
  assumes contract: "epoll_contract ctl interest" and steady: "epoll_steady ctl interest" and live: "live interest k s"
    and on: "EVLIST_ACTIVE \<in> flags (ev_base s) (ev_write s)" and writev: "writev_contract (wr_writev ans)"
  shows "\<exists>s' n s1. sock_writable ctl mem ans s = Some s' \<and> live interest k s' \<and> same_view s s1 \<and>
    write_suspended s1 = write_suspended s \<and> sock_sent (wr_writev ans) n s1 s'"
proof -
  obtain b where b: "take_event ctl mem (ev_write s) (ev_base s) = Some b" "live interest k (s\<lparr>ev_base := b\<rparr>)"
    "same_view s (s\<lparr>ev_base := b\<rparr>)"
    using take_event_live [OF contract steady live _ on] by blast
  obtain s' n where "bufferevent_writecb ctl mem ans (ev_res (evs b (ev_write s))) (s\<lparr>ev_base := b\<rparr>) = Some s'"
    "live interest k s'" "sock_sent (wr_writev ans) n (s\<lparr>ev_base := b\<rparr>) s'"
    using bufferevent_writecb_ok [OF contract steady b(2) writev] by blast
  moreover have "write_suspended (s\<lparr>ev_base := b\<rparr>) = write_suspended s" by simp
  ultimately show ?thesis using b(1,3) unfolding sock_writable_def by fastforce
qed

lemma sock_deferred_ok:
  fixes s :: "('e, 'd, 'k, 'b, 'f, 'x) bufferevent"
  assumes contract: "epoll_contract ctl interest" and steady: "epoll_steady ctl interest"
    and ok: "sock_ok interest 0 s" and first: "defer_queue (ev_base s) = deferred s # q" and user: "user_ok ctl interest user"
  shows "\<exists>s'. sock_deferred ctl user s = Some s' \<and> sock_ok interest 0 s'"
proof -
  have "deferred_wf (ev_base s)" using ok by (simp add: sock_ok_def loop_inv_def base_wf_def core_wf_def)
  then have "sock_queued s" using first by (simp add: deferred_wf_def sock_queued_def)
  then have live: "live interest 0 s" using ok by (simp add: live_def sock_ok_def)
  show ?thesis unfolding sock_deferred_def by (rule run_deferred_ok [OF contract steady user take_deferred_live [OF live first]])
qed

lemma sock_step_ok:
  assumes "sock_step ctl interest s r" "epoll_contract ctl interest" "epoll_steady ctl interest" "sock_ok interest 0 s"
  shows "\<exists>s'. r = Some s' \<and> sock_ok interest 0 s'"
  using assms
proof cases
  case (readable k mem)
  then show ?thesis
    using sock_readable_ok [where ans = k and mem = mem, OF assms(2,3) active_live [OF assms(4) disjI1 [OF refl]]]
    by (auto dest: live_sock_ok)
next
  case (writable k mem)
  then show ?thesis
    using sock_writable_ok [where ans = k and mem = mem, OF assms(2,3) active_live [OF assms(4) disjI2 [OF refl]]]
    by (auto dest: live_sock_ok)
next
  case (deferred_callbacks q user)
  then show ?thesis using sock_deferred_ok [OF assms(2,3,4)] by blast
next
  case (calls c)
  then show ?thesis using bev_call_ok [OF assms(2,3,4)] by blast
qed

text \<open>What the loop does with other events, and when it makes an event of the socket active, is such a change.\<close>

lemma take_other_elsewhere:
  fixes s :: "('e, 'd, 'k, 'b, 'f, 'x) bufferevent"
  assumes "epoll_contract ctl interest" "epoll_steady ctl interest" "sock_ok interest k s"
    and "e \<noteq> ev_read s" "e \<noteq> ev_write s" "EVLIST_ACTIVE \<in> flags (ev_base s) e"
  shows "\<exists>b. take_event ctl mem e (ev_base s) = Some b \<and> elsewhere interest s b"
proof -
  have inv: "loop_inv interest (ev_base s)" using assms(3) by (simp add: sock_ok_def)
  obtain b where b: "take_event ctl mem e (ev_base s) = Some b" "loop_inv interest b" "base_frame (ev_base s) b"
    "\<forall>x. x \<noteq> e \<longrightarrow> evs b x = evs (ev_base s) x"
    using take_event_ok [OF assms(1,2) inv assms(6)] by blast
  then have "evs b (ev_read s) = evs (ev_base s) (ev_read s)" "evs b (ev_write s) = evs (ev_base s) (ev_write s)"
    using assms(4,5) by auto
  then show ?thesis using b(1-3) by (auto simp: elsewhere_def base_frame_def event_off_def)
qed

lemma active_elsewhere:
  fixes s :: "('e, 'd, 'k, 'b, 'f, 'x) bufferevent"
  assumes "sock_ok interest k s" "EVLIST_INSERTED \<in> flags (ev_base s) e"
  shows "\<exists>b. event_active_nolock e res (ev_base s) = Some b \<and> elsewhere interest s b"
proof -
  have inv: "loop_inv interest (ev_base s)" using assms(1) by (simp add: sock_ok_def)
  have wf: "base_wf interest (ev_base s)" and times: "\<And>x. times_ev (evs (ev_base s) x)"
    using inv by (simp_all add: loop_inv_def)
  have init: "EVLIST_INIT \<in> flags (ev_base s) e"
    using core_wf_event [of "ev_base s" e] wf assms(2) by (auto simp: base_wf_def event_wf_def)
  obtain b where b: "event_active_nolock e res (ev_base s) = Some b" "base_wf interest b"
    "event_activated e res (ev_base s) b"
    using event_active_ok [OF wf init] by blast
  have frame: "base_frame (ev_base s) b" using b(3) by (simp add: event_activated_def)
  have "loop_inv interest b"
    by (rule loop_invI [OF inv b(2) frame]) (rule event_activated_times [OF b(3) init times])
  moreover have "\<not> event_off e (ev_base s)" using assms(2) by (auto simp: event_off_def)
  moreover have "evs b = (evs (ev_base s))(e := (evs (ev_base s) e)
       \<lparr>ev_flags := insert EVLIST_ACTIVE (flags (ev_base s) e),
        ev_res := (if EVLIST_ACTIVE \<in> flags (ev_base s) e then ev_res (evs (ev_base s) e) \<union> res else res)\<rparr>)"
    using b(3) by (simp only: event_activated_def)
  ultimately have "elsewhere interest s b"
    using frame by (auto simp: elsewhere_def base_frame_def event_off_def)
  then show ?thesis using b(1) by blast
qed

section \<open>From the making on\<close>

lemma socket_new_ok:
  assumes new: "bufferevent_socket_new mem fd r w d b = Some s" and inv: "loop_inv interest b" and ne: "r \<noteq> w"
    and off: "event_off r b" "event_off w b" and idle: "\<not> dcb_queued b d"
  shows "live interest 0 s" "\<not> user_freed s" "bufferevent_getfd s = fd" "has_cbs (outbuf s) = mem 3"
proof -
  define b2 where "b2 = event_assign w fd {EV_WRITE, EV_PERSIST} (event_assign r fd {EV_READ, EV_PERSIST} b)"
  note a = assign_two_ok [OF inv ne off, where fd = fd, folded b2_def]
  have s: "ev_base s = b2" "ev_read s = r" "ev_write s = w" "deferred s = d" "refcnt s = 1" "\<not> freed s"
    "\<not> user_freed s" "outbuf s = evbuffer_freeze True (evbuffer_new\<lparr>has_cbs := mem 3\<rparr>)"
    "inbuf s = evbuffer_freeze False evbuffer_new"
    "timeout_read s = evutil_timerclear" "timeout_write s = evutil_timerclear"
    using new by (auto simp: bufferevent_socket_new_def bufferevent_init_common_def b2_def Let_def split: if_splits)
  have "sock_events s" using a by (simp add: sock_events_def s event_off_def)
  moreover have "sock_buffers s"
    using evbuffer_new_ok
    by (simp add: sock_buffers_def s evbuffer_freeze_def evbuffer_new_def evbuffer_wf_def tight_def buffered_def)
  moreover have "\<not> sock_queued s" using a(2) idle by (simp add: sock_queued_def s base_frame_def)
  ultimately show "live interest 0 s" using a(1) ne by (simp add: live_iff s)
  show "\<not> user_freed s" by (rule s(7))
  show "bufferevent_getfd s = fd" using a(6) by (simp add: bufferevent_getfd_def s)
  show "has_cbs (outbuf s) = mem 3" by (simp add: s evbuffer_freeze_def)
qed

lemma sock_reach_ok:
  assumes "sock_reach ctl interest r" "epoll_contract ctl interest" "epoll_steady ctl interest"
  shows "\<exists>s. r = Some s \<and> sock_ok interest 0 s"
  using assms
proof (induction rule: sock_reach.induct)
  case (made mem fd r w d b s)
  show ?case using live_sock_ok [OF socket_new_ok(1) [OF made.hyps]] by blast
next
  case (stepped s s')
  then show ?case using sock_step_ok by blast
qed


text \<open>
  C23: A freed socket goes quietly: when its last deferred callback is taken, none of the user's
  functions is called - whatever they are - and the memory and the descriptor are given back in that step.
\<close>

theorem freed_socket_goes_quietly:
  assumes "epoll_contract ctl interest" "epoll_steady ctl interest" "sock_reach ctl interest (Some s)"
    and "user_freed s" "defer_queue (ev_base s) = deferred s # q"
  shows "\<exists>s'. (\<forall>user. sock_deferred ctl user s = Some s') \<and> freed s' \<and> buffered (outbuf s') = buffered (outbuf s) \<and>
    closed_fds s' = closed_fds s @ (if 0 \<le> bufferevent_getfd s then [bufferevent_getfd s] else [])"
proof -
  have ok: "sock_ok interest 0 s" using sock_reach_ok [OF assms(3,1,2)] by simp
  have "deferred_wf (ev_base s)" using ok by (simp add: sock_ok_def loop_inv_def base_wf_def core_wf_def)
  then have queued: "sock_queued s" using assms(5) by (simp add: deferred_wf_def sock_queued_def)
  then have live: "live interest 0 s" using ok by (simp add: live_def sock_ok_def)
  define s1 where "s1 = s\<lparr>ev_base := take_deferred (ev_base s)\<rparr>"
  have live1: "live interest (Suc 0) s1"
    using take_deferred_live [OF live assms(5)] by (simp add: s1_def)
  have gone: "readcb s1 = None" "writecb s1 = None" "errorcb s1 = None" "refcnt s1 = 1"
    using live_facts(5,10) [OF live] assms(4) queued by (simp_all add: s1_def callbacks_gone_def)
  have fd: "bufferevent_getfd s1 = bufferevent_getfd s" by (simp add: s1_def bufferevent_getfd_def take_deferred_def)
  obtain s2 where s2: "bufferevent_decref ctl s1 = Some s2" "released s1 s2"
    using decref_ok [OF assms(1,2) live1] by blast
  have "sock_deferred ctl user s = Some s2" for user
    using s2(1) gone live_facts(1) [OF live1]
    by (simp add: sock_deferred_def s1_def [symmetric] bufferevent_run_deferred_callbacks_locked_def
        deferred_connected_def deferred_read_def deferred_write_def deferred_event_def)
  moreover have "outbuf s2 = outbuf s1"
    using s2(1) by (auto simp: bufferevent_decref_def be_socket_destruct_def on_base'_def on_base_def Let_def
        split: if_splits bind_splits)
  ultimately show ?thesis using s2(2) gone(4) fd by (auto simp: released_def s1_def)
qed

section \<open>Two faults of the library\<close>

text \<open>Without memory for the callback on the input, a high watermark is set through a null pointer.\<close>

lemma setwatermark_without_memory:
  "\<not> freed s \<Longrightarrow> read_watermarks_cb s = None \<Longrightarrow> high \<noteq> 0 \<Longrightarrow>
   bufferevent_setwatermark ctl mem False {EV_READ} low high s = None"
  by (simp add: bufferevent_setwatermark_def)

text \<open>A new socket that cannot be made non-blocking is not closed again.\<close>

lemma connect_leaks_socket:
  fixes s :: "('e, 'd, 'k, 'b, 'f, 'x) bufferevent"
  assumes "epoll_contract ctl interest" "epoll_steady ctl interest" "live interest k s"
    and "bufferevent_getfd s < 0" "0 \<le> cn_socket cn" "cn_nonblock cn < 0"
  shows "bufferevent_socket_connect ctl mem cn err True s = Some (-1, s)"
proof -
  have fd: "bufferevent_getfd (bufferevent_incref s) < 0"
    using assms(4) by (simp add: bufferevent_getfd_def bufferevent_incref_def)
  have "with_ref ctl (\<lambda>s. Some (-1 :: int, s)) s = Some (-1, s)"
    using live_facts(1,4) [OF assms(3)] by (cases s) (simp add: with_ref_def bufferevent_incref_def bufferevent_decref_def Let_def)
  moreover have "bufferevent_socket_connect ctl mem cn err True s = with_ref ctl (\<lambda>s. Some (-1, s)) s"
    using fd assms(6) by (simp add: bufferevent_socket_connect_def with_ref_def Let_def)
  ultimately show ?thesis by simp
qed

end
