(* ===== verification/BufSocket.thy ===== *)
theory BufSocket
  imports BevLife Event
begin

text \<open>
  The buffered sockets of \<^verbatim>\<open>event.cpp\<close> on libevent.  \<^verbatim>\<open>Event\<close> describes a socket by what the rest of the proxy sees
  of it: its bytes, whether it reads, its watermarks.  Here that description is an abstraction of the socket of
  libevent, and each function of \<^verbatim>\<open>event.cpp\<close> does to the one what it does to the other.
\<close>

section \<open>The socket the proxy sees\<close>

definition bufev_of :: "('e, 'd, 'k, u8, 'f, 'x) bufferevent \<Rightarrow> bufev" where
  "bufev_of s =
     \<lparr>ev_input = buffered (inbuf s), ev_output = buffered (outbuf s), ev_reading = (EV_READ \<in> enabled s),
      bufev.wm_low = int (event_watermark.wm_low (wm_read s)), bufev.wm_high = int (event_watermark.wm_high (wm_read s)),
      wm_write_low = int (event_watermark.wm_low (wm_write s)),
      wm_write_high = int (event_watermark.wm_high (wm_write s))\<rparr>"

definition size_t_of :: "int \<Rightarrow> nat" where
  "size_t_of i = nat (size_of_int i)"

lemma size_t_of_int: "- (2 ^ 31) \<le> i \<Longrightarrow> int (size_t_of i) = size_of_int i"
  by (simp add: size_t_of_def size_of_int_def)

lemma wm_of_simps [simp]:
  "event_watermark.wm_low (wm_of low high) = low" "event_watermark.wm_high (wm_of low high) = high"
  by (simp_all add: wm_of_def)

lemma view_bufev:
  assumes "same_view s s'"
  shows "bufev_of s' = bufev_of s"
  using assms by (simp add: bufev_of_def same_view_def)

section \<open>The functions of event.cpp\<close>

lemma event_write_refines:
  fixes s :: "('e, 'd, 'k, u8, 'f, 'x) bufferevent"
  assumes "epoll_contract ctl interest" "live interest k s" "length bs + EVBUFFER_CHAIN_SIZE \<le> 2 ^ 62"
  shows "\<exists>r s'. bufferevent_write ctl mem alloc alloc' bs s = Some (r, s') \<and> live interest k s' \<and>
    (r = 0 \<and> bufev_of s' = event_write (bufev_of s) bs \<or>
     r = -1 \<and> \<not> (alloc \<and> alloc') \<and> bufev_of s' = bufev_of s)"
proof -
  obtain r s' where s': "bufferevent_write ctl mem alloc alloc' bs s = Some (r, s')"
    "calm interest k (s\<lparr>outbuf := outbuf s'\<rparr>) s'"
    "r = 0 \<and> buffered (outbuf s') = buffered (outbuf s) @ bs \<or>
     r = -1 \<and> \<not> (alloc \<and> alloc') \<and> buffered (outbuf s') = buffered (outbuf s)"
    using bufferevent_write_ok [OF assms, of mem alloc alloc'] by blast
  have "bufev_of s' = bufev_of (s\<lparr>outbuf := outbuf s'\<rparr>)" using s'(2) by (auto simp: calm_def intro: view_bufev)
  then show ?thesis using s' by (auto simp: calm_def bufev_of_def event_write_def)
qed

lemma event_read_refines:
  fixes s :: "('e, 'd, 'k, u8, 'f, 'x) bufferevent"
  assumes "epoll_contract ctl interest" "epoll_steady ctl interest" "live interest k s"
    and "0 \<le> sz" "sz < 2 ^ 31" "nat sz \<le> length buf"
  shows "\<exists>r bs s'. bufferevent_read ctl mem (size_t_of sz) s = Some (r, bs, s') \<and> live interest k s' \<and>
    event_read (bufev_of s) (Some buf) sz = Some (r, bufev_of s', Some (bs @ drop (length bs) buf))"
proof -
  have sz: "size_t_of sz = nat sz" using assms(4) by (simp add: size_t_of_def size_of_int_def)
  have "min (nat sz) (length (buffered (inbuf s))) < 2 ^ 31" using assms(4,5) by (simp add: min_less_iff_disj nat_less_iff)
  then obtain s' where s': "bufferevent_read ctl mem (nat sz) s =
      Some (int (min (nat sz) (length (buffered (inbuf s)))), take (nat sz) (buffered (inbuf s)), s')"
    "calm interest k (s\<lparr>inbuf := inbuf s'\<rparr>) s'" "buffered (inbuf s') = drop (nat sz) (buffered (inbuf s))"
    using bufferevent_read_ok [OF assms(1-3), of "nat sz" mem] by blast
  have "bufev_of s' = bufev_of (s\<lparr>inbuf := inbuf s'\<rparr>)" using s'(2) by (auto simp: calm_def intro: view_bufev)
  then have view: "bufev_of s' = (bufev_of s)\<lparr>ev_input := drop (nat sz) (buffered (inbuf s))\<rparr>"
    by (simp add: bufev_of_def s'(3))
  have input: "ev_input (bufev_of s) = buffered (inbuf s)" by (simp add: bufev_of_def)
  have "event_read (bufev_of s) (Some buf) sz =
      Some (int (min (nat sz) (length (buffered (inbuf s)))), bufev_of s',
            Some (take (nat sz) (buffered (inbuf s)) @ drop (length (take (nat sz) (buffered (inbuf s)))) buf))"
    using event_read_within [OF assms(4,6), of "bufev_of s"] by (auto simp: input view Let_def min_def)
  then show ?thesis using s'(1,2) unfolding sz calm_def by blast
qed

lemma event_switch_refines:
  fixes s :: "('e, 'd, 'k, u8, 'f, 'x) bufferevent"
  assumes "epoll_contract ctl interest" "epoll_steady ctl interest" "live interest k s"
  shows "\<exists>s'. bufferevent_disable ctl {EV_READ} s = Some (0, s') \<and> live interest k s' \<and>
      bufev_of s' = event_disable_read (bufev_of s)"
    "\<exists>r s'. bufferevent_enable ctl mem {EV_READ} s = Some (r, s') \<and> live interest k s' \<and>
      bufev_of s' = event_enable_read (bufev_of s)"
proof -
  obtain s1 where s1: "bufferevent_disable ctl {EV_READ} s = Some (0, s1)"
    "calm interest k (s\<lparr>enabled := enabled s - {EV_READ}\<rparr>) s1"
    using bufferevent_disable_ok [OF assms, of "{EV_READ}"] by blast
  then show "\<exists>s'. bufferevent_disable ctl {EV_READ} s = Some (0, s') \<and> live interest k s' \<and>
      bufev_of s' = event_disable_read (bufev_of s)"
    using view_bufev [of "s\<lparr>enabled := enabled s - {EV_READ}\<rparr>" s1]
    by (simp add: calm_def bufev_of_def event_disable_read_def)
  obtain r s2 where s2: "bufferevent_enable ctl mem {EV_READ} s = Some (r, s2)"
    "calm interest k (s\<lparr>enabled := enabled s \<union> {EV_READ}\<rparr>) s2"
    using bufferevent_enable_ok [OF assms, of mem "{EV_READ}"] by blast
  then show "\<exists>r s'. bufferevent_enable ctl mem {EV_READ} s = Some (r, s') \<and> live interest k s' \<and>
      bufev_of s' = event_enable_read (bufev_of s)"
    using view_bufev [of "s\<lparr>enabled := enabled s \<union> {EV_READ}\<rparr>" s2]
    by (simp add: calm_def bufev_of_def event_enable_read_def)
qed

lemma event_watermark_refines:
  fixes s :: "('e, 'd, 'k, u8, 'f, 'x) bufferevent"
  assumes "epoll_contract ctl interest" "epoll_steady ctl interest" "live interest k s"
    and "alloc \<or> read_watermarks_cb s \<noteq> None" "- (2 ^ 31) \<le> low" "- (2 ^ 31) \<le> high"
  shows "\<exists>s'. bufferevent_setwatermark ctl mem alloc {EV_READ} (size_t_of low) (size_t_of high) s = Some s' \<and>
      live interest k s' \<and> bufev_of s' = event_set_read_watermark (bufev_of s) low high"
    "\<exists>s'. bufferevent_setwatermark ctl mem alloc {EV_WRITE} (size_t_of low) (size_t_of high) s = Some s' \<and>
      live interest k s' \<and> bufev_of s' = event_set_write_watermark (bufev_of s) low high"
proof -
  note sizes = size_t_of_int [OF assms(5)] size_t_of_int [OF assms(6)]
  note set = setwatermark_ok [OF assms(1-4), of mem _ "size_t_of low" "size_t_of high"]
  obtain s1 where s1: "bufferevent_setwatermark ctl mem alloc {EV_READ} (size_t_of low) (size_t_of high) s = Some s1"
    "calm interest k (s\<lparr>inbuf := inbuf s1, read_watermarks_cb := read_watermarks_cb s1, wm_write := wm_write s,
       wm_read := wm_of (size_t_of low) (size_t_of high)\<rparr>) s1" "buffered (inbuf s1) = buffered (inbuf s)"
    using set [of "{EV_READ}"] by auto
  have "bufev_of s1 = event_set_read_watermark (bufev_of s) low high"
    using s1(2,3) by (simp add: calm_def same_view_def bufev_of_def event_set_read_watermark_def sizes)
  then show "\<exists>s'. bufferevent_setwatermark ctl mem alloc {EV_READ} (size_t_of low) (size_t_of high) s = Some s' \<and>
      live interest k s' \<and> bufev_of s' = event_set_read_watermark (bufev_of s) low high"
    using s1(1,2) by (simp add: calm_def)
  obtain s2 where s2: "bufferevent_setwatermark ctl mem alloc {EV_WRITE} (size_t_of low) (size_t_of high) s = Some s2"
    "calm interest k (s\<lparr>inbuf := inbuf s2, read_watermarks_cb := read_watermarks_cb s2,
       wm_write := wm_of (size_t_of low) (size_t_of high), wm_read := wm_read s\<rparr>) s2"
    "buffered (inbuf s2) = buffered (inbuf s)"
    using set [of "{EV_WRITE}"] by auto
  have "bufev_of s2 = event_set_write_watermark (bufev_of s) low high"
    using s2(2,3) by (simp add: calm_def same_view_def bufev_of_def event_set_write_watermark_def sizes)
  then show "\<exists>s'. bufferevent_setwatermark ctl mem alloc {EV_WRITE} (size_t_of low) (size_t_of high) s = Some s' \<and>
      live interest k s' \<and> bufev_of s' = event_set_write_watermark (bufev_of s) low high"
    using s2(1,2) by (simp add: calm_def)
qed

text \<open>
  \<^verbatim>\<open>event_connect\<close> with a host name; \<open>gai\<close> is the result of \<^verbatim>\<open>getaddrinfo\<close>, \<open>cn\<close> and \<open>err\<close> those of the calls below.
\<close>

definition event_connect_host ::
    "'k epoll_ctl \<Rightarrow> (nat \<Rightarrow> bool) \<Rightarrow> int \<Rightarrow> connect_io \<Rightarrow> sock_errno option \<Rightarrow>
     ('e, 'd, 'k, 'b, 'f, 'x) bufferevent \<Rightarrow> (int \<times> ('e, 'd, 'k, 'b, 'f, 'x) bufferevent) option" where
  "event_connect_host ctl mem gai cn err s =
     (if gai \<noteq> 0 then Some (-1, s)
      else do {
        (ret, s) \<leftarrow> bufferevent_socket_connect ctl mem cn err True s;
        Some (if ret \<noteq> 0 then -1 else 0, s)
      })"

lemma event_connect_host_refines:
  fixes s :: "('e, 'd, 'k, u8, 'f, 'x) bufferevent"
  assumes "epoll_contract ctl interest" "epoll_steady ctl interest" "live interest k s"
  shows "\<exists>r s'. event_connect_host ctl mem gai cn err s = Some (r, s') \<and> r \<in> {0, -1} \<and> live interest k s' \<and>
    bufev_of s' = bufev_of s"
proof -
  obtain r s' where s': "bufferevent_socket_connect ctl mem cn err True s = Some (r, s')"
    "calm interest k (s\<lparr>closed_fds := closed_fds s'\<rparr>) s'"
    using socket_connect_ok [OF assms] by blast
  have "bufev_of s' = bufev_of s" using s'(2) by (simp add: calm_def same_view_def bufev_of_def)
  then show ?thesis using s' assms(3) by (simp add: event_connect_host_def calm_def)
qed

section \<open>The loop\<close>

lemma readable_refines:
  fixes s :: "('e, 'd, 'k, u8, 'f, 'x) bufferevent"
  assumes "epoll_contract ctl interest" "epoll_steady ctl interest" "live interest k s"
    and "EVLIST_ACTIVE \<in> flags (ev_base s) (ev_read s)" "readv_contract (rd_readv ans)"
    and "length (buffered (inbuf s)) < 2 ^ 63"
  shows "\<exists>s' bs. sock_readable ctl mem ans s = Some s' \<and> live interest k s' \<and>
    (bs \<noteq> [] \<longrightarrow> may_deliver (bufev_of s) (length bs) \<and> (\<exists>vs. rd_readv ans vs = Some bs)) \<and>
    (bufev_of s' = (bufev_of s)\<lparr>ev_input := ev_input (bufev_of s) @ bs\<rparr> \<or>
     bs = [] \<and> bufev_of s' = event_disable_read (bufev_of s) \<and>
       (errorcb s \<noteq> None \<longrightarrow> BEV_EVENT_READING \<in> eventcb_pending s' \<and> sock_queued s')) \<and>
    (bs \<noteq> [] \<and> readcb s \<noteq> None \<and> event_watermark.wm_low (wm_read s) \<le> length (buffered (inbuf s')) \<longrightarrow>
       readcb_pending s' \<and> sock_queued s')"
proof -
  obtain s' bs s1 where s': "sock_readable ctl mem ans s = Some s'" "live interest k s'" "same_view s s1"
    "read_suspended s1 = read_suspended s" "sock_received (rd_readv ans) bs s1 s'"
    using sock_readable_ok [OF assms(1-5)] by blast
  have ev: "\<not> event_off (ev_read s) (ev_base s)" using assms(4) by (auto simp: event_off_def)
  have on: "EV_READ \<in> enabled s" using live_facts(6) [OF assms(3)] ev by (auto simp: sock_events_def Let_def)
  note v = s'(3) [unfolded same_view_def] and r = s'(5) [unfolded sock_received_def]
  have view: "bufev_of s' = (bufev_of s)\<lparr>ev_input := buffered (inbuf s) @ bs, ev_reading := (EV_READ \<in> enabled s')\<rparr>"
    using v r by (simp add: bufev_of_def same_view_def)
  have "may_deliver (bufev_of s) (length bs) \<and> (\<exists>vs. rd_readv ans vs = Some bs)" if "bs \<noteq> []"
    using that r v on assms(6) by (auto simp: may_deliver_def bufev_of_def)
  moreover have "bufev_of s' = (bufev_of s)\<lparr>ev_input := ev_input (bufev_of s) @ bs\<rparr> \<or>
     bs = [] \<and> bufev_of s' = event_disable_read (bufev_of s) \<and>
       (errorcb s \<noteq> None \<longrightarrow> BEV_EVENT_READING \<in> eventcb_pending s' \<and> sock_queued s')"
  proof (cases "enabled s' = enabled s1")
    case True
    then show ?thesis using v by (simp add: view) (simp add: bufev_of_def)
  next
    case False
    then have "enabled s' = enabled s1 - {EV_READ}" "bs = []"
      "errorcb s1 \<noteq> None \<longrightarrow> BEV_EVENT_READING \<in> eventcb_pending s' \<and> sock_queued s'"
      using r by auto
    then show ?thesis using v by (simp add: view) (simp add: bufev_of_def event_disable_read_def)
  qed
  moreover have "bs \<noteq> [] \<and> readcb s \<noteq> None \<and> event_watermark.wm_low (wm_read s) \<le> length (buffered (inbuf s')) \<longrightarrow>
       readcb_pending s' \<and> sock_queued s'" using r v by auto
  ultimately show ?thesis using s'(1,2) by blast
qed

lemma writable_refines:
  fixes s :: "('e, 'd, 'k, u8, 'f, 'x) bufferevent"
  assumes "epoll_contract ctl interest" "epoll_steady ctl interest" "live interest k s"
    and "EVLIST_ACTIVE \<in> flags (ev_base s) (ev_write s)" "writev_contract (wr_writev ans)"
  shows "\<exists>s' n. sock_writable ctl mem ans s = Some s' \<and> live interest k s' \<and> n \<le> length (ev_output (bufev_of s)) \<and>
    bufev_of s' = (bufev_of s)\<lparr>ev_output := drop n (ev_output (bufev_of s))\<rparr> \<and>
    (0 < n \<longrightarrow> (\<exists>vs rest. wr_writev ans vs = int n \<and> n \<le> length (concat vs) \<and> concat vs @ rest = ev_output (bufev_of s))) \<and>
    (0 < n \<and> writecb s \<noteq> None \<and> event_watermark.wm_low (wm_write s) \<ge> length (ev_output (bufev_of s')) \<longrightarrow>
       writecb_pending s' \<and> sock_queued s')"
proof -
  obtain s' n s1 where s': "sock_writable ctl mem ans s = Some s'" "live interest k s'" "same_view s s1"
    "write_suspended s1 = write_suspended s" "sock_sent (wr_writev ans) n s1 s'"
    using sock_writable_ok [OF assms] by blast
  note v = s'(3) [unfolded same_view_def] and r = s'(5) [unfolded sock_sent_def]
  have "enabled s' = enabled s1 \<or> enabled s' = enabled s1 - {EV_WRITE}" using r by auto
  then have "EV_READ \<in> enabled s' \<longleftrightarrow> EV_READ \<in> enabled s" using v by auto
  then have "bufev_of s' = (bufev_of s)\<lparr>ev_output := drop n (ev_output (bufev_of s))\<rparr>"
    using v r by (simp add: bufev_of_def same_view_def)
  moreover have "n \<le> length (ev_output (bufev_of s))" using r v by (simp add: bufev_of_def)
  moreover have "\<exists>vs rest. wr_writev ans vs = int n \<and> n \<le> length (concat vs) \<and> concat vs @ rest = ev_output (bufev_of s)"
    if "0 < n"
    using that r v by (simp add: bufev_of_def)
  moreover have "0 < n \<and> writecb s \<noteq> None \<and> event_watermark.wm_low (wm_write s) \<ge> length (ev_output (bufev_of s')) \<longrightarrow>
       writecb_pending s' \<and> sock_queued s'" using r v by (auto simp: bufev_of_def)
  ultimately show ?thesis using s'(1,2) by blast
qed

section \<open>Properties\<close>



text \<open>
  What the loop does to a live socket when the kernel reports it writable: what is still
  buffered afterwards is the output without the bytes the kernel has taken, which were the first ones; and when
  no more is left than the low watermark allows, the user's write callback is called later.
\<close>

theorem writable_socket_sends:
  fixes s :: "('e, 'd, 'k, u8, 'f, 'x) bufferevent"
  assumes "epoll_contract ctl interest" "epoll_steady ctl interest" "sock_reach ctl interest (Some s)"
    and "EVLIST_ACTIVE \<in> flags (ev_base s) (ev_write s)" "writev_contract (wr_writev ans)"
  shows "\<exists>s' n. sock_writable ctl mem ans s = Some s' \<and> n \<le> length (ev_output (bufev_of s)) \<and>
    bufev_of s' = (bufev_of s)\<lparr>ev_output := drop n (ev_output (bufev_of s))\<rparr> \<and>
    (0 < n \<longrightarrow> (\<exists>vs rest. wr_writev ans vs = int n \<and> n \<le> length (concat vs) \<and> concat vs @ rest = ev_output (bufev_of s))) \<and>
    (0 < n \<and> writecb s \<noteq> None \<and> event_watermark.wm_low (wm_write s) \<ge> length (ev_output (bufev_of s')) \<longrightarrow>
       writecb_pending s' \<and> sock_queued s')"
proof -
  have "sock_ok interest 0 s" using sock_reach_ok [OF assms(3,1,2)] by simp
  then have live: "live interest 0 s" by (rule active_live [OF _ disjI2 [OF refl] assms(4)])
  from writable_refines [OF assms(1,2) live assms(4,5), of mem] show ?thesis
    by (elim exE conjE) (intro exI conjI; assumption)
qed

end
