(* ===== verification/BevExample.thy ===== *)
theory BevExample
  imports EvExample BufSocket
begin

text \<open>
  A buffered socket on the kernel of one table of \<^verbatim>\<open>EvExample\<close>, on which the theorems on buffered sockets are seen
  to apply: it is made, gets callbacks, is enabled and written to, the kernel delivers three bytes and takes two, and
  it is freed while a deferred callback waits.
\<close>

type_synonym sock = "(nat, nat, table, u8, nat, nat) bufferevent"

abbreviation always :: "nat \<Rightarrow> bool" where "always \<equiv> \<lambda>_. True"

abbreviation reached :: "sock option \<Rightarrow> bool" where "reached \<equiv> sock_reach table_ctl (\<lambda>k. k)"

definition sock_made :: sock where
  "sock_made = the (bufferevent_socket_new always 5 1 2 3 fresh)"

lemma sock_made: "reached (Some sock_made)"
proof (rule sock_reach.made [OF _ fresh_inv])
  have "(case bufferevent_socket_new always 5 (1 :: nat) 2 (3 :: nat) fresh :: sock option of None \<Rightarrow> False | Some s \<Rightarrow> True)"
    by code_simp
  then show "bufferevent_socket_new always 5 1 2 3 fresh = Some sock_made"
    by (auto simp: sock_made_def split: option.splits)
  show "event_off 1 fresh" "event_off 2 fresh" "\<not> dcb_queued fresh 3" unfolding event_off_def by code_simp+
qed simp

text \<open>A call the user may make leads on.\<close>

lemma call_reached:
  assumes "reached (Some s)" "call_ok (\<lambda>k. k) c s"
  shows "bev_call table_ctl c s = Some (the (bev_call table_ctl c s))" "reached (Some (the (bev_call table_ctl c s)))"
proof -
  have ok: "sock_ok (\<lambda>k. k) 0 s" using sock_reach_ok [OF assms(1) table_contract table_steady] by simp
  show eq: "bev_call table_ctl c s = Some (the (bev_call table_ctl c s))"
    using bev_call_ok [OF table_contract table_steady ok assms(2)] by auto
  show "reached (Some (the (bev_call table_ctl c s)))"
    using stepped [OF assms(1) calls [OF assms(2)]] eq by simp
qed

text \<open>With callbacks, reading and writing enabled.\<close>

definition sock_heard :: sock where "sock_heard = the (bev_call table_ctl (Bev_setcb (Some 1) (Some 2) (Some 3) (Some 9)) sock_made)"
definition sock_open :: sock where "sock_open = the (bev_call table_ctl (Bev_enable always {EV_READ, EV_WRITE}) sock_heard)"

lemma sock_open: "reached (Some sock_open)" "\<not> user_freed sock_open" "bufev_of sock_open = event_enable_read Event.event_new"
  "EVLIST_INSERTED \<in> flags (ev_base sock_open) 1" "EVLIST_INSERTED \<in> flags (ev_base sock_open) 2"
proof -
  have "\<not> user_freed sock_made" by code_simp
  then have heard: "reached (Some sock_heard)"
    unfolding sock_heard_def by (intro call_reached(2) [OF sock_made]) (simp add: call_ok_def)
  have "\<not> user_freed sock_heard" by code_simp
  then show "reached (Some sock_open)"
    unfolding sock_open_def by (intro call_reached(2) [OF heard]) (simp add: call_ok_def)
  show "\<not> user_freed sock_open" by code_simp
  show "bufev_of sock_open = event_enable_read Event.event_new" by code_simp
  show "EVLIST_INSERTED \<in> flags (ev_base sock_open) 1" "EVLIST_INSERTED \<in> flags (ev_base sock_open) 2" by code_simp+
qed



text \<open>The kernel reports the socket readable.\<close>

definition sock_ready :: sock where
  "sock_ready = sock_open\<lparr>ev_base := the (event_active_nolock 1 {EV_READ} (ev_base sock_open))\<rparr>"

lemma active_reached:
  assumes "reached (Some s)" "EVLIST_INSERTED \<in> flags (ev_base s) e"
  shows "reached (Some (s\<lparr>ev_base := the (event_active_nolock e res (ev_base s))\<rparr>))"
proof -
  have ok: "sock_ok (\<lambda>k. k) 0 s" using sock_reach_ok [OF assms(1) table_contract table_steady] by simp
  obtain b where "event_active_nolock e res (ev_base s) = Some b" "elsewhere (\<lambda>k. k) s b"
    using active_elsewhere [OF ok assms(2)] by blast
  then show ?thesis
    using call_reached(2) [OF assms(1), of "Bev_elsewhere b"] by (simp add: call_ok_def bev_call_def)
qed

definition three_bytes :: "u8 read_io" where
  "three_bytes = \<lparr>rd_alloc = True, rd_readable = 3, rd_readv = (\<lambda>vs. Some (take (sum_list vs) [65, 66, 67])), rd_errno = E_AGAIN\<rparr>"


text \<open>Two bytes are written while the event for writing is active, and the kernel takes one of them.\<close>

lemma write_pending_base:
  assumes "bufferevent_write ctl mem alloc alloc' data s = Some (r, s')"
    and "event_pending (ev_write s) {EV_WRITE} (ev_base s) \<noteq> {}"
  shows "ev_base s' = ev_base s \<and> ev_write s' = ev_write s"
  using assms by (auto simp: bufferevent_write_def bufferevent_socket_outbuf_cb_def on_base'_def on_base_def
      split: if_splits bind_splits option.splits)

definition sock_sending :: sock where
  "sock_sending = sock_open\<lparr>ev_base := the (event_active_nolock 2 {EV_WRITE} (ev_base sock_open))\<rparr>"

definition sock_written :: sock where
  "sock_written = the (bev_call table_ctl (Bev_write always True True [104, 105]) sock_sending)"

lemma sock_written:
  "reached (Some sock_written)" "EVLIST_ACTIVE \<in> flags (ev_base sock_written) (ev_write sock_written)"
  "ev_output (bufev_of sock_written) = [104, 105]"
proof -
  have r: "reached (Some sock_sending)" unfolding sock_sending_def by (rule active_reached [OF sock_open(1,5)])
  have u: "\<not> user_freed sock_sending" by code_simp
  have out: "ev_output (bufev_of sock_sending) = []" by code_simp
  have pend: "event_pending (ev_write sock_sending) {EV_WRITE} (ev_base sock_sending) \<noteq> {}" by code_simp
  have act: "EVLIST_ACTIVE \<in> flags (ev_base sock_sending) (ev_write sock_sending)" by code_simp
  have c: "call_ok (\<lambda>k. k) (Bev_write always True True [104, 105]) sock_sending"
    using u by (simp add: call_ok_def EVBUFFER_CHAIN_SIZE_def)
  show "reached (Some sock_written)" unfolding sock_written_def by (rule call_reached(2) [OF r c])
  have "sock_ok (\<lambda>k. k) 0 sock_sending" using sock_reach_ok [OF r table_contract table_steady] by simp
  then have live: "live (\<lambda>k. k) 0 sock_sending" by (rule sock_ok_user [OF _ u])
  have small: "length [104, 105 :: u8] + EVBUFFER_CHAIN_SIZE \<le> 2 ^ 62" by (simp add: EVBUFFER_CHAIN_SIZE_def)
  obtain r s' where s': "bufferevent_write table_ctl always True True [104, 105] sock_sending = Some (r, s')"
    "bufev_of s' = Event.event_write (bufev_of sock_sending) [104, 105]"
    using event_write_refines [OF table_contract live small, of always True True] by blast
  have "sock_written = s'" using s'(1) by (simp add: sock_written_def bev_call_def)
  then show "EVLIST_ACTIVE \<in> flags (ev_base sock_written) (ev_write sock_written)"
    "ev_output (bufev_of sock_written) = [104, 105]"
    using write_pending_base [OF s'(1) pend] act s'(2) out by (simp_all add: Event.event_write_def)
qed

definition takes_one :: "u8 write_io" where
  "takes_one = \<lparr>so_error = Some None, wr_writev = (\<lambda>vs. if concat vs = [] then 0 else 1), wr_errno = E_AGAIN\<rparr>"

lemma writable_socket_sends_witness:
  "\<exists>s' n. sock_writable table_ctl always takes_one sock_written = Some s' \<and> n \<le> 1 \<and>
     ev_output (bufev_of s') = drop n [104, 105]"
proof -
  have "writev_contract (wr_writev takes_one)" by (auto simp: writev_contract_def takes_one_def Suc_le_eq)
  from writable_socket_sends [OF table_contract table_steady sock_written(1,2) this, of always]
  obtain s' n where s': "sock_writable table_ctl always takes_one sock_written = Some s'"
    "bufev_of s' = (bufev_of sock_written)\<lparr>ev_output := drop n (ev_output (bufev_of sock_written))\<rparr>"
    "0 < n \<longrightarrow> (\<exists>vs rest. wr_writev takes_one vs = int n \<and> n \<le> length (concat vs) \<and>
       concat vs @ rest = ev_output (bufev_of sock_written))" by blast
  have "n \<le> 1" using s'(3) by (auto simp: takes_one_def split: if_splits)
  then show ?thesis using s'(1,2) sock_written(3) by auto
qed

text \<open>A connection that fails at once leaves a deferred callback behind; then the socket is freed.\<close>

definition no_route :: connect_io where
  "no_route = \<lparr>cn_socket = 7, cn_nonblock = 0, cn_connect = Some (E_OTHER 113)\<rparr>"

definition sock_failed :: sock where
  "sock_failed = the (bev_call table_ctl (Bev_connect always no_route None True) sock_open)"

definition sock_left :: sock where "sock_left = the (bev_call table_ctl Bev_free sock_failed)"

lemma freed_socket_goes_quietly_witness:
  "\<not> freed sock_left \<and> (\<exists>s'. (\<forall>user. sock_deferred table_ctl user sock_left = Some s') \<and> freed s' \<and> closed_fds s' = [5])"
proof -
  have failed: "reached (Some sock_failed)"
    unfolding sock_failed_def by (rule call_reached(2) [OF sock_open(1)]) (simp add: call_ok_def sock_open(2))
  have "\<not> user_freed sock_failed" by code_simp
  then have left: "reached (Some sock_left)"
    unfolding sock_left_def by (intro call_reached(2) [OF failed]) (simp add: call_ok_def)
  have s: "user_freed sock_left" "defer_queue (ev_base sock_left) = deferred sock_left # []" "\<not> freed sock_left"
    "closed_fds sock_left = []" "bufferevent_getfd sock_left = 5" by code_simp+
  from freed_socket_goes_quietly [OF table_contract table_steady left s(1,2)] s(3-5) show ?thesis by auto
qed

end
